(* ===== verification/Prelude.thy ===== *)
theory Prelude
  imports Main "HOL-Library.Word"
begin

text \<open>
  Shared vocabulary of the development: machine types, the results of operations that may
  abort the process, byte regions of memory, network byte order, and the C conversions
  between \<open>int\<close>, \<open>unsigned int\<close> and \<open>size_t\<close>.

  Conventions used by every component theory:
  \<^item> \<open>uint8_t\<close>, \<open>uint16_t\<close> and \<open>uint32_t\<close> values are words of that width, so their
    arithmetic wraps as in C;
  \<^item> \<open>int\<close> and \<open>time_t\<close> values are of type \<open>int\<close>: signed overflow is undefined in C, so
    the model is exact wherever the C code is defined, and conversions to and from the
    unsigned types are written out with \<open>u32_of_int\<close> and \<open>int_of_u32\<close>;
  \<^item> the global variable \<open>now\<close> (otime.c) is an explicit argument \<open>now\<close> of the operations
    that read it;
  \<^item> a failed \<open>ASSERT\<close> or a \<open>msg (M_FATAL, ...)\<close> ends the process: such an operation
    returns a \<open>result\<close>, with \<open>Inl\<close> for the abort;
  \<^item> logging (\<open>msg\<close>, \<open>dmsg\<close> at a non-fatal level) has no effect on the modelled state and is
    left out, as are the garbage-collection arenas that only serve the log messages.
\<close>

unbundle bit_operations_syntax

section \<open>Proof collections\<close>

named_theorems wf_intros \<open>introduction rules for the well-formedness invariants\<close>
named_theorems buf_simps \<open>unfolding rules of the buffer primitives\<close>

section \<open>Machine types\<close>

type_synonym byte = "8 word"
type_synonym u16 = "16 word"
type_synonym u32 = "32 word"
type_synonym time_t = int

definition u32_of_int :: "int \<Rightarrow> u32" where
  "u32_of_int x = word_of_int x"

definition int_of_u32 :: "u32 \<Rightarrow> int" where
  "int_of_u32 w = sint w"

definition size_t_of_int :: "int \<Rightarrow> int" where
  "size_t_of_int x = x mod 2 ^ 64"

definition c_div :: "int \<Rightarrow> int \<Rightarrow> int" where
  \<comment> \<open>division of C: rounds towards zero\<close>
  "c_div a b = sgn a * sgn b * (\<bar>a\<bar> div \<bar>b\<bar>)"

definition c_mod :: "int \<Rightarrow> int \<Rightarrow> int" where
  "c_mod a b = a - b * c_div a b"

lemma c_div_nonneg [simp]: "0 \<le> a \<Longrightarrow> 0 < b \<Longrightarrow> c_div a b = a div b"
  by (cases "a = 0") (auto simp: c_div_def sgn_if)

lemma c_mod_nonneg [simp]: "0 \<le> a \<Longrightarrow> 0 < b \<Longrightarrow> c_mod a b = a mod b"
  by (simp add: c_mod_def minus_mult_div_eq_mod)

lemma size_t_of_int_small [simp]: "0 \<le> x \<Longrightarrow> x < 2 ^ 64 \<Longrightarrow> size_t_of_int x = x"
  by (simp add: size_t_of_int_def)

lemma size_t_of_int_neg: "x < 0 \<Longrightarrow> - (2 ^ 63) \<le> x \<Longrightarrow> 2 ^ 63 \<le> size_t_of_int x"
proof -
  assume x: "x < 0" "- (2 ^ 63) \<le> x"
  have "x mod 2 ^ 64 = (x + 2 ^ 64) mod 2 ^ 64" by simp
  also have "\<dots> = x + 2 ^ 64" using x by (intro mod_pos_pos_trivial) simp_all
  finally show ?thesis using x by (simp add: size_t_of_int_def)
qed

lemma int_of_u32_small: "uint w < 2 ^ 31 \<Longrightarrow> int_of_u32 w = uint w"
proof -
  assume w: "uint w < 2 ^ 31"
  have "- (2 ^ 31) \<le> uint w" by (rule order_trans [OF _ uint_nonnegative]) simp
  from this w have "signed_take_bit 31 (uint w) = uint w" by (rule signed_take_bit_int_eq_self)
  then show ?thesis by (simp add: int_of_u32_def sint_uint)
qed

lemma unat_bound: "unat (w :: 'a::len word) < 2 ^ LENGTH('a)"
  by (rule unsigned_less)

lemma unat_Suc_less: "(w :: 'a::len word) < v \<Longrightarrow> unat (w + 1) = Suc (unat w)"
proof -
  assume "w < v"
  then have "unat w + 1 < 2 ^ LENGTH('a)"
    using unat_bound [of v] unfolding word_less_nat_alt by linarith
  then show ?thesis by (simp add: unat_word_ariths)
qed

lemma unat_eq_of_nat: "unat (w :: 'a::len word) = k \<Longrightarrow> w = of_nat k"
  by auto

section \<open>Operations that may abort\<close>

datatype fault =
    AssertFailed   \<comment> \<open>\<open>ASSERT (x)\<close> with \<open>x\<close> false: \<open>assert_failed\<close> of error.c\<close>
  | FatalError     \<comment> \<open>\<open>msg (M_FATAL, ...)\<close> or \<open>msg (M_ERR, ...)\<close>\<close>
  | NullDeref      \<comment> \<open>a \<open>NULL\<close> pointer is dereferenced\<close>
  | DanglingPointer \<comment> \<open>an object is used or freed after it was freed\<close>
  | BufferOverflow \<comment> \<open>a copy runs past the end of an array\<close>
  | DivisionByZero \<comment> \<open>an integer division by zero: the process gets \<open>SIGFPE\<close>\<close>
  | Diverges \<comment> \<open>the call does not return\<close>

type_synonym 'a result = "fault + 'a"

fun bind_result :: "'a result \<Rightarrow> ('a \<Rightarrow> 'b result) \<Rightarrow> 'b result" where
  "bind_result (Inl e) f = Inl e"
| "bind_result (Inr x) f = f x"

definition returns :: "'a result option \<Rightarrow> 'a result" where
  \<comment> \<open>the outcome of a loop that may run forever\<close>
  "returns m = (case m of None \<Rightarrow> Inl Diverges | Some r \<Rightarrow> r)"

definition assert_that :: "bool \<Rightarrow> 'a result \<Rightarrow> 'a result" where
  "assert_that c m = (if c then m else Inl AssertFailed)"

lemma returns_simps [simp]: "returns None = Inl Diverges" "returns (Some r) = r"
  by (simp_all add: returns_def)

lemma assert_that_True [simp]: "assert_that True m = m"
  by (simp add: assert_that_def)

lemma assert_that_False [simp]: "assert_that False m = Inl AssertFailed"
  by (simp add: assert_that_def)

lemma assert_that_Inr [simp]: "assert_that c m = Inr x \<longleftrightarrow> c \<and> m = Inr x"
  by (simp add: assert_that_def)

lemma bind_result_Inr: "bind_result m f = Inr y \<longleftrightarrow> (\<exists>x. m = Inr x \<and> f x = Inr y)"
  by (cases m) auto

lemma bind_result_cong [fundef_cong]:
  "m = m' \<Longrightarrow> (\<And>x. m' = Inr x \<Longrightarrow> f x = g x) \<Longrightarrow> bind_result m f = bind_result m' g"
  by (cases m') auto

section \<open>Byte regions of memory\<close>

text \<open>
  A block obtained from \<open>malloc\<close> is the list of its bytes.  \<open>mem_read\<close> and \<open>mem_write\<close> are
  \<open>memcpy\<close> from and to a block; the component theories prove that their arguments lie
  inside the block.
\<close>

definition mem_read :: "'a list \<Rightarrow> nat \<Rightarrow> nat \<Rightarrow> 'a list" where
  "mem_read ds i n = take n (drop i ds)"

definition mem_write :: "'a list \<Rightarrow> nat \<Rightarrow> 'a list \<Rightarrow> 'a list" where
  "mem_write ds i bs = take i ds @ bs @ drop (i + length bs) ds"

lemma length_mem_read [simp]: "i + n \<le> length ds \<Longrightarrow> length (mem_read ds i n) = n"
  by (simp add: mem_read_def)

lemma mem_read_0 [simp]: "mem_read ds i 0 = []"
  by (simp add: mem_read_def)

lemma length_mem_write [simp]:
  "i + length bs \<le> length ds \<Longrightarrow> length (mem_write ds i bs) = length ds"
  by (simp add: mem_write_def)

lemma mem_write_Nil [simp]: "mem_write ds i [] = ds"
  by (simp add: mem_write_def)

lemma mem_read_write_same [simp]:
  "i + length bs \<le> length ds \<Longrightarrow> n = length bs \<Longrightarrow> mem_read (mem_write ds i bs) i n = bs"
  by (simp add: mem_read_def mem_write_def)

lemma mem_read_append:
  "mem_read ds i (m + n) = mem_read ds i m @ mem_read ds (i + m) n"
  by (simp add: mem_read_def take_add add.commute)

lemma nth_mem_write:
  "i + length bs \<le> length ds \<Longrightarrow> k < length ds \<Longrightarrow>
   mem_write ds i bs ! k = (if i \<le> k \<and> k < i + length bs then bs ! (k - i) else ds ! k)"
  by (auto simp: mem_write_def nth_append)

lemma nth_mem_read: "i + n \<le> length ds \<Longrightarrow> k < n \<Longrightarrow> mem_read ds i n ! k = ds ! (i + k)"
  by (simp add: mem_read_def)

lemma mem_read_write_before:
  "i + length bs \<le> length ds \<Longrightarrow> j + n \<le> i \<Longrightarrow> mem_read (mem_write ds i bs) j n = mem_read ds j n"
  by (rule nth_equalityI) (auto simp: nth_mem_read nth_mem_write)

lemma mem_read_write_after:
  "i + length bs \<le> length ds \<Longrightarrow> i + length bs \<le> j \<Longrightarrow>
   mem_read (mem_write ds i bs) j n = mem_read ds j n"
  by (simp add: mem_read_def mem_write_def)

lemma mem_read_write_append:
  assumes "i + n + length bs \<le> length ds" and "j = i + n" and "k = n + length bs"
  shows "mem_read (mem_write ds j bs) i k = mem_read ds i n @ bs"
  using assms by (simp add: mem_read_append mem_read_write_before)

lemma mem_read_write_prepend:
  assumes "i + k \<le> length ds" and "k = length bs + n"
  shows "mem_read (mem_write ds i bs) i k = bs @ mem_read ds (i + length bs) n"
  using assms by (simp add: mem_read_append mem_read_write_after)

lemma mem_read_take: "mem_read ds i n = take n (mem_read ds i (n + m))"
  by (simp add: mem_read_def)

lemma mem_read_drop: "mem_read ds (i + n) m = drop n (mem_read ds i (n + m))"
  by (simp add: mem_read_def drop_take add.commute)

section \<open>Network byte order\<close>

text \<open>
  The bytes that \<open>htonl\<close> or \<open>htons\<close> followed by a copy of the variable put in memory, and the
  value that the reverse direction reads.  They do not depend on the byte order of the host.
\<close>

definition bytes_of_u32 :: "u32 \<Rightarrow> byte list" where
  "bytes_of_u32 w = [ucast (drop_bit 24 w), ucast (drop_bit 16 w), ucast (drop_bit 8 w), ucast w]"

definition u32_of_bytes :: "byte list \<Rightarrow> u32" where
  "u32_of_bytes bs =
     push_bit 24 (ucast (bs ! 0)) OR push_bit 16 (ucast (bs ! 1))
     OR push_bit 8 (ucast (bs ! 2)) OR ucast (bs ! 3)"

definition bytes_of_u16 :: "u16 \<Rightarrow> byte list" where
  "bytes_of_u16 w = [ucast (drop_bit 8 w), ucast w]"

definition u16_of_bytes :: "byte list \<Rightarrow> u16" where
  "u16_of_bytes bs = push_bit 8 (ucast (bs ! 0)) OR ucast (bs ! 1)"

lemma length_bytes_of_u32 [simp]: "length (bytes_of_u32 w) = 4"
  by (simp add: bytes_of_u32_def)

lemma length_bytes_of_u16 [simp]: "length (bytes_of_u16 w) = 2"
  by (simp add: bytes_of_u16_def)

lemma u32_of_bytes_of_u32 [simp]: "u32_of_bytes (bytes_of_u32 w) = w"
proof (rule bit_word_eqI)
  fix n assume "n < LENGTH(32)"
  then consider "n < 8" | "8 \<le> n" "n < 16" | "16 \<le> n" "n < 24" | "24 \<le> n" "n < 32"
    by fastforce
  then show "bit (u32_of_bytes (bytes_of_u32 w)) n = bit w n"
    by cases (auto simp: u32_of_bytes_def bytes_of_u32_def bit_simps)
qed

lemma u16_of_bytes_of_u16 [simp]: "u16_of_bytes (bytes_of_u16 w) = w"
  by (rule bit_word_eqI) (auto simp: u16_of_bytes_def bytes_of_u16_def bit_simps)

section \<open>Lists\<close>

lemma take_append_take: "take n (xs @ take n ys) = take n (xs @ ys)"
  by (simp add: min_def)

lemma upt_0_Suc: "[0..<Suc n] = 0 # map Suc [0..<n]"
  by (simp only: map_Suc_upt upt_conv_Cons zero_less_Suc)

lemma find_Some_nth:
  "List.find P xs = Some x \<Longrightarrow> \<exists>i < length xs. xs ! i = x \<and> P x \<and> (\<forall>j < i. \<not> P (xs ! j))"
  by (auto simp: find_Some_iff)

fun find_index_from :: "('a \<Rightarrow> bool) \<Rightarrow> nat \<Rightarrow> 'a list \<Rightarrow> nat option" where
  \<comment> \<open>the loops \<open>for (i = 0; i < n; ++i) if (P (&a[i])) return i;\<close>\<close>
  "find_index_from P i [] = None"
| "find_index_from P i (x # xs) = (if P x then Some i else find_index_from P (Suc i) xs)"

definition find_index :: "('a \<Rightarrow> bool) \<Rightarrow> 'a list \<Rightarrow> nat option" where
  "find_index P xs = find_index_from P 0 xs"

lemma find_index_from_None [simp]: "find_index_from P i xs = None \<longleftrightarrow> (\<forall>x \<in> set xs. \<not> P x)"
  by (induction xs arbitrary: i) auto

lemma find_index_from_Some:
  "find_index_from P i xs = Some k \<longleftrightarrow>
   (\<exists>j < length xs. k = i + j \<and> P (xs ! j) \<and> (\<forall>m < j. \<not> P (xs ! m)))"
proof (induction xs arbitrary: i)
  case Nil
  show ?case by simp
next
  case (Cons x xs)
  show ?case
  proof (cases "P x")
    case True
    then show ?thesis by (auto intro!: exI [of _ 0]) (metis gr0I nth_Cons_0)
  next
    case False
    have "(\<exists>j < length (x # xs). k = i + j \<and> P ((x # xs) ! j) \<and> (\<forall>m < j. \<not> P ((x # xs) ! m)))
          \<longleftrightarrow> (\<exists>j < length xs. k = Suc i + j \<and> P (xs ! j) \<and> (\<forall>m < j. \<not> P (xs ! m)))"
      using False by (simp add: Ex_less_Suc2 All_less_Suc2)
    with False Cons.IH show ?thesis by simp
  qed
qed

lemma find_index_None [simp]: "find_index P xs = None \<longleftrightarrow> (\<forall>x \<in> set xs. \<not> P x)"
  by (simp add: find_index_def)

lemma find_index_Some:
  "find_index P xs = Some k \<longleftrightarrow> k < length xs \<and> P (xs ! k) \<and> (\<forall>m < k. \<not> P (xs ! m))"
  by (auto simp: find_index_def find_index_from_Some)

end
