(* ===== verification/Buffer.thy ===== *)
theory Buffer
  imports Prelude
begin

text \<open>
  The packet buffers of buffer.h and buffer.c.

  A \<open>struct buffer\<close> owns a malloc'ed block of \<open>capacity\<close> bytes and exposes the \<open>len\<close> bytes
  that start at \<open>offset\<close>; headers are prepended by moving \<open>offset\<close> down.  The member \<open>data\<close>
  is the block itself (\<open>None\<close> for \<open>NULL\<close>), and a \<open>uint8_t *\<close> into the block is its index,
  \<open>None\<close> for \<open>NULL\<close>.  An operation that returns \<open>bool\<close> and updates its buffer returns
  both; a \<open>memcpy\<close> out of the buffer returns the bytes read.

  \<open>buf_ok\<close> is the invariant of a usable buffer and \<open>buf_contents\<close> its abstract view.  The
  locale \<open>byte_channel\<close> is what the protocol modules rely on.
\<close>

record buffer =
  b_capacity :: int
  b_offset :: int
  b_len :: int
  b_data :: "byte list option"

definition BUF_SIZE_MAX :: int where
  "BUF_SIZE_MAX = 1000000"

definition buf_block :: "buffer \<Rightarrow> byte list" where
  "buf_block b = (case b_data b of None \<Rightarrow> [] | Some ds \<Rightarrow> ds)"

definition buf_put :: "buffer \<Rightarrow> int \<Rightarrow> byte list \<Rightarrow> buffer" where
  \<comment> \<open>\<open>memcpy (buf->data + i, bs, ...)\<close>\<close>
  "buf_put b i bs = b\<lparr>b_data := map_option (\<lambda>ds. mem_write ds (nat i) bs) (b_data b)\<rparr>"

section \<open>Inline functions of buffer.h\<close>

definition buf_defined :: "buffer \<Rightarrow> bool" where
  "buf_defined b \<longleftrightarrow> b_data b \<noteq> None"

definition buf_valid :: "buffer \<Rightarrow> bool" where
  "buf_valid b \<longleftrightarrow> b_data b \<noteq> None \<and> b_len b \<ge> 0"

definition buf_bptr :: "buffer \<Rightarrow> int option" where
  "buf_bptr b = (if buf_valid b then Some (b_offset b) else None)"

definition buf_len :: "buffer \<Rightarrow> int" where
  "buf_len b = (if buf_valid b then b_len b else 0)"

definition buf_bend :: "buffer \<Rightarrow> int option" where
  "buf_bend b = map_option (\<lambda>p. p + buf_len b) (buf_bptr b)"

definition buf_blast :: "buffer \<Rightarrow> int option" where
  "buf_blast b = (if buf_len b > 0 then map_option (\<lambda>p. p + buf_len b - 1) (buf_bptr b) else None)"

definition buf_size_valid :: "int \<Rightarrow> bool" where
  \<comment> \<open>the argument is a \<open>size_t\<close>\<close>
  "buf_size_valid size \<longleftrightarrow> size < BUF_SIZE_MAX" for size

definition buf_size_valid_signed :: "int \<Rightarrow> bool" where
  "buf_size_valid_signed size \<longleftrightarrow> size \<ge> - BUF_SIZE_MAX \<and> size < BUF_SIZE_MAX" for size

definition buf_reset :: "buffer \<Rightarrow> buffer" where
  "buf_reset b = b\<lparr>b_capacity := 0, b_offset := 0, b_len := 0, b_data := None\<rparr>"

definition buf_reset_len :: "buffer \<Rightarrow> buffer" where
  "buf_reset_len b = b\<lparr>b_len := 0, b_offset := 0\<rparr>"

definition buf_init :: "buffer \<Rightarrow> int \<Rightarrow> bool \<times> buffer" where
  "buf_init b offset =
     (if offset < 0 \<or> offset > b_capacity b \<or> b_data b = None then (False, b)
      else (True, b\<lparr>b_len := 0, b_offset := offset\<rparr>))"

definition buf_set_write :: "buffer \<Rightarrow> byte list option \<Rightarrow> int \<Rightarrow> buffer result" where
  "buf_set_write b data size =
     (if \<not> buf_size_valid (size_t_of_int size) then Inl FatalError
      else Inr (b\<lparr>b_len := 0, b_offset := 0, b_capacity := size,
                 b_data := (if size > 0 then map_option (\<lambda>ds. ds[0 := 0]) data else data)\<rparr>))"
  for size

definition buf_set_read :: "buffer \<Rightarrow> byte list option \<Rightarrow> int \<Rightarrow> buffer result" where
  "buf_set_read b data size =
     (if \<not> buf_size_valid (size_t_of_int size) then Inl FatalError
      else Inr (b\<lparr>b_len := size, b_capacity := size, b_offset := 0, b_data := data\<rparr>))"
  for size

definition buf_safe :: "buffer \<Rightarrow> int \<Rightarrow> bool" where
  "buf_safe b n \<longleftrightarrow> buf_valid b \<and> buf_size_valid (size_t_of_int n)
     \<and> b_offset b + b_len b + n \<le> b_capacity b"

definition buf_safe_bidir :: "buffer \<Rightarrow> int \<Rightarrow> bool" where
  "buf_safe_bidir b n =
     (if buf_valid b \<and> buf_size_valid_signed n
      then (let newlen = b_len b + n in newlen \<ge> 0 \<and> b_offset b + newlen \<le> b_capacity b)
      else False)"

definition buf_forward_capacity :: "buffer \<Rightarrow> int" where
  "buf_forward_capacity b =
     (if buf_valid b
      then (let ret = b_capacity b - (b_offset b + b_len b) in if ret < 0 then 0 else ret)
      else 0)"

definition buf_forward_capacity_total :: "buffer \<Rightarrow> int" where
  "buf_forward_capacity_total b =
     (if buf_valid b
      then (let ret = b_capacity b - b_offset b in if ret < 0 then 0 else ret)
      else 0)"

definition buf_reverse_capacity :: "buffer \<Rightarrow> int" where
  "buf_reverse_capacity b = (if buf_valid b then b_offset b else 0)"

definition buf_inc_len :: "buffer \<Rightarrow> int \<Rightarrow> bool \<times> buffer" where
  "buf_inc_len b inc =
     (if \<not> buf_safe_bidir b inc then (False, b) else (True, b\<lparr>b_len := b_len b + inc\<rparr>))"

definition buf_prepend :: "buffer \<Rightarrow> int \<Rightarrow> int option \<times> buffer" where
  "buf_prepend b size =
     (if \<not> buf_valid b \<or> size < 0 \<or> size > b_offset b then (None, b)
      else (let b' = b\<lparr>b_offset := b_offset b - size, b_len := b_len b + size\<rparr>
            in (buf_bptr b', b')))" for size

definition buf_advance :: "buffer \<Rightarrow> int \<Rightarrow> bool \<times> buffer" where
  "buf_advance b size =
     (if \<not> buf_valid b \<or> size < 0 \<or> b_len b < size then (False, b)
      else (True, b\<lparr>b_offset := b_offset b + size, b_len := b_len b - size\<rparr>))" for size

definition buf_write_alloc :: "buffer \<Rightarrow> int \<Rightarrow> int option \<times> buffer" where
  "buf_write_alloc b size =
     (if \<not> buf_safe b size then (None, b)
      else (map_option (\<lambda>p. p + b_len b) (buf_bptr b), b\<lparr>b_len := b_len b + size\<rparr>))" for size

definition buf_write_alloc_prepend :: "buffer \<Rightarrow> int \<Rightarrow> bool \<Rightarrow> int option \<times> buffer" where
  "buf_write_alloc_prepend b size prepend =
     (if prepend then buf_prepend b size else buf_write_alloc b size)" for size

definition buf_read_alloc :: "buffer \<Rightarrow> int \<Rightarrow> int option \<times> buffer" where
  "buf_read_alloc b size =
     (if size < 0 \<or> b_len b < size then (None, b)
      else (buf_bptr b, b\<lparr>b_offset := b_offset b + size, b_len := b_len b - size\<rparr>))" for size

definition buf_write :: "buffer \<Rightarrow> byte list \<Rightarrow> bool \<times> buffer" where
  \<comment> \<open>the arguments \<open>src\<close> and \<open>size\<close> are the bytes \<open>src\<close> and their number\<close>
  "buf_write dest src =
     (case buf_write_alloc dest (int (length src)) of
        (None, d) \<Rightarrow> (False, d)
      | (Some cp, d) \<Rightarrow> (True, buf_put d cp src))"

definition buf_write_prepend :: "buffer \<Rightarrow> byte list \<Rightarrow> bool \<times> buffer" where
  "buf_write_prepend dest src =
     (case buf_prepend dest (int (length src)) of
        (None, d) \<Rightarrow> (False, d)
      | (Some cp, d) \<Rightarrow> (True, buf_put d cp src))"

definition buf_write_u8 :: "buffer \<Rightarrow> int \<Rightarrow> bool \<times> buffer" where
  "buf_write_u8 dest x = buf_write dest [word_of_int x]"

definition buf_write_u16 :: "buffer \<Rightarrow> int \<Rightarrow> bool \<times> buffer" where
  "buf_write_u16 dest x = buf_write dest (bytes_of_u16 (word_of_int x))"

definition buf_write_u32 :: "buffer \<Rightarrow> int \<Rightarrow> bool \<times> buffer" where
  "buf_write_u32 dest x = buf_write dest (bytes_of_u32 (word_of_int x))"

definition buf_contents :: "buffer \<Rightarrow> byte list" where
  \<comment> \<open>the \<open>BLEN (buf)\<close> bytes at \<open>BPTR (buf)\<close>\<close>
  "buf_contents b = mem_read (buf_block b) (nat (b_offset b)) (nat (buf_len b))"

definition buf_copy :: "buffer \<Rightarrow> buffer \<Rightarrow> bool \<times> buffer" where
  "buf_copy dest src = buf_write dest (buf_contents src)"

definition buf_copy_n :: "buffer \<Rightarrow> buffer \<Rightarrow> int \<Rightarrow> bool \<times> buffer \<times> buffer" where
  \<comment> \<open>(result, dest, src)\<close>
  "buf_copy_n dest src n =
     (case buf_read_alloc src n of
        (None, s) \<Rightarrow> (False, dest, s)
      | (Some cp, s) \<Rightarrow>
          (case buf_write dest (mem_read (buf_block src) (nat cp) (nat n)) of
             (ok, d) \<Rightarrow> (ok, d, s)))"

definition buf_copy_range :: "buffer \<Rightarrow> int \<Rightarrow> buffer \<Rightarrow> int \<Rightarrow> int \<Rightarrow> bool \<times> buffer" where
  "buf_copy_range dest dest_index src src_index src_len =
     (if src_index < 0 \<or> src_len < 0 \<or> src_index + src_len > b_len src
        \<or> dest_index < 0 \<or> b_offset dest + dest_index + src_len > b_capacity dest
      then (False, dest)
      else (let d = buf_put dest (b_offset dest + dest_index)
                      (mem_read (buf_block src) (nat (b_offset src + src_index)) (nat src_len))
            in (True, if dest_index + src_len > b_len d then d\<lparr>b_len := dest_index + src_len\<rparr> else d)))"

definition buf_copy_excess :: "buffer \<Rightarrow> buffer \<Rightarrow> int \<Rightarrow> bool \<times> buffer \<times> buffer" where
  \<comment> \<open>(result, dest, src): truncate \<open>src\<close> to \<open>n\<close> bytes and append the excess to \<open>dest\<close>\<close>
  "buf_copy_excess dest src n =
     (if n < 0 then (False, dest, src)
      else if b_len src > n then
        (let b = src; src = src\<lparr>b_len := n\<rparr>
         in case buf_advance b n of
              (False, b) \<Rightarrow> (False, dest, src)
            | (True, b) \<Rightarrow> (case buf_copy dest b of (ok, d) \<Rightarrow> (ok, d, src)))
      else (True, dest, src))"

definition buf_read :: "buffer \<Rightarrow> int \<Rightarrow> byte list option \<times> buffer" where
  "buf_read src size =
     (case buf_read_alloc src size of
        (None, s) \<Rightarrow> (None, s)
      | (Some cp, s) \<Rightarrow> (Some (mem_read (buf_block src) (nat cp) (nat size)), s))" for size

definition buf_read_u8 :: "buffer \<Rightarrow> int \<times> buffer" where
  "buf_read_u8 b =
     (if buf_len b < 1 then (-1, b)
      else (uint (buf_block b ! nat (b_offset b)), snd (buf_advance b 1)))"

definition buf_read_u16 :: "buffer \<Rightarrow> int \<times> buffer" where
  "buf_read_u16 b =
     (case buf_read b 2 of
        (None, b') \<Rightarrow> (-1, b')
      | (Some bs, b') \<Rightarrow> (uint (u16_of_bytes bs), b'))"

definition buf_read_u32 :: "buffer \<Rightarrow> u32 \<times> bool \<times> buffer" where
  \<comment> \<open>(value, \<open>*good\<close>, buffer)\<close>
  "buf_read_u32 b =
     (case buf_read b 4 of
        (None, b') \<Rightarrow> (0, False, b')
      | (Some bs, b') \<Rightarrow> (u32_of_bytes bs, True, b'))"

definition buf_string_match :: "buffer \<Rightarrow> byte list \<Rightarrow> bool" where
  "buf_string_match src m = (if int (length m) \<noteq> b_len src then False else buf_contents src = m)"

definition buf_string_match_head :: "buffer \<Rightarrow> byte list \<Rightarrow> bool" where
  "buf_string_match_head src m =
     (if int (length m) > b_len src then False
      else mem_read (buf_block src) (nat (b_offset src)) (length m) = m)"

fun xor_bytes :: "byte list \<Rightarrow> byte list \<Rightarrow> nat \<Rightarrow> byte list" where
  \<comment> \<open>\<open>xor (dest, src, len)\<close>\<close>
  "xor_bytes (d # ds) (s # ss) (Suc n) = (d XOR s) # xor_bytes ds ss n"
| "xor_bytes ds ss n = ds"

section \<open>Allocation and whole-buffer operations of buffer.c\<close>

definition malloc_block :: "(nat \<Rightarrow> byte) \<Rightarrow> nat \<Rightarrow> byte list" where
  \<comment> \<open>\<open>malloc (n)\<close>: the bytes are whatever the memory held, \<open>junk\<close>\<close>
  "malloc_block junk n = map junk [0..<n]"

definition alloc_buf :: "(nat \<Rightarrow> byte) \<Rightarrow> int \<Rightarrow> buffer result" where
  "alloc_buf junk size =
     (if \<not> buf_size_valid (size_t_of_int size) then Inl FatalError
      else Inr \<lparr>b_capacity = size, b_offset = 0, b_len = 0,
                b_data = Some (if size \<noteq> 0 then (malloc_block junk (nat size))[0 := 0] else [])\<rparr>)"
  for size

definition clone_buf :: "(nat \<Rightarrow> byte) \<Rightarrow> buffer \<Rightarrow> buffer" where
  "clone_buf junk b =
     buf_put \<lparr>b_capacity = b_capacity b, b_offset = b_offset b, b_len = b_len b,
              b_data = Some (malloc_block junk (nat (b_capacity b)))\<rparr>
       (b_offset b) (buf_contents b)"

definition buf_clear :: "buffer \<Rightarrow> buffer" where
  "buf_clear b =
     (let b' = (if b_capacity b > 0
                then b\<lparr>b_data := map_option (\<lambda>ds. mem_write ds 0 (replicate (nat (b_capacity b)) 0)) (b_data b)\<rparr>
                else b)
      in b'\<lparr>b_len := 0, b_offset := 0\<rparr>)"

definition buf_assign :: "buffer \<Rightarrow> buffer \<Rightarrow> bool \<times> buffer" where
  "buf_assign dest src =
     (case buf_init dest (b_offset src) of
        (False, d) \<Rightarrow> (False, d)
      | (True, d) \<Rightarrow> buf_write d (buf_contents src))"

definition clear_buf :: buffer where
  "clear_buf = \<lparr>b_capacity = 0, b_offset = 0, b_len = 0, b_data = None\<rparr>"

definition free_buf :: "buffer \<Rightarrow> buffer" where
  "free_buf b = clear_buf"

definition buf_sub :: "buffer \<Rightarrow> int \<Rightarrow> bool \<Rightarrow> (int \<times> buffer) option \<times> buffer" where
  \<comment> \<open>The result shares its bytes with \<open>buf\<close>: it is returned with the index of its first byte
     in the block of \<open>buf\<close>, and \<open>buf_sub_commit\<close> makes later writes to it visible in \<open>buf\<close>.
     \<open>None\<close> is the cleared struct, for which \<open>BDEF\<close> is false.\<close>
  "buf_sub b size prepend =
     (case buf_write_alloc_prepend b size prepend of
        (None, b') \<Rightarrow> (None, b')
      | (Some p, b') \<Rightarrow>
          (Some (p, \<lparr>b_capacity = size, b_offset = 0, b_len = 0,
                     b_data = Some (mem_read (buf_block b') (nat p) (nat size))\<rparr>), b'))" for size

definition buf_sub_commit :: "buffer \<Rightarrow> int \<Rightarrow> buffer \<Rightarrow> buffer" where
  "buf_sub_commit b p sub = buf_put b p (buf_block sub)"

section \<open>Invariant and abstract view\<close>

definition buf_ok :: "buffer \<Rightarrow> bool" where
  "buf_ok b \<longleftrightarrow> 0 \<le> b_offset b \<and> 0 \<le> b_len b \<and> b_offset b + b_len b \<le> b_capacity b
     \<and> b_capacity b < BUF_SIZE_MAX
     \<and> b_data b \<noteq> None \<and> int (length (buf_block b)) = b_capacity b"

definition buf_room :: "buffer \<Rightarrow> nat" where
  "buf_room b = nat (buf_forward_capacity b)"

definition buf_headroom :: "buffer \<Rightarrow> nat" where
  "buf_headroom b = nat (buf_reverse_capacity b)"

lemma buf_ok_valid [simp]: "buf_ok b \<Longrightarrow> buf_valid b"
  by (simp add: buf_ok_def buf_valid_def)

lemma buf_ok_len [simp]: "buf_ok b \<Longrightarrow> buf_len b = b_len b"
  by (simp add: buf_len_def)

lemma buf_ok_bptr [simp]: "buf_ok b \<Longrightarrow> buf_bptr b = Some (b_offset b)"
  by (simp add: buf_bptr_def)

lemma buf_room_eq: "buf_ok b \<Longrightarrow> int (buf_room b) = b_capacity b - b_offset b - b_len b"
  by (simp add: buf_room_def buf_forward_capacity_def buf_ok_def)

lemma buf_headroom_eq: "buf_ok b \<Longrightarrow> int (buf_headroom b) = b_offset b"
  by (simp add: buf_headroom_def buf_reverse_capacity_def buf_ok_def)

lemma buf_block_update [simp]:
  "buf_block (b\<lparr>b_len := l\<rparr>) = buf_block b" "buf_block (b\<lparr>b_offset := l\<rparr>) = buf_block b"
  "buf_block (b\<lparr>b_data := Some ds\<rparr>) = ds"
  by (simp_all add: buf_block_def)

lemma buf_put_simps [simp]:
  "b_capacity (buf_put b i bs) = b_capacity b" "b_offset (buf_put b i bs) = b_offset b"
  "b_len (buf_put b i bs) = b_len b" "b_data (buf_put b i bs) = None \<longleftrightarrow> b_data b = None"
  by (simp_all add: buf_put_def)

lemma buf_block_put [simp]:
  "b_data b \<noteq> None \<Longrightarrow> buf_block (buf_put b i bs) = mem_write (buf_block b) (nat i) bs"
  by (auto simp: buf_put_def buf_block_def)

lemma length_buf_contents: "buf_ok b \<Longrightarrow> int (length (buf_contents b)) = b_len b"
proof -
  assume ok: "buf_ok b"
  then have "nat (b_offset b) + nat (b_len b) \<le> length (buf_block b)"
    unfolding buf_ok_def by linarith
  with ok show ?thesis by (simp add: buf_contents_def) (simp add: buf_ok_def)
qed

lemma length_buf_contents_nat [simp]: "buf_ok b \<Longrightarrow> length (buf_contents b) = nat (b_len b)"
  using length_buf_contents [of b] by simp

lemma buf_okI [wf_intros]:
  "0 \<le> b_offset b \<Longrightarrow> 0 \<le> b_len b \<Longrightarrow> b_offset b + b_len b \<le> b_capacity b \<Longrightarrow>
   b_capacity b < BUF_SIZE_MAX \<Longrightarrow> b_data b = Some ds \<Longrightarrow> int (length ds) = b_capacity b \<Longrightarrow> buf_ok b"
  by (simp add: buf_ok_def buf_block_def)

lemma alloc_buf_ok:
  assumes "0 \<le> n" "n < BUF_SIZE_MAX"
  shows "\<exists>b. alloc_buf junk n = Inr b \<and> buf_ok b \<and> b_capacity b = n \<and> b_offset b = 0 \<and> b_len b = 0"
  using assms
  by (auto simp: alloc_buf_def buf_size_valid_def BUF_SIZE_MAX_def malloc_block_def intro!: buf_okI)

lemma alloc_buf_too_big:
  "BUF_SIZE_MAX \<le> n \<Longrightarrow> n < 2 ^ 64 \<Longrightarrow> alloc_buf junk n = Inl FatalError"
  by (simp add: alloc_buf_def buf_size_valid_def BUF_SIZE_MAX_def)

lemma buf_init_ok:
  assumes "buf_ok b" "0 \<le> off" "off \<le> b_capacity b"
  shows "\<exists>b'. buf_init b off = (True, b') \<and> buf_ok b' \<and> b_offset b' = off \<and> b_len b' = 0
           \<and> b_capacity b' = b_capacity b \<and> buf_block b' = buf_block b"
  using assms by (auto simp: buf_init_def buf_ok_def buf_block_def)

section \<open>Functional behaviour of the primitives\<close>

lemma buf_write_full:
  assumes "buf_ok b" "length bs \<le> buf_room b"
  shows "\<exists>b'. buf_write b bs = (True, b') \<and> buf_ok b' \<and> buf_contents b' = buf_contents b @ bs
           \<and> b_capacity b' = b_capacity b \<and> b_offset b' = b_offset b
           \<and> b_len b' = b_len b + int (length bs)
           \<and> buf_block b' = mem_write (buf_block b) (nat (b_offset b + b_len b)) bs"
proof -
  let ?n = "int (length bs)"
  let ?b = "buf_put (b\<lparr>b_len := b_len b + ?n\<rparr>) (b_offset b + b_len b) bs"
  have fit: "b_offset b + b_len b + ?n \<le> b_capacity b"
    using assms buf_room_eq [of b] by linarith
  have inv: "0 \<le> b_offset b" "0 \<le> b_len b" "b_capacity b < BUF_SIZE_MAX" "b_data b \<noteq> None"
      "int (length (buf_block b)) = b_capacity b"
    using assms(1) by (auto simp: buf_ok_def)
  have "buf_safe b ?n"
    using assms(1) fit inv by (simp add: buf_safe_def buf_size_valid_def BUF_SIZE_MAX_def)
  then have wr: "buf_write b bs = (True, ?b)"
    using assms(1) by (simp add: buf_write_def buf_write_alloc_def)
  have ok: "buf_ok ?b"
    using fit inv by (simp add: buf_ok_def nat_add_distrib)
  have "buf_contents ?b = buf_contents b @ bs"
    using fit inv assms(1) ok
    by (simp add: buf_contents_def, intro mem_read_write_append)
       (simp_all add: nat_add_distrib)
  with wr ok inv show ?thesis by simp
qed

lemma buf_write_ok:
  assumes "buf_ok b" "length bs \<le> buf_room b"
  shows "\<exists>b'. buf_write b bs = (True, b') \<and> buf_ok b' \<and> buf_contents b' = buf_contents b @ bs
           \<and> buf_room b' = buf_room b - length bs \<and> buf_headroom b' = buf_headroom b"
proof -
  obtain b' where b': "buf_write b bs = (True, b')" "buf_ok b'" "buf_contents b' = buf_contents b @ bs"
      "b_capacity b' = b_capacity b" "b_offset b' = b_offset b" "b_len b' = b_len b + int (length bs)"
    using buf_write_full [OF assms] by blast
  have "buf_room b' = buf_room b - length bs"
    using buf_room_eq [OF assms(1)] buf_room_eq [OF b'(2)] b' by linarith
  moreover have "buf_headroom b' = buf_headroom b"
    using buf_headroom_eq [OF assms(1)] buf_headroom_eq [OF b'(2)] b' by linarith
  ultimately show ?thesis using b' by blast
qed

lemma buf_write_no_room:
  assumes "buf_ok b" "buf_room b < length bs"
  shows "buf_write b bs = (False, b)"
proof -
  have "\<not> buf_safe b (int (length bs))"
    using assms buf_room_eq [of b] by (simp add: buf_safe_def)
  then show ?thesis by (simp add: buf_write_def buf_write_alloc_def)
qed

lemma buf_write_prepend_ok:
  assumes "buf_ok b" "length bs \<le> buf_headroom b"
  shows "\<exists>b'. buf_write_prepend b bs = (True, b') \<and> buf_ok b' \<and> buf_contents b' = bs @ buf_contents b
           \<and> buf_room b' = buf_room b \<and> buf_headroom b' = buf_headroom b - length bs"
proof -
  let ?n = "int (length bs)"
  let ?b0 = "b\<lparr>b_offset := b_offset b - ?n, b_len := b_len b + ?n\<rparr>"
  let ?b = "buf_put ?b0 (b_offset b - ?n) bs"
  have inv: "0 \<le> b_offset b" "0 \<le> b_len b" "b_capacity b < BUF_SIZE_MAX" "b_data b \<noteq> None"
      "int (length (buf_block b)) = b_capacity b" "b_offset b + b_len b \<le> b_capacity b"
    using assms(1) by (auto simp: buf_ok_def)
  have n: "?n \<le> b_offset b"
    using assms buf_headroom_eq [of b] by linarith
  have wr: "buf_write_prepend b bs = (True, ?b)"
    using assms(1) n inv
    by (simp add: buf_write_prepend_def buf_prepend_def buf_bptr_def buf_valid_def)
  have ok: "buf_ok ?b"
    using n inv by (simp add: buf_ok_def)
  have "buf_contents ?b = mem_read (mem_write (buf_block b) (nat (b_offset b - ?n)) bs)
          (nat (b_offset b - ?n)) (nat (b_len b + ?n))"
    using ok inv by (simp add: buf_contents_def)
  also have "\<dots> = bs @ mem_read (buf_block b) (nat (b_offset b - ?n) + length bs) (nat (b_len b))"
    using n inv by (intro mem_read_write_prepend) (simp_all add: nat_add_distrib)
  also have "nat (b_offset b - ?n) + length bs = nat (b_offset b)"
    using n by linarith
  finally have "buf_contents ?b = bs @ buf_contents b"
    using assms(1) by (simp add: buf_contents_def)
  moreover have "buf_room ?b = buf_room b"
    using buf_room_eq [OF assms(1)] buf_room_eq [OF ok] by simp
  moreover have "buf_headroom ?b = buf_headroom b - length bs"
    using buf_headroom_eq [OF assms(1)] buf_headroom_eq [OF ok] by simp
  ultimately show ?thesis using wr ok by blast
qed

lemma buf_write_prepend_no_room:
  assumes "buf_ok b" "buf_headroom b < length bs"
  shows "buf_write_prepend b bs = (False, b)"
  using assms buf_headroom_eq [of b] by (simp add: buf_write_prepend_def buf_prepend_def)

lemma buf_write_prepend_True:
  assumes "buf_ok b" "buf_write_prepend b bs = (True, b')"
  shows "buf_ok b' \<and> buf_contents b' = bs @ buf_contents b \<and> b_capacity b' = b_capacity b"
proof -
  have "length bs \<le> buf_headroom b"
    using buf_write_prepend_no_room [OF assms(1), of bs] assms(2) by (metis Pair_inject leI)
  moreover have "b_capacity b' = b_capacity b"
    using assms(2) by (auto simp: buf_write_prepend_def buf_prepend_def Let_def split: option.splits if_splits)
  ultimately show ?thesis using buf_write_prepend_ok [OF assms(1), of bs] assms(2) by auto
qed

lemma buf_advance_ok:
  assumes "buf_ok b" "0 \<le> n" "n \<le> b_len b"
  shows "\<exists>b'. buf_advance b n = (True, b') \<and> buf_ok b' \<and> buf_contents b' = drop (nat n) (buf_contents b)
           \<and> b_len b' = b_len b - n \<and> b_offset b' = b_offset b + n \<and> buf_block b' = buf_block b
           \<and> b_capacity b' = b_capacity b"
proof -
  let ?b = "b\<lparr>b_offset := b_offset b + n, b_len := b_len b - n\<rparr>"
  have adv: "buf_advance b n = (True, ?b)"
    using assms by (simp add: buf_advance_def)
  have ok: "buf_ok ?b"
    using assms by (simp add: buf_ok_def)
  have "buf_contents ?b = mem_read (buf_block b) (nat (b_offset b) + nat n) (nat (b_len b - n))"
    using assms ok by (simp add: buf_contents_def buf_ok_def nat_add_distrib)
  also have "\<dots> = drop (nat n) (mem_read (buf_block b) (nat (b_offset b)) (nat n + nat (b_len b - n)))"
    by (rule mem_read_drop)
  also have "nat n + nat (b_len b - n) = nat (b_len b)"
    using assms by linarith
  finally have "buf_contents ?b = drop (nat n) (buf_contents b)"
    using assms(1) by (simp add: buf_contents_def)
  with adv ok show ?thesis by simp
qed

lemma buf_read_advance:
  assumes "buf_ok b" "n \<le> length (buf_contents b)"
  shows "buf_read b (int n) = (Some (take n (buf_contents b)), snd (buf_advance b (int n)))"
proof -
  have len: "int n \<le> b_len b"
    using assms length_buf_contents [of b] by linarith
  have "buf_contents b = mem_read (buf_block b) (nat (b_offset b)) (n + (nat (b_len b) - n))"
    using assms(1) len by (simp add: buf_contents_def)
  then have "mem_read (buf_block b) (nat (b_offset b)) n = take n (buf_contents b)"
    using mem_read_take by metis
  with assms(1) len show ?thesis
    by (simp add: buf_read_def buf_read_alloc_def buf_advance_def)
qed

lemma buf_read_ok:
  assumes "buf_ok b" "n \<le> length (buf_contents b)"
  shows "\<exists>b'. buf_read b (int n) = (Some (take n (buf_contents b)), b') \<and> buf_ok b'
           \<and> buf_contents b' = drop n (buf_contents b)"
proof -
  have "int n \<le> b_len b" using assms length_buf_contents [of b] by linarith
  then obtain b' where "buf_advance b (int n) = (True, b')" "buf_ok b'"
      "buf_contents b' = drop n (buf_contents b)"
    using buf_advance_ok [OF assms(1), of "int n"] by auto
  then show ?thesis using buf_read_advance [OF assms] by simp
qed

lemma buf_read_short:
  assumes "buf_ok b" "length (buf_contents b) < n"
  shows "buf_read b (int n) = (None, b)"
  using assms length_buf_contents [of b] by (simp add: buf_read_def buf_read_alloc_def)

section \<open>Sub-buffers\<close>

lemma buf_write_via_alloc:
  "buf_write_alloc b (int (length bs)) = (Some p, b1) \<Longrightarrow> buf_write b bs = (True, buf_put b1 p bs)"
  by (simp add: buf_write_def)

lemma buf_write_via_prepend:
  "buf_prepend b (int (length bs)) = (Some p, b1) \<Longrightarrow> buf_write_prepend b bs = (True, buf_put b1 p bs)"
  by (simp add: buf_write_prepend_def)

lemma buf_sub_ok:
  assumes ok: "buf_ok b" and room: "n \<le> (if prepend then buf_headroom b else buf_room b)"
  shows "\<exists>p sub b1. buf_sub b (int n) prepend = (Some (p, sub), b1)
           \<and> buf_ok sub \<and> buf_contents sub = [] \<and> buf_room sub = n \<and> buf_headroom sub = 0
           \<and> (\<forall>sub' bs. buf_ok sub' \<longrightarrow> buf_contents sub' = bs \<longrightarrow> length bs = n \<longrightarrow> buf_room sub' = 0
                \<longrightarrow> buf_headroom sub' = 0 \<longrightarrow>
                buf_ok (buf_sub_commit b1 p sub')
                \<and> buf_contents (buf_sub_commit b1 p sub') = (if prepend then bs @ buf_contents b else buf_contents b @ bs))"
proof -
  have inv: "0 \<le> b_offset b" "0 \<le> b_len b" "b_offset b + b_len b \<le> b_capacity b" "b_capacity b < BUF_SIZE_MAX"
      "b_data b \<noteq> None" "int (length (buf_block b)) = b_capacity b"
    using ok by (auto simp: buf_ok_def)
  define p where "p = (if prepend then b_offset b - int n else b_offset b + b_len b)"
  define b1 where "b1 = (if prepend then b\<lparr>b_offset := b_offset b - int n, b_len := b_len b + int n\<rparr>
                         else b\<lparr>b_len := b_len b + int n\<rparr>)"
  have fit: "int n \<le> b_offset b" if prepend
    using room that buf_headroom_eq [OF ok] by simp
  have fit': "b_offset b + b_len b + int n \<le> b_capacity b" if "\<not> prepend"
    using room that buf_room_eq [OF ok] by simp
  have alloc: "buf_write_alloc_prepend b (int n) prepend = (Some p, b1)"
  proof (cases prepend)
    case True
    then show ?thesis using ok fit inv
      by (simp add: buf_write_alloc_prepend_def buf_prepend_def p_def b1_def buf_bptr_def buf_valid_def)
  next
    case False
    then have "buf_safe b (int n)"
      using ok fit' inv by (simp add: buf_safe_def buf_size_valid_def BUF_SIZE_MAX_def)
    with False show ?thesis using ok
      by (simp add: buf_write_alloc_prepend_def buf_write_alloc_def p_def b1_def)
  qed
  let ?sub = "\<lparr>b_capacity = int n, b_offset = 0, b_len = 0, b_data = Some (mem_read (buf_block b1) (nat p) n)\<rparr>"
  have sub: "buf_sub b (int n) prepend = (Some (p, ?sub), b1)"
    by (simp add: buf_sub_def alloc)
  have "nat p + n \<le> length (buf_block b)" "int n < BUF_SIZE_MAX"
    using fit fit' inv by (cases prepend; simp add: p_def; linarith)+
  then have sub_ok: "buf_ok ?sub"
    by (intro buf_okI) (auto simp: b1_def)
  moreover have "buf_contents ?sub = []" using sub_ok by (simp add: buf_contents_def)
  moreover have "buf_room ?sub = n" "buf_headroom ?sub = 0"
    using buf_room_eq [OF sub_ok] buf_headroom_eq [OF sub_ok] by simp_all
  moreover have "buf_ok (buf_sub_commit b1 p sub')
      \<and> buf_contents (buf_sub_commit b1 p sub') = (if prepend then bs @ buf_contents b else buf_contents b @ bs)"
    if "buf_ok sub'" "buf_contents sub' = bs" "length bs = n" "buf_room sub' = 0" "buf_headroom sub' = 0" for sub' bs
  proof -
    have "b_offset sub' = 0" "b_len sub' = b_capacity sub'"
      using buf_room_eq [OF that(1)] buf_headroom_eq [OF that(1)] that(4,5) by simp_all
    with that(1,2) have "buf_block sub' = bs"
      by (auto simp: buf_contents_def mem_read_def buf_ok_def)
    then have commit: "buf_sub_commit b1 p sub' = buf_put b1 p bs" by (simp add: buf_sub_commit_def)
    show ?thesis
    proof (cases prepend)
      case True
      then have "buf_write_prepend b bs = (True, buf_put b1 p bs)"
        using alloc that(3) by (intro buf_write_via_prepend) (simp add: buf_write_alloc_prepend_def)
      with True commit buf_write_prepend_ok [OF ok, of bs] room that(3) show ?thesis by auto
    next
      case False
      then have "buf_write b bs = (True, buf_put b1 p bs)"
        using alloc that(3) by (intro buf_write_via_alloc) (simp add: buf_write_alloc_prepend_def)
      with False commit buf_write_ok [OF ok, of bs] room that(3) show ?thesis by auto
    qed
  qed
  ultimately show ?thesis using sub by blast
qed

lemma buf_sub_no_room:
  assumes "buf_ok b" "(if prepend then buf_headroom b else buf_room b) < n"
  shows "buf_sub b (int n) prepend = (None, b)"
proof (cases prepend)
  case True
  with assms buf_headroom_eq [OF assms(1)] show ?thesis
    by (simp add: buf_sub_def buf_write_alloc_prepend_def buf_prepend_def)
next
  case False
  with assms buf_room_eq [OF assms(1)] have "\<not> buf_safe b (int n)" by (simp add: buf_safe_def)
  with False show ?thesis by (simp add: buf_sub_def buf_write_alloc_prepend_def buf_write_alloc_def)
qed

section \<open>The interface of the protocol modules\<close>

locale byte_channel =
  fixes ok :: "'b \<Rightarrow> bool"
    and contents :: "'b \<Rightarrow> byte list"
    and room :: "'b \<Rightarrow> nat"
    and headroom :: "'b \<Rightarrow> nat"
    and append_bytes :: "'b \<Rightarrow> byte list \<Rightarrow> bool \<times> 'b"
    and prepend_bytes :: "'b \<Rightarrow> byte list \<Rightarrow> bool \<times> 'b"
    and read_bytes :: "'b \<Rightarrow> int \<Rightarrow> byte list option \<times> 'b"
  assumes append_law: "ok b \<Longrightarrow> length bs \<le> room b \<Longrightarrow>
            \<exists>b'. append_bytes b bs = (True, b') \<and> ok b' \<and> contents b' = contents b @ bs
                 \<and> room b' = room b - length bs \<and> headroom b' = headroom b"
    and append_full: "ok b \<Longrightarrow> room b < length bs \<Longrightarrow> append_bytes b bs = (False, b)"
    and prepend_law: "ok b \<Longrightarrow> length bs \<le> headroom b \<Longrightarrow>
            \<exists>b'. prepend_bytes b bs = (True, b') \<and> ok b' \<and> contents b' = bs @ contents b
                 \<and> room b' = room b \<and> headroom b' = headroom b - length bs"
    and prepend_full: "ok b \<Longrightarrow> headroom b < length bs \<Longrightarrow> prepend_bytes b bs = (False, b)"
    and read_law: "ok b \<Longrightarrow> n \<le> length (contents b) \<Longrightarrow>
            \<exists>b'. read_bytes b (int n) = (Some (take n (contents b)), b') \<and> ok b'
                 \<and> contents b' = drop n (contents b)"
    and read_short: "ok b \<Longrightarrow> length (contents b) < n \<Longrightarrow> read_bytes b (int n) = (None, b)"
begin

lemma read_prefix:
  assumes "ok b" "contents b = bs @ rest" "n = int (length bs)"
  shows "\<exists>b'. read_bytes b n = (Some bs, b') \<and> ok b' \<and> contents b' = rest"
  using read_law [OF assms(1), of "length bs"] assms(2,3) by simp

lemma append_two:
  assumes "ok b" "length bs + length cs \<le> room b"
  shows "\<exists>b1 b2. append_bytes b bs = (True, b1) \<and> append_bytes b1 cs = (True, b2) \<and> ok b2
           \<and> contents b2 = contents b @ bs @ cs"
proof -
  obtain b1 where b1: "append_bytes b bs = (True, b1)" "ok b1" "contents b1 = contents b @ bs"
      "room b1 = room b - length bs"
    using append_law [of b bs] assms by auto
  moreover have "length cs \<le> room b1" using b1 assms by linarith
  with b1(2) obtain b2 where "append_bytes b1 cs = (True, b2)" "ok b2"
      "contents b2 = contents b1 @ cs"
    using append_law [of b1 cs] by blast
  ultimately show ?thesis by auto
qed

lemma prepend_two:
  assumes "ok b" "length bs + length cs \<le> headroom b"
  shows "\<exists>b1 b2. prepend_bytes b bs = (True, b1) \<and> prepend_bytes b1 cs = (True, b2) \<and> ok b2
           \<and> contents b2 = cs @ bs @ contents b"
proof -
  obtain b1 where b1: "prepend_bytes b bs = (True, b1)" "ok b1" "contents b1 = bs @ contents b"
      "headroom b1 = headroom b - length bs"
    using prepend_law [of b bs] assms by auto
  moreover have "length cs \<le> headroom b1" using b1 assms by linarith
  with b1(2) obtain b2 where "prepend_bytes b1 cs = (True, b2)" "ok b2"
      "contents b2 = cs @ contents b1"
    using prepend_law [of b1 cs] by blast
  ultimately show ?thesis by auto
qed

end

interpretation buf: byte_channel buf_ok buf_contents buf_room buf_headroom
    buf_write buf_write_prepend buf_read
  using buf_write_ok buf_write_no_room buf_write_prepend_ok buf_write_prepend_no_room
    buf_read_ok buf_read_short
  by unfold_locales auto

end
