(* ===== verification/Session_Id.thy ===== *)
theory Session_Id
  imports Buffer
begin

text \<open>
  Session identifiers of the control channel (session_id.h): eight bytes, all zero when
  undefined.  \<open>session_id_random\<close> only calls the random generator and is not modelled.
\<close>

record session_id =
  sid_id :: "byte list"

definition SID_SIZE :: nat where "SID_SIZE = 8"

definition x_session_id_zero :: session_id where
  "x_session_id_zero = \<lparr>sid_id = replicate SID_SIZE 0\<rparr>"

definition session_id_equal :: "session_id \<Rightarrow> session_id \<Rightarrow> bool" where
  "session_id_equal sid1 sid2 \<longleftrightarrow> take SID_SIZE (sid_id sid1) = take SID_SIZE (sid_id sid2)"

definition session_id_defined :: "session_id \<Rightarrow> bool" where
  "session_id_defined sid1 \<longleftrightarrow> take SID_SIZE (sid_id sid1) \<noteq> take SID_SIZE (sid_id x_session_id_zero)"

definition session_id_read :: "session_id \<Rightarrow> buffer \<Rightarrow> bool \<times> session_id \<times> buffer" where
  "session_id_read sid b =
     (case buf_read b (int SID_SIZE) of
        (None, b) \<Rightarrow> (False, sid, b)
      | (Some bs, b) \<Rightarrow> (True, \<lparr>sid_id = bs\<rparr>, b))"

definition session_id_write_prepend :: "session_id \<Rightarrow> buffer \<Rightarrow> bool \<times> buffer" where
  "session_id_write_prepend sid b = buf_write_prepend b (take SID_SIZE (sid_id sid))"

definition session_id_write :: "session_id \<Rightarrow> buffer \<Rightarrow> bool \<times> buffer" where
  "session_id_write sid b = buf_write b (take SID_SIZE (sid_id sid))"

definition sid_ok :: "session_id \<Rightarrow> bool" where
  "sid_ok sid \<longleftrightarrow> length (sid_id sid) = SID_SIZE"

lemma sid_okD: "sid_ok sid \<Longrightarrow> length (sid_id sid) = 8" "sid_ok sid \<Longrightarrow> take SID_SIZE (sid_id sid) = sid_id sid"
  by (simp_all add: sid_ok_def SID_SIZE_def)

lemma session_id_equal_iff: "sid_ok s \<Longrightarrow> sid_ok t \<Longrightarrow> session_id_equal s t \<longleftrightarrow> s = t"
  by (auto simp: session_id_equal_def sid_okD intro: session_id.equality)

lemma session_id_read_prefix:
  assumes "buf_ok b" "buf_contents b = sid_id sid @ rest" "sid_ok sid"
  shows "\<exists>b'. session_id_read sid0 b = (True, sid, b') \<and> buf_ok b' \<and> buf_contents b' = rest"
  using buf.read_prefix [OF assms(1,2), of 8] assms(3)
  by (auto simp: session_id_read_def sid_okD SID_SIZE_def)

end
