(* ===== verification/Integers.thy ===== *)
theory Integers
  imports Prelude
begin

text \<open>
  Integer helpers (integer.h) and the circular lists built on them (circ_list.h).

  A circular list keeps the last \<open>x_cap\<close> items pushed, the newest first: item 0 is at index
  \<open>x_head\<close> and pushing moves the head one step back.  The macro \<open>CIRC_LIST\<close> generates one
  struct per item type; the model is one record, polymorphic in the item.  The member
  \<open>x_sizeof\<close>, which no code reads, is left out.  \<open>circ_items\<close> is the abstract view.
\<close>

section \<open>integer.h\<close>

definition max_int :: "int \<Rightarrow> int \<Rightarrow> int" where
  "max_int x y = (if x > y then x else y)"

definition min_int :: "int \<Rightarrow> int \<Rightarrow> int" where
  "min_int x y = (if x < y then x else y)"

definition constrain_int :: "int \<Rightarrow> int \<Rightarrow> int \<Rightarrow> int" where
  "constrain_int x mn mx =
     (if mn > mx then mn
      else if x < mn then mn
      else if x > mx then mx
      else x)"

definition modulo_subtract :: "int \<Rightarrow> int \<Rightarrow> int \<Rightarrow> int result" where
  "modulo_subtract x y md =
     (let d1 = x - y;
          d2 = (if x > y then - md else md) + d1
      in assert_that (0 \<le> x \<and> x < md \<and> 0 \<le> y \<and> y < md)
           (Inr (if \<bar>d1\<bar> > \<bar>d2\<bar> then d2 else d1)))"

definition modulo_add :: "int \<Rightarrow> int \<Rightarrow> int \<Rightarrow> int result" where
  "modulo_add x y md =
     (let s = x + y
      in assert_that (0 \<le> x \<and> x < md \<and> - md \<le> y \<and> y \<le> md)
           (let s = (if s \<ge> md then s - md else s)
            in Inr (if s < 0 then s + md else s)))"

definition index_verify :: "int \<Rightarrow> int \<Rightarrow> int result" where
  "index_verify index sz =
     (if index < 0 \<or> index \<ge> sz then Inl FatalError else Inr index)"

lemma min_int_eq [simp]: "min_int x y = min x y"
  by (simp add: min_int_def min_def)

lemma max_int_eq [simp]: "max_int x y = max x y"
  by (simp add: max_int_def max_def)

lemma constrain_int_bounds: "mn \<le> mx \<Longrightarrow> mn \<le> constrain_int x mn mx \<and> constrain_int x mn mx \<le> mx"
  by (simp add: constrain_int_def)

lemma constrain_int_id: "mn \<le> x \<Longrightarrow> x \<le> mx \<Longrightarrow> constrain_int x mn mx = x"
  by (simp add: constrain_int_def)

lemma mod_unique_int:
  "0 \<le> r \<Longrightarrow> r < m \<Longrightarrow> x = q * m + r \<Longrightarrow> r = x mod (m :: int)"
  by simp

text \<open>On its precondition, \<open>modulo_add\<close> is addition on the circle.\<close>

lemma modulo_add_mod:
  assumes "0 \<le> x" "x < md" "- md \<le> y" "y \<le> md"
  shows "modulo_add x y md = Inr ((x + y) mod md)"
proof -
  consider "x + y < 0" | "0 \<le> x + y" "x + y < md" | "md \<le> x + y" by linarith
  then show ?thesis
  proof cases
    case 1
    with assms have "x + y + md = (x + y) mod md"
      by (intro mod_unique_int [where q = "-1"]) auto
    with 1 assms show ?thesis by (simp add: modulo_add_def Let_def)
  next
    case 2
    with assms show ?thesis by (simp add: modulo_add_def Let_def)
  next
    case 3
    show ?thesis
    proof (cases "x + y - md = md")
      case True
      with assms show ?thesis by simp
    next
      case False
      with 3 assms have "x + y - md = (x + y) mod md"
        by (intro mod_unique_int [where q = "1"]) auto
      with 3 False assms show ?thesis by (simp add: modulo_add_def Let_def)
    qed
  qed
qed

text \<open>The shortest signed way from \<open>y\<close> to \<open>x\<close> on a circle of circumference \<open>md\<close>.\<close>

lemma modulo_subtract_shortest:
  assumes "0 \<le> x" "x < md" "0 \<le> y" "y < md"
  obtains d where "modulo_subtract x y md = Inr d" "(y + d) mod md = x" "2 * \<bar>d\<bar> \<le> md"
proof
  let ?d1 = "x - y" and ?d2 = "(if x > y then - md else md) + (x - y)"
  let ?d = "if \<bar>?d1\<bar> > \<bar>?d2\<bar> then ?d2 else ?d1"
  show "modulo_subtract x y md = Inr ?d"
    using assms by (simp add: modulo_subtract_def Let_def)
  have "(y + ?d2) mod md = x"
    using assms mod_add_self2 [of x md] mod_add_self2 [of "x - md" md] by (auto simp: algebra_simps)
  with assms show "(y + ?d) mod md = x" by simp
  show "2 * \<bar>?d\<bar> \<le> md" using assms by (auto split: if_splits)
qed

section \<open>circ_list.h\<close>

record 'a circ_list =
  x_head :: int
  x_size :: int
  x_cap :: int
  x_list :: "'a list"

definition circ_list_push :: "'a circ_list \<Rightarrow> 'a \<Rightarrow> 'a circ_list result" where
  "circ_list_push c item =
     bind_result (modulo_add (x_head c) (-1) (x_cap c)) (\<lambda>h.
       Inr (c\<lparr>x_head := h,
              x_list := (x_list c)[nat h := item],
              x_size := min_int (x_size c + 1) (x_cap c)\<rparr>))"

definition circ_list_index :: "'a circ_list \<Rightarrow> int \<Rightarrow> int result" where
  "circ_list_index c index =
     bind_result (index_verify index (x_size c)) (\<lambda>i. modulo_add (x_head c) i (x_cap c))"

definition circ_list_item :: "'a circ_list \<Rightarrow> int \<Rightarrow> 'a result" where
  \<comment> \<open>\<open>CIRC_LIST_ITEM\<close> read as a value\<close>
  "circ_list_item c index =
     bind_result (circ_list_index c index) (\<lambda>i. Inr (x_list c ! nat i))"

definition circ_list_set_item :: "'a circ_list \<Rightarrow> int \<Rightarrow> 'a \<Rightarrow> 'a circ_list result" where
  \<comment> \<open>\<open>CIRC_LIST_ITEM\<close> as the target of an assignment\<close>
  "circ_list_set_item c index v =
     bind_result (circ_list_index c index) (\<lambda>i. Inr (c\<lparr>x_list := (x_list c)[nat i := v]\<rparr>))"

definition circ_list_reset :: "'a circ_list \<Rightarrow> 'a circ_list" where
  "circ_list_reset c = c\<lparr>x_head := 0, x_size := 0\<rparr>"

definition circ_list_alloc :: "'a \<Rightarrow> int \<Rightarrow> 'a circ_list" where
  \<comment> \<open>\<open>zero\<close> is the all-zero item that \<open>memset\<close> leaves\<close>
  "circ_list_alloc zero sz =
     \<lparr>x_head = 0, x_size = 0, x_cap = sz, x_list = replicate (nat sz) zero\<rparr>"

subsection \<open>Invariant and abstract view\<close>

definition circ_ok :: "'a circ_list \<Rightarrow> bool" where
  "circ_ok c \<longleftrightarrow> 0 < x_cap c \<and> int (length (x_list c)) = x_cap c
     \<and> 0 \<le> x_head c \<and> x_head c < x_cap c \<and> 0 \<le> x_size c \<and> x_size c \<le> x_cap c"

definition circ_items :: "'a circ_list \<Rightarrow> 'a list" where
  "circ_items c = map (\<lambda>i. x_list c ! nat ((x_head c + int i) mod x_cap c)) [0..<nat (x_size c)]"

lemma length_circ_items [simp]: "length (circ_items c) = nat (x_size c)"
  by (simp add: circ_items_def)

lemma circ_items_nth:
  "i < nat (x_size c) \<Longrightarrow> circ_items c ! i = x_list c ! nat ((x_head c + int i) mod x_cap c)"
  by (simp add: circ_items_def)

lemma circ_slot_bound: "circ_ok c \<Longrightarrow> nat ((x_head c + i) mod x_cap c) < length (x_list c)"
  using pos_mod_bound [of "x_cap c" "x_head c + i"] pos_mod_sign [of "x_cap c" "x_head c + i"]
  by (auto simp: circ_ok_def nat_less_iff)

lemma circ_slot_inj:
  assumes "circ_ok c" "0 \<le> i" "i < x_cap c" "0 \<le> j" "j < x_cap c"
  shows "nat ((x_head c + i) mod x_cap c) = nat ((x_head c + j) mod x_cap c) \<longleftrightarrow> i = j"
proof
  assume "nat ((x_head c + i) mod x_cap c) = nat ((x_head c + j) mod x_cap c)"
  then have "(x_head c + i) mod x_cap c = (x_head c + j) mod x_cap c"
    using assms(1) pos_mod_sign [of "x_cap c"] by (auto simp: circ_ok_def nat_eq_iff2 split: if_splits)
  then have "(x_head c + i - x_head c) mod x_cap c = (x_head c + j - x_head c) mod x_cap c"
    by (rule mod_diff_cong) simp
  then show "i = j" using assms by simp
qed simp

lemma circ_list_index_ok:
  "circ_ok c \<Longrightarrow> 0 \<le> i \<Longrightarrow> i < x_size c \<Longrightarrow>
   circ_list_index c i = Inr ((x_head c + i) mod x_cap c)"
  by (simp add: circ_list_index_def index_verify_def circ_ok_def modulo_add_mod)

lemma circ_list_item_ok:
  "circ_ok c \<Longrightarrow> 0 \<le> i \<Longrightarrow> i < x_size c \<Longrightarrow> circ_list_item c i = Inr (circ_items c ! nat i)"
  by (simp add: circ_list_item_def circ_list_index_ok circ_items_nth)

lemma circ_list_item_out_of_range:
  "i < 0 \<or> x_size c \<le> i \<Longrightarrow> circ_list_item c i = Inl FatalError"
  by (auto simp: circ_list_item_def circ_list_index_def index_verify_def)

lemma circ_list_set_item_ok:
  assumes "circ_ok c" "0 \<le> i" "i < x_size c"
  shows "\<exists>c'. circ_list_set_item c i v = Inr c' \<and> circ_ok c' \<and> x_cap c' = x_cap c
           \<and> x_size c' = x_size c \<and> circ_items c' = (circ_items c)[nat i := v]"
proof -
  let ?c = "c\<lparr>x_list := (x_list c)[nat ((x_head c + i) mod x_cap c) := v]\<rparr>"
  have "circ_items ?c = (circ_items c)[nat i := v]"
  proof (rule nth_equalityI)
    fix k assume "k < length (circ_items ?c)"
    then have k: "k < nat (x_size c)" by simp
    with assms have "nat ((x_head c + i) mod x_cap c) = nat ((x_head c + int k) mod x_cap c)
        \<longleftrightarrow> nat i = k"
      by (subst circ_slot_inj) (auto simp: circ_ok_def)
    with assms k show "circ_items ?c ! k = (circ_items c)[nat i := v] ! k"
      using circ_slot_bound [of c i] by (simp add: circ_items_nth nth_list_update)
  qed simp
  with assms show ?thesis
    by (auto simp: circ_list_set_item_def circ_list_index_ok circ_ok_def)
qed

lemma circ_list_push_ok:
  assumes "circ_ok c"
  shows "\<exists>c'. circ_list_push c v = Inr c' \<and> circ_ok c' \<and> x_cap c' = x_cap c
           \<and> circ_items c' = take (nat (x_cap c)) (v # circ_items c)"
proof -
  let ?h = "(x_head c - 1) mod x_cap c"
  let ?c = "c\<lparr>x_head := ?h, x_list := (x_list c)[nat ?h := v],
              x_size := min (x_size c + 1) (x_cap c)\<rparr>"
  have push: "circ_list_push c v = Inr ?c"
    using assms by (simp add: circ_list_push_def circ_ok_def modulo_add_mod)
  have ok: "circ_ok ?c"
    using assms by (auto simp: circ_ok_def)
  have "circ_items ?c = take (nat (x_cap c)) (v # circ_items c)"
  proof (rule nth_equalityI)
    show "length (circ_items ?c) = length (take (nat (x_cap c)) (v # circ_items c))"
      using assms by (auto simp: circ_ok_def min_def)
  next
    fix k assume "k < length (circ_items ?c)"
    then have k: "int k < x_size c + 1" "int k < x_cap c" by (auto simp: nat_less_iff min_def split: if_splits)
    show "circ_items ?c ! k = take (nat (x_cap c)) (v # circ_items c) ! k"
    proof (cases k)
      case 0
      with assms k show ?thesis
        using circ_slot_bound [of c "-1"] by (simp add: circ_items_nth circ_ok_def)
    next
      case (Suc m)
      have "(?h + int k) mod x_cap c = (x_head c - 1 + int k) mod x_cap c"
        by (rule mod_add_left_eq)
      also have "x_head c - 1 + int k = x_head c + int m" using Suc by simp
      finally have "(?h + int k) mod x_cap c = (x_head c + int m) mod x_cap c" .
      moreover have "nat ?h \<noteq> nat ((x_head c + int m) mod x_cap c)"
        using circ_slot_inj [OF ok, of "0" "int k"] assms k Suc calculation by (simp add: circ_ok_def)
      ultimately show ?thesis
        using assms k Suc by (simp add: circ_items_nth nth_list_update)
    qed
  qed
  with push ok show ?thesis by simp
qed

lemma circ_reset_ok: "circ_ok c \<Longrightarrow> circ_ok (circ_list_reset c)"
  by (simp add: circ_list_reset_def circ_ok_def)

lemma circ_items_reset [simp]: "circ_items (circ_list_reset c) = []"
  by (simp add: circ_list_reset_def circ_items_def)

lemma circ_reset_cap [simp]: "x_cap (circ_list_reset c) = x_cap c"
  by (simp add: circ_list_reset_def)

lemma circ_alloc_ok: "0 < n \<Longrightarrow> circ_ok (circ_list_alloc z n)"
  by (simp add: circ_list_alloc_def circ_ok_def)

lemma circ_items_alloc [simp]: "circ_items (circ_list_alloc z n) = []"
  by (simp add: circ_list_alloc_def circ_items_def)

lemma circ_alloc_cap [simp]: "x_cap (circ_list_alloc z n) = n"
  by (simp add: circ_list_alloc_def)

section \<open>The interface a sliding window relies on\<close>

text \<open>
  A memory of the last \<open>capacity\<close> items, newest first, that its client fills, reads and
  overwrites by age.
\<close>

locale recency_list =
  fixes inv :: "'c \<Rightarrow> bool"
    and items :: "'c \<Rightarrow> 'a list"
    and capacity :: "'c \<Rightarrow> nat"
    and push :: "'c \<Rightarrow> 'a \<Rightarrow> 'c result"
    and get :: "'c \<Rightarrow> int \<Rightarrow> 'a result"
    and put :: "'c \<Rightarrow> int \<Rightarrow> 'a \<Rightarrow> 'c result"
  assumes push_law: "inv c \<Longrightarrow> \<exists>c'. push c x = Inr c' \<and> inv c' \<and> capacity c' = capacity c
                                     \<and> items c' = take (capacity c) (x # items c)"
    and get_law: "inv c \<Longrightarrow> 0 \<le> i \<Longrightarrow> i < int (length (items c)) \<Longrightarrow> get c i = Inr (items c ! nat i)"
    and put_law: "inv c \<Longrightarrow> 0 \<le> i \<Longrightarrow> i < int (length (items c)) \<Longrightarrow>
                  \<exists>c'. put c i x = Inr c' \<and> inv c' \<and> capacity c' = capacity c
                       \<and> items c' = (items c)[nat i := x]"
    and capacity_law: "inv c \<Longrightarrow> length (items c) \<le> capacity c"
begin

fun push_many :: "nat \<Rightarrow> 'a \<Rightarrow> 'c \<Rightarrow> 'c result" where
  "push_many 0 x c = Inr c"
| "push_many (Suc n) x c = bind_result (push c x) (push_many n x)"

lemma push_many_items:
  "inv c \<Longrightarrow> \<exists>c'. push_many n x c = Inr c' \<and> inv c' \<and> capacity c' = capacity c
             \<and> items c' = take (capacity c) (replicate n x @ items c)"
proof (induction n arbitrary: c)
  case 0
  then show ?case using capacity_law [of c] by simp
next
  case (Suc n)
  then obtain c1 where c1: "push c x = Inr c1" "inv c1" "capacity c1 = capacity c"
      "items c1 = take (capacity c) (x # items c)"
    using push_law by blast
  have "take (capacity c) (replicate n x @ take (capacity c) (x # items c))
        = take (capacity c) (replicate (Suc n) x @ items c)"
    by (simp only: take_append_take) (simp only: replicate_app_Cons_same replicate_Suc append_Cons)
  with Suc.IH [OF c1(2)] c1 show ?case by simp
qed

lemma put_get:
  "inv c \<Longrightarrow> 0 \<le> i \<Longrightarrow> i < int (length (items c)) \<Longrightarrow> put c i x = Inr c' \<Longrightarrow> get c' i = Inr x"
  using put_law [of c i x] get_law [of c' i] by auto

end

interpretation circ: recency_list circ_ok circ_items "\<lambda>c. nat (x_cap c)"
    circ_list_push circ_list_item circ_list_set_item
proof unfold_locales
  fix c :: "'a circ_list" and x
  assume "circ_ok c"
  then show "\<exists>c'. circ_list_push c x = Inr c' \<and> circ_ok c' \<and> nat (x_cap c') = nat (x_cap c)
               \<and> circ_items c' = take (nat (x_cap c)) (x # circ_items c)"
    using circ_list_push_ok by fastforce
next
  fix c :: "'a circ_list" and i x
  assume "circ_ok c" "0 \<le> i" "i < int (length (circ_items c))"
  then show "\<exists>c'. circ_list_set_item c i x = Inr c' \<and> circ_ok c' \<and> nat (x_cap c') = nat (x_cap c)
               \<and> circ_items c' = (circ_items c)[nat i := x]"
    using circ_list_set_item_ok [of c i x] by (auto simp: circ_ok_def)
qed (auto simp: circ_list_item_ok circ_ok_def)

end
