(* ===== verification/Packet_Id.thy ===== *)
theory Packet_Id
  imports Integers Buffer
begin

text \<open>
  Replay protection (packet_id.h, packet_id.c) and its use by the data channel
  (\<open>openvpn_decrypt\<close> of crypto.c).

  The receiver keeps the highest time and sequence number accepted and, in backtrack mode
  (UDP), a circular list with one slot for each of the last \<open>seq_backtrack\<close> sequence numbers:
  slot \<open>i\<close> belongs to number \<open>id - i\<close> and holds \<open>SEQ_UNSEEN\<close>, \<open>SEQ_EXPIRED\<close> or the time of
  arrival.  Without a list (TCP) numbers must arrive without gaps.  The static variable
  \<open>max_backtrack_stat\<close> of \<open>packet_id_test\<close> only serves a log message and is left out.
\<close>

section \<open>Types\<close>

type_synonym packet_id_type = u32

definition PACKET_ID_WRAP_TRIGGER :: packet_id_type where
  "PACKET_ID_WRAP_TRIGGER = 0xFF000000"

definition MIN_SEQ_BACKTRACK :: int where "MIN_SEQ_BACKTRACK = 0"
definition MAX_SEQ_BACKTRACK :: int where "MAX_SEQ_BACKTRACK = 65536"
definition MIN_TIME_BACKTRACK :: int where "MIN_TIME_BACKTRACK = 0"
definition MAX_TIME_BACKTRACK :: int where "MAX_TIME_BACKTRACK = 600"
definition SEQ_REAP_INTERVAL :: int where "SEQ_REAP_INTERVAL = 5"
definition SEQ_UNSEEN :: time_t where "SEQ_UNSEEN = 0"
definition SEQ_EXPIRED :: time_t where "SEQ_EXPIRED = 1"

record packet_id_rec =
  r_last_reap :: time_t
  r_time :: time_t
  r_id :: packet_id_type
  r_seq_backtrack :: int
  r_time_backtrack :: int
  r_initialized :: bool
  r_seq_list :: "time_t circ_list option"

record packet_id_persist =
  p_filename :: "string option"
  p_fd :: int
  p_time :: time_t
  p_id :: packet_id_type
  p_time_last_written :: time_t
  p_id_last_written :: packet_id_type

record packet_id_send =
  s_id :: packet_id_type
  s_time :: time_t

record packet_id_net =
  n_id :: packet_id_type
  n_time :: time_t

record packet_id =
  pid_send :: packet_id_send
  pid_rec :: packet_id_rec

section \<open>Receiving side\<close>

definition packet_id_clear :: packet_id where
  \<comment> \<open>\<open>CLEAR (*p)\<close>\<close>
  "packet_id_clear =
     \<lparr>pid_send = \<lparr>s_id = 0, s_time = 0\<rparr>,
      pid_rec = \<lparr>r_last_reap = 0, r_time = 0, r_id = 0, r_seq_backtrack = 0, r_time_backtrack = 0,
                 r_initialized = False, r_seq_list = None\<rparr>\<rparr>"

definition packet_id_init :: "int \<Rightarrow> int \<Rightarrow> packet_id result" where
  "packet_id_init seq_backtrack time_backtrack =
     (let p = packet_id_clear; r = pid_rec p
      in if seq_backtrack \<noteq> 0 then
           assert_that (MIN_SEQ_BACKTRACK \<le> seq_backtrack \<and> seq_backtrack \<le> MAX_SEQ_BACKTRACK)
           (assert_that (MIN_TIME_BACKTRACK \<le> time_backtrack \<and> time_backtrack \<le> MAX_TIME_BACKTRACK)
             (Inr (p\<lparr>pid_rec := r\<lparr>r_seq_list := Some (circ_list_alloc 0 seq_backtrack),
                                   r_seq_backtrack := seq_backtrack,
                                   r_time_backtrack := time_backtrack,
                                   r_initialized := True\<rparr>\<rparr>)))
         else Inr (p\<lparr>pid_rec := r\<lparr>r_initialized := True\<rparr>\<rparr>))"

definition packet_id_free :: "packet_id \<Rightarrow> packet_id" where
  "packet_id_free p = packet_id_clear"

function packet_id_add_loop ::
    "packet_id_type \<Rightarrow> packet_id_type \<Rightarrow> time_t circ_list \<Rightarrow> (packet_id_type \<times> time_t circ_list) result" where
  \<comment> \<open>\<open>while (p->id < pin->id) { CIRC_LIST_PUSH (p->seq_list, SEQ_UNSEEN); ++p->id; }\<close>\<close>
  "packet_id_add_loop pin_id i c =
     (if i < pin_id
      then bind_result (circ_list_push c SEQ_UNSEEN) (\<lambda>c. packet_id_add_loop pin_id (i + 1) c)
      else Inr (i, c))"
  by pat_completeness auto
termination
  by (relation "measure (\<lambda>(n, i, c). unat n - unat i)")
     (auto simp: unat_Suc_less word_less_nat_alt)

declare packet_id_add_loop.simps [simp del]

definition packet_id_add :: "time_t \<Rightarrow> packet_id_rec \<Rightarrow> packet_id_net \<Rightarrow> packet_id_rec result" where
  "packet_id_add now p pin =
     (case r_seq_list p of
        Some c \<Rightarrow>
          (let backtrack = u32_of_int (r_seq_backtrack p);
               new_series = x_size c = 0
                 \<or> n_time pin > r_time p
                 \<or> (n_id pin \<ge> backtrack \<and> n_id pin - backtrack > r_id p);
               time1 = (if new_series then n_time pin else r_time p);
               id1 = (if new_series
                      then (if n_id pin > backtrack then n_id pin - backtrack else 0)
                      else r_id p);
               c1 = (if new_series then circ_list_reset c else c)
           in bind_result (packet_id_add_loop (n_id pin) id1 c1) (\<lambda>(id2, c2).
                let diff = id2 - n_id pin;
                    p2 = p\<lparr>r_time := time1, r_id := id2, r_seq_list := Some c2\<rparr>
                in if diff < u32_of_int (x_size c2) \<and> now > SEQ_EXPIRED
                   then bind_result (circ_list_set_item c2 (uint diff) now)
                          (\<lambda>c3. Inr (p2\<lparr>r_seq_list := Some c3\<rparr>))
                   else Inr p2))
      | None \<Rightarrow> Inr (p\<lparr>r_time := n_time pin, r_id := n_id pin\<rparr>))"

lemma circ_list_set_item_size:
  "circ_list_set_item c i v = Inr c' \<Longrightarrow> x_size c' = x_size c \<and> x_cap c' = x_cap c"
  by (auto simp: circ_list_set_item_def bind_result_Inr)

function packet_id_reap_loop ::
    "time_t \<Rightarrow> int \<Rightarrow> int \<Rightarrow> bool \<Rightarrow> time_t circ_list \<Rightarrow> time_t circ_list result" where
  "packet_id_reap_loop now time_backtrack i expire c =
     (if i < x_size c then
        bind_result (circ_list_item c i) (\<lambda>t.
          if t = SEQ_EXPIRED then Inr c
          else let expire = (expire \<or> (\<not> expire \<and> t \<noteq> 0 \<and> t + time_backtrack < now))
               in if expire
                  then bind_result (circ_list_set_item c i SEQ_EXPIRED)
                         (\<lambda>c. packet_id_reap_loop now time_backtrack (i + 1) expire c)
                  else packet_id_reap_loop now time_backtrack (i + 1) expire c)
      else Inr c)"
  by pat_completeness auto
termination
  by (relation "measure (\<lambda>(now, tb, i, e, c). nat (x_size c - i))")
     (auto dest: circ_list_set_item_size)

declare packet_id_reap_loop.simps [simp del]

definition packet_id_reap :: "time_t \<Rightarrow> packet_id_rec \<Rightarrow> packet_id_rec result" where
  "packet_id_reap now p =
     bind_result
       (if r_time_backtrack p \<noteq> 0
        then (case r_seq_list p of
                None \<Rightarrow> Inl NullDeref
              | Some c \<Rightarrow>
                  bind_result (packet_id_reap_loop now (r_time_backtrack p) 0 False c)
                    (\<lambda>c. Inr (p\<lparr>r_seq_list := Some c\<rparr>)))
        else Inr p)
       (\<lambda>p. Inr (p\<lparr>r_last_reap := now\<rparr>))"

definition packet_id_reap_test :: "time_t \<Rightarrow> packet_id_rec \<Rightarrow> packet_id_rec result" where
  "packet_id_reap_test now p =
     (if r_last_reap p + SEQ_REAP_INTERVAL \<le> now then packet_id_reap now p else Inr p)"

definition packet_id_test :: "packet_id_rec \<Rightarrow> packet_id_net \<Rightarrow> bool result" where
  "packet_id_test p pin =
     assert_that (r_initialized p)
       (if n_id pin = 0 then Inr False
        else if r_seq_backtrack p \<noteq> 0 then
          (if n_time pin = r_time p then
             (if n_id pin > r_id p then Inr True
              else let diff = r_id p - n_id pin
                   in case r_seq_list p of
                        None \<Rightarrow> Inl NullDeref
                      | Some c \<Rightarrow>
                          (if diff \<ge> u32_of_int (x_size c) then Inr False
                           else bind_result (circ_list_item c (uint diff)) (\<lambda>t. Inr (t = 0))))
           else if n_time pin < r_time p then Inr False
           else Inr True)
        else
          (if n_time pin = r_time p then Inr (r_id p = 0 \<or> n_id pin = r_id p + 1)
           else if n_time pin < r_time p then Inr False
           else Inr (n_id pin = 1)))"

definition packet_id_check :: "time_t \<Rightarrow> packet_id_rec \<Rightarrow> packet_id_net \<Rightarrow> (bool \<times> packet_id_rec) result" where
  \<comment> \<open>the replay check of \<open>openvpn_decrypt\<close>\<close>
  "packet_id_check now p pin =
     bind_result (packet_id_reap_test now p) (\<lambda>p.
       bind_result (packet_id_test p pin) (\<lambda>ok.
         if ok then bind_result (packet_id_add now p pin) (\<lambda>p. Inr (True, p))
         else Inr (False, p)))"

section \<open>Sending side\<close>

definition packet_id_close_to_wrapping :: "packet_id_send \<Rightarrow> bool" where
  "packet_id_close_to_wrapping p \<longleftrightarrow> s_id p \<ge> PACKET_ID_WRAP_TRIGGER"

definition packet_id_alloc_outgoing ::
    "time_t \<Rightarrow> packet_id_send \<Rightarrow> bool \<Rightarrow> (packet_id_send \<times> packet_id_net) result" where
  "packet_id_alloc_outgoing now p long_form =
     (let p = (if s_time p = 0 then p\<lparr>s_time := now\<rparr> else p);
          p = p\<lparr>s_id := s_id p + 1\<rparr>;
          pin_id = s_id p
      in if pin_id = 0
         then assert_that long_form
                (let p = p\<lparr>s_time := now, s_id := 1\<rparr>
                 in Inr (p, \<lparr>n_id = 1, n_time = s_time p\<rparr>))
         else Inr (p, \<lparr>n_id = pin_id, n_time = s_time p\<rparr>))"

definition check_timestamp_delta :: "time_t \<Rightarrow> time_t \<Rightarrow> u32 \<Rightarrow> bool" where
  "check_timestamp_delta now remote max_delta =
     (let a = (if now \<ge> remote then u32_of_int (now - remote) else u32_of_int (remote - now))
      in a \<le> max_delta)"

section \<open>On the wire\<close>

definition packet_id_size :: "bool \<Rightarrow> int" where
  "packet_id_size long_form = 4 + (if long_form then 4 else 0)"

definition packet_id_read :: "buffer \<Rightarrow> bool \<Rightarrow> bool \<times> packet_id_net \<times> buffer" where
  "packet_id_read b long_form =
     (let pin = \<lparr>n_id = 0, n_time = 0\<rparr>
      in case buf_read b 4 of
           (None, b) \<Rightarrow> (False, pin, b)
         | (Some net_id, b) \<Rightarrow>
             (let pin = pin\<lparr>n_id := u32_of_bytes net_id\<rparr>
              in if long_form
                 then (case buf_read b 4 of
                         (None, b) \<Rightarrow> (False, pin, b)
                       | (Some net_time, b) \<Rightarrow> (True, pin\<lparr>n_time := uint (u32_of_bytes net_time)\<rparr>, b))
                 else (True, pin, b)))"

definition packet_id_write :: "packet_id_net \<Rightarrow> buffer \<Rightarrow> bool \<Rightarrow> bool \<Rightarrow> bool \<times> buffer" where
  "packet_id_write pin b long_form prepend =
     (let net_id = bytes_of_u32 (n_id pin);
          net_time = bytes_of_u32 (u32_of_int (n_time pin))
      in if prepend then
           (if long_form
            then (case buf_write_prepend b net_time of
                    (False, b) \<Rightarrow> (False, b)
                  | (True, b) \<Rightarrow> buf_write_prepend b net_id)
            else buf_write_prepend b net_id)
         else
           (case buf_write b net_id of
              (False, b) \<Rightarrow> (False, b)
            | (True, b) \<Rightarrow> if long_form then buf_write b net_time else (True, b)))"

section \<open>Persistence\<close>

text \<open>
  The file operations are the environment: \<open>fd\<close> is what \<open>open\<close> returns, \<open>locked\<close> whether
  \<open>flock\<close> succeeds, \<open>img\<close> the file image when \<open>read\<close> delivers a complete one; \<open>seek_ok\<close> and
  \<open>write_ok\<close> tell whether \<open>lseek\<close> and \<open>write\<close> succeed.
\<close>

definition packet_id_persist_enabled :: "packet_id_persist \<Rightarrow> bool" where
  "packet_id_persist_enabled p \<longleftrightarrow> p_fd p \<ge> 0"

definition packet_id_persist_init :: packet_id_persist where
  "packet_id_persist_init =
     \<lparr>p_filename = None, p_fd = -1, p_time = 0, p_id = 0, p_time_last_written = 0, p_id_last_written = 0\<rparr>"

definition packet_id_persist_close :: "packet_id_persist \<Rightarrow> packet_id_persist" where
  "packet_id_persist_close p = (if packet_id_persist_enabled p then packet_id_persist_init else p)"

definition packet_id_persist_load ::
    "packet_id_persist \<Rightarrow> string \<Rightarrow> int \<Rightarrow> bool \<Rightarrow> (time_t \<times> packet_id_type) option \<Rightarrow> packet_id_persist result" where
  "packet_id_persist_load p filename fd locked img =
     (if \<not> packet_id_persist_enabled p then
        (let p = p\<lparr>p_fd := fd\<rparr>
         in if fd = -1 then Inr p
            else if \<not> locked then Inl FatalError
            else let p = p\<lparr>p_filename := Some filename\<rparr>
                 in case img of
                      Some (t, i) \<Rightarrow> Inr (p\<lparr>p_time := t, p_time_last_written := t,
                                            p_id := i, p_id_last_written := i\<rparr>)
                    | None \<Rightarrow> Inr p)
      else Inr p)"

definition packet_id_persist_save ::
    "packet_id_persist \<Rightarrow> bool \<Rightarrow> bool \<Rightarrow> (time_t \<times> packet_id_type) option \<times> packet_id_persist" where
  \<comment> \<open>the image written, if any, and the new state\<close>
  "packet_id_persist_save p seek_ok write_ok =
     (if packet_id_persist_enabled p \<and> p_time p \<noteq> 0
         \<and> (p_time p \<noteq> p_time_last_written p \<or> p_id p \<noteq> p_id_last_written p)
      then if seek_ok
           then if write_ok
                then (Some (p_time p, p_id p),
                      p\<lparr>p_time_last_written := p_time p, p_id_last_written := p_id p\<rparr>)
                else (None, p)
           else (None, p)
      else (None, p))"

definition packet_id_persist_load_obj :: "packet_id_persist \<Rightarrow> packet_id \<Rightarrow> packet_id" where
  "packet_id_persist_load_obj p pid =
     (if packet_id_persist_enabled p \<and> p_time p \<noteq> 0
      then pid\<lparr>pid_rec := (pid_rec pid)\<lparr>r_time := p_time p, r_id := p_id p\<rparr>\<rparr>
      else pid)"

definition packet_id_persist_save_obj :: "packet_id_persist \<Rightarrow> packet_id \<Rightarrow> packet_id_persist" where
  "packet_id_persist_save_obj p pid =
     (if packet_id_persist_enabled p \<and> r_time (pid_rec pid) \<noteq> 0
      then p\<lparr>p_time := r_time (pid_rec pid), p_id := r_id (pid_rec pid)\<rparr>
      else p)"


section \<open>The loops on the window\<close>

lemma packet_id_add_loop_many:
  "i \<le> n \<Longrightarrow> packet_id_add_loop n i c
     = bind_result (circ.push_many (unat (n - i)) SEQ_UNSEEN c) (\<lambda>c'. Inr (n, c'))"
proof (induction n i c rule: packet_id_add_loop.induct)
  case (1 n i c)
  show ?case
  proof (cases "i < n")
    case True
    then have le: "i + 1 \<le> n" by (rule inc_le)
    have "unat (n - i) = Suc (unat (n - (i + 1)))"
      using True le unat_Suc_less [OF True] unfolding word_less_nat_alt
      by (simp add: unat_sub word_le_nat_alt)
    with True le "1.IH" [OF True] show ?thesis
      by (cases "circ_list_push c SEQ_UNSEEN") (simp_all add: packet_id_add_loop.simps [of n i c])
  next
    case False
    with "1.prems" have "i = n" by simp
    then show ?thesis by (simp add: packet_id_add_loop.simps)
  qed
qed

lemma packet_id_add_loop_above: "n \<le> i \<Longrightarrow> packet_id_add_loop n i c = Inr (i, c)"
  by (subst packet_id_add_loop.simps) (simp add: leD)

lemma packet_id_add_loop_ok:
  assumes "circ_ok c" "i \<le> n"
  obtains c' where "packet_id_add_loop n i c = Inr (n, c')" "circ_ok c'" "x_cap c' = x_cap c"
    "circ_items c' = take (nat (x_cap c)) (replicate (unat n - unat i) SEQ_UNSEEN @ circ_items c)"
proof -
  obtain c' where c': "circ.push_many (unat (n - i)) SEQ_UNSEEN c = Inr c'" "circ_ok c'"
      "nat (x_cap c') = nat (x_cap c)"
      "circ_items c' = take (nat (x_cap c)) (replicate (unat (n - i)) SEQ_UNSEEN @ circ_items c)"
    using circ.push_many_items [OF assms(1)] by blast
  show ?thesis
  proof (rule that)
    show "packet_id_add_loop n i c = Inr (n, c')"
      using c'(1) assms(2) by (simp add: packet_id_add_loop_many)
    show "x_cap c' = x_cap c" using c'(2,3) assms(1) by (simp add: circ_ok_def eq_nat_nat_iff)
    show "circ_items c' = take (nat (x_cap c)) (replicate (unat n - unat i) SEQ_UNSEEN @ circ_items c)"
      using c'(4) assms(2) by (simp add: unat_sub)
  qed (rule c'(2))
qed

text \<open>The effect of \<open>packet_id_reap\<close> on the arrival times, newest first.\<close>

fun reap_times :: "time_t \<Rightarrow> int \<Rightarrow> bool \<Rightarrow> time_t list \<Rightarrow> time_t list" where
  "reap_times now tb e [] = []"
| "reap_times now tb e (t # ts) =
     (if t = SEQ_EXPIRED then t # ts
      else if e \<or> t \<noteq> 0 \<and> t + tb < now then SEQ_EXPIRED # reap_times now tb True ts
      else t # reap_times now tb False ts)"

lemma length_reap_times [simp]: "length (reap_times now tb e ts) = length ts"
  by (induction ts arbitrary: e) auto

lemma reap_times_nth:
  "k < length ts \<Longrightarrow> reap_times now tb e ts ! k = ts ! k \<or> reap_times now tb e ts ! k = SEQ_EXPIRED"
  by (induction ts arbitrary: e k) (auto simp: nth_Cons split: nat.splits)

lemma packet_id_reap_loop_ok:
  "circ_ok c \<Longrightarrow> 0 \<le> i \<Longrightarrow> i \<le> x_size c \<Longrightarrow>
   \<exists>c'. packet_id_reap_loop now tb i e c = Inr c' \<and> circ_ok c' \<and> x_cap c' = x_cap c
     \<and> x_size c' = x_size c
     \<and> circ_items c' = take (nat i) (circ_items c) @ reap_times now tb e (drop (nat i) (circ_items c))"
proof (induction now tb i e c rule: packet_id_reap_loop.induct)
  case (1 now tb i e c)
  show ?case
  proof (cases "i < x_size c")
    case False
    with "1.prems" show ?thesis by (simp add: packet_id_reap_loop.simps)
  next
    case True
    let ?t = "circ_items c ! nat i"
    have item: "circ_list_item c i = Inr ?t"
      using "1.prems" True by (simp add: circ_list_item_ok)
    have i: "nat i < length (circ_items c)" using "1.prems" True by simp
    have drop: "drop (nat i) (circ_items c) = ?t # drop (Suc (nat i)) (circ_items c)"
      using i by (simp add: Cons_nth_drop_Suc)
    have Suc: "nat (i + 1) = Suc (nat i)" using "1.prems" by (simp add: nat_add_distrib)
    let ?e = "e \<or> (\<not> e \<and> ?t \<noteq> 0 \<and> ?t + tb < now)"
    show ?thesis
    proof (cases "?t = SEQ_EXPIRED")
      case E: True
      have "circ_items c = take (nat i) (circ_items c) @ drop (nat i) (circ_items c)" by simp
      with True item E "1.prems" drop show ?thesis
        by (simp add: packet_id_reap_loop.simps [of now tb i e c])
    next
      case NE: False
      show ?thesis
      proof (cases ?e)
        case E: True
        obtain c1 where c1: "circ_list_set_item c i SEQ_EXPIRED = Inr c1" "circ_ok c1"
            "x_cap c1 = x_cap c" "x_size c1 = x_size c"
            "circ_items c1 = (circ_items c)[nat i := SEQ_EXPIRED]"
          using circ_list_set_item_ok [of c i SEQ_EXPIRED] "1.prems" True by blast
        have "take (Suc (nat i)) (circ_items c1) = take (nat i) (circ_items c) @ [SEQ_EXPIRED]"
          using c1(5) i by (simp add: take_Suc_conv_app_nth take_update_cancel)
        moreover have "drop (Suc (nat i)) (circ_items c1) = drop (Suc (nat i)) (circ_items c)"
          using c1(5) by (simp add: drop_update_cancel)
        moreover have e: "?e = True" using E by (rule eqTrueI)
        moreover have "packet_id_reap_loop now tb i e c = packet_id_reap_loop now tb (i + 1) True c1"
          using True item NE e c1(1) by (subst packet_id_reap_loop.simps) (simp only: if_True if_False Let_def bind_result.simps)
        moreover have "reap_times now tb e (drop (nat i) (circ_items c))
            = SEQ_EXPIRED # reap_times now tb True (drop (Suc (nat i)) (circ_items c))"
          using drop NE E by auto
        ultimately show ?thesis
          using "1.IH"(1) [OF True item NE refl E c1(1,2), unfolded e] "1.prems" True c1(3,4) Suc by simp
      next
        case NNE: False
        have "take (Suc (nat i)) (circ_items c) = take (nat i) (circ_items c) @ [?t]"
          using i by (simp add: take_Suc_conv_app_nth)
        moreover have e: "?e = False" using NNE by blast
        moreover have "packet_id_reap_loop now tb i e c = packet_id_reap_loop now tb (i + 1) False c"
          using True item NE e by (subst packet_id_reap_loop.simps) (simp only: if_True if_False Let_def bind_result.simps)
        moreover have "reap_times now tb e (drop (nat i) (circ_items c))
            = ?t # reap_times now tb False (drop (Suc (nat i)) (circ_items c))"
          using drop NE NNE by auto
        ultimately show ?thesis
          using "1.IH"(2) [OF True item NE refl NNE "1.prems"(1), unfolded e] "1.prems" True Suc by simp
      qed
    qed
  qed
qed

section \<open>The replay invariant\<close>

text \<open>
  \<open>replay_ok p A\<close>: the receiver \<open>p\<close> has accepted exactly the packets \<open>A\<close>.  Every accepted
  packet is older than the newest one; in backtrack mode the window covers the newest
  \<open>min seq_backtrack id\<close> numbers, an unseen slot belongs to a packet that was not accepted, and
  a slot that holds an arrival time to one that was.
\<close>

definition window_ok :: "packet_id_rec \<Rightarrow> time_t circ_list \<Rightarrow> packet_id_net set \<Rightarrow> bool" where
  "window_ok p c A \<longleftrightarrow>
     circ_ok c \<and> x_cap c = r_seq_backtrack p \<and> x_cap c \<le> MAX_SEQ_BACKTRACK
     \<and> x_size c = min (x_cap c) (uint (r_id p))
     \<and> (\<forall>i. i \<le> r_id p \<longrightarrow> unat (r_id p) - unat i < nat (x_size c) \<longrightarrow>
          (let t = circ_items c ! (unat (r_id p) - unat i);
               pin = \<lparr>n_id = i, n_time = r_time p\<rparr>
           in (t = SEQ_UNSEEN \<longrightarrow> pin \<notin> A)
            \<and> (t \<noteq> SEQ_UNSEEN \<and> (r_time_backtrack p = 0 \<or> t \<noteq> SEQ_EXPIRED) \<longrightarrow> pin \<in> A)))"

definition replay_ok :: "packet_id_rec \<Rightarrow> packet_id_net set \<Rightarrow> bool" where
  "replay_ok p A \<longleftrightarrow>
     r_initialized p
     \<and> (\<forall>pin \<in> A. n_id pin \<noteq> 0
          \<and> (n_time pin < r_time p \<or> n_time pin = r_time p \<and> n_id pin \<le> r_id p))
     \<and> (if r_seq_backtrack p = 0 then r_seq_list p = None \<and> r_time_backtrack p = 0
        else \<exists>c. r_seq_list p = Some c \<and> window_ok p c A)"

lemma replay_okD:
  assumes "replay_ok p A"
  shows "r_initialized p"
    and "pin \<in> A \<Longrightarrow> n_id pin \<noteq> 0"
    and "pin \<in> A \<Longrightarrow> n_time pin < r_time p \<or> n_time pin = r_time p \<and> n_id pin \<le> r_id p"
    and "r_seq_backtrack p = 0 \<Longrightarrow> r_seq_list p = None \<and> r_time_backtrack p = 0"
  using assms by (auto simp: replay_ok_def)

lemma replay_ok_window:
  "replay_ok p A \<Longrightarrow> r_seq_backtrack p \<noteq> 0 \<Longrightarrow> \<exists>c. r_seq_list p = Some c \<and> window_ok p c A"
  by (auto simp: replay_ok_def)

lemma window_okD:
  assumes "window_ok p c A"
  shows "circ_ok c" "x_cap c = r_seq_backtrack p" "x_cap c \<le> 65536"
    "x_size c = min (x_cap c) (uint (r_id p))"
    "0 \<le> x_size c" "x_size c \<le> 65536"
  using assms by (auto simp: window_ok_def circ_ok_def MAX_SEQ_BACKTRACK_def)

lemma window_ok_unseen:
  "window_ok p c A \<Longrightarrow> i \<le> r_id p \<Longrightarrow> unat (r_id p) - unat i < nat (x_size c) \<Longrightarrow>
   circ_items c ! (unat (r_id p) - unat i) = 0 \<Longrightarrow> \<lparr>n_id = i, n_time = r_time p\<rparr> \<notin> A"
  by (auto simp: window_ok_def Let_def SEQ_UNSEEN_def)

lemma window_ok_seen:
  "window_ok p c A \<Longrightarrow> i \<le> r_id p \<Longrightarrow> unat (r_id p) - unat i < nat (x_size c) \<Longrightarrow>
   circ_items c ! (unat (r_id p) - unat i) = t \<Longrightarrow> t \<noteq> 0 \<Longrightarrow> r_time_backtrack p = 0 \<or> t \<noteq> 1 \<Longrightarrow>
   \<lparr>n_id = i, n_time = r_time p\<rparr> \<in> A"
  by (auto simp: window_ok_def Let_def SEQ_UNSEEN_def SEQ_EXPIRED_def)

lemma window_okI:
  assumes "circ_ok c" "x_cap c = r_seq_backtrack p" "x_cap c \<le> 65536"
    "x_size c = min (x_cap c) (uint (r_id p))"
    "\<And>i. i \<le> r_id p \<Longrightarrow> unat (r_id p) - unat i < nat (x_size c) \<Longrightarrow>
       circ_items c ! (unat (r_id p) - unat i) = 0 \<Longrightarrow> \<lparr>n_id = i, n_time = r_time p\<rparr> \<notin> A"
    "\<And>i. i \<le> r_id p \<Longrightarrow> unat (r_id p) - unat i < nat (x_size c) \<Longrightarrow>
       circ_items c ! (unat (r_id p) - unat i) \<noteq> 0 \<Longrightarrow>
       r_time_backtrack p = 0 \<or> circ_items c ! (unat (r_id p) - unat i) \<noteq> 1 \<Longrightarrow>
       \<lparr>n_id = i, n_time = r_time p\<rparr> \<in> A"
  shows "window_ok p c A"
  using assms by (simp add: window_ok_def Let_def SEQ_UNSEEN_def SEQ_EXPIRED_def MAX_SEQ_BACKTRACK_def)

lemma u32_of_int_unat: "0 \<le> n \<Longrightarrow> n < 2 ^ 32 \<Longrightarrow> unat (u32_of_int n) = nat n"
  by (simp add: u32_of_int_def uint_word_of_int flip: nat_uint_eq)

lemma unat_of_uint: "uint (w :: 'a::len word) = int (unat w)"
  by simp

text \<open>\<open>packet_id_init\<close> establishes it.\<close>

lemma packet_id_init_ok:
  assumes "packet_id_init s t = Inr pid"
  shows "replay_ok (pid_rec pid) {}" "r_seq_backtrack (pid_rec pid) = s"
    "r_time_backtrack (pid_rec pid) = (if s = 0 then 0 else t)"
proof -
  have "0 < s \<and> s \<le> 65536" if "s \<noteq> 0"
    using assms that
    by (auto simp: packet_id_init_def Let_def assert_that_def MIN_SEQ_BACKTRACK_def MAX_SEQ_BACKTRACK_def
        split: if_splits)
  moreover have "x_size (circ_list_alloc 0 s :: time_t circ_list) = 0" by (simp add: circ_list_alloc_def)
  ultimately show "replay_ok (pid_rec pid) {}" "r_seq_backtrack (pid_rec pid) = s"
      "r_time_backtrack (pid_rec pid) = (if s = 0 then 0 else t)"
    using assms
    by (auto simp: packet_id_init_def packet_id_clear_def Let_def assert_that_def replay_ok_def
        circ_alloc_ok split: if_splits intro!: window_okI)
qed

text \<open>\<open>packet_id_reap_test\<close> preserves it.\<close>

lemma packet_id_reap_test_ok:
  assumes "replay_ok p A"
  shows "\<exists>p'. packet_id_reap_test now p = Inr p' \<and> replay_ok p' A
           \<and> r_time p' = r_time p \<and> r_id p' = r_id p
           \<and> r_seq_backtrack p' = r_seq_backtrack p \<and> r_time_backtrack p' = r_time_backtrack p"
proof (cases "r_last_reap p + SEQ_REAP_INTERVAL \<le> now \<and> r_time_backtrack p \<noteq> 0")
  case False
  with assms show ?thesis
    by (auto simp: packet_id_reap_test_def packet_id_reap_def replay_ok_def window_ok_def)
next
  case True
  with assms have "r_seq_backtrack p \<noteq> 0" using replay_okD(4) by auto
  then obtain c where c: "r_seq_list p = Some c" "window_ok p c A"
    using replay_ok_window [OF assms] by blast
  note D = window_okD [OF c(2)]
  obtain c' where c': "packet_id_reap_loop now (r_time_backtrack p) 0 False c = Inr c'" "circ_ok c'"
      "x_cap c' = x_cap c" "x_size c' = x_size c"
      "circ_items c' = reap_times now (r_time_backtrack p) False (circ_items c)"
    using packet_id_reap_loop_ok [OF D(1), of 0] D(5) by force
  let ?p = "p\<lparr>r_seq_list := Some c', r_last_reap := now\<rparr>"
  have keep: "circ_items c' ! k = circ_items c ! k \<or> circ_items c' ! k = 1" if "k < nat (x_size c)" for k
    using that c'(5) reap_times_nth [of k "circ_items c"] by (simp add: SEQ_EXPIRED_def)
  have "window_ok ?p c' A"
  proof (rule window_okI)
    fix i assume i: "i \<le> r_id ?p" "unat (r_id ?p) - unat i < nat (x_size c')"
    then show "circ_items c' ! (unat (r_id ?p) - unat i) = 0 \<Longrightarrow> \<lparr>n_id = i, n_time = r_time ?p\<rparr> \<notin> A"
      using window_ok_unseen [OF c(2), of i] keep [of "unat (r_id p) - unat i"] c'(4) by auto
    assume "circ_items c' ! (unat (r_id ?p) - unat i) \<noteq> 0"
      "r_time_backtrack ?p = 0 \<or> circ_items c' ! (unat (r_id ?p) - unat i) \<noteq> 1"
    then show "\<lparr>n_id = i, n_time = r_time ?p\<rparr> \<in> A"
      using i True window_ok_seen [OF c(2), of i _] keep [of "unat (r_id p) - unat i"] c'(4) by auto
  qed (use D c' in auto)
  moreover have "packet_id_reap_test now p = Inr ?p"
    using True c(1) c'(1) by (simp add: packet_id_reap_test_def packet_id_reap_def)
  ultimately show ?thesis
    using assms \<open>r_seq_backtrack p \<noteq> 0\<close> by (auto simp: replay_ok_def)
qed

text \<open>What \<open>packet_id_test\<close> decides.\<close>

lemma packet_id_test_window:
  assumes "replay_ok p A" "r_seq_backtrack p \<noteq> 0" "r_seq_list p = Some c"
  shows "packet_id_test p pin = Inr (n_id pin \<noteq> 0 \<and>
           (n_time pin > r_time p \<or> n_time pin = r_time p \<and>
             (n_id pin > r_id p \<or> unat (r_id p) - unat (n_id pin) < nat (x_size c)
                \<and> circ_items c ! (unat (r_id p) - unat (n_id pin)) = 0)))"
proof -
  have w: "window_ok p c A" using replay_ok_window [OF assms(1,2)] assms(3) by simp
  note D = window_okD [OF w]
  have size: "unat (u32_of_int (x_size c)) = nat (x_size c)"
    using D(5,6) by (intro u32_of_int_unat) auto
  have item: "circ_list_item c (uint (r_id p - n_id pin))
        = Inr (circ_items c ! (unat (r_id p) - unat (n_id pin)))"
    if "n_id pin \<le> r_id p" "unat (r_id p) - unat (n_id pin) < nat (x_size c)"
  proof -
    have "uint (r_id p - n_id pin) = int (unat (r_id p) - unat (n_id pin))"
      using that(1) by (simp only: unat_of_uint unat_sub word_le_nat_alt)
    with that(2) D(1) show ?thesis by (simp add: circ_list_item_ok)
  qed
  have diff: "u32_of_int (x_size c) \<le> r_id p - n_id pin
      \<longleftrightarrow> nat (x_size c) \<le> unat (r_id p) - unat (n_id pin)" if "n_id pin \<le> r_id p"
    using that size by (simp add: word_le_nat_alt unat_sub)
  consider "n_id pin = 0" | "n_time pin \<noteq> r_time p" | "n_id pin > r_id p"
    | "n_id pin \<noteq> 0" "n_time pin = r_time p" "n_id pin \<le> r_id p" by fastforce
  then show ?thesis
  proof cases
    case 4
    with assms replay_okD(1) [OF assms(1)] show ?thesis
      using diff item by (auto simp: packet_id_test_def Let_def not_le not_less leD)
  qed (use assms(2,3) replay_okD(1) [OF assms(1)] in \<open>auto simp: packet_id_test_def\<close>)
qed

lemma packet_id_test_sequential:
  assumes "replay_ok p A" "r_seq_backtrack p = 0"
  shows "packet_id_test p pin = Inr (n_id pin \<noteq> 0 \<and>
           (n_time pin > r_time p \<and> n_id pin = 1
            \<or> n_time pin = r_time p \<and> (r_id p = 0 \<or> n_id pin = r_id p + 1)))"
  using assms(2) replay_okD(1) [OF assms(1)] by (auto simp: packet_id_test_def)

lemma packet_id_test_total: "replay_ok p A \<Longrightarrow> \<exists>ok. packet_id_test p pin = Inr ok"
  using packet_id_test_window packet_id_test_sequential replay_ok_window by (cases "r_seq_backtrack p = 0") blast+

lemma succ_le_wraps: "w + 1 \<le> w \<Longrightarrow> w + 1 = (0 :: 'a::len word)"
proof (rule ccontr)
  assume le: "w + 1 \<le> w" and nz: "w + 1 \<noteq> 0"
  have "unat w + 1 \<noteq> 2 ^ LENGTH('a)"
  proof
    assume "unat w + 1 = 2 ^ LENGTH('a)"
    then have "unat (w + 1) = 0" by (simp add: unat_word_ariths)
    with nz show False by (simp add: unat_eq_zero)
  qed
  with unat_bound [of w] have "unat w + 1 < 2 ^ LENGTH('a)" by linarith
  then have "unat (w + 1) = unat w + 1" by (simp add: unat_word_ariths)
  with le show False by (simp add: word_le_nat_alt)
qed

text \<open>An accepted packet was not accepted before.\<close>

lemma packet_id_test_fresh:
  assumes "replay_ok p A" "packet_id_test p pin = Inr True"
  shows "pin \<notin> A"
proof
  assume A: "pin \<in> A"
  note old = replay_okD(2,3) [OF assms(1) A]
  show False
  proof (cases "r_seq_backtrack p = 0")
    case True
    with assms old show False
      using packet_id_test_sequential [OF assms(1) True, of pin] succ_le_wraps [of "r_id p"] by auto
  next
    case False
    then obtain c where c: "r_seq_list p = Some c" "window_ok p c A"
      using replay_ok_window [OF assms(1)] by blast
    have "pin = \<lparr>n_id = n_id pin, n_time = n_time pin\<rparr>" by simp
    with A have "n_time pin = r_time p \<Longrightarrow> \<lparr>n_id = n_id pin, n_time = r_time p\<rparr> \<in> A" by metis
    with assms old show False
      using packet_id_test_window [OF assms(1) False c(1), of pin] window_ok_unseen [OF c(2), of "n_id pin"]
      by (auto simp: not_le leD)
  qed
qed

text \<open>Accepting a packet keeps the invariant.\<close>

lemma unat_diff_less: "i \<le> n \<Longrightarrow> unat (n - i) = unat n - unat (i :: 'a::len word)"
  by (simp add: unat_sub word_le_nat_alt)

lemma nth_take_replicate_append:
  "m < k \<Longrightarrow> m < k' + length xs \<Longrightarrow> take k (replicate k' z @ xs) ! m = (if m < k' then z else xs ! (m - k'))"
  by (simp add: nth_append)

lemma packet_id_add_mark:
  assumes "circ_ok c" "x_size c \<le> 65536" "pin_id \<le> i" "unat i - unat pin_id < nat (x_size c)"
  shows "\<exists>c'. circ_list_set_item c (uint (i - pin_id)) now = Inr c' \<and> circ_ok c' \<and> x_cap c' = x_cap c
           \<and> x_size c' = x_size c \<and> circ_items c' = (circ_items c)[unat i - unat pin_id := now]
           \<and> i - pin_id < u32_of_int (x_size c)"
proof -
  have d: "uint (i - pin_id) = int (unat i - unat pin_id)"
    using assms(3) by (simp only: unat_of_uint unat_diff_less)
  have "unat (u32_of_int (x_size c)) = nat (x_size c)"
    using assms by (intro u32_of_int_unat) (auto simp: circ_ok_def)
  then have "i - pin_id < u32_of_int (x_size c)"
    using assms(3,4) by (simp add: word_less_nat_alt unat_diff_less)
  moreover have "\<exists>c'. circ_list_set_item c (uint (i - pin_id)) now = Inr c' \<and> circ_ok c' \<and> x_cap c' = x_cap c
           \<and> x_size c' = x_size c \<and> circ_items c' = (circ_items c)[nat (uint (i - pin_id)) := now]"
    using assms d by (intro circ_list_set_item_ok) auto
  ultimately show ?thesis using d by simp
qed

lemma window_size_eq:
  "nat s = min (nat cap) (unat (n :: u32)) \<Longrightarrow> 0 \<le> s \<Longrightarrow> 0 \<le> cap \<Longrightarrow> s = min cap (uint n)"
  using of_nat_min [of "nat cap" "unat n", where 'a = int] by simp

lemma nat_min_cap: "nat (min cap (uint (n :: u32))) = min (nat cap) (unat n)"
proof -
  have u: "uint n = int (unat n)" by simp
  show ?thesis unfolding u by arith
qed

lemma window_mark:
  assumes w: "window_ok p c A" and i: "n_id pin \<le> r_id p" "n_time pin = r_time p"
    and m: "unat (r_id p) - unat (n_id pin) < nat (x_size c)" and now: "1 < now"
  shows "\<exists>c'. circ_list_set_item c (uint (r_id p - n_id pin)) now = Inr c'
           \<and> r_id p - n_id pin < u32_of_int (x_size c) \<and> window_ok p c' (insert pin A)"
proof -
  note D = window_okD [OF w]
  let ?m = "unat (r_id p) - unat (n_id pin)"
  obtain c' where c': "circ_list_set_item c (uint (r_id p - n_id pin)) now = Inr c'" "circ_ok c'"
      "x_cap c' = x_cap c" "x_size c' = x_size c" "circ_items c' = (circ_items c)[?m := now]"
      "r_id p - n_id pin < u32_of_int (x_size c)"
    using packet_id_add_mark [OF D(1) D(6) i(1) m] by blast
  have pin: "pin = \<lparr>n_id = n_id pin, n_time = r_time p\<rparr>" using i(2) by simp
  have eq: "j = n_id pin" if "j \<le> r_id p" "unat (r_id p) - unat j = ?m" for j
  proof -
    have "unat j = unat (n_id pin)"
      using that i(1) unfolding word_le_nat_alt by linarith
    then show ?thesis by (simp add: word_unat_eq_iff)
  qed
  have items: "circ_items c' ! (unat (r_id p) - unat j)
      = (if j = n_id pin then now else circ_items c ! (unat (r_id p) - unat j))"
    if "j \<le> r_id p" "unat (r_id p) - unat j < nat (x_size c)" for j
    using that m eq [OF that(1)] c'(5) by (auto simp: nth_list_update)
  have "window_ok p c' (insert pin A)"
  proof (rule window_okI)
    fix j assume j: "j \<le> r_id p" "unat (r_id p) - unat j < nat (x_size c')"
    note I = items [OF j(1)]
    show "circ_items c' ! (unat (r_id p) - unat j) = 0 \<Longrightarrow>
        \<lparr>n_id = j, n_time = r_time p\<rparr> \<notin> insert pin A"
      using I j(2) c'(4) now window_ok_unseen [OF w j(1)] by (subst pin) (auto split: if_splits)
    show "circ_items c' ! (unat (r_id p) - unat j) \<noteq> 0 \<Longrightarrow>
        r_time_backtrack p = 0 \<or> circ_items c' ! (unat (r_id p) - unat j) \<noteq> 1 \<Longrightarrow>
        \<lparr>n_id = j, n_time = r_time p\<rparr> \<in> insert pin A"
      using I j(2) c'(4) pin window_ok_seen [OF w j(1)] by (auto split: if_splits)
  qed (use D c' in auto)
  with c' show ?thesis by blast
qed

lemma window_new_series:
  assumes c: "circ_ok c" "x_cap c = r_seq_backtrack p" "x_cap c \<le> 65536" and n: "r_id p = n"
    and fresh: "\<And>i. i \<le> n \<Longrightarrow> unat n - unat i < nat (x_cap c) \<Longrightarrow> \<lparr>n_id = i, n_time = r_time p\<rparr> \<notin> A"
    and bt: "backtrack = u32_of_int (r_seq_backtrack p)"
    and id1: "id1 = (if n > backtrack then n - backtrack else 0)"
  shows "\<exists>c'. packet_id_add_loop n id1 (circ_list_reset c) = Inr (n, c') \<and> window_ok p c' A"
proof -
  have cap: "0 < x_cap c" using c(1) by (simp add: circ_ok_def)
  have b: "unat backtrack = nat (x_cap c)"
    using bt c cap by (simp add: u32_of_int_unat)
  have le: "id1 \<le> n" using id1 by (simp add: word_le_nat_alt unat_diff_less [OF less_imp_le])
  have k: "unat n - unat id1 = min (unat n) (nat (x_cap c))"
    using id1 b by (auto simp: unat_diff_less [OF less_imp_le] word_less_nat_alt min_def)
  obtain c' where c': "packet_id_add_loop n id1 (circ_list_reset c) = Inr (n, c')" "circ_ok c'"
      "x_cap c' = x_cap c"
      "circ_items c' = take (nat (x_cap c)) (replicate (min (unat n) (nat (x_cap c))) SEQ_UNSEEN @ [])"
    using packet_id_add_loop_ok [OF circ_reset_ok [OF c(1)] le] by (metis k circ_items_reset circ_reset_cap)
  have s': "nat (x_size c') = min (nat (x_cap c)) (unat n)"
    using arg_cong [OF c'(4), of length] by (simp add: min.commute)
  then have size: "x_size c' = min (x_cap c) (uint n)"
    using c'(2) cap by (intro window_size_eq) (auto simp: circ_ok_def)
  have "window_ok p c' A"
  proof (rule window_okI)
    fix i assume i: "i \<le> r_id p" "unat (r_id p) - unat i < nat (x_size c')"
    have "unat n - unat i < min (nat (x_cap c)) (unat n)" using i(2) s' n by simp
    then have item: "circ_items c' ! (unat (r_id p) - unat i) = 0" "unat n - unat i < nat (x_cap c)"
      using c'(4) n by (simp_all add: SEQ_UNSEEN_def min.commute)
    show "circ_items c' ! (unat (r_id p) - unat i) = 0 \<Longrightarrow> \<lparr>n_id = i, n_time = r_time p\<rparr> \<notin> A"
      using fresh i(1) item(2) n by simp
    show "circ_items c' ! (unat (r_id p) - unat i) \<noteq> 0 \<Longrightarrow>
        r_time_backtrack p = 0 \<or> circ_items c' ! (unat (r_id p) - unat i) \<noteq> 1 \<Longrightarrow>
        \<lparr>n_id = i, n_time = r_time p\<rparr> \<in> A"
      using item(1) by simp
  qed (use c'(2,3) c n size in auto)
  with c'(1) show ?thesis by blast
qed

lemma window_slide:
  assumes w: "window_ok p c A" and old: "\<And>pin. pin \<in> A \<Longrightarrow> n_time pin = r_time p \<Longrightarrow> n_id pin \<le> r_id p"
    and n: "r_id p \<le> n"
  shows "\<exists>c'. packet_id_add_loop n (r_id p) c = Inr (n, c') \<and> window_ok (p\<lparr>r_id := n\<rparr>) c' A"
proof -
  note D = window_okD [OF w]
  let ?k = "unat n - unat (r_id p)"
  obtain c' where c': "packet_id_add_loop n (r_id p) c = Inr (n, c')" "circ_ok c'" "x_cap c' = x_cap c"
      "circ_items c' = take (nat (x_cap c)) (replicate ?k 0 @ circ_items c)"
    using packet_id_add_loop_ok [OF D(1) n] by (auto simp: SEQ_UNSEEN_def)
  have le: "unat (r_id p) \<le> unat n" using n by (simp add: word_le_nat_alt)
  have xs: "nat (x_size c) = min (nat (x_cap c)) (unat (r_id p))"
    using D(4) by (simp add: nat_min_cap)
  have "length (circ_items c') = min (?k + length (circ_items c)) (nat (x_cap c))"
    unfolding c'(4) by (simp only: length_take length_append length_replicate)
  then have s': "nat (x_size c') = min (nat (x_cap c)) (unat n)"
    unfolding length_circ_items xs using le by arith
  then have size: "x_size c' = min (x_cap c) (uint n)"
    using c'(2) D(1) by (intro window_size_eq) (auto simp: circ_ok_def)
  have items: "circ_items c' ! (unat n - unat i) =
      (if i \<le> r_id p then circ_items c ! (unat (r_id p) - unat i) else 0)
      \<and> (i \<le> r_id p \<longrightarrow> unat (r_id p) - unat i < nat (x_size c))"
    if "i \<le> n" "unat n - unat i < nat (x_size c')" for i
  proof -
    have "unat n - unat i < nat (x_cap c)" "unat n - unat i < ?k + length (circ_items c)"
      using that(2) le unfolding length_circ_items xs s' by arith+
    then have "circ_items c' ! (unat n - unat i) =
        (if unat n - unat i < ?k then 0 else circ_items c ! (unat n - unat i - ?k))"
      unfolding c'(4) by (rule nth_take_replicate_append)
    moreover have "unat n - unat i < ?k \<longleftrightarrow> \<not> i \<le> r_id p"
      using that(1) le unfolding word_le_nat_alt by linarith
    moreover have "unat n - unat i - ?k = unat (r_id p) - unat i"
      using that(1) le unfolding word_le_nat_alt by linarith
    moreover have "i \<le> r_id p \<longrightarrow> unat (r_id p) - unat i < nat (x_size c)"
      using that le unfolding s' xs word_le_nat_alt by arith
    ultimately show ?thesis by simp
  qed
  have "window_ok (p\<lparr>r_id := n\<rparr>) c' A"
  proof (rule window_okI)
    fix i assume i: "i \<le> r_id (p\<lparr>r_id := n\<rparr>)"
      "unat (r_id (p\<lparr>r_id := n\<rparr>)) - unat i < nat (x_size c')"
    note I = items [of i]
    show "circ_items c' ! (unat (r_id (p\<lparr>r_id := n\<rparr>)) - unat i) = 0 \<Longrightarrow>
        \<lparr>n_id = i, n_time = r_time (p\<lparr>r_id := n\<rparr>)\<rparr> \<notin> A"
      using i I window_ok_unseen [OF w, of i] old [of "\<lparr>n_id = i, n_time = r_time p\<rparr>"]
      by (auto split: if_splits)
    show "circ_items c' ! (unat (r_id (p\<lparr>r_id := n\<rparr>)) - unat i) \<noteq> 0 \<Longrightarrow>
        r_time_backtrack (p\<lparr>r_id := n\<rparr>) = 0
          \<or> circ_items c' ! (unat (r_id (p\<lparr>r_id := n\<rparr>)) - unat i) \<noteq> 1 \<Longrightarrow>
        \<lparr>n_id = i, n_time = r_time (p\<lparr>r_id := n\<rparr>)\<rparr> \<in> A"
      using i I window_ok_seen [OF w, of i] by (auto split: if_splits)
  qed (use D c' size in auto)
  with c'(1) show ?thesis by blast
qed

lemma packet_id_add_window:
  assumes inv: "replay_ok p A" and udp: "r_seq_backtrack p \<noteq> 0"
    and t: "packet_id_test p pin = Inr True" and now: "1 < now"
  shows "\<exists>p'. packet_id_add now p pin = Inr p' \<and> replay_ok p' (insert pin A)
           \<and> r_time p' = n_time pin \<and> r_id p' = (if n_time pin = r_time p then max (r_id p) (n_id pin) else n_id pin)
           \<and> r_seq_backtrack p' = r_seq_backtrack p \<and> r_time_backtrack p' = r_time_backtrack p"
proof -
  obtain c where c: "r_seq_list p = Some c" "window_ok p c A"
    using replay_ok_window [OF inv udp] by blast
  note D = window_okD [OF c(2)]
  have cap: "0 < x_cap c" using D(1) by (simp add: circ_ok_def)
  have test: "n_id pin \<noteq> 0" "n_time pin > r_time p \<or> n_time pin = r_time p \<and>
      (n_id pin > r_id p \<or> unat (r_id p) - unat (n_id pin) < nat (x_size c))"
    using t packet_id_test_window [OF inv udp c(1), of pin] by auto
  define backtrack where "backtrack = u32_of_int (r_seq_backtrack p)"
  define new where "new \<longleftrightarrow> x_size c = 0 \<or> n_time pin > r_time p
      \<or> (n_id pin \<ge> backtrack \<and> n_id pin - backtrack > r_id p)"
  define time1 where "time1 = (if new then n_time pin else r_time p)"
  define id1 where "id1 = (if new then (if n_id pin > backtrack then n_id pin - backtrack else 0) else r_id p)"
  define c1 where "c1 = (if new then circ_list_reset c else c)"
  define n where "n = (if new then n_id pin else max (r_id p) (n_id pin))"
  let ?q = "p\<lparr>r_time := time1, r_id := n\<rparr>"
  have b: "unat backtrack = nat (x_cap c)"
    using D(2,3) cap by (simp add: backtrack_def u32_of_int_unat)
  have pos: "0 < unat (n_id pin)" using test(1) by (simp add: unat_gt_0)
  have size0: "r_id p = 0" if "x_size c = 0"
    using that D(4) cap by (auto simp: min_def uint_0_iff split: if_splits)
  have newer: "r_id p \<le> n_id pin" if "new" "n_time pin = r_time p"
  proof (cases "x_size c = 0")
    case False
    with that have "backtrack \<le> n_id pin" "r_id p < n_id pin - backtrack" by (auto simp: new_def)
    then have "unat (r_id p) < unat (n_id pin) - unat backtrack" by (simp add: word_less_nat_alt unat_diff_less)
    then show ?thesis unfolding word_le_nat_alt by linarith
  qed (simp add: size0)
  have time1: "n_time pin = time1" using new_def time1_def test(2) by auto
  have loop: "\<exists>c2. packet_id_add_loop (n_id pin) id1 c1 = Inr (n, c2) \<and> window_ok ?q c2 A"
  proof (cases new)
    case True
    have "\<lparr>n_id = i, n_time = time1\<rparr> \<notin> A" if i: "i \<le> n_id pin" "unat (n_id pin) - unat i < nat (x_cap c)" for i
    proof
      assume a: "\<lparr>n_id = i, n_time = time1\<rparr> \<in> A"
      with replay_okD(2,3) [OF inv a] time1 test(2) have le: "i \<noteq> 0" "n_time pin = r_time p" "i \<le> r_id p" by auto
      with True size0 have "backtrack \<le> n_id pin" "r_id p < n_id pin - backtrack" by (auto simp: new_def)
      then have "unat (r_id p) < unat (n_id pin) - unat backtrack" by (simp add: word_less_nat_alt unat_diff_less)
      with le(3) b i(2) show False unfolding word_le_nat_alt by linarith
    qed
    with True D b show ?thesis
      using window_new_series [of c ?q "n_id pin" A backtrack id1]
      by (auto simp: n_def id1_def c1_def backtrack_def)
  next
    case False
    then have e: "time1 = r_time p" "id1 = r_id p" "c1 = c" by (simp_all add: time1_def id1_def c1_def)
    show ?thesis
    proof (cases "r_id p \<le> n_id pin")
      case True
      moreover have "?q = p\<lparr>r_id := n_id pin\<rparr>"
        using e False True by (simp add: n_def max_def)
      ultimately show ?thesis
        using window_slide [OF c(2) _ True] replay_okD(3) [OF inv] e False
        by (force simp: n_def max_def)
    next
      case le: False
      then have "?q = p" using e False by (simp add: n_def max_def)
      with le e False c(2) show ?thesis
        using packet_id_add_loop_above [of "n_id pin" "r_id p" c] by (simp add: n_def max_def)
    qed
  qed
  then obtain c2 where c2: "packet_id_add_loop (n_id pin) id1 c1 = Inr (n, c2)" "window_ok ?q c2 A"
    by blast
  note D2 = window_okD [OF c2(2)]
  have le: "n_id pin \<le> n" by (simp add: n_def)
  have "unat n - unat (n_id pin) < nat (x_size c2)"
  proof (cases "n = n_id pin")
    case True
    with D2 D(2) cap pos show ?thesis by (simp add: nat_min_cap)
  next
    case False
    then have "\<not> new" "n = r_id p" "n_id pin \<le> r_id p" by (auto simp: n_def max_def split: if_splits)
    with test(2) D D2(2,4) show ?thesis by (auto simp: new_def)
  qed
  then obtain c3 where c3: "circ_list_set_item c2 (uint (n - n_id pin)) now = Inr c3"
      "n - n_id pin < u32_of_int (x_size c2)" "window_ok ?q c3 (insert pin A)"
    using window_mark [OF c2(2), of pin now] le time1 now by auto
  let ?p = "?q\<lparr>r_seq_list := Some c3\<rparr>"
  have "packet_id_add now p pin = Inr ?p"
    unfolding packet_id_add_def c(1) option.case Let_def backtrack_def [symmetric]
      new_def [symmetric] time1_def [symmetric] id1_def [symmetric] c1_def [symmetric] c2(1)
    using c3(1,2) now by (simp add: SEQ_EXPIRED_def)
  moreover have "replay_ok ?p (insert pin A)"
  proof -
    have "n_time q < time1 \<or> n_time q = time1 \<and> n_id q \<le> n" if "q \<in> A" for q
      using replay_okD(3) [OF inv that] time1 test(2) newer by (auto simp: n_def max_def)
    with inv udp c3(3) le time1 test(1) show ?thesis
      by (auto simp: replay_ok_def window_ok_def)
  qed
  moreover have "n = (if n_time pin = r_time p then max (r_id p) (n_id pin) else n_id pin)"
    using newer test(2) by (auto simp: n_def new_def max_def)
  ultimately show ?thesis using time1 by auto
qed

lemma packet_id_add_sequential:
  assumes inv: "replay_ok p A" and tcp: "r_seq_backtrack p = 0" and t: "packet_id_test p pin = Inr True"
  shows "\<exists>p'. packet_id_add now p pin = Inr p' \<and> replay_ok p' (insert pin A)
           \<and> r_time p' = n_time pin \<and> r_id p' = n_id pin
           \<and> r_seq_backtrack p' = r_seq_backtrack p \<and> r_time_backtrack p' = r_time_backtrack p"
proof -
  have le: "n_id q \<le> n_id pin" if "q \<in> A" "n_time q = r_time p" "n_time pin = r_time p" for q
  proof -
    have q: "n_id q \<le> r_id p" "n_id q \<noteq> 0" using replay_okD(2,3) [OF inv that(1)] that(2) by auto
    then have "n_id pin = r_id p + 1" "n_id pin \<noteq> 0"
      using t packet_id_test_sequential [OF inv tcp, of pin] that(3) by auto
    with q(1) succ_le_wraps [of "r_id p"] show ?thesis by (metis linear order_trans)
  qed
  have "n_id pin \<noteq> 0" "r_time p \<le> n_time pin"
    using t packet_id_test_sequential [OF inv tcp, of pin] by auto
  moreover have "r_seq_list p = None" using replay_okD(4) [OF inv tcp] by simp
  moreover have "n_time q < n_time pin \<or> n_time q = n_time pin \<and> n_id q \<le> n_id pin" if "q \<in> A" for q
    using replay_okD(3) [OF inv that] le [OF that] \<open>r_time p \<le> n_time pin\<close> by fastforce
  ultimately show ?thesis
    using inv tcp by (auto simp: packet_id_add_def replay_ok_def)
qed

lemma packet_id_add_ok:
  assumes "replay_ok p A" "packet_id_test p pin = Inr True" "1 < now"
  shows "\<exists>p'. packet_id_add now p pin = Inr p' \<and> replay_ok p' (insert pin A)
           \<and> r_seq_backtrack p' = r_seq_backtrack p \<and> r_time_backtrack p' = r_time_backtrack p"
  using packet_id_add_window [OF assms(1) _ assms(2,3)] packet_id_add_sequential [OF assms(1) _ assms(2)]
  by (cases "r_seq_backtrack p = 0") blast+

lemma packet_id_check_ok:
  assumes inv: "replay_ok p A" and now: "1 < now"
  shows "\<exists>ok p'. packet_id_check now p pin = Inr (ok, p')
           \<and> (ok \<longrightarrow> pin \<notin> A) \<and> replay_ok p' (if ok then insert pin A else A)
           \<and> r_seq_backtrack p' = r_seq_backtrack p \<and> r_time_backtrack p' = r_time_backtrack p"
proof -
  obtain p1 where p1: "packet_id_reap_test now p = Inr p1" "replay_ok p1 A"
      "r_seq_backtrack p1 = r_seq_backtrack p" "r_time_backtrack p1 = r_time_backtrack p"
    using packet_id_reap_test_ok [OF inv] by blast
  obtain ok where t: "packet_id_test p1 pin = Inr ok"
    using packet_id_test_total [OF p1(2)] by blast
  show ?thesis
  proof (cases ok)
    case False
    with p1 t show ?thesis
      by (intro exI [of _ False] exI [of _ p1]) (simp add: packet_id_check_def)
  next
    case True
    with t packet_id_test_fresh [OF p1(2)] packet_id_add_ok [OF p1(2) _ now] p1 show ?thesis
      by (fastforce simp: packet_id_check_def)
  qed
qed

section \<open>A receiver over a whole session\<close>

text \<open>
  \<open>replay_run\<close> feeds a receiver any sequence of authenticated packets, each with the value of
  \<open>now\<close> at its arrival, and collects the packets that were let through.
\<close>

fun replay_run :: "packet_id_rec \<Rightarrow> (time_t \<times> packet_id_net) list \<Rightarrow> (packet_id_net list \<times> packet_id_rec) result" where
  "replay_run p [] = Inr ([], p)"
| "replay_run p ((now, pin) # evs) =
     bind_result (packet_id_check now p pin) (\<lambda>(ok, p).
       bind_result (replay_run p evs) (\<lambda>(acc, p). Inr (if ok then pin # acc else acc, p)))"

lemma replay_run_ok:
  "replay_ok p A \<Longrightarrow> \<forall>(now, pin) \<in> set evs. 1 < now \<Longrightarrow>
   \<exists>acc p'. replay_run p evs = Inr (acc, p') \<and> distinct acc \<and> set acc \<inter> A = {} \<and> replay_ok p' (set acc \<union> A)
     \<and> r_seq_backtrack p' = r_seq_backtrack p \<and> r_time_backtrack p' = r_time_backtrack p"
proof (induction evs arbitrary: p A)
  case Nil
  then show ?case by simp
next
  case (Cons e evs)
  obtain now pin where e: "e = (now, pin)" by force
  obtain ok p1 where p1: "packet_id_check now p pin = Inr (ok, p1)" "ok \<longrightarrow> pin \<notin> A"
      "replay_ok p1 (if ok then insert pin A else A)"
      "r_seq_backtrack p1 = r_seq_backtrack p" "r_time_backtrack p1 = r_time_backtrack p"
    using packet_id_check_ok [OF Cons.prems(1), of now pin] Cons.prems(2) e by auto
  obtain acc p2 where "replay_run p1 evs = Inr (acc, p2)" "distinct acc"
      "set acc \<inter> (if ok then insert pin A else A) = {}"
      "replay_ok p2 (set acc \<union> (if ok then insert pin A else A))"
      "r_seq_backtrack p2 = r_seq_backtrack p1" "r_time_backtrack p2 = r_time_backtrack p1"
    using Cons.IH [OF p1(3)] Cons.prems(2) by auto
  with p1 e show ?case by (cases ok) auto
qed

text \<open>C8. No replay: however the network orders, repeats or delays packets, and whatever the
  clock shows, a receiver set up by \<open>packet_id_init\<close> never faults and never lets the same
  packet (time and sequence number) through twice, in backtrack (UDP) mode with any window as
  well as in sequential (TCP) mode.\<close>

theorem replay_never_accepted_twice:
  assumes "packet_id_init s t = Inr pid" and "\<forall>(now, pin) \<in> set evs. 1 < now"
  shows "\<exists>acc p. replay_run (pid_rec pid) evs = Inr (acc, p) \<and> distinct acc"
  using replay_run_ok [OF packet_id_init_ok(1) [OF assms(1)] assms(2)] by blast

theorem replay_never_accepted_twice_witness:
  "\<exists>pid. packet_id_init 64 15 = Inr pid \<and>
     (\<exists>acc p. replay_run (pid_rec pid)
        [(100, \<lparr>n_id = 1, n_time = 0\<rparr>), (101, \<lparr>n_id = 3, n_time = 0\<rparr>),
         (101, \<lparr>n_id = 2, n_time = 0\<rparr>), (102, \<lparr>n_id = 3, n_time = 0\<rparr>)] = Inr (acc, p) \<and> distinct acc)"
proof -
  obtain pid where "packet_id_init 64 15 = Inr pid"
    by (simp add: packet_id_init_def Let_def MIN_SEQ_BACKTRACK_def MAX_SEQ_BACKTRACK_def
        MIN_TIME_BACKTRACK_def MAX_TIME_BACKTRACK_def)
  from this replay_never_accepted_twice [OF this,
      of "[(100, \<lparr>n_id = 1, n_time = 0\<rparr>), (101, \<lparr>n_id = 3, n_time = 0\<rparr>),
           (101, \<lparr>n_id = 2, n_time = 0\<rparr>), (102, \<lparr>n_id = 3, n_time = 0\<rparr>)]"]
  show ?thesis by simp
qed


lemma replay_run_example:
  "packet_id_init 8 0 = Inr (packet_id_clear\<lparr>pid_rec :=
      \<lparr>r_last_reap = 0, r_time = 0, r_id = 0, r_seq_backtrack = 8, r_time_backtrack = 0,
       r_initialized = True, r_seq_list = Some (circ_list_alloc 0 8)\<rparr>\<rparr>)"
  "replay_run \<lparr>r_last_reap = 0, r_time = 0, r_id = 0, r_seq_backtrack = 8, r_time_backtrack = 0,
       r_initialized = True, r_seq_list = Some (circ_list_alloc 0 8)\<rparr> [(100, \<lparr>n_id = 3, n_time = 0\<rparr>)]
     = Inr ([\<lparr>n_id = 3, n_time = 0\<rparr>],
         \<lparr>r_last_reap = 100, r_time = 0, r_id = 3, r_seq_backtrack = 8, r_time_backtrack = 0,
          r_initialized = True,
          r_seq_list = Some \<lparr>x_head = 5, x_size = 3, x_cap = 8, x_list = [0, 0, 0, 0, 0, 100, 0, 0]\<rparr>\<rparr>)"
  by code_simp+


section \<open>Round trip on the wire\<close>

definition packet_id_bytes :: "packet_id_net \<Rightarrow> bool \<Rightarrow> byte list" where
  \<comment> \<open>the form on the network\<close>
  "packet_id_bytes pin long_form =
     bytes_of_u32 (n_id pin) @ (if long_form then bytes_of_u32 (u32_of_int (n_time pin)) else [])"

definition packet_id_as_sent :: "packet_id_net \<Rightarrow> bool \<Rightarrow> packet_id_net" where
  \<comment> \<open>what survives: 32 bits of the time in long form, none in short form\<close>
  "packet_id_as_sent pin long_form = pin\<lparr>n_time := (if long_form then n_time pin mod 2 ^ 32 else 0)\<rparr>"

lemma length_packet_id_bytes: "int (length (packet_id_bytes pin lf)) = packet_id_size lf"
  by (simp add: packet_id_bytes_def packet_id_size_def)

lemma packet_id_read_bytes:
  assumes "buf_ok b" "buf_contents b = packet_id_bytes pin lf @ rest"
  shows "\<exists>b'. packet_id_read b lf = (True, packet_id_as_sent pin lf, b') \<and> buf_ok b' \<and> buf_contents b' = rest"
proof -
  obtain b1 where b1: "buf_read b 4 = (Some (bytes_of_u32 (n_id pin)), b1)" "buf_ok b1"
      "buf_contents b1 = (if lf then bytes_of_u32 (u32_of_int (n_time pin)) else []) @ rest"
    using buf.read_prefix [OF assms(1), of "bytes_of_u32 (n_id pin)"] assms(2)
    by (auto simp: packet_id_bytes_def)
  show ?thesis
  proof (cases lf)
    case False
    with b1 show ?thesis by (simp add: packet_id_read_def packet_id_as_sent_def)
  next
    case True
    then obtain b2 where "buf_read b1 4 = (Some (bytes_of_u32 (u32_of_int (n_time pin))), b2)" "buf_ok b2"
        "buf_contents b2 = rest"
      using buf.read_prefix [OF b1(2), of "bytes_of_u32 (u32_of_int (n_time pin))" rest 4] b1(3) by auto
    moreover have "uint (u32_of_int (n_time pin)) = n_time pin mod 2 ^ 32"
      by (simp add: u32_of_int_def uint_word_of_int)
    ultimately show ?thesis
      using True b1(1) by (simp add: packet_id_read_def packet_id_as_sent_def)
  qed
qed

lemma packet_id_write_bytes:
  assumes "buf_ok b"
    and "length (packet_id_bytes pin lf) \<le> (if prepend then buf_headroom b else buf_room b)"
  shows "\<exists>b'. packet_id_write pin b lf prepend = (True, b') \<and> buf_ok b'
           \<and> buf_contents b' = (if prepend then packet_id_bytes pin lf @ buf_contents b
                                else buf_contents b @ packet_id_bytes pin lf)"
proof -
  let ?i = "bytes_of_u32 (n_id pin)" and ?t = "bytes_of_u32 (u32_of_int (n_time pin))"
  consider "prepend" "lf" | "prepend" "\<not> lf" | "\<not> prepend" "lf" | "\<not> prepend" "\<not> lf" by blast
  then show ?thesis
  proof cases
    case 1
    with assms buf.prepend_two [OF assms(1), of ?t ?i] show ?thesis
      by (auto simp: packet_id_write_def packet_id_bytes_def)
  next
    case 2
    with assms buf_write_prepend_ok [OF assms(1), of ?i] show ?thesis
      by (auto simp: packet_id_write_def packet_id_bytes_def)
  next
    case 3
    with assms buf.append_two [OF assms(1), of ?i ?t] show ?thesis
      by (auto simp: packet_id_write_def packet_id_bytes_def)
  next
    case 4
    with assms buf_write_ok [OF assms(1), of ?i] show ?thesis
      by (auto simp: packet_id_write_def packet_id_bytes_def)
  qed
qed

text \<open>A packet id prepended to a packet is read back by the peer, in both forms, and leaves
  the packet it was prepended to; only the high bits of a time beyond 32 bits are lost.\<close>

theorem packet_id_write_read:
  assumes "buf_ok b" "packet_id_size long_form \<le> b_offset b"
  shows "\<exists>b1 b2. packet_id_write pin b long_form True = (True, b1)
           \<and> packet_id_read b1 long_form = (True, packet_id_as_sent pin long_form, b2)
           \<and> buf_contents b2 = buf_contents b"
proof -
  have "length (packet_id_bytes pin long_form) \<le> buf_headroom b"
    using assms length_packet_id_bytes [of pin long_form] buf_headroom_eq [OF assms(1)] by linarith
  then show ?thesis
    using packet_id_write_bytes [OF assms(1), of pin long_form True] packet_id_read_bytes by fastforce
qed

theorem packet_id_write_read_witness:
  "\<exists>b b1 b2. buf_ok b \<and> buf_contents b = [7, 9]
     \<and> packet_id_write \<lparr>n_id = 5, n_time = 1700000000\<rparr> b True True = (True, b1)
     \<and> packet_id_read b1 True = (True, \<lparr>n_id = 5, n_time = 1700000000\<rparr>, b2) \<and> buf_contents b2 = [7, 9]"
proof -
  let ?b = "\<lparr>b_capacity = 12, b_offset = 10, b_len = 2, b_data = Some (replicate 10 0 @ [7, 9])\<rparr>"
  have "buf_ok ?b" "buf_contents ?b = [7, 9]" "packet_id_size True \<le> b_offset ?b" by code_simp+
  then show ?thesis
    using packet_id_write_read [of ?b True "\<lparr>n_id = 5, n_time = 1700000000\<rparr>"]
    by (force simp: packet_id_as_sent_def)
qed

section \<open>The numbers a sender uses\<close>

fun send_run :: "packet_id_send \<Rightarrow> bool \<Rightarrow> time_t list \<Rightarrow> (packet_id_net list \<times> packet_id_send) result" where
  \<comment> \<open>one outgoing packet for each value of \<open>now\<close>\<close>
  "send_run p long_form [] = Inr ([], p)"
| "send_run p long_form (now # nows) =
     bind_result (packet_id_alloc_outgoing now p long_form) (\<lambda>(p, pin).
       bind_result (send_run p long_form nows) (\<lambda>(pins, p). Inr (pin # pins, p)))"

lemma unat_of_nat_u32: "k < 2 ^ 32 \<Longrightarrow> unat (of_nat k :: u32) = k"
  by (simp add: unat_of_nat take_bit_nat_eq_self)

lemma alloc_outgoing_next:
  assumes "unat (s_id p) + 1 < 2 ^ 32"
  shows "packet_id_alloc_outgoing now p lf =
           (let t = (if s_time p = 0 then now else s_time p)
            in Inr (\<lparr>s_id = s_id p + 1, s_time = t\<rparr>, \<lparr>n_id = s_id p + 1, n_time = t\<rparr>))"
    and "unat (s_id p + 1) = unat (s_id p) + 1"
proof -
  show u: "unat (s_id p + 1) = unat (s_id p) + 1" using assms by (simp add: unat_word_ariths)
  then have "s_id p + 1 \<noteq> 0" by (metis add_is_0 one_neq_zero unat_0)
  then show "packet_id_alloc_outgoing now p lf =
           (let t = (if s_time p = 0 then now else s_time p)
            in Inr (\<lparr>s_id = s_id p + 1, s_time = t\<rparr>, \<lparr>n_id = s_id p + 1, n_time = t\<rparr>))"
    by (simp add: packet_id_alloc_outgoing_def Let_def)
qed

lemma send_run_ids:
  "unat (s_id p) + length nows < 2 ^ 32 \<Longrightarrow>
   \<exists>pins p'. send_run p lf nows = Inr (pins, p') \<and> unat (s_id p') = unat (s_id p) + length nows
     \<and> map (\<lambda>pin. unat (n_id pin)) pins = map (\<lambda>i. unat (s_id p) + i + 1) [0..<length nows]"
proof (induction nows arbitrary: p)
  case Nil
  then show ?case by simp
next
  case (Cons now nows)
  then have lt: "unat (s_id p) + 1 < 2 ^ 32" by simp
  let ?p = "\<lparr>s_id = s_id p + 1, s_time = if s_time p = 0 then now else s_time p\<rparr>"
  note step = alloc_outgoing_next [OF lt]
  obtain pins p' where "send_run ?p lf nows = Inr (pins, p')"
      "unat (s_id p') = unat (s_id ?p) + length nows"
      "map (\<lambda>pin. unat (n_id pin)) pins = map (\<lambda>i. unat (s_id ?p) + i + 1) [0..<length nows]"
    using Cons.IH [of ?p] Cons.prems step(2) by auto
  moreover have "[0..<length (now # nows)] = 0 # map Suc [0..<length nows]"
    by (simp only: length_Cons upt_0_Suc)
  ultimately show ?case using step(1) [of now lf] step(2) by (simp add: Let_def)
qed

lemma send_run_append:
  "send_run p lf (xs @ ys) = bind_result (send_run p lf xs) (\<lambda>(pins, p).
     bind_result (send_run p lf ys) (\<lambda>(pins', p). Inr (pins @ pins', p)))"
proof (induction xs arbitrary: p)
  case Nil
  show ?case by (cases "send_run p lf ys") auto
next
  case (Cons x xs)
  show ?case
  proof (cases "packet_id_alloc_outgoing x p lf")
    case (Inr r)
    obtain p1 pin where r: "r = (p1, pin)" by force
    show ?thesis
    proof (cases "send_run p1 lf xs")
      case (Inr q)
      obtain pins p2 where q: "q = (pins, p2)" by force
      show ?thesis
        by (cases "send_run p2 lf ys") (auto simp: Cons.IH Inr q r \<open>packet_id_alloc_outgoing x p lf = Inr r\<close>)
    qed (simp add: Cons.IH Inr r)
  qed simp
qed

lemma send_run_short:
  "case send_run (pid_send packet_id_clear) False nows of
     Inl e \<Rightarrow> e = AssertFailed \<and> 2 ^ 32 \<le> length nows
   | Inr (pins, p) \<Rightarrow> length nows < 2 ^ 32
       \<and> map (\<lambda>pin. unat (n_id pin)) pins = [1..<Suc (length nows)]"
proof (cases "length nows < 2 ^ 32")
  case True
  have "map (\<lambda>i. i + 1) [0..<length nows] = [1..<Suc (length nows)]"
    using map_add_upt [of 1 "length nows"] by simp
  then show ?thesis
    using send_run_ids [of "pid_send packet_id_clear" nows False] True by (auto simp: packet_id_clear_def)
next
  case False
  define xs where "xs = take (2 ^ 32 - 1) nows"
  have len: "length xs = 2 ^ 32 - 1" using False by (simp add: xs_def)
  obtain y ys where ys: "drop (2 ^ 32 - 1) nows = y # ys"
    using False by (cases "drop (2 ^ 32 - 1) nows") auto
  have nows: "nows = xs @ y # ys" using ys xs_def by (metis append_take_drop_id)
  obtain pins p where p: "send_run (pid_send packet_id_clear) False xs = Inr (pins, p)" "unat (s_id p) = 2 ^ 32 - 1"
    using send_run_ids [of "pid_send packet_id_clear" xs False] len by (auto simp: packet_id_clear_def)
  have "s_id p = of_nat (2 ^ 32 - 1)" using p(2) by (rule unat_eq_of_nat)
  then have "s_id p + 1 = 0" by simp
  then have "packet_id_alloc_outgoing y p False = Inl AssertFailed"
    by (simp add: packet_id_alloc_outgoing_def Let_def)
  then show ?thesis using p(1) False unfolding nows by (simp add: send_run_append)
qed

text \<open>In short form (TLS mode, where the keys are renegotiated) the packets of one key carry
  the numbers 1, 2, 3, ... without gap or repetition, and the process stops rather than reuse
  a number: after \<open>2 ^ 32 - 1\<close> packets the assertion of \<open>packet_id_alloc_outgoing\<close> fails.\<close>

theorem send_run_short_form:
  "case send_run (pid_send packet_id_clear) False nows of
     Inl e \<Rightarrow> e = AssertFailed \<and> 2 ^ 32 \<le> length nows
   | Inr (pins, p) \<Rightarrow> length nows < 2 ^ 32
       \<and> map (\<lambda>pin. unat (n_id pin)) pins = [1..<Suc (length nows)]"
  by (rule send_run_short)

section \<open>Sender, wire and receiver together\<close>

text \<open>What one peer sends over a lossless, ordered channel, the other lets through.\<close>

lemma honest_next_accepted:
  assumes inv: "replay_ok p A" and now: "1 < now"
    and pin: "n_time pin = r_time p" "unat (n_id pin) = unat (r_id p) + 1"
  shows "\<exists>p'. packet_id_check now p pin = Inr (True, p') \<and> replay_ok p' (insert pin A)
           \<and> r_time p' = r_time p \<and> r_id p' = n_id pin"
proof -
  obtain p1 where p1: "packet_id_reap_test now p = Inr p1" "replay_ok p1 A" "r_time p1 = r_time p" "r_id p1 = r_id p"
    using packet_id_reap_test_ok [OF inv] by blast
  have lt: "r_id p1 < n_id pin" using pin(2) p1(4) by (simp add: word_less_nat_alt)
  have "n_id pin = of_nat (unat (r_id p) + 1)" using pin(2) by (rule unat_eq_of_nat)
  then have suc: "n_id pin = r_id p1 + 1" using p1(4) by simp
  have nz: "n_id pin \<noteq> 0" using pin(2) by (metis add_is_0 one_neq_zero unat_0)
  have t: "packet_id_test p1 pin = Inr True"
  proof (cases "r_seq_backtrack p1 = 0")
    case True
    then show ?thesis using packet_id_test_sequential [OF p1(2)] nz suc pin(1) p1(3) by simp
  next
    case False
    then obtain c where "r_seq_list p1 = Some c" using replay_ok_window [OF p1(2)] by blast
    from packet_id_test_window [OF p1(2) False this, of pin] show ?thesis using nz lt pin(1) p1(3) by simp
  qed
  have "\<exists>p'. packet_id_add now p1 pin = Inr p' \<and> replay_ok p' (insert pin A)
           \<and> r_time p' = r_time p \<and> r_id p' = n_id pin"
  proof (cases "r_seq_backtrack p1 = 0")
    case True
    with packet_id_add_sequential [OF p1(2) True t, of now] pin(1) show ?thesis by auto
  next
    case False
    with packet_id_add_window [OF p1(2) False t now] pin(1) p1(3) lt show ?thesis
      by (auto simp: max_def)
  qed
  with p1(1) t show ?thesis by (auto simp: packet_id_check_def)
qed

lemma honest_run_accepted:
  "replay_ok p A \<Longrightarrow> \<forall>(now, pin) \<in> set evs. 1 < now \<and> n_time pin = r_time p \<Longrightarrow>
   map (\<lambda>(now, pin). unat (n_id pin)) evs = map (\<lambda>i. unat (r_id p) + i + 1) [0..<length evs] \<Longrightarrow>
   \<exists>p'. replay_run p evs = Inr (map snd evs, p')"
proof (induction evs arbitrary: p A)
  case Nil
  then show ?case by simp
next
  case (Cons e evs)
  obtain now pin where e: "e = (now, pin)" by force
  have upt: "[0..<length (e # evs)] = 0 # map Suc [0..<length evs]"
    by (simp only: length_Cons upt_0_Suc)
  have m: "unat (n_id pin) = unat (r_id p) + 1"
    "map (\<lambda>(now, pin). unat (n_id pin)) evs = map (\<lambda>i. unat (r_id p) + 1 + i + 1) [0..<length evs]"
    using Cons.prems(3) e unfolding upt by (auto simp: comp_def)
  obtain p1 where p1: "packet_id_check now p pin = Inr (True, p1)" "replay_ok p1 (insert pin A)"
      "r_time p1 = r_time p" "r_id p1 = n_id pin"
    using honest_next_accepted [OF Cons.prems(1), of now pin] Cons.prems(2) m(1) e by auto
  obtain p2 where "replay_run p1 evs = Inr (map snd evs, p2)"
    using Cons.IH [OF p1(2)] Cons.prems(2) m p1(3,4) by auto
  with p1(1) e show ?case by simp
qed

text \<open>Liveness: over a channel that neither loses nor reorders packets, every packet an
  honest sender numbers is let through by the receiver, in both modes and for any window size,
  for the whole range of a key's packet numbers.\<close>

theorem honest_session_accepted:
  assumes "packet_id_init s t = Inr pid" and "\<forall>now \<in> set rnows. 1 < now"
    and "send_run (pid_send packet_id_clear) False snows = Inr (pins, q)"
    and "length rnows = length snows"
  shows "\<exists>p. replay_run (pid_rec pid) (zip rnows (map (\<lambda>pin. packet_id_as_sent pin False) pins))
           = Inr (map (\<lambda>pin. packet_id_as_sent pin False) pins, p)"
proof -
  have ids: "map (\<lambda>pin. unat (n_id pin)) pins = [1..<Suc (length snows)]"
    using send_run_short [of snows] assms(3) by simp
  then have len: "length pins = length snows" by (metis length_map length_upt diff_Suc_1)
  let ?pins = "map (\<lambda>pin. packet_id_as_sent pin False) pins"
  let ?evs = "zip rnows ?pins"
  have rec0: "r_time (pid_rec pid) = 0" "r_id (pid_rec pid) = 0"
    using assms(1) by (auto simp: packet_id_init_def packet_id_clear_def Let_def assert_that_def split: if_splits)
  have "map (\<lambda>(now, pin). unat (n_id pin)) ?evs = map (\<lambda>pin. unat (n_id pin)) (map snd ?evs)"
    by (simp add: case_prod_unfold comp_def)
  also have "\<dots> = [1..<Suc (length snows)]"
    using ids len assms(4) by (simp add: map_snd_zip comp_def packet_id_as_sent_def)
  also have "\<dots> = map (\<lambda>i. unat (r_id (pid_rec pid)) + i + 1) [0..<length ?evs]"
    using map_add_upt [of 1 "length snows"] rec0 len assms(4) by simp
  finally have ids': "map (\<lambda>(now, pin). unat (n_id pin)) ?evs
      = map (\<lambda>i. unat (r_id (pid_rec pid)) + i + 1) [0..<length ?evs]" .
  have "n_time b = 0 \<and> 1 < a" if "(a, b) \<in> set ?evs" for a b
    using set_zip_rightD [OF that] set_zip_leftD [OF that] assms(2) by (auto simp: packet_id_as_sent_def)
  with ids' have "\<exists>p. replay_run (pid_rec pid) ?evs = Inr (map snd ?evs, p)"
    using rec0 by (intro honest_run_accepted [OF packet_id_init_ok(1) [OF assms(1)]]) auto
  then show ?thesis using len assms(4) by (simp add: map_snd_zip)
qed

theorem honest_session_accepted_witness:
  "\<exists>pid p. packet_id_init 0 0 = Inr pid
     \<and> replay_run (pid_rec pid) [(50, \<lparr>n_id = 1, n_time = 0\<rparr>), (60, \<lparr>n_id = 2, n_time = 0\<rparr>)]
       = Inr ([\<lparr>n_id = 1, n_time = 0\<rparr>, \<lparr>n_id = 2, n_time = 0\<rparr>], p)"
proof -
  obtain pid where pid: "packet_id_init 0 0 = Inr pid" by (simp add: packet_id_init_def)
  have "send_run (pid_send packet_id_clear) False [40, 45]
      = Inr ([\<lparr>n_id = 1, n_time = 40\<rparr>, \<lparr>n_id = 2, n_time = 40\<rparr>], \<lparr>s_id = 2, s_time = 40\<rparr>)"
    by code_simp
  with honest_session_accepted [OF pid, of "[50, 60]" "[40, 45]"] pid show ?thesis
    by (simp add: packet_id_as_sent_def)
qed

section \<open>Persistence\<close>

end
