(* ===== verification/Reliable.thy ===== *)
theory Reliable
  imports Session_Id Packet_Id
begin

text \<open>
  The reliability layer of the control channel (reliable.h, reliable.c).  Its use by ssl.c is
  the theory \<open>Control_Channel\<close>.

  A \<open>struct reliable\<close> is an array of at most eight entries.  A \<open>struct buffer *\<close> handed out by
  a get function points into the array and is modelled by the index of its entry, \<open>None\<close> for
  \<open>NULL\<close>.  The \<open>ASSERT (0)\<close> after the search loops of the mark functions is the case of an
  index outside the array.
\<close>

section \<open>Acknowledgement records\<close>

definition RELIABLE_ACK_SIZE :: nat where "RELIABLE_ACK_SIZE = 8"

record reliable_ack =
  a_len :: nat
  a_packet_id :: "packet_id_type list"

definition reliable_ack_empty :: "reliable_ack \<Rightarrow> bool" where
  "reliable_ack_empty ack \<longleftrightarrow> a_len ack = 0"

definition reliable_pid_in_range1 :: "packet_id_type \<Rightarrow> packet_id_type \<Rightarrow> u32 \<Rightarrow> bool" where
  "reliable_pid_in_range1 test base extent =
     (if test \<ge> base then test - base < extent
      else (test + 0x80000000) - (base + 0x80000000) < extent)"

definition reliable_pid_in_range2 :: "packet_id_type \<Rightarrow> packet_id_type \<Rightarrow> u32 \<Rightarrow> bool" where
  "reliable_pid_in_range2 test base extent =
     (if base + extent \<ge> base then test < base + extent
      else test + 0x80000000 < (base + 0x80000000) + extent)"

definition reliable_pid_min :: "packet_id_type \<Rightarrow> packet_id_type \<Rightarrow> bool" where
  "reliable_pid_min p1 p2 \<longleftrightarrow> \<not> reliable_pid_in_range1 p1 p2 0x80000000"

definition reliable_ack_packet_id_present :: "reliable_ack \<Rightarrow> packet_id_type \<Rightarrow> bool" where
  "reliable_ack_packet_id_present ack pid \<longleftrightarrow> pid \<in> set (take (a_len ack) (a_packet_id ack))"

definition reliable_ack_read_packet_id :: "buffer \<Rightarrow> packet_id_type option \<times> buffer" where
  \<comment> \<open>\<open>None\<close> when it returns false\<close>
  "reliable_ack_read_packet_id b =
     (case buf_read b 4 of
        (Some net_pid, b) \<Rightarrow> (Some (u32_of_bytes net_pid), b)
      | (None, b) \<Rightarrow> (None, b))"

definition reliable_ack_acknowledge_packet_id :: "reliable_ack \<Rightarrow> packet_id_type \<Rightarrow> bool \<times> reliable_ack" where
  "reliable_ack_acknowledge_packet_id ack pid =
     (if \<not> reliable_ack_packet_id_present ack pid \<and> a_len ack < RELIABLE_ACK_SIZE
      then (True, ack\<lparr>a_packet_id := (a_packet_id ack)[a_len ack := pid], a_len := a_len ack + 1\<rparr>)
      else (False, ack))"

fun reliable_ack_read_loop :: "nat \<Rightarrow> reliable_ack \<Rightarrow> buffer \<Rightarrow> bool \<times> reliable_ack \<times> buffer" where
  "reliable_ack_read_loop 0 ack b = (True, ack, b)"
| "reliable_ack_read_loop (Suc n) ack b =
     (case buf_read b 4 of
        (None, b) \<Rightarrow> (False, ack, b)
      | (Some net_pid, b) \<Rightarrow>
          if a_len ack \<ge> RELIABLE_ACK_SIZE then (False, ack, b)
          else reliable_ack_read_loop n
                 (ack\<lparr>a_packet_id := (a_packet_id ack)[a_len ack := u32_of_bytes net_pid],
                      a_len := a_len ack + 1\<rparr>) b)"

definition reliable_ack_read :: "reliable_ack \<Rightarrow> buffer \<Rightarrow> session_id \<Rightarrow> bool \<times> reliable_ack \<times> buffer" where
  "reliable_ack_read ack b sid =
     (case buf_read b 1 of
        (None, b) \<Rightarrow> (False, ack, b)
      | (Some bs, b) \<Rightarrow>
          (let count = unat (bs ! 0)
           in case reliable_ack_read_loop count ack b of
                (False, ack, b) \<Rightarrow> (False, ack, b)
              | (True, ack, b) \<Rightarrow>
                  if count \<noteq> 0
                  then (case session_id_read x_session_id_zero b of
                          (False, sid_remote, b) \<Rightarrow> (False, ack, b)
                        | (True, sid_remote, b) \<Rightarrow>
                            if \<not> session_id_defined sid_remote \<or> \<not> session_id_equal sid_remote sid
                            then (False, ack, b) else (True, ack, b))
                  else (True, ack, b)))"

definition ACK_SIZE :: "nat \<Rightarrow> int" where
  "ACK_SIZE n = 1 + (if n \<noteq> 0 then int SID_SIZE else 0) + 4 * int n"

fun reliable_ack_write_ids :: "packet_id_type list \<Rightarrow> buffer \<Rightarrow> buffer result" where
  "reliable_ack_write_ids [] sub = Inr sub"
| "reliable_ack_write_ids (pid # pids) sub =
     (case buf_write sub (bytes_of_u32 pid) of
        (ok, sub) \<Rightarrow> assert_that ok (reliable_ack_write_ids pids sub))"

function reliable_ack_shift :: "nat \<Rightarrow> nat \<Rightarrow> nat \<Rightarrow> packet_id_type list \<Rightarrow> nat \<times> packet_id_type list" where
  \<comment> \<open>\<open>for (i = 0, j = n; j < ack->len;) ack->packet_id[i++] = ack->packet_id[j++];\<close>\<close>
  "reliable_ack_shift i j len a =
     (if j < len then reliable_ack_shift (i + 1) (j + 1) len (a[i := a ! j]) else (i, a))"
  for len by pat_completeness auto
termination
  by (relation "measure (\<lambda>(i, j, len, a). len - j)") auto

declare reliable_ack_shift.simps [simp del]

definition reliable_ack_write ::
    "reliable_ack \<Rightarrow> buffer \<Rightarrow> session_id \<Rightarrow> int \<Rightarrow> bool \<Rightarrow> (bool \<times> reliable_ack \<times> buffer) result" where
  "reliable_ack_write ack b sid mx prepend =
     (let n = word_of_nat (a_len ack) :: byte;
          n = (if uint n > mx then word_of_int mx else n);
          k = unat n
      in case buf_sub b (ACK_SIZE k) prepend of
           (None, b) \<Rightarrow> Inr (False, ack, b)
         | (Some (p, sub), b) \<Rightarrow>
             (case buf_write sub [n] of (ok, sub) \<Rightarrow> assert_that ok (
                bind_result (reliable_ack_write_ids (take k (a_packet_id ack)) sub) (\<lambda>sub.
                  if n \<noteq> 0 then
                    assert_that (session_id_defined sid) (
                      case session_id_write sid sub of (ok, sub) \<Rightarrow> assert_that ok (
                        case reliable_ack_shift 0 k (a_len ack) (a_packet_id ack) of (i, a) \<Rightarrow>
                          Inr (True, ack\<lparr>a_packet_id := a, a_len := i\<rparr>, buf_sub_commit b p sub)))
                  else Inr (True, ack, buf_sub_commit b p sub)))))"

section \<open>Reliable objects\<close>

definition RELIABLE_CAPACITY :: nat where "RELIABLE_CAPACITY = 8"

definition BIG_TIMEOUT :: int where "BIG_TIMEOUT = 60 * 60 * 24 * 7"

record reliable_entry =
  e_active :: bool
  e_timeout :: int
  e_next_try :: time_t
  e_packet_id :: packet_id_type
  e_opcode :: int
  e_buf :: buffer

record reliable =
  rel_size :: nat
  rel_initial_timeout :: int
  rel_packet_id :: packet_id_type
  rel_offset :: int
  rel_hold :: bool
  rel_array :: "reliable_entry list"

definition rel_entries :: "reliable \<Rightarrow> reliable_entry list" where
  \<comment> \<open>the entries that the loops \<open>for (i = 0; i < rel->size; ++i)\<close> visit\<close>
  "rel_entries rel = take (rel_size rel) (rel_array rel)"

definition reliable_clear :: reliable where
  \<comment> \<open>\<open>CLEAR (*rel)\<close>\<close>
  "reliable_clear =
     \<lparr>rel_size = 0, rel_initial_timeout = 0, rel_packet_id = 0, rel_offset = 0, rel_hold = False,
      rel_array = replicate RELIABLE_CAPACITY
        \<lparr>e_active = False, e_timeout = 0, e_next_try = 0, e_packet_id = 0, e_opcode = 0, e_buf = clear_buf\<rparr>\<rparr>"

definition reliable_set_timeout :: "reliable \<Rightarrow> int \<Rightarrow> reliable" where
  "reliable_set_timeout rel timeout = rel\<lparr>rel_initial_timeout := timeout\<rparr>"

fun reliable_init_loop :: "(nat \<Rightarrow> nat \<Rightarrow> byte) \<Rightarrow> int \<Rightarrow> int \<Rightarrow> nat \<Rightarrow> nat \<Rightarrow> reliable_entry list \<Rightarrow> reliable_entry list result" where
  "reliable_init_loop junk buf_size offset i 0 es = Inr es"
| "reliable_init_loop junk buf_size offset i (Suc n) es =
     bind_result (alloc_buf (junk i) buf_size) (\<lambda>b.
       case buf_init b offset of (ok, b) \<Rightarrow>
         assert_that ok (reliable_init_loop junk buf_size offset (Suc i) n (es[i := (es ! i)\<lparr>e_buf := b\<rparr>])))"

definition reliable_init :: "(nat \<Rightarrow> nat \<Rightarrow> byte) \<Rightarrow> int \<Rightarrow> int \<Rightarrow> int \<Rightarrow> bool \<Rightarrow> reliable result" where
  "reliable_init junk buf_size offset array_size hold =
     assert_that (array_size > 0 \<and> array_size \<le> int RELIABLE_CAPACITY)
       (let rel = reliable_clear\<lparr>rel_hold := hold, rel_size := nat array_size, rel_offset := offset\<rparr>
        in bind_result (reliable_init_loop junk buf_size offset 0 (rel_size rel) (rel_array rel))
             (\<lambda>es. Inr (rel\<lparr>rel_array := es\<rparr>)))"

definition reliable_free :: "reliable \<Rightarrow> reliable" where
  "reliable_free rel =
     rel\<lparr>rel_array := map (\<lambda>e. e\<lparr>e_buf := free_buf (e_buf e)\<rparr>) (rel_entries rel) @ drop (rel_size rel) (rel_array rel)\<rparr>"

definition reliable_empty :: "reliable \<Rightarrow> bool" where
  "reliable_empty rel \<longleftrightarrow> \<not> list_ex e_active (rel_entries rel)"

definition reliable_purge_one :: "reliable \<Rightarrow> packet_id_type \<Rightarrow> reliable" where
  \<comment> \<open>the inner loop of \<open>reliable_send_purge\<close>\<close>
  "reliable_purge_one rel pid =
     (case find_index (\<lambda>e. e_active e \<and> e_packet_id e = pid) (rel_entries rel) of
        None \<Rightarrow> rel
      | Some j \<Rightarrow> rel\<lparr>rel_array := (rel_array rel)[j := (rel_array rel ! j)\<lparr>e_active := False\<rparr>]\<rparr>)"

definition reliable_send_purge :: "reliable \<Rightarrow> reliable_ack \<Rightarrow> reliable" where
  "reliable_send_purge rel ack = foldl reliable_purge_one rel (take (a_len ack) (a_packet_id ack))"

definition reliable_can_get :: "reliable \<Rightarrow> bool" where
  "reliable_can_get rel \<longleftrightarrow> list_ex (\<lambda>e. \<not> e_active e) (rel_entries rel)"

definition reliable_not_replay :: "reliable \<Rightarrow> packet_id_type \<Rightarrow> bool" where
  "reliable_not_replay rel i \<longleftrightarrow>
     \<not> reliable_pid_min i (rel_packet_id rel)
     \<and> \<not> list_ex (\<lambda>e. e_active e \<and> e_packet_id e = i) (rel_entries rel)"

definition reliable_wont_break_sequentiality :: "reliable \<Rightarrow> packet_id_type \<Rightarrow> bool" where
  "reliable_wont_break_sequentiality rel i \<longleftrightarrow>
     reliable_pid_in_range2 i (rel_packet_id rel) (of_nat (rel_size rel))"

definition rel_set_entry :: "reliable \<Rightarrow> nat \<Rightarrow> reliable_entry \<Rightarrow> reliable" where
  "rel_set_entry rel i e = rel\<lparr>rel_array := (rel_array rel)[i := e]\<rparr>"

definition reliable_get_buf :: "reliable \<Rightarrow> (nat option \<times> reliable) result" where
  "reliable_get_buf rel =
     (case find_index (\<lambda>e. \<not> e_active e) (rel_entries rel) of
        None \<Rightarrow> Inr (None, rel)
      | Some i \<Rightarrow>
          (let e = rel_array rel ! i
           in case buf_init (e_buf e) (rel_offset rel) of (ok, b) \<Rightarrow>
                assert_that ok (Inr (Some i, rel_set_entry rel i (e\<lparr>e_buf := b\<rparr>)))))"

fun reliable_min_id :: "packet_id_type option \<Rightarrow> reliable_entry list \<Rightarrow> packet_id_type option" where
  \<comment> \<open>the minimum active packet id; \<open>None\<close> for \<open>min_id_defined\<close> false\<close>
  "reliable_min_id m [] = m"
| "reliable_min_id m (e # es) =
     reliable_min_id
       (if e_active e
        then (case m of
                None \<Rightarrow> Some (e_packet_id e)
              | Some min_id \<Rightarrow> if reliable_pid_min (e_packet_id e) min_id then Some (e_packet_id e) else m)
        else m) es"

definition reliable_get_buf_output_sequenced :: "reliable \<Rightarrow> (nat option \<times> reliable) result" where
  "reliable_get_buf_output_sequenced rel =
     (let min_id = reliable_min_id None (rel_entries rel)
      in if (case min_id of
               None \<Rightarrow> True
             | Some m \<Rightarrow> reliable_pid_in_range1 (rel_packet_id rel) m (of_nat (rel_size rel)))
         then reliable_get_buf rel
         else Inr (None, rel))"

definition reliable_get_buf_sequenced :: "reliable \<Rightarrow> nat option" where
  "reliable_get_buf_sequenced rel =
     find_index (\<lambda>e. e_active e \<and> e_packet_id e = rel_packet_id rel) (rel_entries rel)"

definition reliable_can_send :: "time_t \<Rightarrow> reliable \<Rightarrow> bool" where
  "reliable_can_send now rel \<longleftrightarrow>
     length (filter (\<lambda>e. e_active e \<and> now \<ge> e_next_try e) (rel_entries rel)) > 0 \<and> \<not> rel_hold rel"

lemma filter_length_less: "x \<in> set xs \<Longrightarrow> Q x \<Longrightarrow> \<not> P x \<Longrightarrow> (\<And>y. P y \<Longrightarrow> Q y) \<Longrightarrow> length (filter P xs) < length (filter Q xs)"
proof (induction xs)
  case (Cons a xs)
  have le: "length (filter P xs) \<le> length (filter Q xs)"
    using Cons.prems(4) by (induction xs) (auto simp: le_SucI)
  show ?case
  proof (cases "a = x")
    case True
    then show ?thesis using Cons.prems(2,3) le by simp
  next
    case False
    then show ?thesis using Cons by auto
  qed
qed simp

function reliable_unique_retry :: "reliable_entry list \<Rightarrow> time_t \<Rightarrow> time_t" where
  "reliable_unique_retry es retry =
     (if list_ex (\<lambda>e. e_active e \<and> e_next_try e = retry) es
      then reliable_unique_retry es (retry + 1) else retry)"
  by pat_completeness auto
termination
proof (relation "measure (\<lambda>(es, retry). length (filter (\<lambda>e. e_next_try e \<ge> retry) es))", goal_cases)
  case (2 es retry)
  then obtain e where "e \<in> set es" "e_next_try e = retry" by (auto simp: list_ex_iff)
  then show ?case by (auto intro!: filter_length_less [where x = e])
qed simp

declare reliable_unique_retry.simps [simp del]

fun reliable_best :: "time_t \<Rightarrow> nat \<Rightarrow> (nat \<times> reliable_entry) option \<Rightarrow> reliable_entry list \<Rightarrow> (nat \<times> reliable_entry) option" where
  \<comment> \<open>the search loop of \<open>reliable_send\<close>, with the index of the current entry\<close>
  "reliable_best now i best [] = best"
| "reliable_best now i best (e # es) =
     reliable_best now (Suc i)
       (if e_active e \<and> now \<ge> e_next_try e
        then (case best of
                None \<Rightarrow> Some (i, e)
              | Some (j, b) \<Rightarrow> if reliable_pid_min (e_packet_id e) (e_packet_id b) then Some (i, e) else best)
        else best) es"

definition reliable_send :: "time_t \<Rightarrow> reliable \<Rightarrow> (nat \<times> int) option \<times> reliable" where
  \<comment> \<open>the buffer to send and \<open>*opcode\<close>\<close>
  "reliable_send now rel =
     (case reliable_best now 0 None (rel_entries rel) of
        None \<Rightarrow> (None, rel)
      | Some (i, best) \<Rightarrow>
          (Some (i, e_opcode best),
           rel_set_entry rel i
             (best\<lparr>e_next_try := reliable_unique_retry (rel_entries rel) (now + e_timeout best),
                   e_timeout := e_timeout best * 2\<rparr>)))"

definition reliable_schedule_now :: "time_t \<Rightarrow> reliable \<Rightarrow> reliable" where
  "reliable_schedule_now now rel =
     rel\<lparr>rel_hold := False,
         rel_array := map (\<lambda>e. if e_active e then e\<lparr>e_next_try := now, e_timeout := rel_initial_timeout rel\<rparr> else e)
                        (rel_entries rel) @ drop (rel_size rel) (rel_array rel)\<rparr>"

fun reliable_timeout_loop :: "time_t \<Rightarrow> int \<Rightarrow> reliable_entry list \<Rightarrow> int" where
  "reliable_timeout_loop now ret [] = ret"
| "reliable_timeout_loop now ret (e # es) =
     (if e_active e
      then (if e_next_try e \<le> now then 0
            else reliable_timeout_loop now (min_int ret (e_next_try e - now)) es)
      else reliable_timeout_loop now ret es)"

definition reliable_send_timeout :: "time_t \<Rightarrow> reliable \<Rightarrow> int" where
  "reliable_send_timeout now rel = reliable_timeout_loop now BIG_TIMEOUT (rel_entries rel)"

definition reliable_mark_active_incoming :: "reliable \<Rightarrow> nat \<Rightarrow> packet_id_type \<Rightarrow> int \<Rightarrow> reliable result" where
  "reliable_mark_active_incoming rel i pid opcode =
     assert_that (i < rel_size rel)
       (assert_that (\<not> reliable_pid_min pid (rel_packet_id rel))
         (Inr (rel_set_entry rel i
           ((rel_array rel ! i)\<lparr>e_active := True, e_packet_id := pid, e_opcode := opcode,
                               e_next_try := 0, e_timeout := 0\<rparr>))))"

definition reliable_mark_active_outgoing :: "reliable \<Rightarrow> nat \<Rightarrow> int \<Rightarrow> reliable result" where
  "reliable_mark_active_outgoing rel i opcode =
     assert_that (i < rel_size rel)
       (let e = rel_array rel ! i; pid = rel_packet_id rel
        in case buf_write_prepend (e_buf e) (bytes_of_u32 pid) of (ok, b) \<Rightarrow>
             assert_that ok
               (Inr (rel_set_entry (rel\<lparr>rel_packet_id := pid + 1\<rparr>) i
                 (e\<lparr>e_packet_id := pid, e_buf := b, e_active := True, e_opcode := opcode,
                    e_next_try := 0, e_timeout := rel_initial_timeout rel\<rparr>))))"

definition reliable_mark_deleted :: "reliable \<Rightarrow> nat \<Rightarrow> bool \<Rightarrow> reliable result" where
  "reliable_mark_deleted rel i inc_pid =
     assert_that (i < rel_size rel)
       (let e = rel_array rel ! i;
            rel = rel_set_entry rel i (e\<lparr>e_active := False\<rparr>)
        in Inr (if inc_pid then rel\<lparr>rel_packet_id := e_packet_id e + 1\<rparr> else rel))"

section \<open>Serial arithmetic\<close>

lemma in_range1_iff: "reliable_pid_in_range1 test base extent \<longleftrightarrow> test - base < extent"
  by (simp add: reliable_pid_in_range1_def)

lemma pid_min_iff: "reliable_pid_min p1 p2 \<longleftrightarrow> \<not> p1 - p2 < 0x80000000"
  by (simp add: reliable_pid_min_def in_range1_iff)

lemma unat_diff_wrap:
  "(a :: u32) < b \<Longrightarrow> unat (a - b) = 2 ^ 32 + unat a - unat b"
  by (simp add: unat_sub_if' word_less_nat_alt)

lemma pid_min_small:
  assumes "unat p1 < 2 ^ 31" "unat p2 < 2 ^ 31"
  shows "reliable_pid_min p1 p2 \<longleftrightarrow> unat p1 < unat p2"
proof (cases "p1 < p2")
  case True
  then have "unat (p1 - p2) = 2 ^ 32 + unat p1 - unat p2" by (rule unat_diff_wrap)
  with True assms show ?thesis by (simp add: pid_min_iff word_less_nat_alt)
next
  case False
  then have "unat (p1 - p2) = unat p1 - unat p2" by (simp add: unat_diff_less)
  with False assms show ?thesis by (simp add: pid_min_iff word_less_nat_alt)
qed

lemma in_range1_small:
  assumes "unat test < 2 ^ 31" "unat base \<le> unat test" "n < 2 ^ 31"
  shows "reliable_pid_in_range1 test base (of_nat n) \<longleftrightarrow> unat test < unat base + n"
  using assms by (simp add: in_range1_iff word_less_nat_alt unat_diff_less word_le_nat_alt unat_of_nat_u32) linarith

lemma in_range2_small:
  assumes "unat base + n < 2 ^ 31"
  shows "reliable_pid_in_range2 test base (of_nat n) \<longleftrightarrow> unat test < unat base + n"
proof -
  have "unat (base + of_nat n) = unat base + n"
    using assms by (simp add: unat_word_ariths unat_of_nat_u32)
  then show ?thesis by (simp add: reliable_pid_in_range2_def word_le_nat_alt word_less_nat_alt)
qed

section \<open>Acknowledgement records on the wire\<close>

definition ack_ok :: "reliable_ack \<Rightarrow> bool" where
  "ack_ok ack \<longleftrightarrow> length (a_packet_id ack) = RELIABLE_ACK_SIZE \<and> a_len ack \<le> RELIABLE_ACK_SIZE"

definition ack_ids :: "reliable_ack \<Rightarrow> packet_id_type list" where
  "ack_ids ack = take (a_len ack) (a_packet_id ack)"

definition ack_bytes :: "packet_id_type list \<Rightarrow> session_id \<Rightarrow> byte list" where
  \<comment> \<open>the record on the wire\<close>
  "ack_bytes ids sid =
     of_nat (length ids) # concat (map bytes_of_u32 ids) @ (if ids \<noteq> [] then sid_id sid else [])"

lemma length_ack_ids [simp]: "ack_ok ack \<Longrightarrow> length (ack_ids ack) = a_len ack"
  by (simp add: ack_ok_def ack_ids_def)

lemma ack_ok_len: "ack_ok ack \<Longrightarrow> a_len ack \<le> 8"
  by (simp add: ack_ok_def RELIABLE_ACK_SIZE_def)

lemma length_concat_ids: "length (concat (map bytes_of_u32 ids)) = 4 * length ids"
  by (induction ids) auto

lemma length_ack_bytes:
  "sid_ok sid \<Longrightarrow> int (length (ack_bytes ids sid)) = ACK_SIZE (length ids)"
  by (simp add: ack_bytes_def ACK_SIZE_def length_concat_ids sid_okD SID_SIZE_def)

lemma ack_push:
  assumes "ack_ok ack" "a_len ack < RELIABLE_ACK_SIZE"
  shows "ack_ok (ack\<lparr>a_packet_id := (a_packet_id ack)[a_len ack := pid], a_len := a_len ack + 1\<rparr>)"
    and "ack_ids (ack\<lparr>a_packet_id := (a_packet_id ack)[a_len ack := pid], a_len := a_len ack + 1\<rparr>)
           = ack_ids ack @ [pid]"
  using assms by (simp_all add: ack_ok_def ack_ids_def take_Suc_conv_app_nth)

lemma reliable_ack_acknowledge_ok:
  assumes "ack_ok ack"
  shows "ack_ok (snd (reliable_ack_acknowledge_packet_id ack pid))"
    and "ack_ids (snd (reliable_ack_acknowledge_packet_id ack pid))
           = (if pid \<notin> set (ack_ids ack) \<and> a_len ack < 8 then ack_ids ack @ [pid] else ack_ids ack)"
  using assms ack_push [OF assms]
  by (auto simp: reliable_ack_acknowledge_packet_id_def reliable_ack_packet_id_present_def ack_ids_def
      RELIABLE_ACK_SIZE_def)

lemma reliable_ack_write_ids_ok:
  "buf_ok sub \<Longrightarrow> 4 * length ids \<le> buf_room sub \<Longrightarrow>
   \<exists>sub'. reliable_ack_write_ids ids sub = Inr sub' \<and> buf_ok sub'
     \<and> buf_contents sub' = buf_contents sub @ concat (map bytes_of_u32 ids)
     \<and> buf_room sub' = buf_room sub - 4 * length ids \<and> buf_headroom sub' = buf_headroom sub"
proof (induction ids arbitrary: sub)
  case Nil
  then show ?case by simp
next
  case (Cons pid ids)
  then obtain s1 where s1: "buf_write sub (bytes_of_u32 pid) = (True, s1)" "buf_ok s1"
      "buf_contents s1 = buf_contents sub @ bytes_of_u32 pid" "buf_room s1 = buf_room sub - 4"
      "buf_headroom s1 = buf_headroom sub"
    using buf_write_ok [of sub "bytes_of_u32 pid"] by auto
  moreover have "4 * length ids \<le> buf_room s1" using s1(4) Cons.prems(2) by simp
  ultimately show ?case using Cons.IH [of s1] by auto
qed

lemma reliable_ack_shift_ok:
  "i \<le> j \<Longrightarrow> j \<le> len \<Longrightarrow> len \<le> length a \<Longrightarrow>
   \<exists>a'. reliable_ack_shift i j len a = (i + (len - j), a') \<and> length a' = length a
     \<and> take (i + (len - j)) a' = take i a @ take (len - j) (drop j a)"
proof (induction "len - j" arbitrary: i j a)
  case 0
  then show ?case by (simp add: reliable_ack_shift.simps)
next
  case (Suc d)
  show ?case
  proof -
    from Suc.hyps(2) have True: "j < len" by simp
    let ?a = "a[i := a ! j]"
    note prems = Suc.prems
    have "\<exists>a'. reliable_ack_shift (i + 1) (j + 1) len ?a = (i + 1 + (len - (j + 1)), a')
        \<and> length a' = length ?a
        \<and> take (i + 1 + (len - (j + 1))) a' = take (i + 1) ?a @ take (len - (j + 1)) (drop (j + 1) ?a)"
      using True prems Suc.hyps(2) by (intro Suc.hyps(1)) simp_all
    then obtain a' where a': "reliable_ack_shift (i + 1) (j + 1) len ?a = (i + 1 + (len - (j + 1)), a')"
        "length a' = length a"
        "take (i + 1 + (len - (j + 1))) a' = take (i + 1) ?a @ take (len - (j + 1)) (drop (j + 1) ?a)"
      by auto
    have "take (i + 1) ?a = take i a @ [a ! j]"
      using prems True by (simp add: take_Suc_conv_app_nth take_update_cancel)
    moreover have "drop (j + 1) ?a = drop (j + 1) a"
      using prems by (simp add: drop_update_cancel)
    moreover have "take (len - j) (drop j a) = a ! j # take (len - (j + 1)) (drop (j + 1) a)"
    proof -
      have "drop j a = a ! j # drop (j + 1) a" using prems True by (simp add: Cons_nth_drop_Suc)
      moreover have "len - j = Suc (len - (j + 1))" using True by simp
      ultimately show ?thesis by simp
    qed
    moreover have "i + 1 + (len - (j + 1)) = i + (len - j)" using True by simp
    ultimately show ?thesis using a' True by (simp add: reliable_ack_shift.simps [of i j])
  qed
qed

lemma ack_write_count:
  assumes ack: "ack_ok ack" and mx: "0 \<le> mx" and k: "k = nat (min (int (a_len ack)) mx)"
  shows "unat (if uint (word_of_nat (a_len ack) :: byte) > mx then word_of_int mx else (word_of_nat (a_len ack) :: byte)) = k"
proof -
  let ?n = "word_of_nat (a_len ack) :: byte"
  define n where "n = (if uint ?n > mx then word_of_int mx else ?n)"
  have len8: "a_len ack \<le> 8" by (rule ack_ok_len [OF ack])
  then have u: "uint ?n = int (a_len ack)" by (simp add: unsigned_of_nat take_bit_int_eq_self uint_nat take_bit_nat_eq_self)
  have un: "unat n = k"
  proof (cases "int (a_len ack) > mx")
    case True
    then have "n = word_of_int mx" "mx < 256" using u len8 by (simp_all add: n_def)
    with True mx k show ?thesis
      by (simp add: unat_eq_nat_uint uint_word_of_int flip: nat_uint_eq)
  next
    case False
    then have "n = ?n" using u by (simp add: n_def)
    with False k u show ?thesis by (simp add: min_def flip: nat_uint_eq)
  qed
  show ?thesis using un unfolding n_def .
qed

lemma reliable_ack_write_ok:
  assumes ack: "ack_ok ack" and sid: "sid_ok sid" "session_id_defined sid" and b: "buf_ok b" and mx: "0 \<le> mx"
    and k: "k = nat (min (int (a_len ack)) mx)"
    and room: "ACK_SIZE k \<le> (if prepend then int (buf_headroom b) else int (buf_room b))"
  shows "\<exists>ack' b'. reliable_ack_write ack b sid mx prepend = Inr (True, ack', b') \<and> ack_ok ack' \<and> buf_ok b'
           \<and> ack_ids ack' = drop k (ack_ids ack)
           \<and> buf_contents b' = (if prepend then ack_bytes (take k (ack_ids ack)) sid @ buf_contents b
                                else buf_contents b @ ack_bytes (take k (ack_ids ack)) sid)"
proof -
  define n where "n = (if uint (word_of_nat (a_len ack) :: byte) > mx then word_of_int mx
                       else (word_of_nat (a_len ack) :: byte))"
  have un: "unat n = k" unfolding n_def by (rule ack_write_count [OF ack mx k])
  have n0: "n \<noteq> 0 \<longleftrightarrow> k \<noteq> 0" using un by (metis unat_eq_zero)
  have kle: "k \<le> a_len ack" using k by simp
  let ?ids = "take k (ack_ids ack)"
  have ids: "take k (a_packet_id ack) = ?ids" using kle by (simp add: ack_ids_def)
  have lids: "length ?ids = k" using kle ack by simp
  define m where "m = nat (ACK_SIZE k)"
  have m: "ACK_SIZE k = int m" "m = 1 + 4 * k + (if k \<noteq> 0 then 8 else 0)"
    by (simp_all add: m_def ACK_SIZE_def SID_SIZE_def nat_add_distrib nat_mult_distrib)
  have "m \<le> (if prepend then buf_headroom b else buf_room b)" using room m(1) by (simp split: if_splits)
  from buf_sub_ok [OF b this, folded m(1)] obtain p sub b1 where sub:
      "buf_sub b (ACK_SIZE k) prepend = (Some (p, sub), b1)" "buf_ok sub" "buf_contents sub = []" "buf_room sub = m"
      "buf_headroom sub = 0"
    and commit': "\<forall>sub' bs. buf_ok sub' \<longrightarrow> buf_contents sub' = bs \<longrightarrow> length bs = m \<longrightarrow> buf_room sub' = 0 \<longrightarrow>
      buf_headroom sub' = 0 \<longrightarrow> buf_ok (buf_sub_commit b1 p sub')
        \<and> buf_contents (buf_sub_commit b1 p sub') = (if prepend then bs @ buf_contents b else buf_contents b @ bs)"
    by blast
  note commit = commit' [rule_format]
  obtain s1 where s1: "buf_write sub [n] = (True, s1)" "buf_ok s1" "buf_contents s1 = [n]"
      "buf_room s1 = m - 1" "buf_headroom s1 = 0"
    using buf_write_ok [OF sub(2), of "[n]"] sub m(2) by auto
  obtain s2 where s2: "reliable_ack_write_ids ?ids s1 = Inr s2" "buf_ok s2"
      "buf_contents s2 = n # concat (map bytes_of_u32 ?ids)" "buf_room s2 = m - 1 - 4 * k" "buf_headroom s2 = 0"
    using reliable_ack_write_ids_ok [OF s1(2), of ?ids] s1 lids m(2) by auto
  have nn: "of_nat k = n" using unat_eq_of_nat [OF un] by simp
  show ?thesis
  proof (cases "k = 0")
    case True
    then have "buf_contents s2 = ack_bytes ?ids sid" "buf_room s2 = 0" "length (buf_contents s2) = m"
      using s2 m(2) nn by (simp_all add: ack_bytes_def)
    with commit [OF s2(2) refl] s2(5) have c: "buf_ok (buf_sub_commit b1 p s2)"
        "buf_contents (buf_sub_commit b1 p s2)
           = (if prepend then ack_bytes ?ids sid @ buf_contents b else buf_contents b @ ack_bytes ?ids sid)"
      by simp_all
    have "reliable_ack_write ack b sid mx prepend = Inr (True, ack, buf_sub_commit b1 p s2)"
      using True sub(1) s1(1) s2(1) n0 un ids
      by (simp add: reliable_ack_write_def n_def [symmetric] Let_def del: unat_eq_zero)
    with c ack True show ?thesis by auto
  next
    case False
    then have ne: "ack_ids ack \<noteq> []" using lids by auto
    obtain s3 where s3: "session_id_write sid s2 = (True, s3)" "buf_ok s3"
        "buf_contents s3 = ack_bytes ?ids sid" "buf_room s3 = 0" "buf_headroom s3 = 0"
      using buf_write_ok [OF s2(2), of "sid_id sid"] s2 m(2) False sid(1) lids nn ne
      by (auto simp: session_id_write_def sid_okD ack_bytes_def)
    have "length (buf_contents s3) = m"
      using s3(3) length_ack_bytes [OF sid(1), of ?ids] lids m(1) by simp
    with commit [OF s3(2) s3(3)] s3 have c: "buf_ok (buf_sub_commit b1 p s3)"
        "buf_contents (buf_sub_commit b1 p s3)
           = (if prepend then ack_bytes ?ids sid @ buf_contents b else buf_contents b @ ack_bytes ?ids sid)"
      by simp_all
    obtain a' where a': "reliable_ack_shift 0 k (a_len ack) (a_packet_id ack) = (a_len ack - k, a')"
        "length a' = length (a_packet_id ack)"
        "take (a_len ack - k) a' = take (a_len ack - k) (drop k (a_packet_id ack))"
      using reliable_ack_shift_ok [of 0 k "a_len ack" "a_packet_id ack"] kle ack by (auto simp: ack_ok_def)
    let ?ack = "ack\<lparr>a_packet_id := a', a_len := a_len ack - k\<rparr>"
    have "reliable_ack_write ack b sid mx prepend = Inr (True, ?ack, buf_sub_commit b1 p s3)"
      using False sub(1) s1(1) s2(1) s3(1) n0 un ids sid(2) a'(1)
      by (simp add: reliable_ack_write_def n_def [symmetric] Let_def del: unat_eq_zero)
    moreover have "ack_ok ?ack" "ack_ids ?ack = drop k (ack_ids ack)"
      using a' ack by (auto simp: ack_ok_def ack_ids_def drop_take)
    ultimately show ?thesis using c by auto
  qed
qed

lemma reliable_ack_write_no_room:
  assumes ack: "ack_ok ack" and b: "buf_ok b" and mx: "0 \<le> mx"
    and room: "(if prepend then int (buf_headroom b) else int (buf_room b)) < ACK_SIZE (nat (min (int (a_len ack)) mx))"
  shows "reliable_ack_write ack b sid mx prepend = Inr (False, ack, b)"
proof -
  let ?k = "nat (min (int (a_len ack)) mx)"
  have "0 \<le> ACK_SIZE ?k" by (simp add: ACK_SIZE_def)
  then have "buf_sub b (ACK_SIZE ?k) prepend = (None, b)"
    using buf_sub_no_room [OF b, of prepend "nat (ACK_SIZE ?k)"] room by (simp split: if_splits)
  then show ?thesis
    unfolding reliable_ack_write_def Let_def ack_write_count [OF ack mx refl] by simp
qed

lemma reliable_ack_read_loop_ok:
  "ack_ok ack \<Longrightarrow> a_len ack + length ids \<le> 8 \<Longrightarrow> buf_ok b \<Longrightarrow>
   buf_contents b = concat (map bytes_of_u32 ids) @ rest \<Longrightarrow>
   \<exists>ack' b'. reliable_ack_read_loop (length ids) ack b = (True, ack', b') \<and> ack_ok ack'
     \<and> ack_ids ack' = ack_ids ack @ ids \<and> buf_ok b' \<and> buf_contents b' = rest"
proof (induction ids arbitrary: ack b)
  case Nil
  then show ?case by simp
next
  case (Cons pid ids)
  then obtain b1 where b1: "buf_read b 4 = (Some (bytes_of_u32 pid), b1)" "buf_ok b1"
      "buf_contents b1 = concat (map bytes_of_u32 ids) @ rest"
    using buf.read_prefix [of b "bytes_of_u32 pid" "concat (map bytes_of_u32 ids) @ rest" 4] by auto
  have lt: "a_len ack < RELIABLE_ACK_SIZE" using Cons.prems(2) by (simp add: RELIABLE_ACK_SIZE_def)
  note push = ack_push [OF Cons.prems(1) lt]
  from Cons.IH [OF push(1), of pid b1] Cons.prems(2) b1 push(2) [of pid] lt show ?case
    by auto
qed

lemma reliable_ack_read_ok:
  assumes ack: "ack_ok ack" "a_len ack = 0" and ids: "length ids \<le> 8"
    and sid: "sid_ok sid" "session_id_defined sid"
    and b: "buf_ok b" "buf_contents b = ack_bytes ids sid @ rest"
  shows "\<exists>ack' b'. reliable_ack_read ack b sid = (True, ack', b') \<and> ack_ok ack' \<and> ack_ids ack' = ids
           \<and> buf_ok b' \<and> buf_contents b' = rest"
proof -
  let ?c = "of_nat (length ids) :: byte"
  let ?tail = "(if ids \<noteq> [] then sid_id sid else []) @ rest"
  have c: "unat ?c = length ids" using ids by (simp add: unat_of_nat take_bit_nat_eq_self)
  obtain b1 where b1: "buf_read b 1 = (Some [?c], b1)" "buf_ok b1"
      "buf_contents b1 = concat (map bytes_of_u32 ids) @ ?tail"
    using buf.read_prefix [OF b(1), of "[?c]"] b(2) by (auto simp: ack_bytes_def)
  obtain ack' b2 where b2: "reliable_ack_read_loop (length ids) ack b1 = (True, ack', b2)" "ack_ok ack'"
      "ack_ids ack' = ids" "buf_ok b2" "buf_contents b2 = ?tail"
    using reliable_ack_read_loop_ok [OF ack(1) _ b1(2,3)] ack(2) ids by (auto simp: ack_ids_def)
  show ?thesis
  proof (cases "ids = []")
    case True
    with b1(1) b2 c show ?thesis by (simp add: reliable_ack_read_def Let_def)
  next
    case False
    then obtain b3 where "session_id_read x_session_id_zero b2 = (True, sid, b3)" "buf_ok b3" "buf_contents b3 = rest"
      using session_id_read_prefix [OF b2(4) _ sid(1)] b2(5) by auto
    with False b1(1) b2 c sid(2) show ?thesis
      by (simp add: reliable_ack_read_def Let_def session_id_equal_def)
  qed
qed

text \<open>Acknowledgements survive the wire: what \<open>reliable_ack_write\<close> prepends to a packet,
  \<open>reliable_ack_read\<close> of the peer reads back in order; the writer keeps exactly the
  acknowledgements that did not fit under \<open>max\<close>, and the packet behind them is untouched.\<close>

theorem reliable_ack_roundtrip:
  assumes "ack_ok ack" "sid_ok sid" "session_id_defined sid" "buf_ok b" "0 \<le> mx"
    and "ACK_SIZE (nat (min (int (a_len ack)) mx)) \<le> b_offset b"
    and "ack_ok ack0" "a_len ack0 = 0"
  shows "\<exists>ack' b1 ack1 b2. reliable_ack_write ack b sid mx True = Inr (True, ack', b1)
           \<and> reliable_ack_read ack0 b1 sid = (True, ack1, b2)
           \<and> ack_ids ack1 @ ack_ids ack' = ack_ids ack
           \<and> int (length (ack_ids ack1)) = min (int (a_len ack)) mx
           \<and> buf_contents b2 = buf_contents b"
proof -
  let ?k = "nat (min (int (a_len ack)) mx)"
  obtain ack' b1 where w: "reliable_ack_write ack b sid mx True = Inr (True, ack', b1)" "buf_ok b1"
      "ack_ids ack' = drop ?k (ack_ids ack)"
      "buf_contents b1 = ack_bytes (take ?k (ack_ids ack)) sid @ buf_contents b"
    using reliable_ack_write_ok [OF assms(1-5) refl, of True] assms(6) buf_headroom_eq [OF assms(4)] by auto
  have len: "length (take ?k (ack_ids ack)) \<le> 8" using assms(1) ack_ok_len [OF assms(1)] by simp
  obtain ack1 b2 where "reliable_ack_read ack0 b1 sid = (True, ack1, b2)"
      "ack_ids ack1 = take ?k (ack_ids ack)" "buf_contents b2 = buf_contents b"
    using reliable_ack_read_ok [OF assms(7,8) len assms(2,3) w(2,4)] by auto
  with w assms(1,5) show ?thesis by (auto simp: min_def)
qed

lemma ack_ids_example: "ack_ids \<lparr>a_len = 2, a_packet_id = [3, 5, 0, 0, 0, 0, 0, 0]\<rparr> = [3, 5]"
  by (simp add: ack_ids_def)

theorem reliable_ack_roundtrip_witness:
  "\<exists>b ack' b1 ack1 b2.
     reliable_ack_write \<lparr>a_len = 2, a_packet_id = [3, 5, 0, 0, 0, 0, 0, 0]\<rparr> b \<lparr>sid_id = [1,2,3,4,5,6,7,8]\<rparr> 4 True
       = Inr (True, ack', b1)
     \<and> reliable_ack_read \<lparr>a_len = 0, a_packet_id = replicate 8 0\<rparr> b1 \<lparr>sid_id = [1,2,3,4,5,6,7,8]\<rparr> = (True, ack1, b2)
     \<and> ack_ids ack1 @ ack_ids ack' = [3, 5] \<and> buf_contents b2 = [9]"
proof -
  let ?ack = "\<lparr>a_len = 2, a_packet_id = [3, 5, 0, 0, 0, 0, 0, 0]\<rparr>" and ?sid = "\<lparr>sid_id = [1,2,3,4,5,6,7,8]\<rparr>"
  let ?b = "\<lparr>b_capacity = 21, b_offset = 20, b_len = 1, b_data = Some (replicate 20 0 @ [9])\<rparr>"
  let ?empty = "\<lparr>a_len = 0, a_packet_id = replicate 8 0\<rparr>"
  have "ack_ok ?ack" "sid_ok ?sid" "buf_ok ?b" "ack_ok ?empty" "buf_contents ?b = [9]"
    by code_simp+
  moreover have "session_id_defined ?sid"
    by (simp add: session_id_defined_def SID_SIZE_def x_session_id_zero_def eval_nat_numeral)
  moreover have "ack_ids ?ack = [3, 5]" by (rule ack_ids_example)
  moreover have "ACK_SIZE (nat (min (int (a_len ?ack)) 4)) \<le> b_offset ?b"
    by (simp add: ACK_SIZE_def SID_SIZE_def)
  ultimately show ?thesis using reliable_ack_roundtrip [of ?ack ?sid ?b 4 ?empty] by fastforce
qed

section \<open>Retransmission times\<close>

lemma reliable_unique_retry_ok:
  "retry \<le> reliable_unique_retry es retry
   \<and> (\<forall>e \<in> set es. e_active e \<longrightarrow> e_next_try e \<noteq> reliable_unique_retry es retry)
   \<and> (\<forall>t. retry \<le> t \<and> t < reliable_unique_retry es retry \<longrightarrow> (\<exists>e \<in> set es. e_active e \<and> e_next_try e = t))"
proof (induction es retry rule: reliable_unique_retry.induct)
  case (1 es retry)
  show ?case
  proof (cases "list_ex (\<lambda>e. e_active e \<and> e_next_try e = retry) es")
    case True
    then have "reliable_unique_retry es retry = reliable_unique_retry es (retry + 1)"
      by (subst reliable_unique_retry.simps) simp
    moreover note "1.IH" [OF True]
    moreover have "t = retry \<or> retry + 1 \<le> t" if "retry \<le> t" for t using that by linarith
    ultimately show ?thesis using True by (fastforce simp: list_ex_iff)
  next
    case False
    then show ?thesis by (subst (1 2 3) reliable_unique_retry.simps) (auto simp: list_ex_iff)
  qed
qed

lemma reliable_best_None:
  "reliable_best now i best es = None \<longleftrightarrow> best = None \<and> (\<forall>e \<in> set es. \<not> (e_active e \<and> e_next_try e \<le> now))"
  by (induction es arbitrary: i best) (auto split: option.splits)

lemma reliable_best_Some:
  "reliable_best now i best es = Some (j, e) \<Longrightarrow>
   best = Some (j, e) \<or> (i \<le> j \<and> j < i + length es \<and> e = es ! (j - i) \<and> e_active e \<and> e_next_try e \<le> now)"
proof (induction es arbitrary: i best)
  case Nil
  then show ?case by simp
next
  case (Cons x es)
  let ?best = "if e_active x \<and> e_next_try x \<le> now
        then (case best of None \<Rightarrow> Some (i, x)
              | Some (j, b) \<Rightarrow> if reliable_pid_min (e_packet_id x) (e_packet_id b) then Some (i, x) else best)
        else best"
  from Cons.prems have "reliable_best now (Suc i) ?best es = Some (j, e)" by simp
  from Cons.IH [OF this] show ?case
  proof
    assume "?best = Some (j, e)"
    then show ?thesis by (auto split: if_splits option.splits)
  next
    assume "Suc i \<le> j \<and> j < Suc i + length es \<and> e = es ! (j - Suc i) \<and> e_active e \<and> e_next_try e \<le> now"
    then show ?thesis by (auto simp: nth_Cons' Suc_diff_Suc)
  qed
qed

section \<open>Invariant of a reliable object\<close>

definition active_ids :: "reliable_entry list \<Rightarrow> packet_id_type list" where
  "active_ids es = map e_packet_id (filter e_active es)"

definition rel_wf :: "int \<Rightarrow> reliable \<Rightarrow> bool" where
  "rel_wf cap rel \<longleftrightarrow>
     0 < rel_size rel \<and> rel_size rel \<le> RELIABLE_CAPACITY \<and> length (rel_array rel) = RELIABLE_CAPACITY
     \<and> 0 \<le> rel_offset rel \<and> rel_offset rel \<le> cap
     \<and> (\<forall>e \<in> set (rel_entries rel). buf_ok (e_buf e) \<and> b_capacity (e_buf e) = cap)
     \<and> distinct (active_ids (rel_entries rel))"

lemma in_active_ids: "i \<in> set (active_ids es) \<longleftrightarrow> (\<exists>e \<in> set es. e_active e \<and> e_packet_id e = i)"
  by (auto simp: active_ids_def)

lemma active_ids_Nil [simp]: "active_ids [] = []"
  by (simp add: active_ids_def)

lemma active_ids_append [simp]: "active_ids (es @ fs) = active_ids es @ active_ids fs"
  by (simp add: active_ids_def)

lemma active_ids_Cons [simp]:
  "active_ids (e # es) = (if e_active e then e_packet_id e # active_ids es else active_ids es)"
  by (simp add: active_ids_def)

lemma active_ids_split:
  assumes "i < length es"
  shows "active_ids es = active_ids (take i es) @ active_ids [es ! i] @ active_ids (drop (Suc i) es)"
    and "active_ids (es[i := e]) = active_ids (take i es) @ active_ids [e] @ active_ids (drop (Suc i) es)"
  using assms id_take_nth_drop [OF assms] upd_conv_take_nth_drop [OF assms, of e]
    active_ids_append [of "take i es" "es ! i # drop (Suc i) es"] by simp_all

lemma active_ids_activate:
  assumes "i < length es" "\<not> e_active (es ! i)" "e_active e"
  shows "set (active_ids (es[i := e])) = insert (e_packet_id e) (set (active_ids es))"
    and "distinct (active_ids (es[i := e])) \<longleftrightarrow>
           distinct (active_ids es) \<and> e_packet_id e \<notin> set (active_ids es)"
  using assms(2,3) by (auto simp: active_ids_split [OF assms(1)] simp del: active_ids_append)

lemma active_ids_deactivate:
  assumes "i < length es" "e_active (es ! i)" "\<not> e_active e" "distinct (active_ids es)"
  shows "set (active_ids (es[i := e])) = set (active_ids es) - {e_packet_id (es ! i)}"
    and "distinct (active_ids (es[i := e]))"
  using assms(2-4) by (auto simp: active_ids_split [OF assms(1)] simp del: active_ids_append)

lemma active_ids_keep:
  assumes "i < length es" "e_active e = e_active (es ! i)" "e_packet_id e = e_packet_id (es ! i)"
  shows "active_ids (es[i := e]) = active_ids es"
  using assms(2,3) by (simp add: active_ids_split [OF assms(1)] del: active_ids_append)

lemma rel_wfD:
  assumes "rel_wf cap rel"
  shows "0 < rel_size rel" "rel_size rel \<le> 8" "length (rel_array rel) = 8"
    "length (rel_entries rel) = rel_size rel" "0 \<le> rel_offset rel" "rel_offset rel \<le> cap"
    "distinct (active_ids (rel_entries rel))"
  using assms by (auto simp: rel_wf_def RELIABLE_CAPACITY_def rel_entries_def)

lemma rel_wf_buf:
  "rel_wf cap rel \<Longrightarrow> e \<in> set (rel_entries rel) \<Longrightarrow> buf_ok (e_buf e) \<and> b_capacity (e_buf e) = cap"
  by (simp add: rel_wf_def)

lemma rel_entries_nth: "i < rel_size rel \<Longrightarrow> rel_entries rel ! i = rel_array rel ! i"
  by (simp add: rel_entries_def)

lemma rel_entry_mem: "rel_wf cap rel \<Longrightarrow> i < rel_size rel \<Longrightarrow> rel_array rel ! i \<in> set (rel_entries rel)"
  using nth_mem [of i "rel_entries rel"] rel_wfD(4) [of cap rel] by (simp add: rel_entries_nth)

lemma rel_set_entry_simps [simp]:
  "rel_size (rel_set_entry rel i e) = rel_size rel" "rel_packet_id (rel_set_entry rel i e) = rel_packet_id rel"
  "rel_offset (rel_set_entry rel i e) = rel_offset rel" "rel_hold (rel_set_entry rel i e) = rel_hold rel"
  "rel_initial_timeout (rel_set_entry rel i e) = rel_initial_timeout rel"
  "rel_array (rel_set_entry rel i e) = (rel_array rel)[i := e]"
  by (simp_all add: rel_set_entry_def)

lemma rel_entries_set:
  "i < rel_size rel \<Longrightarrow> rel_entries (rel_set_entry rel i e) = (rel_entries rel)[i := e]"
  by (simp add: rel_entries_def take_update_swap)

lemma rel_entries_packet_id [simp]: "rel_entries (rel\<lparr>rel_packet_id := p\<rparr>) = rel_entries rel"
  by (simp add: rel_entries_def)

lemma rel_wf_packet_id [simp]: "rel_wf cap (rel\<lparr>rel_packet_id := p\<rparr>) = rel_wf cap rel"
  by (simp add: rel_wf_def)

lemma rel_wf_set [wf_intros]:
  assumes "rel_wf cap rel" "i < rel_size rel" "buf_ok (e_buf e)" "b_capacity (e_buf e) = cap"
    "distinct (active_ids ((rel_entries rel)[i := e]))"
  shows "rel_wf cap (rel_set_entry rel i e)"
  using assms set_update_subset_insert [of "rel_entries rel" i e]
  by (auto simp: rel_wf_def rel_entries_set)

section \<open>Behaviour of the operations\<close>

lemma reliable_init_loop_ok:
  assumes "0 \<le> off" "off \<le> cap" "cap < BUF_SIZE_MAX"
  shows "i + n \<le> length es \<Longrightarrow>
    \<exists>es'. reliable_init_loop junk cap off i n es = Inr es' \<and> length es' = length es
      \<and> (\<forall>k < length es. e_active (es' ! k) = e_active (es ! k)
           \<and> (i \<le> k \<and> k < i + n \<longrightarrow> buf_ok (e_buf (es' ! k)) \<and> b_capacity (e_buf (es' ! k)) = cap)
           \<and> (k < i \<longrightarrow> es' ! k = es ! k))"
proof (induction n arbitrary: i es)
  case 0
  then show ?case by auto
next
  case (Suc n)
  obtain b where b: "alloc_buf (junk i) cap = Inr b" "buf_ok b" "b_capacity b = cap"
    using alloc_buf_ok [of cap "junk i"] assms by auto
  obtain b' where b': "buf_init b off = (True, b')" "buf_ok b'" "b_capacity b' = cap"
    using buf_init_ok [OF b(2), of off] assms b(3) by auto
  let ?es = "es[i := (es ! i)\<lparr>e_buf := b'\<rparr>]"
  obtain es' where es': "reliable_init_loop junk cap off (Suc i) n ?es = Inr es'" "length es' = length es"
      "\<And>k. k < length es \<Longrightarrow> e_active (es' ! k) = e_active (?es ! k)
           \<and> (Suc i \<le> k \<and> k < Suc i + n \<longrightarrow> buf_ok (e_buf (es' ! k)) \<and> b_capacity (e_buf (es' ! k)) = cap)
           \<and> (k < Suc i \<longrightarrow> es' ! k = ?es ! k)"
    using Suc.IH [of "Suc i" ?es] Suc.prems by auto
  have "e_active (es' ! k) = e_active (es ! k)
           \<and> (i \<le> k \<and> k < i + Suc n \<longrightarrow> buf_ok (e_buf (es' ! k)) \<and> b_capacity (e_buf (es' ! k)) = cap)
           \<and> (k < i \<longrightarrow> es' ! k = es ! k)" if k: "k < length es" for k
    using es'(3) [OF k] b'(2,3) k by (cases "k = i") (auto simp: nth_list_update)
  with b(1) b'(1) es'(1,2) show ?case by simp
qed

lemma reliable_init_ok:
  assumes "0 \<le> off" "off \<le> cap" "cap < BUF_SIZE_MAX" "0 < n" "n \<le> 8"
  shows "\<exists>rel. reliable_init junk cap off n hold = Inr rel \<and> rel_wf cap rel \<and> rel_packet_id rel = 0
           \<and> active_ids (rel_entries rel) = [] \<and> rel_offset rel = off \<and> int (rel_size rel) = n"
proof -
  let ?es = "rel_array reliable_clear"
  have len: "length ?es = 8" "\<And>k. k < 8 \<Longrightarrow> \<not> e_active (?es ! k)"
    by (simp_all add: reliable_clear_def RELIABLE_CAPACITY_def)
  have "nat n \<le> 8" using assms(5) by simp
  then obtain es where es: "reliable_init_loop junk cap off 0 (nat n) ?es = Inr es" "length es = 8"
      "\<And>k. k < 8 \<Longrightarrow> \<not> e_active (es ! k)
           \<and> (k < nat n \<longrightarrow> buf_ok (e_buf (es ! k)) \<and> b_capacity (e_buf (es ! k)) = cap)"
    using reliable_init_loop_ok [OF assms(1-3), of 0 "nat n" ?es junk] len by auto
  let ?rel = "reliable_clear\<lparr>rel_hold := hold, rel_size := nat n, rel_offset := off, rel_array := es\<rparr>"
  have init: "reliable_init junk cap off n hold = Inr ?rel"
    using es(1) assms(4,5) by (simp add: reliable_init_def Let_def RELIABLE_CAPACITY_def)
  have "\<forall>e \<in> set (rel_entries ?rel). \<not> e_active e \<and> buf_ok (e_buf e) \<and> b_capacity (e_buf e) = cap"
    using es(2,3) assms(5) by (auto simp: rel_entries_def in_set_conv_nth)
  moreover from this have "active_ids (rel_entries ?rel) = []" by (simp add: active_ids_def filter_empty_conv)
  ultimately have "rel_wf cap ?rel \<and> active_ids (rel_entries ?rel) = []"
    using es(2) assms by (simp add: rel_wf_def RELIABLE_CAPACITY_def)
  with init assms(4) show ?thesis by (intro exI [of _ ?rel]) (simp add: reliable_clear_def)
qed

lemma reliable_get_buf_ok:
  assumes "rel_wf cap rel" "reliable_can_get rel"
  shows "\<exists>i b. i < rel_size rel \<and> \<not> e_active (rel_array rel ! i) \<and> buf_ok b \<and> buf_contents b = []
           \<and> b_capacity b = cap \<and> b_offset b = rel_offset rel \<and> b_len b = 0
           \<and> reliable_get_buf rel = Inr (Some i, rel_set_entry rel i ((rel_array rel ! i)\<lparr>e_buf := b\<rparr>))"
proof -
  note D = rel_wfD [OF assms(1)]
  have "find_index (\<lambda>e. \<not> e_active e) (rel_entries rel) \<noteq> None"
    using assms(2) by (auto simp: reliable_can_get_def list_ex_iff)
  then obtain i where i: "find_index (\<lambda>e. \<not> e_active e) (rel_entries rel) = Some i"
    by (meson option.exhaust)
  then have i': "i < rel_size rel" "\<not> e_active (rel_array rel ! i)"
    using D(4) by (auto simp: find_index_Some rel_entries_nth)
  have "buf_ok (e_buf (rel_array rel ! i))" "b_capacity (e_buf (rel_array rel ! i)) = cap"
    using rel_wf_buf [OF assms(1) rel_entry_mem [OF assms(1) i'(1)]] by simp_all
  then obtain b where b: "buf_init (e_buf (rel_array rel ! i)) (rel_offset rel) = (True, b)" "buf_ok b"
      "b_capacity b = cap" "b_offset b = rel_offset rel" "b_len b = 0"
    using buf_init_ok [of "e_buf (rel_array rel ! i)" "rel_offset rel"] D(5,6) by auto
  from b(2,5) have "buf_contents b = []" by (simp add: buf_contents_def)
  with i i' b show ?thesis by (auto simp: reliable_get_buf_def)
qed

lemma reliable_get_buf_full: "\<not> reliable_can_get rel \<Longrightarrow> reliable_get_buf rel = Inr (None, rel)"
proof -
  assume "\<not> reliable_can_get rel"
  then have "find_index (\<lambda>e. \<not> e_active e) (rel_entries rel) = None"
    by (simp add: reliable_can_get_def list_ex_iff)
  then show ?thesis by (simp only: reliable_get_buf_def option.case)
qed

text \<open>The packets an object holds: number and contents of the active buffers.\<close>

definition outstanding :: "reliable_entry list \<Rightarrow> (packet_id_type \<times> byte list) set" where
  "outstanding es = (\<lambda>e. (e_packet_id e, buf_contents (e_buf e))) ` {e \<in> set es. e_active e}"

lemma fst_outstanding: "fst ` outstanding es = set (active_ids es)"
  by (auto simp: outstanding_def active_ids_def image_image)

lemma outstanding_append [simp]: "outstanding (es @ fs) = outstanding es \<union> outstanding fs"
  by (auto simp: outstanding_def)

lemma outstanding_Cons [simp]:
  "outstanding (e # es) = (if e_active e then insert (e_packet_id e, buf_contents (e_buf e)) (outstanding es)
                           else outstanding es)"
  by (auto simp: outstanding_def)

lemma outstanding_Nil [simp]: "outstanding [] = {}"
  by (simp add: outstanding_def)

lemma outstanding_split:
  assumes "i < length es"
  shows "outstanding es = outstanding (take i es) \<union> outstanding [es ! i] \<union> outstanding (drop (Suc i) es)"
    and "outstanding (es[i := e]) = outstanding (take i es) \<union> outstanding [e] \<union> outstanding (drop (Suc i) es)"
  using assms id_take_nth_drop [OF assms] upd_conv_take_nth_drop [OF assms, of e]
    outstanding_append [of "take i es" "es ! i # drop (Suc i) es"] by auto

lemma outstanding_activate:
  assumes "i < length es" "\<not> e_active (es ! i)" "e_active e"
  shows "outstanding (es[i := e]) = insert (e_packet_id e, buf_contents (e_buf e)) (outstanding es)"
  using assms(2,3) by (simp add: outstanding_split [OF assms(1)] del: outstanding_append)

lemma outstanding_deactivate:
  assumes "i < length es" "e_active (es ! i)" "\<not> e_active e" "distinct (active_ids es)"
  shows "outstanding (es[i := e]) = {x \<in> outstanding es. fst x \<noteq> e_packet_id (es ! i)}"
proof -
  have "e_packet_id (es ! i) \<notin> fst ` outstanding (take i es)" "e_packet_id (es ! i) \<notin> fst ` outstanding (drop (Suc i) es)"
    using assms(2,4) unfolding fst_outstanding by (auto simp: active_ids_split(1) [OF assms(1)] simp del: active_ids_append)
  then have "fst x \<noteq> e_packet_id (es ! i)"
    if "x \<in> outstanding (take i es) \<or> x \<in> outstanding (drop (Suc i) es)" for x
    using that by (metis image_eqI)
  with assms(2,3) show ?thesis
    by (auto simp: outstanding_split [OF assms(1)] simp del: outstanding_append)
qed

lemma outstanding_keep:
  assumes "i < length es" "e_active e = e_active (es ! i)"
    and "e_active e \<Longrightarrow> e_packet_id e = e_packet_id (es ! i)" "e_active e \<Longrightarrow> e_buf e = e_buf (es ! i)"
  shows "outstanding (es[i := e]) = outstanding es"
  using assms(2-4) by (simp add: outstanding_split [OF assms(1)] del: outstanding_append)

lemma outstandingI: "e \<in> set es \<Longrightarrow> e_active e \<Longrightarrow> (e_packet_id e, buf_contents (e_buf e)) \<in> outstanding es"
  by (auto simp: outstanding_def)

definition rel_same :: "reliable \<Rightarrow> reliable \<Rightarrow> bool" where
  \<comment> \<open>the members that most operations leave alone\<close>
  "rel_same rel' rel \<longleftrightarrow> rel_size rel' = rel_size rel \<and> rel_packet_id rel' = rel_packet_id rel
     \<and> rel_offset rel' = rel_offset rel"

lemma rel_same_refl [simp]: "rel_same rel rel"
  by (simp add: rel_same_def)

lemma rel_same_set_entry [simp]: "rel_same (rel_set_entry rel i e) rel"
  by (simp add: rel_same_def)

lemma rel_same_trans: "rel_same a b \<Longrightarrow> rel_same b c \<Longrightarrow> rel_same a c"
  by (simp add: rel_same_def)

lemma reliable_purge_one_ok:
  assumes "rel_wf cap rel"
  shows "rel_wf cap (reliable_purge_one rel pid) \<and> rel_same (reliable_purge_one rel pid) rel
    \<and> outstanding (rel_entries (reliable_purge_one rel pid)) = {x \<in> outstanding (rel_entries rel). fst x \<noteq> pid}"
proof (cases "find_index (\<lambda>e. e_active e \<and> e_packet_id e = pid) (rel_entries rel)")
  case None
  then have "reliable_purge_one rel pid = rel" unfolding reliable_purge_one_def by (simp only: option.case)
  moreover from None have "\<forall>x \<in> outstanding (rel_entries rel). fst x \<noteq> pid"
    by (auto simp: outstanding_def)
  ultimately show ?thesis using assms by auto
next
  case (Some j)
  note D = rel_wfD [OF assms]
  let ?e = "(rel_array rel ! j)\<lparr>e_active := False\<rparr>"
  have j: "j < rel_size rel" "e_active (rel_entries rel ! j)" "e_packet_id (rel_entries rel ! j) = pid"
    using Some D(4) by (auto simp: find_index_Some)
  have eq: "reliable_purge_one rel pid = rel_set_entry rel j ?e"
    using Some by (simp add: reliable_purge_one_def rel_set_entry_def)
  have "outstanding ((rel_entries rel)[j := ?e]) = {x \<in> outstanding (rel_entries rel). fst x \<noteq> pid}"
    using outstanding_deactivate [of j "rel_entries rel" ?e] j D(4,7) by simp
  moreover have "rel_wf cap (rel_set_entry rel j ?e)"
    using rel_wf_buf [OF assms rel_entry_mem [OF assms j(1)]] j D(4,7)
    by (intro rel_wf_set [OF assms]) (auto intro: active_ids_deactivate)
  ultimately show ?thesis using eq j(1) by (simp add: rel_entries_set)
qed

lemma reliable_purge_fold_ok:
  "rel_wf cap rel \<Longrightarrow> rel_wf cap (foldl reliable_purge_one rel pids) \<and> rel_same (foldl reliable_purge_one rel pids) rel
   \<and> outstanding (rel_entries (foldl reliable_purge_one rel pids))
       = {x \<in> outstanding (rel_entries rel). fst x \<notin> set pids}"
proof (induction pids arbitrary: rel)
  case Nil
  then show ?case by simp
next
  case (Cons pid pids)
  note p = reliable_purge_one_ok [OF Cons.prems, of pid]
  from Cons.IH [OF p [THEN conjunct1]] p show ?case by (auto intro: rel_same_trans)
qed

lemma reliable_send_purge_ok:
  "rel_wf cap rel \<Longrightarrow> rel_wf cap (reliable_send_purge rel ack) \<and> rel_same (reliable_send_purge rel ack) rel
   \<and> outstanding (rel_entries (reliable_send_purge rel ack))
       = {x \<in> outstanding (rel_entries rel). fst x \<notin> set (ack_ids ack)}"
  unfolding reliable_send_purge_def ack_ids_def by (rule reliable_purge_fold_ok)

lemma reliable_send_ok:
  assumes wf: "rel_wf cap rel" and "reliable_send now rel = (Some (i, opc), rel')"
  shows "i < rel_size rel" "e_active (rel_array rel ! i)" "e_next_try (rel_array rel ! i) \<le> now"
    "rel_wf cap rel'" "rel_same rel' rel" "active_ids (rel_entries rel') = active_ids (rel_entries rel)"
    "outstanding (rel_entries rel') = outstanding (rel_entries rel)"
    "e_buf (rel_array rel' ! i) = e_buf (rel_array rel ! i)"
proof -
  note D = rel_wfD [OF wf]
  obtain best where best: "reliable_best now 0 None (rel_entries rel) = Some (i, best)"
    "rel' = rel_set_entry rel i
             (best\<lparr>e_next_try := reliable_unique_retry (rel_entries rel) (now + e_timeout best),
                   e_timeout := e_timeout best * 2\<rparr>)"
    using assms(2) by (auto simp: reliable_send_def split: option.splits)
  then have i: "i < rel_size rel" "best = rel_entries rel ! i" "e_active best" "e_next_try best \<le> now"
    using reliable_best_Some [OF best(1)] D(4) by auto
  then have arr: "best = rel_array rel ! i" by (simp add: rel_entries_nth)
  with i show "i < rel_size rel" "e_active (rel_array rel ! i)" "e_next_try (rel_array rel ! i) \<le> now" by simp_all
  show "rel_same rel' rel" "e_buf (rel_array rel' ! i) = e_buf (rel_array rel ! i)"
    using best(2) arr i(1) D(2,3) by simp_all
  show act: "active_ids (rel_entries rel') = active_ids (rel_entries rel)"
    using best(2) i D(4) by (simp add: rel_entries_set active_ids_keep)
  show "outstanding (rel_entries rel') = outstanding (rel_entries rel)"
    using best(2) i D(4) by (simp add: rel_entries_set outstanding_keep)
  show "rel_wf cap rel'"
    unfolding best(2)
    by (rule rel_wf_set [OF wf i(1)])
       (use i arr D(4,7) rel_wf_buf [OF wf rel_entry_mem [OF wf i(1)]] in \<open>simp_all add: active_ids_keep\<close>)
qed

lemma active_ids_map_keep:
  "(\<And>e. e_active (f e) = e_active e) \<Longrightarrow> (\<And>e. e_packet_id (f e) = e_packet_id e) \<Longrightarrow>
   active_ids (map f es) = active_ids es"
  by (induction es) auto

lemma outstanding_map_keep:
  "(\<And>e. e_active (f e) = e_active e) \<Longrightarrow> (\<And>e. e_packet_id (f e) = e_packet_id e) \<Longrightarrow>
   (\<And>e. e_buf (f e) = e_buf e) \<Longrightarrow> outstanding (map f es) = outstanding es"
  by (induction es) auto

lemma reliable_schedule_now_ok:
  assumes wf: "rel_wf cap rel"
  shows "rel_wf cap (reliable_schedule_now now rel)" "rel_same (reliable_schedule_now now rel) rel"
    "outstanding (rel_entries (reliable_schedule_now now rel)) = outstanding (rel_entries rel)"
    "\<not> reliable_empty rel \<Longrightarrow> reliable_can_send now (reliable_schedule_now now rel)"
proof -
  let ?f = "\<lambda>e. if e_active e then e\<lparr>e_next_try := now, e_timeout := rel_initial_timeout rel\<rparr> else e"
  note D = rel_wfD [OF wf]
  have es: "rel_entries (reliable_schedule_now now rel) = map ?f (rel_entries rel)"
    using D(4) by (simp add: reliable_schedule_now_def rel_entries_def)
  show "rel_same (reliable_schedule_now now rel) rel"
    by (simp add: reliable_schedule_now_def rel_same_def)
  show "outstanding (rel_entries (reliable_schedule_now now rel)) = outstanding (rel_entries rel)"
    unfolding es by (intro outstanding_map_keep) auto
  have "active_ids (map ?f (rel_entries rel)) = active_ids (rel_entries rel)"
    by (intro active_ids_map_keep) auto
  moreover have "length (rel_array (reliable_schedule_now now rel)) = 8"
    using D(2,3,4) by (simp add: reliable_schedule_now_def)
  ultimately show "rel_wf cap (reliable_schedule_now now rel)"
    using wf es by (auto simp: rel_wf_def reliable_schedule_now_def RELIABLE_CAPACITY_def)
  assume "\<not> reliable_empty rel"
  then obtain e where e: "e \<in> set (rel_entries rel)" "e_active e"
    by (auto simp: reliable_empty_def list_ex_iff)
  then have "?f e \<in> set (rel_entries (reliable_schedule_now now rel))" by (simp add: es)
  with e(2) have "filter (\<lambda>e. e_active e \<and> now \<ge> e_next_try e) (rel_entries (reliable_schedule_now now rel)) \<noteq> []"
    unfolding filter_empty_conv by force
  then show "reliable_can_send now (reliable_schedule_now now rel)"
    by (simp add: reliable_can_send_def) (simp add: reliable_schedule_now_def)
qed

lemma reliable_min_id_ok:
  assumes "\<forall>x \<in> set (active_ids es) \<union> set_option m. unat x < 2 ^ 31"
  shows "(reliable_min_id m es = None \<longleftrightarrow> m = None \<and> active_ids es = [])
    \<and> (\<forall>y. reliable_min_id m es = Some y \<longrightarrow>
         (\<forall>x \<in> set (active_ids es) \<union> set_option m. unat y \<le> unat x))"
  using assms
proof (induction es arbitrary: m)
  case Nil
  then show ?case by (cases m) auto
next
  case (Cons e es)
  show ?case
  proof (cases "e_active e")
    case False
    with Cons show ?thesis by simp
  next
    case True
    let ?m = "case m of None \<Rightarrow> Some (e_packet_id e)
       | Some min_id \<Rightarrow> if reliable_pid_min (e_packet_id e) min_id then Some (e_packet_id e) else m"
    have eq: "reliable_min_id m (e # es) = reliable_min_id ?m es" using True by simp
    have m: "?m \<noteq> None" "\<forall>x \<in> set_option ?m. x = e_packet_id e \<or> x \<in> set_option m"
      "\<forall>x \<in> insert (e_packet_id e) (set_option m). unat (the ?m) \<le> unat x"
      using Cons.prems True by (auto simp: pid_min_small split: option.splits)
    then have "\<forall>x \<in> set (active_ids es) \<union> set_option ?m. unat x < 2 ^ 31"
      using Cons.prems True by auto
    note IH = Cons.IH [OF this]
    have "unat y \<le> unat x" if y: "reliable_min_id ?m es = Some y" and x: "x \<in> insert (e_packet_id e) (set_option m)" for x y
    proof -
      have "unat y \<le> unat (the ?m)" using IH y m(1) by auto
      also have "\<dots> \<le> unat x" using m(3) x by blast
      finally show ?thesis .
    qed
    with IH m(1) True show ?thesis unfolding eq by auto
  qed
qed

lemma reliable_min_id_mem: "reliable_min_id m es = Some y \<Longrightarrow> y \<in> set (active_ids es) \<union> set_option m"
  by (induction es arbitrary: m) (fastforce split: option.splits if_splits)+

lemma reliable_get_buf_output_sequenced_ok:
  assumes wf: "rel_wf cap rel" and small: "unat (rel_packet_id rel) < 2 ^ 31"
    and old: "\<forall>x \<in> set (active_ids (rel_entries rel)). unat x < unat (rel_packet_id rel)"
  shows "reliable_get_buf_output_sequenced rel = Inr (None, rel)
    \<or> (\<exists>i b. reliable_get_buf_output_sequenced rel = Inr (Some i, rel_set_entry rel i ((rel_array rel ! i)\<lparr>e_buf := b\<rparr>))
         \<and> i < rel_size rel \<and> \<not> e_active (rel_array rel ! i) \<and> buf_ok b \<and> buf_contents b = []
         \<and> b_capacity b = cap \<and> b_offset b = rel_offset rel \<and> b_len b = 0
         \<and> (\<forall>x \<in> set (active_ids (rel_entries rel)). unat (rel_packet_id rel) < unat x + rel_size rel))"
proof -
  let ?es = "rel_entries rel" and ?n = "rel_packet_id rel"
  let ?m = "reliable_min_id None ?es"
  have "\<forall>x \<in> set (active_ids ?es). unat x < 2 ^ 31" using small old by force
  then have m: "?m = None \<longleftrightarrow> active_ids ?es = []" "\<And>y. ?m = Some y \<Longrightarrow> \<forall>x \<in> set (active_ids ?es). unat y \<le> unat x"
    using reliable_min_id_ok [of ?es None] by auto
  have mem: "y \<in> set (active_ids ?es)" if "?m = Some y" for y
    using that reliable_min_id_mem [of None ?es y] by simp
  show ?thesis
  proof (cases "case ?m of None \<Rightarrow> True | Some m \<Rightarrow> reliable_pid_in_range1 ?n m (of_nat (rel_size rel))")
    case False
    then show ?thesis by (simp add: reliable_get_buf_output_sequenced_def Let_def)
  next
    case True
    then have eq: "reliable_get_buf_output_sequenced rel = reliable_get_buf rel"
      by (simp add: reliable_get_buf_output_sequenced_def Let_def)
    have "unat ?n < unat x + rel_size rel" if x: "x \<in> set (active_ids ?es)" for x
    proof -
      obtain y where y: "?m = Some y" using x m(1) by (cases ?m) auto
      have "unat ?n < unat y + rel_size rel"
        using True y in_range1_small [OF small, of y "rel_size rel"] mem [OF y] old rel_wfD(2) [OF wf] by force
      with m(2) [OF y] x show ?thesis by force
    qed
    with eq reliable_get_buf_ok [OF wf] reliable_get_buf_full [of rel] show ?thesis
      by (cases "reliable_can_get rel") auto
  qed
qed

text \<open>C13. Backoff: the search for a retry time always ends, with the first second from
  \<open>retry\<close> on at which no other packet is due, so retransmissions never coincide.\<close>

theorem reliable_unique_retry_first:
  "let r = reliable_unique_retry es retry;
       taken = e_next_try ` {e \<in> set es. e_active e}
   in retry \<le> r \<and> r \<notin> taken \<and> {retry..<r} \<subseteq> taken"
  unfolding Let_def using reliable_unique_retry_ok [of retry es] by (force simp: image_iff)

end
