(* ===== verification/Control_Channel.thy ===== *)
theory Control_Channel
  imports Reliable
begin

text \<open>
  The control channel: how ssl.c drives the reliability layer, and two peers that exchange
  control packets over a network that may lose, repeat, delay and reorder datagrams.

  \<open>tls_receive_control\<close> and \<open>tls_deliver_control\<close> are the steps of \<open>tls_pre_decrypt\<close> and
  \<open>tls_process\<close>.  The relation \<open>net_step\<close> interleaves them with the sending steps, one
  direction of traffic between one sender and one receiver: the network is the set of all
  datagrams ever sent, so any of them may arrive at any time, any number of times.  Packets are
  authentic: what \<open>read_control_auth\<close> lets through was sent by the peer.
\<close>

section \<open>The use of the reliability layer in ssl.c\<close>

definition tls_receive_control :: "reliable \<Rightarrow> reliable_ack \<Rightarrow> buffer \<Rightarrow> int \<Rightarrow> (reliable \<times> reliable_ack) result" where
  \<comment> \<open>the end of \<open>tls_pre_decrypt\<close>, for a packet whose opcode is not \<open>P_ACK_V1\<close> and whose
     authentication, session ids and acknowledgements have been read\<close>
  "tls_receive_control rel ack b op =
     (if reliable_can_get rel then
        (case reliable_ack_read_packet_id b of
           (None, b) \<Rightarrow> Inr (rel, ack)
         | (Some i, b) \<Rightarrow>
             if reliable_wont_break_sequentiality rel i then
               bind_result
                 (if reliable_not_replay rel i then
                    bind_result (reliable_get_buf rel) (\<lambda>(inp, rel).
                      case inp of
                        None \<Rightarrow> Inl AssertFailed
                      | Some k \<Rightarrow>
                          (case buf_copy (e_buf (rel_array rel ! k)) b of (ok, inb) \<Rightarrow>
                             assert_that ok
                               (reliable_mark_active_incoming
                                  (rel_set_entry rel k ((rel_array rel ! k)\<lparr>e_buf := inb\<rparr>)) k i op)))
                  else Inr rel)
                 (\<lambda>rel. Inr (rel, snd (reliable_ack_acknowledge_packet_id ack i)))
             else Inr (rel, ack))
      else Inr (rel, ack))"

definition tls_deliver_control :: "(byte list \<Rightarrow> int) \<Rightarrow> reliable \<Rightarrow> (byte list option \<times> reliable) result" where
  \<comment> \<open>the step ``write incoming ciphertext to TLS object'' of \<open>tls_process\<close>; \<open>write_ciphertext\<close> is
     the status that \<open>key_state_write_ciphertext\<close> returns, and the bytes it took are returned\<close>
  "tls_deliver_control write_ciphertext rel =
     (case reliable_get_buf_sequenced rel of
        None \<Rightarrow> Inr (None, rel)
      | Some i \<Rightarrow>
          (let b = e_buf (rel_array rel ! i);
               status = (if b_len b \<noteq> 0 then write_ciphertext (buf_contents b) else 1)
           in if status = 1
              then bind_result (reliable_mark_deleted rel i True) (\<lambda>rel. Inr (Some (buf_contents b), rel))
              else Inr (None, rel)))"



section \<open>One direction of a session\<close>

record net =
  n_snd :: reliable                \<comment> \<open>\<open>send_reliable\<close> of the sender\<close>
  n_rcv :: reliable                \<comment> \<open>\<open>rec_reliable\<close> of the receiver\<close>
  n_ack :: reliable_ack            \<comment> \<open>\<open>rec_ack\<close> of the receiver\<close>
  n_sent :: "byte list list"       \<comment> \<open>what the TLS object of the sender produced\<close>
  n_out :: "byte list list"        \<comment> \<open>what the TLS object of the receiver was given\<close>
  n_wire :: "byte list set"        \<comment> \<open>control packets: packet id and payload\<close>
  n_ackwire :: "byte list set"     \<comment> \<open>acknowledgement records\<close>

inductive net_init :: "net \<Rightarrow> bool" where
  net_init:
    "0 \<le> off \<Longrightarrow> off \<le> cap \<Longrightarrow> cap < BUF_SIZE_MAX \<Longrightarrow>
     reliable_init junk cap off ns hold = Inr sr \<Longrightarrow>
     reliable_init junk' cap off nr False = Inr rr \<Longrightarrow>
     length a = RELIABLE_ACK_SIZE \<Longrightarrow>
     net_init \<lparr>n_snd = sr, n_rcv = rr, n_ack = \<lparr>a_len = 0, a_packet_id = a\<rparr>, n_sent = [], n_out = [],
               n_wire = {}, n_ackwire = {}\<rparr>"

inductive net_step :: "session_id \<Rightarrow> net \<Rightarrow> net \<Rightarrow> bool" for sid where
  submit: \<comment> \<open>``outgoing ciphertext to reliable buffer''\<close>
    "reliable_get_buf_output_sequenced (n_snd s) = Inr (Some i, rel1) \<Longrightarrow>
     buf_write (e_buf (rel_array rel1 ! i)) bs = (True, b) \<Longrightarrow>
     reliable_mark_active_outgoing (rel_set_entry rel1 i ((rel_array rel1 ! i)\<lparr>e_buf := b\<rparr>)) i op = Inr rel2 \<Longrightarrow>
     net_step sid s (s\<lparr>n_snd := rel2, n_sent := n_sent s @ [bs]\<rparr>)"
| transmit: \<comment> \<open>``reliable buffer to outgoing TCP/UDP''\<close>
    "reliable_can_send now (n_snd s) \<Longrightarrow>
     reliable_send now (n_snd s) = (Some (i, op), rel1) \<Longrightarrow>
     net_step sid s (s\<lparr>n_snd := rel1, n_wire := insert (buf_contents (e_buf (rel_array rel1 ! i))) (n_wire s)\<rparr>)"
| receive: \<comment> \<open>a datagram arrives\<close>
    "w \<in> n_wire s \<Longrightarrow> buf_ok b \<Longrightarrow> buf_contents b = w \<Longrightarrow>
     tls_receive_control (n_rcv s) (n_ack s) b op = Inr (rel1, ack1) \<Longrightarrow>
     net_step sid s (s\<lparr>n_rcv := rel1, n_ack := ack1\<rparr>)"
| deliver: \<comment> \<open>``write incoming ciphertext to TLS object''\<close>
    "tls_deliver_control write_ciphertext (n_rcv s) = Inr (Some bs, rel1) \<Longrightarrow>
     net_step sid s (s\<lparr>n_rcv := rel1, n_out := n_out s @ [bs]\<rparr>)"
| send_ack: \<comment> \<open>``dedicated ACK'', or the record in front of a control packet\<close>
    "buf_ok b \<Longrightarrow> buf_contents b = [] \<Longrightarrow> 0 \<le> mx \<Longrightarrow>
     reliable_ack_write (n_ack s) b sid mx prepend = Inr (True, ack1, b1) \<Longrightarrow>
     net_step sid s (s\<lparr>n_ack := ack1, n_ackwire := insert (buf_contents b1) (n_ackwire s)\<rparr>)"
| receive_ack: \<comment> \<open>the acknowledgements of a datagram\<close>
    "w \<in> n_ackwire s \<Longrightarrow> buf_ok b \<Longrightarrow> buf_contents b = w @ rest \<Longrightarrow> length a = RELIABLE_ACK_SIZE \<Longrightarrow>
     reliable_ack_read \<lparr>a_len = 0, a_packet_id = a\<rparr> b sid = (ok, ack, b1) \<Longrightarrow> ok \<Longrightarrow>
     net_step sid s (s\<lparr>n_snd := reliable_send_purge (n_snd s) ack\<rparr>)"
| reschedule: \<comment> \<open>\<open>reliable_schedule_now\<close>\<close>
    "net_step sid s (s\<lparr>n_snd := reliable_schedule_now now (n_snd s)\<rparr>)"

inductive net_reach :: "session_id \<Rightarrow> net \<Rightarrow> bool" for sid where
  init: "net_init s \<Longrightarrow> net_reach sid s"
| step: "net_reach sid s \<Longrightarrow> net_step sid s s' \<Longrightarrow> net_reach sid s'"

section \<open>Single steps\<close>

lemma unat_of_nat_small: "k < 2 ^ 31 \<Longrightarrow> unat (of_nat k :: u32) = k"
  by (rule unat_of_nat_u32) simp

lemma of_nat_inj_small: "j < 2 ^ 31 \<Longrightarrow> k < 2 ^ 31 \<Longrightarrow> (of_nat j :: u32) = of_nat k \<longleftrightarrow> j = k"
  using unat_of_nat_small by metis

lemma submit_ok:
  assumes wf: "rel_wf cap rel" and n: "rel_packet_id rel = of_nat n" "n + 1 < 2 ^ 31"
    and old: "\<forall>x \<in> set (active_ids (rel_entries rel)). unat x < n"
    and get: "reliable_get_buf_output_sequenced rel = Inr (Some i, rel1)"
    and wr: "buf_write (e_buf (rel_array rel1 ! i)) bs = (True, b)"
    and mark: "reliable_mark_active_outgoing (rel_set_entry rel1 i ((rel_array rel1 ! i)\<lparr>e_buf := b\<rparr>)) i op = Inr rel2"
  shows "rel_wf cap rel2" "rel_packet_id rel2 = of_nat (n + 1)" "rel_size rel2 = rel_size rel"
    "outstanding (rel_entries rel2) = insert (of_nat n, bytes_of_u32 (of_nat n) @ bs) (outstanding (rel_entries rel))"
    "\<forall>x \<in> set (active_ids (rel_entries rel)). n < unat x + rel_size rel"
    "rel_offset rel2 = rel_offset rel" "int (length bs) \<le> cap - rel_offset rel"
proof -
  have un: "unat (rel_packet_id rel) = n" using n by (simp add: unat_of_nat_small)
  obtain b0 where b0: "rel1 = rel_set_entry rel i ((rel_array rel ! i)\<lparr>e_buf := b0\<rparr>)" "i < rel_size rel"
      "\<not> e_active (rel_array rel ! i)" "buf_ok b0" "buf_contents b0 = []" "b_capacity b0 = cap"
      "b_offset b0 = rel_offset rel" "b_len b0 = 0"
      "\<forall>x \<in> set (active_ids (rel_entries rel)). unat (rel_packet_id rel) < unat x + rel_size rel"
    using reliable_get_buf_output_sequenced_ok [OF wf] un n old get by auto
  note D = rel_wfD [OF wf]
  let ?b = "e_buf (rel_array rel1 ! i)"
  have e1: "rel_array rel1 ! i = (rel_array rel ! i)\<lparr>e_buf := b0\<rparr>" using b0(1,2) D(2,3) by simp
  have room: "length bs \<le> buf_room b0"
  proof (rule ccontr)
    assume "\<not> length bs \<le> buf_room b0"
    with buf_write_no_room [OF b0(4), of bs] wr e1 show False by simp
  qed
  obtain b' where b': "buf_write b0 bs = (True, b')" "buf_ok b'" "buf_contents b' = bs" "b_capacity b' = cap"
    using buf_write_full [OF b0(4) room] b0(5,6) by auto
  have bb: "b = b'" using wr e1 b'(1) by simp
  obtain ok b2 where b2: "buf_write_prepend b (bytes_of_u32 (of_nat n)) = (ok, b2)" by force
  let ?e = "(rel_array rel ! i)\<lparr>e_packet_id := of_nat n, e_buf := b2, e_active := True, e_opcode := op,
             e_next_try := 0, e_timeout := rel_initial_timeout rel\<rparr>"
  have ok: ok and rel2: "rel2 = rel_set_entry (rel\<lparr>rel_packet_id := of_nat n + 1\<rparr>) i ?e"
    using mark b2 b0(1,2) D(2,3) n(1)
    by (auto simp: reliable_mark_active_outgoing_def Let_def rel_set_entry_def)
  have b2': "buf_ok b2" "buf_contents b2 = bytes_of_u32 (of_nat n) @ bs" "b_capacity b2 = cap"
    using buf_write_prepend_True [OF b'(2)] b2 ok bb b'(3,4) by auto
  have fresh: "of_nat n \<notin> set (active_ids (rel_entries rel))"
    using old unat_of_nat_small [of n] n(2) by auto
  have i: "i < length (rel_entries rel)" "\<not> e_active (rel_entries rel ! i)"
    using b0(2,3) D(4) by (simp_all add: rel_entries_nth)
  show "rel_wf cap rel2"
    unfolding rel2 using wf b0(2) b2' active_ids_activate(2) [OF i, of ?e] fresh D(7)
    by (intro rel_wf_set) auto
  show "rel_packet_id rel2 = of_nat (n + 1)" "rel_size rel2 = rel_size rel" by (simp_all add: rel2)
  show "outstanding (rel_entries rel2) = insert (of_nat n, bytes_of_u32 (of_nat n) @ bs) (outstanding (rel_entries rel))"
    using outstanding_activate [OF i, of ?e] b0(2) b2'(2) by (simp add: rel2 rel_entries_set)
  show "\<forall>x \<in> set (active_ids (rel_entries rel)). n < unat x + rel_size rel" using b0(9) un by simp
  show "rel_offset rel2 = rel_offset rel" by (simp add: rel2)
  show "int (length bs) \<le> cap - rel_offset rel" using buf_room_eq [OF b0(4)] b0(6-8) room by linarith
qed


lemma tls_receive_ok:
  assumes wf: "rel_wf cap rel" and n: "rel_packet_id rel = of_nat n" "n + 8 < 2 ^ 31" and k: "k < 2 ^ 31"
    and b: "buf_ok b" "buf_contents b = bytes_of_u32 (of_nat k) @ p" and ack: "ack_ok ack"
    and fit: "int (length p) \<le> cap - rel_offset rel"
  shows "\<exists>rel1 ack1. tls_receive_control rel ack b op = Inr (rel1, ack1) \<and> rel_wf cap rel1 \<and> rel_same rel1 rel
    \<and> ack_ok ack1
    \<and> (rel1 = rel \<or> n \<le> k \<and> k < n + rel_size rel
         \<and> outstanding (rel_entries rel1) = insert (of_nat k, p) (outstanding (rel_entries rel)))
    \<and> set (ack_ids ack1) \<subseteq> set (ack_ids ack) \<union> {x. x = of_nat k \<and> (k < n \<or> x \<in> set (active_ids (rel_entries rel1)))}
    \<and> (reliable_can_get rel \<and> n \<le> k \<and> k < n + rel_size rel \<longrightarrow> of_nat k \<in> set (active_ids (rel_entries rel1)))"
proof (cases "reliable_can_get rel")
  case False
  then show ?thesis using wf ack by (auto simp: tls_receive_control_def)
next
  case can: True
  note D = rel_wfD [OF wf]
  obtain b1 where b1: "buf_read b 4 = (Some (bytes_of_u32 (of_nat k)), b1)" "buf_ok b1" "buf_contents b1 = p"
    using buf.read_prefix [OF b] by auto
  have rd: "reliable_ack_read_packet_id b = (Some (of_nat k), b1)"
    using b1(1) by (simp add: reliable_ack_read_packet_id_def)
  have un: "unat (rel_packet_id rel) = n" "unat (of_nat k :: u32) = k"
    using n k by (simp_all add: unat_of_nat_small)
  have seq: "reliable_wont_break_sequentiality rel (of_nat k) \<longleftrightarrow> k < n + rel_size rel"
    using in_range2_small [of "rel_packet_id rel" "rel_size rel" "of_nat k"] un n(2) D(2)
    by (simp add: reliable_wont_break_sequentiality_def)
  have replay: "reliable_not_replay rel (of_nat k) \<longleftrightarrow> n \<le> k \<and> of_nat k \<notin> set (active_ids (rel_entries rel))"
    using pid_min_small [of "of_nat k" "rel_packet_id rel"] un n(2) k
    by (auto simp: reliable_not_replay_def list_ex_iff in_active_ids)
  let ?ack1 = "snd (reliable_ack_acknowledge_packet_id ack (of_nat k))"
  have ack1: "ack_ok ?ack1" "set (ack_ids ?ack1) \<subseteq> insert (of_nat k) (set (ack_ids ack))"
    using reliable_ack_acknowledge_ok [OF ack, of "of_nat k"] by auto
  consider "\<not> k < n + rel_size rel" | "k < n + rel_size rel" "k < n \<or> of_nat k \<in> set (active_ids (rel_entries rel))"
    | "k < n + rel_size rel" "n \<le> k" "of_nat k \<notin> set (active_ids (rel_entries rel))" by linarith
  then show ?thesis
  proof cases
    case 1
    with can rd seq wf ack show ?thesis by (simp add: tls_receive_control_def)
  next
    case 2
    with can rd seq replay have "tls_receive_control rel ack b op = Inr (rel, ?ack1)"
      by (auto simp: tls_receive_control_def)
    with 2 wf ack1 show ?thesis by auto
  next
    case 3
    obtain i b0 where i: "i < rel_size rel" "\<not> e_active (rel_array rel ! i)" "buf_ok b0" "buf_contents b0 = []"
        "b_capacity b0 = cap" "b_offset b0 = rel_offset rel" "b_len b0 = 0"
        "reliable_get_buf rel = Inr (Some i, rel_set_entry rel i ((rel_array rel ! i)\<lparr>e_buf := b0\<rparr>))"
      using reliable_get_buf_ok [OF wf can] by blast
    have "length p \<le> buf_room b0" using buf_room_eq [OF i(3)] i(5-7) fit by linarith
    then obtain b2 where b2: "buf_copy b0 b1 = (True, b2)" "buf_ok b2" "buf_contents b2 = p" "b_capacity b2 = cap"
      using buf_write_full [OF i(3), of p] i(4,5) b1(3) by (auto simp: buf_copy_def)
    let ?e = "(rel_array rel ! i)\<lparr>e_buf := b2, e_active := True, e_packet_id := of_nat k, e_opcode := op,
                e_next_try := 0, e_timeout := 0\<rparr>"
    let ?rel = "rel_set_entry rel i ?e"
    have ie: "i < length (rel_entries rel)" "\<not> e_active (rel_entries rel ! i)"
      using i(1,2) D(4) by (simp_all add: rel_entries_nth)
    have min: "\<not> reliable_pid_min (of_nat k) (rel_packet_id rel)"
      using pid_min_small [of "of_nat k" "rel_packet_id rel"] un n(2) k 3(2) by simp
    have "tls_receive_control rel ack b op = Inr (?rel, ?ack1)"
      using can rd seq replay 3 i(1,8) b2(1) min D(2,3)
      by (simp add: tls_receive_control_def reliable_mark_active_incoming_def rel_set_entry_def)
    moreover have "rel_wf cap ?rel"
      using wf i(1) b2 active_ids_activate(2) [OF ie, of ?e] 3(3) D(7) by (intro rel_wf_set) auto
    moreover have "outstanding (rel_entries ?rel) = insert (of_nat k, p) (outstanding (rel_entries rel))"
      using outstanding_activate [OF ie, of ?e] i(1) b2(3) by (simp add: rel_entries_set)
    moreover have "of_nat k \<in> set (active_ids (rel_entries ?rel))"
      using active_ids_activate(1) [OF ie, of ?e] i(1) by (simp add: rel_entries_set)
    ultimately show ?thesis using 3 ack1 by auto
  qed
qed

lemma tls_deliver_ok:
  assumes wf: "rel_wf cap rel" and del: "tls_deliver_control f rel = Inr (Some bs, rel1)"
  shows "(rel_packet_id rel, bs) \<in> outstanding (rel_entries rel)" "rel_wf cap rel1"
    "rel_packet_id rel1 = rel_packet_id rel + 1" "rel_size rel1 = rel_size rel" "rel_offset rel1 = rel_offset rel"
    "outstanding (rel_entries rel1) = {x \<in> outstanding (rel_entries rel). fst x \<noteq> rel_packet_id rel}"
proof -
  note D = rel_wfD [OF wf]
  obtain i where i: "reliable_get_buf_sequenced rel = Some i" "bs = buf_contents (e_buf (rel_array rel ! i))"
      "reliable_mark_deleted rel i True = Inr rel1"
    using del by (auto simp: tls_deliver_control_def Let_def bind_result_Inr split: option.splits if_splits)
  then have ie: "i < length (rel_entries rel)" "e_active (rel_entries rel ! i)"
      "e_packet_id (rel_entries rel ! i) = rel_packet_id rel" "i < rel_size rel"
    using D(4) by (auto simp: reliable_get_buf_sequenced_def find_index_Some)
  then have arr: "rel_array rel ! i = rel_entries rel ! i" by (simp add: rel_entries_nth)
  let ?e = "(rel_entries rel ! i)\<lparr>e_active := False\<rparr>"
  have rel1: "rel1 = (rel_set_entry rel i ?e)\<lparr>rel_packet_id := rel_packet_id rel + 1\<rparr>"
    using i(3) ie arr by (simp add: reliable_mark_deleted_def Let_def)
  show "(rel_packet_id rel, bs) \<in> outstanding (rel_entries rel)"
    using outstandingI [of "rel_entries rel ! i" "rel_entries rel"] ie i(2) arr by simp
  show "rel_wf cap rel1"
    unfolding rel1 using wf ie active_ids_deactivate(2) [OF ie(1,2), of ?e] D(7) rel_wf_buf [OF wf nth_mem [OF ie(1)]]
    by (simp, intro rel_wf_set) auto
  show "rel_packet_id rel1 = rel_packet_id rel + 1" "rel_size rel1 = rel_size rel" "rel_offset rel1 = rel_offset rel"
    by (simp_all add: rel1)
  show "outstanding (rel_entries rel1) = {x \<in> outstanding (rel_entries rel). fst x \<noteq> rel_packet_id rel}"
    using outstanding_deactivate [OF ie(1,2), of ?e] D(7) ie(3,4) by (simp add: rel1 rel_entries_set)
qed


section \<open>The invariant of a session\<close>

definition got :: "net \<Rightarrow> packet_id_type set" where
  \<comment> \<open>the packets the receiver has, delivered or buffered\<close>
  "got s = {x. unat x < length (n_out s)} \<union> set (active_ids (rel_entries (n_rcv s)))"

definition net_inv :: "session_id \<Rightarrow> int \<Rightarrow> int \<Rightarrow> net \<Rightarrow> bool" where
  "net_inv sid cap off s \<longleftrightarrow>
     rel_wf cap (n_snd s) \<and> rel_offset (n_snd s) = off \<and> rel_packet_id (n_snd s) = of_nat (length (n_sent s))
     \<and> rel_wf cap (n_rcv s) \<and> rel_offset (n_rcv s) = off \<and> rel_packet_id (n_rcv s) = of_nat (length (n_out s))
     \<and> ack_ok (n_ack s)
     \<and> length (n_out s) \<le> length (n_sent s) \<and> n_out s = take (length (n_out s)) (n_sent s)
     \<and> (\<forall>bs \<in> set (n_sent s). int (length bs) \<le> cap - off)
     \<and> (\<forall>(i, bs) \<in> outstanding (rel_entries (n_snd s)). unat i < length (n_sent s)
          \<and> bs = bytes_of_u32 i @ n_sent s ! unat i \<and> length (n_sent s) \<le> unat i + rel_size (n_snd s))
     \<and> (\<forall>(i, bs) \<in> outstanding (rel_entries (n_rcv s)). unat i < length (n_sent s) \<and> bs = n_sent s ! unat i
          \<and> length (n_out s) \<le> unat i \<and> unat i < length (n_out s) + rel_size (n_rcv s))
     \<and> (\<forall>w \<in> n_wire s. \<exists>k < length (n_sent s). w = bytes_of_u32 (of_nat k) @ n_sent s ! k)
     \<and> set (ack_ids (n_ack s)) \<subseteq> got s
     \<and> (\<forall>w \<in> n_ackwire s. \<exists>ids. w = ack_bytes ids sid \<and> length ids \<le> 8 \<and> set ids \<subseteq> got s)
     \<and> (\<forall>k < length (n_sent s). of_nat k \<in> set (active_ids (rel_entries (n_snd s))) \<union> got s)"

lemma net_invI:
  assumes "rel_wf cap (n_snd s)" "rel_offset (n_snd s) = off" "rel_packet_id (n_snd s) = of_nat (length (n_sent s))"
    "rel_wf cap (n_rcv s)" "rel_offset (n_rcv s) = off" "rel_packet_id (n_rcv s) = of_nat (length (n_out s))"
    "ack_ok (n_ack s)" "length (n_out s) \<le> length (n_sent s)" "n_out s = take (length (n_out s)) (n_sent s)"
    "\<And>bs. bs \<in> set (n_sent s) \<Longrightarrow> int (length bs) \<le> cap - off"
    "\<And>i bs. (i, bs) \<in> outstanding (rel_entries (n_snd s)) \<Longrightarrow> unat i < length (n_sent s)
          \<and> bs = bytes_of_u32 i @ n_sent s ! unat i \<and> length (n_sent s) \<le> unat i + rel_size (n_snd s)"
    "\<And>i bs. (i, bs) \<in> outstanding (rel_entries (n_rcv s)) \<Longrightarrow> unat i < length (n_sent s) \<and> bs = n_sent s ! unat i
          \<and> length (n_out s) \<le> unat i \<and> unat i < length (n_out s) + rel_size (n_rcv s)"
    "\<And>w. w \<in> n_wire s \<Longrightarrow> \<exists>k < length (n_sent s). w = bytes_of_u32 (of_nat k) @ n_sent s ! k"
    "set (ack_ids (n_ack s)) \<subseteq> got s"
    "\<And>w. w \<in> n_ackwire s \<Longrightarrow> \<exists>ids. w = ack_bytes ids sid \<and> length ids \<le> 8 \<and> set ids \<subseteq> got s"
    "\<And>k. k < length (n_sent s) \<Longrightarrow> of_nat k \<in> set (active_ids (rel_entries (n_snd s))) \<union> got s"
  shows "net_inv sid cap off s"
  using assms unfolding net_inv_def by auto

lemma net_invD:
  assumes "net_inv sid cap off s"
  shows "rel_wf cap (n_snd s)" "rel_offset (n_snd s) = off" "rel_packet_id (n_snd s) = of_nat (length (n_sent s))"
    "rel_wf cap (n_rcv s)" "rel_offset (n_rcv s) = off" "rel_packet_id (n_rcv s) = of_nat (length (n_out s))"
    "ack_ok (n_ack s)" "length (n_out s) \<le> length (n_sent s)" "n_out s = take (length (n_out s)) (n_sent s)"
    "bs \<in> set (n_sent s) \<Longrightarrow> int (length bs) \<le> cap - off"
    "(i, bs) \<in> outstanding (rel_entries (n_snd s)) \<Longrightarrow> unat i < length (n_sent s)
          \<and> bs = bytes_of_u32 i @ n_sent s ! unat i \<and> length (n_sent s) \<le> unat i + rel_size (n_snd s)"
    "(i, bs) \<in> outstanding (rel_entries (n_rcv s)) \<Longrightarrow> unat i < length (n_sent s) \<and> bs = n_sent s ! unat i
          \<and> length (n_out s) \<le> unat i \<and> unat i < length (n_out s) + rel_size (n_rcv s)"
    "w \<in> n_wire s \<Longrightarrow> \<exists>k < length (n_sent s). w = bytes_of_u32 (of_nat k) @ n_sent s ! k"
    "set (ack_ids (n_ack s)) \<subseteq> got s"
    "w \<in> n_ackwire s \<Longrightarrow> \<exists>ids. w = ack_bytes ids sid \<and> length ids \<le> 8 \<and> set ids \<subseteq> got s"
    "k < length (n_sent s) \<Longrightarrow> of_nat k \<in> set (active_ids (rel_entries (n_snd s))) \<union> got s"
  using assms unfolding net_inv_def by auto

lemma active_ids_of_outstanding: "outstanding es = outstanding fs \<Longrightarrow> set (active_ids es) = set (active_ids fs)"
  using fst_outstanding by metis

lemma net_inv_init:
  assumes "net_init s"
  shows "\<exists>cap off. net_inv sid cap off s"
  using assms
proof cases
  case (net_init off cap junk ns hold sr junk' nr rr a)
  have "0 < ns \<and> ns \<le> 8" "0 < nr \<and> nr \<le> 8"
    using net_init(5,6) by (auto simp: reliable_init_def assert_that_def RELIABLE_CAPACITY_def split: if_splits)
  with net_init reliable_init_ok [of off cap ns junk hold] reliable_init_ok [of off cap nr junk' False]
  have r: "rel_wf cap sr" "rel_packet_id sr = 0" "active_ids (rel_entries sr) = []" "rel_offset sr = off"
      "rel_wf cap rr" "rel_packet_id rr = 0" "active_ids (rel_entries rr) = []" "rel_offset rr = off"
    by auto
  then have "outstanding (rel_entries sr) = {}" "outstanding (rel_entries rr) = {}"
    using fst_outstanding [of "rel_entries sr"] fst_outstanding [of "rel_entries rr"] by auto
  with r net_init(1,7) have "net_inv sid cap off s"
    by (intro net_invI) (auto simp: ack_ok_def ack_ids_def)
  then show ?thesis by blast
qed

lemma net_inv_submit:
  assumes inv: "net_inv sid cap off s" and n: "length (n_sent s) + 9 < 2 ^ 31"
    and st: "reliable_get_buf_output_sequenced (n_snd s) = Inr (Some i, rel1)"
     "buf_write (e_buf (rel_array rel1 ! i)) bs = (True, b)"
     "reliable_mark_active_outgoing (rel_set_entry rel1 i ((rel_array rel1 ! i)\<lparr>e_buf := b\<rparr>)) i op = Inr rel2"
  shows "net_inv sid cap off (s\<lparr>n_snd := rel2, n_sent := n_sent s @ [bs]\<rparr>)"
proof -
  note I = net_invD [OF inv]
  let ?n = "length (n_sent s)" and ?s = "s\<lparr>n_snd := rel2, n_sent := n_sent s @ [bs]\<rparr>"
  have lt: "?n + 1 < 2 ^ 31" and un: "unat (of_nat ?n :: u32) = ?n" using n by (simp_all add: unat_of_nat_small)
  have old: "\<forall>x \<in> set (active_ids (rel_entries (n_snd s))). unat x < ?n"
    using I(11) unfolding fst_outstanding [symmetric] by auto
  note S = submit_ok [OF I(1,3) lt old st]
  have act: "set (active_ids (rel_entries rel2)) = insert (of_nat ?n) (set (active_ids (rel_entries (n_snd s))))"
    using S(4) unfolding fst_outstanding [symmetric] by simp
  have got: "got ?s = got s" by (simp add: got_def)
  show ?thesis
  proof (rule net_invI)
    fix j cs assume "(j, cs) \<in> outstanding (rel_entries (n_snd ?s))"
    then consider "j = of_nat ?n" "cs = bytes_of_u32 (of_nat ?n) @ bs" | "(j, cs) \<in> outstanding (rel_entries (n_snd s))"
      using S(4) by auto
    then show "unat j < length (n_sent ?s) \<and> cs = bytes_of_u32 j @ n_sent ?s ! unat j
        \<and> length (n_sent ?s) \<le> unat j + rel_size (n_snd ?s)"
    proof cases
      case 1
      then show ?thesis using un S(3) rel_wfD(1) [OF I(1)] by simp
    next
      case 2
      then have "j \<in> set (active_ids (rel_entries (n_snd s)))" unfolding fst_outstanding [symmetric] by force
      with I(11) [OF 2] S(3,5) show ?thesis by (force simp: nth_append)
    qed
  next
    fix k assume "k < length (n_sent ?s)"
    then have "k < ?n \<or> k = ?n" by auto
    then show "of_nat k \<in> set (active_ids (rel_entries (n_snd ?s))) \<union> got ?s"
      using I(16) [of k] act got by auto
  next
    fix w assume "w \<in> n_wire ?s"
    then show "\<exists>k < length (n_sent ?s). w = bytes_of_u32 (of_nat k) @ n_sent ?s ! k"
      using I(13) [of w] by (auto simp: nth_append intro: less_SucI)
  next
    fix j cs assume "(j, cs) \<in> outstanding (rel_entries (n_rcv ?s))"
    then show "unat j < length (n_sent ?s) \<and> cs = n_sent ?s ! unat j
        \<and> length (n_out ?s) \<le> unat j \<and> unat j < length (n_out ?s) + rel_size (n_rcv ?s)"
      using I(12) [of j cs] by (auto simp: nth_append)
  next
    fix cs assume "cs \<in> set (n_sent ?s)"
    then show "int (length cs) \<le> cap - off" using I(10) [of cs] I(2) S(7) by auto
  next
    fix w assume "w \<in> n_ackwire ?s"
    then show "\<exists>ids. w = ack_bytes ids sid \<and> length ids \<le> 8 \<and> set ids \<subseteq> got ?s"
      using I(15) [of w] got by simp
  qed (use I(1-9,14) S(1-3,6) got in \<open>simp_all add: add.commute\<close>)
qed

lemma net_inv_sender:
  \<comment> \<open>the sender drops packets the receiver has, and puts held packets on the wire\<close>
  assumes inv: "net_inv sid cap off s" and r: "rel_wf cap rel" "rel_same rel (n_snd s)"
    and o: "outstanding (rel_entries rel) = {x \<in> outstanding (rel_entries (n_snd s)). fst x \<notin> A}" "A \<subseteq> got s"
    and w: "W \<subseteq> n_wire s \<union> snd ` outstanding (rel_entries (n_snd s))"
  shows "net_inv sid cap off (s\<lparr>n_snd := rel, n_wire := W\<rparr>)"
proof -
  note I = net_invD [OF inv]
  let ?s = "s\<lparr>n_snd := rel, n_wire := W\<rparr>"
  have got: "got ?s = got s" by (simp add: got_def)
  have act: "set (active_ids (rel_entries rel)) = set (active_ids (rel_entries (n_snd s))) - A"
    unfolding fst_outstanding [symmetric] o(1) by (auto simp: image_iff)
  show ?thesis
  proof (rule net_invI)
    fix i bs assume "(i, bs) \<in> outstanding (rel_entries (n_snd ?s))"
    then show "unat i < length (n_sent ?s) \<and> bs = bytes_of_u32 i @ n_sent ?s ! unat i
        \<and> length (n_sent ?s) \<le> unat i + rel_size (n_snd ?s)"
      using I(11) [of i bs] o(1) r(2) by (auto simp: rel_same_def)
  next
    fix i bs assume "(i, bs) \<in> outstanding (rel_entries (n_rcv ?s))"
    then show "unat i < length (n_sent ?s) \<and> bs = n_sent ?s ! unat i
        \<and> length (n_out ?s) \<le> unat i \<and> unat i < length (n_out ?s) + rel_size (n_rcv ?s)"
      using I(12) [of i bs] by simp
  next
    fix bs assume "bs \<in> n_wire ?s"
    then consider "bs \<in> n_wire s" | i where "(i, bs) \<in> outstanding (rel_entries (n_snd s))" using w by auto
    then show "\<exists>k < length (n_sent ?s). bs = bytes_of_u32 (of_nat k) @ n_sent ?s ! k"
    proof cases
      case 1
      then show ?thesis using I(13) [of bs] by simp
    next
      case 2
      from I(11) [OF this] show ?thesis by (intro exI [of _ "unat i"]) simp
    qed
  next
    fix k assume "k < length (n_sent ?s)"
    then show "of_nat k \<in> set (active_ids (rel_entries (n_snd ?s))) \<union> got ?s"
      using I(16) [of k] act o(2) got by auto
  next
    fix bs assume "bs \<in> n_ackwire ?s"
    then show "\<exists>ids. bs = ack_bytes ids sid \<and> length ids \<le> 8 \<and> set ids \<subseteq> got ?s"
      using I(15) [of bs] got by simp
  next
    fix bs assume "bs \<in> set (n_sent ?s)"
    then show "int (length bs) \<le> cap - off" using I(10) [of bs] by simp
  qed (use I(1-9,14) r got in \<open>simp_all add: rel_same_def\<close>)
qed

lemma net_inv_receive:
  assumes inv: "net_inv sid cap off s" and n: "length (n_sent s) + 8 < 2 ^ 31"
    and st: "w \<in> n_wire s" "buf_ok b" "buf_contents b = w"
  shows "\<exists>rel1 ack1. tls_receive_control (n_rcv s) (n_ack s) b op = Inr (rel1, ack1)
           \<and> net_inv sid cap off (s\<lparr>n_rcv := rel1, n_ack := ack1\<rparr>)"
proof -
  note I = net_invD [OF inv]
  obtain k where k: "k < length (n_sent s)" "w = bytes_of_u32 (of_nat k) @ n_sent s ! k"
    using I(13) [OF st(1)] by blast
  let ?n = "length (n_out s)"
  have un: "unat (of_nat k :: u32) = k" using k(1) n by (simp add: unat_of_nat_small)
  obtain rel1 ack1 where R: "tls_receive_control (n_rcv s) (n_ack s) b op = Inr (rel1, ack1)" "rel_wf cap rel1"
      "rel_same rel1 (n_rcv s)" "ack_ok ack1"
      "rel1 = n_rcv s \<or> ?n \<le> k \<and> k < ?n + rel_size (n_rcv s)
         \<and> outstanding (rel_entries rel1) = insert (of_nat k, n_sent s ! k) (outstanding (rel_entries (n_rcv s)))"
      "set (ack_ids ack1) \<subseteq> set (ack_ids (n_ack s)) \<union> {x. x = of_nat k \<and> (k < ?n \<or> x \<in> set (active_ids (rel_entries rel1)))}"
    using tls_receive_ok [OF I(4,6) _ _ st(2), of k "n_sent s ! k" "n_ack s" op] st(3) k I(5,7,8) n
      I(10) [of "n_sent s ! k"] by auto
  let ?s = "s\<lparr>n_rcv := rel1, n_ack := ack1\<rparr>"
  have act: "set (active_ids (rel_entries (n_rcv s))) \<subseteq> set (active_ids (rel_entries rel1))"
    using R(5) unfolding fst_outstanding [symmetric] by auto
  then have got: "got s \<subseteq> got ?s" by (auto simp: got_def)
  have "net_inv sid cap off ?s"
  proof (rule net_invI)
    fix i bs assume "(i, bs) \<in> outstanding (rel_entries (n_rcv ?s))"
    then consider "(i, bs) \<in> outstanding (rel_entries (n_rcv s))"
      | "i = of_nat k" "bs = n_sent s ! k" "?n \<le> k" "k < ?n + rel_size (n_rcv s)" using R(5) by auto
    then show "unat i < length (n_sent ?s) \<and> bs = n_sent ?s ! unat i
        \<and> length (n_out ?s) \<le> unat i \<and> unat i < length (n_out ?s) + rel_size (n_rcv ?s)"
    proof cases
      case 1
      then show ?thesis using I(12) [of i bs] R(3) by (simp add: rel_same_def)
    next
      case 2
      then show ?thesis using un k(1) R(3) by (simp add: rel_same_def)
    qed
  next
    have "{x. x = of_nat k \<and> (k < ?n \<or> x \<in> set (active_ids (rel_entries rel1)))} \<subseteq> got ?s"
      using un by (auto simp: got_def)
    with R(6) I(14) got show "set (ack_ids (n_ack ?s)) \<subseteq> got ?s" by simp blast
  next
    fix bs assume "bs \<in> n_ackwire ?s"
    then show "\<exists>ids. bs = ack_bytes ids sid \<and> length ids \<le> 8 \<and> set ids \<subseteq> got ?s"
      using I(15) [of bs] got by auto
  next
    fix j assume "j < length (n_sent ?s)"
    then show "of_nat j \<in> set (active_ids (rel_entries (n_snd ?s))) \<union> got ?s" using I(16) [of j] got by auto
  next
    fix i bs assume "(i, bs) \<in> outstanding (rel_entries (n_snd ?s))"
    then show "unat i < length (n_sent ?s) \<and> bs = bytes_of_u32 i @ n_sent ?s ! unat i
        \<and> length (n_sent ?s) \<le> unat i + rel_size (n_snd ?s)" using I(11) [of i bs] by simp
  next
    fix bs assume "bs \<in> n_wire ?s"
    then show "\<exists>k < length (n_sent ?s). bs = bytes_of_u32 (of_nat k) @ n_sent ?s ! k" using I(13) [of bs] by simp
  next
    fix bs assume "bs \<in> set (n_sent ?s)"
    then show "int (length bs) \<le> cap - off" using I(10) [of bs] by simp
  qed (use I(1-9) R in \<open>simp_all add: rel_same_def\<close>)
  with R(1) show ?thesis by blast
qed

lemma net_inv_deliver:
  assumes inv: "net_inv sid cap off s" and n: "length (n_sent s) + 8 < 2 ^ 31"
    and st: "tls_deliver_control f (n_rcv s) = Inr (Some bs, rel1)"
  shows "net_inv sid cap off (s\<lparr>n_rcv := rel1, n_out := n_out s @ [bs]\<rparr>)"
proof -
  note I = net_invD [OF inv]
  note D = tls_deliver_ok [OF I(4) st]
  let ?n = "length (n_out s)" and ?s = "s\<lparr>n_rcv := rel1, n_out := n_out s @ [bs]\<rparr>"
  have un: "unat (of_nat ?n :: u32) = ?n" using I(8) n by (simp add: unat_of_nat_small)
  have bs: "?n < length (n_sent s)" "bs = n_sent s ! ?n" using I(12) [OF D(1)] I(6) un by auto
  have out: "n_out s @ [bs] = take (Suc ?n) (n_sent s)"
    using I(9) bs by (metis take_Suc_conv_app_nth)
  have ne: "unat i \<noteq> ?n" if "i \<noteq> of_nat ?n" for i :: u32
    using that unat_eq_of_nat [of i ?n] by auto
  have act: "set (active_ids (rel_entries rel1)) = set (active_ids (rel_entries (n_rcv s))) - {of_nat ?n}"
    unfolding fst_outstanding [symmetric] D(6) I(6) by (auto simp: image_iff)
  have got: "got s \<subseteq> got ?s"
  proof
    fix x assume x: "x \<in> got s"
    show "x \<in> got ?s"
    proof (cases "x = of_nat ?n")
      case True
      then have "unat x = ?n" using un by simp
      then show ?thesis by (simp add: got_def)
    next
      case False
      from x consider "unat x < ?n" | "x \<in> set (active_ids (rel_entries (n_rcv s)))" by (auto simp: got_def)
      then show ?thesis
      proof cases
        case 2
        with False act have "x \<in> set (active_ids (rel_entries rel1))" by blast
        then show ?thesis by (simp add: got_def)
      qed (simp add: got_def)
    qed
  qed
  show ?thesis
  proof (rule net_invI)
    fix i cs assume "(i, cs) \<in> outstanding (rel_entries (n_rcv ?s))"
    then have a: "(i, cs) \<in> outstanding (rel_entries (n_rcv s))" and "i \<noteq> of_nat ?n" using D(6) I(6) by auto
    then have "unat i \<noteq> ?n" by (intro ne)
    moreover note I(12) [OF a]
    ultimately show "unat i < length (n_sent ?s) \<and> cs = n_sent ?s ! unat i
        \<and> length (n_out ?s) \<le> unat i \<and> unat i < length (n_out ?s) + rel_size (n_rcv ?s)"
      using D(4) by (simp add: Suc_le_eq)
  next
    fix cs assume "cs \<in> n_ackwire ?s"
    then show "\<exists>ids. cs = ack_bytes ids sid \<and> length ids \<le> 8 \<and> set ids \<subseteq> got ?s"
      using I(15) [of cs] got by auto
  next
    fix j assume "j < length (n_sent ?s)"
    then show "of_nat j \<in> set (active_ids (rel_entries (n_snd ?s))) \<union> got ?s" using I(16) [of j] got by auto
  next
    show "set (ack_ids (n_ack ?s)) \<subseteq> got ?s" using I(14) got by simp
  next
    fix i cs assume "(i, cs) \<in> outstanding (rel_entries (n_snd ?s))"
    then show "unat i < length (n_sent ?s) \<and> cs = bytes_of_u32 i @ n_sent ?s ! unat i
        \<and> length (n_sent ?s) \<le> unat i + rel_size (n_snd ?s)" using I(11) [of i cs] by simp
  next
    fix cs assume "cs \<in> n_wire ?s"
    then show "\<exists>k < length (n_sent ?s). cs = bytes_of_u32 (of_nat k) @ n_sent ?s ! k" using I(13) [of cs] by simp
  next
    fix cs assume "cs \<in> set (n_sent ?s)"
    then show "int (length cs) \<le> cap - off" using I(10) [of cs] by simp
  qed (use I(1-9) D(2-5) bs(1) out in \<open>simp_all add: add.commute\<close>)
qed

lemma net_inv_send_ack:
  assumes inv: "net_inv sid cap off s" and sid: "sid_ok sid" "session_id_defined sid"
    and st: "buf_ok b" "buf_contents b = []" "0 \<le> mx"
      "reliable_ack_write (n_ack s) b sid mx prepend = Inr (True, ack1, b1)"
  shows "net_inv sid cap off (s\<lparr>n_ack := ack1, n_ackwire := insert (buf_contents b1) (n_ackwire s)\<rparr>)"
proof -
  note I = net_invD [OF inv]
  let ?k = "nat (min (int (a_len (n_ack s))) mx)"
  let ?s = "s\<lparr>n_ack := ack1, n_ackwire := insert (buf_contents b1) (n_ackwire s)\<rparr>"
  have "ACK_SIZE ?k \<le> (if prepend then int (buf_headroom b) else int (buf_room b))"
    using reliable_ack_write_no_room [OF I(7) st(1,3), of prepend sid] st(4) by fastforce
  with reliable_ack_write_ok [OF I(7) sid st(1,3) refl, of prepend] st(2,4)
  have A: "ack_ok ack1" "ack_ids ack1 = drop ?k (ack_ids (n_ack s))"
      "buf_contents b1 = ack_bytes (take ?k (ack_ids (n_ack s))) sid" by (auto split: if_splits)
  have sub: "set (drop ?k (ack_ids (n_ack s))) \<subseteq> got s" "set (take ?k (ack_ids (n_ack s))) \<subseteq> got s"
    using I(14) by (meson set_drop_subset set_take_subset order_trans)+
  have len: "length (take ?k (ack_ids (n_ack s))) \<le> 8" using I(7) ack_ok_len [OF I(7)] by simp
  have got: "got ?s = got s" by (simp add: got_def)
  show ?thesis
  proof (rule net_invI)
    fix w assume "w \<in> n_ackwire ?s"
    then show "\<exists>ids. w = ack_bytes ids sid \<and> length ids \<le> 8 \<and> set ids \<subseteq> got ?s"
      using I(15) [of w] got A(3) sub(2) len by auto
  next
    fix i cs assume "(i, cs) \<in> outstanding (rel_entries (n_snd ?s))"
    then show "unat i < length (n_sent ?s) \<and> cs = bytes_of_u32 i @ n_sent ?s ! unat i
        \<and> length (n_sent ?s) \<le> unat i + rel_size (n_snd ?s)" using I(11) [of i cs] by simp
  next
    fix i cs assume "(i, cs) \<in> outstanding (rel_entries (n_rcv ?s))"
    then show "unat i < length (n_sent ?s) \<and> cs = n_sent ?s ! unat i
        \<and> length (n_out ?s) \<le> unat i \<and> unat i < length (n_out ?s) + rel_size (n_rcv ?s)"
      using I(12) [of i cs] by simp
  next
    fix cs assume "cs \<in> n_wire ?s"
    then show "\<exists>k < length (n_sent ?s). cs = bytes_of_u32 (of_nat k) @ n_sent ?s ! k" using I(13) [of cs] by simp
  next
    fix cs assume "cs \<in> set (n_sent ?s)"
    then show "int (length cs) \<le> cap - off" using I(10) [of cs] by simp
  next
    fix j assume "j < length (n_sent ?s)"
    then show "of_nat j \<in> set (active_ids (rel_entries (n_snd ?s))) \<union> got ?s" using I(16) [of j] got by simp
  qed (use I(1-9) A sub(1) got in simp_all)
qed

lemma net_inv_receive_ack:
  assumes inv: "net_inv sid cap off s" and sid: "sid_ok sid" "session_id_defined sid"
    and st: "w \<in> n_ackwire s" "buf_ok b" "buf_contents b = w @ rest" "length a = RELIABLE_ACK_SIZE"
      "reliable_ack_read \<lparr>a_len = 0, a_packet_id = a\<rparr> b sid = (ok, ack, b1)"
  shows "net_inv sid cap off (s\<lparr>n_snd := reliable_send_purge (n_snd s) ack\<rparr>)"
proof -
  note I = net_invD [OF inv]
  obtain ids where ids: "w = ack_bytes ids sid" "length ids \<le> 8" "set ids \<subseteq> got s"
    using I(15) [OF st(1)] by blast
  have "ack_ok \<lparr>a_len = 0, a_packet_id = a\<rparr>" using st(4) by (simp add: ack_ok_def)
  then have "ack_ids ack = ids"
    using reliable_ack_read_ok [of "\<lparr>a_len = 0, a_packet_id = a\<rparr>" ids sid b rest] ids(1,2) sid st by auto
  then have "net_inv sid cap off (s\<lparr>n_snd := reliable_send_purge (n_snd s) ack, n_wire := n_wire s\<rparr>)"
    using reliable_send_purge_ok [OF I(1), of ack] ids(3)
    by (intro net_inv_sender [OF inv, where A = "set ids"]) auto
  then show ?thesis by simp
qed

lemma net_step_sent: "net_step sid s s' \<Longrightarrow> length (n_sent s) \<le> length (n_sent s')"
  by (cases rule: net_step.cases) auto

lemma net_inv_step:
  assumes "net_step sid s s'" and inv: "net_inv sid cap off s" and sid: "sid_ok sid" "session_id_defined sid"
    and n: "length (n_sent s') + 8 < 2 ^ 31"
  shows "net_inv sid cap off s'"
  using assms(1)
proof cases
  case (submit i rel1 bs b op rel2)
  have "length (n_sent s) + 9 < 2 ^ 31" using n submit(1) by simp
  from net_inv_submit [OF inv this submit(2-4)] show ?thesis using submit(1) by simp
next
  case (transmit now i op rel1)
  note S = reliable_send_ok [OF net_invD(1) [OF inv] transmit(3)]
  have "buf_contents (e_buf (rel_array rel1 ! i)) \<in> snd ` outstanding (rel_entries (n_snd s))"
    using outstandingI [OF rel_entry_mem [OF net_invD(1) [OF inv] S(1)] S(2)] S(8) by (force simp: image_iff)
  then show ?thesis
    unfolding transmit(1) using S(4,5,7) by (intro net_inv_sender [OF inv, where A = "{}"]) auto
next
  case (receive w b op rel1 ack1)
  have "length (n_sent s) + 8 < 2 ^ 31" using n receive(1) by simp
  from net_inv_receive [OF inv this receive(2-4), of op] receive(1,5) show ?thesis by auto
next
  case (deliver f bs rel1)
  have "length (n_sent s) + 8 < 2 ^ 31" using n deliver(1) by simp
  from net_inv_deliver [OF inv this deliver(2)] show ?thesis using deliver(1) by simp
next
  case (send_ack b mx prepend ack1 b1)
  from net_inv_send_ack [OF inv sid send_ack(2-5)] show ?thesis using send_ack(1) by simp
next
  case (receive_ack w b rest a ok ack b1)
  from net_inv_receive_ack [OF inv sid receive_ack(2-6)] show ?thesis using receive_ack(1) by simp
next
  case (reschedule now)
  note S = reliable_schedule_now_ok [OF net_invD(1) [OF inv], of now]
  have "net_inv sid cap off (s\<lparr>n_snd := reliable_schedule_now now (n_snd s), n_wire := n_wire s\<rparr>)"
    using S(1-3) by (intro net_inv_sender [OF inv, where A = "{}"]) auto
  then show ?thesis using reschedule by simp
qed

lemma net_reach_inv:
  assumes "net_reach sid s" "sid_ok sid" "session_id_defined sid" "length (n_sent s) + 8 < 2 ^ 31"
  shows "\<exists>cap off. net_inv sid cap off s"
  using assms
proof (induction rule: net_reach.induct)
  case (init s)
  then show ?case using net_inv_init by blast
next
  case (step s s')
  then have "length (n_sent s) + 8 < 2 ^ 31" using net_step_sent by fastforce
  with step show ?case using net_inv_step by blast
qed

lemma net_inv_deadlock_free:
  assumes inv: "net_inv sid cap off s" and n: "length (n_sent s) + 8 < 2 ^ 31"
    and full: "\<not> reliable_can_get (n_rcv s)"
  shows "reliable_get_buf_sequenced (n_rcv s) \<noteq> None"
proof -
  note I = net_invD [OF inv]
  let ?es = "rel_entries (n_rcv s)" and ?n = "length (n_out s)" and ?m = "rel_size (n_rcv s)"
  have all: "filter e_active ?es = ?es"
    using full by (auto simp: reliable_can_get_def list_ex_iff filter_id_conv)
  let ?ids = "map unat (active_ids ?es)"
  have len: "length ?ids = ?m" using rel_wfD(4) [OF I(4)] by (simp add: active_ids_def all)
  have "inj_on (unat :: u32 \<Rightarrow> nat) A" for A by (meson inj_onI unsigned_word_eqI)
  then have "distinct ?ids" using rel_wfD(7) [OF I(4)] by (simp add: distinct_map)
  then have "card (set ?ids) = ?m" using len by (simp only: distinct_card)
  moreover have "set ?ids \<subseteq> {?n..<?n + ?m}"
    using I(12) unfolding set_map fst_outstanding [symmetric] by fastforce
  ultimately have "set ?ids = {?n..<?n + ?m}" by (intro card_subset_eq) simp_all
  then have "?n \<in> set ?ids" using rel_wfD(1) [OF I(4)] by simp
  then obtain e where e: "e \<in> set ?es" "e_active e" "unat (e_packet_id e) = ?n" by (auto simp: active_ids_def)
  then have "e_packet_id e = rel_packet_id (n_rcv s)" using unat_eq_of_nat [OF e(3)] I(6) by simp
  with e show ?thesis by (auto simp: reliable_get_buf_sequenced_def)
qed

lemma net_inv_sequenced:
  assumes inv: "net_inv sid cap off s"
  shows "reliable_get_buf_sequenced (n_rcv s) = None \<longleftrightarrow>
           of_nat (length (n_out s)) \<notin> set (active_ids (rel_entries (n_rcv s)))"
  using net_invD(6) [OF inv] by (auto simp: reliable_get_buf_sequenced_def in_active_ids)

section \<open>A small session, computed\<close>

definition ex_sid :: session_id where "ex_sid = \<lparr>sid_id = [1, 2, 3, 4, 5, 6, 7, 8]\<rparr>"
definition ex_rel :: reliable where "ex_rel = projr (reliable_init (\<lambda>_ _. 0) 8 4 1 False)"
definition ex_ack :: reliable_ack where "ex_ack = \<lparr>a_len = 0, a_packet_id = replicate 8 0\<rparr>"

definition ex0 :: net where
  "ex0 = \<lparr>n_snd = ex_rel, n_rcv = ex_rel, n_ack = ex_ack, n_sent = [], n_out = [], n_wire = {}, n_ackwire = {}\<rparr>"

definition ex_got :: reliable where "ex_got = snd (projr (reliable_get_buf_output_sequenced ex_rel))"
definition ex_buf :: buffer where "ex_buf = snd (buf_write (e_buf (rel_array ex_got ! 0)) [7, 9])"
definition ex_submitted :: reliable where
  "ex_submitted = projr (reliable_mark_active_outgoing
     (rel_set_entry ex_got 0 ((rel_array ex_got ! 0)\<lparr>e_buf := ex_buf\<rparr>)) 0 4)"
definition ex_transmitted :: reliable where "ex_transmitted = snd (reliable_send 100 ex_submitted)"
definition ex_packet :: buffer where
  "ex_packet = \<lparr>b_capacity = 6, b_offset = 0, b_len = 6, b_data = Some [0, 0, 0, 0, 7, 9]\<rparr>"
definition ex_received :: "reliable \<times> reliable_ack" where
  "ex_received = projr (tls_receive_control ex_rel ex_ack ex_packet 4)"
definition ex_delivered :: reliable where
  "ex_delivered = snd (projr (tls_deliver_control (\<lambda>_. 1) (fst ex_received)))"

definition ex_empty :: buffer where
  "ex_empty = \<lparr>b_capacity = 16, b_offset = 0, b_len = 0, b_data = Some (replicate 16 0)\<rparr>"
definition ex_acked :: "bool \<times> reliable_ack \<times> buffer" where
  "ex_acked = projr (reliable_ack_write (snd ex_received) ex_empty ex_sid 4 False)"
definition ex_ackread :: "bool \<times> reliable_ack \<times> buffer" where
  "ex_ackread = reliable_ack_read ex_ack (snd (snd ex_acked)) ex_sid"

definition ex2 :: net where
  \<comment> \<open>one packet submitted and transmitted\<close>
  "ex2 = ex0\<lparr>n_snd := ex_transmitted, n_sent := [[7, 9]], n_wire := {[0, 0, 0, 0, 7, 9]}\<rparr>"

definition ex4 :: net where
  \<comment> \<open>and then received and delivered\<close>
  "ex4 = ex2\<lparr>n_rcv := ex_delivered, n_ack := snd ex_received, n_out := [[7, 9]]\<rparr>"

definition ex6 :: net where
  \<comment> \<open>and acknowledged\<close>
  "ex6 = ex4\<lparr>n_ack := fst (snd ex_acked), n_ackwire := {buf_contents (snd (snd ex_acked))},
              n_snd := reliable_send_purge ex_transmitted (fst (snd ex_ackread))\<rparr>"

lemma ex_facts:
  "reliable_init (\<lambda>_ _. 0) 8 4 1 False = Inr ex_rel"
  "reliable_get_buf_output_sequenced ex_rel = Inr (Some 0, ex_got)"
  "buf_write (e_buf (rel_array ex_got ! 0)) [7, 9] = (True, ex_buf)"
  "reliable_mark_active_outgoing (rel_set_entry ex_got 0 ((rel_array ex_got ! 0)\<lparr>e_buf := ex_buf\<rparr>)) 0 4 = Inr ex_submitted"
  "reliable_can_send 100 ex_submitted"
  "reliable_send 100 ex_submitted = (Some (0, 4), ex_transmitted)"
  "buf_contents (e_buf (rel_array ex_transmitted ! 0)) = [0, 0, 0, 0, 7, 9]"
  "buf_ok ex_packet" "buf_contents ex_packet = [0, 0, 0, 0, 7, 9]"
  "tls_receive_control ex_rel ex_ack ex_packet 4 = Inr ex_received"
  "tls_deliver_control (\<lambda>_. 1) (fst ex_received) = Inr (Some [7, 9], ex_delivered)"
  "buf_ok ex_empty" "buf_contents ex_empty = []"
  "reliable_ack_write (snd ex_received) ex_empty ex_sid 4 False = Inr (True, fst (snd ex_acked), snd (snd ex_acked))"
  "buf_ok (snd (snd ex_acked))"
  "reliable_ack_read ex_ack (snd (snd ex_acked)) ex_sid = (True, fst (snd ex_ackread), snd (snd ex_ackread))"
  "reliable_empty (reliable_send_purge ex_transmitted (fst (snd ex_ackread)))"
  "reliable_empty ex_delivered"
  by code_simp+

lemma ex_sid_ok: "sid_ok ex_sid" "session_id_defined ex_sid"
  by code_simp+

lemma ex_reach2: "net_reach ex_sid ex2"
proof -
  have "net_init ex0"
    unfolding ex0_def ex_ack_def
    by (rule net_init [OF _ _ _ ex_facts(1) ex_facts(1)]) (simp_all add: BUF_SIZE_MAX_def RELIABLE_ACK_SIZE_def)
  then have r: "net_reach ex_sid ex0" by (rule net_reach.init)
  let ?s1 = "ex0\<lparr>n_snd := ex_submitted, n_sent := n_sent ex0 @ [[7, 9]]\<rparr>"
  have "net_step ex_sid ex0 ?s1"
    by (rule submit [OF _ ex_facts(3,4)]) (simp add: ex0_def ex_facts)
  with r have r1: "net_reach ex_sid ?s1" by (rule net_reach.step)
  have "net_step ex_sid ?s1 (?s1\<lparr>n_snd := ex_transmitted,
      n_wire := insert (buf_contents (e_buf (rel_array ex_transmitted ! 0))) (n_wire ?s1)\<rparr>)"
    by (rule transmit [of 100 _ 0 4]) (simp_all add: ex_facts)
  with r1 have "net_reach ex_sid (?s1\<lparr>n_snd := ex_transmitted,
      n_wire := insert (buf_contents (e_buf (rel_array ex_transmitted ! 0))) (n_wire ?s1)\<rparr>)" by (rule net_reach.step)
  then show ?thesis by (simp add: ex_facts ex2_def ex0_def)
qed

lemma ex_reach3: "net_reach ex_sid (ex2\<lparr>n_rcv := fst ex_received, n_ack := snd ex_received\<rparr>)"
proof -
  have "net_step ex_sid ex2 (ex2\<lparr>n_rcv := fst ex_received, n_ack := snd ex_received\<rparr>)"
    by (rule receive [of "[0, 0, 0, 0, 7, 9]" _ ex_packet 4]) (simp_all add: ex_facts ex2_def ex0_def)
  with ex_reach2 show ?thesis by (rule net_reach.step)
qed

lemma ex_reach4: "net_reach ex_sid ex4"
proof -
  let ?s3 = "ex2\<lparr>n_rcv := fst ex_received, n_ack := snd ex_received\<rparr>"
  have "net_step ex_sid ?s3 (?s3\<lparr>n_rcv := ex_delivered, n_out := n_out ?s3 @ [[7, 9]]\<rparr>)"
    by (rule deliver [of "\<lambda>_. 1"]) (simp add: ex_facts)
  with ex_reach3 have "net_reach ex_sid (?s3\<lparr>n_rcv := ex_delivered, n_out := n_out ?s3 @ [[7, 9]]\<rparr>)"
    by (rule net_reach.step)
  then show ?thesis by (simp add: ex4_def ex2_def ex0_def)
qed

lemma ex_reach6: "net_reach ex_sid ex6"
proof -
  let ?w = "buf_contents (snd (snd ex_acked))"
  let ?s5 = "ex4\<lparr>n_ack := fst (snd ex_acked), n_ackwire := insert ?w (n_ackwire ex4)\<rparr>"
  have ack: "n_ack ex4 = snd ex_received" by (simp add: ex4_def)
  have "net_step ex_sid ex4 ?s5"
    by (rule send_ack [OF ex_facts(12,13), of 4 _ _ False]) (simp_all add: ack ex_facts)
  with ex_reach4 have r5: "net_reach ex_sid ?s5" by (rule net_reach.step)
  have "net_step ex_sid ?s5 (?s5\<lparr>n_snd := reliable_send_purge (n_snd ?s5) (fst (snd ex_ackread))\<rparr>)"
    by (rule receive_ack [OF _ ex_facts(15) _ _ ex_facts(16) [unfolded ex_ack_def], where w = ?w and rest = "[]"])
       (simp_all add: RELIABLE_ACK_SIZE_def)
  with r5 have "net_reach ex_sid (?s5\<lparr>n_snd := reliable_send_purge (n_snd ?s5) (fst (snd ex_ackread))\<rparr>)"
    by (rule net_reach.step)
  then show ?thesis by (simp add: ex6_def ex4_def ex2_def ex0_def)
qed

section \<open>The guarantees of the control channel\<close>

text \<open>C2. In-order, exactly-once delivery: whatever the network loses, repeats, delays or
  reorders and however the two peers interleave their steps, what the receiver hands to its TLS
  object is a prefix of what the TLS object of the sender produced.  The bound keeps the packet
  ids of the session below the half of their range.\<close>

theorem control_delivery_in_order:
  assumes "net_reach sid s" "sid_ok sid" "session_id_defined sid" "length (n_sent s) + 8 < 2 ^ 31"
  shows "n_out s = take (length (n_out s)) (n_sent s)"
  using net_reach_inv [OF assms] net_invD(9) by blast

theorem control_delivery_in_order_witness: "n_out ex4 = take 1 (n_sent ex4) \<and> n_out ex4 \<noteq> []"
  using control_delivery_in_order [OF ex_reach4 ex_sid_ok] by (simp add: ex4_def ex2_def)

text \<open>C10. Nothing is lost: once the sender holds no packet any more and the receiver has
  delivered all it buffered, everything the sender produced has been delivered.  So an
  acknowledgement never retires a packet the receiver does not have.\<close>

theorem control_delivery_complete:
  assumes "net_reach sid s" "sid_ok sid" "session_id_defined sid" "length (n_sent s) + 8 < 2 ^ 31"
    and "reliable_empty (n_snd s)" "reliable_empty (n_rcv s)"
  shows "n_out s = n_sent s"
proof -
  obtain cap off where inv: "net_inv sid cap off s" using net_reach_inv [OF assms(1-4)] by blast
  note I = net_invD [OF inv]
  have none: "set (active_ids (rel_entries (n_snd s))) = {}" "set (active_ids (rel_entries (n_rcv s))) = {}"
    using assms(5,6) by (auto simp: reliable_empty_def list_ex_iff active_ids_def)
  have "\<not> length (n_out s) < length (n_sent s)"
  proof
    assume lt: "length (n_out s) < length (n_sent s)"
    with I(16) [OF lt] none have "unat (of_nat (length (n_out s)) :: u32) < length (n_out s)" by (simp add: got_def)
    with lt assms(4) show False by (simp add: unat_of_nat_small)
  qed
  with I(8,9) show ?thesis by simp
qed

theorem control_delivery_complete_witness:
  "n_out ex6 = n_sent ex6 \<and> n_out ex6 \<noteq> []"
proof -
  have "reliable_empty (n_snd ex6)" "reliable_empty (n_rcv ex6)" "length (n_sent ex6) + 8 < 2 ^ 31" "n_out ex6 \<noteq> []"
    using ex_facts(17,18) by (simp_all add: ex6_def ex4_def ex2_def)
  with control_delivery_complete [OF ex_reach6 ex_sid_ok] show ?thesis by blast
qed

text \<open>C11. The receive buffer never deadlocks: when all its entries are taken, the next packet
  in sequence is among them and can be delivered.\<close>

theorem control_no_deadlock:
  assumes "net_reach sid s" "sid_ok sid" "session_id_defined sid" "length (n_sent s) + 8 < 2 ^ 31"
    and "\<not> reliable_can_get (n_rcv s)"
  shows "reliable_get_buf_sequenced (n_rcv s) \<noteq> None"
  using net_reach_inv [OF assms(1-4)] net_inv_deadlock_free [OF _ assms(4,5)] by blast

theorem control_no_deadlock_witness: "reliable_get_buf_sequenced (fst ex_received) \<noteq> None"
proof -
  have "net_reach ex_sid (ex2\<lparr>n_rcv := fst ex_received, n_ack := snd ex_received\<rparr>)" by (rule ex_reach3)
  moreover have "\<not> reliable_can_get (fst ex_received)" by code_simp
  ultimately show ?thesis
    using control_no_deadlock [of ex_sid "ex2\<lparr>n_rcv := fst ex_received, n_ack := snd ex_received\<rparr>"] ex_sid_ok
    by (simp add: ex2_def)
qed

text \<open>C12. Progress: while a packet is missing, either it can be delivered at once, or the sender
  still holds it for retransmission, and its arrival, in any buffer, makes it deliverable
  without any assertion failing.\<close>

theorem control_progress:
  assumes "net_reach sid s" "sid_ok sid" "session_id_defined sid" "length (n_sent s) + 8 < 2 ^ 31"
    and "length (n_out s) < length (n_sent s)" "reliable_get_buf_sequenced (n_rcv s) = None"
    and "buf_ok b" "buf_contents b = bytes_of_u32 (of_nat (length (n_out s))) @ n_sent s ! length (n_out s)"
  shows "(\<exists>e \<in> set (rel_entries (n_snd s)). e_active e \<and> e_packet_id e = of_nat (length (n_out s))
             \<and> buf_contents (e_buf e) = buf_contents b)
         \<and> (\<exists>rel1 ack1. tls_receive_control (n_rcv s) (n_ack s) b op = Inr (rel1, ack1)
             \<and> reliable_get_buf_sequenced rel1 \<noteq> None)"
proof -
  let ?n = "length (n_out s)" and ?i = "of_nat (length (n_out s)) :: u32"
  obtain cap off where inv: "net_inv sid cap off s" using net_reach_inv [OF assms(1-4)] by blast
  note I = net_invD [OF inv]
  have n: "?n < 2 ^ 31" "?n + 8 < 2 ^ 31" "unat ?i = ?n" using assms(4,5) by (simp_all add: unat_of_nat_small)
  have "?i \<notin> got s" using assms(6) net_inv_sequenced [OF inv] n(3) by (simp add: got_def)
  then obtain e where e: "e \<in> set (rel_entries (n_snd s))" "e_active e" "e_packet_id e = ?i"
    using I(16) [OF assms(5)] by (auto simp: in_active_ids)
  have "buf_contents (e_buf e) = buf_contents b"
    using I(11) [OF outstandingI [OF e(1,2)]] e(3) n(3) assms(8) by simp
  moreover have can: "reliable_can_get (n_rcv s)"
    using net_inv_deadlock_free [OF inv assms(4)] assms(6) by blast
  have fit: "int (length (n_sent s ! ?n)) \<le> cap - rel_offset (n_rcv s)"
    using I(10) [OF nth_mem [OF assms(5)]] I(5) by simp
  obtain rel1 ack1 where R: "tls_receive_control (n_rcv s) (n_ack s) b op = Inr (rel1, ack1)"
      "rel_same rel1 (n_rcv s)" "?i \<in> set (active_ids (rel_entries rel1))"
    using tls_receive_ok [OF I(4,6) n(2,1) assms(7,8) I(7) fit, of op] can rel_wfD(1) [OF I(4)] by auto
  then have "reliable_get_buf_sequenced rel1 \<noteq> None"
    using I(6) by (auto simp: reliable_get_buf_sequenced_def in_active_ids rel_same_def)
  ultimately show ?thesis using e R(1) by blast
qed

theorem control_progress_witness:
  "\<exists>rel1 ack1. tls_receive_control (n_rcv ex2) (n_ack ex2) ex_packet 4 = Inr (rel1, ack1)
     \<and> reliable_get_buf_sequenced rel1 \<noteq> None"
proof -
  have "reliable_get_buf_sequenced ex_rel = None" "bytes_of_u32 0 = [0, 0, 0, 0]" by code_simp+
  then have "reliable_get_buf_sequenced (n_rcv ex2) = None" "length (n_out ex2) < length (n_sent ex2)"
      "length (n_sent ex2) + 8 < 2 ^ 31"
      "buf_contents ex_packet = bytes_of_u32 (of_nat (length (n_out ex2))) @ n_sent ex2 ! length (n_out ex2)"
    by (simp_all add: ex2_def ex0_def ex_facts)
  with control_progress [OF ex_reach2 ex_sid_ok, of ex_packet 4] ex_facts(8) show ?thesis by blast
qed
end
