(* ===== verification/Mtu.thy ===== *)
theory Mtu
  imports Integers Buffer
begin

text \<open>
  The geometry of packet buffers (mtu.h, mtu.c): how much room each subsystem may prepend and
  append, and the size limits of the tunnel and of the transport.  Setting socket options and
  printing are left out.
\<close>

section \<open>Frame parameters\<close>

definition TUN_MTU_MIN :: int where "TUN_MTU_MIN = 100"
definition PAYLOAD_ALIGN :: int where "PAYLOAD_ALIGN = 4"
definition FRAME_HEADROOM_MARKER_DECRYPT :: u32 where "FRAME_HEADROOM_MARKER_DECRYPT = 1"
definition FRAME_HEADROOM_MARKER_FRAGMENT :: u32 where "FRAME_HEADROOM_MARKER_FRAGMENT = 2"
definition SET_MTU_TUN :: u32 where "SET_MTU_TUN = 1"
definition SET_MTU_UPPER_BOUND :: u32 where "SET_MTU_UPPER_BOUND = 2"

record frame =
  f_link_mtu :: int
  f_link_mtu_dynamic :: int
  f_extra_frame :: int
  f_extra_buffer :: int
  f_extra_tun :: int
  f_extra_link :: int
  f_align_flags :: u32
  f_align_adjust :: int

definition EXTRA_FRAME :: "frame \<Rightarrow> int" where "EXTRA_FRAME f = f_extra_frame f"
definition TUN_LINK_DELTA :: "frame \<Rightarrow> int" where "TUN_LINK_DELTA f = f_extra_frame f + f_extra_tun f"
definition TUN_MTU_SIZE :: "frame \<Rightarrow> int" where "TUN_MTU_SIZE f = f_link_mtu f - TUN_LINK_DELTA f"
definition TUN_MTU_SIZE_DYNAMIC :: "frame \<Rightarrow> int" where
  "TUN_MTU_SIZE_DYNAMIC f = f_link_mtu_dynamic f - TUN_LINK_DELTA f"
definition PAYLOAD_SIZE :: "frame \<Rightarrow> int" where "PAYLOAD_SIZE f = f_link_mtu f - f_extra_frame f"
definition PAYLOAD_SIZE_DYNAMIC :: "frame \<Rightarrow> int" where
  "PAYLOAD_SIZE_DYNAMIC f = f_link_mtu_dynamic f - f_extra_frame f"
definition EXPANDED_SIZE :: "frame \<Rightarrow> int" where "EXPANDED_SIZE f = f_link_mtu f"
definition EXPANDED_SIZE_DYNAMIC :: "frame \<Rightarrow> int" where "EXPANDED_SIZE_DYNAMIC f = f_link_mtu_dynamic f"
definition EXPANDED_SIZE_MIN :: "frame \<Rightarrow> int" where "EXPANDED_SIZE_MIN f = TUN_MTU_MIN + TUN_LINK_DELTA f"
definition MAX_RW_SIZE_TUN :: "frame \<Rightarrow> int" where "MAX_RW_SIZE_TUN f = PAYLOAD_SIZE f"
definition MAX_RW_SIZE_LINK :: "frame \<Rightarrow> int" where "MAX_RW_SIZE_LINK f = EXPANDED_SIZE f + f_extra_link f"
definition FRAME_HEADROOM_BASE :: "frame \<Rightarrow> int" where
  "FRAME_HEADROOM_BASE f = TUN_LINK_DELTA f + f_extra_buffer f + f_extra_link f"
definition BUF_SIZE :: "frame \<Rightarrow> int" where "BUF_SIZE f = TUN_MTU_SIZE f + FRAME_HEADROOM_BASE f * 2"

definition frame_headroom :: "frame \<Rightarrow> u32 \<Rightarrow> int" where
  "frame_headroom f flag_mask =
     (let offset = FRAME_HEADROOM_BASE f;
          adjust = (if flag_mask AND f_align_flags f \<noteq> 0 then f_align_adjust f else 0);
          delta = (push_bit 24 PAYLOAD_ALIGN - (offset + adjust)) AND (PAYLOAD_ALIGN - 1)
      in offset + delta)"

definition FRAME_HEADROOM :: "frame \<Rightarrow> int" where "FRAME_HEADROOM f = frame_headroom f 0"
definition FRAME_HEADROOM_ADJ :: "frame \<Rightarrow> u32 \<Rightarrow> int" where "FRAME_HEADROOM_ADJ f fm = frame_headroom f fm"

definition frame_add_to_extra_frame :: "frame \<Rightarrow> int \<Rightarrow> frame" where
  "frame_add_to_extra_frame f increment = f\<lparr>f_extra_frame := f_extra_frame f + increment\<rparr>"
definition frame_add_to_extra_tun :: "frame \<Rightarrow> int \<Rightarrow> frame" where
  "frame_add_to_extra_tun f increment = f\<lparr>f_extra_tun := f_extra_tun f + increment\<rparr>"
definition frame_add_to_extra_link :: "frame \<Rightarrow> int \<Rightarrow> frame" where
  "frame_add_to_extra_link f increment = f\<lparr>f_extra_link := f_extra_link f + increment\<rparr>"
definition frame_add_to_extra_buffer :: "frame \<Rightarrow> int \<Rightarrow> frame" where
  "frame_add_to_extra_buffer f increment = f\<lparr>f_extra_buffer := f_extra_buffer f + increment\<rparr>"
definition frame_add_to_align_adjust :: "frame \<Rightarrow> int \<Rightarrow> frame" where
  "frame_add_to_align_adjust f increment = f\<lparr>f_align_adjust := f_align_adjust f + increment\<rparr>"
definition frame_align_to_extra_frame :: "frame \<Rightarrow> frame" where
  "frame_align_to_extra_frame f = f\<lparr>f_align_adjust := f_extra_frame f + f_extra_link f\<rparr>"
definition frame_or_align_flags :: "frame \<Rightarrow> u32 \<Rightarrow> frame" where
  "frame_or_align_flags f flag_mask = f\<lparr>f_align_flags := f_align_flags f OR flag_mask\<rparr>"
definition frame_defined :: "frame \<Rightarrow> bool" where
  "frame_defined f \<longleftrightarrow> f_link_mtu f > 0"

section \<open>Operations of mtu.c\<close>

definition alloc_buf_sock_tun :: "(nat \<Rightarrow> byte) \<Rightarrow> frame \<Rightarrow> bool \<Rightarrow> u32 \<Rightarrow> buffer result" where
  "alloc_buf_sock_tun junk f tuntap_buffer align_mask =
     bind_result (alloc_buf junk (BUF_SIZE f)) (\<lambda>b.
       case buf_init b (FRAME_HEADROOM_ADJ f align_mask) of (ok, b) \<Rightarrow>
         assert_that ok
           (let b = b\<lparr>b_len := (if tuntap_buffer then MAX_RW_SIZE_TUN f else MAX_RW_SIZE_LINK f)\<rparr>
            in assert_that (buf_safe b 0) (Inr b)))"

definition frame_finalize :: "frame \<Rightarrow> bool \<Rightarrow> int \<Rightarrow> bool \<Rightarrow> int \<Rightarrow> frame result" where
  "frame_finalize f link_mtu_defined link_mtu tun_mtu_defined tun_mtu =
     bind_result
       (if tun_mtu_defined
        then assert_that (\<not> link_mtu_defined) (Inr (f\<lparr>f_link_mtu := tun_mtu + TUN_LINK_DELTA f\<rparr>))
        else assert_that link_mtu_defined (Inr (f\<lparr>f_link_mtu := link_mtu\<rparr>)))
       (\<lambda>f. if TUN_MTU_SIZE f < TUN_MTU_MIN then Inl FatalError
            else let f = f\<lparr>f_link_mtu_dynamic := f_link_mtu f\<rparr>
                 in Inr (f\<lparr>f_extra_buffer := f_extra_buffer f + PAYLOAD_ALIGN\<rparr>))"

definition frame_set_mtu_dynamic :: "frame \<Rightarrow> int \<Rightarrow> u32 \<Rightarrow> frame result" where
  "frame_set_mtu_dynamic f mtu flags =
     assert_that (mtu \<ge> 0)
       (let mtu = (if flags AND SET_MTU_TUN \<noteq> 0 then mtu + TUN_LINK_DELTA f else mtu)
        in if flags AND SET_MTU_UPPER_BOUND = 0 \<or> mtu < f_link_mtu_dynamic f
           then Inr (f\<lparr>f_link_mtu_dynamic := constrain_int mtu (EXPANDED_SIZE_MIN f) (EXPANDED_SIZE f)\<rparr>)
           else Inr f)"

definition frame_subtract_extra :: "frame \<Rightarrow> frame \<Rightarrow> frame" where
  "frame_subtract_extra f src =
     f\<lparr>f_extra_frame := f_extra_frame f - f_extra_frame src, f_extra_tun := f_extra_tun f + f_extra_frame src\<rparr>"

section \<open>Alignment and sizes\<close>

lemmas frame_sizes = EXTRA_FRAME_def TUN_LINK_DELTA_def TUN_MTU_SIZE_def TUN_MTU_SIZE_DYNAMIC_def PAYLOAD_SIZE_def
  PAYLOAD_SIZE_DYNAMIC_def EXPANDED_SIZE_def EXPANDED_SIZE_DYNAMIC_def EXPANDED_SIZE_MIN_def
  MAX_RW_SIZE_TUN_def MAX_RW_SIZE_LINK_def FRAME_HEADROOM_BASE_def BUF_SIZE_def TUN_MTU_MIN_def PAYLOAD_ALIGN_def

lemma and_3_mod: "(x :: int) AND 3 = x mod 4"
  using take_bit_eq_mask [of 2 x] by (simp add: mask_eq_exp_minus_1 take_bit_eq_mod)

lemma frame_headroom_eq:
  "frame_headroom f m = FRAME_HEADROOM_BASE f
     + (- (FRAME_HEADROOM_BASE f + (if m AND f_align_flags f \<noteq> 0 then f_align_adjust f else 0))) mod 4"
proof -
  have "(push_bit 24 4 - y) mod 4 = (- y) mod (4 :: int)" for y
  proof -
    have "push_bit 24 4 - y = - y + 16777216 * (4 :: int)" by (simp add: push_bit_eq_mult)
    then show ?thesis by (simp only: mod_mult_self1)
  qed
  then show ?thesis by (simp add: frame_headroom_def Let_def PAYLOAD_ALIGN_def and_3_mod)
qed

text \<open>The headroom of a packet buffer is at least what the subsystems may prepend, at most
  three bytes more, and puts the payload on a multiple of \<open>PAYLOAD_ALIGN\<close> once the adjustment
  for the marked position is added.\<close>

theorem frame_headroom_aligned:
  "FRAME_HEADROOM_BASE f \<le> frame_headroom f m \<and> frame_headroom f m < FRAME_HEADROOM_BASE f + PAYLOAD_ALIGN
   \<and> (frame_headroom f m + (if m AND f_align_flags f \<noteq> 0 then f_align_adjust f else 0)) mod PAYLOAD_ALIGN = 0"
proof -
  let ?a = "if m AND f_align_flags f \<noteq> 0 then f_align_adjust f else 0"
  let ?y = "FRAME_HEADROOM_BASE f + ?a"
  have "(?y + (- ?y) mod 4) mod 4 = 0" by (simp add: mod_add_right_eq)
  moreover have "frame_headroom f m + ?a = ?y + (- ?y) mod 4" unfolding frame_headroom_eq by simp
  ultimately have "(frame_headroom f m + ?a) mod 4 = 0" by metis
  moreover have "0 \<le> (- ?y) mod 4" "(- ?y) mod 4 < 4" by simp_all
  ultimately show ?thesis unfolding frame_headroom_eq PAYLOAD_ALIGN_def by linarith
qed

lemma frame_headroom_bounds:
  "FRAME_HEADROOM_BASE f \<le> frame_headroom f m" "frame_headroom f m < FRAME_HEADROOM_BASE f + 4"
  unfolding frame_headroom_eq by simp_all


text \<open>The dynamic MTU: \<open>frame_set_mtu_dynamic\<close> keeps it between the smallest and the largest
  size of an encapsulated packet, and with \<open>SET_MTU_UPPER_BOUND\<close> never raises it.\<close>

theorem frame_set_mtu_dynamic_bounds:
  assumes "frame_set_mtu_dynamic f mtu flags = Inr f'"
    and "EXPANDED_SIZE_MIN f \<le> f_link_mtu_dynamic f" "f_link_mtu_dynamic f \<le> EXPANDED_SIZE f"
  shows "EXPANDED_SIZE_MIN f' \<le> f_link_mtu_dynamic f' \<and> f_link_mtu_dynamic f' \<le> EXPANDED_SIZE f'
    \<and> (flags AND SET_MTU_UPPER_BOUND = 0 \<or> f_link_mtu_dynamic f' \<le> f_link_mtu_dynamic f)"
proof -
  let ?m = "if flags AND SET_MTU_TUN \<noteq> 0 then mtu + TUN_LINK_DELTA f else mtu"
  consider "f' = f" | "f' = f\<lparr>f_link_mtu_dynamic := constrain_int ?m (EXPANDED_SIZE_MIN f) (EXPANDED_SIZE f)\<rparr>"
      "flags AND SET_MTU_UPPER_BOUND = 0 \<or> ?m < f_link_mtu_dynamic f"
    using assms(1) by (auto simp: frame_set_mtu_dynamic_def Let_def split: if_splits)
  then show ?thesis
  proof cases
    case 1
    with assms show ?thesis by simp
  next
    case 2
    then have "f_link_mtu_dynamic f' = constrain_int ?m (EXPANDED_SIZE_MIN f) (EXPANDED_SIZE f)"
        "EXPANDED_SIZE_MIN f' = EXPANDED_SIZE_MIN f" "EXPANDED_SIZE f' = EXPANDED_SIZE f"
      by (simp_all add: frame_sizes)
    with 2(2) assms(2,3) show ?thesis unfolding constrain_int_def by auto
  qed
qed

definition ex_frame :: frame where
  "ex_frame = \<lparr>f_link_mtu = 0, f_link_mtu_dynamic = 0, f_extra_frame = 45, f_extra_buffer = 0, f_extra_tun = 0,
               f_extra_link = 2, f_align_flags = 0, f_align_adjust = 0\<rparr>"

theorem frame_set_mtu_dynamic_bounds_witness:
  "\<exists>f'. frame_set_mtu_dynamic (ex_frame\<lparr>f_link_mtu := 1545, f_link_mtu_dynamic := 1545\<rparr>) 1300 2 = Inr f'
        \<and> 145 \<le> f_link_mtu_dynamic f' \<and> f_link_mtu_dynamic f' \<le> 1545"
proof -
  let ?f = "ex_frame\<lparr>f_link_mtu := 1545, f_link_mtu_dynamic := 1545\<rparr>"
  have "frame_set_mtu_dynamic ?f 1300 2 = Inr (?f\<lparr>f_link_mtu_dynamic := 1300\<rparr>)" by code_simp
  from this frame_set_mtu_dynamic_bounds [OF this] show ?thesis by (simp add: frame_sizes ex_frame_def)
qed



end
