(* ===== verification/Crypto.thy ===== *)
theory Crypto
  imports Packet_Id Mtu
begin

text \<open>
  The data channel: authentication and encryption of packets (\<open>openvpn_encrypt\<close> and
  \<open>openvpn_decrypt\<close> of crypto.c).

  OpenSSL is a parameter.  A cipher context is a record with its mode, its IV and block sizes
  and two functions: \<open>cc_update\<close> and \<open>cc_final\<close> give, for a direction, an IV and an input,
  the bytes that \<open>EVP_CipherUpdate\<close> and then \<open>EVP_CipherFinal\<close> write after
  \<open>EVP_CipherInit\<close> with that IV (\<open>None\<close> when the call fails).  An HMAC context is its size and
  the function that \<open>HMAC_Init_ex\<close>, \<open>HMAC_Update\<close> and \<open>HMAC_Final\<close> compute.  The pseudo-random
  bytes of \<open>prng_bytes\<close> are the argument \<open>prng\<close>.

  \<open>work\<close> is passed by value and shares its block with the caller, which only uses it as scratch
  memory; after the call \<open>*buf\<close> is the buffer returned.  A packet that is rejected leaves a
  buffer of length 0.
\<close>

section \<open>Contexts and options\<close>

datatype cipher_mode = EVP_CIPH_CBC_MODE | EVP_CIPH_CFB_MODE | EVP_CIPH_OFB_MODE | EVP_CIPH_OTHER_MODE

record cipher_ctx =
  cc_mode :: cipher_mode
  cc_iv_length :: int
  cc_block_size :: int
  cc_init :: "bool \<Rightarrow> byte list \<Rightarrow> bool"
  cc_update :: "bool \<Rightarrow> byte list \<Rightarrow> byte list \<Rightarrow> byte list option"
  cc_final :: "bool \<Rightarrow> byte list \<Rightarrow> byte list \<Rightarrow> byte list option"

record hmac_ctx =
  h_size :: int
  h_mac :: "byte list \<Rightarrow> byte list"

record key_ctx =
  k_cipher :: "cipher_ctx option"
  k_hmac :: "hmac_ctx option"

record key_ctx_bi =
  kb_encrypt :: key_ctx
  kb_decrypt :: key_ctx

record crypto_options =
  co_key_ctx_bi :: "key_ctx_bi option"
  co_packet_id :: "packet_id option"
  co_pid_persist :: "packet_id_persist option"
  co_flags :: u32

definition CO_PACKET_ID_LONG_FORM :: u32 where "CO_PACKET_ID_LONG_FORM = 1"
definition CO_USE_IV :: u32 where "CO_USE_IV = 2"
definition CO_IGNORE_PACKET_ID :: u32 where "CO_IGNORE_PACKET_ID = 4"
definition CO_MUTE_REPLAY_WARNINGS :: u32 where "CO_MUTE_REPLAY_WARNINGS = 8"

definition EVP_MAX_IV_LENGTH :: nat where "EVP_MAX_IV_LENGTH = 16"

definition co_long_form :: "crypto_options \<Rightarrow> bool" where
  "co_long_form opt \<longleftrightarrow> co_flags opt AND CO_PACKET_ID_LONG_FORM \<noteq> 0"

definition co_use_iv :: "crypto_options \<Rightarrow> bool" where
  "co_use_iv opt \<longleftrightarrow> co_flags opt AND CO_USE_IV \<noteq> 0"

definition DO_ENCRYPT :: bool where "DO_ENCRYPT = True"
definition DO_DECRYPT :: bool where "DO_DECRYPT = False"

section \<open>Encryption\<close>

definition encrypt_packet_id :: "time_t \<Rightarrow> packet_id \<Rightarrow> bool \<Rightarrow> buffer \<Rightarrow> (packet_id \<times> buffer) result" where
  \<comment> \<open>allocate a packet id and prepend it to the plaintext\<close>
  "encrypt_packet_id now pid long_form b =
     bind_result (packet_id_alloc_outgoing now (pid_send pid) long_form) (\<lambda>(p, pin).
       case packet_id_write pin b long_form True of (ok, b) \<Rightarrow>
         assert_that ok (Inr (pid\<lparr>pid_send := p\<rparr>, b)))"

definition encrypt_iv ::
    "time_t \<Rightarrow> byte list \<Rightarrow> cipher_ctx \<Rightarrow> crypto_options \<Rightarrow> buffer \<Rightarrow> (byte list \<times> crypto_options \<times> buffer) result" where
  \<comment> \<open>the mode-dependent part: \<open>iv_buf\<close>, the options with the new packet id state, the plaintext\<close>
  "encrypt_iv now prng ctx opt b =
     (case cc_mode ctx of
        EVP_CIPH_CBC_MODE \<Rightarrow>
          (let iv_buf = replicate EVP_MAX_IV_LENGTH 0;
               iv_buf = (if co_use_iv opt then mem_write iv_buf 0 (take (nat (cc_iv_length ctx)) prng) else iv_buf)
           in case co_packet_id opt of
                Some pid \<Rightarrow>
                  bind_result (encrypt_packet_id now pid (co_long_form opt) b) (\<lambda>(pid, b).
                    Inr (iv_buf, opt\<lparr>co_packet_id := Some pid\<rparr>, b))
              | None \<Rightarrow> Inr (iv_buf, opt, b))
      | EVP_CIPH_OTHER_MODE \<Rightarrow> Inl AssertFailed
      | _ \<Rightarrow>
          assert_that (co_use_iv opt)
            (case co_packet_id opt of
               None \<Rightarrow> Inl AssertFailed
             | Some pid \<Rightarrow>
                 bind_result (packet_id_alloc_outgoing now (pid_send pid) True) (\<lambda>(p, pin).
                   bind_result (buf_set_write clear_buf (Some (replicate EVP_MAX_IV_LENGTH 0)) (cc_iv_length ctx)) (\<lambda>ivb.
                     case packet_id_write pin ivb True False of (ok, ivb) \<Rightarrow>
                       assert_that ok (Inr (buf_block ivb, opt\<lparr>co_packet_id := Some (pid\<lparr>pid_send := p\<rparr>)\<rparr>, b))))))"

definition evp_output :: "buffer \<Rightarrow> int \<Rightarrow> byte list \<Rightarrow> buffer" where
  \<comment> \<open>a call of EVP writes \<open>out\<close> at \<open>BPTR (&work) + n\<close>, and \<open>work.len += outlen\<close>\<close>
  "evp_output work n out =
     (let work = buf_put work (b_offset work + n) out in work\<lparr>b_len := b_len work + int (length out)\<rparr>)"

definition encrypt_cipher ::
    "cipher_ctx \<Rightarrow> bool \<Rightarrow> byte list \<Rightarrow> buffer \<Rightarrow> buffer \<Rightarrow> frame \<Rightarrow> buffer option result" where
  \<comment> \<open>from the plaintext \<open>b\<close> into \<open>work\<close>; \<open>Inr None\<close> is \<open>goto err\<close>\<close>
  "encrypt_cipher ctx use_iv iv_buf b work frame =
     (case buf_init work (FRAME_HEADROOM frame) of (ok, work) \<Rightarrow> assert_that ok
       (let iv = take (nat (cc_iv_length ctx)) iv_buf; inp = buf_contents b
        in assert_that (cc_init ctx DO_ENCRYPT iv)
          (if \<not> buf_safe work (b_len b + cc_block_size ctx) then Inr None
           else case cc_update ctx DO_ENCRYPT iv inp of
             None \<Rightarrow> Inl AssertFailed
           | Some out1 \<Rightarrow>
               (let work = evp_output work 0 out1
                in case cc_final ctx DO_ENCRYPT iv inp of
                     None \<Rightarrow> Inl AssertFailed
                   | Some out2 \<Rightarrow>
                       (let work = evp_output work (int (length out1)) out2
                        in assert_that (int (length out2) = cc_iv_length ctx)
                             (if use_iv
                              then (case buf_write_prepend work iv of (ok, work) \<Rightarrow> assert_that ok (Inr (Some work)))
                              else Inr (Some work)))))))"

definition hmac_sign :: "hmac_ctx option \<Rightarrow> buffer \<Rightarrow> buffer result" where
  \<comment> \<open>HMAC the ciphertext (or the plaintext without a cipher) and prepend the HMAC\<close>
  "hmac_sign hmac work =
     (case hmac of
        None \<Rightarrow> Inr work
      | Some h \<Rightarrow>
          (let mac = h_mac h (buf_contents work)
           in case buf_prepend work (h_size h) of
                (None, work) \<Rightarrow> Inl AssertFailed
              | (Some p, work) \<Rightarrow>
                  assert_that (int (length mac) = h_size h) (Inr (buf_put work p mac))))"

definition openvpn_encrypt ::
    "time_t \<Rightarrow> byte list \<Rightarrow> buffer \<Rightarrow> buffer \<Rightarrow> crypto_options \<Rightarrow> frame \<Rightarrow> (buffer \<times> crypto_options) result" where
  "openvpn_encrypt now prng b work opt frame =
     (case co_key_ctx_bi opt of
        None \<Rightarrow> Inr (b, opt)
      | Some kb \<Rightarrow>
          if b_len b > 0 then
            (let ctx = kb_encrypt kb
             in bind_result
                  (case k_cipher ctx of
                     Some cipher \<Rightarrow>
                       bind_result (encrypt_iv now prng cipher opt b) (\<lambda>(iv_buf, opt, b).
                         bind_result (encrypt_cipher cipher (co_use_iv opt) iv_buf b work frame) (\<lambda>work.
                           Inr (work, opt, b)))
                   | None \<Rightarrow>
                       (case co_packet_id opt of
                          Some pid \<Rightarrow>
                            bind_result (encrypt_packet_id now pid (co_long_form opt) b) (\<lambda>(pid, b).
                              Inr (Some b, opt\<lparr>co_packet_id := Some pid\<rparr>, b))
                        | None \<Rightarrow> Inr (Some b, opt, b)))
                  (\<lambda>(work, opt, b).
                     case work of
                       None \<Rightarrow> Inr (b\<lparr>b_len := 0\<rparr>, opt)
                     | Some work \<Rightarrow> bind_result (hmac_sign (k_hmac ctx) work) (\<lambda>work. Inr (work, opt))))
          else Inr (b, opt))"

section \<open>Decryption\<close>

text \<open>
  The stages of \<open>openvpn_decrypt\<close> return \<open>Inl b\<close> for \<open>goto error_exit\<close> with \<open>*buf\<close> being \<open>b\<close>
  at that point, and \<open>bind_exit\<close> skips the rest.
\<close>

definition bind_exit :: "(buffer + 'a) result \<Rightarrow> ('a \<Rightarrow> (buffer + 'b) result) \<Rightarrow> (buffer + 'b) result" where
  "bind_exit m f = bind_result m (\<lambda>r. case r of Inl b \<Rightarrow> Inr (Inl b) | Inr x \<Rightarrow> f x)"

definition hmac_verify :: "hmac_ctx option \<Rightarrow> buffer \<Rightarrow> (buffer + buffer) result" where
  "hmac_verify hmac b =
     (case hmac of
        None \<Rightarrow> Inr (Inr b)
      | Some h \<Rightarrow>
          (let hmac_len = h_size h
           in if b_len b < hmac_len then Inr (Inl b)
              else let local_hmac = h_mac h (drop (nat hmac_len) (buf_contents b))
                   in assert_that (int (length local_hmac) = hmac_len)
                        (if local_hmac \<noteq> take (nat hmac_len) (buf_contents b) then Inr (Inl b)
                         else case buf_advance b hmac_len of (ok, b) \<Rightarrow> assert_that ok (Inr (Inr b)))))"

definition decrypt_iv :: "cipher_ctx \<Rightarrow> bool \<Rightarrow> buffer \<Rightarrow> (buffer + byte list \<times> buffer) result" where
  "decrypt_iv ctx use_iv b =
     (let iv_buf = replicate EVP_MAX_IV_LENGTH 0; iv_size = cc_iv_length ctx
      in if use_iv then
           (if b_len b < iv_size then Inr (Inl b)
            else let iv_buf = mem_write iv_buf 0 (take (nat iv_size) (buf_contents b))
                 in case buf_advance b iv_size of (ok, b) \<Rightarrow> assert_that ok (Inr (Inr (iv_buf, b))))
         else Inr (Inr (iv_buf, b)))"

definition decrypt_cipher :: "cipher_ctx \<Rightarrow> byte list \<Rightarrow> buffer \<Rightarrow> buffer \<Rightarrow> buffer + buffer" where
  \<comment> \<open>from \<open>b\<close> into \<open>work\<close>\<close>
  "decrypt_cipher ctx iv_buf b work =
     (let iv = take (nat (cc_iv_length ctx)) iv_buf; inp = buf_contents b
      in if b_len b < 1 then Inl b
         else if \<not> cc_init ctx DO_DECRYPT iv then Inl b
         else if \<not> buf_safe work (b_len b) then Inl b
         else case cc_update ctx DO_DECRYPT iv inp of
           None \<Rightarrow> Inl b
         | Some out1 \<Rightarrow>
             (let work = evp_output work 0 out1
              in case cc_final ctx DO_DECRYPT iv inp of
                   None \<Rightarrow> Inl b
                 | Some out2 \<Rightarrow> Inr (evp_output work (int (length out1)) out2)))"

definition decrypt_packet_id ::
    "cipher_ctx \<Rightarrow> crypto_options \<Rightarrow> byte list \<Rightarrow> buffer \<Rightarrow> buffer \<Rightarrow> (buffer + packet_id_net option \<times> buffer) result" where
  \<comment> \<open>the packet id from the plaintext in \<open>work\<close> or from the IV, \<open>None\<close> for \<open>have_pin\<close> false\<close>
  "decrypt_packet_id ctx opt iv_buf b work =
     (case cc_mode ctx of
        EVP_CIPH_CBC_MODE \<Rightarrow>
          (case co_packet_id opt of
             None \<Rightarrow> Inr (Inr (None, work))
           | Some pid \<Rightarrow>
               (case packet_id_read work (co_long_form opt) of
                  (False, pin, work) \<Rightarrow> Inr (Inl b)
                | (True, pin, work) \<Rightarrow> Inr (Inr (Some pin, work))))
      | EVP_CIPH_OTHER_MODE \<Rightarrow> Inl AssertFailed
      | _ \<Rightarrow>
          assert_that (co_use_iv opt) (assert_that (co_packet_id opt \<noteq> None)
            (bind_result (buf_set_read clear_buf (Some iv_buf) (cc_iv_length ctx)) (\<lambda>ivb.
               case packet_id_read ivb True of
                 (False, pin, ivb) \<Rightarrow> Inr (Inl b)
               | (True, pin, ivb) \<Rightarrow> Inr (Inr (Some pin, work))))))"

definition decrypt_replay ::
    "time_t \<Rightarrow> crypto_options \<Rightarrow> packet_id_net option \<Rightarrow> (bool \<times> crypto_options) result" where
  "decrypt_replay now opt pin =
     (case pin of
        None \<Rightarrow> Inr (True, opt)
      | Some pin \<Rightarrow>
          (case co_packet_id opt of
             None \<Rightarrow> Inl NullDeref
           | Some pid \<Rightarrow>
               bind_result (packet_id_check now (pid_rec pid) pin) (\<lambda>(ok, r).
                 let pid = pid\<lparr>pid_rec := r\<rparr>;
                     opt = opt\<lparr>co_packet_id := Some pid\<rparr>
                 in Inr (ok,
                      if ok \<and> co_long_form opt
                      then opt\<lparr>co_pid_persist := map_option (\<lambda>p. packet_id_persist_save_obj p pid) (co_pid_persist opt)\<rparr>
                      else opt))))"

definition decrypt_open ::
    "key_ctx \<Rightarrow> crypto_options \<Rightarrow> buffer \<Rightarrow> buffer \<Rightarrow> frame \<Rightarrow> (buffer + packet_id_net option \<times> buffer \<times> buffer) result" where
  \<comment> \<open>from the verification of the HMAC to the packet id; also returns \<open>*buf\<close> as it is then\<close>
  "decrypt_open ctx opt b work frame =
     bind_exit (hmac_verify (k_hmac ctx) b) (\<lambda>b.
       case k_cipher ctx of
         Some cipher \<Rightarrow>
           (case buf_init work (FRAME_HEADROOM_ADJ frame FRAME_HEADROOM_MARKER_DECRYPT) of (ok, work) \<Rightarrow>
              assert_that ok
                (bind_exit (decrypt_iv cipher (co_use_iv opt) b) (\<lambda>(iv_buf, b).
                   bind_exit (Inr (decrypt_cipher cipher iv_buf b work)) (\<lambda>work.
                     bind_exit (decrypt_packet_id cipher opt iv_buf b work) (\<lambda>(pin, work).
                       Inr (Inr (pin, work, b)))))))
       | None \<Rightarrow>
           (case co_packet_id opt of
              None \<Rightarrow> Inr (Inr (None, b, b))
            | Some pid \<Rightarrow>
                (case packet_id_read b (co_long_form opt) of
                   (False, pin, work) \<Rightarrow> Inr (Inl b)
                 | (True, pin, work) \<Rightarrow>
                     Inr (Inr (if co_flags opt AND CO_IGNORE_PACKET_ID \<noteq> 0 then None else Some pin, work, b)))))"

definition openvpn_decrypt ::
    "time_t \<Rightarrow> buffer \<Rightarrow> buffer \<Rightarrow> crypto_options \<Rightarrow> frame \<Rightarrow> (bool \<times> buffer \<times> crypto_options) result" where
  "openvpn_decrypt now b work opt frame =
     (case co_key_ctx_bi opt of
        None \<Rightarrow> Inr (True, b, opt)
      | Some kb \<Rightarrow>
          if b_len b > 0 then
            bind_result (decrypt_open (kb_decrypt kb) opt b work frame) (\<lambda>r.
              case r of
                Inl b \<Rightarrow> Inr (False, b\<lparr>b_len := 0\<rparr>, opt)
              | Inr (pin, work, b) \<Rightarrow>
                  bind_result (decrypt_replay now opt pin) (\<lambda>(ok, opt).
                    if ok then Inr (True, work, opt) else Inr (False, b\<lparr>b_len := 0\<rparr>, opt)))
          else Inr (True, b, opt))"

section \<open>Sizes\<close>

definition crypto_adjust_frame_parameters :: "frame \<Rightarrow> int \<Rightarrow> int \<Rightarrow> int \<Rightarrow> bool \<Rightarrow> bool \<Rightarrow> bool \<Rightarrow> bool \<Rightarrow> frame" where
  \<comment> \<open>the first three numbers are the IV length, block size and HMAC length of \<open>kt\<close>\<close>
  "crypto_adjust_frame_parameters frame iv_length block_size hmac_length cipher_defined use_iv packet_id long_form =
     frame_add_to_extra_frame frame
       ((if packet_id then packet_id_size long_form else 0)
        + (if cipher_defined \<and> use_iv then iv_length else 0)
        + (if cipher_defined then block_size else 0)
        + hmac_length)"


section \<open>What is assumed of OpenSSL\<close>

definition cbc_cipher :: "int \<Rightarrow> cipher_ctx \<Rightarrow> cipher_ctx \<Rightarrow> bool" where
  \<comment> \<open>two contexts of a CBC block cipher with the same key: the last encryption block is always
     full because of the padding, and decryption inverts encryption\<close>
  "cbc_cipher bs ce cd \<longleftrightarrow>
     0 < bs \<and> bs \<le> int EVP_MAX_IV_LENGTH
     \<and> cc_mode ce = EVP_CIPH_CBC_MODE \<and> cc_mode cd = EVP_CIPH_CBC_MODE
     \<and> cc_iv_length ce = bs \<and> cc_iv_length cd = bs \<and> cc_block_size ce = bs
     \<and> (\<forall>iv. cc_init ce True iv \<and> cc_init cd False iv)
     \<and> (\<forall>iv x. \<exists>u f u' f'. cc_update ce True iv x = Some u \<and> cc_final ce True iv x = Some f
          \<and> length u \<le> length x \<and> int (length f) = bs
          \<and> cc_update cd False iv (u @ f) = Some u' \<and> cc_final cd False iv (u @ f) = Some f' \<and> u' @ f' = x)"

definition hmac_ok :: "hmac_ctx \<Rightarrow> bool" where
  "hmac_ok h \<longleftrightarrow> 0 \<le> h_size h \<and> (\<forall>x. int (length (h_mac h x)) = h_size h)"

section \<open>The stages\<close>

lemma buf_put_len: "(buf_put b p bs)\<lparr>b_len := l\<rparr> = buf_put (b\<lparr>b_len := l\<rparr>) p bs"
  by (simp add: buf_put_def)

lemma evp_output_write:
  assumes "buf_ok b" "length out \<le> buf_room b" "n = b_len b"
  shows "buf_write b out = (True, evp_output b n out)"
proof -
  have "buf_safe b (int (length out))"
  proof -
    have "b_offset b + b_len b + int (length out) \<le> b_capacity b" "0 \<le> b_offset b" "0 \<le> b_len b"
        "b_capacity b < BUF_SIZE_MAX"
      using assms(1,2) buf_room_eq [OF assms(1)] by (auto simp: buf_ok_def)
    with assms(1) show ?thesis by (simp add: buf_safe_def buf_size_valid_def BUF_SIZE_MAX_def)
  qed
  with assms(1,3) show ?thesis
    by (simp add: evp_output_def Let_def buf_put_len buf_write_def buf_write_alloc_def)
qed

lemma evp_output_ok:
  assumes "buf_ok b" "length out \<le> buf_room b" "n = b_len b"
  shows "buf_ok (evp_output b n out) \<and> buf_contents (evp_output b n out) = buf_contents b @ out
    \<and> buf_room (evp_output b n out) = buf_room b - length out
    \<and> buf_headroom (evp_output b n out) = buf_headroom b
    \<and> b_len (evp_output b n out) = b_len b + int (length out)"
  using buf_write_ok [OF assms(1,2)] evp_output_write [OF assms]
  by (auto simp: evp_output_def Let_def)

lemma hmac_sign_ok:
  assumes "buf_ok b" "hmac_ok h" "h_size h \<le> int (buf_headroom b)"
  shows "\<exists>b'. hmac_sign (Some h) b = Inr b' \<and> buf_ok b' \<and> buf_contents b' = h_mac h (buf_contents b) @ buf_contents b"
proof -
  let ?m = "h_mac h (buf_contents b)"
  have len: "int (length ?m) = h_size h" "length ?m \<le> buf_headroom b"
    using assms(2,3) by (auto simp: hmac_ok_def) (metis nat_int nat_le_iff of_nat_le_iff)
  obtain b' where b': "buf_write_prepend b ?m = (True, b')" "buf_ok b'" "buf_contents b' = ?m @ buf_contents b"
    using buf_write_prepend_ok [OF assms(1) len(2)] by blast
  then have "\<exists>p b1. buf_prepend b (h_size h) = (Some p, b1) \<and> b' = buf_put b1 p ?m"
    using len(1) by (auto simp: buf_write_prepend_def split: option.splits prod.splits)
  with b' len(1) show ?thesis by (auto simp: hmac_sign_def Let_def)
qed

lemma hmac_verify_ok:
  assumes "buf_ok b" "hmac_ok h"
  shows "(\<exists>rest b'. buf_contents b = h_mac h rest @ rest \<and> hmac_verify (Some h) b = Inr (Inr b') \<and> buf_ok b'
            \<and> buf_contents b' = rest \<and> b_len b' = b_len b - h_size h)
       \<or> (\<nexists>rest. buf_contents b = h_mac h rest @ rest) \<and> hmac_verify (Some h) b = Inr (Inl b)"
proof (cases "\<exists>rest. buf_contents b = h_mac h rest @ rest")
  case True
  then obtain rest where r: "buf_contents b = h_mac h rest @ rest" by blast
  have len: "int (length (h_mac h rest)) = h_size h" "0 \<le> h_size h" using assms(2) by (auto simp: hmac_ok_def)
  then have le: "h_size h \<le> b_len b" using length_buf_contents [OF assms(1)] r by simp
  obtain b' where b': "buf_advance b (h_size h) = (True, b')" "buf_ok b'"
      "buf_contents b' = drop (nat (h_size h)) (buf_contents b)" "b_len b' = b_len b - h_size h"
    using buf_advance_ok [OF assms(1) len(2) le] by blast
  have n: "nat (h_size h) = length (h_mac h rest)" using len(1) by simp
  then have "hmac_verify (Some h) b = Inr (Inr b')" "buf_contents b' = rest"
    using r b' le len(1) by (simp_all add: hmac_verify_def Let_def)
  with r b' show ?thesis by blast
next
  case False
  have "hmac_verify (Some h) b = Inr (Inl b)"
  proof (cases "b_len b < h_size h")
    case True
    then show ?thesis by (simp add: hmac_verify_def Let_def)
  next
    case le: False
    let ?rest = "drop (nat (h_size h)) (buf_contents b)"
    have "h_mac h ?rest \<noteq> take (nat (h_size h)) (buf_contents b)"
      using False append_take_drop_id by metis
    with le assms(2) show ?thesis by (simp add: hmac_verify_def Let_def hmac_ok_def)
  qed
  with False show ?thesis by blast
qed

lemma openvpn_decrypt_forgery:
  assumes "co_key_ctx_bi opt = Some kb" "k_hmac (kb_decrypt kb) = Some h" "hmac_ok h" "buf_ok b" "0 < b_len b"
    and "\<nexists>rest. buf_contents b = h_mac h rest @ rest"
  shows "openvpn_decrypt now b work opt frame = Inr (False, b\<lparr>b_len := 0\<rparr>, opt)"
proof -
  have "hmac_verify (Some h) b = Inr (Inl b)" using hmac_verify_ok [OF assms(4,3)] assms(6) by blast
  with assms(1,2,5) show ?thesis by (simp add: openvpn_decrypt_def decrypt_open_def bind_exit_def)
qed

text \<open>C15. Integrity: with an HMAC configured, a packet that does not begin with the HMAC of the
  rest of it is dropped: the result is false with an empty buffer, and neither the replay window
  nor the persistent state changes.\<close>

theorem openvpn_decrypt_rejects_forgery:
  assumes "co_key_ctx_bi opt = Some kb" "k_hmac (kb_decrypt kb) = Some h" "hmac_ok h" "buf_ok b" "0 < b_len b"
    and "\<nexists>rest. buf_contents b = h_mac h rest @ rest"
  shows "openvpn_decrypt now b work opt frame = Inr (False, b\<lparr>b_len := 0\<rparr>, opt)"
  by (rule openvpn_decrypt_forgery [OF assms])

definition ex_hmac :: hmac_ctx where
  "ex_hmac = \<lparr>h_size = 2, h_mac = (\<lambda>x. [of_nat (length x), foldr (XOR) x 0])\<rparr>"

definition ex_cipher :: cipher_ctx where
  \<comment> \<open>a toy CBC context: ``encryption'' appends a block of zeros\<close>
  "ex_cipher = \<lparr>cc_mode = EVP_CIPH_CBC_MODE, cc_iv_length = 2, cc_block_size = 2, cc_init = (\<lambda>_ _. True),
     cc_update = (\<lambda>enc _ x. Some (if enc then x else take (length x - 2) x)),
     cc_final = (\<lambda>enc _ x. Some (if enc then [0, 0] else []))\<rparr>"

definition ex_opt :: crypto_options where
  "ex_opt = \<lparr>co_key_ctx_bi = Some \<lparr>kb_encrypt = \<lparr>k_cipher = Some ex_cipher, k_hmac = Some ex_hmac\<rparr>,
                                 kb_decrypt = \<lparr>k_cipher = Some ex_cipher, k_hmac = Some ex_hmac\<rparr>\<rparr>,
     co_packet_id = Some (projr (packet_id_init 64 15)), co_pid_persist = None, co_flags = 2\<rparr>"

lemma ex_hmac_ok: "hmac_ok ex_hmac"
  by (simp add: hmac_ok_def ex_hmac_def)

theorem openvpn_decrypt_rejects_forgery_witness:
  "openvpn_decrypt 100 \<lparr>b_capacity = 3, b_offset = 0, b_len = 3, b_data = Some [1, 9, 7]\<rparr> clear_buf ex_opt ex_frame
     = Inr (False, \<lparr>b_capacity = 3, b_offset = 0, b_len = 0, b_data = Some [1, 9, 7]\<rparr>, ex_opt)"
proof -
  let ?b = "\<lparr>b_capacity = 3, b_offset = 0, b_len = 3, b_data = Some [1, 9, 7]\<rparr>"
  have b: "buf_ok ?b" "buf_contents ?b = [1, 9, 7]" by code_simp+
  have "\<nexists>rest. [1, 9, 7] = h_mac ex_hmac rest @ rest"
    by (auto simp: ex_hmac_def)
  with openvpn_decrypt_rejects_forgery [of ex_opt _ ex_hmac ?b 100 clear_buf ex_frame] ex_hmac_ok b show ?thesis
    by (simp add: ex_opt_def)
qed

lemma encrypt_packet_id_ok:
  assumes "buf_ok b" "packet_id_size lf \<le> int (buf_headroom b)" "unat (s_id (pid_send pid)) + 1 < 2 ^ 32"
  shows "\<exists>pid' pin b'. encrypt_packet_id now pid lf b = Inr (pid', b') \<and> buf_ok b'
     \<and> packet_id_alloc_outgoing now (pid_send pid) lf = Inr (pid_send pid', pin) \<and> pid_rec pid' = pid_rec pid
     \<and> buf_contents b' = packet_id_bytes pin lf @ buf_contents b
     \<and> b_len b' = b_len b + packet_id_size lf"
proof -
  obtain p pin where p: "packet_id_alloc_outgoing now (pid_send pid) lf = Inr (p, pin)"
    using alloc_outgoing_next(1) [OF assms(3)] by (auto simp: Let_def)
  have "length (packet_id_bytes pin lf) \<le> buf_headroom b"
    using assms(2) length_packet_id_bytes [of pin lf] by simp
  then obtain b' where b': "packet_id_write pin b lf True = (True, b')" "buf_ok b'"
      "buf_contents b' = packet_id_bytes pin lf @ buf_contents b"
    using packet_id_write_bytes [OF assms(1), of pin lf True] by auto
  moreover have "b_len b' = b_len b + packet_id_size lf"
    using length_buf_contents [OF b'(2)] length_buf_contents [OF assms(1)] b'(3) length_packet_id_bytes [of pin lf]
    by simp
  ultimately show ?thesis using p by (auto simp: encrypt_packet_id_def)
qed

lemma encrypt_cipher_ok:
  assumes c: "cbc_cipher bs ce cd" and b: "buf_ok b" and w: "buf_ok work" "0 \<le> FRAME_HEADROOM frame"
    and room: "FRAME_HEADROOM frame + b_len b + bs \<le> b_capacity work"
    and iv: "length iv_buf = EVP_MAX_IV_LENGTH" "use_iv \<longrightarrow> bs \<le> FRAME_HEADROOM frame"
  shows "\<exists>work' ct u f. encrypt_cipher ce use_iv iv_buf b work frame = Inr (Some work') \<and> buf_ok work'
     \<and> buf_contents work' = (if use_iv then take (nat bs) iv_buf else []) @ ct
     \<and> int (buf_headroom work') = FRAME_HEADROOM frame - (if use_iv then bs else 0)
     \<and> bs \<le> int (length ct) \<and> int (length ct) \<le> b_len b + bs
     \<and> cc_update cd False (take (nat bs) iv_buf) ct = Some u \<and> cc_final cd False (take (nat bs) iv_buf) ct = Some f
     \<and> u @ f = buf_contents b"
proof -
  let ?iv = "take (nat bs) iv_buf" and ?x = "buf_contents b"
  have bs: "0 < bs" "bs \<le> 16" "cc_iv_length ce = bs" "cc_block_size ce = bs" "\<And>iv. cc_init ce True iv"
    using c by (auto simp: cbc_cipher_def EVP_MAX_IV_LENGTH_def)
  obtain u f u' f' where x: "cc_update ce True ?iv ?x = Some u" "cc_final ce True ?iv ?x = Some f"
      "length u \<le> length ?x" "int (length f) = bs" "cc_update cd False ?iv (u @ f) = Some u'"
      "cc_final cd False ?iv (u @ f) = Some f'" "u' @ f' = ?x"
    using c unfolding cbc_cipher_def by blast
  have lx: "int (length ?x) = b_len b" by (rule length_buf_contents [OF b])
  have "0 \<le> b_len b" using b by (simp add: buf_ok_def)
  then obtain w0 where w0: "buf_init work (FRAME_HEADROOM frame) = (True, w0)" "buf_ok w0"
      "b_offset w0 = FRAME_HEADROOM frame" "b_len w0 = 0" "b_capacity w0 = b_capacity work"
    using buf_init_ok [OF w(1,2)] room bs(1) by auto
  have room0: "b_len b + bs \<le> int (buf_room w0)" using buf_room_eq [OF w0(2)] w0(3-5) room by simp
  have c0: "buf_contents w0 = []" using w0(2,4) by (simp add: buf_contents_def)
  have "length u \<le> buf_room w0" using x(3) lx room0 bs(1) by linarith
  note w1 = evp_output_ok [OF w0(2) this w0(4) [symmetric]]
  let ?w1 = "evp_output w0 0 u"
  have "length f \<le> buf_room ?w1" "int (length u) = b_len ?w1" using w1 x(3,4) lx room0 w0(4) by linarith+
  note w2 = evp_output_ok [OF _ this]
  let ?w2 = "evp_output ?w1 (int (length u)) f"
  have safe: "buf_safe w0 (b_len b + bs)"
    using w0 room0 buf_room_eq [OF w0(2)] bs(1) \<open>0 \<le> b_len b\<close>
    by (simp add: buf_safe_def buf_size_valid_def buf_ok_def BUF_SIZE_MAX_def)
  have w2': "buf_ok ?w2" "buf_contents ?w2 = u @ f" "buf_headroom ?w2 = buf_headroom w0"
    using w1 w2 c0 by auto
  have hr: "int (buf_headroom w0) = FRAME_HEADROOM frame" using buf_headroom_eq [OF w0(2)] w0(3) by simp
  have ct: "bs \<le> int (length (u @ f))" "int (length (u @ f)) \<le> b_len b + bs" using x(3,4) lx by simp_all
  have liv: "int (length ?iv) = bs" using iv(1) bs(1,2) by (simp add: EVP_MAX_IV_LENGTH_def)
  show ?thesis
  proof (cases use_iv)
    case False
    then have "encrypt_cipher ce use_iv iv_buf b work frame = Inr (Some ?w2)"
      using w0(1) bs x(1,2,4) safe by (simp add: encrypt_cipher_def Let_def DO_ENCRYPT_def)
    with False w2' hr ct x(5-7) show ?thesis by fastforce
  next
    case True
    have "length ?iv \<le> buf_headroom ?w2" using liv True iv(2) hr w2'(3) by linarith
    then obtain w3 where w3: "buf_write_prepend ?w2 ?iv = (True, w3)" "buf_ok w3" "buf_contents w3 = ?iv @ u @ f"
        "buf_headroom w3 = buf_headroom ?w2 - length ?iv"
      using buf_write_prepend_ok [OF w2'(1), of ?iv] w2'(2) by auto
    have "encrypt_cipher ce use_iv iv_buf b work frame = Inr (Some w3)"
      using True w0(1) bs x(1,2,4) safe w3(1) by (simp add: encrypt_cipher_def Let_def DO_ENCRYPT_def)
    moreover have "int (buf_headroom w3) = FRAME_HEADROOM frame - bs"
      using w3(4) w2'(3) hr liv \<open>length ?iv \<le> buf_headroom ?w2\<close> by linarith
    ultimately show ?thesis using True w3(2,3) ct x(5-7) by fastforce
  qed
qed

lemma decrypt_cipher_ok:
  assumes c: "cbc_cipher bs ce cd" and b: "buf_ok b" "0 < b_len b" and w: "buf_ok work" "b_len work = 0"
    and room: "b_len b \<le> int (buf_room work)"
    and x: "cc_update cd False (take (nat bs) iv_buf) (buf_contents b) = Some u"
      "cc_final cd False (take (nat bs) iv_buf) (buf_contents b) = Some f"
      "int (length (u @ f)) \<le> int (buf_room work)"
  shows "\<exists>work'. decrypt_cipher cd iv_buf b work = Inr work' \<and> buf_ok work' \<and> buf_contents work' = u @ f"
proof -
  have bs: "cc_iv_length cd = bs" "\<And>iv. cc_init cd False iv" using c by (auto simp: cbc_cipher_def)
  have c0: "buf_contents work = []" using w by (simp add: buf_contents_def)
  have "length u \<le> buf_room work" using x(3) by simp
  note w1 = evp_output_ok [OF w(1) this w(2) [symmetric]]
  let ?w1 = "evp_output work 0 u"
  have "length f \<le> buf_room ?w1" "int (length u) = b_len ?w1" using w1 x(3) w(2) by simp_all
  note w2 = evp_output_ok [OF _ this]
  have "buf_safe work (b_len b)"
    using w b room buf_room_eq [OF w(1)] by (simp add: buf_safe_def buf_size_valid_def buf_ok_def BUF_SIZE_MAX_def)
  then have "decrypt_cipher cd iv_buf b work = Inr (evp_output ?w1 (int (length u)) f)"
    using b(2) bs x(1,2) by (simp add: decrypt_cipher_def Let_def DO_DECRYPT_def)
  with w1 w2 c0 show ?thesis by auto
qed

lemma decrypt_iv_ok:
  assumes "buf_ok b" "0 < bs" "bs \<le> int EVP_MAX_IV_LENGTH" "cc_iv_length cd = bs"
    and iv: "length iv_buf = EVP_MAX_IV_LENGTH" "use_iv \<or> iv_buf = replicate EVP_MAX_IV_LENGTH 0"
    and ct: "buf_contents b = (if use_iv then take (nat bs) iv_buf else []) @ ct"
  shows "\<exists>iv' b'. decrypt_iv cd use_iv b = Inr (Inr (iv', b')) \<and> take (nat bs) iv' = take (nat bs) iv_buf
           \<and> buf_ok b' \<and> buf_contents b' = ct"
proof (cases use_iv)
  case False
  with iv(2) ct assms(1) show ?thesis by (simp add: decrypt_iv_def Let_def)
next
  case True
  let ?iv = "take (nat bs) iv_buf"
  have liv: "length ?iv = nat bs" using iv(1) assms(3) by (simp add: EVP_MAX_IV_LENGTH_def)
  have le: "bs \<le> b_len b" using length_buf_contents [OF assms(1)] ct True liv assms(2) by simp
  obtain b' where b': "buf_advance b bs = (True, b')" "buf_ok b'" "buf_contents b' = drop (nat bs) (buf_contents b)"
    using buf_advance_ok [OF assms(1) _ le] assms(2) by auto
  have "take (nat bs) (buf_contents b) = ?iv" "drop (nat bs) (buf_contents b) = ct" using ct True liv by simp_all
  moreover have "take (nat bs) (mem_write (replicate EVP_MAX_IV_LENGTH 0) 0 ?iv) = ?iv"
    using liv by (simp add: mem_write_def)
  ultimately show ?thesis using True le assms(4) b' by (simp add: decrypt_iv_def Let_def)
qed

section \<open>The data channel from end to end\<close>

lemma encrypt_ok:
  assumes c: "cbc_cipher bs ce cd" and h: "hmac_ok h"
    and b: "buf_ok b" "0 < b_len b" "packet_id_size (co_long_form opt) \<le> b_offset b"
    and w: "buf_ok work" "h_size h + bs \<le> FRAME_HEADROOM frame"
      "FRAME_HEADROOM frame + packet_id_size (co_long_form opt) + b_len b + bs \<le> b_capacity work"
    and opt: "co_key_ctx_bi opt = Some kb" "kb_encrypt kb = \<lparr>k_cipher = Some ce, k_hmac = Some h\<rparr>"
      "co_packet_id opt = Some pid" "unat (s_id (pid_send pid)) + 1 < 2 ^ 32"
    and prng: "int (length prng) = bs"
    and pin: "packet_id_alloc_outgoing now (pid_send pid) (co_long_form opt) = Inr (p, pin)"
  shows "\<exists>out opt1 iv_buf ct u f. openvpn_encrypt now prng b work opt frame = Inr (out, opt1) \<and> buf_ok out
     \<and> buf_contents out = (let x = (if co_use_iv opt then take (nat bs) iv_buf else []) @ ct in h_mac h x @ x)
     \<and> length iv_buf = EVP_MAX_IV_LENGTH \<and> (co_use_iv opt \<or> iv_buf = replicate EVP_MAX_IV_LENGTH 0)
     \<and> bs \<le> int (length ct) \<and> int (length ct) \<le> packet_id_size (co_long_form opt) + b_len b + bs
     \<and> cc_update cd False (take (nat bs) iv_buf) ct = Some u \<and> cc_final cd False (take (nat bs) iv_buf) ct = Some f
     \<and> u @ f = packet_id_bytes pin (co_long_form opt) @ buf_contents b"
proof -
  let ?lf = "co_long_form opt" and ?iv = "co_use_iv opt"
  have bs: "0 < bs" "bs \<le> 16" "cc_mode ce = EVP_CIPH_CBC_MODE" "cc_iv_length ce = bs"
    using c by (auto simp: cbc_cipher_def EVP_MAX_IV_LENGTH_def)
  have hs: "0 \<le> h_size h" using h by (simp add: hmac_ok_def)
  obtain pid' b1 where b1: "encrypt_packet_id now pid ?lf b = Inr (pid', b1)" "buf_ok b1"
      "buf_contents b1 = packet_id_bytes pin ?lf @ buf_contents b" "b_len b1 = b_len b + packet_id_size ?lf"
    using encrypt_packet_id_ok [OF b(1) _ opt(4), of ?lf now] b(3) buf_headroom_eq [OF b(1)] pin by auto
  define iv_buf where "iv_buf = (if ?iv then mem_write (replicate EVP_MAX_IV_LENGTH 0) 0 prng else replicate EVP_MAX_IV_LENGTH 0)"
  let ?opt = "opt\<lparr>co_packet_id := Some pid'\<rparr>"
  have liv: "length iv_buf = EVP_MAX_IV_LENGTH" using prng bs(2) by (simp add: iv_buf_def EVP_MAX_IV_LENGTH_def)
  have iv: "encrypt_iv now prng ce opt b = Inr (iv_buf, ?opt, b1)"
    using bs(3,4) opt(3) b1(1) prng by (simp add: encrypt_iv_def Let_def iv_buf_def)
  have sz: "FRAME_HEADROOM frame + b_len b1 + bs \<le> b_capacity work" "0 \<le> FRAME_HEADROOM frame"
      "?iv \<longrightarrow> bs \<le> FRAME_HEADROOM frame" using w(2,3) b1(4) bs(1) hs by auto
  obtain w1 ct u f where w1: "encrypt_cipher ce ?iv iv_buf b1 work frame = Inr (Some w1)" "buf_ok w1"
      "buf_contents w1 = (if ?iv then take (nat bs) iv_buf else []) @ ct"
      "int (buf_headroom w1) = FRAME_HEADROOM frame - (if ?iv then bs else 0)"
      "bs \<le> int (length ct)" "int (length ct) \<le> b_len b1 + bs"
      "cc_update cd False (take (nat bs) iv_buf) ct = Some u" "cc_final cd False (take (nat bs) iv_buf) ct = Some f"
      "u @ f = buf_contents b1"
    using encrypt_cipher_ok [OF c b1(2) w(1) sz(2,1) liv sz(3)] by blast
  have "h_size h \<le> int (buf_headroom w1)" using w1(4) w(2) bs(1) by (simp split: if_splits)
  then obtain out where out: "hmac_sign (Some h) w1 = Inr out" "buf_ok out"
      "buf_contents out = h_mac h (buf_contents w1) @ buf_contents w1"
    using hmac_sign_ok [OF w1(2) h] by blast
  have flags: "co_use_iv ?opt = ?iv" by (simp add: co_use_iv_def)
  have "openvpn_encrypt now prng b work opt frame = Inr (out, ?opt)"
    using opt(1,2) b(2) iv w1(1) out(1) flags by (simp add: openvpn_encrypt_def Let_def)
  moreover have "?iv \<or> iv_buf = replicate EVP_MAX_IV_LENGTH 0" by (simp add: iv_buf_def)
  ultimately show ?thesis
    using out w1(3,5-9) b1(3,4) liv
    by (intro exI [of _ out] exI [of _ ?opt] exI [of _ iv_buf] exI [of _ ct] exI [of _ u] exI [of _ f] conjI)
       (simp_all add: Let_def)
qed

lemma decrypt_ok:
  assumes c: "cbc_cipher bs ce cd" and h: "hmac_ok h"
    and opt: "co_key_ctx_bi opt = Some kb" "kb_decrypt kb = \<lparr>k_cipher = Some cd, k_hmac = Some h\<rparr>"
      "co_packet_id opt = Some pid"
    and inp: "buf_ok inp" "buf_contents inp = (let x = (if co_use_iv opt then take (nat bs) iv_buf else []) @ ct in h_mac h x @ x)"
    and iv: "length iv_buf = EVP_MAX_IV_LENGTH" "co_use_iv opt \<or> iv_buf = replicate EVP_MAX_IV_LENGTH 0"
    and ct: "bs \<le> int (length ct)"
      "cc_update cd False (take (nat bs) iv_buf) ct = Some u" "cc_final cd False (take (nat bs) iv_buf) ct = Some f"
      "u @ f = packet_id_bytes pin (co_long_form opt) @ x"
    and w: "buf_ok work" "0 \<le> FRAME_HEADROOM_ADJ frame FRAME_HEADROOM_MARKER_DECRYPT"
      "FRAME_HEADROOM_ADJ frame FRAME_HEADROOM_MARKER_DECRYPT + int (length ct) \<le> b_capacity work"
      "FRAME_HEADROOM_ADJ frame FRAME_HEADROOM_MARKER_DECRYPT + int (length (u @ f)) \<le> b_capacity work"
    and fresh: "packet_id_check now (pid_rec pid) (packet_id_as_sent pin (co_long_form opt)) = Inr (True, r)"
  shows "\<exists>d opt1. openvpn_decrypt now inp work opt frame = Inr (True, d, opt1) \<and> buf_ok d \<and> buf_contents d = x"
proof -
  let ?lf = "co_long_form opt" and ?iv = "co_use_iv opt"
  let ?off = "FRAME_HEADROOM_ADJ frame FRAME_HEADROOM_MARKER_DECRYPT"
  let ?y = "(if ?iv then take (nat bs) iv_buf else []) @ ct"
  have bs: "0 < bs" "bs \<le> int EVP_MAX_IV_LENGTH" "cc_mode cd = EVP_CIPH_CBC_MODE" "cc_iv_length cd = bs"
    using c by (auto simp: cbc_cipher_def)
  have cont: "buf_contents inp = h_mac h ?y @ ?y" using inp(2) by (simp add: Let_def)
  obtain b1 where b1: "hmac_verify (Some h) inp = Inr (Inr b1)" "buf_ok b1" "buf_contents b1 = ?y"
  proof -
    obtain rest b' where r: "buf_contents inp = h_mac h rest @ rest" "hmac_verify (Some h) inp = Inr (Inr b')"
        "buf_ok b'" "buf_contents b' = rest"
      using hmac_verify_ok [OF inp(1) h] cont by blast
    have "length (h_mac h rest) = length (h_mac h ?y)" using h unfolding hmac_ok_def by (metis of_nat_eq_iff)
    with r cont have "rest = ?y" by auto
    with r that show ?thesis by blast
  qed
  obtain w0 where w0: "buf_init work ?off = (True, w0)" "buf_ok w0" "b_offset w0 = ?off" "b_len w0 = 0"
      "b_capacity w0 = b_capacity work"
    using buf_init_ok [OF w(1,2)] w(3) by auto
  have room: "int (length ct) \<le> int (buf_room w0)" "int (length (u @ f)) \<le> int (buf_room w0)"
    using buf_room_eq [OF w0(2)] w0(3-5) w(3,4) by linarith+
  obtain iv' b2 where b2: "decrypt_iv cd ?iv b1 = Inr (Inr (iv', b2))" "take (nat bs) iv' = take (nat bs) iv_buf"
      "buf_ok b2" "buf_contents b2 = ct"
    using decrypt_iv_ok [OF b1(2) bs(1,2,4) iv b1(3)] by blast
  have len: "b_len b2 = int (length ct)" using length_buf_contents [OF b2(3)] b2(4) by simp
  have "0 < b_len b2" "b_len b2 \<le> int (buf_room w0)" using len ct(1) bs(1) room(1) by linarith+
  then obtain w1 where w1: "decrypt_cipher cd iv' b2 w0 = Inr w1" "buf_ok w1" "buf_contents w1 = u @ f"
    using decrypt_cipher_ok [OF c b2(3) _ w0(2,4), of iv' u f] b2(2,4) ct(2,3) room(2) by auto
  obtain d where d: "packet_id_read w1 ?lf = (True, packet_id_as_sent pin ?lf, d)" "buf_ok d" "buf_contents d = x"
    using packet_id_read_bytes [OF w1(2), of pin ?lf x] w1(3) ct(4) by auto
  have open_: "decrypt_open (kb_decrypt kb) opt inp work frame = Inr (Inr (Some (packet_id_as_sent pin ?lf), d, b2))"
    using opt(2,3) b1(1) w0(1) b2(1) w1(1) d(1) bs(3)
    by (simp add: decrypt_open_def bind_exit_def decrypt_packet_id_def)
  have "0 < b_len inp"
    using length_buf_contents [OF inp(1)] cont ct(1) bs(1) by simp
  moreover have "\<exists>opt1. decrypt_replay now opt (Some (packet_id_as_sent pin ?lf)) = Inr (True, opt1)"
    using opt(3) fresh by (simp add: decrypt_replay_def Let_def)
  ultimately show ?thesis using opt(1) open_ d(2,3) by (auto simp: openvpn_decrypt_def)
qed

text \<open>C16. Round trip of the data channel: a packet encrypted and authenticated in CBC mode, in
  either packet id form and with or without an explicit IV, is opened by the peer and yields the
  payload, provided the peer has not seen its packet id and the buffers have the sizes of the
  frame.\<close>

theorem data_channel_roundtrip:
  assumes "cbc_cipher bs ce cd" "hmac_ok h"
    and "buf_ok b" "0 < b_len b" "packet_id_size (co_long_form opt) \<le> b_offset b"
    and "buf_ok work" "h_size h + bs \<le> FRAME_HEADROOM frame"
      "FRAME_HEADROOM frame + packet_id_size (co_long_form opt) + b_len b + bs \<le> b_capacity work"
    and "co_key_ctx_bi opt = Some kb" "kb_encrypt kb = \<lparr>k_cipher = Some ce, k_hmac = Some h\<rparr>"
      "co_packet_id opt = Some pid" "unat (s_id (pid_send pid)) + 1 < 2 ^ 32" "int (length prng) = bs"
    and "packet_id_alloc_outgoing now (pid_send pid) (co_long_form opt) = Inr (p, pin)"
    and "co_flags opt' = co_flags opt" "co_key_ctx_bi opt' = Some kb'"
      "kb_decrypt kb' = \<lparr>k_cipher = Some cd, k_hmac = Some h\<rparr>" "co_packet_id opt' = Some pid'"
    and "buf_ok work'" "0 \<le> FRAME_HEADROOM_ADJ frame' FRAME_HEADROOM_MARKER_DECRYPT"
      "FRAME_HEADROOM_ADJ frame' FRAME_HEADROOM_MARKER_DECRYPT + packet_id_size (co_long_form opt) + b_len b + bs
         \<le> b_capacity work'"
    and "packet_id_check now' (pid_rec pid') (packet_id_as_sent pin (co_long_form opt)) = Inr (True, r)"
  shows "\<exists>out opt1 d opt2. openvpn_encrypt now prng b work opt frame = Inr (out, opt1)
           \<and> openvpn_decrypt now' out work' opt' frame' = Inr (True, d, opt2)
           \<and> buf_contents d = buf_contents b"
proof -
  obtain out opt1 iv_buf ct u f where e: "openvpn_encrypt now prng b work opt frame = Inr (out, opt1)" "buf_ok out"
     "buf_contents out = (let x = (if co_use_iv opt then take (nat bs) iv_buf else []) @ ct in h_mac h x @ x)"
     "length iv_buf = EVP_MAX_IV_LENGTH" "co_use_iv opt \<or> iv_buf = replicate EVP_MAX_IV_LENGTH 0"
     "bs \<le> int (length ct)" "int (length ct) \<le> packet_id_size (co_long_form opt) + b_len b + bs"
     "cc_update cd False (take (nat bs) iv_buf) ct = Some u" "cc_final cd False (take (nat bs) iv_buf) ct = Some f"
     "u @ f = packet_id_bytes pin (co_long_form opt) @ buf_contents b"
    using encrypt_ok [OF assms(1-14)] by blast
  have flags: "co_use_iv opt' = co_use_iv opt" "co_long_form opt' = co_long_form opt"
    using assms(15) by (simp_all add: co_use_iv_def co_long_form_def)
  have "int (length (u @ f)) = packet_id_size (co_long_form opt) + b_len b"
    unfolding e(10) using length_buf_contents [OF assms(3)] length_packet_id_bytes [of pin] by simp
  moreover have "0 < bs" using assms(1) by (simp add: cbc_cipher_def)
  ultimately have room: "FRAME_HEADROOM_ADJ frame' FRAME_HEADROOM_MARKER_DECRYPT + int (length ct) \<le> b_capacity work'"
      "FRAME_HEADROOM_ADJ frame' FRAME_HEADROOM_MARKER_DECRYPT + int (length (u @ f)) \<le> b_capacity work'"
    using e(7) assms(21) by linarith+
  have "\<exists>d opt2. openvpn_decrypt now' out work' opt' frame' = Inr (True, d, opt2) \<and> buf_ok d \<and> buf_contents d = buf_contents b"
    using e assms(22) flags
    by (intro decrypt_ok [OF assms(1,2,16-18) e(2), of iv_buf ct u f pin _ _ frame'] assms(19,20) room) simp_all
  with e(1) show ?thesis by blast
qed

lemma ex_cipher_ok: "cbc_cipher 2 ex_cipher ex_cipher"
  by (simp add: cbc_cipher_def ex_cipher_def EVP_MAX_IV_LENGTH_def)

theorem data_channel_roundtrip_witness:
  "\<exists>out opt1 d opt2.
     openvpn_encrypt 100 [5, 6] \<lparr>b_capacity = 16, b_offset = 8, b_len = 3, b_data = Some ([0, 0, 0, 0, 0, 0, 0, 0, 1, 2, 3, 0, 0, 0, 0, 0])\<rparr>
       \<lparr>b_capacity = 64, b_offset = 0, b_len = 0, b_data = Some (replicate 64 0)\<rparr> ex_opt ex_frame = Inr (out, opt1)
     \<and> openvpn_decrypt 101 out \<lparr>b_capacity = 64, b_offset = 0, b_len = 0, b_data = Some (replicate 64 0)\<rparr> ex_opt ex_frame
       = Inr (True, d, opt2)
     \<and> buf_contents d = [1, 2, 3]"
proof -
  let ?b = "\<lparr>b_capacity = 16, b_offset = 8, b_len = 3, b_data = Some ([0, 0, 0, 0, 0, 0, 0, 0, 1, 2, 3, 0, 0, 0, 0, 0])\<rparr>"
  let ?work = "\<lparr>b_capacity = 64, b_offset = 0, b_len = 0, b_data = Some (replicate 64 0)\<rparr>"
  let ?pid = "projr (packet_id_init 64 15)"
  have b: "buf_ok ?b" "buf_contents ?b = [1, 2, 3]" "buf_ok ?work" by code_simp+
  have pid: "s_id (pid_send ?pid) = 0" "\<not> co_long_form ex_opt"
      "packet_id_alloc_outgoing 100 (pid_send ?pid) False = Inr (\<lparr>s_id = 1, s_time = 100\<rparr>, \<lparr>n_id = 1, n_time = 100\<rparr>)"
      "packet_id_check 101 (pid_rec ?pid) (packet_id_as_sent \<lparr>n_id = 1, n_time = 100\<rparr> False)
        = Inr (True, snd (projr (packet_id_check 101 (pid_rec ?pid) (packet_id_as_sent \<lparr>n_id = 1, n_time = 100\<rparr> False))))"
    by code_simp+
  have fr: "FRAME_HEADROOM ex_frame = 48" "FRAME_HEADROOM_ADJ ex_frame FRAME_HEADROOM_MARKER_DECRYPT = 48" by code_simp+
  have lf: "co_long_form ex_opt = False" using pid(2) by simp
  have opt: "co_key_ctx_bi ex_opt = Some \<lparr>kb_encrypt = \<lparr>k_cipher = Some ex_cipher, k_hmac = Some ex_hmac\<rparr>,
      kb_decrypt = \<lparr>k_cipher = Some ex_cipher, k_hmac = Some ex_hmac\<rparr>\<rparr>" "co_packet_id ex_opt = Some ?pid" "h_size ex_hmac = 2"
    by (simp_all add: ex_opt_def ex_hmac_def)
  have "\<exists>out opt1 d opt2. openvpn_encrypt 100 [5, 6] ?b ?work ex_opt ex_frame = Inr (out, opt1)
     \<and> openvpn_decrypt 101 out ?work ex_opt ex_frame = Inr (True, d, opt2)
     \<and> buf_contents d = buf_contents ?b"
    by (rule data_channel_roundtrip [OF ex_cipher_ok ex_hmac_ok b(1) _ _ b(3) _ _ opt(1) _ opt(2) _ _ pid(3) [folded lf]
          refl opt(1) _ opt(2) b(3) _ _ pid(4) [folded lf]])
       (simp_all add: lf fr opt(3) pid(1) packet_id_size_def)
  then show ?thesis unfolding b(2) .
qed


definition ex_stream :: cipher_ctx where
  "ex_stream = \<lparr>cc_mode = EVP_CIPH_CFB_MODE, cc_iv_length = 8, cc_block_size = 1, cc_init = (\<lambda>_ _. True),
     cc_update = (\<lambda>_ _ x. Some x), cc_final = (\<lambda>_ _ _. Some [])\<rparr>"

end
