(* ===== verification/Hash_Table.thy ===== *)
theory Hash_Table
  imports Prelude
begin

text \<open>
  The hash table of the server (list.h, list.c) and \<open>adjust_power_of_2\<close> of misc.c.

  A bucket is the list of its elements in the order of the \<open>next\<close> pointers.  The \<open>void *\<close> keys
  and values are of types \<open>'k\<close> and \<open>'v\<close>; the key \<open>NULL\<close> that marks an element for deletion is
  \<open>None\<close>.  Comparing against a marked element passes \<open>NULL\<close> to the compare function, which
  dereferences it.  An iterator holds positions in the current bucket instead of pointers to
  elements.  \<open>ht_view\<close> is the abstract dictionary and the locale \<open>dictionary\<close> what the users
  (multi.c, mroute.c) rely on.
\<close>

section \<open>misc.c\<close>

lemma push_bit_shrinks:
  assumes "ret * 2 \<noteq> (0 :: 64 word)"
  shows "(LEAST n. push_bit n (ret * 2) = 0) < (LEAST n. push_bit n ret = 0)"
proof -
  have d: "push_bit n (ret * 2) = push_bit (Suc n) ret" for n
    by (simp add: push_bit_eq_mult mult.commute mult.left_commute)
  have "push_bit 64 ret = 0" by (rule bit_word_eqI) (simp add: bit_simps)
  then have z: "push_bit (LEAST n. push_bit n ret = 0) ret = 0" by (rule LeastI)
  have "ret \<noteq> 0" using assms by auto
  then obtain m where m: "(LEAST n. push_bit n ret = 0) = Suc m"
    using z by (cases "LEAST n. push_bit n ret = 0") auto
  have "push_bit m (ret * 2) = 0" using z by (simp only: d m)
  then have "(LEAST n. push_bit n (ret * 2) = 0) \<le> m" by (rule Least_le)
  with m show ?thesis by simp
qed

function adjust_power_of_2_loop :: "64 word \<Rightarrow> 64 word \<Rightarrow> 64 word result" where
  "adjust_power_of_2_loop u ret =
     (if ret < u
      then (let ret = push_bit 1 ret in if ret > 0 then adjust_power_of_2_loop u ret else Inl AssertFailed)
      else Inr ret)"
  by pat_completeness auto

termination
  by (relation "measure (\<lambda>(u, ret). LEAST n. push_bit n ret = 0)") (auto intro: push_bit_shrinks simp: word_gt_0)

declare adjust_power_of_2_loop.simps [simp del]

definition adjust_power_of_2 :: "64 word \<Rightarrow> 64 word result" where
  "adjust_power_of_2 u = adjust_power_of_2_loop u 1"

section \<open>The hash function\<close>

definition hash_mix :: "u32 \<Rightarrow> u32 \<Rightarrow> u32 \<Rightarrow> u32 \<times> u32 \<times> u32" where
  "hash_mix a b c =
     (let a = a - b; a = a - c; a = a XOR drop_bit 13 c;
          b = b - c; b = b - a; b = b XOR push_bit 8 a;
          c = c - a; c = c - b; c = c XOR drop_bit 13 b;
          a = a - b; a = a - c; a = a XOR drop_bit 12 c;
          b = b - c; b = b - a; b = b XOR push_bit 16 a;
          c = c - a; c = c - b; c = c XOR drop_bit 5 b;
          a = a - b; a = a - c; a = a XOR drop_bit 3 c;
          b = b - c; b = b - a; b = b XOR push_bit 10 a;
          c = c - a; c = c - b; c = c XOR drop_bit 15 b
      in (a, b, c))"

definition hash_word :: "byte list \<Rightarrow> nat \<Rightarrow> u32" where
  \<comment> \<open>four bytes of the key from position \<open>i\<close>, least significant first\<close>
  "hash_word k i = ucast (k ! i) + push_bit 8 (ucast (k ! (i + 1))) + push_bit 16 (ucast (k ! (i + 2)))
                     + push_bit 24 (ucast (k ! (i + 3)))"

function hash_func_blocks :: "byte list \<Rightarrow> u32 \<Rightarrow> u32 \<Rightarrow> u32 \<Rightarrow> u32 \<Rightarrow> byte list \<times> u32 \<times> u32 \<times> u32 \<times> u32" where
  "hash_func_blocks k len a b c =
     (if len \<ge> 12
      then (case hash_mix (a + hash_word k 0) (b + hash_word k 4) (c + hash_word k 8) of
              (a, b, c) \<Rightarrow> hash_func_blocks (drop 12 k) (len - 12) a b c)
      else (k, len, a, b, c))"
  by pat_completeness auto

termination
proof (relation "measure (\<lambda>(k, len, a, b, c). unat len)", goal_cases)
  case (2 k len a b c)
  then have "unat (len - 12) = unat len - 12" by (simp add: unat_sub)
  moreover have "12 \<le> unat len" using 2(1) by (simp add: word_le_nat_alt)
  ultimately show ?case by simp
qed simp

declare hash_func_blocks.simps [simp del]

definition hash_tail_byte :: "byte list \<Rightarrow> u32 \<Rightarrow> nat \<Rightarrow> nat \<Rightarrow> u32" where
  \<comment> \<open>a case of the falling-through switch: byte \<open>i\<close> is added when more than \<open>i\<close> bytes are left\<close>
  "hash_tail_byte k len i sh = (if of_nat i < len then push_bit sh (ucast (k ! i)) else 0)"

definition hash_func :: "byte list \<Rightarrow> u32 \<Rightarrow> u32 \<Rightarrow> u32" where
  "hash_func k len0 initval =
     (case hash_func_blocks k len0 0x9e3779b9 0x9e3779b9 initval of
        (k, len, a, b, c) \<Rightarrow>
          (let c = c + len0;
               c = c + hash_tail_byte k len 10 24 + hash_tail_byte k len 9 16 + hash_tail_byte k len 8 8;
               b = b + hash_tail_byte k len 7 24 + hash_tail_byte k len 6 16 + hash_tail_byte k len 5 8
                     + hash_tail_byte k len 4 0;
               a = a + hash_tail_byte k len 3 24 + hash_tail_byte k len 2 16 + hash_tail_byte k len 1 8
                     + hash_tail_byte k len 0 0
           in snd (snd (hash_mix a b c))))"

definition void_ptr_hash_function :: "64 word \<Rightarrow> u32 \<Rightarrow> u32" where
  \<comment> \<open>the bytes of the pointer itself, on a little-endian machine\<close>
  "void_ptr_hash_function key iv = hash_func (map (\<lambda>i. ucast (drop_bit (8 * i) key)) [0..<8]) 8 iv"

definition void_ptr_compare_function :: "64 word \<Rightarrow> 64 word \<Rightarrow> bool" where
  "void_ptr_compare_function key1 key2 \<longleftrightarrow> key1 = key2"

section \<open>The table\<close>

record ('k, 'v) hash_element =
  he_value :: 'v
  he_key :: "'k option"
  he_hash_value :: u32

record ('k, 'v) hash =
  ht_n_buckets :: int
  ht_n_elements :: int
  ht_mask :: int
  ht_iv :: u32
  ht_hash_function :: "'k \<Rightarrow> u32 \<Rightarrow> u32"
  ht_compare_function :: "'k \<Rightarrow> 'k \<Rightarrow> bool"
  ht_buckets :: "('k, 'v) hash_element list list"

definition array_mult_safe :: "int \<Rightarrow> int \<Rightarrow> int \<Rightarrow> int result" where
  \<comment> \<open>the bytes of an array of \<open>m2\<close> elements of size \<open>m1\<close> each, all of them \<open>size_t\<close>\<close>
  "array_mult_safe m1 m2 extra =
     (let limit = 0xFFFFFFFF; res = (m1 * m2 + extra) mod 2 ^ 64
      in if m1 > limit \<or> m2 > limit \<or> extra > limit \<or> res > limit then Inl FatalError else Inr res)"

definition hash_init :: "int \<Rightarrow> u32 \<Rightarrow> ('k \<Rightarrow> u32 \<Rightarrow> u32) \<Rightarrow> ('k \<Rightarrow> 'k \<Rightarrow> bool) \<Rightarrow> ('k, 'v) hash result" where
  "hash_init n_buckets iv hash_function compare_function =
     assert_that (n_buckets > 0)
       (bind_result (adjust_power_of_2 (word_of_int n_buckets)) (\<lambda>w.
          let n = sint (ucast w :: u32)
          in bind_result (array_mult_safe 8 (size_t_of_int n) 0) (\<lambda>_.
             Inr \<lparr>ht_n_buckets = n, ht_n_elements = 0, ht_mask = n - 1, ht_iv = iv,
                  ht_hash_function = hash_function, ht_compare_function = compare_function,
                  ht_buckets = replicate (nat n) []\<rparr>)))"

definition hash_value :: "('k, 'v) hash \<Rightarrow> 'k \<Rightarrow> u32" where
  "hash_value hash key = ht_hash_function hash key (ht_iv hash)"

definition hash_n_elements :: "('k, 'v) hash \<Rightarrow> int" where
  "hash_n_elements hash = ht_n_elements hash"

definition hash_n_buckets :: "('k, 'v) hash \<Rightarrow> int" where
  "hash_n_buckets hash = ht_n_buckets hash"

definition hash_bucket :: "('k, 'v) hash \<Rightarrow> u32 \<Rightarrow> nat" where
  \<comment> \<open>the index of the bucket, \<open>hv & hash->mask\<close>\<close>
  "hash_bucket hash hv = unat (hv AND u32_of_int (ht_mask hash))"

fun hash_bucket_search ::
    "('k \<Rightarrow> 'k \<Rightarrow> bool) \<Rightarrow> 'k \<Rightarrow> u32 \<Rightarrow> ('k, 'v) hash_element list \<Rightarrow>
     (('k, 'v) hash_element list \<times> ('k, 'v) hash_element \<times> ('k, 'v) hash_element list) option result" where
  \<comment> \<open>the loop of \<open>hash_lookup_fast\<close> and \<open>hash_remove_fast\<close>: the elements before the match, the
     match and the elements after it\<close>
  "hash_bucket_search cmp key hv [] = Inr None"
| "hash_bucket_search cmp key hv (he # es) =
     bind_result
       (if hv = he_hash_value he
        then (case he_key he of None \<Rightarrow> Inl NullDeref | Some k \<Rightarrow> Inr (cmp key k))
        else Inr False)
       (\<lambda>found. if found then Inr (Some ([], he, es))
                else bind_result (hash_bucket_search cmp key hv es) (\<lambda>r.
                       Inr (map_option (\<lambda>(xs, h, ys). (he # xs, h, ys)) r)))"

definition ht_set_bucket :: "('k, 'v) hash \<Rightarrow> nat \<Rightarrow> ('k, 'v) hash_element list \<Rightarrow> ('k, 'v) hash" where
  "ht_set_bucket hash i es = hash\<lparr>ht_buckets := (ht_buckets hash)[i := es]\<rparr>"

definition hash_lookup_fast ::
    "('k, 'v) hash \<Rightarrow> nat \<Rightarrow> 'k \<Rightarrow> u32 \<Rightarrow> (('k, 'v) hash_element option \<times> ('k, 'v) hash) result" where
  \<comment> \<open>the element found is moved to the head of its bucket\<close>
  "hash_lookup_fast hash bucket key hv =
     bind_result (hash_bucket_search (ht_compare_function hash) key hv (ht_buckets hash ! bucket)) (\<lambda>r.
       case r of
         None \<Rightarrow> Inr (None, hash)
       | Some (xs, he, ys) \<Rightarrow> Inr (Some he, ht_set_bucket hash bucket (he # xs @ ys)))"

definition hash_remove_fast :: "('k, 'v) hash \<Rightarrow> nat \<Rightarrow> 'k \<Rightarrow> u32 \<Rightarrow> (bool \<times> ('k, 'v) hash) result" where
  "hash_remove_fast hash bucket key hv =
     bind_result (hash_bucket_search (ht_compare_function hash) key hv (ht_buckets hash ! bucket)) (\<lambda>r.
       case r of
         None \<Rightarrow> Inr (False, hash)
       | Some (xs, he, ys) \<Rightarrow>
           Inr (True, (ht_set_bucket hash bucket (xs @ ys))\<lparr>ht_n_elements := ht_n_elements hash - 1\<rparr>))"

definition hash_lookup :: "('k, 'v) hash \<Rightarrow> 'k \<Rightarrow> ('v option \<times> ('k, 'v) hash) result" where
  "hash_lookup hash key =
     (let hv = hash_value hash key; bucket = hash_bucket hash hv
      in bind_result (hash_lookup_fast hash bucket key hv) (\<lambda>(he, hash). Inr (map_option he_value he, hash)))"

definition hash_add_fast :: "('k, 'v) hash \<Rightarrow> nat \<Rightarrow> 'k \<Rightarrow> u32 \<Rightarrow> 'v \<Rightarrow> ('k, 'v) hash" where
  "hash_add_fast hash bucket key hv v =
     (ht_set_bucket hash bucket (\<lparr>he_value = v, he_key = Some key, he_hash_value = hv\<rparr> # ht_buckets hash ! bucket))
       \<lparr>ht_n_elements := ht_n_elements hash + 1\<rparr>"

definition hash_remove :: "('k, 'v) hash \<Rightarrow> 'k \<Rightarrow> (bool \<times> ('k, 'v) hash) result" where
  "hash_remove hash key =
     (let hv = hash_value hash key; bucket = hash_bucket hash hv
      in hash_remove_fast hash bucket key hv)"

definition hash_add :: "('k, 'v) hash \<Rightarrow> 'k \<Rightarrow> 'v \<Rightarrow> bool \<Rightarrow> (bool \<times> ('k, 'v) hash) result" where
  "hash_add hash key v replace =
     (let hv = hash_value hash key; bucket = hash_bucket hash hv
      in bind_result (hash_lookup_fast hash bucket key hv) (\<lambda>(he, hash).
           case he of
             Some he \<Rightarrow>
               \<comment> \<open>\<open>he\<close> is now the head of its bucket\<close>
               if replace
               then Inr (True, ht_set_bucket hash bucket (he\<lparr>he_value := v\<rparr> # tl (ht_buckets hash ! bucket)))
               else Inr (False, hash)
           | None \<Rightarrow> Inr (True, hash_add_fast hash bucket key hv v)))"

section \<open>Iterators\<close>

record hash_iterator =
  hi_bucket_index :: int
  hi_bucket :: "nat option"
  hi_elem :: "nat option"
  hi_last :: "nat option"
  hi_bucket_marked :: bool
  hi_bucket_index_start :: int
  hi_bucket_index_end :: int

definition hash_remove_marked :: "('k, 'v) hash \<Rightarrow> nat \<Rightarrow> ('k, 'v) hash" where
  "hash_remove_marked hash bucket =
     (let es = ht_buckets hash ! bucket; es' = filter (\<lambda>he. he_key he \<noteq> None) es
      in (ht_set_bucket hash bucket es')
           \<lparr>ht_n_elements := ht_n_elements hash - (int (length es) - int (length es'))\<rparr>)"

definition hash_iterator_init_range :: "('k, 'v) hash \<Rightarrow> int \<Rightarrow> int \<Rightarrow> hash_iterator result" where
  "hash_iterator_init_range hash start_bucket end_bucket =
     (let end_bucket = (if end_bucket > ht_n_buckets hash then ht_n_buckets hash else end_bucket)
      in assert_that (start_bucket \<ge> 0 \<and> start_bucket \<le> end_bucket)
           (Inr \<lparr>hi_bucket_index = start_bucket - 1, hi_bucket = None, hi_elem = None, hi_last = None,
                 hi_bucket_marked = False, hi_bucket_index_start = start_bucket,
                 hi_bucket_index_end = end_bucket\<rparr>))"

definition hash_iterator_init :: "('k, 'v) hash \<Rightarrow> hash_iterator result" where
  "hash_iterator_init hash = hash_iterator_init_range hash 0 (ht_n_buckets hash)"

definition hash_iterator_lock :: "hash_iterator \<Rightarrow> nat \<Rightarrow> hash_iterator" where
  "hash_iterator_lock hi b = hi\<lparr>hi_bucket := Some b, hi_last := None, hi_bucket_marked := False\<rparr>"

definition hash_iterator_unlock :: "('k, 'v) hash \<Rightarrow> hash_iterator \<Rightarrow> ('k, 'v) hash \<times> hash_iterator" where
  "hash_iterator_unlock hash hi =
     (case hi_bucket hi of
        None \<Rightarrow> (hash, hi)
      | Some b \<Rightarrow>
          (if hi_bucket_marked hi then hash_remove_marked hash b else hash,
           hi\<lparr>hi_bucket_marked := False, hi_bucket := None, hi_last := None\<rparr>))"

definition hash_iterator_advance :: "('k, 'v) hash \<Rightarrow> hash_iterator \<Rightarrow> hash_iterator" where
  "hash_iterator_advance hash hi =
     (case (hi_bucket hi, hi_elem hi) of
        (Some b, Some p) \<Rightarrow>
          hi\<lparr>hi_last := Some p,
             hi_elem := (if Suc p < length (ht_buckets hash ! b) then Some (Suc p) else None)\<rparr>
      | _ \<Rightarrow> hi)"

definition hash_iterator_free :: "('k, 'v) hash \<Rightarrow> hash_iterator \<Rightarrow> ('k, 'v) hash \<times> hash_iterator" where
  "hash_iterator_free hash hi = hash_iterator_unlock hash hi"

lemma hash_iterator_unlock_index:
  "hi_bucket_index (snd (hash_iterator_unlock hash hi)) = hi_bucket_index hi"
  "hi_bucket_index_end (snd (hash_iterator_unlock hash hi)) = hi_bucket_index_end hi"
  "hi_elem (snd (hash_iterator_unlock hash hi)) = hi_elem hi"
  by (simp_all add: hash_iterator_unlock_def split: option.split)

function hash_iterator_next_loop ::
    "('k, 'v) hash \<Rightarrow> hash_iterator \<Rightarrow> ('k, 'v) hash_element option \<times> ('k, 'v) hash \<times> hash_iterator" where
  "hash_iterator_next_loop hash hi =
     (let hi = hi\<lparr>hi_bucket_index := hi_bucket_index hi + 1\<rparr>
      in if hi_bucket_index hi < hi_bucket_index_end hi then
           (case hash_iterator_unlock hash hi of
              (hash, hi) \<Rightarrow>
                let b = nat (hi_bucket_index hi)
                in case ht_buckets hash ! b of
                     [] \<Rightarrow> hash_iterator_next_loop hash hi
                   | he # _ \<Rightarrow>
                       (Some he, hash,
                        hash_iterator_advance hash ((hash_iterator_lock hi b)\<lparr>hi_elem := Some 0\<rparr>)))
         else (None, hash, hi))"
  by pat_completeness auto

termination
  apply (relation "measure (\<lambda>(hash, hi). nat (hi_bucket_index_end hi - hi_bucket_index hi))")
   apply simp
  subgoal for hash hi hi1 hash1 hi2 b
    using hash_iterator_unlock_index[of hash hi1] by (cases "hash_iterator_unlock hash hi1") simp
  done

declare hash_iterator_next_loop.simps [simp del]

definition hash_iterator_next ::
    "('k, 'v) hash \<Rightarrow> hash_iterator \<Rightarrow> ('k, 'v) hash_element option \<times> ('k, 'v) hash \<times> hash_iterator" where
  "hash_iterator_next hash hi =
     (case (hi_bucket hi, hi_elem hi) of
        (Some b, Some p) \<Rightarrow> (Some (ht_buckets hash ! b ! p), hash, hash_iterator_advance hash hi)
      | _ \<Rightarrow> hash_iterator_next_loop hash hi)"

definition hash_iterator_delete_element ::
    "('k, 'v) hash \<Rightarrow> hash_iterator \<Rightarrow> (('k, 'v) hash \<times> hash_iterator) result" where
  "hash_iterator_delete_element hash hi =
     (case (hi_bucket hi, hi_last hi) of
        (Some b, Some p) \<Rightarrow>
          (let es = ht_buckets hash ! b
           in Inr (ht_set_bucket hash b (es[p := (es ! p)\<lparr>he_key := None\<rparr>]), hi\<lparr>hi_bucket_marked := True\<rparr>))
      | _ \<Rightarrow> Inl AssertFailed)"

section \<open>Removing by value\<close>

lemma hash_iterator_next_loop_progress:
  "hash_iterator_next_loop hash hi = (Some he, hash', hi') \<Longrightarrow>
     hi_bucket_index hi < hi_bucket_index hi' \<and> hi_bucket_index hi' < hi_bucket_index_end hi
     \<and> hi_bucket_index_end hi' = hi_bucket_index_end hi"
proof (induction hash hi rule: hash_iterator_next_loop.induct)
  case (1 hash hi)
  define hi1 where "hi1 = hi\<lparr>hi_bucket_index := hi_bucket_index hi + 1\<rparr>"
  obtain hash2 hi2 where u: "hash_iterator_unlock hash hi1 = (hash2, hi2)" by fastforce
  have ix: "hi_bucket_index hi2 = hi_bucket_index hi + 1" "hi_bucket_index_end hi2 = hi_bucket_index_end hi"
    using hash_iterator_unlock_index [of hash hi1] by (simp_all add: u) (simp_all add: hi1_def)
  have lt: "hi_bucket_index hi + 1 < hi_bucket_index_end hi"
    using "1.prems" by (subst (asm) hash_iterator_next_loop.simps) (simp add: Let_def split: if_splits)
  show ?case
  proof (cases "ht_buckets hash2 ! nat (hi_bucket_index hi2)")
    case Nil
    then have "hash_iterator_next_loop hash2 hi2 = (Some he, hash', hi')"
      using "1.prems" lt by (subst (asm) hash_iterator_next_loop.simps)
        (simp add: Let_def u [unfolded hi1_def])
    from "1.IH" [OF hi1_def _ u [symmetric] refl Nil this] lt
    show ?thesis by (simp add: hi1_def ix)
  next
    case (Cons a as)
    then show ?thesis using "1.prems" lt by (subst (asm) hash_iterator_next_loop.simps)
        (auto simp add: Let_def u [unfolded hi1_def] ix hash_iterator_lock_def hash_iterator_advance_def)
  qed
qed

definition hi_left :: "('k, 'v) hash \<Rightarrow> hash_iterator \<Rightarrow> nat" where
  "hi_left hash hi =
     (case (hi_bucket hi, hi_elem hi) of
        (Some b, Some p) \<Rightarrow> Suc (length (ht_buckets hash ! b) - p)
      | _ \<Rightarrow> 0)"

lemma hash_iterator_next_measure:
  assumes "hash_iterator_next hash hi = (Some he, hash', hi')"
  shows "((nat (hi_bucket_index_end hi' - hi_bucket_index hi'), hi_left hash' hi'),
          (nat (hi_bucket_index_end hi - hi_bucket_index hi), hi_left hash hi)) \<in> less_than <*lex*> less_than"
proof (cases "hi_bucket hi = None \<or> hi_elem hi = None")
  case True
  with assms have "hash_iterator_next_loop hash hi = (Some he, hash', hi')"
    by (auto simp: hash_iterator_next_def split: option.splits)
  from hash_iterator_next_loop_progress [OF this] show ?thesis by auto
next
  case False
  then obtain b p where "hi_bucket hi = Some b" "hi_elem hi = Some p" by auto
  with assms show ?thesis
    by (cases "Suc p < length (ht_buckets hash ! b)")
       (auto simp: hash_iterator_next_def hash_iterator_advance_def hi_left_def)
qed

lemma hash_iterator_delete_element_measure:
  "hash_iterator_delete_element hash hi = Inr (hash', hi') \<Longrightarrow>
     hi_left hash' hi' = hi_left hash hi \<and> hi_bucket_index hi' = hi_bucket_index hi
     \<and> hi_bucket_index_end hi' = hi_bucket_index_end hi"
  by (auto simp: hash_iterator_delete_element_def ht_set_bucket_def hi_left_def nth_list_update Let_def
      split: option.splits)
     (metis length_list_update list_update_beyond not_le nth_list_update_eq nth_list_update_neq)+

function hash_remove_by_value_loop :: "('k, 'v) hash \<Rightarrow> hash_iterator \<Rightarrow> 'v \<Rightarrow> ('k, 'v) hash result" where
  "hash_remove_by_value_loop hash hi v =
     (case hash_iterator_next hash hi of
        (None, hash, hi) \<Rightarrow> Inr (fst (hash_iterator_free hash hi))
      | (Some he, hash, hi) \<Rightarrow>
          if he_value he = v
          then (case hash_iterator_delete_element hash hi of
                  Inl e \<Rightarrow> Inl e
                | Inr (hash, hi) \<Rightarrow> hash_remove_by_value_loop hash hi v)
          else hash_remove_by_value_loop hash hi v)"
  by pat_completeness auto

termination
proof (relation "inv_image (less_than <*lex*> less_than)
         (\<lambda>(hash, hi, v). (nat (hi_bucket_index_end hi - hi_bucket_index hi), hi_left hash hi))", goal_cases)
  case 1
  show ?case by (intro wf_inv_image wf_lex_prod) simp_all
next
  case (2 hash hi v x y he hash1 hi1 b hash2 hi2)
  then have "hash_iterator_next hash hi = (Some he, hash1, hi1)"
    and d: "hash_iterator_delete_element hash1 hi1 = Inr (hash2, hi2)" by simp_all
  from hash_iterator_next_measure [OF this(1)] hash_iterator_delete_element_measure [OF d]
  show ?case by simp
next
  case (3 hash hi v x y he hash1 hi1)
  then have "hash_iterator_next hash hi = (Some he, hash1, hi1)" by simp
  from hash_iterator_next_measure [OF this] show ?case by simp
qed

declare hash_remove_by_value_loop.simps [simp del]

definition hash_remove_by_value :: "('k, 'v) hash \<Rightarrow> 'v \<Rightarrow> ('k, 'v) hash result" where
  "hash_remove_by_value hash v =
     bind_result (hash_iterator_init hash) (\<lambda>hi. hash_remove_by_value_loop hash hi v)"


section \<open>The invariant and the abstract dictionary\<close>

definition key_laws :: "('k \<Rightarrow> u32 \<Rightarrow> u32) \<Rightarrow> ('k \<Rightarrow> 'k \<Rightarrow> bool) \<Rightarrow> bool" where
  \<comment> \<open>what the callers owe: comparison is an equivalence and equal keys hash alike\<close>
  "key_laws hf cmp \<longleftrightarrow>
     (\<forall>a. cmp a a) \<and> (\<forall>a b. cmp a b \<longrightarrow> cmp b a) \<and> (\<forall>a b c. cmp a b \<longrightarrow> cmp b c \<longrightarrow> cmp a c)
     \<and> (\<forall>a b iv. cmp a b \<longrightarrow> hf a iv = hf b iv)"

definition he_is :: "('k \<Rightarrow> 'k \<Rightarrow> bool) \<Rightarrow> 'k \<Rightarrow> ('k, 'v) hash_element \<Rightarrow> bool" where
  "he_is cmp key he \<longleftrightarrow> (case he_key he of None \<Rightarrow> False | Some k \<Rightarrow> cmp key k)"

definition he_apart :: "('k \<Rightarrow> 'k \<Rightarrow> bool) \<Rightarrow> ('k, 'v) hash_element \<Rightarrow> ('k, 'v) hash_element \<Rightarrow> bool" where
  "he_apart cmp a b \<longleftrightarrow> (case he_key a of None \<Rightarrow> True | Some k \<Rightarrow> \<not> he_is cmp k b)"

definition he_ok :: "('k, 'v) hash \<Rightarrow> nat \<Rightarrow> ('k, 'v) hash_element \<Rightarrow> bool" where
  "he_ok hash i he \<longleftrightarrow>
     (case he_key he of
        None \<Rightarrow> False
      | Some k \<Rightarrow> he_hash_value he = hash_value hash k \<and> hash_bucket hash (hash_value hash k) = i)"

definition bucket_ok :: "('k, 'v) hash \<Rightarrow> nat \<Rightarrow> ('k, 'v) hash_element list \<Rightarrow> bool" where
  "bucket_ok hash i es \<longleftrightarrow>
     list_all (he_ok hash i) es \<and> sorted_wrt (he_apart (ht_compare_function hash)) es"

definition ht_shape :: "('k, 'v) hash \<Rightarrow> bool" where
  "ht_shape hash \<longleftrightarrow>
     (\<exists>m < 31. ht_n_buckets hash = 2 ^ m) \<and> ht_mask hash = ht_n_buckets hash - 1
     \<and> length (ht_buckets hash) = nat (ht_n_buckets hash)
     \<and> key_laws (ht_hash_function hash) (ht_compare_function hash)"

definition ht_ok :: "('k, 'v) hash \<Rightarrow> bool" where
  "ht_ok hash \<longleftrightarrow>
     ht_shape hash \<and> (\<forall>i < length (ht_buckets hash). bucket_ok hash i (ht_buckets hash ! i))
     \<and> ht_n_elements hash = int (length (concat (ht_buckets hash)))"

definition ht_view :: "('k, 'v) hash \<Rightarrow> 'k \<Rightarrow> 'v option" where
  \<comment> \<open>the dictionary the table stands for: the value of the first element, over all buckets,
     whose key compares equal\<close>
  "ht_view hash key =
     map_option he_value (find (he_is (ht_compare_function hash) key) (concat (ht_buckets hash)))"

lemma key_lawsD:
  assumes "key_laws hf cmp"
  shows "cmp a a" "cmp a b \<Longrightarrow> cmp b a" "cmp a b \<Longrightarrow> cmp b c \<Longrightarrow> cmp a c" "cmp a b \<Longrightarrow> hf a iv = hf b iv"
  using assms unfolding key_laws_def by blast+

lemma mask_word: "m < 32 \<Longrightarrow> u32_of_int (2 ^ m - 1) = mask m"
  by (simp add: u32_of_int_def mask_eq_exp_minus_1)

lemma hash_bucket_less: "ht_shape hash \<Longrightarrow> hash_bucket hash hv < length (ht_buckets hash)"
proof -
  assume "ht_shape hash"
  then obtain m where m: "m < 31" "ht_n_buckets hash = 2 ^ m" "ht_mask hash = 2 ^ m - 1"
      "length (ht_buckets hash) = nat (2 ^ m)" by (auto simp: ht_shape_def)
  have "unat (take_bit m hv) < 2 ^ m" by (simp add: unsigned_take_bit_eq)
  then show ?thesis using m by (simp add: hash_bucket_def mask_word take_bit_eq_mask [symmetric] nat_power_eq)
qed

text \<open>What an update of the buckets or of the counter leaves alone.\<close>

lemma ht_set_bucket_fields [simp]:
  "ht_buckets (ht_set_bucket hash i es) = (ht_buckets hash)[i := es]"
  "ht_n_buckets (ht_set_bucket hash i es) = ht_n_buckets hash"
  "ht_n_elements (ht_set_bucket hash i es) = ht_n_elements hash"
  "ht_mask (ht_set_bucket hash i es) = ht_mask hash"
  "ht_iv (ht_set_bucket hash i es) = ht_iv hash"
  "ht_hash_function (ht_set_bucket hash i es) = ht_hash_function hash"
  "ht_compare_function (ht_set_bucket hash i es) = ht_compare_function hash"
  by (simp_all add: ht_set_bucket_def)

lemma hash_value_update [simp]:
  "hash_value (ht_set_bucket hash i es) = hash_value hash"
  "hash_value (hash\<lparr>ht_n_elements := n\<rparr>) = hash_value hash"
  by (simp_all add: hash_value_def fun_eq_iff)

lemma hash_bucket_update [simp]:
  "hash_bucket (ht_set_bucket hash i es) = hash_bucket hash"
  "hash_bucket (hash\<lparr>ht_n_elements := n\<rparr>) = hash_bucket hash"
  by (simp_all add: hash_bucket_def fun_eq_iff)

lemma bucket_ok_update [simp]:
  "bucket_ok (ht_set_bucket hash i es) = bucket_ok hash"
  "bucket_ok (hash\<lparr>ht_n_elements := n\<rparr>) = bucket_ok hash"
  by (simp_all add: bucket_ok_def he_ok_def fun_eq_iff list_all_iff cong: option.case_cong)

lemma ht_shape_update [simp]:
  "ht_shape (ht_set_bucket hash i es) = ht_shape hash"
  "ht_shape (hash\<lparr>ht_n_elements := n\<rparr>) = ht_shape hash"
  by (simp_all add: ht_shape_def)

lemma ht_view_n_elements [simp]: "ht_view (hash\<lparr>ht_n_elements := n\<rparr>) = ht_view hash"
  by (simp add: ht_view_def fun_eq_iff)

lemma ht_okD:
  assumes "ht_ok hash"
  shows "ht_shape hash" "i < length (ht_buckets hash) \<Longrightarrow> bucket_ok hash i (ht_buckets hash ! i)"
    "ht_n_elements hash = int (length (concat (ht_buckets hash)))"
    "key_laws (ht_hash_function hash) (ht_compare_function hash)"
  using assms by (auto simp: ht_ok_def ht_shape_def)

lemma length_concat_update:
  "i < length bs \<Longrightarrow>
     int (length (concat (bs[i := es]))) = int (length (concat bs)) - int (length (bs ! i)) + int (length es)"
proof (induction bs arbitrary: i)
  case (Cons b bs)
  then show ?case by (cases i) auto
qed simp

lemma ht_ok_set_bucket:
  assumes "ht_ok hash" "i < length (ht_buckets hash)" "bucket_ok hash i es"
    "n = ht_n_elements hash + int (length es) - int (length (ht_buckets hash ! i))"
  shows "ht_ok ((ht_set_bucket hash i es)\<lparr>ht_n_elements := n\<rparr>)"
  using assms by (auto simp: ht_ok_def length_concat_update nth_list_update simp del: length_concat)

text \<open>In a well-formed bucket at most one element compares equal to a key.\<close>

lemma bucket_ok_Cons: "bucket_ok hash i (e # es) \<longleftrightarrow>
    he_ok hash i e \<and> (\<forall>x \<in> set es. he_apart (ht_compare_function hash) e x) \<and> bucket_ok hash i es"
  by (auto simp: bucket_ok_def)

lemma he_is_two:
  assumes "key_laws hf cmp" "he_is cmp key a" "he_is cmp key b"
  shows "\<not> he_apart cmp a b"
proof -
  obtain ka kb where k: "he_key a = Some ka" "he_key b = Some kb" "cmp key ka" "cmp key kb"
    using assms(2,3) by (auto simp: he_is_def split: option.splits)
  then have "cmp ka kb" using key_lawsD(2,3) [OF assms(1)] by blast
  with k show ?thesis by (simp add: he_is_def he_apart_def)
qed

lemma find_he_is:
  assumes "key_laws hf (ht_compare_function hash)" "bucket_ok hash i es" "e \<in> set es"
    "he_is (ht_compare_function hash) key e"
  shows "find (he_is (ht_compare_function hash) key) es = Some e"
  using assms(2,3) 
proof (induction es)
  case (Cons a es)
  then show ?case using he_is_two [OF assms(1)] assms(4) by (auto simp: bucket_ok_Cons)
qed simp

lemma find_concat_unique:
  assumes "i < length bs" "\<And>j. j < length bs \<Longrightarrow> j \<noteq> i \<Longrightarrow> \<forall>x \<in> set (bs ! j). \<not> P x"
  shows "find P (concat bs) = find P (bs ! i)"
  using assms
proof (induction bs arbitrary: i)
  case (Cons b bs)
  have app: "find P (xs @ ys) = (case find P xs of None \<Rightarrow> find P ys | Some x \<Rightarrow> Some x)" for xs ys
    by (induction xs) auto
  show ?case
  proof (cases i)
    case 0
    have "\<not> P x" if "x \<in> set ys" "ys \<in> set bs" for x ys
    proof -
      from that(2) obtain k where "k < length bs" "ys = bs ! k" by (auto simp: in_set_conv_nth)
      with that(1) show ?thesis using Cons.prems(2) [of "Suc k"] by (simp add: 0)
    qed
    then have "find P (concat bs) = None" by (auto simp: find_None_iff)
    then show ?thesis by (simp add: 0 app split: option.split)
  next
    case (Suc j)
    have "find P b = None" using Cons.prems(2) [of 0] by (auto simp: find_None_iff Suc)
    moreover have "find P (concat bs) = find P (bs ! j)"
    proof (rule Cons.IH)
      show "j < length bs" using Cons.prems(1) by (simp add: Suc)
    next
      fix k assume "k < length bs" "k \<noteq> j"
      then show "\<forall>x \<in> set (bs ! k). \<not> P x" using Cons.prems(2) [of "Suc k"] by (simp add: Suc)
    qed
    ultimately show ?thesis by (simp add: Suc app)
  qed
qed simp

abbreviation key_bucket :: "('k, 'v) hash \<Rightarrow> 'k \<Rightarrow> nat" where
  "key_bucket hash key \<equiv> hash_bucket hash (hash_value hash key)"

lemma he_is_bucket:
  assumes "key_laws (ht_hash_function hash) (ht_compare_function hash)" "he_ok hash i e"
    "he_is (ht_compare_function hash) key e"
  shows "he_hash_value e = hash_value hash key \<and> i = key_bucket hash key"
proof -
  obtain k where k: "he_key e = Some k" "ht_compare_function hash key k"
    using assms(3) by (auto simp: he_is_def split: option.splits)
  then have "hash_value hash k = hash_value hash key"
    using key_lawsD(4) [OF assms(1) k(2)] by (simp add: hash_value_def)
  with assms(2) k(1) show ?thesis by (simp add: he_ok_def)
qed

lemma ht_view_bucket:
  assumes "ht_ok hash"
  shows "ht_view hash key =
    map_option he_value (find (he_is (ht_compare_function hash) key) (ht_buckets hash ! key_bucket hash key))"
proof -
  have "find (he_is (ht_compare_function hash) key) (concat (ht_buckets hash)) =
        find (he_is (ht_compare_function hash) key) (ht_buckets hash ! key_bucket hash key)"
  proof (rule find_concat_unique)
    show "key_bucket hash key < length (ht_buckets hash)" using ht_okD(1) [OF assms] by (rule hash_bucket_less)
  next
    fix j assume "j < length (ht_buckets hash)" "j \<noteq> key_bucket hash key"
    then show "\<forall>x \<in> set (ht_buckets hash ! j). \<not> he_is (ht_compare_function hash) key x"
      using ht_okD(2) [OF assms, of j] he_is_bucket [OF ht_okD(4) [OF assms]]
      by (auto simp: bucket_ok_def list_all_iff)
  qed
  then show ?thesis by (simp add: ht_view_def)
qed

section \<open>Lookup, insertion and removal\<close>

lemma hash_bucket_search_spec:
  assumes "key_laws (ht_hash_function hash) (ht_compare_function hash)" "bucket_ok hash i es"
  shows "\<exists>r. hash_bucket_search (ht_compare_function hash) key (hash_value hash key) es = Inr r \<and>
    (case r of
       None \<Rightarrow> \<forall>e \<in> set es. \<not> he_is (ht_compare_function hash) key e
     | Some (xs, e, ys) \<Rightarrow> es = xs @ e # ys \<and> he_is (ht_compare_function hash) key e)"
  using assms(2)
proof (induction es)
  case (Cons a es)
  let ?cmp = "ht_compare_function hash"
  have ok: "he_ok hash i a" "bucket_ok hash i es" using Cons.prems by (simp_all add: bucket_ok_Cons)
  then obtain k where k: "he_key a = Some k" by (auto simp: he_ok_def split: option.splits)
  have is_a: "he_is ?cmp key a \<longleftrightarrow> hash_value hash key = he_hash_value a \<and> ?cmp key k"
    using he_is_bucket [OF assms(1) ok(1), of key] by (auto simp: he_is_def k)
  obtain r where r: "hash_bucket_search ?cmp key (hash_value hash key) es = Inr r"
    "case r of None \<Rightarrow> \<forall>e \<in> set es. \<not> he_is ?cmp key e
     | Some (xs, e, ys) \<Rightarrow> es = xs @ e # ys \<and> he_is ?cmp key e"
    using Cons.IH [OF ok(2)] by blast
  show ?case
  proof (cases "he_is ?cmp key a")
    case True
    then show ?thesis using is_a by (simp add: k)
  next
    case False
    then show ?thesis using is_a r by (cases r) (auto simp: k)
  qed
qed simp

lemma ht_view_set_bucket:
  assumes "ht_ok hash" "i < length (ht_buckets hash)" "bucket_ok hash i es"
  shows "ht_view (ht_set_bucket hash i es) key =
    (if key_bucket hash key = i
     then map_option he_value (find (he_is (ht_compare_function hash) key) es)
     else ht_view hash key)"
proof -
  let ?h = "(ht_set_bucket hash i es)
    \<lparr>ht_n_elements := ht_n_elements hash + int (length es) - int (length (ht_buckets hash ! i))\<rparr>"
  have "ht_ok ?h" using assms by (intro ht_ok_set_bucket) simp_all
  from ht_view_bucket [OF this, of key] ht_view_bucket [OF assms(1), of key] assms(2)
  show ?thesis by simp
qed

lemma he_apart_sym:
  assumes "key_laws hf cmp" "he_apart cmp a b" "he_key b \<noteq> None"
  shows "he_apart cmp b a"
  using assms(2,3) key_lawsD(2) [OF assms(1)]
  by (auto simp: he_apart_def he_is_def split: option.splits)

lemma bucket_ok_middle:
  assumes "key_laws (ht_hash_function hash) (ht_compare_function hash)" "bucket_ok hash i (xs @ e # ys)"
  shows "bucket_ok hash i (e # xs @ ys)" "bucket_ok hash i (xs @ ys)"
proof -
  have e: "he_ok hash i e" using assms(2) by (simp add: bucket_ok_def)
  then have "he_key e \<noteq> None" by (auto simp: he_ok_def split: option.splits)
  then show "bucket_ok hash i (e # xs @ ys)"
    using assms(2) he_apart_sym [OF assms(1)] by (auto simp: bucket_ok_def sorted_wrt_append)
  then show "bucket_ok hash i (xs @ ys)" by (simp add: bucket_ok_Cons)
qed

lemma find_move_to_front:
  assumes "key_laws (ht_hash_function hash) (ht_compare_function hash)" "bucket_ok hash i (xs @ e # ys)"
  shows "find (he_is (ht_compare_function hash) key) (e # xs @ ys)
       = find (he_is (ht_compare_function hash) key) (xs @ e # ys)"
proof -
  let ?P = "he_is (ht_compare_function hash) key"
  show ?thesis
  proof (cases "\<exists>a \<in> set (xs @ e # ys). ?P a")
    case True
    then obtain a where a: "a \<in> set (xs @ e # ys)" "?P a" by blast
    have "find ?P (xs @ e # ys) = Some a" by (rule find_he_is [OF assms a])
    moreover have "find ?P (e # xs @ ys) = Some a"
      by (rule find_he_is [OF assms(1) bucket_ok_middle(1) [OF assms]]) (use a in auto)
    ultimately show ?thesis by simp
  next
    case False
    then have "find ?P (xs @ e # ys) = None" "find ?P (e # xs @ ys) = None"
      by (auto simp: find_None_iff)
    then show ?thesis by simp
  qed
qed

lemma ht_view_None: "ht_ok hash \<Longrightarrow>
    \<forall>e \<in> set (ht_buckets hash ! key_bucket hash key). \<not> he_is (ht_compare_function hash) key e \<Longrightarrow>
    ht_view hash key = None"
  by (simp add: ht_view_bucket find_None_iff)

lemma ht_view_Some: "ht_ok hash \<Longrightarrow> e \<in> set (ht_buckets hash ! key_bucket hash key) \<Longrightarrow>
    he_is (ht_compare_function hash) key e \<Longrightarrow> ht_view hash key = Some (he_value e)"
  using find_he_is [OF ht_okD(4) ht_okD(2)] hash_bucket_less [OF ht_okD(1)]
  by (fastforce simp: ht_view_bucket)

lemma hash_lookup_fast_spec:
  fixes hash :: "('k, 'v) hash" and key :: 'k
  defines "b \<equiv> key_bucket hash key"
  assumes "ht_ok hash"
  shows "\<exists>r hash'. hash_lookup_fast hash b key (hash_value hash key) = Inr (r, hash')
      \<and> ht_ok hash' \<and> ht_view hash' = ht_view hash \<and> ht_n_elements hash' = ht_n_elements hash
      \<and> (\<forall>k. hash_value hash' k = hash_value hash k) \<and> (\<forall>k. key_bucket hash' k = key_bucket hash k)
      \<and> ht_compare_function hash' = ht_compare_function hash
      \<and> (case r of
           None \<Rightarrow> ht_view hash key = None \<and> hash' = hash \<and> (\<forall>e \<in> set (ht_buckets hash ! b). \<not> he_is (ht_compare_function hash) key e)
         | Some e \<Rightarrow> ht_view hash key = Some (he_value e) \<and> he_is (ht_compare_function hash) key e
             \<and> (\<exists>es. ht_buckets hash' ! b = e # es))"
proof -
  let ?es = "ht_buckets hash ! b"
  have b: "b < length (ht_buckets hash)" unfolding b_def using ht_okD(1) [OF assms(2)] by (rule hash_bucket_less)
  note laws = ht_okD(4) [OF assms(2)] and ok = ht_okD(2) [OF assms(2) b]
  obtain r where r: "hash_bucket_search (ht_compare_function hash) key (hash_value hash key) ?es = Inr r"
    "case r of None \<Rightarrow> \<forall>e \<in> set ?es. \<not> he_is (ht_compare_function hash) key e
     | Some (xs, e, ys) \<Rightarrow> ?es = xs @ e # ys \<and> he_is (ht_compare_function hash) key e"
    using hash_bucket_search_spec [OF laws ok] by blast
  show ?thesis
  proof (cases r)
    case None
    with r assms(2) show ?thesis by (simp add: hash_lookup_fast_def b_def ht_view_None)
  next
    case (Some t)
    then obtain xs e ys where t: "r = Some (xs, e, ys)" by (cases t) auto
    with r have es: "?es = xs @ e # ys" and e: "he_is (ht_compare_function hash) key e" by simp_all
    have ok': "bucket_ok hash b (e # xs @ ys)" using bucket_ok_middle(1) [OF laws] ok es by simp
    let ?h = "ht_set_bucket hash b (e # xs @ ys)"
    have "ht_ok (?h\<lparr>ht_n_elements := ht_n_elements hash\<rparr>)"
      using assms(2) b ok' by (intro ht_ok_set_bucket) (simp_all add: es)
    moreover have "?h\<lparr>ht_n_elements := ht_n_elements hash\<rparr> = ?h" by (simp add: ht_set_bucket_def)
    moreover have "ht_view ?h = ht_view hash"
      using find_move_to_front [OF laws ok [unfolded es]]
      by (auto simp: fun_eq_iff ht_view_set_bucket [OF assms(2) b ok'] ht_view_bucket [OF assms(2)] es
               simp del: find.simps)
    moreover have "ht_view hash key = Some (he_value e)"
      using assms(2) e es by (intro ht_view_Some) (simp_all add: b_def)
    ultimately show ?thesis using r(1) t e b by (simp add: hash_lookup_fast_def)
  qed
qed

lemma hash_lookup_spec:
  "ht_ok hash \<Longrightarrow> \<exists>hash'. hash_lookup hash key = Inr (ht_view hash key, hash') \<and> ht_ok hash'
     \<and> ht_view hash' = ht_view hash \<and> ht_compare_function hash' = ht_compare_function hash
     \<and> ht_n_elements hash' = ht_n_elements hash"
  using hash_lookup_fast_spec [of hash key] 
  by (auto simp: hash_lookup_def Let_def split: option.splits)

definition dict_put :: "('k \<Rightarrow> 'k \<Rightarrow> bool) \<Rightarrow> 'k \<Rightarrow> 'v option \<Rightarrow> ('k \<Rightarrow> 'v option) \<Rightarrow> 'k \<Rightarrow> 'v option" where
  \<comment> \<open>the dictionary after the entry of \<open>key\<close> became \<open>v\<close>\<close>
  "dict_put cmp key v d k = (if cmp key k then v else d k)"

lemma ht_view_put:
  assumes "ht_ok hash" "bucket_ok hash (key_bucket hash key) es"
    "\<And>k. find (he_is (ht_compare_function hash) k) es =
         (if ht_compare_function hash key k then e
          else find (he_is (ht_compare_function hash) k) (ht_buckets hash ! key_bucket hash key))"
  shows "ht_view (ht_set_bucket hash (key_bucket hash key) es) =
         dict_put (ht_compare_function hash) key (map_option he_value e) (ht_view hash)"
proof
  fix k
  let ?b = "key_bucket hash key"
  have b: "?b < length (ht_buckets hash)" using ht_okD(1) [OF assms(1)] by (rule hash_bucket_less)
  have "key_bucket hash k = ?b" if "ht_compare_function hash key k"
    using key_lawsD(4) [OF ht_okD(4) [OF assms(1)] that] by (simp add: hash_value_def)
  then show "ht_view (ht_set_bucket hash ?b es) k =
      dict_put (ht_compare_function hash) key (map_option he_value e) (ht_view hash) k"
    by (auto simp: dict_put_def ht_view_set_bucket [OF assms(1) b assms(2)] ht_view_bucket [OF assms(1)] assms(3))
qed

lemma find_other:
  assumes "key_laws hf cmp" "he_is cmp key e" "\<not> cmp key k"
  shows "\<not> he_is cmp k e"
proof
  assume "he_is cmp k e"
  with assms(2) obtain k' where "cmp k k'" "cmp key k'"
    by (auto simp: he_is_def split: option.splits)
  with key_lawsD(2,3) [OF assms(1)] have "cmp key k" by blast
  with assms(3) show False ..
qed

lemma find_same:
  assumes "key_laws hf cmp" "cmp key k"
  shows "he_is cmp k = he_is cmp key"
proof -
  have "cmp k x = cmp key x" for x using key_lawsD(2,3) [OF assms(1)] assms(2) by blast
  then show ?thesis by (simp add: fun_eq_iff he_is_def split: option.split)
qed

lemma hash_remove_spec:
  assumes "ht_ok hash"
  shows "\<exists>hash'. hash_remove hash key = Inr (ht_view hash key \<noteq> None, hash') \<and> ht_ok hash'
     \<and> ht_view hash' = dict_put (ht_compare_function hash) key None (ht_view hash)
     \<and> ht_compare_function hash' = ht_compare_function hash
     \<and> ht_n_elements hash' = ht_n_elements hash - (if ht_view hash key = None then 0 else 1)"
proof -
  let ?cmp = "ht_compare_function hash" and ?b = "key_bucket hash key"
  let ?es = "ht_buckets hash ! ?b"
  have b: "?b < length (ht_buckets hash)" using ht_okD(1) [OF assms] by (rule hash_bucket_less)
  note laws = ht_okD(4) [OF assms] and ok = ht_okD(2) [OF assms b]
  obtain r where r: "hash_bucket_search ?cmp key (hash_value hash key) ?es = Inr r"
    "case r of None \<Rightarrow> \<forall>e \<in> set ?es. \<not> he_is ?cmp key e
     | Some (xs, e, ys) \<Rightarrow> ?es = xs @ e # ys \<and> he_is ?cmp key e"
    using hash_bucket_search_spec [OF laws ok] by blast
  show ?thesis
  proof (cases r)
    case None
    have "ht_view hash k = None" if "?cmp key k" for k
    proof -
      have "key_bucket hash k = ?b" using key_lawsD(4) [OF laws that] by (simp add: hash_value_def)
      then show ?thesis using r None by (intro ht_view_None [OF assms]) (simp add: find_same [OF laws that])
    qed
    then have "dict_put ?cmp key None (ht_view hash) = ht_view hash"
      by (auto simp: dict_put_def fun_eq_iff)
    with None r assms show ?thesis
      by (simp add: hash_remove_def hash_remove_fast_def ht_view_None)
  next
    case (Some t)
    then obtain xs e ys where t: "r = Some (xs, e, ys)" by (cases t) auto
    with r have es: "?es = xs @ e # ys" and e: "he_is ?cmp key e" by simp_all
    have ok': "bucket_ok hash ?b (e # xs @ ys)" "bucket_ok hash ?b (xs @ ys)"
      using bucket_ok_middle [OF laws] ok es by simp_all
    let ?h = "(ht_set_bucket hash ?b (xs @ ys))\<lparr>ht_n_elements := ht_n_elements hash - 1\<rparr>"
    have "ht_ok ?h" using assms b ok'(2) by (intro ht_ok_set_bucket) (simp_all add: es)
    moreover have "ht_view ?h = dict_put ?cmp key None (ht_view hash)"
    proof -
      have "find (he_is ?cmp k) (xs @ ys) = (if ?cmp key k then None else find (he_is ?cmp k) ?es)" for k
      proof (cases "?cmp key k")
        case True
        have "\<not> he_is ?cmp key x" if "x \<in> set (xs @ ys)" for x
          using he_is_two [OF laws e, of x] ok'(1) that by (auto simp: bucket_ok_Cons)
        then show ?thesis by (auto simp: True find_None_iff find_same [OF laws True])
      next
        case False
        have "find (he_is ?cmp k) ?es = find (he_is ?cmp k) (e # xs @ ys)"
          using find_move_to_front [OF laws ok [unfolded es]] by (simp only: es)
        then show ?thesis using find_other [OF laws e False] by (simp add: False)
      qed
      from ht_view_put [OF assms ok'(2) this] show ?thesis by simp
    qed
    moreover have "ht_view hash key = Some (he_value e)"
      using assms e es by (intro ht_view_Some) simp_all
    ultimately show ?thesis using r(1) t by (simp add: hash_remove_def hash_remove_fast_def)
  qed
qed

lemma hash_add_spec:
  assumes "ht_ok hash"
  shows "\<exists>hash'. hash_add hash key v replace = Inr (ht_view hash key = None \<or> replace, hash') \<and> ht_ok hash'
     \<and> ht_view hash' = (if ht_view hash key = None \<or> replace
                        then dict_put (ht_compare_function hash) key (Some v) (ht_view hash)
                        else ht_view hash)
     \<and> ht_compare_function hash' = ht_compare_function hash
     \<and> ht_n_elements hash' = ht_n_elements hash + (if ht_view hash key = None then 1 else 0)"
proof -
  let ?cmp = "ht_compare_function hash" and ?b = "key_bucket hash key"
  obtain r h where l: "hash_lookup_fast hash ?b key (hash_value hash key) = Inr (r, h)" "ht_ok h"
    "ht_view h = ht_view hash" "ht_n_elements h = ht_n_elements hash" "ht_compare_function h = ?cmp"
    "\<forall>k. key_bucket h k = key_bucket hash k" "\<forall>k. hash_value h k = hash_value hash k"
    and c: "case r of
           None \<Rightarrow> ht_view hash key = None \<and> h = hash \<and> (\<forall>e \<in> set (ht_buckets hash ! ?b). \<not> he_is ?cmp key e)
         | Some e \<Rightarrow> ht_view hash key = Some (he_value e) \<and> he_is ?cmp key e \<and> (\<exists>es. ht_buckets h ! ?b = e # es)"
    using hash_lookup_fast_spec [OF assms, of key] by auto
  have b: "?b < length (ht_buckets h)" using ht_okD(1) [OF l(2)] l(6) by (metis hash_bucket_less)
  note laws = ht_okD(4) [OF l(2), unfolded l(5)] and ok = ht_okD(2) [OF l(2) b]
  have b': "key_bucket h key = ?b" using l(6) by simp
  show ?thesis
  proof (cases r)
    case None
    with c have n: "ht_view hash key = None" "h = hash" "\<forall>e \<in> set (ht_buckets hash ! ?b). \<not> he_is ?cmp key e"
      by simp_all
    let ?e = "\<lparr>he_value = v, he_key = Some key, he_hash_value = hash_value hash key\<rparr>"
    let ?es = "?e # ht_buckets hash ! ?b"
    have "he_apart ?cmp ?e x" if "x \<in> set (ht_buckets hash ! ?b)" for x
      using n(3) that by (simp add: he_apart_def)
    then have ok': "bucket_ok hash ?b ?es" using ok n(2) by (simp add: bucket_ok_Cons he_ok_def)
    have "he_is ?cmp k ?e = ?cmp key k" for k
      using key_lawsD(2) [OF laws] by (auto simp: he_is_def)
    then have "find (he_is ?cmp k) ?es = (if ?cmp key k then Some ?e else find (he_is ?cmp k) (ht_buckets hash ! ?b))" for k
      by simp
    from ht_view_put [OF assms ok' this]
    have "ht_view (hash_add_fast hash ?b key (hash_value hash key) v) = dict_put ?cmp key (Some v) (ht_view hash)"
      by (simp add: hash_add_fast_def)
    moreover have "ht_ok (hash_add_fast hash ?b key (hash_value hash key) v)"
      unfolding hash_add_fast_def using assms b n(2) ok' by (intro ht_ok_set_bucket) simp_all
    ultimately show ?thesis using l(1) None n by (simp add: hash_add_def hash_add_fast_def Let_def)
  next
    case (Some e)
    with c obtain es where es: "ht_view hash key = Some (he_value e)" "he_is ?cmp key e" "ht_buckets h ! ?b = e # es"
      by auto
    let ?e = "e\<lparr>he_value := v\<rparr>"
    have ok': "bucket_ok h (key_bucket h key) (?e # es)"
      using ok by (auto simp add: b' es(3) bucket_ok_Cons he_ok_def he_apart_def split: option.splits)
    have is_e: "he_is ?cmp k ?e = he_is ?cmp k e" for k by (simp add: he_is_def)
    have "find (he_is ?cmp k) (?e # es) =
        (if ?cmp key k then Some ?e else find (he_is ?cmp k) (ht_buckets h ! key_bucket h key))" for k
      using find_other [OF laws es(2), of k] es(2)
      by (cases "?cmp key k") (simp_all add: b' es(3) is_e find_same [OF laws])
    from ht_view_put [OF l(2) ok', unfolded l(5), OF this]
    have "ht_view (ht_set_bucket h ?b (?e # es)) = dict_put ?cmp key (Some v) (ht_view hash)"
      by (simp add: b' l(3))
    moreover have "ht_ok ((ht_set_bucket h ?b (?e # es))\<lparr>ht_n_elements := ht_n_elements h\<rparr>)"
      using l(2) b ok' by (intro ht_ok_set_bucket) (simp_all add: b' es(3))
    then have "ht_ok (ht_set_bucket h ?b (?e # es))" by (simp add: ht_set_bucket_def)
    ultimately show ?thesis using l Some es by (simp add: hash_add_def Let_def)
  qed
qed

section \<open>The interface of the users of the table\<close>

locale dictionary =
  fixes ok :: "'h \<Rightarrow> bool"
    and view :: "'h \<Rightarrow> 'k \<Rightarrow> 'v option"
    and same :: "'h \<Rightarrow> 'k \<Rightarrow> 'k \<Rightarrow> bool"
    and count :: "'h \<Rightarrow> int"
    and lookup :: "'h \<Rightarrow> 'k \<Rightarrow> ('v option \<times> 'h) result"
    and add :: "'h \<Rightarrow> 'k \<Rightarrow> 'v \<Rightarrow> bool \<Rightarrow> (bool \<times> 'h) result"
    and remove :: "'h \<Rightarrow> 'k \<Rightarrow> (bool \<times> 'h) result"
  assumes same_refl: "ok h \<Longrightarrow> same h k k"
    and lookup_law: "ok h \<Longrightarrow> \<exists>h'. lookup h k = Inr (view h k, h') \<and> ok h' \<and> view h' = view h
            \<and> same h' = same h \<and> count h' = count h"
    and add_law: "ok h \<Longrightarrow> \<exists>h'. add h k v replace = Inr (view h k = None \<or> replace, h') \<and> ok h'
            \<and> view h' = (if view h k = None \<or> replace then dict_put (same h) k (Some v) (view h) else view h)
            \<and> same h' = same h \<and> count h' = count h + (if view h k = None then 1 else 0)"
    and remove_law: "ok h \<Longrightarrow> \<exists>h'. remove h k = Inr (view h k \<noteq> None, h') \<and> ok h'
            \<and> view h' = dict_put (same h) k None (view h)
            \<and> same h' = same h \<and> count h' = count h - (if view h k = None then 0 else 1)"
begin

lemma add_then_lookup:
  assumes "ok h" "view h k = None \<or> replace"
  shows "\<exists>h1 h2. add h k v replace = Inr (True, h1) \<and> lookup h1 k = Inr (Some v, h2) \<and> ok h2"
proof -
  obtain h1 where h1: "add h k v replace = Inr (True, h1)" "ok h1" "view h1 = dict_put (same h) k (Some v) (view h)"
    using add_law [OF assms(1), of k v replace] assms(2) by auto
  moreover have "view h1 k = Some v" by (simp add: h1(3) dict_put_def same_refl [OF assms(1)])
  ultimately show ?thesis using lookup_law [OF h1(2), of k] by auto
qed

lemma remove_then_lookup:
  assumes "ok h"
  shows "\<exists>b h1 h2. remove h k = Inr (b, h1) \<and> lookup h1 k = Inr (None, h2) \<and> ok h2"
proof -
  obtain b h1 where h1: "remove h k = Inr (b, h1)" "ok h1" "view h1 = dict_put (same h) k None (view h)"
    using remove_law [OF assms(1), of k] by auto
  moreover have "view h1 k = None" by (simp add: h1(3) dict_put_def same_refl [OF assms(1)])
  ultimately show ?thesis using lookup_law [OF h1(2), of k] by auto
qed

lemma add_remove_other:
  assumes "ok h" "\<not> same h k k'" "view h k = None \<or> replace"
  shows "\<exists>b h1 h2. add h k v replace = Inr (True, h1) \<and> remove h1 k = Inr (b, h2) \<and> ok h2
           \<and> view h2 k' = view h k' \<and> view h2 k = None
           \<and> (view h k = None \<longrightarrow> count h2 = count h)"
proof -
  obtain h1 where h1: "add h k v replace = Inr (True, h1)" "ok h1" "same h1 = same h"
      "view h1 = dict_put (same h) k (Some v) (view h)"
      "count h1 = count h + (if view h k = None then 1 else 0)"
    using add_law [OF assms(1), of k v replace] assms(3) by auto
  have v: "view h1 k = Some v" by (simp add: h1(4) dict_put_def same_refl [OF assms(1)])
  obtain b h2 where h2: "remove h1 k = Inr (b, h2)" "ok h2" "view h2 = dict_put (same h) k None (view h1)"
      "count h2 = count h1 - 1"
    using remove_law [OF h1(2), of k] h1(3) v by auto
  have "view h2 k' = view h k'" "view h2 k = None"
    using assms(2) by (simp_all add: h2(3) h1(4) dict_put_def same_refl [OF assms(1)])
  then show ?thesis using h1 h2 by auto
qed

end

interpretation dict: dictionary ht_ok ht_view ht_compare_function ht_n_elements hash_lookup hash_add hash_remove
proof
  show "ht_compare_function h k k" if "ht_ok h" for h :: "('k, 'v) hash" and k
    using key_lawsD(1) [OF ht_okD(4) [OF that]] .
qed (rule hash_lookup_spec hash_add_spec hash_remove_spec; assumption)+

section \<open>Initialisation\<close>

lemma unat_power_64: "k < 64 \<Longrightarrow> unat (2 ^ k :: 64 word) = 2 ^ k"
proof -
  assume "k < 64"
  then have "(2::nat) ^ k < 2 ^ 64" by (intro power_strict_increasing) simp_all
  moreover have "(2 :: 64 word) ^ k = of_nat (2 ^ k)" by simp
  ultimately show ?thesis by (simp only: unat_of_nat) simp
qed

lemma adjust_power_of_2_loop_spec:
  "k \<le> 63 \<Longrightarrow> (k = 0 \<or> 2 ^ (k - 1) < unat u) \<Longrightarrow>
     adjust_power_of_2_loop u (2 ^ k) =
       (if unat u \<le> 2 ^ 63 then Inr (2 ^ (LEAST m. unat u \<le> 2 ^ m)) else Inl AssertFailed)"
proof (induction "63 - k" arbitrary: k)
  case (0 k)
  then have k: "k = 63" by simp
  have "(LEAST m. unat u \<le> 2 ^ m) = 63" if "unat u \<le> 2 ^ 63"
  proof (rule Least_equality)
    fix m assume "unat u \<le> 2 ^ m"
    show "63 \<le> m"
    proof (rule ccontr)
      assume "\<not> 63 \<le> m"
      then have "(2::nat) ^ m \<le> 2 ^ 62" by (intro power_increasing) simp_all
      with 0(3) \<open>unat u \<le> 2 ^ m\<close> show False by (simp add: k)
    qed
  qed (rule that)
  moreover have "unat (2 ^ 63 :: 64 word) = 2 ^ 63" by simp
  ultimately show ?case
    by (subst adjust_power_of_2_loop.simps) (auto simp: k word_less_nat_alt Let_def)
next
  case (Suc n k)
  then have k: "k < 63" by simp
  have u: "unat (2 ^ k :: 64 word) = 2 ^ k" using k by (simp add: unat_power_64)
  show ?case
  proof (cases "unat u \<le> 2 ^ k")
    case True
    have "(LEAST m. unat u \<le> 2 ^ m) = k"
    proof (rule Least_equality)
      fix m assume m: "unat u \<le> 2 ^ m"
      show "k \<le> m"
      proof (rule ccontr)
        assume "\<not> k \<le> m"
        then have "(2::nat) ^ m \<le> 2 ^ (k - 1)" "k \<noteq> 0" by (auto intro: power_increasing)
        with Suc.prems(2) m show False by linarith
      qed
    qed (rule True)
    moreover have "(2::nat) ^ k \<le> 2 ^ 63" using k by (intro power_increasing) simp_all
    ultimately show ?thesis using True
      by (subst adjust_power_of_2_loop.simps) (simp add: word_less_nat_alt u)
  next
    case False
    have nz: "(0 :: 64 word) < 2 ^ Suc k" using k by (simp add: word_less_nat_alt unat_power_64 del: power_Suc)
    have "adjust_power_of_2_loop u (2 ^ k) = adjust_power_of_2_loop u (2 ^ Suc k)"
      using False nz by (subst adjust_power_of_2_loop.simps) (simp add: word_less_nat_alt u push_bit_eq_mult mult.commute)
    also have "\<dots> = (if unat u \<le> 2 ^ 63 then Inr (2 ^ (LEAST m. unat u \<le> 2 ^ m)) else Inl AssertFailed)"
      using Suc.hyps(2) k False by (intro Suc.hyps(1)) simp_all
    finally show ?thesis .
  qed
qed

lemma adjust_power_of_2_spec:
  "adjust_power_of_2 u =
     (if unat u \<le> 2 ^ 63 then Inr (2 ^ (LEAST m. unat u \<le> 2 ^ m)) else Inl AssertFailed)"
  using adjust_power_of_2_loop_spec [of 0 u] by (simp add: adjust_power_of_2_def)

lemma hash_init_spec:
  assumes "0 < n" "n \<le> 2 ^ 28" "key_laws hf cmp"
  shows "\<exists>hash. hash_init n iv hf cmp = Inr hash \<and> ht_ok hash \<and> ht_view hash = (\<lambda>_. None)
     \<and> n \<le> ht_n_buckets hash \<and> ht_n_elements hash = 0 \<and> ht_compare_function hash = cmp"
proof -
  let ?u = "word_of_int n :: 64 word"
  have u: "unat ?u = nat n" using assms by (simp only: unat_eq_nat_uint uint_word_of_int) simp
  define m where "m = (LEAST m. nat n \<le> 2 ^ m)"
  have le: "m \<le> 28" using assms(2) unfolding m_def by (intro Least_le) (simp add: nat_le_iff)
  have "nat n \<le> 2 ^ 28" using assms(2) by (simp add: nat_le_iff)
  then have ge: "nat n \<le> 2 ^ m" unfolding m_def by (rule LeastI)
  have "nat n \<le> 2 ^ 63" using assms(2) by (simp add: nat_le_iff)
  then have a: "adjust_power_of_2 ?u = Inr (2 ^ m)" by (simp only: adjust_power_of_2_spec u m_def) simp
  have p: "(2::int) ^ m \<le> 2 ^ 28" using le by (intro power_increasing) simp_all
  have "(ucast (2 ^ m :: 64 word) :: u32) = word_of_int (2 ^ m)"
    using le by (simp, intro bit_word_eqI) (auto simp: bit_simps)
  moreover have "uint (word_of_int (2 ^ m) :: u32) = 2 ^ m"
    using p by (simp only: uint_word_of_int) simp
  then have "sint (word_of_int (2 ^ m) :: u32) = 2 ^ m"
    using p int_of_u32_small [of "word_of_int (2 ^ m)"] by (simp add: int_of_u32_def)
  ultimately have s: "sint (ucast (2 ^ m :: 64 word) :: u32) = 2 ^ m" by simp
  have "array_mult_safe 8 (size_t_of_int (2 ^ m)) 0 = Inr (8 * 2 ^ m)"
    using p by (simp add: array_mult_safe_def)
  then have "hash_init n iv hf cmp = Inr \<lparr>ht_n_buckets = 2 ^ m, ht_n_elements = 0, ht_mask = 2 ^ m - 1, ht_iv = iv,
                  ht_hash_function = hf, ht_compare_function = cmp,
                  ht_buckets = replicate (nat (2 ^ m)) []\<rparr>"
    using assms(1) by (simp add: hash_init_def a s Let_def)
  moreover have "n \<le> 2 ^ m" using ge by (simp add: nat_le_iff)
  moreover have "m < 31" using le by simp
  ultimately show ?thesis using assms(3)
    by (auto simp: ht_ok_def ht_shape_def bucket_ok_def ht_view_def fun_eq_iff)
qed

section \<open>Removing by value\<close>

definition purge_bucket :: "'v \<Rightarrow> nat \<Rightarrow> ('k, 'v) hash \<Rightarrow> ('k, 'v) hash" where
  "purge_bucket v b hash =
     (let es = ht_buckets hash ! b; es' = filter (\<lambda>he. he_value he \<noteq> v) es
      in (ht_set_bucket hash b es')\<lparr>ht_n_elements := ht_n_elements hash + int (length es') - int (length es)\<rparr>)"

definition he_mark :: "'v \<Rightarrow> ('k, 'v) hash_element \<Rightarrow> ('k, 'v) hash_element" where
  "he_mark v he = (if he_value he = v then he\<lparr>he_key := None\<rparr> else he)"

lemma scan_bucket:
  assumes "hi_bucket hi = Some b" "b < length (ht_buckets hash)" "p \<le> length (ht_buckets hash ! b)"
    "hi_elem hi = (if p < length (ht_buckets hash ! b) then Some p else None)"
  shows "\<exists>l. hash_remove_by_value_loop hash hi v =
    hash_remove_by_value_loop
      (ht_set_bucket hash b (take p (ht_buckets hash ! b) @ map (he_mark v) (drop p (ht_buckets hash ! b))))
      (hi\<lparr>hi_last := l, hi_elem := None,
          hi_bucket_marked := hi_bucket_marked hi \<or> (\<exists>e \<in> set (drop p (ht_buckets hash ! b)). he_value e = v)\<rparr>) v"
  using assms
proof (induction "length (ht_buckets hash ! b) - p" arbitrary: p hash hi)
  case 0
  then have "hi\<lparr>hi_elem := None\<rparr> = hi" by (cases hi) simp
  with 0 show ?case by (intro exI [of _ "hi_last hi"]) (cases hi, simp add: ht_set_bucket_def)
next
  case (Suc n)
  let ?es = "ht_buckets hash ! b"
  have p: "p < length ?es" "hi_elem hi = Some p" using Suc by simp_all
  let ?hi = "hi\<lparr>hi_last := Some p, hi_elem := (if Suc p < length ?es then Some (Suc p) else None)\<rparr>"
  have nx: "hash_iterator_next hash hi = (Some (?es ! p), hash, ?hi)"
    using Suc.prems(1) p by (simp add: hash_iterator_next_def hash_iterator_advance_def)
  have dr: "drop p ?es = ?es ! p # drop (Suc p) ?es" using p(1) by (simp add: Cons_nth_drop_Suc)
  show ?case
  proof (cases "he_value (?es ! p) = v")
    case True
    let ?hash = "ht_set_bucket hash b (?es[p := (?es ! p)\<lparr>he_key := None\<rparr>])"
    have step: "hash_remove_by_value_loop hash hi v =
        hash_remove_by_value_loop ?hash (?hi\<lparr>hi_bucket_marked := True\<rparr>) v"
      using Suc.prems(1) True
      by (subst hash_remove_by_value_loop.simps) (simp add: nx hash_iterator_delete_element_def Let_def)
    have "\<exists>l. hash_remove_by_value_loop ?hash (?hi\<lparr>hi_bucket_marked := True\<rparr>) v =
      hash_remove_by_value_loop
        (ht_set_bucket ?hash b (take (Suc p) (ht_buckets ?hash ! b) @ map (he_mark v) (drop (Suc p) (ht_buckets ?hash ! b))))
        ((?hi\<lparr>hi_bucket_marked := True\<rparr>)\<lparr>hi_last := l, hi_elem := None, hi_bucket_marked := True\<rparr>) v"
      using Suc.hyps(1) [of ?hash "Suc p" "?hi\<lparr>hi_bucket_marked := True\<rparr>"] Suc.hyps(2) Suc.prems p(1)
      by simp
    moreover have "take (Suc p) (?es[p := (?es ! p)\<lparr>he_key := None\<rparr>]) = take p ?es @ [he_mark v (?es ! p)]"
      using p(1) True by (simp add: take_Suc_conv_app_nth he_mark_def)
    ultimately show ?thesis using step dr True Suc.prems(2) by (simp add: ht_set_bucket_def)
  next
    case False
    have "hash_remove_by_value_loop hash hi v = hash_remove_by_value_loop hash ?hi v"
      using False by (subst hash_remove_by_value_loop.simps) (simp add: nx)
    moreover have "take (Suc p) ?es = take p ?es @ [he_mark v (?es ! p)]"
      using p(1) False by (simp add: take_Suc_conv_app_nth he_mark_def)
    ultimately show ?thesis
      using Suc.hyps(1) [of hash "Suc p" ?hi] Suc.hyps(2) Suc.prems p(1) dr False by simp
  qed
qed

lemma filter_he_mark:
  "\<forall>e \<in> set es. he_key e \<noteq> None \<Longrightarrow>
     filter (\<lambda>he. he_key he \<noteq> None) (map (he_mark v) es) = filter (\<lambda>he. he_value he \<noteq> v) es"
  by (induction es) (auto simp: he_mark_def)

lemma map_he_mark_id: "\<forall>e \<in> set es. he_value e \<noteq> v \<Longrightarrow> map (he_mark v) es = es"
  by (induction es) (auto simp: he_mark_def)

lemma unlock_marked:
  assumes "hi_bucket hi = Some b" "b < length (ht_buckets hash)"
    "hi_bucket_marked hi = (\<exists>e \<in> set (ht_buckets hash ! b). he_value e = v)"
    "\<forall>e \<in> set (ht_buckets hash ! b). he_key e \<noteq> None"
  shows "fst (hash_iterator_unlock (ht_set_bucket hash b (map (he_mark v) (ht_buckets hash ! b))) hi)
       = purge_bucket v b hash"
proof (cases "hi_bucket_marked hi")
  case True
  with assms(1,2) filter_he_mark [OF assms(4), of v] show ?thesis
    by (simp add: hash_iterator_unlock_def hash_remove_marked_def purge_bucket_def Let_def ht_set_bucket_def
        del: not_None_eq length_filter_map)
next
  case False
  with assms have "\<forall>e \<in> set (ht_buckets hash ! b). he_value e \<noteq> v" by simp
  then have "map (he_mark v) (ht_buckets hash ! b) = ht_buckets hash ! b"
    "filter (\<lambda>he. he_value he \<noteq> v) (ht_buckets hash ! b) = ht_buckets hash ! b"
    by (simp_all add: map_he_mark_id filter_id_conv)
  then show ?thesis using False assms(1)
    by (simp add: hash_iterator_unlock_def purge_bucket_def Let_def ht_set_bucket_def)
qed

lemma purge_bucket_fields [simp]:
  "length (ht_buckets (purge_bucket v b hash)) = length (ht_buckets hash)"
  "ht_shape (purge_bucket v b hash) = ht_shape hash"
  "ht_compare_function (purge_bucket v b hash) = ht_compare_function hash"
  "hash_bucket (purge_bucket v b hash) = hash_bucket hash"
  "hash_value (purge_bucket v b hash) = hash_value hash"
  by (simp_all add: purge_bucket_def Let_def)

lemma purge_bucket_other: "i \<noteq> b \<Longrightarrow> ht_buckets (purge_bucket v b hash) ! i = ht_buckets hash ! i"
  by (simp add: purge_bucket_def Let_def)

definition settled :: "('k, 'v) hash \<Rightarrow> hash_iterator \<Rightarrow> ('k, 'v) hash" where
  "settled hash hi = fst (hash_iterator_unlock hash hi)"

lemma settled_index [simp]: "settled hash (hi\<lparr>hi_bucket_index := i\<rparr>) = settled hash hi"
  by (simp add: settled_def hash_iterator_unlock_def split: option.split)

lemma scan_rest:
  assumes "hi_elem hi = None" "hi_bucket_index_end hi = int (length (ht_buckets hash))"
    "- 1 \<le> hi_bucket_index hi" "k = nat (hi_bucket_index hi + 1)"
    "length (ht_buckets (settled hash hi)) = length (ht_buckets hash)"
    "\<And>j. k \<le> j \<Longrightarrow> j < length (ht_buckets hash) \<Longrightarrow>
       \<forall>e \<in> set (ht_buckets (settled hash hi) ! j). he_key e \<noteq> None"
  shows "hash_remove_by_value_loop hash hi v =
     Inr (fold (purge_bucket v) [k..<length (ht_buckets hash)] (settled hash hi))"
  using assms
proof (induction "length (ht_buckets hash) - k" arbitrary: hash hi k)
  case 0
  let ?hi = "hi\<lparr>hi_bucket_index := hi_bucket_index hi + 1\<rparr>"
  have "\<not> hi_bucket_index hi + 1 < hi_bucket_index_end hi" using 0 by simp
  then have "hash_iterator_next_loop hash hi = (None, hash, ?hi)"
    by (subst hash_iterator_next_loop.simps) (simp add: Let_def)
  then have nx: "hash_iterator_next hash hi = (None, hash, ?hi)"
    by (simp add: hash_iterator_next_def 0(2) split: option.split)
  show ?case using 0 settled_index [where hash = hash and hi = hi]
    by (subst hash_remove_by_value_loop.simps) (simp add: nx hash_iterator_free_def settled_def)
next
  case (Suc n)
  define S where "S = settled hash hi"
  define hi1 where "hi1 = hi\<lparr>hi_bucket_index := hi_bucket_index hi + 1\<rparr>"
  have "fst (hash_iterator_unlock hash hi1) = S"
    using settled_index [where hash = hash and hi = hi] by (simp add: S_def settled_def hi1_def)
  then obtain hi2 where u: "hash_iterator_unlock hash hi1 = (S, hi2)" by (metis prod.collapse)
  have hi2: "hi_elem hi2 = None" "hi_bucket hi2 = None" "hi_bucket_index hi2 = hi_bucket_index hi + 1"
      "hi_bucket_index_end hi2 = hi_bucket_index_end hi"
    using u Suc.prems(1) unfolding hi1_def hash_iterator_unlock_def by (auto split: option.splits)
  have k: "k < length (ht_buckets hash)" "hi_bucket_index hi + 1 = int k" using Suc by simp_all
  have u': "hash_iterator_unlock hash (hi\<lparr>hi_bucket_index := int k\<rparr>) = (S, hi2)"
    using u by (simp only: hi1_def k(2))
  have len: "length (ht_buckets S) = length (ht_buckets hash)" using Suc.prems(5) by (simp add: S_def)
  have keys: "\<And>j. k \<le> j \<Longrightarrow> j < length (ht_buckets hash) \<Longrightarrow> \<forall>e \<in> set (ht_buckets S ! j). he_key e \<noteq> None"
    using Suc.prems(6) by (simp add: S_def)
  have upt: "[k..<length (ht_buckets hash)] = k # [Suc k..<length (ht_buckets hash)]"
    using k(1) by (rule upt_conv_Cons)
  have nl: "hash_iterator_next hash hi = hash_iterator_next_loop hash hi"
    by (simp add: hash_iterator_next_def Suc.prems(1) split: option.split)
  show ?case
  proof (cases "ht_buckets S ! k")
    case Nil
    have "hash_iterator_next_loop hash hi = hash_iterator_next_loop S hi2"
      using Suc.prems(2) k Nil hi2
      by (subst hash_iterator_next_loop.simps) (simp add: Let_def u')
    then have "hash_iterator_next hash hi = hash_iterator_next S hi2"
      by (simp only: nl) (simp add: hash_iterator_next_def hi2)
    then have "hash_remove_by_value_loop hash hi v = hash_remove_by_value_loop S hi2 v"
      by (subst (1 2) hash_remove_by_value_loop.simps) simp
    moreover have s2: "settled S hi2 = S" by (simp add: settled_def hash_iterator_unlock_def hi2)
    moreover have "hash_remove_by_value_loop S hi2 v =
        Inr (fold (purge_bucket v) [Suc k..<length (ht_buckets S)] (settled S hi2))"
    proof (rule Suc.hyps(1))
      fix j assume "Suc k \<le> j" "j < length (ht_buckets S)"
      then show "\<forall>e \<in> set (ht_buckets (settled S hi2) ! j). he_key e \<noteq> None"
        using keys [of j] by (simp add: s2 len)
    qed (use Suc.hyps(2) Suc.prems(2,3) k hi2 len in \<open>simp_all add: s2\<close>)
    moreover have "(ht_buckets S)[k := []] = ht_buckets S" using list_update_id [of "ht_buckets S" k] Nil by simp
    then have "purge_bucket v k S = S" using Nil by (simp add: purge_bucket_def ht_set_bucket_def Let_def)
    ultimately show ?thesis by (simp add: upt len flip: S_def)
  next
    case (Cons e es)
    define hi3 where "hi3 = (hash_iterator_lock hi2 k)\<lparr>hi_elem := Some 0\<rparr>"
    have "hash_iterator_next_loop hash hi = (Some e, S, hash_iterator_advance S hi3)"
      using Suc.prems(2) k Cons hi2
      by (subst hash_iterator_next_loop.simps) (simp add: Let_def u' hi3_def)
    moreover have "hash_iterator_next S hi3 = (Some e, S, hash_iterator_advance S hi3)"
      by (simp add: hash_iterator_next_def hi3_def hash_iterator_lock_def Cons)
    ultimately have "hash_remove_by_value_loop hash hi v = hash_remove_by_value_loop S hi3 v"
      by (subst (1 2) hash_remove_by_value_loop.simps) (simp add: nl)
    moreover define T where "T = ht_set_bucket S k (map (he_mark v) (ht_buckets S ! k))"
    obtain l where "hash_remove_by_value_loop S hi3 v = hash_remove_by_value_loop T
          (hi3\<lparr>hi_last := l, hi_elem := None,
               hi_bucket_marked := (\<exists>e \<in> set (ht_buckets S ! k). he_value e = v)\<rparr>) v"
      using scan_bucket [of hi3 k S 0 v] k(1) len
      by (auto simp add: hi3_def hash_iterator_lock_def Cons T_def)
    moreover define hi4 where "hi4 = hi3\<lparr>hi_last := l, hi_elem := None,
               hi_bucket_marked := (\<exists>e \<in> set (ht_buckets S ! k). he_value e = v)\<rparr>"
    ultimately have step: "hash_remove_by_value_loop hash hi v = hash_remove_by_value_loop T hi4 v" by simp
    have hi4: "hi_elem hi4 = None" "hi_bucket hi4 = Some k" "hi_bucket_index hi4 = int k"
        "hi_bucket_index_end hi4 = int (length (ht_buckets T))"
        "hi_bucket_marked hi4 = (\<exists>e \<in> set (ht_buckets S ! k). he_value e = v)"
      using hi2 Suc.prems(2) k len by (simp_all add: hi4_def hi3_def hash_iterator_lock_def T_def)
    have lenT: "length (ht_buckets T) = length (ht_buckets hash)" using len by (simp add: T_def)
    have s4: "settled T hi4 = purge_bucket v k S"
      unfolding settled_def T_def using hi4 k(1) len keys [of k] by (intro unlock_marked) simp_all
    have "hash_remove_by_value_loop T hi4 v =
        Inr (fold (purge_bucket v) [Suc k..<length (ht_buckets T)] (settled T hi4))"
    proof (rule Suc.hyps(1))
      fix j assume "Suc k \<le> j" "j < length (ht_buckets T)"
      then show "\<forall>e \<in> set (ht_buckets (settled T hi4) ! j). he_key e \<noteq> None"
        using keys [of j] by (simp add: s4 purge_bucket_other lenT)
    qed (use Suc.hyps(2) k hi4 len lenT in \<open>simp_all add: s4\<close>)
    then show ?thesis by (simp add: step s4 lenT upt flip: S_def)
  qed
qed

lemma ht_ok_keys: "ht_ok hash \<Longrightarrow> j < length (ht_buckets hash) \<Longrightarrow>
    \<forall>e \<in> set (ht_buckets hash ! j). he_key e \<noteq> None"
  using ht_okD(2) [of hash j] by (auto simp: bucket_ok_def list_all_iff he_ok_def split: option.splits)

lemma ht_n_buckets_length: "ht_ok hash \<Longrightarrow> ht_n_buckets hash = int (length (ht_buckets hash))"
  by (auto simp: ht_ok_def ht_shape_def)

lemma hash_remove_by_value_fold:
  assumes "ht_ok hash"
  shows "hash_remove_by_value hash v = Inr (fold (purge_bucket v) [0..<length (ht_buckets hash)] hash)"
proof -
  define hi where "hi = \<lparr>hi_bucket_index = - 1, hi_bucket = None, hi_elem = None, hi_last = None,
                 hi_bucket_marked = False, hi_bucket_index_start = 0,
                 hi_bucket_index_end = ht_n_buckets hash\<rparr>"
  have i: "hash_iterator_init hash = Inr hi"
    using ht_n_buckets_length [OF assms]
    by (simp add: hash_iterator_init_def hash_iterator_init_range_def hi_def)
  have s: "settled hash hi = hash" by (simp add: settled_def hash_iterator_unlock_def hi_def)
  have "hash_remove_by_value_loop hash hi v =
      Inr (fold (purge_bucket v) [0..<length (ht_buckets hash)] (settled hash hi))"
    using ht_ok_keys [OF assms] ht_n_buckets_length [OF assms]
    by (intro scan_rest) (simp_all add: s, simp_all add: hi_def)
  then show ?thesis by (simp add: hash_remove_by_value_def i s)
qed

lemma purge_bucket_spec:
  assumes "ht_ok hash" "b < length (ht_buckets hash)"
  shows "ht_ok (purge_bucket v b hash)"
    "ht_view (purge_bucket v b hash) k =
       (if key_bucket hash k = b \<and> ht_view hash k = Some v then None else ht_view hash k)"
proof -
  let ?Q = "\<lambda>he. he_value he \<noteq> v" and ?es = "ht_buckets hash ! b"
  have ok: "bucket_ok hash b ?es" using assms by (rule ht_okD(2))
  then have ok': "bucket_ok hash b (filter ?Q ?es)"
    by (auto simp: bucket_ok_def list_all_iff sorted_wrt_filter)
  then show "ht_ok (purge_bucket v b hash)" using assms
    unfolding purge_bucket_def Let_def by (intro ht_ok_set_bucket) simp_all
  let ?P = "he_is (ht_compare_function hash) k"
  have f: "find ?P (filter ?Q ?es) = (case find ?P ?es of None \<Rightarrow> None | Some e \<Rightarrow> if ?Q e then Some e else None)"
  proof (cases "find ?P ?es")
    case None
    then have "find ?P (filter ?Q ?es) = None" by (auto simp: find_None_iff)
    with None show ?thesis by simp
  next
    case (Some e)
    then have e: "e \<in> set ?es" "?P e" by (auto simp: find_Some_iff)
    show ?thesis
    proof (cases "?Q e")
      case True
      then show ?thesis using find_he_is [OF ht_okD(4) [OF assms(1)] ok', of e] e Some by simp
    next
      case False
      have "x = e" if "x \<in> set ?es" "?P x" for x
        using find_he_is [OF ht_okD(4) [OF assms(1)] ok that] Some by simp
      then have "find ?P (filter ?Q ?es) = None" using False by (auto simp: find_None_iff)
      then show ?thesis using Some False by simp
    qed
  qed
  show "ht_view (purge_bucket v b hash) k =
       (if key_bucket hash k = b \<and> ht_view hash k = Some v then None else ht_view hash k)"
    by (auto simp: purge_bucket_def Let_def ht_view_set_bucket [OF assms ok'] ht_view_bucket [OF assms(1)] f
        split: option.splits)
qed

lemma purge_all:
  "ht_ok hash \<Longrightarrow> n \<le> length (ht_buckets hash) \<Longrightarrow>
     ht_ok (fold (purge_bucket v) [0..<n] hash)
     \<and> length (ht_buckets (fold (purge_bucket v) [0..<n] hash)) = length (ht_buckets hash)
     \<and> (\<forall>k. key_bucket (fold (purge_bucket v) [0..<n] hash) k = key_bucket hash k)
     \<and> (\<forall>k. ht_view (fold (purge_bucket v) [0..<n] hash) k =
            (if key_bucket hash k < n \<and> ht_view hash k = Some v then None else ht_view hash k))"
proof (induction n)
  case (Suc n)
  let ?h = "fold (purge_bucket v) [0..<n] hash"
  have ih: "ht_ok ?h" "length (ht_buckets ?h) = length (ht_buckets hash)"
      "\<And>k. key_bucket ?h k = key_bucket hash k"
      "\<And>k. ht_view ?h k = (if key_bucket hash k < n \<and> ht_view hash k = Some v then None else ht_view hash k)"
    using Suc.IH [OF Suc.prems(1)] Suc.prems(2) by simp_all
  have "n < length (ht_buckets ?h)" using ih(2) Suc.prems(2) by simp
  from purge_bucket_spec [OF ih(1) this, of v] ih show ?case by (auto simp: less_Suc_eq)
qed simp

lemma hash_remove_by_value_spec:
  assumes "ht_ok hash"
  shows "\<exists>hash'. hash_remove_by_value hash v = Inr hash' \<and> ht_ok hash'
     \<and> ht_view hash' = (\<lambda>k. if ht_view hash k = Some v then None else ht_view hash k)"
proof -
  have "key_bucket hash k < length (ht_buckets hash)" for k
    using ht_okD(1) [OF assms] by (rule hash_bucket_less)
  then show ?thesis using purge_all [OF assms order_refl, of v]
    by (auto simp: hash_remove_by_value_fold [OF assms] fun_eq_iff)
qed

section \<open>Sequences of operations\<close>

datatype ('k, 'v) hash_op =
    HAdd 'k 'v bool
  | HLookup 'k
  | HRemove 'k
  | HRemoveValue 'v

datatype 'v hash_answer =
    ADone bool
  | AValue "'v option"
  | ARemoved

fun hash_step :: "('k, 'v) hash_op \<Rightarrow> ('k, 'v) hash \<Rightarrow> ('v hash_answer \<times> ('k, 'v) hash) result" where
  "hash_step (HAdd k v replace) h = bind_result (hash_add h k v replace) (\<lambda>(b, h). Inr (ADone b, h))"
| "hash_step (HLookup k) h = bind_result (hash_lookup h k) (\<lambda>(r, h). Inr (AValue r, h))"
| "hash_step (HRemove k) h = bind_result (hash_remove h k) (\<lambda>(b, h). Inr (ADone b, h))"
| "hash_step (HRemoveValue v) h = bind_result (hash_remove_by_value h v) (\<lambda>h. Inr (ARemoved, h))"

fun hash_run :: "('k, 'v) hash_op list \<Rightarrow> ('k, 'v) hash \<Rightarrow> 'v hash_answer list result" where
  "hash_run [] h = Inr []"
| "hash_run (c # ops) h =
     bind_result (hash_step c h) (\<lambda>(a, h). bind_result (hash_run ops h) (\<lambda>as. Inr (a # as)))"

fun dict_step :: "('k \<Rightarrow> 'k \<Rightarrow> bool) \<Rightarrow> ('k, 'v) hash_op \<Rightarrow> ('k \<Rightarrow> 'v option) \<Rightarrow> 'v hash_answer \<times> ('k \<Rightarrow> 'v option)" where
  "dict_step same (HAdd k v replace) d =
     (if d k = None \<or> replace then (ADone True, dict_put same k (Some v) d) else (ADone False, d))"
| "dict_step same (HLookup k) d = (AValue (d k), d)"
| "dict_step same (HRemove k) d = (ADone (d k \<noteq> None), dict_put same k None d)"
| "dict_step same (HRemoveValue v) d = (ARemoved, \<lambda>k. if d k = Some v then None else d k)"

fun dict_run :: "('k \<Rightarrow> 'k \<Rightarrow> bool) \<Rightarrow> ('k, 'v) hash_op list \<Rightarrow> ('k \<Rightarrow> 'v option) \<Rightarrow> 'v hash_answer list" where
  "dict_run same [] d = []"
| "dict_run same (c # ops) d = (case dict_step same c d of (a, d) \<Rightarrow> a # dict_run same ops d)"

lemma purge_all_compare:
  "ht_compare_function (fold (purge_bucket v) bs hash) = ht_compare_function hash"
  by (induction bs arbitrary: hash) simp_all

lemma hash_step_refines:
  assumes "ht_ok h"
  shows "\<exists>h'. hash_step c h = Inr (fst (dict_step (ht_compare_function h) c (ht_view h)), h') \<and> ht_ok h'
     \<and> ht_view h' = snd (dict_step (ht_compare_function h) c (ht_view h))
     \<and> ht_compare_function h' = ht_compare_function h"
proof (cases c)
  case (HAdd k v replace)
  then show ?thesis using dict.add_law [OF assms, of k v replace] by auto
next
  case (HLookup k)
  then show ?thesis using dict.lookup_law [OF assms, of k] by auto
next
  case (HRemove k)
  then show ?thesis using dict.remove_law [OF assms, of k] by auto
next
  case (HRemoveValue v)
  then show ?thesis using hash_remove_by_value_spec [OF assms, of v]
    by (auto simp: hash_remove_by_value_fold [OF assms] purge_all_compare)
qed

lemma hash_run_refines:
  "ht_ok h \<Longrightarrow> hash_run ops h = Inr (dict_run (ht_compare_function h) ops (ht_view h))"
proof (induction ops arbitrary: h)
  case (Cons c ops)
  obtain h' where h': "hash_step c h = Inr (fst (dict_step (ht_compare_function h) c (ht_view h)), h')" "ht_ok h'"
      "ht_view h' = snd (dict_step (ht_compare_function h) c (ht_view h))"
      "ht_compare_function h' = ht_compare_function h"
    using hash_step_refines [OF Cons.prems] by blast
  then show ?case using Cons.IH [OF h'(2)] by (simp split: prod.split)
qed simp

text \<open>C23. The hash table is a dictionary: for hash and compare functions that fit together, any
  sequence of additions, lookups (which reorder the buckets), removals by key and removals by
  value on a fresh table gives exactly the answers of an abstract dictionary, and no operation
  aborts the process.\<close>

theorem hash_refines_dictionary:
  fixes ops :: "('k, 'v) hash_op list"
  assumes "0 < n" "n \<le> 2 ^ 28" "key_laws hf cmp"
  shows "bind_result (hash_init n iv hf cmp) (hash_run ops) = Inr (dict_run cmp ops (\<lambda>_. None))"
proof -
  obtain h :: "('k, 'v) hash" where "hash_init n iv hf cmp = Inr h" "ht_ok h" "ht_view h = (\<lambda>_. None)" "ht_compare_function h = cmp"
    using hash_init_spec [OF assms] by blast
  then show ?thesis by (simp add: hash_run_refines)
qed

lemma key_laws_void_ptr: "key_laws void_ptr_hash_function void_ptr_compare_function"
  by (simp add: key_laws_def void_ptr_compare_function_def)

theorem hash_refines_dictionary_witness:
  "bind_result (hash_init 5 7 void_ptr_hash_function void_ptr_compare_function)
     (hash_run [HAdd 1 (10::nat) False, HAdd 9 20 False, HAdd 1 30 False, HLookup 1, HAdd 1 20 True,
                HRemoveValue 20, HLookup 9, HRemove 9])
   = Inr [ADone True, ADone True, ADone False, AValue (Some 10), ADone True, ARemoved, AValue None, ADone False]"
proof -
  let ?ops = "[HAdd 1 (10::nat) False, HAdd 9 20 False, HAdd 1 30 False, HLookup 1, HAdd 1 20 True,
       HRemoveValue 20, HLookup 9, HRemove 9]"
  have "bind_result (hash_init 5 7 void_ptr_hash_function void_ptr_compare_function) (hash_run ?ops)
      = Inr (dict_run void_ptr_compare_function ?ops (\<lambda>_. None))"
    by (rule hash_refines_dictionary [OF _ _ key_laws_void_ptr]) simp_all
  also have "dict_run void_ptr_compare_function ?ops (\<lambda>_. None)
    = [ADone True, ADone True, ADone False, AValue (Some 10), ADone True, ARemoved, AValue None, ADone False]"
    by (simp add: dict_put_def void_ptr_compare_function_def)
  finally show ?thesis .
qed

text \<open>The size of a table is rounded up to the least power of two that is not smaller; sizes
  above \<open>2 ^ 63\<close> end in the failed assertion of the doubling loop instead of an endless loop.\<close>

theorem adjust_power_of_2_least:
  "adjust_power_of_2 u =
     (if unat u \<le> 2 ^ 63 then Inr (2 ^ (LEAST m. unat u \<le> 2 ^ m)) else Inl AssertFailed)"
  by (rule adjust_power_of_2_spec)

section \<open>Keys given as byte strings\<close>

text \<open>The hash reads nothing beyond the length it is given, so keys that agree on their first
  \<open>len\<close> bytes hash alike.\<close>

lemma hash_func_blocks_prefix:
  assumes "take (unat len) k = take (unat len) k'" "unat len \<le> length k" "unat len \<le> length k'"
  shows "\<exists>r r' l t. hash_func_blocks k len a b c = (r, l, t) \<and> hash_func_blocks k' len a b c = (r', l, t)
    \<and> take (unat l) r = take (unat l) r' \<and> l < 12 \<and> unat l \<le> length r \<and> unat l \<le> length r'"
  using assms
proof (induction k len a b c arbitrary: k' rule: hash_func_blocks.induct)
  case (1 k len a b c)
  show ?case
  proof (cases "12 \<le> len")
    case True
    then have len: "12 \<le> unat len" by (simp add: word_le_nat_alt)
    then have sub: "unat (len - 12) = unat len - 12" using True by (simp add: unat_sub)
    have "k ! i = k' ! i" if "i < 12" for i
      using arg_cong [OF "1.prems"(1), of "\<lambda>xs. xs ! i"] that len by simp
    then have w: "hash_word k 0 = hash_word k' 0" "hash_word k 4 = hash_word k' 4" "hash_word k 8 = hash_word k' 8"
      by (simp_all add: hash_word_def)
    obtain a' b' c' where m: "hash_mix (a + hash_word k 0) (b + hash_word k 4) (c + hash_word k 8) = (a', b', c')"
      by (cases "hash_mix (a + hash_word k 0) (b + hash_word k 4) (c + hash_word k 8)")
    have t: "take (unat (len - 12)) (drop 12 k) = take (unat (len - 12)) (drop 12 k')"
      using arg_cong [OF "1.prems"(1), of "drop 12"] by (simp add: sub drop_take)
    show ?thesis
      using "1.IH" [OF True m [symmetric] refl, of "drop 12 k'"] "1.prems"(2,3) t
      by (subst (1 2) hash_func_blocks.simps) (simp add: True m w [symmetric] sub)
  next
    case False
    then show ?thesis using "1.prems" by (subst (1 2) hash_func_blocks.simps) auto
  qed
qed

lemma hash_func_prefix:
  assumes "take (unat len) k = take (unat len) k'" "unat len \<le> length k" "unat len \<le> length k'"
  shows "hash_func k len iv = hash_func k' len iv"
proof -
  obtain r r' l a b c where h: "hash_func_blocks k len 0x9e3779b9 0x9e3779b9 iv = (r, l, a, b, c)"
    "hash_func_blocks k' len 0x9e3779b9 0x9e3779b9 iv = (r', l, a, b, c)"
    "take (unat l) r = take (unat l) r'"
    using hash_func_blocks_prefix [OF assms, of "0x9e3779b9" "0x9e3779b9" iv] by (metis prod.collapse)
  have "hash_tail_byte r l i sh = hash_tail_byte r' l i sh" if "i < 16" for i sh
  proof (cases "of_nat i < l")
    case True
    then have "i < unat l" using that by (simp add: word_less_nat_alt unat_of_nat)
    then have "r ! i = r' ! i" using arg_cong [OF h(3), of "\<lambda>xs. xs ! i"] by simp
    then show ?thesis by (simp add: hash_tail_byte_def)
  qed (simp add: hash_tail_byte_def)
  then show ?thesis by (simp add: hash_func_def h)
qed
end
