(* ===== verification/Posix_IO.thy ===== *)
theory Posix_IO
  imports Prelude
begin

text \<open>
  What the two programs written for the course (practica2/hmacsha1.c and practica3/sign.c) use of
  the C library.  An open file is the script of what its next reads will give, so short reads
  and read errors are inputs of the model; \<open>err (1, ...)\<close> and \<open>exit (n)\<close> end the process and
  are \<open>Inl\<close> of the exit status.  A hash function of OpenSSL is given by its \<open>Init\<close>, \<open>Update\<close> and
  \<open>Final\<close> functions; \<open>streaming_hash\<close> is their documented contract.
\<close>

section \<open>Processes\<close>

type_synonym 'a run = "int + 'a"

fun run_bind :: "'a run \<Rightarrow> ('a \<Rightarrow> 'b run) \<Rightarrow> 'b run" where
  "run_bind (Inl status) f = Inl status"
| "run_bind (Inr x) f = f x"

lemma run_bind_Inr: "run_bind m f = Inr y \<longleftrightarrow> (\<exists>x. m = Inr x \<and> f x = Inr y)"
  by (cases m) auto

section \<open>Reading files\<close>

datatype read_event =
    Chunk "byte list"
  | Failure int

datatype read_result =
    RData "byte list"
  | RFail int

fun posix_read :: "nat \<Rightarrow> read_event list \<Rightarrow> read_result \<times> read_event list" where
  \<comment> \<open>\<open>read (fd, buf, n)\<close>: no data is the end of the file\<close>
  "posix_read n [] = (RData [], [])"
| "posix_read n (Chunk bs # s) = (RData (take n bs), if length bs \<le> n then s else Chunk (drop n bs) # s)"
| "posix_read n (Failure e # s) = (RFail e, s)"

fun script_weight :: "read_event list \<Rightarrow> nat" where
  "script_weight [] = 0"
| "script_weight (Chunk bs # s) = Suc (length bs) + script_weight s"
| "script_weight (Failure e # s) = Suc (script_weight s)"

fun script_bytes :: "read_event list \<Rightarrow> byte list" where
  "script_bytes [] = []"
| "script_bytes (Chunk bs # s) = bs @ script_bytes s"
| "script_bytes (Failure e # s) = script_bytes s"

fun clean_script :: "read_event list \<Rightarrow> bool" where
  \<comment> \<open>a regular file: no read fails and only the end of the file gives no data\<close>
  "clean_script [] = True"
| "clean_script (Chunk bs # s) = (bs \<noteq> [] \<and> clean_script s)"
| "clean_script (Failure e # s) = False"

lemma posix_read_weight:
  "posix_read n s = (RData bs, s') \<Longrightarrow> bs \<noteq> [] \<Longrightarrow> script_weight s' < script_weight s"
  by (cases "(n, s)" rule: posix_read.cases) (auto split: if_splits)

lemma posix_read_clean:
  assumes "clean_script s" "0 < n"
  shows "\<exists>bs s'. posix_read n s = (RData bs, s') \<and> clean_script s' \<and> script_bytes s = bs @ script_bytes s'
     \<and> length bs \<le> n \<and> (bs = [] \<longleftrightarrow> script_bytes s = [])"
  using assms by (cases "(n, s)" rule: posix_read.cases) auto

function feed_loop :: "('c \<Rightarrow> byte list \<Rightarrow> 'c) \<Rightarrow> nat \<Rightarrow> read_event list \<Rightarrow> 'c \<Rightarrow> 'c run" where
  \<comment> \<open>the loop that reads a file and feeds what was read to the hash\<close>
  "feed_loop update n s c =
     (case posix_read n s of
        (RFail _, _) \<Rightarrow> Inl 1
      | (RData bs, s') \<Rightarrow> if bs = [] then Inr c else feed_loop update n s' (update c bs))"
  by pat_completeness auto

termination
  by (relation "measure (\<lambda>(update, n, s, c). script_weight s)")
     (auto intro: posix_read_weight dest: sym)

declare feed_loop.simps [simp del]

lemma feed_loop_data:
  "posix_read n s = (RData bs, s') \<Longrightarrow>
     feed_loop update n s c = (if bs = [] then Inr c else feed_loop update n s' (update c bs))"
  by (subst feed_loop.simps) simp

lemma feed_loop_clean:
  assumes "0 < n" "clean_script s"
  shows "\<exists>cs. feed_loop update n s c = Inr (foldl update c cs) \<and> concat cs = script_bytes s"
  using assms(2)
proof (induction "script_weight s" arbitrary: s c rule: less_induct)
  case less
  obtain bs s' where r: "posix_read n s = (RData bs, s')" "clean_script s'" "script_bytes s = bs @ script_bytes s'"
      "bs = [] \<longleftrightarrow> script_bytes s = []"
    using posix_read_clean [OF less.prems assms(1)] by blast
  show ?case
  proof (cases "bs = []")
    case True
    then show ?thesis using r(4) by (intro exI [of _ "[]"]) (simp add: feed_loop_data [OF r(1)])
  next
    case False
    obtain cs where "feed_loop update n s' (update c bs) = Inr (foldl update (update c bs) cs)" "concat cs = script_bytes s'"
      using less.hyps [OF posix_read_weight [OF r(1) False] r(2)] by blast
    then show ?thesis using r(3) False by (intro exI [of _ "bs # cs"]) (simp add: feed_loop_data [OF r(1)])
  qed
qed

section \<open>Hash functions\<close>

definition streaming_hash ::
    "'c \<Rightarrow> ('c \<Rightarrow> byte list \<Rightarrow> 'c) \<Rightarrow> ('c \<Rightarrow> byte list) \<Rightarrow> (byte list \<Rightarrow> byte list) \<Rightarrow> nat \<Rightarrow> bool" where
  \<comment> \<open>the message may be given in any number of pieces; the digest has \<open>len\<close> bytes\<close>
  "streaming_hash init update final H len \<longleftrightarrow>
     (\<forall>cs. final (foldl update init cs) = H (concat cs)) \<and> (\<forall>m. length (H m) = len)"

lemma streaming_hash_final:
  "streaming_hash init update final H len \<Longrightarrow> c = foldl update init cs \<Longrightarrow> m = concat cs \<Longrightarrow> final c = H m"
  by (simp add: streaming_hash_def)

section \<open>Loops over arrays\<close>

function for_loop :: "nat \<Rightarrow> nat \<Rightarrow> (nat \<Rightarrow> 's \<Rightarrow> 's) \<Rightarrow> 's \<Rightarrow> 's" where
  \<comment> \<open>\<open>for (i = lo; i < hi; i++) body\<close>\<close>
  "for_loop lo hi body s = (if lo < hi then for_loop (Suc lo) hi body (body lo s) else s)"
  by pat_completeness auto
termination by (relation "measure (\<lambda>(lo, hi, body, s). hi - lo)") auto

declare for_loop.simps [simp del]

lemma for_loop_done [simp]: "hi \<le> lo \<Longrightarrow> for_loop lo hi body s = s"
  by (subst for_loop.simps) simp

lemma for_loop_Suc: "lo \<le> hi \<Longrightarrow> for_loop lo (Suc hi) body s = body hi (for_loop lo hi body s)"
proof (induction "hi - lo" arbitrary: lo s)
  case 0
  then show ?case by (subst for_loop.simps) simp
next
  case (Suc n)
  then have lo: "lo < hi" by simp
  have "for_loop lo (Suc hi) body s = for_loop (Suc lo) (Suc hi) body (body lo s)"
    using lo by (subst for_loop.simps) simp
  also have "\<dots> = body hi (for_loop (Suc lo) hi body (body lo s))"
    using Suc lo by (intro Suc.hyps(1)) simp_all
  also have "for_loop (Suc lo) hi body (body lo s) = for_loop lo hi body s"
    using lo by (subst (2) for_loop.simps) simp
  finally show ?case .
qed

lemma for_loop_write:
  "lo \<le> hi \<Longrightarrow> d + hi \<le> length a \<Longrightarrow>
     for_loop lo hi (\<lambda>i a. a[i + d := f i]) a = mem_write a (lo + d) (map f [lo..<hi])"
proof (induction hi)
  case (Suc hi)
  show ?case
  proof (cases "lo = Suc hi")
    case False
    then have le: "lo \<le> hi" using Suc.prems by simp
    have "for_loop lo (Suc hi) (\<lambda>i a. a[i + d := f i]) a = (mem_write a (lo + d) (map f [lo..<hi]))[hi + d := f hi]"
      using Suc le by (simp add: for_loop_Suc)
    also have "\<dots> = mem_write a (lo + d) (map f [lo..<Suc hi])"
      using le Suc.prems by (intro nth_equalityI) (auto simp: nth_list_update nth_mem_write nth_append)
    finally show ?thesis .
  qed simp
qed simp

lemma mem_write_all: "length bs = length a \<Longrightarrow> mem_write a 0 bs = bs"
  by (simp add: mem_write_def)

lemma mem_write_append:
  "i + length bs + length cs \<le> length a \<Longrightarrow> mem_write (mem_write a i bs) (i + length bs) cs = mem_write a i (bs @ cs)"
  by (simp add: mem_write_def ac_simps)

fun bytes_of_string :: "string \<Rightarrow> byte list" where
  "bytes_of_string s = map of_char s"


lemma for_loop_pair:
  "for_loop lo hi (\<lambda>i (a, b). (f i a, g i b)) (a, b) = (for_loop lo hi f a, for_loop lo hi g b)"
proof (induction "hi - lo" arbitrary: lo a b)
  case 0
  then show ?case by simp
next
  case (Suc n)
  then have "lo < hi" by simp
  then show ?case using Suc.hyps(1) [of "Suc lo" "f lo a" "g lo b"] Suc.hyps(2)
    by (subst (1 2 3) for_loop.simps) simp
qed

lemma for_loop_map:
  "n \<le> length a \<Longrightarrow> for_loop 0 n (\<lambda>i a. a[i := g (a ! i)]) a = map g (take n a) @ drop n a"
proof (induction n)
  case (Suc n)
  then have "for_loop 0 (Suc n) (\<lambda>i a. a[i := g (a ! i)]) a = (map g (take n a) @ drop n a)[n := g ((map g (take n a) @ drop n a) ! n)]"
    by (simp add: for_loop_Suc)
  also have "\<dots> = map g (take (Suc n) a) @ drop (Suc n) a"
    using Suc.prems by (intro nth_equalityI) (auto simp: nth_list_update nth_append less_Suc_eq)
  finally show ?case .
qed simp
end
