(* ===== verification/Hmac_Sha1.thy ===== *)
theory Hmac_Sha1
  imports Posix_IO
begin

text \<open>
  practica2/hmacsha1.c: prints the HMAC-SHA1 of a file under the key held in another file.

  SHA-1 is the OpenSSL library, given by the fields \<open>m_init\<close>, \<open>m_update\<close> and \<open>m_final\<close> of the
  environment, the file system by \<open>m_open\<close> (the script of the reads, \<open>None\<close> when \<open>open\<close> fails)
  and \<open>m_close\<close>.  \<open>hmac\<close> is the specification, RFC 2104 with a block of 64 bytes.
\<close>

definition K_SIZE :: nat where "K_SIZE = 64"
definition TEXT_SIZE :: nat where "TEXT_SIZE = 50"
definition SHA_DIGEST_LENGTH :: nat where "SHA_DIGEST_LENGTH = 20"

record 'c sha1_env =
  m_open :: "string \<Rightarrow> read_event list option"
  m_close :: "string \<Rightarrow> bool"
  m_init :: 'c
  m_update :: "'c \<Rightarrow> byte list \<Rightarrow> 'c"
  m_final :: "'c \<Rightarrow> byte list"

definition hex_digit :: "nat \<Rightarrow> char" where
  "hex_digit n = ''0123456789abcdef'' ! n"

definition printf_02x :: "byte \<Rightarrow> string" where
  "printf_02x b = [hex_digit (unat b div 16), hex_digit (unat b mod 16)]"

definition converthexa :: "byte list \<Rightarrow> string" where
  \<comment> \<open>the characters printed\<close>
  "converthexa md = for_loop 0 SHA_DIGEST_LENGTH (\<lambda>i out. out @ printf_02x (md ! i)) [] @ [CHR 0x0A]"

definition hmacsha1 :: "'c sha1_env \<Rightarrow> string \<Rightarrow> nat \<Rightarrow> byte list \<Rightarrow> nat \<Rightarrow> (byte list \<times> string) run" where
  \<comment> \<open>the digest left in \<open>md\<close> and the output; both pads are filled by the same loop\<close>
  "hmacsha1 env path_fichero text_len key key_len =
     (let k_ipad = mem_write (replicate K_SIZE 0) 0 (take key_len key);
          k_opad = mem_write (replicate K_SIZE 0) 0 (take key_len key)
      in case for_loop 0 K_SIZE
                (\<lambda>i (k_ipad, k_opad). (k_ipad[i := k_ipad ! i XOR 0x36], k_opad[i := k_opad ! i XOR 0x5c]))
                (k_ipad, k_opad) of
           (k_ipad, k_opad) \<Rightarrow>
             let c = m_update env (m_init env) (take K_SIZE k_ipad)
             in case m_open env path_fichero of
                  None \<Rightarrow> Inl 1
                | Some fd \<Rightarrow>
                    run_bind (feed_loop (m_update env) text_len fd c) (\<lambda>c.
                      if \<not> m_close env path_fichero then Inl 1
                      else (let md = m_final env c;
                                c = m_update env (m_init env) (take K_SIZE k_opad);
                                c = m_update env c (take SHA_DIGEST_LENGTH md);
                                md = m_final env c
                            in Inr (md, converthexa md))))"

function readkey_loop :: "read_event list \<Rightarrow> byte list \<Rightarrow> int \<Rightarrow> int \<Rightarrow> int \<Rightarrow> byte list run" where
  "readkey_loop fd key size_key t s =
     (case posix_read (nat (size_key - t)) fd of
        (RFail _, _) \<Rightarrow> Inl 1
      | (RData bs, fd) \<Rightarrow>
          if bs = [] then Inr key
          else (let key = mem_write key (nat t) bs; t = t + int (length bs); s = s - int (length bs)
                in if t > size_key \<or> s = 0 then Inr key else readkey_loop fd key size_key t s))"
  by pat_completeness auto

termination
  by (relation "measure (\<lambda>(fd, key, size_key, t, s). script_weight fd)")
     (auto intro: posix_read_weight dest: sym)

declare readkey_loop.simps [simp del]

definition readkey :: "'c sha1_env \<Rightarrow> string \<Rightarrow> byte list \<Rightarrow> int \<Rightarrow> byte list run" where
  "readkey env path_fich key size_key =
     (case m_open env path_fich of
        None \<Rightarrow> Inl 1
      | Some fd \<Rightarrow>
          run_bind (readkey_loop fd key size_key 0 size_key) (\<lambda>key.
            if \<not> m_close env path_fich then Inl 1 else Inr key))"

definition hmac_main :: "'c sha1_env \<Rightarrow> string list \<Rightarrow> string \<times> int" where
  \<comment> \<open>what the process prints on its standard output and its exit status\<close>
  "hmac_main env argv =
     (if length argv < 3
      then (''Usage: ./nombreprograma myfile.txt key'' @ [CHR 0x0A], 1)
      else (case run_bind (readkey env (argv ! 2) (replicate K_SIZE 0) (int K_SIZE)) (\<lambda>key.
                   hmacsha1 env (argv ! 1) TEXT_SIZE key K_SIZE) of
              Inl status \<Rightarrow> ('''', status)
            | Inr (md, out) \<Rightarrow> (out, 0)))"

section \<open>The specification\<close>

definition hmac :: "(byte list \<Rightarrow> byte list) \<Rightarrow> byte list \<Rightarrow> byte list \<Rightarrow> byte list" where
  \<comment> \<open>RFC 2104: \<open>H (K XOR opad, H (K XOR ipad, text))\<close> for a key of at most 64 bytes, padded with zeros\<close>
  "hmac H key msg =
     (let k = key @ replicate (64 - length key) 0
      in H (map (\<lambda>x. x XOR 0x5c) k @ H (map (\<lambda>x. x XOR 0x36) k @ msg)))"

section \<open>Proofs\<close>

lemma readkey_loop_data:
  "posix_read (nat (size_key - t)) fd = (RData bs, fd') \<Longrightarrow>
     readkey_loop fd key size_key t s =
       (if bs = [] then Inr key
        else (let key = mem_write key (nat t) bs; t = t + int (length bs); s = s - int (length bs)
              in if t > size_key \<or> s = 0 then Inr key else readkey_loop fd' key size_key t s))"
  by (subst readkey_loop.simps) simp

lemma readkey_loop_spec:
  assumes "clean_script fd" "length key = n" "t < n"
  shows "readkey_loop fd key (int n) (int t) (int n - int t) =
           Inr (mem_write key t (take (n - t) (script_bytes fd)))"
  using assms
proof (induction "script_weight fd" arbitrary: fd key t rule: less_induct)
  case less
  obtain bs fd' where r: "posix_read (n - t) fd = (RData bs, fd')" "clean_script fd'"
      "script_bytes fd = bs @ script_bytes fd'" "length bs \<le> n - t" "bs = [] \<longleftrightarrow> script_bytes fd = []"
    using posix_read_clean [OF less.prems(1), of "n - t"] less.prems(3) by auto
  have r': "posix_read (nat (int n - int t)) fd = (RData bs, fd')"
    using r(1) less.prems(3) by (simp add: nat_diff_distrib)
  show ?case
  proof (cases "bs = []")
    case True
    with r(5) have "take (n - t) (script_bytes fd) = []" by simp
    then show ?thesis using True by (simp only: readkey_loop_data [OF r']) simp
  next
    case False
    let ?key = "mem_write key t bs" and ?t = "t + length bs"
    have len: "length ?key = n" using r(4) less.prems by simp
    show ?thesis
    proof (cases "?t = n")
      case True
      then have "take (n - t) (script_bytes fd) = bs" using r(3) by simp
      with True False show ?thesis by (simp add: readkey_loop_data [OF r'] Let_def)
    next
      case neq: False
      then have lt: "?t < n" using r(4) less.prems(3) by simp
      have "readkey_loop fd key (int n) (int t) (int n - int t) =
            readkey_loop fd' ?key (int n) (int ?t) (int n - int ?t)"
        using lt False by (simp add: readkey_loop_data [OF r'] Let_def algebra_simps)
      also have "\<dots> = Inr (mem_write ?key ?t (take (n - ?t) (script_bytes fd')))"
        by (rule less.hyps [OF posix_read_weight [OF r(1) False] r(2) len lt])
      also have "mem_write ?key ?t (take (n - ?t) (script_bytes fd')) = mem_write key t (take (n - t) (script_bytes fd))"
        using less.prems(2) lt r(3) mem_write_append [of t bs "take (n - ?t) (script_bytes fd')" key]
        by (simp add: add.assoc)
      finally show ?thesis .
    qed
  qed
qed

lemma readkey_spec:
  assumes "m_open env path = Some fd" "clean_script fd" "m_close env path"
  shows "readkey env path (replicate 64 0) 64 =
    Inr (take 64 (script_bytes fd) @ replicate (64 - length (take 64 (script_bytes fd))) 0)"
  using readkey_loop_spec [OF assms(2), of "replicate 64 0" 64 0] assms(1,3)
  by (simp add: readkey_def mem_write_def)

lemma hmacsha1_spec:
  assumes "streaming_hash (m_init env) (m_update env) (m_final env) H 20"
    "m_open env path = Some fd" "clean_script fd" "m_close env path" "0 < n" "length key = 64"
  shows "hmacsha1 env path n key 64 =
    (let md = H (map (\<lambda>x. x XOR 0x5c) key @ H (map (\<lambda>x. x XOR 0x36) key @ script_bytes fd))
     in Inr (md, converthexa md))"
proof -
  have pads: "for_loop 0 K_SIZE
      (\<lambda>i (k_ipad, k_opad). (k_ipad[i := k_ipad ! i XOR 0x36], k_opad[i := k_opad ! i XOR 0x5c])) (key, key)
    = (map (\<lambda>x. x XOR 0x36) key, map (\<lambda>x. x XOR 0x5c) key)"
    using assms(6) for_loop_pair [of 0 64 "\<lambda>i a. a[i := a ! i XOR 0x36]" "\<lambda>i a. a[i := a ! i XOR 0x5c]" key key]
      for_loop_map [of 64 key "\<lambda>x. x XOR 0x36"] for_loop_map [of 64 key "\<lambda>x. x XOR 0x5c"]
    by (simp add: K_SIZE_def)
  define c0 where "c0 = m_update env (m_init env) (map (\<lambda>x. x XOR 0x36) key)"
  obtain cs where cs: "feed_loop (m_update env) n fd c0 = Inr (foldl (m_update env) c0 cs)" "concat cs = script_bytes fd"
    using feed_loop_clean [OF assms(5,3), of "m_update env" c0] by blast
  have inner: "m_final env (foldl (m_update env) c0 cs) = H (map (\<lambda>x. x XOR 0x36) key @ script_bytes fd)"
    by (rule streaming_hash_final [OF assms(1), of _ "map (\<lambda>x. x XOR 0x36) key # cs"])
       (simp_all add: c0_def cs(2))
  have outer: "m_final env (m_update env (m_update env (m_init env) a) b) = H (a @ b)" for a b
    by (rule streaming_hash_final [OF assms(1), of _ "[a, b]"]) simp_all
  have len: "take 20 (H m) = H m" for m using assms(1) by (simp add: streaming_hash_def)
  have "mem_write (replicate 64 0) 0 key = key" using assms(6) by (simp add: mem_write_all)
  then show ?thesis
    using pads assms(2,4,6) cs(1) [unfolded c0_def] inner [unfolded c0_def] outer
    by (simp add: hmacsha1_def K_SIZE_def SHA_DIGEST_LENGTH_def Let_def len)
qed

text \<open>C22. The program prints the HMAC-SHA1 of the file under the first 64 bytes of the key file,
  as RFC 2104 defines it, however the reads split the two files, and exits with 0: the padding
  with zeros, the two pads and the nested hash are those of the standard.\<close>

theorem hmac_main_prints_hmac:
  assumes "streaming_hash (m_init env) (m_update env) (m_final env) H 20"
    "m_open env file = Some fd" "clean_script fd" "m_close env file"
    "m_open env keyfile = Some kd" "clean_script kd" "m_close env keyfile"
  shows "hmac_main env [prog, file, keyfile] =
    (converthexa (hmac H (take 64 (script_bytes kd)) (script_bytes fd)), 0)"
  using hmacsha1_spec [OF assms(1-4), of TEXT_SIZE] readkey_spec [OF assms(5-7)]
  by (simp add: hmac_main_def K_SIZE_def TEXT_SIZE_def hmac_def Let_def)

definition ex_sha1_env :: "byte list sha1_env" where
  \<comment> \<open>a toy hash with a digest of 20 bytes; the text arrives in two reads\<close>
  "ex_sha1_env = \<lparr>m_open = (\<lambda>p. if p = ''key'' then Some [Chunk [1, 2, 3]] else Some [Chunk [104, 111], Chunk [108, 97]]),
     m_close = (\<lambda>_. True), m_init = [], m_update = (@), m_final = (\<lambda>c. take 20 (rev c @ replicate 20 0))\<rparr>"

lemma foldl_append: "foldl (@) a cs = a @ concat cs"
  by (induction cs arbitrary: a) simp_all

theorem hmac_main_prints_hmac_witness:
  "hmac_main ex_sha1_env [''hmacsha1'', ''datos.txt'', ''key''] =
     (converthexa (hmac (\<lambda>m. take 20 (rev m @ replicate 20 0)) [1, 2, 3] [104, 111, 108, 97]), 0)"
proof -
  have "streaming_hash (m_init ex_sha1_env) (m_update ex_sha1_env) (m_final ex_sha1_env)
      (\<lambda>m. take 20 (rev m @ replicate 20 0)) 20"
    by (auto simp: streaming_hash_def ex_sha1_env_def foldl_append min_def)
  from hmac_main_prints_hmac [OF this, of "''datos.txt''" "[Chunk [104, 111], Chunk [108, 97]]" "''key''" "[Chunk [1, 2, 3]]"]
  show ?thesis by (simp add: ex_sha1_env_def)
qed

end
