(* ===== verification/Firma.thy ===== *)
theory Firma
  imports Posix_IO
begin

text \<open>
  practica3/sign.c: signs a file with an RSA key in the format of PKCS #1 v1.5 with SHA-512, and
  verifies such a signature.

  SHA-512, the RSA operations without padding, the PEM readers, the base-64 filter and the file
  system are the fields of the environment \<open>sro_env\<close>.  The arrays of \<open>main\<close> are byte lists of the
  declared sizes; \<open>C_BLOCK\<close> is not initialised there, so its contents are an argument.  A failed
  RSA operation only prints an error and leaves the output array as it was.
\<close>

section \<open>Constants\<close>

definition EMSASHA512ID :: "byte list" where
  "EMSASHA512ID = [0x30, 0x51, 0x30, 0x0d, 0x06, 0x09, 0x60, 0x86, 0x48, 0x01, 0x65, 0x03,
                   0x04, 0x02, 0x03, 0x05, 0x00, 0x04, 0x40]"

definition L_SHA512 :: nat where "L_SHA512 = 64"
definition TEXT_SIZE :: nat where "TEXT_SIZE = 50"
definition KEY_SIZE :: nat where "KEY_SIZE = 4096"
definition BLOCK_SIZE :: nat where "BLOCK_SIZE = KEY_SIZE div 8"
definition LEN_ID :: nat where "LEN_ID = length EMSASHA512ID"
definition LEN_T :: nat where "LEN_T = LEN_ID + L_SHA512"
definition PS_SIZE :: nat where "PS_SIZE = BLOCK_SIZE - LEN_T - 3"
definition PADDING_SIZE :: nat where "PADDING_SIZE = BLOCK_SIZE - L_SHA512 - LEN_ID"

lemma sizes: "L_SHA512 = 64" "BLOCK_SIZE = 512" "LEN_ID = 19" "LEN_T = 83" "PS_SIZE = 426" "PADDING_SIZE = 429"
    "TEXT_SIZE = 50"
  by (simp_all add: L_SHA512_def BLOCK_SIZE_def KEY_SIZE_def LEN_ID_def EMSASHA512ID_def LEN_T_def PS_SIZE_def
      PADDING_SIZE_def TEXT_SIZE_def)

section \<open>The environment\<close>

record ('c, 'file, 'priv, 'pub) sro_env =
  v_open :: "string \<Rightarrow> read_event list option"
  v_close :: "string \<Rightarrow> bool"
  v_fopen :: "string \<Rightarrow> 'file option"
  v_sha512_init :: 'c
  v_sha512_update :: "'c \<Rightarrow> byte list \<Rightarrow> 'c"
  v_sha512_final :: "'c \<Rightarrow> byte list"
  v_rsa_new :: bool
  v_read_private_key :: "'file option \<Rightarrow> 'priv option"
  v_read_pubkey :: "'file option \<Rightarrow> 'pub option"
  v_private_encrypt :: "'priv \<Rightarrow> byte list \<Rightarrow> byte list option"
  v_public_decrypt :: "'pub \<Rightarrow> byte list \<Rightarrow> byte list option"
  v_bio_write :: "byte list \<Rightarrow> int"
  v_bio_read :: "'file option \<Rightarrow> read_event list"

datatype out_token =
    Text string
  | Base64 "byte list"

section \<open>The operations\<close>

definition sha512 :: "('c, 'file, 'priv, 'pub) sro_env \<Rightarrow> string \<Rightarrow> nat \<Rightarrow> (byte list \<times> int) run" where
  \<comment> \<open>the digest and the value returned, that of the last \<open>read\<close>\<close>
  "sha512 env path_fichero text_len =
     (case v_open env path_fichero of
        None \<Rightarrow> Inl 1
      | Some fd \<Rightarrow>
          run_bind (feed_loop (v_sha512_update env) text_len fd (v_sha512_init env)) (\<lambda>c.
            let c = v_sha512_update env c (bytes_of_string path_fichero)
            in if \<not> v_close env path_fichero then Inl 1 else Inr (v_sha512_final env c, 0)))"

definition concatenaIDsha512 :: "byte list \<Rightarrow> byte list \<Rightarrow> byte list" where
  "concatenaIDsha512 md IDsha512 =
     (let IDsha512 = for_loop 0 LEN_ID (\<lambda>i a. a[i := EMSASHA512ID ! i]) IDsha512
      in for_loop 0 L_SHA512 (\<lambda>i a. a[i + LEN_ID := md ! i]) IDsha512)"

definition createPadding :: "byte list \<Rightarrow> byte list" where
  "createPadding PD =
     (let PD = PD[0 := 0x00]; PD = PD[1 := 0x01];
          PD = for_loop 2 (PADDING_SIZE - 1) (\<lambda>i a. a[i := 0xFF]) PD
      in PD[PADDING_SIZE - 1 := 0x00])"

definition concatenaPaddingHash :: "byte list \<Rightarrow> byte list \<Rightarrow> byte list \<Rightarrow> byte list" where
  "concatenaPaddingHash PD HASH MSG =
     (let MSG = for_loop 0 PADDING_SIZE (\<lambda>i a. a[i := PD ! i]) MSG
      in for_loop 0 LEN_T (\<lambda>i a. a[i + PADDING_SIZE := HASH ! i]) MSG)"

definition readPrivkey :: "('c, 'file, 'priv, 'pub) sro_env \<Rightarrow> string \<Rightarrow> 'priv run" where
  \<comment> \<open>the test \<open>fp < 0\<close> on the pointer never holds: a failed \<open>fopen\<close> reaches the PEM reader\<close>
  "readPrivkey env path =
     (let fp = v_fopen env path
      in if \<not> v_rsa_new env then Inl 1
         else (case v_read_private_key env fp of None \<Rightarrow> Inl 1 | Some key \<Rightarrow> Inr key))"

definition readPubkey :: "('c, 'file, 'priv, 'pub) sro_env \<Rightarrow> string \<Rightarrow> 'pub run" where
  "readPubkey env path =
     (let fp = v_fopen env path
      in if \<not> v_rsa_new env then Inl 1
         else (case v_read_pubkey env fp of None \<Rightarrow> Inl 1 | Some key \<Rightarrow> Inr key))"

definition generarFirmaDigital ::
    "('c, 'file, 'priv, 'pub) sro_env \<Rightarrow> byte list \<Rightarrow> 'priv \<Rightarrow> byte list \<Rightarrow> out_token list \<times> byte list run" where
  \<comment> \<open>the output, and the new contents of \<open>C_BLOCK\<close>\<close>
  "generarFirmaDigital env BLOCK RSAKey C_BLOCK =
     (let C_BLOCK = (case v_private_encrypt env RSAKey (take BLOCK_SIZE BLOCK) of
                       None \<Rightarrow> C_BLOCK | Some sig \<Rightarrow> mem_write C_BLOCK 0 sig);
          wr = v_bio_write env (take BLOCK_SIZE C_BLOCK)
      in if wr = - 1 \<or> wr = 0 then ([Text ''---BEGIN SRO SIGNATURE---''], Inl 1)
         else if wr = - 2 then ([Text ''---BEGIN SRO SIGNATURE---''], Inl 1)
         else ([Text ''---BEGIN SRO SIGNATURE---'', Base64 (take BLOCK_SIZE C_BLOCK),
                Text ''---END SRO SIGNATURE---''], Inr C_BLOCK))"

function leerFirmaB64_loop :: "read_event list \<Rightarrow> byte list \<Rightarrow> nat \<Rightarrow> byte list run" where
  \<comment> \<open>\<open>BIO_read\<close> gives -1 or -2 for an error; no data, or \<open>t\<close> beyond the block, ends the loop\<close>
  "leerFirmaB64_loop bio BLOCK t =
     (case posix_read (BLOCK_SIZE - t) bio of
        (RFail e, bio) \<Rightarrow> Inl 1
      | (RData bs, bio) \<Rightarrow>
          if bs = [] \<or> t > BLOCK_SIZE then Inr (mem_write BLOCK t bs)
          else leerFirmaB64_loop bio (mem_write BLOCK t bs) (t + length bs))"
  by pat_completeness auto

termination
  by (relation "measure (\<lambda>(bio, BLOCK, t). script_weight bio)")
     (auto intro: posix_read_weight dest: sym)

declare leerFirmaB64_loop.simps [simp del]

definition leerFirmaB64 :: "('c, 'file, 'priv, 'pub) sro_env \<Rightarrow> string \<Rightarrow> byte list \<Rightarrow> byte list run" where
  "leerFirmaB64 env pathSignature BLOCK =
     leerFirmaB64_loop (v_bio_read env (v_fopen env pathSignature)) BLOCK 0"

definition desencryptarMSG :: "('c, 'file, 'priv, 'pub) sro_env \<Rightarrow> byte list \<Rightarrow> 'pub \<Rightarrow> byte list \<Rightarrow> byte list" where
  \<comment> \<open>the new contents of \<open>BLOCK\<close>\<close>
  "desencryptarMSG env BLOCK RSAKey C_BLOCK =
     (case v_public_decrypt env RSAKey (take BLOCK_SIZE C_BLOCK) of
        None \<Rightarrow> BLOCK | Some m \<Rightarrow> mem_write BLOCK 0 m)"

function comprobarPadding_loop :: "nat \<Rightarrow> byte list \<Rightarrow> int \<Rightarrow> int" where
  "comprobarPadding_loop i BLOCK padding =
     (if i < PADDING_SIZE - 1
      then (if BLOCK ! i \<noteq> 0xFF then - 1 else comprobarPadding_loop (Suc i) BLOCK padding)
      else padding)"
  by pat_completeness auto
termination by (relation "measure (\<lambda>(i, BLOCK, padding). PADDING_SIZE - i)") auto

declare comprobarPadding_loop.simps [simp del]

definition comprobarPadding :: "byte list \<Rightarrow> int" where
  "comprobarPadding BLOCK =
     (let padding = (if BLOCK ! 0 \<noteq> 0x00 \<or> BLOCK ! 1 \<noteq> 0x01 \<or> BLOCK ! (PADDING_SIZE - 1) \<noteq> 0x00 then - 1 else 0)
      in comprobarPadding_loop 2 BLOCK padding)"

definition sacarHashFirma :: "byte list \<Rightarrow> byte list \<Rightarrow> byte list" where
  "sacarHashFirma BLOCK HASH = for_loop 0 L_SHA512 (\<lambda>i a. a[i := BLOCK ! (i + PADDING_SIZE + LEN_ID)]) HASH"

function compararHASHES_loop :: "nat \<Rightarrow> byte list \<Rightarrow> byte list \<Rightarrow> int" where
  "compararHASHES_loop i md HASH =
     (if i < L_SHA512
      then (if md ! i \<noteq> HASH ! i then - 1 else compararHASHES_loop (Suc i) md HASH)
      else 0)"
  by pat_completeness auto
termination by (relation "measure (\<lambda>(i, md, HASH). L_SHA512 - i)") auto

declare compararHASHES_loop.simps [simp del]

definition compararHASHES :: "byte list \<Rightarrow> byte list \<Rightarrow> int" where
  "compararHASHES md HASH = compararHASHES_loop 0 md HASH"

section \<open>The program\<close>

definition usage :: "out_token list" where
  "usage = [Text ''Usage: [-v signature.pem] myfile.txt privkey.pem'']"

definition sign_stage ::
    "('c, 'file, 'priv, 'pub) sro_env \<Rightarrow> byte list \<Rightarrow> string \<Rightarrow> string \<Rightarrow> out_token list \<times> byte list run" where
  \<comment> \<open>\<open>argc == 3\<close>\<close>
  "sign_stage env C_BLOCK path_fichero pathPrivateKey =
     (case sha512 env path_fichero TEXT_SIZE of
        Inl status \<Rightarrow> ([], Inl status)
      | Inr (md, i) \<Rightarrow>
          if i < 0 then ([], Inl 1)
          else (let IDsha512 = concatenaIDsha512 md (replicate LEN_T 0);
                    PADDING = createPadding (replicate PADDING_SIZE 0);
                    BLOCK = concatenaPaddingHash PADDING IDsha512 (replicate BLOCK_SIZE 0)
                in case readPrivkey env pathPrivateKey of
                     Inl status \<Rightarrow> ([], Inl status)
                   | Inr key \<Rightarrow> generarFirmaDigital env BLOCK key C_BLOCK))"

function signature_arg :: "string list \<Rightarrow> nat \<Rightarrow> string option" where
  \<comment> \<open>the loop that looks for \<open>-v\<close>: \<open>None\<close> is the usage message\<close>
  "signature_arg argv i =
     (if i < length argv
      then (if argv ! i = ''-v'' \<and> i \<noteq> length argv - 1 then Some (argv ! (i + 1))
            else if i = length argv - 1 then None
            else signature_arg argv (Suc i))
      else None)"
  by pat_completeness auto
termination by (relation "measure (\<lambda>(argv, i). length argv - i)") auto

declare signature_arg.simps [simp del]

definition verify_stage ::
    "('c, 'file, 'priv, 'pub) sro_env \<Rightarrow> byte list \<Rightarrow> string \<Rightarrow> string \<Rightarrow> string \<Rightarrow> (int \<times> int option) run" where
  \<comment> \<open>\<open>argc == 5\<close>: \<open>r_padding\<close> and the value of \<open>compararHASHES\<close> where it is called\<close>
  "verify_stage env C_BLOCK pathSignature path_fichero pathPubkey =
     run_bind (leerFirmaB64 env pathSignature C_BLOCK) (\<lambda>C_BLOCK.
     run_bind (readPubkey env pathPubkey) (\<lambda>key.
       let BLOCK = desencryptarMSG env (replicate BLOCK_SIZE 0) key C_BLOCK; r_padding = comprobarPadding BLOCK
       in if r_padding = 0
          then (let HASH = sacarHashFirma BLOCK (replicate L_SHA512 0)
                in run_bind (sha512 env path_fichero TEXT_SIZE) (\<lambda>(md, i).
                     if i < 0 then Inl 1 else Inr (r_padding, Some (compararHASHES md HASH))))
          else Inr (r_padding, None)))"

definition sro_main ::
    "('c, 'file, 'priv, 'pub) sro_env \<Rightarrow> byte list \<Rightarrow> string list \<Rightarrow> out_token list \<times> int" where
  \<comment> \<open>the standard output and the exit status\<close>
  "sro_main env C_BLOCK argv =
     (if length argv = 3
      then (case sign_stage env C_BLOCK (argv ! 1) (argv ! 2) of
              (out, Inl status) \<Rightarrow> (out, status)
            | (out, Inr _) \<Rightarrow> (out, 0))
      else if length argv = 5
      then (case signature_arg argv 1 of
              None \<Rightarrow> (usage, 1)
            | Some pathSignature \<Rightarrow>
                (case verify_stage env C_BLOCK pathSignature (argv ! 3) (argv ! 4) of
                   Inl status \<Rightarrow> ([], status)
                 | Inr _ \<Rightarrow> ([], 0)))
      else (usage, 1))"


section \<open>The block that is signed\<close>

definition emsa_prefix :: "byte list" where
  \<comment> \<open>the bytes of EMSA-PKCS1-v1_5 before the algorithm identifier: \<open>00 01 FF ... FF 00\<close>\<close>
  "emsa_prefix = [0x00, 0x01] @ replicate PS_SIZE 0xFF @ [0x00]"

definition emsa_block :: "byte list \<Rightarrow> byte list" where
  \<comment> \<open>the encoded message of PKCS #1 v1.5 for a SHA-512 digest and a key of 4096 bits\<close>
  "emsa_block md = emsa_prefix @ EMSASHA512ID @ md"

lemma length_emsa_prefix [simp]: "length emsa_prefix = 429"
  by (simp add: emsa_prefix_def PS_SIZE_def BLOCK_SIZE_def KEY_SIZE_def LEN_T_def LEN_ID_def L_SHA512_def EMSASHA512ID_def)

lemma length_ID [simp]: "length EMSASHA512ID = 19"
  by (simp add: EMSASHA512ID_def)

lemma map_nth_upt: "length xs = n \<Longrightarrow> map (\<lambda>i. xs ! i) [0..<n] = xs"
  by (metis map_nth)

lemma concatenaIDsha512_spec:
  assumes "length md = 64" "length a = 83"
  shows "concatenaIDsha512 md a = EMSASHA512ID @ md"
proof -
  have "for_loop 0 19 (\<lambda>i a. a[i := EMSASHA512ID ! i]) a = mem_write a 0 EMSASHA512ID"
    using for_loop_write [of 0 19 0 a "\<lambda>i. EMSASHA512ID ! i"] assms by (simp add: map_nth_upt)
  moreover have "for_loop 0 64 (\<lambda>i a. a[i + 19 := md ! i]) (mem_write a 0 EMSASHA512ID)
      = mem_write (mem_write a 0 EMSASHA512ID) 19 md"
    using for_loop_write [of 0 64 19 "mem_write a 0 EMSASHA512ID" "\<lambda>i. md ! i"] assms by (simp add: map_nth_upt)
  ultimately show ?thesis using assms by (simp add: concatenaIDsha512_def sizes mem_write_def Let_def)
qed

lemma createPadding_spec:
  assumes "length a = 429"
  shows "createPadding a = emsa_prefix"
proof -
  let ?b = "a[0 := 0x00, 1 := 0x01]"
  obtain n where n: "PS_SIZE = n" "n = 426" using sizes(5) by blast
  have "for_loop 2 428 (\<lambda>i a. a[i := 0xFF]) ?b = mem_write ?b 2 (map (\<lambda>_. 0xFF) [2..<428])"
    using for_loop_write [of 2 428 0 ?b "\<lambda>_. 0xFF"] assms by simp
  moreover have "map (\<lambda>_. 0xFF) [2..<428] = replicate n (0xFF :: byte)"
    by (simp only: map_replicate_const length_upt n(2)) simp
  moreover have "take 2 ?b = [0x00, 0x01]"
    using assms by (intro nth_equalityI) (auto simp: nth_list_update less_Suc_eq numeral_2_eq_2)
  moreover have "drop 428 ?b = [a ! 428]" using assms by (intro nth_equalityI) (auto simp: nth_list_update)
  ultimately have "for_loop 2 428 (\<lambda>i a. a[i := 0xFF]) ?b = [0x00, 0x01] @ replicate n 0xFF @ [a ! 428]"
    using n(2) by (simp only: mem_write_def length_replicate) simp
  moreover have "([0x00, 0x01] @ replicate n 0xFF @ [a ! 428])[428 := 0] = [0x00, 0x01] @ replicate n 0xFF @ [0 :: byte]"
    using n(2) by (simp only: list_update_append length_replicate) simp
  ultimately show ?thesis
    by (simp only: createPadding_def Let_def emsa_prefix_def n(1)) (simp add: sizes)
qed

lemma concatenaPaddingHash_spec:
  assumes "length PD = 429" "length h = 83" "length a = 512"
  shows "concatenaPaddingHash PD h a = PD @ h"
proof -
  have "for_loop 0 429 (\<lambda>i a. a[i := PD ! i]) a = mem_write a 0 PD"
    using for_loop_write [of 0 429 0 a "\<lambda>i. PD ! i"] assms by (simp add: map_nth_upt)
  moreover have "for_loop 0 83 (\<lambda>i a. a[i + 429 := h ! i]) (mem_write a 0 PD) = mem_write (mem_write a 0 PD) 429 h"
    using for_loop_write [of 0 83 429 "mem_write a 0 PD" "\<lambda>i. h ! i"] assms by (simp add: map_nth_upt)
  ultimately show ?thesis using assms by (simp add: concatenaPaddingHash_def sizes Let_def mem_write_def)
qed

section \<open>The checks of the verifier\<close>

lemma comprobarPadding_loop_spec:
  "comprobarPadding_loop i b p = (if \<forall>j. i \<le> j \<and> j < 428 \<longrightarrow> b ! j = 0xFF then p else - 1)"
proof (induction i b p rule: comprobarPadding_loop.induct)
  case (1 i b p)
  show ?case
  proof (cases "i < 428 \<and> b ! i = 0xFF")
    case True
    have eq: "(\<forall>j. i \<le> j \<and> j < 428 \<longrightarrow> b ! j = 0xFF) \<longleftrightarrow> (\<forall>j. Suc i \<le> j \<and> j < 428 \<longrightarrow> b ! j = 0xFF)"
      using True by (metis Suc_leD Suc_leI le_neq_implies_less)
    have "comprobarPadding_loop i b p = comprobarPadding_loop (Suc i) b p"
      using True by (subst comprobarPadding_loop.simps) (simp add: sizes)
    with True 1 show ?thesis by (simp add: sizes eq)
  next
    case False
    then show ?thesis by (subst comprobarPadding_loop.simps) (auto simp: sizes)
  qed
qed

lemma comprobarPadding_cases: "comprobarPadding b \<in> {0, - 1}"
  by (simp add: comprobarPadding_def comprobarPadding_loop_spec Let_def)

lemma comprobarPadding_iff:
  assumes "429 \<le> length b"
  shows "comprobarPadding b = 0 \<longleftrightarrow> take 429 b = emsa_prefix"
proof -
  have eq: "take 429 b = emsa_prefix \<longleftrightarrow> (\<forall>j < 429. b ! j = emsa_prefix ! j)"
    using assms by (auto simp: list_eq_iff_nth_eq)
  have nth: "emsa_prefix ! j = (if j = 1 then 0x01 else if j = 0 \<or> j = 428 then 0x00 else 0xFF)" if "j < 429" for j
    using that sizes(5) by (simp only: emsa_prefix_def) (auto simp: nth_append nth_Cons split: nat.split)
  have "comprobarPadding b = 0 \<longleftrightarrow>
      b ! 0 = 0 \<and> b ! 1 = 1 \<and> b ! 428 = 0 \<and> (\<forall>j. 2 \<le> j \<and> j < 428 \<longrightarrow> b ! j = 0xFF)"
    by (simp add: comprobarPadding_def comprobarPadding_loop_spec Let_def sizes)
  also have "\<dots> \<longleftrightarrow> (\<forall>j < 429. b ! j = emsa_prefix ! j)"
  proof
    assume "\<forall>j < 429. b ! j = emsa_prefix ! j"
    then show "b ! 0 = 0 \<and> b ! 1 = 1 \<and> b ! 428 = 0 \<and> (\<forall>j. 2 \<le> j \<and> j < 428 \<longrightarrow> b ! j = 0xFF)" by (simp add: nth)
  next
    assume l: "b ! 0 = 0 \<and> b ! 1 = 1 \<and> b ! 428 = 0 \<and> (\<forall>j. 2 \<le> j \<and> j < 428 \<longrightarrow> b ! j = 0xFF)"
    show "\<forall>j < 429. b ! j = emsa_prefix ! j"
    proof (intro allI impI)
      fix j :: nat assume "j < 429"
      then consider "j = 0" | "j = 1" | "j = 428" | "2 \<le> j \<and> j < 428" by linarith
      then show "b ! j = emsa_prefix ! j" using l by cases (simp_all add: nth)
    qed
  qed
  finally show ?thesis by (simp add: eq)
qed

lemma sacarHashFirma_spec:
  assumes "length b = 512" "length a = 64"
  shows "sacarHashFirma b a = drop 448 b"
proof -
  have "for_loop 0 64 (\<lambda>i a. a[i := b ! (i + 429 + 19)]) a = mem_write a 0 (map (\<lambda>i. b ! (i + 429 + 19)) [0..<64])"
    using for_loop_write [of 0 64 0 a "\<lambda>i. b ! (i + 429 + 19)"] assms by simp
  also have "\<dots> = map (\<lambda>i. b ! (i + 429 + 19)) [0..<64]" using assms by (intro mem_write_all) simp
  also have "\<dots> = drop 448 b" using assms by (intro nth_equalityI) (simp_all add: add.commute)
  finally show ?thesis by (simp add: sacarHashFirma_def sizes)
qed

lemma compararHASHES_loop_spec:
  "compararHASHES_loop i a b = (if \<forall>j. i \<le> j \<and> j < 64 \<longrightarrow> a ! j = b ! j then 0 else - 1)"
proof (induction i a b rule: compararHASHES_loop.induct)
  case (1 i a b)
  show ?case
  proof (cases "i < 64 \<and> a ! i = b ! i")
    case True
    have eq: "(\<forall>j. i \<le> j \<and> j < 64 \<longrightarrow> a ! j = b ! j) \<longleftrightarrow> (\<forall>j. Suc i \<le> j \<and> j < 64 \<longrightarrow> a ! j = b ! j)"
      using True by (metis Suc_leD Suc_leI le_neq_implies_less)
    have "compararHASHES_loop i a b = compararHASHES_loop (Suc i) a b"
      using True by (subst compararHASHES_loop.simps) (simp add: sizes)
    with True 1 show ?thesis by (simp add: sizes eq)
  next
    case False
    then show ?thesis by (subst compararHASHES_loop.simps) (auto simp: sizes)
  qed
qed

lemma compararHASHES_iff:
  "length a = 64 \<Longrightarrow> length b = 64 \<Longrightarrow> compararHASHES a b = 0 \<longleftrightarrow> a = b"
  by (auto simp: compararHASHES_def compararHASHES_loop_spec list_eq_iff_nth_eq)

section \<open>Reading files and signatures\<close>

definition signed_text :: "read_event list \<Rightarrow> string \<Rightarrow> byte list" where
  \<comment> \<open>what is hashed: the contents of the file followed by its path\<close>
  "signed_text fd path = script_bytes fd @ bytes_of_string path"

definition sro_file :: "('c, 'file, 'priv, 'pub) sro_env \<Rightarrow> string \<Rightarrow> read_event list \<Rightarrow> bool" where
  \<comment> \<open>\<open>path\<close> is a regular file that is read to its end and closed without an error\<close>
  "sro_file env path fd \<longleftrightarrow> v_open env path = Some fd \<and> clean_script fd \<and> v_close env path"

definition sro_sha512 :: "('c, 'file, 'priv, 'pub) sro_env \<Rightarrow> (byte list \<Rightarrow> byte list) \<Rightarrow> bool" where
  "sro_sha512 env H \<longleftrightarrow> streaming_hash (v_sha512_init env) (v_sha512_update env) (v_sha512_final env) H 64"

lemma sha512_spec:
  assumes "sro_sha512 env H" "sro_file env path fd" "0 < n"
  shows "sha512 env path n = Inr (H (signed_text fd path), 0)"
proof -
  obtain cs where cs: "feed_loop (v_sha512_update env) n fd (v_sha512_init env)
        = Inr (foldl (v_sha512_update env) (v_sha512_init env) cs)" "concat cs = script_bytes fd"
    using feed_loop_clean [OF assms(3), of fd "v_sha512_update env" "v_sha512_init env"] assms(2)
    by (auto simp: sro_file_def)
  have "v_sha512_final env (v_sha512_update env (foldl (v_sha512_update env) (v_sha512_init env) cs) (bytes_of_string path))
      = H (signed_text fd path)"
    by (rule streaming_hash_final [OF assms(1) [unfolded sro_sha512_def], of _ "cs @ [bytes_of_string path]"])
       (simp_all add: cs(2) signed_text_def)
  then show ?thesis using assms(2) cs(1) by (simp add: sha512_def sro_file_def Let_def del: bytes_of_string.simps)
qed

lemma sro_sha512_length: "sro_sha512 env H \<Longrightarrow> length (H m) = 64"
  by (simp add: sro_sha512_def streaming_hash_def)

lemma posix_read_0: "clean_script s \<Longrightarrow> fst (posix_read 0 s) = RData []"
  by (cases s rule: clean_script.cases) simp_all

lemma leerFirmaB64_loop_data:
  "posix_read (BLOCK_SIZE - t) bio = (RData bs, bio') \<Longrightarrow>
     leerFirmaB64_loop bio B t =
       (if bs = [] \<or> t > BLOCK_SIZE then Inr (mem_write B t bs)
        else leerFirmaB64_loop bio' (mem_write B t bs) (t + length bs))"
  by (subst leerFirmaB64_loop.simps) simp

lemma leerFirmaB64_loop_spec:
  assumes "clean_script bio" "length B = 512" "t \<le> 512"
  shows "leerFirmaB64_loop bio B t = Inr (mem_write B t (take (512 - t) (script_bytes bio)))"
  using assms
proof (induction "script_weight bio" arbitrary: bio B t rule: less_induct)
  case less
  show ?case
  proof (cases "t = 512")
    case True
    obtain bio' where "posix_read (BLOCK_SIZE - t) bio = (RData [], bio')"
      using posix_read_0 [OF less.prems(1)] True by (cases "posix_read 0 bio") (simp add: sizes)
    from leerFirmaB64_loop_data [OF this] show ?thesis by (simp add: True)
  next
    case False
    obtain bs bio' where r: "posix_read (512 - t) bio = (RData bs, bio')" "clean_script bio'"
        "script_bytes bio = bs @ script_bytes bio'" "length bs \<le> 512 - t" "bs = [] \<longleftrightarrow> script_bytes bio = []"
      using posix_read_clean [OF less.prems(1), of "512 - t"] False less.prems(3) by auto
    then have r': "posix_read (BLOCK_SIZE - t) bio = (RData bs, bio')" by (simp add: sizes)
    show ?thesis
    proof (cases "bs = []")
      case True
      then show ?thesis using r(5) by (simp only: leerFirmaB64_loop_data [OF r']) simp
    next
      case nonempty: False
      have "leerFirmaB64_loop bio B t = leerFirmaB64_loop bio' (mem_write B t bs) (t + length bs)"
        using nonempty less.prems(3) by (simp add: leerFirmaB64_loop_data [OF r'] sizes)
      also have "\<dots> = Inr (mem_write (mem_write B t bs) (t + length bs) (take (512 - (t + length bs)) (script_bytes bio')))"
        using less.prems r(4) False
        by (intro less.hyps [OF posix_read_weight [OF r(1) nonempty] r(2)]) simp_all
      also have "mem_write (mem_write B t bs) (t + length bs) (take (512 - (t + length bs)) (script_bytes bio'))
          = mem_write B t (take (512 - t) (script_bytes bio))"
        using less.prems r(3,4) False mem_write_append [of t bs "take (512 - (t + length bs)) (script_bytes bio')" B]
        by simp
      finally show ?thesis .
    qed
  qed
qed

section \<open>The properties of the program\<close>

text \<open>C20. The signer prints, between its two marker lines, the base-64 form of the RSA operation
  on the block \<open>00 01 FF ... FF 00 || SHA-512 identifier || SHA-512 (file || path)\<close> of
  PKCS #1 v1.5 and exits with 0, however the reads split the file.\<close>

theorem sign_prints_emsa_signature:
  assumes "sro_sha512 env H" "sro_file env path fd"
    "v_rsa_new env" "v_read_private_key env (v_fopen env keyfile) = Some key"
    "v_private_encrypt env key (emsa_block (H (signed_text fd path))) = Some sig" "length sig = 512"
    "v_bio_write env sig > 0" "length junk = 512"
  shows "sro_main env junk [prog, path, keyfile] =
    ([Text ''---BEGIN SRO SIGNATURE---'', Base64 sig, Text ''---END SRO SIGNATURE---''], 0)"
proof -
  let ?md = "H (signed_text fd path)"
  have "length ?md = 64" using assms(1) by (rule sro_sha512_length)
  then have "concatenaPaddingHash (createPadding (replicate PADDING_SIZE 0)) (concatenaIDsha512 ?md (replicate LEN_T 0))
      (replicate BLOCK_SIZE 0) = emsa_block ?md" "length (emsa_block ?md) = 512"
    by (simp_all add: sizes emsa_block_def concatenaIDsha512_spec createPadding_spec concatenaPaddingHash_spec)
  then show ?thesis
    using assms sha512_spec [OF assms(1,2), of TEXT_SIZE]
    by (simp add: sro_main_def sign_stage_def sizes readPrivkey_def Let_def generarFirmaDigital_def mem_write_all)
qed

lemma signature_arg_first: "signature_arg [prog, ''-v'', s, path, keyfile] (Suc 0) = Some s"
  by (subst signature_arg.simps) simp

lemma verify_stage_spec:
  assumes "sro_sha512 env H" "sro_file env path fd"
    "v_rsa_new env" "v_read_pubkey env (v_fopen env keyfile) = Some key"
    "clean_script (v_bio_read env (v_fopen env sigfile))"
    "script_bytes (v_bio_read env (v_fopen env sigfile)) = sig" "length sig = 512"
    "v_public_decrypt env key sig = Some b" "length b = 512" "length junk = 512"
  shows "verify_stage env junk sigfile path keyfile =
    Inr (comprobarPadding b,
         if take 429 b = emsa_prefix then Some (if drop 448 b = H (signed_text fd path) then 0 else - 1) else None)"
proof -
  have l: "leerFirmaB64 env sigfile junk = Inr sig"
    using leerFirmaB64_loop_spec [OF assms(5,10), of 0] assms(6,7,10)
    by (simp add: leerFirmaB64_def mem_write_all)
  have d: "desencryptarMSG env (replicate 512 0) key sig = b"
    using assms(7-9) by (simp add: desencryptarMSG_def sizes mem_write_all)
  have c: "compararHASHES (H (signed_text fd path)) (drop 448 b) = (if drop 448 b = H (signed_text fd path) then 0 else - 1)"
    using compararHASHES_iff [of "H (signed_text fd path)" "drop 448 b"] sro_sha512_length [OF assms(1)] assms(9)
    by (auto simp: compararHASHES_def compararHASHES_loop_spec)
  show ?thesis
    using comprobarPadding_iff [of b] comprobarPadding_cases [of b] assms(3,4,9) sha512_spec [OF assms(1,2), of TEXT_SIZE]
    by (auto simp: verify_stage_def l d readPubkey_def Let_def sacarHashFirma_spec sizes c)
qed

text \<open>C19. The verifier computes that padding and digest are right for the block the signer built:
  whatever the signer prints for a file, reading it back in any chunks and undoing the RSA
  operation gives \<open>r_padding = 0\<close> and equal digests.\<close>

theorem verify_accepts_signature:
  assumes "sro_sha512 env H" "sro_file env path fd"
    "v_rsa_new env" "v_read_private_key env (v_fopen env privfile) = Some priv"
    "v_read_pubkey env (v_fopen env pubfile) = Some pub" "v_bio_write env sig > 0"
    "v_private_encrypt env priv (emsa_block (H (signed_text fd path))) = Some sig" "length sig = 512"
    "v_public_decrypt env pub sig = Some (emsa_block (H (signed_text fd path)))"
    "clean_script (v_bio_read env (v_fopen env sigfile))"
    "script_bytes (v_bio_read env (v_fopen env sigfile)) = sig" "length junk = 512"
  shows "Base64 (script_bytes (v_bio_read env (v_fopen env sigfile)))
           \<in> set (fst (sro_main env junk [prog, path, privfile])) \<and>
         verify_stage env junk sigfile path pubfile = Inr (0, Some 0)"
proof -
  let ?md = "H (signed_text fd path)"
  have md: "length ?md = 64" using assms(1) by (rule sro_sha512_length)
  then have t: "take 429 (emsa_block ?md) = emsa_prefix" "drop 448 (emsa_block ?md) = ?md" "length (emsa_block ?md) = 512"
    by (simp_all add: emsa_block_def)
  then have "comprobarPadding (emsa_block ?md) = 0" by (simp add: comprobarPadding_iff)
  then have "verify_stage env junk sigfile path pubfile = Inr (0, Some 0)"
    using verify_stage_spec [OF assms(1,2,3,5,10,11,8,9) t(3) assms(12)] t by simp
  moreover have "fst (sro_main env junk [prog, path, privfile]) =
      [Text ''---BEGIN SRO SIGNATURE---'', Base64 sig, Text ''---END SRO SIGNATURE---'']"
    using sign_prints_emsa_signature [OF assms(1-4,7,8,6,12)] by simp
  ultimately show ?thesis using assms(11) by simp
qed

text \<open>C21. The verifier looks at the padding and at the last 64 bytes only: the 19 bytes of the
  algorithm identifier may be anything, so \<open>(0, Some 0)\<close> is computed exactly for the blocks
  \<open>00 01 FF ... FF 00 || any 19 bytes || digest\<close>.\<close>

theorem verify_ignores_algorithm_id:
  assumes "sro_sha512 env H" "sro_file env path fd"
    "v_rsa_new env" "v_read_pubkey env (v_fopen env keyfile) = Some key"
    "clean_script (v_bio_read env (v_fopen env sigfile))"
    "script_bytes (v_bio_read env (v_fopen env sigfile)) = sig" "length sig = 512"
    "v_public_decrypt env key sig = Some b" "length b = 512" "length junk = 512"
  shows "verify_stage env junk sigfile path keyfile = Inr (0, Some 0) \<longleftrightarrow>
    (\<exists>algid. length algid = 19 \<and> b = emsa_prefix @ algid @ H (signed_text fd path))"
proof -
  let ?md = "H (signed_text fd path)"
  have md: "length ?md = 64" using assms(1) by (rule sro_sha512_length)
  have "verify_stage env junk sigfile path keyfile = Inr (0, Some 0) \<longleftrightarrow>
      take 429 b = emsa_prefix \<and> drop 448 b = ?md"
    using verify_stage_spec [OF assms] comprobarPadding_iff [of b] assms(9) by auto
  also have "\<dots> \<longleftrightarrow> (\<exists>algid. length algid = 19 \<and> b = emsa_prefix @ algid @ ?md)"
  proof
    assume a: "take 429 b = emsa_prefix \<and> drop 448 b = ?md"
    have "b = take 429 b @ take 19 (drop 429 b) @ drop 448 b"
      using append_take_drop_id [of 429 b] append_take_drop_id [of 19 "drop 429 b"] by simp
    with a assms(9) show "\<exists>algid. length algid = 19 \<and> b = emsa_prefix @ algid @ ?md"
      by (intro exI [of _ "take 19 (drop 429 b)"]) simp
  qed (auto simp: md)
  finally show ?thesis .
qed

text \<open>C18. The exit status does not tell whether the signature is right: when the files can be read
  and the RSA operation succeeds, the program exits with 0 and prints nothing for every
  signature, good or bad.\<close>

theorem verify_exit_status_ignores_result:
  assumes "sro_sha512 env H" "sro_file env path fd"
    "v_rsa_new env" "v_read_pubkey env (v_fopen env keyfile) = Some key"
    "clean_script (v_bio_read env (v_fopen env sigfile))"
    "length (script_bytes (v_bio_read env (v_fopen env sigfile))) = 512"
    "v_public_decrypt env key (script_bytes (v_bio_read env (v_fopen env sigfile))) = Some b"
    "length b = 512" "length junk = 512"
  shows "sro_main env junk [prog, ''-v'', sigfile, path, keyfile] = ([], 0)"
  using verify_stage_spec [OF assms(1-5) refl assms(6-9)]
  by (simp add: sro_main_def signature_arg_first)

section \<open>Concrete runs\<close>

definition ex_H :: "byte list \<Rightarrow> byte list" where
  "ex_H m = take L_SHA512 (m @ replicate L_SHA512 0)"

definition ex_sig :: "byte list" where
  "ex_sig = emsa_block (ex_H (signed_text [Chunk [104, 111], Chunk [108, 97]] ''myfile.txt''))"

definition ex_sro_env :: "(byte list, string, unit, unit) sro_env" where
  \<comment> \<open>a toy hash, an RSA operation that is the identity, one good and one bad signature file\<close>
  "ex_sro_env = \<lparr>v_open = (\<lambda>_. Some [Chunk [104, 111], Chunk [108, 97]]), v_close = (\<lambda>_. True),
     v_fopen = Some, v_sha512_init = [], v_sha512_update = (@), v_sha512_final = ex_H, v_rsa_new = True,
     v_read_private_key = (\<lambda>_. Some ()), v_read_pubkey = (\<lambda>_. Some ()), v_private_encrypt = (\<lambda>_. Some),
     v_public_decrypt = (\<lambda>_. Some), v_bio_write = (\<lambda>bs. int (length bs)),
     v_bio_read = (\<lambda>f. if f = Some ''good.pem'' then [Chunk (take 100 ex_sig), Chunk (drop 100 ex_sig)]
                       else [Chunk (replicate BLOCK_SIZE 0)])\<rparr>"

lemma ex_sha512: "sro_sha512 ex_sro_env ex_H"
proof -
  have "foldl (@) a cs = a @ concat cs" for a :: "byte list" and cs by (induction cs arbitrary: a) simp_all
  then show ?thesis by (auto simp: sro_sha512_def streaming_hash_def ex_sro_env_def ex_H_def sizes min_def)
qed

lemma ex_file: "sro_file ex_sro_env path [Chunk [104, 111], Chunk [108, 97]]"
  by (simp add: sro_file_def ex_sro_env_def)

lemma length_ex_sig: "length ex_sig = 512"
  by (simp add: ex_sig_def emsa_block_def sro_sha512_length [OF ex_sha512])

lemma ex_env_simps:
  "v_rsa_new ex_sro_env" "v_read_private_key ex_sro_env f = Some ()" "v_read_pubkey ex_sro_env f = Some ()"
  "v_private_encrypt ex_sro_env k b = Some b" "v_public_decrypt ex_sro_env k b = Some b"
  "v_bio_write ex_sro_env ex_sig > 0" "v_fopen ex_sro_env p = Some p"
  using length_ex_sig by (auto simp: ex_sro_env_def)

lemma ex_good_script:
  "clean_script (v_bio_read ex_sro_env (Some ''good.pem''))"
  "script_bytes (v_bio_read ex_sro_env (Some ''good.pem'')) = ex_sig"
proof -
  have "take 100 ex_sig \<noteq> []" "drop 100 ex_sig \<noteq> []" using length_ex_sig by auto
  then show "clean_script (v_bio_read ex_sro_env (Some ''good.pem''))" by (simp add: ex_sro_env_def)
qed (simp add: ex_sro_env_def)

theorem sign_prints_emsa_signature_witness:
  "sro_main ex_sro_env (replicate 512 7) [''sign'', ''myfile.txt'', ''privkey.pem''] =
     ([Text ''---BEGIN SRO SIGNATURE---'', Base64 ex_sig, Text ''---END SRO SIGNATURE---''], 0)"
  by (rule sign_prints_emsa_signature [OF ex_sha512 ex_file]) (simp_all only: ex_env_simps ex_sig_def [symmetric] length_ex_sig length_replicate)

theorem verify_accepts_signature_witness:
  "Base64 (script_bytes (v_bio_read ex_sro_env (v_fopen ex_sro_env ''good.pem'')))
     \<in> set (fst (sro_main ex_sro_env (replicate 512 7) [''sign'', ''myfile.txt'', ''privkey.pem''])) \<and>
   verify_stage ex_sro_env (replicate 512 7) ''good.pem'' ''myfile.txt'' ''pubkey.pem'' = Inr (0, Some 0)"
  by (rule verify_accepts_signature [OF ex_sha512 ex_file])
     (simp_all only: ex_good_script ex_env_simps ex_sig_def [symmetric] length_ex_sig length_replicate)

theorem verify_ignores_algorithm_id_witness:
  "verify_stage ex_sro_env (replicate 512 7) ''good.pem'' ''myfile.txt'' ''pubkey.pem'' = Inr (0, Some 0) \<longleftrightarrow>
    (\<exists>algid. length algid = 19 \<and>
       ex_sig = emsa_prefix @ algid @ ex_H (signed_text [Chunk [104, 111], Chunk [108, 97]] ''myfile.txt''))"
  by (rule verify_ignores_algorithm_id [OF ex_sha512 ex_file])
     (simp_all only: ex_good_script ex_env_simps length_ex_sig length_replicate)

theorem verify_exit_status_ignores_result_witness:
  "sro_main ex_sro_env (replicate 512 7) [''sign'', ''-v'', ''bad.pem'', ''myfile.txt'', ''pubkey.pem''] = ([], 0)
   \<and> verify_stage ex_sro_env (replicate 512 7) ''bad.pem'' ''myfile.txt'' ''pubkey.pem'' = Inr (- 1, None)"
proof
  have z: "length (replicate BLOCK_SIZE (0 :: byte)) = 512" by (simp add: sizes)
  have ne: "replicate BLOCK_SIZE (0 :: byte) \<noteq> []" by (simp add: sizes)
  have script: "clean_script (v_bio_read ex_sro_env (Some ''bad.pem''))"
      "script_bytes (v_bio_read ex_sro_env (Some ''bad.pem'')) = replicate BLOCK_SIZE 0"
    using ne by (simp_all add: ex_sro_env_def)
  show "sro_main ex_sro_env (replicate 512 7) [''sign'', ''-v'', ''bad.pem'', ''myfile.txt'', ''pubkey.pem''] = ([], 0)"
    by (rule verify_exit_status_ignores_result [OF ex_sha512 ex_file])
       (simp_all only: script ex_env_simps z length_replicate, simp_all add: sizes)
  have "take 429 (replicate BLOCK_SIZE (0 :: byte)) \<noteq> emsa_prefix"
  proof
    assume "take 429 (replicate BLOCK_SIZE (0 :: byte)) = emsa_prefix"
    then have "take 429 (replicate BLOCK_SIZE (0 :: byte)) ! 1 = emsa_prefix ! 1" by simp
    moreover have "emsa_prefix ! 1 = 1" by (simp add: emsa_prefix_def)
    ultimately show False by (simp add: sizes)
  qed
  then have "comprobarPadding (replicate BLOCK_SIZE (0 :: byte)) \<noteq> 0"
    by (subst comprobarPadding_iff) (simp_all only: z, simp_all)
  then have "comprobarPadding (replicate BLOCK_SIZE (0 :: byte)) = - 1"
    using comprobarPadding_cases [of "replicate BLOCK_SIZE 0"] by blast
  moreover note \<open>take 429 (replicate BLOCK_SIZE (0 :: byte)) \<noteq> emsa_prefix\<close>
  moreover have "verify_stage ex_sro_env (replicate 512 7) ''bad.pem'' ''myfile.txt'' ''pubkey.pem'' =
     Inr (comprobarPadding (replicate BLOCK_SIZE 0),
         if take 429 (replicate BLOCK_SIZE 0) = emsa_prefix
         then Some (if drop 448 (replicate BLOCK_SIZE 0) = ex_H (signed_text [Chunk [104, 111], Chunk [108, 97]] ''myfile.txt'')
                    then 0 else - 1) else None)"
    by (rule verify_stage_spec [OF ex_sha512 ex_file]) (simp_all only: script ex_env_simps sizes length_replicate)
  ultimately show "verify_stage ex_sro_env (replicate 512 7) ''bad.pem'' ''myfile.txt'' ''pubkey.pem'' = Inr (- 1, None)"
    by (simp only: if_False)
qed
end
