(* ===== verification/Stream_Buf.thy ===== *)
theory Stream_Buf
  imports Buffer Posix_IO
begin

text \<open>
  The packets of a TCP link (socket.c): each is preceded by its length in two bytes, and
  \<open>struct stream_buf\<close> cuts the byte stream into packets again.

  \<open>buf_init\<close>, \<open>buf\<close> and \<open>next\<close> of the C struct point into the one block \<open>stream_buf_data\<close> of the
  socket.  The block is the \<open>b_data\<close> of \<open>sb_buf\<close>: setting \<open>buf\<close> to \<open>buf_init\<close> keeps it, and what
  \<open>recv\<close> stores through \<open>next\<close> is stored in \<open>sb_buf\<close>.  The socket is the script of its reads.
  \<open>deframe\<close> is the specification: the packets in a byte stream.
\<close>

section \<open>The state\<close>

definition PS_DISABLED :: int where "PS_DISABLED = 0"
definition PS_ENABLED :: int where "PS_ENABLED = 1"
definition PS_FOREIGN :: int where "PS_FOREIGN = 2"

record stream_buf =
  sb_buf_init :: buffer
  sb_residual :: buffer
  sb_maxlen :: int
  sb_residual_fully_formed :: bool
  sb_buf :: buffer
  sb_next :: buffer
  sb_len :: int
  sb_error :: bool
  sb_port_share_state :: int

record link_socket =
  ls_stream_buf :: stream_buf
  ls_stream_reset :: bool

section \<open>Operations\<close>

definition stream_buf_reset :: "stream_buf \<Rightarrow> stream_buf" where
  "stream_buf_reset sb =
     sb\<lparr>sb_residual_fully_formed := False, sb_buf := (sb_buf_init sb)\<lparr>b_data := b_data (sb_buf sb)\<rparr>,
        sb_next := buf_reset (sb_next sb), sb_len := - 1\<rparr>"

definition stream_buf_init :: "(nat \<Rightarrow> byte) \<Rightarrow> buffer \<Rightarrow> bool \<Rightarrow> stream_buf result" where
  \<comment> \<open>\<open>port_share\<close>: the socket flag \<open>SF_PORT_SHARE\<close> on a TCP server\<close>
  "stream_buf_init junk b port_share =
     bind_result (alloc_buf junk (b_len b)) (\<lambda>residual.
       Inr (stream_buf_reset
         \<lparr>sb_buf_init = b\<lparr>b_len := 0\<rparr>, sb_residual = residual, sb_maxlen = b_len b,
          sb_residual_fully_formed = False, sb_buf = b, sb_next = clear_buf, sb_len = - 1, sb_error = False,
          sb_port_share_state = (if port_share then PS_ENABLED else PS_DISABLED)\<rparr>))"

definition stream_buf_set_next :: "stream_buf \<Rightarrow> stream_buf result" where
  "stream_buf_set_next sb =
     (let nx = (sb_buf sb)\<lparr>b_offset := b_offset (sb_buf sb) + b_len (sb_buf sb),
                           b_len := (if sb_len sb \<ge> 0 then sb_len sb else sb_maxlen sb) - b_len (sb_buf sb)\<rparr>
      in assert_that (b_len nx > 0)
           (assert_that (buf_safe (sb_buf sb) (b_len nx)) (Inr (sb\<lparr>sb_next := nx\<rparr>))))"

definition stream_buf_get_final :: "stream_buf \<Rightarrow> buffer result" where
  "stream_buf_get_final sb = assert_that (buf_defined (sb_buf sb)) (Inr (sb_buf sb))"

definition stream_buf_get_next :: "stream_buf \<Rightarrow> buffer result" where
  "stream_buf_get_next sb = assert_that (buf_defined (sb_next sb)) (Inr (sb_next sb))"

definition is_openvpn_protocol :: "buffer \<Rightarrow> bool" where
  \<comment> \<open>of ps.c; the third byte is \<open>P_CONTROL_HARD_RESET_CLIENT_V2 << P_OPCODE_SHIFT\<close>\<close>
  "is_openvpn_protocol b =
     (let p = buf_contents b; len = buf_len b
      in if len \<ge> 3 then p ! 0 = 0 \<and> p ! 1 \<ge> 14 \<and> p ! 2 = push_bit 3 7
         else if len \<ge> 2 then p ! 0 = 0 \<and> p ! 1 \<ge> 14
         else True)"

definition stream_buf_complete :: "stream_buf \<Rightarrow> (bool \<times> stream_buf) result" where
  \<comment> \<open>the second half of \<open>stream_buf_added\<close>: is the packet fully read?\<close>
  "stream_buf_complete sb =
     (if sb_len sb > 0 \<and> b_len (sb_buf sb) \<ge> sb_len sb
      then (case buf_init (sb_residual sb) 0 of (ok, residual) \<Rightarrow>
              assert_that ok
                (if b_len (sb_buf sb) > sb_len sb
                 then (case buf_copy_excess residual (sb_buf sb) (sb_len sb) of (ok, residual, b) \<Rightarrow>
                         assert_that ok (Inr (True, sb\<lparr>sb_residual := residual, sb_buf := b\<rparr>)))
                 else Inr (True, sb\<lparr>sb_residual := residual\<rparr>)))
      else bind_result (stream_buf_set_next sb) (\<lambda>sb. Inr (False, sb)))"

definition stream_buf_added :: "stream_buf \<Rightarrow> int \<Rightarrow> (bool \<times> stream_buf) result" where
  "stream_buf_added sb length_added =
     (let sb = (if length_added > 0
                then sb\<lparr>sb_buf := (sb_buf sb)\<lparr>b_len := b_len (sb_buf sb) + length_added\<rparr>\<rparr> else sb)
      in if sb_len sb < 0 \<and> b_len (sb_buf sb) \<ge> 2
         then (if sb_port_share_state sb = PS_ENABLED \<and> \<not> is_openvpn_protocol (sb_buf sb)
               then Inr (False, sb\<lparr>sb_port_share_state := PS_FOREIGN, sb_error := True\<rparr>)
               else (let sb = (if sb_port_share_state sb = PS_ENABLED
                               then sb\<lparr>sb_port_share_state := PS_DISABLED\<rparr> else sb)
                     in case buf_read (sb_buf sb) 2 of
                          (None, b) \<Rightarrow> Inl AssertFailed
                        | (Some net_size, b) \<Rightarrow>
                            (let sb = sb\<lparr>sb_buf := b, sb_len := uint (u16_of_bytes net_size)\<rparr>
                             in if sb_len sb < 1 \<or> sb_len sb > sb_maxlen sb
                                then Inr (False, (stream_buf_reset sb)\<lparr>sb_error := True\<rparr>)
                                else stream_buf_complete sb)))
         else stream_buf_complete sb)"

definition stream_buf_read_setup_dowork :: "link_socket \<Rightarrow> (bool \<times> link_socket) result" where
  "stream_buf_read_setup_dowork sock =
     (let sb = ls_stream_buf sock
      in bind_result
           (if b_len (sb_residual sb) \<noteq> 0 \<and> \<not> sb_residual_fully_formed sb
            then (case buf_copy (sb_buf sb) (sb_residual sb) of (ok, b) \<Rightarrow>
                    assert_that ok
                      (case buf_init (sb_residual sb) 0 of (ok, residual) \<Rightarrow>
                         assert_that ok
                           (bind_result (stream_buf_added (sb\<lparr>sb_buf := b, sb_residual := residual\<rparr>) 0)
                              (\<lambda>(formed, sb). Inr (sb\<lparr>sb_residual_fully_formed := formed\<rparr>)))))
            else Inr sb)
           (\<lambda>sb. if sb_residual_fully_formed sb then Inr (False, sock\<lparr>ls_stream_buf := sb\<rparr>)
                 else bind_result (stream_buf_set_next sb) (\<lambda>sb. Inr (True, sock\<lparr>ls_stream_buf := sb\<rparr>))))"

definition link_socket_read_tcp ::
    "link_socket \<Rightarrow> buffer \<Rightarrow> read_event list \<Rightarrow> (int \<times> buffer \<times> link_socket \<times> read_event list) result" where
  \<comment> \<open>the value returned, \<open>*buf\<close>, the socket and the reads that remain\<close>
  "link_socket_read_tcp sock b script =
     (let sb = ls_stream_buf sock;
          finish = (\<lambda>formed sb script.
            if formed
            then bind_result (stream_buf_get_final sb) (\<lambda>b.
                   Inr (b_len b, b, sock\<lparr>ls_stream_buf := stream_buf_reset sb\<rparr>, script))
            else Inr (0, b\<lparr>b_len := 0\<rparr>, sock\<lparr>ls_stream_buf := sb\<rparr>, script))
      in if sb_residual_fully_formed sb then finish True sb script
         else bind_result (stream_buf_get_next sb) (\<lambda>frag.
           case posix_read (nat (b_len frag)) script of
             (RFail e, script) \<Rightarrow> Inr (e, b\<lparr>b_len := e\<rparr>, sock, script)
           | (RData bs, script) \<Rightarrow>
               if bs = [] then Inr (0, b\<lparr>b_len := 0\<rparr>, sock\<lparr>ls_stream_reset := True\<rparr>, script)
               else bind_result
                      (stream_buf_added (sb\<lparr>sb_buf := buf_put (sb_buf sb) (b_offset frag) bs\<rparr>) (int (length bs)))
                      (\<lambda>(formed, sb). finish formed sb script)))"

definition link_socket_write_tcp :: "link_socket \<Rightarrow> buffer \<Rightarrow> (byte list \<times> buffer) result" where
  \<comment> \<open>the bytes given to \<open>send\<close>, and the buffer\<close>
  "link_socket_write_tcp sock b =
     (let len = word_of_int (buf_len b) :: u16
      in assert_that (uint len \<le> sb_maxlen (ls_stream_buf sock))
           (case buf_write_prepend b (bytes_of_u16 len) of (ok, b) \<Rightarrow>
              assert_that ok (Inr (buf_contents b, b))))"

section \<open>The specification\<close>

function deframe :: "int \<Rightarrow> byte list \<Rightarrow> byte list list \<times> bool" where
  \<comment> \<open>the complete packets at the head of a stream, and whether a bad length follows them\<close>
  "deframe maxlen bs =
     (if length bs < 2 then ([], False)
      else (let n = uint (u16_of_bytes (take 2 bs)); rest = drop 2 bs
            in if n < 1 \<or> n > maxlen then ([], True)
               else if int (length rest) < n then ([], False)
               else (case deframe maxlen (drop (nat n) rest) of (ps, bad) \<Rightarrow> (take (nat n) rest # ps, bad))))"
  by pat_completeness auto
termination by (relation "measure (\<lambda>(maxlen, bs). length bs)") auto

declare deframe.simps [simp del]

definition tcp_frame :: "byte list \<Rightarrow> byte list" where
  "tcp_frame p = bytes_of_u16 (of_nat (length p)) @ p"

fun tcp_run :: "nat \<Rightarrow> link_socket \<Rightarrow> buffer \<Rightarrow> read_event list \<Rightarrow> (byte list list \<times> bool) result" where
  \<comment> \<open>read until the connection is closed or must be restarted: the packets delivered and whether
     the stream was in error; at most as many rounds as the first argument\<close>
  "tcp_run 0 sock b script = Inl FatalError"
| "tcp_run (Suc n) sock b script =
     bind_result (stream_buf_read_setup_dowork sock) (\<lambda>(_, sock).
     bind_result (link_socket_read_tcp sock b script) (\<lambda>(len, b, sock, script).
       if sb_error (ls_stream_buf sock) then Inr ([], True)
       else if ls_stream_reset sock then Inr ([], False)
       else if len > 0 then bind_result (tcp_run n sock b script) (\<lambda>(ps, bad). Inr (buf_contents b # ps, bad))
       else tcp_run n sock b script))"

section \<open>The invariant\<close>

definition sb_fixed :: "int \<Rightarrow> int \<Rightarrow> stream_buf \<Rightarrow> bool" where
  \<comment> \<open>\<open>maxlen\<close> bytes and the length fit behind the initial offset \<open>off\<close>\<close>
  "sb_fixed maxlen off sb \<longleftrightarrow>
     sb_maxlen sb = maxlen \<and> 2 \<le> maxlen \<and> 0 \<le> off \<and> b_offset (sb_buf_init sb) = off \<and> b_len (sb_buf_init sb) = 0
     \<and> off + 2 + maxlen \<le> b_capacity (sb_buf_init sb)
     \<and> b_capacity (sb_buf sb) = b_capacity (sb_buf_init sb)
     \<and> buf_ok (sb_buf sb) \<and> buf_ok (sb_residual sb) \<and> b_capacity (sb_residual sb) = maxlen
     \<and> \<not> sb_residual_fully_formed sb \<and> sb_port_share_state sb = PS_DISABLED"

definition sb_at :: "int \<Rightarrow> int \<Rightarrow> nat option \<Rightarrow> byte list \<Rightarrow> stream_buf \<Rightarrow> bool" where
  \<comment> \<open>\<open>X\<close> has been received, after the length prefix where the length is known\<close>
  "sb_at maxlen off L X sb \<longleftrightarrow>
     sb_fixed maxlen off sb \<and> buf_contents (sb_buf sb) = X \<and>
     (case L of
        None \<Rightarrow> sb_len sb = - 1 \<and> b_offset (sb_buf sb) = off \<and> int (length X) \<le> maxlen
      | Some n \<Rightarrow> sb_len sb = int n \<and> b_offset (sb_buf sb) = off + 2 \<and> 1 \<le> n \<and> int n \<le> maxlen
                  \<and> int (length X) \<le> maxlen)"

lemma sb_fixedD:
  assumes "sb_fixed maxlen off sb"
  shows "sb_maxlen sb = maxlen" "2 \<le> maxlen" "0 \<le> off" "b_offset (sb_buf_init sb) = off" "b_len (sb_buf_init sb) = 0"
    "off + 2 + maxlen \<le> b_capacity (sb_buf sb)" "b_capacity (sb_buf_init sb) = b_capacity (sb_buf sb)"
    "buf_ok (sb_buf sb)" "buf_ok (sb_residual sb)" "b_capacity (sb_residual sb) = maxlen"
    "\<not> sb_residual_fully_formed sb" "sb_port_share_state sb = PS_DISABLED"
    "b_capacity (sb_buf sb) < BUF_SIZE_MAX"
  using assms by (auto simp: sb_fixed_def buf_ok_def)

lemma sb_at_len: "sb_at maxlen off L X sb \<Longrightarrow> b_len (sb_buf sb) = int (length X)"
  using length_buf_contents [of "sb_buf sb"] by (auto simp: sb_at_def sb_fixed_def)

lemma stream_buf_reset_at:
  assumes "sb_fixed maxlen off sb"
  shows "sb_at maxlen off None [] (stream_buf_reset sb)" "sb_residual (stream_buf_reset sb) = sb_residual sb"
    "sb_error (stream_buf_reset sb) = sb_error sb"
proof -
  have "buf_ok ((sb_buf_init sb)\<lparr>b_data := b_data (sb_buf sb)\<rparr>)"
    using sb_fixedD [OF assms] by (auto simp: buf_ok_def buf_block_def split: option.splits)
  then show "sb_at maxlen off None [] (stream_buf_reset sb)"
    using sb_fixedD [OF assms] by (auto simp: sb_at_def sb_fixed_def stream_buf_reset_def buf_contents_def)
qed (simp_all add: stream_buf_reset_def)


definition sb_limit :: "int \<Rightarrow> nat option \<Rightarrow> int" where
  \<comment> \<open>how many bytes are received before the packet or its length is looked at\<close>
  "sb_limit maxlen L = (case L of None \<Rightarrow> maxlen | Some n \<Rightarrow> int n)"

definition sb_ready :: "int \<Rightarrow> int \<Rightarrow> nat option \<Rightarrow> byte list \<Rightarrow> stream_buf \<Rightarrow> bool" where
  \<comment> \<open>\<open>next\<close> is set up behind \<open>X\<close> and nothing is left over\<close>
  "sb_ready maxlen off L X sb \<longleftrightarrow>
     sb_at maxlen off L X sb \<and> b_len (sb_residual sb) = 0
     \<and> int (length X) < sb_limit maxlen L \<and> b_data (sb_next sb) \<noteq> None
     \<and> b_offset (sb_next sb) = b_offset (sb_buf sb) + int (length X)
     \<and> b_len (sb_next sb) = sb_limit maxlen L - int (length X)"

lemma stream_buf_set_next_ready:
  assumes "sb_at maxlen off L X sb" "b_len (sb_residual sb) = 0" "int (length X) < sb_limit maxlen L"
  shows "\<exists>sb'. stream_buf_set_next sb = Inr sb' \<and> sb_ready maxlen off L X sb' \<and> sb_error sb' = sb_error sb"
proof -
  have f: "sb_fixed maxlen off sb" using assms(1) by (simp add: sb_at_def)
  note len = sb_at_len [OF assms(1)]
  have lim: "(if sb_len sb \<ge> 0 then sb_len sb else sb_maxlen sb) = sb_limit maxlen L"
    using assms(1) sb_fixedD(1) [OF f] by (auto simp: sb_at_def sb_limit_def split: option.splits)
  have room: "b_offset (sb_buf sb) + sb_limit maxlen L \<le> b_capacity (sb_buf sb)" "sb_limit maxlen L < BUF_SIZE_MAX"
    using assms(1) sb_fixedD [OF f] by (auto simp: sb_at_def sb_limit_def split: option.splits)
  let ?n = "sb_limit maxlen L - int (length X)"
  have "?n \<le> sb_limit maxlen L" by simp
  then have "buf_safe (sb_buf sb) ?n"
    using sb_fixedD(8) [OF f] assms(3) room len by (simp add: buf_safe_def buf_size_valid_def BUF_SIZE_MAX_def)
  moreover have "b_data (sb_buf sb) \<noteq> None" using sb_fixedD(8) [OF f] by (simp add: buf_ok_def)
  ultimately show ?thesis using assms lim len
    by (auto simp: stream_buf_set_next_def Let_def sb_ready_def sb_at_def sb_fixed_def split: option.splits)
qed

lemma stream_buf_complete_spec:
  assumes "sb_at maxlen off (Some n) X sb" "b_len (sb_residual sb) = 0"
  shows "\<exists>formed sb'. stream_buf_complete sb = Inr (formed, sb') \<and> sb_error sb' = sb_error sb \<and>
    (if n \<le> length X
     then formed \<and> sb_fixed maxlen off sb' \<and> buf_contents (sb_buf sb') = take n X
          \<and> buf_contents (sb_residual sb') = drop n X
     else \<not> formed \<and> sb_ready maxlen off (Some n) X sb')"
proof -
  have f: "sb_fixed maxlen off sb" and n: "sb_len sb = int n" "1 \<le> n" and X: "buf_contents (sb_buf sb) = X" "int (length X) \<le> maxlen"
    using assms(1) by (simp_all add: sb_at_def)
  note len = sb_at_len [OF assms(1)] and fx = sb_fixedD [OF f]
  show ?thesis
  proof (cases "n \<le> length X")
    case False
    obtain sb' where "stream_buf_set_next sb = Inr sb'" "sb_ready maxlen off (Some n) X sb'" "sb_error sb' = sb_error sb"
      using stream_buf_set_next_ready [OF assms] False by (auto simp: sb_limit_def)
    then show ?thesis using n len False by (intro exI [of _ False] exI [of _ sb']) (simp add: stream_buf_complete_def)
  next
    case True
    obtain r where r: "buf_init (sb_residual sb) 0 = (True, r)" "buf_ok r" "b_len r = 0" "b_capacity r = maxlen" "b_offset r = 0"
      using buf_init_ok [OF fx(9), of 0] fx(2,10) by auto
    then have r0: "buf_contents r = []" by (simp add: buf_contents_def)
    show ?thesis
    proof (cases "n = length X")
      case True
      with r r0 n len X f show ?thesis
        by (auto simp: stream_buf_complete_def sb_fixed_def)
    next
      case neq: False
      let ?b = "(sb_buf sb)\<lparr>b_len := int n\<rparr>"
      obtain b1 where b1: "buf_advance (sb_buf sb) (int n) = (True, b1)" "buf_ok b1" "buf_contents b1 = drop n X"
        using buf_advance_ok [OF fx(8), of "int n"] X True len by auto
      have "length (drop n X) \<le> buf_room r"
        using buf_room_eq [OF r(2)] r(3-5) X(2) by simp
      then obtain r2 where r2: "buf_copy r b1 = (True, r2)" "buf_ok r2" "buf_contents r2 = drop n X" "b_capacity r2 = maxlen"
        using buf_write_full [OF r(2), of "drop n X"] b1(3) r0 r(4) by (auto simp: buf_copy_def)
      have bok: "buf_ok ?b" using fx(8) True len by (simp add: buf_ok_def)
      have "buf_contents ?b = take n X"
      proof -
        obtain m where m: "nat (b_len (sb_buf sb)) = n + m" using len True le_Suc_ex by fastforce
        have "take n X = take n (mem_read (buf_block (sb_buf sb)) (nat (b_offset (sb_buf sb))) (n + m))"
          using X(1) fx(8) m by (simp add: buf_contents_def)
        then have "take n X = mem_read (buf_block (sb_buf sb)) (nat (b_offset (sb_buf sb))) n"
          by (simp only: mem_read_take [symmetric])
        then show ?thesis using bok by (simp add: buf_contents_def)
      qed
      moreover have "buf_copy_excess r (sb_buf sb) (int n) = (True, r2, ?b)"
        using True neq len b1 r2(1) by (simp add: buf_copy_excess_def)
      ultimately show ?thesis using r(1) n len True neq f bok r2
        by (auto simp: stream_buf_complete_def sb_fixed_def)
    qed
  qed
qed

definition stream_head :: "byte list \<Rightarrow> int" where
  "stream_head X = uint (u16_of_bytes (take 2 X))"

lemma stream_buf_added_0:
  assumes "sb_at maxlen off L X sb" "b_len (sb_residual sb) = 0" "int (length X) \<le> sb_limit maxlen L"
  shows "\<exists>formed sb'. stream_buf_added sb 0 = Inr (formed, sb') \<and>
    (case L of
       None \<Rightarrow>
         if length X < 2 then \<not> formed \<and> sb_ready maxlen off None X sb' \<and> sb_error sb' = sb_error sb
         else if stream_head X < 1 \<or> stream_head X > maxlen
         then \<not> formed \<and> sb_at maxlen off None [] sb' \<and> b_len (sb_residual sb') = 0 \<and> sb_error sb'
         else let n = nat (stream_head X) in
           sb_error sb' = sb_error sb \<and>
           (if n \<le> length X - 2
            then formed \<and> sb_fixed maxlen off sb' \<and> buf_contents (sb_buf sb') = take n (drop 2 X)
                 \<and> buf_contents (sb_residual sb') = drop n (drop 2 X)
            else \<not> formed \<and> sb_ready maxlen off (Some n) (drop 2 X) sb')
     | Some n \<Rightarrow>
         sb_error sb' = sb_error sb \<and>
         (if n \<le> length X
          then formed \<and> sb_fixed maxlen off sb' \<and> buf_contents (sb_buf sb') = take n X
               \<and> buf_contents (sb_residual sb') = drop n X
          else \<not> formed \<and> sb_ready maxlen off (Some n) X sb'))"
proof -
  have f: "sb_fixed maxlen off sb" and X: "buf_contents (sb_buf sb) = X" using assms(1) by (simp_all add: sb_at_def)
  note len = sb_at_len [OF assms(1)] and fx = sb_fixedD [OF f]
  show ?thesis
  proof (cases L)
    case (Some n)
    then show ?thesis using stream_buf_complete_spec [of maxlen off n X sb] assms(1,2)
      by (auto simp: stream_buf_added_def sb_at_def)
  next
    case None
    then have L: "sb_len sb = - 1" "b_offset (sb_buf sb) = off" using assms(1) by (simp_all add: sb_at_def)
    show ?thesis
    proof (cases "length X < 2")
      case True
      obtain sb' where "stream_buf_set_next sb = Inr sb'" "sb_ready maxlen off None X sb'" "sb_error sb' = sb_error sb"
        using stream_buf_set_next_ready [OF assms(1,2)] True fx(2) None by (auto simp: sb_limit_def)
      then show ?thesis using None L True len
        by (intro exI [of _ False] exI [of _ sb']) (simp add: stream_buf_added_def stream_buf_complete_def Let_def)
    next
      case False
      then obtain b where b: "buf_read (sb_buf sb) 2 = (Some (take 2 X), b)" "buf_ok b" "buf_contents b = drop 2 X"
          "b_offset b = off + 2" "b_capacity b = b_capacity (sb_buf sb)"
        using buf_read_advance [OF fx(8), of 2] buf_advance_ok [OF fx(8), of 2] X L(2) len by auto
      let ?sb = "sb\<lparr>sb_buf := b, sb_len := stream_head X\<rparr>"
      have fb: "sb_fixed maxlen off ?sb" using f b by (simp add: sb_fixed_def)
      show ?thesis
      proof (cases "stream_head X < 1 \<or> stream_head X > maxlen")
        case True
        then have "stream_buf_added sb 0 = Inr (False, (stream_buf_reset ?sb)\<lparr>sb_error := True\<rparr>)"
          using L(1) False len b(1) fx(1,12) by (simp add: stream_buf_added_def Let_def stream_head_def PS_ENABLED_def PS_DISABLED_def)
        moreover have "sb_at maxlen off None [] ((stream_buf_reset ?sb)\<lparr>sb_error := True\<rparr>)"
          using stream_buf_reset_at(1) [OF fb] by (simp add: sb_at_def sb_fixed_def)
        ultimately show ?thesis using None False True assms(2) stream_buf_reset_at(2) [OF fb]
          by (intro exI [of _ False] exI [of _ "(stream_buf_reset ?sb)\<lparr>sb_error := True\<rparr>"]) simp
      next
        case ok: False
        let ?n = "nat (stream_head X)"
        have "sb_at maxlen off (Some ?n) (drop 2 X) ?sb"
          using fb b ok assms(3) None by (auto simp: sb_at_def sb_limit_def)
        moreover have "stream_buf_added sb 0 = stream_buf_complete ?sb"
          using L(1) False len b(1) fx(1,12) ok by (simp add: stream_buf_added_def Let_def stream_head_def PS_ENABLED_def PS_DISABLED_def)
        ultimately show ?thesis
          using stream_buf_complete_spec [of maxlen off ?n "drop 2 X" ?sb] assms(2) None False ok
          by (simp add: Let_def)
      qed
    qed
  qed
qed

lemma stream_buf_added_pos:
  "0 < n \<Longrightarrow> stream_buf_added sb n =
     stream_buf_added (sb\<lparr>sb_buf := (sb_buf sb)\<lparr>b_len := b_len (sb_buf sb) + n\<rparr>\<rparr>) 0"
  by (simp add: stream_buf_added_def)

lemma sb_at_receive:
  assumes "sb_ready maxlen off L X sb" "int (length bs) \<le> b_len (sb_next sb)"
  shows "sb_at maxlen off L (X @ bs)
    (sb\<lparr>sb_buf := (buf_put (sb_buf sb) (b_offset (sb_next sb)) bs)\<lparr>b_len := b_len (sb_buf sb) + int (length bs)\<rparr>\<rparr>)"
    "int (length (X @ bs)) \<le> sb_limit maxlen L"
proof -
  have at: "sb_at maxlen off L X sb" and f: "sb_fixed maxlen off sb" using assms(1) by (simp_all add: sb_ready_def sb_at_def)
  note fx = sb_fixedD [OF f] and len = sb_at_len [OF at]
  have lim: "b_offset (sb_buf sb) + sb_limit maxlen L \<le> b_capacity (sb_buf sb)" "sb_limit maxlen L \<le> maxlen"
    using at fx(6) by (auto simp: sb_at_def sb_limit_def split: option.splits)
  have room: "length bs \<le> buf_room (sb_buf sb)"
    using buf_room_eq [OF fx(8)] assms lim len by (simp add: sb_ready_def)
  obtain b where b: "buf_write (sb_buf sb) bs = (True, b)" "buf_ok b" "buf_contents b = X @ bs"
      "b_capacity b = b_capacity (sb_buf sb)" "b_offset b = b_offset (sb_buf sb)"
    using buf_write_full [OF fx(8) room] at by (auto simp: sb_at_def)
  have "b = (buf_put (sb_buf sb) (b_offset (sb_next sb)) bs)\<lparr>b_len := b_len (sb_buf sb) + int (length bs)\<rparr>"
    using b(1) fx(8) assms(1) len
    by (cases "sb_buf sb") (auto simp: buf_write_def buf_write_alloc_def buf_put_def sb_ready_def split: if_splits)
  moreover show "int (length (X @ bs)) \<le> sb_limit maxlen L" using assms by (simp add: sb_ready_def)
  ultimately show "sb_at maxlen off L (X @ bs)
    (sb\<lparr>sb_buf := (buf_put (sb_buf sb) (b_offset (sb_next sb)) bs)\<lparr>b_len := b_len (sb_buf sb) + int (length bs)\<rparr>\<rparr>)"
    using at f b lim(2) by (auto simp: sb_at_def sb_fixed_def split: option.splits)
qed

section \<open>Any cutting of the stream gives the same packets\<close>

definition sb_pending :: "int \<Rightarrow> int \<Rightarrow> byte list \<Rightarrow> stream_buf \<Rightarrow> bool" where
  \<comment> \<open>between two rounds: \<open>P\<close> is what has been received and not been delivered\<close>
  "sb_pending maxlen off P sb \<longleftrightarrow> \<not> sb_error sb \<and>
     ((P \<noteq> [] \<and> sb_at maxlen off None [] sb \<and> buf_contents (sb_residual sb) = P \<and> int (length P) \<le> maxlen)
      \<or> (\<exists>L X. sb_at maxlen off L X sb \<and> b_len (sb_residual sb) = 0 \<and> int (length X) < sb_limit maxlen L \<and>
            (case L of None \<Rightarrow> P = X \<and> length X < 2
             | Some n \<Rightarrow> \<exists>h. P = h @ X \<and> length h = 2 \<and> stream_head h = int n)))"

lemma stream_head_append [simp]: "length h = 2 \<Longrightarrow> stream_head (h @ X) = stream_head h"
  by (simp add: stream_head_def)

lemma stream_head_bounds: "0 \<le> stream_head X" "stream_head X < 65536"
proof -
  show "0 \<le> stream_head X" by (simp add: stream_head_def)
  have "uint (u16_of_bytes (take 2 X)) < 2 ^ LENGTH(16)" by (rule unsigned_less)
  then show "stream_head X < 65536" by (simp add: stream_head_def)
qed

lemma deframe_short: "length bs < 2 \<Longrightarrow> deframe maxlen bs = ([], False)"
  by (subst deframe.simps) simp

lemma deframe_bad: "2 \<le> length bs \<Longrightarrow> stream_head bs < 1 \<or> stream_head bs > maxlen \<Longrightarrow> deframe maxlen bs = ([], True)"
  by (subst deframe.simps) (simp add: stream_head_def Let_def)

lemma deframe_partial:
  "length bs < 2 + nat (stream_head bs) \<Longrightarrow> 1 \<le> stream_head bs \<Longrightarrow> stream_head bs \<le> maxlen \<Longrightarrow>
     deframe maxlen bs = ([], False)"
proof (cases "length bs < 2")
  case False
  assume "length bs < 2 + nat (stream_head bs)" "1 \<le> stream_head bs" "stream_head bs \<le> maxlen"
  moreover from this False have "int (length (drop 2 bs)) < stream_head bs" by simp
  ultimately show ?thesis using False by (subst deframe.simps) (simp add: stream_head_def Let_def)
qed (rule deframe_short)

lemma deframe_packet:
  assumes "1 \<le> stream_head X" "stream_head X \<le> maxlen" "nat (stream_head X) \<le> length X - 2" "2 \<le> length X"
  shows "deframe maxlen (X @ S) =
    (case deframe maxlen (drop (nat (stream_head X)) (drop 2 X) @ S) of
       (ps, bad) \<Rightarrow> (take (nat (stream_head X)) (drop 2 X) # ps, bad))"
proof -
  have "deframe maxlen (X @ S) = (case deframe maxlen (drop (nat (stream_head X)) (drop 2 (X @ S))) of
       (ps, bad) \<Rightarrow> (take (nat (stream_head X)) (drop 2 (X @ S)) # ps, bad))"
  proof -
    have "\<not> int (length (drop 2 (X @ S))) < stream_head X" using assms by simp
    with assms show ?thesis by (subst deframe.simps) (simp add: stream_head_def Let_def)
  qed
  then show ?thesis using assms(3,4) by simp
qed

text \<open>Every round starts with the buffers ready for a \<open>recv\<close>, or with a whole packet, or in error.\<close>

lemma read_setup_spec:
  assumes "sb_pending maxlen off P (ls_stream_buf sock)"
  shows "\<exists>go sock'. stream_buf_read_setup_dowork sock = Inr (go, sock') \<and> ls_stream_reset sock' = ls_stream_reset sock \<and>
    (let sb = ls_stream_buf sock' in
      (go \<and> sb_error sb \<and> sb_ready maxlen off None [] sb \<and> 2 \<le> length P \<and> (stream_head P < 1 \<or> stream_head P > maxlen))
    \<or> (go \<and> \<not> sb_error sb \<and> (\<exists>L X. sb_ready maxlen off L X sb \<and>
            (case L of None \<Rightarrow> P = X \<and> length X < 2
             | Some n \<Rightarrow> \<exists>h. P = h @ X \<and> length h = 2 \<and> stream_head h = int n)))
    \<or> (sb_residual_fully_formed sb \<and> \<not> sb_error sb \<and> sb_fixed maxlen off (sb\<lparr>sb_residual_fully_formed := False\<rparr>) \<and> 2 \<le> length P
       \<and> 1 \<le> stream_head P \<and> stream_head P \<le> maxlen \<and> nat (stream_head P) \<le> length P - 2
       \<and> buf_contents (sb_buf sb) = take (nat (stream_head P)) (drop 2 P)
       \<and> buf_contents (sb_residual sb) = drop (nat (stream_head P)) (drop 2 P)))"
proof -
  let ?sb = "ls_stream_buf sock"
  consider (res) "P \<noteq> []" "sb_at maxlen off None [] ?sb" "buf_contents (sb_residual ?sb) = P" "int (length P) \<le> maxlen"
    | (idle) L X where "sb_at maxlen off L X ?sb" "b_len (sb_residual ?sb) = 0" "int (length X) < sb_limit maxlen L"
        "case L of None \<Rightarrow> P = X \<and> length X < 2 | Some n \<Rightarrow> \<exists>h. P = h @ X \<and> length h = 2 \<and> stream_head h = int n"
    using assms by (auto simp: sb_pending_def)
  then show ?thesis
  proof cases
    case (idle L X)
    obtain sb' where sb': "stream_buf_set_next ?sb = Inr sb'" "sb_ready maxlen off L X sb'" "sb_error sb' = sb_error ?sb"
      using stream_buf_set_next_ready [OF idle(1-3)] by blast
    have "\<not> sb_residual_fully_formed ?sb" using idle(1) sb_fixedD(11) by (auto simp: sb_at_def)
    then have "stream_buf_read_setup_dowork sock = Inr (True, sock\<lparr>ls_stream_buf := sb'\<rparr>)"
      using idle(2) sb'(1) by (simp add: stream_buf_read_setup_dowork_def Let_def)
    then show ?thesis using sb'(2,3) idle(4) assms by (auto simp: sb_pending_def Let_def)
  next
    case res
    have f: "sb_fixed maxlen off ?sb" using res(2) by (simp add: sb_at_def)
    note fx = sb_fixedD [OF f] and len = sb_at_len [OF res(2)]
    have rl: "b_len (sb_residual ?sb) = int (length P)" using length_buf_contents [OF fx(9)] res(3) by simp
    have "length P \<le> buf_room (sb_buf ?sb)"
      using buf_room_eq [OF fx(8)] res(2,4) fx(2,6) len by (simp add: sb_at_def)
    then obtain b where b: "buf_copy (sb_buf ?sb) (sb_residual ?sb) = (True, b)" "buf_ok b" "buf_contents b = P"
        "b_capacity b = b_capacity (sb_buf ?sb)" "b_offset b = b_offset (sb_buf ?sb)"
      using buf_write_full [OF fx(8), of P] res(2,3) by (auto simp: buf_copy_def sb_at_def)
    obtain r where r: "buf_init (sb_residual ?sb) 0 = (True, r)" "buf_ok r" "b_len r = 0" "b_capacity r = maxlen"
      using buf_init_ok [OF fx(9), of 0] fx(2,10) by auto
    let ?sb1 = "?sb\<lparr>sb_buf := b, sb_residual := r\<rparr>"
    have at1: "sb_at maxlen off None P ?sb1"
      using res(2,4) f b r by (simp add: sb_at_def sb_fixed_def)
    have "\<exists>formed sb'. stream_buf_added ?sb1 0 = Inr (formed, sb') \<and> (if length P < 2 then \<not> formed \<and> sb_ready maxlen off None P sb' \<and> sb_error sb' = sb_error ?sb1
         else if stream_head P < 1 \<or> stream_head P > maxlen
         then \<not> formed \<and> sb_at maxlen off None [] sb' \<and> b_len (sb_residual sb') = 0 \<and> sb_error sb'
         else let n = nat (stream_head P) in
           sb_error sb' = sb_error ?sb1 \<and>
           (if n \<le> length P - 2
            then formed \<and> sb_fixed maxlen off sb' \<and> buf_contents (sb_buf sb') = take n (drop 2 P)
                 \<and> buf_contents (sb_residual sb') = drop n (drop 2 P)
            else \<not> formed \<and> sb_ready maxlen off (Some n) (drop 2 P) sb'))"
      by (rule stream_buf_added_0 [OF at1, unfolded option.case]) (simp_all add: r(3) res(4) sb_limit_def)
    then obtain formed sb' where ac: "stream_buf_added ?sb1 0 = Inr (formed, sb') \<and> (if length P < 2 then \<not> formed \<and> sb_ready maxlen off None P sb' \<and> sb_error sb' = sb_error ?sb1
         else if stream_head P < 1 \<or> stream_head P > maxlen
         then \<not> formed \<and> sb_at maxlen off None [] sb' \<and> b_len (sb_residual sb') = 0 \<and> sb_error sb'
         else let n = nat (stream_head P) in
           sb_error sb' = sb_error ?sb1 \<and>
           (if n \<le> length P - 2
            then formed \<and> sb_fixed maxlen off sb' \<and> buf_contents (sb_buf sb') = take n (drop 2 P)
                 \<and> buf_contents (sb_residual sb') = drop n (drop 2 P)
            else \<not> formed \<and> sb_ready maxlen off (Some n) (drop 2 P) sb'))"
      by blast
    note a = conjunct1 [OF ac] and c = conjunct2 [OF ac]
    let ?sb2 = "sb'\<lparr>sb_residual_fully_formed := formed\<rparr>"
    have nf: "\<not> sb_residual_fully_formed ?sb" using fx(11) .
    have P: "length P \<noteq> 0" using res(1) by simp
    have su: "stream_buf_read_setup_dowork sock =
        (if formed then Inr (False, sock\<lparr>ls_stream_buf := ?sb2\<rparr>)
         else bind_result (stream_buf_set_next ?sb2) (\<lambda>sb. Inr (True, sock\<lparr>ls_stream_buf := sb\<rparr>)))"
      using nf rl b(1) r(1) a P by (simp add: stream_buf_read_setup_dowork_def Let_def)
    have ne: "\<not> sb_error ?sb" using assms by (simp add: sb_pending_def)
    have again: "\<exists>sb3. stream_buf_set_next ?sb2 = Inr sb3 \<and> sb_ready maxlen off L X sb3 \<and> sb_error sb3 = sb_error sb'"
      if "sb_at maxlen off L X sb'" "b_len (sb_residual sb') = 0" "int (length X) < sb_limit maxlen L" "\<not> formed" for L X
    proof -
      have "\<not> sb_residual_fully_formed sb'" using that(1) sb_fixedD(11) by (auto simp: sb_at_def)
      then have "?sb2 = sb'" using that(4) by simp
      with stream_buf_set_next_ready [OF that(1-3)] show ?thesis by simp
    qed
    show ?thesis
    proof (cases formed)
      case True
      then have h: "2 \<le> length P" "1 \<le> stream_head P" "stream_head P \<le> maxlen" "nat (stream_head P) \<le> length P - 2"
          "sb_error sb' = sb_error ?sb" "sb_fixed maxlen off sb'"
          "buf_contents (sb_buf sb') = take (nat (stream_head P)) (drop 2 P)"
          "buf_contents (sb_residual sb') = drop (nat (stream_head P)) (drop 2 P)"
        using c by (auto simp: Let_def split: if_splits)
      have "sb'\<lparr>sb_residual_fully_formed := False\<rparr> = sb'" using sb_fixedD(11) [OF h(6)] by simp
      with h ne show ?thesis by (intro exI [of _ False] exI [of _ "sock\<lparr>ls_stream_buf := ?sb2\<rparr>"]) (simp add: su True)
    next
      case False
      have "\<exists>sb3. stream_buf_set_next ?sb2 = Inr sb3 \<and>
        ((sb_error sb3 \<and> sb_ready maxlen off None [] sb3 \<and> 2 \<le> length P \<and> (stream_head P < 1 \<or> stream_head P > maxlen))
         \<or> (\<not> sb_error sb3 \<and> (\<exists>L X. sb_ready maxlen off L X sb3 \<and>
            (case L of None \<Rightarrow> P = X \<and> length X < 2
             | Some n \<Rightarrow> \<exists>h. P = h @ X \<and> length h = 2 \<and> stream_head h = int n))))"
      proof -
        consider (short) "length P < 2" "sb_ready maxlen off None P sb'" "sb_error sb' = sb_error ?sb"
          | (bad) "2 \<le> length P" "stream_head P < 1 \<or> stream_head P > maxlen" "sb_at maxlen off None [] sb'"
              "b_len (sb_residual sb') = 0" "sb_error sb'"
          | (part) "2 \<le> length P" "1 \<le> stream_head P" "sb_error sb' = sb_error ?sb"
              "sb_ready maxlen off (Some (nat (stream_head P))) (drop 2 P) sb'"
          using c False by (auto simp: Let_def split: if_splits)
        then show ?thesis
        proof cases
          case short
          then show ?thesis using again [of None P] False ne by (fastforce simp: sb_ready_def)
        next
          case bad
          then show ?thesis using again [of None "[]"] False fx(2) by (auto simp: sb_limit_def)
        next
          case part
          obtain sb3 where "stream_buf_set_next ?sb2 = Inr sb3" "sb_ready maxlen off (Some (nat (stream_head P))) (drop 2 P) sb3"
              "\<not> sb_error sb3"
            using again [of "Some (nat (stream_head P))" "drop 2 P"] part(3,4) False ne by (auto simp: sb_ready_def)
          moreover have "\<exists>h. P = h @ drop 2 P \<and> length h = 2 \<and> stream_head h = int (nat (stream_head P))"
            using part(1,2) by (intro exI [of _ "take 2 P"]) (simp add: stream_head_def)
          then have "\<exists>L X. sb_ready maxlen off L X sb3 \<and>
              (case L of None \<Rightarrow> P = X \<and> length X < 2
               | Some n \<Rightarrow> \<exists>h. P = h @ X \<and> length h = 2 \<and> stream_head h = int n)"
            using \<open>sb_ready maxlen off (Some (nat (stream_head P))) (drop 2 P) sb3\<close>
            by (intro exI [of _ "Some (nat (stream_head P))"] exI [of _ "drop 2 P"]) (simp only: option.case simp_thms)
          ultimately show ?thesis by blast
        qed
      qed
      then obtain sb3 where "stream_buf_set_next ?sb2 = Inr sb3"
        "(sb_error sb3 \<and> sb_ready maxlen off None [] sb3 \<and> 2 \<le> length P \<and> (stream_head P < 1 \<or> stream_head P > maxlen))
         \<or> (\<not> sb_error sb3 \<and> (\<exists>L X. sb_ready maxlen off L X sb3 \<and>
            (case L of None \<Rightarrow> P = X \<and> length X < 2
             | Some n \<Rightarrow> \<exists>h. P = h @ X \<and> length h = 2 \<and> stream_head h = int n)))"
        by blast
      then show ?thesis using False
        by (intro exI [of _ True] exI [of _ "sock\<lparr>ls_stream_buf := sb3\<rparr>"]) (simp add: su Let_def, blast)
    qed
  qed
qed

lemma posix_read_weight_le:
  "posix_read n s = (RData bs, s') \<Longrightarrow> script_weight s' + length bs \<le> script_weight s"
  by (cases "(n, s)" rule: posix_read.cases) (auto split: if_splits)

lemma stream_head_append2 [simp]: "2 \<le> length P \<Longrightarrow> stream_head (P @ S) = stream_head P"
  by (simp add: stream_head_def)

lemma sb_pending_reset:
  assumes "sb_fixed maxlen off sb" "\<not> sb_error sb"
  shows "sb_pending maxlen off (buf_contents (sb_residual sb)) (stream_buf_reset sb)"
proof -
  note fx = sb_fixedD [OF assms(1)] and at = stream_buf_reset_at [OF assms(1)]
  have len: "int (length (buf_contents (sb_residual sb))) = b_len (sb_residual sb)"
    using length_buf_contents [OF fx(9)] .
  show ?thesis
  proof (cases "buf_contents (sb_residual sb) = []")
    case True
    then show ?thesis using at assms(2) len fx(2)
      by (auto simp: sb_pending_def sb_limit_def intro!: exI [of _ None])
  next
    case False
    have "b_len (sb_residual sb) \<le> maxlen" using fx(9,10) by (simp add: buf_ok_def)
    with False at assms(2) len show ?thesis by (simp add: sb_pending_def)
  qed
qed

text \<open>What \<open>recv\<close> adds to a stream that is ready for it.\<close>

lemma stream_recv_spec:
  assumes "sb_ready maxlen off L X sb" "int (length bs) \<le> b_len (sb_next sb)" "bs \<noteq> []" "\<not> sb_error sb"
    "case L of None \<Rightarrow> P = X \<and> length X < 2 | Some n \<Rightarrow> \<exists>h. P = h @ X \<and> length h = 2 \<and> stream_head h = int n"
  shows "\<exists>formed sb'. stream_buf_added (sb\<lparr>sb_buf := buf_put (sb_buf sb) (b_offset (sb_next sb)) bs\<rparr>) (int (length bs)) = Inr (formed, sb') \<and>
    ((\<not> formed \<and> \<not> sb_error sb' \<and> sb_pending maxlen off (P @ bs) sb')
     \<or> (\<not> formed \<and> sb_error sb' \<and> 2 \<le> length (P @ bs) \<and> (stream_head (P @ bs) < 1 \<or> stream_head (P @ bs) > maxlen))
     \<or> (formed \<and> \<not> sb_error sb' \<and> sb_fixed maxlen off sb' \<and> 2 \<le> length (P @ bs)
        \<and> 1 \<le> stream_head (P @ bs) \<and> stream_head (P @ bs) \<le> maxlen \<and> nat (stream_head (P @ bs)) \<le> length (P @ bs) - 2
        \<and> buf_contents (sb_buf sb') = take (nat (stream_head (P @ bs))) (drop 2 (P @ bs))
        \<and> buf_contents (sb_residual sb') = drop (nat (stream_head (P @ bs))) (drop 2 (P @ bs))))"
proof -
  let ?sb = "sb\<lparr>sb_buf := (buf_put (sb_buf sb) (b_offset (sb_next sb)) bs)\<lparr>b_len := b_len (sb_buf sb) + int (length bs)\<rparr>\<rparr>"
  have at: "sb_at maxlen off L (X @ bs) ?sb" "int (length (X @ bs)) \<le> sb_limit maxlen L"
    using sb_at_receive [OF assms(1,2)] by simp_all
  have res: "b_len (sb_residual ?sb) = 0" using assms(1) by (simp add: sb_ready_def)
  have eq: "stream_buf_added (sb\<lparr>sb_buf := buf_put (sb_buf sb) (b_offset (sb_next sb)) bs\<rparr>) (int (length bs)) = stream_buf_added ?sb 0"
    using stream_buf_added_pos [of "int (length bs)"] assms(3) by simp
  show ?thesis
  proof (cases L)
    case (Some n)
    then obtain h where h: "P = h @ X" "length h = 2" "stream_head h = int n" using assms(5) by auto
    have n: "1 \<le> n" "int n \<le> maxlen" using at(1) Some by (simp_all add: sb_at_def)
    obtain formed sb' where a: "stream_buf_added ?sb 0 = Inr (formed, sb')" "sb_error sb' = sb_error sb"
      and c: "if n \<le> length (X @ bs)
          then formed \<and> sb_fixed maxlen off sb' \<and> buf_contents (sb_buf sb') = take n (X @ bs)
               \<and> buf_contents (sb_residual sb') = drop n (X @ bs)
          else \<not> formed \<and> sb_ready maxlen off (Some n) (X @ bs) sb'"
      using stream_buf_added_0 [OF at(1) res at(2)] Some by auto
    show ?thesis
    proof (cases "n \<le> length (X @ bs)")
      case True
      with c a assms(4) h n show ?thesis
        by (intro exI [of _ True] exI [of _ sb']) (simp add: eq del: drop_append take_append, simp)
    next
      case False
      with c have r: "\<not> formed" "sb_ready maxlen off (Some n) (X @ bs) sb'" by simp_all
      have "sb_pending maxlen off (P @ bs) sb'"
        unfolding sb_pending_def using r(2) a(2) assms(4) h
        by (intro conjI disjI2 exI [of _ "Some n"] exI [of _ "X @ bs"]) (auto simp: sb_ready_def)
      with a r assms(4) show ?thesis by (intro exI [of _ formed] exI [of _ sb']) (simp add: eq)
    qed
  next
    case None
    then have P: "P = X" using assms(5) by simp
    let ?Q = "P @ bs"
    have "\<exists>formed sb'. stream_buf_added ?sb 0 = Inr (formed, sb') \<and>
        (if length ?Q < 2 then \<not> formed \<and> sb_ready maxlen off None ?Q sb' \<and> sb_error sb' = sb_error ?sb
         else if stream_head ?Q < 1 \<or> stream_head ?Q > maxlen
         then \<not> formed \<and> sb_at maxlen off None [] sb' \<and> b_len (sb_residual sb') = 0 \<and> sb_error sb'
         else let n = nat (stream_head ?Q) in
           sb_error sb' = sb_error ?sb \<and>
           (if n \<le> length ?Q - 2
            then formed \<and> sb_fixed maxlen off sb' \<and> buf_contents (sb_buf sb') = take n (drop 2 ?Q)
                 \<and> buf_contents (sb_residual sb') = drop n (drop 2 ?Q)
            else \<not> formed \<and> sb_ready maxlen off (Some n) (drop 2 ?Q) sb'))"
      unfolding P by (rule stream_buf_added_0 [OF at(1) [unfolded None], unfolded option.case])
        (use res at(2) None in simp_all)
    then obtain formed sb' where ac: "stream_buf_added ?sb 0 = Inr (formed, sb') \<and>
        (if length ?Q < 2 then \<not> formed \<and> sb_ready maxlen off None ?Q sb' \<and> sb_error sb' = sb_error ?sb
         else if stream_head ?Q < 1 \<or> stream_head ?Q > maxlen
         then \<not> formed \<and> sb_at maxlen off None [] sb' \<and> b_len (sb_residual sb') = 0 \<and> sb_error sb'
         else let n = nat (stream_head ?Q) in
           sb_error sb' = sb_error ?sb \<and>
           (if n \<le> length ?Q - 2
            then formed \<and> sb_fixed maxlen off sb' \<and> buf_contents (sb_buf sb') = take n (drop 2 ?Q)
                 \<and> buf_contents (sb_residual sb') = drop n (drop 2 ?Q)
            else \<not> formed \<and> sb_ready maxlen off (Some n) (drop 2 ?Q) sb'))"
      by blast
    note a = conjunct1 [OF ac] and c = conjunct2 [OF ac]
    have err: "sb_error ?sb = sb_error sb" by simp
    consider (short) "length ?Q < 2" "\<not> formed" "sb_ready maxlen off None ?Q sb'" "sb_error sb' = sb_error sb"
      | (bad) "2 \<le> length ?Q" "stream_head ?Q < 1 \<or> stream_head ?Q > maxlen" "\<not> formed" "sb_error sb'"
      | (full) "2 \<le> length ?Q" "1 \<le> stream_head ?Q" "stream_head ?Q \<le> maxlen" "sb_error sb' = sb_error sb"
          "nat (stream_head ?Q) \<le> length ?Q - 2" "formed" "sb_fixed maxlen off sb'"
          "buf_contents (sb_buf sb') = take (nat (stream_head ?Q)) (drop 2 ?Q)"
          "buf_contents (sb_residual sb') = drop (nat (stream_head ?Q)) (drop 2 ?Q)"
      | (part) "2 \<le> length ?Q" "1 \<le> stream_head ?Q" "sb_error sb' = sb_error sb" "\<not> formed"
          "sb_ready maxlen off (Some (nat (stream_head ?Q))) (drop 2 ?Q) sb'"
    proof (cases "length ?Q < 2")
      case True
      with c err short show ?thesis by (simp only: if_True; blast)
    next
      case long: False
      show ?thesis
      proof (cases "stream_head ?Q < 1 \<or> stream_head ?Q > maxlen")
        case True
        then show ?thesis using c long bad by (simp only: if_True if_False not_less; blast)
      next
        case False
        then have h: "1 \<le> stream_head ?Q" "stream_head ?Q \<le> maxlen" "2 \<le> length ?Q" using long by linarith+
        show ?thesis
        proof (cases "nat (stream_head ?Q) \<le> length ?Q - 2")
          case True
          then show ?thesis using c long False h err full by (simp only: if_True if_False Let_def; blast)
        next
          case no: False
          then show ?thesis using c long False h err part by (simp only: if_True if_False Let_def; blast)
        qed
      qed
    qed
    then show ?thesis
    proof cases
      case short
      then have "sb_pending maxlen off ?Q sb'"
        unfolding sb_pending_def using assms(4)
        by (intro conjI disjI2 exI [of _ None] exI [of _ ?Q]) (auto simp: sb_ready_def)
      with short a assms(4) show ?thesis by (intro exI [of _ formed] exI [of _ sb']) (simp add: eq)
    next
      case bad
      with a show ?thesis by (intro exI [of _ formed] exI [of _ sb']) (simp add: eq)
    next
      case full
      with a assms(4) show ?thesis by (intro exI [of _ formed] exI [of _ sb']) (simp only: eq, simp)
    next
      case part
      have "\<exists>h. ?Q = h @ drop 2 ?Q \<and> length h = 2 \<and> stream_head h = int (nat (stream_head ?Q))"
        using part(1,2) by (intro exI [of _ "take 2 ?Q"]) (simp add: stream_head_def del: take_append drop_append)
      then have "sb_pending maxlen off ?Q sb'"
        unfolding sb_pending_def using assms(4) part(3,5)
        by (intro conjI disjI2 exI [of _ "Some (nat (stream_head ?Q))"] exI [of _ "drop 2 ?Q"])
           (simp_all add: sb_ready_def del: drop_append)
      with part a assms(4) show ?thesis by (intro exI [of _ formed] exI [of _ sb']) (simp add: eq)
    qed
  qed
qed

lemma sb_fixed_unflag:
  "sb_fixed maxlen off (sb\<lparr>sb_residual_fully_formed := False\<rparr>) \<Longrightarrow>
     stream_buf_reset (sb\<lparr>sb_residual_fully_formed := False\<rparr>) = stream_buf_reset sb"
  by (simp add: stream_buf_reset_def)

lemma tcp_run_deframe:
  assumes "sb_pending maxlen off P (ls_stream_buf sock)" "clean_script script" "\<not> ls_stream_reset sock"
    "2 * script_weight script + length P < n"
  shows "tcp_run n sock b script = Inr (deframe maxlen (P @ script_bytes script))"
  using assms
proof (induction n arbitrary: P sock b script)
  case (Suc n)
  obtain go sock' where su: "stream_buf_read_setup_dowork sock = Inr (go, sock')" "ls_stream_reset sock' = ls_stream_reset sock"
    and cases3: "let sb = ls_stream_buf sock' in
      (go \<and> sb_error sb \<and> sb_ready maxlen off None [] sb \<and> 2 \<le> length P \<and> (stream_head P < 1 \<or> stream_head P > maxlen))
    \<or> (go \<and> \<not> sb_error sb \<and> (\<exists>L X. sb_ready maxlen off L X sb \<and>
            (case L of None \<Rightarrow> P = X \<and> length X < 2
             | Some n \<Rightarrow> \<exists>h. P = h @ X \<and> length h = 2 \<and> stream_head h = int n)))
    \<or> (sb_residual_fully_formed sb \<and> \<not> sb_error sb \<and> sb_fixed maxlen off (sb\<lparr>sb_residual_fully_formed := False\<rparr>) \<and> 2 \<le> length P
       \<and> 1 \<le> stream_head P \<and> stream_head P \<le> maxlen \<and> nat (stream_head P) \<le> length P - 2
       \<and> buf_contents (sb_buf sb) = take (nat (stream_head P)) (drop 2 P)
       \<and> buf_contents (sb_residual sb) = drop (nat (stream_head P)) (drop 2 P))"
    using read_setup_spec [OF Suc.prems(1)] by blast
  define sb where "sb = ls_stream_buf sock'"
  define S where "S = script_bytes script"
  have deliver: "tcp_run (Suc n) sock b script = Inr (deframe maxlen (Q @ script_bytes scr))"
    if d: "link_socket_read_tcp sock' b script = Inr (b_len (sb_buf sb1), sb_buf sb1, sock'\<lparr>ls_stream_buf := stream_buf_reset sb1\<rparr>, scr)"
      "\<not> sb_error sb1" "sb_fixed maxlen off sb1" "2 \<le> length Q" "1 \<le> stream_head Q" "stream_head Q \<le> maxlen"
      "nat (stream_head Q) \<le> length Q - 2" "buf_contents (sb_buf sb1) = take (nat (stream_head Q)) (drop 2 Q)"
      "buf_contents (sb_residual sb1) = drop (nat (stream_head Q)) (drop 2 Q)"
      "clean_script scr" "2 * script_weight scr + length Q \<le> Suc n"
    for sb1 Q scr
  proof -
    let ?R = "drop (nat (stream_head Q)) (drop 2 Q)"
    have "length (buf_contents (sb_buf sb1)) = nat (stream_head Q)" using d(4,7,8) by simp
    then have pos: "0 < b_len (sb_buf sb1)" using length_buf_contents [OF sb_fixedD(8) [OF d(3)]] d(5) by linarith
    have nr: "\<not> ls_stream_reset sock'" using su(2) Suc.prems(3) by simp
    have "length ?R < length Q - 1" using d(4,5,7) by simp
    then have fuel: "2 * script_weight scr + length ?R < n" using d(4,11) by linarith
    have "tcp_run n (sock'\<lparr>ls_stream_buf := stream_buf_reset sb1\<rparr>) (sb_buf sb1) scr = Inr (deframe maxlen (?R @ script_bytes scr))"
      using sb_pending_reset [OF d(3,2)] nr fuel d(9,10) by (intro Suc.IH) (simp_all del: drop_drop)
    moreover have "deframe maxlen (Q @ script_bytes scr) =
        (case deframe maxlen (?R @ script_bytes scr) of (ps, bad) \<Rightarrow> (take (nat (stream_head Q)) (drop 2 Q) # ps, bad))"
      using d(4-7) by (intro deframe_packet)
    ultimately show ?thesis
      using su(1) d(1,2,8) pos nr stream_buf_reset_at(3) [OF d(3)] by (simp del: drop_drop split: prod.split)
  qed
  from cases3 consider
      (err) "sb_error sb" "sb_ready maxlen off None [] sb" "2 \<le> length P" "stream_head P < 1 \<or> stream_head P > maxlen"
    | (ready) L X where "\<not> sb_error sb" "sb_ready maxlen off L X sb"
        "case L of None \<Rightarrow> P = X \<and> length X < 2 | Some n \<Rightarrow> \<exists>h. P = h @ X \<and> length h = 2 \<and> stream_head h = int n"
    | (formed) "sb_residual_fully_formed sb" "\<not> sb_error sb" "sb_fixed maxlen off (sb\<lparr>sb_residual_fully_formed := False\<rparr>)"
        "2 \<le> length P" "1 \<le> stream_head P" "stream_head P \<le> maxlen" "nat (stream_head P) \<le> length P - 2"
        "buf_contents (sb_buf sb) = take (nat (stream_head P)) (drop 2 P)"
        "buf_contents (sb_residual sb) = drop (nat (stream_head P)) (drop 2 P)"
    unfolding Let_def sb_def by blast
  then show ?case
  proof cases
    case formed
    let ?sb = "sb\<lparr>sb_residual_fully_formed := False\<rparr>"
    have "buf_defined (sb_buf sb)" using sb_fixedD(8) [OF formed(3)] by (simp add: buf_defined_def buf_ok_def)
    then have "link_socket_read_tcp sock' b script =
        Inr (b_len (sb_buf ?sb), sb_buf ?sb, sock'\<lparr>ls_stream_buf := stream_buf_reset ?sb\<rparr>, script)"
      using formed(1) sb_fixed_unflag [OF formed(3)]
      by (simp add: link_socket_read_tcp_def Let_def stream_buf_get_final_def flip: sb_def)
    then show ?thesis
      by (rule deliver [OF _ _ formed(3)]) (use formed Suc.prems in simp_all)
  next
    case err
    have f: "sb_fixed maxlen off sb" using err(2) by (simp add: sb_ready_def sb_at_def)
    have nf: "\<not> sb_residual_fully_formed sb" using sb_fixedD(11) [OF f] .
    have nx: "stream_buf_get_next sb = Inr (sb_next sb)" "0 < b_len (sb_next sb)"
      using err(2) by (auto simp: stream_buf_get_next_def buf_defined_def sb_ready_def)
    obtain bs scr where r: "posix_read (nat (b_len (sb_next sb))) script = (RData bs, scr)" "length bs \<le> nat (b_len (sb_next sb))"
      using posix_read_clean [OF Suc.prems(2), of "nat (b_len (sb_next sb))"] nx(2) by auto
    have "\<exists>len b' sock2. link_socket_read_tcp sock' b script = Inr (len, b', sock2, scr) \<and> sb_error (ls_stream_buf sock2)"
    proof (cases "bs = []")
      case True
      then show ?thesis using nf nx(1) r(1) err(1)
        by (auto simp: link_socket_read_tcp_def Let_def simp flip: sb_def)
    next
      case False
      let ?sb = "sb\<lparr>sb_buf := (buf_put (sb_buf sb) (b_offset (sb_next sb)) bs)\<lparr>b_len := b_len (sb_buf sb) + int (length bs)\<rparr>\<rparr>"
      have le: "int (length bs) \<le> b_len (sb_next sb)" using r(2) nx(2) by linarith
      have at: "sb_at maxlen off None ([] @ bs) ?sb" "int (length ([] @ bs)) \<le> sb_limit maxlen None"
        using sb_at_receive [OF err(2) le] by simp_all
      have res: "b_len (sb_residual ?sb) = 0" using err(2) by (simp add: sb_ready_def)
      obtain fm sb' where a: "stream_buf_added ?sb 0 = Inr (fm, sb')" "sb_error sb'" "fm \<longrightarrow> sb_fixed maxlen off sb'"
        using stream_buf_added_0 [OF at(1) res at(2)] err(1) by (auto simp: Let_def split: if_splits)
      have a': "stream_buf_added (sb\<lparr>sb_buf := buf_put (sb_buf sb) (b_offset (sb_next sb)) bs\<rparr>) (int (length bs)) = Inr (fm, sb')"
        using stream_buf_added_pos [of "int (length bs)"] False a(1) by simp
      have "buf_defined (sb_buf sb')" if fm
        using sb_fixedD(8) a(3) that by (auto simp: buf_defined_def buf_ok_def)
      then show ?thesis using nf nx(1) r(1) False a' a(2,3) stream_buf_reset_at(3)
        by (cases fm) (auto simp: link_socket_read_tcp_def Let_def stream_buf_get_final_def simp flip: sb_def)
    qed
    then show ?thesis using su(1) err(3,4) by (auto simp: deframe_bad)
  next
    case (ready L X)
    have f: "sb_fixed maxlen off sb" using ready(2) by (simp add: sb_ready_def sb_at_def)
    have nf: "\<not> sb_residual_fully_formed sb" using sb_fixedD(11) [OF f] .
    have nx: "stream_buf_get_next sb = Inr (sb_next sb)" "0 < b_len (sb_next sb)"
      using ready(2) by (auto simp: stream_buf_get_next_def buf_defined_def sb_ready_def)
    obtain bs scr where r: "posix_read (nat (b_len (sb_next sb))) script = (RData bs, scr)" "length bs \<le> nat (b_len (sb_next sb))"
        "clean_script scr" "script_bytes script = bs @ script_bytes scr" "bs = [] \<longleftrightarrow> script_bytes script = []"
      using posix_read_clean [OF Suc.prems(2), of "nat (b_len (sb_next sb))"] nx(2) by auto
    show ?thesis
    proof (cases "bs = []")
      case True
      have "deframe maxlen P = ([], False)"
      proof (cases L)
        case None
        then show ?thesis using ready(3) by (simp add: deframe_short)
      next
        case (Some m)
        then obtain h where "P = h @ X" "length h = 2" "stream_head h = int m" using ready(3) by auto
        moreover have "int (length X) < int m" "1 \<le> m" "int m \<le> maxlen"
          using ready(2) Some by (auto simp: sb_ready_def sb_at_def sb_limit_def)
        ultimately show ?thesis by (intro deframe_partial) simp_all
      qed
      then show ?thesis using True nf nx(1) r(1,5) su(1) ready(1)
        by (simp add: link_socket_read_tcp_def Let_def flip: sb_def)
    next
      case False
      have le: "int (length bs) \<le> b_len (sb_next sb)" using r(2) nx(2) by linarith
      have w: "2 * script_weight scr + length (P @ bs) < n"
        using posix_read_weight_le [OF r(1)] Suc.prems(4) False by (cases bs) auto
      obtain fm sb' where a: "stream_buf_added (sb\<lparr>sb_buf := buf_put (sb_buf sb) (b_offset (sb_next sb)) bs\<rparr>) (int (length bs)) = Inr (fm, sb')"
        and c: "(\<not> fm \<and> \<not> sb_error sb' \<and> sb_pending maxlen off (P @ bs) sb')
     \<or> (\<not> fm \<and> sb_error sb' \<and> 2 \<le> length (P @ bs) \<and> (stream_head (P @ bs) < 1 \<or> stream_head (P @ bs) > maxlen))
     \<or> (fm \<and> \<not> sb_error sb' \<and> sb_fixed maxlen off sb' \<and> 2 \<le> length (P @ bs)
        \<and> 1 \<le> stream_head (P @ bs) \<and> stream_head (P @ bs) \<le> maxlen \<and> nat (stream_head (P @ bs)) \<le> length (P @ bs) - 2
        \<and> buf_contents (sb_buf sb') = take (nat (stream_head (P @ bs))) (drop 2 (P @ bs))
        \<and> buf_contents (sb_residual sb') = drop (nat (stream_head (P @ bs))) (drop 2 (P @ bs)))"
        using stream_recv_spec [OF ready(2) le False ready(1,3)] by blast
      have rd: "link_socket_read_tcp sock' b script =
          (if fm then bind_result (stream_buf_get_final sb') (\<lambda>b. Inr (b_len b, b, sock'\<lparr>ls_stream_buf := stream_buf_reset sb'\<rparr>, scr))
           else Inr (0, b\<lparr>b_len := 0\<rparr>, sock'\<lparr>ls_stream_buf := sb'\<rparr>, scr))"
        using nf nx(1) r(1) False a by (simp add: link_socket_read_tcp_def Let_def flip: sb_def)
      from c consider (pend) "\<not> fm" "\<not> sb_error sb'" "sb_pending maxlen off (P @ bs) sb'"
        | (bad) "\<not> fm" "sb_error sb'" "2 \<le> length (P @ bs)" "stream_head (P @ bs) < 1 \<or> stream_head (P @ bs) > maxlen"
        | (full) "fm" "\<not> sb_error sb'" "sb_fixed maxlen off sb'" "2 \<le> length (P @ bs)"
          "1 \<le> stream_head (P @ bs)" "stream_head (P @ bs) \<le> maxlen" "nat (stream_head (P @ bs)) \<le> length (P @ bs) - 2"
          "buf_contents (sb_buf sb') = take (nat (stream_head (P @ bs))) (drop 2 (P @ bs))"
          "buf_contents (sb_residual sb') = drop (nat (stream_head (P @ bs))) (drop 2 (P @ bs))"
        by argo
      then show ?thesis
      proof cases
        case pend
        have "tcp_run n (sock'\<lparr>ls_stream_buf := sb'\<rparr>) (b\<lparr>b_len := 0\<rparr>) scr = Inr (deframe maxlen ((P @ bs) @ script_bytes scr))"
          using pend(3) su(2) Suc.prems(3) r(3) w by (intro Suc.IH) simp_all
        then show ?thesis using su pend Suc.prems(3) r(4) by (simp add: rd)
      next
        case bad
        have "stream_head ((P @ bs) @ script_bytes scr) = stream_head (P @ bs)"
          using bad(3) by (rule stream_head_append2)
        with bad have "deframe maxlen ((P @ bs) @ script_bytes scr) = ([], True)"
          by (intro deframe_bad) simp_all
        then show ?thesis using su(1) bad r(4) by (simp add: rd)
      next
        case full
        have "buf_defined (sb_buf sb')" using sb_fixedD(8) [OF full(3)] by (simp add: buf_defined_def buf_ok_def)
        then have "link_socket_read_tcp sock' b script =
            Inr (b_len (sb_buf sb'), sb_buf sb', sock'\<lparr>ls_stream_buf := stream_buf_reset sb'\<rparr>, scr)"
          using full(1) by (simp add: rd stream_buf_get_final_def)
        then have "tcp_run (Suc n) sock b script = Inr (deframe maxlen ((P @ bs) @ script_bytes scr))"
          using full(2-9) r(3) w by (intro deliver) simp_all
        then show ?thesis by (simp only: append_assoc r(4))
      qed
    qed
  qed
qed simp

lemma stream_buf_init_pending:
  assumes "buf_ok b" "2 \<le> b_len b" "b_offset b + 2 + b_len b \<le> b_capacity b"
  shows "\<exists>sb. stream_buf_init junk b False = Inr sb \<and> sb_pending (b_len b) (b_offset b) [] sb"
proof -
  have lt: "b_len b < BUF_SIZE_MAX" and nn: "0 \<le> b_offset b" using assms(1) by (auto simp: buf_ok_def)
  obtain r where r: "alloc_buf junk (b_len b) = Inr r" "buf_ok r" "b_capacity r = b_len b" "b_offset r = 0" "b_len r = 0"
    using alloc_buf_ok [OF _ lt, of junk] assms(2) by auto
  let ?sb = "\<lparr>sb_buf_init = b\<lparr>b_len := 0\<rparr>, sb_residual = r, sb_maxlen = b_len b,
          sb_residual_fully_formed = False, sb_buf = b, sb_next = clear_buf, sb_len = - 1, sb_error = False,
          sb_port_share_state = PS_DISABLED\<rparr>"
  have "sb_fixed (b_len b) (b_offset b) ?sb" using assms r nn by (simp add: sb_fixed_def)
  moreover have "buf_contents r = []" using r(2,5) by (simp add: buf_contents_def)
  ultimately show ?thesis using sb_pending_reset [of "b_len b" "b_offset b" ?sb]
    by (simp add: stream_buf_init_def r(1))
qed

lemma tcp_frame_head: "length p < 65536 \<Longrightarrow> stream_head (tcp_frame p @ S) = int (length p)"
proof -
  assume "length p < 65536"
  then have "uint (of_nat (length p) :: u16) = int (length p)" by (simp add: uint_nat unat_of_nat)
  then show ?thesis by (simp add: stream_head_def tcp_frame_def)
qed

lemma deframe_frames:
  "\<forall>p \<in> set ps. p \<noteq> [] \<and> int (length p) \<le> maxlen \<Longrightarrow> maxlen < 65536 \<Longrightarrow>
     deframe maxlen (concat (map tcp_frame ps)) = (ps, False)"
proof (induction ps)
  case Nil
  show ?case by (simp add: deframe_short)
next
  case (Cons p ps)
  have p: "p \<noteq> []" "int (length p) \<le> maxlen" "length p < 65536" using Cons.prems by auto
  have h: "stream_head (tcp_frame p) = int (length p)" using tcp_frame_head [OF p(3), of "[]"] by simp
  have "deframe maxlen (tcp_frame p @ concat (map tcp_frame ps)) =
      (case deframe maxlen (drop (length p) (drop 2 (tcp_frame p)) @ concat (map tcp_frame ps)) of
         (qs, bad) \<Rightarrow> (take (length p) (drop 2 (tcp_frame p)) # qs, bad))"
    using deframe_packet [of "tcp_frame p" maxlen "concat (map tcp_frame ps)"] p h
    by (cases p) (simp_all add: tcp_frame_def)
  moreover have "drop (length p) (drop 2 (tcp_frame p)) = []" "take (length p) (drop 2 (tcp_frame p)) = p"
    by (simp_all add: tcp_frame_def)
  ultimately show ?case using Cons by simp
qed

lemma link_socket_write_tcp_spec:
  assumes "buf_ok b" "2 \<le> b_offset b" "b_len b \<le> sb_maxlen (ls_stream_buf sock)" "sb_maxlen (ls_stream_buf sock) < 65536"
  shows "\<exists>b'. link_socket_write_tcp sock b = Inr (tcp_frame (buf_contents b), b')"
proof -
  have nn: "0 \<le> b_len b" "b_len b < 65536" using assms by (auto simp: buf_ok_def)
  then have u: "uint (word_of_int (b_len b) :: u16) = b_len b" by (simp add: uint_word_of_int)
  have w: "word_of_int (b_len b) = (of_nat (length (buf_contents b)) :: u16)"
    using length_buf_contents [OF assms(1)] by (metis of_int_of_nat_eq)
  obtain b' where "buf_write_prepend b (bytes_of_u16 (word_of_int (b_len b))) = (True, b')"
      "buf_contents b' = bytes_of_u16 (word_of_int (b_len b)) @ buf_contents b"
    using buf_write_prepend_ok [OF assms(1), of "bytes_of_u16 (word_of_int (b_len b))"] assms(2) buf_headroom_eq [OF assms(1)]
    by fastforce
  then show ?thesis using assms(1,3) u w by (simp add: link_socket_write_tcp_def tcp_frame_def Let_def)
qed

text \<open>C25. However the network cuts the byte stream, the receiver of a TCP link delivers exactly
  the packets that the length prefixes delimit, notices a bad length exactly where there is one,
  and no assertion fails; a number of rounds proportional to the bytes is enough.\<close>

theorem tcp_stream_chunking:
  assumes "buf_ok b" "2 \<le> b_len b" "b_offset b + 2 + b_len b \<le> b_capacity b" "clean_script script"
    "2 * script_weight script < n"
  shows "bind_result (stream_buf_init junk b False)
           (\<lambda>sb. tcp_run n \<lparr>ls_stream_buf = sb, ls_stream_reset = False\<rparr> clear_buf script)
         = Inr (deframe (b_len b) (script_bytes script))"
proof -
  obtain sb where "stream_buf_init junk b False = Inr sb" "sb_pending (b_len b) (b_offset b) [] sb"
    using stream_buf_init_pending [OF assms(1-3)] by blast
  then show ?thesis
    using tcp_run_deframe [of "b_len b" "b_offset b" "[]" "\<lparr>ls_stream_buf = sb, ls_stream_reset = False\<rparr>" script n] assms(4,5)
    by simp
qed

text \<open>C26. Packets sent over a TCP link arrive as they were sent: the bytes that
  \<open>link_socket_write_tcp\<close> gives to the socket for a sequence of nonempty packets within the
  limit are delivered as that sequence, in whatever pieces they arrive.\<close>

theorem tcp_stream_roundtrip:
  assumes "buf_ok b" "2 \<le> b_len b" "b_offset b + 2 + b_len b \<le> b_capacity b" "b_len b < 65536"
    "sb_maxlen (ls_stream_buf sender) = b_len b"
    "\<forall>p \<in> set ps. buf_ok p \<and> 2 \<le> b_offset p \<and> 0 < b_len p \<and> b_len p \<le> b_len b"
    "clean_script script" "2 * script_weight script < n"
    "map (link_socket_write_tcp sender) ps = map Inr sent" "script_bytes script = concat (map fst sent)"
  shows "bind_result (stream_buf_init junk b False)
           (\<lambda>sb. tcp_run n \<lparr>ls_stream_buf = sb, ls_stream_reset = False\<rparr> clear_buf script)
         = Inr (map buf_contents ps, False)"
proof -
  have "map fst sent = map (tcp_frame \<circ> buf_contents) ps"
    using assms(6,9)
  proof (induction ps arbitrary: sent)
    case (Cons p ps)
    then obtain x sent' where s: "sent = x # sent'" "link_socket_write_tcp sender p = Inr x"
        "map (link_socket_write_tcp sender) ps = map Inr sent'" by auto
    obtain b' where "link_socket_write_tcp sender p = Inr (tcp_frame (buf_contents p), b')"
      using link_socket_write_tcp_spec [of p sender] Cons.prems(1) assms(4,5) by auto
    then show ?case using Cons s by auto
  qed simp
  then have "script_bytes script = concat (map tcp_frame (map buf_contents ps))" using assms(10) by (simp add: comp_def)
  moreover have "\<forall>q \<in> set (map buf_contents ps). q \<noteq> [] \<and> int (length q) \<le> b_len b"
  proof
    fix q assume "q \<in> set (map buf_contents ps)"
    then obtain p where "p \<in> set ps" "q = buf_contents p" by auto
    then have "int (length q) = b_len p" "0 < b_len p" "b_len p \<le> b_len b"
      using assms(6) length_buf_contents [of p] by auto
    then show "q \<noteq> [] \<and> int (length q) \<le> b_len b" by (cases q) simp_all
  qed
  ultimately have "deframe (b_len b) (script_bytes script) = (map buf_contents ps, False)"
    using deframe_frames [of "map buf_contents ps" "b_len b"] assms(4) by simp
  then show ?thesis using stream_buf_init_pending [OF assms(1-3), of junk] assms(7,8)
      tcp_run_deframe [of "b_len b" "b_offset b" "[]" "\<lparr>ls_stream_buf = sb, ls_stream_reset = False\<rparr>" script n for sb]
    by fastforce
qed

definition ex_stream_block :: buffer where
  "ex_stream_block = \<lparr>b_capacity = 12, b_offset = 1, b_len = 8, b_data = Some (replicate 12 0)\<rparr>"

definition ex_packet :: "byte list \<Rightarrow> buffer" where
  "ex_packet bs = \<lparr>b_capacity = 2 + int (length bs), b_offset = 2, b_len = int (length bs), b_data = Some ([0, 0] @ bs)\<rparr>"

definition ex_stream_sock :: link_socket where
  "ex_stream_sock = \<lparr>ls_stream_buf = \<lparr>sb_buf_init = clear_buf, sb_residual = clear_buf, sb_maxlen = 8,
     sb_residual_fully_formed = False, sb_buf = clear_buf, sb_next = clear_buf, sb_len = - 1, sb_error = False,
     sb_port_share_state = PS_DISABLED\<rparr>, ls_stream_reset = False\<rparr>"

lemma ex_stream_block_ok: "buf_ok ex_stream_block" "2 \<le> b_len ex_stream_block"
    "b_offset ex_stream_block + 2 + b_len ex_stream_block \<le> b_capacity ex_stream_block" "b_len ex_stream_block = 8"
  by (simp_all add: ex_stream_block_def buf_ok_def buf_block_def BUF_SIZE_MAX_def)

theorem tcp_stream_chunking_witness:
  "bind_result (stream_buf_init (\<lambda>_. 0) ex_stream_block False)
     (\<lambda>sb. tcp_run 100 \<lparr>ls_stream_buf = sb, ls_stream_reset = False\<rparr> clear_buf
              [Chunk [0], Chunk [2, 65, 66, 0, 1, 67], Chunk [0, 9, 1]])
   = Inr (deframe 8 [0, 2, 65, 66, 0, 1, 67, 0, 9, 1])"
  using tcp_stream_chunking [OF ex_stream_block_ok(1-3), of "[Chunk [0], Chunk [2, 65, 66, 0, 1, 67], Chunk [0, 9, 1]]" 100]
  by (simp add: ex_stream_block_ok(4))

lemma deframe_example: "deframe 8 [0, 2, 65, 66, 0, 1, 67, 0, 9, 1] = ([[65, 66], [67]], True)"
  by code_simp

theorem tcp_stream_roundtrip_witness:
  "bind_result (stream_buf_init (\<lambda>_. 0) ex_stream_block False)
     (\<lambda>sb. tcp_run 100 \<lparr>ls_stream_buf = sb, ls_stream_reset = False\<rparr> clear_buf
              [Chunk [0], Chunk [2, 65, 66, 0, 1], Chunk [67]])
   = Inr ([[65, 66], [67]], False)"
proof -
  have ok: "buf_ok (ex_packet [65, 66])" "buf_ok (ex_packet [67])"
    "buf_contents (ex_packet [65, 66]) = [65, 66]" "buf_contents (ex_packet [67]) = [67]"
    by (simp_all add: ex_packet_def buf_ok_def buf_block_def BUF_SIZE_MAX_def buf_contents_def buf_len_def buf_valid_def mem_read_def)
  have p: "\<forall>p \<in> set [ex_packet [65, 66], ex_packet [67]]. buf_ok p \<and> 2 \<le> b_offset p \<and> 0 < b_len p \<and> b_len p \<le> b_len ex_stream_block"
    using ok by (simp add: ex_stream_block_ok(4)) (simp add: ex_packet_def)
  have m: "sb_maxlen (ls_stream_buf ex_stream_sock) = 8" by (simp add: ex_stream_sock_def)
  obtain b1 where w1: "link_socket_write_tcp ex_stream_sock (ex_packet [65, 66]) = Inr (tcp_frame [65, 66], b1)"
    using link_socket_write_tcp_spec [OF ok(1), of ex_stream_sock] m ok(3) by (auto simp: ex_packet_def)
  obtain b2 where w2: "link_socket_write_tcp ex_stream_sock (ex_packet [67]) = Inr (tcp_frame [67], b2)"
    using link_socket_write_tcp_spec [OF ok(2), of ex_stream_sock] m ok(4) by (auto simp: ex_packet_def)
  have fr: "tcp_frame [65, 66] = [0, 2, 65, 66]" "tcp_frame [67] = [0, 1, 67]" by code_simp+
  show ?thesis
    using tcp_stream_roundtrip [OF ex_stream_block_ok(1-3) _ _ p, of ex_stream_sock "[Chunk [0], Chunk [2, 65, 66, 0, 1], Chunk [67]]"
        100 "[(tcp_frame [65, 66], b1), (tcp_frame [67], b2)]" "\<lambda>_. 0"] m w1 w2 ok(3,4)
    by (simp add: ex_stream_block_ok(4) fr)
qed
end
