(* ===== verification/Timers.thy ===== *)
theory Timers
  imports Integers
begin

text \<open>
  Time: the process clock and \<open>struct timeval\<close> arithmetic of otime.h and otime.c, the timers of
  interval.h and interval.c, and the output shaper of shaper.h and shaper.c.

  The globals \<open>now\<close>, \<open>now_adj\<close> and \<open>now_usec\<close> are the record \<open>clock\<close>; operations that only read
  \<open>now\<close> take it as an argument.  \<open>c_int\<close> is the conversion of a wider integer to \<open>int\<close>.  The
  floating-point product of the shaper is a parameter.
\<close>

definition c_int :: "int \<Rightarrow> int" where
  "c_int x = int_of_u32 (u32_of_int x)"

section \<open>Time values\<close>

record timeval =
  tv_sec :: int
  tv_usec :: int

definition tv_clear :: "timeval \<Rightarrow> timeval" where
  "tv_clear tv = tv\<lparr>tv_sec := 0, tv_usec := 0\<rparr>"

definition tv_defined :: "timeval \<Rightarrow> bool" where
  "tv_defined tv \<longleftrightarrow> tv_sec tv > 0 \<and> tv_usec tv > 0"

definition tv_subtract :: "timeval \<Rightarrow> timeval \<Rightarrow> int \<Rightarrow> int" where
  "tv_subtract tv1 tv2 max_seconds =
     (let max_usec = c_int (max_seconds * 1000000);
          sec_diff = c_int (tv_sec tv1 - tv_sec tv2)
      in if sec_diff > c_int max_seconds + 10 then max_usec
         else if sec_diff < - (c_int max_seconds + 10) then - max_usec
         else constrain_int (c_int (sec_diff * 1000000 + (tv_usec tv1 - tv_usec tv2))) (- max_usec) max_usec)"

definition tv_add :: "timeval \<Rightarrow> timeval \<Rightarrow> timeval" where
  "tv_add dest src =
     (let dest = dest\<lparr>tv_sec := tv_sec dest + tv_sec src, tv_usec := tv_usec dest + tv_usec src\<rparr>;
          dest = dest\<lparr>tv_sec := tv_sec dest + drop_bit 20 (tv_usec dest)\<rparr>;
          dest = dest\<lparr>tv_usec := tv_usec dest AND 0x000FFFFF\<rparr>
      in if tv_usec dest \<ge> 1000000
         then dest\<lparr>tv_usec := tv_usec dest - 1000000, tv_sec := tv_sec dest + 1\<rparr> else dest)"

definition tv_lt :: "timeval \<Rightarrow> timeval \<Rightarrow> bool" where
  "tv_lt t1 t2 = (if tv_sec t1 < tv_sec t2 then True else if tv_sec t1 > tv_sec t2 then False
                  else tv_usec t1 < tv_usec t2)"

definition tv_le :: "timeval \<Rightarrow> timeval \<Rightarrow> bool" where
  "tv_le t1 t2 = (if tv_sec t1 < tv_sec t2 then True else if tv_sec t1 > tv_sec t2 then False
                  else tv_usec t1 \<le> tv_usec t2)"

definition tv_ge :: "timeval \<Rightarrow> timeval \<Rightarrow> bool" where
  "tv_ge t1 t2 = (if tv_sec t1 > tv_sec t2 then True else if tv_sec t1 < tv_sec t2 then False
                  else tv_usec t1 \<ge> tv_usec t2)"

definition tv_gt :: "timeval \<Rightarrow> timeval \<Rightarrow> bool" where
  "tv_gt t1 t2 = (if tv_sec t1 > tv_sec t2 then True else if tv_sec t1 < tv_sec t2 then False
                  else tv_usec t1 > tv_usec t2)"

definition tv_eq :: "timeval \<Rightarrow> timeval \<Rightarrow> bool" where
  "tv_eq t1 t2 \<longleftrightarrow> tv_sec t1 = tv_sec t2 \<and> tv_usec t1 = tv_usec t2"

function tv_delta_loop :: "int \<Rightarrow> int \<Rightarrow> int \<times> int" where
  \<comment> \<open>the loop of \<open>tv_delta\<close>\<close>
  "tv_delta_loop sec usec = (if usec < 0 then tv_delta_loop (sec - 1) (usec + 1000000) else (sec, usec))"
  by auto
termination by (relation "measure (\<lambda>(sec, usec). nat (- usec))") auto
declare tv_delta_loop.simps [simp del]

definition tv_delta :: "timeval \<Rightarrow> timeval \<Rightarrow> timeval \<Rightarrow> timeval" where
  "tv_delta dest t1 t2 =
     (case tv_delta_loop (c_int (tv_sec t2 - tv_sec t1)) (c_int (tv_usec t2 - tv_usec t1)) of
        (sec, usec) \<Rightarrow>
          if sec < 0 then dest\<lparr>tv_sec := 0, tv_usec := 0\<rparr> else dest\<lparr>tv_sec := sec, tv_usec := usec\<rparr>)"

definition TV_WITHIN_SIGMA_MAX_SEC :: int where "TV_WITHIN_SIGMA_MAX_SEC = 600"

definition tv_within_sigma :: "timeval \<Rightarrow> timeval \<Rightarrow> u32 \<Rightarrow> bool" where
  "tv_within_sigma t1 t2 sigma =
     (let delta = tv_subtract t1 t2 TV_WITHIN_SIGMA_MAX_SEC
      in - int_of_u32 sigma \<le> delta \<and> delta \<le> int_of_u32 sigma)"

definition interval_earliest_wakeup :: "int \<Rightarrow> time_t \<Rightarrow> time_t \<Rightarrow> int" where
  \<comment> \<open>the new \<open>*wakeup\<close>\<close>
  "interval_earliest_wakeup wakeup at current =
     (if at > current
      then (let delta = c_int (at - current);
                wakeup = (if delta < wakeup then delta else wakeup)
            in if wakeup < 0 then 0 else wakeup)
      else wakeup)"

section \<open>The clock\<close>

record clock =
  c_now :: time_t
  c_now_adj :: time_t
  c_now_usec :: time_t

definition update_now :: "clock \<Rightarrow> time_t \<Rightarrow> clock" where
  "update_now c system_time =
     (let forward_threshold = 86400; backward_trigger = 10;
          real_time = system_time + c_now_adj c
      in if real_time > c_now c
         then (let overshoot = real_time - c_now c - 1
               in if overshoot > forward_threshold \<and> c_now_adj c \<ge> overshoot
                  then c\<lparr>c_now_adj := c_now_adj c - overshoot, c_now := real_time - overshoot\<rparr>
                  else c\<lparr>c_now := real_time\<rparr>)
         else if real_time < c_now c - backward_trigger
         then c\<lparr>c_now_adj := c_now_adj c + (c_now c - real_time)\<rparr>
         else c)"

definition update_now_usec :: "clock \<Rightarrow> timeval \<Rightarrow> clock" where
  "update_now_usec c tv =
     (let last = c_now c; c = update_now c (tv_sec tv)
      in if c_now c > last \<or> (c_now c = last \<and> tv_usec tv > c_now_usec c)
         then c\<lparr>c_now_usec := tv_usec tv\<rparr> else c)"

definition openvpn_gettimeofday :: "clock \<Rightarrow> timeval option \<Rightarrow> timeval \<Rightarrow> int \<times> timeval \<times> clock" where
  \<comment> \<open>the second argument is what \<open>gettimeofday\<close> gives, \<open>None\<close> when it fails\<close>
  "openvpn_gettimeofday c sys tv =
     (case sys of
        None \<Rightarrow> (- 1, tv, c)
      | Some t \<Rightarrow> (let c = update_now_usec c t in (0, t\<lparr>tv_sec := c_now c, tv_usec := c_now_usec c\<rparr>, c)))"

definition update_time :: "clock \<Rightarrow> time_t \<Rightarrow> clock" where
  \<comment> \<open>the second argument is \<open>time (NULL)\<close>\<close>
  "update_time c sys = update_now c sys"

definition openvpn_time :: "clock \<Rightarrow> time_t \<Rightarrow> time_t \<times> clock" where
  "openvpn_time c sys = (let c = update_time c sys in (c_now c, c))"

section \<open>Event frequency limits\<close>

record frequency_limit =
  fl_max :: int
  fl_per :: int
  fl_n :: int
  fl_reset :: time_t

definition frequency_limit_init :: "int \<Rightarrow> int \<Rightarrow> frequency_limit result" where
  "frequency_limit_init mx per =
     assert_that (mx \<ge> 0 \<and> per \<ge> 0) (Inr \<lparr>fl_max = mx, fl_per = per, fl_n = 0, fl_reset = 0\<rparr>)"

definition frequency_limit_event_allowed :: "time_t \<Rightarrow> frequency_limit \<Rightarrow> bool \<times> frequency_limit" where
  "frequency_limit_event_allowed now f =
     (if fl_per f \<noteq> 0
      then (let f = (if now \<ge> fl_reset f + fl_per f then f\<lparr>fl_reset := now, fl_n := 0\<rparr> else f);
                f = f\<lparr>fl_n := fl_n f + 1\<rparr>
            in (fl_n f \<le> fl_max f, f))
      else (True, f))"

section \<open>Intervals and recurring events\<close>

record interval =
  iv_refresh :: int
  iv_horizon :: int
  iv_future_trigger :: time_t
  iv_last_action :: time_t
  iv_last_test_true :: time_t

definition interval_init :: "int \<Rightarrow> int \<Rightarrow> interval" where
  "interval_init horizon refresh =
     \<lparr>iv_refresh = refresh, iv_horizon = horizon, iv_future_trigger = 0, iv_last_action = 0, iv_last_test_true = 0\<rparr>"

definition interval_test :: "time_t \<Rightarrow> interval \<Rightarrow> bool \<times> interval" where
  "interval_test now iv =
     (let trigger = (iv_future_trigger iv \<noteq> 0 \<and> now \<ge> iv_future_trigger iv);
          iv = (if trigger then iv\<lparr>iv_future_trigger := 0\<rparr> else iv)
      in if iv_last_action iv + iv_horizon iv > now \<or> iv_last_test_true iv + iv_refresh iv \<le> now \<or> trigger
         then (True, iv\<lparr>iv_last_test_true := now\<rparr>) else (False, iv))"

definition interval_schedule_wakeup :: "time_t \<Rightarrow> interval \<Rightarrow> int \<Rightarrow> int" where
  "interval_schedule_wakeup now iv wakeup =
     interval_earliest_wakeup
       (interval_earliest_wakeup wakeup (iv_last_test_true iv + iv_refresh iv) now) (iv_future_trigger iv) now"

definition interval_future_trigger :: "time_t \<Rightarrow> interval \<Rightarrow> int \<Rightarrow> interval" where
  "interval_future_trigger now iv wakeup =
     (if wakeup \<noteq> 0 then iv\<lparr>iv_future_trigger := now + wakeup\<rparr> else iv)"

definition interval_action :: "time_t \<Rightarrow> interval \<Rightarrow> interval" where
  "interval_action now iv = iv\<lparr>iv_last_action := now\<rparr>"

record event_timeout =
  et_defined :: bool
  et_n :: int
  et_last :: time_t

definition event_timeout_defined :: "event_timeout \<Rightarrow> bool" where
  "event_timeout_defined et = et_defined et"

definition event_timeout_clear :: "event_timeout \<Rightarrow> event_timeout" where
  "event_timeout_clear et = et\<lparr>et_defined := False, et_n := 0, et_last := 0\<rparr>"

definition event_timeout_init :: "event_timeout \<Rightarrow> int \<Rightarrow> time_t \<Rightarrow> event_timeout" where
  "event_timeout_init et n local_now =
     et\<lparr>et_defined := True, et_n := (if n \<ge> 0 then n else 0), et_last := local_now\<rparr>"

definition event_timeout_reset :: "time_t \<Rightarrow> event_timeout \<Rightarrow> event_timeout" where
  "event_timeout_reset now et = (if et_defined et then et\<lparr>et_last := now\<rparr> else et)"

definition event_timeout_modify_wakeup :: "event_timeout \<Rightarrow> int \<Rightarrow> event_timeout" where
  "event_timeout_modify_wakeup et n = (if et_defined et then et\<lparr>et_n := (if n \<ge> 0 then n else 0)\<rparr> else et)"

definition ETT_DEFAULT :: int where "ETT_DEFAULT = - 1"

definition event_timeout_trigger ::
    "time_t \<Rightarrow> event_timeout \<Rightarrow> timeval option \<Rightarrow> int \<Rightarrow> bool \<times> event_timeout \<times> timeval option" where
  \<comment> \<open>\<open>None\<close> for a \<open>tv\<close> that is \<open>NULL\<close>\<close>
  "event_timeout_trigger now et tv et_const_retry =
     (if et_defined et
      then (let wakeup = c_int (c_int (et_last et) + et_n et - now);
                (ret, et, wakeup) =
                  (if wakeup \<le> 0
                   then if et_const_retry < 0 then (True, et\<lparr>et_last := now\<rparr>, et_n et)
                        else (False, et, et_const_retry)
                   else (False, et, wakeup))
            in (ret, et, map_option (\<lambda>t. if wakeup < tv_sec t then t\<lparr>tv_sec := wakeup, tv_usec := 0\<rparr> else t) tv))
      else (False, et, tv))"

definition USEC_TIMER_MAX :: int where "USEC_TIMER_MAX = 60"

record usec_timer =
  ut_start :: timeval
  ut_end :: timeval

definition usec_timer_interval_defined :: "usec_timer \<Rightarrow> bool" where
  "usec_timer_interval_defined obj \<longleftrightarrow> tv_sec (ut_start obj) \<noteq> 0 \<and> tv_sec (ut_end obj) \<noteq> 0"

definition usec_timer_interval :: "usec_timer \<Rightarrow> int" where
  "usec_timer_interval obj = tv_subtract (ut_end obj) (ut_start obj) USEC_TIMER_MAX"

section \<open>The output shaper\<close>

definition SHAPER_MIN :: int where "SHAPER_MIN = 100"
definition SHAPER_MAX :: int where "SHAPER_MAX = 100000000"
definition SHAPER_MAX_TIMEOUT :: int where "SHAPER_MAX_TIMEOUT = 10"

record shaper =
  sh_bytes_per_second :: int
  sh_wakeup :: timeval

definition shaper_reset :: "shaper \<Rightarrow> int \<Rightarrow> shaper" where
  \<comment> \<open>the member \<open>factor\<close> is a function of \<open>bytes_per_second\<close>\<close>
  "shaper_reset s bytes_per_second =
     s\<lparr>sh_bytes_per_second := (if bytes_per_second \<noteq> 0 then constrain_int bytes_per_second SHAPER_MIN SHAPER_MAX else 0)\<rparr>"

definition shaper_reset_wakeup :: "shaper \<Rightarrow> shaper" where
  "shaper_reset_wakeup s = s\<lparr>sh_wakeup := tv_clear (sh_wakeup s)\<rparr>"

definition shaper_init :: "shaper \<Rightarrow> int \<Rightarrow> shaper" where
  "shaper_init s bytes_per_second = shaper_reset_wakeup (shaper_reset s bytes_per_second)"

definition shaper_current_bandwidth :: "shaper \<Rightarrow> int" where
  "shaper_current_bandwidth s = sh_bytes_per_second s"

definition shaper_delay :: "clock \<Rightarrow> timeval option \<Rightarrow> shaper \<Rightarrow> (int \<times> clock) result" where
  "shaper_delay c sys s =
     (if tv_defined (sh_wakeup s)
      then (case openvpn_gettimeofday c sys (sh_wakeup s) of
              (status, tv, c) \<Rightarrow>
                assert_that (status = 0)
                  (let delay = tv_subtract (sh_wakeup s) tv SHAPER_MAX_TIMEOUT
                   in Inr (if delay > 0 then delay else 0, c)))
      else Inr (0, c))"

definition shaper_wrote_bytes ::
    "(int \<Rightarrow> int \<Rightarrow> int) \<Rightarrow> clock \<Rightarrow> timeval option \<Rightarrow> shaper \<Rightarrow> int \<Rightarrow> (shaper \<times> clock) result" where
  \<comment> \<open>\<open>fp n r\<close> is \<open>(int) ((double) n * (1000000.0 / (double) r))\<close>\<close>
  "shaper_wrote_bytes fp c sys s nbytes =
     (let tv = \<lparr>tv_sec = 0, tv_usec = min_int (fp (max_int nbytes 100) (sh_bytes_per_second s))
                                              (SHAPER_MAX_TIMEOUT * 1000000)\<rparr>
      in if tv_usec tv \<noteq> 0
         then (case openvpn_gettimeofday c sys (sh_wakeup s) of
                 (status, wakeup, c) \<Rightarrow>
                   assert_that (status = 0) (Inr (s\<lparr>sh_wakeup := tv_add wakeup tv\<rparr>, c)))
         else Inr (s, c))"

definition shaper_soonest_event :: "timeval \<Rightarrow> int \<Rightarrow> bool \<times> timeval" where
  "shaper_soonest_event tv delay =
     (if delay < 1000000
      then if tv_sec tv \<noteq> 0 then (True, tv\<lparr>tv_sec := 0, tv_usec := delay\<rparr>)
           else if delay < tv_usec tv then (True, tv\<lparr>tv_usec := delay\<rparr>)
           else (False, tv)
      else (let sec = c_div delay 1000000; usec = c_mod delay 1000000
            in if sec < tv_sec tv then (True, tv\<lparr>tv_sec := sec, tv_usec := usec\<rparr>)
               else if sec = tv_sec tv then (if usec < tv_usec tv then (True, tv\<lparr>tv_usec := usec\<rparr>) else (False, tv))
               else (False, tv)))"

section \<open>Time values are ordered\<close>

instantiation timeval_ext :: (linorder) linorder
begin

definition less_eq_timeval_ext :: "'a timeval_scheme \<Rightarrow> 'a timeval_scheme \<Rightarrow> bool" where
  "less_eq_timeval_ext s t \<longleftrightarrow> tv_sec s < tv_sec t \<or>
     (tv_sec s = tv_sec t \<and> (tv_usec s < tv_usec t \<or> (tv_usec s = tv_usec t \<and> timeval.more s \<le> timeval.more t)))"

definition less_timeval_ext :: "'a timeval_scheme \<Rightarrow> 'a timeval_scheme \<Rightarrow> bool" where
  "less_timeval_ext s t \<longleftrightarrow> s \<le> t \<and> \<not> t \<le> (s :: 'a timeval_scheme)"

instance
  by standard (auto simp: less_eq_timeval_ext_def less_timeval_ext_def intro: timeval.equality)

end

lemma timeval_le: "(s :: timeval) \<le> t \<longleftrightarrow> tv_sec s < tv_sec t \<or> (tv_sec s = tv_sec t \<and> tv_usec s \<le> tv_usec t)"
  by (auto simp: less_eq_timeval_ext_def)

lemma timeval_less: "(s :: timeval) < t \<longleftrightarrow> tv_sec s < tv_sec t \<or> (tv_sec s = tv_sec t \<and> tv_usec s < tv_usec t)"
  by (auto simp: less_timeval_ext_def timeval_le)

lemma tv_order [simp]:
  "tv_le s t \<longleftrightarrow> s \<le> t" "tv_lt s t \<longleftrightarrow> s < t" "tv_ge s t \<longleftrightarrow> t \<le> s" "tv_gt s t \<longleftrightarrow> t < s" "tv_eq s t \<longleftrightarrow> s = t"
  by (auto simp: tv_le_def tv_lt_def tv_ge_def tv_gt_def tv_eq_def timeval_le timeval_less)

definition tv_total :: "timeval \<Rightarrow> int" where
  \<comment> \<open>in microseconds\<close>
  "tv_total t = 1000000 * tv_sec t + tv_usec t"

lemma c_int_id [simp]: "- (2 ^ 31) \<le> x \<Longrightarrow> x < 2 ^ 31 \<Longrightarrow> c_int x = x"
proof -
  assume "- (2 ^ 31) \<le> x" "x < 2 ^ 31"
  then have "signed_take_bit 31 x = x" by (rule signed_take_bit_int_eq_self)
  then show ?thesis by (simp add: c_int_def int_of_u32_def u32_of_int_def sint_sbintrunc' del: of_int_sint)
qed

lemma and_mask20: "(x :: int) AND 0x000FFFFF = x mod 2 ^ 20"
  using take_bit_eq_mask [of 20 x] by (simp add: mask_eq_exp_minus_1 take_bit_eq_mod)

text \<open>Adding time values: the microseconds stay normalized, but the carry treats 2^20
  microseconds as a second, so every carried second loses 48576 microseconds.  A shaper delay of
  ten seconds ends almost half a second early.\<close>

theorem tv_add_carry:
  assumes "0 \<le> tv_usec dest" "tv_usec dest < 1000000" "0 \<le> tv_usec src"
  shows "tv_total (tv_add dest src)
           = tv_total dest + tv_total src - 48576 * ((tv_usec dest + tv_usec src) div 2 ^ 20)
         \<and> 0 \<le> tv_usec (tv_add dest src) \<and> tv_usec (tv_add dest src) < 1000000"
proof -
  let ?u = "tv_usec dest + tv_usec src"
  have u: "?u = 1048576 * (?u div 1048576) + ?u mod 1048576" by simp
  moreover have "0 \<le> ?u mod 1048576" "?u mod 1048576 < 1048576" "?u mod 1048576 < 2000000"
    using pos_mod_bound [of 1048576 ?u] by simp_all
  ultimately show ?thesis
    by (simp add: tv_add_def Let_def and_mask20 drop_bit_eq_div tv_total_def)
qed

theorem tv_add_carry_witness:
  "tv_total (tv_add \<lparr>tv_sec = 5, tv_usec = 999999\<rparr> \<lparr>tv_sec = 0, tv_usec = 10000000\<rparr>) = 15999999 - 485760"
  using tv_add_carry [of "\<lparr>tv_sec = 5, tv_usec = 999999\<rparr>" "\<lparr>tv_sec = 0, tv_usec = 10000000\<rparr>"]
  by (simp add: tv_total_def)

section \<open>The clock never goes back\<close>

datatype clock_reading =
    Read_Seconds time_t      \<comment> \<open>\<open>update_time\<close>\<close>
  | Read_Micro timeval       \<comment> \<open>\<open>openvpn_gettimeofday\<close>\<close>

fun reading_sec :: "clock_reading \<Rightarrow> time_t" where
  "reading_sec (Read_Seconds s) = s"
| "reading_sec (Read_Micro t) = tv_sec t"

fun clock_read :: "clock \<Rightarrow> clock_reading \<Rightarrow> clock" where
  "clock_read c (Read_Seconds s) = update_time c s"
| "clock_read c (Read_Micro t) = (case openvpn_gettimeofday c (Some t) t of (st, tv, c) \<Rightarrow> c)"

fun clock_run :: "clock \<Rightarrow> clock_reading list \<Rightarrow> clock list" where
  "clock_run c [] = []"
| "clock_run c (r # rs) = (let c' = clock_read c r in c' # clock_run c' rs)"

definition clock_time :: "clock \<Rightarrow> timeval" where
  \<comment> \<open>what \<open>openvpn_gettimeofday\<close> stores\<close>
  "clock_time c = \<lparr>tv_sec = c_now c, tv_usec = c_now_usec c\<rparr>"

definition clock_near :: "clock \<Rightarrow> time_t \<Rightarrow> bool" where
  "clock_near c sys \<longleftrightarrow> 0 \<le> c_now_adj c \<and> c_now c - 10 \<le> sys + c_now_adj c \<and> sys + c_now_adj c \<le> c_now c"

lemma update_now_step:
  "0 \<le> c_now_adj c \<Longrightarrow> c_now c \<le> c_now (update_now c sys) \<and> clock_near (update_now c sys) sys
     \<and> c_now_usec (update_now c sys) = c_now_usec c"
  by (simp add: update_now_def clock_near_def Let_def)

lemma clock_read_step:
  assumes "0 \<le> c_now_adj c"
  shows "clock_time c \<le> clock_time (clock_read c r) \<and> clock_near (clock_read c r) (reading_sec r)"
proof (cases r)
  case (Read_Seconds s)
  then show ?thesis using update_now_step [OF assms, of s]
    by (auto simp: update_time_def timeval_le clock_time_def)
next
  case (Read_Micro t)
  have "clock_read c r = update_now_usec c t"
    using Read_Micro by (simp add: openvpn_gettimeofday_def Let_def)
  with Read_Micro update_now_step [OF assms, of "tv_sec t"] show ?thesis
    by (auto simp: update_now_usec_def Let_def timeval_le clock_time_def clock_near_def)
qed

text \<open>C27. Whatever the system clock does, the time the program sees never goes back, in
  microseconds as in seconds, and after every reading it is the system time plus the
  adjustment, at most ten seconds ahead of it.\<close>

theorem clock_monotone:
  assumes "0 \<le> c_now_adj c"
  shows "sorted (map clock_time (c # clock_run c rs)) \<and> length (clock_run c rs) = length rs
         \<and> list_all2 (\<lambda>c r. clock_near c (reading_sec r)) (clock_run c rs) rs"
  using assms
proof (induction rs arbitrary: c)
  case Nil
  show ?case by simp
next
  case (Cons r rs)
  note step = clock_read_step [OF Cons.prems, of r]
  then have "0 \<le> c_now_adj (clock_read c r)" by (simp add: clock_near_def)
  from Cons.IH [OF this] step show ?case by (auto simp: Let_def)
qed

theorem clock_monotone_witness:
  "sorted (map clock_time (clock_run \<lparr>c_now = 1000, c_now_adj = 0, c_now_usec = 5\<rparr>
     [Read_Seconds 400, Read_Micro \<lparr>tv_sec = 400, tv_usec = 7\<rparr>, Read_Seconds 90000]))"
  using clock_monotone [of "\<lparr>c_now = 1000, c_now_adj = 0, c_now_usec = 5\<rparr>"
     "[Read_Seconds 400, Read_Micro \<lparr>tv_sec = 400, tv_usec = 7\<rparr>, Read_Seconds 90000]"]
  by (simp del: clock_run.simps)

section \<open>Event frequency limits\<close>

fun frequency_run :: "frequency_limit \<Rightarrow> time_t list \<Rightarrow> (time_t \<times> bool) list" where
  "frequency_run f [] = []"
| "frequency_run f (t # ts) =
     (case frequency_limit_event_allowed t f of (ok, f') \<Rightarrow> (t, ok) # frequency_run f' ts)"

definition allowed_within :: "time_t \<Rightarrow> int \<Rightarrow> (time_t \<times> bool) list \<Rightarrow> int" where
  "allowed_within t per evs = int (length (filter (\<lambda>(s, ok). ok \<and> t \<le> s \<and> s < t + per) evs))"

definition frequency_left :: "time_t \<Rightarrow> frequency_limit \<Rightarrow> int" where
  "frequency_left t f =
     (if t + fl_per f \<le> fl_reset f then 0
      else if t \<le> fl_reset f then max 0 (fl_max f - fl_n f)
      else max 0 (fl_max f - fl_n f) + fl_max f)"

lemma allowed_within_Cons:
  "allowed_within t per ((s, ok) # evs)
     = (if ok \<and> t \<le> s \<and> s < t + per then 1 else 0) + allowed_within t per evs"
  by (simp add: allowed_within_def)

lemma frequency_run_left:
  assumes "sorted ts" "\<forall>s \<in> set ts. fl_reset f \<le> s \<and> t \<le> s" "0 < fl_per f" "0 \<le> fl_max f" "0 \<le> fl_n f"
  shows "allowed_within t (fl_per f) (frequency_run f ts) \<le> frequency_left t f"
  using assms
proof (induction ts arbitrary: f)
  case Nil
  then show ?case by (simp add: allowed_within_def frequency_left_def)
next
  case (Cons s ts)
  obtain ok f' where f': "frequency_limit_event_allowed s f = (ok, f')" by fastforce
  have inv: "sorted ts" "\<forall>x \<in> set ts. fl_reset f' \<le> x \<and> t \<le> x" "fl_per f' = fl_per f" "fl_max f' = fl_max f" "0 \<le> fl_n f'"
    using Cons.prems f' by (auto simp: frequency_limit_event_allowed_def Let_def split: if_splits)
  then have IH: "allowed_within t (fl_per f) (frequency_run f' ts) \<le> frequency_left t f'"
    using Cons.IH [of f'] Cons.prems by simp
  have "(if ok \<and> t \<le> s \<and> s < t + fl_per f then 1 else 0) + frequency_left t f' \<le> frequency_left t f"
    using f' Cons.prems
    by (auto simp: frequency_limit_event_allowed_def Let_def frequency_left_def split: if_splits)
  with IH show ?case by (simp add: f' allowed_within_Cons)
qed

lemma frequency_run_within:
  assumes "sorted ts" "\<forall>s \<in> set ts. fl_reset f \<le> s" "0 < fl_per f" "0 \<le> fl_max f" "0 \<le> fl_n f"
  shows "allowed_within t (fl_per f) (frequency_run f ts) \<le> 2 * fl_max f"
  using assms
proof (induction ts arbitrary: f)
  case Nil
  then show ?case by (simp add: allowed_within_def)
next
  case (Cons s ts)
  show ?case
  proof (cases "t \<le> s")
    case True
    then have "allowed_within t (fl_per f) (frequency_run f (s # ts)) \<le> frequency_left t f"
      using Cons.prems by (intro frequency_run_left) auto
    also have "\<dots> \<le> 2 * fl_max f" using Cons.prems by (simp add: frequency_left_def)
    finally show ?thesis .
  next
    case False
    obtain ok f' where f': "frequency_limit_event_allowed s f = (ok, f')" by fastforce
    have inv: "sorted ts" "\<forall>x \<in> set ts. fl_reset f' \<le> x" "fl_per f' = fl_per f" "fl_max f' = fl_max f" "0 \<le> fl_n f'"
      using Cons.prems f' by (auto simp: frequency_limit_event_allowed_def Let_def split: if_splits)
    then show ?thesis using Cons.IH [of f'] Cons.prems False by (simp add: f' allowed_within_Cons)
  qed
qed

text \<open>The limit on new connections: in any stretch of \<open>per\<close> seconds, however it lies over the
  limiter's own windows, at most twice \<open>max\<close> events are let through.\<close>

theorem frequency_limit_bound:
  assumes "frequency_limit_init mx per = Inr f" "0 < per" "sorted ts" "\<forall>s \<in> set ts. 0 \<le> s"
  shows "allowed_within t per (frequency_run f ts) \<le> 2 * mx"
proof -
  have f: "fl_per f = per" "fl_max f = mx" "fl_n f = 0" "fl_reset f = 0" "0 \<le> mx"
    using assms(1) by (auto simp: frequency_limit_init_def)
  then show ?thesis using frequency_run_within [of ts f t] assms by simp
qed

theorem frequency_limit_bound_witness:
  "\<exists>f. frequency_limit_init 2 10 = Inr f
       \<and> allowed_within 9 10 (frequency_run f [9, 9, 9, 10, 10, 10, 11]) \<le> 4"
proof -
  have init: "frequency_limit_init 2 10 = Inr \<lparr>fl_max = 2, fl_per = 10, fl_n = 0, fl_reset = 0\<rparr>" by code_simp
  from init frequency_limit_bound [OF init, of "[9, 9, 9, 10, 10, 10, 11]" 9] show ?thesis by simp
qed

section \<open>Recurring events\<close>

lemma event_timeout_fires:
  assumes "et_defined et" "- (2 ^ 31) \<le> et_last et" "et_last et < 2 ^ 31"
    "- (2 ^ 31) \<le> et_last et + et_n et - now" "et_last et + et_n et - now < 2 ^ 31"
  shows "event_timeout_trigger now et None ETT_DEFAULT
           = (now \<ge> et_last et + et_n et, (if now \<ge> et_last et + et_n et then et\<lparr>et_last := now\<rparr> else et), None)"
  using assms by (simp add: event_timeout_trigger_def ETT_DEFAULT_def Let_def)

lemma event_timeout_retry_silent:
  "0 \<le> retry \<Longrightarrow> \<not> fst (event_timeout_trigger now et tv retry)"
  \<comment> \<open>the comment in interval.h says that a signal gives true here too\<close>
  by (simp add: event_timeout_trigger_def Let_def)

end
