(* ===== verification/Fragment.thy ===== *)
theory Fragment
  imports Mtu Timers
begin

text \<open>
  Fragmentation of datagrams larger than the link allows (fragment.h, fragment.c).

  The sender cuts a datagram into at most \<open>MAX_FRAGS\<close> pieces of one size, each behind a four-byte
  header; the receiver joins them in one of \<open>N_FRAG_BUF\<close> buffers, which a window over the
  sequence numbers assigns.  The value \<open>*buf = f->outgoing_return\<close> and \<open>*buf = frag->buf\<close> share
  their block with the master; that block is written before it is read again, so the model
  copies it.  The random number of \<open>fragment_init\<close> is a parameter.
\<close>

section \<open>State and header\<close>

definition N_FRAG_BUF :: int where "N_FRAG_BUF = 25"
definition FRAG_TTL_SEC :: int where "FRAG_TTL_SEC = 10"
definition FRAG_WAKEUP_INTERVAL :: int where "FRAG_WAKEUP_INTERVAL = 5"
definition FRAG_MAP_MASK :: u32 where "FRAG_MAP_MASK = 0xFFFFFFFF"
definition MAX_FRAGS :: int where "MAX_FRAGS = 32"
definition N_SEQ_ID :: int where "N_SEQ_ID = 256"
definition FRAG_TYPE_MASK :: u32 where "FRAG_TYPE_MASK = 0x00000003"
definition FRAG_TYPE_SHIFT :: nat where "FRAG_TYPE_SHIFT = 0"
definition FRAG_WHOLE :: int where "FRAG_WHOLE = 0"
definition FRAG_YES_NOTLAST :: int where "FRAG_YES_NOTLAST = 1"
definition FRAG_YES_LAST :: int where "FRAG_YES_LAST = 2"
definition FRAG_TEST :: int where "FRAG_TEST = 3"
definition FRAG_SEQ_ID_MASK :: u32 where "FRAG_SEQ_ID_MASK = 0x000000ff"
definition FRAG_SEQ_ID_SHIFT :: nat where "FRAG_SEQ_ID_SHIFT = 2"
definition FRAG_ID_MASK :: u32 where "FRAG_ID_MASK = 0x0000001f"
definition FRAG_ID_SHIFT :: nat where "FRAG_ID_SHIFT = 10"
definition FRAG_SIZE_MASK :: u32 where "FRAG_SIZE_MASK = 0x00003fff"
definition FRAG_SIZE_SHIFT :: nat where "FRAG_SIZE_SHIFT = 15"
definition FRAG_SIZE_ROUND_SHIFT :: nat where "FRAG_SIZE_ROUND_SHIFT = 2"
definition FRAG_SIZE_ROUND_MASK :: int where "FRAG_SIZE_ROUND_MASK = push_bit FRAG_SIZE_ROUND_SHIFT 1 - 1"

record fragment =
  fr_defined :: bool
  fr_max_frag_size :: int
  fr_map :: u32
  fr_timestamp :: time_t
  fr_buf :: buffer

record fragment_list =
  fl_seq_id :: int
  fl_index :: int
  fl_fragments :: "fragment list"

record fragment_master =
  fm_wakeup :: event_timeout
  fm_received_os_mtu_hint :: bool
  fm_outgoing_seq_id :: int
  fm_outgoing_frag_size :: int
  fm_outgoing_frag_id :: int
  fm_outgoing :: buffer
  fm_outgoing_return :: buffer
  fm_incoming :: fragment_list

section \<open>The window of assembly buffers\<close>

definition frag_undefine :: "nat \<Rightarrow> fragment_list \<Rightarrow> fragment_list" where
  \<comment> \<open>\<open>list->fragments[i].defined = false\<close>\<close>
  "frag_undefine i l =
     l\<lparr>fl_fragments := (fl_fragments l)[i := (fl_fragments l ! i)\<lparr>fr_defined := False\<rparr>]\<rparr>"

fun fragment_list_advance :: "nat \<Rightarrow> fragment_list \<Rightarrow> fragment_list result" where
  \<comment> \<open>the loop \<open>while (diff > 0)\<close> of \<open>fragment_list_get_buf\<close>\<close>
  "fragment_list_advance 0 l = Inr l"
| "fragment_list_advance (Suc diff) l =
     bind_result (modulo_add (fl_index l) 1 N_FRAG_BUF) (\<lambda>i.
       bind_result (modulo_add (fl_seq_id l) 1 N_SEQ_ID) (\<lambda>s.
         fragment_list_advance diff ((frag_undefine (nat i) l)\<lparr>fl_index := i, fl_seq_id := s\<rparr>)))"

definition fragment_list_get_buf :: "fragment_list \<Rightarrow> int \<Rightarrow> (nat \<times> fragment_list) result" where
  \<comment> \<open>the index of the buffer returned, and the list\<close>
  "fragment_list_get_buf l seq_id =
     bind_result (modulo_subtract seq_id (fl_seq_id l) N_SEQ_ID) (\<lambda>diff.
       let (l, diff) =
         (if \<bar>diff\<bar> \<ge> N_FRAG_BUF
          then (l\<lparr>fl_fragments := map (\<lambda>fr. fr\<lparr>fr_defined := False\<rparr>) (fl_fragments l),
                  fl_index := 0, fl_seq_id := seq_id\<rparr>, 0)
          else (l, diff))
       in bind_result (fragment_list_advance (nat diff) l) (\<lambda>l.
            bind_result (modulo_add (fl_index l) (if diff > 0 then 0 else diff) N_FRAG_BUF) (\<lambda>i.
              Inr (nat i, l))))"

section \<open>Initialization\<close>

fun alloc_bufs :: "(nat \<Rightarrow> nat \<Rightarrow> byte) \<Rightarrow> int \<Rightarrow> fragment list \<Rightarrow> fragment list result" where
  \<comment> \<open>the loop of \<open>fragment_list_buf_init\<close>\<close>
  "alloc_bufs junk sz [] = Inr []"
| "alloc_bufs junk sz (fr # frs) =
     bind_result (alloc_buf (junk 0) sz) (\<lambda>b.
       bind_result (alloc_bufs (\<lambda>i. junk (Suc i)) sz frs) (\<lambda>frs. Inr (fr\<lparr>fr_buf := b\<rparr> # frs)))"

definition fragment_list_buf_init ::
    "(nat \<Rightarrow> nat \<Rightarrow> byte) \<Rightarrow> fragment_list \<Rightarrow> frame \<Rightarrow> fragment_list result" where
  "fragment_list_buf_init junk l frame =
     bind_result (alloc_bufs junk (BUF_SIZE frame) (fl_fragments l)) (\<lambda>frs. Inr (l\<lparr>fl_fragments := frs\<rparr>))"

definition fragment_init :: "int \<Rightarrow> time_t \<Rightarrow> frame \<Rightarrow> fragment_master \<times> frame" where
  \<comment> \<open>\<open>rnd\<close> is the value of \<open>get_random ()\<close>\<close>
  "fragment_init rnd now frame =
     (let frame = frame_add_to_extra_frame frame 4;
          cleared = \<lparr>fr_defined = False, fr_max_frag_size = 0, fr_map = 0, fr_timestamp = 0, fr_buf = clear_buf\<rparr>
      in (\<lparr>fm_wakeup = event_timeout_init \<lparr>et_defined = False, et_n = 0, et_last = 0\<rparr> FRAG_WAKEUP_INTERVAL now,
           fm_received_os_mtu_hint = False, fm_outgoing_seq_id = c_int rnd AND (N_SEQ_ID - 1),
           fm_outgoing_frag_size = 0, fm_outgoing_frag_id = 0, fm_outgoing = clear_buf, fm_outgoing_return = clear_buf,
           fm_incoming = \<lparr>fl_seq_id = 0, fl_index = 0, fl_fragments = replicate (nat N_FRAG_BUF) cleared\<rparr>\<rparr>, frame))"

definition fragment_frame_init ::
    "(nat \<Rightarrow> nat \<Rightarrow> byte) \<Rightarrow> fragment_master \<Rightarrow> frame \<Rightarrow> fragment_master result" where
  "fragment_frame_init junk f frame =
     bind_result (fragment_list_buf_init (\<lambda>i. junk (i + 2)) (fm_incoming f) frame) (\<lambda>l.
       bind_result (alloc_buf (junk 0) (BUF_SIZE frame)) (\<lambda>b0.
         bind_result (alloc_buf (junk 1) (BUF_SIZE frame)) (\<lambda>b1.
           Inr (f\<lparr>fm_incoming := l, fm_outgoing := b0, fm_outgoing_return := b1\<rparr>))))"

section \<open>Receiving\<close>

definition frag_error :: "buffer \<Rightarrow> buffer" where
  \<comment> \<open>the label \<open>error\<close>\<close>
  "frag_error b = b\<lparr>b_len := 0\<rparr>"

definition frag_header_type :: "u32 \<Rightarrow> int" where
  "frag_header_type flags = uint (drop_bit FRAG_TYPE_SHIFT flags AND FRAG_TYPE_MASK)"

definition frag_header_seq_id :: "u32 \<Rightarrow> int" where
  "frag_header_seq_id flags = uint (drop_bit FRAG_SEQ_ID_SHIFT flags AND FRAG_SEQ_ID_MASK)"

definition frag_header_id :: "u32 \<Rightarrow> nat" where
  "frag_header_id flags = unat (drop_bit FRAG_ID_SHIFT flags AND FRAG_ID_MASK)"

definition frag_header_size :: "u32 \<Rightarrow> int" where
  "frag_header_size flags =
     uint (push_bit FRAG_SIZE_ROUND_SHIFT (drop_bit FRAG_SIZE_SHIFT flags AND FRAG_SIZE_MASK))"

definition frag_start :: "frame \<Rightarrow> int \<Rightarrow> fragment \<Rightarrow> fragment result" where
  \<comment> \<open>is this the first fragment for our sequence number?\<close>
  "frag_start frame sz fr =
     (if \<not> fr_defined fr \<or> (fr_defined fr \<and> fr_max_frag_size fr \<noteq> sz)
      then (case buf_init (fr_buf fr) (FRAME_HEADROOM_ADJ frame FRAME_HEADROOM_MARKER_FRAGMENT) of
              (ok, b) \<Rightarrow> assert_that ok
                (Inr (fr\<lparr>fr_defined := True, fr_max_frag_size := sz, fr_map := 0, fr_buf := b\<rparr>)))
      else Inr fr)"

definition frag_join :: "time_t \<Rightarrow> bool \<Rightarrow> nat \<Rightarrow> int \<Rightarrow> fragment \<Rightarrow> buffer \<Rightarrow> buffer \<times> fragment" where
  \<comment> \<open>copy the data, set the bits, and test whether the datagram is complete\<close>
  "frag_join now lst n sz fr b =
     (case buf_copy_range (fr_buf fr) (int n * sz) b 0 (b_len b) of
        (False, d) \<Rightarrow> (frag_error b, fr)
      | (True, d) \<Rightarrow>
          (let fr = fr\<lparr>fr_buf := d, fr_map := fr_map fr OR push_bit n (if lst then FRAG_MAP_MASK else 1),
                       fr_timestamp := now\<rparr>
           in if fr_map fr AND FRAG_MAP_MASK = FRAG_MAP_MASK
              then (fr_buf fr, fr\<lparr>fr_defined := False\<rparr>)
              else (b\<lparr>b_len := 0\<rparr>, fr)))"

definition frag_in_piece ::
    "frame \<Rightarrow> time_t \<Rightarrow> fragment_master \<Rightarrow> u32 \<Rightarrow> buffer \<Rightarrow> (buffer \<times> fragment_master) result" where
  \<comment> \<open>the branch for \<open>FRAG_YES_NOTLAST\<close> and \<open>FRAG_YES_LAST\<close>\<close>
  "frag_in_piece frame now f flags b =
     (let lst = (frag_header_type flags = FRAG_YES_LAST);
          n = frag_header_id flags;
          sz = (if lst then frag_header_size flags else b_len b)
      in bind_result (fragment_list_get_buf (fm_incoming f) (frag_header_seq_id flags)) (\<lambda>(i, l).
           let f = f\<lparr>fm_incoming := l\<rparr>
           in if sz AND FRAG_SIZE_ROUND_MASK \<noteq> 0 then Inr (frag_error b, f)
              else bind_result (frag_start frame sz (fl_fragments l ! i)) (\<lambda>fr.
                     case frag_join now lst n sz fr b of
                       (b, fr) \<Rightarrow> Inr (b, f\<lparr>fm_incoming := l\<lparr>fl_fragments := (fl_fragments l)[i := fr]\<rparr>\<rparr>))))"

definition fragment_incoming ::
    "frame \<Rightarrow> time_t \<Rightarrow> fragment_master \<Rightarrow> buffer \<Rightarrow> (buffer \<times> fragment_master) result" where
  "fragment_incoming frame now f b =
     (if b_len b > 0
      then (case buf_read b 4 of
              (None, b) \<Rightarrow> Inr (frag_error b, f)
            | (Some bs, b) \<Rightarrow>
                (let flags = u32_of_bytes bs; frag_type = frag_header_type flags
                 in if frag_type = FRAG_WHOLE
                    then (if flags AND (FRAG_SEQ_ID_MASK OR FRAG_ID_MASK) \<noteq> 0
                          then Inr (frag_error b, f) else Inr (b, f))
                    else if frag_type = FRAG_YES_NOTLAST \<or> frag_type = FRAG_YES_LAST
                    then frag_in_piece frame now f flags b
                    else Inr (frag_error b, f)))
      else Inr (b, f))"

section \<open>Sending\<close>

definition fragment_flags :: "int \<Rightarrow> int \<Rightarrow> int \<Rightarrow> int \<Rightarrow> u32" where
  \<comment> \<open>the header packed by \<open>fragment_prepend_flags\<close>\<close>
  "fragment_flags type seq_id frag_id frag_size =
     (let flags = push_bit FRAG_TYPE_SHIFT (u32_of_int type AND FRAG_TYPE_MASK)
                  OR push_bit FRAG_SEQ_ID_SHIFT (u32_of_int seq_id AND FRAG_SEQ_ID_MASK)
                  OR push_bit FRAG_ID_SHIFT (u32_of_int frag_id AND FRAG_ID_MASK)
      in if type = FRAG_WHOLE \<or> type = FRAG_YES_NOTLAST then flags
         else flags OR push_bit FRAG_SIZE_SHIFT
                         (u32_of_int (drop_bit FRAG_SIZE_ROUND_SHIFT frag_size) AND FRAG_SIZE_MASK))"

definition fragment_prepend_flags :: "buffer \<Rightarrow> int \<Rightarrow> int \<Rightarrow> int \<Rightarrow> int \<Rightarrow> buffer result" where
  "fragment_prepend_flags b type seq_id frag_id frag_size =
     (case buf_write_prepend b (bytes_of_u32 (fragment_flags type seq_id frag_id frag_size)) of
        (ok, b) \<Rightarrow> assert_that ok (Inr b))"

definition optimal_fragment_size :: "int \<Rightarrow> int \<Rightarrow> int result" where
  "optimal_fragment_size len max_frag_size =
     (let mfs_aligned = max_frag_size AND NOT FRAG_SIZE_ROUND_MASK
      in if mfs_aligned = 0 then Inl DivisionByZero
         else (let dv = c_div len mfs_aligned; md = c_mod len mfs_aligned
               in if dv > 0 \<and> md > 0 \<and> md < c_div (mfs_aligned * 3) 4
                  then Inr (min_int mfs_aligned
                              ((max_frag_size - c_div (max_frag_size - md) (dv + 1) + FRAG_SIZE_ROUND_MASK)
                               AND NOT FRAG_SIZE_ROUND_MASK))
                  else Inr mfs_aligned))"

definition fragment_outgoing_defined :: "fragment_master \<Rightarrow> bool" where
  "fragment_outgoing_defined f \<longleftrightarrow> b_len (fm_outgoing f) > 0"

definition fragment_ready_to_send ::
    "frame \<Rightarrow> fragment_master \<Rightarrow> buffer \<Rightarrow> (bool \<times> buffer \<times> fragment_master) result" where
  "fragment_ready_to_send frame f b =
     (if fragment_outgoing_defined f
      then (let (sz, lst) = (if b_len (fm_outgoing f) \<le> fm_outgoing_frag_size f
                              then (b_len (fm_outgoing f), True) else (fm_outgoing_frag_size f, False))
            in case buf_init (fm_outgoing_return f) (FRAME_HEADROOM frame) of (ok, b) \<Rightarrow>
                 assert_that ok
                   (case buf_copy_n b (fm_outgoing f) sz of (ok, b, out) \<Rightarrow>
                      assert_that ok
                        (bind_result (fragment_prepend_flags b (if lst then FRAG_YES_LAST else FRAG_YES_NOTLAST)
                                        (fm_outgoing_seq_id f) (fm_outgoing_frag_id f) (fm_outgoing_frag_size f)) (\<lambda>b.
                           assert_that (\<not> lst \<or> b_len out = 0)
                             (Inr (True, b, f\<lparr>fm_outgoing := out,
                                              fm_outgoing_frag_id := fm_outgoing_frag_id f + 1\<rparr>))))))
      else Inr (False, b, f))"

definition fragment_outgoing ::
    "frame \<Rightarrow> fragment_master \<Rightarrow> buffer \<Rightarrow> (buffer \<times> fragment_master) result" where
  "fragment_outgoing frame f b =
     (if b_len b > 0
      then (if b_len b > PAYLOAD_SIZE_DYNAMIC frame
            then bind_result (optimal_fragment_size (b_len b) (PAYLOAD_SIZE_DYNAMIC frame)) (\<lambda>fs.
                   let f = f\<lparr>fm_outgoing_frag_size := fs\<rparr>
                   in if b_len b > fs * MAX_FRAGS then Inr (b\<lparr>b_len := 0\<rparr>, f)
                      else (case buf_init (fm_outgoing f) (FRAME_HEADROOM frame) of (ok, out) \<Rightarrow>
                              assert_that ok
                                (case buf_copy out b of (ok, out) \<Rightarrow>
                                   assert_that ok
                                     (bind_result (modulo_add (fm_outgoing_seq_id f) 1 N_SEQ_ID) (\<lambda>s.
                                        bind_result (fragment_ready_to_send frame
                                            (f\<lparr>fm_outgoing := out, fm_outgoing_seq_id := s, fm_outgoing_frag_id := 0\<rparr>)
                                            (b\<lparr>b_len := 0\<rparr>)) (\<lambda>(ready, b, f).
                                          assert_that ready (Inr (b, f))))))))
            else bind_result (fragment_prepend_flags b FRAG_WHOLE 0 0 0) (\<lambda>b. Inr (b, f)))
      else Inr (b, f))"

section \<open>Housekeeping\<close>

definition fragment_ttl_reap :: "time_t \<Rightarrow> fragment_master \<Rightarrow> fragment_master" where
  "fragment_ttl_reap now f =
     f\<lparr>fm_incoming := (fm_incoming f)\<lparr>fl_fragments :=
        map (\<lambda>fr. if fr_defined fr \<and> fr_timestamp fr + FRAG_TTL_SEC \<le> now then fr\<lparr>fr_defined := False\<rparr> else fr)
          (fl_fragments (fm_incoming f))\<rparr>\<rparr>"

definition fragment_wakeup :: "time_t \<Rightarrow> fragment_master \<Rightarrow> fragment_master" where
  "fragment_wakeup now f = fragment_ttl_reap now f"

definition fragment_housekeeping ::
    "time_t \<Rightarrow> fragment_master \<Rightarrow> timeval \<Rightarrow> fragment_master \<times> timeval option" where
  "fragment_housekeeping now f tv =
     (case event_timeout_trigger now (fm_wakeup f) (Some tv) ETT_DEFAULT of
        (fired, et, tv) \<Rightarrow>
          (let f = f\<lparr>fm_wakeup := et\<rparr> in ((if fired then fragment_wakeup now f else f), tv)))"

section \<open>The size of a fragment\<close>

lemma FRAG_SIZE_ROUND_MASK_eq: "FRAG_SIZE_ROUND_MASK = 3"
  by (simp add: FRAG_SIZE_ROUND_MASK_def FRAG_SIZE_ROUND_SHIFT_def push_bit_eq_mult)

lemma and_minus_4: "(x :: int) AND - 4 = 4 * (x div 4)"
proof -
  have "x AND NOT (mask 2) = push_bit 2 (drop_bit 2 x)"
  proof (rule bit_eqI)
    fix n
    show "bit (x AND NOT (mask 2)) n = bit (push_bit 2 (drop_bit 2 x)) n"
      by (cases "n < 2") (auto simp: bit_simps simp flip: Suc_diff_le le_add_diff_inverse2)
  qed
  then show ?thesis by (simp add: mask_eq_exp_minus_1 push_bit_eq_mult drop_bit_eq_div mult.commute)
qed

definition frag_count :: "int \<Rightarrow> int \<Rightarrow> int" where
  \<comment> \<open>the number of fragments of size \<open>fs\<close> that \<open>len\<close> bytes need\<close>
  "frag_count len fs = (len + fs - 1) div fs"

lemma frag_count_eqI:
  assumes "0 < fs" "(q - 1) * fs < len" "len \<le> q * fs"
  shows "frag_count len fs = q"
proof -
  have "(len + fs - 1) div fs = q"
    using assms by (intro int_div_pos_eq [where r = "len - 1 - (q - 1) * fs"]) (auto simp: algebra_simps)
  then show ?thesis by (simp add: frag_count_def)
qed

lemma optimal_fragment_size_bounds:
  assumes "0 < M" "M \<le> mx" "d = len div M" "m = len mod M" "0 < d" "0 < m"
    and "mx - (mx - m) div (d + 1) \<le> fs" "fs \<le> M"
  shows "0 < fs \<and> frag_count len fs = d + 1"
proof -
  have len: "len = d * M + m" using assms by simp
  have "(d + 1) * ((mx - m) div (d + 1)) \<le> mx - m"
    using assms pos_mod_sign [of "d + 1" "mx - m"] mult_div_mod_eq [of "d + 1" "mx - m"] by linarith
  moreover have "(d + 1) * (mx - (mx - m) div (d + 1)) \<le> (d + 1) * fs"
    using assms by (intro mult_left_mono) auto
  ultimately have "(d + 1) * mx - (mx - m) \<le> (d + 1) * fs" by (simp add: right_diff_distrib)
  moreover have "d * M \<le> d * mx" using assms by (intro mult_left_mono) auto
  ultimately have up: "len \<le> (d + 1) * fs" using len by (simp add: distrib_right)
  have pos: "0 < fs"
  proof -
    have "0 < d * M" using assms by simp
    then have "0 < len" using len assms(6) by linarith
    with up have "0 < (d + 1) * fs" by (rule order_less_le_trans [rotated])
    moreover have "0 < d + 1" using assms(5) by linarith
    ultimately show ?thesis by (rule zero_less_mult_pos)
  qed
  have "d * fs \<le> d * M" using assms by (intro mult_left_mono) auto
  then have "d * fs < len" using len assms(6) by linarith
  then have "(d + 1 - 1) * fs < len" by simp
  from frag_count_eqI [OF pos this up] pos show ?thesis by simp
qed

text \<open>The fragment size for a datagram that does not fit: a positive multiple of four, at most
  the limit, and choosing it smaller than the limit, to even out the fragments, never makes more
  fragments than the largest aligned size would.\<close>

theorem optimal_fragment_size_same_count:
  assumes "4 \<le> max_frag_size" "0 < len"
  shows "\<exists>fs. optimal_fragment_size len max_frag_size = Inr fs \<and> 0 < fs \<and> fs \<le> max_frag_size \<and> 4 dvd fs
           \<and> frag_count len fs = frag_count len (max_frag_size AND NOT FRAG_SIZE_ROUND_MASK)"
proof -
  define M d m where "M = 4 * (max_frag_size div 4)" and "d = len div M" and "m = len mod M"
  have M: "4 \<le> M" "M \<le> max_frag_size" "4 dvd M"
    using assms by (auto simp: M_def)
  have al: "max_frag_size AND NOT FRAG_SIZE_ROUND_MASK = M"
    by (simp add: FRAG_SIZE_ROUND_MASK_eq and_minus_4 M_def)
  let ?c = "0 < d \<and> 0 < m \<and> m < c_div (M * 3) 4"
  let ?x = "max_frag_size - (max_frag_size - m) div (d + 1) + 3"
  have m: "0 \<le> m" "m < M" using M assms by (simp_all add: m_def)
  have "0 \<le> d" using M assms by (simp add: d_def pos_imp_zdiv_nonneg_iff)
  then have opt: "optimal_fragment_size len max_frag_size = Inr (if ?c then min M (4 * (?x div 4)) else M)"
    using M assms m unfolding optimal_fragment_size_def al Let_def
    by (simp add: FRAG_SIZE_ROUND_MASK_eq and_minus_4 flip: d_def m_def)
  show ?thesis
  proof (cases ?c)
    case True
    have x: "?x - 3 \<le> 4 * (?x div 4)" using div_mult_mod_eq [of ?x 4] pos_mod_bound [of 4 ?x] by linarith
    let ?fs = "min M (4 * (?x div 4))"
    have "(max_frag_size - m) div (d + 1) \<ge> 0"
      using True m M by (simp add: pos_imp_zdiv_nonneg_iff)
    have fs: "0 < M \<and> frag_count len M = d + 1"
    proof (rule optimal_fragment_size_bounds [of M M d len m])
      show "M - (M - m) div (d + 1) \<le> M" using True m by (simp add: pos_imp_zdiv_nonneg_iff)
    qed (use True M m d_def m_def in auto)
    have "0 < ?fs \<and> frag_count len ?fs = d + 1"
    proof (cases "M \<le> 4 * (?x div 4)")
      case True
      with fs show ?thesis by simp
    next
      case le: False
      then have "?fs = 4 * (?x div 4)" by simp
      with le x True M show ?thesis
        using optimal_fragment_size_bounds [of M max_frag_size d len m "4 * (?x div 4)"] by (simp add: d_def m_def)
    qed
    moreover have "4 dvd ?fs" using M by (simp add: min_def)
    moreover have "?fs \<le> max_frag_size" using M by simp
    ultimately show ?thesis using True opt al fs by auto
  next
    case False
    with opt al M show ?thesis by auto
  qed
qed

theorem optimal_fragment_size_same_count_witness:
  "\<exists>fs. optimal_fragment_size 3001 1473 = Inr fs \<and> fs = 1004 \<and> frag_count 3001 fs = 3"
proof -
  have "optimal_fragment_size 3001 1473 = Inr 1004" by code_simp
  moreover have "frag_count 3001 (1473 AND NOT FRAG_SIZE_ROUND_MASK) = 3" by code_simp
  ultimately show ?thesis using optimal_fragment_size_same_count [of 1473 3001] by simp
qed

section \<open>The header\<close>

lemmas frag_layout = FRAG_TYPE_MASK_def FRAG_TYPE_SHIFT_def FRAG_SEQ_ID_MASK_def FRAG_SEQ_ID_SHIFT_def
  FRAG_ID_MASK_def FRAG_ID_SHIFT_def FRAG_SIZE_MASK_def FRAG_SIZE_SHIFT_def FRAG_SIZE_ROUND_SHIFT_def

lemmas frag_types = FRAG_WHOLE_def FRAG_YES_NOTLAST_def FRAG_YES_LAST_def FRAG_TEST_def

lemma and_masks:
  "(w :: u32) AND 3 = take_bit 2 w" "w AND 0xff = take_bit 8 w" "w AND 0x1f = take_bit 5 w"
  "w AND 0x3fff = take_bit 14 w"
  by (simp_all add: take_bit_eq_mask mask_eq_exp_minus_1)

definition frag_pack :: "u32 \<Rightarrow> u32 \<Rightarrow> u32 \<Rightarrow> u32 \<Rightarrow> u32" where
  "frag_pack t s i z = push_bit 0 (take_bit 2 t) OR push_bit 2 (take_bit 8 s) OR push_bit 10 (take_bit 5 i)
     OR push_bit 15 (take_bit 14 z)"

lemma frag_pack_fields:
  "take_bit 2 (drop_bit 0 (frag_pack t s i z)) = take_bit 2 t"
  "take_bit 8 (drop_bit 2 (frag_pack t s i z)) = take_bit 8 s"
  "take_bit 5 (drop_bit 10 (frag_pack t s i z)) = take_bit 5 i"
  "take_bit 14 (drop_bit 15 (frag_pack t s i z)) = take_bit 14 z"
  by (rule bit_word_eqI; auto simp: frag_pack_def bit_simps)+

lemma uint_take_bit_u32: "0 \<le> x \<Longrightarrow> x < 2 ^ n \<Longrightarrow> n \<le> 32 \<Longrightarrow> uint (take_bit n (u32_of_int x)) = x"
proof -
  assume x: "0 \<le> x" "x < 2 ^ n" "n \<le> 32"
  then have "x < 2 ^ 32" using power_increasing [of n 32 "2 :: int"] by linarith
  with x show ?thesis by (simp add: u32_of_int_def unsigned_take_bit_eq take_bit_int_eq_self_iff uint_word_of_int)
qed

lemma fragment_flags_pack:
  "fragment_flags type seq i fs
     = frag_pack (u32_of_int type) (u32_of_int seq) (u32_of_int i)
         (if type = FRAG_WHOLE \<or> type = FRAG_YES_NOTLAST then 0 else u32_of_int (drop_bit 2 fs))"
  by (simp add: fragment_flags_def frag_pack_def frag_layout and_masks Let_def or.assoc)

lemma fragment_flags_fields [simp]:
  assumes "0 \<le> type" "type < 4"
  shows "frag_header_type (fragment_flags type seq i fs) = type"
    and "0 \<le> seq \<Longrightarrow> seq < 256 \<Longrightarrow> frag_header_seq_id (fragment_flags type seq i fs) = seq"
    and "0 \<le> i \<Longrightarrow> i < 32 \<Longrightarrow> frag_header_id (fragment_flags type seq i fs) = nat i"
  using assms frag_pack_fields
  by (simp_all add: frag_header_type_def frag_header_seq_id_def frag_header_id_def fragment_flags_pack
        frag_layout and_masks uint_take_bit_u32 unat_eq_nat_uint del: drop_bit_0)

lemma frag_header_size_flags [simp]:
  assumes "0 \<le> fs" "fs < 65536" "4 dvd fs"
  shows "frag_header_size (fragment_flags FRAG_YES_LAST seq i fs) = fs"
proof -
  let ?z = "drop_bit 2 fs"
  have z: "0 \<le> ?z" "?z < 2 ^ 14" "push_bit 2 ?z = fs"
    using assms by (auto simp: drop_bit_eq_div push_bit_eq_mult)
  have t: "uint (take_bit 14 (u32_of_int ?z)) = ?z" using z by (intro uint_take_bit_u32) auto
  have "frag_header_size (fragment_flags FRAG_YES_LAST seq i fs) = uint (push_bit 2 (take_bit 14 (u32_of_int ?z)))"
    using frag_pack_fields(4)
    by (simp add: frag_header_size_def fragment_flags_pack frag_layout and_masks frag_types)
  also have "\<dots> = take_bit 32 (push_bit 2 ?z)"
    by (simp add: t unsigned_push_bit_eq)
  also have "\<dots> = fs" using z assms by (simp add: take_bit_int_eq_self)
  finally show ?thesis .
qed

lemma frag_header_ranges [simp]:
  "0 \<le> frag_header_seq_id w" "frag_header_seq_id w < 256" "frag_header_id w < 32"
  "0 \<le> frag_header_size w" "0 \<le> frag_header_type w" "frag_header_type w < 4"
proof -
  show "frag_header_seq_id w < 256"
    unfolding frag_header_seq_id_def frag_layout and_masks unsigned_take_bit_eq
    by (rule order_less_le_trans [OF take_bit_int_less_exp]) simp
  show "frag_header_type w < 4"
    unfolding frag_header_type_def frag_layout and_masks unsigned_take_bit_eq
    by (rule order_less_le_trans [OF take_bit_int_less_exp]) simp
  have "unat (take_bit 5 (drop_bit 10 w)) < 2 ^ 5"
    unfolding unsigned_take_bit_eq by (rule take_bit_nat_less_exp)
  then show "frag_header_id w < 32" by (simp add: frag_header_id_def frag_layout and_masks)
qed (simp_all add: frag_header_seq_id_def frag_header_size_def frag_header_type_def)

lemma frag_whole_ignores_id:
  \<comment> \<open>the masks are not shifted, so the test for spurious flags misses the fragment id\<close>
  "fragment_flags FRAG_WHOLE 0 31 0 AND (FRAG_SEQ_ID_MASK OR FRAG_ID_MASK) = 0"
  by code_simp

section \<open>The window\<close>

text \<open>
  While the sequence numbers in use lie in a stretch of 25 consecutive ones that starts at
  \<open>base\<close>, the number \<open>base + e\<close> always has the buffer \<open>frag_slot c e\<close>: head and index move together.
\<close>

definition frag_slot :: "int \<Rightarrow> int \<Rightarrow> nat" where
  "frag_slot c e = nat ((c + e) mod 25)"

definition frag_window :: "int \<Rightarrow> int \<Rightarrow> int \<Rightarrow> fragment_list \<Rightarrow> bool" where
  "frag_window base c h l \<longleftrightarrow> 0 \<le> h \<and> h < 25 \<and> fl_seq_id l = (base + h) mod 256 \<and> fl_index l = (c + h) mod 25
     \<and> length (fl_fragments l) = 25"

definition frag_cleared :: "nat set \<Rightarrow> fragment list \<Rightarrow> fragment list \<Rightarrow> bool" where
  \<comment> \<open>the second list is the first with the buffers of the set given up\<close>
  "frag_cleared S frs frs' \<longleftrightarrow> length frs' = length frs \<and>
     (\<forall>i < length frs. frs' ! i = (if i \<in> S then (frs ! i)\<lparr>fr_defined := False\<rparr> else frs ! i))"

lemma frag_slot_less [simp]: "frag_slot c e < 25"
  by (simp add: frag_slot_def nat_less_iff)

lemma frag_slot_inj:
  assumes "0 \<le> e" "e < 25" "0 \<le> e'" "e' < 25" "frag_slot c e = frag_slot c e'"
  shows "e = e'"
proof -
  have "(c + e) mod 25 = (c + e') mod 25"
    using assms(5) by (simp add: frag_slot_def eq_nat_nat_iff)
  then have "25 dvd e - e'" by (metis add_diff_cancel_left mod_eq_dvd_iff)
  moreover have "\<bar>e - e'\<bar> < 25" using assms by linarith
  ultimately show ?thesis using zdvd_not_zless [of "\<bar>e - e'\<bar>" 25] by (cases "e = e'") auto
qed

lemma frag_cleared_trans:
  "frag_cleared S a b \<Longrightarrow> frag_cleared T b c \<Longrightarrow> frag_cleared (S \<union> T) a c"
  by (auto simp: frag_cleared_def)

lemma frag_cleared_refl [simp]: "frag_cleared {} a a"
  by (simp add: frag_cleared_def)

lemma frag_undefine_cleared:
  "i < length (fl_fragments l) \<Longrightarrow> frag_cleared {i} (fl_fragments l) (fl_fragments (frag_undefine i l))"
  by (auto simp: frag_undefine_def frag_cleared_def nth_list_update)

lemma mod_add_one: "((x :: int) mod m + 1) mod m = (x + 1) mod m"
  by (simp add: mod_add_left_eq)

lemma fragment_list_advance_window:
  assumes "frag_window base c h l" "h + int d < 25"
  shows "\<exists>l'. fragment_list_advance d l = Inr l' \<and> frag_window base c (h + int d) l'
           \<and> frag_cleared (frag_slot c ` {h<..h + int d}) (fl_fragments l) (fl_fragments l')"
  using assms
proof (induction d arbitrary: h l)
  case 0
  then show ?case by simp
next
  case (Suc d)
  have w: "0 \<le> h" "h < 25" "fl_seq_id l = (base + h) mod 256" "fl_index l = (c + h) mod 25"
      "length (fl_fragments l) = 25"
    using Suc.prems by (simp_all add: frag_window_def)
  let ?i = "(c + (h + 1)) mod 25" and ?s = "(base + (h + 1)) mod 256"
  let ?l = "(frag_undefine (nat ?i) l)\<lparr>fl_index := ?i, fl_seq_id := ?s\<rparr>"
  have i: "modulo_add (fl_index l) 1 N_FRAG_BUF = Inr ?i"
    using w by (simp add: N_FRAG_BUF_def modulo_add_mod mod_add_one add.assoc)
  have s: "modulo_add (fl_seq_id l) 1 N_SEQ_ID = Inr ?s"
    using w by (simp add: N_SEQ_ID_def modulo_add_mod mod_add_one add.assoc)
  have cl: "frag_cleared {frag_slot c (h + 1)} (fl_fragments l) (fl_fragments ?l)"
    using frag_undefine_cleared [of "nat ?i" l] w by (simp add: frag_slot_def nat_less_iff)
  then have "frag_window base c (h + 1) ?l"
    using w Suc.prems(2) by (simp add: frag_window_def frag_cleared_def)
  from Suc.IH [OF this] Suc.prems(2) obtain l' where l': "fragment_list_advance d ?l = Inr l'"
      "frag_window base c (h + 1 + int d) l'"
      "frag_cleared (frag_slot c ` {h + 1<..h + 1 + int d}) (fl_fragments ?l) (fl_fragments l')"
    by auto
  have "{h<..h + int (Suc d)} = insert (h + 1) {h + 1<..h + 1 + int d}" by auto
  then have "frag_cleared (frag_slot c ` {h<..h + int (Suc d)}) (fl_fragments l) (fl_fragments l')"
    using frag_cleared_trans [OF cl l'(3)] by simp
  with l' i s show ?case by (auto simp: algebra_simps)
qed

lemma modulo_subtract_window:
  assumes "0 \<le> e" "e < 25" "0 \<le> h" "h < 25"
  shows "modulo_subtract ((base + e) mod 256) ((base + h) mod 256) N_SEQ_ID = Inr (e - h)"
proof -
  let ?x = "(base + e) mod 256" and ?y = "(base + h) mod 256"
  obtain d where d: "modulo_subtract ?x ?y 256 = Inr d" "(?y + d) mod 256 = ?x" "2 * \<bar>d\<bar> \<le> 256"
    using modulo_subtract_shortest [of ?x 256 ?y] by auto
  have "(base + h + d) mod 256 = (base + e) mod 256" using d(2) by (simp add: mod_add_left_eq)
  then have "256 dvd (base + h + d) - (base + e)" by (simp add: mod_eq_dvd_iff)
  then have "256 dvd d - (e - h)" by (simp add: algebra_simps)
  moreover have "\<bar>d - (e - h)\<bar> < 256" using d(3) assms by linarith
  ultimately have "d = e - h" using zdvd_not_zless [of "\<bar>d - (e - h)\<bar>" 256] by (cases "d = e - h") auto
  with d(1) show ?thesis by (simp add: N_SEQ_ID_def)
qed

lemma fragment_list_get_buf_window:
  assumes "frag_window base c h l" "0 \<le> e" "e < 25"
  shows "\<exists>l'. fragment_list_get_buf l ((base + e) mod 256) = Inr (frag_slot c e, l')
           \<and> frag_window base c (max h e) l'
           \<and> frag_cleared (frag_slot c ` {h<..e}) (fl_fragments l) (fl_fragments l')"
proof -
  have w: "0 \<le> h" "h < 25" "fl_seq_id l = (base + h) mod 256" "fl_index l = (c + h) mod 25"
    using assms by (simp_all add: frag_window_def)
  have sub: "modulo_subtract ((base + e) mod 256) (fl_seq_id l) N_SEQ_ID = Inr (e - h)"
    using modulo_subtract_window [of e h base] assms w by simp
  show ?thesis
  proof (cases "h < e")
    case True
    then obtain l' where l': "fragment_list_advance (nat (e - h)) l = Inr l'" "frag_window base c e l'"
        "frag_cleared (frag_slot c ` {h<..e}) (fl_fragments l) (fl_fragments l')"
      using fragment_list_advance_window [OF assms(1), of "nat (e - h)"] assms by auto
    moreover have "fl_index l' = (c + e) mod 25" using l'(2) by (simp add: frag_window_def)
    ultimately show ?thesis using sub True w assms
      by (simp add: fragment_list_get_buf_def Let_def N_FRAG_BUF_def modulo_add_mod frag_slot_def)
  next
    case False
    have "((c + h) mod 25 + (e - h)) mod 25 = (c + e) mod 25"
      by (simp add: mod_add_left_eq)
    then have "modulo_add (fl_index l) (e - h) 25 = Inr ((c + e) mod 25)"
      using False w assms by (simp add: modulo_add_mod)
    with sub False w assms show ?thesis
      by (simp add: fragment_list_get_buf_def Let_def N_FRAG_BUF_def frag_slot_def)
  qed
qed

section \<open>The receiver's invariant\<close>

definition frame_ok :: "frame \<Rightarrow> bool" where
  "frame_ok f \<longleftrightarrow> 0 \<le> f_extra_frame f \<and> 4 \<le> f_extra_buffer f \<and> 0 \<le> f_extra_tun f \<and> 0 \<le> f_extra_link f
     \<and> 100 \<le> TUN_MTU_SIZE f \<and> BUF_SIZE f < BUF_SIZE_MAX \<and> f_link_mtu_dynamic f \<le> f_link_mtu f"

lemma frame_ok_headroom:
  assumes "frame_ok f"
  shows "0 \<le> frame_headroom f m" "f_extra_frame f \<le> frame_headroom f m"
    "frame_headroom f m + PAYLOAD_SIZE f + f_extra_frame f \<le> BUF_SIZE f" "frame_headroom f m \<le> BUF_SIZE f"
    "BUF_SIZE f < BUF_SIZE_MAX" "PAYLOAD_SIZE_DYNAMIC f \<le> PAYLOAD_SIZE f"
  using assms frame_headroom_bounds [of f m] by (auto simp: frame_ok_def frame_sizes)

definition frag_list_ok :: "frame \<Rightarrow> fragment_list \<Rightarrow> bool" where
  "frag_list_ok frame l \<longleftrightarrow> length (fl_fragments l) = 25 \<and> 0 \<le> fl_seq_id l \<and> fl_seq_id l < 256
     \<and> 0 \<le> fl_index l \<and> fl_index l < 25
     \<and> (\<forall>fr \<in> set (fl_fragments l). buf_ok (fr_buf fr) \<and> b_capacity (fr_buf fr) = BUF_SIZE frame)"

lemma frag_list_ok_window:
  "frag_list_ok frame l \<Longrightarrow> frag_window (fl_seq_id l) (fl_index l) 0 l"
  by (simp add: frag_list_ok_def frag_window_def)

lemma frag_list_ok_nth:
  "frag_list_ok frame l \<Longrightarrow> i < 25 \<Longrightarrow>
   buf_ok (fr_buf (fl_fragments l ! i)) \<and> b_capacity (fr_buf (fl_fragments l ! i)) = BUF_SIZE frame"
  by (simp add: frag_list_ok_def)

lemma frag_list_ok_update:
  assumes "frag_list_ok frame l" "buf_ok (fr_buf fr)" "b_capacity (fr_buf fr) = BUF_SIZE frame"
  shows "frag_list_ok frame (l\<lparr>fl_fragments := (fl_fragments l)[i := fr]\<rparr>)"
  using assms by (auto simp: frag_list_ok_def dest: set_update_subset_insert [THEN subsetD])

lemma frag_cleared_buf:
  "frag_cleared S frs frs' \<Longrightarrow> i < length frs \<Longrightarrow> fr_buf (frs' ! i) = fr_buf (frs ! i)"
  by (auto simp: frag_cleared_def)

lemma frag_list_ok_cleared:
  assumes "frag_list_ok frame l" "frag_cleared S (fl_fragments l) (fl_fragments l')"
    and "0 \<le> fl_seq_id l'" "fl_seq_id l' < 256" "0 \<le> fl_index l'" "fl_index l' < 25"
  shows "frag_list_ok frame l'"
proof -
  have len: "length (fl_fragments l') = 25"
    using assms(1,2) by (simp add: frag_list_ok_def frag_cleared_def)
  have "buf_ok (fr_buf (fl_fragments l' ! i)) \<and> b_capacity (fr_buf (fl_fragments l' ! i)) = BUF_SIZE frame"
    if "i < 25" for i
    using frag_list_ok_nth [OF assms(1) that] frag_cleared_buf [OF assms(2), of i] that assms(1)
    by (simp add: frag_list_ok_def)
  with len assms(3-) show ?thesis by (auto simp: frag_list_ok_def in_set_conv_nth)
qed

lemma frag_window_ranges:
  "frag_window base c h l \<Longrightarrow> 0 \<le> fl_seq_id l \<and> fl_seq_id l < 256 \<and> 0 \<le> fl_index l \<and> fl_index l < 25"
  by (simp add: frag_window_def)

lemma modulo_subtract_N_SEQ_ID:
  assumes "0 \<le> x" "x < 256" "0 \<le> y" "y < 256"
  obtains d where "modulo_subtract x y N_SEQ_ID = Inr d" "(y + d) mod 256 = x"
  using modulo_subtract_shortest [of x 256 y] assms by (auto simp: N_SEQ_ID_def)

lemma fragment_list_get_buf_ok:
  assumes l: "frag_list_ok frame l" and s: "0 \<le> s" "s < 256"
  shows "\<exists>i l'. fragment_list_get_buf l s = Inr (i, l') \<and> i < 25 \<and> frag_list_ok frame l'"
proof -
  have r: "0 \<le> fl_seq_id l" "fl_seq_id l < 256" "0 \<le> fl_index l" "fl_index l < 25" "length (fl_fragments l) = 25"
    using l by (simp_all add: frag_list_ok_def)
  obtain d where d: "modulo_subtract s (fl_seq_id l) N_SEQ_ID = Inr d" "(fl_seq_id l + d) mod 256 = s"
    using modulo_subtract_N_SEQ_ID [OF s r(1,2)] by blast
  consider "25 \<le> \<bar>d\<bar>" | "0 < d" "d < 25" | "- 25 < d" "d \<le> 0" by linarith
  then show ?thesis
  proof cases
    case 1
    have "frag_list_ok frame (l\<lparr>fl_fragments := map (\<lambda>fr. fr\<lparr>fr_defined := False\<rparr>) (fl_fragments l), fl_index := 0, fl_seq_id := s\<rparr>)"
      using l s by (auto simp: frag_list_ok_def)
    with 1 d show ?thesis
      by (simp add: fragment_list_get_buf_def Let_def N_FRAG_BUF_def modulo_add_mod)
  next
    case 2
    obtain l' where l': "fragment_list_advance (nat d) l = Inr l'" "frag_window (fl_seq_id l) (fl_index l) d l'"
        "frag_cleared (frag_slot (fl_index l) ` {0<..d}) (fl_fragments l) (fl_fragments l')"
      using fragment_list_advance_window [OF frag_list_ok_window [OF l], of "nat d"] 2 by auto
    have "frag_list_ok frame l'"
      using frag_list_ok_cleared [OF l l'(3)] frag_window_ranges [OF l'(2)] by simp
    moreover have "0 \<le> fl_index l'" "fl_index l' < 25" using frag_window_ranges [OF l'(2)] by simp_all
    ultimately show ?thesis using 2 d l'
      by (simp add: fragment_list_get_buf_def Let_def N_FRAG_BUF_def modulo_add_mod nat_less_iff)
  next
    case 3
    with d l r show ?thesis
      by (simp add: fragment_list_get_buf_def Let_def N_FRAG_BUF_def modulo_add_mod nat_less_iff)
  qed
qed

lemma buf_copy_range_whole:
  assumes "buf_ok d" "buf_ok b" "0 \<le> i"
  shows "if b_offset d + i + b_len b \<le> b_capacity d
         then \<exists>d'. buf_copy_range d i b 0 (b_len b) = (True, d') \<and> buf_ok d' \<and> b_capacity d' = b_capacity d
                \<and> b_offset d' = b_offset d \<and> b_len d' = max (b_len d) (i + b_len b)
                \<and> buf_block d' = mem_write (buf_block d) (nat (b_offset d + i)) (buf_contents b)
         else buf_copy_range d i b 0 (b_len b) = (False, d)"
proof (cases "b_offset d + i + b_len b \<le> b_capacity d")
  case True
  have inv: "0 \<le> b_offset d" "0 \<le> b_len d" "b_offset d + b_len d \<le> b_capacity d" "b_data d \<noteq> None"
      "int (length (buf_block d)) = b_capacity d" "b_capacity d < BUF_SIZE_MAX" "0 \<le> b_len b"
    using assms by (auto simp: buf_ok_def)
  let ?d = "buf_put d (b_offset d + i) (buf_contents b)"
  let ?r = "if i + b_len b > b_len ?d then ?d\<lparr>b_len := i + b_len b\<rparr> else ?d"
  have read: "mem_read (buf_block b) (nat (b_offset b)) (nat (b_len b)) = buf_contents b"
    using assms(2) by (simp add: buf_contents_def)
  have cp: "buf_copy_range d i b 0 (b_len b) = (True, ?r)"
    using True assms(3) inv by (simp add: buf_copy_range_def Let_def read)
  have len: "length (buf_contents b) = nat (b_len b)" using assms(2) by simp
  have "length (buf_block ?d) = length (buf_block d)"
    using True inv assms(3) len by (simp add: nat_le_iff)
  moreover have "b_data ?d \<noteq> None" using inv by (simp del: not_None_eq)
  ultimately have "buf_ok ?r" using True assms(3) inv by (simp add: buf_ok_def del: not_None_eq)
  moreover have "buf_block ?r = mem_write (buf_block d) (nat (b_offset d + i)) (buf_contents b)"
    using inv by simp
  ultimately show ?thesis using True cp by (simp add: max_def)
next
  case False
  then show ?thesis using assms by (simp add: buf_copy_range_def buf_ok_def)
qed

lemma buf_ok_truncate: "buf_ok b \<Longrightarrow> buf_ok (b\<lparr>b_len := 0\<rparr>)"
  by (simp add: buf_ok_def)

lemma frag_start_ok:
  assumes "frame_ok frame" "buf_ok (fr_buf fr)" "b_capacity (fr_buf fr) = BUF_SIZE frame"
  shows "\<exists>fr'. frag_start frame sz fr = Inr fr' \<and> buf_ok (fr_buf fr') \<and> b_capacity (fr_buf fr') = BUF_SIZE frame"
proof -
  let ?h = "frame_headroom frame FRAME_HEADROOM_MARKER_FRAGMENT"
  obtain b where "buf_init (fr_buf fr) ?h = (True, b)" "buf_ok b" "b_capacity b = BUF_SIZE frame"
    using buf_init_ok [OF assms(2), of ?h] frame_ok_headroom [OF assms(1)] assms(3) by auto
  then show ?thesis using assms by (simp add: frag_start_def FRAME_HEADROOM_ADJ_def)
qed

lemma frag_join_ok:
  assumes "frame_ok frame" "buf_ok (fr_buf fr)" "b_capacity (fr_buf fr) = BUF_SIZE frame" "buf_ok b" "0 \<le> sz"
    and "frag_join now lst n sz fr b = (b', fr')"
  shows "buf_ok b' \<and> buf_ok (fr_buf fr') \<and> b_capacity (fr_buf fr') = BUF_SIZE frame"
proof -
  have "0 \<le> int n * sz" using assms(5) by simp
  from buf_copy_range_whole [OF assms(2,4) this] assms show ?thesis
    by (auto simp: frag_join_def frag_error_def buf_ok_truncate Let_def split: if_splits)
qed

text \<open>C29. Robustness of the reassembly: no packet, whatever its header and length, makes
  \<open>fragment_incoming\<close> fail an assertion or step outside a buffer, and what it hands on is a
  well-formed buffer.\<close>

theorem fragment_incoming_total:
  assumes "frame_ok frame" "frag_list_ok frame (fm_incoming f)" "buf_ok b"
  shows "\<exists>b' f'. fragment_incoming frame now f b = Inr (b', f') \<and> buf_ok b' \<and> frag_list_ok frame (fm_incoming f')"
proof -
  consider "b_len b \<le> 0" | "0 < b_len b" "length (buf_contents b) < 4" | "4 \<le> length (buf_contents b)" "0 < b_len b"
    using length_buf_contents [OF assms(3)] by linarith
  then show ?thesis
  proof cases
    case 1
    with assms show ?thesis by (simp add: fragment_incoming_def)
  next
    case 2
    with assms buf_read_short [OF assms(3), of 4] show ?thesis
      by (simp add: fragment_incoming_def frag_error_def buf_ok_truncate)
  next
    case 3
    obtain b1 where b1: "buf_read b 4 = (Some (take 4 (buf_contents b)), b1)" "buf_ok b1"
      using buf_read_ok [OF assms(3) 3(1)] by auto
    define flags where "flags = u32_of_bytes (take 4 (buf_contents b))"
    have piece: "\<exists>b' f'. frag_in_piece frame now f flags b1 = Inr (b', f') \<and> buf_ok b' \<and> frag_list_ok frame (fm_incoming f')"
    proof -
      obtain i l where l: "fragment_list_get_buf (fm_incoming f) (frag_header_seq_id flags) = Inr (i, l)" "i < 25"
          "frag_list_ok frame l"
        using fragment_list_get_buf_ok [OF assms(2), of "frag_header_seq_id flags"] by auto
      define sz where "sz = (if frag_header_type flags = FRAG_YES_LAST then frag_header_size flags else b_len b1)"
      have "0 \<le> sz" using b1(2) by (simp add: sz_def buf_ok_def)
      obtain fr where fr: "frag_start frame sz (fl_fragments l ! i) = Inr fr" "buf_ok (fr_buf fr)" "b_capacity (fr_buf fr) = BUF_SIZE frame"
        using frag_start_ok [OF assms(1)] frag_list_ok_nth [OF l(3,2)] by blast
      obtain b' fr' where j: "frag_join now (frag_header_type flags = FRAG_YES_LAST) (frag_header_id flags) sz fr b1 = (b', fr')"
        by fastforce
      from frag_join_ok [OF assms(1) fr(2,3) b1(2) \<open>0 \<le> sz\<close> j] frag_list_ok_update [OF l(3)] l fr(1) j b1(2)
      show ?thesis
        by (simp add: frag_in_piece_def Let_def frag_error_def buf_ok_truncate flip: sz_def)
    qed
    show ?thesis using 3 b1 piece assms(2)
      by (simp add: fragment_incoming_def frag_error_def buf_ok_truncate Let_def flip: flags_def)
  qed
qed

section \<open>Reassembly\<close>

definition frag_pieces :: "byte list \<Rightarrow> nat \<Rightarrow> nat" where
  "frag_pieces ds fs = (length ds + fs - 1) div fs"

definition frag_piece :: "byte list \<Rightarrow> nat \<Rightarrow> nat \<Rightarrow> byte list" where
  "frag_piece ds fs i = take fs (drop (i * fs) ds)"

definition frag_packet :: "int \<Rightarrow> byte list \<Rightarrow> nat \<Rightarrow> nat \<Rightarrow> byte list" where
  \<comment> \<open>fragment \<open>i\<close> of the datagram \<open>ds\<close> as it travels\<close>
  "frag_packet seq ds fs i =
     bytes_of_u32 (fragment_flags (if Suc i = frag_pieces ds fs then FRAG_YES_LAST else FRAG_YES_NOTLAST)
                     seq (int i) (int fs)) @ frag_piece ds fs i"

lemma frag_pieces_bounds:
  assumes "0 < fs" "0 < length ds"
  shows "0 < frag_pieces ds fs" "length ds \<le> frag_pieces ds fs * fs" "(frag_pieces ds fs - 1) * fs < length ds"
proof -
  let ?n = "length ds + fs - 1"
  have "?n = frag_pieces ds fs * fs + ?n mod fs" by (simp add: frag_pieces_def)
  moreover have "?n mod fs < fs" using assms by simp
  ultimately show "length ds \<le> frag_pieces ds fs * fs" using assms by linarith
  then show p: "0 < frag_pieces ds fs" using assms by (cases "frag_pieces ds fs") auto
  have "frag_pieces ds fs * fs \<le> ?n" by (simp add: frag_pieces_def)
  moreover have "(frag_pieces ds fs - 1) * fs + fs = frag_pieces ds fs * fs"
    using p by (cases "frag_pieces ds fs") auto
  ultimately show "(frag_pieces ds fs - 1) * fs < length ds" using assms by linarith
qed

lemma length_frag_piece:
  "length (frag_piece ds fs i) = min fs (length ds - i * fs)"
  by (simp add: frag_piece_def)

lemma frag_piece_full:
  assumes "0 < fs" "0 < length ds" "Suc i < frag_pieces ds fs"
  shows "length (frag_piece ds fs i) = fs" "Suc i * fs < length ds"
proof -
  have "Suc i * fs \<le> (frag_pieces ds fs - 1) * fs" using assms by (intro mult_right_mono) auto
  also have "\<dots> < length ds" using frag_pieces_bounds [OF assms(1,2)] by simp
  finally show "Suc i * fs < length ds" .
  then show "length (frag_piece ds fs i) = fs" by (simp add: length_frag_piece)
qed

lemma frag_piece_end:
  assumes "0 < fs" "0 < length ds" "i < frag_pieces ds fs"
  shows "i * fs < length ds" "i * fs + length (frag_piece ds fs i) \<le> length ds"
    "Suc i = frag_pieces ds fs \<Longrightarrow> i * fs + length (frag_piece ds fs i) = length ds"
proof -
  have "i * fs \<le> (frag_pieces ds fs - 1) * fs" using assms by (intro mult_right_mono) auto
  also have "\<dots> < length ds" using frag_pieces_bounds [OF assms(1,2)] by simp
  finally show *: "i * fs < length ds" .
  then show "i * fs + length (frag_piece ds fs i) \<le> length ds" by (simp add: length_frag_piece)
  show "i * fs + length (frag_piece ds fs i) = length ds" if "Suc i = frag_pieces ds fs"
    using * frag_pieces_bounds [OF assms(1,2)] that[symmetric] by (simp add: length_frag_piece)
qed

definition frag_built :: "frame \<Rightarrow> byte list \<Rightarrow> nat \<Rightarrow> time_t \<Rightarrow> nat set \<Rightarrow> fragment \<Rightarrow> bool" where
  \<comment> \<open>an assembly buffer that holds the fragments \<open>got\<close> of the datagram\<close>
  "frag_built frame ds fs t0 got fr \<longleftrightarrow>
     fr_defined fr \<and> fr_max_frag_size fr = int fs \<and> (got \<noteq> {} \<longrightarrow> t0 \<le> fr_timestamp fr)
     \<and> buf_ok (fr_buf fr) \<and> b_capacity (fr_buf fr) = BUF_SIZE frame
     \<and> b_offset (fr_buf fr) = frame_headroom frame FRAME_HEADROOM_MARKER_FRAGMENT
     \<and> (\<forall>n < 32. bit (fr_map fr) n \<longleftrightarrow> n \<in> got \<or> (frag_pieces ds fs - 1 \<le> n \<and> frag_pieces ds fs - 1 \<in> got))
     \<and> (\<forall>j < length ds. j div fs \<in> got \<longrightarrow> buf_block (fr_buf fr) ! (nat (b_offset (fr_buf fr)) + j) = ds ! j)
     \<and> b_len (fr_buf fr) \<le> int (length ds)
     \<and> (frag_pieces ds fs - 1 \<in> got \<longrightarrow> b_len (fr_buf fr) = int (length ds))"

definition frag_asm :: "frame \<Rightarrow> byte list \<Rightarrow> nat \<Rightarrow> time_t \<Rightarrow> nat set \<Rightarrow> fragment \<Rightarrow> bool" where
  "frag_asm frame ds fs t0 got fr \<longleftrightarrow> buf_ok (fr_buf fr) \<and> b_capacity (fr_buf fr) = BUF_SIZE frame
     \<and> (if got = {} then \<not> fr_defined fr else frag_built frame ds fs t0 got fr)"

lemma frag_start_built:
  assumes "frame_ok frame" "frag_asm frame ds fs t0 got fr"
  shows "\<exists>fr'. frag_start frame (int fs) fr = Inr fr' \<and> frag_built frame ds fs t0 got fr'"
proof (cases "got = {}")
  case True
  let ?h = "frame_headroom frame FRAME_HEADROOM_MARKER_FRAGMENT"
  have "\<not> fr_defined fr" and ok: "buf_ok (fr_buf fr)" "b_capacity (fr_buf fr) = BUF_SIZE frame"
    using assms(2) True by (auto simp: frag_asm_def)
  moreover obtain b where "buf_init (fr_buf fr) ?h = (True, b)" "buf_ok b" "b_capacity b = BUF_SIZE frame"
      "b_offset b = ?h" "b_len b = 0"
    using buf_init_ok [OF ok(1), of ?h] frame_ok_headroom [OF assms(1)] ok(2) by auto
  ultimately show ?thesis
    using True by (simp add: frag_start_def FRAME_HEADROOM_ADJ_def frag_built_def)
next
  case False
  with assms(2) have "frag_built frame ds fs t0 got fr" by (simp add: frag_asm_def)
  moreover from this have "frag_start frame (int fs) fr = Inr fr" by (simp add: frag_start_def frag_built_def)
  ultimately show ?thesis by simp
qed

lemma frag_map_full:
  "(w :: u32) AND FRAG_MAP_MASK = FRAG_MAP_MASK \<longleftrightarrow> (\<forall>n < 32. bit w n)"
proof -
  have "FRAG_MAP_MASK = mask 32" by (simp add: FRAG_MAP_MASK_def mask_eq_exp_minus_1)
  then show ?thesis by (auto simp: bit_eq_iff bit_simps)
qed

lemma frag_map_step:
  assumes "n < 32"
  shows "bit ((w :: u32) OR push_bit i (if lst then FRAG_MAP_MASK else 1)) n
           \<longleftrightarrow> bit w n \<or> (if lst then i \<le> n else n = i)"
proof -
  have "FRAG_MAP_MASK = mask 32" by (simp add: FRAG_MAP_MASK_def mask_eq_exp_minus_1)
  show ?thesis using assms unfolding \<open>FRAG_MAP_MASK = mask 32\<close> by (auto simp: bit_simps bit_1_iff)
qed

lemma frag_bits_full:
  assumes "0 < k" "k \<le> (32 :: nat)"
  shows "(\<forall>n < 32. n \<in> S \<or> (k - 1 \<le> n \<and> k - 1 \<in> S)) \<longleftrightarrow> {..<k} \<subseteq> S"
proof
  assume all: "\<forall>n < 32. n \<in> S \<or> (k - 1 \<le> n \<and> k - 1 \<in> S)"
  have "k - 1 < 32" using assms by linarith
  with all have "k - 1 \<in> S" by blast
  moreover have "n \<in> S" if "n < k - 1" for n
  proof -
    have "n < 32" "\<not> k - 1 \<le> n" using that assms by linarith+
    with all show ?thesis by blast
  qed
  moreover have "n < k - 1 \<or> n = k - 1" if "n < k" for n using that by linarith
  ultimately show "{..<k} \<subseteq> S" by blast
next
  assume S: "{..<k} \<subseteq> S"
  moreover have "k - 1 < k" using assms by linarith
  moreover have "n < k \<or> k - 1 \<le> n" for n by linarith
  ultimately show "\<forall>n < 32. n \<in> S \<or> (k - 1 \<le> n \<and> k - 1 \<in> S)" by blast
qed

lemma frag_join_built:
  assumes fr: "frag_built frame ds fs t0 got fr" and "got \<subseteq> {..<frag_pieces ds fs}"
    and i: "i < frag_pieces ds fs" "frag_pieces ds fs \<le> 32" and pos: "0 < fs" "0 < length ds"
    and b: "buf_ok b" "buf_contents b = frag_piece ds fs i" and t: "t0 \<le> now"
    and room: "frame_headroom frame FRAME_HEADROOM_MARKER_FRAGMENT + int (length ds) \<le> BUF_SIZE frame"
    and lst: "lst \<longleftrightarrow> Suc i = frag_pieces ds fs"
  shows "\<exists>b' fr'. frag_join now lst i (int fs) fr b = (b', fr') \<and> buf_ok b' \<and>
    (if insert i got = {..<frag_pieces ds fs} then buf_contents b' = ds \<and> frag_asm frame ds fs t0 {} fr'
     else b_len b' = 0 \<and> frag_asm frame ds fs t0 (insert i got) fr')"
proof -
  let ?k = "frag_pieces ds fs" and ?d = "fr_buf fr" and ?p = "frag_piece ds fs i"
  let ?m = "fr_map fr OR push_bit i (if lst then FRAG_MAP_MASK else 1)"
  have d: "buf_ok ?d" "b_capacity ?d = BUF_SIZE frame" "b_offset ?d = frame_headroom frame FRAME_HEADROOM_MARKER_FRAGMENT"
    using fr by (simp_all add: frag_built_def)
  have len: "b_len b = int (length ?p)" using length_buf_contents [OF b(1)] b(2) by simp
  have fit: "b_offset ?d + int i * int fs + b_len b \<le> b_capacity ?d"
    using frag_piece_end(2) [OF pos i(1)] room d(2,3) len by (simp flip: of_nat_mult)
  have off: "0 \<le> b_offset ?d" using d(1) by (simp add: buf_ok_def)
  obtain d' where d': "buf_copy_range ?d (int i * int fs) b 0 (b_len b) = (True, d')" "buf_ok d'"
      "b_capacity d' = b_capacity ?d" "b_offset d' = b_offset ?d" "b_len d' = max (b_len ?d) (int i * int fs + b_len b)"
      "buf_block d' = mem_write (buf_block ?d) (nat (b_offset ?d + int i * int fs)) ?p"
    using buf_copy_range_whole [OF d(1) b(1), of "int i * int fs"] fit b(2) by auto
  let ?fr = "fr\<lparr>fr_buf := d', fr_map := ?m, fr_timestamp := now\<rparr>"
  have bits: "\<forall>n < 32. bit ?m n \<longleftrightarrow> n \<in> insert i got \<or> (?k - 1 \<le> n \<and> ?k - 1 \<in> insert i got)"
    using fr lst i unfolding frag_built_def by (auto simp: frag_map_step)
  have bytes: "\<forall>j < length ds. j div fs \<in> insert i got \<longrightarrow> buf_block d' ! (nat (b_offset d') + j) = ds ! j"
  proof (intro allI impI)
    fix j assume j: "j < length ds" "j div fs \<in> insert i got"
    let ?o = "nat (b_offset ?d)"
    have o: "nat (b_offset ?d + int i * int fs) = ?o + i * fs" using off by (simp add: nat_add_distrib nat_mult_distrib)
    have lens: "?o + i * fs + length ?p \<le> length (buf_block ?d)" "?o + j < length (buf_block ?d)"
    proof -
      have "int (length (buf_block ?d)) = b_capacity ?d" using d(1) by (simp add: buf_ok_def)
      moreover have "int (i * fs) = int i * int fs" by simp
      ultimately show "?o + i * fs + length ?p \<le> length (buf_block ?d)" "?o + j < length (buf_block ?d)"
        using fit off len room d(2,3) j(1) by linarith+
    qed
    have "buf_block d' ! (?o + j)
        = (if i * fs \<le> j \<and> j < i * fs + length ?p then ?p ! (j - i * fs) else buf_block ?d ! (?o + j))"
      using lens by (simp add: d'(6) o nth_mem_write)
    moreover have "j div fs = i \<Longrightarrow> i * fs \<le> j \<and> j < i * fs + length ?p"
      using j(1) pos by (auto simp: length_frag_piece dest: dividend_less_div_times [of fs j])
    moreover have "i * fs \<le> j \<and> j < i * fs + length ?p \<Longrightarrow> ?p ! (j - i * fs) = ds ! j"
      using j(1) by (auto simp: frag_piece_def less_diff_conv)
    moreover have "j div fs \<in> got \<Longrightarrow> buf_block ?d ! (?o + j) = ds ! j"
      using fr j(1) unfolding frag_built_def by blast
    ultimately show "buf_block d' ! (nat (b_offset d') + j) = ds ! j"
      using j(2) d'(4) by (metis insertE)
  qed
  have pe: "int i * int fs + b_len b \<le> int (length ds)" "lst \<Longrightarrow> int i * int fs + b_len b = int (length ds)"
    using frag_piece_end [OF pos i(1)] len lst by (simp_all flip: of_nat_mult of_nat_add)
  have dlen: "b_len ?d \<le> int (length ds)" "?k - 1 \<in> got \<Longrightarrow> b_len ?d = int (length ds)"
    using fr by (simp_all add: frag_built_def)
  have lens: "b_len d' \<le> int (length ds)" "?k - 1 \<in> insert i got \<Longrightarrow> b_len d' = int (length ds)"
    using pe dlen d'(5) i lst by auto
  have built: "frag_built frame ds fs t0 (insert i got) ?fr"
    using fr d' bits bytes lens t unfolding frag_built_def by simp
  have full: "?m AND FRAG_MAP_MASK = FRAG_MAP_MASK \<longleftrightarrow> insert i got = {..<?k}"
  proof -
    have "(\<forall>n < 32. bit ?m n) \<longleftrightarrow> {..<?k} \<subseteq> insert i got"
      unfolding frag_bits_full [of ?k "insert i got", OF frag_pieces_bounds(1) [OF pos] i(2), symmetric]
      using bits by blast
    with assms(2) i(1) show ?thesis unfolding frag_map_full by auto
  qed
  show ?thesis
  proof (cases "insert i got = {..<?k}")
    case True
    then have "?k - 1 \<in> insert i got" using i by auto
    then have l: "b_len d' = int (length ds)" by (rule lens)
    have "buf_contents d' = ds"
    proof (rule nth_equalityI)
      show "length (buf_contents d') = length ds" using d'(2) l by simp
      fix j assume "j < length (buf_contents d')"
      then have j: "j < length ds" using d'(2) l by simp
      have "j div fs \<in> insert i got"
        using True j frag_pieces_bounds [OF pos] by (simp add: less_mult_imp_div_less)
      with bytes j have "buf_block d' ! (nat (b_offset d') + j) = ds ! j" by blast
      moreover have "nat (b_offset d') + length ds \<le> length (buf_block d')"
        using d'(2) l unfolding buf_ok_def by linarith
      ultimately show "buf_contents d' ! j = ds ! j"
        using d'(2) l j by (simp add: buf_contents_def nth_mem_read)
    qed
    moreover have "frag_asm frame ds fs t0 {} (?fr\<lparr>fr_defined := False\<rparr>)"
      using d' d by (simp add: frag_asm_def)
    moreover have "frag_join now lst i (int fs) fr b = (d', ?fr\<lparr>fr_defined := False\<rparr>)"
      using full True d'(1) by (simp add: frag_join_def Let_def)
    ultimately show ?thesis using True d'(2) by simp
  next
    case False
    have "frag_join now lst i (int fs) fr b = (b\<lparr>b_len := 0\<rparr>, ?fr)"
      using full False d'(1) by (simp add: frag_join_def Let_def)
    moreover have "frag_asm frame ds fs t0 (insert i got) ?fr"
      using built d' d by (simp add: frag_asm_def)
    ultimately show ?thesis using False b(1) by (simp add: buf_ok_truncate)
  qed
qed

definition frag_rel ::
    "frame \<Rightarrow> byte list \<Rightarrow> nat \<Rightarrow> time_t \<Rightarrow> int \<Rightarrow> int \<Rightarrow> int \<Rightarrow> int \<Rightarrow> nat set \<Rightarrow> fragment_list \<Rightarrow> bool" where
  \<comment> \<open>the receiver while the datagram numbered \<open>base + e\<close> is being joined\<close>
  "frag_rel frame ds fs t0 base c e h got l \<longleftrightarrow>
     frag_list_ok frame l \<and> frag_window base c h l
     \<and> (if h < e then got = {} else frag_asm frame ds fs t0 got (fl_fragments l ! frag_slot c e))"

definition frag_foreign :: "int \<Rightarrow> int \<Rightarrow> byte list \<Rightarrow> bool" where
  \<comment> \<open>a packet that is no fragment, or one of another datagram of the window\<close>
  "frag_foreign base e bs \<longleftrightarrow>
     (let flags = u32_of_bytes (take 4 bs); e' = (frag_header_seq_id flags - base) mod 256
      in length bs < 4 \<or> frag_header_type flags \<notin> {FRAG_YES_NOTLAST, FRAG_YES_LAST} \<or> (e' < 25 \<and> e' \<noteq> e))"

lemma frag_rel_get_buf:
  assumes rel: "frag_rel frame ds fs t0 base c e h got l" and e: "0 \<le> e" "e < 25" and e': "0 \<le> e'" "e' < 25"
  shows "\<exists>l'. fragment_list_get_buf l ((base + e') mod 256) = Inr (frag_slot c e', l')
           \<and> frag_rel frame ds fs t0 base c e (max h e') got l'"
proof -
  have w: "frag_window base c h l" and ok: "frag_list_ok frame l"
    and asm: "if h < e then got = {} else frag_asm frame ds fs t0 got (fl_fragments l ! frag_slot c e)"
    using rel by (simp_all add: frag_rel_def)
  obtain l' where l': "fragment_list_get_buf l ((base + e') mod 256) = Inr (frag_slot c e', l')"
      "frag_window base c (max h e') l'" "frag_cleared (frag_slot c ` {h<..e'}) (fl_fragments l) (fl_fragments l')"
    using fragment_list_get_buf_window [OF w e'] by blast
  have ok': "frag_list_ok frame l'"
    using frag_list_ok_cleared [OF ok l'(3)] frag_window_ranges [OF l'(2)] by simp
  have len: "length (fl_fragments l) = 25" using ok by (simp add: frag_list_ok_def)
  have h: "0 \<le> h" using w by (simp add: frag_window_def)
  have cleared: "frag_slot c e \<in> frag_slot c ` {h<..e'} \<longleftrightarrow> h < e \<and> e \<le> e'"
  proof
    assume "frag_slot c e \<in> frag_slot c ` {h<..e'}"
    then obtain x where x: "h < x" "x \<le> e'" "frag_slot c e = frag_slot c x" by auto
    with frag_slot_inj [OF e, of x c] h e' show "h < e \<and> e \<le> e'" by simp
  qed auto
  have "frag_asm frame ds fs t0 got (fl_fragments l' ! frag_slot c e)" if "\<not> max h e' < e"
  proof (cases "h < e")
    case True
    then have "fl_fragments l' ! frag_slot c e = (fl_fragments l ! frag_slot c e)\<lparr>fr_defined := False\<rparr>"
      using l'(3) cleared that len by (simp add: frag_cleared_def)
    moreover have "got = {}" using asm True by simp
    ultimately show ?thesis using frag_list_ok_nth [OF ok, of "frag_slot c e"] by (simp add: frag_asm_def)
  next
    case False
    then have "fl_fragments l' ! frag_slot c e = fl_fragments l ! frag_slot c e"
      using l'(3) cleared len by (simp add: frag_cleared_def)
    with asm False show ?thesis by simp
  qed
  moreover have "got = {}" if "max h e' < e" using asm that by simp
  ultimately show ?thesis using l'(1,2) ok' by (simp add: frag_rel_def)
qed

lemma frag_rel_update_other:
  assumes "frag_rel frame ds fs t0 base c e h got l" "0 \<le> e" "e < 25" "0 \<le> e'" "e' < 25" "e' \<noteq> e"
    and "buf_ok (fr_buf fr)" "b_capacity (fr_buf fr) = BUF_SIZE frame"
  shows "frag_rel frame ds fs t0 base c e h got (l\<lparr>fl_fragments := (fl_fragments l)[frag_slot c e' := fr]\<rparr>)"
proof -
  have "frag_slot c e' \<noteq> frag_slot c e" using frag_slot_inj [of e' e c] assms by blast
  with assms frag_list_ok_update [OF _ assms(7,8), of l] show ?thesis
    by (simp add: frag_rel_def frag_window_def)
qed

lemma frag_in_piece_foreign:
  assumes frame: "frame_ok frame" and rel: "frag_rel frame ds fs t0 base c e h got (fm_incoming f)"
    and e: "0 \<le> e" "e < 25" and b: "buf_ok b"
    and e': "frag_header_seq_id flags = (base + e') mod 256" "0 \<le> e'" "e' < 25" "e' \<noteq> e"
  shows "\<exists>b' f' h'. frag_in_piece frame now f flags b = Inr (b', f') \<and> buf_ok b'
           \<and> frag_rel frame ds fs t0 base c e h' got (fm_incoming f')"
proof -
  let ?i = "frag_slot c e'"
  obtain l where l: "fragment_list_get_buf (fm_incoming f) (frag_header_seq_id flags) = Inr (?i, l)"
      "frag_rel frame ds fs t0 base c e (max h e') got l"
    using frag_rel_get_buf [OF rel e e'(2,3)] e'(1) by auto
  then have ok: "frag_list_ok frame l" by (simp add: frag_rel_def)
  define sz where "sz = (if frag_header_type flags = FRAG_YES_LAST then frag_header_size flags else b_len b)"
  have "0 \<le> sz" using b by (simp add: sz_def buf_ok_def)
  obtain fr where fr: "frag_start frame sz (fl_fragments l ! ?i) = Inr fr" "buf_ok (fr_buf fr)" "b_capacity (fr_buf fr) = BUF_SIZE frame"
    using frag_start_ok [OF frame] frag_list_ok_nth [OF ok frag_slot_less] by blast
  obtain b' fr' where j: "frag_join now (frag_header_type flags = FRAG_YES_LAST) (frag_header_id flags) sz fr b = (b', fr')"
    by fastforce
  from frag_join_ok [OF frame fr(2,3) b \<open>0 \<le> sz\<close> j] frag_rel_update_other [OF l(2) e e'(2-4)] l fr(1) j b
  show ?thesis
    by (cases "sz AND FRAG_SIZE_ROUND_MASK = 0")
       (auto simp: frag_in_piece_def Let_def frag_error_def buf_ok_truncate simp flip: sz_def)
qed

lemma fragment_incoming_foreign:
  assumes frame: "frame_ok frame" and rel: "frag_rel frame ds fs t0 base c e h got (fm_incoming f)"
    and e: "0 \<le> e" "e < 25" and b: "buf_ok b" "frag_foreign base e (buf_contents b)"
  shows "\<exists>b' f' h'. fragment_incoming frame now f b = Inr (b', f') \<and> buf_ok b'
           \<and> frag_rel frame ds fs t0 base c e h' got (fm_incoming f')"
proof -
  consider "b_len b \<le> 0" | "0 < b_len b" "length (buf_contents b) < 4" | "4 \<le> length (buf_contents b)" "0 < b_len b"
    using length_buf_contents [OF b(1)] by linarith
  then show ?thesis
  proof cases
    case 1
    with b rel show ?thesis by (auto simp: fragment_incoming_def)
  next
    case 2
    with b rel buf_read_short [OF b(1), of 4] show ?thesis
      by (auto simp: fragment_incoming_def frag_error_def buf_ok_truncate)
  next
    case 3
    obtain b1 where b1: "buf_read b 4 = (Some (take 4 (buf_contents b)), b1)" "buf_ok b1"
      using buf_read_ok [OF b(1) 3(1)] by auto
    define flags where "flags = u32_of_bytes (take 4 (buf_contents b))"
    define e' where "e' = (frag_header_seq_id flags - base) mod 256"
    show ?thesis
    proof (cases "frag_header_type flags \<in> {FRAG_YES_NOTLAST, FRAG_YES_LAST}")
      case True
      then have e': "e' < 25" "e' \<noteq> e" "0 \<le> e'"
        using b(2) 3(1) by (auto simp: frag_foreign_def Let_def e'_def flags_def)
      have "frag_header_seq_id flags = (base + e') mod 256"
        by (simp add: e'_def mod_add_right_eq)
      from frag_in_piece_foreign [OF frame rel e b1(2) this e'(3,1,2)] 3 b1 True show ?thesis
        by (auto simp: fragment_incoming_def Let_def frag_types simp flip: flags_def)
    next
      case False
      with 3 b1 rel show ?thesis
        by (auto simp: fragment_incoming_def frag_error_def buf_ok_truncate Let_def simp flip: flags_def)
    qed
  qed
qed

lemma frag_in_piece_own:
  assumes frame: "frame_ok frame" and rel: "frag_rel frame ds fs t0 base c e h got (fm_incoming f)"
    and e: "0 \<le> e" "e < 25" and b: "buf_ok b" "buf_contents b = frag_piece ds fs i"
    and got: "got \<subseteq> {..<frag_pieces ds fs}" and i: "i < frag_pieces ds fs" "frag_pieces ds fs \<le> 32"
    and fs: "0 < fs" "4 dvd fs" and "0 < length ds" "t0 \<le> now"
    and room: "frame_headroom frame FRAME_HEADROOM_MARKER_FRAGMENT + int (length ds) \<le> BUF_SIZE frame"
    and flags: "frag_header_seq_id flags = (base + e) mod 256" "frag_header_id flags = i"
      "frag_header_type flags = (if Suc i = frag_pieces ds fs then FRAG_YES_LAST else FRAG_YES_NOTLAST)"
      "Suc i = frag_pieces ds fs \<Longrightarrow> frag_header_size flags = int fs"
  shows "\<exists>b' f' h'. frag_in_piece frame now f flags b = Inr (b', f') \<and> buf_ok b' \<and>
    (if insert i got = {..<frag_pieces ds fs}
     then buf_contents b' = ds \<and> frag_rel frame ds fs t0 base c e h' {} (fm_incoming f')
     else b_len b' = 0 \<and> frag_rel frame ds fs t0 base c e h' (insert i got) (fm_incoming f'))"
proof -
  let ?i = "frag_slot c e" and ?lst = "Suc i = frag_pieces ds fs"
  obtain l where l: "fragment_list_get_buf (fm_incoming f) (frag_header_seq_id flags) = Inr (?i, l)"
      "frag_rel frame ds fs t0 base c e (max h e) got l"
    using frag_rel_get_buf [OF rel e e] flags(1) by auto
  then have ok: "frag_list_ok frame l" and asm: "frag_asm frame ds fs t0 got (fl_fragments l ! ?i)"
    by (simp_all add: frag_rel_def)
  have lst: "frag_header_type flags = FRAG_YES_LAST \<longleftrightarrow> ?lst" using flags(3) by (simp add: frag_types)
  have "b_len b = int (length (frag_piece ds fs i))" using length_buf_contents [OF b(1)] b(2) by simp
  then have sz: "(if ?lst then frag_header_size flags else b_len b) = int fs"
    using flags(4) frag_piece_full(1) [OF fs(1) assms(12), of i] i by auto
  have aligned: "int fs AND FRAG_SIZE_ROUND_MASK = 0"
    using fs(2) by (simp add: FRAG_SIZE_ROUND_MASK_eq and_3_mod mod_0_imp_dvd flip: int_dvd_int_iff)
  obtain fr where fr: "frag_start frame (int fs) (fl_fragments l ! ?i) = Inr fr" "frag_built frame ds fs t0 got fr"
    using frag_start_built [OF frame asm] by blast
  obtain b' fr' where j: "frag_join now ?lst i (int fs) fr b = (b', fr')" "buf_ok b'"
      "if insert i got = {..<frag_pieces ds fs} then buf_contents b' = ds \<and> frag_asm frame ds fs t0 {} fr'
       else b_len b' = 0 \<and> frag_asm frame ds fs t0 (insert i got) fr'"
    using frag_join_built [OF fr(2) got i fs(1) assms(12) b assms(13) room refl] by blast
  have step: "frag_in_piece frame now f flags b
      = Inr (b', f\<lparr>fm_incoming := l\<lparr>fl_fragments := (fl_fragments l)[?i := fr']\<rparr>\<rparr>)"
    using l(1) j(1) fr(1) aligned by (simp add: frag_in_piece_def lst sz flags(2) Let_def)
  have "frag_rel frame ds fs t0 base c e (max h e) g (l\<lparr>fl_fragments := (fl_fragments l)[?i := fr']\<rparr>)"
    if "frag_asm frame ds fs t0 g fr'" for g
    using that l(2) frag_list_ok_update [OF ok, of fr'] ok
    by (auto simp: frag_rel_def frag_asm_def frag_window_def frag_list_ok_def)
  with step j show ?thesis by (auto split: if_splits)
qed

section \<open>Arrivals in any order\<close>

datatype frag_event = Arrive time_t buffer | Wakeup time_t

fun frag_feed :: "frame \<Rightarrow> fragment_master \<Rightarrow> frag_event list \<Rightarrow> (buffer list \<times> fragment_master) result" where
  \<comment> \<open>the buffers that the receiver hands on, one for each arrival\<close>
  "frag_feed frame f [] = Inr ([], f)"
| "frag_feed frame f (Arrive now b # es) =
     bind_result (fragment_incoming frame now f b) (\<lambda>(b', f).
       bind_result (frag_feed frame f es) (\<lambda>(bs, f). Inr (b' # bs, f)))"
| "frag_feed frame f (Wakeup now # es) = frag_feed frame (fragment_wakeup now f) es"

fun frag_arrivals :: "frag_event list \<Rightarrow> buffer list" where
  "frag_arrivals [] = []"
| "frag_arrivals (Arrive now b # es) = b # frag_arrivals es"
| "frag_arrivals (Wakeup now # es) = frag_arrivals es"

fun frag_event_time :: "frag_event \<Rightarrow> time_t" where
  "frag_event_time (Arrive now b) = now"
| "frag_event_time (Wakeup now) = now"

definition frag_received :: "int \<Rightarrow> byte list \<Rightarrow> nat \<Rightarrow> buffer list \<Rightarrow> nat set" where
  \<comment> \<open>the fragments of the datagram among the arrivals\<close>
  "frag_received s ds fs bs = {i. i < frag_pieces ds fs \<and> frag_packet s ds fs i \<in> buf_contents ` set bs}"

definition frag_traffic :: "int \<Rightarrow> int \<Rightarrow> byte list \<Rightarrow> nat \<Rightarrow> buffer \<Rightarrow> bool" where
  \<comment> \<open>a fragment of the datagram, or foreign traffic\<close>
  "frag_traffic base e ds fs b \<longleftrightarrow> buf_ok b \<and>
     (buf_contents b \<in> frag_packet ((base + e) mod 256) ds fs ` {..<frag_pieces ds fs} \<or> frag_foreign base e (buf_contents b))"

definition frag_sendable :: "frame \<Rightarrow> byte list \<Rightarrow> nat \<Rightarrow> bool" where
  \<comment> \<open>a datagram and fragment size that sender and receiver can handle\<close>
  "frag_sendable frame ds fs \<longleftrightarrow> 0 < fs \<and> fs < 65536 \<and> 4 dvd fs \<and> 0 < length ds \<and> frag_pieces ds fs \<le> 32
     \<and> frame_headroom frame FRAME_HEADROOM_MARKER_FRAGMENT + int (length ds) \<le> BUF_SIZE frame"

lemma frag_packet_header:
  assumes "frag_sendable frame ds fs" "i < frag_pieces ds fs" "0 \<le> s" "s < 256"
  defines "flags \<equiv> u32_of_bytes (take 4 (frag_packet s ds fs i))"
  shows "frag_header_seq_id flags = s" "frag_header_id flags = i"
    "frag_header_type flags = (if Suc i = frag_pieces ds fs then FRAG_YES_LAST else FRAG_YES_NOTLAST)"
    "Suc i = frag_pieces ds fs \<Longrightarrow> frag_header_size flags = int fs"
    "drop 4 (frag_packet s ds fs i) = frag_piece ds fs i" "4 \<le> length (frag_packet s ds fs i)"
proof -
  define type where "type = (if Suc i = frag_pieces ds fs then FRAG_YES_LAST else FRAG_YES_NOTLAST)"
  have type: "0 \<le> type" "type < 4" by (simp_all add: type_def frag_types)
  have flags: "flags = fragment_flags type s (int i) (int fs)"
    by (simp add: flags_def frag_packet_def type_def)
  have fs: "fs < 65536" "4 dvd fs" "i < 32" using assms by (auto simp: frag_sendable_def)
  show "frag_header_seq_id flags = s" "frag_header_id flags = i"
    "frag_header_type flags = (if Suc i = frag_pieces ds fs then FRAG_YES_LAST else FRAG_YES_NOTLAST)"
    using type fs assms(3,4) by (simp_all add: flags flip: type_def)
  show "frag_header_size flags = int fs" if "Suc i = frag_pieces ds fs"
    using that fs unfolding flags type_def by (simp add: int_dvd_int_iff [of 4, simplified])
qed (simp_all add: frag_packet_def)

lemma frag_packet_inj:
  assumes "frag_sendable frame ds fs" "i < frag_pieces ds fs" "j < frag_pieces ds fs" "0 \<le> s" "s < 256"
    and "frag_packet s ds fs i = frag_packet s ds fs j"
  shows "i = j"
proof -
  have "i = frag_header_id (u32_of_bytes (take 4 (frag_packet s ds fs i)))"
    using frag_packet_header(2) [OF assms(1,2,4,5)] by (rule sym)
  also have "\<dots> = j" unfolding assms(6) using frag_packet_header(2) [OF assms(1,3,4,5)] .
  finally show ?thesis .
qed

lemma frag_packet_not_foreign:
  assumes "frag_sendable frame ds fs" "i < frag_pieces ds fs" "0 \<le> e" "e < 25"
  shows "\<not> frag_foreign base e (frag_packet ((base + e) mod 256) ds fs i)"
proof -
  have "((base + e) mod 256 - base) mod 256 = e" using assms by (simp add: mod_diff_left_eq)
  with frag_packet_header [OF assms(1,2), of "(base + e) mod 256"] show ?thesis
    by (auto simp: frag_foreign_def Let_def)
qed

lemma fragment_incoming_own:
  assumes frame: "frame_ok frame" and rel: "frag_rel frame ds fs t0 base c e h got (fm_incoming f)"
    and e: "0 \<le> e" "e < 25" and s: "frag_sendable frame ds fs"
    and b: "buf_ok b" "buf_contents b = frag_packet ((base + e) mod 256) ds fs i"
    and got: "got \<subseteq> {..<frag_pieces ds fs}" and i: "i < frag_pieces ds fs" and t: "t0 \<le> now"
  shows "\<exists>b' f' h'. fragment_incoming frame now f b = Inr (b', f') \<and> buf_ok b' \<and>
    (if insert i got = {..<frag_pieces ds fs}
     then buf_contents b' = ds \<and> frag_rel frame ds fs t0 base c e h' {} (fm_incoming f')
     else b_len b' = 0 \<and> frag_rel frame ds fs t0 base c e h' (insert i got) (fm_incoming f'))"
proof -
  define flags where "flags = u32_of_bytes (take 4 (buf_contents b))"
  note hd = frag_packet_header [OF s i, of "(base + e) mod 256", simplified b(2) [symmetric], folded flags_def]
  obtain b1 where b1: "buf_read b 4 = (Some (take 4 (buf_contents b)), b1)" "buf_ok b1"
      "buf_contents b1 = frag_piece ds fs i"
    using buf_read_ok [OF b(1), of 4] hd(5,6) by auto
  have "0 < b_len b" using length_buf_contents [OF b(1)] hd(6) by simp
  moreover have "frag_header_type flags = FRAG_YES_NOTLAST \<or> frag_header_type flags = FRAG_YES_LAST"
      "frag_header_type flags \<noteq> FRAG_WHOLE"
    using hd(3) by (auto simp: frag_types)
  ultimately have "fragment_incoming frame now f b = frag_in_piece frame now f flags b1"
    using b1(1) by (simp add: fragment_incoming_def Let_def flip: flags_def)
  with frag_in_piece_own [OF frame rel e b1(2,3) got i, of now flags] s t hd show ?thesis
    by (simp add: frag_sendable_def)
qed

lemma frag_rel_reap:
  assumes "frag_rel frame ds fs t0 base c e h got (fm_incoming f)" "now < t0 + 10"
  shows "frag_rel frame ds fs t0 base c e h got (fm_incoming (fragment_wakeup now f))"
proof -
  let ?r = "\<lambda>fr. if fr_defined fr \<and> fr_timestamp fr + FRAG_TTL_SEC \<le> now then fr\<lparr>fr_defined := False\<rparr> else fr"
  have frs: "fl_fragments (fm_incoming (fragment_wakeup now f)) = map ?r (fl_fragments (fm_incoming f))"
      "fl_seq_id (fm_incoming (fragment_wakeup now f)) = fl_seq_id (fm_incoming f)"
      "fl_index (fm_incoming (fragment_wakeup now f)) = fl_index (fm_incoming f)"
    by (simp_all add: fragment_wakeup_def fragment_ttl_reap_def)
  have len: "length (fl_fragments (fm_incoming f)) = 25" using assms(1) by (simp add: frag_rel_def frag_list_ok_def)
  have "frag_asm frame ds fs t0 got (?r fr)" if "frag_asm frame ds fs t0 got fr" for fr
  proof (cases "got = {}")
    case True
    with that show ?thesis by (auto simp: frag_asm_def)
  next
    case False
    with that assms(2) have "?r fr = fr" by (auto simp: frag_asm_def frag_built_def FRAG_TTL_SEC_def)
    with that show ?thesis by metis
  qed
  moreover have "frag_list_ok frame (fm_incoming (fragment_wakeup now f))"
    using assms(1) by (auto simp: frag_rel_def frag_list_ok_def frs)
  ultimately show ?thesis using assms(1) len by (auto simp: frag_rel_def frs frag_window_def)
qed

lemma frag_received_Cons:
  "frag_received s ds fs (b # bs) = frag_received s ds fs [b] \<union> frag_received s ds fs bs"
  by (auto simp: frag_received_def)

lemma frag_received_own:
  assumes "frag_sendable frame ds fs" "i < frag_pieces ds fs" "0 \<le> s" "s < 256"
    and "buf_contents b = frag_packet s ds fs i"
  shows "frag_received s ds fs [b] = {i}"
  using frag_packet_inj [OF assms(1)] assms by (auto simp: frag_received_def)

lemma frag_received_foreign:
  assumes "frag_sendable frame ds fs" "0 \<le> e" "e < 25" "frag_foreign base e (buf_contents b)"
  shows "frag_received ((base + e) mod 256) ds fs [b] = {}"
  using frag_packet_not_foreign [OF assms(1) _ assms(2,3), of _ base] assms(4) by (auto simp: frag_received_def) metis

lemma frag_feed_partial:
  assumes frame: "frame_ok frame" and e: "0 \<le> e" "e < 25" and s: "frag_sendable frame ds fs"
    and "frag_rel frame ds fs t0 base c e h got (fm_incoming f)" "got \<subseteq> {..<frag_pieces ds fs}"
    and "\<forall>ev \<in> set es. t0 \<le> frag_event_time ev \<and> frag_event_time ev < t0 + FRAG_TTL_SEC"
    and "\<forall>b \<in> set (frag_arrivals es). frag_traffic base e ds fs b"
    and "got \<union> frag_received ((base + e) mod 256) ds fs (frag_arrivals es) \<noteq> {..<frag_pieces ds fs}"
  shows "\<exists>outs f' h'. frag_feed frame f es = Inr (outs, f')
    \<and> frag_rel frame ds fs t0 base c e h' (got \<union> frag_received ((base + e) mod 256) ds fs (frag_arrivals es)) (fm_incoming f')
    \<and> list_all2 (\<lambda>b out. buf_contents b \<in> frag_packet ((base + e) mod 256) ds fs ` {..<frag_pieces ds fs} \<longrightarrow> b_len out = 0)
        (frag_arrivals es) outs"
  using assms(5-)
proof (induction es arbitrary: f h got)
  case Nil
  then show ?case by (auto simp: frag_received_def)
next
  case (Cons ev es)
  let ?s = "(base + e) mod 256" and ?k = "frag_pieces ds fs"
  show ?case
  proof (cases ev)
    case (Wakeup now)
    have "now < t0 + 10" using Cons.prems(3) Wakeup by (simp add: FRAG_TTL_SEC_def)
    from Cons.IH [OF frag_rel_reap [OF Cons.prems(1) this]] Cons.prems Wakeup show ?thesis by simp
  next
    case (Arrive now b)
    have t: "t0 \<le> now" and b: "frag_traffic base e ds fs b" using Cons.prems Arrive by auto
    let ?g = "got \<union> frag_received ?s ds fs [b]"
    have g: "?g \<subseteq> {..<?k}" "?g \<union> frag_received ?s ds fs (frag_arrivals es)
        = got \<union> frag_received ?s ds fs (frag_arrivals (ev # es))"
      using Cons.prems(2) Arrive frag_received_Cons [of ?s ds fs b] by (auto simp: frag_received_def)
    have sub: "frag_received ?s ds fs (frag_arrivals es) \<subseteq> {..<?k}" by (auto simp: frag_received_def)
    have "?g \<noteq> {..<?k}" using g sub Cons.prems(5) by blast
    have "\<exists>b' f' h'. fragment_incoming frame now f b = Inr (b', f') \<and>
        frag_rel frame ds fs t0 base c e h' ?g (fm_incoming f') \<and>
        (buf_contents b \<in> frag_packet ?s ds fs ` {..<?k} \<longrightarrow> b_len b' = 0)"
    proof (cases "buf_contents b \<in> frag_packet ?s ds fs ` {..<?k}")
      case True
      then obtain i where i: "i < ?k" "buf_contents b = frag_packet ?s ds fs i" by auto
      have "frag_received ?s ds fs [b] = {i}" using frag_received_own [OF s i(1) _ _ i(2)] by simp
      then have ins: "insert i got = ?g" by simp
      have "buf_ok b" using b by (simp add: frag_traffic_def)
      from fragment_incoming_own [OF frame Cons.prems(1) e s this i(2) Cons.prems(2) i(1) t, unfolded ins if_not_P [OF \<open>?g \<noteq> {..<?k}\<close>]]
      show ?thesis by blast
    next
      case False
      then have "buf_ok b" "frag_foreign base e (buf_contents b)" using b by (auto simp: frag_traffic_def)
      then have "?g = got" using frag_received_foreign [OF s e] by simp
      from fragment_incoming_foreign [OF frame Cons.prems(1) e \<open>buf_ok b\<close> \<open>frag_foreign base e (buf_contents b)\<close>] False
      show ?thesis unfolding \<open>?g = got\<close> by blast
    qed
    then obtain b' f' h' where step: "fragment_incoming frame now f b = Inr (b', f')"
        "frag_rel frame ds fs t0 base c e h' ?g (fm_incoming f')"
        "buf_contents b \<in> frag_packet ?s ds fs ` {..<?k} \<longrightarrow> b_len b' = 0" by blast
    have rest: "\<forall>ev \<in> set es. t0 \<le> frag_event_time ev \<and> frag_event_time ev < t0 + FRAG_TTL_SEC"
        "\<forall>b \<in> set (frag_arrivals es). frag_traffic base e ds fs b"
      using Cons.prems(3,4) Arrive by simp_all
    have more: "?g \<union> frag_received ?s ds fs (frag_arrivals es) \<noteq> {..<?k}"
      unfolding g(2) by (rule Cons.prems(5))
    from Cons.IH [OF step(2) g(1) rest more] obtain outs f2 h2 where feed:
      "frag_feed frame f' es = Inr (outs, f2)"
      "frag_rel frame ds fs t0 base c e h2 (?g \<union> frag_received ?s ds fs (frag_arrivals es)) (fm_incoming f2)"
      "list_all2 (\<lambda>b out. buf_contents b \<in> frag_packet ?s ds fs ` {..<?k} \<longrightarrow> b_len out = 0) (frag_arrivals es) outs"
      by blast
    have "frag_feed frame f (ev # es) = Inr (b' # outs, f2)"
      using feed(1) step(1) Arrive by simp
    moreover have "list_all2 (\<lambda>b out. buf_contents b \<in> frag_packet ?s ds fs ` {..<?k} \<longrightarrow> b_len out = 0)
        (frag_arrivals (ev # es)) (b' # outs)"
      using feed(3) step(3) Arrive by simp
    ultimately show ?thesis using feed(2) unfolding g(2) by blast
  qed
qed

section \<open>The sender\<close>

definition frag_master_ok :: "frame \<Rightarrow> fragment_master \<Rightarrow> bool" where
  "frag_master_ok frame f \<longleftrightarrow> frag_list_ok frame (fm_incoming f)
     \<and> 0 \<le> fm_outgoing_seq_id f \<and> fm_outgoing_seq_id f < 256
     \<and> buf_ok (fm_outgoing f) \<and> b_capacity (fm_outgoing f) = BUF_SIZE frame
     \<and> buf_ok (fm_outgoing_return f) \<and> b_capacity (fm_outgoing_return f) = BUF_SIZE frame"

fun fragment_drain :: "nat \<Rightarrow> frame \<Rightarrow> fragment_master \<Rightarrow> (buffer list \<times> fragment_master) result" where
  \<comment> \<open>call \<open>fragment_ready_to_send\<close> until it has nothing more, at most \<open>n\<close> times\<close>
  "fragment_drain 0 frame f = Inr ([], f)"
| "fragment_drain (Suc n) frame f =
     bind_result (fragment_ready_to_send frame f clear_buf) (\<lambda>(ready, b, f).
       if ready then bind_result (fragment_drain n frame f) (\<lambda>(bs, f). Inr (b # bs, f))
       else Inr ([], f))"

definition fragment_send :: "frame \<Rightarrow> fragment_master \<Rightarrow> buffer \<Rightarrow> (buffer list \<times> fragment_master) result" where
  "fragment_send frame f b =
     bind_result (fragment_outgoing frame f b) (\<lambda>(b, f).
       bind_result (fragment_drain (nat MAX_FRAGS) frame f) (\<lambda>(bs, f). Inr (b # bs, f)))"

lemma buf_copy_n_ok:
  assumes d: "buf_ok d" and s: "buf_ok s" and n: "n \<le> length (buf_contents s)" "n \<le> buf_room d"
  shows "\<exists>d' s'. buf_copy_n d s (int n) = (True, d', s') \<and> buf_ok d' \<and> buf_ok s'
           \<and> buf_contents d' = buf_contents d @ take n (buf_contents s) \<and> buf_contents s' = drop n (buf_contents s)
           \<and> buf_headroom d' = buf_headroom d \<and> b_capacity s' = b_capacity s"
proof -
  have len: "int n \<le> b_len s" using n(1) length_buf_contents [OF s] by linarith
  obtain s' where s': "buf_advance s (int n) = (True, s')" "buf_ok s'" "buf_contents s' = drop n (buf_contents s)"
      "b_capacity s' = b_capacity s"
    using buf_advance_ok [OF s, of "int n"] len by auto
  have read: "buf_read_alloc s (int n) = (Some (b_offset s), s')"
    using s s'(1) len by (auto simp: buf_read_alloc_def buf_advance_def)
  have bytes: "mem_read (buf_block s) (nat (b_offset s)) n = take n (buf_contents s)"
    using buf_read_advance [OF s n(1)] read by (simp add: buf_read_def)
  have "length (take n (buf_contents s)) \<le> buf_room d" using n by simp
  from buf_write_ok [OF d this] s' read bytes show ?thesis by (auto simp: buf_copy_n_def)
qed

lemma frag_buf_init_room:
  assumes "frame_ok frame" "buf_ok b" "b_capacity b = BUF_SIZE frame"
  shows "\<exists>b'. buf_init b (FRAME_HEADROOM frame) = (True, b') \<and> buf_ok b' \<and> buf_contents b' = []
           \<and> b_capacity b' = BUF_SIZE frame
           \<and> PAYLOAD_SIZE frame \<le> int (buf_room b') \<and> f_extra_frame frame \<le> int (buf_headroom b')"
proof -
  let ?h = "frame_headroom frame 0"
  obtain b' where b': "buf_init b ?h = (True, b')" "buf_ok b'" "b_offset b' = ?h" "b_len b' = 0" "b_capacity b' = BUF_SIZE frame"
    using buf_init_ok [OF assms(2), of ?h] frame_ok_headroom [OF assms(1)] assms(3) by auto
  have "buf_contents b' = []" using b' by (simp add: buf_contents_def)
  moreover have "0 \<le> f_extra_frame frame" using assms(1) by (simp add: frame_ok_def)
  ultimately show ?thesis
    using b' buf_room_eq [OF b'(2)] buf_headroom_eq [OF b'(2)] frame_ok_headroom(1-4) [OF assms(1), of 0]
    by (simp add: FRAME_HEADROOM_def)
qed

lemma fragment_prepend_flags_ok:
  assumes "buf_ok b" "4 \<le> buf_headroom b"
  shows "\<exists>b'. fragment_prepend_flags b type s i fs = Inr b' \<and> buf_ok b'
           \<and> buf_contents b' = bytes_of_u32 (fragment_flags type s i fs) @ buf_contents b"
  using buf_write_prepend_ok [of b "bytes_of_u32 (fragment_flags type s i fs)"] assms
  by (auto simp: fragment_prepend_flags_def)

definition frag_sending :: "frame \<Rightarrow> int \<Rightarrow> byte list \<Rightarrow> nat \<Rightarrow> nat \<Rightarrow> fragment_master \<Rightarrow> bool" where
  \<comment> \<open>fragments before number \<open>i\<close> are sent\<close>
  "frag_sending frame s ds fs i f \<longleftrightarrow> frag_master_ok frame f \<and> fm_outgoing_seq_id f = s
     \<and> fm_outgoing_frag_size f = int fs \<and> fm_outgoing_frag_id f = int i
     \<and> buf_contents (fm_outgoing f) = drop (i * fs) ds"

lemma frag_last_iff:
  assumes "0 < fs" "0 < length ds" "i < frag_pieces ds fs"
  shows "length ds - i * fs \<le> fs \<longleftrightarrow> Suc i = frag_pieces ds fs"
proof
  assume "length ds - i * fs \<le> fs"
  then have "length ds \<le> Suc i * fs" by simp
  with frag_piece_full(2) [OF assms(1,2), of i] assms(3) show "Suc i = frag_pieces ds fs"
    by (metis Suc_lessI not_le)
next
  assume "Suc i = frag_pieces ds fs"
  then show "length ds - i * fs \<le> fs"
    using frag_piece_end(3) [OF assms] by (simp add: length_frag_piece)
qed

lemma fragment_ready_to_send_step:
  assumes frame: "frame_ok frame" "4 \<le> f_extra_frame frame" and snd: "frag_sending frame s ds fs i f"
    and i: "i < frag_pieces ds fs" and fs: "0 < fs" "0 < length ds" "int fs \<le> PAYLOAD_SIZE frame"
  shows "\<exists>b' f'. fragment_ready_to_send frame f b = Inr (True, b', f') \<and> buf_ok b'
           \<and> buf_contents b' = frag_packet s ds fs i \<and> frag_sending frame s ds fs (Suc i) f'"
proof -
  let ?out = "fm_outgoing f" and ?p = "frag_piece ds fs i"
  have ok: "frag_master_ok frame f" and st: "fm_outgoing_seq_id f = s" "fm_outgoing_frag_size f = int fs"
      "fm_outgoing_frag_id f = int i" "buf_contents ?out = drop (i * fs) ds"
    using snd by (simp_all add: frag_sending_def)
  have out: "buf_ok ?out" "b_capacity ?out = BUF_SIZE frame" using ok by (simp_all add: frag_master_ok_def)
  have len: "b_len ?out = int (length ds - i * fs)" using length_buf_contents [OF out(1)] st(4) by simp
  have some: "i * fs < length ds" using frag_piece_end(1) [OF fs(1,2) i] .
  let ?lst = "Suc i = frag_pieces ds fs" and ?n = "min fs (length ds - i * fs)"
  have lst: "b_len ?out \<le> int fs \<longleftrightarrow> ?lst" unfolding len by (simp only: of_nat_le_iff frag_last_iff [OF fs(1,2) i])
  have n: "(if ?lst then b_len ?out else int fs) = int ?n"
    using frag_last_iff [OF fs(1,2) i] len by auto
  obtain b0 where b0: "buf_init (fm_outgoing_return f) (FRAME_HEADROOM frame) = (True, b0)" "buf_ok b0"
      "buf_contents b0 = []" "PAYLOAD_SIZE frame \<le> int (buf_room b0)" "f_extra_frame frame \<le> int (buf_headroom b0)"
    using frag_buf_init_room [OF frame(1)] ok by (auto simp: frag_master_ok_def)
  have "?n \<le> buf_room b0" using b0(4) fs(3) by linarith
  then obtain b1 out' where cp: "buf_copy_n b0 ?out (int ?n) = (True, b1, out')" "buf_ok b1" "buf_ok out'"
      "buf_contents b1 = take ?n (drop (i * fs) ds)" "buf_contents out' = drop ?n (drop (i * fs) ds)"
      "buf_headroom b1 = buf_headroom b0" "b_capacity out' = BUF_SIZE frame"
    using buf_copy_n_ok [OF b0(2) out(1), of ?n] st(4) b0(3) out(2) by auto
  have piece: "take ?n (drop (i * fs) ds) = ?p" "drop ?n (drop (i * fs) ds) = drop (Suc i * fs) ds"
    by (simp_all add: frag_piece_def min_def)
  obtain b2 where b2: "fragment_prepend_flags b1 (if ?lst then FRAG_YES_LAST else FRAG_YES_NOTLAST) s (int i) (int fs) = Inr b2"
      "buf_ok b2" "buf_contents b2 = frag_packet s ds fs i"
    using fragment_prepend_flags_ok [OF cp(2), of "if ?lst then FRAG_YES_LAST else FRAG_YES_NOTLAST" s "int i" "int fs"]
      b0(5) cp(4,6) frame(2) by (auto simp: frag_packet_def piece)
  have "b_len out' = 0" if ?lst
    using length_buf_contents [OF cp(3)] that cp(5) frag_last_iff [OF fs(1,2) i] by simp
  moreover have "fragment_outgoing_defined f"
    unfolding fragment_outgoing_defined_def len of_nat_0_less_iff using some by simp
  moreover have "(if b_len ?out \<le> fm_outgoing_frag_size f then (b_len ?out, True) else (fm_outgoing_frag_size f, False))
      = (int ?n, ?lst)"
    using lst n st(2) by auto
  ultimately have step: "fragment_ready_to_send frame f b
      = Inr (True, b2, f\<lparr>fm_outgoing := out', fm_outgoing_frag_id := fm_outgoing_frag_id f + 1\<rparr>)"
    using b0(1) cp(1) b2(1) unfolding fragment_ready_to_send_def by (simp add: st(1-3))
  have "frag_sending frame s ds fs (Suc i) (f\<lparr>fm_outgoing := out', fm_outgoing_frag_id := fm_outgoing_frag_id f + 1\<rparr>)"
    using snd cp(3,5,7) piece by (simp add: frag_sending_def frag_master_ok_def)
  with step b2 show ?thesis by blast
qed

lemma fragment_drain_packets:
  assumes frame: "frame_ok frame" "4 \<le> f_extra_frame frame" and snd: "frag_sending frame s ds fs i f"
    and "i \<le> frag_pieces ds fs" "frag_pieces ds fs - i < n"
    and fs: "0 < fs" "0 < length ds" "int fs \<le> PAYLOAD_SIZE frame"
  shows "\<exists>bs f'. fragment_drain n frame f = Inr (bs, f') \<and> map buf_contents bs = map (frag_packet s ds fs) [i..<frag_pieces ds fs]
           \<and> (\<forall>b \<in> set bs. buf_ok b) \<and> \<not> fragment_outgoing_defined f' \<and> frag_master_ok frame f' \<and> fm_outgoing_seq_id f' = s"
  using snd assms(4,5)
proof (induction n arbitrary: i f)
  case 0
  then show ?case by simp
next
  case (Suc n)
  show ?case
  proof (cases "i < frag_pieces ds fs")
    case True
    obtain b f1 where step: "fragment_ready_to_send frame f clear_buf = Inr (True, b, f1)" "buf_ok b"
        "buf_contents b = frag_packet s ds fs i" "frag_sending frame s ds fs (Suc i) f1"
      using fragment_ready_to_send_step [OF frame Suc.prems(1) True fs] by blast
    have "Suc i \<le> frag_pieces ds fs" "frag_pieces ds fs - Suc i < n" using True Suc.prems(3) by linarith+
    from Suc.IH [OF step(4) this] obtain bs f' where
        "fragment_drain n frame f1 = Inr (bs, f')"
        "map buf_contents bs = map (frag_packet s ds fs) [Suc i..<frag_pieces ds fs]"
        "\<forall>b \<in> set bs. buf_ok b" "\<not> fragment_outgoing_defined f'" "frag_master_ok frame f'" "fm_outgoing_seq_id f' = s"
      by blast
    with step True show ?thesis by (auto simp: upt_conv_Cons)
  next
    case False
    with Suc.prems(2) have "i = frag_pieces ds fs" by simp
    then have "buf_contents (fm_outgoing f) = []"
      using Suc.prems(1) frag_pieces_bounds(2) [OF fs(1,2)] by (simp add: frag_sending_def)
    then have "\<not> fragment_outgoing_defined f"
      using Suc.prems(1) length_buf_contents [of "fm_outgoing f"]
      by (simp add: fragment_outgoing_defined_def frag_sending_def frag_master_ok_def)
    with \<open>i = _\<close> Suc.prems(1) show ?thesis
      by (auto simp: fragment_ready_to_send_def frag_sending_def)
  qed
qed

lemma frag_pieces_le:
  assumes "0 < fs" "length ds \<le> fs * n"
  shows "frag_pieces ds fs \<le> n"
proof -
  have "length ds + fs - 1 < Suc n * fs" using assms by (simp add: mult.commute)
  then show ?thesis unfolding frag_pieces_def using less_mult_imp_div_less less_Suc_eq_le by blast
qed

lemma fragment_send_packets:
  assumes frame: "frame_ok frame" "4 \<le> f_extra_frame frame" and f: "frag_master_ok frame f"
    and b: "buf_ok b" "PAYLOAD_SIZE_DYNAMIC frame < b_len b" "b_len b \<le> PAYLOAD_SIZE frame"
    and fs: "optimal_fragment_size (b_len b) (PAYLOAD_SIZE_DYNAMIC frame) = Inr (int fs)" "0 < fs"
      "int fs \<le> PAYLOAD_SIZE_DYNAMIC frame" "b_len b \<le> int fs * MAX_FRAGS" "0 \<le> PAYLOAD_SIZE_DYNAMIC frame"
  defines "s \<equiv> (fm_outgoing_seq_id f + 1) mod 256" and "ds \<equiv> buf_contents b"
  shows "\<exists>bs f'. fragment_send frame f b = Inr (bs, f') \<and> map buf_contents bs = map (frag_packet s ds fs) [0..<frag_pieces ds fs]
           \<and> (\<forall>b \<in> set bs. buf_ok b) \<and> frag_master_ok frame f' \<and> \<not> fragment_outgoing_defined f' \<and> fm_outgoing_seq_id f' = s"
proof -
  have len: "b_len b = int (length ds)" using length_buf_contents [OF b(1)] by (simp add: ds_def)
  have "0 < int (length ds)" using len b(2) fs(5) by linarith
  then have pos: "0 < length ds" by simp
  have out: "buf_ok (fm_outgoing f)" "b_capacity (fm_outgoing f) = BUF_SIZE frame"
    and q: "0 \<le> fm_outgoing_seq_id f" "fm_outgoing_seq_id f < 256" using f by (simp_all add: frag_master_ok_def)
  have k: "frag_pieces ds fs \<le> 32" using fs(2,4) len by (intro frag_pieces_le) (simp_all add: MAX_FRAGS_def flip: of_nat_mult)
  have pay: "int fs \<le> PAYLOAD_SIZE frame" using fs(3) frame_ok_headroom(6) [OF frame(1)] by simp
  obtain o1 where o1: "buf_init (fm_outgoing f) (FRAME_HEADROOM frame) = (True, o1)" "buf_ok o1" "buf_contents o1 = []"
      "b_capacity o1 = BUF_SIZE frame" "PAYLOAD_SIZE frame \<le> int (buf_room o1)"
    using frag_buf_init_room [OF frame(1) out] by blast
  have "length ds \<le> buf_room o1" using o1(5) b(3) len by linarith
  then obtain o2 where o2: "buf_write o1 ds = (True, o2)" "buf_ok o2" "buf_contents o2 = ds" "b_capacity o2 = BUF_SIZE frame"
    using buf_write_full [OF o1(2), of ds] o1(3,4) by auto
  let ?f = "f\<lparr>fm_outgoing_frag_size := int fs, fm_outgoing := o2, fm_outgoing_seq_id := s, fm_outgoing_frag_id := 0\<rparr>"
  have s: "modulo_add (fm_outgoing_seq_id f) 1 N_SEQ_ID = Inr s"
    using q by (simp add: N_SEQ_ID_def modulo_add_mod s_def)
  have snd: "frag_sending frame s ds fs 0 ?f"
    using f o2 by (simp add: frag_sending_def frag_master_ok_def s_def)
  obtain b1 f1 where r: "fragment_ready_to_send frame ?f (b\<lparr>b_len := 0\<rparr>) = Inr (True, b1, f1)" "buf_ok b1"
      "buf_contents b1 = frag_packet s ds fs 0" "frag_sending frame s ds fs (Suc 0) f1"
    using fragment_ready_to_send_step [OF frame snd _ fs(2) pos pay] frag_pieces_bounds(1) [OF fs(2) pos] by blast
  have out1: "fragment_outgoing frame f b = Inr (b1, f1)"
    using b(2) fs(1,4,5) o1(1) o2(1) s r(1)
    by (simp add: fragment_outgoing_def Let_def buf_copy_def flip: ds_def)
  have "Suc 0 \<le> frag_pieces ds fs" "frag_pieces ds fs - Suc 0 < nat MAX_FRAGS"
    using k frag_pieces_bounds(1) [OF fs(2) pos] by (simp_all add: MAX_FRAGS_def)
  from fragment_drain_packets [OF frame r(4) this fs(2) pos pay] obtain bs f' where d:
      "fragment_drain (nat MAX_FRAGS) frame f1 = Inr (bs, f')"
      "map buf_contents bs = map (frag_packet s ds fs) [Suc 0..<frag_pieces ds fs]"
      "\<forall>b \<in> set bs. buf_ok b" "\<not> fragment_outgoing_defined f'" "frag_master_ok frame f'" "fm_outgoing_seq_id f' = s"
    by blast
  have "fragment_send frame f b = Inr (b1 # bs, f')" using out1 d(1) by (simp add: fragment_send_def)
  moreover have "map buf_contents (b1 # bs) = map (frag_packet s ds fs) [0..<frag_pieces ds fs]"
    using r(3) d(2) frag_pieces_bounds(1) [OF fs(2) pos] by (simp add: upt_conv_Cons)
  ultimately show ?thesis using r(2) d by fastforce
qed

lemma bind_result_assoc:
  "bind_result (bind_result m f) g = bind_result m (\<lambda>x. bind_result (f x) g)"
  by (cases m) auto

lemma frag_feed_append:
  "frag_feed frame f (es @ es') = bind_result (frag_feed frame f es) (\<lambda>(bs, f).
     bind_result (frag_feed frame f es') (\<lambda>(bs', f). Inr (bs @ bs', f)))"
proof (induction es arbitrary: f)
  case Nil
  show ?case by (cases "frag_feed frame f es'") auto
next
  case (Cons ev es)
  then show ?case by (cases ev) (simp_all add: bind_result_assoc case_prod_unfold)
qed

lemma subset_insert_mem: "\<not> A \<subseteq> B \<Longrightarrow> A \<subseteq> insert x B \<Longrightarrow> x \<in> A"
  by blast

lemma frag_rel_initial:
  assumes ok: "frag_list_ok frame l" and h: "(fl_seq_id l - base) mod 256 < e" "e < 25"
  shows "frag_rel frame ds fs t0 base (fl_index l - (fl_seq_id l - base) mod 256) e ((fl_seq_id l - base) mod 256) {} l"
proof -
  have "fl_seq_id l = fl_seq_id l mod 256" "fl_index l = fl_index l mod 25" using ok by (simp_all add: frag_list_ok_def)
  then have "fl_seq_id l = (base + (fl_seq_id l - base) mod 256) mod 256"
    by (simp add: mod_add_right_eq)
  with ok h show ?thesis by (simp add: frag_rel_def frag_window_def frag_list_ok_def)
qed

text \<open>C28. Fragmentation is transparent: a datagram too large for the link leaves the sender as
  fragments; when these reach a receiver in any order, repeated, and mixed with arbitrary other
  traffic whose sequence numbers stay in a window of 25, the fragment that completes the set
  makes the receiver hand on exactly the datagram, and the earlier ones hand on nothing.\<close>

theorem fragment_reassembles:
  assumes send: "frame_ok frame" "4 \<le> f_extra_frame frame" "frag_master_ok frame f" "buf_ok b"
      "PAYLOAD_SIZE_DYNAMIC frame < b_len b" "b_len b \<le> PAYLOAD_SIZE frame"
      "4 \<le> PAYLOAD_SIZE_DYNAMIC frame" "PAYLOAD_SIZE_DYNAMIC frame < 65536"
    and size: "optimal_fragment_size (b_len b) (PAYLOAD_SIZE_DYNAMIC frame) = Inr fs" "b_len b \<le> fs * MAX_FRAGS"
    and sent: "fragment_send frame f b = Inr (bs, f')"
    and recv: "frame_ok frame'" "frag_list_ok frame' (fm_incoming g)" "b_len b \<le> PAYLOAD_SIZE frame'" "0 \<le> f_extra_frame frame'"
    and window: "(fm_outgoing_seq_id f + 1) mod 256 = (base + e) mod 256" "e < 25"
      "(fl_seq_id (fm_incoming g) - base) mod 256 < e"
    and times: "\<forall>ev \<in> set (es @ [Arrive now c]). t0 \<le> frag_event_time ev \<and> frag_event_time ev < t0 + FRAG_TTL_SEC"
    and traffic: "\<forall>x \<in> set (frag_arrivals es @ [c]). buf_ok x
        \<and> (buf_contents x \<in> buf_contents ` set bs \<or> frag_foreign base e (buf_contents x))"
    and before: "\<not> buf_contents ` set bs \<subseteq> buf_contents ` set (frag_arrivals es)"
    and complete: "buf_contents ` set bs \<subseteq> buf_contents ` set (frag_arrivals es @ [c])"
  shows "\<exists>outs out g'. frag_feed frame' g (es @ [Arrive now c]) = Inr (outs @ [out], g')
    \<and> buf_ok out \<and> buf_contents out = buf_contents b
    \<and> list_all2 (\<lambda>x out. buf_contents x \<in> buf_contents ` set bs \<longrightarrow> b_len out = 0) (frag_arrivals es) outs"
proof -
  let ?s = "(base + e) mod 256" and ?ds = "buf_contents b" and ?n = "nat fs"
  have len: "b_len b = int (length ?ds)" using length_buf_contents [OF send(4)] by simp
  have fs: "0 < fs" "fs \<le> PAYLOAD_SIZE_DYNAMIC frame" "4 dvd fs"
    using optimal_fragment_size_same_count [OF send(7), of "b_len b"] size(1) send(5,7) by auto
  then have n: "0 < ?n" "?n < 65536" "int ?n = fs" using send(8) by auto
  then have "int 4 dvd int ?n" using fs(3) by simp
  then have n4: "4 dvd ?n" unfolding int_dvd_int_iff .
  have "0 < int (length ?ds)" using len send(5,7) by linarith
  then have pos: "0 < length ?ds" by simp
  have "(0 :: int) \<le> (fl_seq_id (fm_incoming g) - base) mod 256" by simp
  with window(3) have e: "0 \<le> e" by linarith
  obtain bs0 f0 where "fragment_send frame f b = Inr (bs0, f0)"
      "map buf_contents bs0 = map (frag_packet ?s ?ds ?n) [0..<frag_pieces ?ds ?n]"
    using fragment_send_packets [OF send(1-6), of ?n] size n fs(2) send(7) window(1) by auto
  then have "map buf_contents bs = map (frag_packet ?s ?ds ?n) [0..<frag_pieces ?ds ?n]"
    using sent by simp
  then have "set (map buf_contents bs) = set (map (frag_packet ?s ?ds ?n) [0..<frag_pieces ?ds ?n])" by simp
  then have bs: "buf_contents ` set bs = frag_packet ?s ?ds ?n ` {..<frag_pieces ?ds ?n}"
    by (simp add: atLeast0LessThan)
  have "frame_headroom frame' FRAME_HEADROOM_MARKER_FRAGMENT + int (length ?ds) \<le> BUF_SIZE frame'"
    using frame_ok_headroom(3) [OF recv(1), of FRAME_HEADROOM_MARKER_FRAGMENT] recv(3,4) len by linarith
  moreover have "frag_pieces ?ds ?n \<le> 32"
    using size(2) len n by (intro frag_pieces_le) (auto simp: MAX_FRAGS_def)
  ultimately have ok: "frag_sendable frame' ?ds ?n"
    using n n4 pos by (simp add: frag_sendable_def)
  note rel = frag_rel_initial [OF recv(2) window(3,2), of ?ds ?n t0]
  have received: "frag_received ?s ?ds ?n xs = {..<frag_pieces ?ds ?n} \<longleftrightarrow> buf_contents ` set bs \<subseteq> buf_contents ` set xs" for xs
    unfolding bs by (auto simp: frag_received_def)
  have es: "\<forall>ev \<in> set es. t0 \<le> frag_event_time ev \<and> frag_event_time ev < t0 + FRAG_TTL_SEC"
      "\<forall>x \<in> set (frag_arrivals es). frag_traffic base e ?ds ?n x"
    using times traffic by (auto simp: frag_traffic_def bs)
  have part: "{} \<union> frag_received ?s ?ds ?n (frag_arrivals es) \<noteq> {..<frag_pieces ?ds ?n}"
    using before received by simp
  obtain outs g1 h' where g1: "frag_feed frame' g es = Inr (outs, g1)"
      "frag_rel frame' ?ds ?n t0 base (fl_index (fm_incoming g) - (fl_seq_id (fm_incoming g) - base) mod 256) e h'
         (frag_received ?s ?ds ?n (frag_arrivals es)) (fm_incoming g1)"
      "list_all2 (\<lambda>x out. buf_contents x \<in> buf_contents ` set bs \<longrightarrow> b_len out = 0) (frag_arrivals es) outs"
    using frag_feed_partial [OF recv(1) e window(2) ok rel _ es part] by (auto simp: bs)
  have full: "frag_received ?s ?ds ?n (frag_arrivals es @ [c]) = {..<frag_pieces ?ds ?n}"
    using complete received by blast
  obtain i where i: "i < frag_pieces ?ds ?n" "buf_contents c = frag_packet ?s ?ds ?n i"
  proof -
    have "buf_contents c \<in> buf_contents ` set bs"
      using complete by (intro subset_insert_mem [OF before]) simp
    then show ?thesis using that unfolding bs by auto
  qed
  have "insert i (frag_received ?s ?ds ?n (frag_arrivals es)) = {..<frag_pieces ?ds ?n}"
    using full i frag_received_own [OF ok i(1) _ _ i(2)] by (auto simp: frag_received_def)
  moreover have "buf_ok c" "t0 \<le> now" "frag_received ?s ?ds ?n (frag_arrivals es) \<subseteq> {..<frag_pieces ?ds ?n}"
    using traffic times by (auto simp: frag_received_def)
  ultimately obtain out g' where "fragment_incoming frame' now g1 c = Inr (out, g')" "buf_ok out" "buf_contents out = ?ds"
    using fragment_incoming_own [OF recv(1) g1(2) e window(2) ok _ i(2) _ i(1), of now] by auto
  with g1 show ?thesis by (auto simp: frag_feed_append)
qed

section \<open>Initialization gives the invariant\<close>

lemma alloc_bufs_ok:
  assumes "0 \<le> sz" "sz < BUF_SIZE_MAX"
  shows "\<exists>frs'. alloc_bufs junk sz frs = Inr frs' \<and> length frs' = length frs
           \<and> (\<forall>fr \<in> set frs'. buf_ok (fr_buf fr) \<and> b_capacity (fr_buf fr) = sz)"
proof (induction frs arbitrary: junk)
  case Nil
  show ?case by simp
next
  case (Cons fr frs)
  obtain b where "alloc_buf (junk 0) sz = Inr b" "buf_ok b" "b_capacity b = sz"
    using alloc_buf_ok [OF assms] by blast
  moreover obtain frs' where "alloc_bufs (\<lambda>i. junk (Suc i)) sz frs = Inr frs'" "length frs' = length frs"
      "\<forall>fr \<in> set frs'. buf_ok (fr_buf fr) \<and> b_capacity (fr_buf fr) = sz"
    using Cons.IH [of "\<lambda>i. junk (Suc i)"] by blast
  ultimately show ?case by simp
qed

lemma fragment_frame_init_ok:
  assumes init: "fragment_init rnd now frame0 = (f, frame)" and frame: "frame_ok frame"
  shows "\<exists>f'. fragment_frame_init junk f frame = Inr f' \<and> frag_master_ok frame f'
           \<and> fm_outgoing_seq_id f' = fm_outgoing_seq_id f \<and> fl_seq_id (fm_incoming f') = 0"
proof -
  have sz: "0 \<le> BUF_SIZE frame" "BUF_SIZE frame < BUF_SIZE_MAX"
    using frame_ok_headroom(1,4) [OF frame, of 0] frame_ok_headroom(5) [OF frame] by linarith+
  have f: "length (fl_fragments (fm_incoming f)) = 25" "fl_seq_id (fm_incoming f) = 0" "fl_index (fm_incoming f) = 0"
      "fm_outgoing_seq_id f = c_int rnd AND 255"
    using init by (auto simp: fragment_init_def Let_def N_FRAG_BUF_def N_SEQ_ID_def)
  have q: "0 \<le> c_int rnd AND 255" "c_int rnd AND 255 < 256"
    using take_bit_eq_mask [of 8 "c_int rnd"] take_bit_int_less_exp [of 8 "c_int rnd"] by (simp_all add: mask_eq_exp_minus_1)
  obtain frs where "alloc_bufs (\<lambda>i. junk (i + 2)) (BUF_SIZE frame) (fl_fragments (fm_incoming f)) = Inr frs"
      "length frs = 25" "\<forall>fr \<in> set frs. buf_ok (fr_buf fr) \<and> b_capacity (fr_buf fr) = BUF_SIZE frame"
    using alloc_bufs_ok [OF sz] f(1) by metis
  moreover obtain b0 where "alloc_buf (junk 0) (BUF_SIZE frame) = Inr b0" "buf_ok b0" "b_capacity b0 = BUF_SIZE frame"
    using alloc_buf_ok [OF sz] by blast
  moreover obtain b1 where "alloc_buf (junk 1) (BUF_SIZE frame) = Inr b1" "buf_ok b1" "b_capacity b1 = BUF_SIZE frame"
    using alloc_buf_ok [OF sz] by blast
  ultimately show ?thesis using f q
    by (simp add: fragment_frame_init_def fragment_list_buf_init_def frag_master_ok_def frag_list_ok_def)
qed

section \<open>Examples\<close>

definition ex_frag_frame :: frame where
  "ex_frag_frame = \<lparr>f_link_mtu = 104, f_link_mtu_dynamic = 44, f_extra_frame = 4, f_extra_buffer = 4, f_extra_tun = 0,
                    f_extra_link = 0, f_align_flags = 0, f_align_adjust = 0\<rparr>"

definition ex_frag_datagram :: buffer where
  "ex_frag_datagram = \<lparr>b_capacity = 116, b_offset = 8, b_len = 90, b_data = Some (replicate 116 7)\<rparr>"

lemma ex_frag_frame_ok: "frame_ok ex_frag_frame" "frame_ok (ex_frag_frame\<lparr>f_extra_frame := 4\<rparr>)"
  by (simp_all add: frame_ok_def ex_frag_frame_def frame_sizes BUF_SIZE_MAX_def)

lemma ex_frag_datagram_ok: "buf_ok ex_frag_datagram" "b_len ex_frag_datagram = 90"
  by (simp_all add: ex_frag_datagram_def buf_ok_def BUF_SIZE_MAX_def buf_block_def)

lemma ex_frag_init:
  "\<exists>f. fragment_frame_init (\<lambda>_ _. 0) (fst (fragment_init 0 100 (ex_frag_frame\<lparr>f_extra_frame := 0\<rparr>))) ex_frag_frame = Inr f
     \<and> frag_master_ok ex_frag_frame f \<and> fm_outgoing_seq_id f = 0 \<and> fl_seq_id (fm_incoming f) = 0"
proof -
  let ?i = "fragment_init 0 100 (ex_frag_frame\<lparr>f_extra_frame := 0\<rparr>)"
  have "?i = (fst ?i, ex_frag_frame)"
    by (simp add: fragment_init_def Let_def frame_add_to_extra_frame_def ex_frag_frame_def)
  moreover have "fm_outgoing_seq_id (fst ?i) = 0"
    by (simp add: fragment_init_def Let_def)
  ultimately show ?thesis
    using fragment_frame_init_ok [OF _ ex_frag_frame_ok(1), of 0 100 "ex_frag_frame\<lparr>f_extra_frame := 0\<rparr>" "fst ?i" "\<lambda>_ _. 0"]
    by simp
qed

theorem fragment_incoming_total_witness:
  "\<exists>f b' f'. frag_list_ok ex_frag_frame (fm_incoming f)
     \<and> fragment_incoming ex_frag_frame 7 f ex_frag_datagram = Inr (b', f') \<and> buf_ok b'"
proof -
  obtain f :: fragment_master where "frag_list_ok ex_frag_frame (fm_incoming f)"
    using ex_frag_init by (auto simp: frag_master_ok_def)
  with fragment_incoming_total [OF ex_frag_frame_ok(1) this ex_frag_datagram_ok(1), of 7] show ?thesis by blast
qed

theorem fragment_reassembles_witness:
  "\<exists>f bs f' outs out g'. frag_master_ok ex_frag_frame f
     \<and> fragment_send ex_frag_frame f ex_frag_datagram = Inr (bs, f') \<and> length bs = 3
     \<and> frag_feed ex_frag_frame f [Arrive 5 (bs ! 2), Wakeup 6, Arrive 7 (bs ! 1), Arrive 7 (bs ! 2), Arrive 9 (bs ! 0)]
         = Inr (outs @ [out], g')
     \<and> buf_contents out = buf_contents ex_frag_datagram"
proof -
  let ?F = ex_frag_frame and ?b = ex_frag_datagram
  obtain f where f: "frag_master_ok ?F f" "fm_outgoing_seq_id f = 0" "fl_seq_id (fm_incoming f) = 0"
    using ex_frag_init by blast
  have pay: "PAYLOAD_SIZE_DYNAMIC ?F = 40" "PAYLOAD_SIZE ?F = 100" "f_extra_frame ?F = 4"
    by (simp_all add: ex_frag_frame_def frame_sizes)
  have opt: "optimal_fragment_size 90 40 = Inr 32" by code_simp
  define ds where "ds = buf_contents ?b"
  have len: "length ds = 90" using ex_frag_datagram_ok by (simp add: ds_def)
  then have k: "frag_pieces ds 32 = 3" by (simp add: frag_pieces_def)
  obtain bs f' where send: "fragment_send ?F f ?b = Inr (bs, f')"
      "map buf_contents bs = map (frag_packet 1 ds 32) [0..<3]" "\<forall>b \<in> set bs. buf_ok b"
    using fragment_send_packets [OF ex_frag_frame_ok(1) _ f(1) ex_frag_datagram_ok(1), of 32] opt
    by (auto simp: pay ex_frag_datagram_ok(2) f(2) MAX_FRAGS_def k simp flip: ds_def)
  have "length (map buf_contents bs) = 3" unfolding send(2) by simp
  then have l3: "length bs = 3" by simp
  then obtain b0 b1 b2 where bs: "bs = [b0, b1, b2]" by (auto simp: numeral_3_eq_3 length_Suc_conv)
  have cs: "buf_contents b0 = frag_packet 1 ds 32 0" "buf_contents b1 = frag_packet 1 ds 32 1" "buf_contents b2 = frag_packet 1 ds 32 2"
    using send(2) by (simp_all add: bs upt_rec numeral_2_eq_2)
  have sendable: "frag_sendable ?F ds 32"
    using len frame_ok_headroom(3) [OF ex_frag_frame_ok(1), of FRAME_HEADROOM_MARKER_FRAGMENT]
    by (simp add: frag_sendable_def k pay)
  have "buf_contents b0 \<noteq> buf_contents b1" "buf_contents b0 \<noteq> buf_contents b2"
    using frag_packet_inj [OF sendable, of 0 1 1] frag_packet_inj [OF sendable, of 0 2 1] by (auto simp: cs k)
  note distinct = this
  let ?es = "[Arrive 5 b2, Wakeup 6, Arrive 7 b1, Arrive 7 b2]"
  have "\<exists>outs out g'. frag_feed ?F f (?es @ [Arrive 9 b0]) = Inr (outs @ [out], g') \<and> buf_ok out \<and> buf_contents out = buf_contents ?b
    \<and> list_all2 (\<lambda>x out. buf_contents x \<in> buf_contents ` set bs \<longrightarrow> b_len out = 0) (frag_arrivals ?es) outs"
    using distinct send f opt
    by (intro fragment_reassembles [where frame = ?F and f = f and fs = 32 and base = 0 and e = 1 and ?t0.0 = 5])
       (auto simp: pay ex_frag_datagram_ok ex_frag_frame_ok MAX_FRAGS_def FRAG_TTL_SEC_def bs frag_master_ok_def)
  then show ?thesis using f(1) send(1) l3 by (auto simp: bs)
qed

end
