(* ===== verification/Schedule.thy ===== *)
theory Schedule
  imports Timers "HOL-Library.Multiset" "HOL-Library.Tree"
begin

text \<open>
  The scheduler of the multi-client server (schedule.h, schedule.c): wakeup times in a random
  treap whose nodes are the callers' own \<open>struct schedule_entry\<close> objects.

  The store is a map from the address of an entry to its value, since rotations change the links
  of several entries; \<open>NULL\<close> is \<open>None\<close>.  The values of \<open>random ()\<close> are a list that the operations
  consume.  The loops are partial functions: \<open>None\<close> stands for not returning (or for an
  exhausted list of random numbers); the theorems prove that they return.
\<close>

section \<open>State\<close>

record schedule_entry =
  se_tv :: timeval
  se_pri :: u32
  se_parent :: "nat option"
  se_lt :: "nat option"
  se_gt :: "nat option"

record schedule =
  sd_earliest_wakeup :: "nat option"
  sd_root :: "nat option"
  sd_heap :: "nat \<Rightarrow> schedule_entry"

definition se_set :: "nat \<Rightarrow> (schedule_entry \<Rightarrow> schedule_entry) \<Rightarrow> schedule \<Rightarrow> schedule" where
  \<comment> \<open>an assignment through the pointer \<open>a\<close>\<close>
  "se_set a f s = s\<lparr>sd_heap := (sd_heap s)(a := f (sd_heap s a))\<rparr>"

definition IN_TREE :: "schedule \<Rightarrow> nat \<Rightarrow> bool" where
  "IN_TREE s e \<longleftrightarrow> se_pri (sd_heap s e) \<noteq> 0"

section \<open>Operations\<close>

definition schedule_init :: "(nat \<Rightarrow> schedule_entry) \<Rightarrow> schedule" where
  "schedule_init objs = \<lparr>sd_earliest_wakeup = None, sd_root = None, sd_heap = objs\<rparr>"

definition schedule_set_pri :: "nat \<Rightarrow> u32 \<Rightarrow> schedule \<Rightarrow> schedule" where
  \<comment> \<open>\<open>r\<close> is the value of \<open>random ()\<close>\<close>
  "schedule_set_pri e r s = se_set e (\<lambda>x. x\<lparr>se_pri := (if r < 1 then 1 else r)\<rparr>) s"

definition schedule_entry_compare :: "schedule_entry \<Rightarrow> schedule_entry \<Rightarrow> int" where
  "schedule_entry_compare e1 e2 =
     (if tv_sec (se_tv e1) < tv_sec (se_tv e2) then - 1
      else if tv_sec (se_tv e1) > tv_sec (se_tv e2) then 1
      else if tv_usec (se_tv e1) < tv_usec (se_tv e2) then - 1
      else if tv_usec (se_tv e1) > tv_usec (se_tv e2) then 1
      else if se_pri e1 < se_pri e2 then - 1
      else if se_pri e1 > se_pri e2 then 1
      else 0)"

definition schedule_detach_parent :: "schedule \<Rightarrow> nat option \<Rightarrow> schedule result" where
  "schedule_detach_parent s e =
     (case e of None \<Rightarrow> Inr s
      | Some e \<Rightarrow>
          (case se_parent (sd_heap s e) of
             Some p \<Rightarrow>
               (if se_lt (sd_heap s p) = Some e
                then Inr (se_set e (\<lambda>x. x\<lparr>se_parent := None\<rparr>) (se_set p (\<lambda>x. x\<lparr>se_lt := None\<rparr>) s))
                else if se_gt (sd_heap s p) = Some e
                then Inr (se_set e (\<lambda>x. x\<lparr>se_parent := None\<rparr>) (se_set p (\<lambda>x. x\<lparr>se_gt := None\<rparr>) s))
                else Inl AssertFailed)
           | None \<Rightarrow> Inr (if sd_root s = Some e then s\<lparr>sd_root := None\<rparr> else s)))"

definition rotate_grandparent :: "schedule \<Rightarrow> nat \<Rightarrow> nat \<Rightarrow> nat option \<Rightarrow> schedule result" where
  \<comment> \<open>the link that pointed to \<open>p\<close> now points to \<open>e\<close>\<close>
  "rotate_grandparent s e p gp =
     (case gp of
        Some g \<Rightarrow> (if se_gt (sd_heap s g) = Some p then Inr (se_set g (\<lambda>x. x\<lparr>se_gt := Some e\<rparr>) s)
                   else if se_lt (sd_heap s g) = Some p then Inr (se_set g (\<lambda>x. x\<lparr>se_lt := Some e\<rparr>) s)
                   else Inl AssertFailed)
      | None \<Rightarrow> Inr (s\<lparr>sd_root := Some e\<rparr>))"

definition rotate_reorient :: "schedule \<Rightarrow> nat \<Rightarrow> nat \<Rightarrow> nat option \<Rightarrow> nat option \<Rightarrow> schedule result" where
  "rotate_reorient s e p lt gt =
     (if se_gt (sd_heap s p) = Some e
      then (let s = se_set p (\<lambda>x. x\<lparr>se_gt := lt\<rparr>) (se_set e (\<lambda>x. x\<lparr>se_lt := Some p\<rparr>) s)
            in Inr (case lt of None \<Rightarrow> s | Some l \<Rightarrow> se_set l (\<lambda>x. x\<lparr>se_parent := Some p\<rparr>) s))
      else if se_lt (sd_heap s p) = Some e
      then (let s = se_set p (\<lambda>x. x\<lparr>se_lt := gt\<rparr>) (se_set e (\<lambda>x. x\<lparr>se_gt := Some p\<rparr>) s)
            in Inr (case gt of None \<Rightarrow> s | Some g \<Rightarrow> se_set g (\<lambda>x. x\<lparr>se_parent := Some p\<rparr>) s))
      else Inl AssertFailed)"

definition schedule_rotate_up :: "schedule \<Rightarrow> nat option \<Rightarrow> schedule result" where
  "schedule_rotate_up s e =
     (case e of None \<Rightarrow> Inr s
      | Some e \<Rightarrow>
          (case se_parent (sd_heap s e) of None \<Rightarrow> Inr s
           | Some p \<Rightarrow>
               (let lt = se_lt (sd_heap s e); gt = se_gt (sd_heap s e); gp = se_parent (sd_heap s p)
                in bind_result (rotate_grandparent s e p gp) (\<lambda>s.
                     rotate_reorient
                       (se_set p (\<lambda>x. x\<lparr>se_parent := Some e\<rparr>) (se_set e (\<lambda>x. x\<lparr>se_parent := gp\<rparr>) s))
                       e p lt gt))))"

definition remove_child :: "schedule \<Rightarrow> nat \<Rightarrow> nat option" where
  \<comment> \<open>the child that the loop of \<open>schedule_remove_node\<close> rotates up\<close>
  "remove_child s e =
     (case (se_lt (sd_heap s e), se_gt (sd_heap s e)) of
        (Some l, Some g) \<Rightarrow> if se_pri (sd_heap s l) < se_pri (sd_heap s g) then Some l else Some g
      | (Some l, None) \<Rightarrow> Some l
      | (None, g) \<Rightarrow> g)"

partial_function (option) remove_loop :: "schedule \<Rightarrow> nat \<Rightarrow> schedule result option" where
  "remove_loop s e =
     (if se_lt (sd_heap s e) \<noteq> None \<or> se_gt (sd_heap s e) \<noteq> None
      then (case schedule_rotate_up s (remove_child s e) of Inl x \<Rightarrow> Some (Inl x) | Inr s \<Rightarrow> remove_loop s e)
      else Some (Inr s))"

definition schedule_remove_node :: "schedule \<Rightarrow> nat \<Rightarrow> schedule result option" where
  "schedule_remove_node s e =
     map_option (\<lambda>r. bind_result r (\<lambda>s.
       bind_result (schedule_detach_parent s (Some e)) (\<lambda>s. Inr (se_set e (\<lambda>x. x\<lparr>se_pri := 0\<rparr>) s))))
       (remove_loop s e)"

partial_function (option) insert_loop :: "schedule \<Rightarrow> nat \<Rightarrow> nat \<Rightarrow> u32 list \<Rightarrow> (schedule \<times> u32 list) option" where
  \<comment> \<open>\<open>c\<close> is the node the loop of \<open>schedule_insert\<close> is at\<close>
  "insert_loop s e c rs =
     (let comp = schedule_entry_compare (sd_heap s e) (sd_heap s c)
      in if comp = - 1
         then (case se_lt (sd_heap s c) of
                 Some l \<Rightarrow> insert_loop s e l rs
               | None \<Rightarrow> Some (se_set e (\<lambda>x. x\<lparr>se_parent := Some c\<rparr>) (se_set c (\<lambda>x. x\<lparr>se_lt := Some e\<rparr>) s), rs))
         else if comp = 1
         then (case se_gt (sd_heap s c) of
                 Some g \<Rightarrow> insert_loop s e g rs
               | None \<Rightarrow> Some (se_set e (\<lambda>x. x\<lparr>se_parent := Some c\<rparr>) (se_set c (\<lambda>x. x\<lparr>se_gt := Some e\<rparr>) s), rs))
         else (case (rs, sd_root s) of
                 (r # rs, Some root) \<Rightarrow> insert_loop (schedule_set_pri e r s) e root rs
               | _ \<Rightarrow> None))"

definition schedule_insert :: "schedule \<Rightarrow> nat \<Rightarrow> u32 list \<Rightarrow> (schedule \<times> u32 list) option" where
  "schedule_insert s e rs = (case sd_root s of Some c \<Rightarrow> insert_loop s e c rs | None \<Rightarrow> None)"

partial_function (option) rise_loop :: "schedule \<Rightarrow> nat \<Rightarrow> schedule result option" where
  \<comment> \<open>the last loop of \<open>schedule_add_modify\<close>\<close>
  "rise_loop s e =
     (case se_parent (sd_heap s e) of
        Some p \<Rightarrow> (if se_pri (sd_heap s p) > se_pri (sd_heap s e)
                   then (case schedule_rotate_up s (Some e) of Inl x \<Rightarrow> Some (Inl x) | Inr s \<Rightarrow> rise_loop s e)
                   else Some (Inr s))
      | None \<Rightarrow> Some (Inr s))"

definition schedule_add_modify :: "schedule \<Rightarrow> nat \<Rightarrow> u32 list \<Rightarrow> (schedule \<times> u32 list) result option" where
  "schedule_add_modify s e rs =
     Option.bind (if IN_TREE s e then schedule_remove_node s e else Some (Inr s)) (\<lambda>r.
       case (r, rs) of
         (Inl x, _) \<Rightarrow> Some (Inl x)
       | (Inr s, []) \<Rightarrow> None
       | (Inr s, r # rs) \<Rightarrow>
           (let s = schedule_set_pri e r s
            in Option.bind (if sd_root s \<noteq> None then schedule_insert s e rs else Some (s\<lparr>sd_root := Some e\<rparr>, rs))
                 (\<lambda>(s, rs). map_option (\<lambda>r. bind_result r (\<lambda>s. Inr (s, rs))) (rise_loop s e))))"

definition schedule_add_entry ::
    "schedule \<Rightarrow> nat \<Rightarrow> timeval \<Rightarrow> u32 \<Rightarrow> u32 list \<Rightarrow> (schedule \<times> u32 list) result option" where
  "schedule_add_entry s e tv sigma rs =
     (if \<not> IN_TREE s e \<or> sigma = 0 \<or> \<not> tv_within_sigma tv (se_tv (sd_heap s e)) sigma
      then map_option (\<lambda>r. bind_result r (\<lambda>(s, rs). Inr (s\<lparr>sd_earliest_wakeup := None\<rparr>, rs)))
             (schedule_add_modify (se_set e (\<lambda>x. x\<lparr>se_tv := tv\<rparr>) s) e rs)
      else Some (Inr (s, rs)))"

partial_function (option) least_loop :: "(nat \<Rightarrow> schedule_entry) \<Rightarrow> nat \<Rightarrow> nat option" where
  "least_loop h e = (case se_lt (h e) of Some l \<Rightarrow> least_loop h l | None \<Rightarrow> Some e)"

definition schedule_find_least :: "schedule \<Rightarrow> nat option \<Rightarrow> nat option option" where
  "schedule_find_least s e = (case e of None \<Rightarrow> Some None | Some e \<Rightarrow> map_option Some (least_loop (sd_heap s) e))"

definition schedule_get_earliest_wakeup ::
    "schedule \<Rightarrow> timeval \<Rightarrow> (nat option \<times> timeval \<times> schedule) option" where
  "schedule_get_earliest_wakeup s wakeup =
     Option.bind (if sd_earliest_wakeup s = None then schedule_find_least s (sd_root s) else Some (sd_earliest_wakeup s))
       (\<lambda>ret. Some (ret, (case ret of None \<Rightarrow> wakeup | Some e \<Rightarrow> se_tv (sd_heap s e)), s\<lparr>sd_earliest_wakeup := ret\<rparr>))"

definition schedule_remove_entry :: "schedule \<Rightarrow> nat \<Rightarrow> schedule result option" where
  "schedule_remove_entry s e = schedule_remove_node (s\<lparr>sd_earliest_wakeup := None\<rparr>) e"

section \<open>The tree in the store\<close>

fun shape :: "(nat \<Rightarrow> schedule_entry) \<Rightarrow> nat option \<Rightarrow> nat option \<Rightarrow> nat tree \<Rightarrow> bool" where
  \<comment> \<open>the pointer \<open>p\<close>, found in an entry \<open>par\<close>, leads to the tree\<close>
  "shape h par p \<langle>\<rangle> \<longleftrightarrow> p = None"
| "shape h par p \<langle>l, a, r\<rangle> \<longleftrightarrow> p = Some a \<and> se_parent (h a) = par
     \<and> shape h (Some a) (se_lt (h a)) l \<and> shape h (Some a) (se_gt (h a)) r"

text \<open>A position in the tree: the steps from it up to the root.\<close>

datatype step = LeftOf nat "nat tree" | RightOf "nat tree" nat

fun plug :: "step list \<Rightarrow> nat tree \<Rightarrow> nat tree" where
  "plug [] t = t"
| "plug (LeftOf a r # cs) t = plug cs \<langle>t, a, r\<rangle>"
| "plug (RightOf l a # cs) t = plug cs \<langle>l, a, t\<rangle>"

fun path_parent :: "step list \<Rightarrow> nat option" where
  "path_parent [] = None"
| "path_parent (LeftOf a r # cs) = Some a"
| "path_parent (RightOf l a # cs) = Some a"

fun path_list :: "step list \<Rightarrow> nat list" where
  "path_list [] = []"
| "path_list (LeftOf a r # cs) = a # inorder r @ path_list cs"
| "path_list (RightOf l a # cs) = a # inorder l @ path_list cs"

fun path_shape :: "(nat \<Rightarrow> schedule_entry) \<Rightarrow> nat option \<Rightarrow> nat option \<Rightarrow> step list \<Rightarrow> bool" where
  \<comment> \<open>the steps are in the store, and their open end is the pointer \<open>q\<close>\<close>
  "path_shape h root q [] \<longleftrightarrow> root = q"
| "path_shape h root q (LeftOf a r # cs) \<longleftrightarrow> se_lt (h a) = q \<and> se_parent (h a) = path_parent cs
     \<and> shape h (Some a) (se_gt (h a)) r \<and> path_shape h root (Some a) cs"
| "path_shape h root q (RightOf l a # cs) \<longleftrightarrow> se_gt (h a) = q \<and> se_parent (h a) = path_parent cs
     \<and> shape h (Some a) (se_lt (h a)) l \<and> path_shape h root (Some a) cs"

definition zip_at :: "schedule \<Rightarrow> step list \<Rightarrow> nat option \<Rightarrow> nat tree \<Rightarrow> bool" where
  "zip_at s cs q t \<longleftrightarrow> path_shape (sd_heap s) (sd_root s) q cs \<and> shape (sd_heap s) (path_parent cs) q t
     \<and> distinct (inorder t @ path_list cs)"

lemma shape_upd [simp]: "a \<notin> set_tree t \<Longrightarrow> shape (h(a := x)) par p t \<longleftrightarrow> shape h par p t"
  by (induction t arbitrary: par p) auto

lemma shape_agree: "(\<And>x. x \<in> set_tree t \<Longrightarrow> h' x = h x) \<Longrightarrow> shape h' par p t \<longleftrightarrow> shape h par p t"
  by (induction t arbitrary: par p) auto

lemma path_shape_upd [simp]:
  "a \<notin> set (path_list cs) \<Longrightarrow> path_shape (h(a := x)) root q cs \<longleftrightarrow> path_shape h root q cs"
  by (induction cs arbitrary: q rule: path_list.induct) auto

lemma shape_Some_iff: "shape h par (Some a) t \<longleftrightarrow>
    (\<exists>l r. t = \<langle>l, a, r\<rangle> \<and> se_parent (h a) = par \<and> shape h (Some a) (se_lt (h a)) l \<and> shape h (Some a) (se_gt (h a)) r)"
  by (cases t) auto

lemma shape_None [simp]: "shape h par None t \<longleftrightarrow> t = \<langle>\<rangle>"
  by (cases t) auto

lemma shape_reparent:
  assumes "shape h par (Some a) t" "distinct (inorder t)"
  shows "shape (h(a := (h a)\<lparr>se_parent := par'\<rparr>)) par' (Some a) t"
  using assms by (auto simp: shape_Some_iff)

lemma mset_inorder_plug: "mset (inorder (plug cs t)) = mset (inorder t @ path_list cs)"
  by (induction cs t rule: plug.induct) auto

lemma distinct_plug: "distinct (inorder (plug cs t)) \<longleftrightarrow> distinct (inorder t @ path_list cs)"
  by (rule mset_eq_imp_distinct_iff) (rule mset_inorder_plug)

lemma set_plug: "set_tree (plug cs t) = set_tree t \<union> set (path_list cs)"
  using mset_inorder_plug [of cs t, THEN mset_eq_setD] by simp

lemma shape_plug:
  "shape h None root (plug cs t) \<longleftrightarrow> (\<exists>q. path_shape h root q cs \<and> shape h (path_parent cs) q t)"
proof (induction cs t rule: plug.induct)
  case (1 t)
  show ?case by simp
next
  case (2 a r cs t)
  then show ?case by auto
next
  case (3 l a cs t)
  then show ?case by auto
qed

lemma zip_at_plug:
  "(\<exists>q. zip_at s cs q t) \<longleftrightarrow> shape (sd_heap s) None (sd_root s) (plug cs t) \<and> distinct (inorder (plug cs t))"
  by (auto simp: zip_at_def shape_plug distinct_plug)

section \<open>Rotations\<close>

definition keys_kept :: "schedule \<Rightarrow> schedule \<Rightarrow> bool" where
  \<comment> \<open>only links have changed\<close>
  "keys_kept s s' \<longleftrightarrow> (\<forall>x. se_tv (sd_heap s' x) = se_tv (sd_heap s x) \<and> se_pri (sd_heap s' x) = se_pri (sd_heap s x))
     \<and> sd_earliest_wakeup s' = sd_earliest_wakeup s"

definition outside_kept :: "nat set \<Rightarrow> schedule \<Rightarrow> schedule \<Rightarrow> bool" where
  "outside_kept A s s' \<longleftrightarrow> (\<forall>x. x \<notin> A \<longrightarrow> sd_heap s' x = sd_heap s x)"

lemma keys_kept_refl [simp]: "keys_kept s s"
  by (simp add: keys_kept_def)

lemma keys_kept_trans: "keys_kept s1 s2 \<Longrightarrow> keys_kept s2 s3 \<Longrightarrow> keys_kept s1 s3"
  by (simp add: keys_kept_def)

lemma outside_kept_refl [simp]: "outside_kept A s s"
  by (simp add: outside_kept_def)

lemma outside_kept_trans: "outside_kept A s1 s2 \<Longrightarrow> outside_kept A s2 s3 \<Longrightarrow> outside_kept A s1 s3"
  by (simp add: outside_kept_def)

lemma rotate_grandparent_ok:
  assumes "path_shape (sd_heap s) (sd_root s) (Some p) cs" "distinct (path_list cs)" "p \<notin> set (path_list cs)"
    "e \<notin> set (path_list cs)" "e \<noteq> p"
  shows "\<exists>s'. rotate_grandparent s e p (path_parent cs) = Inr s' \<and> path_shape (sd_heap s') (sd_root s') (Some e) cs
           \<and> keys_kept s s' \<and> outside_kept (set (path_list cs)) s s'"
proof (cases cs rule: path_parent.cases)
  case 1
  with assms show ?thesis
    by (simp add: rotate_grandparent_def keys_kept_def outside_kept_def)
next
  case (2 g r cs')
  then have "se_gt (sd_heap s g) \<noteq> Some p"
    using assms by (auto simp: shape_Some_iff)
  with 2 assms show ?thesis
    by (auto simp: rotate_grandparent_def se_set_def keys_kept_def outside_kept_def)
next
  case (3 l g cs')
  with assms show ?thesis
    by (auto simp: rotate_grandparent_def se_set_def keys_kept_def outside_kept_def)
qed

lemma rotate_right:
  assumes z: "zip_at s (LeftOf p r # cs) (Some e) \<langle>a, e, b\<rangle>"
  shows "\<exists>s'. schedule_rotate_up s (Some e) = Inr s' \<and> zip_at s' cs (Some e) \<langle>a, e, \<langle>b, p, r\<rangle>\<rangle>
           \<and> keys_kept s s' \<and> outside_kept (set_tree (plug cs \<langle>\<langle>a, e, b\<rangle>, p, r\<rangle>)) s s'"
proof -
  let ?h = "sd_heap s"
  have sh: "se_parent (?h e) = Some p" "shape ?h (Some e) (se_lt (?h e)) a" "shape ?h (Some e) (se_gt (?h e)) b"
      "se_lt (?h p) = Some e" "se_parent (?h p) = path_parent cs" "shape ?h (Some p) (se_gt (?h p)) r"
      "path_shape ?h (sd_root s) (Some p) cs"
    and d: "distinct (inorder a @ e # inorder b @ p # inorder r @ path_list cs)"
    using z by (auto simp: zip_at_def)
  then obtain s1 where s1: "rotate_grandparent s e p (path_parent cs) = Inr s1"
      "path_shape (sd_heap s1) (sd_root s1) (Some e) cs" "keys_kept s s1" "outside_kept (set (path_list cs)) s s1"
    using rotate_grandparent_ok [of s p cs e] by auto
  let ?g = "sd_heap s1"
  have same: "?g x = ?h x" if "x \<notin> set (path_list cs)" for x using s1(4) that by (simp add: outside_kept_def)
  have g: "shape ?g par q t \<longleftrightarrow> shape ?h par q t" if "set_tree t \<inter> set (path_list cs) = {}" for par q t
    using that by (intro shape_agree same) auto
  have disj: "set_tree a \<inter> set (path_list cs) = {}" "set_tree b \<inter> set (path_list cs) = {}" "set_tree r \<inter> set (path_list cs) = {}"
    using d by auto
  have ep: "?g e = ?h e" "?g p = ?h p" using d by (auto intro: same)
  have gt: "se_gt (?h p) \<noteq> Some e" using sh(6) d by (auto simp: shape_Some_iff)
  have shg: "shape ?g (Some e) (se_lt (?h e)) a" "shape ?g (Some e) (se_gt (?h e)) b" "shape ?g (Some p) (se_gt (?h p)) r"
    using sh(2,3,6) disj by (simp_all add: g)
  let ?s2 = "se_set p (\<lambda>x. x\<lparr>se_lt := se_gt (?h e)\<rparr>) (se_set e (\<lambda>x. x\<lparr>se_gt := Some p\<rparr>)
     (se_set p (\<lambda>x. x\<lparr>se_parent := Some e\<rparr>) (se_set e (\<lambda>x. x\<lparr>se_parent := path_parent cs\<rparr>) s1)))"
  let ?s3 = "case se_gt (?h e) of None \<Rightarrow> ?s2 | Some g \<Rightarrow> se_set g (\<lambda>x. x\<lparr>se_parent := Some p\<rparr>) ?s2"
  have rot: "schedule_rotate_up s (Some e) = Inr ?s3"
    using sh s1(1) d gt ep by (simp add: schedule_rotate_up_def Let_def rotate_reorient_def se_set_def split: option.split)
  show ?thesis
  proof (cases "se_gt (?h e)")
    case None
    then have "b = \<langle>\<rangle>" using sh(3) by simp
    have "zip_at ?s2 cs (Some e) \<langle>a, e, \<langle>b, p, r\<rangle>\<rangle>"
      using shg s1(2) d ep None \<open>b = \<langle>\<rangle>\<close> by (auto simp: zip_at_def se_set_def)
    moreover have "keys_kept s ?s2" using s1(3) by (auto simp: keys_kept_def se_set_def)
    moreover have "outside_kept (set_tree (plug cs \<langle>\<langle>a, e, b\<rangle>, p, r\<rangle>)) s ?s2"
      using s1(4) by (auto simp: outside_kept_def se_set_def set_plug)
    ultimately show ?thesis using rot None by simp
  next
    case (Some x)
    then obtain bl br where b: "b = \<langle>bl, x, br\<rangle>" using sh(3) by (auto simp: shape_Some_iff)
    let ?s3 = "se_set x (\<lambda>x. x\<lparr>se_parent := Some p\<rparr>) ?s2"
    have "x \<noteq> e" "x \<noteq> p" "x \<notin> set_tree a" "x \<notin> set_tree r" "x \<notin> set (path_list cs)" "x \<notin> set_tree bl" "x \<notin> set_tree br"
      using d b by auto
    then have "zip_at ?s3 cs (Some e) \<langle>a, e, \<langle>b, p, r\<rangle>\<rangle>"
      using shg s1(2) d ep Some b by (auto simp: zip_at_def se_set_def)
    moreover have "keys_kept s ?s3" using s1(3) by (auto simp: keys_kept_def se_set_def)
    moreover have "outside_kept (set_tree (plug cs \<langle>\<langle>a, e, b\<rangle>, p, r\<rangle>)) s ?s3"
      using s1(4) b by (auto simp: outside_kept_def se_set_def set_plug)
    ultimately show ?thesis using rot Some by simp
  qed
qed

lemma rotate_left:
  assumes z: "zip_at s (RightOf r p # cs) (Some e) \<langle>a, e, b\<rangle>"
  shows "\<exists>s'. schedule_rotate_up s (Some e) = Inr s' \<and> zip_at s' cs (Some e) \<langle>\<langle>r, p, a\<rangle>, e, b\<rangle>
           \<and> keys_kept s s' \<and> outside_kept (set_tree (plug cs \<langle>r, p, \<langle>a, e, b\<rangle>\<rangle>)) s s'"
proof -
  let ?h = "sd_heap s"
  have sh: "se_parent (?h e) = Some p" "shape ?h (Some e) (se_lt (?h e)) a" "shape ?h (Some e) (se_gt (?h e)) b"
      "se_gt (?h p) = Some e" "se_parent (?h p) = path_parent cs" "shape ?h (Some p) (se_lt (?h p)) r"
      "path_shape ?h (sd_root s) (Some p) cs"
    and d: "distinct (inorder a @ e # inorder b @ p # inorder r @ path_list cs)"
    using z by (auto simp: zip_at_def)
  then obtain s1 where s1: "rotate_grandparent s e p (path_parent cs) = Inr s1"
      "path_shape (sd_heap s1) (sd_root s1) (Some e) cs" "keys_kept s s1" "outside_kept (set (path_list cs)) s s1"
    using rotate_grandparent_ok [of s p cs e] by auto
  let ?g = "sd_heap s1"
  have same: "?g x = ?h x" if "x \<notin> set (path_list cs)" for x using s1(4) that by (simp add: outside_kept_def)
  have g: "shape ?g par q t \<longleftrightarrow> shape ?h par q t" if "set_tree t \<inter> set (path_list cs) = {}" for par q t
    using that by (intro shape_agree same) auto
  have disj: "set_tree a \<inter> set (path_list cs) = {}" "set_tree b \<inter> set (path_list cs) = {}" "set_tree r \<inter> set (path_list cs) = {}"
    using d by auto
  have ep: "?g e = ?h e" "?g p = ?h p" using d by (auto intro: same)
  have shg: "shape ?g (Some e) (se_lt (?h e)) a" "shape ?g (Some e) (se_gt (?h e)) b" "shape ?g (Some p) (se_lt (?h p)) r"
    using sh(2,3,6) disj by (simp_all add: g)
  let ?s2 = "se_set p (\<lambda>x. x\<lparr>se_gt := se_lt (?h e)\<rparr>) (se_set e (\<lambda>x. x\<lparr>se_lt := Some p\<rparr>)
     (se_set p (\<lambda>x. x\<lparr>se_parent := Some e\<rparr>) (se_set e (\<lambda>x. x\<lparr>se_parent := path_parent cs\<rparr>) s1)))"
  let ?s3 = "case se_lt (?h e) of None \<Rightarrow> ?s2 | Some g \<Rightarrow> se_set g (\<lambda>x. x\<lparr>se_parent := Some p\<rparr>) ?s2"
  have rot: "schedule_rotate_up s (Some e) = Inr ?s3"
    using sh s1(1) d ep by (simp add: schedule_rotate_up_def Let_def rotate_reorient_def se_set_def split: option.split)
  show ?thesis
  proof (cases "se_lt (?h e)")
    case None
    then have "a = \<langle>\<rangle>" using sh(2) by simp
    have "zip_at ?s2 cs (Some e) \<langle>\<langle>r, p, a\<rangle>, e, b\<rangle>"
      using shg s1(2) d ep None \<open>a = \<langle>\<rangle>\<close> by (auto simp: zip_at_def se_set_def)
    moreover have "keys_kept s ?s2" using s1(3) by (auto simp: keys_kept_def se_set_def)
    moreover have "outside_kept (set_tree (plug cs \<langle>r, p, \<langle>a, e, b\<rangle>\<rangle>)) s ?s2"
      using s1(4) by (auto simp: outside_kept_def se_set_def set_plug)
    ultimately show ?thesis using rot None by simp
  next
    case (Some x)
    then obtain bl br where b: "a = \<langle>bl, x, br\<rangle>" using sh(2) by (auto simp: shape_Some_iff)
    let ?s3 = "se_set x (\<lambda>x. x\<lparr>se_parent := Some p\<rparr>) ?s2"
    have "x \<noteq> e" "x \<noteq> p" "x \<notin> set_tree b" "x \<notin> set_tree r" "x \<notin> set (path_list cs)" "x \<notin> set_tree bl" "x \<notin> set_tree br"
      using d b by auto
    then have "zip_at ?s3 cs (Some e) \<langle>\<langle>r, p, a\<rangle>, e, b\<rangle>"
      using shg s1(2) d ep Some b by (auto simp: zip_at_def se_set_def)
    moreover have "keys_kept s ?s3" using s1(3) by (auto simp: keys_kept_def se_set_def)
    moreover have "outside_kept (set_tree (plug cs \<langle>r, p, \<langle>a, e, b\<rangle>\<rangle>)) s ?s3"
      using s1(4) b by (auto simp: outside_kept_def se_set_def set_plug)
    ultimately show ?thesis using rot Some by simp
  qed
qed

section \<open>Priorities\<close>

fun prio_tree :: "(nat \<Rightarrow> u32) \<Rightarrow> u32 \<Rightarrow> nat tree \<Rightarrow> bool" where
  \<comment> \<open>priorities grow downwards, from at least \<open>m\<close>\<close>
  "prio_tree f m \<langle>\<rangle> \<longleftrightarrow> True"
| "prio_tree f m \<langle>l, a, r\<rangle> \<longleftrightarrow> m \<le> f a \<and> prio_tree f (f a) l \<and> prio_tree f (f a) r"

fun path_prio :: "(nat \<Rightarrow> u32) \<Rightarrow> step list \<Rightarrow> u32" where
  "path_prio f cs = (case path_parent cs of None \<Rightarrow> 0 | Some a \<Rightarrow> f a)"

fun prio_path :: "(nat \<Rightarrow> u32) \<Rightarrow> step list \<Rightarrow> bool" where
  "prio_path f [] \<longleftrightarrow> True"
| "prio_path f (LeftOf a r # cs) \<longleftrightarrow> path_prio f cs \<le> f a \<and> prio_tree f (f a) r \<and> prio_path f cs"
| "prio_path f (RightOf l a # cs) \<longleftrightarrow> path_prio f cs \<le> f a \<and> prio_tree f (f a) l \<and> prio_path f cs"

lemma prio_plug: "prio_tree f 0 (plug cs t) \<longleftrightarrow> prio_path f cs \<and> prio_tree f (path_prio f cs) t"
  by (induction cs t rule: plug.induct) auto

lemma prio_tree_mono: "prio_tree f m t \<Longrightarrow> m' \<le> m \<Longrightarrow> prio_tree f m' t"
  by (cases t) auto

lemma prio_tree_cong: "(\<And>a. a \<in> set_tree t \<Longrightarrow> f a = g a) \<Longrightarrow> prio_tree f m t = prio_tree g m t"
  by (induction t arbitrary: m) auto

abbreviation sched_pri :: "schedule \<Rightarrow> nat \<Rightarrow> u32" where
  "sched_pri s \<equiv> (\<lambda>a. se_pri (sd_heap s a))"

lemma keys_kept_pri: "keys_kept s s' \<Longrightarrow> sched_pri s' = sched_pri s"
  by (auto simp: keys_kept_def)

section \<open>Moving the position\<close>

lemma zip_left: "zip_at s cs (Some e) \<langle>t, e, r\<rangle> \<longleftrightarrow> zip_at s (LeftOf e r # cs) (se_lt (sd_heap s e)) t"
  by (auto simp: zip_at_def)

lemma zip_right: "zip_at s cs (Some e) \<langle>l, e, t\<rangle> \<longleftrightarrow> zip_at s (RightOf l e # cs) (se_gt (sd_heap s e)) t"
  by (auto simp: zip_at_def)

lemma zip_at_node: "zip_at s cs q \<langle>l, e, r\<rangle> \<Longrightarrow> q = Some e"
  by (simp add: zip_at_def)

lemma zip_at_children:
  assumes "zip_at s cs q \<langle>l, e, r\<rangle>"
  shows "se_lt (sd_heap s e) = (case l of \<langle>\<rangle> \<Rightarrow> None | \<langle>_, a, _\<rangle> \<Rightarrow> Some a)"
    "se_gt (sd_heap s e) = (case r of \<langle>\<rangle> \<Rightarrow> None | \<langle>_, a, _\<rangle> \<Rightarrow> Some a)"
    "se_parent (sd_heap s e) = path_parent cs"
  using assms by (auto simp: zip_at_def split: tree.splits)

lemma zip_swing_right:
  assumes "zip_at s cs (Some e) \<langle>\<langle>a, x, b\<rangle>, e, r\<rangle>"
  shows "\<exists>s'. schedule_rotate_up s (Some x) = Inr s' \<and> zip_at s' (RightOf a x # cs) (Some e) \<langle>b, e, r\<rangle>
           \<and> keys_kept s s' \<and> outside_kept (set_tree (plug cs \<langle>\<langle>a, x, b\<rangle>, e, r\<rangle>)) s s'"
proof -
  have "zip_at s (LeftOf e r # cs) (Some x) \<langle>a, x, b\<rangle>"
    using assms zip_at_children(1) [OF assms] by (simp add: zip_left)
  from rotate_right [OF this] obtain s' where s': "schedule_rotate_up s (Some x) = Inr s'"
      "zip_at s' cs (Some x) \<langle>a, x, \<langle>b, e, r\<rangle>\<rangle>" "keys_kept s s'" "outside_kept (set_tree (plug cs \<langle>\<langle>a, x, b\<rangle>, e, r\<rangle>)) s s'"
    by blast
  from s'(2) zip_at_children(2) [OF s'(2)] have "zip_at s' (RightOf a x # cs) (Some e) \<langle>b, e, r\<rangle>"
    by (simp add: zip_right)
  with s' show ?thesis by blast
qed

lemma zip_swing_left:
  assumes "zip_at s cs (Some e) \<langle>l, e, \<langle>a, x, b\<rangle>\<rangle>"
  shows "\<exists>s'. schedule_rotate_up s (Some x) = Inr s' \<and> zip_at s' (LeftOf x b # cs) (Some e) \<langle>l, e, a\<rangle>
           \<and> keys_kept s s' \<and> outside_kept (set_tree (plug cs \<langle>l, e, \<langle>a, x, b\<rangle>\<rangle>)) s s'"
proof -
  have "zip_at s (RightOf l e # cs) (Some x) \<langle>a, x, b\<rangle>"
    using assms zip_at_children(2) [OF assms] by (simp add: zip_right)
  from rotate_left [OF this] obtain s' where s': "schedule_rotate_up s (Some x) = Inr s'"
      "zip_at s' cs (Some x) \<langle>\<langle>l, e, a\<rangle>, x, b\<rangle>" "keys_kept s s'" "outside_kept (set_tree (plug cs \<langle>l, e, \<langle>a, x, b\<rangle>\<rangle>)) s s'"
    by blast
  from s'(2) zip_at_children(1) [OF s'(2)] have "zip_at s' (LeftOf x b # cs) (Some e) \<langle>l, e, a\<rangle>"
    by (simp add: zip_left)
  with s' show ?thesis by blast
qed

section \<open>Removal\<close>

lemma remove_loop_ok:
  assumes "zip_at s cs (Some e) \<langle>l, e, r\<rangle>" "prio_path (sched_pri s) cs"
    "prio_tree (sched_pri s) (path_prio (sched_pri s) cs) l" "prio_tree (sched_pri s) (path_prio (sched_pri s) cs) r"
  shows "\<exists>s' cs'. remove_loop s e = Some (Inr s') \<and> zip_at s' cs' (Some e) \<langle>\<langle>\<rangle>, e, \<langle>\<rangle>\<rangle> \<and> prio_path (sched_pri s) cs'
           \<and> keys_kept s s' \<and> outside_kept (set_tree (plug cs \<langle>l, e, r\<rangle>)) s s'
           \<and> inorder (plug cs' \<langle>\<langle>\<rangle>, e, \<langle>\<rangle>\<rangle>) = inorder (plug cs \<langle>l, e, r\<rangle>)"
  using assms
proof (induction "size l + size r" arbitrary: s cs l r rule: less_induct)
  case less
  let ?f = "sched_pri s"
  note ch = zip_at_children [OF less.prems(1)]
  have inord: "inorder (plug cs t) = inorder (plug cs t')" if "inorder t = inorder t'" for cs t t'
    using that by (induction cs t arbitrary: t' rule: plug.induct) auto
  have right: ?case
    if l: "l = \<langle>a, x, b\<rangle>" and rc: "remove_child s e = Some x" and le: "prio_tree ?f (?f x) r"
    for a x b
  proof -
    obtain s1 where s1: "schedule_rotate_up s (Some x) = Inr s1" "zip_at s1 (RightOf a x # cs) (Some e) \<langle>b, e, r\<rangle>"
        "keys_kept s s1" "outside_kept (set_tree (plug cs \<langle>l, e, r\<rangle>)) s s1"
      using zip_swing_right less.prems(1) l by blast
    have f: "sched_pri s1 = ?f" by (rule keys_kept_pri [OF s1(3)])
    have "size b + size r < size l + size r" by (simp add: l)
    from less.hyps [OF this s1(2)] obtain s' cs' where s': "remove_loop s1 e = Some (Inr s')" "zip_at s' cs' (Some e) \<langle>\<langle>\<rangle>, e, \<langle>\<rangle>\<rangle>"
        "prio_path ?f cs'" "keys_kept s1 s'" "outside_kept (set_tree (plug (RightOf a x # cs) \<langle>b, e, r\<rangle>)) s1 s'"
        "inorder (plug cs' \<langle>\<langle>\<rangle>, e, \<langle>\<rangle>\<rangle>) = inorder (plug (RightOf a x # cs) \<langle>b, e, r\<rangle>)"
      using less.prems(2-4) le l unfolding f by auto
    have "inorder (plug (RightOf a x # cs) \<langle>b, e, r\<rangle>) = inorder (plug cs \<langle>l, e, r\<rangle>)"
      by (simp add: l inord)
    then have "set_tree (plug (RightOf a x # cs) \<langle>b, e, r\<rangle>) = set_tree (plug cs \<langle>l, e, r\<rangle>)"
      by (metis set_inorder)
    moreover have "remove_loop s e = remove_loop s1 e"
      using ch l rc s1(1) by (subst remove_loop.simps) simp
    ultimately show ?case
      using s' \<open>inorder (plug (RightOf a x # cs) _) = _\<close> keys_kept_trans [OF s1(3) s'(4)] outside_kept_trans [OF s1(4)]
      by metis
  qed
  have left: ?case
    if r: "r = \<langle>a, x, b\<rangle>" and rc: "remove_child s e = Some x" and le: "prio_tree ?f (?f x) l"
    for a x b
  proof -
    obtain s1 where s1: "schedule_rotate_up s (Some x) = Inr s1" "zip_at s1 (LeftOf x b # cs) (Some e) \<langle>l, e, a\<rangle>"
        "keys_kept s s1" "outside_kept (set_tree (plug cs \<langle>l, e, r\<rangle>)) s s1"
      using zip_swing_left less.prems(1) r by blast
    have f: "sched_pri s1 = ?f" by (rule keys_kept_pri [OF s1(3)])
    have "size l + size a < size l + size r" by (simp add: r)
    from less.hyps [OF this s1(2)] obtain s' cs' where s': "remove_loop s1 e = Some (Inr s')" "zip_at s' cs' (Some e) \<langle>\<langle>\<rangle>, e, \<langle>\<rangle>\<rangle>"
        "prio_path ?f cs'" "keys_kept s1 s'" "outside_kept (set_tree (plug (LeftOf x b # cs) \<langle>l, e, a\<rangle>)) s1 s'"
        "inorder (plug cs' \<langle>\<langle>\<rangle>, e, \<langle>\<rangle>\<rangle>) = inorder (plug (LeftOf x b # cs) \<langle>l, e, a\<rangle>)"
      using less.prems(2-4) le r unfolding f by auto
    have "inorder (plug (LeftOf x b # cs) \<langle>l, e, a\<rangle>) = inorder (plug cs \<langle>l, e, r\<rangle>)"
      by (simp add: r inord)
    then have "set_tree (plug (LeftOf x b # cs) \<langle>l, e, a\<rangle>) = set_tree (plug cs \<langle>l, e, r\<rangle>)"
      by (metis set_inorder)
    moreover have "remove_loop s e = remove_loop s1 e"
      using ch r rc s1(1) by (subst remove_loop.simps) simp
    ultimately show ?case
      using s' \<open>inorder (plug (LeftOf x b # cs) _) = _\<close> keys_kept_trans [OF s1(3) s'(4)] outside_kept_trans [OF s1(4)]
      by metis
  qed
  show ?case
  proof (cases l)
    case Leaf
    show ?thesis
    proof (cases r)
      case Leaf
      then have "remove_loop s e = Some (Inr s)"
        using ch \<open>l = \<langle>\<rangle>\<close> by (subst remove_loop.simps) simp
      with less.prems Leaf \<open>l = \<langle>\<rangle>\<close> show ?thesis by force
    next
      case (Node a x b)
      with Leaf ch show ?thesis by (intro left) (auto simp: remove_child_def)
    qed
  next
    case l: (Node a x b)
    show ?thesis
    proof (cases r)
      case Leaf
      with l ch show ?thesis by (intro right) (auto simp: remove_child_def)
    next
      case r: (Node a' y b')
      have x: "prio_tree ?f (?f x) a" "prio_tree ?f (?f x) b" "prio_tree ?f (?f y) a'" "prio_tree ?f (?f y) b'"
        using less.prems(3,4) l r by simp_all
      show ?thesis
      proof (cases "?f x < ?f y")
        case True
        with l r ch x show ?thesis by (intro right) (auto simp: remove_child_def)
      next
        case False
        with l r ch x show ?thesis by (intro left) (auto simp: remove_child_def)
      qed
    qed
  qed
qed

lemma detach_ok:
  assumes "zip_at s cs (Some e) \<langle>\<langle>\<rangle>, e, \<langle>\<rangle>\<rangle>"
  shows "\<exists>s'. schedule_detach_parent s (Some e) = Inr s' \<and> zip_at s' cs None \<langle>\<rangle> \<and> keys_kept s s'
           \<and> outside_kept (insert e (set (path_list cs))) s s'
           \<and> se_parent (sd_heap s' e) = None \<and> se_lt (sd_heap s' e) = None \<and> se_gt (sd_heap s' e) = None"
proof (cases cs rule: path_parent.cases)
  case 1
  with assms show ?thesis
    by (simp add: schedule_detach_parent_def zip_at_def keys_kept_def outside_kept_def)
next
  case (2 p r cs')
  with assms show ?thesis
    by (auto simp: schedule_detach_parent_def zip_at_def keys_kept_def outside_kept_def se_set_def)
next
  case (3 l p cs')
  with assms have "se_lt (sd_heap s p) \<noteq> Some e" by (auto simp: zip_at_def shape_Some_iff)
  with 3 assms show ?thesis
    by (auto simp: schedule_detach_parent_def zip_at_def keys_kept_def outside_kept_def se_set_def)
qed

section \<open>The invariant\<close>

definition key_less :: "schedule_entry \<Rightarrow> schedule_entry \<Rightarrow> bool" where
  \<comment> \<open>the order that \<open>schedule_entry_compare\<close> computes\<close>
  "key_less x y \<longleftrightarrow> se_tv x < se_tv y \<or> (se_tv x = se_tv y \<and> se_pri x < se_pri y)"

lemma timeval_eq_iff: "(s :: timeval) = t \<longleftrightarrow> tv_sec s = tv_sec t \<and> tv_usec s = tv_usec t"
  by (auto intro: timeval.equality)

lemma schedule_entry_compare_eq:
  "schedule_entry_compare x y = - 1 \<longleftrightarrow> key_less x y"
  "schedule_entry_compare x y = 1 \<longleftrightarrow> key_less y x"
  "schedule_entry_compare x y = 0 \<longleftrightarrow> se_tv x = se_tv y \<and> se_pri x = se_pri y"
  unfolding schedule_entry_compare_def key_less_def timeval_less timeval_eq_iff by auto

lemma key_less_trans: "key_less x y \<Longrightarrow> key_less y z \<Longrightarrow> key_less x z"
  by (auto simp: key_less_def)

definition sched_sorted :: "schedule \<Rightarrow> nat list \<Rightarrow> bool" where
  "sched_sorted s as \<longleftrightarrow> sorted_wrt (\<lambda>a b. key_less (sd_heap s a) (sd_heap s b)) as"

definition se_clean :: "schedule_entry \<Rightarrow> bool" where
  \<comment> \<open>an entry that is in no tree\<close>
  "se_clean x \<longleftrightarrow> se_pri x = 0 \<and> se_parent x = None \<and> se_lt x = None \<and> se_gt x = None"

definition sched_tree :: "schedule \<Rightarrow> nat tree \<Rightarrow> bool" where
  "sched_tree s t \<longleftrightarrow> shape (sd_heap s) None (sd_root s) t \<and> distinct (inorder t) \<and> prio_tree (sched_pri s) 0 t
     \<and> (\<forall>a \<in> set_tree t. sched_pri s a \<noteq> 0) \<and> (\<forall>a. a \<notin> set_tree t \<longrightarrow> se_clean (sd_heap s a))"

definition sched_ok :: "schedule \<Rightarrow> nat tree \<Rightarrow> bool" where
  "sched_ok s t \<longleftrightarrow> sched_tree s t \<and> sched_sorted s (inorder t)
     \<and> (sd_earliest_wakeup s = None \<or> (t \<noteq> \<langle>\<rangle> \<and> sd_earliest_wakeup s = Some (hd (inorder t))))"

lemma sched_sorted_cong:
  "(\<And>a. a \<in> set as \<Longrightarrow> se_tv (sd_heap s' a) = se_tv (sd_heap s a) \<and> se_pri (sd_heap s' a) = se_pri (sd_heap s a)) \<Longrightarrow>
   sched_sorted s' as = sched_sorted s as"
  unfolding sched_sorted_def key_less_def by (induction as) auto

lemma split_at: "e \<in> set_tree t \<Longrightarrow> \<exists>cs l r. t = plug cs \<langle>l, e, r\<rangle>"
proof (induction t)
  case (Node l a r)
  have up: "plug (cs @ [st]) x = plug [st] (plug cs x)" for cs st x
    by (induction cs x rule: plug.induct) (cases st; auto)+
  from Node.prems consider "e = a" | "e \<in> set_tree l" | "e \<in> set_tree r" by auto
  then show ?case
  proof cases
    case 1
    then have "\<langle>l, a, r\<rangle> = plug [] \<langle>l, e, r\<rangle>" by simp
    then show ?thesis by blast
  next
    case 2
    then obtain cs l' r' where "l = plug cs \<langle>l', e, r'\<rangle>" using Node.IH by blast
    then have "\<langle>l, a, r\<rangle> = plug (cs @ [LeftOf a r]) \<langle>l', e, r'\<rangle>" by (simp add: up)
    then show ?thesis by blast
  next
    case 3
    then obtain cs l' r' where "r = plug cs \<langle>l', e, r'\<rangle>" using Node.IH by blast
    then have "\<langle>l, a, r\<rangle> = plug (cs @ [RightOf l a]) \<langle>l', e, r'\<rangle>" by (simp add: up)
    then show ?thesis by blast
  qed
qed simp

fun path_before :: "step list \<Rightarrow> nat list" where
  "path_before [] = []"
| "path_before (LeftOf a r # cs) = path_before cs"
| "path_before (RightOf l a # cs) = path_before cs @ inorder l @ [a]"

fun path_after :: "step list \<Rightarrow> nat list" where
  "path_after [] = []"
| "path_after (LeftOf a r # cs) = a # inorder r @ path_after cs"
| "path_after (RightOf l a # cs) = path_after cs"

lemma inorder_plug: "inorder (plug cs t) = path_before cs @ inorder t @ path_after cs"
  by (induction cs t rule: plug.induct) auto

lemma set_path_list: "set (path_list cs) = set (path_before cs) \<union> set (path_after cs)"
  by (induction cs rule: path_list.induct) auto

lemma inorder_plug_drop:
  "distinct (inorder (plug cs \<langle>\<langle>\<rangle>, e, \<langle>\<rangle>\<rangle>)) \<Longrightarrow> inorder (plug cs \<langle>\<rangle>) = filter (\<lambda>a. a \<noteq> e) (inorder (plug cs \<langle>\<langle>\<rangle>, e, \<langle>\<rangle>\<rangle>))"
proof -
  assume "distinct (inorder (plug cs \<langle>\<langle>\<rangle>, e, \<langle>\<rangle>\<rangle>))"
  then have "e \<notin> set (path_before cs)" "e \<notin> set (path_after cs)" by (auto simp: inorder_plug)
  then have "filter (\<lambda>a. a \<noteq> e) (path_before cs) = path_before cs" "filter (\<lambda>a. a \<noteq> e) (path_after cs) = path_after cs"
    by (auto simp: filter_id_conv)
  then show ?thesis by (simp add: inorder_plug)
qed

lemma schedule_remove_node_in:
  assumes t: "sched_tree s t" and e: "e \<in> set_tree t"
  shows "\<exists>s' t'. schedule_remove_node s e = Some (Inr s') \<and> sched_tree s' t'
           \<and> inorder t' = filter (\<lambda>a. a \<noteq> e) (inorder t)
           \<and> (\<forall>a. se_tv (sd_heap s' a) = se_tv (sd_heap s a) \<and> (a \<noteq> e \<longrightarrow> sched_pri s' a = sched_pri s a))
           \<and> sd_earliest_wakeup s' = sd_earliest_wakeup s"
proof -
  let ?f = "sched_pri s"
  obtain cs l r where tt: "t = plug cs \<langle>l, e, r\<rangle>" using split_at [OF e] by blast
  have sh: "shape (sd_heap s) None (sd_root s) t" "distinct (inorder t)" "prio_tree ?f 0 t"
    using t by (simp_all add: sched_tree_def)
  obtain q where "zip_at s cs q \<langle>l, e, r\<rangle>" using sh(1,2) zip_at_plug unfolding tt by blast
  with zip_at_node have z: "zip_at s cs (Some e) \<langle>l, e, r\<rangle>" by blast
  have pr: "prio_path ?f cs" "path_prio ?f cs \<le> ?f e" "prio_tree ?f (?f e) l" "prio_tree ?f (?f e) r"
    using sh(3) by (simp_all add: tt prio_plug)
  from remove_loop_ok [OF z pr(1) prio_tree_mono [OF pr(3,2)] prio_tree_mono [OF pr(4,2)]]
  obtain s1 cs' where s1: "remove_loop s e = Some (Inr s1)" "zip_at s1 cs' (Some e) \<langle>\<langle>\<rangle>, e, \<langle>\<rangle>\<rangle>" "prio_path ?f cs'"
      "keys_kept s s1" "outside_kept (set_tree t) s s1" "inorder (plug cs' \<langle>\<langle>\<rangle>, e, \<langle>\<rangle>\<rangle>) = inorder t"
    unfolding tt by blast
  obtain s2 where s2: "schedule_detach_parent s1 (Some e) = Inr s2" "zip_at s2 cs' None \<langle>\<rangle>" "keys_kept s1 s2"
      "outside_kept (insert e (set (path_list cs'))) s1 s2"
      "se_parent (sd_heap s2 e) = None" "se_lt (sd_heap s2 e) = None" "se_gt (sd_heap s2 e) = None"
    using detach_ok [OF s1(2)] by blast
  let ?s = "se_set e (\<lambda>x. x\<lparr>se_pri := 0\<rparr>) s2" and ?t = "plug cs' \<langle>\<rangle>"
  have ino: "inorder ?t = filter (\<lambda>a. a \<noteq> e) (inorder t)"
    using inorder_plug_drop [of cs' e] s1(6) sh(2) by simp
  have "set (inorder ?t) = set (filter (\<lambda>a. a \<noteq> e) (inorder t))" by (simp only: ino)
  then have set: "set_tree ?t = set_tree t - {e}" by auto
  have keys: "keys_kept s s2" by (rule keys_kept_trans [OF s1(4) s2(3)])
  have tv: "se_tv (sd_heap ?s a) = se_tv (sd_heap s a)" "a \<noteq> e \<Longrightarrow> sched_pri ?s a = ?f a" for a
    using keys by (simp_all add: keys_kept_def se_set_def)
  have e': "e \<notin> set_tree ?t" using set by simp
  have "shape (sd_heap s2) None (sd_root s2) ?t \<and> distinct (inorder ?t)"
    using s2(2) zip_at_plug by blast
  then have "shape (sd_heap ?s) None (sd_root ?s) ?t" "distinct (inorder ?t)"
    using e' by (simp_all add: se_set_def)
  moreover have "prio_tree (sched_pri ?s) 0 ?t"
  proof -
    have "prio_tree ?f 0 ?t" using s1(3) by (simp add: prio_plug)
    moreover have "prio_tree (sched_pri ?s) 0 ?t = prio_tree ?f 0 ?t"
      using e' by (intro prio_tree_cong tv(2)) auto
    ultimately show ?thesis by simp
  qed
  moreover have "\<forall>a \<in> set_tree ?t. sched_pri ?s a \<noteq> 0"
    using t tv(2) set by (simp add: sched_tree_def)
  moreover have "se_clean (sd_heap ?s a)" if "a \<notin> set_tree ?t" for a
  proof (cases "a = e")
    case True
    with s2(5-7) show ?thesis by (simp add: se_clean_def se_set_def)
  next
    case False
    with that set have a: "a \<notin> set_tree t" by simp
    moreover have "a \<notin> insert e (set (path_list cs'))"
      using that False by (simp add: set_plug)
    ultimately have "sd_heap ?s a = sd_heap s a"
      using False s1(5) s2(4) by (simp add: se_set_def outside_kept_def)
    with t a show ?thesis by (simp add: sched_tree_def)
  qed
  ultimately have "sched_tree ?s ?t" by (simp add: sched_tree_def)
  moreover have "schedule_remove_node s e = Some (Inr ?s)"
    using s1(1) s2(1) by (simp add: schedule_remove_node_def)
  moreover have "sd_earliest_wakeup ?s = sd_earliest_wakeup s" using keys by (simp add: keys_kept_def se_set_def)
  ultimately show ?thesis using ino tv by blast
qed

lemma schedule_remove_node_out:
  assumes "sched_tree s t" "e \<notin> set_tree t"
  shows "schedule_remove_node s e = Some (Inr s)"
proof -
  have c: "se_clean (sd_heap s e)" using assms by (simp add: sched_tree_def)
  have "sd_root s \<noteq> Some e" using assms by (auto simp: sched_tree_def shape_Some_iff)
  moreover have "remove_loop s e = Some (Inr s)"
    using c by (subst remove_loop.simps) (simp add: se_clean_def)
  moreover have "se_set e (\<lambda>x. x\<lparr>se_pri := 0\<rparr>) s = s"
  proof -
    have "(sd_heap s e)\<lparr>se_pri := 0\<rparr> = sd_heap s e" using c by (simp add: se_clean_def)
    then show ?thesis by (simp add: se_set_def)
  qed
  ultimately show ?thesis using c
    by (simp add: schedule_remove_node_def schedule_detach_parent_def se_clean_def)
qed

section \<open>Insertion\<close>

definition between :: "schedule \<Rightarrow> step list \<Rightarrow> nat \<Rightarrow> bool" where
  \<comment> \<open>the key of \<open>e\<close> belongs at the position\<close>
  "between s cs e \<longleftrightarrow> (\<forall>a \<in> set (path_before cs). key_less (sd_heap s a) (sd_heap s e))
     \<and> (\<forall>a \<in> set (path_after cs). key_less (sd_heap s e) (sd_heap s a))"

definition collide :: "schedule \<Rightarrow> nat \<Rightarrow> u32 list \<Rightarrow> (schedule \<times> u32 list) option" where
  \<comment> \<open>the branch of \<open>insert_loop\<close> that chooses another priority\<close>
  "collide s e rs =
     (case (rs, sd_root s) of
        (r # rs, Some root) \<Rightarrow> insert_loop (schedule_set_pri e r s) e root rs
      | _ \<Rightarrow> None)"

definition same_key :: "schedule \<Rightarrow> nat \<Rightarrow> nat \<Rightarrow> bool" where
  "same_key s a b \<longleftrightarrow> se_tv (sd_heap s a) = se_tv (sd_heap s b) \<and> sched_pri s a = sched_pri s b"

lemma key_less_cases:
  obtains "key_less x y" | "key_less y x" "\<not> key_less x y"
  | "\<not> key_less x y" "\<not> key_less y x" "se_tv x = se_tv y" "se_pri x = se_pri y"
  unfolding key_less_def by (metis less_linear less_not_sym)

definition inserted :: "schedule \<Rightarrow> schedule \<Rightarrow> nat \<Rightarrow> nat tree \<Rightarrow> step list \<Rightarrow> bool" where
  \<comment> \<open>\<open>s'\<close> is \<open>s\<close> with \<open>e\<close> hung below the tree \<open>t\<close> at the position\<close>
  "inserted s s' e t cs \<longleftrightarrow> plug cs \<langle>\<rangle> = t \<and> zip_at s' cs (Some e) \<langle>\<langle>\<rangle>, e, \<langle>\<rangle>\<rangle> \<and> between s' cs e
     \<and> (\<forall>a. se_tv (sd_heap s' a) = se_tv (sd_heap s a)) \<and> (\<forall>a. a \<noteq> e \<longrightarrow> sched_pri s' a = sched_pri s a)
     \<and> sched_pri s' e \<noteq> 0 \<and> outside_kept (insert e (set_tree t)) s s' \<and> sd_earliest_wakeup s' = sd_earliest_wakeup s"

lemma insert_descend:
  assumes "zip_at s cs (Some c) t" "e \<notin> set_tree (plug cs t)" "se_lt (sd_heap s e) = None" "se_gt (sd_heap s e) = None"
    "sched_sorted s (inorder (plug cs t))" "between s cs e" "sched_pri s e \<noteq> 0"
  shows "(\<exists>a \<in> set_tree t. same_key s a e) \<and> (\<forall>rs. insert_loop s e c rs = collide s e rs)
    \<or> (\<exists>s' cs'. (\<forall>rs. insert_loop s e c rs = Some (s', rs)) \<and> inserted s s' e (plug cs t) cs')"
  using assms
proof (induction t arbitrary: cs c)
  case Leaf
  then show ?case by (simp add: zip_at_def)
next
  case (Node l a r)
  then have c: "c = a" by (simp add: zip_at_def)
  note z = Node.prems(1)[unfolded c]
  note ch = zip_at_children [OF z]
  have d: "distinct (inorder l @ a # inorder r @ path_list cs)" using z by (simp add: zip_at_def)
  have ne: "e \<noteq> a" "e \<notin> set_tree l" "e \<notin> set_tree r" "e \<notin> set (path_list cs)" using Node.prems(2) by (auto simp: set_plug)
  have srt: "\<forall>x \<in> set_tree r \<union> set (path_after cs). key_less (sd_heap s a) (sd_heap s x)"
      "\<forall>x \<in> set (path_before cs) \<union> set_tree l. key_less (sd_heap s x) (sd_heap s a)"
    using Node.prems(5) by (auto simp: sched_sorted_def inorder_plug sorted_wrt_append)
  consider "key_less (sd_heap s e) (sd_heap s a)"
    | "key_less (sd_heap s a) (sd_heap s e)" "\<not> key_less (sd_heap s e) (sd_heap s a)"
    | "\<not> key_less (sd_heap s e) (sd_heap s a)" "\<not> key_less (sd_heap s a) (sd_heap s e)" "same_key s a e"
    by (rule key_less_cases [of "sd_heap s e" "sd_heap s a"]) (auto simp: same_key_def)
  then show ?case
  proof cases
    case 1
    then have bet: "between s (LeftOf a r # cs) e"
      using Node.prems(6) key_less_trans [OF 1] srt(1) by (auto simp: between_def)
    show ?thesis
    proof (cases l)
      case Leaf
      let ?s = "se_set e (\<lambda>x. x\<lparr>se_parent := Some a\<rparr>) (se_set a (\<lambda>x. x\<lparr>se_lt := Some e\<rparr>) s)"
      have "insert_loop s e c rs = Some (?s, rs)" for rs
        using 1 ch Leaf by (subst insert_loop.simps) (simp add: c schedule_entry_compare_eq)
      moreover have "zip_at ?s (LeftOf a r # cs) (Some e) \<langle>\<langle>\<rangle>, e, \<langle>\<rangle>\<rangle>"
        using z ne d Leaf Node.prems(3,4) by (auto simp: zip_at_def se_set_def)
      moreover have "between ?s (LeftOf a r # cs) e"
        using bet by (auto simp: between_def se_set_def key_less_def)
      moreover have "outside_kept (insert e (set_tree (plug cs \<langle>l, a, r\<rangle>))) s ?s"
        by (auto simp: outside_kept_def se_set_def set_plug)
      ultimately have "inserted s ?s e (plug cs \<langle>l, a, r\<rangle>) (LeftOf a r # cs)"
        using Leaf Node.prems(7) ne(1) by (simp add: inserted_def se_set_def)
      with \<open>\<And>rs. insert_loop s e c rs = Some (?s, rs)\<close> show ?thesis by blast
    next
      case (Node ll x lr)
      have "insert_loop s e c rs = insert_loop s e x rs" for rs
        using 1 ch Node by (subst insert_loop.simps) (simp add: c schedule_entry_compare_eq)
      have "zip_at s (LeftOf a r # cs) (Some x) l" using z ch(1) Node by (simp add: zip_left)
      note zx = this
      have sub: "set_tree l \<subseteq> set_tree \<langle>l, a, r\<rangle>" by auto
      show ?thesis unfolding \<open>\<And>rs. insert_loop s e c rs = insert_loop s e x rs\<close>
        by (rule disj_forward [OF Node.IH(1) [OF zx, unfolded plug.simps, OF Node.prems(2-5) bet Node.prems(7)]],
            erule conj_forward, erule bexE, rule bexI, assumption, rule subsetD [OF sub], assumption+)
    qed
  next
    case 2
    then have bet: "between s (RightOf l a # cs) e"
      using Node.prems(6) key_less_trans [OF _ 2(1)] srt(2) 2(1) by (auto simp: between_def)
    show ?thesis
    proof (cases r)
      case Leaf
      let ?s = "se_set e (\<lambda>x. x\<lparr>se_parent := Some a\<rparr>) (se_set a (\<lambda>x. x\<lparr>se_gt := Some e\<rparr>) s)"
      have "insert_loop s e c rs = Some (?s, rs)" for rs
        using 2 ch Leaf by (subst insert_loop.simps) (simp add: c schedule_entry_compare_eq)
      moreover have "zip_at ?s (RightOf l a # cs) (Some e) \<langle>\<langle>\<rangle>, e, \<langle>\<rangle>\<rangle>"
        using z ne d Leaf Node.prems(3,4) by (auto simp: zip_at_def se_set_def)
      moreover have "between ?s (RightOf l a # cs) e"
        using bet by (auto simp: between_def se_set_def key_less_def)
      moreover have "outside_kept (insert e (set_tree (plug cs \<langle>l, a, r\<rangle>))) s ?s"
        by (auto simp: outside_kept_def se_set_def set_plug)
      ultimately have "inserted s ?s e (plug cs \<langle>l, a, r\<rangle>) (RightOf l a # cs)"
        using Leaf Node.prems(7) ne(1) by (simp add: inserted_def se_set_def)
      with \<open>\<And>rs. insert_loop s e c rs = Some (?s, rs)\<close> show ?thesis by blast
    next
      case (Node rl x rr)
      have "insert_loop s e c rs = insert_loop s e x rs" for rs
        using 2 ch Node by (subst insert_loop.simps) (simp add: c schedule_entry_compare_eq)
      have "zip_at s (RightOf l a # cs) (Some x) r" using z ch(2) Node by (simp add: zip_right)
      note zx = this
      have sub: "set_tree r \<subseteq> set_tree \<langle>l, a, r\<rangle>" by auto
      show ?thesis unfolding \<open>\<And>rs. insert_loop s e c rs = insert_loop s e x rs\<close>
        by (rule disj_forward [OF Node.IH(2) [OF zx, unfolded plug.simps, OF Node.prems(2-5) bet Node.prems(7)]],
            erule conj_forward, erule bexE, rule bexI, assumption, rule subsetD [OF sub], assumption+)
    qed
  next
    case 3
    have "insert_loop s e c rs = collide s e rs" for rs
      using 3 by (subst insert_loop.simps) (simp add: c schedule_entry_compare_eq collide_def)
    with 3 show ?thesis by auto
  qed
qed

definition fresh_pri :: "schedule \<Rightarrow> nat \<Rightarrow> nat tree \<Rightarrow> u32 \<Rightarrow> bool" where
  "fresh_pri s e t p \<longleftrightarrow> (\<forall>a \<in> set_tree t. se_tv (sd_heap s a) = se_tv (sd_heap s e) \<longrightarrow> sched_pri s a \<noteq> p)"

definition pri_of :: "u32 \<Rightarrow> u32" where
  "pri_of r = (if r < 1 then 1 else r)"

lemma pri_of_pos [simp]: "pri_of r \<noteq> 0"
  by (simp add: pri_of_def)

lemma set_pri_fields [simp]:
  "sd_root (schedule_set_pri e r s) = sd_root s" "sd_earliest_wakeup (schedule_set_pri e r s) = sd_earliest_wakeup s"
  "sd_heap (schedule_set_pri e r s) = (sd_heap s)(e := (sd_heap s e)\<lparr>se_pri := pri_of r\<rparr>)"
  by (simp_all add: schedule_set_pri_def se_set_def pri_of_def)

lemma set_pri_sorted:
  "e \<notin> set as \<Longrightarrow> sched_sorted (schedule_set_pri e r s) as = sched_sorted s as"
  by (rule sched_sorted_cong) auto

lemma insert_loop_ok:
  assumes "shape (sd_heap s) None (sd_root s) t" "distinct (inorder t)" "sd_root s = Some c" "e \<notin> set_tree t"
    "se_lt (sd_heap s e) = None" "se_gt (sd_heap s e) = None" "sched_sorted s (inorder t)" "sched_pri s e \<noteq> 0"
    "fresh_pri s e t (sched_pri s e) \<or> (\<exists>r \<in> set rs. fresh_pri s e t (pri_of r))"
  shows "\<exists>s' rs' cs. insert_loop s e c rs = Some (s', rs') \<and> inserted s s' e t cs"
  using assms
proof (induction rs arbitrary: s)
  case Nil
  have "zip_at s [] (Some c) t" using Nil.prems by (simp add: zip_at_def)
  from insert_descend [OF this, of e] Nil.prems show ?case
    by (auto simp: between_def fresh_pri_def same_key_def)
next
  case (Cons r rs)
  have "zip_at s [] (Some c) t" using Cons.prems by (simp add: zip_at_def)
  from insert_descend [OF this, of e] Cons.prems
  consider a where "a \<in> set_tree t" "same_key s a e" "insert_loop s e c (r # rs) = collide s e (r # rs)"
    | s' cs' where "insert_loop s e c (r # rs) = Some (s', r # rs)" "inserted s s' e t cs'"
    by (auto simp: between_def)
  then show ?case
  proof cases
    case 1
    let ?s = "schedule_set_pri e r s"
    have "fresh_pri ?s e t p \<longleftrightarrow> fresh_pri s e t p" for p
      using Cons.prems(4) by (auto simp: fresh_pri_def)
    moreover have "\<not> fresh_pri s e t (sched_pri s e)" using 1 by (auto simp: fresh_pri_def same_key_def)
    ultimately have "fresh_pri ?s e t (sched_pri ?s e) \<or> (\<exists>r \<in> set rs. fresh_pri ?s e t (pri_of r))"
      using Cons.prems(9) by auto
    moreover have "sched_sorted ?s (inorder t)" using Cons.prems(4,7) by (simp add: set_pri_sorted)
    moreover have "shape (sd_heap ?s) None (sd_root ?s) t" "sd_root ?s = Some c" "se_lt (sd_heap ?s e) = None"
        "se_gt (sd_heap ?s e) = None" "sched_pri ?s e \<noteq> 0"
      using Cons.prems by simp_all
    ultimately obtain s' rs' cs where s': "insert_loop ?s e c rs = Some (s', rs')" "inserted ?s s' e t cs"
      using Cons.IH [of ?s] Cons.prems(2,4) by blast
    have "inserted s s' e t cs"
      using s'(2) by (auto simp: inserted_def outside_kept_def)
    moreover have "insert_loop s e c (r # rs) = Some (s', rs')"
      using 1(3) s'(1) Cons.prems(3) by (simp add: collide_def)
    ultimately show ?thesis by blast
  next
    case 2
    then show ?thesis by blast
  qed
qed

section \<open>Rising, and the whole insertion\<close>

lemma rise_loop_ok:
  assumes "zip_at s cs (Some e) \<langle>l, e, r\<rangle>" "prio_path (sched_pri s) cs"
    "prio_tree (sched_pri s) (path_prio (sched_pri s) cs) l" "prio_tree (sched_pri s) (path_prio (sched_pri s) cs) r"
    "prio_tree (sched_pri s) (sched_pri s e) l" "prio_tree (sched_pri s) (sched_pri s e) r"
  shows "\<exists>s' t'. rise_loop s e = Some (Inr s') \<and> shape (sd_heap s') None (sd_root s') t' \<and> prio_tree (sched_pri s) 0 t'
           \<and> inorder t' = inorder (plug cs \<langle>l, e, r\<rangle>) \<and> keys_kept s s' \<and> outside_kept (set_tree (plug cs \<langle>l, e, r\<rangle>)) s s'"
  using assms
proof (induction cs arbitrary: s l r)
  case Nil
  then have "rise_loop s e = Some (Inr s)"
    by (subst rise_loop.simps) (simp add: zip_at_def)
  with Nil show ?case
    by (intro exI [of _ s] exI [of _ "\<langle>l, e, r\<rangle>"]) (auto simp: zip_at_def)
next
  case (Cons st cs)
  let ?f = "sched_pri s"
  obtain p x where p: "st = LeftOf p x \<or> st = RightOf x p" by (cases st) auto
  have par: "se_parent (sd_heap s e) = Some p" using zip_at_children(3) [OF Cons.prems(1)] p by auto
  show ?case
  proof (cases "?f p > ?f e")
    case False
    then have "rise_loop s e = Some (Inr s)" using par by (subst rise_loop.simps) simp
    moreover have "path_prio ?f (st # cs) = ?f p" using p by auto
    then have "prio_tree ?f 0 (plug (st # cs) \<langle>l, e, r\<rangle>)"
      unfolding prio_plug using False Cons.prems(2-6) by simp
    moreover have "shape (sd_heap s) None (sd_root s) (plug (st # cs) \<langle>l, e, r\<rangle>)"
      using Cons.prems(1) zip_at_plug by blast
    ultimately show ?thesis by (metis keys_kept_refl outside_kept_refl)
  next
    case True
    have "\<exists>s1 l1 r1. schedule_rotate_up s (Some e) = Inr s1 \<and> zip_at s1 cs (Some e) \<langle>l1, e, r1\<rangle> \<and> keys_kept s s1
        \<and> outside_kept (set_tree (plug (st # cs) \<langle>l, e, r\<rangle>)) s s1
        \<and> prio_tree ?f (path_prio ?f cs) l1 \<and> prio_tree ?f (path_prio ?f cs) r1 \<and> prio_tree ?f (?f e) l1 \<and> prio_tree ?f (?f e) r1
        \<and> inorder \<langle>l1, e, r1\<rangle> = inorder (plug [st] \<langle>l, e, r\<rangle>)"
      using p
    proof
      assume st: "st = LeftOf p x"
      have le: "path_prio ?f cs \<le> ?f p" "prio_tree ?f (?f p) x" "prio_tree ?f (?f p) l" "prio_tree ?f (?f p) r"
        using Cons.prems st by simp_all
      obtain s1 where "schedule_rotate_up s (Some e) = Inr s1" "zip_at s1 cs (Some e) \<langle>l, e, \<langle>r, p, x\<rangle>\<rangle>" "keys_kept s s1"
          "outside_kept (set_tree (plug (st # cs) \<langle>l, e, r\<rangle>)) s s1"
        using rotate_right [of s p x cs e l r] Cons.prems(1) st by auto
      with st le True Cons.prems(5) prio_tree_mono [OF le(3,1)] show ?thesis
        by (intro exI [of _ s1] exI [of _ l] exI [of _ "\<langle>r, p, x\<rangle>"]) simp
    next
      assume st: "st = RightOf x p"
      have le: "path_prio ?f cs \<le> ?f p" "prio_tree ?f (?f p) x" "prio_tree ?f (?f p) l" "prio_tree ?f (?f p) r"
        using Cons.prems st by simp_all
      obtain s1 where "schedule_rotate_up s (Some e) = Inr s1" "zip_at s1 cs (Some e) \<langle>\<langle>x, p, l\<rangle>, e, r\<rangle>" "keys_kept s s1"
          "outside_kept (set_tree (plug (st # cs) \<langle>l, e, r\<rangle>)) s s1"
        using rotate_left [of s x p cs e l r] Cons.prems(1) st by auto
      with st le True Cons.prems(6) prio_tree_mono [OF le(4,1)] show ?thesis
        by (intro exI [of _ s1] exI [of _ "\<langle>x, p, l\<rangle>"] exI [of _ r]) simp
    qed
    then obtain s1 l1 r1 where s1: "schedule_rotate_up s (Some e) = Inr s1" "zip_at s1 cs (Some e) \<langle>l1, e, r1\<rangle>" "keys_kept s s1"
        "outside_kept (set_tree (plug (st # cs) \<langle>l, e, r\<rangle>)) s s1"
        "prio_tree ?f (path_prio ?f cs) l1" "prio_tree ?f (path_prio ?f cs) r1" "prio_tree ?f (?f e) l1" "prio_tree ?f (?f e) r1"
        "inorder \<langle>l1, e, r1\<rangle> = inorder (plug [st] \<langle>l, e, r\<rangle>)" by blast
    have f: "sched_pri s1 = ?f" by (rule keys_kept_pri [OF s1(3)])
    have "prio_path ?f cs" using Cons.prems(2) p by auto
    from Cons.IH [OF s1(2), unfolded f [THEN fun_cong], OF this s1(5-8)] obtain s' t' where s': "rise_loop s1 e = Some (Inr s')"
        "shape (sd_heap s') None (sd_root s') t'" "prio_tree ?f 0 t'" "inorder t' = inorder (plug cs \<langle>l1, e, r1\<rangle>)"
        "keys_kept s1 s'" "outside_kept (set_tree (plug cs \<langle>l1, e, r1\<rangle>)) s1 s'" by blast
    have "inorder (plug cs \<langle>l1, e, r1\<rangle>) = inorder (plug cs (plug [st] \<langle>l, e, r\<rangle>))"
      using s1(9) unfolding inorder_plug [of cs] by simp
    also have "\<dots> = inorder (plug (st # cs) \<langle>l, e, r\<rangle>)" using p by auto
    finally have ino: "inorder (plug cs \<langle>l1, e, r1\<rangle>) = inorder (plug (st # cs) \<langle>l, e, r\<rangle>)" .
    then have set: "set_tree (plug cs \<langle>l1, e, r1\<rangle>) = set_tree (plug (st # cs) \<langle>l, e, r\<rangle>)" by (metis set_inorder)
    have "rise_loop s e = rise_loop s1 e" using par True s1(1) by (subst rise_loop.simps) simp
    with s' ino keys_kept_trans [OF s1(3) s'(5)] outside_kept_trans [OF s1(4)] show ?thesis
      unfolding set by metis
  qed
qed

lemma se_set_tv_tree:
  "sched_tree (se_set e (\<lambda>x. x\<lparr>se_tv := tv\<rparr>) s) t \<longleftrightarrow> sched_tree s t"
proof -
  let ?s = "se_set e (\<lambda>x. x\<lparr>se_tv := tv\<rparr>) s"
  have f: "sched_pri ?s = sched_pri s" and l: "se_lt (sd_heap ?s a) = se_lt (sd_heap s a)" "se_gt (sd_heap ?s a) = se_gt (sd_heap s a)"
    "se_parent (sd_heap ?s a) = se_parent (sd_heap s a)" for a
    by (auto simp: se_set_def)
  have "shape (sd_heap ?s) par p t \<longleftrightarrow> shape (sd_heap s) par p t" for par p t
    by (induction t arbitrary: par p) (auto simp: l)
  moreover have "se_clean (sd_heap ?s a) \<longleftrightarrow> se_clean (sd_heap s a)" for a using f [THEN fun_cong, of a] l by (simp add: se_clean_def)
  ultimately show ?thesis unfolding sched_tree_def f by (auto simp: se_set_def)
qed

lemma fresh_exists:
  assumes "card (set_tree t) < card (pri_of ` set rs)"
  shows "\<exists>r \<in> set rs. fresh_pri s e t (pri_of r)"
proof (rule ccontr)
  assume "\<not> ?thesis"
  then have "pri_of ` set rs \<subseteq> sched_pri s ` set_tree t" by (auto simp: fresh_pri_def image_iff) metis
  then have "card (pri_of ` set rs) \<le> card (sched_pri s ` set_tree t)" by (intro card_mono) auto
  also have "\<dots> \<le> card (set_tree t)" by (rule card_image_le) simp
  finally show False using assms by simp
qed

lemma schedule_insert_new:
  assumes t: "sched_tree s t" "sched_sorted s (inorder t)" and e: "e \<notin> set_tree t"
    and rs: "card (set_tree t) < card (pri_of ` set rs)"
  shows "\<exists>s' t' rs'. (case rs of [] \<Rightarrow> None | r # rs \<Rightarrow>
             (let s = schedule_set_pri e r s
              in Option.bind (if sd_root s \<noteq> None then schedule_insert s e rs else Some (s\<lparr>sd_root := Some e\<rparr>, rs))
                   (\<lambda>(s, rs). map_option (\<lambda>r. bind_result r (\<lambda>s. Inr (s, rs))) (rise_loop s e))))
           = Some (Inr (s', rs'))
         \<and> sched_tree s' t' \<and> sched_sorted s' (inorder t') \<and> set_tree t' = insert e (set_tree t)
         \<and> (\<forall>a. se_tv (sd_heap s' a) = se_tv (sd_heap s a)) \<and> sd_earliest_wakeup s' = sd_earliest_wakeup s"
proof -
  obtain r rs0 where rs0: "rs = r # rs0" using rs by (cases rs) auto
  let ?s = "schedule_set_pri e r s"
  have sh: "shape (sd_heap s) None (sd_root s) t" "distinct (inorder t)" "prio_tree (sched_pri s) 0 t"
    and cl: "se_clean (sd_heap s e)" "\<And>a. a \<notin> set_tree t \<Longrightarrow> se_clean (sd_heap s a)" "\<forall>a \<in> set_tree t. sched_pri s a \<noteq> 0"
    using t e by (simp_all add: sched_tree_def)
  have "\<exists>s1 rs1 cs. (if sd_root ?s \<noteq> None then schedule_insert ?s e rs0 else Some (?s\<lparr>sd_root := Some e\<rparr>, rs0)) = Some (s1, rs1)
      \<and> inserted ?s s1 e t cs"
  proof (cases "sd_root s")
    case None
    then have "t = \<langle>\<rangle>" using sh(1) by simp
    then have "inserted ?s (?s\<lparr>sd_root := Some e\<rparr>) e t []"
      using cl(1) by (simp add: inserted_def zip_at_def between_def se_clean_def outside_kept_def)
    with None show ?thesis by auto
  next
    case (Some c)
    have "\<exists>r \<in> set rs. fresh_pri ?s e t (pri_of r)" using fresh_exists [OF rs] .
    then have "fresh_pri ?s e t (sched_pri ?s e) \<or> (\<exists>r \<in> set rs0. fresh_pri ?s e t (pri_of r))"
      by (auto simp: rs0)
    moreover have "sched_sorted ?s (inorder t)" using t(2) e by (simp add: set_pri_sorted)
    moreover have "shape (sd_heap ?s) None (sd_root ?s) t" "sd_root ?s = Some c" "se_lt (sd_heap ?s e) = None"
        "se_gt (sd_heap ?s e) = None" "sched_pri ?s e \<noteq> 0"
      using sh(1) e Some cl(1) by (simp_all add: se_clean_def)
    ultimately show ?thesis using insert_loop_ok [of ?s t c e rs0] sh(2) e Some by (auto simp: schedule_insert_def)
  qed
  then obtain s1 rs1 cs where s1: "(if sd_root ?s \<noteq> None then schedule_insert ?s e rs0 else Some (?s\<lparr>sd_root := Some e\<rparr>, rs0)) = Some (s1, rs1)"
      "inserted ?s s1 e t cs" by blast
  then have t1: "plug cs \<langle>\<rangle> = t" and z: "zip_at s1 cs (Some e) \<langle>\<langle>\<rangle>, e, \<langle>\<rangle>\<rangle>" and bet: "between s1 cs e"
    and tv: "\<And>a. se_tv (sd_heap s1 a) = se_tv (sd_heap s a)" and pri: "\<And>a. a \<noteq> e \<Longrightarrow> sched_pri s1 a = sched_pri s a"
    and e0: "sched_pri s1 e \<noteq> 0" and out: "outside_kept (insert e (set_tree t)) ?s s1"
    and ew: "sd_earliest_wakeup s1 = sd_earliest_wakeup s"
    by (auto simp: inserted_def)
  have same: "prio_tree (sched_pri s1) 0 t"
    using sh(3) e prio_tree_cong [of t "sched_pri s1" "sched_pri s" 0] pri by metis
  then have "prio_path (sched_pri s1) cs" by (simp add: prio_plug flip: t1)
  from rise_loop_ok [OF z this] obtain s2 t2 where s2: "rise_loop s1 e = Some (Inr s2)"
      "shape (sd_heap s2) None (sd_root s2) t2" "prio_tree (sched_pri s1) 0 t2" "inorder t2 = inorder (plug cs \<langle>\<langle>\<rangle>, e, \<langle>\<rangle>\<rangle>)"
      "keys_kept s1 s2" "outside_kept (set_tree (plug cs \<langle>\<langle>\<rangle>, e, \<langle>\<rangle>\<rangle>)) s1 s2" by auto
  have set2: "set_tree t2 = insert e (set_tree t)" "set_tree (plug cs \<langle>\<langle>\<rangle>, e, \<langle>\<rangle>\<rangle>) = insert e (set_tree t)"
    using arg_cong [OF s2(4), of set] by (auto simp: set_plug simp flip: t1)
  have f2: "sched_pri s2 = sched_pri s1" by (rule keys_kept_pri [OF s2(5)])
  have "distinct (inorder t2)" unfolding s2(4) using z distinct_plug by (simp add: zip_at_def)
  moreover have "se_clean (sd_heap s2 a)" if "a \<notin> set_tree t2" for a
    using that s2(6) out cl(2) [of a] by (auto simp: set2 outside_kept_def)
  moreover have "\<forall>a \<in> set_tree t2. sched_pri s2 a \<noteq> 0"
    unfolding f2 [THEN fun_cong] set2 using cl(3) e0 pri by (metis insertE)
  ultimately have "sched_tree s2 t2" using s2(2,3) by (simp add: sched_tree_def f2)
  moreover have "sched_sorted s2 (inorder t2)"
  proof -
    have "sched_sorted s1 (inorder t)"
      using t(2) e tv pri sched_sorted_cong [of "inorder t" s1 s] by (metis set_inorder)
    then have "sched_sorted s1 (inorder t2)"
      using bet unfolding s2(4) sched_sorted_def t1[symmetric] inorder_plug
      by (auto simp: sorted_wrt_append between_def)
    then show ?thesis using s2(5) sched_sorted_cong [of "inorder t2" s2 s1] by (metis keys_kept_def)
  qed
  moreover have "\<forall>a. se_tv (sd_heap s2 a) = se_tv (sd_heap s a)" "sd_earliest_wakeup s2 = sd_earliest_wakeup s"
    using s2(5) tv ew by (simp_all add: keys_kept_def)
  moreover have "Option.bind (if sd_root ?s \<noteq> None then schedule_insert ?s e rs0 else Some (?s\<lparr>sd_root := Some e\<rparr>, rs0))
      (\<lambda>(s, rs). map_option (\<lambda>r. bind_result r (\<lambda>s. Inr (s, rs))) (rise_loop s e)) = Some (Inr (s2, rs1))"
    unfolding s1(1) by (simp add: s2(1))
  ultimately show ?thesis using set2(1) unfolding rs0 by (auto simp: Let_def)
qed

section \<open>The scheduler keeps a map of wakeup times\<close>

lemma schedule_add_modify_ok:
  assumes t: "sched_tree s t" "sched_sorted s (filter (\<lambda>a. a \<noteq> e) (inorder t))"
    and rs: "card (insert e (set_tree t)) \<le> card (pri_of ` set rs)"
  shows "\<exists>s' t' rs'. schedule_add_modify s e rs = Some (Inr (s', rs'))
         \<and> sched_tree s' t' \<and> sched_sorted s' (inorder t') \<and> set_tree t' = insert e (set_tree t)
         \<and> (\<forall>a. se_tv (sd_heap s' a) = se_tv (sd_heap s a))"
proof -
  have in_tree: "IN_TREE s e \<longleftrightarrow> e \<in> set_tree t"
    using t(1) by (auto simp: IN_TREE_def sched_tree_def se_clean_def)
  have "\<exists>s0 t0. (if IN_TREE s e then schedule_remove_node s e else Some (Inr s)) = Some (Inr s0)
      \<and> sched_tree s0 t0 \<and> sched_sorted s0 (inorder t0) \<and> set_tree t0 = set_tree t - {e}
      \<and> (\<forall>a. se_tv (sd_heap s0 a) = se_tv (sd_heap s a))"
  proof (cases "e \<in> set_tree t")
    case True
    obtain s0 t0 where s0: "schedule_remove_node s e = Some (Inr s0)" "sched_tree s0 t0"
        "inorder t0 = filter (\<lambda>a. a \<noteq> e) (inorder t)"
        "\<forall>a. se_tv (sd_heap s0 a) = se_tv (sd_heap s a) \<and> (a \<noteq> e \<longrightarrow> sched_pri s0 a = sched_pri s a)"
      using schedule_remove_node_in [OF t(1) True] by blast
    have "sched_sorted s0 (inorder t0)"
      unfolding s0(3) using t(2) s0(4) sched_sorted_cong [of "filter (\<lambda>a. a \<noteq> e) (inorder t)" s0 s] by auto
    moreover have "set (inorder t0) = set (filter (\<lambda>a. a \<noteq> e) (inorder t))" by (simp only: s0(3))
    then have "set_tree t0 = set_tree t - {e}" by auto
    ultimately show ?thesis using s0 True in_tree by auto
  next
    case False
    then have "filter (\<lambda>a. a \<noteq> e) (inorder t) = inorder t" by (auto simp: filter_id_conv)
    with t False in_tree show ?thesis by auto
  qed
  then obtain s0 t0 where s0: "(if IN_TREE s e then schedule_remove_node s e else Some (Inr s)) = Some (Inr s0)"
      "sched_tree s0 t0" "sched_sorted s0 (inorder t0)" "set_tree t0 = set_tree t - {e}"
      "\<forall>a. se_tv (sd_heap s0 a) = se_tv (sd_heap s a)" by blast
  have "card (set_tree t0) < card (insert e (set_tree t))"
    unfolding s0(4) by (intro psubset_card_mono) auto
  with rs have "card (set_tree t0) < card (pri_of ` set rs)" by linarith
  from schedule_insert_new [OF s0(2,3) _ this, of e] obtain s' t' rs' where
    "(case rs of [] \<Rightarrow> None | r # rs \<Rightarrow>
        (let s = schedule_set_pri e r s0
         in Option.bind (if sd_root s \<noteq> None then schedule_insert s e rs else Some (s\<lparr>sd_root := Some e\<rparr>, rs))
              (\<lambda>(s, rs). map_option (\<lambda>r. bind_result r (\<lambda>s. Inr (s, rs))) (rise_loop s e)))) = Some (Inr (s', rs'))"
    "sched_tree s' t'" "sched_sorted s' (inorder t')" "set_tree t' = insert e (set_tree t0)"
    "\<forall>a. se_tv (sd_heap s' a) = se_tv (sd_heap s0 a)"
    by (auto simp: s0(4))
  moreover from this(1) have "schedule_add_modify s e rs = Some (Inr (s', rs'))"
    unfolding schedule_add_modify_def s0(1) by (cases rs) simp_all
  moreover have "insert e (set_tree t0) = insert e (set_tree t)" using s0(4) by auto
  ultimately show ?thesis using s0(5) by auto
qed

lemma least_loop_hd:
  "shape h par (Some e) t \<Longrightarrow> least_loop h e = Some (hd (inorder t))"
proof (induction t arbitrary: par e)
  case (Node l a r)
  then show ?case
    by (cases l) (subst least_loop.simps, auto simp: hd_append)+
qed simp

lemma schedule_find_least_ok:
  assumes "shape (sd_heap s) None (sd_root s) t"
  shows "schedule_find_least s (sd_root s) = Some (if t = \<langle>\<rangle> then None else Some (hd (inorder t)))"
proof (cases "sd_root s")
  case None
  with assms show ?thesis by (simp add: schedule_find_least_def)
next
  case (Some e)
  have "t \<noteq> \<langle>\<rangle>" using assms Some by auto
  with Some least_loop_hd [OF assms [unfolded Some]] show ?thesis by (simp add: schedule_find_least_def)
qed

datatype sched_op =
    Sched_Add nat timeval u32 "u32 list"   \<comment> \<open>\<open>schedule_add_entry\<close>, with the random numbers it may draw\<close>
  | Sched_Remove nat                       \<comment> \<open>\<open>schedule_remove_entry\<close>\<close>
  | Sched_Get timeval                      \<comment> \<open>\<open>schedule_get_earliest_wakeup\<close>\<close>

fun sched_run :: "schedule \<Rightarrow> sched_op list \<Rightarrow> ((nat option \<times> timeval) list \<times> schedule) result option" where
  "sched_run s [] = Some (Inr ([], s))"
| "sched_run s (Sched_Add e tv sigma rs # ops) =
     Option.bind (schedule_add_entry s e tv sigma rs) (\<lambda>r.
       case r of Inl x \<Rightarrow> Some (Inl x) | Inr (s, _) \<Rightarrow> sched_run s ops)"
| "sched_run s (Sched_Remove e # ops) =
     Option.bind (schedule_remove_entry s e) (\<lambda>r. case r of Inl x \<Rightarrow> Some (Inl x) | Inr s \<Rightarrow> sched_run s ops)"
| "sched_run s (Sched_Get wakeup # ops) =
     Option.bind (schedule_get_earliest_wakeup s wakeup) (\<lambda>(ret, tv, s).
       Option.bind (sched_run s ops) (\<lambda>r. Some (bind_result r (\<lambda>(outs, s). Inr ((ret, tv) # outs, s)))))"

text \<open>The specification: a map from the scheduled entries to their wakeup times.\<close>

definition spec_add :: "(nat \<rightharpoonup> timeval) \<Rightarrow> nat \<Rightarrow> timeval \<Rightarrow> u32 \<Rightarrow> nat \<rightharpoonup> timeval" where
  \<comment> \<open>a time within \<open>sigma\<close> of the one already scheduled changes nothing\<close>
  "spec_add m e tv sigma =
     (case m e of Some tv0 \<Rightarrow> if sigma \<noteq> 0 \<and> tv_within_sigma tv tv0 sigma then m else m(e \<mapsto> tv)
      | None \<Rightarrow> m(e \<mapsto> tv))"

definition spec_earliest :: "(nat \<rightharpoonup> timeval) \<Rightarrow> timeval \<Rightarrow> nat option \<times> timeval \<Rightarrow> bool" where
  "spec_earliest m wakeup out \<longleftrightarrow>
     (case out of
        (None, tv) \<Rightarrow> m = Map.empty \<and> tv = wakeup
      | (Some e, tv) \<Rightarrow> m e = Some tv \<and> (\<forall>tv' \<in> ran m. tv \<le> tv'))"

fun spec_run :: "(nat \<rightharpoonup> timeval) \<Rightarrow> sched_op list \<Rightarrow> (nat option \<times> timeval) list \<Rightarrow> bool" where
  "spec_run m [] outs \<longleftrightarrow> outs = []"
| "spec_run m (Sched_Add e tv sigma rs # ops) outs \<longleftrightarrow> spec_run (spec_add m e tv sigma) ops outs"
| "spec_run m (Sched_Remove e # ops) outs \<longleftrightarrow> spec_run (m(e := None)) ops outs"
| "spec_run m (Sched_Get wakeup # ops) outs \<longleftrightarrow>
     (case outs of [] \<Rightarrow> False | out # outs \<Rightarrow> spec_earliest m wakeup out \<and> spec_run m ops outs)"

fun sched_entries :: "sched_op list \<Rightarrow> nat set" where
  "sched_entries [] = {}"
| "sched_entries (Sched_Add e tv sigma rs # ops) = insert e (sched_entries ops)"
| "sched_entries (op # ops) = sched_entries ops"

definition sched_map :: "schedule \<Rightarrow> nat tree \<Rightarrow> nat \<rightharpoonup> timeval" where
  "sched_map s t = (\<lambda>a. if a \<in> set_tree t then Some (se_tv (sd_heap s a)) else None)"

definition enough_random :: "nat set \<Rightarrow> sched_op \<Rightarrow> bool" where
  \<comment> \<open>the random numbers of an addition give as many different priorities as there are entries\<close>
  "enough_random A op = (case op of Sched_Add e tv sigma rs \<Rightarrow> card A \<le> card (pri_of ` set rs) | _ \<Rightarrow> True)"

lemma schedule_add_entry_ok:
  assumes ok: "sched_ok s t" and A: "set_tree t \<subseteq> A" "finite A" "e \<in> A" "card A \<le> card (pri_of ` set rs)"
  shows "\<exists>s' t' rs'. schedule_add_entry s e tv sigma rs = Some (Inr (s', rs')) \<and> sched_ok s' t' \<and> set_tree t' \<subseteq> A
           \<and> sched_map s' t' = spec_add (sched_map s t) e tv sigma"
proof (cases "\<not> IN_TREE s e \<or> sigma = 0 \<or> \<not> tv_within_sigma tv (se_tv (sd_heap s e)) sigma")
  case True
  let ?s = "se_set e (\<lambda>x. x\<lparr>se_tv := tv\<rparr>) s"
  have in_tree: "IN_TREE s e \<longleftrightarrow> e \<in> set_tree t"
    using ok by (auto simp: IN_TREE_def sched_ok_def sched_tree_def se_clean_def)
  have tree: "sched_tree ?s t" using ok by (simp add: sched_ok_def se_set_tv_tree)
  have "sched_sorted s (filter (\<lambda>a. a \<noteq> e) (inorder t))"
    using ok by (simp add: sched_ok_def sched_sorted_def sorted_wrt_filter)
  then have srt: "sched_sorted ?s (filter (\<lambda>a. a \<noteq> e) (inorder t))"
    using sched_sorted_cong [of "filter (\<lambda>a. a \<noteq> e) (inorder t)" ?s s] by (auto simp: se_set_def)
  have "card (insert e (set_tree t)) \<le> card A" using A by (intro card_mono) auto
  with A(4) obtain s1 t1 rs1 where s1: "schedule_add_modify ?s e rs = Some (Inr (s1, rs1))" "sched_tree s1 t1"
      "sched_sorted s1 (inorder t1)" "set_tree t1 = insert e (set_tree t)" "\<forall>a. se_tv (sd_heap s1 a) = se_tv (sd_heap ?s a)"
    using schedule_add_modify_ok [OF tree srt, of rs] by auto
  let ?s1 = "s1\<lparr>sd_earliest_wakeup := None\<rparr>"
  have "sched_ok ?s1 t1" using s1(2,3) by (simp add: sched_ok_def sched_tree_def sched_sorted_def)
  moreover have "sched_map ?s1 t1 = spec_add (sched_map s t) e tv sigma"
    using s1(4,5) True in_tree by (auto simp: sched_map_def spec_add_def se_set_def fun_eq_iff)
  moreover have "schedule_add_entry s e tv sigma rs = Some (Inr (?s1, rs1))"
    using True s1(1) by (simp add: schedule_add_entry_def)
  moreover have "set_tree t1 \<subseteq> A" using A(1,3) by (simp add: s1(4))
  ultimately show ?thesis by blast
next
  case False
  then have "e \<in> set_tree t"
    using ok by (auto simp: IN_TREE_def sched_ok_def sched_tree_def se_clean_def)
  with False ok A show ?thesis
    by (intro exI [of _ s] exI [of _ t] exI [of _ rs]) (auto simp: schedule_add_entry_def sched_map_def spec_add_def fun_eq_iff)
qed

lemma schedule_remove_entry_ok:
  assumes ok: "sched_ok s t"
  shows "\<exists>s' t'. schedule_remove_entry s e = Some (Inr s') \<and> sched_ok s' t' \<and> set_tree t' \<subseteq> set_tree t
           \<and> sched_map s' t' = (sched_map s t)(e := None)"
proof -
  let ?s = "s\<lparr>sd_earliest_wakeup := None\<rparr>"
  have tree: "sched_tree ?s t" and srt: "sched_sorted ?s (inorder t)"
    using ok by (simp_all add: sched_ok_def sched_tree_def sched_sorted_def)
  show ?thesis
  proof (cases "e \<in> set_tree t")
    case True
    obtain s' t' where s': "schedule_remove_node ?s e = Some (Inr s')" "sched_tree s' t'"
        "inorder t' = filter (\<lambda>a. a \<noteq> e) (inorder t)"
        "\<forall>a. se_tv (sd_heap s' a) = se_tv (sd_heap ?s a) \<and> (a \<noteq> e \<longrightarrow> sched_pri s' a = sched_pri ?s a)"
        "sd_earliest_wakeup s' = sd_earliest_wakeup ?s"
      using schedule_remove_node_in [OF tree True] by blast
    have "set (inorder t') = set (filter (\<lambda>a. a \<noteq> e) (inorder t))" by (simp only: s'(3))
    then have set: "set_tree t' = set_tree t - {e}" by auto
    have "sched_sorted ?s (inorder t')"
      using srt unfolding s'(3) by (simp add: sched_sorted_def sorted_wrt_filter)
    then have "sched_sorted s' (inorder t')"
      using sched_sorted_cong [of "inorder t'" s' ?s] s'(4) set by auto
    then have "sched_ok s' t'" using s'(2,5) by (simp add: sched_ok_def)
    moreover have "sched_map s' t' = (sched_map s t)(e := None)"
      using s'(4) set by (auto simp: sched_map_def fun_eq_iff)
    ultimately show ?thesis using s'(1) set by (auto simp: schedule_remove_entry_def)
  next
    case False
    have "sched_ok ?s t" using tree srt by (simp add: sched_ok_def)
    moreover have "sched_map ?s t = (sched_map s t)(e := None)" using False by (auto simp: sched_map_def fun_eq_iff)
    ultimately show ?thesis
      using schedule_remove_node_out [OF tree False] by (auto simp: schedule_remove_entry_def)
  qed
qed

lemma schedule_get_earliest_wakeup_ok:
  assumes ok: "sched_ok s t"
  shows "\<exists>ret tv s'. schedule_get_earliest_wakeup s wakeup = Some (ret, tv, s') \<and> sched_ok s' t
           \<and> sched_map s' t = sched_map s t \<and> spec_earliest (sched_map s t) wakeup (ret, tv)"
proof -
  have sh: "shape (sd_heap s) None (sd_root s) t" using ok by (simp add: sched_ok_def sched_tree_def)
  let ?ret = "if t = \<langle>\<rangle> then None else Some (hd (inorder t))"
  have ret: "(if sd_earliest_wakeup s = None then schedule_find_least s (sd_root s) else Some (sd_earliest_wakeup s)) = Some ?ret"
    using ok schedule_find_least_ok [OF sh] by (auto simp: sched_ok_def)
  let ?s = "s\<lparr>sd_earliest_wakeup := ?ret\<rparr>"
  have "sched_ok ?s t" using ok by (auto simp: sched_ok_def sched_tree_def sched_sorted_def)
  moreover have "spec_earliest (sched_map s t) wakeup (?ret, case ?ret of None \<Rightarrow> wakeup | Some e \<Rightarrow> se_tv (sd_heap s e))"
  proof (cases "inorder t")
    case Nil
    then have "t = \<langle>\<rangle>" by (cases t) auto
    then show ?thesis by (simp add: spec_earliest_def sched_map_def)
  next
    case (Cons a as)
    then have t: "t \<noteq> \<langle>\<rangle>" "set_tree t = insert a (set as)" by (auto simp flip: set_inorder)
    have "se_tv (sd_heap s a) \<le> se_tv (sd_heap s b)" if "b \<in> set_tree t" for b
      using ok that Cons t(2) by (auto simp: sched_ok_def sched_sorted_def key_less_def)
    with t Cons show ?thesis by (auto simp: spec_earliest_def sched_map_def ran_def split: if_splits)
  qed
  moreover have "sched_map ?s t = sched_map s t" by (auto simp: sched_map_def fun_eq_iff)
  ultimately show ?thesis
    unfolding schedule_get_earliest_wakeup_def ret by simp
qed

lemma sched_run_ok:
  assumes "sched_ok s t" "set_tree t \<subseteq> A" "finite A" "sched_entries ops \<subseteq> A" "\<forall>op \<in> set ops. enough_random A op"
  shows "\<exists>outs s' t'. sched_run s ops = Some (Inr (outs, s')) \<and> sched_ok s' t' \<and> spec_run (sched_map s t) ops outs"
  using assms
proof (induction ops arbitrary: s t)
  case Nil
  then show ?case by auto
next
  case (Cons op ops)
  have rest: "sched_entries ops \<subseteq> A" "\<forall>op \<in> set ops. enough_random A op"
    using Cons.prems(4,5) by (cases op; simp)+
  show ?case
  proof (cases op)
    case (Sched_Add e tv sigma rs)
    then have "e \<in> A" "card A \<le> card (pri_of ` set rs)" using Cons.prems(4,5) by (auto simp: enough_random_def)
    then obtain s1 t1 rs1 where s1: "schedule_add_entry s e tv sigma rs = Some (Inr (s1, rs1))" "sched_ok s1 t1"
        "set_tree t1 \<subseteq> A" "sched_map s1 t1 = spec_add (sched_map s t) e tv sigma"
      using schedule_add_entry_ok [OF Cons.prems(1-3)] by blast
    from Cons.IH [OF s1(2,3) Cons.prems(3) rest] s1 Sched_Add show ?thesis by simp
  next
    case (Sched_Remove e)
    obtain s1 t1 where s1: "schedule_remove_entry s e = Some (Inr s1)" "sched_ok s1 t1"
        "set_tree t1 \<subseteq> set_tree t" "sched_map s1 t1 = (sched_map s t)(e := None)"
      using schedule_remove_entry_ok [OF Cons.prems(1)] by blast
    have "set_tree t1 \<subseteq> A" using s1(3) Cons.prems(2) by (rule order_trans)
    from Cons.IH [OF s1(2) this Cons.prems(3) rest] obtain outs s' t' where
        "sched_run s1 ops = Some (Inr (outs, s'))" "sched_ok s' t'" "spec_run (sched_map s1 t1) ops outs" by blast
    moreover from this(3) have "spec_run (sched_map s t) (op # ops) outs"
      unfolding s1(4) Sched_Remove spec_run.simps .
    moreover have "sched_run s (op # ops) = sched_run s1 ops" using s1(1) Sched_Remove by simp
    ultimately show ?thesis by metis
  next
    case (Sched_Get wakeup)
    obtain ret tv s1 where s1: "schedule_get_earliest_wakeup s wakeup = Some (ret, tv, s1)" "sched_ok s1 t"
        "sched_map s1 t = sched_map s t" "spec_earliest (sched_map s t) wakeup (ret, tv)"
      using schedule_get_earliest_wakeup_ok [OF Cons.prems(1)] by blast
    obtain outs s' t' where "sched_run s1 ops = Some (Inr (outs, s'))" "sched_ok s' t'" "spec_run (sched_map s t) ops outs"
      using Cons.IH [OF s1(2) Cons.prems(2,3) rest] s1(3) by auto
    with s1 Sched_Get show ?thesis
      by (intro exI [of _ "(ret, tv) # outs"] exI [of _ s'] exI [of _ t']) simp
  qed
qed

text \<open>C30. The scheduler refines a map from entries to wakeup times: whatever entries are added,
  moved and removed in whatever order, no assertion on the links fails, every operation returns,
  each query gives an entry with the least wakeup time (and none only when nothing is
  scheduled), and the store stays a treap.  The cached earliest entry never shows.\<close>

theorem schedule_refines_map:
  assumes "\<forall>a. se_clean (objs a)" and "\<forall>op \<in> set ops. enough_random (sched_entries ops) op"
  shows "\<exists>outs s t. sched_run (schedule_init objs) ops = Some (Inr (outs, s)) \<and> sched_ok s t
           \<and> spec_run Map.empty ops outs"
proof -
  have ok: "sched_ok (schedule_init objs) \<langle>\<rangle>"
    using assms(1) by (simp add: sched_ok_def sched_tree_def schedule_init_def sched_sorted_def)
  have "finite (sched_entries ops)" by (induction ops rule: sched_entries.induct) auto
  from sched_run_ok [OF ok _ this order_refl assms(2)] show ?thesis
    by (simp add: sched_map_def)
qed

theorem schedule_refines_map_witness:
  fixes objs :: "nat \<Rightarrow> schedule_entry"
  defines "objs \<equiv> (\<lambda>_. \<lparr>se_tv = \<lparr>tv_sec = 0, tv_usec = 0\<rparr>, se_pri = 0, se_parent = None, se_lt = None, se_gt = None\<rparr>)"
  shows "\<exists>e1 tv1 e2 tv2 s. sched_run (schedule_init objs)
      [Sched_Add 1 \<lparr>tv_sec = 10, tv_usec = 0\<rparr> 0 [5, 6, 7], Sched_Add 2 \<lparr>tv_sec = 5, tv_usec = 0\<rparr> 0 [9, 4, 8],
       Sched_Add 3 \<lparr>tv_sec = 10, tv_usec = 0\<rparr> 0 [5, 6, 9], Sched_Get \<lparr>tv_sec = 99, tv_usec = 0\<rparr>,
       Sched_Remove 2, Sched_Get \<lparr>tv_sec = 99, tv_usec = 0\<rparr>] = Some (Inr ([(e1, tv1), (e2, tv2)], s))
    \<and> tv1 = \<lparr>tv_sec = 5, tv_usec = 0\<rparr> \<and> e1 = Some 2 \<and> tv2 = \<lparr>tv_sec = 10, tv_usec = 0\<rparr>"
proof -
  let ?ops = "[Sched_Add 1 \<lparr>tv_sec = 10, tv_usec = 0\<rparr> 0 [5, 6, 7], Sched_Add 2 \<lparr>tv_sec = 5, tv_usec = 0\<rparr> 0 [9, 4, 8],
       Sched_Add 3 \<lparr>tv_sec = 10, tv_usec = 0\<rparr> 0 [5, 6, 9], Sched_Get \<lparr>tv_sec = 99, tv_usec = 0\<rparr>,
       Sched_Remove 2, Sched_Get \<lparr>tv_sec = 99, tv_usec = 0\<rparr>]"
  have "\<forall>a. se_clean (objs a)" by (simp add: objs_def se_clean_def)
  moreover have "\<forall>op \<in> set ?ops. enough_random (sched_entries ?ops) op"
    by (simp add: enough_random_def pri_of_def)
  ultimately obtain outs s where run: "sched_run (schedule_init objs) ?ops = Some (Inr (outs, s))" "spec_run Map.empty ?ops outs"
    using schedule_refines_map [of objs ?ops] by blast
  define a b :: timeval where "a = \<lparr>tv_sec = 10, tv_usec = 0\<rparr>" and "b = \<lparr>tv_sec = 5, tv_usec = 0\<rparr>"
  have ab: "b \<le> a" "\<not> a \<le> b" by (simp_all add: a_def b_def timeval_le)
  have "\<exists>o1 o2. outs = [o1, o2] \<and> spec_earliest (Map.empty(1 \<mapsto> a, 2 \<mapsto> b, 3 \<mapsto> a)) \<lparr>tv_sec = 99, tv_usec = 0\<rparr> o1
      \<and> spec_earliest ((Map.empty(1 \<mapsto> a, 2 \<mapsto> b, 3 \<mapsto> a))(2 := None)) \<lparr>tv_sec = 99, tv_usec = 0\<rparr> o2"
    using run(2) by (simp add: spec_add_def flip: a_def b_def split: list.splits del: split_paired_Ex)
  then obtain o1 o2 where o: "outs = [o1, o2]"
      "spec_earliest (Map.empty(1 \<mapsto> a, 2 \<mapsto> b, 3 \<mapsto> a)) \<lparr>tv_sec = 99, tv_usec = 0\<rparr> o1"
      "spec_earliest ((Map.empty(1 \<mapsto> a, 2 \<mapsto> b, 3 \<mapsto> a))(2 := None)) \<lparr>tv_sec = 99, tv_usec = 0\<rparr> o2" by blast
  have ran: "ran (Map.empty(1 \<mapsto> a, 2 \<mapsto> b, 3 \<mapsto> a) :: nat \<rightharpoonup> timeval) = {a, b}"
    by (simp add: fun_upd_twist insert_commute)
  have ran2: "ran ((Map.empty(1 \<mapsto> a, 2 \<mapsto> b, 3 \<mapsto> a))(2 := None) :: nat \<rightharpoonup> timeval) = {a}"
    by (simp add: fun_upd_twist insert_commute)
  have ne: "b \<noteq> a" using ab by auto
  have nonempty: "m \<noteq> Map.empty" if "m 1 = Some a" for m :: "nat \<rightharpoonup> timeval"
    using that by auto
  obtain e1 tv1 where o1: "o1 = (Some e1, tv1)" "(Map.empty(1 \<mapsto> a, 2 \<mapsto> b, 3 \<mapsto> a)) e1 = Some tv1" "tv1 \<le> b"
    using o(2) nonempty [of "Map.empty(1 \<mapsto> a, 2 \<mapsto> b, 3 \<mapsto> a)"]
    by (cases o1; cases "fst o1") (auto simp: spec_earliest_def ran)
  then have "o1 = (Some 2, b)" using ab ne by (auto split: if_splits)
  moreover obtain e2 tv2 where o2: "o2 = (Some e2, tv2)" "((Map.empty(1 \<mapsto> a, 2 \<mapsto> b, 3 \<mapsto> a))(2 := None)) e2 = Some tv2"
    using o(3) nonempty [of "(Map.empty(1 \<mapsto> a, 2 \<mapsto> b, 3 \<mapsto> a))(2 := None)"]
    by (cases o2; cases "fst o2") (auto simp: spec_earliest_def ran2)
  then have "o2 = (Some e2, a)" by (auto split: if_splits)
  ultimately show ?thesis using run(1) unfolding o(1) a_def b_def by blast
qed

end
