(* ===== verification/Mbuf.thy ===== *)
theory Mbuf
  imports Buffer Hash_Table "HOL-Library.Multiset"
begin

text \<open>
  The queue of packets to many clients (mbuf.h, mbuf.c): a ring of pointers to reference-counted
  buffers.

  The buffers live in a store from addresses to \<open>struct mbuf_buffer\<close>; an address that is not in
  it has been freed, and using it is the fault \<open>DanglingPointer\<close>.  A client instance is its
  address.  \<open>mq_items\<close> is the abstract view of the ring: the queued (buffer, instance) pairs in
  order, with \<open>None\<close> for a slot whose client has gone.
\<close>

section \<open>State\<close>

definition MBUF_INDEX :: "u32 \<Rightarrow> u32 \<Rightarrow> u32 \<Rightarrow> u32" where
  "MBUF_INDEX head offset sz = (head + offset) AND (sz - 1)"

definition MF_UNICAST :: u32 where "MF_UNICAST = push_bit 0 1"

record mbuf_buffer =
  mb_buf :: buffer
  mb_refcount :: int
  mb_flags :: u32

type_synonym mbuf_store = "nat \<rightharpoonup> mbuf_buffer"

record mbuf_item =
  mi_buffer :: "nat option"
  mi_instance :: "nat option"

record mbuf_set =
  ms_head :: u32
  ms_len :: u32
  ms_capacity :: u32
  ms_max_queued :: u32
  ms_array :: "mbuf_item list"

definition ms_at :: "mbuf_set \<Rightarrow> u32 \<Rightarrow> mbuf_item" where
  \<comment> \<open>\<open>ms->array[MBUF_INDEX (ms->head, i, ms->capacity)]\<close>\<close>
  "ms_at ms i = ms_array ms ! unat (MBUF_INDEX (ms_head ms) i (ms_capacity ms))"

section \<open>Operations\<close>

definition mbuf_init :: "(nat \<Rightarrow> mbuf_item) \<Rightarrow> u32 \<Rightarrow> mbuf_set result" where
  \<comment> \<open>\<open>junk\<close>: the array is not initialized\<close>
  "mbuf_init junk sz =
     bind_result (adjust_power_of_2 (ucast sz)) (\<lambda>c.
       Inr \<lparr>ms_head = 0, ms_len = 0, ms_capacity = ucast c, ms_max_queued = 0,
            ms_array = map junk [0..<unat (ucast c :: u32)]\<rparr>)" for sz

definition mbuf_alloc_buf :: "(nat \<Rightarrow> byte) \<Rightarrow> mbuf_store \<Rightarrow> nat \<Rightarrow> buffer \<Rightarrow> mbuf_store" where
  \<comment> \<open>\<open>a\<close> is the address that \<open>malloc\<close> gives\<close>
  "mbuf_alloc_buf junk st a b = st(a \<mapsto> \<lparr>mb_buf = clone_buf junk b, mb_refcount = 1, mb_flags = 0\<rparr>)"

definition mbuf_free_buf :: "mbuf_store \<Rightarrow> nat option \<Rightarrow> mbuf_store result" where
  "mbuf_free_buf st mb =
     (case mb of None \<Rightarrow> Inr st
      | Some a \<Rightarrow>
          (case st a of None \<Rightarrow> Inl DanglingPointer
           | Some m \<Rightarrow> (let m = m\<lparr>mb_refcount := mb_refcount m - 1\<rparr>
                        in Inr (if mb_refcount m \<le> 0 then st(a := None) else st(a \<mapsto> m)))))"

function extract_loop :: "mbuf_set \<Rightarrow> mbuf_item \<Rightarrow> bool \<times> mbuf_item \<times> mbuf_set" where
  \<comment> \<open>the loop of \<open>mbuf_extract_item\<close>\<close>
  "extract_loop ms item =
     (if ms_len ms \<noteq> 0
      then (let item = ms_array ms ! unat (ms_head ms);
                ms = ms\<lparr>ms_head := MBUF_INDEX (ms_head ms) 1 (ms_capacity ms), ms_len := ms_len ms - 1\<rparr>
            in if mi_instance item \<noteq> None then (True, item, ms) else extract_loop ms item)
      else (False, item, ms))"
  by pat_completeness auto
termination
  by (relation "measure (\<lambda>(ms, item). unat (ms_len ms))") (auto simp: measure_unat)
declare extract_loop.simps [simp del]

definition mbuf_extract_item :: "mbuf_set \<Rightarrow> mbuf_item \<Rightarrow> bool \<times> mbuf_item \<times> mbuf_set" where
  "mbuf_extract_item ms item = extract_loop ms item"

definition mbuf_add_item :: "mbuf_store \<Rightarrow> mbuf_set \<Rightarrow> mbuf_item \<Rightarrow> (mbuf_store \<times> mbuf_set) result" where
  "mbuf_add_item st ms item =
     bind_result
       (if ms_len ms = ms_capacity ms
        then (case mbuf_extract_item ms \<lparr>mi_buffer = None, mi_instance = None\<rparr> of
                (ok, rm, ms) \<Rightarrow>
                  assert_that ok (bind_result (mbuf_free_buf st (mi_buffer rm)) (\<lambda>st. Inr (st, ms))))
        else Inr (st, ms))
       (\<lambda>(st, ms). assert_that (ms_len ms < ms_capacity ms)
          (let i = unat (MBUF_INDEX (ms_head ms) (ms_len ms) (ms_capacity ms));
               ms = ms\<lparr>ms_array := (ms_array ms)[i := item], ms_len := ms_len ms + 1\<rparr>;
               ms = (if ms_len ms > ms_max_queued ms then ms\<lparr>ms_max_queued := ms_len ms\<rparr> else ms)
           in case mi_buffer item of
                None \<Rightarrow> Inl NullDeref
              | Some a \<Rightarrow>
                  (case st a of None \<Rightarrow> Inl DanglingPointer
                   | Some m \<Rightarrow> Inr (st(a \<mapsto> m\<lparr>mb_refcount := mb_refcount m + 1\<rparr>), ms))))"

definition mbuf_defined :: "mbuf_set \<Rightarrow> bool" where
  "mbuf_defined ms \<longleftrightarrow> ms_len ms \<noteq> 0"

definition mbuf_len :: "mbuf_set \<Rightarrow> int" where
  \<comment> \<open>\<open>bool\<close> is \<open>int\<close> (basic.h): the length itself is returned\<close>
  "mbuf_len ms = int_of_u32 (ms_len ms)"

definition mbuf_maximum_queued :: "mbuf_set \<Rightarrow> int" where
  "mbuf_maximum_queued ms = int_of_u32 (ms_max_queued ms)"

definition mbuf_indices :: "mbuf_set \<Rightarrow> u32 list" where
  \<comment> \<open>the values of \<open>i\<close> in \<open>for (i = 0; i < (int) ms->len; ++i)\<close>\<close>
  "mbuf_indices ms = map of_nat [0..<nat (int_of_u32 (ms_len ms))]"

fun peek_loop :: "mbuf_set \<Rightarrow> u32 list \<Rightarrow> nat option" where
  "peek_loop ms [] = None"
| "peek_loop ms (i # is) =
     (case mi_instance (ms_at ms i) of Some mi \<Rightarrow> Some mi | None \<Rightarrow> peek_loop ms is)"

definition mbuf_peek_dowork :: "mbuf_set \<Rightarrow> nat option" where
  "mbuf_peek_dowork ms = peek_loop ms (mbuf_indices ms)"

definition mbuf_peek :: "mbuf_set \<Rightarrow> nat option" where
  "mbuf_peek ms = (if mbuf_defined ms then mbuf_peek_dowork ms else None)"

fun dereference_loop :: "mbuf_store \<Rightarrow> mbuf_set \<Rightarrow> nat \<Rightarrow> u32 list \<Rightarrow> (mbuf_store \<times> mbuf_set) result" where
  "dereference_loop st ms mi [] = Inr (st, ms)"
| "dereference_loop st ms mi (i # is) =
     (if mi_instance (ms_at ms i) = Some mi
      then bind_result (mbuf_free_buf st (mi_buffer (ms_at ms i))) (\<lambda>st.
             dereference_loop st
               (ms\<lparr>ms_array := (ms_array ms)[unat (MBUF_INDEX (ms_head ms) i (ms_capacity ms)) :=
                    \<lparr>mi_buffer = None, mi_instance = None\<rparr>]\<rparr>) mi is)
      else dereference_loop st ms mi is)"

definition mbuf_dereference_instance :: "mbuf_store \<Rightarrow> mbuf_set \<Rightarrow> nat \<Rightarrow> (mbuf_store \<times> mbuf_set) result" where
  "mbuf_dereference_instance st ms mi = dereference_loop st ms mi (mbuf_indices ms)"

fun free_items :: "mbuf_store \<Rightarrow> mbuf_set \<Rightarrow> u32 list \<Rightarrow> mbuf_store result" where
  "free_items st ms [] = Inr st"
| "free_items st ms (i # is) =
     bind_result (mbuf_free_buf st (mi_buffer (ms_at ms i))) (\<lambda>st. free_items st ms is)"

definition mbuf_free :: "mbuf_store \<Rightarrow> mbuf_set \<Rightarrow> mbuf_store result" where
  \<comment> \<open>the items; the set itself is then gone\<close>
  "mbuf_free st ms = free_items st ms (mbuf_indices ms)"

section \<open>The ring\<close>

definition mq_ok :: "mbuf_set \<Rightarrow> bool" where
  "mq_ok ms \<longleftrightarrow> (\<exists>k \<le> 30. unat (ms_capacity ms) = 2 ^ k) \<and> ms_head ms < ms_capacity ms
     \<and> ms_len ms \<le> ms_capacity ms \<and> length (ms_array ms) = unat (ms_capacity ms)"

definition mq_items :: "mbuf_set \<Rightarrow> mbuf_item list" where
  "mq_items ms = map (\<lambda>i. ms_array ms ! ((unat (ms_head ms) + i) mod unat (ms_capacity ms))) [0..<unat (ms_len ms)]"

lemma MBUF_INDEX_mod:
  assumes "unat c = 2 ^ k" "k \<le> 30"
  shows "unat (MBUF_INDEX h i c) = (unat h + unat i) mod unat c"
proof -
  have "c = 2 ^ k" using assms(1) by (metis of_nat_numeral of_nat_power unat_eq_of_nat)
  then have idx: "MBUF_INDEX h i c = take_bit k (h + i)"
    by (simp add: MBUF_INDEX_def take_bit_eq_mask mask_eq_exp_minus_1)
  have "unat (MBUF_INDEX h i c) = take_bit k (unat (h + i))"
    unfolding idx by (rule unsigned_take_bit_eq)
  also have "\<dots> = (unat h + unat i) mod 2 ^ 32 mod 2 ^ k"
    unfolding take_bit_eq_mod by (simp add: unat_word_ariths)
  also have "\<dots> = (unat h + unat i) mod 2 ^ k"
    using assms(2) by (intro mod_mod_cancel le_imp_power_dvd) simp
  finally show ?thesis using assms(1) by simp
qed

lemma mq_ok_index:
  assumes "mq_ok ms"
  shows "unat (MBUF_INDEX h i (ms_capacity ms)) = (unat h + unat i) mod unat (ms_capacity ms)"
    "unat (MBUF_INDEX h i (ms_capacity ms)) < unat (ms_capacity ms)"
proof -
  show *: "unat (MBUF_INDEX h i (ms_capacity ms)) = (unat h + unat i) mod unat (ms_capacity ms)"
    using assms MBUF_INDEX_mod by (auto simp: mq_ok_def)
  have "0 < unat (ms_capacity ms)" using assms by (auto simp: mq_ok_def)
  then show "unat (MBUF_INDEX h i (ms_capacity ms)) < unat (ms_capacity ms)" unfolding * by simp
qed

lemma mq_ok_bounds:
  assumes "mq_ok ms"
  shows "unat (ms_len ms) \<le> unat (ms_capacity ms)" "unat (ms_head ms) < unat (ms_capacity ms)"
    "unat (ms_capacity ms) \<le> 2 ^ 30" "length (mq_items ms) = unat (ms_len ms)"
proof -
  obtain k where "k \<le> 30" "unat (ms_capacity ms) = 2 ^ k" using assms by (auto simp: mq_ok_def)
  then show "unat (ms_capacity ms) \<le> 2 ^ 30" using power_increasing [of k 30 "2 :: nat"] by simp
qed (use assms in \<open>auto simp: mq_ok_def mq_items_def word_le_nat_alt word_less_nat_alt\<close>)

lemma mbuf_indices_eq: "mq_ok ms \<Longrightarrow> mbuf_indices ms = map of_nat [0..<unat (ms_len ms)]"
proof -
  assume ok: "mq_ok ms"
  have "unat (ms_len ms) \<le> 2 ^ 30" using mq_ok_bounds [OF ok] by linarith
  then have "nat (uint (ms_len ms)) \<le> 2 ^ 30" by (simp only: nat_uint_eq)
  then have "uint (ms_len ms) < 2 ^ 31" by (simp add: nat_le_iff del: nat_uint_eq)
  then have "int_of_u32 (ms_len ms) = uint (ms_len ms)" by (rule int_of_u32_small)
  then show ?thesis by (simp only: mbuf_indices_def nat_uint_eq)
qed

lemma ms_at_items:
  assumes "mq_ok ms" "i < unat (ms_len ms)"
  shows "ms_at ms (of_nat i) = mq_items ms ! i"
proof -
  have "i < 2 ^ 32" using assms(2) unat_bound [of "ms_len ms"] by simp
  then have "unat (of_nat i :: u32) = i" by (simp add: unat_of_nat take_bit_nat_eq_self)
  with assms show ?thesis by (simp add: ms_at_def mq_items_def mq_ok_index)
qed

lemma mq_pop:
  assumes ok: "mq_ok ms" and len: "ms_len ms \<noteq> 0"
  defines "ms' \<equiv> ms\<lparr>ms_head := MBUF_INDEX (ms_head ms) 1 (ms_capacity ms), ms_len := ms_len ms - 1\<rparr>"
  shows "mq_items ms = ms_array ms ! unat (ms_head ms) # mq_items ms'" "mq_ok ms'"
proof -
  let ?c = "unat (ms_capacity ms)" and ?h = "unat (ms_head ms)"
  note b = mq_ok_bounds [OF ok]
  have l: "unat (ms_len ms - 1) = unat (ms_len ms) - 1" "0 < unat (ms_len ms)"
    using len by (simp_all add: unat_minus_one unat_gt_0)
  have "(?h + Suc i) mod ?c = ((?h + 1) mod ?c + i) mod ?c" for i
    by (simp add: mod_add_left_eq)
  moreover have "[0..<unat (ms_len ms)] = 0 # map Suc [0..<unat (ms_len ms) - 1]"
    using l(2) upt_0_Suc [of "unat (ms_len ms) - 1"] by simp
  ultimately show "mq_items ms = ms_array ms ! ?h # mq_items ms'"
    using b by (simp add: mq_items_def ms'_def l mq_ok_index [OF ok])
  have "MBUF_INDEX (ms_head ms) 1 (ms_capacity ms) < ms_capacity ms"
    using mq_ok_index(2) [OF ok] by (simp add: word_less_nat_alt)
  moreover have "ms_len ms - 1 \<le> ms_capacity ms" using b(1) l by (simp add: word_le_nat_alt)
  ultimately show "mq_ok ms'" using ok by (simp add: mq_ok_def ms'_def)
qed

lemma ring_index_neq:
  assumes "i < n" "n < (c :: nat)"
  shows "(h + i) mod c \<noteq> (h + n) mod c"
proof
  assume "(h + i) mod c = (h + n) mod c"
  then have "c dvd (h + n) - (h + i)" using assms by (intro mod_eq_dvd_iff_nat [THEN iffD1]) auto
  then have "c dvd n - i" by simp
  moreover have "0 < n - i" "n - i < c" using assms by auto
  ultimately show False using dvd_imp_le by fastforce
qed

lemma mq_update:
  assumes ok: "mq_ok ms" and i: "unat i < unat (ms_capacity ms)" and len: "unat (ms_len ms) \<le> unat (ms_capacity ms)"
  defines "j \<equiv> unat (MBUF_INDEX (ms_head ms) i (ms_capacity ms))"
  shows "mq_items (ms\<lparr>ms_array := (ms_array ms)[j := x]\<rparr>) = (mq_items ms)[unat i := x]"
    "mq_ok (ms\<lparr>ms_array := (ms_array ms)[j := x]\<rparr>)"
proof -
  let ?c = "unat (ms_capacity ms)" and ?h = "unat (ms_head ms)"
  have j: "j = (?h + unat i) mod ?c" using mq_ok_index [OF ok] by (simp add: j_def)
  have neq: "(?h + n) mod ?c \<noteq> j" if "n < unat (ms_len ms)" "n \<noteq> unat i" for n
    using ring_index_neq [of n "unat i" ?c ?h] ring_index_neq [of "unat i" n ?c ?h] that i len
    by (cases "n < unat i") (auto simp: j)
  have "j < length (ms_array ms)" using ok mq_ok_index(2) [OF ok] by (simp add: mq_ok_def j_def)
  then show "mq_items (ms\<lparr>ms_array := (ms_array ms)[j := x]\<rparr>) = (mq_items ms)[unat i := x]"
  proof (intro nth_equalityI)
    fix n assume "n < length (mq_items (ms\<lparr>ms_array := (ms_array ms)[j := x]\<rparr>))"
    then have n: "n < unat (ms_len ms)" by (simp add: mq_items_def)
    show "mq_items (ms\<lparr>ms_array := (ms_array ms)[j := x]\<rparr>) ! n = (mq_items ms)[unat i := x] ! n"
      using n neq [OF n] \<open>j < _\<close> by (cases "n = unat i") (auto simp: mq_items_def simp flip: j)
  qed (simp add: mq_items_def)
  show "mq_ok (ms\<lparr>ms_array := (ms_array ms)[j := x]\<rparr>)" using ok by (simp add: mq_ok_def)
qed

lemma mq_push:
  assumes ok: "mq_ok ms" and room: "ms_len ms < ms_capacity ms"
  defines "j \<equiv> unat (MBUF_INDEX (ms_head ms) (ms_len ms) (ms_capacity ms))"
  shows "mq_items (ms\<lparr>ms_array := (ms_array ms)[j := x], ms_len := ms_len ms + 1\<rparr>) = mq_items ms @ [x]"
    "mq_ok (ms\<lparr>ms_array := (ms_array ms)[j := x], ms_len := ms_len ms + 1\<rparr>)"
proof -
  let ?c = "unat (ms_capacity ms)" and ?h = "unat (ms_head ms)" and ?n = "unat (ms_len ms)"
  have l: "unat (ms_len ms + 1) = Suc ?n" by (rule unat_Suc_less [OF room])
  have n: "?n < ?c" using room by (simp add: word_less_nat_alt)
  have j: "j = (?h + ?n) mod ?c" using mq_ok_index [OF ok] by (simp add: j_def)
  have "j < length (ms_array ms)" using ok mq_ok_index(2) [OF ok] by (simp add: mq_ok_def j_def)
  moreover have "(?h + i) mod ?c \<noteq> j" if "i < ?n" for i using ring_index_neq [OF that n] by (simp add: j)
  then have "(ms_array ms)[j := x] ! ((?h + i) mod ?c) = ms_array ms ! ((?h + i) mod ?c)" if "i < ?n" for i
    using that by (metis nth_list_update_neq)
  ultimately show "mq_items (ms\<lparr>ms_array := (ms_array ms)[j := x], ms_len := ms_len ms + 1\<rparr>) = mq_items ms @ [x]"
    by (simp add: mq_items_def l flip: j)
  show "mq_ok (ms\<lparr>ms_array := (ms_array ms)[j := x], ms_len := ms_len ms + 1\<rparr>)"
    using ok n l by (simp add: mq_ok_def word_le_nat_alt)
qed

section \<open>Reference counts\<close>

definition refs_ok :: "mbuf_store \<Rightarrow> nat multiset \<Rightarrow> bool" where
  \<comment> \<open>\<open>R\<close> has every address once for each reference to it\<close>
  "refs_ok st R \<longleftrightarrow>
     (\<forall>a. case st a of None \<Rightarrow> a \<notin># R | Some m \<Rightarrow> a \<in># R \<and> mb_refcount m = int (count R a))"

lemma refs_ok_alive: "refs_ok st R \<Longrightarrow> a \<in># R \<Longrightarrow> \<exists>m. st a = Some m \<and> mb_refcount m = int (count R a)"
  by (cases "st a") (auto simp: refs_ok_def dest: spec [of _ a])

lemma refs_ok_dom: "refs_ok st R \<Longrightarrow> dom st = set_mset R"
  by (auto simp: refs_ok_def dom_def split: option.splits)

lemma mbuf_free_buf_ok:
  assumes "refs_ok st (add_mset a R)"
  shows "\<exists>st'. mbuf_free_buf st (Some a) = Inr st' \<and> refs_ok st' R"
proof -
  obtain m where m: "st a = Some m" "mb_refcount m = int (count R a) + 1"
    using refs_ok_alive [OF assms, of a] by auto
  let ?st = "if a \<in># R then st(a \<mapsto> m\<lparr>mb_refcount := mb_refcount m - 1\<rparr>) else st(a := None)"
  have "mb_refcount m - 1 \<le> 0 \<longleftrightarrow> a \<notin># R" using m(2) by (simp add: not_in_iff)
  then have "mbuf_free_buf st (Some a) = Inr ?st" using m(1) by (simp add: mbuf_free_buf_def Let_def)
  moreover have "refs_ok ?st R"
    unfolding refs_ok_def
  proof
    fix x
    show "case ?st x of None \<Rightarrow> x \<notin># R | Some m \<Rightarrow> x \<in># R \<and> mb_refcount m = int (count R x)"
      using assms [unfolded refs_ok_def, rule_format, of x] m
      by (cases "x = a") (auto simp: count_eq_zero_iff split: option.splits if_splits)
  qed
  ultimately show ?thesis by blast
qed

lemma refs_ok_inc:
  assumes "refs_ok st R" "st a = Some m"
  shows "refs_ok (st(a \<mapsto> m\<lparr>mb_refcount := mb_refcount m + 1\<rparr>)) (add_mset a R)"
  unfolding refs_ok_def
proof
  fix x
  show "case (st(a \<mapsto> m\<lparr>mb_refcount := mb_refcount m + 1\<rparr>)) x of None \<Rightarrow> x \<notin># add_mset a R
      | Some m \<Rightarrow> x \<in># add_mset a R \<and> mb_refcount m = int (count (add_mset a R) x)"
    using assms(1) [unfolded refs_ok_def, rule_format, of x] assms(2)
    by (cases "x = a") (auto split: option.splits)
qed

lemma refs_ok_alloc:
  assumes "refs_ok st R" "a \<notin># R"
  shows "refs_ok (mbuf_alloc_buf junk st a b) (add_mset a R)"
  unfolding refs_ok_def
proof
  fix x
  show "case mbuf_alloc_buf junk st a b x of None \<Rightarrow> x \<notin># add_mset a R
      | Some m \<Rightarrow> x \<in># add_mset a R \<and> mb_refcount m = int (count (add_mset a R) x)"
    using assms(1) [unfolded refs_ok_def, rule_format, of x] assms(2)
    by (cases "x = a") (auto simp: mbuf_alloc_buf_def not_in_iff split: option.splits)
qed

section \<open>The queue it implements\<close>

type_synonym mqueue = "(nat \<times> nat) option list"
  \<comment> \<open>buffer and client of each slot; \<open>None\<close> once the client has gone\<close>

fun item_of :: "(nat \<times> nat) option \<Rightarrow> mbuf_item" where
  "item_of None = \<lparr>mi_buffer = None, mi_instance = None\<rparr>"
| "item_of (Some (a, j)) = \<lparr>mi_buffer = Some a, mi_instance = Some j\<rparr>"

fun queue_refs :: "mqueue \<Rightarrow> nat multiset" where
  "queue_refs [] = {#}"
| "queue_refs (None # q) = queue_refs q"
| "queue_refs (Some (a, j) # q) = add_mset a (queue_refs q)"

definition q_extract :: "mqueue \<Rightarrow> (nat \<times> nat) option \<times> mqueue" where
  "q_extract q = (case dropWhile (\<lambda>x. x = None) q of [] \<Rightarrow> (None, []) | x # q \<Rightarrow> (x, q))"

definition q_add :: "nat \<Rightarrow> mqueue \<Rightarrow> nat \<times> nat \<Rightarrow> mqueue option" where
  \<comment> \<open>a full queue loses its oldest packet; \<open>None\<close> when every slot of a full queue is dead\<close>
  "q_add cap q x =
     (if length q = cap
      then (case q_extract q of (None, _) \<Rightarrow> None | (Some _, q) \<Rightarrow> Some (q @ [Some x]))
      else Some (q @ [Some x]))"

definition q_peek :: "mqueue \<Rightarrow> nat option" where
  "q_peek q = map_option (\<lambda>(a, j). j) (fst (q_extract q))"

fun q_leave :: "nat \<Rightarrow> (nat \<times> nat) option \<Rightarrow> (nat \<times> nat) option" where
  "q_leave mi None = None"
| "q_leave mi (Some (a, j)) = (if j = mi then None else Some (a, j))"

lemma queue_refs_append [simp]: "queue_refs (q @ q') = queue_refs q + queue_refs q'"
  by (induction q rule: queue_refs.induct) auto

lemma q_extract_Cons [simp]:
  "q_extract [] = (None, [])" "q_extract (None # q) = q_extract q" "q_extract (Some x # q) = (Some x, q)"
  by (simp_all add: q_extract_def)

lemma q_extract_refs:
  "queue_refs q = (case fst (q_extract q) of None \<Rightarrow> {#} | Some (a, j) \<Rightarrow> {#a#}) + queue_refs (snd (q_extract q))"
  by (induction q rule: queue_refs.induct) auto

lemma q_extract_length: "fst (q_extract q) \<noteq> None \<Longrightarrow> length (snd (q_extract q)) < length q"
proof (induction q)
  case (Cons x q)
  then show ?case by (cases x) auto
qed simp

definition mbuf_rel :: "mbuf_store \<Rightarrow> mbuf_set \<Rightarrow> mqueue \<Rightarrow> nat multiset \<Rightarrow> bool" where
  \<comment> \<open>the ring holds the queue, and \<open>H\<close> are the references its users hold\<close>
  "mbuf_rel st ms q H \<longleftrightarrow> mq_ok ms \<and> mq_items ms = map item_of q \<and> refs_ok st (H + queue_refs q)"

lemma item_of_instance [simp]: "mi_instance (item_of x) = map_option (\<lambda>(a, j). j) x"
  by (cases x rule: item_of.cases) auto

lemma item_of_buffer [simp]: "mi_buffer (item_of x) = map_option (\<lambda>(a, j). a) x"
  by (cases x rule: item_of.cases) auto

lemma extract_loop_ok:
  assumes "mq_ok ms" "mq_items ms = map item_of q"
  shows "\<exists>ms' item. extract_loop ms it = (fst (q_extract q) \<noteq> None, item, ms')
           \<and> (fst (q_extract q) \<noteq> None \<longrightarrow> item = item_of (fst (q_extract q)))
           \<and> mq_ok ms' \<and> mq_items ms' = map item_of (snd (q_extract q)) \<and> ms_capacity ms' = ms_capacity ms"
  using assms
proof (induction q arbitrary: ms it)
  case Nil
  then have "ms_len ms = 0" using mq_ok_bounds(4) [OF Nil.prems(1)] by (simp add: unat_eq_zero)
  with Nil show ?case by (subst extract_loop.simps) auto
next
  case (Cons x q)
  have len: "ms_len ms \<noteq> 0" using mq_ok_bounds(4) [OF Cons.prems(1)] Cons.prems(2) by auto
  let ?ms = "ms\<lparr>ms_head := MBUF_INDEX (ms_head ms) 1 (ms_capacity ms), ms_len := ms_len ms - 1\<rparr>"
  have pop: "ms_array ms ! unat (ms_head ms) = item_of x" "mq_items ?ms = map item_of q" "mq_ok ?ms"
    using mq_pop [OF Cons.prems(1) len] Cons.prems(2) by simp_all
  have step: "extract_loop ms it = (if x \<noteq> None then (True, item_of x, ?ms) else extract_loop ?ms (item_of x))"
    using len pop(1) by (subst extract_loop.simps) (simp add: Let_def)
  show ?case
  proof (cases x)
    case None
    then have q: "q_extract (x # q) = q_extract q" by simp
    show ?thesis unfolding q step using None Cons.IH [OF pop(3,2), of "item_of x"] by simp
  next
    case (Some y)
    then show ?thesis unfolding step using pop(2,3) by simp
  qed
qed

lemma mbuf_add_item_ok:
  assumes rel: "mbuf_rel st ms q H" and a: "a \<in># H"
  shows "case q_add (unat (ms_capacity ms)) q (a, j) of
      None \<Rightarrow> mbuf_add_item st ms (item_of (Some (a, j))) = Inl AssertFailed
    | Some q' \<Rightarrow> \<exists>st' ms'. mbuf_add_item st ms (item_of (Some (a, j))) = Inr (st', ms') \<and> mbuf_rel st' ms' q' H
        \<and> ms_capacity ms' = ms_capacity ms"
proof -
  have ok: "mq_ok ms" and items: "mq_items ms = map item_of q" and refs: "refs_ok st (H + queue_refs q)"
    using rel by (simp_all add: mbuf_rel_def)
  let ?c = "unat (ms_capacity ms)" and ?x = "item_of (Some (a, j))"
  have len: "length q = unat (ms_len ms)" using mq_ok_bounds(4) [OF ok] items by simp
  have put: "\<exists>st' ms'. assert_that (ms_len ms1 < ms_capacity ms1)
        (let i = unat (MBUF_INDEX (ms_head ms1) (ms_len ms1) (ms_capacity ms1));
             m = ms1\<lparr>ms_array := (ms_array ms1)[i := ?x], ms_len := ms_len ms1 + 1\<rparr>;
             m = (if ms_len m > ms_max_queued m then m\<lparr>ms_max_queued := ms_len m\<rparr> else m)
         in case mi_buffer ?x of None \<Rightarrow> Inl NullDeref
            | Some a \<Rightarrow> (case st1 a of None \<Rightarrow> Inl DanglingPointer
                        | Some mb \<Rightarrow> Inr (st1(a \<mapsto> mb\<lparr>mb_refcount := mb_refcount mb + 1\<rparr>), m)))
        = Inr (st', ms') \<and> mbuf_rel st' ms' (q1 @ [Some (a, j)]) H \<and> ms_capacity ms' = ms_capacity ms1"
    if ok1: "mq_ok ms1" and items1: "mq_items ms1 = map item_of q1" and refs1: "refs_ok st1 (H + queue_refs q1)"
      and room: "length q1 < unat (ms_capacity ms1)" for st1 ms1 q1
  proof -
    have lt: "ms_len ms1 < ms_capacity ms1"
      using room mq_ok_bounds(4) [OF ok1] items1 by (simp add: word_less_nat_alt)
    let ?i = "unat (MBUF_INDEX (ms_head ms1) (ms_len ms1) (ms_capacity ms1))"
    let ?m = "ms1\<lparr>ms_array := (ms_array ms1)[?i := ?x], ms_len := ms_len ms1 + 1\<rparr>"
    let ?m' = "if ms_len ?m > ms_max_queued ?m then ?m\<lparr>ms_max_queued := ms_len ?m\<rparr> else ?m"
    have m: "mq_items ?m = mq_items ms1 @ [?x]" "mq_ok ?m" by (rule mq_push [OF ok1 lt])+
    then have m': "mq_items ?m' = map item_of (q1 @ [Some (a, j)])" "mq_ok ?m'"
      using items1 by (auto simp: mq_items_def mq_ok_def)
    have "a \<in># H + queue_refs q1" using a by simp
    then obtain mb where mb: "st1 a = Some mb" using refs_ok_alive [OF refs1] by blast
    let ?st = "st1(a \<mapsto> mb\<lparr>mb_refcount := mb_refcount mb + 1\<rparr>)"
    have "mbuf_rel ?st ?m' (q1 @ [Some (a, j)]) H"
      using m' refs_ok_inc [OF refs1 mb] by (simp add: mbuf_rel_def)
    moreover have "ms_capacity ?m' = ms_capacity ms1" by simp
    ultimately show ?thesis
      by (intro exI [of _ ?st] exI [of _ ?m'] conjI) (simp_all only: lt mb assert_that_True Let_def item_of_buffer
            option.simps prod.case)
  qed
  show ?thesis
  proof (cases "length q = ?c")
    case False
    then have "length q < ?c" using len mq_ok_bounds(1) [OF ok] by simp
    moreover have "ms_len ms \<noteq> ms_capacity ms" using False len by auto
    ultimately show ?thesis using put [OF ok items refs] False
      by (simp add: q_add_def mbuf_add_item_def)
  next
    case True
    then have full: "ms_len ms = ms_capacity ms" using len by (simp add: word_unat_eq_iff)
    obtain ms1 it where ex: "mbuf_extract_item ms \<lparr>mi_buffer = None, mi_instance = None\<rparr> = (fst (q_extract q) \<noteq> None, it, ms1)"
        "fst (q_extract q) \<noteq> None \<longrightarrow> it = item_of (fst (q_extract q))" "mq_ok ms1"
        "mq_items ms1 = map item_of (snd (q_extract q))" "ms_capacity ms1 = ms_capacity ms"
      using extract_loop_ok [OF ok items] unfolding mbuf_extract_item_def by blast
    show ?thesis
    proof (cases "fst (q_extract q)")
      case None
      then have "q_extract q = (None, snd (q_extract q))" by (simp add: prod_eq_iff)
      then have "q_add ?c q (a, j) = None" using True by (metis (no_types, lifting) case_prod_conv option.case(1) q_add_def)
      then show ?thesis using full ex(1) None by (simp add: mbuf_add_item_def)
    next
      case (Some y)
      obtain b i where y: "y = (b, i)" by fastforce
      let ?q = "snd (q_extract q)"
      have "q_extract q = (Some (b, i), ?q)" using Some y by (simp add: prod_eq_iff)
      then have qa: "q_add ?c q (a, j) = Some (?q @ [Some (a, j)])"
        using True by (metis (no_types, lifting) case_prod_conv option.case(2) q_add_def)
      have "refs_ok st (add_mset b (H + queue_refs ?q))"
        using refs q_extract_refs [of q] Some y by simp
      then obtain st1 where st1: "mbuf_free_buf st (Some b) = Inr st1" "refs_ok st1 (H + queue_refs ?q)"
        using mbuf_free_buf_ok by blast
      have "length ?q < unat (ms_capacity ms1)" using q_extract_length [of q] Some True ex(5) by simp
      from put [OF ex(3,4) st1(2) this] show ?thesis
        using full ex(1,2,5) st1(1) Some y unfolding qa
        by (simp add: mbuf_add_item_def)
    qed
  qed
qed

lemma peek_loop_ok:
  assumes "mq_ok ms" "mq_items ms = map item_of q" "n \<le> length q"
  shows "peek_loop ms (map of_nat [n..<length q]) = q_peek (drop n q)"
  using assms(3)
proof (induction "length q - n" arbitrary: n)
  case 0
  then show ?case by (simp add: q_peek_def)
next
  case (Suc k)
  then have n: "n < length q" by simp
  have "ms_at ms (of_nat n) = item_of (q ! n)"
    using ms_at_items [OF assms(1)] mq_ok_bounds(4) [OF assms(1)] assms(2) n by simp
  moreover have "peek_loop ms (map of_nat [Suc n..<length q]) = q_peek (drop (Suc n) q)"
    using Suc n by simp
  moreover have "drop n q = q ! n # drop (Suc n) q" using n by (rule Cons_nth_drop_Suc [symmetric])
  ultimately show ?case using n
    by (cases "q ! n") (auto simp: upt_conv_Cons q_peek_def)
qed

lemma mbuf_peek_ok:
  assumes "mbuf_rel st ms q H"
  shows "mbuf_peek ms = q_peek q"
proof -
  have ok: "mq_ok ms" and items: "mq_items ms = map item_of q" using assms by (simp_all add: mbuf_rel_def)
  have len: "length q = unat (ms_len ms)" using mq_ok_bounds(4) [OF ok] items by simp
  show ?thesis
  proof (cases "ms_len ms = 0")
    case True
    with len show ?thesis by (simp add: mbuf_peek_def mbuf_defined_def q_peek_def)
  next
    case False
    with peek_loop_ok [OF ok items, of 0] show ?thesis
      by (simp add: mbuf_peek_def mbuf_defined_def mbuf_peek_dowork_def mbuf_indices_eq [OF ok] len)
  qed
qed

lemma dereference_loop_ok:
  assumes "mbuf_rel st ms (map (q_leave mi) q1 @ q2) H" "length q1 + length q2 = m"
  shows "\<exists>st' ms'. dereference_loop st ms mi (map of_nat [length q1..<m]) = Inr (st', ms')
           \<and> mbuf_rel st' ms' (map (q_leave mi) (q1 @ q2)) H \<and> ms_capacity ms' = ms_capacity ms"
  using assms
proof (induction q2 arbitrary: q1 st ms)
  case Nil
  then show ?case by simp
next
  case (Cons x q2)
  let ?n = "length q1" and ?q = "map (q_leave mi) q1 @ x # q2"
  have ok: "mq_ok ms" and items: "mq_items ms = map item_of ?q" and refs: "refs_ok st (H + queue_refs ?q)"
    using Cons.prems by (simp_all add: mbuf_rel_def)
  have len: "length ?q = unat (ms_len ms)" using mq_ok_bounds(4) [OF ok] items by simp
  have at: "ms_at ms (of_nat ?n) = item_of x"
    using ms_at_items [OF ok, of ?n] len items by (simp add: nth_append)
  have upt: "map of_nat [?n..<m] = (of_nat ?n :: u32) # map of_nat [length (q1 @ [x])..<m]"
    using Cons.prems(2) by (simp add: upt_conv_Cons)
  have IH: "\<exists>st' ms'. dereference_loop st1 ms1 mi (map of_nat [length (q1 @ [x])..<m]) = Inr (st', ms')
      \<and> mbuf_rel st' ms' (map (q_leave mi) (q1 @ x # q2)) H \<and> ms_capacity ms' = ms_capacity ms1"
    if "mbuf_rel st1 ms1 (map (q_leave mi) (q1 @ [x]) @ q2) H" for st1 ms1
    using Cons.IH [OF that] Cons.prems(2) by simp
  show ?case
  proof (cases "\<exists>a. x = Some (a, mi)")
    case True
    then obtain a where x: "x = Some (a, mi)" by blast
    have "refs_ok st (add_mset a (H + (queue_refs (map (q_leave mi) q1) + queue_refs q2)))"
      using refs x by (simp add: ac_simps)
    then obtain st1 where st1: "mbuf_free_buf st (Some a) = Inr st1"
        "refs_ok st1 (H + (queue_refs (map (q_leave mi) q1) + queue_refs q2))"
      using mbuf_free_buf_ok by blast
    let ?j = "unat (MBUF_INDEX (ms_head ms) (of_nat ?n) (ms_capacity ms))"
    let ?ms = "ms\<lparr>ms_array := (ms_array ms)[?j := item_of None]\<rparr>"
    have n: "unat (of_nat ?n :: u32) = ?n"
      using len unat_bound [of "ms_len ms"] by (simp add: unat_of_nat take_bit_nat_eq_self)
    have lc: "unat (ms_len ms) \<le> unat (ms_capacity ms)" using mq_ok_bounds(1) [OF ok] .
    then have "unat (of_nat ?n :: u32) < unat (ms_capacity ms)" using len n by simp
    from mq_update [OF ok this lc, of "item_of None"] n have "mq_items ?ms = (mq_items ms)[?n := item_of None]" "mq_ok ?ms" by auto
    then have "mbuf_rel st1 ?ms (map (q_leave mi) (q1 @ [x]) @ q2) H"
      using st1(2) items x by (simp add: mbuf_rel_def list_update_append)
    from IH [OF this] st1(1) at x show ?thesis unfolding upt by simp
  next
    case False
    then have x: "q_leave mi x = x" "mi_instance (item_of x) \<noteq> Some mi" by (cases x; auto)+
    then have "mbuf_rel st ms (map (q_leave mi) (q1 @ [x]) @ q2) H" using Cons.prems(1) by simp
    from IH [OF this] at x(2) show ?thesis unfolding upt by (auto simp del: item_of_instance)
  qed
qed

section \<open>Any sequence of operations\<close>

datatype mbuf_op =
    Mbuf_Alloc nat buffer      \<comment> \<open>\<open>mbuf_alloc_buf\<close>, at the address that \<open>malloc\<close> gives\<close>
  | Mbuf_Free nat              \<comment> \<open>\<open>mbuf_free_buf\<close>\<close>
  | Mbuf_Add nat nat           \<comment> \<open>\<open>mbuf_add_item\<close> of a buffer for a client\<close>
  | Mbuf_Extract               \<comment> \<open>\<open>mbuf_extract_item\<close>\<close>
  | Mbuf_Peek                  \<comment> \<open>\<open>mbuf_peek\<close>\<close>
  | Mbuf_Dereference nat       \<comment> \<open>\<open>mbuf_dereference_instance\<close>\<close>

datatype mbuf_out = Item "mbuf_item option" | Client "nat option"

fun mbuf_run :: "(nat \<Rightarrow> byte) \<Rightarrow> mbuf_store \<Rightarrow> mbuf_set \<Rightarrow> mbuf_op list \<Rightarrow> (mbuf_out list \<times> mbuf_store \<times> mbuf_set) result" where
  "mbuf_run junk st ms [] = Inr ([], st, ms)"
| "mbuf_run junk st ms (Mbuf_Alloc a b # ops) = mbuf_run junk (mbuf_alloc_buf junk st a b) ms ops"
| "mbuf_run junk st ms (Mbuf_Free a # ops) =
     bind_result (mbuf_free_buf st (Some a)) (\<lambda>st. mbuf_run junk st ms ops)"
| "mbuf_run junk st ms (Mbuf_Add a j # ops) =
     bind_result (mbuf_add_item st ms \<lparr>mi_buffer = Some a, mi_instance = Some j\<rparr>) (\<lambda>(st, ms). mbuf_run junk st ms ops)"
| "mbuf_run junk st ms (Mbuf_Extract # ops) =
     (case mbuf_extract_item ms \<lparr>mi_buffer = None, mi_instance = None\<rparr> of (ok, item, ms) \<Rightarrow>
        bind_result (mbuf_run junk st ms ops) (\<lambda>(outs, s). Inr (Item (if ok then Some item else None) # outs, s)))"
| "mbuf_run junk st ms (Mbuf_Peek # ops) =
     bind_result (mbuf_run junk st ms ops) (\<lambda>(outs, s). Inr (Client (mbuf_peek ms) # outs, s))"
| "mbuf_run junk st ms (Mbuf_Dereference j # ops) =
     bind_result (mbuf_dereference_instance st ms j) (\<lambda>(st, ms). mbuf_run junk st ms ops)"

fun queue_run :: "nat \<Rightarrow> mqueue \<Rightarrow> nat multiset \<Rightarrow> mbuf_op list \<Rightarrow> (mbuf_out list \<times> mqueue \<times> nat multiset) option" where
  \<comment> \<open>the specification: a queue, and the references that its users hold; \<open>None\<close> when the process aborts\<close>
  "queue_run cap q H [] = Some ([], q, H)"
| "queue_run cap q H (Mbuf_Alloc a b # ops) = queue_run cap q (add_mset a H) ops"
| "queue_run cap q H (Mbuf_Free a # ops) = queue_run cap q (H - {#a#}) ops"
| "queue_run cap q H (Mbuf_Add a j # ops) =
     (case q_add cap q (a, j) of None \<Rightarrow> None | Some q \<Rightarrow> queue_run cap q H ops)"
| "queue_run cap q H (Mbuf_Extract # ops) =
     (case q_extract q of (x, q) \<Rightarrow>
        map_option (\<lambda>(outs, s). (Item (map_option (\<lambda>y. item_of (Some y)) x) # outs, s))
          (queue_run cap q (case x of None \<Rightarrow> H | Some (a, j) \<Rightarrow> add_mset a H) ops))"
| "queue_run cap q H (Mbuf_Peek # ops) =
     map_option (\<lambda>(outs, s). (Client (q_peek q) # outs, s)) (queue_run cap q H ops)"
| "queue_run cap q H (Mbuf_Dereference j # ops) = queue_run cap (map (q_leave j) q) H ops"

fun queue_valid :: "nat \<Rightarrow> mqueue \<Rightarrow> nat multiset \<Rightarrow> mbuf_op list \<Rightarrow> bool" where
  \<comment> \<open>\<open>malloc\<close> gives unused addresses, and a buffer is freed or queued only by a holder of a reference\<close>
  "queue_valid cap q H [] \<longleftrightarrow> True"
| "queue_valid cap q H (Mbuf_Alloc a b # ops) \<longleftrightarrow> a \<notin># H + queue_refs q \<and> queue_valid cap q (add_mset a H) ops"
| "queue_valid cap q H (Mbuf_Free a # ops) \<longleftrightarrow> a \<in># H \<and> queue_valid cap q (H - {#a#}) ops"
| "queue_valid cap q H (Mbuf_Add a j # ops) \<longleftrightarrow>
     a \<in># H \<and> (case q_add cap q (a, j) of None \<Rightarrow> True | Some q \<Rightarrow> queue_valid cap q H ops)"
| "queue_valid cap q H (Mbuf_Extract # ops) \<longleftrightarrow>
     (case q_extract q of (x, q) \<Rightarrow> queue_valid cap q (case x of None \<Rightarrow> H | Some (a, j) \<Rightarrow> add_mset a H) ops)"
| "queue_valid cap q H (Mbuf_Peek # ops) \<longleftrightarrow> queue_valid cap q H ops"
| "queue_valid cap q H (Mbuf_Dereference j # ops) \<longleftrightarrow> queue_valid cap (map (q_leave j) q) H ops"

definition mbuf_agrees ::
    "(mbuf_out list \<times> mbuf_store \<times> mbuf_set) result \<Rightarrow> (mbuf_out list \<times> mqueue \<times> nat multiset) option \<Rightarrow> bool" where
  "mbuf_agrees r spec \<longleftrightarrow>
     (case spec of
        None \<Rightarrow> r = Inl AssertFailed
      | Some (outs, q, H) \<Rightarrow> (\<exists>st ms. r = Inr (outs, st, ms) \<and> mbuf_rel st ms q H))"

lemma mbuf_run_ok:
  assumes "mbuf_rel st ms q H" "unat (ms_capacity ms) = cap" "queue_valid cap q H ops"
  shows "mbuf_agrees (mbuf_run junk st ms ops) (queue_run cap q H ops)"
  using assms
proof (induction ops arbitrary: st ms q H)
  case Nil
  then show ?case by (simp add: mbuf_agrees_def)
next
  case (Cons op ops)
  have ok: "mq_ok ms" and items: "mq_items ms = map item_of q" and refs: "refs_ok st (H + queue_refs q)"
    using Cons.prems(1) by (simp_all add: mbuf_rel_def)
  show ?case
  proof (cases op)
    case (Mbuf_Alloc a b)
    have "mbuf_rel (mbuf_alloc_buf junk st a b) ms q (add_mset a H)"
      using refs_ok_alloc [OF refs] Cons.prems(3) Mbuf_Alloc ok items by (simp add: mbuf_rel_def)
    from Cons.IH [OF this Cons.prems(2)] Cons.prems(3) Mbuf_Alloc show ?thesis by simp
  next
    case (Mbuf_Free a)
    have "H + queue_refs q = add_mset a (H - {#a#} + queue_refs q)"
      using Cons.prems(3) Mbuf_Free by (simp add: multi_member_split)
    then obtain st1 where st1: "mbuf_free_buf st (Some a) = Inr st1" "refs_ok st1 (H - {#a#} + queue_refs q)"
      using mbuf_free_buf_ok refs by metis
    have "mbuf_rel st1 ms q (H - {#a#})" using st1(2) ok items by (simp add: mbuf_rel_def)
    from Cons.IH [OF this Cons.prems(2)] Cons.prems(3) Mbuf_Free st1(1) show ?thesis by simp
  next
    case (Mbuf_Add a j)
    have "a \<in># H" using Cons.prems(3) Mbuf_Add by simp
    note add = mbuf_add_item_ok [OF Cons.prems(1) this, of j, unfolded Cons.prems(2)]
    show ?thesis
    proof (cases "q_add cap q (a, j)")
      case None
      with add Mbuf_Add show ?thesis by (simp add: mbuf_agrees_def)
    next
      case (Some q')
      with add obtain st1 ms1 where "mbuf_add_item st ms \<lparr>mi_buffer = Some a, mi_instance = Some j\<rparr> = Inr (st1, ms1)"
          "mbuf_rel st1 ms1 q' H" "unat (ms_capacity ms1) = cap" using Cons.prems(2) by auto
      with Cons.IH [OF this(2,3)] Cons.prems(3) Mbuf_Add Some show ?thesis by simp
    qed
  next
    case Mbuf_Extract
    let ?x = "fst (q_extract q)" and ?q = "snd (q_extract q)"
    let ?H = "case ?x of None \<Rightarrow> H | Some (a, j) \<Rightarrow> add_mset a H"
    obtain item ms1 where ex: "mbuf_extract_item ms \<lparr>mi_buffer = None, mi_instance = None\<rparr> = (?x \<noteq> None, item, ms1)"
        "?x \<noteq> None \<longrightarrow> item = item_of ?x" "mq_ok ms1" "mq_items ms1 = map item_of ?q" "ms_capacity ms1 = ms_capacity ms"
      using extract_loop_ok [OF ok items] unfolding mbuf_extract_item_def by blast
    have "H + queue_refs q = ?H + queue_refs ?q"
      using q_extract_refs [of q] by (auto split: option.splits)
    then have rel: "mbuf_rel st ms1 ?q ?H" using refs ex(3,4) by (simp add: mbuf_rel_def)
    have "queue_valid cap ?q ?H ops" using Cons.prems(3) Mbuf_Extract by (simp add: case_prod_beta)
    from Cons.IH [OF rel _ this] ex(5) Cons.prems(2)
    have IH: "mbuf_agrees (mbuf_run junk st ms1 ops) (queue_run cap ?q ?H ops)" by simp
    have it: "(if ?x \<noteq> None then Some item else None) = map_option (\<lambda>y. item_of (Some y)) ?x"
      using ex(2) by (cases ?x) auto
    have run: "mbuf_run junk st ms (op # ops) =
        bind_result (mbuf_run junk st ms1 ops) (\<lambda>(outs, s). Inr (Item (map_option (\<lambda>y. item_of (Some y)) ?x) # outs, s))"
      unfolding Mbuf_Extract mbuf_run.simps ex(1) prod.case it ..
    have spec: "queue_run cap q H (op # ops) =
        map_option (\<lambda>(outs, s). (Item (map_option (\<lambda>y. item_of (Some y)) ?x) # outs, s)) (queue_run cap ?q ?H ops)"
      unfolding Mbuf_Extract by (cases "q_extract q") simp
    show ?thesis
      using IH unfolding run spec
      by (cases "queue_run cap ?q ?H ops") (auto simp: mbuf_agrees_def simp del: map_option_is_None)
  next
    case Mbuf_Peek
    from Cons.IH [OF Cons.prems(1,2)] Cons.prems(3) Mbuf_Peek mbuf_peek_ok [OF Cons.prems(1)] show ?thesis
      by (cases "queue_run cap q H ops") (auto simp: mbuf_agrees_def)
  next
    case (Mbuf_Dereference j)
    have len: "length q = unat (ms_len ms)" using mq_ok_bounds(4) [OF ok] items by simp
    obtain st1 ms1 where "mbuf_dereference_instance st ms j = Inr (st1, ms1)" "mbuf_rel st1 ms1 (map (q_leave j) q) H"
        "unat (ms_capacity ms1) = cap"
      using dereference_loop_ok [of st ms j "[]" q H] Cons.prems(1,2) len
      by (auto simp: mbuf_dereference_instance_def mbuf_indices_eq [OF ok])
    with Cons.IH [OF this(2,3)] Cons.prems(3) Mbuf_Dereference show ?thesis by simp
  qed
qed

lemma mbuf_init_ok:
  assumes "unat sz \<le> 2 ^ 30"
  shows "\<exists>ms k. mbuf_init junk sz = Inr ms \<and> mq_ok ms \<and> mq_items ms = []
           \<and> unat (ms_capacity ms) = 2 ^ k \<and> unat sz \<le> 2 ^ k \<and> (\<forall>j. unat sz \<le> 2 ^ j \<longrightarrow> k \<le> j)"
proof -
  let ?u = "ucast sz :: 64 word" and ?k = "LEAST m. unat sz \<le> 2 ^ m"
  have u: "unat ?u = unat sz"
    using unat_bound [of sz] by (simp add: unsigned_ucast_eq take_bit_nat_eq_self)
  have k: "?k \<le> 30" "unat sz \<le> 2 ^ ?k" "\<forall>j. unat sz \<le> 2 ^ j \<longrightarrow> ?k \<le> j"
    by (rule Least_le, rule assms, rule LeastI, rule assms, simp add: Least_le)
  have lt: "(2::nat) ^ ?k < 2 ^ 32" using k(1) power_strict_increasing [of ?k 32 "2 :: nat"] by simp
  then have "(2::nat) ^ ?k < 2 ^ 64" by simp
  then have "unat (of_nat (2 ^ ?k) :: 64 word) = 2 ^ ?k"
    by (simp add: unat_of_nat take_bit_nat_eq_self del: of_nat_power of_nat_numeral)
  then have "unat (2 ^ ?k :: 64 word) = 2 ^ ?k" by simp
  then have c: "unat (ucast (2 ^ ?k :: 64 word) :: u32) = 2 ^ ?k"
    using k(1) lt by (simp add: unsigned_ucast_eq take_bit_nat_eq_self)
  have "unat sz \<le> 2 ^ 63" using assms by simp
  then have "adjust_power_of_2 ?u = Inr (2 ^ ?k)" by (simp add: adjust_power_of_2_spec u)
  then obtain ms where ms: "mbuf_init junk sz = Inr ms" "ms_head ms = 0" "ms_len ms = 0"
      "ms_capacity ms = ucast (2 ^ ?k :: 64 word)" "length (ms_array ms) = unat (ms_capacity ms)"
    by (simp add: mbuf_init_def)
  then have "unat (ms_capacity ms) = 2 ^ ?k" using c by simp
  then have "mq_ok ms" "mq_items ms = []"
    using ms k(1) by (auto simp: mq_ok_def mq_items_def word_less_nat_alt)
  with ms(1) k(2,3) \<open>unat (ms_capacity ms) = 2 ^ ?k\<close> show ?thesis by blast
qed

lemma refs_ok_empty: "refs_ok Map.empty {#}"
  by (simp add: refs_ok_def)

definition ex_mbuf_buf :: buffer where
  "ex_mbuf_buf = \<lparr>b_capacity = 4, b_offset = 0, b_len = 2, b_data = Some [7, 8, 0, 0]\<rparr>"

definition ex_mbuf_ops :: "mbuf_op list" where
  \<comment> \<open>one packet to two clients, one of which leaves\<close>
  "ex_mbuf_ops =
     [Mbuf_Alloc 1 ex_mbuf_buf, Mbuf_Add 1 5, Mbuf_Add 1 6, Mbuf_Free 1, Mbuf_Dereference 5, Mbuf_Peek, Mbuf_Extract, Mbuf_Free 1]"

section \<open>Properties\<close>

text \<open>C31. After \<open>mbuf_init\<close>, any sequence of operations on the set runs like the operations of a
  bounded queue of (packet, client) pairs, whose capacity is the least power of two that holds the
  requested size: extraction and peeking see the oldest packet whose client is still there, a full queue
  drops its oldest packet, and a client that leaves takes its packets with it.  Each buffer is alive
  exactly as long as someone refers to it (\<open>refs_ok\<close>): no step uses or frees a freed buffer and none leaks
  one.  The run aborts in exactly the case in which the queue is full of packets of departed clients.\<close>

theorem mbuf_refines_queue:
  assumes "unat sz \<le> 2 ^ 30" "mbuf_init junk sz = Inr ms"
    and "queue_valid (unat (ms_capacity ms)) [] {#} ops"
  shows "mbuf_agrees (mbuf_run fill Map.empty ms ops) (queue_run (unat (ms_capacity ms)) [] {#} ops)
    \<and> (\<exists>k. unat (ms_capacity ms) = 2 ^ k \<and> unat sz \<le> 2 ^ k \<and> (\<forall>j. unat sz \<le> 2 ^ j \<longrightarrow> k \<le> j))"
proof -
  have "mbuf_rel Map.empty ms [] {#}"
    using mbuf_init_ok [OF assms(1), of junk] assms(2) refs_ok_empty by (auto simp: mbuf_rel_def)
  from mbuf_run_ok [OF this refl assms(3), of fill] show ?thesis
    using mbuf_init_ok [OF assms(1), of junk] assms(2) by auto
qed

theorem mbuf_refines_queue_witness:
  "\<exists>ms st ms'. mbuf_init (\<lambda>_. item_of None) 2 = Inr ms
     \<and> mbuf_run (\<lambda>_. 0) Map.empty ms ex_mbuf_ops = Inr ([Client (Some 6), Item (Some (item_of (Some (1, 6))))], st, ms')
     \<and> mbuf_rel st ms' [] {#}"
proof -
  obtain ms k where ms: "mbuf_init (\<lambda>_. item_of None) 2 = Inr ms" "unat (ms_capacity ms) = 2 ^ k"
      and k: "2 \<le> (2 :: nat) ^ k" "\<forall>j. 2 \<le> (2 :: nat) ^ j \<longrightarrow> k \<le> j"
    using mbuf_init_ok [of 2 "\<lambda>_. item_of None"] by auto
  have "k = 1" using k(1) spec [OF k(2), of 1] by (cases k) auto
  with ms have c: "unat (ms_capacity ms) = 2" by simp
  have "queue_valid 2 [] {#} ex_mbuf_ops"
    by (simp add: ex_mbuf_ops_def q_add_def)
  moreover have "queue_run 2 [] {#} ex_mbuf_ops = Some ([Client (Some 6), Item (Some (item_of (Some (1, 6))))], [], {#})"
    by (simp add: ex_mbuf_ops_def q_add_def q_peek_def)
  ultimately show ?thesis
    using mbuf_refines_queue [of 2 "\<lambda>_. item_of None" ms ex_mbuf_ops "\<lambda>_. 0"] ms(1) c by (simp add: mbuf_agrees_def)
qed

text \<open>When the queue is full and every client with a packet in it has left, adding a packet does not
  make room but stops the server: \<open>mbuf_extract_item\<close> finds nothing and the assertion around it fails.\<close>

theorem mbuf_add_item_asserts:
  assumes "mq_ok ms" "unat (ms_len ms) = unat (ms_capacity ms)"
    and "\<forall>x \<in> set (mq_items ms). mi_instance x = None \<and> mi_buffer x = None"
  shows "mbuf_add_item st ms item = Inl AssertFailed"
proof -
  have "mq_items ms = map item_of (replicate (length (mq_items ms)) None)"
    using assms(3) by (intro nth_equalityI) (simp_all add: mbuf_item.equality)
  moreover have "q_extract (replicate n None) = (None, [])" for n by (induction n) simp_all
  ultimately have "fst (mbuf_extract_item ms it) = False" for it
    using extract_loop_ok [OF assms(1), of "replicate (length (mq_items ms)) None" it]
    by (auto simp: mbuf_extract_item_def)
  moreover have "ms_len ms = ms_capacity ms" using assms(2) by (simp add: word_unat_eq_iff)
  ultimately show ?thesis by (simp add: mbuf_add_item_def case_prod_beta)
qed

theorem mbuf_add_item_asserts_witness:
  "mbuf_add_item Map.empty
     \<lparr>ms_head = 1, ms_len = 2, ms_capacity = 2, ms_max_queued = 2, ms_array = [item_of None, item_of None]\<rparr>
     (item_of (Some (1, 5))) = Inl AssertFailed"
  by (rule mbuf_add_item_asserts) (auto simp: mq_ok_def mq_items_def upt_rec intro: exI [of _ "1 :: nat"])

end
