(* ===== verification/Buf_Strings.thy ===== *)
theory Buf_Strings
  imports Buffer
begin

text \<open>
  The string functions of buffer.c and its lists of buffers.

  A C string is the list of its bytes before the terminating null; \<open>cstr_of\<close> reads one from the
  bytes of an array.  Functions that modify a string in place return the new string.  The
  assertions that a string argument is not \<open>NULL\<close> have no counterpart: a string is not optional here.
\<close>

section \<open>Character classes\<close>

type_synonym cstr = "byte list"

definition cstr_of :: "byte list \<Rightarrow> cstr" where
  "cstr_of bs = takeWhile (\<lambda>c. c \<noteq> 0) bs"

definition CC_ANY :: u32 where "CC_ANY = push_bit 0 1"
definition CC_NULL :: u32 where "CC_NULL = push_bit 1 1"
definition CC_ALNUM :: u32 where "CC_ALNUM = push_bit 2 1"
definition CC_ALPHA :: u32 where "CC_ALPHA = push_bit 3 1"
definition CC_ASCII :: u32 where "CC_ASCII = push_bit 4 1"
definition CC_CNTRL :: u32 where "CC_CNTRL = push_bit 5 1"
definition CC_DIGIT :: u32 where "CC_DIGIT = push_bit 6 1"
definition CC_PRINT :: u32 where "CC_PRINT = push_bit 7 1"
definition CC_PUNCT :: u32 where "CC_PUNCT = push_bit 8 1"
definition CC_SPACE :: u32 where "CC_SPACE = push_bit 9 1"
definition CC_XDIGIT :: u32 where "CC_XDIGIT = push_bit 10 1"
definition CC_BLANK :: u32 where "CC_BLANK = push_bit 11 1"
definition CC_NEWLINE :: u32 where "CC_NEWLINE = push_bit 12 1"
definition CC_CR :: u32 where "CC_CR = push_bit 13 1"
definition CC_BACKSLASH :: u32 where "CC_BACKSLASH = push_bit 14 1"
definition CC_UNDERBAR :: u32 where "CC_UNDERBAR = push_bit 15 1"
definition CC_DASH :: u32 where "CC_DASH = push_bit 16 1"
definition CC_DOT :: u32 where "CC_DOT = push_bit 17 1"
definition CC_COMMA :: u32 where "CC_COMMA = push_bit 18 1"
definition CC_COLON :: u32 where "CC_COLON = push_bit 19 1"
definition CC_SLASH :: u32 where "CC_SLASH = push_bit 20 1"
definition CC_SINGLE_QUOTE :: u32 where "CC_SINGLE_QUOTE = push_bit 21 1"
definition CC_DOUBLE_QUOTE :: u32 where "CC_DOUBLE_QUOTE = push_bit 22 1"
definition CC_REVERSE_QUOTE :: u32 where "CC_REVERSE_QUOTE = push_bit 23 1"
definition CC_AT :: u32 where "CC_AT = push_bit 24 1"
definition CC_EQUAL :: u32 where "CC_EQUAL = push_bit 25 1"
definition CC_NAME :: u32 where "CC_NAME = CC_ALNUM OR CC_UNDERBAR"
definition CC_CRLF :: u32 where "CC_CRLF = CC_CR OR CC_NEWLINE"

text \<open>The classes of ctype.h in the C locale.\<close>

definition isdigit :: "byte \<Rightarrow> bool" where "isdigit c \<longleftrightarrow> 48 \<le> c \<and> c \<le> 57"
definition isupper :: "byte \<Rightarrow> bool" where "isupper c \<longleftrightarrow> 65 \<le> c \<and> c \<le> 90"
definition islower :: "byte \<Rightarrow> bool" where "islower c \<longleftrightarrow> 97 \<le> c \<and> c \<le> 122"
definition isalpha :: "byte \<Rightarrow> bool" where "isalpha c \<longleftrightarrow> isupper c \<or> islower c"
definition isalnum :: "byte \<Rightarrow> bool" where "isalnum c \<longleftrightarrow> isalpha c \<or> isdigit c"
definition isascii :: "byte \<Rightarrow> bool" where "isascii c \<longleftrightarrow> c < 128"
definition iscntrl :: "byte \<Rightarrow> bool" where "iscntrl c \<longleftrightarrow> c < 32 \<or> c = 127"
definition isprint :: "byte \<Rightarrow> bool" where "isprint c \<longleftrightarrow> 32 \<le> c \<and> c < 127"
definition ispunct :: "byte \<Rightarrow> bool" where "ispunct c \<longleftrightarrow> isprint c \<and> c \<noteq> 32 \<and> \<not> isalnum c"
definition isspace :: "byte \<Rightarrow> bool" where "isspace c \<longleftrightarrow> c = 32 \<or> 9 \<le> c \<and> c \<le> 13"
definition isxdigit :: "byte \<Rightarrow> bool" where
  "isxdigit c \<longleftrightarrow> isdigit c \<or> 65 \<le> c \<and> c \<le> 70 \<or> 97 \<le> c \<and> c \<le> 102"

definition char_class :: "byte \<Rightarrow> u32 \<Rightarrow> bool" where
  "char_class c flags \<longleftrightarrow>
     (let has = (\<lambda>f. flags AND f \<noteq> 0)
      in if flags = 0 then False
         else if has CC_ANY then True
         else has CC_NULL \<and> c = 0
            \<or> has CC_ALNUM \<and> isalnum c \<or> has CC_ALPHA \<and> isalpha c \<or> has CC_ASCII \<and> isascii c
            \<or> has CC_CNTRL \<and> iscntrl c \<or> has CC_DIGIT \<and> isdigit c \<or> has CC_PRINT \<and> isprint c
            \<or> has CC_PUNCT \<and> ispunct c \<or> has CC_SPACE \<and> isspace c \<or> has CC_XDIGIT \<and> isxdigit c
            \<or> has CC_BLANK \<and> (c = 32 \<or> c = 9) \<or> has CC_NEWLINE \<and> c = 10 \<or> has CC_CR \<and> c = 13
            \<or> has CC_BACKSLASH \<and> c = 92 \<or> has CC_UNDERBAR \<and> c = 95 \<or> has CC_DASH \<and> c = 45
            \<or> has CC_DOT \<and> c = 46 \<or> has CC_COMMA \<and> c = 44 \<or> has CC_COLON \<and> c = 58
            \<or> has CC_SLASH \<and> c = 47 \<or> has CC_SINGLE_QUOTE \<and> c = 39 \<or> has CC_DOUBLE_QUOTE \<and> c = 34
            \<or> has CC_REVERSE_QUOTE \<and> c = 96 \<or> has CC_AT \<and> c = 64 \<or> has CC_EQUAL \<and> c = 61)"

definition char_inc_exc :: "byte \<Rightarrow> u32 \<Rightarrow> u32 \<Rightarrow> bool" where
  "char_inc_exc c inclusive exclusive \<longleftrightarrow> char_class c inclusive \<and> \<not> char_class c exclusive"

fun string_class :: "cstr \<Rightarrow> u32 \<Rightarrow> u32 \<Rightarrow> bool" where
  "string_class [] inclusive exclusive \<longleftrightarrow> True"
| "string_class (c # str) inclusive exclusive \<longleftrightarrow>
     (if \<not> char_inc_exc c inclusive exclusive then False else string_class str inclusive exclusive)"

fun string_mod_loop :: "cstr \<Rightarrow> u32 \<Rightarrow> u32 \<Rightarrow> byte \<Rightarrow> bool \<Rightarrow> cstr \<Rightarrow> bool \<times> cstr" where
  \<comment> \<open>\<open>out\<close>: the characters already written back\<close>
  "string_mod_loop [] inclusive exclusive replace ret out = (ret, out)"
| "string_mod_loop (c # inp) inclusive exclusive replace ret out =
     (let ok = char_inc_exc c inclusive exclusive;
          c = (if \<not> ok then replace else c);
          ret = (if \<not> ok then False else ret)
      in string_mod_loop inp inclusive exclusive replace ret (if c \<noteq> 0 then out @ [c] else out))"

definition string_mod :: "cstr \<Rightarrow> u32 \<Rightarrow> u32 \<Rightarrow> byte \<Rightarrow> bool \<times> cstr" where
  "string_mod str inclusive exclusive replace = string_mod_loop str inclusive exclusive replace True []"

definition string_mod_const :: "cstr option \<Rightarrow> u32 \<Rightarrow> u32 \<Rightarrow> byte \<Rightarrow> cstr option" where
  "string_mod_const str inclusive exclusive replace =
     map_option (\<lambda>s. snd (string_mod s inclusive exclusive replace)) str"

fun string_replace_leading_loop :: "cstr \<Rightarrow> byte \<Rightarrow> byte \<Rightarrow> cstr" where
  "string_replace_leading_loop [] mtch replace = []"
| "string_replace_leading_loop (c # str) mtch replace =
     (if c = mtch then replace # string_replace_leading_loop str mtch replace else c # str)"

definition string_replace_leading :: "cstr \<Rightarrow> byte \<Rightarrow> byte \<Rightarrow> cstr result" where
  "string_replace_leading str mtch replace =
     assert_that (mtch \<noteq> 0) (Inr (string_replace_leading_loop str mtch replace))"

fun skip_leading_whitespace :: "cstr \<Rightarrow> cstr" where
  "skip_leading_whitespace [] = []"
| "skip_leading_whitespace (c # str) = (if \<not> (c = 32 \<or> c = 9) then c # str else skip_leading_whitespace str)"

function rm_trailing_chars :: "cstr \<Rightarrow> cstr \<Rightarrow> cstr" where
  \<comment> \<open>\<open>strchr\<close> also finds the null, which is never the last character of a string\<close>
  "rm_trailing_chars str what_to_delete =
     (let len = length str
      in if len > 0 \<and> str ! (len - 1) \<in> set what_to_delete
         then rm_trailing_chars (take (len - 1) str) what_to_delete
         else str)"
  by pat_completeness auto
termination
  by (relation "measure (\<lambda>(str, w). length str)") auto
declare rm_trailing_chars.simps [simp del]

definition chomp :: "cstr \<Rightarrow> cstr" where
  "chomp str = rm_trailing_chars str [13, 10]"

definition string_null_terminate :: "byte list \<Rightarrow> int \<Rightarrow> int \<Rightarrow> byte list result" where
  \<comment> \<open>the argument is the array of \<open>capacity\<close> bytes\<close>
  "string_null_terminate str len capacity =
     assert_that (len \<ge> 0 \<and> len \<le> capacity \<and> capacity > 0)
       (Inr (if len < capacity then str[nat len := 0]
             else if len = capacity then str[nat (len - 1) := 0] else str))"

section \<open>Strings in buffers\<close>

definition buf_byte :: "buffer \<Rightarrow> int \<Rightarrow> byte" where
  \<comment> \<open>\<open>buf->data[i]\<close>\<close>
  "buf_byte b i = buf_block b ! nat i"

definition buf_rmtail :: "buffer \<Rightarrow> byte \<Rightarrow> buffer" where
  "buf_rmtail b rm =
     (case buf_blast b of
        None \<Rightarrow> b
      | Some cp \<Rightarrow> if buf_byte b cp = rm then (let b = buf_put b cp [0] in b\<lparr>b_len := b_len b - 1\<rparr>) else b)"

definition buf_null_terminate :: "buffer \<Rightarrow> buffer" where
  "buf_null_terminate b =
     (if (case buf_blast b of None \<Rightarrow> False | Some lst \<Rightarrow> buf_byte b lst = 0) then b
      else (let b = (if \<not> buf_safe b 1 then snd (buf_inc_len b (- 1)) else b)
            in snd (buf_write_u8 b 0)))"

function buf_chomp_loop :: "buffer \<Rightarrow> buffer" where
  "buf_chomp_loop b =
     (case buf_blast b of
        None \<Rightarrow> b
      | Some lst \<Rightarrow>
          if char_class (buf_byte b lst) (CC_CRLF OR CC_NULL)
          then (if fst (buf_inc_len b (- 1)) then buf_chomp_loop (snd (buf_inc_len b (- 1)))
                else snd (buf_inc_len b (- 1)))
          else b)"
  by pat_completeness auto
termination
  by (relation "measure (\<lambda>b. nat (b_len b))")
     (auto simp: buf_blast_def buf_inc_len_def buf_len_def split: if_splits)
declare buf_chomp_loop.simps [simp del]

definition buf_chomp :: "buffer \<Rightarrow> buffer" where
  "buf_chomp b = buf_null_terminate (buf_chomp_loop b)"

definition buf_string_match_head_str :: "buffer \<Rightarrow> cstr \<Rightarrow> bool" where
  "buf_string_match_head_str src mtch =
     (if int (length mtch) > b_len src then False
      else mem_read (buf_block src) (nat (b_offset src)) (length mtch) = mtch)"

definition buf_string_compare_advance :: "buffer \<Rightarrow> cstr \<Rightarrow> bool \<times> buffer" where
  "buf_string_compare_advance src mtch =
     (if buf_string_match_head_str src mtch then (True, snd (buf_advance src (int (length mtch)))) else (False, src))"

function buf_substring_loop :: "buffer \<Rightarrow> int \<Rightarrow> int \<Rightarrow> int" where
  "buf_substring_loop tmp delim i =
     (case buf_read_u8 tmp of
        (c, tmp) \<Rightarrow> if c \<ge> 0 then (if c = delim then i + 1 else buf_substring_loop tmp delim (i + 1)) else - 1)"
  by pat_completeness auto
termination
  by (relation "measure (\<lambda>(b, d, i). nat (b_len b))")
     (auto simp: buf_read_u8_def buf_advance_def buf_len_def split: if_splits)
declare buf_substring_loop.simps [simp del]

definition buf_substring_len :: "buffer \<Rightarrow> int \<Rightarrow> int" where
  "buf_substring_len b delim = buf_substring_loop b delim 0"

function buf_parse_loop :: "buffer \<Rightarrow> int \<Rightarrow> byte list \<Rightarrow> int \<Rightarrow> int \<Rightarrow> bool \<times> byte list \<times> buffer" where
  \<comment> \<open>the do loop; the first result is \<open>eol\<close>\<close>
  "buf_parse_loop b delim line sz n =
     (case buf_read_u8 b of
        (c, b) \<Rightarrow>
          let eol = (c < 0); c = (if c \<le> 0 \<or> c = delim then 0 else c)
          in if n \<ge> sz then (eol, line, b)
             else (let line = line[nat n := word_of_int c]
                   in if c \<noteq> 0 then buf_parse_loop b delim line sz (n + 1) else (eol, line, b)))"
  by pat_completeness auto
termination
  by (relation "measure (\<lambda>(b, d, l, sz, n). nat (sz - n))") (auto split: if_splits)
declare buf_parse_loop.simps [simp del]

definition buf_parse :: "buffer \<Rightarrow> int \<Rightarrow> byte list \<Rightarrow> int \<Rightarrow> (bool \<times> byte list \<times> buffer) result" where
  \<comment> \<open>\<open>line\<close> is the array of \<open>sz\<close> bytes that is filled\<close>
  "buf_parse b delim line sz =
     assert_that (sz > 0)
       (case buf_parse_loop b delim line sz 0 of
          (eol, line, b) \<Rightarrow>
            let line = line[nat (sz - 1) := 0]
            in Inr (\<not> (eol \<and> length (cstr_of line) = 0), line, b))"

definition convert_to_one_line :: "buffer \<Rightarrow> buffer" where
  "convert_to_one_line b =
     (case buf_bptr b of None \<Rightarrow> b
      | Some p \<Rightarrow> buf_put b p (map (\<lambda>c. if c = 10 then 124 else c) (buf_contents b)))"

section \<open>Lists of buffers\<close>

text \<open>\<open>bl_entries\<close> are the buffers of the entries from \<open>head\<close> to \<open>tail\<close>.\<close>

record buffer_list =
  bl_entries :: "buffer list"
  bl_size :: int
  bl_max_size :: int

definition buffer_list_new :: "int \<Rightarrow> buffer_list" where
  "buffer_list_new max_size = \<lparr>bl_entries = [], bl_size = 0, bl_max_size = max_size\<rparr>"

definition buffer_list_defined :: "buffer_list \<Rightarrow> bool" where
  "buffer_list_defined ol \<longleftrightarrow> bl_entries ol \<noteq> []"

definition buffer_list_reset :: "buffer_list \<Rightarrow> buffer_list" where
  "buffer_list_reset ol = ol\<lparr>bl_entries := [], bl_size := 0\<rparr>"

definition buffer_list_push_data :: "(nat \<Rightarrow> byte) \<Rightarrow> buffer_list \<Rightarrow> byte list \<Rightarrow> (bool \<times> buffer_list) result" where
  \<comment> \<open>the result tells whether an entry was added; it is then the last one\<close>
  "buffer_list_push_data junk ol data =
     (if bl_max_size ol = 0 \<or> bl_size ol < bl_max_size ol
      then bind_result (alloc_buf junk (int (length data))) (\<lambda>b.
             let b = (buf_put b 0 data)\<lparr>b_len := int (length data)\<rparr>
             in Inr (True, ol\<lparr>bl_entries := bl_entries ol @ [b], bl_size := bl_size ol + 1\<rparr>))
      else Inr (False, ol))"

definition buffer_list_push :: "(nat \<Rightarrow> byte) \<Rightarrow> buffer_list \<Rightarrow> cstr \<Rightarrow> buffer_list result" where
  "buffer_list_push junk ol str =
     bind_result (buffer_list_push_data junk ol (str @ [0])) (\<lambda>(e, ol).
       Inr (if e then ol\<lparr>bl_entries := butlast (bl_entries ol) @ [(last (bl_entries ol))\<lparr>b_len := int (length str)\<rparr>]\<rparr>
            else ol))"

definition buffer_list_peek :: "buffer_list \<Rightarrow> buffer option" where
  "buffer_list_peek ol = (case bl_entries ol of [] \<Rightarrow> None | b # _ \<Rightarrow> Some b)"

fun aggregate_count :: "buffer list \<Rightarrow> int \<Rightarrow> int \<Rightarrow> nat \<Rightarrow> int \<times> nat" where
  \<comment> \<open>\<open>for (count = 0; more && sz <= max; ++count)\<close>; the result is (sz, count)\<close>
  "aggregate_count [] mx sz count = (sz, count)"
| "aggregate_count (e # es) mx sz count =
     (if sz \<le> mx then aggregate_count es mx (sz + buf_len e) (count + 1) else (sz, count))"

definition buffer_list_aggregate :: "(nat \<Rightarrow> byte) \<Rightarrow> buffer_list \<Rightarrow> int \<Rightarrow> buffer_list" where
  "buffer_list_aggregate junk bl mx =
     (case aggregate_count (bl_entries bl) mx 0 0 of (sz, count) \<Rightarrow>
        if count \<ge> 2
        then (let f = \<lparr>b_capacity = sz, b_offset = 0, b_len = 0, b_data = Some (malloc_block junk (nat sz))\<rparr>;
                  f = fold (\<lambda>e f. snd (buf_copy f e)) (take count (bl_entries bl)) f
              in bl\<lparr>bl_entries := f # drop count (bl_entries bl)\<rparr>)
        else bl)"

definition buffer_list_pop :: "buffer_list \<Rightarrow> buffer_list" where
  "buffer_list_pop ol =
     (case bl_entries ol of [] \<Rightarrow> ol | _ # bs \<Rightarrow> ol\<lparr>bl_entries := bs, bl_size := bl_size ol - 1\<rparr>)"

definition buffer_list_advance :: "buffer_list \<Rightarrow> int \<Rightarrow> buffer_list result" where
  "buffer_list_advance ol n =
     (case bl_entries ol of
        [] \<Rightarrow> Inr ol
      | b # bs \<Rightarrow>
          (case buf_advance b n of
             (False, b) \<Rightarrow> Inl AssertFailed
           | (True, b) \<Rightarrow>
               (let ol = ol\<lparr>bl_entries := b # bs\<rparr>
                in Inr (if buf_len b = 0 then buffer_list_pop ol else ol))))"

section \<open>Character strings\<close>

lemma string_mod_loop_eq:
  "string_mod_loop str i e r ret out =
     (ret \<and> string_class str i e, out @ filter (\<lambda>c. c \<noteq> 0) (map (\<lambda>c. if char_inc_exc c i e then c else r) str))"
  by (induction str arbitrary: ret out) auto

lemma string_class_iff: "string_class str i e \<longleftrightarrow> (\<forall>c \<in> set str. char_inc_exc c i e)"
  by (induction str) auto

lemma string_mod_eq:
  "string_mod str i e r =
     (string_class str i e, filter (\<lambda>c. c \<noteq> 0) (map (\<lambda>c. if char_inc_exc c i e then c else r) str))"
  by (simp add: string_mod_def string_mod_loop_eq)

lemma rm_trailing_chars_eq: "rm_trailing_chars str w = rev (dropWhile (\<lambda>c. c \<in> set w) (rev str))"
proof (induction str w rule: rm_trailing_chars.induct)
  case (1 str w)
  show ?case
  proof (cases "str = []")
    case True
    then show ?thesis by (subst rm_trailing_chars.simps) simp
  next
    case False
    then have str: "str = take (length str - 1) str @ [str ! (length str - 1)]"
      by (metis append_butlast_last_id butlast_conv_take last_conv_nth)
    then have r: "rev str = str ! (length str - 1) # rev (take (length str - 1) str)"
      by (metis rev_eq_Cons_iff rev_rev_ident)
    show ?thesis
    proof (cases "str ! (length str - 1) \<in> set w")
      case True
      with False 1 have "rm_trailing_chars str w = rev (dropWhile (\<lambda>c. c \<in> set w) (rev (take (length str - 1) str)))"
        by (subst rm_trailing_chars.simps) simp
      then show ?thesis using True unfolding r by simp
    next
      case no: False
      then have "rm_trailing_chars str w = str" by (subst rm_trailing_chars.simps) simp
      moreover have "dropWhile (\<lambda>c. c \<in> set w) (rev str) = rev str" unfolding r using no by simp
      ultimately show ?thesis by simp
    qed
  qed
qed

section \<open>Reading strings from buffers\<close>

lemma buf_contents_nonempty: "buf_ok b \<Longrightarrow> buf_contents b = c # cs \<Longrightarrow> 0 < b_len b"
  using length_buf_contents [of b] by (cases "b_len b = 0") (auto simp: buf_ok_def)

lemma buf_contents_hd:
  assumes "buf_ok b" "buf_contents b = c # cs"
  shows "buf_block b ! nat (b_offset b) = c"
proof -
  have "0 < nat (b_len b)" using buf_contents_nonempty [OF assms] by simp
  moreover have "nat (b_offset b) + nat (b_len b) \<le> length (buf_block b)"
    using assms(1) by (auto simp: buf_ok_def)
  ultimately have "buf_contents b ! 0 = buf_block b ! nat (b_offset b)"
    using assms(1) by (simp add: buf_contents_def nth_mem_read)
  with assms(2) show ?thesis by simp
qed

lemma buf_read_u8_Nil: "buf_ok b \<Longrightarrow> buf_contents b = [] \<Longrightarrow> buf_read_u8 b = (- 1, b)"
  using length_buf_contents [of b] by (simp add: buf_read_u8_def)

lemma buf_read_u8_Cons:
  assumes "buf_ok b" "buf_contents b = c # cs"
  shows "\<exists>b'. buf_read_u8 b = (uint c, b') \<and> buf_ok b' \<and> buf_contents b' = cs
           \<and> buf_block b' = buf_block b \<and> b_capacity b' = b_capacity b"
proof -
  have len: "1 \<le> b_len b" using buf_contents_nonempty [OF assms] by simp
  obtain b' where "buf_advance b 1 = (True, b')" "buf_ok b'" "buf_contents b' = drop 1 (buf_contents b)"
      "buf_block b' = buf_block b" "b_capacity b' = b_capacity b"
    using buf_advance_ok [OF assms(1), of 1] len by auto
  then show ?thesis using len assms buf_contents_hd [OF assms] by (simp add: buf_read_u8_def)
qed

lemma buf_substring_loop_eq:
  assumes "buf_ok b"
  shows "buf_substring_loop b (uint d) i =
    (if d \<in> set (buf_contents b) then i + int (length (takeWhile (\<lambda>c. c \<noteq> d) (buf_contents b))) + 1 else - 1)"
  using assms
proof (induction "buf_contents b" arbitrary: b i)
  case Nil
  then show ?case by (subst buf_substring_loop.simps) (simp add: buf_read_u8_Nil flip: Nil.hyps)
next
  case (Cons c cs)
  obtain b' where b': "buf_read_u8 b = (uint c, b')" "buf_ok b'" "buf_contents b' = cs"
    using buf_read_u8_Cons [OF Cons.prems Cons.hyps(2) [symmetric]] by blast
  have "uint c = uint d \<longleftrightarrow> c = d" by (simp add: word_uint_eq_iff)
  with b' Cons.hyps(1) [OF b'(3) [symmetric] b'(2)] show ?case
    by (subst buf_substring_loop.simps) (auto simp flip: Cons.hyps(2))
qed

lemma buf_substring_len_eq:
  "buf_ok b \<Longrightarrow> buf_substring_len b (uint d) =
    (if d \<in> set (buf_contents b) then int (length (takeWhile (\<lambda>c. c \<noteq> d) (buf_contents b))) + 1 else - 1)"
  by (simp add: buf_substring_len_def buf_substring_loop_eq)

lemma buf_string_match_head_str_eq:
  assumes "buf_ok b"
  shows "buf_string_match_head_str b m \<longleftrightarrow> take (length m) (buf_contents b) = m"
proof (cases "int (length m) \<le> b_len b")
  case True
  then have "nat (b_len b) = length m + (nat (b_len b) - length m)" by linarith
  then have "mem_read (buf_block b) (nat (b_offset b)) (length m) = take (length m) (buf_contents b)"
    using assms mem_read_take by (metis buf_contents_def buf_ok_len)
  with True show ?thesis by (simp add: buf_string_match_head_str_def)
next
  case False
  then have "length (take (length m) (buf_contents b)) < length m" using length_buf_contents [OF assms] by simp
  then have "take (length m) (buf_contents b) \<noteq> m" by auto
  with False show ?thesis by (simp add: buf_string_match_head_str_def)
qed

section \<open>Cutting fields\<close>

definition field_of :: "byte \<Rightarrow> byte list \<Rightarrow> byte list" where
  \<comment> \<open>the bytes before the first delimiter or null\<close>
  "field_of d cs = takeWhile (\<lambda>c. c \<noteq> 0 \<and> c \<noteq> d) cs"

lemma field_of_props: "x \<in> set (field_of d cs) \<Longrightarrow> x \<noteq> 0 \<and> x \<noteq> d"
  unfolding field_of_def by (drule set_takeWhileD) simp

lemma take_takeWhile_prefix: "n \<le> length (takeWhile P xs) \<Longrightarrow> take n (takeWhile P xs) = take n xs"
proof (induction xs arbitrary: n)
  case (Cons x xs)
  then show ?case by (cases n) (auto split: if_splits)
qed simp

lemma cstr_of_append: "0 \<notin> set f \<Longrightarrow> cstr_of (f @ 0 # r) = f"
  by (auto simp: cstr_of_def takeWhile_tail takeWhile_eq_all_conv)

lemma cstr_of_nth_0:
  assumes "take k line = f" "k < length line" "line ! k = 0" "0 \<notin> set f"
  shows "cstr_of line = f"
proof -
  have "line = f @ 0 # drop (Suc k) line" using assms id_take_nth_drop by metis
  then show ?thesis using cstr_of_append [OF assms(4)] by metis
qed

lemma buf_parse_loop_eq:
  assumes "buf_ok b" "length line = sz" "m \<le> sz"
  shows "\<exists>line' b'.
    buf_parse_loop b (uint d) line (int sz) (int m) =
      (if m + length (field_of d (buf_contents b)) < sz
       then drop (length (field_of d (buf_contents b))) (buf_contents b) = []
       else drop (sz - m) (buf_contents b) = [], line', b')
    \<and> length line' = sz \<and> buf_ok b' \<and> b_capacity b' = b_capacity b
    \<and> buf_contents b' = drop (Suc (min (sz - m) (length (field_of d (buf_contents b))))) (buf_contents b)
    \<and> take (min sz (m + length (field_of d (buf_contents b)))) line' =
        take m line @ take (sz - m) (field_of d (buf_contents b))
    \<and> (m + length (field_of d (buf_contents b)) < sz \<longrightarrow> line' ! (m + length (field_of d (buf_contents b))) = 0)"
  using assms
proof (induction "buf_contents b" arbitrary: b line m)
  case Nil
  note nil = Nil.hyps [symmetric]
  show ?case
    using Nil.prems
    by (subst buf_parse_loop.simps) (auto simp: buf_read_u8_Nil [OF Nil.prems(1) nil] nil field_of_def)
next
  case (Cons c cs)
  note cons = Cons.hyps(2) [symmetric]
  obtain b' where b': "buf_read_u8 b = (uint c, b')" "buf_ok b'" "buf_contents b' = cs" "b_capacity b' = b_capacity b"
    using buf_read_u8_Cons [OF Cons.prems(1) cons] by blast
  have c0: "uint c \<le> 0 \<longleftrightarrow> c = 0" "uint c = uint d \<longleftrightarrow> c = d" "\<not> uint c < 0" "uint c = 0 \<longleftrightarrow> c = 0"
    using uint_nonnegative [of c] by (auto simp: word_uint_eq_iff)
  show ?case
  proof (cases "m = sz")
    case True
    then show ?thesis
      using b' Cons.prems by (subst buf_parse_loop.simps) (auto simp: cons Let_def c0)
  next
    case False
    with Cons.prems have lt: "m < sz" by simp
    show ?thesis
    proof (cases "c = 0 \<or> c = d")
      case True
      then have f: "field_of d (c # cs) = []" by (auto simp: field_of_def)
      have "buf_parse_loop b (uint d) line (int sz) (int m) = (False, line[m := 0], b')"
        using True lt b'(1) by (subst buf_parse_loop.simps) (auto simp: Let_def c0)
      then show ?thesis using b' lt Cons.prems by (auto simp: cons f)
    next
      case go: False
      then have f: "field_of d (c # cs) = c # field_of d cs" by (simp add: field_of_def)
      let ?line = "line[m := c]"
      have step: "buf_parse_loop b (uint d) line (int sz) (int m) = buf_parse_loop b' (uint d) ?line (int sz) (int (Suc m))"
        using go lt b'(1) by (subst buf_parse_loop.simps) (auto simp: Let_def c0 add.commute)
      have tk: "take (Suc m) ?line = take m line @ [c]"
        using lt Cons.prems(2) by (simp add: take_Suc_conv_app_nth)
      have drp: "drop (sz - m) (c # cs) = drop (sz - Suc m) cs"
        using lt by (simp add: drop_Cons' Suc_diff_Suc)
      have tkf: "take (sz - m) (c # field_of d cs) = c # take (sz - Suc m) (field_of d cs)"
        using lt by (simp add: take_Cons' Suc_diff_Suc)
      have mn: "min (sz - m) (Suc k) = Suc (min (sz - Suc m) k)" for k using lt by linarith
      let ?f = "field_of d cs"
      obtain line' b2 where IH: "buf_parse_loop b' (uint d) ?line (int sz) (int (Suc m)) =
            (if Suc m + length ?f < sz then drop (length ?f) cs = [] else drop (sz - Suc m) cs = [], line', b2)"
          "length line' = sz" "buf_ok b2" "b_capacity b2 = b_capacity b'" "buf_contents b2 = drop (Suc (min (sz - Suc m) (length ?f))) cs"
          "take (min sz (Suc m + length ?f)) line' = take (Suc m) ?line @ take (sz - Suc m) ?f"
          "Suc m + length ?f < sz \<longrightarrow> line' ! (Suc m + length ?f) = 0"
        using Cons.hyps(1) [OF b'(3) [symmetric] b'(2), of ?line "Suc m", unfolded b'(3)] Cons.prems(2) lt
        by (metis Suc_leI length_list_update)
      show ?thesis unfolding step IH(1) cons f
        using IH(2-7) lt b'(4)
        by (intro exI [of _ line'] exI [of _ b2]) (simp add: tk drp tkf mn del: take_Suc_Cons)
    qed
  qed
qed

lemma buf_parse_short:
  assumes ok: "buf_ok b" and len: "length line = sz" and short: "length (field_of d (buf_contents b)) < sz"
  shows "\<exists>line' b'. buf_parse b (uint d) line (int sz) =
      Inr (buf_contents b \<noteq> [], line', b')
    \<and> length line' = sz \<and> cstr_of line' = field_of d (buf_contents b) \<and> buf_ok b' \<and> b_capacity b' = b_capacity b
    \<and> buf_contents b' = drop (Suc (length (field_of d (buf_contents b)))) (buf_contents b)"
proof -
  let ?f = "field_of d (buf_contents b)" and ?cs = "buf_contents b"
  obtain line' b' where l: "buf_parse_loop b (uint d) line (int sz) 0 = (drop (length ?f) ?cs = [], line', b')"
      "length line' = sz" "buf_ok b'" "b_capacity b' = b_capacity b" "buf_contents b' = drop (Suc (length ?f)) ?cs"
      "take (length ?f) line' = ?f" "line' ! length ?f = 0"
    using buf_parse_loop_eq [OF ok len, of 0 d] short by (auto simp: min_def split: if_splits)
  let ?line = "line'[sz - 1 := 0]"
  have "take (length ?f) ?line = ?f" using l(6) short by simp
  moreover have "?line ! length ?f = 0" using l(2,7) short by (simp add: nth_list_update)
  moreover have "0 \<notin> set ?f" using field_of_props by blast
  ultimately have s: "cstr_of ?line = ?f" using cstr_of_nth_0 [of "length ?f" ?line] l(2) short by simp
  have "drop (length ?f) ?cs = [] \<and> ?f = [] \<longleftrightarrow> ?cs = []" by (auto simp: field_of_def)
  then have "\<not> (drop (length ?f) ?cs = [] \<and> length (cstr_of ?line) = 0) \<longleftrightarrow> ?cs \<noteq> []" unfolding s by simp
  then show ?thesis using l s short
    by (intro exI [of _ ?line] exI [of _ b']) (simp add: buf_parse_def nat_diff_distrib)
qed

lemma buf_parse_long:
  assumes ok: "buf_ok b" and len: "length line = sz" and long: "sz \<le> length (field_of d (buf_contents b))" and sz: "0 < sz"
  shows "\<exists>line' b'. buf_parse b (uint d) line (int sz) =
      Inr (sz = 1 \<longrightarrow> buf_contents b \<noteq> [hd (buf_contents b)], line', b')
    \<and> length line' = sz \<and> cstr_of line' = take (sz - 1) (buf_contents b) \<and> buf_ok b' \<and> b_capacity b' = b_capacity b
    \<and> buf_contents b' = drop (Suc sz) (buf_contents b)"
proof -
  let ?f = "field_of d (buf_contents b)" and ?cs = "buf_contents b"
  obtain line' b' where l: "buf_parse_loop b (uint d) line (int sz) 0 = (drop sz ?cs = [], line', b')"
      "length line' = sz" "buf_ok b'" "b_capacity b' = b_capacity b" "buf_contents b' = drop (Suc sz) ?cs"
      "take sz line' = take sz ?f"
    using buf_parse_loop_eq [OF ok len, of 0 d] long by (auto simp: min_def split: if_splits)
  let ?line = "line'[sz - 1 := 0]"
  have pre: "take n ?f = take n ?cs" if "n \<le> length ?f" for n
    unfolding field_of_def using that unfolding field_of_def by (rule take_takeWhile_prefix)
  have "take (sz - 1) ?line = take (sz - 1) ?f" using arg_cong [OF l(6), of "take (sz - 1)"] by (simp add: min_def)
  moreover have "?line ! (sz - 1) = 0" using l(2) sz by simp
  moreover have "0 \<notin> set (take (sz - 1) ?f)" using field_of_props in_set_takeD by fast
  ultimately have s: "cstr_of ?line = take (sz - 1) ?f"
    using cstr_of_nth_0 [of "sz - 1" ?line] l(2) sz by simp
  have "length ?f \<le> length ?cs" by (simp add: field_of_def length_takeWhile_le)
  then have "\<not> (drop sz ?cs = [] \<and> length (cstr_of ?line) = 0) \<longleftrightarrow> (sz = 1 \<longrightarrow> ?cs \<noteq> [hd ?cs])"
    unfolding s using long sz by (cases ?cs) (auto simp: le_Suc_eq)
  then show ?thesis using l s sz long pre
    by (intro exI [of _ ?line] exI [of _ b']) (simp add: buf_parse_def nat_diff_distrib)
qed

lemma buf_parse_progress:
  assumes "buf_parse b d line sz = Inr (True, line', b')"
  shows "nat (b_len b') < nat (b_len b)"
proof -
  have mono: "nat (b_len (snd (buf_read_u8 b))) \<le> nat (b_len b)" for b
    by (auto simp: buf_read_u8_def buf_advance_def intro: nat_mono)
  have loop: "nat (b_len b') \<le> nat (b_len b)" if "buf_parse_loop b d line sz n = (eol, line', b')" for b n line eol line' b'
    using that
  proof (induction b d line sz n rule: buf_parse_loop.induct)
    case (1 b d line sz n)
    obtain c b1 where r: "buf_read_u8 b = (c, b1)" by fastforce
    then have "nat (b_len b1) \<le> nat (b_len b)" using mono [of b] by simp
    moreover have "nat (b_len b') \<le> nat (b_len b1)"
      using "1.prems" "1.IH" [OF r [symmetric] refl refl]
      by (subst (asm) buf_parse_loop.simps) (auto simp: r Let_def split: if_splits)
    ultimately show ?case by linarith
  qed
  have sz: "0 < sz" using assms by (auto simp: buf_parse_def)
  obtain eol l where l: "buf_parse_loop b d line sz 0 = (eol, l, b')" "\<not> (eol \<and> cstr_of (l[nat (sz - 1) := 0]) = [])"
    using assms by (auto simp: buf_parse_def Let_def split: prod.splits)
  show ?thesis
  proof (cases "buf_len b < 1")
    case True
    then have "buf_parse_loop b d line sz 0 = (True, line[0 := 0], b)"
      using sz by (subst buf_parse_loop.simps) (simp add: buf_read_u8_def)
    moreover have "cstr_of (line[0 := 0, k := 0]) = []" for k
      by (cases line; cases k) (auto simp: cstr_of_def)
    ultimately show ?thesis using l by simp
  next
    case False
    let ?b = "snd (buf_read_u8 b)" and ?c = "uint (buf_block b ! nat (b_offset b))"
    have r: "buf_read_u8 b = (?c, ?b)" using False by (simp add: buf_read_u8_def)
    have "nat (b_len ?b) < nat (b_len b)"
      using False by (auto simp: buf_read_u8_def buf_advance_def buf_len_def split: if_splits)
    moreover have "nat (b_len b') \<le> nat (b_len ?b)"
      using l(1) sz loop by (subst (asm) buf_parse_loop.simps, subst (asm) (1) r) (auto simp: Let_def split: if_splits)
    ultimately show ?thesis by linarith
  qed
qed

function buf_parse_all :: "buffer \<Rightarrow> int \<Rightarrow> byte list \<Rightarrow> int \<Rightarrow> cstr list result" where
  \<comment> \<open>the lines that \<open>while (buf_parse (&buf, delim, line, size))\<close> goes through\<close>
  "buf_parse_all b delim line sz =
     (case buf_parse b delim line sz of
        Inl e \<Rightarrow> Inl e
      | Inr (False, line, b) \<Rightarrow> Inr []
      | Inr (True, line, b) \<Rightarrow>
          bind_result (buf_parse_all b delim line sz) (\<lambda>rest. Inr (cstr_of line # rest)))"
  by pat_completeness auto
termination
  by (relation "measure (\<lambda>(b, d, l, sz). nat (b_len b))") (use buf_parse_progress in fastforce)+
declare buf_parse_all.simps [simp del]

function split_fields :: "byte \<Rightarrow> byte list \<Rightarrow> cstr list" where
  "split_fields d cs =
     (if cs = [] then [] else field_of d cs # split_fields d (drop (Suc (length (field_of d cs))) cs))"
  by pat_completeness auto
termination
  by (relation "measure (\<lambda>(d, cs). length cs)") auto
declare split_fields.simps [simp del]

lemma split_fields_Nil [simp]: "split_fields d [] = []"
  by (subst split_fields.simps) simp

lemma split_fields_append:
  assumes "0 \<notin> set f" "d \<notin> set f" "c = d \<or> c = 0"
  shows "split_fields d (f @ c # cs) = f # split_fields d cs"
proof -
  have "field_of d (f @ c # cs) = f"
    using assms by (auto simp: field_of_def takeWhile_tail takeWhile_eq_all_conv)
  then show ?thesis by (subst split_fields.simps) simp
qed

lemma split_fields_last: "0 \<notin> set f \<Longrightarrow> d \<notin> set f \<Longrightarrow> f \<noteq> [] \<Longrightarrow> split_fields d f = [f]"
proof -
  assume f: "0 \<notin> set f" "d \<notin> set f" "f \<noteq> []"
  then have "field_of d f = f" by (auto simp: field_of_def takeWhile_eq_all_conv)
  with f(3) show ?thesis by (subst split_fields.simps) simp
qed

lemma split_fields_lines:
  "(\<And>f. f \<in> set fs \<Longrightarrow> 0 \<notin> set f \<and> d \<notin> set f) \<Longrightarrow> split_fields d (concat (map (\<lambda>f. f @ [d]) fs)) = fs"
  by (induction fs) (simp_all add: split_fields_append)

lemma buf_parse_all_eq:
  assumes "buf_ok b" "length line = sz" "0 < sz" "\<forall>f \<in> set (split_fields d (buf_contents b)). length f < sz"
  shows "buf_parse_all b (uint d) line (int sz) = Inr (split_fields d (buf_contents b))"
  using assms
proof (induction d "buf_contents b" arbitrary: b line rule: split_fields.induct)
  case (1 d b)
  let ?f = "field_of d (buf_contents b)"
  show ?case
  proof (cases "buf_contents b = []")
    case True
    then have "?f = []" by (simp add: field_of_def)
    then obtain line' b' where "buf_parse b (uint d) line (int sz) = Inr (False, line', b')"
      using buf_parse_short [OF "1.prems"(1,2), of d] "1.prems"(3) True by auto
    then show ?thesis using True by (subst buf_parse_all.simps) simp
  next
    case False
    let ?rest = "drop (Suc (length ?f)) (buf_contents b)"
    have split: "split_fields d (buf_contents b) = ?f # split_fields d ?rest"
      using False by (subst split_fields.simps) simp
    with "1.prems"(4) have short: "length ?f < sz" and rest: "\<forall>f \<in> set (split_fields d ?rest). length f < sz" by simp_all
    then obtain line' b' where p: "buf_parse b (uint d) line (int sz) = Inr (True, line', b')" "length line' = sz"
        "cstr_of line' = ?f" "buf_ok b'" "buf_contents b' = ?rest"
      using buf_parse_short [OF "1.prems"(1,2) short] False by auto
    have "buf_parse_all b' (uint d) line' (int sz) = Inr (split_fields d ?rest)"
      using "1.hyps" [OF False p(5) [symmetric] p(4,2) "1.prems"(3)] rest p(5) by simp
    then show ?thesis using p(1,3) unfolding split by (subst buf_parse_all.simps) simp
  qed
qed

section \<open>Line endings\<close>

lemmas cc_defs = CC_ANY_def CC_NULL_def CC_ALNUM_def CC_ALPHA_def CC_ASCII_def CC_CNTRL_def CC_DIGIT_def CC_PRINT_def
  CC_PUNCT_def CC_SPACE_def CC_XDIGIT_def CC_BLANK_def CC_NEWLINE_def CC_CR_def CC_BACKSLASH_def CC_UNDERBAR_def CC_DASH_def
  CC_DOT_def CC_COMMA_def CC_COLON_def CC_SLASH_def CC_SINGLE_QUOTE_def CC_DOUBLE_QUOTE_def CC_REVERSE_QUOTE_def CC_AT_def
  CC_EQUAL_def CC_NAME_def CC_CRLF_def

lemma char_class_crlf: "char_class c CC_CRLF \<longleftrightarrow> c = 10 \<or> c = 13"
  by (auto simp: char_class_def cc_defs)

lemma char_class_crlf_null: "char_class c (CC_CRLF OR CC_NULL) \<longleftrightarrow> c = 0 \<or> c = 10 \<or> c = 13"
  by (auto simp: char_class_def cc_defs)

lemma char_class_print: "char_class c CC_PRINT \<longleftrightarrow> isprint c"
  by (auto simp: char_class_def cc_defs)

lemma buf_last:
  assumes "buf_ok b" "buf_contents b = cs @ [c]"
  shows "\<exists>p. buf_blast b = Some p \<and> buf_byte b p = c"
    "\<exists>b'. buf_inc_len b (- 1) = (True, b') \<and> buf_ok b' \<and> buf_contents b' = cs \<and> b_capacity b' = b_capacity b
      \<and> b_offset b' = b_offset b"
proof -
  have len: "b_len b = int (length cs) + 1" using length_buf_contents [OF assms(1)] assms(2) by simp
  have inv: "0 \<le> b_offset b" "b_offset b + b_len b \<le> b_capacity b" "int (length (buf_block b)) = b_capacity b"
    using assms(1) by (auto simp: buf_ok_def)
  have n: "nat (b_len b) = length cs + 1" using len by linarith
  then have "buf_contents b = mem_read (buf_block b) (nat (b_offset b)) (length cs) @ mem_read (buf_block b) (nat (b_offset b) + length cs) 1"
    using assms(1) by (simp add: buf_contents_def flip: mem_read_append)
  moreover have one: "mem_read (buf_block b) (nat (b_offset b) + length cs) 1 = [buf_block b ! (nat (b_offset b) + length cs)]"
    using inv len by (simp add: mem_read_def Cons_nth_drop_Suc [symmetric] take_Suc_conv_app_nth)
  ultimately have parts: "mem_read (buf_block b) (nat (b_offset b)) (length cs) = cs" "buf_block b ! (nat (b_offset b) + length cs) = c"
    using assms(2) by simp_all
  have "nat (b_offset b + b_len b - 1) = nat (b_offset b) + length cs" using inv len by linarith
  then show "\<exists>p. buf_blast b = Some p \<and> buf_byte b p = c"
    using assms(1) len parts(2) by (simp add: buf_blast_def buf_byte_def)
  let ?b = "b\<lparr>b_len := b_len b - 1\<rparr>"
  have "buf_inc_len b (- 1) = (True, ?b)"
    using assms(1) inv len by (simp add: buf_inc_len_def buf_safe_bidir_def buf_size_valid_signed_def BUF_SIZE_MAX_def Let_def)
  moreover have ok: "buf_ok ?b" using assms(1) len by (auto simp: buf_ok_def)
  moreover have "buf_contents ?b = cs" using parts(1) ok len by (simp add: buf_contents_def)
  ultimately show "\<exists>b'. buf_inc_len b (- 1) = (True, b') \<and> buf_ok b' \<and> buf_contents b' = cs \<and> b_capacity b' = b_capacity b
      \<and> b_offset b' = b_offset b" by simp
qed

lemma buf_blast_Nil: "buf_ok b \<Longrightarrow> buf_contents b = [] \<Longrightarrow> buf_blast b = None"
  using length_buf_contents [of b] by (simp add: buf_blast_def)

definition chomped :: "byte list \<Rightarrow> byte list" where
  "chomped cs = rev (dropWhile (\<lambda>c. c = 0 \<or> c = 10 \<or> c = 13) (rev cs))"

lemma chomped_snoc [simp]:
  "chomped (cs @ [c]) = (if c = 0 \<or> c = 10 \<or> c = 13 then chomped cs else cs @ [c])"
  by (simp add: chomped_def)

lemma chomped_Nil [simp]: "chomped [] = []"
  by (simp add: chomped_def)

lemma chomped_length: "length (chomped cs) \<le> length cs"
  unfolding chomped_def using length_dropWhile_le [of _ "rev cs"] by simp

lemma chomped_last: "chomped cs \<noteq> [] \<Longrightarrow> last (chomped cs) \<noteq> 0"
  unfolding chomped_def using hd_dropWhile [of "\<lambda>c. c = 0 \<or> c = 10 \<or> c = 13" "rev cs"] by (auto simp: last_rev)

lemma buf_chomp_loop_ok:
  assumes "buf_ok b"
  shows "buf_ok (buf_chomp_loop b) \<and> buf_contents (buf_chomp_loop b) = chomped (buf_contents b)
    \<and> b_capacity (buf_chomp_loop b) = b_capacity b \<and> b_offset (buf_chomp_loop b) = b_offset b"
  using assms
proof (induction "buf_contents b" arbitrary: b rule: rev_induct)
  case Nil
  then show ?case using buf_blast_Nil [OF Nil.prems Nil.hyps [symmetric]]
    by (subst (1 2 3 4) buf_chomp_loop.simps) (simp flip: Nil.hyps)
next
  case (snoc c cs)
  note snoc_eq = snoc.hyps(2) [symmetric]
  obtain p where p: "buf_blast b = Some p" "buf_byte b p = c" using buf_last(1) [OF snoc.prems snoc_eq] by blast
  obtain b' where b': "buf_inc_len b (- 1) = (True, b')" "buf_ok b'" "buf_contents b' = cs" "b_capacity b' = b_capacity b"
      "b_offset b' = b_offset b" using buf_last(2) [OF snoc.prems snoc_eq] by blast
  show ?case
  proof (cases "c = 0 \<or> c = 10 \<or> c = 13")
    case True
    then have "buf_chomp_loop b = buf_chomp_loop b'"
      using p b'(1) by (subst buf_chomp_loop.simps) (simp add: char_class_crlf_null)
    then show ?thesis using snoc.hyps(1) [OF b'(3) [symmetric] b'(2)] b' True unfolding snoc_eq by simp
  next
    case False
    then have "buf_chomp_loop b = b" using p by (subst buf_chomp_loop.simps) (simp add: char_class_crlf_null)
    then show ?thesis using snoc.prems False unfolding snoc_eq by (simp add: snoc_eq)
  qed
qed

lemma buf_chomp_ok:
  assumes "buf_ok b" "int (length (chomped (buf_contents b))) < b_capacity b - b_offset b"
  shows "buf_ok (buf_chomp b) \<and> buf_contents (buf_chomp b) = chomped (buf_contents b) @ [0]
    \<and> b_capacity (buf_chomp b) = b_capacity b \<and> b_offset (buf_chomp b) = b_offset b"
proof -
  let ?b = "buf_chomp_loop b" and ?s = "chomped (buf_contents b)"
  have l: "buf_ok ?b" "buf_contents ?b = ?s" "b_capacity ?b = b_capacity b" "b_offset ?b = b_offset b"
    using buf_chomp_loop_ok [OF assms(1)] by auto
  have "buf_blast ?b = None \<or> (\<exists>p. buf_blast ?b = Some p \<and> buf_byte ?b p \<noteq> 0)"
  proof (cases "?s = []")
    case True
    then show ?thesis using buf_blast_Nil l by simp
  next
    case False
    then have s: "buf_contents ?b = butlast ?s @ [last ?s]" using l(2) by simp
    from buf_last(1) [OF l(1) s] chomped_last [OF False] show ?thesis by auto
  qed
  moreover have room: "1 \<le> buf_room ?b"
    using buf_room_eq [OF l(1)] length_buf_contents [OF l(1)] l(2-4) assms(2) by simp
  moreover have "buf_safe ?b 1"
    using room buf_room_eq [OF l(1)] l(1) by (simp add: buf_safe_def buf_size_valid_def BUF_SIZE_MAX_def)
  ultimately have "buf_chomp b = snd (buf_write ?b [0])"
    by (auto simp: buf_chomp_def buf_null_terminate_def buf_write_u8_def)
  moreover obtain b2 where "buf_write ?b [0] = (True, b2)" "buf_ok b2" "buf_contents b2 = ?s @ [0]"
      "b_capacity b2 = b_capacity b" "b_offset b2 = b_offset b"
    using buf_write_full [OF l(1), of "[0]"] room l(2-4) by auto
  ultimately show ?thesis by simp
qed

section \<open>Lists of buffers are byte streams\<close>

definition bl_stream :: "buffer_list \<Rightarrow> byte list" where
  "bl_stream ol = concat (map buf_contents (bl_entries ol))"

definition bl_ok :: "int \<Rightarrow> int \<Rightarrow> buffer_list \<Rightarrow> bool" where
  \<comment> \<open>no limit on the entries, pushes of at most \<open>p\<close> bytes, aggregation up to \<open>m\<close> bytes\<close>
  "bl_ok m p ol \<longleftrightarrow> bl_max_size ol = 0 \<and> (\<forall>b \<in> set (bl_entries ol). buf_ok b)
     \<and> (\<forall>b \<in> set (tl (bl_entries ol)). b_len b \<le> p) \<and> (\<forall>b \<in> set (take 1 (bl_entries ol)). b_len b \<le> m + p)"

lemma alloc_filled:
  assumes "int (length ds) < BUF_SIZE_MAX" "k \<le> length ds"
  shows "\<exists>b. alloc_buf junk (int (length ds)) = Inr b \<and> buf_ok ((buf_put b 0 ds)\<lparr>b_len := int k\<rparr>)
           \<and> buf_contents ((buf_put b 0 ds)\<lparr>b_len := int k\<rparr>) = take k ds"
proof -
  obtain b where b: "alloc_buf junk (int (length ds)) = Inr b" "buf_ok b" "b_capacity b = int (length ds)" "b_offset b = 0" "b_len b = 0"
    using alloc_buf_ok [of "int (length ds)" junk] assms by auto
  have len: "length (buf_block b) = length ds" using b(2,3) by (simp add: buf_ok_def)
  let ?b = "(buf_put b 0 ds)\<lparr>b_len := int k\<rparr>"
  have blk: "buf_block (buf_put b 0 ds) = ds" using len b(2) by (simp add: buf_ok_def mem_write_def)
  have "buf_ok ?b" using b(2-4) assms blk by (auto simp: buf_ok_def buf_put_def)
  moreover have "buf_contents ?b = take k ds"
    using \<open>buf_ok ?b\<close> b(4) blk by (simp add: buf_contents_def mem_read_def)
  ultimately show ?thesis using b(1) by blast
qed

lemma buffer_list_push_ok:
  assumes "bl_ok m p ol" "int (length str) \<le> p" "0 \<le> m" "p + 1 < BUF_SIZE_MAX"
  shows "\<exists>ol'. buffer_list_push junk ol str = Inr ol' \<and> bl_ok m p ol' \<and> bl_stream ol' = bl_stream ol @ str
    \<and> length (bl_entries ol') = Suc (length (bl_entries ol))"
proof -
  obtain b where b: "alloc_buf junk (int (length (str @ [0]))) = Inr b"
      "buf_ok ((buf_put b 0 (str @ [0]))\<lparr>b_len := int (length str)\<rparr>)"
      "buf_contents ((buf_put b 0 (str @ [0]))\<lparr>b_len := int (length str)\<rparr>) = str"
    using alloc_filled [of "str @ [0]" "length str" junk] assms by auto
  let ?b = "(buf_put b 0 (str @ [0]))\<lparr>b_len := int (length str)\<rparr>"
  let ?ol = "ol\<lparr>bl_entries := bl_entries ol @ [?b], bl_size := bl_size ol + 1\<rparr>"
  have max: "bl_max_size ol = 0" using assms(1) by (simp add: bl_ok_def)
  have "buffer_list_push junk ol str = Inr ?ol"
    using max b(1) by (simp add: buffer_list_push_def buffer_list_push_data_def Let_def)
  moreover have "bl_ok m p ?ol"
    using assms b(2) by (cases "bl_entries ol") (auto simp: bl_ok_def)
  moreover have "bl_stream ?ol = bl_stream ol @ str" using b(3) by (simp add: bl_stream_def)
  ultimately show ?thesis by simp
qed

lemma aggregate_count_eq:
  "\<exists>k. aggregate_count es mx s c = (s + sum_list (map buf_len (take k es)), c + k) \<and> k \<le> length es
     \<and> (\<forall>j < k. s + sum_list (map buf_len (take j es)) \<le> mx)
     \<and> (k < length es \<longrightarrow> mx < s + sum_list (map buf_len (take k es)))"
proof (induction es arbitrary: s c)
  case (Cons e es)
  show ?case
  proof (cases "s \<le> mx")
    case True
    obtain k where "aggregate_count es mx (s + buf_len e) (Suc c) =
        (s + buf_len e + sum_list (map buf_len (take k es)), Suc c + k)" "k \<le> length es"
        "\<forall>j < k. s + buf_len e + sum_list (map buf_len (take j es)) \<le> mx"
        "k < length es \<longrightarrow> mx < s + buf_len e + sum_list (map buf_len (take k es))" using Cons.IH [of "s + buf_len e" "Suc c"] by blast
    with True show ?thesis
      by (intro exI [of _ "Suc k"]) (auto simp: less_Suc_eq_0_disj add.assoc)
  qed (auto intro: exI [of _ 0])
qed simp

lemma fold_buf_copy_ok:
  assumes "buf_ok f" "\<forall>e \<in> set es. buf_ok e" "sum_list (map (\<lambda>e. length (buf_contents e)) es) \<le> buf_room f"
  shows "buf_ok (fold (\<lambda>e f. snd (buf_copy f e)) es f) \<and>
    buf_contents (fold (\<lambda>e f. snd (buf_copy f e)) es f) = buf_contents f @ concat (map buf_contents es)"
  using assms
proof (induction es arbitrary: f)
  case (Cons e es)
  obtain f' where f': "buf_write f (buf_contents e) = (True, f')" "buf_ok f'" "buf_contents f' = buf_contents f @ buf_contents e"
      "buf_room f' = buf_room f - length (buf_contents e)"
    using buf_write_ok [OF Cons.prems(1), of "buf_contents e"] Cons.prems(2,3) by auto
  then have "sum_list (map (\<lambda>e. length (buf_contents e)) es) \<le> buf_room f'" using Cons.prems(3) by simp
  from Cons.IH [OF f'(2) _ this] Cons.prems(2) f' show ?case by (simp add: buf_copy_def)
qed simp

lemma sum_list_buf_len:
  "\<forall>e \<in> set es. buf_ok e \<Longrightarrow> sum_list (map buf_len es) = int (sum_list (map (\<lambda>e. length (buf_contents e)) es))"
  by (induction es) (auto simp: length_buf_contents buf_ok_def)

lemma buffer_list_aggregate_ok:
  assumes ok: "bl_ok m p ol" and m: "0 \<le> m" "0 \<le> p" "m + p < BUF_SIZE_MAX"
  shows "bl_ok m p (buffer_list_aggregate junk ol m) \<and> bl_stream (buffer_list_aggregate junk ol m) = bl_stream ol
    \<and> (bl_entries (buffer_list_aggregate junk ol m) = [] \<longleftrightarrow> bl_entries ol = [])
    \<and> (bl_entries ol \<noteq> [] \<longrightarrow> b_len (hd (bl_entries ol)) \<le> b_len (hd (bl_entries (buffer_list_aggregate junk ol m))))
    \<and> (bl_stream ol \<noteq> [] \<longrightarrow> 0 < b_len (hd (bl_entries (buffer_list_aggregate junk ol m))))"
proof -
  let ?es = "bl_entries ol"
  obtain k where k: "aggregate_count ?es m 0 0 = (sum_list (map buf_len (take k ?es)), k)" "k \<le> length ?es"
      "\<forall>j < k. sum_list (map buf_len (take j ?es)) \<le> m"
      "k < length ?es \<longrightarrow> m < sum_list (map buf_len (take k ?es))"
    using aggregate_count_eq [of ?es m 0 0] by auto
  have eok: "\<forall>e \<in> set ?es. buf_ok e" using ok by (simp add: bl_ok_def)
  show ?thesis
  proof (cases "k \<ge> 2")
    case False
    then have "buffer_list_aggregate junk ol m = ol" using k(1) by (simp add: buffer_list_aggregate_def)
    moreover have "0 < b_len (hd ?es)" if "bl_stream ol \<noteq> []"
    proof -
      obtain e es where es: "?es = e # es" using \<open>bl_stream ol \<noteq> []\<close> by (cases ?es) (auto simp: bl_stream_def)
      have "k = 1" using False k(2,4) m(1) es by (cases k) auto
      have "buf_len e = b_len e" "buf_ok e" using eok es by simp_all
      moreover have "buf_contents e \<noteq> []" if "es = []" using that \<open>bl_stream ol \<noteq> []\<close> es by (simp add: bl_stream_def)
      moreover have "0 < b_len e" if "es \<noteq> []"
        using that k(4) m(1) es \<open>k = 1\<close> \<open>buf_len e = b_len e\<close> by simp
      moreover have "0 < b_len e" if "buf_contents e \<noteq> []"
        using that length_buf_contents [OF \<open>buf_ok e\<close>] by (metis length_greater_0_conv of_nat_0_less_iff)
      ultimately show ?thesis using es by (cases "es = []") auto
    qed
    ultimately show ?thesis using ok by auto
  next
    case True
    let ?s = "sum_list (map buf_len (take k ?es))"
    let ?g = "\<lparr>b_capacity = ?s, b_offset = 0, b_len = 0, b_data = Some (malloc_block junk (nat ?s))\<rparr>"
    let ?f = "fold (\<lambda>e f. snd (buf_copy f e)) (take k ?es) ?g"
    have agg: "buffer_list_aggregate junk ol m = ol\<lparr>bl_entries := ?f # drop k ?es\<rparr>"
      using k(1) True by (simp add: buffer_list_aggregate_def Let_def)
    have tok: "\<forall>e \<in> set (take k ?es). buf_ok e" using eok by (meson in_set_takeD)
    have s: "?s = int (sum_list (map (\<lambda>e. length (buf_contents e)) (take k ?es)))" by (rule sum_list_buf_len [OF tok])
    obtain j where j: "k = Suc j" "1 \<le> j" using True by (cases k) auto
    then have jlt: "j < length ?es" using k(2) by simp
    have "?es ! j \<in> set (tl ?es)" using jlt j(2) by (cases ?es) (auto simp: nth_Cons')
    then have "b_len (?es ! j) \<le> p" using ok by (auto simp: bl_ok_def)
    moreover have "buf_ok (?es ! j)" using eok jlt by simp
    moreover have "?s = sum_list (map buf_len (take j ?es)) + buf_len (?es ! j)"
      using jlt by (simp add: j(1) take_Suc_conv_app_nth)
    ultimately have smax: "?s \<le> m + p" using k(3) j(1) by (auto simp: dest: spec [of _ j])
    have f0: "buf_ok ?g" using s smax m by (auto simp: buf_ok_def buf_block_def malloc_block_def)
    have "buf_room ?g = nat ?s" using s by (simp add: buf_room_def buf_forward_capacity_def buf_valid_def)
    then have le: "sum_list (map (\<lambda>e. length (buf_contents e)) (take k ?es)) \<le> buf_room ?g" using s by simp
    have "buf_contents ?g = []" using f0 by (simp add: buf_contents_def)
    then have f: "buf_ok ?f" "buf_contents ?f = concat (map buf_contents (take k ?es))"
      using fold_buf_copy_ok [OF f0 tok le] by simp_all
    have "b_len ?f = int (length (buf_contents ?f))" using length_buf_contents [OF f(1)] by simp
    also have "\<dots> = ?s" unfolding f(2) unfolding s by (simp add: length_concat comp_def)
    finally have lf: "b_len ?f = ?s" .
    have "set (drop k ?es) \<subseteq> set (tl ?es)" using True by (metis drop_Suc j(1) set_drop_subset)
    then have "bl_ok m p (ol\<lparr>bl_entries := ?f # drop k ?es\<rparr>)"
      using ok f(1) lf smax eok by (auto simp: bl_ok_def dest: in_set_dropD)
    moreover have "bl_stream (ol\<lparr>bl_entries := ?f # drop k ?es\<rparr>) = bl_stream ol"
      unfolding bl_stream_def using f(2) by (simp flip: concat_append map_append)
    moreover have "b_len (hd ?es) \<le> b_len ?f"
    proof -
      obtain e es where es: "?es = e # es" using jlt by (cases ?es) auto
      have "take k ?es = e # take j es" using es j by simp
      moreover have "buf_len e = b_len e" using eok es by simp
      moreover have "0 \<le> sum_list (map buf_len (take j es))"
        using sum_list_buf_len [of "take j es"] eok es by (metis in_set_takeD list.set_intros(2) of_nat_0_le_iff)
      ultimately show ?thesis using lf es by simp
    qed
    moreover have "?es \<noteq> []" using jlt by auto
    moreover have "0 < b_len ?f" if "bl_stream ol \<noteq> []"
    proof (cases "k < length ?es")
      case True
      then show ?thesis using k(4) lf m(1) by simp
    next
      case False
      then have "buf_contents ?f \<noteq> []" using that f(2) by (simp add: bl_stream_def)
      then show ?thesis using length_buf_contents [OF f(1)] by (metis length_greater_0_conv of_nat_0_less_iff)
    qed
    ultimately show ?thesis unfolding agg by auto
  qed
qed

lemma buffer_list_advance_ok:
  assumes "bl_ok m p ol" "bl_entries ol = b # bs" "0 \<le> n" "n \<le> b_len b" "0 \<le> m"
  shows "\<exists>ol'. buffer_list_advance ol n = Inr ol' \<and> bl_ok m p ol' \<and> bl_stream ol = take (nat n) (buf_contents b) @ bl_stream ol'
    \<and> bl_entries ol' = (if n = b_len b then bs else bl_entries ol') \<and> (n < b_len b \<longrightarrow> bl_entries ol' \<noteq> [])"
proof -
  have bok: "buf_ok b" using assms(1,2) by (simp add: bl_ok_def)
  obtain b' where b': "buf_advance b n = (True, b')" "buf_ok b'" "buf_contents b' = drop (nat n) (buf_contents b)" "b_len b' = b_len b - n"
    using buf_advance_ok [OF bok assms(3,4)] by blast
  let ?ol = "ol\<lparr>bl_entries := b' # bs\<rparr>"
  have st: "bl_stream ol = take (nat n) (buf_contents b) @ buf_contents b' @ concat (map buf_contents bs)"
    using assms(2) b'(3) by (simp add: bl_stream_def)
  show ?thesis
  proof (cases "n = b_len b")
    case True
    then have "buf_contents b' = []" using b'(3) bok by simp
    moreover have "buffer_list_advance ol n = Inr (buffer_list_pop ?ol)"
      using b' assms(2) True by (simp add: buffer_list_advance_def Let_def)
    moreover have "bl_ok m p (buffer_list_pop ?ol)"
      using assms(1,2,5) by (cases bs) (auto simp: bl_ok_def buffer_list_pop_def)
    ultimately show ?thesis using st True by (auto simp: buffer_list_pop_def bl_stream_def)
  next
    case False
    then have "buffer_list_advance ol n = Inr ?ol"
      using b' assms(2) by (simp add: buffer_list_advance_def Let_def)
    moreover have "bl_ok m p ?ol" using assms(1-4) b'(2,4) by (auto simp: bl_ok_def)
    ultimately show ?thesis using st False by (auto simp: bl_stream_def)
  qed
qed

lemma buffer_list_size_leak:
  \<comment> \<open>\<open>buffer_list_aggregate\<close> merges entries and keeps \<open>size\<close>\<close>
  "bl_size (buffer_list_aggregate junk ol mx) = bl_size ol"
  by (simp add: buffer_list_aggregate_def Let_def split: prod.splits)


section \<open>Sanitized strings\<close>

text \<open>\<open>string_mod\<close> leaves only characters of the requested class, or the replacement: it is the identity,
  and says so, exactly on the strings \<open>string_class\<close> accepts, it never makes a string longer, and
  doing it twice changes nothing more when the replacement is itself allowed or null.  With
  \<open>CC_PRINT\<close> and \<open>CC_CRLF\<close>, as it is used for names, no control character and no line break is left.\<close>

theorem string_mod_sanitizes:
  assumes "0 \<notin> set str" "string_mod str i e r = (ret, out)"
  shows "(ret \<longleftrightarrow> string_class str i e) \<and> (ret \<longrightarrow> out = str)
    \<and> (\<forall>c \<in> set out. char_inc_exc c i e \<or> c = r) \<and> 0 \<notin> set out \<and> length out \<le> length str
    \<and> (r = 0 \<or> char_inc_exc r i e \<longrightarrow> string_mod out i e r = (True, out))
    \<and> (i = CC_PRINT \<and> e = CC_CRLF \<and> (r = 0 \<or> isprint r) \<longrightarrow> (\<forall>c \<in> set out. isprint c))"
proof -
  let ?f = "\<lambda>c. if char_inc_exc c i e then c else r"
  have ret: "ret = string_class str i e" and out: "out = filter (\<lambda>c. c \<noteq> 0) (map ?f str)"
    using assms(2) by (simp_all add: string_mod_eq)
  have cls: "\<forall>c \<in> set out. char_inc_exc c i e \<or> c = r" unfolding out by auto
  have nz: "0 \<notin> set out" unfolding out by simp
  have id: "string_mod cs i e r = (True, cs)" if "string_class cs i e" "0 \<notin> set cs" for cs
  proof -
    have "map ?f cs = cs" using that(1) by (intro map_idI) (simp add: string_class_iff)
    moreover have "filter (\<lambda>c. c \<noteq> 0) cs = cs" using that(2) by (intro filter_True) auto
    ultimately show ?thesis using that(1) by (simp add: string_mod_eq)
  qed
  have len: "length out \<le> length str" unfolding out by (rule order_trans [OF length_filter_le]) simp
  have same: "ret \<longrightarrow> out = str"
  proof
    assume ret
    then have "string_mod str i e r = (True, str)" using id assms(1) ret by blast
    then show "out = str" using assms(2) by (metis prod.inject)
  qed
  have twice: "r = 0 \<or> char_inc_exc r i e \<longrightarrow> string_mod out i e r = (True, out)"
  proof
    assume "r = 0 \<or> char_inc_exc r i e"
    then have "string_class out i e" using cls nz by (auto simp: string_class_iff)
    then show "string_mod out i e r = (True, out)" using id nz by blast
  qed
  have "isprint c" if "i = CC_PRINT" "e = CC_CRLF" "r = 0 \<or> isprint r" "c \<in> set out" for c
    using cls nz that by (auto simp: char_inc_exc_def char_class_print)
  with ret same cls nz len twice show ?thesis by blast
qed

theorem string_mod_sanitizes_witness:
  "string_mod [97, 10, 7, 98] CC_PRINT CC_CRLF 0 = (False, [97, 98]) \<and> string_mod [97, 98] CC_PRINT CC_CRLF 0 = (True, [97, 98])"
proof -
  have s: "string_mod [97, 10, 7, 98] CC_PRINT CC_CRLF 0 = (False, [97, 98])" by code_simp
  with string_mod_sanitizes [OF _ s] show ?thesis by simp
qed

end
