(* ===== verification/Management.thy ===== *)
theory Management
  imports Buf_Strings
begin

text \<open>
  The client connection of the management interface (manage.c): the line reader \<open>struct
  command_line\<close>, and the input and output halves \<open>man_read\<close> and \<open>man_write\<close> of the connection.

  What is done with a line (\<open>man_process_command\<close>, or the collecting of the additional input of a
  command in \<open>in_extra\<close>) is a parameter \<open>process\<close>: a step on a state of its own with the strings that it
  pushes to the output and whether it sets \<open>connection.halt\<close>; the prompt strings are a parameter as well.
  The state machine of the listening socket is left out.
  The socket is a parameter \<open>send\<close>: the number of bytes that it takes of those offered.
\<close>

section \<open>Lines of commands\<close>

record command_line =
  cl_buf :: buffer
  cl_residual :: buffer

definition command_line_new :: "(nat \<Rightarrow> byte) \<Rightarrow> int \<Rightarrow> command_line result" where
  "command_line_new junk n =
     bind_result (alloc_buf junk n) (\<lambda>b.
     bind_result (alloc_buf junk n) (\<lambda>r. Inr \<lparr>cl_buf = b, cl_residual = r\<rparr>))"

definition command_line_reset :: "command_line \<Rightarrow> command_line" where
  "command_line_reset cl = cl\<lparr>cl_buf := buf_clear (cl_buf cl), cl_residual := buf_clear (cl_residual cl)\<rparr>"

fun command_line_add :: "command_line \<Rightarrow> byte list \<Rightarrow> command_line" where
  "command_line_add cl [] = cl"
| "command_line_add cl (c # cs) =
     (let cl = (if c \<noteq> 0 \<and> (isprint c \<or> c = 10)
                then (case buf_write_u8 (cl_buf cl) (uint c) of
                        (ok, b) \<Rightarrow> cl\<lparr>cl_buf := (if \<not> ok then buf_clear b else b)\<rparr>)
                else cl)
      in command_line_add cl cs)"

definition command_line_get :: "command_line \<Rightarrow> cstr option \<times> command_line" where
  "command_line_get cl =
     (let i = buf_substring_len (cl_buf cl) 10
      in if i \<ge> 0
         then (case buf_copy_excess (cl_residual cl) (cl_buf cl) i of
                 (ok, r, b) \<Rightarrow> (let b = buf_chomp b in (Some (cstr_of (buf_contents b)), \<lparr>cl_buf = b, cl_residual = r\<rparr>)))
         else (None, cl))"

definition command_line_next :: "command_line \<Rightarrow> command_line" where
  "command_line_next cl =
     (let b = snd (buf_copy (buf_clear (cl_buf cl)) (cl_residual cl))
      in \<lparr>cl_buf = b, cl_residual = buf_clear (cl_residual cl)\<rparr>)"

section \<open>The connection\<close>

record man_connection =
  mc_in :: command_line
  mc_out :: buffer_list

definition man_output_list_push_str :: "(nat \<Rightarrow> byte) \<Rightarrow> buffer_list \<Rightarrow> cstr \<Rightarrow> buffer_list result" where
  \<comment> \<open>of a connected client\<close>
  "man_output_list_push_str junk out str = buffer_list_push junk out str"

fun push_strings :: "(nat \<Rightarrow> byte) \<Rightarrow> buffer_list \<Rightarrow> cstr list \<Rightarrow> buffer_list result" where
  "push_strings junk out [] = Inr out"
| "push_strings junk out (str # strs) =
     bind_result (man_output_list_push_str junk out str) (\<lambda>out. push_strings junk out strs)"

definition man_reset_client_socket :: "man_connection \<Rightarrow> man_connection" where
  "man_reset_client_socket mc =
     mc\<lparr>mc_in := command_line_reset (mc_in mc), mc_out := buffer_list_reset (mc_out mc)\<rparr>"

partial_function (option) man_read_loop ::
    "(nat \<Rightarrow> byte) \<Rightarrow> ('s \<Rightarrow> cstr \<Rightarrow> 's \<times> cstr list \<times> bool) \<Rightarrow> 's \<Rightarrow> man_connection \<Rightarrow>
       (cstr list \<times> bool \<times> 's \<times> man_connection) result option" where
  \<comment> \<open>the loop over the complete lines; the results are the lines processed and \<open>halt\<close>\<close>
  [code]: "man_read_loop junk process s mc =
     (case command_line_get (mc_in mc) of
        (None, cl) \<Rightarrow> Some (Inr ([], False, s, mc\<lparr>mc_in := cl\<rparr>))
      | (Some line, cl) \<Rightarrow>
          (case process s line of (s, strs, halt) \<Rightarrow>
             (case push_strings junk (mc_out mc) strs of
                Inl e \<Rightarrow> Some (Inl e)
              | Inr out \<Rightarrow>
                  if halt then Some (Inr ([line], True, s, mc\<lparr>mc_in := cl, mc_out := out\<rparr>))
                  else Option.bind (man_read_loop junk process s (mc\<lparr>mc_in := command_line_next cl, mc_out := out\<rparr>)) (\<lambda>r.
                         Some (bind_result r (\<lambda>(lines, rest). Inr (line # lines, rest)))))))"

definition man_read ::
    "(nat \<Rightarrow> byte) \<Rightarrow> ('s \<Rightarrow> cstr \<Rightarrow> 's \<times> cstr list \<times> bool) \<Rightarrow> cstr list \<Rightarrow> 's \<Rightarrow> man_connection \<Rightarrow> byte list \<Rightarrow>
       (cstr list \<times> bool \<times> 's \<times> man_connection) result option" where
  \<comment> \<open>the case of \<open>recv\<close> giving \<open>len > 0\<close> bytes; the first result is the lines processed\<close>
  "man_read junk process prompt s mc bytes =
     (if length bytes > 256 then Some (Inl AssertFailed)
      else
        (let mc = mc\<lparr>mc_in := command_line_add (mc_in mc) bytes, mc_out := buffer_list_reset (mc_out mc)\<rparr>
         in Option.bind (man_read_loop junk process s mc) (\<lambda>r.
              Some (bind_result r (\<lambda>(lines, halt, s, mc).
                if halt then Inr (lines, True, s, man_reset_client_socket mc)
                else if lines \<noteq> []
                then bind_result (push_strings junk (mc_out mc) prompt) (\<lambda>out. Inr (lines, False, s, mc\<lparr>mc_out := out\<rparr>))
                else Inr (lines, False, s, mc))))))"

definition man_write ::
    "(nat \<Rightarrow> byte) \<Rightarrow> (byte list \<Rightarrow> int) \<Rightarrow> man_connection \<Rightarrow> (byte list \<times> byte list \<times> man_connection) result" where
  \<comment> \<open>the first results are the bytes offered to \<open>send\<close> and those that it took; a
     negative result of \<open>send\<close> stands for one that \<open>man_io_error\<close> lets pass\<close>
  "man_write junk send mc =
     (let size_hint = 1024;
          out = buffer_list_aggregate junk (mc_out mc) size_hint;
          mc = mc\<lparr>mc_out := out\<rparr>
      in case buffer_list_peek out of
           None \<Rightarrow> Inr ([], [], mc)
         | Some b \<Rightarrow>
             if buf_len b \<noteq> 0
             then (let offered = take (nat (min size_hint (buf_len b))) (buf_contents b);
                       sent = send offered
                   in if sent \<ge> 0
                      then bind_result (buffer_list_advance out sent) (\<lambda>out.
                             Inr (offered, take (nat sent) offered, mc\<lparr>mc_out := out\<rparr>))
                      else Inr (offered, [], mc))
             else Inr ([], [], mc))"

section \<open>Cutting the input into lines\<close>

fun cut_lines :: "byte list \<Rightarrow> byte list \<Rightarrow> cstr list \<times> byte list" where
  \<comment> \<open>\<open>p\<close>: the unfinished line so far; the results are the complete lines and what follows the last of them\<close>
  "cut_lines p [] = ([], p)"
| "cut_lines p (c # cs) =
     (if c = 10 then (case cut_lines [] cs of (ls, q) \<Rightarrow> (p # ls, q)) else cut_lines (p @ [c]) cs)"

definition command_chars :: "byte list \<Rightarrow> byte list" where
  "command_chars bytes = filter (\<lambda>c. c \<noteq> 0 \<and> (isprint c \<or> c = 10)) bytes"

lemma cut_lines_none: "10 \<notin> set cs \<Longrightarrow> cut_lines p cs = ([], p @ cs)"
  by (induction cs arbitrary: p) auto

lemma cut_lines_some: "10 \<notin> set l \<Longrightarrow> cut_lines p (l @ 10 # cs) = ((p @ l) # fst (cut_lines [] cs), snd (cut_lines [] cs))"
  by (induction l arbitrary: p) (auto simp: case_prod_beta)

lemma cut_lines_prefix: "10 \<notin> set p \<Longrightarrow> cut_lines [] (p @ cs) = cut_lines p cs"
proof (induction p arbitrary: cs rule: rev_induct)
  case (snoc c p)
  then have "cut_lines [] ((p @ [c]) @ cs) = cut_lines p (c # cs)" by simp
  with snoc show ?case by simp
qed simp

lemma cut_lines_partial: "10 \<notin> set p \<Longrightarrow> 10 \<notin> set (snd (cut_lines p cs))"
  by (induction p cs rule: cut_lines.induct) (auto simp: case_prod_beta)

lemma cut_lines_append:
  "cut_lines p (a @ b) =
     (case cut_lines p a of (ls, q) \<Rightarrow> case cut_lines q b of (ls', r) \<Rightarrow> (ls @ ls', r))"
  by (induction p a rule: cut_lines.induct) (auto simp: case_prod_beta)

lemma command_chars_append: "command_chars (a @ b) = command_chars a @ command_chars b"
  by (simp add: command_chars_def)

lemma command_chars_props: "c \<in> set (command_chars cs) \<Longrightarrow> c \<noteq> 0 \<and> c \<noteq> 13"
  by (auto simp: command_chars_def isprint_def)

section \<open>The line reader\<close>

definition cl_holds :: "int \<Rightarrow> byte list \<Rightarrow> command_line \<Rightarrow> bool" where
  "cl_holds n p cl \<longleftrightarrow> buf_ok (cl_buf cl) \<and> b_capacity (cl_buf cl) = n \<and> b_offset (cl_buf cl) = 0 \<and> buf_contents (cl_buf cl) = p
     \<and> buf_ok (cl_residual cl) \<and> b_capacity (cl_residual cl) = n \<and> b_offset (cl_residual cl) = 0
     \<and> buf_contents (cl_residual cl) = []"

lemma buf_clear_ok:
  assumes "buf_ok b"
  shows "buf_ok (buf_clear b)" "buf_contents (buf_clear b) = []" "b_capacity (buf_clear b) = b_capacity b"
    "b_offset (buf_clear b) = 0"
proof -
  show ok: "buf_ok (buf_clear b)"
    using assms by (auto simp: buf_ok_def buf_clear_def buf_block_def Let_def mem_write_def split: option.splits)
  show "b_capacity (buf_clear b) = b_capacity b" "b_offset (buf_clear b) = 0" by (simp_all add: buf_clear_def Let_def)
  have "b_len (buf_clear b) = 0" by (simp add: buf_clear_def Let_def)
  then show "buf_contents (buf_clear b) = []" using length_buf_contents [OF ok] by simp
qed

lemma buf_room_offset_0:
  assumes "buf_ok b" "b_offset b = 0" "b_capacity b = n"
  shows "int (buf_room b) = n - int (length (buf_contents b))"
  using buf_room_eq [OF assms(1)] length_buf_contents [OF assms(1)] assms(2,3) by simp

lemma command_line_new_ok:
  assumes "0 \<le> n" "n < BUF_SIZE_MAX"
  shows "\<exists>cl. command_line_new junk n = Inr cl \<and> cl_holds n [] cl"
proof -
  obtain b where b: "alloc_buf junk n = Inr b" "buf_ok b" "b_capacity b = n" "b_offset b = 0" "b_len b = 0"
    using alloc_buf_ok [OF assms] by blast
  then have "buf_contents b = []" using length_buf_contents [OF b(2)] by (metis length_0_conv of_nat_eq_0_iff)
  with b show ?thesis by (simp add: command_line_new_def cl_holds_def)
qed

lemma command_line_reset_ok: "cl_holds n p cl \<Longrightarrow> cl_holds n [] (command_line_reset cl)"
  by (simp add: cl_holds_def command_line_reset_def buf_clear_ok)

lemma command_line_add_ok:
  assumes "cl_holds n p cl" "int (length (p @ command_chars bytes)) \<le> n"
  shows "cl_holds n (p @ command_chars bytes) (command_line_add cl bytes)"
  using assms
proof (induction bytes arbitrary: p cl)
  case Nil
  then show ?case by (simp add: command_chars_def)
next
  case (Cons c bytes)
  show ?case
  proof (cases "c \<noteq> 0 \<and> (isprint c \<or> c = 10)")
    case False
    then have "command_chars (c # bytes) = command_chars bytes" "command_line_add cl (c # bytes) = command_line_add cl bytes"
      by (simp_all only: command_chars_def filter.simps command_line_add.simps Let_def if_False)
    with Cons show ?thesis by simp
  next
    case True
    then have cc: "command_chars (c # bytes) = c # command_chars bytes" by (simp add: command_chars_def)
    have b: "buf_ok (cl_buf cl)" "b_offset (cl_buf cl) = 0" "b_capacity (cl_buf cl) = n" "buf_contents (cl_buf cl) = p"
      using Cons.prems(1) by (simp_all add: cl_holds_def)
    have "1 \<le> buf_room (cl_buf cl)"
      using buf_room_offset_0 [OF b(1-3)] b(4) Cons.prems(2) cc by simp
    then obtain b' where b': "buf_write (cl_buf cl) [c] = (True, b')" "buf_ok b'" "buf_contents b' = p @ [c]"
        "b_capacity b' = n" "b_offset b' = 0"
      using buf_write_full [OF b(1), of "[c]"] b by auto
    have "cl_holds n (p @ [c]) (cl\<lparr>cl_buf := b'\<rparr>)" using b' Cons.prems(1) by (simp add: cl_holds_def)
    from Cons.IH [OF this] Cons.prems(2) cc True b'(1) show ?thesis
      by (simp add: Let_def buf_write_u8_def)
  qed
qed

lemma buf_copy_excess_ok:
  assumes d: "buf_ok d" and s: "buf_ok s" and k: "k \<le> length (buf_contents s)"
    and room: "length (buf_contents s) - k \<le> buf_room d"
  shows "\<exists>d' s'. buf_copy_excess d s (int k) = (True, d', s') \<and> buf_ok d' \<and> buf_ok s'
    \<and> buf_contents d' = buf_contents d @ drop k (buf_contents s) \<and> buf_contents s' = take k (buf_contents s)
    \<and> b_capacity d' = b_capacity d \<and> b_offset d' = b_offset d \<and> b_capacity s' = b_capacity s \<and> b_offset s' = b_offset s"
proof (cases "b_len s > int k")
  case False
  then have "length (buf_contents s) = k" using length_buf_contents [OF s] k by linarith
  with False d s show ?thesis by (simp add: buf_copy_excess_def)
next
  case True
  obtain b where b: "buf_advance s (int k) = (True, b)" "buf_ok b" "buf_contents b = drop k (buf_contents s)"
    using buf_advance_ok [OF s, of "int k"] True by auto
  obtain d' where d': "buf_write d (drop k (buf_contents s)) = (True, d')" "buf_ok d'"
      "buf_contents d' = buf_contents d @ drop k (buf_contents s)" "b_capacity d' = b_capacity d" "b_offset d' = b_offset d"
    using buf_write_full [OF d, of "drop k (buf_contents s)"] room by auto
  let ?s = "s\<lparr>b_len := int k\<rparr>"
  have ok: "buf_ok ?s" using s True by (auto simp: buf_ok_def)
  have "nat (b_len s) = k + (nat (b_len s) - k)" using True by linarith
  then have "buf_contents ?s = take k (buf_contents s)"
    using s ok mem_read_take by (metis buf_contents_def buf_ok_len buffer.select_convs(2) buffer.select_convs(3)
        buffer.surjective buffer.update_convs(3) nat_int buf_block_update(1))
  with True b d' ok s show ?thesis by (simp add: buf_copy_excess_def buf_copy_def)
qed

lemma command_line_get_none:
  assumes "cl_holds n p cl" "10 \<notin> set p"
  shows "command_line_get cl = (None, cl)"
proof -
  have "buf_substring_len (cl_buf cl) 10 = - 1"
    using buf_substring_len_eq [of "cl_buf cl" 10] assms by (simp add: cl_holds_def)
  then show ?thesis by (simp add: command_line_get_def)
qed

lemma chomped_line: "l \<noteq> [] \<Longrightarrow> last l \<noteq> 0 \<and> last l \<noteq> 10 \<and> last l \<noteq> 13 \<Longrightarrow> chomped l = l"
  by (cases l rule: rev_cases) auto

lemma command_line_get_some:
  assumes cl: "cl_holds n (l @ 10 # rest) cl" and l: "\<forall>c \<in> set l. c \<noteq> 0 \<and> c \<noteq> 10 \<and> c \<noteq> 13"
    and n: "int (length (l @ 10 # rest)) \<le> n"
  shows "\<exists>cl'. command_line_get cl = (Some l, cl') \<and> cl_holds n rest (command_line_next cl')"
proof -
  let ?b = "cl_buf cl" and ?r = "cl_residual cl" and ?k = "Suc (length l)"
  have b: "buf_ok ?b" "b_capacity ?b = n" "b_offset ?b = 0" "buf_contents ?b = l @ 10 # rest"
    and r: "buf_ok ?r" "b_capacity ?r = n" "b_offset ?r = 0" "buf_contents ?r = []"
    using cl by (simp_all add: cl_holds_def)
  have "takeWhile (\<lambda>c. c \<noteq> 10) (l @ 10 # rest) = l" using l by (auto simp: takeWhile_tail takeWhile_eq_all_conv)
  then have i: "buf_substring_len ?b 10 = int ?k"
    using buf_substring_len_eq [OF b(1), of 10] b(4) by simp
  have "length (buf_contents ?b) - ?k \<le> buf_room ?r"
    using buf_room_offset_0 [OF r(1,3,2)] r(4) b(4) n by simp
  then obtain r' b' where e: "buf_copy_excess ?r ?b (int ?k) = (True, r', b')" "buf_ok r'" "buf_ok b'"
      "buf_contents r' = rest" "buf_contents b' = l @ [10]" "b_capacity r' = n" "b_offset r' = 0" "b_capacity b' = n" "b_offset b' = 0"
    using buf_copy_excess_ok [OF r(1) b(1), of ?k] b(2-4) r(2-4) by auto
  have "chomped (l @ [10]) = l" using l by (cases "l = []") (simp_all add: chomped_line, simp add: chomped_def)
  with e(5) have ch: "chomped (buf_contents b') = l" by simp
  have c: "buf_ok (buf_chomp b')" "buf_contents (buf_chomp b') = l @ [0]" "b_capacity (buf_chomp b') = n" "b_offset (buf_chomp b') = 0"
    using buf_chomp_ok [OF e(3)] ch e(8,9) n by auto
  have "cstr_of (l @ [0]) = l" using cstr_of_append [of l "[]"] l by auto
  then have "command_line_get cl = (Some l, \<lparr>cl_buf = buf_chomp b', cl_residual = r'\<rparr>)"
    using i e(1) c(2) by (simp add: command_line_get_def Let_def)
  moreover have "cl_holds n rest (command_line_next \<lparr>cl_buf = buf_chomp b', cl_residual = r'\<rparr>)"
  proof -
    note z = buf_clear_ok [OF c(1)]
    have "length rest \<le> buf_room (buf_clear (buf_chomp b'))"
      using buf_room_offset_0 [OF z(1,4)] z(2,3) c(3) n by simp
    then obtain b2 where "buf_write (buf_clear (buf_chomp b')) rest = (True, b2)" "buf_ok b2" "buf_contents b2 = rest"
        "b_capacity b2 = n" "b_offset b2 = 0"
      using buf_write_full [OF z(1), of rest] z(2-4) c(3) by auto
    then show ?thesis using e(2,4,6) by (simp add: command_line_next_def cl_holds_def buf_copy_def Let_def buf_clear_ok)
  qed
  ultimately show ?thesis by blast
qed

section \<open>Output\<close>

definition strings_ok :: "int \<Rightarrow> cstr list \<Rightarrow> bool" where
  "strings_ok p strs \<longleftrightarrow> (\<forall>str \<in> set strs. int (length str) \<le> p)"

lemma push_strings_ok:
  assumes "bl_ok m p out" "strings_ok p strs" "0 \<le> m" "p + 1 < BUF_SIZE_MAX"
  shows "\<exists>out'. push_strings junk out strs = Inr out' \<and> bl_ok m p out' \<and> bl_stream out' = bl_stream out @ concat strs"
  using assms(1,2)
proof (induction strs arbitrary: out)
  case (Cons str strs)
  obtain o1 where o1: "buffer_list_push junk out str = Inr o1" "bl_ok m p o1" "bl_stream o1 = bl_stream out @ str"
    using buffer_list_push_ok [OF Cons.prems(1) _ assms(3,4), of str junk] Cons.prems(2) by (auto simp: strings_ok_def)
  have "strings_ok p strs" using Cons.prems(2) by (simp add: strings_ok_def)
  from Cons.IH [OF o1(2) this] o1(1,3) show ?case by (auto simp: man_output_list_push_str_def)
qed simp

lemma take_take_le: "k \<le> length (take n xs) \<Longrightarrow> take k (take n xs) = take k xs"
  by (simp add: min_def split: if_splits)

lemma append_eq_append_conv2_drop:
  assumes "k \<le> length xs"
  shows "xs @ ys = take k xs @ zs \<longleftrightarrow> zs = drop k xs @ ys"
proof -
  have "xs @ ys = take k xs @ (drop k xs @ ys)" by simp
  then show ?thesis by (metis same_append_eq)
qed

lemma man_write_ok:
  assumes out: "bl_ok 1024 p (mc_out mc)" and p: "0 \<le> p" "1024 + p < BUF_SIZE_MAX"
    and send: "\<And>bs. send bs \<le> int (length bs)"
  shows "\<exists>offered rest mc'.
      man_write junk send mc = Inr (offered, take (nat (send offered)) offered, mc')
    \<and> mc_in mc' = mc_in mc \<and> bl_ok 1024 p (mc_out mc') \<and> bl_stream (mc_out mc) = offered @ rest
    \<and> bl_stream (mc_out mc') = drop (nat (send offered)) offered @ rest
    \<and> (bl_stream (mc_out mc) \<noteq> [] \<longrightarrow> offered \<noteq> []) \<and> length offered \<le> 1024"
proof -
  let ?out = "buffer_list_aggregate junk (mc_out mc) 1024"
  have agg: "bl_ok 1024 p ?out" "bl_stream ?out = bl_stream (mc_out mc)"
      "bl_stream (mc_out mc) \<noteq> [] \<longrightarrow> 0 < b_len (hd (bl_entries ?out))"
    using buffer_list_aggregate_ok [OF out _ p, of junk] by simp_all
  show ?thesis
  proof (cases "bl_entries ?out")
    case Nil
    then have "bl_stream (mc_out mc) = []" unfolding agg(2) [symmetric] by (simp add: bl_stream_def)
    then show ?thesis using Nil agg(1,2) by (simp add: man_write_def Let_def buffer_list_peek_def)
  next
    case (Cons b bs)
    have bok: "buf_ok b" using agg(1) Cons by (simp add: bl_ok_def)
    let ?offered = "take (nat (min 1024 (buf_len b))) (buf_contents b)"
    have len: "length (buf_contents b) = nat (b_len b)" "0 \<le> b_len b" using bok by (simp_all add: buf_ok_def)
    have st: "bl_stream (mc_out mc) = buf_contents b @ concat (map buf_contents bs)"
      unfolding agg(2) [symmetric] using Cons by (simp add: bl_stream_def)
    show ?thesis
    proof (cases "b_len b = 0")
      case True
      then have "bl_stream (mc_out mc) = []" using agg(3) Cons by auto
      then show ?thesis using True Cons agg(1,2) bok by (simp add: man_write_def Let_def buffer_list_peek_def)
    next
      case False
      have "length ?offered \<noteq> 0" unfolding length_take len(1) using False len(2) bok by simp
      then have ne: "?offered \<noteq> []" by (metis length_0_conv)
      have pre: "buf_contents b = ?offered @ drop (nat (min 1024 (buf_len b))) (buf_contents b)" by simp
      let ?rest = "drop (nat (min 1024 (buf_len b))) (buf_contents b) @ concat (map buf_contents bs)"
      have st2: "bl_stream (mc_out mc) = ?offered @ ?rest" unfolding st by (simp flip: append_assoc)
      show ?thesis
      proof (cases "0 \<le> send ?offered")
        case neg: False
        then have "man_write junk send mc = Inr (?offered, [], mc\<lparr>mc_out := ?out\<rparr>)"
          using Cons False bok by (simp add: man_write_def Let_def buffer_list_peek_def)
        then show ?thesis using neg st2 ne agg(1,2) by (intro exI [of _ ?offered] exI [of _ ?rest]) simp
      next
        case pos: True
        have le: "send ?offered \<le> b_len b" using send [of ?offered] len by simp
        obtain o1 where o1: "buffer_list_advance ?out (send ?offered) = Inr o1" "bl_ok 1024 p o1"
            "bl_stream ?out = take (nat (send ?offered)) (buf_contents b) @ bl_stream o1"
          using buffer_list_advance_ok [OF agg(1) Cons pos le] by auto
        have wr: "man_write junk send mc = Inr (?offered, take (nat (send ?offered)) ?offered, mc\<lparr>mc_out := o1\<rparr>)"
          using Cons False pos bok o1(1) by (simp add: man_write_def Let_def buffer_list_peek_def)
        have k: "nat (send ?offered) \<le> length ?offered" using send [of ?offered] by linarith
        have "?offered @ ?rest = take (nat (send ?offered)) ?offered @ bl_stream o1"
          unfolding take_take_le [OF k] st2 [symmetric] agg(2) [symmetric] by (rule o1(3))
        then have "bl_stream o1 = drop (nat (send ?offered)) ?offered @ ?rest"
          by (simp only: append_eq_append_conv2_drop [OF k])
        then show ?thesis using wr st2 ne o1(2) by (intro exI [of _ ?offered] exI [of _ ?rest]) simp
      qed
    qed
  qed
qed

section \<open>Any sequence of reads and writes\<close>

fun run_lines :: "('s \<Rightarrow> cstr \<Rightarrow> 's \<times> cstr list \<times> bool) \<Rightarrow> 's \<Rightarrow> cstr list \<Rightarrow> cstr list \<times> bool \<times> 's \<times> cstr list" where
  \<comment> \<open>the lines up to the one that halts, and all strings that they push\<close>
  "run_lines process s [] = ([], False, s, [])"
| "run_lines process s (l # ls) =
     (case process s l of (s, strs, halt) \<Rightarrow>
        if halt then ([l], True, s, strs)
        else (case run_lines process s ls of (ls', halt, s, strs') \<Rightarrow> (l # ls', halt, s, strs @ strs')))"

datatype man_op =
    Man_Read "byte list"             \<comment> \<open>the client sent these bytes\<close>
  | Man_Write "byte list \<Rightarrow> int"      \<comment> \<open>the socket is writable\<close>

datatype man_out = Lines "cstr list" | Sent "byte list" "byte list"

fun man_run ::
    "(nat \<Rightarrow> byte) \<Rightarrow> ('s \<Rightarrow> cstr \<Rightarrow> 's \<times> cstr list \<times> bool) \<Rightarrow> cstr list \<Rightarrow> 's \<Rightarrow> man_connection \<Rightarrow> man_op list \<Rightarrow>
       man_out list result option" where
  \<comment> \<open>the run ends when a command halts the connection\<close>
  "man_run junk process prompt s mc [] = Some (Inr [])"
| "man_run junk process prompt s mc (Man_Read bytes # ops) =
     Option.bind (man_read junk process prompt s mc bytes) (\<lambda>r.
       case r of
         Inl e \<Rightarrow> Some (Inl e)
       | Inr (lines, halt, s, mc) \<Rightarrow>
           if halt then Some (Inr [Lines lines])
           else Option.bind (man_run junk process prompt s mc ops) (\<lambda>r. Some (bind_result r (\<lambda>outs. Inr (Lines lines # outs)))))"
| "man_run junk process prompt s mc (Man_Write send # ops) =
     (case man_write junk send mc of
        Inl e \<Rightarrow> Some (Inl e)
      | Inr (offered, sent, mc) \<Rightarrow>
          Option.bind (man_run junk process prompt s mc ops) (\<lambda>r. Some (bind_result r (\<lambda>outs. Inr (Sent offered sent # outs)))))"

fun man_spec ::
    "('s \<Rightarrow> cstr \<Rightarrow> 's \<times> cstr list \<times> bool) \<Rightarrow> cstr list \<Rightarrow> 's \<Rightarrow> byte list \<Rightarrow> byte list \<Rightarrow> man_op list \<Rightarrow> man_out list \<Rightarrow> bool" where
  \<comment> \<open>\<open>p\<close>: the unfinished line; \<open>pend\<close>: the output that is still to be sent\<close>
  "man_spec process prompt s p pend [] outs \<longleftrightarrow> outs = []"
| "man_spec process prompt s p pend (Man_Read bytes # ops) outs \<longleftrightarrow>
     (case cut_lines p (command_chars bytes) of (ls, q) \<Rightarrow>
        case run_lines process s ls of (done_ls, halt, s, strs) \<Rightarrow>
          if halt then outs = [Lines done_ls]
          else \<exists>outs'. outs = Lines done_ls # outs' \<and>
            man_spec process prompt s q (concat strs @ (if done_ls \<noteq> [] then concat prompt else [])) ops outs')"
| "man_spec process prompt s p pend (Man_Write send # ops) outs \<longleftrightarrow>
     (\<exists>offered rest outs'. outs = Sent offered (take (nat (send offered)) offered) # outs' \<and> pend = offered @ rest
        \<and> (pend \<noteq> [] \<longrightarrow> offered \<noteq> []) \<and> man_spec process prompt s p (drop (nat (send offered)) offered @ rest) ops outs')"

fun man_valid :: "byte list \<Rightarrow> man_op list \<Rightarrow> bool" where
  \<comment> \<open>\<open>recv\<close> fills a buffer of 256 bytes, no unfinished line is longer than 768 bytes, and the socket
     takes no more than it is offered\<close>
  "man_valid p [] \<longleftrightarrow> True"
| "man_valid p (Man_Read bytes # ops) \<longleftrightarrow>
     length bytes \<le> 256 \<and> length (snd (cut_lines p (command_chars bytes))) \<le> 768 \<and>
     man_valid (snd (cut_lines p (command_chars bytes))) ops"
| "man_valid p (Man_Write send # ops) \<longleftrightarrow> (\<forall>bs. send bs \<le> int (length bs)) \<and> man_valid p ops"

lemma man_read_loop_ok:
  assumes cl: "cl_holds n p (mc_in mc)" and p: "int (length p) \<le> n" "\<forall>c \<in> set p. c \<noteq> 0 \<and> c \<noteq> 13"
    and out: "bl_ok m k (mc_out mc)" "0 \<le> m" "k + 1 < BUF_SIZE_MAX"
    and proc: "\<And>s l. strings_ok k (fst (snd (process s l)))"
    and cut: "cut_lines [] p = (ls, q)" and run: "run_lines process s ls = (done_ls, halt, s', strs)"
  shows "\<exists>mc'. man_read_loop junk process s mc = Some (Inr (done_ls, halt, s', mc'))
    \<and> bl_ok m k (mc_out mc') \<and> bl_stream (mc_out mc') = bl_stream (mc_out mc) @ concat strs
    \<and> (\<not> halt \<longrightarrow> cl_holds n q (mc_in mc'))"
  using cl p out(1) cut run
proof (induction ls arbitrary: p mc s done_ls strs)
  case Nil
  have "10 \<notin> set p"
  proof
    assume "10 \<in> set p"
    then obtain l rest where "p = l @ 10 # rest" "10 \<notin> set l" by (meson split_list_first)
    with cut_lines_some [of l "[]" rest] Nil.prems(5) show False by simp
  qed
  then have "q = p" "command_line_get (mc_in mc) = (None, mc_in mc)"
    using cut_lines_none Nil.prems(5) command_line_get_none [OF Nil.prems(1)] by auto
  then show ?case using Nil.prems by (subst man_read_loop.simps) simp
next
  case (Cons l ls)
  have "10 \<in> set p" using cut_lines_none [of p "[]"] Cons.prems(5) by auto
  then obtain l' rest where p: "p = l' @ 10 # rest" "10 \<notin> set l'" by (meson split_list_first)
  then have l: "l' = l" and rest: "cut_lines [] rest = (ls, q)"
    using cut_lines_some [of l' "[]" rest] Cons.prems(5) by (simp_all add: prod_eq_iff)
  have lp: "\<forall>c \<in> set l. c \<noteq> 0 \<and> c \<noteq> 10 \<and> c \<noteq> 13" using p Cons.prems(3) l by auto
  obtain cl' where get: "command_line_get (mc_in mc) = (Some l, cl')" "cl_holds n rest (command_line_next cl')"
    using command_line_get_some [of n l rest "mc_in mc"] Cons.prems(1,2) lp p(1) l by auto
  obtain s1 strs1 h where pr: "process s l = (s1, strs1, h)" by (cases "process s l") auto
  then have "strings_ok k strs1" using proc [of s l] by simp
  then obtain o1 where o1: "push_strings junk (mc_out mc) strs1 = Inr o1" "bl_ok m k o1"
      "bl_stream o1 = bl_stream (mc_out mc) @ concat strs1"
    using push_strings_ok [OF Cons.prems(4) _ out(2,3)] by blast
  show ?case
  proof (cases h)
    case True
    then have "done_ls = [l]" "halt" "s' = s1" "strs = strs1" using Cons.prems(6) pr by simp_all
    with True get(1) pr o1 show ?thesis by (subst man_read_loop.simps) simp
  next
    case False
    obtain ls' h' s2 strs2 where r: "run_lines process s1 ls = (ls', h', s2, strs2)" by (cases "run_lines process s1 ls") auto
    then have d: "done_ls = l # ls'" "halt = h'" "s' = s2" "strs = strs1 @ strs2" using Cons.prems(6) pr False by simp_all
    let ?mc = "mc\<lparr>mc_in := command_line_next cl', mc_out := o1\<rparr>"
    have "int (length rest) \<le> n" "\<forall>c \<in> set rest. c \<noteq> 0 \<and> c \<noteq> 13" using Cons.prems(2,3) p(1) by auto
    with Cons.IH [of rest ?mc s1 ls' strs2] get(2) o1(2) rest r d(2,3)
    obtain mc' where "man_read_loop junk process s1 ?mc = Some (Inr (ls', halt, s', mc'))" "bl_ok m k (mc_out mc')"
        "bl_stream (mc_out mc') = bl_stream o1 @ concat strs2" "\<not> halt \<longrightarrow> cl_holds n q (mc_in mc')" by auto
    with False get(1) pr o1(1,3) d show ?thesis by (subst man_read_loop.simps) simp
  qed
qed

lemma run_lines_strings:
  assumes "\<And>s l. strings_ok k (fst (snd (process s l)))" "run_lines process s ls = (a, h, s', strs)"
  shows "strings_ok k strs"
  using assms(2)
proof (induction ls arbitrary: s a strs)
  case (Cons l ls)
  obtain s1 strs1 h1 where pr: "process s l = (s1, strs1, h1)" by (cases "process s l") auto
  then have ok: "strings_ok k strs1" using assms(1) [of s l] by simp
  obtain a2 h2 s2 strs2 where r: "run_lines process s1 ls = (a2, h2, s2, strs2)" by (cases "run_lines process s1 ls") auto
  show ?case
  proof (cases h1)
    case True
    then show ?thesis using Cons.prems pr ok by simp
  next
    case False
    then have "strs = strs1 @ strs2" "h = h2" "s' = s2" using Cons.prems pr r by simp_all
    with Cons.IH [of s1 a2 strs2] r ok show ?thesis by (auto simp: strings_ok_def)
  qed
qed (simp add: strings_ok_def)

lemma run_lines_Nil: "run_lines process s ls = (a, h, s', strs) \<Longrightarrow> a = [] \<longleftrightarrow> ls = []"
  by (cases ls) (auto split: prod.splits if_splits)

lemma man_run_ok:
  assumes "cl_holds 1024 p (mc_in mc)" "length p \<le> 768" "10 \<notin> set p" "\<forall>c \<in> set p. c \<noteq> 0 \<and> c \<noteq> 13" "bl_ok 1024 k (mc_out mc)"
    and proc: "\<And>s l. strings_ok k (fst (snd (process s l)))" and prompt: "strings_ok k prompt"
    and k: "0 \<le> k" "1024 + k < BUF_SIZE_MAX" and "man_valid p ops"
  shows "\<exists>outs. man_run junk process prompt s mc ops = Some (Inr outs)
    \<and> man_spec process prompt s p (bl_stream (mc_out mc)) ops outs"
  using assms(1-5,10)
proof (induction ops arbitrary: p mc s)
  case (Cons op ops)
  have k1: "k + 1 < BUF_SIZE_MAX" using k by simp
  show ?case
  proof (cases op)
    case (Man_Read bytes)
    let ?cs = "command_chars bytes"
    obtain ls q where cut: "cut_lines p ?cs = (ls, q)" by fastforce
    have valid: "length bytes \<le> 256" "length q \<le> 768" "man_valid q ops" using Cons.prems(6) Man_Read cut by simp_all
    have "length ?cs \<le> length bytes" by (simp add: command_chars_def)
    then have len: "int (length (p @ ?cs)) \<le> 1024" using Cons.prems(2) valid(1) by simp
    have chars: "\<forall>c \<in> set (p @ ?cs). c \<noteq> 0 \<and> c \<noteq> 13" using Cons.prems(4) command_chars_props by auto
    let ?mc = "mc\<lparr>mc_in := command_line_add (mc_in mc) bytes, mc_out := buffer_list_reset (mc_out mc)\<rparr>"
    have cl: "cl_holds 1024 (p @ ?cs) (mc_in ?mc)" using command_line_add_ok [OF Cons.prems(1) len] by simp
    have out: "bl_ok 1024 k (mc_out ?mc)" "bl_stream (mc_out ?mc) = []"
      using Cons.prems(5) by (simp_all add: bl_ok_def buffer_list_reset_def bl_stream_def)
    have cut': "cut_lines [] (p @ ?cs) = (ls, q)" using cut_lines_prefix [OF Cons.prems(3)] cut by simp
    obtain a h s1 strs where run: "run_lines process s ls = (a, h, s1, strs)" by (cases "run_lines process s ls") auto
    obtain mc1 where loop: "man_read_loop junk process s ?mc = Some (Inr (a, h, s1, mc1))" "bl_ok 1024 k (mc_out mc1)"
        "bl_stream (mc_out mc1) = concat strs" "\<not> h \<longrightarrow> cl_holds 1024 q (mc_in mc1)"
      using man_read_loop_ok [OF cl len chars out(1) _ k1 proc cut' run, of junk] out(2) by auto
    show ?thesis
    proof (cases h)
      case True
      then have "man_run junk process prompt s mc (op # ops) = Some (Inr [Lines a])"
        using loop(1) valid(1) Man_Read by (simp add: man_read_def Let_def)
      then show ?thesis using Man_Read cut run True by simp
    next
      case False
      obtain o2 where o2: "push_strings junk (mc_out mc1) prompt = Inr o2" "bl_ok 1024 k o2"
          "bl_stream o2 = concat strs @ concat prompt"
        using push_strings_ok [OF loop(2) prompt _ k1, of junk] loop(3) by auto
      let ?mc2 = "if a \<noteq> [] then mc1\<lparr>mc_out := o2\<rparr> else mc1"
      have rd: "man_read junk process prompt s mc bytes = Some (Inr (a, False, s1, ?mc2))"
        using loop(1) valid(1) o2(1) False by (simp add: man_read_def Let_def)
      have q: "10 \<notin> set q" "\<forall>c \<in> set q. c \<noteq> 0 \<and> c \<noteq> 13"
      proof -
        show "10 \<notin> set q" using cut_lines_partial [OF Cons.prems(3), of ?cs] cut by simp
        have "set (snd (cut_lines p cs)) \<subseteq> set p \<union> set cs" for p cs
          by (induction p cs rule: cut_lines.induct) (auto simp: case_prod_beta)
        from this [of p ?cs] show "\<forall>c \<in> set q. c \<noteq> 0 \<and> c \<noteq> 13" using chars cut by auto
      qed
      have st: "bl_stream (mc_out ?mc2) = concat strs @ (if a \<noteq> [] then concat prompt else [])"
        using loop(3) o2(3) by simp
      have "cl_holds 1024 q (mc_in ?mc2)" "bl_ok 1024 k (mc_out ?mc2)" using loop(2,4) o2(2) False by simp_all
      from Cons.IH [OF this(1) valid(2) q this(2) valid(3), of s1] obtain outs where
        "man_run junk process prompt s1 ?mc2 ops = Some (Inr outs)"
        "man_spec process prompt s1 q (bl_stream (mc_out ?mc2)) ops outs" by blast
      then show ?thesis using Man_Read rd cut run False unfolding st
        by (intro exI [of _ "Lines a # outs"]) (simp del: man_spec.simps(1,3) split del: if_split)
    qed
  next
    case (Man_Write send)
    then have send: "send bs \<le> int (length bs)" for bs using Cons.prems(6) by simp
    obtain offered rest mc1 where w: "man_write junk send mc = Inr (offered, take (nat (send offered)) offered, mc1)"
        "mc_in mc1 = mc_in mc" "bl_ok 1024 k (mc_out mc1)" "bl_stream (mc_out mc) = offered @ rest"
        "bl_stream (mc_out mc1) = drop (nat (send offered)) offered @ rest"
        "bl_stream (mc_out mc) \<noteq> [] \<longrightarrow> offered \<noteq> []"
      using man_write_ok [OF Cons.prems(5) k send] by blast
    have cl: "cl_holds 1024 p (mc_in mc1)" and valid: "man_valid p ops"
      using w(2) Cons.prems(1,6) Man_Write by simp_all
    from Cons.IH [OF cl Cons.prems(2-4) w(3) valid, of s] obtain outs where
      "man_run junk process prompt s mc1 ops = Some (Inr outs)"
      "man_spec process prompt s p (bl_stream (mc_out mc1)) ops outs" by blast
    then show ?thesis using Man_Write w(1,4,5,6)
      by (intro exI [of _ "Sent offered (take (nat (send offered)) offered) # outs"]) auto
  qed
qed simp

definition man_connection_init :: "(nat \<Rightarrow> byte) \<Rightarrow> man_connection result" where
  \<comment> \<open>the buffers of \<open>man_connection_init\<close>\<close>
  "man_connection_init junk =
     bind_result (command_line_new junk 1024) (\<lambda>cl. Inr \<lparr>mc_in = cl, mc_out = buffer_list_new 0\<rparr>)"

text \<open>C32. The management connection, for any commands, any chunking of the client's bytes and any partial
  sends: the lines processed are the lines of the printable input in order, each once, however the
  input is cut into reads; what is offered to the socket is always the beginning of the output not
  yet sent, and something is offered whenever there is output; nothing is lost, repeated or
  reordered, except that a read drops the output that is still pending.  No step aborts, and no
  read loops for ever.  (Up to 768 bytes for an unfinished line.)\<close>

theorem management_io_spec:
  assumes "\<And>s l. \<forall>str \<in> set (fst (snd (process s l))). length str \<le> 900000" "\<forall>str \<in> set prompt. length str \<le> 900000"
    and "man_valid [] ops"
  shows "\<exists>mc outs. man_connection_init junk = Inr mc \<and> man_run junk process prompt s mc ops = Some (Inr outs)
    \<and> man_spec process prompt s [] [] ops outs"
proof -
  obtain cl where cl: "command_line_new junk 1024 = Inr cl" "cl_holds 1024 [] cl"
    using command_line_new_ok [of 1024 junk] by (auto simp: BUF_SIZE_MAX_def)
  let ?mc = "\<lparr>mc_in = cl, mc_out = buffer_list_new 0\<rparr>"
  have strings: "strings_ok 900000 strs" if "\<forall>str \<in> set strs. length str \<le> 900000" for strs
    using that by (auto simp: strings_ok_def)
  have "bl_ok 1024 900000 (mc_out ?mc)" "bl_stream (mc_out ?mc) = []"
    by (simp_all add: bl_ok_def buffer_list_new_def bl_stream_def)
  then obtain outs where "man_run junk process prompt s ?mc ops = Some (Inr outs)" "man_spec process prompt s [] [] ops outs"
    using man_run_ok [of "[]" ?mc 900000 process prompt ops junk s] cl(2) strings [OF assms(1)] strings [OF assms(2)] assms(3)
    by (auto simp: BUF_SIZE_MAX_def)
  then show ?thesis using cl(1) by (auto simp: man_connection_init_def)
qed

theorem management_io_spec_witness:
  fixes process :: "nat \<Rightarrow> cstr \<Rightarrow> nat \<times> cstr list \<times> bool"
  defines "process \<equiv> (\<lambda>s l. (s + 1, [[111, 107, 10]], l = [113]))"
  defines "ops \<equiv> [Man_Read [104, 105], Man_Read [9, 10, 120, 10, 104], Man_Write (\<lambda>bs. min 3 (int (length bs))), Man_Read [10, 113, 10]]"
  shows "\<exists>mc a. man_connection_init (\<lambda>_. 0) = Inr mc
    \<and> man_run (\<lambda>_. 0) process [[62]] 0 mc ops = Some (Inr [Lines [], Lines [[104, 105], [120]], a, Lines [[104], [113]]])"
proof -
  have ch: "command_chars [104, 105] = [104, 105]" "command_chars [9, 10, 120, 10, 104] = [10, 120, 10, 104]"
    "command_chars [10, 113, 10] = [10, 113, 10]"
    by (simp_all add: command_chars_def isprint_def)
  have "\<And>s l. \<forall>str \<in> set (fst (snd (process s l))). length str \<le> 900000" "\<forall>str \<in> set [[62 :: byte]]. length str \<le> 900000"
    by (simp_all add: process_def)
  moreover have "man_valid [] ops" by (simp add: ops_def ch)
  ultimately obtain mc outs where r: "man_connection_init (\<lambda>_. 0) = Inr mc" "man_run (\<lambda>_. 0) process [[62]] 0 mc ops = Some (Inr outs)"
      and spec: "man_spec process [[62]] 0 [] [] ops outs"
    using management_io_spec [of process "[[62]]" ops "\<lambda>_. 0" 0] by blast
  from spec obtain a where "outs = [Lines [], Lines [[104, 105], [120]], a, Lines [[104], [113]]]"
    by (auto simp: ops_def ch process_def)
  with r show ?thesis by blast
qed

end
