(* ===== verification/Status.thy ===== *)
theory Status
  imports Buf_Strings
begin

text \<open>
  Status files (status.h, status.c), which the server writes and reads back.

  An open file is its bytes and the position of the descriptor; \<open>read\<close> and \<open>write\<close> on it are
  complete, as for a regular file on a disk with room.  The arguments of \<open>status_printf\<close> are the
  formatted string.  The refresh timer and the output to the log are left out.
\<close>

section \<open>State\<close>

definition STATUS_OUTPUT_READ :: u32 where "STATUS_OUTPUT_READ = push_bit 0 1"
definition STATUS_OUTPUT_WRITE :: u32 where "STATUS_OUTPUT_WRITE = push_bit 1 1"
definition STATUS_PRINTF_MAXLEN :: nat where "STATUS_PRINTF_MAXLEN = 512"

record status_output =
  so_flags :: u32
  so_fd :: "byte list option"   \<comment> \<open>the bytes of the file; \<open>None\<close> for \<open>fd < 0\<close>\<close>
  so_pos :: nat
  so_vout :: "cstr list option" \<comment> \<open>the lines given to \<open>vout->func\<close>\<close>
  so_read_buf :: buffer
  so_errors :: bool

section \<open>Operations\<close>

definition status_open :: "(nat \<Rightarrow> byte) \<Rightarrow> bool \<Rightarrow> byte list option \<Rightarrow> u32 \<Rightarrow> status_output result" where
  \<comment> \<open>the case of a file name; \<open>exists\<close>-or-not and permissions are in the arguments: the file can be
     opened or not, and has some bytes if it exists\<close>
  "status_open junk openable file flags =
     (let so = \<lparr>so_flags = flags, so_fd = None, so_pos = 0, so_vout = None, so_read_buf = clear_buf, so_errors = False\<rparr>
      in bind_result
           (if flags = STATUS_OUTPUT_WRITE then Inr (if openable then Some [] else None)
            else if flags = STATUS_OUTPUT_READ then Inr (if openable then file else None)
            else if flags = STATUS_OUTPUT_READ OR STATUS_OUTPUT_WRITE
            then Inr (if openable then Some (case file of None \<Rightarrow> [] | Some bs \<Rightarrow> bs) else None)
            else Inl AssertFailed)
           (\<lambda>fd. if fd \<noteq> None
                 then (if flags AND STATUS_OUTPUT_READ \<noteq> 0
                       then bind_result (alloc_buf junk 512) (\<lambda>b. Inr (so\<lparr>so_fd := fd, so_read_buf := b\<rparr>))
                       else Inr (so\<lparr>so_fd := fd\<rparr>))
                 else Inr (so\<lparr>so_errors := True\<rparr>)))"

definition status_rw_flags :: "status_output option \<Rightarrow> u32" where
  "status_rw_flags so = (case so of Some so \<Rightarrow> so_flags so | None \<Rightarrow> 0)"

definition status_reset :: "status_output \<Rightarrow> status_output" where
  "status_reset so = (if so_fd so \<noteq> None then so\<lparr>so_pos := 0\<rparr> else so)"

definition status_flush :: "status_output \<Rightarrow> status_output result" where
  "status_flush so =
     (case so_fd so of
        None \<Rightarrow> Inr so
      | Some bs \<Rightarrow>
          if so_flags so AND STATUS_OUTPUT_WRITE \<noteq> 0
          then (let so = so\<lparr>so_fd := Some (take (so_pos so) bs)\<rparr>
                in if buf_defined (so_read_buf so)
                   then (case buf_init (so_read_buf so) 0 of (ok, b) \<Rightarrow> assert_that ok (Inr (so\<lparr>so_read_buf := b\<rparr>)))
                   else Inr so)
          else Inr so)"

definition file_write :: "byte list \<Rightarrow> nat \<Rightarrow> byte list \<Rightarrow> byte list" where
  "file_write file pos bs = take pos file @ bs @ drop (pos + length bs) file"

definition status_printf :: "status_output \<Rightarrow> cstr \<Rightarrow> status_output" where
  "status_printf so str =
     (if so_flags so AND STATUS_OUTPUT_WRITE \<noteq> 0
      then (let buf = take (STATUS_PRINTF_MAXLEN - 1) str;
                so = (if length str \<ge> STATUS_PRINTF_MAXLEN then so\<lparr>so_errors := True\<rparr> else so);
                (so, buf) =
                  (case so_fd so of
                     None \<Rightarrow> (so, buf)
                   | Some file \<Rightarrow>
                       if \<not> so_errors so
                       then (so\<lparr>so_fd := Some (file_write file (so_pos so) (buf @ [10])), so_pos := so_pos so + length (buf @ [10])\<rparr>,
                             buf @ [10])
                       else (so, buf))
            in case so_vout so of
                 None \<Rightarrow> so
               | Some out \<Rightarrow> if \<not> so_errors so then so\<lparr>so_vout := Some (out @ [chomp buf])\<rparr> else so)
      else so)"

lemma buf_read_u8_len:
  "buf_read_u8 b = (c, b') \<Longrightarrow> c \<noteq> - 1 \<Longrightarrow> nat (b_len b') < nat (b_len b)"
  by (auto simp: buf_read_u8_def buf_advance_def buf_len_def split: if_splits)

function status_read_loop ::
    "byte list \<Rightarrow> nat \<Rightarrow> buffer \<Rightarrow> buffer \<Rightarrow> bool \<Rightarrow> (bool \<times> nat \<times> buffer \<times> buffer) result" where
  \<comment> \<open>the results are \<open>ret\<close>, the file position, \<open>so->read_buf\<close> and \<open>*buf\<close>\<close>
  "status_read_loop file pos rb b ret =
     (case buf_read_u8 rb of
        (c, rb1) \<Rightarrow>
          if c = - 1
          then (case buf_init rb1 0 of
                  (False, rb2) \<Rightarrow> Inl AssertFailed
                | (True, rb2) \<Rightarrow>
                    (let bs = take (nat (buf_forward_capacity rb2)) (drop pos file)
                     in if length bs \<le> 0 then Inr (ret, pos, rb2, b)
                        else (case buf_inc_len (buf_put rb2 (b_offset rb2) bs) (int (length bs)) of
                                (False, rb3) \<Rightarrow> Inl AssertFailed
                              | (True, rb3) \<Rightarrow> status_read_loop file (pos + length bs) rb3 b ret)))
          else if c = 13 then status_read_loop file pos rb1 b True
          else if c = 10 then Inr (True, pos, rb1, b)
          else status_read_loop file pos rb1 (snd (buf_write_u8 b c)) True)"
  by pat_completeness auto
termination
proof (relation "measure (\<lambda>(bytes, pos, rb, b, ret). 2 * (length bytes - pos) + nat (b_len rb))", goal_cases)
  case 2
  then show ?case
    by (auto simp: buf_inc_len_def buf_init_def split: if_splits)
qed (auto dest: buf_read_u8_len [OF sym])
declare status_read_loop.simps [simp del]

definition status_read :: "status_output \<Rightarrow> buffer \<Rightarrow> (bool \<times> status_output \<times> buffer) result" where
  "status_read so b =
     (case so_fd so of
        None \<Rightarrow> Inr (False, so, b)
      | Some file \<Rightarrow>
          if so_flags so AND STATUS_OUTPUT_READ \<noteq> 0
          then assert_that (buf_defined (so_read_buf so)) (assert_that (buf_defined b)
                 (bind_result (status_read_loop file (so_pos so) (so_read_buf so) b False) (\<lambda>(ret, pos, rb, b).
                    Inr (ret, so\<lparr>so_pos := pos, so_read_buf := rb\<rparr>, buf_null_terminate b))))
          else Inr (False, so, b))"


section \<open>Reading gives the lines of the file\<close>

definition unread :: "status_output \<Rightarrow> byte list" where
  "unread so = buf_contents (so_read_buf so) @ (case so_fd so of None \<Rightarrow> [] | Some bs \<Rightarrow> drop (so_pos so) bs)"

definition so_ok :: "status_output \<Rightarrow> bool" where
  "so_ok so \<longleftrightarrow> buf_ok (so_read_buf so) \<and> 0 < b_capacity (so_read_buf so)"

definition line_of :: "byte list \<Rightarrow> byte list" where
  "line_of r = takeWhile (\<lambda>c. c \<noteq> 10) r"

lemma refill:
  assumes "buf_ok rb" "length bs \<le> nat (b_capacity rb)"
  shows "\<exists>rb1 rb2. buf_init rb 0 = (True, rb1) \<and> nat (buf_forward_capacity rb1) = nat (b_capacity rb)
    \<and> buf_inc_len (buf_put rb1 (b_offset rb1) bs) (int (length bs)) = (True, rb2) \<and> buf_ok rb2
    \<and> buf_contents rb2 = bs \<and> b_capacity rb2 = b_capacity rb"
proof -
  have cap: "0 \<le> b_capacity rb" using assms(1) by (auto simp: buf_ok_def)
  let ?rb = "rb\<lparr>b_len := 0, b_offset := 0\<rparr>"
  have init: "buf_init rb 0 = (True, ?rb)" using assms(1) cap by (simp add: buf_init_def buf_ok_def)
  have ok: "buf_ok ?rb" using assms(1) cap by (simp add: buf_ok_def)
  have fc: "buf_forward_capacity ?rb = b_capacity rb" using ok cap by (simp add: buf_forward_capacity_def)
  let ?w = "(buf_put ?rb 0 bs)\<lparr>b_len := int (length bs)\<rparr>"
  have blk: "length (buf_block rb) = nat (b_capacity rb)" using assms(1) unfolding buf_ok_def by linarith
  have d: "b_data rb \<noteq> None" using assms(1) by (simp add: buf_ok_def)
  then have wblk: "buf_block ?w = mem_write (buf_block rb) 0 bs" by simp
  have lt: "int (length bs) < BUF_SIZE_MAX" using assms cap by (auto simp: buf_ok_def)
  have le: "int (length bs) \<le> b_capacity rb" using assms(2) cap by linarith
  have wok: "buf_ok ?w" using assms d blk wblk cap le by (simp add: buf_ok_def)
  have "buf_inc_len (buf_put ?rb 0 bs) (int (length bs)) = (True, ?w)"
    using assms cap d lt
    by (simp add: buf_inc_len_def buf_safe_bidir_def buf_valid_def buf_size_valid_signed_def BUF_SIZE_MAX_def Let_def)
  moreover have "buf_contents ?w = bs"
    using wok wblk blk assms(2) by (simp add: buf_contents_def)
  ultimately show ?thesis using init fc wok by (intro exI [of _ ?rb] exI [of _ ?w]) simp
qed

lemma status_read_loop_ok:
  assumes "buf_ok rb" "0 < b_capacity rb" "buf_ok b"
    and "length (filter (\<lambda>c. c \<noteq> 13) (line_of (buf_contents rb @ drop pos bytes))) \<le> buf_room b"
  shows "\<exists>pos' rb' b'. status_read_loop bytes pos rb b ret = Inr (ret \<or> buf_contents rb @ drop pos bytes \<noteq> [], pos', rb', b')
    \<and> buf_ok rb' \<and> b_capacity rb' = b_capacity rb \<and> buf_ok b' \<and> b_capacity b' = b_capacity b \<and> b_offset b' = b_offset b
    \<and> buf_contents b' = buf_contents b @ filter (\<lambda>c. c \<noteq> 13) (line_of (buf_contents rb @ drop pos bytes))
    \<and> buf_contents rb' @ drop pos' bytes =
        drop (Suc (length (line_of (buf_contents rb @ drop pos bytes)))) (buf_contents rb @ drop pos bytes)"
  using assms
proof (induction "2 * (length bytes - pos) + length (buf_contents rb)" arbitrary: pos rb b ret rule: less_induct)
  case less
  let ?r = "buf_contents rb @ drop pos bytes"
  show ?case
  proof (cases "buf_contents rb")
    case Nil
    have rd: "buf_read_u8 rb = (- 1, rb)" by (rule buf_read_u8_Nil [OF less.prems(1) Nil])
    let ?n = "nat (b_capacity rb)" let ?bs = "take ?n (drop pos bytes)"
    have "length ?bs \<le> ?n" by simp
    from refill [OF less.prems(1) this] obtain rb1 rb2 where rb: "buf_init rb 0 = (True, rb1)"
        "nat (buf_forward_capacity rb1) = ?n" "buf_inc_len (buf_put rb1 (b_offset rb1) ?bs) (int (length ?bs)) = (True, rb2)"
        "buf_ok rb2" "buf_contents rb2 = ?bs" "b_capacity rb2 = b_capacity rb" by blast
    show ?thesis
    proof (cases "drop pos bytes = []")
      case True
      have ok1: "buf_ok rb1" "buf_contents rb1 = []" "b_capacity rb1 = b_capacity rb"
        using buf_init_ok [OF less.prems(1), of 0] rb(1) less.prems(2) by (auto simp: buf_contents_def buf_ok_len)
      have "status_read_loop bytes pos rb b ret = Inr (ret, pos, rb1, b)"
        using rd rb(1) True by (subst status_read_loop.simps) (simp add: Let_def)
      then show ?thesis using True Nil ok1 less.prems by (simp add: line_of_def)
    next
      case False
      then have len: "0 < length ?bs" "length ?bs \<le> length bytes - pos" using less.prems(2) by auto
      have fc: "buf_forward_capacity rb1 = b_capacity rb" using rb(2) less.prems(2) by linarith
      have step: "status_read_loop bytes pos rb b ret = status_read_loop bytes (pos + length ?bs) rb2 b ret"
        using rd rb(1,3) fc len(1) by (subst status_read_loop.simps) (simp add: Let_def)
      have dr: "drop (pos + length ?bs) bytes = drop (length ?bs) (drop pos bytes)" by (simp add: add.commute)
      have tk: "take (length ?bs) (drop pos bytes) = ?bs" by (simp add: min_def)
      have same: "buf_contents rb2 @ drop (pos + length ?bs) bytes = ?r"
        using append_take_drop_id [of "length ?bs" "drop pos bytes"] unfolding rb(5) dr Nil tk by (simp only: append_Nil)
      have "2 * (length bytes - (pos + length ?bs)) + length (buf_contents rb2) < 2 * (length bytes - pos) + length (buf_contents rb)"
        using len unfolding rb(5) Nil list.size by linarith
      moreover have "0 < b_capacity rb2" using rb(6) less.prems(2) by simp
      ultimately show ?thesis
        using less.hyps [of "pos + length ?bs" rb2 b ret, unfolded same] rb(4,6) less.prems(3,4) unfolding step by simp
    qed
  next
    case (Cons c cs)
    obtain rb1 where rb1: "buf_read_u8 rb = (uint c, rb1)" "buf_ok rb1" "buf_contents rb1 = cs" "b_capacity rb1 = b_capacity rb"
      using buf_read_u8_Cons [OF less.prems(1) Cons] by blast
    have c: "uint c \<noteq> - 1" "uint c = 13 \<longleftrightarrow> c = 13" "uint c = 10 \<longleftrightarrow> c = 10"
      using uint_nonnegative [of c] by (linarith, simp_all add: word_uint_eq_iff)
    have smaller: "2 * (length bytes - pos) + length (buf_contents rb1) < 2 * (length bytes - pos) + length (buf_contents rb)"
      by (simp add: rb1(3) Cons)
    have cap: "0 < b_capacity rb1" using rb1(4) less.prems(2) by simp
    consider "c = 10" | "c = 13" | "c \<noteq> 10" "c \<noteq> 13" by blast
    then show ?thesis
    proof cases
      case 1
      then have "status_read_loop bytes pos rb b ret = Inr (True, pos, rb1, b)"
        using rb1(1) by (subst status_read_loop.simps) simp
      then show ?thesis using 1 rb1 less.prems(3) Cons by (simp add: line_of_def)
    next
      case 2
      then have step: "status_read_loop bytes pos rb b ret = status_read_loop bytes pos rb1 b True"
        using rb1(1) by (subst status_read_loop.simps) simp
      show ?thesis using less.hyps [OF smaller rb1(2) cap less.prems(3), of True] less.prems(4) 2
        unfolding step rb1(3,4) Cons by (simp add: line_of_def)
    next
      case 3
      then have step: "status_read_loop bytes pos rb b ret = status_read_loop bytes pos rb1 (snd (buf_write b [c])) True"
        using rb1(1) c by (subst status_read_loop.simps) (simp add: buf_write_u8_def)
      have lo: "line_of (c # cs @ drop pos bytes) = c # line_of (cs @ drop pos bytes)" using 3 by (simp add: line_of_def)
      have "1 \<le> buf_room b" using less.prems(4) 3 unfolding Cons by (simp add: lo)
      then obtain b1 where b1: "buf_write b [c] = (True, b1)" "buf_ok b1" "buf_contents b1 = buf_contents b @ [c]"
          "b_capacity b1 = b_capacity b" "b_offset b1 = b_offset b" "buf_room b1 = buf_room b - 1"
        using buf_write_full [OF less.prems(3), of "[c]"] buf_write_ok [OF less.prems(3), of "[c]"] by auto
      have "length (filter (\<lambda>c. c \<noteq> 13) (line_of (buf_contents rb1 @ drop pos bytes))) \<le> buf_room b1"
        using less.prems(4) 3 unfolding b1(6) rb1(3) Cons by (simp add: lo)
      from less.hyps [OF smaller rb1(2) cap b1(2) this, of True] 3 show ?thesis
        unfolding step b1(1,3,4,5) rb1(3,4) Cons by (simp add: lo b1(1,3,4,5))
    qed
  qed
qed


lemma buf_null_terminate_ok:
  assumes "buf_ok b" "cs = [] \<or> last cs \<noteq> 0" "buf_contents b = cs" "1 \<le> buf_room b"
  shows "\<exists>b'. buf_null_terminate b = b' \<and> buf_ok b' \<and> buf_contents b' = cs @ [0] \<and> b_capacity b' = b_capacity b
    \<and> b_offset b' = b_offset b"
proof -
  have "buf_blast b = None \<or> (\<exists>p. buf_blast b = Some p \<and> buf_byte b p \<noteq> 0)"
  proof (cases "cs = []")
    case True
    then show ?thesis using buf_blast_Nil assms by simp
  next
    case False
    then have s: "buf_contents b = butlast cs @ [last cs]" using assms(3) by simp
    from buf_last(1) [OF assms(1) s] assms(2) False show ?thesis by auto
  qed
  moreover have "buf_safe b 1"
    using assms(4) buf_room_eq [OF assms(1)] assms(1) by (simp add: buf_safe_def buf_size_valid_def BUF_SIZE_MAX_def)
  ultimately have "buf_null_terminate b = snd (buf_write b [0])"
    by (auto simp: buf_null_terminate_def buf_write_u8_def)
  moreover obtain b2 where "buf_write b [0] = (True, b2)" "buf_ok b2" "buf_contents b2 = cs @ [0]"
      "b_capacity b2 = b_capacity b" "b_offset b2 = b_offset b"
    using buf_write_full [OF assms(1), of "[0]"] assms(3,4) by auto
  ultimately show ?thesis by simp
qed

lemma status_read_ok:
  assumes so: "so_ok so" "so_fd so = Some bytes" "so_flags so AND STATUS_OUTPUT_READ \<noteq> 0"
    and b: "buf_ok b" "buf_contents b = []" "b_offset b = 0"
    and line: "0 \<notin> set (line_of (unread so))" "int (length (line_of (unread so))) < b_capacity b"
  shows "\<exists>so' b'. status_read so b = Inr (unread so \<noteq> [], so', b') \<and> so_ok so' \<and> so_fd so' = Some bytes
    \<and> so_flags so' = so_flags so \<and> unread so' = drop (Suc (length (line_of (unread so)))) (unread so)
    \<and> buf_ok b' \<and> b_capacity b' = b_capacity b \<and> b_offset b' = 0
    \<and> buf_contents b' = filter (\<lambda>c. c \<noteq> 13) (line_of (unread so)) @ [0]"
proof -
  let ?rb = "so_read_buf so" and ?l = "filter (\<lambda>c. c \<noteq> 13) (line_of (unread so))"
  have un: "unread so = buf_contents ?rb @ drop (so_pos so) bytes" using so(2) by (simp add: unread_def)
  have rb: "buf_ok ?rb" "0 < b_capacity ?rb" using so(1) by (simp_all add: so_ok_def)
  have len: "length ?l \<le> length (line_of (unread so))" by simp
  have room: "int (buf_room b) = b_capacity b" using buf_room_eq [OF b(1)] length_buf_contents [OF b(1)] b(2,3) by simp
  then have "length ?l \<le> buf_room b" using len line(2) by linarith
  then obtain pos' rb' b1 where l: "status_read_loop bytes (so_pos so) ?rb b False = Inr (unread so \<noteq> [], pos', rb', b1)"
      "buf_ok rb'" "b_capacity rb' = b_capacity ?rb" "buf_ok b1" "b_capacity b1 = b_capacity b" "b_offset b1 = 0"
      "buf_contents b1 = ?l" "buf_contents rb' @ drop pos' bytes = drop (Suc (length (line_of (unread so)))) (unread so)"
    using status_read_loop_ok [OF rb b(1), where pos = "so_pos so" and bytes = bytes and ret = False] b(2,3) un by auto
  have "1 \<le> buf_room b1"
    using buf_room_eq [OF l(4)] length_buf_contents [OF l(4), unfolded l(7)] l(5,6) len line(2) by linarith
  moreover have "0 \<notin> set ?l" using line(1) by auto
  then have "?l = [] \<or> last ?l \<noteq> 0" using last_in_set by metis
  ultimately obtain b' where b': "buf_null_terminate b1 = b'" "buf_ok b'" "buf_contents b' = ?l @ [0]" "b_capacity b' = b_capacity b"
      "b_offset b' = 0" using buf_null_terminate_ok [OF l(4) _ l(7)] l(5,6) by auto
  let ?so = "so\<lparr>so_pos := pos', so_read_buf := rb'\<rparr>"
  have "status_read so b = Inr (unread so \<noteq> [], ?so, b')"
    using so(2,3) rb(1) b(1) l(1) b'(1) by (simp add: status_read_def buf_ok_def buf_defined_def)
  moreover have "unread ?so = drop (Suc (length (line_of (unread so)))) (unread so)" using l(8) so(2) by (simp add: unread_def)
  ultimately show ?thesis using l(2,3) rb(2) b' so(2) by (intro exI [of _ ?so] exI [of _ b']) (simp add: so_ok_def)
qed

section \<open>Writing\<close>

definition writable :: "status_output \<Rightarrow> byte list \<Rightarrow> bool" where
  \<comment> \<open>open for writing without errors, with \<open>done_bytes\<close> before the position\<close>
  "writable so done_bytes \<longleftrightarrow> so_flags so AND STATUS_OUTPUT_WRITE \<noteq> 0 \<and> \<not> so_errors so \<and> so_vout so = None \<and>
     (\<exists>bytes. so_fd so = Some bytes \<and> take (so_pos so) bytes = done_bytes \<and> so_pos so = length done_bytes)"

lemma status_reset_writable: "writable so ds \<Longrightarrow> writable (status_reset so) []"
  by (auto simp: writable_def status_reset_def)

lemma status_printf_writable:
  assumes "writable so ds" "length str < STATUS_PRINTF_MAXLEN"
  shows "writable (status_printf so str) (ds @ str @ [10]) \<and> so_read_buf (status_printf so str) = so_read_buf so
    \<and> so_flags (status_printf so str) = so_flags so"
proof -
  obtain bytes where w: "so_flags so AND STATUS_OUTPUT_WRITE \<noteq> 0" "\<not> so_errors so" "so_vout so = None" "so_fd so = Some bytes"
      "take (so_pos so) bytes = ds" "so_pos so = length ds" using assms(1) by (auto simp: writable_def)
  have "take (STATUS_PRINTF_MAXLEN - 1) str = str" using assms(2) by simp
  then show ?thesis using w assms(2) by (auto simp: status_printf_def writable_def file_write_def Let_def)
qed

lemma status_flush_writable:
  assumes "writable so ds" "so_ok so"
  shows "\<exists>so'. status_flush so = Inr so' \<and> so_fd so' = Some ds \<and> so_flags so' = so_flags so \<and> so_ok so' \<and> writable so' ds"
proof -
  obtain bytes where w: "so_flags so AND STATUS_OUTPUT_WRITE \<noteq> 0" "\<not> so_errors so" "so_vout so = None" "so_fd so = Some bytes"
      "take (so_pos so) bytes = ds" "so_pos so = length ds" using assms(1) by (auto simp: writable_def)
  obtain b' where "buf_init (so_read_buf so) 0 = (True, b')" "buf_ok b'" "b_capacity b' = b_capacity (so_read_buf so)"
    using buf_init_ok [of "so_read_buf so" 0] assms(2) by (auto simp: so_ok_def)
  moreover have "buf_defined (so_read_buf so)" using assms(2) by (simp add: so_ok_def buf_ok_def buf_defined_def)
  ultimately show ?thesis using w assms(2) by (auto simp: status_flush_def Let_def so_ok_def writable_def)
qed

end
