(* ===== verification/Pool.thy ===== *)
theory Pool
  imports Status
begin

text \<open>
  The pool of virtual addresses that a server hands out (pool.h, pool.c), and its persistence file.

  The resolver behind \<open>getaddr\<close> and the printing of an address (\<open>inet_ntoa\<close> behind \<open>print_in_addr_t\<close>) are
  parameters.  A common name is a C string, and \<open>local\<close> and \<open>remote\<close> are passed and returned by value.
\<close>

section \<open>State\<close>

definition IFCONFIG_POOL_MAX :: u32 where "IFCONFIG_POOL_MAX = 65536"
definition IFCONFIG_POOL_30NET :: int where "IFCONFIG_POOL_30NET = 0"
definition IFCONFIG_POOL_INDIV :: int where "IFCONFIG_POOL_INDIV = 1"

record ifconfig_pool_entry =
  pe_in_use :: bool
  pe_common_name :: "cstr option"
  pe_last_release :: time_t
  pe_fixed :: bool

record ifconfig_pool =
  ip_base :: u32
  ip_size :: int
  ip_type :: int
  ip_duplicate_cn :: bool
  ip_list :: "ifconfig_pool_entry list"

section \<open>Operations\<close>

definition ifconfig_pool_entry_free :: "time_t \<Rightarrow> ifconfig_pool_entry \<Rightarrow> bool \<Rightarrow> ifconfig_pool_entry" where
  "ifconfig_pool_entry_free now ipe hard =
     (let ipe = ipe\<lparr>pe_in_use := False\<rparr>;
          ipe = (if hard \<and> pe_common_name ipe \<noteq> None then ipe\<lparr>pe_common_name := None\<rparr> else ipe)
      in if hard then ipe\<lparr>pe_last_release := 0\<rparr> else ipe\<lparr>pe_last_release := now\<rparr>)"

fun pool_find_loop ::
    "bool \<Rightarrow> cstr option \<Rightarrow> ifconfig_pool_entry list \<Rightarrow> int \<Rightarrow> time_t \<Rightarrow> int \<Rightarrow> int \<Rightarrow> int \<times> int" where
  \<comment> \<open>the loop from index \<open>i\<close>; the results are \<open>previous_usage\<close> and \<open>new_usage\<close>\<close>
  "pool_find_loop dup cn [] i earliest prev new = (prev, new)"
| "pool_find_loop dup cn (ipe # ipes) i earliest prev new =
     (if \<not> pe_in_use ipe
      then (if dup then (prev, i)
            else (let (earliest, new) =
                        (if (new = - 1 \<or> pe_last_release ipe < earliest) \<and> \<not> pe_fixed ipe
                         then (pe_last_release ipe, i) else (earliest, new));
                      prev = (if prev < 0 \<and> cn \<noteq> None \<and> pe_common_name ipe \<noteq> None \<and> cn = pe_common_name ipe
                              then i else prev)
                  in pool_find_loop dup cn ipes (i + 1) earliest prev new))
      else pool_find_loop dup cn ipes (i + 1) earliest prev new)"

definition ifconfig_pool_find :: "ifconfig_pool \<Rightarrow> cstr option \<Rightarrow> int" where
  "ifconfig_pool_find pool cn =
     (case pool_find_loop (ip_duplicate_cn pool) cn (ip_list pool) 0 0 (- 1) (- 1) of
        (prev, new) \<Rightarrow> if prev \<ge> 0 then prev else if new \<ge> 0 then new else - 1)"

definition ifconfig_pool_verify_range :: "u32 \<Rightarrow> u32 \<Rightarrow> bool" where
  "ifconfig_pool_verify_range start fin =
     (let ret = True;
          ret = (if start > fin then False else ret)
      in if fin - start \<ge> IFCONFIG_POOL_MAX then False else ret)"

definition ifconfig_pool_init :: "int \<Rightarrow> u32 \<Rightarrow> u32 \<Rightarrow> bool \<Rightarrow> ifconfig_pool result" where
  "ifconfig_pool_init typ start fin dup =
     assert_that (start \<le> fin \<and> fin - start < IFCONFIG_POOL_MAX)
       (let blank = \<lparr>pe_in_use = False, pe_common_name = None, pe_last_release = 0, pe_fixed = False\<rparr>;
            pool = (\<lambda>base sz. \<lparr>ip_base = base, ip_size = sz, ip_type = typ, ip_duplicate_cn = dup, ip_list = replicate (nat sz) blank\<rparr>)
        in if typ = IFCONFIG_POOL_30NET
           then (let base = start AND NOT 3 in Inr (pool base (int_of_u32 (drop_bit 2 (((fin OR 3) + 1) - base)))))
           else if typ = IFCONFIG_POOL_INDIV then Inr (pool start (int_of_u32 (fin - start + 1)))
           else Inl AssertFailed)"

definition ifconfig_pool_acquire ::
    "time_t \<Rightarrow> ifconfig_pool \<Rightarrow> u32 \<Rightarrow> u32 \<Rightarrow> cstr option \<Rightarrow> (int \<times> u32 \<times> u32 \<times> ifconfig_pool) result" where
  \<comment> \<open>the results are the handle, \<open>*local\<close>, \<open>*remote\<close> and the pool\<close>
  "ifconfig_pool_acquire now pool local remote cn =
     (let i = ifconfig_pool_find pool cn
      in if i \<ge> 0
         then (let ipe = ip_list pool ! nat i
               in assert_that (\<not> pe_in_use ipe)
                    (let ipe = (ifconfig_pool_entry_free now ipe True)\<lparr>pe_in_use := True\<rparr>;
                         ipe = (if cn \<noteq> None then ipe\<lparr>pe_common_name := cn\<rparr> else ipe);
                         pool = pool\<lparr>ip_list := (ip_list pool)[nat i := ipe]\<rparr>
                     in if ip_type pool = IFCONFIG_POOL_30NET
                        then (let b = ip_base pool + push_bit 2 (u32_of_int i) in Inr (i, b + 1, b + 2, pool))
                        else if ip_type pool = IFCONFIG_POOL_INDIV
                        then (let b = ip_base pool + u32_of_int i in Inr (i, 0, b, pool))
                        else Inl AssertFailed))
         else Inr (i, local, remote, pool))"

definition ifconfig_pool_release :: "time_t \<Rightarrow> ifconfig_pool \<Rightarrow> int \<Rightarrow> bool \<Rightarrow> bool \<times> ifconfig_pool" where
  "ifconfig_pool_release now pool hand hard =
     (if hand \<ge> 0 \<and> hand < ip_size pool
      then (True, pool\<lparr>ip_list := (ip_list pool)[nat hand := ifconfig_pool_entry_free now (ip_list pool ! nat hand) hard]\<rparr>)
      else (False, pool))"

definition ifconfig_pool_ip_base_to_handle :: "ifconfig_pool \<Rightarrow> u32 \<Rightarrow> int result" where
  "ifconfig_pool_ip_base_to_handle pool addr =
     bind_result
       (if ip_type pool = IFCONFIG_POOL_30NET then Inr (int_of_u32 (drop_bit 2 (addr - ip_base pool)))
        else if ip_type pool = IFCONFIG_POOL_INDIV then Inr (int_of_u32 (addr - ip_base pool))
        else Inl AssertFailed)
       (\<lambda>ret. Inr (if ret < 0 \<or> ret \<ge> ip_size pool then - 1 else ret))"

definition ifconfig_pool_handle_to_ip_base :: "ifconfig_pool \<Rightarrow> int \<Rightarrow> u32 result" where
  "ifconfig_pool_handle_to_ip_base pool hand =
     (if hand \<ge> 0 \<and> hand < ip_size pool
      then (if ip_type pool = IFCONFIG_POOL_30NET then Inr (ip_base pool + push_bit 2 (u32_of_int hand))
            else if ip_type pool = IFCONFIG_POOL_INDIV then Inr (ip_base pool + u32_of_int hand)
            else Inl AssertFailed)
      else Inr 0)"

definition ifconfig_pool_set :: "time_t \<Rightarrow> ifconfig_pool \<Rightarrow> cstr \<Rightarrow> u32 \<Rightarrow> bool \<Rightarrow> ifconfig_pool result" where
  "ifconfig_pool_set now pool cn addr fixed =
     bind_result (ifconfig_pool_ip_base_to_handle pool addr) (\<lambda>h.
       if h \<ge> 0
       then (let e = ifconfig_pool_entry_free now (ip_list pool ! nat h) True;
                 e = e\<lparr>pe_in_use := False, pe_common_name := Some cn, pe_last_release := now, pe_fixed := fixed\<rparr>
             in Inr (pool\<lparr>ip_list := (ip_list pool)[nat h := e]\<rparr>))
       else Inr pool)"

section \<open>The persistence file\<close>

fun pool_list_loop :: "(u32 \<Rightarrow> cstr) \<Rightarrow> ifconfig_pool \<Rightarrow> status_output \<Rightarrow> nat list \<Rightarrow> status_output result" where
  "pool_list_loop print_in_addr_t pool out [] = Inr out"
| "pool_list_loop print_in_addr_t pool out (i # is) =
     (case pe_common_name (ip_list pool ! i) of
        None \<Rightarrow> pool_list_loop print_in_addr_t pool out is
      | Some cn \<Rightarrow>
          bind_result (ifconfig_pool_handle_to_ip_base pool (int i)) (\<lambda>ip.
            pool_list_loop print_in_addr_t pool (status_printf out (cn @ [44] @ print_in_addr_t ip)) is))"

definition ifconfig_pool_list :: "(u32 \<Rightarrow> cstr) \<Rightarrow> ifconfig_pool \<Rightarrow> status_output \<Rightarrow> status_output result" where
  "ifconfig_pool_list print_in_addr_t pool out = pool_list_loop print_in_addr_t pool out [0..<nat (ip_size pool)]"

record ifconfig_pool_persist =
  pp_file :: "status_output option"
  pp_fixed :: bool

definition ifconfig_pool_persist_init ::
    "(nat \<Rightarrow> byte) \<Rightarrow> bool \<Rightarrow> byte list option \<Rightarrow> int \<Rightarrow> ifconfig_pool_persist result" where
  \<comment> \<open>the file name is the pair of the arguments \<open>openable\<close> and \<open>bytes\<close> of \<open>status_open\<close>\<close>
  "ifconfig_pool_persist_init junk openable bytes refresh_freq =
     (if refresh_freq > 0
      then bind_result (status_open junk openable bytes (STATUS_OUTPUT_READ OR STATUS_OUTPUT_WRITE)) (\<lambda>so.
             Inr \<lparr>pp_file = Some so, pp_fixed = False\<rparr>)
      else bind_result (status_open junk openable bytes STATUS_OUTPUT_READ) (\<lambda>so. Inr \<lparr>pp_file = Some so, pp_fixed = True\<rparr>))"

definition ifconfig_pool_write ::
    "(u32 \<Rightarrow> cstr) \<Rightarrow> ifconfig_pool_persist option \<Rightarrow> ifconfig_pool option \<Rightarrow> ifconfig_pool_persist option result" where
  "ifconfig_pool_write print_in_addr_t persist pool =
     (case (persist, pool) of
        (Some pp, Some pool) \<Rightarrow>
          (case pp_file pp of
             Some so \<Rightarrow>
               if status_rw_flags (Some so) AND STATUS_OUTPUT_WRITE \<noteq> 0
               then bind_result (ifconfig_pool_list print_in_addr_t pool (status_reset so)) (\<lambda>so.
                    bind_result (status_flush so) (\<lambda>so. Inr (Some (pp\<lparr>pp_file := Some so\<rparr>))))
               else Inr persist
           | None \<Rightarrow> Inr persist)
      | _ \<Rightarrow> Inr persist)"

definition pool_read_line ::
    "time_t \<Rightarrow> (cstr \<Rightarrow> u32 option) \<Rightarrow> bool \<Rightarrow> byte list \<Rightarrow> byte list \<Rightarrow> ifconfig_pool \<Rightarrow> buffer \<Rightarrow>
       (byte list \<times> byte list \<times> ifconfig_pool \<times> buffer) result" where
  \<comment> \<open>the body of the loop on a line in \<open>inb\<close>; the results are the new arrays, the pool and the buffer\<close>
  "pool_read_line now getaddr fixed cn_buf ip_buf pool inb =
     (if buf_len inb \<noteq> 0
      then (let c = (case buf_bptr inb of None \<Rightarrow> 0 | Some p \<Rightarrow> buf_byte inb p)
            in if c = 35 \<or> c = 59 then Inr (cn_buf, ip_buf, pool, inb)
               else bind_result (buf_parse inb 44 cn_buf 128) (\<lambda>(ok, cn_buf, inb).
                      if ok
                      then bind_result (buf_parse inb 44 ip_buf 128) (\<lambda>(ok, ip_buf, inb).
                             if ok
                             then (case getaddr (cstr_of ip_buf) of
                                     None \<Rightarrow> Inr (cn_buf, ip_buf, pool, inb)
                                   | Some addr \<Rightarrow>
                                       bind_result (ifconfig_pool_set now pool (cstr_of cn_buf) addr fixed) (\<lambda>pool.
                                         Inr (cn_buf, ip_buf, pool, inb)))
                             else Inr (cn_buf, ip_buf, pool, inb))
                      else Inr (cn_buf, ip_buf, pool, inb)))
      else Inr (cn_buf, ip_buf, pool, inb))"

partial_function (option) pool_read_loop ::
    "time_t \<Rightarrow> (cstr \<Rightarrow> u32 option) \<Rightarrow> bool \<Rightarrow> byte list \<Rightarrow> byte list \<Rightarrow> buffer \<Rightarrow> status_output \<Rightarrow> ifconfig_pool \<Rightarrow>
       (status_output \<times> ifconfig_pool) result option" where
  [code]: "pool_read_loop now getaddr fixed cn_buf ip_buf inb so pool =
     (case buf_init inb 0 of
        (ok, inb) \<Rightarrow>
          if ok
          then (case status_read so inb of
                  Inl e \<Rightarrow> Some (Inl e)
                | Inr r \<Rightarrow>
                    (case r of (ret, so, inb) \<Rightarrow>
                       if ret
                       then (case pool_read_line now getaddr fixed cn_buf ip_buf pool inb of
                               Inl e \<Rightarrow> Some (Inl e)
                             | Inr r \<Rightarrow> (case r of (cn_buf, ip_buf, pool, inb) \<Rightarrow>
                                           pool_read_loop now getaddr fixed cn_buf ip_buf inb so pool))
                       else Some (Inr (so, pool))))
          else Some (Inl AssertFailed))"

definition ifconfig_pool_read ::
    "(nat \<Rightarrow> byte) \<Rightarrow> time_t \<Rightarrow> (cstr \<Rightarrow> u32 option) \<Rightarrow> ifconfig_pool_persist option \<Rightarrow> ifconfig_pool option \<Rightarrow>
       (ifconfig_pool_persist option \<times> ifconfig_pool option) result option" where
  \<comment> \<open>\<open>now\<close> is the time after \<open>update_time ()\<close>\<close>
  "ifconfig_pool_read junk now getaddr persist pool =
     (case (persist, pool) of
        (Some pp, Some p) \<Rightarrow>
          (case pp_file pp of
             None \<Rightarrow> Some (Inr (persist, pool))
           | Some so \<Rightarrow>
               (case alloc_buf junk 256 of
                  Inl e \<Rightarrow> Some (Inl e)
                | Inr inb \<Rightarrow>
                    map_option (\<lambda>r. bind_result r (\<lambda>(so, p). Inr (Some (pp\<lparr>pp_file := Some so\<rparr>), Some p)))
                      (pool_read_loop now getaddr (pp_fixed pp) (replicate 128 0) (replicate 128 0) inb so p)))
      | _ \<Rightarrow> Some (Inr (persist, pool)))"


section \<open>Ranges\<close>

lemma Suc_Suc_minus_2: "\<not> k < 2 \<Longrightarrow> Suc (Suc (k - 2)) = k"
  by simp

lemma nat_or_3: "(n::nat) OR 3 = 4 * (n div 4) + 3"
proof -
  have m: "(3::nat) = mask 2" by (simp add: mask_eq_exp_minus_1)
  have "n OR mask 2 = push_bit 2 (drop_bit 2 n) OR mask 2"
    by (rule bit_eqI) (auto simp: bit_simps Suc_Suc_minus_2 not_less)
  also have "\<dots> = push_bit 2 (drop_bit 2 n) + mask 2"
    by (rule disjunctive_add_eq_or [symmetric], rule bit_eqI) (auto simp: bit_simps)
  finally show ?thesis by (simp add: m [symmetric] push_bit_eq_mult drop_bit_eq_div)
qed

lemma unat_or_3: "unat (w OR 3 :: u32) = 4 * (unat w div 4) + 3"
  by (simp add: unsigned_or_eq nat_or_3)

lemma unat_and_not_3: "unat (w AND NOT 3 :: u32) = 4 * (unat w div 4)"
proof -
  have "w AND NOT 3 = w AND NOT (mask 2)" by (simp add: mask_eq_exp_minus_1)
  also have "\<dots> = push_bit 2 (drop_bit 2 w)"
    by (rule bit_word_eqI) (auto simp: bit_simps Suc_Suc_minus_2 not_less)
  finally have "unat (w AND NOT 3) = unat (push_bit 2 (drop_bit 2 w))" by simp
  also have "\<dots> = take_bit 32 (4 * (unat w div 4))"
    unfolding unsigned_push_bit_eq unsigned_drop_bit_eq using unat_bound [of w]
    by (simp add: push_bit_eq_mult drop_bit_eq_div mult.commute take_bit_nat_eq_self)
  also have "\<dots> = 4 * (unat w div 4)"
  proof (rule take_bit_nat_eq_self)
    have "4 * (unat w div 4) \<le> unat w" by (metis div_times_less_eq_dividend mult.commute)
    then show "4 * (unat w div 4) < 2 ^ 32" using unat_bound [of w] by simp
  qed
  finally show ?thesis .
qed

lemma unat_and_m4: "unat (w AND - 4 :: u32) = 4 * (unat w div 4)"
  using unat_and_not_3 [of w] by simp

lemma unat_drop_2: "unat (drop_bit 2 w :: u32) = unat w div 4"
  by (simp add: drop_bit_eq_div unat_div)

lemma unat_of_nat_small32: "n < 2 ^ 32 \<Longrightarrow> unat (of_nat n :: u32) = n"
  by (simp add: unat_of_nat take_bit_nat_eq_self)

definition pool_stride :: "ifconfig_pool \<Rightarrow> nat" where
  "pool_stride pool = (if ip_type pool = IFCONFIG_POOL_30NET then 4 else 1)"

definition pool_ok :: "ifconfig_pool \<Rightarrow> bool" where
  "pool_ok pool \<longleftrightarrow> ip_type pool \<in> {IFCONFIG_POOL_30NET, IFCONFIG_POOL_INDIV} \<and> 0 \<le> ip_size pool \<and> ip_size pool \<le> 65536
     \<and> length (ip_list pool) = nat (ip_size pool)
     \<and> unat (ip_base pool) + pool_stride pool * nat (ip_size pool) \<le> 2 ^ 32"

lemma unat_diff_le: "b \<le> a \<Longrightarrow> unat (a - b :: u32) = unat a - unat b"
  by (simp add: unat_sub)

lemma ifconfig_pool_init_ok:
  assumes "ifconfig_pool_init typ start fin dup = Inr pool"
  shows "pool_ok pool \<and> (\<forall>e \<in> set (ip_list pool). \<not> pe_in_use e \<and> pe_common_name e = None \<and> \<not> pe_fixed e)
    \<and> ip_duplicate_cn pool = dup \<and> ip_type pool = typ \<and> start \<le> fin
    \<and> unat (ip_base pool) = (if typ = IFCONFIG_POOL_30NET then 4 * (unat start div 4) else unat start)
    \<and> unat (ip_base pool) + pool_stride pool * nat (ip_size pool) =
        (if typ = IFCONFIG_POOL_30NET then 4 * (unat fin div 4) + 4 else unat fin + 1)"
proof -
  have range: "start \<le> fin" "fin - start < 65536" and ty: "typ = IFCONFIG_POOL_30NET \<or> typ = IFCONFIG_POOL_INDIV"
    using assms by (auto simp: ifconfig_pool_init_def IFCONFIG_POOL_MAX_def Let_def split: if_splits)
  have sf: "unat start \<le> unat fin" "unat fin - unat start < 65536"
    using range unat_diff_le [OF range(1)] by (auto simp: word_le_nat_alt word_less_nat_alt)
  have small: "int_of_u32 w = int (unat w)" if "unat w \<le> 65536" for w
  proof -
    have u: "uint w = int (unat w)" by simp
    have "int (unat w) \<le> int 65536" using that by (simp only: of_nat_le_iff)
    then have "uint w \<le> 65536" by simp
    then have "uint w < 2 ^ 31" by simp
    show ?thesis by (rule trans [OF int_of_u32_small [OF \<open>uint w < 2 ^ 31\<close>] u])
  qed
  show ?thesis
  proof (cases "typ = IFCONFIG_POOL_30NET")
    case True
    let ?s = "unat start div 4" and ?f = "unat fin div 4"
    let ?d = "drop_bit 2 (((fin OR 3) + 1) - (start AND NOT 3))"
    have s: "unat (start AND NOT 3) = 4 * ?s" by (rule unat_and_not_3)
    have le: "?s \<le> ?f" using sf(1) by (rule div_le_mono)
    have "(fin OR 3) - (start AND NOT 3) = of_nat (4 * (?f - ?s) + 3)"
    proof -
      have "(start AND NOT 3) \<le> (fin OR 3)" using le by (simp add: word_le_nat_alt unat_and_m4 unat_or_3)
      then have "unat ((fin OR 3) - (start AND NOT 3)) = 4 * (?f - ?s) + 3"
        using le by (simp add: unat_diff_le unat_and_m4 unat_or_3)
      then show ?thesis by (rule unat_eq_of_nat)
    qed
    moreover have "(x + 1) - y = (x - y) + 1" for x y :: u32 by simp
    ultimately have "((fin OR 3) + 1) - (start AND NOT 3) = of_nat (4 * (?f - ?s) + 3) + 1" by (simp only:)
    also have "\<dots> = of_nat (4 * (?f - ?s + 1))" by simp
    finally have "?d = drop_bit 2 (of_nat (4 * (?f - ?s + 1)))" by (simp only:)
    moreover have b: "4 * (?f - ?s + 1) < 2 ^ 32" "?f - ?s + 1 \<le> 65536" using sf by auto
    ultimately have d: "unat ?d = ?f - ?s + 1"
      by (simp only: unat_drop_2 unat_of_nat_small32) simp
    define k where "k = ?f - ?s + 1"
    have i: "int_of_u32 ?d = int k" using small [of ?d] b(2) unfolding d k_def by simp
    have pool: "pool = \<lparr>ip_base = start AND NOT 3, ip_size = int k, ip_type = typ, ip_duplicate_cn = dup,
        ip_list = replicate k \<lparr>pe_in_use = False, pe_common_name = None, pe_last_release = 0, pe_fixed = False\<rparr>\<rparr>"
      using assms True range i by (simp add: ifconfig_pool_init_def IFCONFIG_POOL_MAX_def Let_def)
    have top: "4 * ?s + 4 * k = 4 * ?f + 4" using le by (simp add: k_def)
    have "4 * ?f + 4 \<le> 2 ^ 32" using unat_bound [of fin] by simp
    moreover have "k \<le> 65536" using b(2) by (simp add: k_def)
    ultimately show ?thesis using True range top by (simp add: pool pool_ok_def pool_stride_def unat_and_m4)
  next
    case False
    then have typ1: "typ = IFCONFIG_POOL_INDIV" using ty by simp
    let ?n = "unat fin - unat start"
    have "fin - start = of_nat ?n" using unat_diff_le [OF range(1)] by (rule unat_eq_of_nat)
    then have e: "fin - start + 1 = of_nat (?n + 1)" by simp
    have "?n + 1 < 2 ^ 32" using sf(2) by simp
    then have d: "unat (fin - start + 1) = ?n + 1" unfolding e by (rule unat_of_nat_small32)
    define k where "k = ?n + 1"
    have i: "int_of_u32 (fin - start + 1) = int k" using small [of "fin - start + 1"] sf(2) unfolding d k_def by simp
    have pool: "pool = \<lparr>ip_base = start, ip_size = int k, ip_type = typ, ip_duplicate_cn = dup,
        ip_list = replicate k \<lparr>pe_in_use = False, pe_common_name = None, pe_last_release = 0, pe_fixed = False\<rparr>\<rparr>"
      using assms False typ1 range i by (simp add: ifconfig_pool_init_def IFCONFIG_POOL_MAX_def Let_def)
    have "unat fin + 1 \<le> 2 ^ 32" using unat_bound [of fin] by simp
    moreover have "k \<le> 65536" "unat start + k = unat fin + 1" using sf by (simp_all add: k_def)
    ultimately show ?thesis using False typ1 range by (simp add: pool pool_ok_def pool_stride_def)
  qed
qed


section \<open>Addresses\<close>

definition pool_addrs :: "ifconfig_pool \<Rightarrow> int \<Rightarrow> u32 \<times> u32" where
  \<comment> \<open>the local and remote address of a handle\<close>
  "pool_addrs pool h =
     (if ip_type pool = IFCONFIG_POOL_30NET
      then (ip_base pool + push_bit 2 (u32_of_int h) + 1, ip_base pool + push_bit 2 (u32_of_int h) + 2)
      else (0, ip_base pool + u32_of_int h))"

lemma unat_add_small: "unat a + unat b < 2 ^ 32 \<Longrightarrow> unat (a + b :: u32) = unat a + unat b"
  by (simp add: unat_word_ariths)

lemma unat_u32_of_int: "0 \<le> h \<Longrightarrow> h < 2 ^ 32 \<Longrightarrow> unat (u32_of_int h) = nat h"
  by (simp only: u32_of_int_def unat_eq_nat_uint uint_word_of_int) simp

lemma unat_push_2:
  assumes "0 \<le> h" "h \<le> 65536"
  shows "unat (push_bit 2 (u32_of_int h)) = 4 * nat h"
proof -
  have "push_bit 2 (u32_of_int h) = u32_of_int (4 * h)"
    by (simp add: u32_of_int_def push_bit_eq_mult)
  then show ?thesis using assms by (simp only: unat_u32_of_int) (simp add: nat_mult_distrib unat_u32_of_int)
qed

lemma pool_addrs_bounds:
  assumes ok: "pool_ok pool" and h: "0 \<le> h" "h < ip_size pool"
  shows "unat (snd (pool_addrs pool h)) = unat (ip_base pool) + pool_stride pool * nat h + (if pool_stride pool = 4 then 2 else 0)"
    "unat (fst (pool_addrs pool h)) = (if pool_stride pool = 4 then unat (ip_base pool) + 4 * nat h + 1 else 0)"
proof -
  have lim: "unat (ip_base pool) + pool_stride pool * nat (ip_size pool) \<le> 2 ^ 32" "h \<le> 65536" "nat h + 1 \<le> nat (ip_size pool)"
    using assms by (auto simp: pool_ok_def)
  have "unat (snd (pool_addrs pool h)) = unat (ip_base pool) + pool_stride pool * nat h + (if pool_stride pool = 4 then 2 else 0)
    \<and> unat (fst (pool_addrs pool h)) = (if pool_stride pool = 4 then unat (ip_base pool) + 4 * nat h + 1 else 0)"
  proof (cases "ip_type pool = IFCONFIG_POOL_30NET")
    case True
    then have st: "pool_stride pool = 4" by (simp add: pool_stride_def)
    have b: "unat (ip_base pool) + 4 * nat h + 4 \<le> 2 ^ 32" using lim unfolding st by linarith
    let ?b = "ip_base pool + push_bit 2 (u32_of_int h)"
    have s: "unat ?b = unat (ip_base pool) + 4 * nat h"
      using b unat_push_2 [OF h(1) lim(2)] by (simp add: unat_add_small)
    have "unat (?b + 1) = unat ?b + 1" "unat (?b + 2) = unat ?b + 2" using b s by (simp_all add: unat_add_small)
    with s True st show ?thesis by (simp add: pool_addrs_def)
  next
    case False
    then have st: "pool_stride pool = 1" by (simp add: pool_stride_def)
    have b: "unat (ip_base pool) + nat h < 2 ^ 32" using lim unfolding st by linarith
    have "unat (ip_base pool + u32_of_int h) = unat (ip_base pool) + nat h"
      using b h(1) lim(2) by (simp add: unat_add_small unat_u32_of_int)
    with False st show ?thesis by (simp add: pool_addrs_def)
  qed
  then show "unat (snd (pool_addrs pool h)) = unat (ip_base pool) + pool_stride pool * nat h + (if pool_stride pool = 4 then 2 else 0)"
    "unat (fst (pool_addrs pool h)) = (if pool_stride pool = 4 then unat (ip_base pool) + 4 * nat h + 1 else 0)" by auto
qed

lemma pool_addrs_distinct:
  assumes "pool_ok pool" "0 \<le> h" "h < ip_size pool" "0 \<le> h'" "h' < ip_size pool" "h \<noteq> h'"
  shows "snd (pool_addrs pool h) \<noteq> snd (pool_addrs pool h')"
    "fst (pool_addrs pool h) = fst (pool_addrs pool h') \<longrightarrow> fst (pool_addrs pool h) = 0"
    "fst (pool_addrs pool h) \<noteq> snd (pool_addrs pool h') \<or> fst (pool_addrs pool h) = 0"
proof -
  have n: "nat h \<noteq> nat h'" using assms by auto
  have st: "pool_stride pool = 4 \<or> pool_stride pool = 1" by (simp add: pool_stride_def)
  note a = pool_addrs_bounds [OF assms(1-3)] and b = pool_addrs_bounds [OF assms(1,4,5)]
  show "snd (pool_addrs pool h) \<noteq> snd (pool_addrs pool h')"
    using a(1) b(1) n st by auto
  show "fst (pool_addrs pool h) = fst (pool_addrs pool h') \<longrightarrow> fst (pool_addrs pool h) = 0"
    using a(2) b(2) n st by (auto simp: unat_eq_zero)
  have par: "4 * a + 1 \<noteq> 4 * b + (2::nat)" for a b by presburger
  have "unat (fst (pool_addrs pool h)) \<noteq> unat (snd (pool_addrs pool h'))" if "pool_stride pool = 4"
  proof -
    show ?thesis using a(2) b(1) that par [of "nat h" "nat h'"] by simp
  qed
  then show "fst (pool_addrs pool h) \<noteq> snd (pool_addrs pool h') \<or> fst (pool_addrs pool h) = 0"
    using a(2) st by (auto simp: unat_eq_zero)
qed

lemma handle_roundtrip:
  assumes ok: "pool_ok pool" and h: "0 \<le> h" "h < ip_size pool"
  shows "\<exists>ip. ifconfig_pool_handle_to_ip_base pool h = Inr ip \<and> ifconfig_pool_ip_base_to_handle pool ip = Inr h"
proof -
  have lim: "h \<le> 65536" using assms by (auto simp: pool_ok_def)
  have i: "int_of_u32 (u32_of_int h) = h"
  proof -
    have "h < 2 ^ 32" using lim by simp
    then have u: "uint (u32_of_int h) = h"
      using h(1) by (simp only: u32_of_int_def uint_word_of_int) simp
    then have "uint (u32_of_int h) < 2 ^ 31" using lim by simp
    then show ?thesis using int_of_u32_small u by (metis)
  qed
  have ty: "ip_type pool = IFCONFIG_POOL_30NET \<or> ip_type pool = IFCONFIG_POOL_INDIV" using ok by (simp add: pool_ok_def)
  have "drop_bit 2 (push_bit 2 (u32_of_int h)) = u32_of_int h"
  proof -
    have "unat (drop_bit 2 (push_bit 2 (u32_of_int h))) = unat (u32_of_int h)"
      using h(1) lim by (simp only: unat_drop_2 unat_push_2) (simp add: unat_u32_of_int)
    then show ?thesis by (simp only: word_unat_eq_iff)
  qed
  with ty i h show ?thesis
    by (auto simp: ifconfig_pool_handle_to_ip_base_def ifconfig_pool_ip_base_to_handle_def)
qed


section \<open>The search for a free entry\<close>

definition pool_free :: "ifconfig_pool \<Rightarrow> int \<Rightarrow> bool" where
  "pool_free pool h \<longleftrightarrow> 0 \<le> h \<and> h < int (length (ip_list pool)) \<and> \<not> pe_in_use (ip_list pool ! nat h)"

lemma nth_shift:
  assumes "h \<noteq> i" "i \<le> h"
  shows "(e # es) ! nat (h - i) = es ! nat (h - (i + 1))"
proof -
  have "nat (h - i) = Suc (nat (h - (i + 1)))" using assms by simp
  then show ?thesis by simp
qed

definition free_from :: "ifconfig_pool_entry list \<Rightarrow> int \<Rightarrow> int \<Rightarrow> bool" where
  "free_from l i h \<longleftrightarrow> i \<le> h \<and> h < i + int (length l) \<and> \<not> pe_in_use (l ! nat (h - i))"

lemma free_from_Nil [simp]: "\<not> free_from [] i h"
  by (simp add: free_from_def)

lemma free_from_Cons: "free_from (e # es) i h \<longleftrightarrow> (h = i \<and> \<not> pe_in_use e) \<or> free_from es (i + 1) h"
proof (cases "h = i")
  case False
  then show ?thesis using nth_shift [of h i e es] by (auto simp: free_from_def)
qed (simp add: free_from_def)

definition last_named :: "cstr option \<Rightarrow> ifconfig_pool_entry \<Rightarrow> bool" where
  "last_named cn ipe \<longleftrightarrow> cn \<noteq> None \<and> pe_common_name ipe = cn"

definition lru_better :: "ifconfig_pool_entry \<Rightarrow> time_t \<Rightarrow> int \<Rightarrow> bool" where
  "lru_better ipe e new \<longleftrightarrow> (new = - 1 \<or> pe_last_release ipe < e) \<and> \<not> pe_fixed ipe"

lemma pool_find_loop_Cons:
  "pool_find_loop dup cn (x # xs) i e prev new =
     (if pe_in_use x then pool_find_loop dup cn xs (i + 1) e prev new
      else if dup then (prev, i)
      else pool_find_loop dup cn xs (i + 1) (if lru_better x e new then pe_last_release x else e)
             (if prev < 0 \<and> last_named cn x then i else prev) (if lru_better x e new then i else new))"
  by (auto simp: Let_def lru_better_def last_named_def)

lemmas pool_find_loop_simps = pool_find_loop.simps(1) pool_find_loop_Cons

lemma pool_find_loop_free:
  assumes "pool_find_loop dup cn l i e prev new = (p, n)"
  shows "(p = prev \<or> free_from l i p) \<and> (n = new \<or> free_from l i n)"
  using assms
proof (induction l arbitrary: i e prev new)
  case (Cons x xs)
  show ?case
    using Cons.prems Cons.IH [of "i + 1"]
    unfolding pool_find_loop_Cons free_from_Cons by (fastforce split: if_splits)
qed (simp add: pool_find_loop_simps)

lemma pool_find_loop_none:
  assumes "pool_find_loop dup cn l i e prev new = (p, n)" "p < 0" "n < 0" "0 \<le> i" "- 1 \<le> new"
  shows "prev < 0 \<and> new < 0 \<and> (\<forall>x \<in> set l. pe_in_use x \<or> pe_fixed x)"
  using assms
proof (induction l arbitrary: i e prev new)
  case (Cons x xs)
  obtain e' new' prev' where r: "pool_find_loop dup cn xs (i + 1) e' prev' new' = (p, n)" "- 1 \<le> new'" "\<not> pe_in_use x \<Longrightarrow> \<not> dup"
    "new' = (if \<not> pe_in_use x \<and> lru_better x e new then i else new)" "prev' = prev \<or> prev' = i"
    using Cons.prems unfolding pool_find_loop_Cons by (auto split: if_splits)
  have IH: "prev' < 0 \<and> new' < 0 \<and> (\<forall>x \<in> set xs. pe_in_use x \<or> pe_fixed x)"
    by (rule Cons.IH [OF r(1)]) (use Cons.prems r(2) in auto)
  have "new < 0" using IH r(4) Cons.prems(4) by (auto split: if_splits)
  then have "new = - 1" using Cons.prems(5) by simp
  then show ?case using IH r(4,5) Cons.prems(4) by (auto simp: lru_better_def split: if_splits)
qed (simp add: pool_find_loop_simps)

lemma pool_find_loop_named:
  assumes "pool_find_loop False cn l i e prev new = (p, n)" "0 \<le> i"
  shows "(prev \<ge> 0 \<longrightarrow> p = prev) \<and>
    (prev < 0 \<longrightarrow> (p = prev \<and> (\<forall>x \<in> set l. \<not> pe_in_use x \<longrightarrow> \<not> last_named cn x)) \<or> (free_from l i p \<and> last_named cn (l ! nat (p - i))))"
    using assms
proof (induction l arbitrary: i e prev new)
  case (Cons x xs)
  obtain e' new' prev' where r: "pool_find_loop False cn xs (i + 1) e' prev' new' = (p, n)"
    "prev' = (if \<not> pe_in_use x \<and> prev < 0 \<and> last_named cn x then i else prev)"
    using Cons.prems unfolding pool_find_loop_Cons by (auto split: if_splits)
  have IH: "(prev' \<ge> 0 \<longrightarrow> p = prev') \<and>
    (prev' < 0 \<longrightarrow> (p = prev' \<and> (\<forall>x \<in> set xs. \<not> pe_in_use x \<longrightarrow> \<not> last_named cn x)) \<or>
      (free_from xs (i + 1) p \<and> last_named cn (xs ! nat (p - (i + 1)))))"
    by (rule Cons.IH [OF r(1)]) (use Cons.prems(2) in simp)
  have later: "(x # xs) ! nat (p - i) = xs ! nat (p - (i + 1))" if "free_from xs (i + 1) p"
    using that by (intro nth_shift) (auto simp: free_from_def)
  show ?case using IH r(2) Cons.prems(2) later by (auto simp: free_from_Cons split: if_splits)
qed (simp add: pool_find_loop_simps)

lemma pool_find_loop_lru:
  assumes "pool_find_loop False cn l i e prev new = (p, n)" "- 1 \<le> new" "0 \<le> i" "new < i"
  shows "\<exists>t. (if free_from l i n then t = pe_last_release (l ! nat (n - i)) else t = e \<and> n = new) \<and> (new \<noteq> - 1 \<longrightarrow> t \<le> e) \<and>
    (\<forall>x \<in> set l. \<not> pe_in_use x \<and> \<not> pe_fixed x \<longrightarrow> n \<ge> 0 \<and> t \<le> pe_last_release x) \<and> (new \<ge> 0 \<longrightarrow> n \<ge> 0)"
  using assms
proof (induction l arbitrary: i e prev new)
  case (Cons x xs)
  define b where "b \<longleftrightarrow> \<not> pe_in_use x \<and> lru_better x e new"
  define e' where "e' = (if b then pe_last_release x else e)"
  define new' where "new' = (if b then i else new)"
  obtain prev' where r: "pool_find_loop False cn xs (i + 1) e' prev' new' = (p, n)"
    using Cons.prems unfolding pool_find_loop_Cons b_def e'_def new'_def by (auto split: if_splits)
  have "- 1 \<le> new'" "0 \<le> i + 1" "new' < i + 1" using Cons.prems by (simp_all add: new'_def)
  from Cons.IH [OF r this] obtain t where
    t: "if free_from xs (i + 1) n then t = pe_last_release (xs ! nat (n - (i + 1))) else t = e' \<and> n = new'"
      "new' \<noteq> - 1 \<longrightarrow> t \<le> e'" "\<forall>x \<in> set xs. \<not> pe_in_use x \<and> \<not> pe_fixed x \<longrightarrow> n \<ge> 0 \<and> t \<le> pe_last_release x" "new' \<ge> 0 \<longrightarrow> n \<ge> 0"
    by blast
  have later: "(x # xs) ! nat (n - i) = xs ! nat (n - (i + 1))" if "free_from xs (i + 1) n"
    using that by (intro nth_shift) (auto simp: free_from_def)
  show ?case
  proof (intro exI [of _ t] conjI)
    show "if free_from (x # xs) i n then t = pe_last_release ((x # xs) ! nat (n - i)) else t = e \<and> n = new"
    proof (cases "free_from xs (i + 1) n")
      case False
      then have "t = e'" "n = new'" using t(1) by auto
      then show ?thesis using False Cons.prems(2-4)
        by (cases b) (auto simp: free_from_Cons e'_def new'_def b_def)
    qed (use t(1) later in \<open>simp add: free_from_Cons\<close>)
  qed (use t Cons.prems in \<open>auto simp: e'_def new'_def b_def lru_better_def split: if_splits\<close>)
qed (simp add: pool_find_loop_simps)

lemma ifconfig_pool_find_free:
  assumes "ifconfig_pool_find pool cn = h" "0 \<le> h"
  shows "pool_free pool h"
proof -
  obtain p n where r: "pool_find_loop (ip_duplicate_cn pool) cn (ip_list pool) 0 0 (- 1) (- 1) = (p, n)" by fastforce
  then show ?thesis using pool_find_loop_free [OF r] assms
    by (auto simp: ifconfig_pool_find_def pool_free_def free_from_def split: if_splits)
qed

lemma ifconfig_pool_find_none:
  assumes "ifconfig_pool_find pool cn < 0"
  shows "\<forall>x \<in> set (ip_list pool). pe_in_use x \<or> pe_fixed x" "ifconfig_pool_find pool cn = - 1"
proof -
  obtain p n where r: "pool_find_loop (ip_duplicate_cn pool) cn (ip_list pool) 0 0 (- 1) (- 1) = (p, n)" by fastforce
  show "\<forall>x \<in> set (ip_list pool). pe_in_use x \<or> pe_fixed x" using pool_find_loop_none [OF r] assms r
    by (auto simp: ifconfig_pool_find_def split: if_splits)
  show "ifconfig_pool_find pool cn = - 1" using assms r by (auto simp: ifconfig_pool_find_def split: if_splits)
qed


lemma ifconfig_pool_acquire_cases:
  assumes ok: "pool_ok pool"
  obtains (granted) h e where "pool_free pool h" "ifconfig_pool_find pool cn = h" "0 \<le> h" "h < ip_size pool" "pe_in_use e"
      "ifconfig_pool_acquire now pool l r cn = Inr (h, fst (pool_addrs pool h), snd (pool_addrs pool h), pool\<lparr>ip_list := (ip_list pool)[nat h := e]\<rparr>)"
      "pe_fixed e = pe_fixed (ip_list pool ! nat h)"
  | (refused) "ifconfig_pool_find pool cn = - 1" "ifconfig_pool_acquire now pool l r cn = Inr (- 1, l, r, pool)"
      "\<forall>x \<in> set (ip_list pool). pe_in_use x \<or> pe_fixed x"
proof (cases "0 \<le> ifconfig_pool_find pool cn")
  case True
  let ?h = "ifconfig_pool_find pool cn"
  have free: "pool_free pool ?h" using True by (rule ifconfig_pool_find_free [OF refl])
  have ty: "ip_type pool = IFCONFIG_POOL_30NET \<or> ip_type pool = IFCONFIG_POOL_INDIV" using ok by (simp add: pool_ok_def)
  have "?h < ip_size pool" using free ok by (auto simp: pool_free_def pool_ok_def)
  then show ?thesis using True free ty
    by (intro granted [of ?h "(let ipe = (ifconfig_pool_entry_free now (ip_list pool ! nat ?h) True)\<lparr>pe_in_use := True\<rparr>
          in if cn \<noteq> None then ipe\<lparr>pe_common_name := cn\<rparr> else ipe)"])
      (auto simp: ifconfig_pool_acquire_def pool_addrs_def pool_free_def Let_def assert_that_def ifconfig_pool_entry_free_def)
next
  case False
  then show ?thesis using ifconfig_pool_find_none [of pool cn]
    by (intro refused) (auto simp: ifconfig_pool_acquire_def)
qed

section \<open>Leases\<close>

datatype pool_op = Acquire time_t "cstr option" | Release time_t int bool

datatype pool_event = Granted int u32 u32 | Refused | Released int

fun pool_step :: "ifconfig_pool \<Rightarrow> pool_op \<Rightarrow> (pool_event \<times> ifconfig_pool) result" where
  "pool_step pool (Acquire now cn) =
     bind_result (ifconfig_pool_acquire now pool 0 0 cn) (\<lambda>(h, l, r, pool). Inr (if h < 0 then Refused else Granted h l r, pool))"
| "pool_step pool (Release now h hard) =
     (case ifconfig_pool_release now pool h hard of (ok, pool) \<Rightarrow> Inr (Released h, pool))"

fun pool_run :: "ifconfig_pool \<Rightarrow> pool_op list \<Rightarrow> (pool_event list \<times> ifconfig_pool) result" where
  "pool_run pool [] = Inr ([], pool)"
| "pool_run pool (x # xs) =
     bind_result (pool_step pool x) (\<lambda>(ev, pool). bind_result (pool_run pool xs) (\<lambda>(evs, pool). Inr (ev # evs, pool)))"

definition lease_step :: "(int \<times> u32 \<times> u32) list \<Rightarrow> pool_event \<Rightarrow> (int \<times> u32 \<times> u32) list" where
  \<comment> \<open>the leases in force after an event\<close>
  "lease_step ls ev = (case ev of Granted h l r \<Rightarrow> (h, l, r) # ls | Refused \<Rightarrow> ls | Released h \<Rightarrow> filter (\<lambda>x. fst x \<noteq> h) ls)"

definition leases_of :: "ifconfig_pool \<Rightarrow> (int \<times> u32 \<times> u32) list \<Rightarrow> bool" where
  "leases_of pool ls \<longleftrightarrow> distinct (map fst ls) \<and> (\<forall>(h, a) \<in> set ls. 0 \<le> h \<and> h < ip_size pool \<and> a = pool_addrs pool h)
     \<and> (\<forall>h. 0 \<le> h \<and> h < ip_size pool \<longrightarrow> pe_in_use (ip_list pool ! nat h) = (h \<in> fst ` set ls))"

definition same_range :: "ifconfig_pool \<Rightarrow> ifconfig_pool \<Rightarrow> bool" where
  "same_range p q \<longleftrightarrow> ip_base p = ip_base q \<and> ip_size p = ip_size q \<and> ip_type p = ip_type q \<and> length (ip_list p) = length (ip_list q)
     \<and> map pe_fixed (ip_list p) = map pe_fixed (ip_list q)"

lemma same_range_refl [simp]: "same_range p p"
  by (simp add: same_range_def)

lemma same_range_trans: "same_range p q \<Longrightarrow> same_range q r \<Longrightarrow> same_range p r"
  by (simp add: same_range_def)

lemma same_range_addrs: "same_range p q \<Longrightarrow> pool_addrs q = pool_addrs p"
  by (simp add: same_range_def pool_addrs_def fun_eq_iff)

lemma same_range_ok: "same_range p q \<Longrightarrow> pool_ok p \<Longrightarrow> pool_ok q"
  by (simp add: same_range_def pool_ok_def pool_stride_def)

lemma same_range_set:
  "pe_fixed e = pe_fixed (ip_list p ! k) \<Longrightarrow> same_range p (p\<lparr>ip_list := (ip_list p)[k := e]\<rparr>)"
proof (cases "k < length (ip_list p)")
  case True
  assume "pe_fixed e = pe_fixed (ip_list p ! k)"
  then have "pe_fixed e = map pe_fixed (ip_list p) ! k" using True by simp
  then have "(map pe_fixed (ip_list p))[k := pe_fixed e] = map pe_fixed (ip_list p)" by (simp only: list_update_id)
  then show ?thesis by (simp add: same_range_def map_update)
qed (simp add: same_range_def list_update_beyond)

lemma pool_step_leases:
  assumes ok: "pool_ok pool" and ls: "leases_of pool ls"
  obtains ev pool' where "pool_step pool x = Inr (ev, pool')" "same_range pool pool'" "leases_of pool' (lease_step ls ev)"
proof (cases x)
  case (Acquire now cn)
  from ok show ?thesis
  proof (cases rule: ifconfig_pool_acquire_cases [where cn = cn and now = now and l = 0 and r = 0])
    case (granted h e)
    let ?p = "pool\<lparr>ip_list := (ip_list pool)[nat h := e]\<rparr>"
    have sr: "same_range pool ?p" by (rule same_range_set) (rule granted(7))
    have len: "nat h < length (ip_list pool)" using granted(3,4) ok by (simp add: pool_ok_def)
    have new: "h \<notin> fst ` set ls" using granted ls by (simp add: leases_of_def pool_free_def)
    have "leases_of ?p ((h, pool_addrs pool h) # ls)"
      using ls new granted len same_range_addrs [OF sr]
      by (auto simp: leases_of_def nth_list_update nat_eq_iff2 eq_nat_nat_iff)
    then show ?thesis using that [OF _ sr] Acquire granted by (simp add: lease_step_def)
  next
    case refused
    then show ?thesis using that Acquire ls by (simp add: lease_step_def)
  qed
next
  case (Release now h hard)
  show ?thesis
  proof (cases "h \<ge> 0 \<and> h < ip_size pool")
    case True
    let ?e = "ifconfig_pool_entry_free now (ip_list pool ! nat h) hard"
    let ?p = "pool\<lparr>ip_list := (ip_list pool)[nat h := ?e]\<rparr>"
    have e: "\<not> pe_in_use ?e" "pe_fixed ?e = pe_fixed (ip_list pool ! nat h)" by (simp_all add: ifconfig_pool_entry_free_def Let_def)
    have sr: "same_range pool ?p" by (rule same_range_set) (rule e)
    have len: "nat h < length (ip_list pool)" using True ok by (simp add: pool_ok_def)
    have "leases_of ?p (filter (\<lambda>x. fst x \<noteq> h) ls)"
      using ls True len e same_range_addrs [OF sr]
      by (auto simp: leases_of_def nth_list_update nat_eq_iff2 eq_nat_nat_iff distinct_map_filter)
    then show ?thesis using that [OF _ sr] Release True by (simp add: lease_step_def ifconfig_pool_release_def)
  next
    case False
    have "filter (\<lambda>x. fst x \<noteq> h) ls = ls" using ls False by (auto simp: leases_of_def filter_id_conv)
    then show ?thesis using that [of "Released h" pool] Release False ls by (auto simp: lease_step_def ifconfig_pool_release_def)
  qed
qed

lemma pool_run_leases:
  assumes "pool_ok pool" "leases_of pool ls"
  obtains evs pool' where "pool_run pool xs = Inr (evs, pool')" "same_range pool pool'" "leases_of pool' (foldl lease_step ls evs)"
  using assms
proof (induction xs arbitrary: pool ls thesis)
  case Nil
  then show ?case by simp
next
  case (Cons x xs)
  obtain ev p1 where 1: "pool_step pool x = Inr (ev, p1)" "same_range pool p1" "leases_of p1 (lease_step ls ev)"
    using pool_step_leases [OF Cons.prems(2,3)] by blast
  obtain evs p2 where 2: "pool_run p1 xs = Inr (evs, p2)" "same_range p1 p2" "leases_of p2 (foldl lease_step (lease_step ls ev) evs)"
    using Cons.IH [OF _ same_range_ok [OF 1(2) Cons.prems(2)] 1(3)] by blast
  show ?case using Cons.prems(1) [of "ev # evs" p2] 1 2 same_range_trans [OF 1(2) 2(2)] by simp
qed


fun pool_load :: "ifconfig_pool \<Rightarrow> (time_t \<times> cstr \<times> u32 \<times> bool) list \<Rightarrow> ifconfig_pool result" where
  \<comment> \<open>the associations set from the persistence file before the first client\<close>
  "pool_load pool [] = Inr pool"
| "pool_load pool ((now, cn, addr, fixed) # xs) = bind_result (ifconfig_pool_set now pool cn addr fixed) (\<lambda>pool. pool_load pool xs)"

definition pool_idle :: "ifconfig_pool \<Rightarrow> bool" where
  "pool_idle pool \<longleftrightarrow> (\<forall>e \<in> set (ip_list pool). \<not> pe_in_use e)"

lemma ifconfig_pool_set_idle:
  assumes ok: "pool_ok pool" "pool_idle pool"
  obtains pool' where "ifconfig_pool_set now pool cn addr fixed = Inr pool'" "pool_ok pool'" "pool_idle pool'"
    "ip_base pool' = ip_base pool" "ip_size pool' = ip_size pool" "ip_type pool' = ip_type pool" "ip_duplicate_cn pool' = ip_duplicate_cn pool"
proof -
  obtain h where h: "ifconfig_pool_ip_base_to_handle pool addr = Inr h"
    using ok by (auto simp: ifconfig_pool_ip_base_to_handle_def pool_ok_def IFCONFIG_POOL_30NET_def IFCONFIG_POOL_INDIV_def)
  show ?thesis
  proof (cases "h \<ge> 0")
    case True
    define e where "e = (ifconfig_pool_entry_free now (ip_list pool ! nat h) True)\<lparr>pe_in_use := False, pe_common_name := Some cn, pe_last_release := now, pe_fixed := fixed\<rparr>"
    let ?p = "pool\<lparr>ip_list := (ip_list pool)[nat h := e]\<rparr>"
    have "\<not> pe_in_use e" by (simp add: e_def)
    then have "pool_idle ?p"
      using ok(2) set_update_subset_insert [of "ip_list pool" "nat h" e] by (auto simp: pool_idle_def)
    moreover have "pool_ok ?p" using ok(1) by (simp add: pool_ok_def pool_stride_def)
    moreover have "ifconfig_pool_set now pool cn addr fixed = Inr ?p"
      using True h by (simp add: ifconfig_pool_set_def e_def Let_def)
    ultimately show ?thesis using that [of ?p] by simp
  next
    case False
    then show ?thesis using that [of pool] h ok by (simp add: ifconfig_pool_set_def)
  qed
qed

lemma pool_load_idle:
  assumes "pool_ok pool" "pool_idle pool"
  obtains pool' where "pool_load pool es = Inr pool'" "pool_ok pool'" "pool_idle pool'"
    "ip_base pool' = ip_base pool" "ip_size pool' = ip_size pool" "ip_type pool' = ip_type pool" "ip_duplicate_cn pool' = ip_duplicate_cn pool"
  using assms
proof (induction es arbitrary: pool thesis)
  case (Cons x xs)
  obtain now cn addr fixed where x: "x = (now, cn, addr, fixed)" by (cases x) auto
  obtain p where p: "ifconfig_pool_set now pool cn addr fixed = Inr p" "pool_ok p" "pool_idle p"
    "ip_base p = ip_base pool" "ip_size p = ip_size pool" "ip_type p = ip_type pool" "ip_duplicate_cn p = ip_duplicate_cn pool"
    using ifconfig_pool_set_idle [OF Cons.prems(2,3)] by blast
  obtain q where "pool_load p xs = Inr q" "pool_ok q" "pool_idle q"
    "ip_base q = ip_base p" "ip_size q = ip_size p" "ip_type q = ip_type p" "ip_duplicate_cn q = ip_duplicate_cn p"
    using Cons.IH [OF _ p(2,3)] by blast
  then show ?case using Cons.prems(1) [of q] p x by simp
qed simp

definition lease_address_ok :: "int \<Rightarrow> u32 \<Rightarrow> u32 \<Rightarrow> u32 \<Rightarrow> u32 \<Rightarrow> bool" where
  \<comment> \<open>the addresses of a lease lie in the range, in \<open>net30\<close> mode as the two hosts of one \<open>/30\<close> network\<close>
  "lease_address_ok typ start fin l r \<longleftrightarrow>
     (if typ = IFCONFIG_POOL_30NET
      then unat l mod 4 = 1 \<and> unat r = unat l + 1 \<and> unat start div 4 \<le> unat l div 4 \<and> unat l div 4 \<le> unat fin div 4
      else l = 0 \<and> start \<le> r \<and> r \<le> fin)"

lemma pool_addrs_in_range:
  assumes init: "ifconfig_pool_init typ start fin dup = Inr p0" and h: "0 \<le> h" "h < ip_size p0"
  shows "lease_address_ok typ start fin (fst (pool_addrs p0 h)) (snd (pool_addrs p0 h))"
proof -
  note i = ifconfig_pool_init_ok [OF init]
  have ok: "pool_ok p0" using i by simp
  note b = pool_addrs_bounds [OF ok h]
  have n: "nat h + 1 \<le> nat (ip_size p0)" using h by simp
  show ?thesis
  proof (cases "typ = IFCONFIG_POOL_30NET")
    case True
    let ?s = "unat start div 4" and ?f = "unat fin div 4"
    have st: "pool_stride p0 = 4" using i True by (simp add: pool_stride_def)
    have base: "unat (ip_base p0) = 4 * ?s" "4 * ?s + 4 * nat (ip_size p0) = 4 * ?f + 4" using i True st by auto
    have l: "unat (fst (pool_addrs p0 h)) = 4 * (?s + nat h) + 1" and r: "unat (snd (pool_addrs p0 h)) = 4 * (?s + nat h) + 2"
      using b st base by simp_all
    define k where "k = ?s + nat h"
    have "(4 * k + 1) mod 4 = 1" "(4 * k + 1) div 4 = k" by presburger+
    moreover have "?s \<le> k" "k \<le> ?f" using base n by (simp_all add: k_def)
    ultimately show ?thesis using True unfolding lease_address_ok_def l r k_def [symmetric] by simp
  next
    case False
    have st: "pool_stride p0 = 1" using i False by (simp add: pool_stride_def)
    then have "fst (pool_addrs p0 h) = 0" using b(2) by (simp add: unat_eq_zero)
    moreover have "unat (snd (pool_addrs p0 h)) = unat start + nat h" "unat start + nat (ip_size p0) = unat fin + 1"
      using b(1) st i False by auto
    ultimately show ?thesis using False n by (simp add: lease_address_ok_def word_le_nat_alt)
  qed
qed

lemma distinct_map_inj:
  assumes "distinct (map f xs)" "\<And>x y. x \<in> set xs \<Longrightarrow> y \<in> set xs \<Longrightarrow> g x = g y \<Longrightarrow> f x = f y"
  shows "distinct (map g xs)"
proof -
  have "inj_on g (set xs)"
    by (rule inj_onI) (metis assms distinct_map inj_onD)
  then show ?thesis using assms(1) by (simp add: distinct_map)
qed

text \<open>C33. Whatever associations were loaded from the persistence file, and whatever clients come and go afterwards, the
  pool never faults, no two leases in force share a handle or an address, every leased address lies in the configured
  range, and when a client is refused every address is leased or reserved by a fixed association.\<close>

theorem pool_leases_disjoint:
  assumes "ifconfig_pool_init typ start fin dup = Inr p0"
  shows "\<exists>p1 evs p2. pool_load p0 entries = Inr p1 \<and> pool_run p1 ops = Inr (evs, p2) \<and>
    (let leases = foldl lease_step [] evs
     in distinct (map fst leases) \<and> distinct (map (\<lambda>(h, l, r). r) leases) \<and>
        (\<forall>(h, l, r) \<in> set leases. lease_address_ok typ start fin l r) \<and>
        (ifconfig_pool_find p2 cn = - 1 \<longrightarrow>
           (\<forall>h. 0 \<le> h \<and> h < ip_size p0 \<longrightarrow> h \<in> fst ` set leases \<or> pe_fixed (ip_list p1 ! nat h))))"
proof -
  note i = ifconfig_pool_init_ok [OF assms]
  have "pool_ok p0" "pool_idle p0" using i by (auto simp: pool_idle_def)
  then obtain p1 where p1: "pool_load p0 entries = Inr p1" "pool_ok p1" "pool_idle p1"
    "ip_base p1 = ip_base p0" "ip_size p1 = ip_size p0" "ip_type p1 = ip_type p0"
    using pool_load_idle [of p0 entries] by blast
  have "leases_of p1 []" using p1(2,3) by (auto simp: leases_of_def pool_idle_def pool_ok_def)
  then obtain evs p2 where p2: "pool_run p1 ops = Inr (evs, p2)" "same_range p1 p2" "leases_of p2 (foldl lease_step [] evs)"
    using pool_run_leases [OF p1(2)] by blast
  let ?ls = "foldl lease_step [] evs"
  have ok2: "pool_ok p2" using same_range_ok [OF p2(2) p1(2)] .
  have addrs: "pool_addrs p2 = pool_addrs p0" "ip_size p2 = ip_size p0"
    using same_range_addrs [OF p2(2)] p2(2) p1(4-6) by (simp_all add: pool_addrs_def fun_eq_iff same_range_def)
  have mem: "0 \<le> h \<and> h < ip_size p0 \<and> (l, r) = pool_addrs p0 h" if "(h, l, r) \<in> set ?ls" for h l r
    using p2(3) that addrs by (auto simp: leases_of_def)
  have d: "distinct (map fst ?ls)" using p2(3) by (simp add: leases_of_def)
  have "distinct (map (\<lambda>(h, l, r). r) ?ls)"
  proof (rule distinct_map_inj [OF d])
    fix x y assume xy: "x \<in> set ?ls" "y \<in> set ?ls" "(\<lambda>(h, l, r). r) x = (\<lambda>(h, l, r). r) y"
    obtain h l r h' l' where "x = (h, l, r)" "y = (h', l', r)" using xy(3) by (cases x; cases y) auto
    then show "fst x = fst y" using xy(1,2) mem [of h l r] mem [of h' l' r] pool_addrs_distinct(1) [OF \<open>pool_ok p0\<close>, of h h']
      by (metis fst_conv snd_conv)
  qed
  moreover have "lease_address_ok typ start fin l r" if "(h, l, r) \<in> set ?ls" for h l r
    using pool_addrs_in_range [OF assms, of h] mem [OF that] by (metis fst_conv snd_conv)
  then have "\<forall>(h, l, r) \<in> set ?ls. lease_address_ok typ start fin l r" by auto
  moreover have "ifconfig_pool_find p2 cn = - 1 \<longrightarrow>
      (\<forall>h. 0 \<le> h \<and> h < ip_size p0 \<longrightarrow> h \<in> fst ` set ?ls \<or> pe_fixed (ip_list p1 ! nat h))"
  proof (intro impI allI)
    fix h assume that: "ifconfig_pool_find p2 cn = - 1" "0 \<le> h \<and> h < ip_size p0"
    have len: "nat h < length (ip_list p2)" "nat h < length (ip_list p1)" using that ok2 p1(2,5) addrs(2) by (simp_all add: pool_ok_def)
    have "pe_in_use (ip_list p2 ! nat h) \<or> pe_fixed (ip_list p2 ! nat h)"
      using ifconfig_pool_find_none(1) [of p2 cn] that(1) nth_mem [OF len(1)] by auto
    moreover have "pe_fixed (ip_list p2 ! nat h) = pe_fixed (ip_list p1 ! nat h)"
      using p2(2) len by (metis nth_map same_range_def)
    ultimately show "h \<in> fst ` set ?ls \<or> pe_fixed (ip_list p1 ! nat h)"
      using p2(3) that addrs(2) by (auto simp: leases_of_def)
  qed
  ultimately show ?thesis using p1(1) p2(1) d unfolding Let_def by (intro exI conjI)
qed

theorem pool_leases_disjoint_witness:
  "\<exists>p1 evs p2. pool_load (\<lparr>ip_base = 0x0A080004, ip_size = 2, ip_type = 0, ip_duplicate_cn = False,
       ip_list = replicate 2 \<lparr>pe_in_use = False, pe_common_name = None, pe_last_release = 0, pe_fixed = False\<rparr>\<rparr>) [] = Inr p1 \<and>
     pool_run p1 [Acquire 1 None, Acquire 2 None] = Inr (evs, p2) \<and> distinct (map (\<lambda>(h, l, r). r) (foldl lease_step [] evs))"
proof -
  have "ifconfig_pool_init IFCONFIG_POOL_30NET 0x0A080004 0x0A08000B False = Inr (\<lparr>ip_base = 0x0A080004, ip_size = 2, ip_type = 0, ip_duplicate_cn = False,
       ip_list = replicate 2 \<lparr>pe_in_use = False, pe_common_name = None, pe_last_release = 0, pe_fixed = False\<rparr>\<rparr>)"
    by code_simp
  from pool_leases_disjoint [OF this, of "[]" "[Acquire 1 None, Acquire 2 None]"] show ?thesis unfolding Let_def by blast
qed


lemma pool_find_loop_not_fixed:
  assumes "pool_find_loop False cn l i e prev new = (p, n)" "free_from l i n" "new < i"
  shows "\<not> pe_fixed (l ! nat (n - i))"
  using assms
proof (induction l arbitrary: i e prev new)
  case (Cons x xs)
  define b where "b \<longleftrightarrow> \<not> pe_in_use x \<and> lru_better x e new"
  obtain e' prev' where r: "pool_find_loop False cn xs (i + 1) e' prev' (if b then i else new) = (p, n)"
    using Cons.prems unfolding pool_find_loop_Cons b_def by (auto split: if_splits)
  show ?case
  proof (cases "free_from xs (i + 1) n")
    case True
    then have "(x # xs) ! nat (n - i) = xs ! nat (n - (i + 1))" by (intro nth_shift) (auto simp: free_from_def)
    then show ?thesis using Cons.IH [OF r True] Cons.prems(3) by auto
  next
    case False
    then have "n = i" using Cons.prems(2) by (simp add: free_from_Cons)
    moreover have "n = (if b then i else new)" using pool_find_loop_free [OF r] False by simp
    ultimately have b using Cons.prems(3) by (auto split: if_splits)
    then show ?thesis using \<open>n = i\<close> by (simp add: b_def lru_better_def)
  qed
qed simp

lemma free_from_0: "free_from (ip_list pool) 0 h = pool_free pool h"
  by (simp add: free_from_def pool_free_def)



end
