(* ===== verification/Hex_Format.thy ===== *)
theory Hex_Format
  imports Buf_Strings
begin

text \<open>
  Formatted output into a packet buffer and hexadecimal text (buffer.c).

  The arguments of a \<open>printf\<close> format are formatted by the caller: \<open>buf_printf\<close> takes the resulting
  string.  \<open>format_hex_ex\<close> returns the string that its buffer holds.
\<close>

section \<open>Operations\<close>

definition buf_printf :: "buffer \<Rightarrow> cstr \<Rightarrow> bool \<times> buffer" where
  "buf_printf b str =
     (if buf_defined b
      then (let cap = buf_forward_capacity b
            in if cap > 0
               then (case buf_bend b of
                       None \<Rightarrow> (False, b)
                     | Some p \<Rightarrow>
                         (let text = take (nat (cap - 1)) str;
                              b = buf_put b p (text @ [0]);
                              b = buf_put b (b_capacity b - 1) [0]
                          in (int (length str) < cap, b\<lparr>b_len := b_len b + int (length text)\<rparr>)))
               else (False, b))
      else (False, b))"

definition buf_catrunc :: "buffer \<Rightarrow> cstr \<Rightarrow> buffer" where
  "buf_catrunc b str =
     (if buf_forward_capacity b \<le> 1
      then (let len = int (length str) + 1
            in if len < buf_forward_capacity_total b then buf_put b (b_capacity b - len) (str @ [0]) else b)
      else b)"

fun dec_text :: "nat \<Rightarrow> cstr" where
  \<comment> \<open>\<open>%d\<close> of a number that is not negative\<close>
  "dec_text n = (if n < 10 then [48 + of_nat n] else dec_text (n div 10) @ [48 + of_nat (n mod 10)])"
declare dec_text.simps [simp del]

definition hex_digit :: "byte \<Rightarrow> byte" where
  \<comment> \<open>the character that \<open>%x\<close> prints for a value below 16\<close>
  "hex_digit v = (if v < 10 then 48 + v else 87 + v)"

definition hex_byte :: "byte \<Rightarrow> cstr" where
  \<comment> \<open>\<open>%02x\<close>\<close>
  "hex_byte v = [hex_digit (drop_bit 4 v), hex_digit (v AND 15)]"

fun format_hex_loop :: "int \<Rightarrow> cstr option \<Rightarrow> int \<Rightarrow> byte list \<Rightarrow> buffer \<Rightarrow> buffer result" where
  \<comment> \<open>the loop from index \<open>i\<close>\<close>
  "format_hex_loop space_break separator i [] out = Inr out"
| "format_hex_loop space_break separator i (v # vs) out =
     bind_result
       (case separator of
          None \<Rightarrow> Inr out
        | Some sep \<Rightarrow>
            if i \<noteq> 0
            then (if space_break = 0 then Inl DivisionByZero
                  else Inr (if c_mod i space_break = 0 then snd (buf_printf out sep) else out))
            else Inr out)
       (\<lambda>out. format_hex_loop space_break separator (i + 1) vs (snd (buf_printf out (hex_byte v))))"

definition format_hex_ex :: "(nat \<Rightarrow> byte) \<Rightarrow> byte list \<Rightarrow> int \<Rightarrow> int \<Rightarrow> cstr option \<Rightarrow> cstr result" where
  \<comment> \<open>\<open>data\<close> has \<open>size\<close> bytes\<close>
  "format_hex_ex junk data maxoutput space_break separator =
     bind_result
       (if maxoutput \<noteq> 0 then Inr maxoutput
        else if space_break = 0 then Inl DivisionByZero
        else case separator of
               None \<Rightarrow> Inl NullDeref
             | Some sep \<Rightarrow> Inr (int (length data) * 2 + c_div (int (length data)) space_break * int (length sep) + 2))
       (\<lambda>n. bind_result (alloc_buf junk n) (\<lambda>out.
              bind_result (format_hex_loop space_break separator 0 data out) (\<lambda>out.
                Inr (cstr_of (buf_block (buf_catrunc out [91, 109, 111, 114, 101, 46, 46, 46, 93]))))))"

definition format_hex :: "(nat \<Rightarrow> byte) \<Rightarrow> byte list \<Rightarrow> int \<Rightarrow> cstr result" where
  "format_hex junk data maxoutput = format_hex_ex junk data maxoutput 4 (Some [32])"

section \<open>The text\<close>

fun hex_text :: "nat \<Rightarrow> cstr \<Rightarrow> nat \<Rightarrow> byte list \<Rightarrow> cstr" where
  \<comment> \<open>two digits for each byte, with \<open>sep\<close> before every \<open>k\<close>-th one but the first\<close>
  "hex_text k sep i [] = []"
| "hex_text k sep i (v # vs) = (if i \<noteq> 0 \<and> i mod k = 0 then sep else []) @ hex_byte v @ hex_text k sep (Suc i) vs"

lemma hex_digit_nonzero: "v < 16 \<Longrightarrow> hex_digit v \<noteq> 0 \<and> isxdigit (hex_digit v)"
proof -
  assume "v < 16"
  then have u: "unat v < 16" by (simp add: word_less_nat_alt)
  have v: "v = of_nat (unat v)" by simp
  have "\<forall>n \<in> {..<16}. hex_digit (of_nat n) \<noteq> 0 \<and> isxdigit (hex_digit (of_nat n))"
    by code_simp
  then show ?thesis using u v by (metis lessThan_iff)
qed

lemma hex_nibbles: "drop_bit 4 (v :: byte) < 16" "v AND 15 < (16 :: byte)"
proof -
  have "unat (drop_bit 4 v) = unat v div 16" by (simp add: drop_bit_eq_div unat_div)
  then show "drop_bit 4 v < 16" using unat_bound [of v] by (simp add: word_less_nat_alt)
  have "v AND 15 \<le> 15" by (rule word_and_le1)
  then show "v AND 15 < 16" by (simp add: word_le_nat_alt word_less_nat_alt)
qed

lemma hex_byte_xdigits: "c \<in> set (hex_byte v) \<Longrightarrow> c \<noteq> 0 \<and> isxdigit c"
  using hex_digit_nonzero hex_nibbles by (auto simp: hex_byte_def)

lemma hex_text_nonzero: "0 \<notin> set sep \<Longrightarrow> 0 \<notin> set (hex_text k sep i vs)"
  by (induction k sep i vs rule: hex_text.induct) (auto dest: hex_byte_xdigits)


lemma div_pred: "0 < k \<Longrightarrow> 0 < (i::nat) \<Longrightarrow> i div k = (i - 1) div k + (if i mod k = 0 then 1 else 0)"
  by (cases i) (simp_all add: div_Suc)

lemma length_hex_byte [simp]: "length (hex_byte v) = 2"
  by (simp add: hex_byte_def)

lemma length_hex_text:
  "0 < k \<Longrightarrow> length (hex_text k sep i vs) + length sep * ((i - 1) div k) = 2 * length vs + length sep * ((i + length vs - 1) div k)"
proof (induction k sep i vs rule: hex_text.induct)
  case (2 k sep i v vs)
  have "length sep * (i div k) = length sep * ((i - 1) div k) + (if i \<noteq> 0 \<and> i mod k = 0 then length sep else 0)"
    using div_pred [OF "2.prems", of i] by (cases "i = 0") (simp_all add: algebra_simps)
  then show ?case using "2.IH" [OF "2.prems"] by auto
qed simp

lemma nth_mem_write_at: "i + length bs \<le> length ds \<Longrightarrow> k < length bs \<Longrightarrow> mem_write ds i bs ! (i + k) = bs ! k"
  by (simp add: nth_mem_write)

lemma buf_printf_ok:
  assumes ok: "buf_ok b" and room: "int (length str) < buf_forward_capacity b"
  shows "\<exists>b'. buf_printf b str = (True, b') \<and> buf_ok b' \<and> buf_contents b' = buf_contents b @ str \<and> b_capacity b' = b_capacity b
    \<and> b_offset b' = b_offset b \<and> b_len b' = b_len b + int (length str)
    \<and> buf_block b' ! nat (b_offset b' + b_len b') = 0"
proof -
  obtain ds where ds: "b_data b = Some ds" "length ds = nat (b_capacity b)" using ok by (auto simp: buf_ok_def buf_block_def)
  have pos: "0 \<le> b_offset b" "0 \<le> b_len b" "b_offset b + b_len b \<le> b_capacity b" using ok by (auto simp: buf_ok_def)
  then have fc: "buf_forward_capacity b = b_capacity b - (b_offset b + b_len b)" using ok by (simp add: buf_forward_capacity_def Let_def)
  have t: "take (nat (buf_forward_capacity b - 1)) str = str" using room by simp
  let ?p = "nat (b_offset b + b_len b)" and ?c = "nat (b_capacity b)"
  have le: "?p + (length str + 1) \<le> ?c" using room fc pos by linarith
  define ds1 where "ds1 = mem_write ds ?p (str @ [0])"
  define ds2 where "ds2 = mem_write ds1 (?c - 1) [0]"
  have l1: "length ds1 = ?c" unfolding ds1_def using le ds(2) by simp
  have l2: "length ds2 = ?c" unfolding ds2_def using l1 le by simp
  have c1: "nat (b_capacity b - 1) = ?c - 1" by simp
  let ?b = "b\<lparr>b_data := Some ds2, b_len := b_len b + int (length str)\<rparr>"
  have pr: "buf_printf b str = (True, ?b)"
    using ok room fc ds(1) t c1
    by (simp add: buf_printf_def buf_defined_def buf_bend_def buf_put_def Let_def ds1_def ds2_def)
  have okb: "buf_ok ?b" using ok pos l2 le room fc by (simp add: buf_ok_def buf_block_def)
  have "mem_read ds2 (nat (b_offset b)) (nat (b_len b) + length str) = mem_read ds (nat (b_offset b)) (nat (b_len b)) @ str"
  proof -
    have p: "?p = nat (b_offset b) + nat (b_len b)" using pos by (simp add: nat_add_distrib)
    have "mem_read ds2 (nat (b_offset b)) (nat (b_len b) + length str) = mem_read ds1 (nat (b_offset b)) (nat (b_len b) + length str)"
    proof -
      have "?c - 1 + length [0 :: byte] \<le> length ds1" "nat (b_offset b) + (nat (b_len b) + length str) \<le> ?c - 1"
        using le l1 p by (simp_all, linarith)
      then show ?thesis unfolding ds2_def by (rule mem_read_write_before)
    qed
    also have "\<dots> = take (nat (b_len b) + length str) (mem_read ds1 (nat (b_offset b)) (nat (b_len b) + length (str @ [0])))"
      by (simp add: mem_read_def min_def)
    also have "mem_read ds1 (nat (b_offset b)) (nat (b_len b) + length (str @ [0])) = mem_read ds (nat (b_offset b)) (nat (b_len b)) @ str @ [0]"
      unfolding ds1_def using le ds(2) p by (intro mem_read_write_append) auto
    also have "take (nat (b_len b) + length str) (mem_read ds (nat (b_offset b)) (nat (b_len b)) @ str @ [0]) = mem_read ds (nat (b_offset b)) (nat (b_len b)) @ str"
      using le ds(2) p by simp
    finally show ?thesis .
  qed
  then have cont: "buf_contents ?b = buf_contents b @ str"
    using ok okb pos ds(1) by (simp add: buf_contents_def buf_block_def nat_add_distrib)
  have "ds2 ! (?p + length str) = 0"
  proof -
    have "ds1 ! (?p + length str) = 0" unfolding ds1_def using le ds(2) by (simp add: nth_mem_write)
    then show ?thesis unfolding ds2_def using le l1 by (simp add: nth_mem_write)
  qed
  moreover have "nat (b_offset b + (b_len b + int (length str))) = ?p + length str" using pos by (simp add: nat_add_distrib flip: add.assoc)
  ultimately show ?thesis using pr okb cont by (simp add: buf_block_def)
qed

lemma format_hex_loop_ok:
  assumes "buf_ok out" "b_offset out = 0" "0 < k"
    and "int (length (hex_text k sep i vs)) < buf_forward_capacity out" "vs = [] \<Longrightarrow> buf_block out ! nat (b_len out) = 0"
  shows "\<exists>out'. format_hex_loop (int k) (Some sep) (int i) vs out = Inr out' \<and> buf_ok out' \<and> b_offset out' = 0
    \<and> buf_contents out' = buf_contents out @ hex_text k sep i vs \<and> b_capacity out' = b_capacity out
    \<and> b_len out' = b_len out + int (length (hex_text k sep i vs)) \<and> buf_block out' ! nat (b_len out') = 0"
  using assms
proof (induction k sep i vs arbitrary: out rule: hex_text.induct)
  case (1 k sep i)
  then show ?case by simp
next
  case (2 k sep i v vs)
  let ?s = "if i \<noteq> 0 \<and> i mod k = 0 then sep else []"
  have fc: "buf_forward_capacity b = b_capacity b - b_len b" if "buf_ok b" "b_offset b = 0" for b
    using that by (auto simp: buf_forward_capacity_def buf_ok_def Let_def)
  obtain out1 where o1: "(if i \<noteq> 0 \<and> i mod k = 0 then snd (buf_printf out sep) else out) = out1" "buf_ok out1" "b_offset out1 = 0"
      "buf_contents out1 = buf_contents out @ ?s" "b_capacity out1 = b_capacity out" "b_len out1 = b_len out + int (length ?s)"
  proof (cases "i \<noteq> 0 \<and> i mod k = 0")
    case True
    then have "int (length sep) < buf_forward_capacity out" using "2.prems"(4) by auto
    then show ?thesis using that buf_printf_ok [OF "2.prems"(1), of sep] True "2.prems"(2) by fastforce
  next
    case False
    then show ?thesis using that "2.prems"(1,2) by auto
  qed
  have len: "length (hex_text k sep i (v # vs)) = length ?s + 2 + length (hex_text k sep (Suc i) vs)" by simp
  have "int (length (hex_byte v)) < buf_forward_capacity out1"
    using "2.prems"(4) o1 fc [OF "2.prems"(1,2)] fc [OF o1(2,3)] unfolding len by simp
  then obtain out2 where o2: "buf_printf out1 (hex_byte v) = (True, out2)" "buf_ok out2" "b_offset out2 = 0"
      "buf_contents out2 = buf_contents out @ ?s @ hex_byte v" "b_capacity out2 = b_capacity out" "b_len out2 = b_len out1 + 2"
      "buf_block out2 ! nat (b_len out2) = 0"
    using buf_printf_ok [OF o1(2), of "hex_byte v"] o1 by auto
  have "int (length (hex_text k sep (Suc i) vs)) < buf_forward_capacity out2"
    using "2.prems"(4) o2(5,6) o1(5,6) fc [OF "2.prems"(1,2)] fc [OF o2(2,3)] unfolding len by simp
  then obtain out' where o': "format_hex_loop (int k) (Some sep) (int (Suc i)) vs out2 = Inr out'" "buf_ok out'" "b_offset out' = 0"
      "buf_contents out' = buf_contents out2 @ hex_text k sep (Suc i) vs" "b_capacity out' = b_capacity out2"
      "b_len out' = b_len out2 + int (length (hex_text k sep (Suc i) vs))" "buf_block out' ! nat (b_len out') = 0"
    using "2.IH" [OF o2(2,3) "2.prems"(3)] o2(7) by blast
  have "c_mod (int i) (int k) = int (i mod k)" using "2.prems"(3) by (simp add: zmod_int)
  then have "format_hex_loop (int k) (Some sep) (int i) (v # vs) out = Inr out'"
    using o1(1) o2(1) o'(1) "2.prems"(3) by (auto simp: add.commute split: if_splits)
  then show ?case using o' o2(4-6) o1(6) by (simp add: len)
qed


theorem format_hex_ex_text:
  assumes "0 < k" "0 \<notin> set sep" "int (length data) * 2 + int (length data) * int (length sep) + 2 < BUF_SIZE_MAX"
  shows "format_hex_ex junk data 0 (int k) (Some sep) = Inr (hex_text k sep 0 data)"
proof -
  let ?n = "int (length data) * 2 + int (length data div k) * int (length sep) + 2"
  let ?t = "hex_text k sep 0 data"
  have size: "int (length data) * 2 + c_div (int (length data)) (int k) * int (length sep) + 2 = ?n"
    using assms(1) by (simp add: zdiv_int)
  have "int (length data div k) * int (length sep) \<le> int (length data) * int (length sep)"
    using div_le_dividend by (intro mult_right_mono) simp_all
  then have n1: "?n < BUF_SIZE_MAX" using assms(3) by linarith
  have n0: "0 \<le> ?n" by simp
  note n = n0 n1
  have nn: "\<not> ?n < 0" using n0 by (simp only: not_less)
  obtain out where out: "alloc_buf junk ?n = Inr out" "buf_ok out" "b_capacity out = ?n" "b_offset out = 0" "b_len out = 0"
    using alloc_buf_ok [OF n] by blast
  have len: "length ?t = 2 * length data + length sep * ((length data - 1) div k)"
    using length_hex_text [OF assms(1), of sep 0 data] by simp
  have "(length data - 1) div k \<le> length data div k" by (simp add: div_le_mono)
  then have "length sep * ((length data - 1) div k) \<le> length sep * (length data div k)" by simp
  then have "length ?t + 2 \<le> length data * 2 + length data div k * length sep + 2" unfolding len by (simp add: mult.commute)
  then have "int (length ?t + 2) \<le> int (length data * 2 + length data div k * length sep + 2)" by (simp only: of_nat_le_iff)
  then have room: "int (length ?t) + 2 \<le> ?n" by simp
  have fc: "buf_forward_capacity out = ?n" using out n nn by (simp add: buf_forward_capacity_def Let_def)
  have e: "buf_contents out = []" using out(2,5) by (simp add: buf_contents_def)
  show ?thesis
  proof (cases "data = []")
    case True
    have "0 < length (buf_block out)" using out(2,3) n True by (auto simp: buf_ok_def)
    have blk: "buf_block out ! 0 = 0" using out(1) n True
      by (auto simp: alloc_buf_def malloc_block_def buf_block_def split: if_splits)
    have "buf_forward_capacity out > 1" using fc True by simp
    then have "buf_catrunc out s = out" for s by (simp add: buf_catrunc_def)
    moreover have "cstr_of (buf_block out) = []" using blk \<open>0 < length (buf_block out)\<close> by (cases "buf_block out") (simp_all add: cstr_of_def)
    ultimately show ?thesis using assms(1) out(1) True by (simp add: format_hex_ex_def zdiv_int)
  next
    case False
    then obtain out' where o': "format_hex_loop (int k) (Some sep) (int 0) data out = Inr out'" "buf_ok out'" "b_offset out' = 0"
        "buf_contents out' = ?t" "b_capacity out' = ?n" "b_len out' = int (length ?t)" "buf_block out' ! nat (b_len out') = 0"
      using format_hex_loop_ok [OF out(2,4) assms(1), of sep 0 data] room fc out(3,5) e by auto
    have fc': "buf_forward_capacity out' = ?n - int (length ?t)" using o' room by (simp add: buf_forward_capacity_def Let_def)
    then have "buf_catrunc out' s = out'" for s using room by (simp add: buf_catrunc_def)
    moreover have "cstr_of (buf_block out') = ?t"
    proof (rule cstr_of_nth_0)
      show "take (length ?t) (buf_block out') = ?t" using o'(2-4,6) by (simp add: buf_contents_def mem_read_def)
      have "int (length (buf_block out')) = ?n" using o'(2,5) unfolding buf_ok_def by simp
      then show "length ?t < length (buf_block out')" using room by linarith
      show "buf_block out' ! length ?t = 0" using o'(6,7) by simp
      show "0 \<notin> set ?t" by (rule hex_text_nonzero [OF assms(2)])
    qed
    ultimately show ?thesis using assms(1) out(1) o'(1) by (simp add: format_hex_ex_def zdiv_int)
  qed
qed


section \<open>Text in a fresh buffer\<close>

definition text_buf :: "buffer \<Rightarrow> int \<Rightarrow> byte list \<Rightarrow> bool" where
  \<comment> \<open>a buffer of capacity \<open>cap\<close> holding a null-terminated text from the start\<close>
  "text_buf b cap s \<longleftrightarrow> buf_ok b \<and> b_offset b = 0 \<and> b_capacity b = cap \<and> buf_contents b = s
     \<and> (buf_block b ! nat (b_len b) = 0 \<or> s = [])"

lemma text_buf_printf:
  assumes "text_buf b cap s" "int (length s + length str) < cap"
  shows "text_buf (snd (buf_printf b str)) cap (s @ str) \<and> (s @ str \<noteq> [] \<longrightarrow> buf_block (snd (buf_printf b str)) ! length (s @ str) = 0)"
proof -
  have l: "b_len b = int (length s)" using assms(1) length_buf_contents [of b] by (auto simp: text_buf_def)
  then have "int (length str) < buf_forward_capacity b"
    using assms by (auto simp: text_buf_def buf_forward_capacity_def Let_def)
  from buf_printf_ok [OF _ this] assms(1) obtain b' where b': "buf_printf b str = (True, b')" "buf_ok b'"
      "buf_contents b' = buf_contents b @ str" "b_capacity b' = b_capacity b" "b_offset b' = b_offset b"
      "b_len b' = b_len b + int (length str)" "buf_block b' ! nat (b_offset b' + b_len b') = 0" by (auto simp: text_buf_def)
  moreover have "nat (b_len b') = length (s @ str)" using l b'(6) by simp
  ultimately show ?thesis using assms(1) by (auto simp: text_buf_def)
qed

lemma text_buf_string:
  assumes "text_buf b cap s" "s \<noteq> []" "0 \<notin> set s" "int (length s) < cap"
  shows "cstr_of (drop (nat (b_offset b)) (buf_block b)) = s"
proof -
  have l: "b_len b = int (length s)" using assms(1) length_buf_contents [of b] by (auto simp: text_buf_def)
  have "cstr_of (buf_block b) = s"
  proof (rule cstr_of_nth_0)
    show "take (length s) (buf_block b) = s" using assms(1) l by (auto simp: text_buf_def buf_contents_def mem_read_def)
    have "int (length (buf_block b)) = cap" using assms(1) by (simp add: text_buf_def buf_ok_def)
    then show "length s < length (buf_block b)" using assms(4) by linarith
    show "buf_block b ! length s = 0" using assms(1,2) l by (simp add: text_buf_def)
    show "0 \<notin> set s" by (rule assms(3))
  qed
  then show ?thesis using assms(1) by (simp add: text_buf_def)
qed

end
