(* ===== verification/Link_Addr.thy ===== *)
theory Link_Addr
  imports Hex_Format
begin

text \<open>
  Addresses of the transport (socket.h, socket.c): socket addresses, the address a peer is
  reached at, which incoming packets are accepted, and addresses as text.

  An \<open>in_addr_t\<close> is kept in host byte order everywhere, so \<open>htonl\<close> and \<open>ntohl\<close> do not appear.
  The scripts and plugins that \<open>link_socket_connection_initiated\<close> starts, with the environment it prepares for them,
  are left out.
\<close>

section \<open>Socket addresses\<close>

type_synonym in_addr_t = u32

definition AF_INET :: u16 where "AF_INET = 2"

definition PROTO_UDPv4 :: int where "PROTO_UDPv4 = 0"
definition PROTO_TCPv4_SERVER :: int where "PROTO_TCPv4_SERVER = 1"
definition PROTO_TCPv4_CLIENT :: int where "PROTO_TCPv4_CLIENT = 2"
definition PROTO_TCPv4 :: int where "PROTO_TCPv4 = 3"
definition PROTO_N :: int where "PROTO_N = 4"

record openvpn_sockaddr =
  sa_family :: u16
  sa_port :: u16
  sa_addr :: in_addr_t

record link_socket_actual =
  la_dest :: openvpn_sockaddr
  la_ifindex :: int            \<comment> \<open>\<open>pi.ipi_ifindex\<close>\<close>
  la_spec_dst :: in_addr_t     \<comment> \<open>\<open>pi.ipi_spec_dst\<close>\<close>

record link_socket_addr =
  lsa_local :: openvpn_sockaddr
  lsa_remote :: openvpn_sockaddr
  lsa_actual :: link_socket_actual

record link_socket_info =
  lsi_lsa :: link_socket_addr
  lsi_connection_established :: bool
  lsi_remote_float :: bool
  lsi_proto :: int
  lsi_mtu_changed :: int

definition sockaddr_zero :: openvpn_sockaddr where
  "sockaddr_zero = \<lparr>sa_family = 0, sa_port = 0, sa_addr = 0\<rparr>"

definition link_socket_actual_zero :: link_socket_actual where
  "link_socket_actual_zero = \<lparr>la_dest = sockaddr_zero, la_ifindex = 0, la_spec_dst = 0\<rparr>"

definition legal_ipv4_port :: "int \<Rightarrow> bool" where
  "legal_ipv4_port p \<longleftrightarrow> p > 0 \<and> p < 65536"

definition is_proto_tcp :: "int \<Rightarrow> bool" where
  "is_proto_tcp p \<longleftrightarrow> p > 0"

definition link_socket_proto_connection_oriented :: "int \<Rightarrow> bool" where
  "link_socket_proto_connection_oriented proto \<longleftrightarrow> proto = PROTO_TCPv4_SERVER \<or> proto = PROTO_TCPv4_CLIENT"

definition addr_defined :: "openvpn_sockaddr \<Rightarrow> bool" where
  "addr_defined a \<longleftrightarrow> sa_addr a \<noteq> 0"

definition link_socket_actual_defined :: "link_socket_actual option \<Rightarrow> bool" where
  "link_socket_actual_defined act \<longleftrightarrow> (case act of None \<Rightarrow> False | Some act \<Rightarrow> addr_defined (la_dest act))"

definition addr_match :: "openvpn_sockaddr \<Rightarrow> openvpn_sockaddr \<Rightarrow> bool" where
  "addr_match a1 a2 \<longleftrightarrow> sa_addr a1 = sa_addr a2"

definition addr_host :: "openvpn_sockaddr \<Rightarrow> in_addr_t" where
  "addr_host s = sa_addr s"

definition addr_port_match :: "openvpn_sockaddr \<Rightarrow> openvpn_sockaddr \<Rightarrow> bool" where
  "addr_port_match a1 a2 \<longleftrightarrow> sa_addr a1 = sa_addr a2 \<and> sa_port a1 = sa_port a2"

definition addr_match_proto :: "openvpn_sockaddr \<Rightarrow> openvpn_sockaddr \<Rightarrow> int \<Rightarrow> bool" where
  "addr_match_proto a1 a2 proto =
     (if link_socket_proto_connection_oriented proto then addr_match a1 a2 else addr_port_match a1 a2)"

definition link_socket_actual_match :: "link_socket_actual \<Rightarrow> link_socket_actual \<Rightarrow> bool" where
  "link_socket_actual_match a1 a2 = addr_port_match (la_dest a1) (la_dest a2)"

section \<open>Incoming and outgoing addresses\<close>

definition link_socket_verify_incoming_addr :: "buffer \<Rightarrow> link_socket_info \<Rightarrow> link_socket_actual \<Rightarrow> bool" where
  "link_socket_verify_incoming_addr b info from_addr =
     (if b_len b > 0
      then (if sa_family (la_dest from_addr) \<noteq> AF_INET then False
            else if \<not> link_socket_actual_defined (Some from_addr) then False
            else if lsi_remote_float info \<or> \<not> addr_defined (lsa_remote (lsi_lsa info)) then True
            else addr_match_proto (la_dest from_addr) (lsa_remote (lsi_lsa info)) (lsi_proto info))
      else False)"

definition link_socket_bad_incoming_addr :: "buffer \<Rightarrow> buffer" where
  "link_socket_bad_incoming_addr b = b\<lparr>b_len := 0\<rparr>"

definition link_socket_get_outgoing_addr ::
    "buffer \<Rightarrow> link_socket_info \<Rightarrow> link_socket_actual option \<Rightarrow> buffer \<times> link_socket_actual option" where
  \<comment> \<open>\<open>*act\<close> is left alone when the buffer is empty\<close>
  "link_socket_get_outgoing_addr b info act =
     (if b_len b > 0
      then (if link_socket_actual_defined (Some (lsa_actual (lsi_lsa info))) then (b, Some (lsa_actual (lsi_lsa info)))
            else (b\<lparr>b_len := 0\<rparr>, None))
      else (b, act))"

definition link_socket_connection_initiated :: "link_socket_info \<Rightarrow> link_socket_actual \<Rightarrow> link_socket_info" where
  "link_socket_connection_initiated info act =
     info\<lparr>lsi_lsa := (lsi_lsa info)\<lparr>lsa_actual := act\<rparr>, lsi_connection_established := True\<rparr>"

definition link_socket_set_outgoing_addr :: "buffer option \<Rightarrow> link_socket_info \<Rightarrow> link_socket_actual \<Rightarrow> link_socket_info" where
  "link_socket_set_outgoing_addr b info act =
     (if (case b of None \<Rightarrow> True | Some b \<Rightarrow> b_len b > 0)
      then (let lsa = lsi_lsa info
            in if (\<not> lsi_connection_established info
                   \<or> \<not> addr_match_proto (la_dest act) (la_dest (lsa_actual lsa)) (lsi_proto info))
                \<and> (lsi_remote_float info \<or> \<not> addr_defined (lsa_remote lsa)
                   \<or> addr_match_proto (la_dest act) (lsa_remote lsa) (lsi_proto info))
               then link_socket_connection_initiated info act
               else info)
      else info)"

definition link_socket_current_remote :: "link_socket_info \<Rightarrow> in_addr_t" where
  "link_socket_current_remote info =
     (let lsa = lsi_lsa info
      in if link_socket_actual_defined (Some (lsa_actual lsa)) then sa_addr (la_dest (lsa_actual lsa))
         else if addr_defined (lsa_remote lsa) then sa_addr (lsa_remote lsa)
         else 0)"

section \<open>Protocol names\<close>

definition proto_names :: "(cstr \<times> cstr) list" where
  "proto_names =
     [(map of_char ''udp'', map of_char ''UDPv4''),
      (map of_char ''tcp-server'', map of_char ''TCPv4_SERVER''),
      (map of_char ''tcp-client'', map of_char ''TCPv4_CLIENT''),
      (map of_char ''tcp'', map of_char ''TCPv4'')]"

definition ascii2proto :: "cstr \<Rightarrow> int" where
  "ascii2proto proto_name =
     (case find_index (\<lambda>p. fst p = proto_name) proto_names of Some i \<Rightarrow> int i | None \<Rightarrow> - 1)"

definition proto2ascii :: "int \<Rightarrow> bool \<Rightarrow> cstr" where
  "proto2ascii proto display_form =
     (if proto < 0 \<or> proto \<ge> PROTO_N then map of_char ''[unknown protocol]''
      else if display_form then snd (proto_names ! nat proto)
      else fst (proto_names ! nat proto))"

definition proto_remote :: "int \<Rightarrow> bool \<Rightarrow> int result" where
  "proto_remote proto remote =
     assert_that (proto \<ge> 0 \<and> proto < PROTO_N)
       (Inr (if remote
             then (if proto = PROTO_TCPv4_SERVER then PROTO_TCPv4_CLIENT
                   else if proto = PROTO_TCPv4_CLIENT then PROTO_TCPv4_SERVER else proto)
             else proto))"

section \<open>Addresses as text\<close>

definition OIA_HOSTNAME :: int where "OIA_HOSTNAME = 0"
definition OIA_IP :: int where "OIA_IP = 1"
definition OIA_ERROR :: int where "OIA_ERROR = - 1"

definition IA_EMPTY_IF_UNDEF :: u32 where "IA_EMPTY_IF_UNDEF = 1"
definition IA_NET_ORDER :: u32 where "IA_NET_ORDER = 2"

definition dec_value :: "cstr \<Rightarrow> nat" where
  "dec_value ds = foldl (\<lambda>n d. 10 * n + (unat d - 48)) 0 ds"

definition scan_u :: "cstr \<Rightarrow> (u32 \<times> cstr) option" where
  \<comment> \<open>\<open>%u\<close> of \<open>sscanf\<close>: \<open>strtoul\<close> on 64 bits, stored into an \<open>unsigned int\<close>\<close>
  "scan_u s =
     (let s = dropWhile isspace s;
          neg = (s \<noteq> [] \<and> hd s = 45);
          s = (if s \<noteq> [] \<and> (hd s = 45 \<or> hd s = 43) then tl s else s);
          ds = takeWhile isdigit s;
          v = dec_value ds
      in if ds = [] then None
         else Some (if v \<ge> 2 ^ 64 then - 1 else if neg then - of_nat v else of_nat v, dropWhile isdigit s))"

fun scan_quad :: "nat \<Rightarrow> cstr \<Rightarrow> u32 list option" where
  \<comment> \<open>\<open>n + 1\<close> numbers separated by dots\<close>
  "scan_quad 0 s = map_option (\<lambda>(v, s). [v]) (scan_u s)"
| "scan_quad (Suc n) s =
     (case scan_u s of
        Some (v, c # s) \<Rightarrow> if c = 46 then map_option ((#) v) (scan_quad n s) else None
      | _ \<Rightarrow> None)"

definition openvpn_inet_aton :: "cstr \<Rightarrow> int \<times> in_addr_t" where
  \<comment> \<open>the status and \<open>*addr\<close>\<close>
  "openvpn_inet_aton dotted_quad =
     (let other = (if string_class dotted_quad (CC_DIGIT OR CC_DOT) 0 then OIA_ERROR else OIA_HOSTNAME)
      in case scan_quad 3 dotted_quad of
           Some [a, b, c, d] \<Rightarrow>
             if a < 256 \<and> b < 256 \<and> c < 256 \<and> d < 256
             then (OIA_IP, push_bit 24 a OR push_bit 16 b OR push_bit 8 c OR d)
             else (other, 0)
         | _ \<Rightarrow> (other, 0))"

fun run_length_safe :: "(byte \<Rightarrow> bool) \<Rightarrow> byte \<Rightarrow> nat \<Rightarrow> nat \<Rightarrow> cstr \<Rightarrow> bool" where
  \<comment> \<open>the loops of \<open>ip_addr_dotted_quad_safe\<close> and \<open>mac_addr_safe\<close>: \<open>nnum\<close> characters of a group read\<close>
  "run_length_safe inside sep mx nnum [] = True"
| "run_length_safe inside sep mx nnum (c # cs) =
     (if inside c then (if nnum + 1 > mx then False else run_length_safe inside sep mx (nnum + 1) cs)
      else if c = sep then run_length_safe inside sep mx 0 cs
      else False)"

definition ip_addr_dotted_quad_safe :: "cstr option \<Rightarrow> bool" where
  "ip_addr_dotted_quad_safe dotted_quad =
     (case dotted_quad of
        None \<Rightarrow> False
      | Some s \<Rightarrow>
          if length s > 15 then False
          else if \<not> run_length_safe isdigit 46 3 0 s then False
          else fst (openvpn_inet_aton s) = OIA_IP)"

definition dns_addr_safe :: "cstr option \<Rightarrow> bool" where
  "dns_addr_safe addr =
     (case addr of
        None \<Rightarrow> False
      | Some s \<Rightarrow> length s > 0 \<and> length s \<le> 255 \<and> string_class s (CC_ALNUM OR CC_DASH OR CC_DOT) 0)"

definition ip_or_dns_addr_safe :: "cstr option \<Rightarrow> bool \<Rightarrow> bool" where
  "ip_or_dns_addr_safe addr allow_fqdn =
     (if ip_addr_dotted_quad_safe addr then True else if allow_fqdn then dns_addr_safe addr else False)"

definition mac_addr_safe :: "cstr option \<Rightarrow> bool" where
  "mac_addr_safe mac_addr =
     (case mac_addr of
        None \<Rightarrow> False
      | Some s \<Rightarrow> if length s > 17 then False else run_length_safe isxdigit 58 2 0 s)"

definition inet_ntoa :: "in_addr_t \<Rightarrow> cstr" where
  "inet_ntoa a =
     dec_text (unat (drop_bit 24 a)) @ [46] @ dec_text (unat (drop_bit 16 a AND 255)) @ [46]
       @ dec_text (unat (drop_bit 8 a AND 255)) @ [46] @ dec_text (unat (a AND 255))"

definition print_in_addr_t :: "(nat \<Rightarrow> byte) \<Rightarrow> in_addr_t \<Rightarrow> u32 \<Rightarrow> cstr result" where
  "print_in_addr_t junk addr flags =
     bind_result (alloc_buf junk 64) (\<lambda>out.
       let out = (if addr \<noteq> 0 \<or> flags AND IA_EMPTY_IF_UNDEF = 0 then snd (buf_printf out (inet_ntoa addr)) else out)
       in Inr (cstr_of (drop (nat (b_offset out)) (buf_block out))))"



section \<open>Printed addresses are read back\<close>

lemma unat_digit: "k < 10 \<Longrightarrow> unat (48 + of_nat k :: byte) = 48 + k"
  by (simp add: unat_word_ariths unat_of_nat take_bit_eq_mod)

lemma isdigit_digit: "k < 10 \<Longrightarrow> isdigit (48 + of_nat k)"
  using unat_digit [of k] by (simp add: isdigit_def word_le_nat_alt)

lemma dec_text_digits: "c \<in> set (dec_text n) \<Longrightarrow> isdigit c"
proof (induction n rule: dec_text.induct)
  case (1 n)
  then show ?case using isdigit_digit [of "n mod 10"] isdigit_digit [of n]
    by (subst (asm) (2) dec_text.simps) (auto split: if_splits)
qed

lemma dec_text_ne: "dec_text n \<noteq> []"
  by (subst dec_text.simps) simp

lemma dec_value_dec_text: "dec_value (dec_text n) = n"
proof (induction n rule: dec_text.induct)
  case (1 n)
  show ?case
  proof (cases "n < 10")
    case True
    then show ?thesis using unat_digit [of n] by (subst dec_text.simps) (simp add: dec_value_def)
  next
    case False
    then have "dec_value (dec_text n) = 10 * dec_value (dec_text (n div 10)) + n mod 10"
      using unat_digit [of "n mod 10"] by (subst dec_text.simps) (simp add: dec_value_def)
    then show ?thesis using "1.IH" [OF False] by simp
  qed
qed

lemma length_dec_text_byte: "n < 256 \<Longrightarrow> length (dec_text n) \<le> 3"
  by (simp add: dec_text.simps)

lemma digit_not_space: "isdigit c \<Longrightarrow> \<not> isspace c \<and> c \<noteq> 45 \<and> c \<noteq> 43 \<and> c \<noteq> 46 \<and> c \<noteq> 0"
  by (auto simp: isdigit_def isspace_def word_le_nat_alt)

lemma scan_u_dec_text:
  assumes "n < 2 ^ 64" "rest = [] \<or> \<not> isdigit (hd rest)"
  shows "scan_u (dec_text n @ rest) = Some (of_nat n, rest)"
proof -
  obtain c cs where d: "dec_text n = c # cs" using dec_text_ne [of n] by (cases "dec_text n") auto
  have c: "isdigit c" "\<not> isspace c" "c \<noteq> 45" "c \<noteq> 43" and cs: "\<And>x. x \<in> set cs \<Longrightarrow> isdigit x"
    using dec_text_digits [of _ n] digit_not_space [of c] by (auto simp: d)
  have "takeWhile isdigit (dec_text n @ rest) = dec_text n" "dropWhile isdigit (dec_text n @ rest) = rest"
    using assms(2) dec_text_digits [of _ n] by (cases rest; simp add: takeWhile_append2 dropWhile_append2)+
  then show ?thesis
    using c assms(1) dec_value_dec_text [of n] unfolding scan_u_def Let_def by (simp add: d)
qed

definition quad_text :: "nat \<Rightarrow> nat \<Rightarrow> nat \<Rightarrow> nat \<Rightarrow> cstr" where
  "quad_text a b c d = dec_text a @ [46] @ dec_text b @ [46] @ dec_text c @ [46] @ dec_text d"

lemma scan_quad_text:
  assumes "a < 256" "b < 256" "c < 256" "d < 256"
  shows "scan_quad 3 (quad_text a b c d) = Some [of_nat a, of_nat b, of_nat c, of_nat d]"
proof -
  have nd: "\<not> isdigit 46" by (simp add: isdigit_def)
  have s: "n < 256 \<Longrightarrow> scan_u (dec_text n @ 46 # rest) = Some (of_nat n, 46 # rest)" for n rest
    using scan_u_dec_text [of n "46 # rest"] nd by simp
  have e: "scan_u (dec_text d) = Some (of_nat d, [])"
    using scan_u_dec_text [of d "[]"] assms(4) by simp
  show ?thesis
    using assms e by (simp add: quad_text_def numeral_3_eq_3 s)
qed

lemma run_length_safe_append:
  assumes "\<And>c. c \<in> set ds \<Longrightarrow> inside c" "n + length ds \<le> mx"
  shows "run_length_safe inside sep mx n (ds @ rest) = run_length_safe inside sep mx (n + length ds) rest"
  using assms by (induction ds arbitrary: n) auto

lemma quad_text_safe:
  assumes "a < 256" "b < 256" "c < 256" "d < 256"
  shows "run_length_safe isdigit 46 3 0 (quad_text a b c d)" "length (quad_text a b c d) \<le> 15" "0 \<notin> set (quad_text a b c d)"
    "quad_text a b c d \<noteq> []"
proof -
  note l = assms [THEN length_dec_text_byte]
  have nd: "\<not> isdigit 46" by (simp add: isdigit_def)
  have s: "n < 256 \<Longrightarrow> run_length_safe isdigit 46 3 0 (dec_text n @ 46 # rest) = run_length_safe isdigit 46 3 0 rest" for n rest
    using run_length_safe_append [of "dec_text n" isdigit 0 3 46 "46 # rest"] dec_text_digits length_dec_text_byte [of n] nd by simp
  have e: "run_length_safe isdigit 46 3 0 (dec_text d)"
    using run_length_safe_append [of "dec_text d" isdigit 0 3 46 "[]"] dec_text_digits l(4) by simp
  show "run_length_safe isdigit 46 3 0 (quad_text a b c d)" using assms e by (simp add: quad_text_def s)
  show "length (quad_text a b c d) \<le> 15" using l by (simp add: quad_text_def)
  show "0 \<notin> set (quad_text a b c d)" using dec_text_digits digit_not_space by (fastforce simp: quad_text_def)
  show "quad_text a b c d \<noteq> []" by (simp add: quad_text_def)
qed

lemma u32_of_quad:
  "push_bit 24 (drop_bit 24 (a :: u32)) OR push_bit 16 (drop_bit 16 a AND 255) OR push_bit 8 (drop_bit 8 a AND 255) OR a AND 255 = a"
proof (rule bit_word_eqI)
  fix n
  assume "n < LENGTH(32)"
  then consider "n < 8" | "8 \<le> n" "n < 16" | "16 \<le> n" "n < 24" | "24 \<le> n" "n < 32"
    by fastforce
  note cs = this
  have m: "(255 :: u32) = mask 8" by (simp add: mask_eq_exp_minus_1)
  show "bit (push_bit 24 (drop_bit 24 a) OR push_bit 16 (drop_bit 16 a AND 255) OR push_bit 8 (drop_bit 8 a AND 255) OR a AND 255) n = bit a n"
    unfolding m using cs by cases (auto simp: bit_simps)
qed

lemma quad_bytes: "unat (drop_bit 24 (a :: u32)) < 256" "unat (drop_bit k a AND 255 :: u32) < 256" "unat (a AND 255) < 256"
proof -
  have "unat (drop_bit 24 a) = unat a div 2 ^ 24" by (simp add: drop_bit_eq_div unat_div)
  then show "unat (drop_bit 24 a) < 256" using unat_bound [of a] by (simp add: less_mult_imp_div_less)
  have "w AND 255 \<le> 255" for w :: u32 by (rule word_and_le1)
  then have "unat (w AND 255) \<le> 255" for w :: u32 by (simp add: word_le_nat_alt)
  then have l: "unat (w AND 255) < Suc 255" for w :: u32 unfolding less_Suc_eq_le .
  then have l: "unat (w AND 255) < 256" for w :: u32 by simp
  show "unat (drop_bit k a AND 255) < 256" "unat (a AND 255) < 256" by (rule l)+
qed

lemma inet_ntoa_quad:
  "inet_ntoa a = quad_text (unat (drop_bit 24 a)) (unat (drop_bit 16 a AND 255)) (unat (drop_bit 8 a AND 255)) (unat (a AND 255))"
  by (simp add: inet_ntoa_def quad_text_def)

lemma openvpn_inet_aton_ntoa: "openvpn_inet_aton (inet_ntoa a) = (OIA_IP, a)"
proof -
  have unat_inverse_u32: "of_nat (unat w) = w" for w :: u32 by simp
  have lt: "w < 256" if "unat w < 256" for w :: u32 using that by (simp add: word_less_nat_alt)
  have "openvpn_inet_aton (inet_ntoa a) = (OIA_IP, push_bit 24 (drop_bit 24 a) OR push_bit 16 (drop_bit 16 a AND 255)
      OR push_bit 8 (drop_bit 8 a AND 255) OR a AND 255)"
    unfolding openvpn_inet_aton_def inet_ntoa_quad scan_quad_text [OF quad_bytes(1) quad_bytes(2) quad_bytes(2) quad_bytes(3)]
      Let_def unat_inverse_u32 option.case list.case
    using lt [OF quad_bytes(1)] lt [OF quad_bytes(2)] lt [OF quad_bytes(3)] by (simp only: simp_thms if_True)
  then show ?thesis by (simp only: u32_of_quad)
qed

lemma print_in_addr_t_text:
  assumes "addr \<noteq> 0 \<or> flags AND IA_EMPTY_IF_UNDEF = 0"
  shows "print_in_addr_t junk addr flags = Inr (inet_ntoa addr)"
proof -
  note q = quad_text_safe [OF quad_bytes(1) quad_bytes(2) quad_bytes(2) quad_bytes(3), of addr 16 addr 8 addr addr, folded inet_ntoa_quad]
  obtain out where out: "alloc_buf junk 64 = Inr out" "text_buf out 64 []"
    using alloc_buf_ok [of 64 junk] by (auto simp: BUF_SIZE_MAX_def text_buf_def buf_contents_def)
  have "text_buf (snd (buf_printf out (inet_ntoa addr))) 64 (inet_ntoa addr)"
    using text_buf_printf [OF out(2), of "inet_ntoa addr"] q(2) by simp
  from text_buf_string [OF this] q show ?thesis
    using assms out(1) by (auto simp: print_in_addr_t_def Let_def)
qed

text \<open>Every address that \<open>print_in_addr_t\<close> prints passes the check of pulled options as a dotted quad and
  \<open>openvpn_inet_aton\<close> reads the same address back.\<close>

theorem address_text_roundtrip:
  "\<exists>s. print_in_addr_t junk a 0 = Inr s \<and> ip_addr_dotted_quad_safe (Some s) \<and> openvpn_inet_aton s = (OIA_IP, a)"
  using quad_text_safe(1,2) [OF quad_bytes(1) quad_bytes(2) quad_bytes(2) quad_bytes(3), of a 16 a 8 a a, folded inet_ntoa_quad]
    print_in_addr_t_text [of a 0 junk] openvpn_inet_aton_ntoa [of a]
  by (auto simp: ip_addr_dotted_quad_safe_def)


section \<open>Host names\<close>

definition GETADDR_RESOLVE :: u32 where "GETADDR_RESOLVE = 1"
definition GETADDR_FATAL :: u32 where "GETADDR_FATAL = 2"
definition GETADDR_HOST_ORDER :: u32 where "GETADDR_HOST_ORDER = 4"

definition getaddr :: "(cstr \<Rightarrow> in_addr_t option) \<Rightarrow> u32 \<Rightarrow> cstr \<Rightarrow> (in_addr_t \<times> bool) result" where
  \<comment> \<open>\<open>getaddr_multi\<close> without a list of addresses; \<open>lookup\<close> is the loop around \<open>gethostbyname\<close>, \<open>None\<close> when it
     gives up; the results are the address and \<open>*succeeded\<close>\<close>
  "getaddr lookup flags hostname =
     (let failed = (if flags AND GETADDR_FATAL \<noteq> 0 then Inl FatalError else Inr (0, False))
      in case openvpn_inet_aton hostname of (status, ia) \<Rightarrow>
           if status \<noteq> OIA_IP
           then (if flags AND GETADDR_RESOLVE = 0 \<or> status = OIA_ERROR then failed
                 else case lookup hostname of
                        None \<Rightarrow> failed
                      | Some a \<Rightarrow> Inr (a, True))
           else Inr (ia, True))"

lemma getaddr_ntoa: "getaddr lookup flags (inet_ntoa a) = Inr (a, True)"
  by (simp add: getaddr_def openvpn_inet_aton_ntoa)

lemma inet_ntoa_chars: "c \<in> set (inet_ntoa a) \<Longrightarrow> isdigit c \<or> c = 46" "length (inet_ntoa a) \<le> 15"
  using dec_text_digits quad_text_safe(2) [OF quad_bytes(1) quad_bytes(2) quad_bytes(2) quad_bytes(3), of a 16 a 8 a a, folded inet_ntoa_quad]
  by (auto simp: inet_ntoa_def)

end
