(* ===== verification/Pool_Persist.thy ===== *)
theory Pool_Persist
  imports Pool Link_Addr
begin

text \<open>
  The persistence file of the address pool (\<open>ifconfig_pool_write\<close> and \<open>ifconfig_pool_read\<close> of pool.c over
  the status files of status.c): what one run of the server writes the next one reads.
\<close>

section \<open>Lines\<close>

definition field_ok :: "cstr \<Rightarrow> bool" where
  \<comment> \<open>a name that survives the file: no null, newline, return or comma, and short\<close>
  "field_ok s \<longleftrightarrow> 0 \<notin> set s \<and> 10 \<notin> set s \<and> 13 \<notin> set s \<and> 44 \<notin> set s \<and> length s < 128"

definition name_ok :: "cstr \<Rightarrow> bool" where
  \<comment> \<open>and that does not start a comment\<close>
  "name_ok s \<longleftrightarrow> field_ok s \<and> (s = [] \<or> hd s \<noteq> 35 \<and> hd s \<noteq> 59)"

definition persist_line :: "(u32 \<Rightarrow> cstr) \<Rightarrow> cstr \<times> u32 \<Rightarrow> cstr" where
  "persist_line pr x = (case x of (cn, ip) \<Rightarrow> cn @ [44] @ pr ip)"

definition handle_ip :: "ifconfig_pool \<Rightarrow> nat \<Rightarrow> u32" where
  "handle_ip pool i = (case ifconfig_pool_handle_to_ip_base pool (int i) of Inr ip \<Rightarrow> ip | Inl e \<Rightarrow> 0)"

definition pool_entries :: "ifconfig_pool \<Rightarrow> nat list \<Rightarrow> (cstr \<times> u32) list" where
  \<comment> \<open>the associations of a pool, in the order of the handles\<close>
  "pool_entries pool is =
     List.map_filter (\<lambda>i. map_option (\<lambda>cn. (cn, handle_ip pool i)) (pe_common_name (ip_list pool ! i))) is"

definition lines_text :: "(u32 \<Rightarrow> cstr) \<Rightarrow> (cstr \<times> u32) list \<Rightarrow> byte list" where
  "lines_text pr xs = concat (map (\<lambda>x. persist_line pr x @ [10]) xs)"

lemma lines_text_simps [simp]:
  "lines_text pr [] = []" "lines_text pr (x # xs) = persist_line pr x @ 10 # lines_text pr xs"
  by (simp_all add: lines_text_def)

lemma pool_entries_simps [simp]:
  "pool_entries pool [] = []"
  "pool_entries pool (i # is) =
     (case pe_common_name (ip_list pool ! i) of None \<Rightarrow> [] | Some cn \<Rightarrow> [(cn, handle_ip pool i)]) @ pool_entries pool is"
  by (simp_all add: pool_entries_def List.map_filter_def split: option.splits)

lemma handle_ip:
  assumes "pool_ok pool" "i < length (ip_list pool)"
  shows "ifconfig_pool_handle_to_ip_base pool (int i) = Inr (handle_ip pool i)"
    "ifconfig_pool_ip_base_to_handle pool (handle_ip pool i) = Inr (int i)"
proof -
  have "int i < ip_size pool" using assms by (auto simp: pool_ok_def)
  then obtain ip where "ifconfig_pool_handle_to_ip_base pool (int i) = Inr ip" "ifconfig_pool_ip_base_to_handle pool ip = Inr (int i)"
    using handle_roundtrip [OF assms(1), of "int i"] by auto
  then show "ifconfig_pool_handle_to_ip_base pool (int i) = Inr (handle_ip pool i)"
    "ifconfig_pool_ip_base_to_handle pool (handle_ip pool i) = Inr (int i)"
    by (simp_all add: handle_ip_def)
qed

section \<open>Writing\<close>

lemma pool_list_loop_writes:
  assumes "pool_ok pool" "writable out ds" "so_ok out" "\<forall>i \<in> set is. i < length (ip_list pool)"
    and "\<forall>x \<in> set (pool_entries pool is). length (persist_line pr x) < STATUS_PRINTF_MAXLEN"
  shows "\<exists>out'. pool_list_loop pr pool out is = Inr out' \<and> writable out' (ds @ lines_text pr (pool_entries pool is)) \<and> so_ok out'
    \<and> so_flags out' = so_flags out"
  using assms
proof (induction "is" arbitrary: out ds)
  case (Cons i "is")
  show ?case
  proof (cases "pe_common_name (ip_list pool ! i)")
    case None
    then show ?thesis using Cons.IH [OF Cons.prems(1-3)] Cons.prems(4,5) by simp
  next
    case (Some cn)
    let ?l = "persist_line pr (cn, handle_ip pool i)"
    let ?out = "status_printf out ?l"
    have h: "ifconfig_pool_handle_to_ip_base pool (int i) = Inr (handle_ip pool i)"
      using handle_ip(1) Cons.prems(1,4) by simp
    have w: "writable ?out (ds @ ?l @ [10])" "so_read_buf ?out = so_read_buf out" "so_flags ?out = so_flags out"
      using status_printf_writable [OF Cons.prems(2), of ?l] Cons.prems(5) Some by auto
    have "so_ok ?out" using Cons.prems(3) w(2) by (simp add: so_ok_def)
    from Cons.IH [OF Cons.prems(1) w(1) this] Cons.prems(4,5) Some w(3) h show ?thesis
      by (simp add: persist_line_def)
  qed
qed simp

section \<open>Reading\<close>

lemma field_of_field:
  assumes "0 \<notin> set s" "d \<notin> set s" "c = 0 \<or> c = d"
  shows "field_of d (s @ c # r) = s"
proof -
  have "takeWhile (\<lambda>c. c \<noteq> 0 \<and> c \<noteq> d) (s @ c # r) = s @ takeWhile (\<lambda>c. c \<noteq> 0 \<and> c \<noteq> d) (c # r)"
    by (rule takeWhile_append2) (use assms in auto)
  then show ?thesis using assms(3) by (simp add: field_of_def)
qed

lemma pool_read_line_sets:
  assumes b: "buf_ok b" "buf_contents b = persist_line pr (cn, ip) @ [0]"
    and len: "length cn_buf = 128" "length ip_buf = 128"
    and ok: "name_ok cn" "field_ok (pr ip)" "resolve (pr ip) = Some ip"
    and set: "ifconfig_pool_set now pool cn ip fixed = Inr pool'"
  shows "\<exists>cn_buf' ip_buf' b'. pool_read_line now resolve fixed cn_buf ip_buf pool b = Inr (cn_buf', ip_buf', pool', b')
    \<and> length cn_buf' = 128 \<and> length ip_buf' = 128 \<and> buf_ok b' \<and> b_capacity b' = b_capacity b"
proof -
  have c: "buf_contents b = cn @ 44 # pr ip @ [0]" using b(2) by (simp add: persist_line_def)
  obtain p where p: "buf_bptr b = Some p" "buf_byte b p \<noteq> 35" "buf_byte b p \<noteq> 59" "buf_len b \<noteq> 0"
  proof -
    obtain h t where ht: "buf_contents b = h # t" "h \<noteq> 35" "h \<noteq> 59" using c ok(1) by (cases cn) (auto simp: name_ok_def)
    have "buf_block b ! nat (b_offset b) = h" "0 < b_len b" "buf_valid b" "0 \<le> b_offset b"
      using buf_contents_hd [OF b(1) ht(1)] buf_contents_nonempty [OF b(1) ht(1)] b(1) by (auto simp: buf_ok_def buf_valid_def)
    then show ?thesis using that [of "b_offset b"] ht(2,3) b(1)
      by (auto simp: buf_bptr_def buf_byte_def buf_len_def buf_ok_def)
  qed
  have f1: "field_of 44 (buf_contents b) = cn" unfolding c using ok(1) by (intro field_of_field) (auto simp: name_ok_def field_ok_def)
  obtain cn_buf' b1 where 1: "buf_parse b 44 cn_buf 128 = Inr (True, cn_buf', b1)" "length cn_buf' = 128" "cstr_of cn_buf' = cn"
      "buf_ok b1" "b_capacity b1 = b_capacity b" "buf_contents b1 = pr ip @ [0]"
    using buf_parse_short [OF b(1) len(1), of 44] ok(1) unfolding f1 by (auto simp: c name_ok_def field_ok_def)
  have f2: "field_of 44 (buf_contents b1) = pr ip" unfolding 1(6) using ok(2) by (intro field_of_field) (auto simp: field_ok_def)
  obtain ip_buf' b2 where 2: "buf_parse b1 44 ip_buf 128 = Inr (True, ip_buf', b2)" "length ip_buf' = 128" "cstr_of ip_buf' = pr ip"
      "buf_ok b2" "b_capacity b2 = b_capacity b"
    using buf_parse_short [OF 1(4) len(2), of 44] ok(2) 1(5) unfolding f2 by (auto simp: 1(6) field_ok_def)
  show ?thesis using p 1 2 ok(3) set by (simp add: pool_read_line_def)
qed


definition load_args :: "time_t \<Rightarrow> bool \<Rightarrow> (cstr \<times> u32) list \<Rightarrow> (time_t \<times> cstr \<times> u32 \<times> bool) list" where
  "load_args now fixed xs = map (\<lambda>(cn, ip). (now, cn, ip, fixed)) xs"

lemma line_of_line: "10 \<notin> set l \<Longrightarrow> line_of (l @ 10 # r) = l"
  by (auto simp: line_of_def takeWhile_tail takeWhile_eq_all_conv)

lemma pool_read_loop_loads:
  assumes so: "so_ok so" "so_fd so = Some bytes" "so_flags so AND STATUS_OUTPUT_READ \<noteq> 0" "unread so = lines_text pr xs"
    and b: "buf_ok inb" "b_capacity inb = 256"
    and len: "length cn_buf = 128" "length ip_buf = 128"
    and xs: "\<forall>(cn, ip) \<in> set xs. name_ok cn \<and> field_ok (pr ip) \<and> resolve (pr ip) = Some ip"
    and load: "pool_load pool (load_args now fixed xs) = Inr pool'"
  shows "\<exists>so'. pool_read_loop now resolve fixed cn_buf ip_buf inb so pool = Some (Inr (so', pool'))"
  using assms
proof (induction xs arbitrary: so inb cn_buf ip_buf pool)
  case Nil
  obtain b0 where b0: "buf_init inb 0 = (True, b0)" "buf_ok b0" "b_offset b0 = 0" "b_len b0 = 0" "b_capacity b0 = 256"
    using buf_init_ok [OF Nil.prems(5), of 0] Nil.prems(6) by auto
  have u: "unread so = []" using Nil.prems(4) by simp
  obtain so' b' where "status_read so b0 = Inr (False, so', b')"
    using status_read_ok [OF Nil.prems(1-3) b0(2) _ b0(3)] b0 u by (auto simp: buf_contents_def buf_len_def line_of_def)
  then show ?case using b0(1) Nil.prems(10) by (subst pool_read_loop.simps) (simp add: load_args_def)
next
  case (Cons x xs)
  obtain cn ip where x: "x = (cn, ip)" by (cases x)
  have ok: "name_ok cn" "field_ok (pr ip)" "resolve (pr ip) = Some ip" using Cons.prems(9) x by auto
  let ?l = "persist_line pr (cn, ip)"
  have l: "10 \<notin> set ?l" "13 \<notin> set ?l" "0 \<notin> set ?l" "length ?l < 256"
    using ok(1,2) by (auto simp: persist_line_def name_ok_def field_ok_def)
  have u: "unread so = ?l @ 10 # lines_text pr xs" using Cons.prems(4) x by simp
  have lo: "line_of (unread so) = ?l" unfolding u by (rule line_of_line [OF l(1)])
  have fl: "filter (\<lambda>c. c \<noteq> 13) ?l = ?l" using l(2) by (auto simp: filter_id_conv)
  obtain b0 where b0: "buf_init inb 0 = (True, b0)" "buf_ok b0" "b_offset b0 = 0" "b_len b0 = 0" "b_capacity b0 = 256"
    using buf_init_ok [OF Cons.prems(5), of 0] Cons.prems(6) by auto
  have e: "buf_contents b0 = []" using b0(4) by (simp add: buf_contents_def buf_len_def)
  have "0 \<notin> set (line_of (unread so))" "int (length (line_of (unread so))) < b_capacity b0"
    using l lo b0(5) by simp_all
  then obtain so1 b1 where r: "status_read so b0 = Inr (True, so1, b1)" "so_ok so1" "so_fd so1 = Some bytes"
      "so_flags so1 = so_flags so" "unread so1 = lines_text pr xs" "buf_ok b1" "b_capacity b1 = 256" "buf_contents b1 = ?l @ [0]"
    using status_read_ok [OF Cons.prems(1-3) b0(2) e b0(3)] unfolding lo fl b0(5) by (auto simp: u)
  obtain pool1 where p1: "ifconfig_pool_set now pool cn ip fixed = Inr pool1" "pool_load pool1 (load_args now fixed xs) = Inr pool'"
    using Cons.prems(10) by (auto simp: x load_args_def bind_result_Inr)
  obtain cn1 ip1 b2 where rl: "pool_read_line now resolve fixed cn_buf ip_buf pool b1 = Inr (cn1, ip1, pool1, b2)"
      "length cn1 = 128" "length ip1 = 128" "buf_ok b2" "b_capacity b2 = 256"
    using pool_read_line_sets [where pr = pr and resolve = resolve, OF r(6,8) Cons.prems(7,8) ok p1(1)] r(7) by auto
  have "pool_read_loop now resolve fixed cn_buf ip_buf inb so pool = pool_read_loop now resolve fixed cn1 ip1 b2 so1 pool1"
    using b0(1) r(1) rl(1) by (subst pool_read_loop.simps) simp
  then show ?case using Cons.IH [OF r(2,3) _ r(5) rl(4,5,2,3) _ p1(2)] Cons.prems(3,9) r(4) by simp
qed

section \<open>Restoring a pool\<close>

definition same_space :: "ifconfig_pool \<Rightarrow> ifconfig_pool \<Rightarrow> bool" where
  "same_space p q \<longleftrightarrow> ip_base p = ip_base q \<and> ip_size p = ip_size q \<and> ip_type p = ip_type q"

lemma pool_load_names:
  assumes "pool_ok pool" "pool_ok p" "same_space pool p" "\<forall>i \<in> set is. i < length (ip_list pool)"
  shows "\<exists>p'. pool_load p (load_args now fixed (pool_entries pool is)) = Inr p' \<and> pool_ok p' \<and> same_space pool p'
    \<and> (\<forall>i < length (ip_list pool). pe_common_name (ip_list p' ! i) =
         (if i \<in> set is \<and> pe_common_name (ip_list pool ! i) \<noteq> None then pe_common_name (ip_list pool ! i)
          else pe_common_name (ip_list p ! i)))"
  using assms
proof (induction "is" arbitrary: p)
  case (Cons i "is")
  show ?case
  proof (cases "pe_common_name (ip_list pool ! i)")
    case None
    then show ?thesis using Cons.IH [OF Cons.prems(1-3)] Cons.prems(4) by (auto simp: load_args_def)
  next
    case (Some cn)
    have i: "i < length (ip_list pool)" "i < length (ip_list p)" using Cons.prems by (auto simp: pool_ok_def same_space_def)
    have h: "ifconfig_pool_ip_base_to_handle p (handle_ip pool i) = Inr (int i)"
    proof -
      have "ifconfig_pool_ip_base_to_handle p ip = ifconfig_pool_ip_base_to_handle pool ip" for ip
        using Cons.prems(3) by (simp add: ifconfig_pool_ip_base_to_handle_def same_space_def)
      then show ?thesis using handle_ip(2) [OF Cons.prems(1) i(1)] by simp
    qed
    obtain e where e: "ifconfig_pool_set now p cn (handle_ip pool i) fixed = Inr (p\<lparr>ip_list := (ip_list p)[i := e]\<rparr>)"
        "pe_common_name e = Some cn"
      using h by (auto simp: ifconfig_pool_set_def Let_def)
    let ?p = "p\<lparr>ip_list := (ip_list p)[i := e]\<rparr>"
    have "pool_ok ?p" "same_space pool ?p" using Cons.prems(2,3) by (simp_all add: pool_ok_def pool_stride_def same_space_def)
    from Cons.IH [OF Cons.prems(1) this] Cons.prems(4) obtain p' where
      p': "pool_load ?p (load_args now fixed (pool_entries pool is)) = Inr p'" "pool_ok p'" "same_space pool p'"
        "\<forall>j < length (ip_list pool). pe_common_name (ip_list p' ! j) =
         (if j \<in> set is \<and> pe_common_name (ip_list pool ! j) \<noteq> None then pe_common_name (ip_list pool ! j)
          else pe_common_name (ip_list ?p ! j))" by auto
    have "pool_load p (load_args now fixed (pool_entries pool (i # is))) = Inr p'"
      using p'(1) e(1) Some by (simp add: load_args_def)
    moreover have "pe_common_name (ip_list ?p ! j) = (if j = i then Some cn else pe_common_name (ip_list p ! j))" for j
      using i(2) e(2) by simp
    ultimately show ?thesis using p'(2-4) Some by (intro exI [of _ p']) auto
  qed
qed (simp add: load_args_def)


lemma mem_pool_entries:
  "(cn, ip) \<in> set (pool_entries pool is) \<longleftrightarrow> (\<exists>i \<in> set is. pe_common_name (ip_list pool ! i) = Some cn \<and> ip = handle_ip pool i)"
  by (induction "is") (auto split: option.splits)

lemma persist_init_ok:
  assumes "0 < freq"
  obtains pp so where "ifconfig_pool_persist_init junk True old freq = Inr pp" "pp_file pp = Some so" "\<not> pp_fixed pp" "so_ok so"
    "so_fd so = Some (case old of None \<Rightarrow> [] | Some bs \<Rightarrow> bs)" "so_pos so = 0" "unread so = (case old of None \<Rightarrow> [] | Some bs \<Rightarrow> bs)"
    "so_flags so AND STATUS_OUTPUT_READ \<noteq> 0" "writable so []"
proof -
  obtain b where b: "alloc_buf junk 512 = Inr b" "buf_ok b" "b_capacity b = 512" "b_offset b = 0" "b_len b = 0"
    using alloc_buf_ok [of 512 junk] by (auto simp: BUF_SIZE_MAX_def)
  let ?fd = "case old of None \<Rightarrow> [] | Some bs \<Rightarrow> bs"
  let ?so = "\<lparr>so_flags = STATUS_OUTPUT_READ OR STATUS_OUTPUT_WRITE, so_fd = Some ?fd, so_pos = 0, so_vout = None, so_read_buf = b, so_errors = False\<rparr>"
  have "ifconfig_pool_persist_init junk True old freq = Inr \<lparr>pp_file = Some ?so, pp_fixed = False\<rparr>"
    using assms b(1) by (simp add: ifconfig_pool_persist_init_def status_open_def STATUS_OUTPUT_READ_def STATUS_OUTPUT_WRITE_def Let_def)
  then show ?thesis
    using b by (intro that [of "\<lparr>pp_file = Some ?so, pp_fixed = False\<rparr>" ?so]) (simp_all add: so_ok_def unread_def writable_def buf_contents_def buf_len_def
        STATUS_OUTPUT_READ_def STATUS_OUTPUT_WRITE_def)
qed

lemma pool_persist_any_printer:
  assumes pool: "pool_ok pool"
    and fresh: "ifconfig_pool_init typ start fin dup = Inr pool0" "same_space pool pool0"
    and names: "\<forall>e \<in> set (ip_list pool). \<forall>cn. pe_common_name e = Some cn \<longrightarrow> name_ok cn"
    and print: "\<forall>i < length (ip_list pool). field_ok (pr (handle_ip pool i)) \<and> resolve (pr (handle_ip pool i)) = Some (handle_ip pool i)"
    and freq: "0 < freq"
  shows "\<exists>pp so. ifconfig_pool_persist_init junk True old freq = Inr pp \<and>
    (\<exists>pp' so'. ifconfig_pool_write pr (Some pp) (Some pool) = Inr (Some pp') \<and> pp_file pp' = Some so' \<and>
      (\<exists>pp2 pp3 pool'. ifconfig_pool_persist_init junk True (so_fd so') freq = Inr pp2 \<and>
         ifconfig_pool_read junk now resolve (Some pp2) (Some pool0) = Some (Inr (Some pp3, Some pool')) \<and>
         map pe_common_name (ip_list pool') = map pe_common_name (ip_list pool) \<and> pool_idle pool'))"
proof -
  note i0 = ifconfig_pool_init_ok [OF fresh(1)]
  have pool0: "pool_ok pool0" "pool_idle pool0" "\<forall>e \<in> set (ip_list pool0). pe_common_name e = None"
    using i0 by (auto simp: pool_idle_def)
  let ?es = "pool_entries pool [0..<nat (ip_size pool)]"
  have len: "length (ip_list pool) = nat (ip_size pool)" "length (ip_list pool0) = nat (ip_size pool)"
    using pool pool0(1) fresh(2) by (auto simp: pool_ok_def same_space_def)
  have es: "\<forall>(cn, ip) \<in> set ?es. name_ok cn \<and> field_ok (pr ip) \<and> resolve (pr ip) = Some ip"
  proof (clarify, intro conjI)
    fix cn ip assume "(cn, ip) \<in> set ?es"
    then obtain i where i: "i < length (ip_list pool)" "pe_common_name (ip_list pool ! i) = Some cn" "ip = handle_ip pool i"
      by (auto simp: mem_pool_entries len(1))
    then show "name_ok cn" using names nth_mem by blast
    show "field_ok (pr ip)" "resolve (pr ip) = Some ip" using print i by auto
  qed
  then have short: "\<forall>x \<in> set ?es. length (persist_line pr x) < STATUS_PRINTF_MAXLEN"
    by (fastforce simp: persist_line_def name_ok_def field_ok_def STATUS_PRINTF_MAXLEN_def)
  obtain pp so where 1: "ifconfig_pool_persist_init junk True old freq = Inr pp" "pp_file pp = Some so" "so_ok so" "writable so []"
    using persist_init_ok [OF freq, of junk old] by metis
  have w: "writable (status_reset so) []" "so_ok (status_reset so)"
    using status_reset_writable [OF 1(4)] 1(3) by (auto simp: status_reset_def so_ok_def)
  obtain so1 where so1: "ifconfig_pool_list pr pool (status_reset so) = Inr so1" "writable so1 (lines_text pr ?es)" "so_ok so1"
    using pool_list_loop_writes [OF pool w, of "[0..<nat (ip_size pool)]" pr] short len(1) by (auto simp: ifconfig_pool_list_def)
  obtain so2 where so2: "status_flush so1 = Inr so2" "so_fd so2 = Some (lines_text pr ?es)"
    using status_flush_writable [OF so1(2,3)] by blast
  have wr: "ifconfig_pool_write pr (Some pp) (Some pool) = Inr (Some (pp\<lparr>pp_file := Some so2\<rparr>))"
    using 1(2,4) so1(1) so2(1) by (simp add: ifconfig_pool_write_def status_rw_flags_def writable_def)
  obtain pp2 so3 where 2: "ifconfig_pool_persist_init junk True (so_fd so2) freq = Inr pp2" "pp_file pp2 = Some so3" "\<not> pp_fixed pp2"
      "so_ok so3" "so_fd so3 = Some (lines_text pr ?es)" "unread so3 = lines_text pr ?es" "so_flags so3 AND STATUS_OUTPUT_READ \<noteq> 0"
    using persist_init_ok [OF freq, of junk "so_fd so2"] unfolding so2(2) option.case by blast
  obtain pool' where p': "pool_load pool0 (load_args now False ?es) = Inr pool'"
      "\<forall>i < length (ip_list pool). pe_common_name (ip_list pool' ! i) =
         (if i \<in> set [0..<nat (ip_size pool)] \<and> pe_common_name (ip_list pool ! i) \<noteq> None then pe_common_name (ip_list pool ! i)
          else pe_common_name (ip_list pool0 ! i))" "pool_ok pool'" "same_space pool pool'"
    using pool_load_names [OF pool pool0(1) fresh(2), of "[0..<nat (ip_size pool)]" now False] len(1) by auto
  have idle: "pool_idle pool'"
    using pool_load_idle [OF pool0(1,2), of "load_args now False ?es"] p'(1) by (metis sum.inject(2))
  have len': "length (ip_list pool') = nat (ip_size pool)" using p'(3,4) by (simp add: pool_ok_def same_space_def)
  have "map pe_common_name (ip_list pool') = map pe_common_name (ip_list pool)"
  proof (rule nth_equalityI)
    fix i assume "i < length (map pe_common_name (ip_list pool'))"
    then have i: "i < nat (ip_size pool)" using len' by simp
    then have "pe_common_name (ip_list pool0 ! i) = None" using pool0(3) len(2) by simp
    then show "map pe_common_name (ip_list pool') ! i = map pe_common_name (ip_list pool) ! i"
      using p'(2) i len(1) len' by (cases "pe_common_name (ip_list pool ! i)") auto
  qed (simp add: len len')
  moreover obtain inb where inb: "alloc_buf junk 256 = Inr inb" "buf_ok inb" "b_capacity inb = 256"
    using alloc_buf_ok [of 256 junk] by (auto simp: BUF_SIZE_MAX_def)
  have "\<exists>so4. pool_read_loop now resolve False (replicate 128 0) (replicate 128 0) inb so3 pool0 = Some (Inr (so4, pool'))"
    by (rule pool_read_loop_loads [OF 2(4,5,7,6) inb(2,3) _ _ es p'(1)]) simp_all
  then obtain so4 where "ifconfig_pool_read junk now resolve (Some pp2) (Some pool0) = Some (Inr (Some (pp2\<lparr>pp_file := Some so4\<rparr>), Some pool'))"
    using 2(2,3) inb(1) by (auto simp: ifconfig_pool_read_def)
  ultimately show ?thesis using 1(1) wr 2(1) idle
    by (intro exI [of _ pp] exI [of _ so] exI [of _ "pp\<lparr>pp_file := Some so2\<rparr>"] exI [of _ so2] exI [of _ pp2]
        exI [of _ "pp2\<lparr>pp_file := Some so4\<rparr>"] exI [of _ pool'] conjI) simp_all
qed

definition pool_getaddr :: "(cstr \<Rightarrow> in_addr_t option) \<Rightarrow> cstr \<Rightarrow> in_addr_t option" where
  \<comment> \<open>the call of \<open>getaddr\<close> in \<open>ifconfig_pool_read\<close>, \<open>None\<close> when \<open>succeeded\<close> is false\<close>
  "pool_getaddr lookup s =
     (case getaddr lookup GETADDR_HOST_ORDER s of Inr (a, True) \<Rightarrow> Some a | _ \<Rightarrow> None)"

lemma inet_ntoa_field:
  "field_ok (inet_ntoa a) \<and> pool_getaddr lookup (inet_ntoa a) = Some a"
proof -
  have "c \<in> set (inet_ntoa a) \<Longrightarrow> c \<noteq> 0 \<and> c \<noteq> 10 \<and> c \<noteq> 13 \<and> c \<noteq> 44" for c
    using inet_ntoa_chars(1) [of c a] by (auto simp: isdigit_def word_le_nat_alt)
  then show ?thesis
    using inet_ntoa_chars(2) [of a] by (auto simp: field_ok_def pool_getaddr_def getaddr_ntoa)
qed

text \<open>C35. The associations of names and addresses that one run of the server writes to the persistence file are all
  restored by the next run with the same pool settings: every entry gets its name back, and no address is marked as in
  use.  The names must be ones that the line format can carry: no comma, newline, carriage return or null byte, shorter
  than 128 characters, and not starting with a comment character.\<close>

theorem pool_persist_roundtrip:
  assumes pool: "pool_ok pool"
    and fresh: "ifconfig_pool_init typ start fin dup = Inr pool0" "same_space pool pool0"
    and names: "\<forall>e \<in> set (ip_list pool). \<forall>cn. pe_common_name e = Some cn \<longrightarrow> name_ok cn"
    and freq: "0 < freq"
  shows "\<exists>pp so. ifconfig_pool_persist_init junk True old freq = Inr pp \<and>
    (\<exists>pp' so'. ifconfig_pool_write inet_ntoa (Some pp) (Some pool) = Inr (Some pp') \<and> pp_file pp' = Some so' \<and>
      (\<exists>pp2 pp3 pool'. ifconfig_pool_persist_init junk True (so_fd so') freq = Inr pp2 \<and>
         ifconfig_pool_read junk now (pool_getaddr lookup) (Some pp2) (Some pool0) = Some (Inr (Some pp3, Some pool')) \<and>
         map pe_common_name (ip_list pool') = map pe_common_name (ip_list pool) \<and> pool_idle pool'))"
  by (rule pool_persist_any_printer [OF pool fresh names _ freq]) (simp add: inet_ntoa_field)

theorem pool_persist_roundtrip_witness:
  "let pool = \<lparr>ip_base = 10, ip_size = 1, ip_type = 1, ip_duplicate_cn = False,
         ip_list = [\<lparr>pe_in_use = True, pe_common_name = Some [97, 108], pe_last_release = 0, pe_fixed = False\<rparr>]\<rparr>;
       pool0 = \<lparr>ip_base = 10, ip_size = 1, ip_type = 1, ip_duplicate_cn = False,
         ip_list = [\<lparr>pe_in_use = False, pe_common_name = None, pe_last_release = 0, pe_fixed = False\<rparr>]\<rparr>
   in \<exists>pp so. ifconfig_pool_persist_init (\<lambda>_. 0) True None 600 = Inr pp \<and>
    (\<exists>pp' so'. ifconfig_pool_write inet_ntoa (Some pp) (Some pool) = Inr (Some pp') \<and> pp_file pp' = Some so' \<and>
      (\<exists>pp2 pp3 pool'. ifconfig_pool_persist_init (\<lambda>_. 0) True (so_fd so') 600 = Inr pp2 \<and>
         ifconfig_pool_read (\<lambda>_. 0) 7 (pool_getaddr (\<lambda>_. None)) (Some pp2) (Some pool0) = Some (Inr (Some pp3, Some pool')) \<and>
         map pe_common_name (ip_list pool') = map pe_common_name (ip_list pool) \<and> pool_idle pool'))"
proof -
  let ?p = "\<lparr>ip_base = 10, ip_size = 1, ip_type = 1, ip_duplicate_cn = False,
         ip_list = [\<lparr>pe_in_use = True, pe_common_name = Some [97, 108], pe_last_release = 0, pe_fixed = False\<rparr>]\<rparr>"
  let ?q = "\<lparr>ip_base = 10, ip_size = 1, ip_type = 1, ip_duplicate_cn = False,
         ip_list = [\<lparr>pe_in_use = False, pe_common_name = None, pe_last_release = 0, pe_fixed = False\<rparr>]\<rparr>"
  have ok: "pool_ok ?p" by (simp add: pool_ok_def pool_stride_def IFCONFIG_POOL_INDIV_def IFCONFIG_POOL_30NET_def)
  have init: "ifconfig_pool_init 1 10 10 False = Inr ?q" by code_simp
  have names: "\<forall>e \<in> set (ip_list ?p). \<forall>cn. pe_common_name e = Some cn \<longrightarrow> name_ok cn" by (simp add: name_ok_def field_ok_def)
  have sp: "same_space ?p ?q" by (simp add: same_space_def)
  show ?thesis unfolding Let_def
    by (rule pool_persist_roundtrip [OF ok init sp names]) simp
qed

end
