(* ===== verification/Keys.thy ===== *)
theory Keys
  imports Crypto Hex_Format
begin

text \<open>
  Keys of the data channel and of \<open>--tls-auth\<close> (crypto.h, crypto.c): key types, checks, random keys,
  static key files, key directions, and keys sent over the wire by key method 1.

  OpenSSL is a parameter.  A cipher is its short name, key length, mode and the function that
  initializes a context from a requested key length and key bytes (\<open>None\<close> when OpenSSL reports an
  error), with the resulting key length; a digest is its size, its HMAC and the plain hash.  The DES
  functions are a record.  An array that a \<open>memcpy\<close> or \<open>buf_read\<close> overruns is \<open>BufferOverflow\<close>.
\<close>

section \<open>Data\<close>

definition MAX_CIPHER_KEY_LENGTH :: nat where "MAX_CIPHER_KEY_LENGTH = 64"
definition MAX_HMAC_KEY_LENGTH :: nat where "MAX_HMAC_KEY_LENGTH = 64"

record evp_cipher =
  ec_name :: "cstr option"
  ec_key_length :: int
  ec_mode :: cipher_mode
  ec_setup :: "int \<Rightarrow> byte list \<Rightarrow> (int \<times> cipher_ctx) option"

record evp_md =
  md_size :: int
  md_hmac :: "byte list \<Rightarrow> byte list \<Rightarrow> byte list"
  md_digest :: "byte list \<Rightarrow> byte list"

record des_ops =
  des_is_weak_key :: "byte list \<Rightarrow> bool"
  des_check_key_parity :: "byte list \<Rightarrow> bool"
  des_set_odd_parity :: "byte list \<Rightarrow> byte list"

record key_type =
  kt_cipher_length :: byte
  kt_hmac_length :: byte
  kt_cipher :: "evp_cipher option"
  kt_digest :: "evp_md option"

record key =
  key_cipher :: "byte list"
  key_hmac :: "byte list"

definition key_zero :: key where
  "key_zero = \<lparr>key_cipher = replicate MAX_CIPHER_KEY_LENGTH 0, key_hmac = replicate MAX_HMAC_KEY_LENGTH 0\<rparr>"

definition key_ok :: "key \<Rightarrow> bool" where
  "key_ok k \<longleftrightarrow> length (key_cipher k) = MAX_CIPHER_KEY_LENGTH \<and> length (key_hmac k) = MAX_HMAC_KEY_LENGTH"

record key2 =
  k2_n :: int
  k2_keys :: "key list"

definition KEY_DIRECTION_BIDIRECTIONAL :: int where "KEY_DIRECTION_BIDIRECTIONAL = 0"
definition KEY_DIRECTION_NORMAL :: int where "KEY_DIRECTION_NORMAL = 1"
definition KEY_DIRECTION_INVERSE :: int where "KEY_DIRECTION_INVERSE = 2"

record key_direction_state =
  kds_out_key :: nat
  kds_in_key :: nat
  kds_need_keys :: int

definition key_bytes :: "key \<Rightarrow> byte list" where
  \<comment> \<open>\<open>(uint8_t *) &key\<close>\<close>
  "key_bytes k = key_cipher k @ key_hmac k"

definition key_of_bytes :: "byte list \<Rightarrow> key" where
  "key_of_bytes bs = \<lparr>key_cipher = take MAX_CIPHER_KEY_LENGTH bs, key_hmac = take MAX_HMAC_KEY_LENGTH (drop MAX_CIPHER_KEY_LENGTH bs)\<rparr>"

section \<open>Key types and contexts\<close>

definition get_cipher :: "(cstr \<Rightarrow> evp_cipher option) \<Rightarrow> cstr \<Rightarrow> evp_cipher result" where
  \<comment> \<open>the first argument is \<open>EVP_get_cipherbyname\<close>\<close>
  "get_cipher EVP_get_cipherbyname ciphername =
     (case EVP_get_cipherbyname ciphername of
        None \<Rightarrow> Inl FatalError
      | Some cipher \<Rightarrow> if ec_key_length cipher > int MAX_CIPHER_KEY_LENGTH then Inl FatalError else Inr cipher)"

definition get_md :: "(cstr \<Rightarrow> evp_md option) \<Rightarrow> cstr \<Rightarrow> evp_md result" where
  "get_md EVP_get_digestbyname digest =
     (case EVP_get_digestbyname digest of
        None \<Rightarrow> Inl FatalError
      | Some md \<Rightarrow> if md_size md > int MAX_HMAC_KEY_LENGTH then Inl FatalError else Inr md)"

definition init_key_type ::
    "(cstr \<Rightarrow> evp_cipher option) \<Rightarrow> (cstr \<Rightarrow> evp_md option) \<Rightarrow> cstr option \<Rightarrow> bool \<Rightarrow> cstr option \<Rightarrow> bool \<Rightarrow> int \<Rightarrow> bool \<Rightarrow> key_type result" where
  \<comment> \<open>with \<open>ALLOW_NON_CBC_CIPHERS\<close>\<close>
  "init_key_type ciphers digests ciphername ciphername_defined authname authname_defined keysize cfb_ofb_allowed =
     (let kt = \<lparr>kt_cipher_length = 0, kt_hmac_length = 0, kt_cipher = None, kt_digest = None\<rparr>
      in bind_result
           (case ciphername of
              Some name \<Rightarrow>
                if ciphername_defined
                then bind_result (get_cipher ciphers name) (\<lambda>cipher.
                       let kt = kt\<lparr>kt_cipher := Some cipher, kt_cipher_length := word_of_int (ec_key_length cipher)\<rparr>;
                           kt = (if keysize > 0 \<and> keysize \<le> int MAX_CIPHER_KEY_LENGTH then kt\<lparr>kt_cipher_length := word_of_int keysize\<rparr> else kt);
                           mode = ec_mode cipher
                       in if \<not> (mode = EVP_CIPH_CBC_MODE \<or> cfb_ofb_allowed \<and> (mode = EVP_CIPH_CFB_MODE \<or> mode = EVP_CIPH_OFB_MODE))
                          then Inl FatalError else Inr kt)
                else Inr kt
            | None \<Rightarrow> Inr kt)
           (\<lambda>kt. case authname of
                   Some name \<Rightarrow>
                     if authname_defined
                     then bind_result (get_md digests name) (\<lambda>md.
                            Inr (kt\<lparr>kt_digest := Some md, kt_hmac_length := word_of_int (md_size md)\<rparr>))
                     else Inr kt
                 | None \<Rightarrow> Inr kt))"

definition kt_key_size :: "key_type \<Rightarrow> int" where
  "kt_key_size kt =
     (if kt_cipher_length kt \<noteq> 0 then uint (kt_cipher_length kt) * 8
      else case kt_cipher kt of Some cipher \<Rightarrow> ec_key_length cipher * 8 | None \<Rightarrow> 0)"

definition init_cipher :: "evp_cipher \<Rightarrow> key \<Rightarrow> key_type \<Rightarrow> cipher_ctx result" where
  "init_cipher cipher k kt =
     (case ec_setup cipher (uint (kt_cipher_length kt)) (key_cipher k) of
        None \<Rightarrow> Inl FatalError
      | Some (len, ctx) \<Rightarrow> assert_that (len \<le> uint (kt_cipher_length kt)) (Inr ctx))"

definition init_hmac :: "evp_md \<Rightarrow> key \<Rightarrow> key_type \<Rightarrow> hmac_ctx result" where
  "init_hmac digest k kt =
     (if length (key_hmac k) < unat (kt_hmac_length kt) then Inl BufferOverflow
      else let ctx = \<lparr>h_size = md_size digest, h_mac = md_hmac digest (take (unat (kt_hmac_length kt)) (key_hmac k))\<rparr>
           in assert_that (h_size ctx \<le> uint (kt_hmac_length kt)) (Inr ctx))"

definition init_key_ctx :: "key \<Rightarrow> key_type \<Rightarrow> key_ctx result" where
  "init_key_ctx k kt =
     bind_result
       (case kt_cipher kt of
          Some cipher \<Rightarrow>
            if kt_cipher_length kt > 0 then bind_result (init_cipher cipher k kt) (\<lambda>c. Inr (Some c)) else Inr None
        | None \<Rightarrow> Inr None)
       (\<lambda>cipher. bind_result
          (case kt_digest kt of
             Some digest \<Rightarrow>
               if kt_hmac_length kt > 0 then bind_result (init_hmac digest k kt) (\<lambda>h. Inr (Some h)) else Inr None
           | None \<Rightarrow> Inr None)
          (\<lambda>hmac. Inr \<lparr>k_cipher = cipher, k_hmac = hmac\<rparr>))"

definition free_key_ctx :: "key_ctx \<Rightarrow> key_ctx" where
  "free_key_ctx ctx = \<lparr>k_cipher = None, k_hmac = None\<rparr>"

definition free_key_ctx_bi :: "key_ctx_bi \<Rightarrow> key_ctx_bi" where
  "free_key_ctx_bi ctx = \<lparr>kb_encrypt = free_key_ctx (kb_encrypt ctx), kb_decrypt = free_key_ctx (kb_decrypt ctx)\<rparr>"

definition cfb_ofb_mode :: "key_type \<Rightarrow> bool" where
  "cfb_ofb_mode kt =
     (case kt_cipher kt of Some cipher \<Rightarrow> ec_mode cipher = EVP_CIPH_CFB_MODE \<or> ec_mode cipher = EVP_CIPH_OFB_MODE | None \<Rightarrow> False)"

definition check_replay_iv_consistency :: "key_type \<Rightarrow> bool \<Rightarrow> bool \<Rightarrow> unit result" where
  "check_replay_iv_consistency kt packet_id use_iv =
     (if cfb_ofb_mode kt \<and> \<not> (packet_id \<and> use_iv) then Inl FatalError else Inr ())"

section \<open>Checks of a key\<close>

definition n_DES_cblocks :: "evp_cipher \<Rightarrow> nat" where
  "n_DES_cblocks cipher =
     (case ec_name cipher of
        None \<Rightarrow> 0
      | Some name \<Rightarrow>
          if take 4 name = [68, 69, 83, 45] then nat (ec_key_length cipher div 8)
          else if take 5 name = [68, 69, 83, 88, 45] then 1 else 0)"

fun check_key_DES_loop :: "des_ops \<Rightarrow> nat \<Rightarrow> buffer \<Rightarrow> bool" where
  "check_key_DES_loop des 0 b = True"
| "check_key_DES_loop des (Suc n) b =
     (case buf_read b 8 of
        (None, b) \<Rightarrow> False
      | (Some dc, b) \<Rightarrow>
          if des_is_weak_key des dc then False
          else if \<not> des_check_key_parity des dc then False
          else check_key_DES_loop des n b)"

definition check_key_DES :: "des_ops \<Rightarrow> key \<Rightarrow> key_type \<Rightarrow> nat \<Rightarrow> bool result" where
  "check_key_DES des k kt ndc =
     bind_result (buf_set_read clear_buf (Some (key_cipher k)) (uint (kt_cipher_length kt))) (\<lambda>b.
       Inr (check_key_DES_loop des ndc b))"

fun fixup_key_DES_loop :: "des_ops \<Rightarrow> nat \<Rightarrow> buffer \<Rightarrow> buffer" where
  \<comment> \<open>\<open>dc\<close> points into the key, which is the block of the buffer\<close>
  "fixup_key_DES_loop des 0 b = b"
| "fixup_key_DES_loop des (Suc n) b =
     (case buf_read_alloc b 8 of
        (None, b) \<Rightarrow> b
      | (Some p, b) \<Rightarrow>
          fixup_key_DES_loop des n (buf_put b p (des_set_odd_parity des (mem_read (buf_block b) (nat p) 8))))"

definition fixup_key_DES :: "des_ops \<Rightarrow> key \<Rightarrow> key_type \<Rightarrow> nat \<Rightarrow> key result" where
  "fixup_key_DES des k kt ndc =
     bind_result (buf_set_read clear_buf (Some (key_cipher k)) (uint (kt_cipher_length kt))) (\<lambda>b.
       Inr (k\<lparr>key_cipher := buf_block (fixup_key_DES_loop des ndc b)\<rparr>))"

definition key_is_zero :: "key \<Rightarrow> key_type \<Rightarrow> bool" where
  "key_is_zero k kt \<longleftrightarrow> list_all (\<lambda>c. c = 0) (take (unat (kt_cipher_length kt)) (key_cipher k))"

definition check_key :: "des_ops \<Rightarrow> key \<Rightarrow> key_type \<Rightarrow> bool result" where
  "check_key des k kt =
     (case kt_cipher kt of
        Some cipher \<Rightarrow>
          if key_is_zero k kt then Inr False
          else (let ndc = n_DES_cblocks cipher in if ndc \<noteq> 0 then check_key_DES des k kt ndc else Inr True)
      | None \<Rightarrow> Inr True)"

definition fixup_key :: "des_ops \<Rightarrow> key \<Rightarrow> key_type \<Rightarrow> key result" where
  "fixup_key des k kt =
     (case kt_cipher kt of
        Some cipher \<Rightarrow> (let ndc = n_DES_cblocks cipher in if ndc \<noteq> 0 then fixup_key_DES des k kt ndc else Inr k)
      | None \<Rightarrow> Inr k)"


section \<open>Random keys\<close>

definition random_key :: "(nat \<Rightarrow> nat \<Rightarrow> byte list option) \<Rightarrow> nat \<Rightarrow> nat \<Rightarrow> nat \<Rightarrow> key result" where
  \<comment> \<open>one round of \<open>generate_key_random\<close>: \<open>rand i n\<close> are the \<open>n\<close> bytes that the \<open>i\<close>-th call of
     \<open>RAND_bytes\<close> yields\<close>
  "random_key rand i cipher_len hmac_len =
     (case rand i cipher_len of
        None \<Rightarrow> Inl FatalError
      | Some c \<Rightarrow>
          (case rand (i + 1) hmac_len of
             None \<Rightarrow> Inl FatalError
           | Some h \<Rightarrow> Inr \<lparr>key_cipher = mem_write (key_cipher key_zero) 0 c, key_hmac = mem_write (key_hmac key_zero) 0 h\<rparr>))"

partial_function (option) generate_key_random ::
    "des_ops \<Rightarrow> (nat \<Rightarrow> nat \<Rightarrow> byte list option) \<Rightarrow> nat \<Rightarrow> key_type option \<Rightarrow> (key \<times> nat) result option" where
  \<comment> \<open>the result is the key and the number of the next random draw\<close>
  [code]: "generate_key_random des rand i kt =
     (let cipher_len =
            (case kt of
               Some kt \<Rightarrow> if kt_cipher kt \<noteq> None \<and> kt_cipher_length kt > 0 \<and> unat (kt_cipher_length kt) \<le> MAX_CIPHER_KEY_LENGTH
                          then unat (kt_cipher_length kt) else MAX_CIPHER_KEY_LENGTH
             | None \<Rightarrow> MAX_CIPHER_KEY_LENGTH);
          hmac_len =
            (case kt of
               Some kt \<Rightarrow> if kt_digest kt \<noteq> None \<and> kt_hmac_length kt > 0 \<and> unat (kt_hmac_length kt) \<le> MAX_HMAC_KEY_LENGTH
                          then unat (kt_hmac_length kt) else MAX_HMAC_KEY_LENGTH
             | None \<Rightarrow> MAX_HMAC_KEY_LENGTH)
      in case random_key rand i cipher_len hmac_len of
           Inl e \<Rightarrow> Some (Inl e)
         | Inr k \<Rightarrow>
             (case kt of
                None \<Rightarrow> Some (Inr (k, i + 2))
              | Some t \<Rightarrow>
                  (case bind_result (fixup_key des k t) (\<lambda>k. bind_result (check_key des k t) (\<lambda>ok. Inr (k, ok))) of
                     Inl e \<Rightarrow> Some (Inl e)
                   | Inr r \<Rightarrow> (case r of (k, ok) \<Rightarrow> if ok then Some (Inr (k, i + 2)) else generate_key_random des rand (i + 2) kt))))"

section \<open>Static key files\<close>

definition static_key_head :: cstr where
  "static_key_head = map of_char ''-----BEGIN OpenVPN Static key V1-----''"
definition static_key_foot :: cstr where
  "static_key_foot = map of_char ''-----END OpenVPN Static key V1-----''"

definition RKF_MUST_SUCCEED :: u32 where "RKF_MUST_SUCCEED = 1"
definition RKF_INLINE :: u32 where "RKF_INLINE = 2"
definition GHK_INLINE :: u32 where "GHK_INLINE = 1"

datatype parse_state = PARSE_INITIAL | PARSE_HEAD | PARSE_DATA | PARSE_DATA_COMPLETE | PARSE_FOOT | PARSE_FINISHED

record key_parse =
  kp_state :: parse_state
  kp_hex :: "byte list"   \<comment> \<open>the first \<open>hb_index\<close> characters of \<open>hex_byte\<close>\<close>
  kp_line_index :: nat
  kp_match :: nat
  kp_out :: "byte list"   \<comment> \<open>the \<open>count\<close> bytes written at \<open>key2->keys\<close>\<close>

definition key_parse_init :: key_parse where
  "key_parse_init = \<lparr>kp_state = PARSE_INITIAL, kp_hex = [], kp_line_index = 0, kp_match = 0, kp_out = []\<rparr>"

definition KEYLEN :: nat where "KEYLEN = 2 * (MAX_CIPHER_KEY_LENGTH + MAX_HMAC_KEY_LENGTH)"
definition ONEKEYLEN :: nat where "ONEKEYLEN = MAX_CIPHER_KEY_LENGTH + MAX_HMAC_KEY_LENGTH"

definition hex_value :: "byte \<Rightarrow> byte" where
  "hex_value c = (if isdigit c then c - 48 else if 97 \<le> c then c - 87 else c - 55)"

definition parse_match :: "cstr \<Rightarrow> parse_state \<Rightarrow> byte \<Rightarrow> key_parse \<Rightarrow> key_parse" where
  \<comment> \<open>comparison with the header or footer line\<close>
  "parse_match text finished c p =
     (if kp_line_index p < length text \<and> c = text ! kp_line_index p
      then (let p = p\<lparr>kp_match := kp_match p + 1\<rparr>
            in if kp_match p = length text then p\<lparr>kp_state := finished\<rparr> else p)
      else p)"

definition parse_data :: "byte \<Rightarrow> key_parse \<Rightarrow> key_parse result" where
  \<comment> \<open>the state \<open>PARSE_DATA\<close>\<close>
  "parse_data c p =
     (if isxdigit c
      then assert_that (length (kp_hex p) < 2)
        (let p = p\<lparr>kp_hex := kp_hex p @ [c]\<rparr>
         in Inr (if length (kp_hex p) = 2
                 then (let u = 16 * hex_value (kp_hex p ! 0) + hex_value (kp_hex p ! 1);
                           p = p\<lparr>kp_out := kp_out p @ [u], kp_hex := []\<rparr>
                       in if length (kp_out p) = KEYLEN then p\<lparr>kp_state := PARSE_DATA_COMPLETE\<rparr> else p)
                 else p))
      else if isspace c then Inr p
      else Inl FatalError)"

definition key_parse_char :: "byte \<Rightarrow> key_parse \<Rightarrow> key_parse result" where
  "key_parse_char c p =
     (if c = 10 then Inr (p\<lparr>kp_line_index := 0, kp_match := 0\<rparr>)
      else
        (let p = (if kp_line_index p = 0
                  then (let p = (if kp_state p = PARSE_HEAD then p\<lparr>kp_state := PARSE_DATA\<rparr> else p)
                        in if (kp_state p = PARSE_DATA \<or> kp_state p = PARSE_DATA_COMPLETE) \<and> c = 45
                           then p\<lparr>kp_state := PARSE_FOOT\<rparr> else p)
                  else p);
             p = (if kp_state p = PARSE_INITIAL then parse_match static_key_head PARSE_HEAD c p else p);
             p = (if kp_state p = PARSE_FOOT then parse_match static_key_foot PARSE_FINISHED c p else p)
         in bind_result (if kp_state p = PARSE_DATA then parse_data c p else Inr p) (\<lambda>p.
              Inr (p\<lparr>kp_line_index := kp_line_index p + 1\<rparr>))))"

fun key_parse_loop :: "byte list \<Rightarrow> key_parse \<Rightarrow> key_parse result" where
  "key_parse_loop [] p = Inr p"
| "key_parse_loop (c # cs) p = bind_result (key_parse_char c p) (key_parse_loop cs)"

definition read_key_file :: "(cstr \<Rightarrow> byte list option) \<Rightarrow> cstr \<Rightarrow> u32 \<Rightarrow> key2 result" where
  \<comment> \<open>\<open>files\<close> gives the bytes of a file that can be opened and read\<close>
  "read_key_file files f flags =
     bind_result
       (if flags AND RKF_INLINE \<noteq> 0 then Inr (f @ [0])
        else (case files f of
                None \<Rightarrow> Inl FatalError
              | Some bs \<Rightarrow> if length bs \<ge> 2048 then Inl FatalError else Inr bs))
       (\<lambda>bs. bind_result (key_parse_loop bs key_parse_init) (\<lambda>p.
          let keys = mem_write (replicate KEYLEN 0) 0 (kp_out p);
              n = int (length (kp_out p) div ONEKEYLEN);
              key2 = \<lparr>k2_n = n, k2_keys = [key_of_bytes keys, key_of_bytes (drop ONEKEYLEN keys)]\<rparr>
          in assert_that (n \<le> 2)
               (if flags AND RKF_MUST_SUCCEED \<noteq> 0 \<and> (n = 0 \<or> kp_state p \<noteq> PARSE_FINISHED) then Inl FatalError
                else Inr key2)))"

fun write_keys_loop :: "des_ops \<Rightarrow> (nat \<Rightarrow> nat \<Rightarrow> byte list option) \<Rightarrow> (nat \<Rightarrow> byte) \<Rightarrow> nat \<Rightarrow> nat \<Rightarrow> buffer \<Rightarrow> buffer result option" where
  \<comment> \<open>the \<open>n\<close> rounds left, the next one drawing from the \<open>i\<close>-th random value\<close>
  "write_keys_loop des rand junk 0 i out = Some (Inr out)"
| "write_keys_loop des rand junk (Suc n) i out =
     (case generate_key_random des rand i None of
        None \<Rightarrow> None
      | Some (Inl e) \<Rightarrow> Some (Inl e)
      | Some (Inr (k, i)) \<Rightarrow>
          (case format_hex_ex junk (key_bytes k) 0 16 (Some [10]) of
             Inl e \<Rightarrow> Some (Inl e)
           | Inr fmt \<Rightarrow> write_keys_loop des rand junk n i (snd (buf_printf out (fmt @ [10])))))"

definition nbits_head_text :: "nat \<Rightarrow> cstr" where
  \<comment> \<open>\<open>"#\n# %d bit OpenVPN static key\n#\n"\<close>\<close>
  "nbits_head_text nbits = [35, 10, 35, 32] @ dec_text nbits @ map of_char '' bit OpenVPN static key'' @ [10, 35, 10]"

definition write_key_file ::
    "des_ops \<Rightarrow> (nat \<Rightarrow> nat \<Rightarrow> byte list option) \<Rightarrow> (nat \<Rightarrow> byte) \<Rightarrow> nat \<Rightarrow> (nat \<times> byte list) result option" where
  \<comment> \<open>the results are the number of bits and the bytes of the file\<close>
  "write_key_file des rand junk nkeys =
     (case bind_result (alloc_buf junk 2048) (\<lambda>out. bind_result (alloc_buf junk 128) (\<lambda>hd.
             Inr (snd (buf_printf out (static_key_head @ [10])), hd))) of
        Inl e \<Rightarrow> Some (Inl e)
      | Inr (out, head) \<Rightarrow>
          map_option (\<lambda>r. bind_result r (\<lambda>out.
              let out = snd (buf_printf out (static_key_foot @ [10]));
                  nbits = nkeys * (ONEKEYLEN * 8);
                  head = snd (buf_printf head (nbits_head_text nbits))
              in Inr (nbits, cstr_of (drop (nat (b_offset head)) (buf_block head)) @ cstr_of (drop (nat (b_offset out)) (buf_block out)))))
            (write_keys_loop des rand junk nkeys 0 out))"


definition read_passphrase_hash :: "(cstr \<Rightarrow> byte list option) \<Rightarrow> cstr \<Rightarrow> evp_md \<Rightarrow> nat \<Rightarrow> (int \<times> byte list) result" where
  \<comment> \<open>the results are \<open>outlen\<close> and the \<open>len\<close> bytes of \<open>output\<close>\<close>
  "read_passphrase_hash files passphrase_file digest len =
     assert_that (int len \<ge> md_size digest)
       (case files passphrase_file of
          None \<Rightarrow> Inl FatalError
        | Some bs \<Rightarrow>
            if length bs < 8 then Inl FatalError
            else Inr (int (length (md_digest digest bs)), mem_write (replicate len 0) 0 (md_digest digest bs)))"

definition must_have_n_keys :: "key2 \<Rightarrow> int \<Rightarrow> unit result" where
  "must_have_n_keys key2 n = (if k2_n key2 < n then Inl FatalError else Inr ())"

definition ascii2keydirection :: "cstr option \<Rightarrow> int" where
  "ascii2keydirection str =
     (case str of
        None \<Rightarrow> KEY_DIRECTION_BIDIRECTIONAL
      | Some s \<Rightarrow> if s = [48] then KEY_DIRECTION_NORMAL else if s = [49] then KEY_DIRECTION_INVERSE else - 1)"

definition keydirection2ascii :: "int \<Rightarrow> bool \<Rightarrow> cstr option result" where
  "keydirection2ascii kd remote =
     (if kd = KEY_DIRECTION_BIDIRECTIONAL then Inr None
      else if kd = KEY_DIRECTION_NORMAL then Inr (Some (if remote then [49] else [48]))
      else if kd = KEY_DIRECTION_INVERSE then Inr (Some (if remote then [48] else [49]))
      else Inl AssertFailed)"

definition key_direction_state_init :: "int \<Rightarrow> key_direction_state result" where
  "key_direction_state_init key_direction =
     (if key_direction = KEY_DIRECTION_NORMAL then Inr \<lparr>kds_out_key = 0, kds_in_key = 1, kds_need_keys = 2\<rparr>
      else if key_direction = KEY_DIRECTION_INVERSE then Inr \<lparr>kds_out_key = 1, kds_in_key = 0, kds_need_keys = 2\<rparr>
      else if key_direction = KEY_DIRECTION_BIDIRECTIONAL then Inr \<lparr>kds_out_key = 0, kds_in_key = 0, kds_need_keys = 1\<rparr>
      else Inl AssertFailed)"

fun verify_fix_loop :: "des_ops \<Rightarrow> key_type \<Rightarrow> nat list \<Rightarrow> key2 \<Rightarrow> key2 result" where
  "verify_fix_loop des kt [] key2 = Inr key2"
| "verify_fix_loop des kt (i # is) key2 =
     bind_result (fixup_key des (k2_keys key2 ! i) kt) (\<lambda>k.
       bind_result (check_key des k kt) (\<lambda>ok.
         if \<not> ok then Inl FatalError
         else verify_fix_loop des kt is (key2\<lparr>k2_keys := (k2_keys key2)[i := k]\<rparr>)))"

definition verify_fix_key2 :: "des_ops \<Rightarrow> key2 \<Rightarrow> key_type \<Rightarrow> key2 result" where
  "verify_fix_key2 des key2 kt = verify_fix_loop des kt [0..<nat (k2_n key2)] key2"

section \<open>Keys on the wire\<close>

definition write_key :: "key \<Rightarrow> key_type \<Rightarrow> buffer \<Rightarrow> (bool \<times> buffer) result" where
  "write_key k kt b =
     assert_that (unat (kt_cipher_length kt) \<le> MAX_CIPHER_KEY_LENGTH \<and> unat (kt_hmac_length kt) \<le> MAX_HMAC_KEY_LENGTH)
       (case buf_write b [kt_cipher_length kt] of
          (False, b) \<Rightarrow> Inr (False, b)
        | (True, b) \<Rightarrow>
            (case buf_write b [kt_hmac_length kt] of
               (False, b) \<Rightarrow> Inr (False, b)
             | (True, b) \<Rightarrow>
                 (case buf_write b (take (unat (kt_cipher_length kt)) (key_cipher k)) of
                    (False, b) \<Rightarrow> Inr (False, b)
                  | (True, b) \<Rightarrow>
                      Inr (buf_write b (take (unat (kt_hmac_length kt)) (key_hmac k))))))"

definition buf_read_into :: "buffer \<Rightarrow> byte list \<Rightarrow> int \<Rightarrow> (bool \<times> byte list \<times> buffer) result" where
  \<comment> \<open>\<open>buf_read (src, dest, n)\<close> into the array \<open>dest\<close>\<close>
  "buf_read_into src dest n =
     (case buf_read src n of
        (None, src) \<Rightarrow> Inr (False, dest, src)
      | (Some bs, src) \<Rightarrow> if length bs > length dest then Inl BufferOverflow else Inr (True, mem_write dest 0 bs, src))"

definition read_key :: "key_type \<Rightarrow> buffer \<Rightarrow> (int \<times> key \<times> buffer) result" where
  "read_key kt b =
     (let k = key_zero
      in case buf_read b 1 of
           (None, b) \<Rightarrow> Inr (- 1, k, b)
         | (Some cl, b) \<Rightarrow>
             (case buf_read b 1 of
                (None, b) \<Rightarrow> Inr (- 1, k, b)
              | (Some hl, b) \<Rightarrow>
                  (let cipher_length = cl ! 0; hmac_length = hl ! 0
                   in bind_result (buf_read_into b (key_cipher k) (uint cipher_length)) (\<lambda>(ok, c, b).
                        let k = k\<lparr>key_cipher := c\<rparr>
                        in if \<not> ok then Inr (- 1, k, b)
                           else bind_result (buf_read_into b (key_hmac k) (uint hmac_length)) (\<lambda>(ok, h, b).
                             let k = k\<lparr>key_hmac := h\<rparr>
                             in if \<not> ok then Inr (- 1, k, b)
                                else if cipher_length \<noteq> kt_cipher_length kt \<or> hmac_length \<noteq> kt_hmac_length kt then Inr (0, k, b)
                                else Inr (1, k, b))))))"

section \<open>The key of the control channel\<close>

definition tls_auth_key2 :: "(cstr \<Rightarrow> byte list option) \<Rightarrow> key_type \<Rightarrow> cstr \<Rightarrow> u32 \<Rightarrow> key2 result" where
  \<comment> \<open>the keys from a static key file or from a passphrase file\<close>
  "tls_auth_key2 files kt f flags =
     (if flags AND GHK_INLINE \<noteq> 0
      then bind_result (read_key_file files f (RKF_INLINE OR RKF_MUST_SUCCEED)) (\<lambda>key2.
             if k2_n key2 = 2 then Inr key2 else Inl FatalError)
      else bind_result (read_key_file files f 0) (\<lambda>key2.
             if k2_n key2 = 2 then Inr key2
             else case kt_digest kt of
                    None \<Rightarrow> Inl NullDeref
                  | Some md \<Rightarrow>
                      bind_result (read_passphrase_hash files f md MAX_HMAC_KEY_LENGTH) (\<lambda>(hash_size, out).
                        assert_that (hash_size = uint (kt_hmac_length kt))
                          (Inr \<lparr>k2_n = 1, k2_keys = [key_zero\<lparr>key_hmac := out\<rparr>, key_zero]\<rparr>))))"

definition get_tls_handshake_key ::
    "(cstr \<Rightarrow> byte list option) \<Rightarrow> key_type \<Rightarrow> cstr option \<Rightarrow> int \<Rightarrow> u32 \<Rightarrow> key_ctx_bi result" where
  "get_tls_handshake_key files key_type passphrase_file key_direction flags =
     (let none = \<lparr>k_cipher = None, k_hmac = None\<rparr>
      in case passphrase_file of
           Some f \<Rightarrow>
             if kt_hmac_length key_type \<noteq> 0
             then (let kt = key_type\<lparr>kt_cipher_length := 0, kt_cipher := None\<rparr>
                   in bind_result (tls_auth_key2 files kt f flags) (\<lambda>key2.
                        bind_result (key_direction_state_init key_direction) (\<lambda>kds.
                          bind_result (must_have_n_keys key2 (kds_need_keys kds)) (\<lambda>u.
                            bind_result (init_key_ctx (k2_keys key2 ! kds_out_key kds) kt) (\<lambda>enc.
                              bind_result (init_key_ctx (k2_keys key2 ! kds_in_key kds) kt) (\<lambda>dec.
                                Inr \<lparr>kb_encrypt = enc, kb_decrypt = dec\<rparr>))))))
             else Inr \<lparr>kb_encrypt = none, kb_decrypt = none\<rparr>
         | None \<Rightarrow> Inr \<lparr>kb_encrypt = none, kb_decrypt = none\<rparr>)"

section \<open>The pseudo-random generator\<close>

definition NONCE_SECRET_LEN_MIN :: int where "NONCE_SECRET_LEN_MIN = 16"
definition NONCE_SECRET_LEN_MAX :: int where "NONCE_SECRET_LEN_MAX = 64"

record prng =
  prng_nonce_md :: "evp_md option"
  prng_nonce_data :: "byte list"
  prng_nonce_secret_len :: int

definition prng_uninit :: prng where
  "prng_uninit = \<lparr>prng_nonce_md = None, prng_nonce_data = [], prng_nonce_secret_len = 0\<rparr>"

definition prng_init :: "(cstr \<Rightarrow> evp_md option) \<Rightarrow> (nat \<Rightarrow> byte list option) \<Rightarrow> cstr option \<Rightarrow> int \<Rightarrow> prng result" where
  \<comment> \<open>\<open>rand\<close> is \<open>RAND_bytes\<close>\<close>
  "prng_init digests rand md_name nonce_secret_len_parm =
     (case md_name of
        None \<Rightarrow> Inr prng_uninit
      | Some name \<Rightarrow>
          bind_result (get_md digests name) (\<lambda>md.
            assert_that (nonce_secret_len_parm \<ge> NONCE_SECRET_LEN_MIN \<and> nonce_secret_len_parm \<le> NONCE_SECRET_LEN_MAX)
              (case rand (nat (md_size md + nonce_secret_len_parm)) of
                 None \<Rightarrow> Inl FatalError
               | Some bs \<Rightarrow> Inr \<lparr>prng_nonce_md = Some md, prng_nonce_data = bs, prng_nonce_secret_len = nonce_secret_len_parm\<rparr>)))"

partial_function (option) prng_bytes_loop ::
    "evp_md \<Rightarrow> int \<Rightarrow> byte list \<Rightarrow> int \<Rightarrow> byte list \<Rightarrow> (byte list \<times> byte list) result option" where
  \<comment> \<open>the loop: \<open>nonce_data\<close>, the bytes still wanted and the output so far\<close>
  [code]: "prng_bytes_loop md nonce_secret_len nonce_data len outp =
     (if len > 0
      then (let blen = (if len < md_size md then len else md_size md);
                h = md_digest md (take (nat (md_size md + nonce_secret_len)) nonce_data)
            in if int (length h) = md_size md
               then prng_bytes_loop md nonce_secret_len (mem_write nonce_data 0 h) (len - blen) (outp @ take (nat blen) h)
               else Some (Inl AssertFailed))
      else Some (Inr (outp, nonce_data)))"

definition prng_bytes :: "(nat \<Rightarrow> byte list) \<Rightarrow> prng \<Rightarrow> int \<Rightarrow> (byte list \<times> prng) result option" where
  \<comment> \<open>\<open>rand\<close> is \<open>RAND_bytes\<close>\<close>
  "prng_bytes rand g len =
     (case prng_nonce_md g of
        Some md \<Rightarrow>
          map_option (\<lambda>r. bind_result r (\<lambda>(out, nd). Inr (out, g\<lparr>prng_nonce_data := nd\<rparr>)))
            (prng_bytes_loop md (prng_nonce_secret_len g) (prng_nonce_data g) len [])
      | None \<Rightarrow> Some (Inr (rand (nat len), g)))"


section \<open>Writing and reading a key\<close>

lemma buf_read_cases:
  assumes "buf_ok b"
  obtains (full) b' where "n \<le> length (buf_contents b)" "buf_read b (int n) = (Some (take n (buf_contents b)), b')" "buf_ok b'"
      "buf_contents b' = drop n (buf_contents b)"
  | (short) "length (buf_contents b) < n" "buf_read b (int n) = (None, b)"
  using buf_read_ok [OF assms, of n] buf_read_short [OF assms, of n] by (cases "n \<le> length (buf_contents b)") auto

lemma buf_read_byte:
  assumes "buf_ok b" "buf_contents b = c # cs"
  obtains b' where "buf_read b 1 = (Some [c], b')" "buf_ok b'" "buf_contents b' = cs"
  using buf_read_ok [OF assms(1), of 1] assms(2) by auto

lemma read_key_header:
  assumes b: "buf_ok b" "buf_contents b = cl # hl # data"
  obtains b2 where "buf_ok b2" "buf_contents b2 = data"
    "read_key kt b = bind_result (buf_read_into b2 (key_cipher key_zero) (uint cl)) (\<lambda>(ok, c, b).
        if \<not> ok then Inr (- 1, key_zero\<lparr>key_cipher := c\<rparr>, b)
        else bind_result (buf_read_into b (key_hmac (key_zero\<lparr>key_cipher := c\<rparr>)) (uint hl)) (\<lambda>(ok, h, b).
          let k = key_zero\<lparr>key_cipher := c, key_hmac := h\<rparr>
          in if \<not> ok then Inr (- 1, k, b)
             else if cl \<noteq> kt_cipher_length kt \<or> hl \<noteq> kt_hmac_length kt then Inr (0, k, b) else Inr (1, k, b)))"
proof -
  obtain b1 where b1: "buf_read b 1 = (Some [cl], b1)" "buf_ok b1" "buf_contents b1 = hl # data"
    using buf_read_byte [OF b] by blast
  obtain b2 where b2: "buf_read b1 1 = (Some [hl], b2)" "buf_ok b2" "buf_contents b2 = data"
    using buf_read_byte [OF b1(2,3)] by blast
  show ?thesis
    by (rule that [OF b2(2,3)]) (simp add: read_key_def b1(1) b2(1) Let_def)
qed

lemma buf_read_into_eq:
  assumes "buf_ok b"
  shows "(length (buf_contents b) < n \<and> buf_read_into b dest (int n) = Inr (False, dest, b))
    \<or> (n \<le> length (buf_contents b) \<and> length dest < n \<and> buf_read_into b dest (int n) = Inl BufferOverflow)
    \<or> (n \<le> length (buf_contents b) \<and> n \<le> length dest \<and>
        (\<exists>b'. buf_read_into b dest (int n) = Inr (True, take n (buf_contents b) @ drop n dest, b') \<and> buf_ok b'
           \<and> buf_contents b' = drop n (buf_contents b)))"
proof (cases rule: buf_read_cases [OF assms, of n])
  case (1 b')
  then have len: "length (take n (buf_contents b)) = n" by (simp only: length_take min.absorb2)
  show ?thesis using 1 len by (auto simp: buf_read_into_def mem_write_def)
qed (auto simp: buf_read_into_def)

lemma uint_nat_byte: "uint (c :: byte) = int (unat c)"
  by simp

definition key_as_sent :: "key \<Rightarrow> key_type \<Rightarrow> key" where
  \<comment> \<open>the part of a key that its type uses\<close>
  "key_as_sent k kt =
     \<lparr>key_cipher = take (unat (kt_cipher_length kt)) (key_cipher k) @ replicate (MAX_CIPHER_KEY_LENGTH - unat (kt_cipher_length kt)) 0,
      key_hmac = take (unat (kt_hmac_length kt)) (key_hmac k) @ replicate (MAX_HMAC_KEY_LENGTH - unat (kt_hmac_length kt)) 0\<rparr>"

text \<open>C36. Reading a key from a message (key method 1) copies as many bytes as the message says into the 64 byte
  arrays of \<open>struct key\<close>: the arrays are overrun exactly when one of the two length bytes exceeds 64 and that many
  bytes follow.  The comparison with the expected lengths comes too late.
\<close>

theorem read_key_overflow:
  assumes b: "buf_ok b" "buf_contents b = cl # hl # data"
  shows "read_key kt b = Inl BufferOverflow \<longleftrightarrow>
    (64 < unat cl \<and> unat cl \<le> length data) \<or> (64 < unat hl \<and> unat cl \<le> 64 \<and> unat cl + unat hl \<le> length data)"
proof -
  obtain b2 where b2: "buf_ok b2" "buf_contents b2 = data" and r: "read_key kt b =
     bind_result (buf_read_into b2 (key_cipher key_zero) (uint cl)) (\<lambda>(ok, c, b).
        if \<not> ok then Inr (- 1, key_zero\<lparr>key_cipher := c\<rparr>, b)
        else bind_result (buf_read_into b (key_hmac (key_zero\<lparr>key_cipher := c\<rparr>)) (uint hl)) (\<lambda>(ok, h, b).
          let k = key_zero\<lparr>key_cipher := c, key_hmac := h\<rparr>
          in if \<not> ok then Inr (- 1, k, b)
             else if cl \<noteq> kt_cipher_length kt \<or> hl \<noteq> kt_hmac_length kt then Inr (0, k, b) else Inr (1, k, b)))"
    using read_key_header [OF b] by blast
  have kz: "length (key_cipher key_zero) = 64" "length (key_hmac key_zero) = 64"
    by (simp_all add: key_zero_def MAX_CIPHER_KEY_LENGTH_def MAX_HMAC_KEY_LENGTH_def)
  note c = buf_read_into_eq [OF b2(1), of "unat cl" "key_cipher key_zero", unfolded kz b2(2)]
  show ?thesis
  proof (cases "unat cl \<le> length data \<and> unat cl \<le> 64")
    case True
    then obtain b3 where b3: "buf_read_into b2 (key_cipher key_zero) (int (unat cl)) = Inr (True, take (unat cl) data @ drop (unat cl) (key_cipher key_zero), b3)"
        "buf_ok b3" "buf_contents b3 = drop (unat cl) data" using c by auto
    note h = buf_read_into_eq [OF b3(2), of "unat hl" "key_hmac key_zero", unfolded kz b3(3)]
    show ?thesis using h b3(1) True unfolding r uint_nat_byte by (auto simp: Let_def split: if_splits)
  next
    case False
    then show ?thesis using c unfolding r uint_nat_byte by auto
  qed
qed

text \<open>A key written into an empty buffer with enough room is read back with the same key type as the first
  bytes of its two parts, as many as the key type uses, and nothing of the message is left.
\<close>

theorem write_key_read_key:
  assumes b: "buf_ok b" "buf_contents b = []" and k: "key_ok k"
    and len: "unat (kt_cipher_length kt) \<le> 64" "unat (kt_hmac_length kt) \<le> 64"
    and room: "2 + unat (kt_cipher_length kt) + unat (kt_hmac_length kt) \<le> buf_room b"
  shows "\<exists>b1. write_key k kt b = Inr (True, b1) \<and> (\<exists>b2. read_key kt b1 = Inr (1, key_as_sent k kt, b2) \<and> buf_contents b2 = [])"
proof -
  let ?c = "unat (kt_cipher_length kt)" and ?h = "unat (kt_hmac_length kt)"
  have lk: "length (key_cipher k) = 64" "length (key_hmac k) = 64"
    using k by (simp_all add: key_ok_def MAX_CIPHER_KEY_LENGTH_def MAX_HMAC_KEY_LENGTH_def)
  have kz: "key_cipher key_zero = replicate 64 0" "key_hmac key_zero = replicate 64 0"
    by (simp_all add: key_zero_def MAX_CIPHER_KEY_LENGTH_def MAX_HMAC_KEY_LENGTH_def)
  have tl: "length (take ?c (key_cipher k)) = ?c" "length (take ?h (key_hmac k)) = ?h" using lk len by simp_all
  obtain w1 where w1: "buf_write b [kt_cipher_length kt] = (True, w1)" "buf_ok w1" "buf_contents w1 = [kt_cipher_length kt]"
      "buf_room w1 = buf_room b - 1" using buf_write_ok [OF b(1), of "[kt_cipher_length kt]"] b(2) room by auto
  have r2: "length [kt_hmac_length kt] \<le> buf_room w1" unfolding w1(4) list.size using room by linarith
  obtain w2 where w2: "buf_write w1 [kt_hmac_length kt] = (True, w2)" "buf_ok w2" "buf_contents w2 = [kt_cipher_length kt, kt_hmac_length kt]"
      "buf_room w2 = buf_room b - 2" using buf_write_ok [OF w1(2) r2] w1(3,4) by auto
  have r3: "length (take ?c (key_cipher k)) \<le> buf_room w2" unfolding tl w2(4) using room by linarith
  obtain w3 where w3: "buf_write w2 (take ?c (key_cipher k)) = (True, w3)" "buf_ok w3"
      "buf_contents w3 = [kt_cipher_length kt, kt_hmac_length kt] @ take ?c (key_cipher k)" "buf_room w3 = buf_room b - 2 - ?c"
    using buf_write_ok [OF w2(2) r3] w2(3,4) tl by auto
  have r4: "length (take ?h (key_hmac k)) \<le> buf_room w3" unfolding tl w3(4) using room by linarith
  obtain w4 where w4: "buf_write w3 (take ?h (key_hmac k)) = (True, w4)" "buf_ok w4"
      "buf_contents w4 = kt_cipher_length kt # kt_hmac_length kt # take ?c (key_cipher k) @ take ?h (key_hmac k)"
    using buf_write_ok [OF w3(2) r4] w3(3) by auto
  have wr: "write_key k kt b = Inr (True, w4)"
    using w1(1) w2(1) w3(1) w4(1) len by (simp add: write_key_def MAX_CIPHER_KEY_LENGTH_def MAX_HMAC_KEY_LENGTH_def)
  obtain b2 where b2: "buf_ok b2" "buf_contents b2 = take ?c (key_cipher k) @ take ?h (key_hmac k)" and r: "read_key kt w4 =
     bind_result (buf_read_into b2 (key_cipher key_zero) (uint (kt_cipher_length kt))) (\<lambda>(ok, c, b).
        if \<not> ok then Inr (- 1, key_zero\<lparr>key_cipher := c\<rparr>, b)
        else bind_result (buf_read_into b (key_hmac (key_zero\<lparr>key_cipher := c\<rparr>)) (uint (kt_hmac_length kt))) (\<lambda>(ok, h, b).
          let k = key_zero\<lparr>key_cipher := c, key_hmac := h\<rparr>
          in if \<not> ok then Inr (- 1, k, b)
             else if kt_cipher_length kt \<noteq> kt_cipher_length kt \<or> kt_hmac_length kt \<noteq> kt_hmac_length kt then Inr (0, k, b) else Inr (1, k, b)))"
    using read_key_header [OF w4(2,3)] by blast
  obtain b3 where b3: "buf_read_into b2 (key_cipher key_zero) (int ?c) = Inr (True, take ?c (key_cipher k) @ replicate (64 - ?c) 0, b3)"
      "buf_ok b3" "buf_contents b3 = take ?h (key_hmac k)"
    using buf_read_into_eq [OF b2(1), of ?c "key_cipher key_zero"] b2(2) tl len by (auto simp: kz)
  obtain b4 where b4: "buf_read_into b3 (key_hmac key_zero) (int ?h) = Inr (True, take ?h (key_hmac k) @ replicate (64 - ?h) 0, b4)"
      "buf_ok b4" "buf_contents b4 = []"
    using buf_read_into_eq [OF b3(2), of ?h "key_hmac key_zero"] b3(3) tl len by (auto simp: kz)
  have "read_key kt w4 = Inr (1, key_as_sent k kt, b4)"
    using b3(1) b4(1) unfolding r uint_nat_byte
    by (simp add: Let_def key_as_sent_def MAX_CIPHER_KEY_LENGTH_def MAX_HMAC_KEY_LENGTH_def)
  then show ?thesis using wr b4(3) by blast
qed

definition ex_buffer :: "byte list \<Rightarrow> int \<Rightarrow> buffer" where
  \<comment> \<open>a buffer that holds some bytes, with room for more\<close>
  "ex_buffer bs room = \<lparr>b_capacity = int (length bs) + room, b_offset = 0, b_len = int (length bs),
     b_data = Some (bs @ replicate (nat room) 0)\<rparr>"

lemma ex_buffer_ok:
  assumes "0 \<le> room" "int (length bs) + room < BUF_SIZE_MAX"
  shows "buf_ok (ex_buffer bs room)" "buf_contents (ex_buffer bs room) = bs" "buf_room (ex_buffer bs room) = nat room"
proof -
  show ok: "buf_ok (ex_buffer bs room)" using assms by (simp add: ex_buffer_def buf_ok_def buf_block_def)
  show "buf_contents (ex_buffer bs room) = bs" using ok
    by (simp add: buf_contents_def) (simp add: ex_buffer_def buf_block_def mem_read_def)
  show "buf_room (ex_buffer bs room) = nat room" using buf_room_eq [OF ok] assms(1) by (simp add: ex_buffer_def)
qed

theorem read_key_overflow_witness:
  "read_key \<lparr>kt_cipher_length = 16, kt_hmac_length = 20, kt_cipher = None, kt_digest = None\<rparr>
     (ex_buffer (200 # 20 # replicate 230 0x41) 0) = Inl BufferOverflow"
proof -
  have "buf_ok (ex_buffer (200 # 20 # replicate 230 0x41) 0)" "buf_contents (ex_buffer (200 # 20 # replicate 230 0x41) 0) = 200 # 20 # replicate 230 0x41"
    using ex_buffer_ok [of 0 "200 # 20 # replicate 230 0x41"] by (simp_all add: BUF_SIZE_MAX_def)
  from read_key_overflow [OF this] show ?thesis by simp
qed

theorem write_key_read_key_witness:
  "\<exists>b1. write_key \<lparr>key_cipher = replicate 64 7, key_hmac = replicate 64 9\<rparr>
      \<lparr>kt_cipher_length = 16, kt_hmac_length = 20, kt_cipher = None, kt_digest = None\<rparr> (ex_buffer [] 100) = Inr (True, b1)"
proof -
  have "buf_ok (ex_buffer [] 100)" "buf_contents (ex_buffer [] 100) = []" "buf_room (ex_buffer [] 100) = 100"
    using ex_buffer_ok [of 100 "[]"] by (simp_all add: BUF_SIZE_MAX_def)
  then show ?thesis
    using write_key_read_key [of "ex_buffer [] 100" "\<lparr>key_cipher = replicate 64 7, key_hmac = replicate 64 9\<rparr>"
        "\<lparr>kt_cipher_length = 16, kt_hmac_length = 20, kt_cipher = None, kt_digest = None\<rparr>"]
    by (auto simp: key_ok_def MAX_CIPHER_KEY_LENGTH_def MAX_HMAC_KEY_LENGTH_def)
qed


section \<open>A key file is read back\<close>

lemma key_parse_loop_append:
  "key_parse_loop (xs @ ys) p = bind_result (key_parse_loop xs p) (key_parse_loop ys)"
proof (induction xs arbitrary: p)
  case (Cons x xs)
  then show ?case by (cases "key_parse_char x p") simp_all
qed simp

lemma hex_value_digit: "v < 16 \<Longrightarrow> hex_value (hex_digit v) = v"
proof -
  assume "v < 16"
  then have u: "unat v < 16" by (simp add: word_less_nat_alt)
  have v: "v = of_nat (unat v)" by simp
  have "list_all (\<lambda>v. hex_value (hex_digit v) = v) [0, 1, 2, 3, 4, 5, 6, 7, 8, 9, 10, 11, 12, 13, 14, 15]"
    by (simp add: hex_value_def hex_digit_def isdigit_def)
  moreover have "v \<in> of_nat ` {..<16}" using u v by (metis imageI lessThan_iff)
  then have "v \<in> {0, 1, 2, 3, 4, 5, 6, 7, 8, 9, 10, 11, 12, 13, 14, 15}"
    by (auto simp add: lessThan_nat_numeral)
  ultimately show ?thesis by auto
qed

lemma nibbles_value: "16 * drop_bit 4 v + (v AND 15) = (v :: byte)"
proof -
  have "v AND 15 = take_bit 4 v" by (simp add: take_bit_eq_mask mask_eq_exp_minus_1)
  moreover have "16 * drop_bit 4 v = push_bit 4 (drop_bit 4 v)" by (simp add: push_bit_eq_mult)
  ultimately show ?thesis by (simp add: bits_ident)
qed

definition parsing_data :: "key_parse \<Rightarrow> byte list \<Rightarrow> bool" where
  \<comment> \<open>before a byte of key data, after the bytes \<open>out\<close>\<close>
  "parsing_data p out \<longleftrightarrow> (kp_state p = PARSE_DATA \<or> kp_state p = PARSE_HEAD \<and> kp_line_index p = 0) \<and> kp_hex p = [] \<and> kp_out p = out"

definition parsed_data :: "key_parse \<Rightarrow> byte list \<Rightarrow> bool" where
  "parsed_data p out \<longleftrightarrow> kp_state p = (if length out = KEYLEN then PARSE_DATA_COMPLETE else PARSE_DATA) \<and> kp_hex p = [] \<and> kp_out p = out"

lemma xdigit_not: "isxdigit c \<Longrightarrow> c \<noteq> 10 \<and> c \<noteq> 45"
  by (auto simp: isxdigit_def isdigit_def)

lemma data_char:
  assumes "kp_state p = PARSE_DATA \<or> kp_state p = PARSE_HEAD \<and> kp_line_index p = 0" "isxdigit c"
  shows "key_parse_char c p = bind_result (parse_data c (p\<lparr>kp_state := PARSE_DATA\<rparr>)) (\<lambda>p. Inr (p\<lparr>kp_line_index := kp_line_index p + 1\<rparr>))"
proof -
  have c: "c \<noteq> 10" "c \<noteq> 45" using xdigit_not [OF assms(2)] by simp_all
  show ?thesis
  proof (cases "kp_state p = PARSE_DATA")
    case True
    then show ?thesis using c by (cases p) (simp add: key_parse_char_def)
  next
    case False
    then show ?thesis using assms(1) c by (simp add: key_parse_char_def)
  qed
qed

lemma parse_hex_byte:
  assumes "parsing_data p out" "length out < KEYLEN"
  shows "\<exists>p'. key_parse_loop (hex_byte v) p = Inr p' \<and> parsed_data p' (out @ [v])"
proof -
  let ?h = "hex_digit (drop_bit 4 v)" and ?l = "hex_digit (v AND 15)"
  have x: "isxdigit ?h" "isxdigit ?l" using hex_digit_nonzero hex_nibbles by auto
  have val: "16 * hex_value ?h + hex_value ?l = v"
    using hex_value_digit [OF hex_nibbles(1)] hex_value_digit [OF hex_nibbles(2)] nibbles_value by simp
  define p1 where "p1 = p\<lparr>kp_state := PARSE_DATA, kp_hex := [?h], kp_line_index := kp_line_index p + 1\<rparr>"
  have 1: "key_parse_char ?h p = Inr p1"
    using assms(1) data_char [of p ?h] x(1) by (simp add: parsing_data_def parse_data_def Let_def p1_def)
  have "\<exists>p'. key_parse_char ?l p1 = Inr p' \<and> parsed_data p' (out @ [v])"
    using assms data_char [of p1 ?l] x(2) val by (simp add: parsing_data_def parse_data_def parsed_data_def Let_def p1_def)
  then show ?thesis using 1 by (auto simp: hex_byte_def)
qed

lemma parsed_parsing: "parsed_data p out \<Longrightarrow> length out < KEYLEN \<Longrightarrow> parsing_data p out"
  by (simp add: parsed_data_def parsing_data_def)

lemma parse_newline:
  "key_parse_loop [10] p = Inr (p\<lparr>kp_line_index := 0, kp_match := 0\<rparr>)"
  "parsed_data p out \<Longrightarrow> parsed_data (p\<lparr>kp_line_index := 0, kp_match := 0\<rparr>) out"
  "parsing_data p out \<Longrightarrow> parsing_data (p\<lparr>kp_line_index := 0, kp_match := 0\<rparr>) out"
  by (auto simp: key_parse_char_def parsed_data_def parsing_data_def)

lemma parse_hex_text:
  assumes "parsing_data p out" "length out + length vs \<le> KEYLEN" "vs \<noteq> []"
  shows "\<exists>p'. key_parse_loop (hex_text 16 [10] i vs) p = Inr p' \<and> parsed_data p' (out @ vs)"
  using assms
proof (induction vs arbitrary: i p out)
  case (Cons v vs)
  obtain p1 where p1: "key_parse_loop (if i \<noteq> 0 \<and> i mod 16 = 0 then [10] else []) p = Inr p1" "parsing_data p1 out"
    using parse_newline(1) [of p] parse_newline(3) [OF Cons.prems(1)] Cons.prems(1) by (cases "i \<noteq> 0 \<and> i mod 16 = 0") auto
  obtain p2 where p2: "key_parse_loop (hex_byte v) p1 = Inr p2" "parsed_data p2 (out @ [v])"
    using parse_hex_byte [OF p1(2)] Cons.prems(2) by auto
  have s: "key_parse_loop (hex_text 16 [10] i (v # vs)) p = key_parse_loop (hex_text 16 [10] (Suc i) vs) p2"
    using p1(1) p2(1) by (simp only: hex_text.simps key_parse_loop_append bind_result.simps)
  show ?case
  proof (cases "vs = []")
    case True
    then show ?thesis using s p2(2) by simp
  next
    case False
    then have "length (out @ [v]) < KEYLEN" using Cons.prems(2) by (cases vs) auto
    then show ?thesis using Cons.IH [OF parsed_parsing [OF p2(2)], of "Suc i"] Cons.prems(2) False unfolding s by simp
  qed
qed simp

lemma parse_foot:
  assumes "kp_state p = PARSE_FOOT" "kp_line_index p = i" "kp_match p = i" "i < length static_key_foot" "0 < i"
  shows "\<exists>p'. key_parse_loop (drop i static_key_foot) p = Inr p' \<and> kp_state p' = PARSE_FINISHED \<and> kp_out p' = kp_out p"
  using assms
proof (induction "length static_key_foot - i" arbitrary: i p)
  case (Suc n)
  let ?c = "static_key_foot ! i"
  have d: "drop i static_key_foot = ?c # drop (Suc i) static_key_foot" using Suc.prems(4) by (rule Cons_nth_drop_Suc [symmetric])
  have "list_all (\<lambda>c. c \<noteq> 10) static_key_foot" by code_simp
  then have c: "?c \<noteq> 10" using Suc.prems(4) by (simp add: list_all_length)
  let ?p = "p\<lparr>kp_match := Suc i, kp_line_index := Suc i, kp_state := (if Suc i = length static_key_foot then PARSE_FINISHED else PARSE_FOOT)\<rparr>"
  have step: "key_parse_char ?c p = Inr ?p"
    using Suc.prems c by (simp add: key_parse_char_def parse_match_def Let_def)
  show ?case
  proof (cases "Suc i = length static_key_foot")
    case True
    then show ?thesis using step by (simp add: d)
  next
    case False
    then have "\<exists>p'. key_parse_loop (drop (Suc i) static_key_foot) ?p = Inr p' \<and> kp_state p' = PARSE_FINISHED \<and> kp_out p' = kp_out ?p"
      using Suc.prems Suc.hyps(2) by (intro Suc.hyps(1)) auto
    then show ?thesis using step by (simp add: d)
  qed
qed simp


definition key_file_text :: "key \<Rightarrow> key \<Rightarrow> byte list" where
  "key_file_text k1 k2 =
     static_key_head @ [10] @ hex_text 16 [10] 0 (key_bytes k1) @ [10] @ hex_text 16 [10] 0 (key_bytes k2) @ [10] @ static_key_foot @ [10]"

lemma length_static_key: "length static_key_head = 37" "length static_key_foot = 35" "0 \<notin> set static_key_head" "0 \<notin> set static_key_foot"
proof -
  show "length static_key_head = 37" "length static_key_foot = 35" by (simp_all add: static_key_head_def static_key_foot_def)
  have "list_all (\<lambda>c. 10 < c) static_key_head" by code_simp
  then show "0 \<notin> set static_key_head" by (auto simp: list_all_iff)
  have "list_all (\<lambda>c. 10 < c) static_key_foot" by code_simp
  then show "0 \<notin> set static_key_foot" by (auto simp: list_all_iff)
qed

lemma length_key_bytes: "key_ok k \<Longrightarrow> length (key_bytes k) = ONEKEYLEN"
  by (simp add: key_ok_def key_bytes_def ONEKEYLEN_def)

lemma ONEKEYLEN_eq: "ONEKEYLEN = 128" "KEYLEN = 256"
  by (simp_all add: ONEKEYLEN_def KEYLEN_def MAX_CIPHER_KEY_LENGTH_def MAX_HMAC_KEY_LENGTH_def)

lemma key_of_key_bytes: "key_ok k \<Longrightarrow> key_of_bytes (key_bytes k @ r) = k"
  by (simp add: key_of_bytes_def key_bytes_def key_ok_def)

lemma initial_char:
  assumes "kp_state p = PARSE_INITIAL" "c \<noteq> 10"
  shows "key_parse_char c p =
    Inr (parse_match static_key_head PARSE_HEAD c p\<lparr>kp_line_index := Suc (kp_line_index p)\<rparr>)"
proof -
  let ?q = "parse_match static_key_head PARSE_HEAD c p"
  have q: "kp_state ?q \<noteq> PARSE_FOOT" "kp_state ?q \<noteq> PARSE_DATA" "kp_line_index ?q = kp_line_index p"
    using assms(1) by (simp_all add: parse_match_def Let_def)
  show ?thesis using assms q by (simp add: key_parse_char_def)
qed

lemma parse_comment:
  assumes "kp_state p = PARSE_INITIAL" "kp_match p \<le> kp_line_index p" "10 \<notin> set l" "kp_line_index p + length l < length static_key_head"
  shows "\<exists>p'. key_parse_loop l p = Inr p' \<and> kp_state p' = PARSE_INITIAL \<and> kp_out p' = kp_out p \<and> kp_hex p' = kp_hex p"
  using assms
proof (induction l arbitrary: p)
  case (Cons c l)
  obtain m where m: "key_parse_char c p = Inr (p\<lparr>kp_match := m, kp_line_index := Suc (kp_line_index p)\<rparr>)" "m \<le> Suc (kp_line_index p)"
  proof (cases "c = static_key_head ! kp_line_index p")
    case True
    then show ?thesis using that [of "Suc (kp_match p)"] Cons.prems initial_char [OF Cons.prems(1), of c]
      by (simp add: parse_match_def Let_def)
  next
    case False
    then show ?thesis using that [of "kp_match p"] Cons.prems initial_char [OF Cons.prems(1), of c]
      by (simp add: parse_match_def)
  qed
  let ?p = "p\<lparr>kp_match := m, kp_line_index := Suc (kp_line_index p)\<rparr>"
  have "\<exists>p'. key_parse_loop l ?p = Inr p' \<and> kp_state p' = PARSE_INITIAL \<and> kp_out p' = kp_out ?p \<and> kp_hex p' = kp_hex ?p"
    using Cons.prems m(2) by (intro Cons.IH) auto
  then show ?case using m(1) by simp
qed simp

lemma parse_comment_line:
  assumes "10 \<notin> set l" "length l < length static_key_head"
  shows "key_parse_loop (l @ [10]) key_parse_init = Inr key_parse_init"
proof -
  obtain p where p: "key_parse_loop l key_parse_init = Inr p" "kp_state p = PARSE_INITIAL" "kp_out p = []" "kp_hex p = []"
    using parse_comment [of key_parse_init l] assms by (auto simp: key_parse_init_def)
  then have "p\<lparr>kp_line_index := 0, kp_match := 0\<rparr> = key_parse_init" by (cases p) (simp add: key_parse_init_def)
  then show ?thesis using p(1) parse_newline(1) by (simp only: key_parse_loop_append bind_result.simps)
qed

lemma parse_header:
  assumes "kp_state p = PARSE_INITIAL" "kp_line_index p = i" "kp_match p = i" "i < length static_key_head"
  shows "key_parse_loop (drop i static_key_head) p =
    Inr (p\<lparr>kp_state := PARSE_HEAD, kp_match := length static_key_head, kp_line_index := length static_key_head\<rparr>)"
  using assms
proof (induction "length static_key_head - i" arbitrary: i p)
  case (Suc n)
  let ?c = "static_key_head ! i"
  have d: "drop i static_key_head = ?c # drop (Suc i) static_key_head" using Suc.prems(4) by (rule Cons_nth_drop_Suc [symmetric])
  have "list_all (\<lambda>c. c \<noteq> 10) static_key_head" by code_simp
  then have c: "?c \<noteq> 10" using Suc.prems(4) by (simp add: list_all_length)
  let ?p = "p\<lparr>kp_match := Suc i, kp_line_index := Suc i, kp_state := (if Suc i = length static_key_head then PARSE_HEAD else PARSE_INITIAL)\<rparr>"
  have step: "key_parse_char ?c p = Inr ?p"
    unfolding initial_char [OF Suc.prems(1) c] using Suc.prems
    by (cases "Suc i = length static_key_head"; cases p) (auto simp: parse_match_def Let_def)
  show ?case
  proof (cases "Suc i = length static_key_head")
    case True
    then show ?thesis using step by (simp add: d)
  next
    case False
    then have "key_parse_loop (drop (Suc i) static_key_head) ?p =
        Inr (?p\<lparr>kp_state := PARSE_HEAD, kp_match := length static_key_head, kp_line_index := length static_key_head\<rparr>)"
      using Suc.prems Suc.hyps(2) by (intro Suc.hyps(1)) auto
    then show ?thesis using step by (simp add: d)
  qed
qed simp

lemma parse_head_line:
  "key_parse_loop (nbits_head_text 2048 @ static_key_head @ [10]) key_parse_init =
     Inr \<lparr>kp_state = PARSE_HEAD, kp_hex = [], kp_line_index = 0, kp_match = 0, kp_out = []\<rparr>"
proof -
  let ?l = "[35, 32] @ dec_text 2048 @ map of_char '' bit OpenVPN static key''"
  have "dec_text 2048 = [50, 48, 52, 56]" by (simp add: dec_text.simps)
  then have dt: "length (dec_text 2048) = 4" "10 \<notin> set (dec_text 2048)" by simp_all
  have "list_all (\<lambda>c. c \<noteq> (10 :: byte)) (map of_char '' bit OpenVPN static key'')" by code_simp
  then have m: "10 \<notin> set (map of_char '' bit OpenVPN static key'' :: byte list)" unfolding list_all_iff by blast
  have l: "length ?l < length static_key_head" using dt length_static_key(1) by simp
  have n: "10 \<notin> set ?l" using dt m by (simp only: set_append Un_iff) simp
  have one: "key_parse_loop ([35] @ [10]) key_parse_init = Inr key_parse_init"
    by (rule parse_comment_line) (simp_all add: length_static_key)
  have two: "key_parse_loop (?l @ [10]) key_parse_init = Inr key_parse_init" by (rule parse_comment_line [OF n l])
  have h: "key_parse_loop static_key_head key_parse_init =
      Inr (key_parse_init\<lparr>kp_state := PARSE_HEAD, kp_match := length static_key_head, kp_line_index := length static_key_head\<rparr>)"
    using parse_header [of key_parse_init 0] length_static_key(1) by (simp add: key_parse_init_def)
  have t: "nbits_head_text 2048 @ static_key_head @ [10] = ([35] @ [10]) @ (?l @ [10]) @ ([35] @ [10]) @ static_key_head @ [10]"
    by (simp add: nbits_head_text_def)
  show ?thesis
    unfolding t key_parse_loop_append [of "[35] @ [10]"] one bind_result.simps key_parse_loop_append [of "?l @ [10]"] two
      key_parse_loop_append [of static_key_head] h parse_newline(1)
    by (simp add: key_parse_init_def)
qed

lemma key_parse_file:
  assumes "key_ok k1" "key_ok k2"
  shows "\<exists>p. key_parse_loop (nbits_head_text 2048 @ key_file_text k1 k2) key_parse_init = Inr p
    \<and> kp_state p = PARSE_FINISHED \<and> kp_out p = key_bytes k1 @ key_bytes k2"
proof -
  note len = length_key_bytes [OF assms(1)] length_key_bytes [OF assms(2)]
  have ne: "key_bytes k1 \<noteq> []" "key_bytes k2 \<noteq> []" using len by (auto simp: ONEKEYLEN_eq)
  define p0 where "p0 = \<lparr>kp_state = PARSE_HEAD, kp_hex = [], kp_line_index = 0, kp_match = 0, kp_out = []\<rparr>"
  have p0: "parsing_data p0 []" by (simp add: p0_def parsing_data_def)
  obtain p1 where p1: "key_parse_loop (hex_text 16 [10] 0 (key_bytes k1)) p0 = Inr p1" "parsed_data p1 (key_bytes k1)"
    using parse_hex_text [OF p0 _ ne(1), of 0] len by (auto simp: ONEKEYLEN_eq)
  let ?p1 = "p1\<lparr>kp_line_index := 0, kp_match := 0\<rparr>"
  have "parsing_data ?p1 (key_bytes k1)"
    using parsed_parsing [OF parse_newline(2) [OF p1(2)]] len by (simp add: ONEKEYLEN_eq)
  then obtain p2 where p2: "key_parse_loop (hex_text 16 [10] 0 (key_bytes k2)) ?p1 = Inr p2" "parsed_data p2 (key_bytes k1 @ key_bytes k2)"
    using parse_hex_text [of ?p1 "key_bytes k1" "key_bytes k2" 0] len ne(2) by (auto simp: ONEKEYLEN_eq)
  let ?p2 = "p2\<lparr>kp_line_index := 0, kp_match := 0\<rparr>"
  have s2: "kp_state ?p2 = PARSE_DATA_COMPLETE" "kp_out ?p2 = key_bytes k1 @ key_bytes k2"
    using p2(2) len by (simp_all add: parsed_data_def ONEKEYLEN_eq)
  have f: "static_key_foot = 45 # drop 1 static_key_foot" by code_simp
  let ?p3 = "?p2\<lparr>kp_state := PARSE_FOOT, kp_match := 1, kp_line_index := 1\<rparr>"
  have "static_key_foot ! 0 = 45" "length static_key_foot \<noteq> 1" "0 < length static_key_foot" using f length_static_key by (metis nth_Cons_0, simp_all)
  then have c: "key_parse_char 45 ?p2 = Inr ?p3"
    using s2 by (simp add: key_parse_char_def parse_match_def Let_def)
  obtain p4 where p4: "key_parse_loop (drop 1 static_key_foot) ?p3 = Inr p4" "kp_state p4 = PARSE_FINISHED" "kp_out p4 = kp_out ?p3"
    using parse_foot [of ?p3 1] length_static_key(2) by auto
  have "key_parse_loop static_key_foot ?p2 = Inr p4"
    using c p4(1) by (subst f) simp
  then have "key_parse_loop (key_file_text k1 k2) (\<lparr>kp_state = PARSE_INITIAL, kp_hex = [], kp_line_index = 0, kp_match = 0, kp_out = []\<rparr>) =
      key_parse_loop (key_file_text k1 k2) key_parse_init" by (simp add: key_parse_init_def)
  have "key_parse_loop ((nbits_head_text 2048 @ static_key_head @ [10]) @ hex_text 16 [10] 0 (key_bytes k1) @ [10]
      @ hex_text 16 [10] 0 (key_bytes k2) @ [10] @ static_key_foot @ [10]) key_parse_init = Inr (p4\<lparr>kp_line_index := 0, kp_match := 0\<rparr>)"
    using p1(1) p2(1) \<open>key_parse_loop static_key_foot ?p2 = Inr p4\<close>
    by (subst key_parse_loop_append, subst parse_head_line [folded p0_def])
      (simp only: key_parse_loop_append bind_result.simps parse_newline(1))
  moreover have "(nbits_head_text 2048 @ static_key_head @ [10]) @ hex_text 16 [10] 0 (key_bytes k1) @ [10]
      @ hex_text 16 [10] 0 (key_bytes k2) @ [10] @ static_key_foot @ [10] = nbits_head_text 2048 @ key_file_text k1 k2"
    by (simp add: key_file_text_def)
  ultimately have "key_parse_loop (nbits_head_text 2048 @ key_file_text k1 k2) key_parse_init = Inr (p4\<lparr>kp_line_index := 0, kp_match := 0\<rparr>)"
    by simp
  then show ?thesis using p4(2,3) s2(2) by (intro exI [of _ "p4\<lparr>kp_line_index := 0, kp_match := 0\<rparr>"]) simp
qed

definition rand_total :: "(nat \<Rightarrow> nat \<Rightarrow> byte list option) \<Rightarrow> bool" where
  \<comment> \<open>the random number generator always delivers\<close>
  "rand_total rand \<longleftrightarrow> (\<forall>i n. \<exists>bs. rand i n = Some bs \<and> length bs = n)"

definition drawn_key :: "(nat \<Rightarrow> nat \<Rightarrow> byte list option) \<Rightarrow> nat \<Rightarrow> key" where
  "drawn_key rand i = \<lparr>key_cipher = the (rand i 64), key_hmac = the (rand (i + 1) 64)\<rparr>"

lemma generate_key_random_None:
  assumes "rand_total rand"
  shows "generate_key_random des rand i None = Some (Inr (drawn_key rand i, i + 2))" "key_ok (drawn_key rand i)"
proof -
  obtain c h where r: "rand i 64 = Some c" "length c = 64" "rand (i + 1) 64 = Some h" "length h = 64"
    using assms by (auto simp: rand_total_def) metis
  have "random_key rand i 64 64 = Inr (drawn_key rand i)"
    using r by (simp add: random_key_def drawn_key_def key_zero_def mem_write_def MAX_CIPHER_KEY_LENGTH_def MAX_HMAC_KEY_LENGTH_def)
  then show "generate_key_random des rand i None = Some (Inr (drawn_key rand i, i + 2))"
    by (subst generate_key_random.simps) (simp add: Let_def MAX_CIPHER_KEY_LENGTH_def MAX_HMAC_KEY_LENGTH_def)
  show "key_ok (drawn_key rand i)"
    using r by (simp add: key_ok_def drawn_key_def MAX_CIPHER_KEY_LENGTH_def MAX_HMAC_KEY_LENGTH_def)
qed

lemma key_hex:
  assumes "key_ok k"
  shows "format_hex_ex junk (key_bytes k) 0 16 (Some [10]) = Inr (hex_text 16 [10] 0 (key_bytes k))"
    "length (hex_text 16 [10] 0 (key_bytes k)) = 263" "0 \<notin> set (hex_text 16 [10] 0 (key_bytes k))"
  using format_hex_ex_text [of 16 "[10]" "key_bytes k" junk] length_hex_text [of 16 "[10]" 0 "key_bytes k"]
    length_key_bytes [OF assms] hex_text_nonzero [of "[10]"]
  by (simp_all add: ONEKEYLEN_eq BUF_SIZE_MAX_def)

text \<open>C37. Whatever the random generator yields, writing a static key file of two keys ends without an error, announces
  2048 bits, and reading a file with those bytes gives back the two keys that were drawn.
\<close>

theorem key_file_roundtrip:
  assumes rand: "rand_total rand"
  shows "\<exists>bytes. write_key_file des rand junk 2 = Some (Inr (2048, bytes)) \<and>
    (files f = Some bytes \<and> flags AND RKF_INLINE = 0 \<longrightarrow>
       read_key_file files f flags = Inr \<lparr>k2_n = 2, k2_keys = [drawn_key rand 0, drawn_key rand 2]\<rparr>)"
proof -
  let ?k1 = "drawn_key rand 0" and ?k2 = "drawn_key rand 2"
  have ok: "key_ok ?k1" "key_ok ?k2" using generate_key_random_None(2) [OF rand] by auto
  let ?h1 = "hex_text 16 [10] 0 (key_bytes ?k1)" and ?h2 = "hex_text 16 [10] 0 (key_bytes ?k2)"
  obtain out hd0 where alloc: "alloc_buf junk 2048 = Inr out" "text_buf out 2048 []" "alloc_buf junk 128 = Inr hd0" "text_buf hd0 128 []"
    using alloc_buf_ok [of 2048 junk] alloc_buf_ok [of 128 junk] by (auto simp: BUF_SIZE_MAX_def text_buf_def buf_contents_def)
  note len = length_static_key key_hex [OF ok(1)] key_hex [OF ok(2)]
  define o1 where "o1 = snd (buf_printf out (static_key_head @ [10]))"
  define o2 where "o2 = snd (buf_printf o1 (?h1 @ [10]))"
  define o3 where "o3 = snd (buf_printf o2 (?h2 @ [10]))"
  define o4 where "o4 = snd (buf_printf o3 (static_key_foot @ [10]))"
  have t1: "text_buf o1 2048 (static_key_head @ [10])"
    using text_buf_printf [OF alloc(2), of "static_key_head @ [10]"] len by (simp add: o1_def)
  have t2: "text_buf o2 2048 ((static_key_head @ [10]) @ (?h1 @ [10]))"
    using text_buf_printf [OF t1, of "?h1 @ [10]"] len by (simp add: o2_def)
  have t3: "text_buf o3 2048 (((static_key_head @ [10]) @ (?h1 @ [10])) @ (?h2 @ [10]))"
    using text_buf_printf [OF t2, of "?h2 @ [10]"] len by (simp add: o3_def)
  have t4: "text_buf o4 2048 ((((static_key_head @ [10]) @ (?h1 @ [10])) @ (?h2 @ [10])) @ (static_key_foot @ [10]))"
    using text_buf_printf [OF t3, of "static_key_foot @ [10]"] len by (simp add: o4_def)
  have teq: "(((static_key_head @ [10]) @ (?h1 @ [10])) @ (?h2 @ [10])) @ (static_key_foot @ [10]) = key_file_text ?k1 ?k2"
    by (simp add: key_file_text_def)
  have out: "cstr_of (drop (nat (b_offset o4)) (buf_block o4)) = key_file_text ?k1 ?k2"
    using t4 unfolding teq by (rule text_buf_string) (use len in \<open>auto simp: key_file_text_def\<close>)
  have hl: "length (nbits_head_text 2048) = 34" "0 \<notin> set (nbits_head_text 2048)"
  proof -
    have d: "dec_text 2048 = [50, 48, 52, 56]" by (simp add: dec_text.simps)
    then show "length (nbits_head_text 2048) = 34" by (simp add: nbits_head_text_def)
    have "list_all (\<lambda>c. 10 < c) (map of_char '' bit OpenVPN static key'' :: byte list)" by code_simp
    then show "0 \<notin> set (nbits_head_text 2048)" unfolding nbits_head_text_def d list_all_iff by auto
  qed
  have "text_buf (snd (buf_printf hd0 (nbits_head_text 2048))) 128 (nbits_head_text 2048)"
    using text_buf_printf [OF alloc(4), of "nbits_head_text 2048"] hl by simp
  then have hd1: "cstr_of (drop (nat (b_offset (snd (buf_printf hd0 (nbits_head_text 2048))))) (buf_block (snd (buf_printf hd0 (nbits_head_text 2048)))))
      = nbits_head_text 2048" by (rule text_buf_string) (use hl in auto)
  have loop: "write_keys_loop des rand junk 2 0 o1 = Some (Inr o3)"
    using generate_key_random_None(1) [OF rand, of des 0] generate_key_random_None(1) [OF rand, of des 2] len
    by (simp add: numeral_2_eq_2 o2_def o3_def)
  have w: "write_key_file des rand junk 2 = Some (Inr (2048, nbits_head_text 2048 @ key_file_text ?k1 ?k2))"
    using alloc(1,3) loop out hd1 by (simp add: write_key_file_def ONEKEYLEN_eq o1_def o4_def)
  obtain p where p: "key_parse_loop (nbits_head_text 2048 @ key_file_text ?k1 ?k2) key_parse_init = Inr p"
      "kp_state p = PARSE_FINISHED" "kp_out p = key_bytes ?k1 @ key_bytes ?k2"
    using key_parse_file [OF ok] by blast
  have lk: "length (key_bytes ?k1) = 128" "length (key_bytes ?k2) = 128" using length_key_bytes ok by (simp_all add: ONEKEYLEN_eq)
  have tl: "length (nbits_head_text 2048 @ key_file_text ?k1 ?k2) < 2048" using len hl by (simp add: key_file_text_def)
  have "read_key_file files f flags = Inr \<lparr>k2_n = 2, k2_keys = [?k1, ?k2]\<rparr>"
    if "files f = Some (nbits_head_text 2048 @ key_file_text ?k1 ?k2)" "flags AND RKF_INLINE = 0"
    using that p lk tl key_of_key_bytes [OF ok(1), of "key_bytes ?k2"] key_of_key_bytes [OF ok(2), of "[]"]
    by (simp add: read_key_file_def mem_write_def Let_def ONEKEYLEN_eq)
  then show ?thesis using w by blast
qed

theorem key_file_roundtrip_witness:
  "\<exists>bytes. write_key_file \<lparr>des_is_weak_key = \<lambda>_. False, des_check_key_parity = \<lambda>_. True, des_set_odd_parity = \<lambda>b. b\<rparr>
      (\<lambda>i n. Some (replicate n (of_nat i))) (\<lambda>_. 0) 2 = Some (Inr (2048, bytes))"
proof -
  have "rand_total (\<lambda>i n. Some (replicate n (of_nat i)))" by (simp add: rand_total_def)
  from key_file_roundtrip [OF this, of "\<lparr>des_is_weak_key = \<lambda>_. False, des_check_key_parity = \<lambda>_. True, des_set_odd_parity = \<lambda>b. b\<rparr>"
      "\<lambda>_. 0" "\<lambda>_. None" "[]" 0] show ?thesis by blast
qed

text \<open>When one peer obtains its control channel keys from a key file with direction 0, its partner with
  the same file and direction 1 obtains the same two contexts exchanged: what the one signs with, the other verifies with.
\<close>

theorem tls_auth_keys_mirror:
  assumes "get_tls_handshake_key files kt (Some f) KEY_DIRECTION_NORMAL flags = Inr c"
  shows "get_tls_handshake_key files kt (Some f) KEY_DIRECTION_INVERSE flags = Inr \<lparr>kb_encrypt = kb_decrypt c, kb_decrypt = kb_encrypt c\<rparr>"
proof (cases "kt_hmac_length kt = 0")
  case True
  then show ?thesis using assms by (auto simp: get_tls_handshake_key_def Let_def)
next
  case False
  have dirs: "key_direction_state_init KEY_DIRECTION_NORMAL = Inr \<lparr>kds_out_key = 0, kds_in_key = 1, kds_need_keys = 2\<rparr>"
    "key_direction_state_init KEY_DIRECTION_INVERSE = Inr \<lparr>kds_out_key = 1, kds_in_key = 0, kds_need_keys = 2\<rparr>"
    by (simp_all add: key_direction_state_init_def KEY_DIRECTION_NORMAL_def KEY_DIRECTION_INVERSE_def)
  show ?thesis
    using assms False unfolding get_tls_handshake_key_def Let_def option.case dirs
    by (auto simp: bind_result_Inr)
qed

theorem tls_auth_keys_mirror_witness:
  "\<exists>files c. get_tls_handshake_key files \<lparr>kt_cipher_length = 0, kt_hmac_length = 20, kt_cipher = None,
       kt_digest = Some \<lparr>md_size = 20, md_hmac = \<lambda>k m. take 20 (k @ m), md_digest = \<lambda>m. m\<rparr>\<rparr> (Some [97]) KEY_DIRECTION_INVERSE 0 = Inr c
     \<and> k_hmac (kb_encrypt c) \<noteq> None"
proof -
  let ?kt = "\<lparr>kt_cipher_length = 0, kt_hmac_length = 20, kt_cipher = None,
       kt_digest = Some \<lparr>md_size = 20, md_hmac = \<lambda>k m. take 20 (k @ m), md_digest = \<lambda>m. m\<rparr>\<rparr> :: key_type"
  let ?rand = "\<lambda>i n. Some (replicate n (of_nat i))"
  have k: "key_ok (drawn_key ?rand 0)" "key_ok (drawn_key ?rand 2)"
    by (simp_all add: key_ok_def drawn_key_def MAX_CIPHER_KEY_LENGTH_def MAX_HMAC_KEY_LENGTH_def)
  obtain p where "key_parse_loop (nbits_head_text 2048 @ key_file_text (drawn_key ?rand 0) (drawn_key ?rand 2)) key_parse_init = Inr p"
      "kp_state p = PARSE_FINISHED" "kp_out p = key_bytes (drawn_key ?rand 0) @ key_bytes (drawn_key ?rand 2)"
    using key_parse_file [OF k] by blast
  moreover have "length (nbits_head_text 2048 @ key_file_text (drawn_key ?rand 0) (drawn_key ?rand 2)) < 2048"
    using key_hex(2) [OF k(1)] key_hex(2) [OF k(2)] length_static_key
    by (simp add: key_file_text_def nbits_head_text_def dec_text.simps)
  moreover have "length (key_bytes (drawn_key ?rand 0)) = 128" "length (key_bytes (drawn_key ?rand 2)) = 128"
    using length_key_bytes k by (simp_all add: ONEKEYLEN_eq)
  ultimately have r: "read_key_file (\<lambda>_. Some (nbits_head_text 2048 @ key_file_text (drawn_key ?rand 0) (drawn_key ?rand 2))) [97] 0 =
      Inr \<lparr>k2_n = 2, k2_keys = [drawn_key ?rand 0, drawn_key ?rand 2]\<rparr>"
    using key_of_key_bytes [OF k(1), of "key_bytes (drawn_key ?rand 2)"] key_of_key_bytes [OF k(2), of "[]"]
    by (simp add: read_key_file_def mem_write_def Let_def ONEKEYLEN_eq)
  have "\<exists>c. get_tls_handshake_key (\<lambda>_. Some (nbits_head_text 2048 @ key_file_text (drawn_key ?rand 0) (drawn_key ?rand 2))) ?kt
      (Some [97]) KEY_DIRECTION_NORMAL 0 = Inr c \<and> k_hmac (kb_decrypt c) \<noteq> None"
    using k r by (simp add: get_tls_handshake_key_def tls_auth_key2_def Let_def key_direction_state_init_def must_have_n_keys_def
        init_key_ctx_def init_hmac_def key_ok_def MAX_HMAC_KEY_LENGTH_def)
  then show ?thesis using tls_auth_keys_mirror by fastforce
qed

end
