(* ===== verification/Key_Exchange.thy ===== *)
theory Key_Exchange
  imports Keys Session_Id
begin

text \<open>
  Key method 2 of ssl.c: the pseudo-random function of TLS 1.0, the expansion of the two peers'
  random values into data channel keys, and the encoding of random values and strings in the
  control channel messages.

  The digests MD5 and SHA-1 are arguments (\<open>evp_md\<close> of Keys), \<open>rand i n\<close> is the \<open>i\<close>-th draw of
  \<open>RAND_bytes\<close>, and \<open>junk\<close> is the initial contents of allocated memory.
\<close>

section \<open>The pseudo-random function\<close>

partial_function (option) p_hash_loop :: "evp_md \<Rightarrow> byte list \<Rightarrow> byte list \<Rightarrow> byte list \<Rightarrow> int \<Rightarrow> byte list \<Rightarrow> byte list option" where
  \<comment> \<open>the loop of \<open>tls1_P_hash\<close>: \<open>A1\<close>, the bytes still wanted, the output so far\<close>
  [code]: "p_hash_loop md sec seed A1 olen outp =
     (let out = md_hmac md sec (A1 @ seed)
      in if olen > md_size md
         then p_hash_loop md sec seed (md_hmac md sec A1) (olen - int (length out)) (outp @ out)
         else Some (outp @ take (nat olen) out))"

definition tls1_P_hash :: "evp_md \<Rightarrow> byte list \<Rightarrow> byte list \<Rightarrow> int \<Rightarrow> byte list option" where
  "tls1_P_hash md sec seed olen = p_hash_loop md sec seed (md_hmac md sec seed) olen []"

definition tls1_PRF :: "evp_md \<Rightarrow> evp_md \<Rightarrow> byte list \<Rightarrow> byte list \<Rightarrow> int \<Rightarrow> byte list option" where
  "tls1_PRF md5 sha1 label sec olen =
     (let len = length sec div 2;
          n = len + length sec mod 2;
          S1 = take n sec; S2 = take n (drop len sec)
      in case tls1_P_hash md5 S1 label olen of
           None \<Rightarrow> None
         | Some out1 \<Rightarrow>
             (case tls1_P_hash sha1 S2 label olen of
                None \<Rightarrow> None
              | Some out2 \<Rightarrow> Some (map2 (XOR) out1 out2)))"

fun buf_write_all :: "buffer \<Rightarrow> byte list list \<Rightarrow> buffer result" where
  \<comment> \<open>\<open>ASSERT (buf_write (&b, ...))\<close> one after the other\<close>
  "buf_write_all b [] = Inr b"
| "buf_write_all b (bs # bss) = (case buf_write b bs of (ok, b) \<Rightarrow> assert_that ok (buf_write_all b bss))"

definition openvpn_PRF ::
    "evp_md \<Rightarrow> evp_md \<Rightarrow> (nat \<Rightarrow> byte) \<Rightarrow> byte list \<Rightarrow> byte list \<Rightarrow> byte list \<Rightarrow> byte list \<Rightarrow>
       session_id option \<Rightarrow> session_id option \<Rightarrow> int \<Rightarrow> byte list result option" where
  "openvpn_PRF md5 sha1 junk secret label client_seed server_seed client_sid server_sid output_len =
     (case bind_result (alloc_buf junk (int (length label) + int (length client_seed) + int (length server_seed) + int SID_SIZE * 2)) (\<lambda>seed.
             buf_write_all seed
               ([label, client_seed, server_seed] @
                (case client_sid of Some sid \<Rightarrow> [take SID_SIZE (sid_id sid)] | None \<Rightarrow> []) @
                (case server_sid of Some sid \<Rightarrow> [take SID_SIZE (sid_id sid)] | None \<Rightarrow> []))) of
        Inl e \<Rightarrow> Some (Inl e)
      | Inr seed \<Rightarrow> map_option Inr (tls1_PRF md5 sha1 (buf_contents seed) secret output_len))"

section \<open>Key material\<close>

record key_source =
  pre_master :: "byte list"
  random1 :: "byte list"
  random2 :: "byte list"

record key_source2 =
  ks2_client :: key_source
  ks2_server :: key_source

definition key_source_clear :: key_source where
  "key_source_clear = \<lparr>pre_master = replicate 48 0, random1 = replicate 32 0, random2 = replicate 32 0\<rparr>"

definition key_source2_clear :: key_source2 where
  "key_source2_clear = \<lparr>ks2_client = key_source_clear, ks2_server = key_source_clear\<rparr>"

definition KEY_EXPANSION_ID :: cstr where "KEY_EXPANSION_ID = map of_char ''OpenVPN''"

fun fix_keys :: "des_ops \<Rightarrow> key_type \<Rightarrow> key list \<Rightarrow> key list option result" where
  \<comment> \<open>the loop over the two keys; \<open>None\<close> is \<open>goto exit\<close>\<close>
  "fix_keys des kt [] = Inr (Some [])"
| "fix_keys des kt (k # ks) =
     bind_result (fixup_key des k kt) (\<lambda>k.
       bind_result (check_key des k kt) (\<lambda>ok.
         if \<not> ok then Inr None
         else bind_result (fix_keys des kt ks) (\<lambda>r. Inr (map_option (\<lambda>ks. k # ks) r))))"

definition generate_key_expansion ::
    "evp_md \<Rightarrow> evp_md \<Rightarrow> des_ops \<Rightarrow> (nat \<Rightarrow> byte) \<Rightarrow> key_type \<Rightarrow> key_source2 \<Rightarrow> session_id \<Rightarrow> session_id \<Rightarrow> bool \<Rightarrow>
       key_ctx_bi option result option" where
  \<comment> \<open>\<open>Some (Inr None)\<close> is the result false\<close>
  "generate_key_expansion md5 sha1 des junk kt key_src client_sid server_sid server =
     (case openvpn_PRF md5 sha1 junk (pre_master (ks2_client key_src)) (KEY_EXPANSION_ID @ map of_char '' master secret'')
             (random1 (ks2_client key_src)) (random1 (ks2_server key_src)) None None 48 of
        None \<Rightarrow> None
      | Some (Inl e) \<Rightarrow> Some (Inl e)
      | Some (Inr master) \<Rightarrow>
          (case openvpn_PRF md5 sha1 junk master (KEY_EXPANSION_ID @ map of_char '' key expansion'')
                  (random2 (ks2_client key_src)) (random2 (ks2_server key_src)) (Some client_sid) (Some server_sid) (int KEYLEN) of
             None \<Rightarrow> None
           | Some (Inl e) \<Rightarrow> Some (Inl e)
           | Some (Inr bs) \<Rightarrow>
               Some (bind_result (fix_keys des kt [key_of_bytes bs, key_of_bytes (drop ONEKEYLEN bs)]) (\<lambda>r.
                 case r of
                   None \<Rightarrow> Inr None
                 | Some keys \<Rightarrow>
                     bind_result (init_key_ctx (keys ! (if server then 1 else 0)) kt) (\<lambda>enc.
                       bind_result (init_key_ctx (keys ! (if server then 0 else 1)) kt) (\<lambda>dec.
                         Inr (Some \<lparr>kb_encrypt = enc, kb_decrypt = dec\<rparr>)))))))"

section \<open>Random values and strings in messages\<close>

definition random_bytes_to_buf ::
    "(nat \<Rightarrow> nat \<Rightarrow> byte list option) \<Rightarrow> nat \<Rightarrow> buffer \<Rightarrow> nat \<Rightarrow> (bool \<times> byte list \<times> nat \<times> buffer) result" where
  "random_bytes_to_buf rand i b outlen =
     (case rand i outlen of
        None \<Rightarrow> Inl FatalError
      | Some out \<Rightarrow> (case buf_write b out of (ok, b) \<Rightarrow> Inr (ok, out, i + 1, b)))"

definition key_source2_randomize_write ::
    "(nat \<Rightarrow> nat \<Rightarrow> byte list option) \<Rightarrow> nat \<Rightarrow> key_source2 \<Rightarrow> buffer \<Rightarrow> bool \<Rightarrow> (bool \<times> key_source2 \<times> nat \<times> buffer) result" where
  "key_source2_randomize_write rand i k2 b server =
     (let put = (\<lambda>k. if server then k2\<lparr>ks2_server := k\<rparr> else k2\<lparr>ks2_client := k\<rparr>); k = key_source_clear
      in bind_result
           (if \<not> server
            then bind_result (random_bytes_to_buf rand i b 48) (\<lambda>(ok, out, i, b). Inr (ok, k\<lparr>pre_master := out\<rparr>, i, b))
            else Inr (True, k, i, b))
           (\<lambda>(ok, k, i, b). if \<not> ok then Inr (False, put k, i, b)
              else bind_result (random_bytes_to_buf rand i b 32) (\<lambda>(ok, out, i, b).
                let k = k\<lparr>random1 := out\<rparr>
                in if \<not> ok then Inr (False, put k, i, b)
                   else bind_result (random_bytes_to_buf rand i b 32) (\<lambda>(ok, out, i, b).
                     Inr (ok, put (k\<lparr>random2 := out\<rparr>), i, b)))))"

definition key_source2_read :: "key_source2 \<Rightarrow> buffer \<Rightarrow> bool \<Rightarrow> bool \<times> key_source2 \<times> buffer" where
  "key_source2_read k2 b server =
     (let put = (\<lambda>k. if \<not> server then k2\<lparr>ks2_server := k\<rparr> else k2\<lparr>ks2_client := k\<rparr>); k = key_source_clear
      in case (if server
               then (case buf_read b 48 of (None, b) \<Rightarrow> (False, k, b) | (Some bs, b) \<Rightarrow> (True, k\<lparr>pre_master := bs\<rparr>, b))
               else (True, k, b)) of
           (ok, k, b) \<Rightarrow>
             if \<not> ok then (False, put k, b)
             else (case buf_read b 32 of
                     (None, b) \<Rightarrow> (False, put k, b)
                   | (Some bs, b) \<Rightarrow>
                       (let k = k\<lparr>random1 := bs\<rparr>
                        in case buf_read b 32 of
                             (None, b) \<Rightarrow> (False, put k, b)
                           | (Some bs, b) \<Rightarrow> (True, put (k\<lparr>random2 := bs\<rparr>), b))))"

definition write_string :: "buffer \<Rightarrow> cstr \<Rightarrow> int \<Rightarrow> bool \<times> buffer" where
  "write_string b str maxlen =
     (let len = int (length str) + 1
      in if len < 1 \<or> maxlen \<ge> 0 \<and> len > maxlen then (False, b)
         else case buf_write_u16 b len of
                (False, b) \<Rightarrow> (False, b)
              | (True, b) \<Rightarrow> buf_write b (str @ [0]))"

definition write_empty_string :: "buffer \<Rightarrow> bool \<times> buffer" where
  "write_empty_string b = buf_write_u16 b 0"

definition read_string :: "buffer \<Rightarrow> nat \<Rightarrow> cstr option \<times> buffer" where
  \<comment> \<open>\<open>None\<close> is the result false\<close>
  "read_string b capacity =
     (case buf_read_u16 b of
        (len, b) \<Rightarrow>
          if len < 1 \<or> len > int capacity then (None, b)
          else (case buf_read b len of
                  (None, b) \<Rightarrow> (None, b)
                | (Some bs, b) \<Rightarrow> (Some (cstr_of (bs[nat (len - 1) := 0])), b)))"

definition read_string_alloc :: "buffer \<Rightarrow> cstr option \<times> buffer" where
  "read_string_alloc b =
     (case buf_read_u16 b of
        (len, b) \<Rightarrow>
          if len < 1 then (None, b)
          else (case buf_read b len of
                  (None, b) \<Rightarrow> (None, b)
                | (Some bs, b) \<Rightarrow> (Some (cstr_of (bs[nat (len - 1) := 0])), b)))"

definition read_string_discard :: "buffer \<Rightarrow> buffer" where
  "read_string_discard b = snd (read_string_alloc b)"


section \<open>The expansion function of RFC 2246\<close>

definition md_ok :: "evp_md \<Rightarrow> bool" where
  "md_ok md \<longleftrightarrow> 0 < md_size md \<and> (\<forall>k m. int (length (md_hmac md k m)) = md_size md)"

fun hash_A :: "evp_md \<Rightarrow> byte list \<Rightarrow> byte list \<Rightarrow> nat \<Rightarrow> byte list" where
  \<comment> \<open>A(0) = seed, A(i) = HMAC_hash(secret, A(i-1))\<close>
  "hash_A md sec seed 0 = seed"
| "hash_A md sec seed (Suc i) = md_hmac md sec (hash_A md sec seed i)"

definition P_hash :: "evp_md \<Rightarrow> byte list \<Rightarrow> byte list \<Rightarrow> nat \<Rightarrow> byte list" where
  \<comment> \<open>the first \<open>n\<close> blocks HMAC_hash(secret, A(i) + seed), from A(1)\<close>
  "P_hash md sec seed n = concat (map (\<lambda>i. md_hmac md sec (hash_A md sec seed i @ seed)) [1..<Suc n])"

lemma p_hash_loop_eq:
  assumes "md_ok md" "0 \<le> olen" "olen \<le> int n * md_size md"
  shows "p_hash_loop md sec seed (hash_A md sec seed i) olen outp =
    Some (outp @ take (nat olen) (concat (map (\<lambda>i. md_hmac md sec (hash_A md sec seed i @ seed)) [i..<i + n])))"
  using assms(2,3)
proof (induction n arbitrary: i olen outp)
  case 0
  then show ?case using assms(1) by (subst p_hash_loop.simps) (simp add: md_ok_def Let_def)
next
  case (Suc n)
  let ?blk = "md_hmac md sec (hash_A md sec seed i @ seed)"
  have len: "int (length ?blk) = md_size md" "0 < md_size md" using assms(1) by (auto simp: md_ok_def)
  have up: "[i..<i + Suc n] = i # [Suc i..<Suc i + n]" by (simp add: upt_rec)
  show ?case
  proof (cases "olen > md_size md")
    case True
    have "p_hash_loop md sec seed (hash_A md sec seed i) olen outp =
        p_hash_loop md sec seed (hash_A md sec seed (Suc i)) (olen - md_size md) (outp @ ?blk)"
      using True len by (subst p_hash_loop.simps) (simp add: Let_def)
    also have "\<dots> = Some ((outp @ ?blk) @ take (nat (olen - md_size md))
        (concat (map (\<lambda>i. md_hmac md sec (hash_A md sec seed i @ seed)) [Suc i..<Suc i + n])))"
      using True Suc.prems by (intro Suc.IH) (auto simp: algebra_simps)
    also have "nat (olen - md_size md) = nat olen - length ?blk" using len by linarith
    finally show ?thesis unfolding up using True len by (simp add: le_nat_iff)
  next
    case False
    then have "nat olen \<le> length ?blk" using len by linarith
    then show ?thesis using False unfolding up by (subst p_hash_loop.simps) (simp add: Let_def)
  qed
qed

text \<open>C38. \<open>tls1_P_hash\<close> ends and gives the first \<open>olen\<close> bytes of the expansion \<open>P_hash\<close> of RFC 2246, the concatenation
  of \<open>HMAC (sec, A i @ seed)\<close> for \<open>i = 1, 2, ...\<close> with \<open>A 0 = seed\<close> and \<open>A (i + 1) = HMAC (sec, A i)\<close>.
\<close>

theorem tls1_P_hash_rfc2246:
  assumes "md_ok md" "0 \<le> olen" "olen \<le> int n * md_size md"
  shows "tls1_P_hash md sec seed olen = Some (take (nat olen) (P_hash md sec seed n))"
  using p_hash_loop_eq [OF assms, of sec seed 1 "[]"] by (simp add: tls1_P_hash_def P_hash_def)

theorem tls1_P_hash_rfc2246_witness:
  "tls1_P_hash \<lparr>md_size = 2, md_hmac = \<lambda>k m. [of_nat (length k), of_nat (length m)], md_digest = \<lambda>m. m\<rparr> [1] [7, 8, 9] 5
     = Some (take 5 (P_hash \<lparr>md_size = 2, md_hmac = \<lambda>k m. [of_nat (length k), of_nat (length m)], md_digest = \<lambda>m. m\<rparr> [1] [7, 8, 9] 3))"
proof -
  have "md_ok \<lparr>md_size = 2, md_hmac = \<lambda>k m. [of_nat (length k), of_nat (length m)], md_digest = \<lambda>m. m\<rparr>" by (simp add: md_ok_def)
  from tls1_P_hash_rfc2246 [OF this, of 5 3 "[1]" "[7, 8, 9]"] show ?thesis by simp
qed

lemma tls1_P_hash_returns:
  assumes "md_ok md" "0 \<le> olen"
  obtains out where "tls1_P_hash md sec seed olen = Some out" "length out = nat olen"
proof -
  have "olen \<le> olen * md_size md" using assms by (simp add: md_ok_def mult_le_cancel_left1)
  then have n: "olen \<le> int (nat olen) * md_size md" using assms(2) by simp
  have "length (P_hash md sec seed n) = n * nat (md_size md)" for n
  proof -
    have "length (md_hmac md k m) = nat (md_size md)" for k m using assms(1) unfolding md_ok_def by (metis nat_int)
    then show ?thesis by (induction n) (simp_all add: P_hash_def)
  qed
  moreover have "1 \<le> nat (md_size md)" using assms(1) unfolding md_ok_def by linarith
  then have "nat olen \<le> nat olen * nat (md_size md)" by simp
  ultimately show ?thesis using that tls1_P_hash_rfc2246 [OF assms n, of sec seed] by simp
qed


section \<open>Messages are read back\<close>

definition string_bytes :: "cstr \<Rightarrow> byte list" where
  "string_bytes str = bytes_of_u16 (of_nat (length str + 1)) @ str @ [0]"

lemma write_string_ok:
  assumes "buf_ok b" "length str + 3 \<le> buf_room b" "0 \<notin> set str" "maxlen < 0 \<or> int (length str) < maxlen"
  shows "\<exists>b'. write_string b str maxlen = (True, b') \<and> buf_ok b' \<and> buf_contents b' = buf_contents b @ string_bytes str
    \<and> buf_room b' = buf_room b - (length str + 3)"
proof -
  let ?h = "bytes_of_u16 (of_nat (length str + 1))"
  obtain b1 where b1: "buf_write b ?h = (True, b1)" "buf_ok b1" "buf_contents b1 = buf_contents b @ ?h" "buf_room b1 = buf_room b - 2"
    using buf_write_ok [OF assms(1), of ?h] assms(2) by auto
  have "length (str @ [0 :: byte]) \<le> buf_room b1" using b1(4) assms(2) by simp
  from buf_write_ok [OF b1(2) this] b1(3,4) obtain b2 where
    b2: "buf_write b1 (str @ [0]) = (True, b2)" "buf_ok b2" "buf_contents b2 = buf_contents b @ ?h @ str @ [0]"
      "buf_room b2 = buf_room b - (length str + 3)" using assms(2) by auto
  have w: "word_of_int (int (length str) + 1) = (of_nat (length str + 1) :: u16)" by simp
  have "write_string b str maxlen = (True, b2)"
    using assms(4) b1(1) b2(1) unfolding write_string_def Let_def buf_write_u16_def w by auto
  then show ?thesis using b2 by (simp add: string_bytes_def)
qed

lemma read_u16_ok:
  assumes "buf_ok b" "buf_contents b = bytes_of_u16 w @ rest"
  obtains b' where "buf_read_u16 b = (uint w, b')" "buf_ok b'" "buf_contents b' = rest"
  using buf_read_ok [OF assms(1), of 2] assms(2) by (auto simp: buf_read_u16_def)

lemma read_string_body:
  assumes b: "buf_ok b" "buf_contents b = string_bytes str @ rest" and str: "0 \<notin> set str" "length str < 65535"
  obtains b1 b' where "buf_read_u16 b = (int (length str) + 1, b1)" "buf_read b1 (int (length str) + 1) = (Some (str @ [0]), b')"
    "buf_ok b'" "buf_contents b' = rest" "cstr_of ((str @ [0])[length str := 0]) = str"
proof -
  have "buf_contents b = bytes_of_u16 (of_nat (length str + 1)) @ (str @ [0] @ rest)" using b(2) by (simp add: string_bytes_def)
  from read_u16_ok [OF b(1) this] obtain b1 where
    b1: "buf_read_u16 b = (uint (of_nat (length str + 1) :: u16), b1)" "buf_ok b1" "buf_contents b1 = str @ [0] @ rest" by blast
  have u: "uint (of_nat (length str + 1) :: u16) = int (length str) + 1"
  proof -
    have "unat (of_nat (length str + 1) :: u16) = length str + 1" using str(2) by (simp add: unat_of_nat take_bit_nat_eq_self del: of_nat_Suc of_nat_add)
    then have "int (unat (of_nat (length str + 1) :: u16)) = int (length str + 1)" by (simp only:)
    then show ?thesis unfolding uint_nat by simp
  qed
  obtain b' where b': "buf_read b1 (int (length str + 1)) = (Some (str @ [0]), b')" "buf_ok b'" "buf_contents b' = rest"
    using buf_read_ok [OF b1(2), of "length str + 1"] b1(3) by auto
  have n: "int (length str + 1) = int (length str) + 1" by simp
  have "cstr_of (str @ 0 # []) = str" by (rule cstr_of_append [OF str(1)])
  then show ?thesis using that [OF b1(1)[unfolded u] b'(1)[unfolded n] b'(2,3)] by (simp add: list_update_append)
qed

lemma read_string_ok:
  assumes "buf_ok b" "buf_contents b = string_bytes str @ rest" "0 \<notin> set str" "length str < capacity" "capacity \<le> 65535"
  shows "\<exists>b'. read_string b capacity = (Some str, b') \<and> buf_ok b' \<and> buf_contents b' = rest"
proof -
  have "length str < 65535" using assms(4,5) by simp
  from read_string_body [OF assms(1-3) this] obtain b1 b' where
    r: "buf_read_u16 b = (int (length str) + 1, b1)" "buf_read b1 (int (length str) + 1) = (Some (str @ [0]), b')"
      "buf_ok b'" "buf_contents b' = rest" "cstr_of ((str @ [0])[length str := 0]) = str" .
  then show ?thesis using assms(4) by (simp add: read_string_def)
qed

lemma read_string_alloc_ok:
  assumes "buf_ok b" "buf_contents b = string_bytes str @ rest" "0 \<notin> set str" "length str < 65535"
  shows "\<exists>b'. read_string_alloc b = (Some str, b') \<and> buf_ok b' \<and> buf_contents b' = rest"
proof -
  from read_string_body [OF assms] obtain b1 b' where
    r: "buf_read_u16 b = (int (length str) + 1, b1)" "buf_read b1 (int (length str) + 1) = (Some (str @ [0]), b')"
      "buf_ok b'" "buf_contents b' = rest" "cstr_of ((str @ [0])[length str := 0]) = str" .
  then show ?thesis by (simp add: read_string_alloc_def)
qed

lemma read_empty_string:
  assumes "buf_ok b" "buf_contents b = bytes_of_u16 0 @ rest"
  shows "\<exists>b'. read_string b capacity = (None, b') \<and> buf_ok b' \<and> buf_contents b' = rest"
    "\<exists>b'. read_string_alloc b = (None, b') \<and> buf_ok b' \<and> buf_contents b' = rest"
proof -
  obtain b' where "buf_read_u16 b = (0, b')" "buf_ok b'" "buf_contents b' = rest"
    using read_u16_ok [OF assms] by (metis unsigned_0)
  then show "\<exists>b'. read_string b capacity = (None, b') \<and> buf_ok b' \<and> buf_contents b' = rest"
    "\<exists>b'. read_string_alloc b = (None, b') \<and> buf_ok b' \<and> buf_contents b' = rest"
    by (simp_all add: read_string_def read_string_alloc_def)
qed

definition ks_bytes :: "bool \<Rightarrow> key_source \<Rightarrow> byte list" where
  \<comment> \<open>the part of the key material that a side sends\<close>
  "ks_bytes server k = (if server then [] else pre_master k) @ random1 k @ random2 k"

definition drawn_source :: "(nat \<Rightarrow> nat \<Rightarrow> byte list option) \<Rightarrow> nat \<Rightarrow> bool \<Rightarrow> key_source" where
  \<comment> \<open>the key material drawn from the random number generator\<close>
  "drawn_source rand i server =
     (if server then \<lparr>pre_master = replicate 48 0, random1 = the (rand i 32), random2 = the (rand (i + 1) 32)\<rparr>
      else \<lparr>pre_master = the (rand i 48), random1 = the (rand (i + 1) 32), random2 = the (rand (i + 2) 32)\<rparr>)"

definition ks2_put :: "bool \<Rightarrow> key_source \<Rightarrow> key_source2 \<Rightarrow> key_source2" where
  "ks2_put server k k2 = (if server then k2\<lparr>ks2_server := k\<rparr> else k2\<lparr>ks2_client := k\<rparr>)"

lemma random_bytes_ok:
  assumes "rand_total rand" "buf_ok b" "n \<le> buf_room b"
  shows "\<exists>b'. random_bytes_to_buf rand i b n = Inr (True, the (rand i n), i + 1, b') \<and> buf_ok b'
    \<and> buf_contents b' = buf_contents b @ the (rand i n) \<and> buf_room b' = buf_room b - n \<and> length (the (rand i n)) = n"
proof -
  obtain bs where bs: "rand i n = Some bs" "length bs = n" using assms(1) by (auto simp: rand_total_def)
  then show ?thesis using buf_write_ok [OF assms(2), of bs] assms(3) by (auto simp: random_bytes_to_buf_def)
qed

lemma key_source2_randomize_write_ok:
  assumes "rand_total rand" "buf_ok b" "112 \<le> buf_room b"
  shows "\<exists>b'. key_source2_randomize_write rand i k2 b server =
      Inr (True, ks2_put server (drawn_source rand i server) k2, (if server then i + 2 else i + 3), b')
    \<and> buf_ok b' \<and> buf_contents b' = buf_contents b @ ks_bytes server (drawn_source rand i server)
    \<and> buf_room b' = buf_room b - (if server then 64 else 112)"
proof (cases server)
  case True
  obtain b1 where b1: "random_bytes_to_buf rand i b 32 = Inr (True, the (rand i 32), i + 1, b1)" "buf_ok b1"
      "buf_contents b1 = buf_contents b @ the (rand i 32)" "buf_room b1 = buf_room b - 32"
    using random_bytes_ok [OF assms(1,2), of 32 i] assms(3) by auto
  obtain b2 where b2: "random_bytes_to_buf rand (i + 1) b1 32 = Inr (True, the (rand (i + 1) 32), i + 2, b2)" "buf_ok b2"
      "buf_contents b2 = buf_contents b1 @ the (rand (i + 1) 32)" "buf_room b2 = buf_room b1 - 32"
    proof -
    have "32 \<le> buf_room b1" using b1(4) assms(3) by linarith
    from random_bytes_ok [OF assms(1) b1(2) this, of "i + 1"] show ?thesis using that by auto
  qed
  show ?thesis using True b1 b2
    by (simp add: key_source2_randomize_write_def Let_def ks2_put_def drawn_source_def ks_bytes_def key_source_clear_def)
next
  case False
  obtain b0 where b0: "random_bytes_to_buf rand i b 48 = Inr (True, the (rand i 48), i + 1, b0)" "buf_ok b0"
      "buf_contents b0 = buf_contents b @ the (rand i 48)" "buf_room b0 = buf_room b - 48"
    using random_bytes_ok [OF assms(1,2), of 48 i] assms(3) by auto
  obtain b1 where b1: "random_bytes_to_buf rand (i + 1) b0 32 = Inr (True, the (rand (i + 1) 32), i + 2, b1)" "buf_ok b1"
      "buf_contents b1 = buf_contents b0 @ the (rand (i + 1) 32)" "buf_room b1 = buf_room b0 - 32"
    proof -
    have "32 \<le> buf_room b0" using b0(4) assms(3) by linarith
    from random_bytes_ok [OF assms(1) b0(2) this, of "i + 1"] show ?thesis using that by auto
  qed
  obtain b2 where b2: "random_bytes_to_buf rand (i + 2) b1 32 = Inr (True, the (rand (i + 2) 32), i + 3, b2)" "buf_ok b2"
      "buf_contents b2 = buf_contents b1 @ the (rand (i + 2) 32)" "buf_room b2 = buf_room b1 - 32"
    proof -
    have "32 \<le> buf_room b1" using b0(4) b1(4) assms(3) by linarith
    from random_bytes_ok [OF assms(1) b1(2) this, of "i + 2"] show ?thesis using that by auto
  qed
  show ?thesis using False b0 b1 b2
    by (simp add: key_source2_randomize_write_def Let_def ks2_put_def drawn_source_def ks_bytes_def key_source_clear_def)
qed

lemma key_source2_read_ok:
  assumes "buf_ok b" "buf_contents b = ks_bytes (\<not> server) k @ rest"
    and "length (pre_master k) = 48" "length (random1 k) = 32" "length (random2 k) = 32" "\<not> server \<Longrightarrow> pre_master k = replicate 48 0"
  shows "\<exists>b'. key_source2_read k2 b server = (True, ks2_put (\<not> server) k k2, b') \<and> buf_ok b' \<and> buf_contents b' = rest"
proof -
  obtain b0 k0 where b0: "(if server
               then (case buf_read b 48 of (None, b) \<Rightarrow> (False, key_source_clear, b) | (Some bs, b) \<Rightarrow> (True, key_source_clear\<lparr>pre_master := bs\<rparr>, b))
               else (True, key_source_clear, b)) = (True, k0, b0)" "k0 = key_source_clear\<lparr>pre_master := pre_master k\<rparr>"
      "buf_ok b0" "buf_contents b0 = random1 k @ random2 k @ rest"
    using buf_read_ok [OF assms(1), of 48] assms by (cases server) (auto simp: ks_bytes_def key_source_clear_def)
  obtain b1 where b1: "buf_read b0 32 = (Some (random1 k), b1)" "buf_ok b1" "buf_contents b1 = random2 k @ rest"
    using buf_read_ok [OF b0(3), of 32] b0(4) assms(4) by auto
  obtain b2 where b2: "buf_read b1 32 = (Some (random2 k), b2)" "buf_ok b2" "buf_contents b2 = rest"
    using buf_read_ok [OF b1(2), of 32] b1(3) assms(5) by auto
  have "k = k0\<lparr>random1 := random1 k, random2 := random2 k\<rparr>" using b0(2) by (simp add: key_source_clear_def)
  then show ?thesis using b0(1) b1(1) b2 unfolding key_source2_read_def Let_def by (auto simp: ks2_put_def)
qed

end
