(* ===== verification/Tls_State.thy ===== *)
theory Tls_State
  imports Key_Exchange Control_Channel Link_Addr Timers Hash_Table
begin

text \<open>
  The state of a TLS session (ssl.h) and its set-up and tear-down (ssl.c): key states, sessions, the
  \<open>tls_multi\<close> object.

  The TLS library is a parameter.  An \<open>SSL\<close> object with its three BIOs is a value of type \<open>'s\<close>; the fields of
  \<open>tls_env\<close> give the effect of \<open>SSL_new\<close>, \<open>BIO_write\<close> and \<open>BIO_read\<close> on it.  Reading and writing plaintext runs the
  handshake and with it the certificate callback, so these operations also update the \<open>peer_cert\<close> of the session.
  The system clock, the random generators, the hash functions and the answers of scripts, plugins and
  the management interface are parameters too.  The library is built with the options of config.h:
  deferred authentication by plugins and by the management interface is compiled in.

  What a session refers to by pointer is embedded: a key state contains its reliable objects and its key source, which
  are cleared where the pointer is \<open>NULL\<close>, and the replay state of \<open>--tls-auth\<close> (\<open>tls_auth_pid\<close>) is the packet id in
  \<open>tls_auth\<close>.  The persistent replay state, which all sessions share, is in \<open>tls_world\<close>.  A pointer to a
  key state is the pair of its session and key index.
\<close>

section \<open>Constants\<close>

definition P_KEY_ID_MASK :: int where "P_KEY_ID_MASK = 7"
definition P_OPCODE_SHIFT :: nat where "P_OPCODE_SHIFT = 3"

definition P_CONTROL_HARD_RESET_CLIENT_V1 :: int where "P_CONTROL_HARD_RESET_CLIENT_V1 = 1"
definition P_CONTROL_HARD_RESET_SERVER_V1 :: int where "P_CONTROL_HARD_RESET_SERVER_V1 = 2"
definition P_CONTROL_SOFT_RESET_V1 :: int where "P_CONTROL_SOFT_RESET_V1 = 3"
definition P_CONTROL_V1 :: int where "P_CONTROL_V1 = 4"
definition P_ACK_V1 :: int where "P_ACK_V1 = 5"
definition P_DATA_V1 :: int where "P_DATA_V1 = 6"
definition P_CONTROL_HARD_RESET_CLIENT_V2 :: int where "P_CONTROL_HARD_RESET_CLIENT_V2 = 7"
definition P_CONTROL_HARD_RESET_SERVER_V2 :: int where "P_CONTROL_HARD_RESET_SERVER_V2 = 8"
definition P_FIRST_OPCODE :: int where "P_FIRST_OPCODE = 1"
definition P_LAST_OPCODE :: int where "P_LAST_OPCODE = 8"

definition S_ERROR :: int where "S_ERROR = - 1"
definition S_UNDEF :: int where "S_UNDEF = 0"
definition S_INITIAL :: int where "S_INITIAL = 1"
definition S_PRE_START :: int where "S_PRE_START = 2"
definition S_START :: int where "S_START = 3"
definition S_SENT_KEY :: int where "S_SENT_KEY = 4"
definition S_GOT_KEY :: int where "S_GOT_KEY = 5"
definition S_ACTIVE :: int where "S_ACTIVE = 6"
definition S_NORMAL_OP :: int where "S_NORMAL_OP = 7"

lemmas state_defs = S_ERROR_def S_UNDEF_def S_INITIAL_def S_PRE_START_def S_START_def S_SENT_KEY_def S_GOT_KEY_def
  S_ACTIVE_def S_NORMAL_OP_def

lemmas opcode_defs = P_CONTROL_HARD_RESET_CLIENT_V1_def P_CONTROL_HARD_RESET_SERVER_V1_def P_CONTROL_SOFT_RESET_V1_def
  P_CONTROL_V1_def P_ACK_V1_def P_DATA_V1_def P_CONTROL_HARD_RESET_CLIENT_V2_def P_CONTROL_HARD_RESET_SERVER_V2_def
  P_FIRST_OPCODE_def P_LAST_OPCODE_def

definition CONTROL_SEND_ACK_MAX :: int where "CONTROL_SEND_ACK_MAX = 4"
definition TLS_RELIABLE_N_SEND_BUFFERS :: int where "TLS_RELIABLE_N_SEND_BUFFERS = 4"
definition TLS_RELIABLE_N_REC_BUFFERS :: int where "TLS_RELIABLE_N_REC_BUFFERS = 8"
definition TLS_MULTI_AUTH_STATUS_INTERVAL :: int where "TLS_MULTI_AUTH_STATUS_INTERVAL = 10"
definition TLS_CHANNEL_BUF_SIZE :: int where "TLS_CHANNEL_BUF_SIZE = 2048"
definition TLS_USERNAME_LEN :: nat where "TLS_USERNAME_LEN = 64"
definition TLS_OPTIONS_LEN :: nat where "TLS_OPTIONS_LEN = 512"
definition USER_PASS_LEN :: nat where "USER_PASS_LEN = 128"
definition KEY_METHOD_MASK :: int where "KEY_METHOD_MASK = 15"
definition MAX_CERT_DEPTH :: nat where "MAX_CERT_DEPTH = 16"

definition KS_PRIMARY :: nat where "KS_PRIMARY = 0"
definition KS_LAME_DUCK :: nat where "KS_LAME_DUCK = 1"
definition KS_SIZE :: nat where "KS_SIZE = 2"
definition TM_ACTIVE :: nat where "TM_ACTIVE = 0"
definition TM_UNTRUSTED :: nat where "TM_UNTRUSTED = 1"
definition TM_LAME_DUCK :: nat where "TM_LAME_DUCK = 2"
definition TM_SIZE :: nat where "TM_SIZE = 3"

lemmas index_defs = KS_PRIMARY_def KS_LAME_DUCK_def KS_SIZE_def TM_ACTIVE_def TM_UNTRUSTED_def TM_LAME_DUCK_def TM_SIZE_def

definition SSLF_CLIENT_CERT_NOT_REQUIRED :: u32 where "SSLF_CLIENT_CERT_NOT_REQUIRED = 1"
definition SSLF_USERNAME_AS_COMMON_NAME :: u32 where "SSLF_USERNAME_AS_COMMON_NAME = 2"
definition SSLF_AUTH_USER_PASS_OPTIONAL :: u32 where "SSLF_AUTH_USER_PASS_OPTIONAL = 4"
definition SSLF_NO_NAME_REMAPPING :: u32 where "SSLF_NO_NAME_REMAPPING = 8"
definition SSLF_OPT_VERIFY :: u32 where "SSLF_OPT_VERIFY = 16"

definition ACF_UNDEFINED :: u32 where "ACF_UNDEFINED = 0"
definition ACF_SUCCEEDED :: u32 where "ACF_SUCCEEDED = 1"
definition ACF_DISABLED :: u32 where "ACF_DISABLED = 2"
definition ACF_FAILED :: u32 where "ACF_FAILED = 3"

section \<open>State\<close>

type_synonym counter_type = "64 word"

record 's key_state =
  ks_state :: int
  ks_key_id :: int
  ks_ssl :: "'s option"
  ks_established :: time_t
  ks_must_negotiate :: time_t
  ks_must_die :: time_t
  ks_initial_opcode :: int
  ks_session_id_remote :: session_id
  ks_remote_addr :: link_socket_actual
  ks_packet_id :: packet_id
  ks_key :: key_ctx_bi
  ks_key_src :: key_source2
  ks_plaintext_read_buf :: buffer
  ks_plaintext_write_buf :: buffer
  ks_ack_write_buf :: buffer
  ks_send_reliable :: reliable
  ks_rec_reliable :: reliable
  ks_rec_ack :: reliable_ack
  ks_paybuf :: "buffer_list option"
  ks_n_bytes :: counter_type
  ks_n_packets :: counter_type
  ks_authenticated :: bool
  ks_auth_deferred_expire :: time_t
  ks_auth_deferred :: bool
  ks_mda_key_id :: u32
  ks_mda_status :: u32
  ks_auth_control_status :: u32
  ks_auth_control_file :: "cstr option"

record tls_options =
  to_key_type :: key_type
  to_server :: bool
  to_xmit_hold :: bool
  to_local_options :: cstr
  to_remote_options :: cstr
  to_key_method :: int
  to_replay :: bool
  to_single_session :: bool
  to_disable_occ :: bool
  to_transition_window :: int
  to_handshake_window :: int
  to_packet_timeout :: int
  to_renegotiate_bytes :: int
  to_renegotiate_packets :: int
  to_renegotiate_seconds :: int
  to_crypto_flags_and :: u32
  to_crypto_flags_or :: u32
  to_replay_window :: int
  to_replay_time :: int
  to_tls_auth :: crypto_options   \<comment> \<open>with \<open>tls_auth_key\<close> as its key\<close>
  to_frame :: frame
  to_auth_user_pass_verify_script :: bool   \<comment> \<open>whether it is defined\<close>
  to_client_config_dir_exclusive :: "cstr option"
  to_ssl_flags :: u32
  to_gremlin :: int

record peer_cert =   \<comment> \<open>what the certificate callback keeps in the session\<close>
  pc_verify_maxlevel :: int
  pc_common_name :: "cstr option"
  pc_common_name_hashval :: u32
  pc_cert_hash_set :: "byte list option list option"
  pc_verified :: bool

record 's tls_session =
  se_burst :: bool
  se_tls_auth :: crypto_options   \<comment> \<open>with \<open>tls_auth_pid\<close> as its packet id\<close>
  se_initial_opcode :: int
  se_session_id :: session_id
  se_key_id :: int
  se_peer :: peer_cert
  se_untrusted_addr :: link_socket_actual
  se_key :: "'s key_state list"

record 's tls_multi =
  tm_opt :: tls_options
  tm_save_ks :: "(nat \<times> nat) option"
  tm_to_link_addr :: link_socket_actual
  tm_n_sessions :: int
  tm_n_hard_errors :: int
  tm_n_soft_errors :: int
  tm_locked_cn :: "cstr option"
  tm_locked_username :: "cstr option"
  tm_locked_cert_hash_set :: "byte list option list option"
  tm_client_reason :: "cstr option"
  tm_peer_info :: "cstr option"
  tm_tas_last :: time_t
  tm_session :: "'s tls_session list"

record tls_world =
  w_clock :: clock
  w_reads :: nat                  \<comment> \<open>readings of the system clock so far\<close>
  w_draws :: nat                  \<comment> \<open>calls of the random generators so far\<close>
  w_mda_key_id_counter :: u32
  w_pid_persist :: "packet_id_persist option"

record 's tls_env =
  te_time :: "nat \<Rightarrow> time_t"
  te_rand :: "nat \<Rightarrow> nat \<Rightarrow> byte list option"     \<comment> \<open>\<open>RAND_bytes\<close>\<close>
  te_prng :: "nat \<Rightarrow> byte list"                   \<comment> \<open>\<open>prng_bytes\<close> for a session id\<close>
  te_junk :: "nat \<Rightarrow> nat \<Rightarrow> byte"
  te_ssl_new :: "bool \<Rightarrow> 's option"
  te_write_ct :: "'s \<Rightarrow> byte list \<Rightarrow> (int \<times> bool) \<times> 's"   \<comment> \<open>the result of \<open>BIO_write\<close> and \<open>BIO_should_retry\<close>\<close>
  te_read_ct :: "'s \<Rightarrow> int \<Rightarrow> (byte list + bool) \<times> 's"   \<comment> \<open>the bytes read or \<open>BIO_should_retry\<close>\<close>
  te_write_pt :: "'s \<Rightarrow> peer_cert \<Rightarrow> byte list \<Rightarrow> (int \<times> bool) \<times> 's \<times> peer_cert"
  te_read_pt :: "'s \<Rightarrow> peer_cert \<Rightarrow> int \<Rightarrow> (byte list + bool) \<times> 's \<times> peer_cert"
  te_md5 :: evp_md
  te_sha1 :: evp_md
  te_des :: des_ops

section \<open>Access\<close>

definition key_ctx_bi_zero :: key_ctx_bi where
  "key_ctx_bi_zero = \<lparr>kb_encrypt = \<lparr>k_cipher = None, k_hmac = None\<rparr>, kb_decrypt = \<lparr>k_cipher = None, k_hmac = None\<rparr>\<rparr>"

definition key_state_clear :: "'s key_state" where
  \<comment> \<open>\<open>CLEAR (*ks)\<close>\<close>
  "key_state_clear =
     \<lparr>ks_state = 0, ks_key_id = 0, ks_ssl = None, ks_established = 0, ks_must_negotiate = 0, ks_must_die = 0,
      ks_initial_opcode = 0, ks_session_id_remote = x_session_id_zero, ks_remote_addr = link_socket_actual_zero,
      ks_packet_id = packet_id_clear, ks_key = key_ctx_bi_zero, ks_key_src = key_source2_clear,
      ks_plaintext_read_buf = clear_buf, ks_plaintext_write_buf = clear_buf, ks_ack_write_buf = clear_buf,
      ks_send_reliable = reliable_clear, ks_rec_reliable = reliable_clear,
      ks_rec_ack = \<lparr>a_len = 0, a_packet_id = replicate RELIABLE_ACK_SIZE 0\<rparr>, ks_paybuf = None, ks_n_bytes = 0, ks_n_packets = 0,
      ks_authenticated = False, ks_auth_deferred_expire = 0, ks_auth_deferred = False, ks_mda_key_id = 0,
      ks_mda_status = 0, ks_auth_control_status = 0, ks_auth_control_file = None\<rparr>"

definition peer_cert_clear :: peer_cert where
  "peer_cert_clear = \<lparr>pc_verify_maxlevel = 0, pc_common_name = None, pc_common_name_hashval = 0, pc_cert_hash_set = None, pc_verified = False\<rparr>"

definition tls_session_clear :: "'s tls_session" where
  "tls_session_clear =
     \<lparr>se_burst = False, se_tls_auth = \<lparr>co_key_ctx_bi = None, co_packet_id = None, co_pid_persist = None, co_flags = 0\<rparr>,
      se_initial_opcode = 0, se_session_id = x_session_id_zero, se_key_id = 0, se_peer = peer_cert_clear,
      se_untrusted_addr = link_socket_actual_zero, se_key = replicate KS_SIZE key_state_clear\<rparr>"

abbreviation primary :: "'s tls_session \<Rightarrow> 's key_state" where
  "primary s \<equiv> se_key s ! KS_PRIMARY"

abbreviation lame_duck :: "'s tls_session \<Rightarrow> 's key_state" where
  "lame_duck s \<equiv> se_key s ! KS_LAME_DUCK"

definition session_key_set :: "'s tls_session \<Rightarrow> nat \<Rightarrow> 's key_state \<Rightarrow> 's tls_session" where
  "session_key_set s j k = s\<lparr>se_key := (se_key s)[j := k]\<rparr>"

definition multi_session :: "'s tls_multi \<Rightarrow> nat \<Rightarrow> 's tls_session" where
  "multi_session m i = tm_session m ! i"

definition multi_session_set :: "'s tls_multi \<Rightarrow> nat \<Rightarrow> 's tls_session \<Rightarrow> 's tls_multi" where
  "multi_session_set m i s = m\<lparr>tm_session := (tm_session m)[i := s]\<rparr>"

definition multi_key :: "'s tls_multi \<Rightarrow> nat \<times> nat \<Rightarrow> 's key_state" where
  "multi_key m p = se_key (multi_session m (fst p)) ! snd p"

definition multi_key_set :: "'s tls_multi \<Rightarrow> nat \<times> nat \<Rightarrow> 's key_state \<Rightarrow> 's tls_multi" where
  "multi_key_set m p k = multi_session_set m (fst p) (session_key_set (multi_session m (fst p)) (snd p) k)"

definition key_scan :: "(nat \<times> nat) list" where
  "key_scan = [(TM_ACTIVE, KS_PRIMARY), (TM_ACTIVE, KS_LAME_DUCK), (TM_LAME_DUCK, KS_LAME_DUCK)]"

definition DECRYPT_KEY_ENABLED :: "'s tls_multi \<Rightarrow> 's key_state \<Rightarrow> bool" where
  "DECRYPT_KEY_ENABLED m ks \<longleftrightarrow> ks_state ks \<ge> S_GOT_KEY - (if to_server (tm_opt m) then 1 else 0)"

definition tls_now :: "tls_world \<Rightarrow> time_t" where
  "tls_now w = c_now (w_clock w)"

definition tls_update_time :: "'s tls_env \<Rightarrow> tls_world \<Rightarrow> tls_world" where
  "tls_update_time env w = w\<lparr>w_clock := update_time (w_clock w) (te_time env (w_reads w)), w_reads := w_reads w + 1\<rparr>"

end
