(* ===== verification/Tls_Auth.thy ===== *)
theory Tls_Auth
  imports Tls_State
begin

text \<open>
  Authentication of control packets with \<open>--tls-auth\<close> (ssl.c): the HMAC record is moved between the
  place \<open>openvpn_encrypt\<close> puts it and its place on the wire, after the opcode and the session id.

  There is no cipher for control packets, so the frame argument of \<open>openvpn_encrypt\<close> and \<open>openvpn_decrypt\<close>, which is
  \<open>NULL\<close> here, is not used.
\<close>

section \<open>Operations\<close>

definition SWAP_BUF_SIZE :: int where "SWAP_BUF_SIZE = 256"

definition no_frame :: frame where
  \<comment> \<open>stands for the frame argument \<open>NULL\<close>\<close>
  "no_frame = \<lparr>f_link_mtu = 0, f_link_mtu_dynamic = 0, f_extra_frame = 0, f_extra_buffer = 0, f_extra_tun = 0,
     f_extra_link = 0, f_align_flags = 0, f_align_adjust = 0\<rparr>"

definition swap_hmac :: "buffer \<Rightarrow> crypto_options \<Rightarrow> bool \<Rightarrow> (bool \<times> buffer) result" where
  "swap_hmac b co incoming =
     (case co_key_ctx_bi co of
        None \<Rightarrow> Inl NullDeref
      | Some kb \<Rightarrow>
          (case k_hmac (if incoming then kb_decrypt kb else kb_encrypt kb) of
             None \<Rightarrow> Inl AssertFailed
           | Some h \<Rightarrow>
               (let hmac_size = h_size h + packet_id_size True;
                    osid_size = 1 + int SID_SIZE;
                    (e1, e2) = (if incoming then (osid_size, hmac_size) else (hmac_size, osid_size))
                in assert_that (e1 \<le> SWAP_BUF_SIZE \<and> e2 \<le> SWAP_BUF_SIZE)
                     (if b_len b \<ge> e1 + e2
                      then (let buf1 = take (nat e1) (buf_contents b);
                                buf2 = take (nat e2) (drop (nat e1) (buf_contents b));
                                b = buf_put b (b_offset b) buf2
                            in Inr (True, buf_put b (b_offset b + e2) buf1))
                      else Inr (False, b)))))"

definition write_control_auth ::
    "tls_world \<Rightarrow> 's tls_session \<Rightarrow> 's key_state \<Rightarrow> buffer \<Rightarrow> int \<Rightarrow> int \<Rightarrow> bool \<Rightarrow>
       (tls_world \<times> 's tls_session \<times> 's key_state \<times> buffer) result" where
  \<comment> \<open>\<open>*to_link_addr\<close> is set to the \<open>remote_addr\<close> of the key state\<close>
  "write_control_auth w session ks b opcode max_ack prepend_ack =
     assert_that (link_socket_actual_defined (Some (ks_remote_addr ks)))
       (bind_result (reliable_ack_write (ks_rec_ack ks) b (ks_session_id_remote ks) max_ack prepend_ack) (\<lambda>(ok, ack, b).
          assert_that ok
            (let ks = ks\<lparr>ks_rec_ack := ack\<rparr>
             in case session_id_write_prepend (se_session_id session) b of (ok, b) \<Rightarrow>
                  assert_that ok
                    (case buf_prepend b 1 of
                       (None, b) \<Rightarrow> Inl AssertFailed
                     | (Some p, b) \<Rightarrow>
                         (let header = word_of_int (ks_key_id ks) OR push_bit P_OPCODE_SHIFT (word_of_int opcode) :: byte;
                              b = buf_put b p [header]
                          in case co_key_ctx_bi (se_tls_auth session) of
                               None \<Rightarrow> Inl NullDeref
                             | Some kb \<Rightarrow>
                                 if k_hmac (kb_encrypt kb) \<noteq> None
                                 then bind_result
                                        (openvpn_encrypt (tls_now w) [] b clear_buf
                                           ((se_tls_auth session)\<lparr>co_pid_persist := w_pid_persist w\<rparr>) no_frame)
                                        (\<lambda>(b, co). bind_result (swap_hmac b co False) (\<lambda>(ok, b).
                                           assert_that ok
                                             (Inr (w\<lparr>w_pid_persist := co_pid_persist co\<rparr>,
                                                   session\<lparr>se_tls_auth := co\<lparr>co_pid_persist := None\<rparr>\<rparr>, ks, b))))
                                 else Inr (w, session, ks, b))))))"

definition read_control_auth :: "time_t \<Rightarrow> buffer \<Rightarrow> crypto_options \<Rightarrow> (bool \<times> buffer \<times> crypto_options) result" where
  \<comment> \<open>the second and third results are \<open>*buf\<close> and \<open>*co\<close> afterwards\<close>
  "read_control_auth now b co =
     (case co_key_ctx_bi co of
        None \<Rightarrow> Inl NullDeref
      | Some kb \<Rightarrow>
          if k_hmac (kb_decrypt kb) \<noteq> None
          then bind_result (swap_hmac b co True) (\<lambda>(ok, b).
                 if \<not> ok then Inr (False, b, co)
                 else bind_result (openvpn_decrypt now b clear_buf co no_frame) (\<lambda>(ok, b, co).
                        if b_len b = 0 then Inr (False, b, co)
                        else Inr (True, snd (buf_advance b (int SID_SIZE + 1)), co)))
          else Inr (True, snd (buf_advance b (int SID_SIZE + 1)), co))"

section \<open>The first packet of a client\<close>

definition reliable_ack_adjust_frame_parameters :: "frame \<Rightarrow> int \<Rightarrow> frame" where
  "reliable_ack_adjust_frame_parameters frame mx = frame_add_to_extra_frame frame (ACK_SIZE (nat mx))"

definition tls_adjust_frame_parameters :: "frame \<Rightarrow> frame" where
  "tls_adjust_frame_parameters frame = frame_add_to_extra_frame frame 1"

definition tls_init_control_channel_frame_parameters :: "frame \<Rightarrow> frame \<Rightarrow> frame result" where
  "tls_init_control_channel_frame_parameters data_channel_frame frame =
     (let frame = frame\<lparr>f_link_mtu := f_link_mtu data_channel_frame, f_extra_link := f_extra_link data_channel_frame\<rparr>;
          frame = tls_adjust_frame_parameters frame;
          frame = reliable_ack_adjust_frame_parameters frame CONTROL_SEND_ACK_MAX;
          frame = frame_add_to_extra_frame frame (int SID_SIZE + 4)
      in frame_set_mtu_dynamic frame 0 SET_MTU_TUN)"

record tls_auth_standalone =
  tas_tls_auth_key :: key_ctx_bi
  tas_tls_auth_options :: crypto_options
  tas_frame :: frame

definition tls_auth_standalone_init :: "tls_options \<Rightarrow> key_ctx_bi \<Rightarrow> tls_auth_standalone" where
  \<comment> \<open>the second argument is \<open>tls_options->tls_auth_key\<close>\<close>
  "tls_auth_standalone_init opt tls_auth_key =
     \<lparr>tas_tls_auth_key = tls_auth_key,
      tas_tls_auth_options = \<lparr>co_key_ctx_bi = Some tls_auth_key, co_packet_id = None, co_pid_persist = None,
                              co_flags = CO_PACKET_ID_LONG_FORM\<rparr>,
      tas_frame = to_frame opt\<rparr>"

definition tls_auth_standalone_finalize :: "tls_auth_standalone \<Rightarrow> frame \<Rightarrow> tls_auth_standalone result" where
  "tls_auth_standalone_finalize tas frame =
     bind_result (tls_init_control_channel_frame_parameters frame (tas_frame tas)) (\<lambda>f. Inr (tas\<lparr>tas_frame := f\<rparr>))"

definition tls_pre_decrypt_lite :: "(nat \<Rightarrow> byte) \<Rightarrow> time_t \<Rightarrow> tls_auth_standalone \<Rightarrow> buffer \<Rightarrow> bool result" where
  "tls_pre_decrypt_lite junk now tas b =
     (if b_len b > 0
      then (let c = hd (buf_contents b);
                op = uint (drop_bit P_OPCODE_SHIFT c);
                key_id = uint c AND P_KEY_ID_MASK
            in if op \<noteq> P_CONTROL_HARD_RESET_CLIENT_V2 then Inr False
               else if key_id \<noteq> 0 then Inr False
               else if b_len b > EXPANDED_SIZE_DYNAMIC (tas_frame tas) then Inr False
               else (let newbuf = clone_buf junk b; co = tas_tls_auth_options tas; co = co\<lparr>co_flags := co_flags co OR CO_IGNORE_PACKET_ID\<rparr>
                      in bind_result (read_control_auth now newbuf co) (\<lambda>(status, newbuf, co). Inr status)))
      else Inr False)"



section \<open>Exchanging the two records\<close>

lemma mem_read_write_inside:
  assumes "k + length bs \<le> n" "i + n \<le> length ds"
  shows "mem_read (mem_write ds (i + k) bs) i n = mem_write (mem_read ds i n) k bs"
  using assms by (intro nth_equalityI) (auto simp: nth_mem_read nth_mem_write)

lemma buf_put_inside:
  assumes "buf_ok b" "0 \<le> k" "nat k + length bs \<le> length (buf_contents b)"
  shows "buf_ok (buf_put b (b_offset b + k) bs)" "buf_contents (buf_put b (b_offset b + k) bs) = mem_write (buf_contents b) (nat k) bs"
proof -
  note inv = assms(1) [unfolded buf_ok_def]
  have l: "nat k + length bs \<le> nat (b_len b)" using assms(1,3) by simp
  have in_block: "nat (b_offset b) + nat (b_len b) \<le> length (buf_block b)" using inv by linarith
  have o: "nat (b_offset b + k) = nat (b_offset b) + nat k" using inv assms(2) by (simp add: nat_add_distrib)
  show ok: "buf_ok (buf_put b (b_offset b + k) bs)"
    using inv l in_block by (simp add: buf_ok_def o)
  show "buf_contents (buf_put b (b_offset b + k) bs) = mem_write (buf_contents b) (nat k) bs"
    using ok assms(1) inv mem_read_write_inside [OF l in_block] by (simp add: buf_contents_def o)
qed

lemma buf_exchange:
  assumes b: "buf_ok b" "buf_contents b = xs @ ys @ zs" and e: "e = int (length ys)"
  shows "buf_ok (buf_put (buf_put b (b_offset b) ys) (b_offset b + e) xs)"
    "buf_contents (buf_put (buf_put b (b_offset b) ys) (b_offset b + e) xs) = ys @ xs @ zs"
proof -
  let ?b1 = "buf_put b (b_offset b + 0) ys"
  have 1: "buf_ok ?b1" "buf_contents ?b1 = mem_write (xs @ ys @ zs) 0 ys"
    using buf_put_inside [OF b(1), of 0 ys] b(2) by simp_all
  have "buf_ok (buf_put ?b1 (b_offset ?b1 + e) xs)"
    "buf_contents (buf_put ?b1 (b_offset ?b1 + e) xs) = mem_write (buf_contents ?b1) (length ys) xs"
    using buf_put_inside [OF 1(1), of e xs] 1(2) e by (simp_all add: mem_write_def)
  moreover have "mem_write (buf_contents ?b1) (length ys) xs = ys @ xs @ zs"
    unfolding 1(2) by (simp add: mem_write_def)
  ultimately show "buf_ok (buf_put (buf_put b (b_offset b) ys) (b_offset b + e) xs)"
    "buf_contents (buf_put (buf_put b (b_offset b) ys) (b_offset b + e) xs) = ys @ xs @ zs" by simp_all
qed

definition tls_auth_keys :: "crypto_options \<Rightarrow> bool \<Rightarrow> hmac_ctx \<Rightarrow> bool" where
  \<comment> \<open>HMAC without a cipher, as \<open>get_tls_handshake_key\<close> sets it up\<close>
  "tls_auth_keys co incoming h \<longleftrightarrow>
     (\<exists>kb. co_key_ctx_bi co = Some kb \<and> (if incoming then kb_decrypt kb else kb_encrypt kb) = \<lparr>k_cipher = None, k_hmac = Some h\<rparr>)
     \<and> hmac_ok h \<and> h_size h + 8 \<le> SWAP_BUF_SIZE"

definition hmac_len :: "hmac_ctx \<Rightarrow> nat" where
  \<comment> \<open>the HMAC and the packet id\<close>
  "hmac_len h = nat (h_size h) + 8"

lemma swap_hmac_ok:
  assumes k: "tls_auth_keys co incoming h" and b: "buf_ok b"
    and e: "e1 = (if incoming then 9 else hmac_len h)" "e2 = (if incoming then hmac_len h else 9)"
  shows "if e1 + e2 \<le> length (buf_contents b)
         then \<exists>b'. swap_hmac b co incoming = Inr (True, b') \<and> buf_ok b'
           \<and> buf_contents b' = take e2 (drop e1 (buf_contents b)) @ take e1 (buf_contents b) @ drop (e1 + e2) (buf_contents b)
         else swap_hmac b co incoming = Inr (False, b)"
proof -
  obtain kb where kb: "co_key_ctx_bi co = Some kb" "(if incoming then kb_decrypt kb else kb_encrypt kb) = \<lparr>k_cipher = None, k_hmac = Some h\<rparr>"
      "0 \<le> h_size h" "h_size h + 8 \<le> 256"
    using k by (auto simp: tls_auth_keys_def hmac_ok_def SWAP_BUF_SIZE_def)
  have h: "k_hmac (if incoming then kb_decrypt kb else kb_encrypt kb) = Some h" using kb(2) by simp
  have sz: "h_size h + packet_id_size True = int (hmac_len h)" "1 + int SID_SIZE = 9"
    using kb(3) by (simp_all add: packet_id_size_def hmac_len_def SID_SIZE_def)
  have small: "int e1 \<le> SWAP_BUF_SIZE \<and> int e2 \<le> SWAP_BUF_SIZE"
    using kb(3,4) e by (auto simp: SWAP_BUF_SIZE_def hmac_len_def)
  have pair: "(if incoming then (1 + int SID_SIZE, h_size h + packet_id_size True) else (h_size h + packet_id_size True, 1 + int SID_SIZE))
      = (int e1, int e2)" unfolding sz using e by simp
  have len: "b_len b = int (length (buf_contents b))" using length_buf_contents [OF b] by simp
  let ?c = "buf_contents b"
  show ?thesis
  proof (cases "e1 + e2 \<le> length ?c")
    case True
    have "?c = take e1 ?c @ take e2 (drop e1 ?c) @ drop (e1 + e2) ?c"
      by (metis append_take_drop_id drop_drop add.commute)
    moreover have "int e2 = int (length (take e2 (drop e1 ?c)))" using True by simp
    ultimately show ?thesis
      using True kb(1) h small len buf_exchange [OF b, of "take e1 ?c" "take e2 (drop e1 ?c)" "drop (e1 + e2) ?c" "int e2"]
      unfolding swap_hmac_def by (simp add: pair Let_def)
  next
    case False
    then show ?thesis using kb(1) h small len unfolding swap_hmac_def by (simp add: pair Let_def)
  qed
qed

section \<open>Reading\<close>

definition tls_auth_ok :: "hmac_ctx \<Rightarrow> byte list \<Rightarrow> bool" where
  \<comment> \<open>the packet carries, after opcode and session id, the HMAC of packet id, opcode, session id and the rest\<close>
  "tls_auth_ok h c \<longleftrightarrow> hmac_len h + 9 \<le> length c
     \<and> take (nat (h_size h)) (drop 9 c) = h_mac h (take 8 (drop (9 + nat (h_size h)) c) @ take 9 c @ drop (9 + hmac_len h) c)"

lemma swapped_authentic:
  assumes "hmac_ok h" "hmac_len h + 9 \<le> length c"
  shows "(\<exists>rest. take (hmac_len h) (drop 9 c) @ take 9 c @ drop (9 + hmac_len h) c = h_mac h rest @ rest) \<longleftrightarrow> tls_auth_ok h c"
    (is "(\<exists>rest. ?s = _) \<longleftrightarrow> _")
proof -
  let ?n = "nat (h_size h)"
  have split: "take (hmac_len h) (drop 9 c) = take ?n (drop 9 c) @ take 8 (drop (9 + ?n) c)"
    by (simp add: hmac_len_def take_add add.commute)
  have ln: "length (take ?n (drop 9 c)) = ?n" using assms(2) by (simp add: hmac_len_def)
  have lh: "length (h_mac h r) = ?n" for r using assms(1) unfolding hmac_ok_def by (metis nat_int)
  show ?thesis
  proof
    assume "\<exists>rest. ?s = h_mac h rest @ rest"
    then obtain rest where "take ?n (drop 9 c) @ (take 8 (drop (9 + ?n) c) @ take 9 c @ drop (9 + hmac_len h) c) = h_mac h rest @ rest"
      unfolding split append_assoc by blast
    then have "take ?n (drop 9 c) = h_mac h rest \<and> take 8 (drop (9 + ?n) c) @ take 9 c @ drop (9 + hmac_len h) c = rest"
      using ln lh append_eq_append_conv by metis
    then show "tls_auth_ok h c" using assms(2) by (auto simp: tls_auth_ok_def)
  next
    assume "tls_auth_ok h c"
    then show "\<exists>rest. ?s = h_mac h rest @ rest" unfolding split append_assoc by (metis tls_auth_ok_def)
  qed
qed

lemma read_control_auth_rejects:
  assumes k: "tls_auth_keys co True h" and b: "buf_ok b" "\<not> tls_auth_ok h (buf_contents b)"
  shows "\<exists>b'. read_control_auth now b co = Inr (False, b', co)"
proof -
  obtain kb where kb: "co_key_ctx_bi co = Some kb" "kb_decrypt kb = \<lparr>k_cipher = None, k_hmac = Some h\<rparr>" "hmac_ok h"
    using k by (auto simp: tls_auth_keys_def)
  let ?c = "buf_contents b"
  note s = swap_hmac_ok [OF k b(1) refl refl]
  show ?thesis
  proof (cases "hmac_len h + 9 \<le> length ?c")
    case True
    then obtain b1 where b1: "swap_hmac b co True = Inr (True, b1)" "buf_ok b1"
        "buf_contents b1 = take (hmac_len h) (drop 9 ?c) @ take 9 ?c @ drop (9 + hmac_len h) ?c"
      using s by auto
    have "0 < b_len b1" using length_buf_contents [OF b1(2)] b1(3) True by auto
    from openvpn_decrypt_forgery [OF kb(1) _ kb(3) b1(2) this, of now clear_buf no_frame]
    have "openvpn_decrypt now b1 clear_buf co no_frame = Inr (False, b1\<lparr>b_len := 0\<rparr>, co)"
      using kb(2) swapped_authentic [OF kb(3) True] b(2) unfolding b1(3) by simp
    then show ?thesis using kb(1,2) b1(1) by (simp add: read_control_auth_def)
  next
    case False
    then show ?thesis using s kb(1,2) by (auto simp: read_control_auth_def)
  qed
qed

definition wire_pin :: "byte list \<Rightarrow> packet_id_net" where
  "wire_pin x = \<lparr>n_id = u32_of_bytes (take 4 x), n_time = uint (u32_of_bytes (take 4 (drop 4 x)))\<rparr>"

lemma packet_id_read_long:
  assumes "buf_ok b" "8 \<le> length (buf_contents b)"
  shows "\<exists>b'. packet_id_read b True = (True, wire_pin (buf_contents b), b') \<and> buf_ok b' \<and> buf_contents b' = drop 8 (buf_contents b)"
proof -
  obtain b1 where b1: "buf_read b 4 = (Some (take 4 (buf_contents b)), b1)" "buf_ok b1" "buf_contents b1 = drop 4 (buf_contents b)"
    using buf_read_ok [OF assms(1), of 4] assms(2) by auto
  obtain b2 where "buf_read b1 4 = (Some (take 4 (drop 4 (buf_contents b))), b2)" "buf_ok b2" "buf_contents b2 = drop 4 (drop 4 (buf_contents b))"
    using buf_read_ok [OF b1(2), of 4] b1(3) le_diff_conv2 [of 4 "length (buf_contents b)" 4] assms(2) by auto
  with b1(1) show ?thesis by (simp add: packet_id_read_def wire_pin_def)
qed

definition control_opt :: "crypto_options \<Rightarrow> packet_id \<Rightarrow> bool" where
  \<comment> \<open>the options of \<open>tls_auth\<close> in a session: replay protection with long packet ids\<close>
  "control_opt co pid \<longleftrightarrow> co_packet_id co = Some pid \<and> co_long_form co \<and> co_flags co AND CO_IGNORE_PACKET_ID = 0"

lemma read_control_auth_accepts:
  assumes k: "tls_auth_keys co True h" and b: "buf_ok b" "tls_auth_ok h (buf_contents b)"
    and co: "control_opt co pid"
    and chk: "packet_id_check now (pid_rec pid) (wire_pin (drop (9 + nat (h_size h)) (buf_contents b))) = Inr (ok, r)"
  shows "\<exists>b' co'. read_control_auth now b co = Inr (ok, b', co') \<and> co_flags co' = co_flags co \<and> co_key_ctx_bi co' = co_key_ctx_bi co
    \<and> co_packet_id co' = Some (pid\<lparr>pid_rec := r\<rparr>) \<and> (co_pid_persist co = None \<longrightarrow> co_pid_persist co' = None)
    \<and> (\<forall>p. co_pid_persist co = Some p \<and> \<not> packet_id_persist_enabled p \<longrightarrow> co_pid_persist co' = Some p)
    \<and> (ok \<longrightarrow> buf_ok b' \<and> buf_contents b' = drop (9 + hmac_len h) (buf_contents b) \<and> b_capacity b' = b_capacity b)"
proof -
  obtain kb where kb: "co_key_ctx_bi co = Some kb" "kb_decrypt kb = \<lparr>k_cipher = None, k_hmac = Some h\<rparr>" "hmac_ok h"
    using k by (auto simp: tls_auth_keys_def)
  let ?c = "buf_contents b" and ?n = "nat (h_size h)"
  have len: "hmac_len h + 9 \<le> length ?c" using b(2) by (simp add: tls_auth_ok_def)
  obtain b1 where b1: "swap_hmac b co True = Inr (True, b1)" "buf_ok b1"
      "buf_contents b1 = take (hmac_len h) (drop 9 ?c) @ take 9 ?c @ drop (9 + hmac_len h) ?c"
    using swap_hmac_ok [OF k b(1) refl refl] len by auto
  have cap1: "b_capacity b1 = b_capacity b"
    using b1(1) by (auto simp: swap_hmac_def Let_def assert_that_def split: option.splits prod.splits if_splits)
  have split: "take (hmac_len h) (drop 9 ?c) = take ?n (drop 9 ?c) @ take 8 (drop (9 + ?n) ?c)"
    by (simp add: hmac_len_def take_add add.commute)
  obtain rest b2 where b2: "buf_contents b1 = h_mac h rest @ rest" "hmac_verify (Some h) b1 = Inr (Inr b2)" "buf_ok b2" "buf_contents b2 = rest"
    using hmac_verify_ok [OF b1(2) kb(3)] swapped_authentic [OF kb(3) len] b(2) unfolding b1(3) by blast
  have lh: "length (h_mac h rest) = ?n" using kb(3) unfolding hmac_ok_def by (metis nat_int)
  have ln: "length (take ?n (drop 9 ?c)) = ?n" using len by (simp add: hmac_len_def)
  have rest: "rest = take 8 (drop (9 + ?n) ?c) @ take 9 ?c @ drop (9 + hmac_len h) ?c"
    using b2(1) ln lh unfolding b1(3) split append_assoc by (metis append_eq_append_conv)
  have l8: "length (take 8 (drop (9 + ?n) ?c)) = 8" using len by (simp add: hmac_len_def)
  have cap2: "b_capacity b2 = b_capacity b1"
    using b2(2) by (auto simp: hmac_verify_def buf_advance_def Let_def assert_that_def split: if_splits)
  obtain b3 where b3: "packet_id_read b2 True = (True, wire_pin rest, b3)" "buf_ok b3" "buf_contents b3 = drop 8 rest"
    using packet_id_read_long [OF b2(3)] b2(4) l8 rest by auto
  have cap3: "b_capacity b3 = b_capacity b2"
    using b3(1) b2(3) by (auto simp: packet_id_read_def buf_read_def buf_read_alloc_def Let_def split: option.splits prod.splits if_splits)
  have pin: "wire_pin rest = wire_pin (drop (9 + ?n) ?c)"
    using l8 unfolding rest by (simp add: wire_pin_def take_drop)
  have c3: "buf_contents b3 = take 9 ?c @ drop (9 + hmac_len h) ?c" using b3(3) l8 unfolding rest by simp
  have opn: "decrypt_open (kb_decrypt kb) co b1 clear_buf no_frame = Inr (Inr (Some (wire_pin rest), b3, b2))"
    using kb(2) b2(2) co b3(1) by (simp add: decrypt_open_def bind_exit_def control_opt_def)
  let ?co = "co\<lparr>co_packet_id := Some (pid\<lparr>pid_rec := r\<rparr>)\<rparr>"
  let ?co' = "if ok then ?co\<lparr>co_pid_persist := map_option (\<lambda>p. packet_id_persist_save_obj p (pid\<lparr>pid_rec := r\<rparr>)) (co_pid_persist co)\<rparr> else ?co"
  have lf: "co_long_form ?co" using co by (simp add: control_opt_def co_long_form_def)
  have rep: "decrypt_replay now co (Some (wire_pin rest)) = Inr (ok, ?co')"
    using co chk lf by (simp add: decrypt_replay_def pin control_opt_def Let_def)
  have pos: "0 < b_len b1" using length_buf_contents [OF b1(2)] b1(3) len by auto
  have dec: "openvpn_decrypt now b1 clear_buf co no_frame = Inr (if ok then (True, b3, ?co') else (False, b2\<lparr>b_len := 0\<rparr>, ?co'))"
    using kb(1) pos opn rep by (cases ok) (simp_all add: openvpn_decrypt_def)
  have save: "packet_id_persist_save_obj p q = p" if "\<not> packet_id_persist_enabled p" for p q
    using that by (simp add: packet_id_persist_save_obj_def)
  show ?thesis
  proof (cases ok)
    case False
    have "read_control_auth now b co = Inr (False, b2\<lparr>b_len := 0\<rparr>, ?co')"
      using kb(1,2) b1(1) dec False by (simp add: read_control_auth_def)
    with False show ?thesis by simp
  next
    case True
    have l3: "b_len b3 = int (length (take 9 ?c @ drop (9 + hmac_len h) ?c))" using length_buf_contents [OF b3(2)] c3 by simp
    then have "9 \<le> b_len b3" using len by simp
    then obtain b4 where b4: "buf_advance b3 9 = (True, b4)" "buf_ok b4" "buf_contents b4 = drop 9 (buf_contents b3)" "b_capacity b4 = b_capacity b3"
      using buf_advance_ok [OF b3(2), of 9] by auto
    have "read_control_auth now b co = Inr (True, b4, ?co')"
      using kb(1,2) b1(1) dec True b4(1) \<open>9 \<le> b_len b3\<close> by (simp add: read_control_auth_def SID_SIZE_def)
    moreover have "buf_contents b4 = drop (9 + hmac_len h) ?c" using b4(3) c3 len by simp
    ultimately show ?thesis using True b4(2,4) cap1 cap2 cap3 save by auto
  qed
qed

section \<open>Writing\<close>

lemma reliable_ack_write_place:
  assumes "reliable_ack_write ack b sid mx prepend = Inr (ok, ack', b')" "ok"
  shows "b_capacity b' = b_capacity b"
    "if prepend then b_offset b' + b_len b' = b_offset b + b_len b else b_offset b' = b_offset b"
proof -
  define n where "n = (if uint (word_of_nat (a_len ack) :: byte) > mx then word_of_int mx else (word_of_nat (a_len ack) :: byte))"
  obtain r b1 where s: "buf_sub b (ACK_SIZE (unat n)) prepend = (r, b1)" by fastforce
  obtain i a where sh: "reliable_ack_shift 0 (unat n) (a_len ack) (a_packet_id ack) = (i, a)" by fastforce
  have "\<exists>p sub s. r = Some (p, sub) \<and> b' = buf_sub_commit b1 p s"
  proof (cases r)
    case None
    then show ?thesis using assms s unfolding reliable_ack_write_def Let_def n_def [symmetric] by simp
  next
    case (Some x)
    then show ?thesis using assms unfolding reliable_ack_write_def Let_def n_def [symmetric]
      by (cases x) (auto simp: s sh bind_result_Inr split: prod.splits if_splits, metis surj_pair)
  qed
  then show "b_capacity b' = b_capacity b"
    "if prepend then b_offset b' + b_len b' = b_offset b + b_len b else b_offset b' = b_offset b"
    using s by (auto simp: buf_sub_def buf_write_alloc_prepend_def buf_write_alloc_def buf_prepend_def buf_sub_commit_def Let_def
        split: option.splits if_splits)
qed

definition control_header :: "'s key_state \<Rightarrow> int \<Rightarrow> byte" where
  "control_header ks opcode = word_of_int (ks_key_id ks) OR push_bit P_OPCODE_SHIFT (word_of_int opcode)"

definition control_packet :: "hmac_ctx \<Rightarrow> packet_id_net \<Rightarrow> byte list \<Rightarrow> byte list \<Rightarrow> byte list" where
  \<comment> \<open>opcode and session id, HMAC, packet id, the rest\<close>
  "control_packet h pin osid body =
     osid @ h_mac h (packet_id_bytes pin True @ osid @ body) @ packet_id_bytes pin True @ body"

lemma control_packet_ok:
  assumes "hmac_ok h" "length osid = 9"
  shows "tls_auth_ok h (control_packet h pin osid body)"
    "wire_pin (drop (9 + nat (h_size h)) (control_packet h pin osid body)) = packet_id_as_sent pin True"
    "drop (9 + hmac_len h) (control_packet h pin osid body) = body" "take 9 (control_packet h pin osid body) = osid"
proof -
  let ?p = "packet_id_bytes pin True" and ?n = "nat (h_size h)"
  have lh: "length (h_mac h x) = ?n" for x using assms(1) unfolding hmac_ok_def by (metis nat_int)
  have lp: "length ?p = 8" by (simp add: packet_id_bytes_def)
  have d: "drop (9 + ?n) (control_packet h pin osid body) = ?p @ body"
    using assms(2) lh by (simp add: control_packet_def)
  have "drop (9 + hmac_len h) (control_packet h pin osid body) = drop 8 (drop (9 + ?n) (control_packet h pin osid body))"
    by (simp add: hmac_len_def add.commute add.left_commute)
  then show b: "drop (9 + hmac_len h) (control_packet h pin osid body) = body" using lp by (simp add: d)
  show t: "take 9 (control_packet h pin osid body) = osid" using assms(2) by (simp add: control_packet_def)
  have "drop 9 (control_packet h pin osid body) = h_mac h (?p @ osid @ body) @ ?p @ body"
    using assms(2) by (simp add: control_packet_def)
  moreover have "hmac_len h + 9 \<le> length (control_packet h pin osid body)"
    using assms(2) lh lp by (simp add: control_packet_def hmac_len_def)
  ultimately show "tls_auth_ok h (control_packet h pin osid body)"
    using lh lp by (simp add: tls_auth_ok_def d b t)
  have "uint (u32_of_int (n_time pin)) = n_time pin mod 2 ^ 32" by (simp add: u32_of_int_def uint_word_of_int)
  then show "wire_pin (drop (9 + ?n) (control_packet h pin osid body)) = packet_id_as_sent pin True"
    unfolding d by (simp add: wire_pin_def packet_id_bytes_def packet_id_as_sent_def)
qed

lemma encrypt_control_ok:
  assumes k: "tls_auth_keys co False h" and co: "control_opt co pid"
    and b: "buf_ok b" "buf_contents b = osid @ body" "length osid = 9" "int (hmac_len h) \<le> b_offset b"
    and id: "unat (s_id (pid_send pid)) + 1 < 2 ^ 32"
    and pin: "packet_id_alloc_outgoing now (pid_send pid) True = Inr (p, pin)"
  shows "\<exists>b1 b2 co'. openvpn_encrypt now [] b clear_buf co no_frame = Inr (b1, co') \<and> swap_hmac b1 co' False = Inr (True, b2)
    \<and> co' = co\<lparr>co_packet_id := Some (pid\<lparr>pid_send := p\<rparr>)\<rparr> \<and> buf_ok b2 \<and> buf_contents b2 = control_packet h pin osid body"
proof -
  obtain kb where kb: "co_key_ctx_bi co = Some kb" "kb_encrypt kb = \<lparr>k_cipher = None, k_hmac = Some h\<rparr>" "hmac_ok h" "0 \<le> h_size h"
    using k by (auto simp: tls_auth_keys_def hmac_ok_def)
  let ?n = "nat (h_size h)" and ?p = "packet_id_bytes pin True"
  have lh: "length (h_mac h x) = ?n" for x using kb(3) unfolding hmac_ok_def by (metis nat_int)
  have lp: "length ?p = 8" by (simp add: packet_id_bytes_def)
  have hd: "int (buf_headroom b) = b_offset b" by (rule buf_headroom_eq [OF b(1)])
  obtain b1 where b1: "packet_id_write pin b True True = (True, b1)" "buf_ok b1" "buf_contents b1 = ?p @ osid @ body"
  proof -
    have "8 \<le> buf_headroom b" using b(4) hd kb(4) by (simp add: hmac_len_def)
    then show ?thesis using that packet_id_write_bytes [OF b(1), of pin True True] lp b(2) by auto
  qed
  have hd1: "h_size h \<le> int (buf_headroom b1)"
  proof -
    obtain c1 where c1: "buf_write_prepend b (bytes_of_u32 (u32_of_int (n_time pin))) = (True, c1)" "buf_ok c1"
        "buf_headroom c1 = buf_headroom b - 4"
      using buf_write_prepend_ok [OF b(1), of "bytes_of_u32 (u32_of_int (n_time pin))"] b(4) hd kb(4) by (auto simp: hmac_len_def)
    have "length (bytes_of_u32 (n_id pin)) \<le> buf_headroom c1" using c1(3) b(4) hd kb(4) by (simp add: hmac_len_def)
    from buf_write_prepend_ok [OF c1(2) this] obtain c2 where
      "buf_write_prepend c1 (bytes_of_u32 (n_id pin)) = (True, c2)" "buf_headroom c2 = buf_headroom b - 8"
      using c1(3) by auto
    then have "buf_headroom b1 = buf_headroom b - 8" using b1(1) c1(1) by (simp add: packet_id_write_def)
    then show ?thesis using b(4) hd kb(4) by (simp add: hmac_len_def)
  qed
  let ?pid = "pid\<lparr>pid_send := p\<rparr>"
  have e: "encrypt_packet_id now pid (co_long_form co) b = Inr (?pid, b1)"
    using co pin b1(1) by (simp add: encrypt_packet_id_def control_opt_def)
  obtain b2 where b2: "hmac_sign (Some h) b1 = Inr b2" "buf_ok b2" "buf_contents b2 = h_mac h (buf_contents b1) @ buf_contents b1"
    using hmac_sign_ok [OF b1(2) kb(3) hd1] by blast
  let ?co = "co\<lparr>co_packet_id := Some ?pid\<rparr>"
  have "0 < b_len b" using length_buf_contents [OF b(1)] b(2,3) by simp
  then have enc: "openvpn_encrypt now [] b clear_buf co no_frame = Inr (b2, ?co)"
    using kb(1,2) co e b2(1) by (simp add: openvpn_encrypt_def control_opt_def Let_def)
  have k': "tls_auth_keys ?co False h" using k by (simp add: tls_auth_keys_def)
  have c2: "buf_contents b2 = (h_mac h (?p @ osid @ body) @ ?p) @ osid @ body" using b2(3) b1(3) by simp
  have l: "length (h_mac h (?p @ osid @ body) @ ?p) = hmac_len h" using lh lp by (simp add: hmac_len_def)
  obtain b3 where "swap_hmac b2 ?co False = Inr (True, b3)" "buf_ok b3"
      "buf_contents b3 = osid @ (h_mac h (?p @ osid @ body) @ ?p) @ body"
  proof -
    have len: "hmac_len h + 9 \<le> length (buf_contents b2)" using c2 l b(3) by simp
    have dr: "drop (hmac_len h) (buf_contents b2) = osid @ body" "take (hmac_len h) (buf_contents b2) = h_mac h (?p @ osid @ body) @ ?p"
      unfolding c2 using l by simp_all
    have "drop (hmac_len h + 9) (buf_contents b2) = drop 9 (drop (hmac_len h) (buf_contents b2))"
      by (simp add: add.commute)
    then have "drop (hmac_len h + 9) (buf_contents b2) = body" using dr(1) b(3) by simp
    then show ?thesis using that swap_hmac_ok [OF k' b2(2) refl refl] len dr b(3) by auto
  qed
  then show ?thesis using enc by (auto simp: control_packet_def)
qed

lemma write_control_auth_ok:
  assumes k: "tls_auth_keys (se_tls_auth s) False h" and co: "control_opt (se_tls_auth s) pid"
    and id: "unat (s_id (pid_send pid)) + 1 < 2 ^ 32" "packet_id_alloc_outgoing (tls_now w) (pid_send pid) True = Inr (p, pin)"
    and ack: "ack_ok (ks_rec_ack ks)" "sid_ok (ks_session_id_remote ks)" "session_id_defined (ks_session_id_remote ks)" "0 \<le> mx"
      "n = nat (min (int (a_len (ks_rec_ack ks))) mx)"
    and sid: "sid_ok (se_session_id s)" and addr: "link_socket_actual_defined (Some (ks_remote_addr ks))"
    and b: "buf_ok b" "(if prep then ACK_SIZE n else 0) + 9 + int (hmac_len h) \<le> b_offset b" "prep \<or> ACK_SIZE n \<le> int (buf_room b)"
  shows "\<exists>ack' out. write_control_auth w s ks b op mx prep =
      Inr (w, s\<lparr>se_tls_auth := (se_tls_auth s)\<lparr>co_packet_id := Some (pid\<lparr>pid_send := p\<rparr>), co_pid_persist := None\<rparr>\<rparr>, ks\<lparr>ks_rec_ack := ack'\<rparr>, out)
    \<and> buf_ok out \<and> ack_ok ack' \<and> ack_ids ack' = drop n (ack_ids (ks_rec_ack ks))
    \<and> buf_contents out = control_packet h pin (control_header ks op # sid_id (se_session_id s))
        (if prep then ack_bytes (take n (ack_ids (ks_rec_ack ks))) (ks_session_id_remote ks) @ buf_contents b
         else buf_contents b @ ack_bytes (take n (ack_ids (ks_rec_ack ks))) (ks_session_id_remote ks))"
proof -
  obtain kb where kb: "co_key_ctx_bi (se_tls_auth s) = Some kb" "kb_encrypt kb = \<lparr>k_cipher = None, k_hmac = Some h\<rparr>"
    using k by (auto simp: tls_auth_keys_def)
  have "0 \<le> ACK_SIZE n" by (simp add: ACK_SIZE_def)
  then have room: "ACK_SIZE n \<le> (if prep then int (buf_headroom b) else int (buf_room b))"
    using b buf_headroom_eq [OF b(1)] by auto
  obtain ack' b1 where b1: "reliable_ack_write (ks_rec_ack ks) b (ks_session_id_remote ks) mx prep = Inr (True, ack', b1)"
      "ack_ok ack'" "buf_ok b1" "ack_ids ack' = drop n (ack_ids (ks_rec_ack ks))"
      "buf_contents b1 = (if prep then ack_bytes (take n (ack_ids (ks_rec_ack ks))) (ks_session_id_remote ks) @ buf_contents b
         else buf_contents b @ ack_bytes (take n (ack_ids (ks_rec_ack ks))) (ks_session_id_remote ks))"
    using reliable_ack_write_ok [OF ack(1-3) b(1) ack(4,5) room] by blast
  have off: "9 + int (hmac_len h) \<le> b_offset b1"
  proof (cases prep)
    case True
    have "n \<le> a_len (ks_rec_ack ks)" using ack(5) by simp
    then have "length (take n (ack_ids (ks_rec_ack ks))) = n" using ack(1) by (simp add: ack_ids_def ack_ok_def)
    then have "int (length (ack_bytes (take n (ack_ids (ks_rec_ack ks))) (ks_session_id_remote ks))) = ACK_SIZE n"
      using length_ack_bytes [OF ack(2), of "take n (ack_ids (ks_rec_ack ks))"] by simp
    then have "b_len b1 = b_len b + ACK_SIZE n"
      using length_buf_contents [OF b1(3)] length_buf_contents [OF b(1)] b1(5) True \<open>0 \<le> ACK_SIZE n\<close> by simp
    then show ?thesis using True b(2) reliable_ack_write_place(2) [OF b1(1)] by simp
  next
    case False
    then show ?thesis using b(2) reliable_ack_write_place(2) [OF b1(1)] by simp
  qed
  have sl: "take SID_SIZE (sid_id (se_session_id s)) = sid_id (se_session_id s)" "length (sid_id (se_session_id s)) = 8"
    using sid by (simp_all add: sid_okD)
  obtain b2 where b2: "session_id_write_prepend (se_session_id s) b1 = (True, b2)" "buf_ok b2"
      "buf_contents b2 = sid_id (se_session_id s) @ buf_contents b1" "buf_headroom b2 = buf_headroom b1 - 8"
    using buf_write_prepend_ok [OF b1(3), of "sid_id (se_session_id s)"] sl buf_headroom_eq [OF b1(3)] off
    by (auto simp: session_id_write_prepend_def)
  let ?hd = "control_header ks op"
  obtain b3 where b3: "buf_write_prepend b2 [?hd] = (True, b3)" "buf_ok b3" "buf_contents b3 = ?hd # buf_contents b2"
      "buf_headroom b3 = buf_headroom b2 - 1"
  proof -
    have "1 \<le> buf_headroom b2" using b2(4) buf_headroom_eq [OF b1(3)] off by linarith
    then show ?thesis using that buf_write_prepend_ok [OF b2(2), of "[?hd]"] by auto
  qed
  then obtain q c where q: "buf_prepend b2 1 = (Some q, c)" "b3 = buf_put c q [?hd]"
    by (auto simp: buf_write_prepend_def split: option.splits prod.splits)
  have off3: "int (hmac_len h) \<le> b_offset b3"
    using buf_headroom_eq [OF b3(2)] b3(4) b2(4) buf_headroom_eq [OF b1(3)] off by linarith
  let ?osid = "?hd # sid_id (se_session_id s)"
  let ?co = "(se_tls_auth s)\<lparr>co_pid_persist := w_pid_persist w\<rparr>"
  have co': "tls_auth_keys ?co False h" "control_opt ?co pid"
    using k co by (simp_all add: tls_auth_keys_def control_opt_def co_long_form_def)
  have c3: "buf_contents b3 = ?osid @ buf_contents b1" "length ?osid = 9" using b3(3) b2(3) sl by simp_all
  obtain e1 e2 where e: "openvpn_encrypt (tls_now w) [] b3 clear_buf ?co no_frame = Inr (e1, ?co\<lparr>co_packet_id := Some (pid\<lparr>pid_send := p\<rparr>)\<rparr>)"
      "swap_hmac e1 (?co\<lparr>co_packet_id := Some (pid\<lparr>pid_send := p\<rparr>)\<rparr>) False = Inr (True, e2)" "buf_ok e2"
      "buf_contents e2 = control_packet h pin ?osid (buf_contents b1)"
    using encrypt_control_ok [OF co' b3(2) c3 off3 id] by blast
  have wp: "w\<lparr>w_pid_persist := w_pid_persist w\<rparr> = w" by (cases w) simp
  have "write_control_auth w s ks b op mx prep =
      Inr (w, s\<lparr>se_tls_auth := (se_tls_auth s)\<lparr>co_packet_id := Some (pid\<lparr>pid_send := p\<rparr>), co_pid_persist := None\<rparr>\<rparr>, ks\<lparr>ks_rec_ack := ack'\<rparr>, e2)"
    using addr b1(1) b2(1) q(1) kb e(1,2) unfolding write_control_auth_def Let_def
    by (simp add: q(2) [unfolded control_header_def, symmetric] wp)
  then show ?thesis using e(3,4) b1(2,4,5) by auto
qed

text \<open>C39. Control packets with \<open>--tls-auth\<close>: what one peer writes, with the acknowledgements it has pending, is accepted
  by the other when both use the same HMAC key in opposite directions and the packet id is new there; opcode and session id
  are in the clear in front, and what remains after the check is the acknowledgement record and the payload.\<close>

theorem control_auth_roundtrip:
  assumes "tls_auth_keys (se_tls_auth s) False h" "control_opt (se_tls_auth s) pid"
    and "unat (s_id (pid_send pid)) + 1 < 2 ^ 32" "packet_id_alloc_outgoing (tls_now w) (pid_send pid) True = Inr (p, pin)"
    and "ack_ok (ks_rec_ack ks)" "sid_ok (ks_session_id_remote ks)" "session_id_defined (ks_session_id_remote ks)" "0 \<le> mx"
      "n = nat (min (int (a_len (ks_rec_ack ks))) mx)"
    and "sid_ok (se_session_id s)" "link_socket_actual_defined (Some (ks_remote_addr ks))"
    and "buf_ok b" "ACK_SIZE n + 9 + int (hmac_len h) \<le> b_offset b"
    and "tls_auth_keys co True h" "control_opt co pid'"
      "packet_id_check now' (pid_rec pid') (packet_id_as_sent pin True) = Inr (True, r)"
  shows "\<exists>w' s' ks' out b' co'. write_control_auth w s ks b op mx True = Inr (w', s', ks', out)
    \<and> take 9 (buf_contents out) = control_header ks op # sid_id (se_session_id s)
    \<and> ack_ids (ks_rec_ack ks') = drop n (ack_ids (ks_rec_ack ks))
    \<and> read_control_auth now' out co = Inr (True, b', co')
    \<and> buf_contents b' = ack_bytes (take n (ack_ids (ks_rec_ack ks))) (ks_session_id_remote ks) @ buf_contents b"
proof -
  have room: "(if True then ACK_SIZE n else 0) + 9 + int (hmac_len h) \<le> b_offset b" "True \<or> ACK_SIZE n \<le> int (buf_room b)"
    using assms(13) by simp_all
  let ?osid = "control_header ks op # sid_id (se_session_id s)"
  let ?body = "ack_bytes (take n (ack_ids (ks_rec_ack ks))) (ks_session_id_remote ks) @ buf_contents b"
  obtain w' s' ack' out where o: "write_control_auth w s ks b op mx True = Inr (w', s', ks\<lparr>ks_rec_ack := ack'\<rparr>, out)" "buf_ok out"
      "ack_ids ack' = drop n (ack_ids (ks_rec_ack ks))" "buf_contents out = control_packet h pin ?osid ?body"
    using write_control_auth_ok [OF assms(1-12) room, of op] by auto
  have h: "hmac_ok h" using assms(1) by (simp add: tls_auth_keys_def)
  have l: "length ?osid = 9" using assms(10) by (simp add: sid_okD)
  note cp = control_packet_ok [OF h l, of pin ?body, folded o(4)]
  obtain b' co' where "read_control_auth now' out co = Inr (True, b', co')" "buf_contents b' = ?body"
    using read_control_auth_accepts [OF assms(14) o(2) cp(1) assms(15), unfolded cp(2,3), OF assms(16)] by auto
  then show ?thesis using o cp(4) by auto
qed

lemma clone_buf_ok:
  assumes "buf_ok b"
  shows "buf_ok (clone_buf junk b)" "buf_contents (clone_buf junk b) = buf_contents b" "b_len (clone_buf junk b) = b_len b"
proof -
  note inv = assms [unfolded buf_ok_def]
  have lb: "nat (b_offset b) + length (buf_contents b) \<le> length (malloc_block junk (nat (b_capacity b)))"
  proof -
    have "b_offset b + int (length (buf_contents b)) \<le> b_capacity b" "0 \<le> b_offset b"
      using inv length_buf_contents [OF assms] by linarith+
    then show ?thesis by (simp add: malloc_block_def)
  qed
  have "int (length (malloc_block junk (nat (b_capacity b)))) = b_capacity b"
    using inv by (simp add: malloc_block_def)
  then show ok: "buf_ok (clone_buf junk b)"
    using inv lb by (simp add: clone_buf_def buf_ok_def buf_block_def buf_put_def)
  have "mem_read (mem_write ds i bs) i (length bs) = bs" if "i + length bs \<le> length ds" for ds :: "byte list" and i bs
    using that by (intro nth_equalityI) (auto simp: nth_mem_read nth_mem_write)
  from this [OF lb] show "buf_contents (clone_buf junk b) = buf_contents b"
    using inv arg_cong [OF length_buf_contents [OF assms], of nat] unfolding buf_contents_def [of "clone_buf junk b"]
    by (auto simp: buf_len_def buf_valid_def clone_buf_def buf_block_def buf_put_def)
  show "b_len (clone_buf junk b) = b_len b" by (simp add: clone_buf_def)
qed

lemma first_byte_56: "uint (drop_bit 3 (c :: byte)) = 7 \<and> uint c AND 7 = 0 \<longleftrightarrow> c = 56"
proof -
  have "uint (drop_bit 3 c) = uint c div 8" by (simp add: drop_bit_eq_div uint_div)
  moreover have "uint c AND 7 = uint c mod 8"
    using take_bit_eq_mask [of 3 "uint c"] by (simp add: take_bit_eq_mod mask_eq_exp_minus_1)
  moreover have "uint c div 8 = 7 \<and> uint c mod 8 = 0 \<longleftrightarrow> uint c = 56" by presburger
  moreover have "uint c = 56 \<longleftrightarrow> c = 56" by (simp add: word_uint_eq_iff)
  ultimately show ?thesis by simp
qed

lemma read_control_auth_stateless:
  assumes k: "tls_auth_keys co True h" and b: "buf_ok b" and co: "co_packet_id co = None"
  shows "\<exists>b' co'. read_control_auth now b co = Inr (tls_auth_ok h (buf_contents b), b', co')"
proof (cases "tls_auth_ok h (buf_contents b)")
  case False
  then show ?thesis using read_control_auth_rejects [OF k b False, of now] by auto
next
  case True
  obtain kb where kb: "co_key_ctx_bi co = Some kb" "kb_decrypt kb = \<lparr>k_cipher = None, k_hmac = Some h\<rparr>" "hmac_ok h"
    using k by (auto simp: tls_auth_keys_def)
  let ?c = "buf_contents b"
  have len: "hmac_len h + 9 \<le> length ?c" using True by (simp add: tls_auth_ok_def)
  obtain b1 where b1: "swap_hmac b co True = Inr (True, b1)" "buf_ok b1"
      "buf_contents b1 = take (hmac_len h) (drop 9 ?c) @ take 9 ?c @ drop (9 + hmac_len h) ?c"
    using swap_hmac_ok [OF k b(1) refl refl] len by auto
  obtain rest b2 where b2: "buf_contents b1 = h_mac h rest @ rest" "hmac_verify (Some h) b1 = Inr (Inr b2)" "buf_ok b2" "buf_contents b2 = rest"
    using hmac_verify_ok [OF b1(2) kb(3)] swapped_authentic [OF kb(3) len] True unfolding b1(3) by blast
  have "length (h_mac h rest) = nat (h_size h)" using kb(3) unfolding hmac_ok_def by (metis nat_int)
  moreover have "length (buf_contents b1) = length ?c" using b1(3) len by simp
  ultimately have "0 < b_len b2" using length_buf_contents [OF b2(3)] b2(1,4) len by (simp add: hmac_len_def)
  moreover have "0 < b_len b1" using length_buf_contents [OF b1(2)] b1(3) len by auto
  ultimately show ?thesis using kb(1,2) b1(1) b2(2) co True
    by (simp add: read_control_auth_def openvpn_decrypt_def decrypt_open_def bind_exit_def decrypt_replay_def)
qed

text \<open>C40. The first packet of an unknown client passes the check of \<open>--tls-auth\<close> exactly when it is a hard reset of key
  method 2 with key id 0, is not larger than the control channel allows, and carries a correct HMAC over packet id,
  opcode, session id and payload.\<close>

theorem tls_pre_decrypt_lite_firewall:
  assumes k: "tls_auth_keys (tas_tls_auth_options tas) True h" "co_packet_id (tas_tls_auth_options tas) = None"
    and b: "buf_ok b"
  shows "tls_pre_decrypt_lite junk now tas b =
    Inr (b_len b > 0 \<and> hd (buf_contents b) = 56 \<and> b_len b \<le> EXPANDED_SIZE_DYNAMIC (tas_frame tas)
      \<and> tls_auth_ok h (buf_contents b))"
proof -
  let ?co = "(tas_tls_auth_options tas)\<lparr>co_flags := co_flags (tas_tls_auth_options tas) OR CO_IGNORE_PACKET_ID\<rparr>"
  have co: "tls_auth_keys ?co True h" "co_packet_id ?co = None" using k by (simp_all add: tls_auth_keys_def)
  obtain b' co' where r: "read_control_auth now (clone_buf junk b) ?co = Inr (tls_auth_ok h (buf_contents b), b', co')"
    using read_control_auth_stateless [OF co(1) clone_buf_ok(1) [OF b] co(2)] clone_buf_ok(2) [OF b] by metis
  show ?thesis
    using first_byte_56 [of "hd (buf_contents b)"] r
    by (auto simp: tls_pre_decrypt_lite_def Let_def P_CONTROL_HARD_RESET_CLIENT_V2_def P_KEY_ID_MASK_def P_OPCODE_SHIFT_def)
qed

section \<open>Examples\<close>

definition ex_auth :: "packet_id option \<Rightarrow> crypto_options" where
  "ex_auth pid = \<lparr>co_key_ctx_bi = Some \<lparr>kb_encrypt = \<lparr>k_cipher = None, k_hmac = Some ex_hmac\<rparr>,
                                   kb_decrypt = \<lparr>k_cipher = None, k_hmac = Some ex_hmac\<rparr>\<rparr>,
     co_packet_id = pid, co_pid_persist = None, co_flags = 1\<rparr>"

lemma ex_auth_keys: "tls_auth_keys (ex_auth pid) incoming ex_hmac"
  using ex_hmac_ok by (auto simp: tls_auth_keys_def ex_auth_def ex_hmac_def SWAP_BUF_SIZE_def)

definition ex_tas :: tls_auth_standalone where
  "ex_tas = \<lparr>tas_tls_auth_key = \<lparr>kb_encrypt = \<lparr>k_cipher = None, k_hmac = Some ex_hmac\<rparr>,
                                   kb_decrypt = \<lparr>k_cipher = None, k_hmac = Some ex_hmac\<rparr>\<rparr>,
     tas_tls_auth_options = ex_auth None, tas_frame = ex_frame\<lparr>f_link_mtu := 1545, f_link_mtu_dynamic := 1545\<rparr>\<rparr>"

definition ex_hello :: buffer where
  \<comment> \<open>a hard reset with session id 1 to 8, packet id 1 and time 100\<close>
  "ex_hello = \<lparr>b_capacity = 19, b_offset = 0, b_len = 19, b_data = Some [56, 1, 2, 3, 4, 5, 6, 7, 8, 17, 85, 0, 0, 0, 1, 0, 0, 0, 100]\<rparr>"

theorem tls_pre_decrypt_lite_firewall_witness: "tls_pre_decrypt_lite (\<lambda>_. 0) 100 ex_tas ex_hello = Inr True"
proof -
  have k: "tls_auth_keys (tas_tls_auth_options ex_tas) True ex_hmac" using ex_auth_keys [of None True] by (simp add: ex_tas_def)
  have "co_packet_id (tas_tls_auth_options ex_tas) = None" "buf_ok ex_hello" by code_simp+
  from tls_pre_decrypt_lite_firewall [OF k this, of "\<lambda>_. 0" 100] show ?thesis
    by code_simp
qed

definition ex_session :: "unit tls_session" where
  "ex_session = tls_session_clear\<lparr>se_tls_auth := ex_auth (Some (projr (packet_id_init 64 15))), se_session_id := \<lparr>sid_id = [1, 2, 3, 4, 5, 6, 7, 8]\<rparr>\<rparr>"

definition ex_ks :: "unit key_state" where
  "ex_ks = key_state_clear\<lparr>ks_session_id_remote := \<lparr>sid_id = [9, 9, 9, 9, 9, 9, 9, 9]\<rparr>,
     ks_remote_addr := link_socket_actual_zero\<lparr>la_dest := \<lparr>sa_family = 2, sa_port = 1194, sa_addr = 167772161\<rparr>\<rparr>,
     ks_rec_ack := \<lparr>a_len = 1, a_packet_id = 3 # replicate 7 0\<rparr>\<rparr>"

definition ex_world :: tls_world where
  "ex_world = \<lparr>w_clock = \<lparr>c_now = 100, c_now_adj = 0, c_now_usec = 0\<rparr>, w_reads = 0, w_draws = 0, w_mda_key_id_counter = 0, w_pid_persist = None\<rparr>"

theorem control_auth_roundtrip_witness:
  "\<exists>w' s' ks' out b' co'.
     write_control_auth ex_world ex_session ex_ks \<lparr>b_capacity = 64, b_offset = 40, b_len = 2, b_data = Some (replicate 40 0 @ [7, 8] @ replicate 22 0)\<rparr>
       P_CONTROL_V1 CONTROL_SEND_ACK_MAX True = Inr (w', s', ks', out)
     \<and> take 9 (buf_contents out) = [32, 1, 2, 3, 4, 5, 6, 7, 8]
     \<and> read_control_auth 101 out (ex_auth (Some (projr (packet_id_init 64 15)))) = Inr (True, b', co')
     \<and> buf_contents b' = [1, 0, 0, 0, 3, 9, 9, 9, 9, 9, 9, 9, 9, 7, 8]"
proof -
  let ?b = "\<lparr>b_capacity = 64, b_offset = 40, b_len = 2, b_data = Some (replicate 40 0 @ [7, 8] @ replicate 22 0)\<rparr>"
  let ?pid = "projr (packet_id_init 64 15)"
  have b: "buf_ok ?b" "buf_contents ?b = [7, 8]" by code_simp+
  have s: "se_tls_auth ex_session = ex_auth (Some ?pid)" "se_session_id ex_session = \<lparr>sid_id = [1, 2, 3, 4, 5, 6, 7, 8]\<rparr>"
    by (simp_all add: ex_session_def)
  have ks: "ack_ok (ks_rec_ack ex_ks)" "sid_ok (ks_session_id_remote ex_ks)" "session_id_defined (ks_session_id_remote ex_ks)"
      "link_socket_actual_defined (Some (ks_remote_addr ex_ks))" "a_len (ks_rec_ack ex_ks) = 1" "ack_ids (ks_rec_ack ex_ks) = [3]"
      "control_header ex_ks P_CONTROL_V1 = 32" "ack_bytes [3] (ks_session_id_remote ex_ks) = [1, 0, 0, 0, 3, 9, 9, 9, 9, 9, 9, 9, 9]"
    by code_simp+
  have pid: "s_id (pid_send ?pid) = 0"
      "packet_id_alloc_outgoing (tls_now ex_world) (pid_send ?pid) True = Inr (\<lparr>s_id = 1, s_time = 100\<rparr>, \<lparr>n_id = 1, n_time = 100\<rparr>)"
      "packet_id_check 101 (pid_rec ?pid) (packet_id_as_sent \<lparr>n_id = 1, n_time = 100\<rparr> True)
        = Inr (True, snd (projr (packet_id_check 101 (pid_rec ?pid) (packet_id_as_sent \<lparr>n_id = 1, n_time = 100\<rparr> True))))"
    by code_simp+
  have hl: "h_size ex_hmac = 2" by (simp add: ex_hmac_def)
  have co: "control_opt (ex_auth (Some ?pid)) ?pid" by (simp add: control_opt_def ex_auth_def co_long_form_def CO_PACKET_ID_LONG_FORM_def CO_IGNORE_PACKET_ID_def)
  have "\<exists>w' s' ks' out b' co'. write_control_auth ex_world ex_session ex_ks ?b P_CONTROL_V1 CONTROL_SEND_ACK_MAX True = Inr (w', s', ks', out)
     \<and> take 9 (buf_contents out) = control_header ex_ks P_CONTROL_V1 # sid_id (se_session_id ex_session)
     \<and> ack_ids (ks_rec_ack ks') = drop 1 (ack_ids (ks_rec_ack ex_ks))
     \<and> read_control_auth 101 out (ex_auth (Some ?pid)) = Inr (True, b', co')
     \<and> buf_contents b' = ack_bytes (take 1 (ack_ids (ks_rec_ack ex_ks))) (ks_session_id_remote ex_ks) @ buf_contents ?b"
    by (rule control_auth_roundtrip [where h = ex_hmac and p = "\<lparr>s_id = 1, s_time = 100\<rparr>", OF _ _ _ pid(2) [folded s(1)] ks(1-3) _ _ _ ks(4) b(1) _ _ co pid(3)])
       (simp_all add: s co ex_auth_keys pid(1) ks(5) CONTROL_SEND_ACK_MAX_def sid_ok_def SID_SIZE_def ACK_SIZE_def hmac_len_def hl)
  then show ?thesis unfolding ks(6,7) s(2) b(2) by (auto simp: ks(8))
qed

end
