(* ===== verification/Tls_Session.thy ===== *)
theory Tls_Session
  imports Tls_Auth
begin

text \<open>
  The life of keys and sessions (ssl.c): data to and from the TLS library, initialization, soft reset,
  and the moves between the three session slots of a \<open>tls_multi\<close> object.

  A key state or session that is freed without being cleared is overwritten by the caller; the fields which
  then hold dangling pointers keep their values here.
\<close>

section \<open>Data to and from the TLS library\<close>

definition is_hard_reset :: "int \<Rightarrow> int \<Rightarrow> bool" where
  "is_hard_reset op key_method \<longleftrightarrow>
     ((key_method = 0 \<or> key_method = 1) \<and> (op = P_CONTROL_HARD_RESET_CLIENT_V1 \<or> op = P_CONTROL_HARD_RESET_SERVER_V1))
     \<or> ((key_method = 0 \<or> key_method \<ge> 2) \<and> (op = P_CONTROL_HARD_RESET_CLIENT_V2 \<or> op = P_CONTROL_HARD_RESET_SERVER_V2))"

definition bio_write :: "('a \<Rightarrow> byte list \<Rightarrow> (int \<times> bool) \<times> 'b) \<Rightarrow> 'a \<Rightarrow> 'b \<Rightarrow> byte list \<Rightarrow> int \<times> 'b" where
  \<comment> \<open>\<open>f\<close> is \<open>BIO_write\<close>, \<open>y\<close> the state of the library when it is not called\<close>
  "bio_write f x y data =
     (if data \<noteq> []
      then (case f x data of ((i, retry), s) \<Rightarrow>
             (if i < 0 then (if retry then 0 else - 1)
              else if i \<noteq> int (length data) then - 1 else 1, s))
      else (0, y))"

definition bio_read :: "(int \<Rightarrow> (byte list + bool) \<times> 'b) \<Rightarrow> 'b \<Rightarrow> buffer \<Rightarrow> int \<Rightarrow> (int \<times> 'b \<times> buffer) result" where
  \<comment> \<open>\<open>f\<close> is \<open>BIO_read\<close> for a number of bytes\<close>
  "bio_read f y b maxlen =
     assert_that (b_len b \<ge> 0)
       (if b_len b \<noteq> 0 then Inr (0, y, b)
        else (let len = buf_forward_capacity b; len = (if maxlen < len then maxlen else len)
              in case f len of
                   (Inr retry, s) \<Rightarrow> Inr (if retry then (0, s, b) else (- 1, s, b\<lparr>b_len := 0\<rparr>))
                 | (Inl bs, s) \<Rightarrow>
                     Inr (if bs = [] then (0, s, b\<lparr>b_len := 0\<rparr>)
                          else (1, s, (buf_put b (b_offset b) bs)\<lparr>b_len := int (length bs)\<rparr>))))"

definition bio_write_post :: "int \<Rightarrow> buffer \<Rightarrow> buffer" where
  "bio_write_post status b =
     (if status = 1 then (buf_put b (b_offset b) (replicate (nat (buf_len b)) 0))\<lparr>b_len := 0\<rparr> else b)"

definition key_state_write_plaintext ::
    "'s tls_env \<Rightarrow> 's key_state \<Rightarrow> peer_cert \<Rightarrow> buffer \<Rightarrow> (int \<times> 's key_state \<times> peer_cert \<times> buffer) result" where
  "key_state_write_plaintext env ks pc b =
     (if buf_contents b = [] then Inr (0, ks, pc, bio_write_post 0 b)
      else case ks_ssl ks of
        None \<Rightarrow> Inl NullDeref
      | Some s \<Rightarrow>
          (case bio_write (\<lambda>(s, pc). te_write_pt env s pc) (s, pc) (s, pc) (buf_contents b) of
             (ret, s, pc) \<Rightarrow> Inr (ret, ks\<lparr>ks_ssl := Some s\<rparr>, pc, bio_write_post ret b)))"

definition key_state_write_plaintext_const ::
    "'s tls_env \<Rightarrow> 's key_state \<Rightarrow> peer_cert \<Rightarrow> byte list \<Rightarrow> (int \<times> 's key_state \<times> peer_cert) result" where
  "key_state_write_plaintext_const env ks pc data =
     (if data = [] then Inr (0, ks, pc)
      else case ks_ssl ks of
        None \<Rightarrow> Inl NullDeref
      | Some s \<Rightarrow>
          (case bio_write (\<lambda>(s, pc). te_write_pt env s pc) (s, pc) (s, pc) data of
             (ret, s, pc) \<Rightarrow> Inr (ret, ks\<lparr>ks_ssl := Some s\<rparr>, pc)))"

definition key_state_write_ciphertext :: "'s tls_env \<Rightarrow> 's key_state \<Rightarrow> buffer \<Rightarrow> (int \<times> 's key_state \<times> buffer) result" where
  "key_state_write_ciphertext env ks b =
     (if buf_contents b = [] then Inr (0, ks, bio_write_post 0 b)
      else case ks_ssl ks of
        None \<Rightarrow> Inl NullDeref
      | Some s \<Rightarrow>
          (case bio_write (te_write_ct env) s s (buf_contents b) of
             (ret, s) \<Rightarrow> Inr (ret, ks\<lparr>ks_ssl := Some s\<rparr>, bio_write_post ret b)))"

definition key_state_read_plaintext ::
    "'s tls_env \<Rightarrow> 's key_state \<Rightarrow> peer_cert \<Rightarrow> buffer \<Rightarrow> int \<Rightarrow> (int \<times> 's key_state \<times> peer_cert \<times> buffer) result" where
  "key_state_read_plaintext env ks pc b maxlen =
     (case ks_ssl ks of
        None \<Rightarrow> Inl NullDeref
      | Some s \<Rightarrow>
          bind_result (bio_read (te_read_pt env s pc) (s, pc) b maxlen)
            (\<lambda>(ret, (s, pc), b). Inr (ret, ks\<lparr>ks_ssl := Some s\<rparr>, pc, b)))"

definition key_state_read_ciphertext :: "'s tls_env \<Rightarrow> 's key_state \<Rightarrow> buffer \<Rightarrow> int \<Rightarrow> (int \<times> 's key_state \<times> buffer) result" where
  "key_state_read_ciphertext env ks b maxlen =
     (case ks_ssl ks of
        None \<Rightarrow> Inl NullDeref
      | Some s \<Rightarrow>
          bind_result (bio_read (te_read_ct env s) s b maxlen) (\<lambda>(ret, s, b). Inr (ret, ks\<lparr>ks_ssl := Some s\<rparr>, b)))"

fun flush_payload_loop :: "'s tls_env \<Rightarrow> 's key_state \<Rightarrow> peer_cert \<Rightarrow> buffer list \<Rightarrow> ('s key_state \<times> peer_cert) result" where
  \<comment> \<open>\<open>while ((b = buffer_list_peek (ks->paybuf)))\<close>\<close>
  "flush_payload_loop env ks pc [] = Inr (ks, pc)"
| "flush_payload_loop env ks pc (b # bs) =
     bind_result (key_state_write_plaintext_const env ks pc (mem_read (buf_block b) 0 (nat (b_len b)))) (\<lambda>(_, ks, pc).
       flush_payload_loop env (ks\<lparr>ks_paybuf := map_option buffer_list_pop (ks_paybuf ks)\<rparr>) pc bs)"

definition flush_payload_buffer :: "'s tls_env \<Rightarrow> 's key_state \<Rightarrow> peer_cert \<Rightarrow> ('s key_state \<times> peer_cert) result" where
  "flush_payload_buffer env ks pc =
     flush_payload_loop env ks pc (case ks_paybuf ks of None \<Rightarrow> [] | Some l \<Rightarrow> bl_entries l)"

section \<open>Key states\<close>

definition tls_junk :: "'s tls_env \<Rightarrow> tls_world \<Rightarrow> nat \<Rightarrow> nat \<Rightarrow> byte" where
  \<comment> \<open>initial contents of the blocks allocated between two readings of the clock\<close>
  "tls_junk env w k = te_junk env (32 * w_reads w + k)"

definition key_id_next :: "int \<Rightarrow> int" where
  \<comment> \<open>\<open>++session->key_id; session->key_id &= P_KEY_ID_MASK; if (!session->key_id) session->key_id = 1\<close>\<close>
  "key_id_next k = (let k = (k + 1) AND P_KEY_ID_MASK in if k = 0 then 1 else k)"

definition key_state_init ::
    "'s tls_env \<Rightarrow> tls_options \<Rightarrow> tls_world \<Rightarrow> 's tls_session \<Rightarrow> (tls_world \<times> 's tls_session) result" where
  \<comment> \<open>the key state is \<open>session->key[KS_PRIMARY]\<close> in both calls\<close>
  "key_state_init env opt w session =
     (let w = tls_update_time env w; junk = tls_junk env w; ks = key_state_clear
      in case te_ssl_new env (to_server opt) of
           None \<Rightarrow> Inl FatalError
         | Some s \<Rightarrow>
             (let ks = ks\<lparr>ks_ssl := Some s, ks_initial_opcode := se_initial_opcode session, ks_state := S_INITIAL,
                          ks_key_id := se_key_id session\<rparr>;
                  session = session\<lparr>se_initial_opcode := P_CONTROL_SOFT_RESET_V1, se_key_id := key_id_next (se_key_id session)\<rparr>
              in bind_result (alloc_buf (junk 0) TLS_CHANNEL_BUF_SIZE) (\<lambda>rb.
                 bind_result (alloc_buf (junk 1) TLS_CHANNEL_BUF_SIZE) (\<lambda>wb.
                 bind_result (alloc_buf (junk 2) (BUF_SIZE (to_frame opt))) (\<lambda>ab.
                 bind_result (reliable_init (\<lambda>i. junk (3 + i)) (BUF_SIZE (to_frame opt)) (FRAME_HEADROOM (to_frame opt))
                                TLS_RELIABLE_N_SEND_BUFFERS (if ks_key_id ks \<noteq> 0 then False else to_xmit_hold opt)) (\<lambda>snd.
                 bind_result (reliable_init (\<lambda>i. junk (11 + i)) (BUF_SIZE (to_frame opt)) (FRAME_HEADROOM (to_frame opt))
                                TLS_RELIABLE_N_REC_BUFFERS False) (\<lambda>rec.
                 bind_result (packet_id_init (to_replay_window opt) (to_replay_time opt)) (\<lambda>pid.
                   let ks = ks\<lparr>ks_plaintext_read_buf := rb, ks_plaintext_write_buf := wb, ks_ack_write_buf := ab,
                               ks_send_reliable := reliable_set_timeout snd (to_packet_timeout opt), ks_rec_reliable := rec,
                               ks_packet_id := pid, ks_mda_key_id := w_mda_key_id_counter w\<rparr>
                   in Inr (w\<lparr>w_mda_key_id_counter := w_mda_key_id_counter w + 1\<rparr>, session_key_set session KS_PRIMARY ks)))))))))"

definition key_state_rm_auth_control_file :: "'s key_state \<Rightarrow> 's key_state" where
  "key_state_rm_auth_control_file ks = ks\<lparr>ks_auth_control_file := None\<rparr>"

definition key_state_free :: "'s key_state \<Rightarrow> bool \<Rightarrow> 's key_state" where
  "key_state_free ks clear =
     (let ks = ks\<lparr>ks_state := S_UNDEF, ks_key := free_key_ctx_bi (ks_key ks), ks_plaintext_read_buf := free_buf (ks_plaintext_read_buf ks),
                  ks_plaintext_write_buf := free_buf (ks_plaintext_write_buf ks), ks_ack_write_buf := free_buf (ks_ack_write_buf ks),
                  ks_send_reliable := reliable_free (ks_send_reliable ks), ks_rec_reliable := reliable_free (ks_rec_reliable ks),
                  ks_packet_id := packet_id_free (ks_packet_id ks)\<rparr>;
          ks = key_state_rm_auth_control_file ks
      in if clear then key_state_clear else ks)"

section \<open>Sessions\<close>

partial_function (option) session_id_loop :: "'s tls_env \<Rightarrow> nat \<Rightarrow> session_id \<Rightarrow> (nat \<times> session_id) option" where
  \<comment> \<open>\<open>while (!session_id_defined (&session->session_id)) session_id_random (&session->session_id)\<close>\<close>
  [code]: "session_id_loop env i sid =
     (if session_id_defined sid then Some (i, sid) else session_id_loop env (i + 1) \<lparr>sid_id = te_prng env i\<rparr>)"

definition tls_session_init :: "'s tls_env \<Rightarrow> tls_options \<Rightarrow> tls_world \<Rightarrow> (tls_world \<times> 's tls_session) result" where
  "tls_session_init env opt w =
     (let session = tls_session_clear
      in bind_result (returns (map_option Inr (session_id_loop env (w_draws w) (se_session_id session)))) (\<lambda>(i, sid).
           let w = w\<lparr>w_draws := i\<rparr>
           in assert_that (to_key_method opt \<ge> 1)
                (let session = session\<lparr>se_session_id := sid,
                       se_initial_opcode :=
                         (if to_key_method opt = 1
                          then (if to_server opt then P_CONTROL_HARD_RESET_SERVER_V1 else P_CONTROL_HARD_RESET_CLIENT_V1)
                          else (if to_server opt then P_CONTROL_HARD_RESET_SERVER_V2 else P_CONTROL_HARD_RESET_CLIENT_V2)),
                       se_tls_auth := to_tls_auth opt\<rparr>
                 in bind_result (packet_id_init (to_replay_window opt) (to_replay_time opt)) (\<lambda>pid.
                      let pid = (case w_pid_persist w of None \<Rightarrow> pid | Some p \<Rightarrow> packet_id_persist_load_obj p pid)
                      in key_state_init env opt w
                           (session\<lparr>se_tls_auth := (se_tls_auth session)\<lparr>co_packet_id := Some pid\<rparr>\<rparr>)))))"

definition tls_session_free :: "'s tls_session \<Rightarrow> bool \<Rightarrow> 's tls_session" where
  "tls_session_free session clear =
     (let session = session\<lparr>se_tls_auth := (se_tls_auth session)\<lparr>co_packet_id := map_option packet_id_free (co_packet_id (se_tls_auth session))\<rparr>,
                            se_key := map (\<lambda>ks. key_state_free ks False) (se_key session)\<rparr>
      in if clear then tls_session_clear else session)"

definition move_session :: "'s tls_env \<Rightarrow> tls_world \<Rightarrow> 's tls_multi \<Rightarrow> nat \<Rightarrow> nat \<Rightarrow> bool \<Rightarrow> (tls_world \<times> 's tls_multi) result" where
  "move_session env w m dst src reinit_src =
     assert_that (src \<noteq> dst) (assert_that (src < TM_SIZE) (assert_that (dst < TM_SIZE)
       (let m = multi_session_set m dst (tls_session_free (multi_session m dst) False);
            m = multi_session_set m dst (multi_session m src)
        in if reinit_src
           then bind_result (tls_session_init env (tm_opt m) w) (\<lambda>(w, s). Inr (w, multi_session_set m src s))
           else Inr (w, multi_session_set m src tls_session_clear))))"

definition reset_session :: "'s tls_env \<Rightarrow> tls_world \<Rightarrow> 's tls_multi \<Rightarrow> nat \<Rightarrow> (tls_world \<times> 's tls_multi) result" where
  "reset_session env w m i =
     (let m = multi_session_set m i (tls_session_free (multi_session m i) False)
      in bind_result (tls_session_init env (tm_opt m) w) (\<lambda>(w, s). Inr (w, multi_session_set m i s)))"

definition compute_earliest_wakeup :: "int \<Rightarrow> int \<Rightarrow> int" where
  "compute_earliest_wakeup earliest seconds_from_now =
     (let earliest = (if seconds_from_now < earliest then seconds_from_now else earliest)
      in if earliest < 0 then 0 else earliest)"

definition lame_duck_must_die :: "time_t \<Rightarrow> 's tls_session \<Rightarrow> int \<Rightarrow> (bool \<times> int) result" where
  "lame_duck_must_die now session wakeup =
     (let lame = lame_duck session
      in if ks_state lame \<ge> S_INITIAL
         then assert_that (ks_must_die lame \<noteq> 0)
                (if now < ks_must_die lame then Inr (False, compute_earliest_wakeup wakeup (ks_must_die lame - now))
                 else Inr (True, wakeup))
         else if ks_state lame = S_ERROR then Inr (True, wakeup)
         else Inr (False, wakeup))"

definition tls_multi_init :: "tls_options \<Rightarrow> key_ctx_bi \<Rightarrow> 's tls_multi" where
  \<comment> \<open>the second argument is \<open>tls_options->tls_auth_key\<close>\<close>
  "tls_multi_init tls_options tls_auth_key =
     \<lparr>tm_opt = tls_options\<lparr>to_tls_auth := (to_tls_auth tls_options)\<lparr>co_key_ctx_bi := Some tls_auth_key\<rparr>\<rparr>,
      tm_save_ks = None, tm_to_link_addr = link_socket_actual_zero, tm_n_sessions = 0, tm_n_hard_errors = 0,
      tm_n_soft_errors = 0, tm_locked_cn = None, tm_locked_username = None, tm_locked_cert_hash_set = None,
      tm_client_reason = None, tm_peer_info = None, tm_tas_last = 0, tm_session = replicate TM_SIZE tls_session_clear\<rparr>"

definition tls_multi_init_finalize :: "'s tls_env \<Rightarrow> tls_world \<Rightarrow> 's tls_multi \<Rightarrow> frame \<Rightarrow> (tls_world \<times> 's tls_multi) result" where
  "tls_multi_init_finalize env w m frame =
     bind_result (tls_init_control_channel_frame_parameters frame (to_frame (tm_opt m))) (\<lambda>f.
       let m = m\<lparr>tm_opt := (tm_opt m)\<lparr>to_frame := f\<rparr>\<rparr>
       in bind_result (tls_session_init env (tm_opt m) w) (\<lambda>(w, s).
            let m = multi_session_set m TM_ACTIVE s
            in if \<not> to_single_session (tm_opt m)
               then bind_result (tls_session_init env (tm_opt m) w) (\<lambda>(w, s). Inr (w, multi_session_set m TM_UNTRUSTED s))
               else Inr (w, m)))"

definition tls_multi_init_set_options :: "'s tls_multi \<Rightarrow> cstr \<Rightarrow> cstr \<Rightarrow> 's tls_multi" where
  "tls_multi_init_set_options m local remote =
     m\<lparr>tm_opt := (tm_opt m)\<lparr>to_local_options := local, to_remote_options := remote\<rparr>\<rparr>"

definition key_state_soft_reset :: "'s tls_env \<Rightarrow> tls_options \<Rightarrow> tls_world \<Rightarrow> 's tls_session \<Rightarrow> (tls_world \<times> 's tls_session) result" where
  "key_state_soft_reset env opt w session =
     (let session = session_key_set session KS_PRIMARY ((primary session)\<lparr>ks_must_die := tls_now w + to_transition_window opt\<rparr>);
          session = session_key_set session KS_LAME_DUCK (key_state_free (lame_duck session) False);
          session = session_key_set session KS_LAME_DUCK (primary session)
      in bind_result (key_state_init env opt w session) (\<lambda>(w, session).
           Inr (w, session_key_set session KS_PRIMARY
             ((primary session)\<lparr>ks_session_id_remote := ks_session_id_remote (lame_duck session),
                                ks_remote_addr := ks_remote_addr (lame_duck session)\<rparr>))))"

end
