(* ===== verification/Tls_Verify.thy ===== *)
theory Tls_Verify
  imports Tls_Session Hash_Table
begin

text \<open>
  Who the peer is (ssl.c): the certificate callback, the common name and certificate hashes kept in a session and
  locked for the life of a \<open>tls_multi\<close> object, and the state of deferred authentication.

  What OpenSSL says of a certificate, the answers of plugins and scripts and the files they write are parameters
  (\<open>x509_cert\<close>, \<open>verify_options\<close>, \<open>auth_env\<close>); the environment variables that are set for them are left out.
\<close>

section \<open>Names and certificate hashes\<close>

definition X509_NAME_CHAR_CLASS :: u32 where
  "X509_NAME_CHAR_CLASS = CC_ALNUM OR CC_UNDERBAR OR CC_DASH OR CC_DOT OR CC_AT OR CC_COLON OR CC_SLASH OR CC_EQUAL"

definition COMMON_NAME_CHAR_CLASS :: u32 where
  "COMMON_NAME_CHAR_CLASS = CC_ALNUM OR CC_UNDERBAR OR CC_DASH OR CC_DOT OR CC_AT OR CC_SLASH"

definition string_mod_sslname :: "cstr \<Rightarrow> u32 \<Rightarrow> u32 \<Rightarrow> cstr" where
  "string_mod_sslname str restrictive_flags ssl_flags =
     snd (if ssl_flags AND SSLF_NO_NAME_REMAPPING \<noteq> 0 then string_mod str CC_PRINT CC_CRLF 95
          else string_mod str restrictive_flags 0 95)"

definition cert_hash_remember :: "peer_cert \<Rightarrow> int \<Rightarrow> byte list \<Rightarrow> peer_cert" where
  "cert_hash_remember pc error_depth sha1_hash =
     (if 0 \<le> error_depth \<and> error_depth < int MAX_CERT_DEPTH
      then (let ch = (case pc_cert_hash_set pc of None \<Rightarrow> replicate MAX_CERT_DEPTH None | Some ch \<Rightarrow> ch)
            in pc\<lparr>pc_cert_hash_set := Some (ch[nat error_depth := Some sha1_hash])\<rparr>)
      else pc)"

definition cert_hash_compare :: "byte list option list option \<Rightarrow> byte list option list option \<Rightarrow> bool" where
  "cert_hash_compare chs1 chs2 =
     (case (chs1, chs2) of
        (Some c1, Some c2) \<Rightarrow>
          list_all (\<lambda>(ch1, ch2). ch1 = None \<and> ch2 = None \<or> ch1 \<noteq> None \<and> ch1 = ch2) (zip c1 c2)
      | (None, None) \<Rightarrow> True
      | _ \<Rightarrow> False)"

definition cert_hash_copy :: "byte list option list option \<Rightarrow> byte list option list option" where
  "cert_hash_copy chs = map_option (map (map_option (\<lambda>h. h))) chs"

definition set_common_name :: "peer_cert \<Rightarrow> cstr option \<Rightarrow> peer_cert" where
  "set_common_name pc common_name =
     (let pc = (if pc_common_name pc \<noteq> None then pc\<lparr>pc_common_name := None, pc_common_name_hashval := 0\<rparr> else pc)
      in case common_name of
           None \<Rightarrow> pc
         | Some cn \<Rightarrow>
             pc\<lparr>pc_common_name := Some cn,
                pc_common_name_hashval :=
                  (if cn \<noteq> [] then hash_func (cn @ [0]) (word_of_nat (length cn) + 1) 0 else 0)\<rparr>)"

section \<open>The certificate callback\<close>

record x509_cert =
  xc_depth :: int                      \<comment> \<open>\<open>ctx->error_depth\<close>\<close>
  xc_subject :: "cstr option"          \<comment> \<open>\<open>X509_NAME_oneline\<close>\<close>
  xc_field :: "byte list option"       \<comment> \<open>the last entry of the user name field of the subject as UTF-8\<close>
  xc_sha1 :: "byte list"
  xc_ns_cert :: "u32 option"           \<comment> \<open>\<open>ex_nscert\<close> when the extension is present\<close>
  xc_ku :: "bool list option"          \<comment> \<open>bits 0 to 7 of the key usage\<close>
  xc_eku :: "(cstr option \<times> cstr option) list option"   \<comment> \<open>names and numbers of the extended key usages\<close>
  xc_issuer :: cstr
  xc_serial :: int

record x509_crl =
  crl_issuer :: cstr
  crl_revoked :: "int list"

record verify_options =
  vo_ssl_flags :: u32
  vo_ns_cert_type :: u32
  vo_remote_cert_ku :: "u32 list"
  vo_remote_cert_eku :: "cstr option"
  vo_verify_x509name :: "cstr option"
  vo_plugin :: "(int \<Rightarrow> cstr \<Rightarrow> bool) option"
  vo_script :: "(int \<Rightarrow> cstr \<Rightarrow> bool) option"
  vo_crl :: "x509_crl option option"   \<comment> \<open>\<open>Some None\<close>: the file cannot be read\<close>

definition extract_x509_field_ssl :: "byte list option \<Rightarrow> int \<Rightarrow> bool \<times> cstr" where
  \<comment> \<open>the result and \<open>out\<close>\<close>
  "extract_x509_field_ssl field size =
     (case field of
        None \<Rightarrow> (False, [])
      | Some bytes \<Rightarrow>
          if bytes = [] then (False, [])
          else (let s = cstr_of bytes in (int (length s) < size, take (nat (size - 1)) s)))" for size

fun eku_loop :: "cstr \<Rightarrow> (cstr option \<times> cstr option) list \<Rightarrow> bool" where
  "eku_loop expected_oid [] = False"
| "eku_loop expected_oid ((nm, num) # rest) =
     (if nm = Some expected_oid \<or> num = Some expected_oid then True else eku_loop expected_oid rest)"

definition verify_cert_eku :: "x509_cert \<Rightarrow> cstr \<Rightarrow> bool" where
  "verify_cert_eku x509 expected_oid = (case xc_eku x509 of None \<Rightarrow> False | Some eku \<Rightarrow> eku_loop expected_oid eku)"

fun ku_bits :: "nat \<Rightarrow> bool list \<Rightarrow> u32 \<Rightarrow> u32" where
  \<comment> \<open>\<open>nku |= 1 << (7 - i)\<close>\<close>
  "ku_bits i [] nku = nku"
| "ku_bits i (x # xs) nku = ku_bits (i + 1) xs (if x then nku OR push_bit (7 - i) 1 else nku)"

definition verify_cert_ku :: "x509_cert \<Rightarrow> u32 list \<Rightarrow> bool" where
  "verify_cert_ku x509 expected_ku =
     (case xc_ku x509 of
        None \<Rightarrow> False
      | Some bits \<Rightarrow>
          (let nku = ku_bits 0 (take 8 bits) 0;
               nku = (if nku AND 0xff = 0 then drop_bit 8 nku else nku)
           in list_ex (\<lambda>e. e \<noteq> 0 \<and> nku = e) expected_ku))"

definition verify_nsCertType :: "x509_cert \<Rightarrow> u32 \<Rightarrow> bool" where
  "verify_nsCertType x509 usage = (case xc_ns_cert x509 of None \<Rightarrow> False | Some t \<Rightarrow> t AND usage \<noteq> 0)"

definition verify_crl :: "x509_cert \<Rightarrow> x509_crl option \<Rightarrow> bool result" where
  \<comment> \<open>``check peer cert against CRL''; a file that cannot be read is fatal (\<open>M_ERR\<close>)\<close>
  "verify_crl x509 crl =
     (case crl of
        None \<Rightarrow> Inl FatalError
      | Some crl \<Rightarrow>
          if crl_issuer crl \<noteq> xc_issuer x509 then Inr True
          else Inr (\<not> list_ex (\<lambda>s. s = xc_serial x509) (crl_revoked crl)))"

definition verify_leaf :: "verify_options \<Rightarrow> x509_cert \<Rightarrow> cstr \<Rightarrow> cstr \<Rightarrow> bool" where
  \<comment> \<open>the tests that only concern the certificate at depth 0\<close>
  "verify_leaf vo x509 subject common_name =
     ((vo_ns_cert_type vo \<noteq> 0 \<and> xc_depth x509 = 0 \<longrightarrow> verify_nsCertType x509 (vo_ns_cert_type vo))
      \<and> (vo_remote_cert_ku vo ! 0 \<noteq> 0 \<and> xc_depth x509 = 0 \<longrightarrow> verify_cert_ku x509 (vo_remote_cert_ku vo))
      \<and> (case vo_remote_cert_eku vo of
           Some oid \<Rightarrow> xc_depth x509 = 0 \<longrightarrow> verify_cert_eku x509 oid
         | None \<Rightarrow> True)
      \<and> (case vo_verify_x509name vo of
           Some name \<Rightarrow> name \<noteq> [] \<and> xc_depth x509 = 0 \<longrightarrow> name = subject \<or> take (length name) common_name = name
         | None \<Rightarrow> True))"

definition verify_external :: "verify_options \<Rightarrow> x509_cert \<Rightarrow> cstr \<Rightarrow> bool" where
  \<comment> \<open>plugin and script\<close>
  "verify_external vo x509 subject =
     ((case vo_plugin vo of Some f \<Rightarrow> f (xc_depth x509) subject | None \<Rightarrow> True)
      \<and> (case vo_script vo of Some f \<Rightarrow> f (xc_depth x509) subject | None \<Rightarrow> True))"

definition verify_callback :: "verify_options \<Rightarrow> bool \<Rightarrow> x509_cert \<Rightarrow> peer_cert \<Rightarrow> (bool \<times> peer_cert) result" where
  \<comment> \<open>true accepts the certificate\<close>
  "verify_callback vo preverify_ok x509 pc =
     (let pc = pc\<lparr>pc_verified := False\<rparr>
      in case xc_subject x509 of
           None \<Rightarrow> Inr (False, pc)
         | Some subject \<Rightarrow>
             bind_result (string_replace_leading (string_mod_sslname subject X509_NAME_CHAR_CLASS (vo_ssl_flags vo)) 45 95) (\<lambda>subject.
               case extract_x509_field_ssl (xc_field x509) (int TLS_USERNAME_LEN) of
                 (ok, common_name) \<Rightarrow>
                   if \<not> ok \<and> xc_depth x509 = 0 then Inr (False, pc)
                   else (let common_name = string_mod_sslname common_name COMMON_NAME_CHAR_CLASS (vo_ssl_flags vo);
                             pc = cert_hash_remember pc (xc_depth x509) (xc_sha1 x509)
                         in if \<not> preverify_ok then Inr (False, pc)
                            else if xc_depth x509 \<ge> int MAX_CERT_DEPTH then Inr (False, pc)
                            else (let pc = (if xc_depth x509 = 0 then set_common_name pc (Some common_name) else pc);
                                      pc = pc\<lparr>pc_verify_maxlevel := max_int (pc_verify_maxlevel pc) (xc_depth x509)\<rparr>
                                  in if \<not> verify_leaf vo x509 subject common_name then Inr (False, pc)
                                     else if \<not> verify_external vo x509 subject then Inr (False, pc)
                                     else bind_result (case vo_crl vo of None \<Rightarrow> Inr True | Some crl \<Rightarrow> verify_crl x509 crl) (\<lambda>ok.
                                            if \<not> ok then Inr (False, pc) else Inr (True, pc\<lparr>pc_verified := True\<rparr>))))))"

section \<open>Names of a session\<close>

definition tls_set_common_name :: "'s tls_multi \<Rightarrow> cstr option \<Rightarrow> 's tls_multi" where
  "tls_set_common_name m common_name =
     (let s = multi_session m TM_ACTIVE in multi_session_set m TM_ACTIVE (s\<lparr>se_peer := set_common_name (se_peer s) common_name\<rparr>))"

definition tls_common_name :: "'s tls_multi \<Rightarrow> bool \<Rightarrow> cstr option" where
  "tls_common_name m null =
     (case pc_common_name (se_peer (multi_session m TM_ACTIVE)) of
        Some (c # cn) \<Rightarrow> Some (c # cn)
      | _ \<Rightarrow> if null then None else Some (map of_char ''UNDEF''))"

definition tls_common_name_hash :: "'s tls_multi \<Rightarrow> (cstr \<times> u32) option" where
  "tls_common_name_hash m =
     (let pc = se_peer (multi_session m TM_ACTIVE)
      in case pc_common_name pc of
           Some (c # cn) \<Rightarrow> Some (c # cn, pc_common_name_hashval pc)
         | _ \<Rightarrow> None)"

definition tls_lock_common_name :: "'s tls_multi \<Rightarrow> 's tls_multi" where
  "tls_lock_common_name m =
     (case pc_common_name (se_peer (multi_session m TM_ACTIVE)) of
        Some cn \<Rightarrow> if tm_locked_cn m = None then m\<lparr>tm_locked_cn := Some cn\<rparr> else m
      | None \<Rightarrow> m)"

definition tls_lock_cert_hash_set :: "'s tls_multi \<Rightarrow> 's tls_multi" where
  "tls_lock_cert_hash_set m =
     (case pc_cert_hash_set (se_peer (multi_session m TM_ACTIVE)) of
        Some chs \<Rightarrow> if tm_locked_cert_hash_set m = None then m\<lparr>tm_locked_cert_hash_set := cert_hash_copy (Some chs)\<rparr> else m
      | None \<Rightarrow> m)"

definition tls_deauthenticate :: "'s tls_multi \<Rightarrow> 's tls_multi" where
  "tls_deauthenticate m =
     m\<lparr>tm_session := map (\<lambda>s. s\<lparr>se_key := map (\<lambda>ks. ks\<lparr>ks_authenticated := False\<rparr>) (se_key s)\<rparr>) (tm_session m)\<rparr>"

definition tls_lock_username :: "'s tls_multi \<Rightarrow> cstr option \<Rightarrow> bool \<times> 's tls_multi" where
  "tls_lock_username m username =
     (case tm_locked_username m of
        Some locked \<Rightarrow> if username \<noteq> Some locked then (False, tls_deauthenticate m) else (True, m)
      | None \<Rightarrow> (True, if username \<noteq> None then m\<lparr>tm_locked_username := username\<rparr> else m))"

section \<open>Deferred authentication\<close>

record auth_env =
  ae_mgmt_def_auth :: bool             \<comment> \<open>\<open>management_enable_def_auth (management)\<close>\<close>
  ae_file :: "cstr \<Rightarrow> byte list option" \<comment> \<open>the files that can be opened\<close>
  ae_temp_file :: "cstr option"        \<comment> \<open>\<open>create_temp_file\<close>\<close>
  ae_plugin :: "(cstr \<Rightarrow> cstr \<Rightarrow> cstr option \<Rightarrow> int) option"   \<comment> \<open>a plugin for user name and password\<close>
  ae_script :: "cstr \<Rightarrow> cstr \<Rightarrow> cstr option \<Rightarrow> bool"           \<comment> \<open>the script, with the file it reads when there is one\<close>
  ae_plugin_final :: "(cstr option \<Rightarrow> bool) option"
  ae_user_pass :: "(cstr \<times> cstr) option"   \<comment> \<open>what the client sends\<close>
  ae_push_peer_info :: "(byte list \<times> cstr list) option"   \<comment> \<open>the MAC address and the environment\<close>

definition man_def_auth_set_client_reason :: "'s tls_multi \<Rightarrow> cstr option \<Rightarrow> 's tls_multi" where
  "man_def_auth_set_client_reason m client_reason =
     m\<lparr>tm_client_reason := (case client_reason of Some (c # cs) \<Rightarrow> Some (c # cs) | _ \<Rightarrow> None)\<rparr>"

definition man_def_auth_test :: "auth_env \<Rightarrow> 's key_state \<Rightarrow> u32" where
  "man_def_auth_test ae ks = (if ae_mgmt_def_auth ae then ks_mda_status ks else ACF_DISABLED)"

definition key_state_gen_auth_control_file :: "auth_env \<Rightarrow> 's key_state \<Rightarrow> 's key_state" where
  "key_state_gen_auth_control_file ae ks =
     (let ks = key_state_rm_auth_control_file ks
      in case ae_temp_file ae of Some acf \<Rightarrow> ks\<lparr>ks_auth_control_file := Some acf\<rparr> | None \<Rightarrow> ks)"

definition key_state_test_auth_control_file :: "auth_env \<Rightarrow> 's key_state \<Rightarrow> u32 \<times> 's key_state" where
  "key_state_test_auth_control_file ae ks =
     (case ks_auth_control_file ks of
        None \<Rightarrow> (ACF_DISABLED, ks)
      | Some fname \<Rightarrow>
          (let ret = ks_auth_control_status ks
           in if ret = ACF_UNDEFINED
              then (case ae_file ae fname of
                      None \<Rightarrow> (ret, ks)
                    | Some content \<Rightarrow>
                        (let ret = (case content of
                                      c # _ \<Rightarrow> if c = 49 then ACF_SUCCEEDED else if c = 48 then ACF_FAILED else ret
                                    | [] \<Rightarrow> ret)
                         in (ret, ks\<lparr>ks_auth_control_status := ret\<rparr>)))
              else (ret, ks)))"

definition TLS_AUTHENTICATION_SUCCEEDED :: int where "TLS_AUTHENTICATION_SUCCEEDED = 0"
definition TLS_AUTHENTICATION_FAILED :: int where "TLS_AUTHENTICATION_FAILED = 1"
definition TLS_AUTHENTICATION_DEFERRED :: int where "TLS_AUTHENTICATION_DEFERRED = 2"
definition TLS_AUTHENTICATION_UNDEFINED :: int where "TLS_AUTHENTICATION_UNDEFINED = 3"

definition acf_merge :: "u32 list" where
  "acf_merge =
     [ACF_UNDEFINED, ACF_UNDEFINED, ACF_UNDEFINED, ACF_FAILED,
      ACF_UNDEFINED, ACF_SUCCEEDED, ACF_SUCCEEDED, ACF_FAILED,
      ACF_UNDEFINED, ACF_SUCCEEDED, ACF_DISABLED, ACF_FAILED,
      ACF_FAILED, ACF_FAILED, ACF_FAILED, ACF_FAILED]"

definition tas_key :: "auth_env \<Rightarrow> time_t \<Rightarrow> 's key_state \<Rightarrow> (bool \<times> bool \<times> 's key_state) result" where
  \<comment> \<open>the body of the loop for an authenticated key: whether it sets \<open>success\<close> and \<open>deferred\<close>\<close>
  "tas_key ae now ks =
     (case key_state_test_auth_control_file ae ks of
        (s1, ks) \<Rightarrow>
          (let s2 = man_def_auth_test ae ks
           in assert_that (s1 < 4 \<and> s2 < 4)
                (let acf = acf_merge ! unat (push_bit 2 s1 + s2)
                 in if acf = ACF_SUCCEEDED \<or> acf = ACF_DISABLED then Inr (True, False, ks\<lparr>ks_auth_deferred := False\<rparr>)
                    else if acf = ACF_UNDEFINED then Inr (False, now < ks_auth_deferred_expire ks, ks)
                    else if acf = ACF_FAILED then Inr (False, False, ks\<lparr>ks_authenticated := False\<rparr>)
                    else Inl AssertFailed)))"

fun tas_loop :: "auth_env \<Rightarrow> time_t \<Rightarrow> (nat \<times> nat) list \<Rightarrow> 's tls_multi \<Rightarrow> bool \<Rightarrow> bool \<Rightarrow> bool \<Rightarrow>
    (bool \<times> bool \<times> bool \<times> 's tls_multi) result" where
  "tas_loop ae now [] m active success deferred = Inr (active, success, deferred, m)"
| "tas_loop ae now (p # ps) m active success deferred =
     (let ks = multi_key m p
      in if DECRYPT_KEY_ENABLED m ks
         then if ks_authenticated ks
              then bind_result (tas_key ae now ks) (\<lambda>(s, d, ks).
                     tas_loop ae now ps (multi_key_set m p ks) True (success \<or> s) (deferred \<or> d))
              else tas_loop ae now ps m True success deferred
         else tas_loop ae now ps m active success deferred)"

definition tls_authentication_status :: "auth_env \<Rightarrow> time_t \<Rightarrow> 's tls_multi \<Rightarrow> int \<Rightarrow> (int \<times> 's tls_multi) result" where
  "tls_authentication_status ae now m latency =
     (if latency \<noteq> 0 \<and> tm_tas_last m \<noteq> 0 \<and> tm_tas_last m + latency \<ge> now then Inr (TLS_AUTHENTICATION_UNDEFINED, m)
      else bind_result (tas_loop ae now key_scan (m\<lparr>tm_tas_last := now\<rparr>) False False False) (\<lambda>(active, success, deferred, m).
             Inr (if success then TLS_AUTHENTICATION_SUCCEEDED
                  else if \<not> active \<or> deferred then TLS_AUTHENTICATION_DEFERRED
                  else TLS_AUTHENTICATION_FAILED, m)))"

fun tak_loop :: "u32 \<Rightarrow> bool \<Rightarrow> (nat \<times> nat) list \<Rightarrow> 's tls_multi \<Rightarrow> bool \<Rightarrow> bool \<times> 's tls_multi" where
  "tak_loop mda_key_id auth [] m ret = (ret, m)"
| "tak_loop mda_key_id auth (p # ps) m ret =
     (let ks = multi_key m p
      in if ks_mda_key_id ks = mda_key_id
         then tak_loop mda_key_id auth ps (multi_key_set m p (ks\<lparr>ks_mda_status := (if auth then ACF_SUCCEEDED else ACF_FAILED)\<rparr>)) True
         else tak_loop mda_key_id auth ps m ret)"

definition tls_authenticate_key :: "'s tls_multi \<Rightarrow> u32 \<Rightarrow> bool \<Rightarrow> cstr option \<Rightarrow> bool \<times> 's tls_multi" where
  "tls_authenticate_key m mda_key_id auth client_reason =
     tak_loop mda_key_id auth key_scan (man_def_auth_set_client_reason m client_reason) False"

end
