(* ===== verification/Cert_Chain.thy ===== *)
theory Cert_Chain
  imports Tls_Verify
begin

text \<open>
  A whole certificate chain under \<open>verify_callback\<close> (ssl.c).  OpenSSL calls the function for one certificate after the
  other, down to the leaf at depth 0, with its own verdict, and stops when an answer is negative (\<open>chain_verify\<close>).  What is
  known of the peer when all answers were positive is the base of every later decision about it.
\<close>

fun chain_verify :: "verify_options \<Rightarrow> (bool \<times> x509_cert) list \<Rightarrow> peer_cert \<Rightarrow> (bool \<times> peer_cert) result" where
  "chain_verify vo [] pc = Inr (True, pc)"
| "chain_verify vo ((preverify_ok, x509) # calls) pc =
     bind_result (verify_callback vo preverify_ok x509 pc) (\<lambda>(accepted, pc).
       if accepted then chain_verify vo calls pc else Inr (False, pc))"

section \<open>What one accepted certificate shows\<close>

definition leaf_name :: "verify_options \<Rightarrow> x509_cert \<Rightarrow> cstr" where
  \<comment> \<open>the user name of a certificate\<close>
  "leaf_name vo x = string_mod_sslname (snd (extract_x509_field_ssl (xc_field x) (int TLS_USERNAME_LEN))) COMMON_NAME_CHAR_CLASS (vo_ssl_flags vo)"

definition subject_name :: "verify_options \<Rightarrow> x509_cert \<Rightarrow> cstr" where
  "subject_name vo x = string_replace_leading_loop (string_mod_sslname (the (xc_subject x)) X509_NAME_CHAR_CLASS (vo_ssl_flags vo)) 45 95"

definition not_revoked :: "verify_options \<Rightarrow> x509_cert \<Rightarrow> bool" where
  \<comment> \<open>a list of another issuer says nothing\<close>
  "not_revoked vo x = (\<forall>crl. vo_crl vo = Some crl \<longrightarrow>
     (\<exists>l. crl = Some l \<and> (crl_issuer l = xc_issuer x \<longrightarrow> xc_serial x \<notin> set (crl_revoked l))))"

definition leaf_usage_ok :: "verify_options \<Rightarrow> x509_cert \<Rightarrow> bool" where
  \<comment> \<open>the restrictions on the use of the key of the peer\<close>
  "leaf_usage_ok vo x =
     ((vo_ns_cert_type vo \<noteq> 0 \<longrightarrow> (\<exists>t. xc_ns_cert x = Some t \<and> t AND vo_ns_cert_type vo \<noteq> 0))
      \<and> (vo_remote_cert_ku vo ! 0 \<noteq> 0 \<longrightarrow> verify_cert_ku x (vo_remote_cert_ku vo))
      \<and> (\<forall>oid. vo_remote_cert_eku vo = Some oid \<longrightarrow>
           (\<exists>usages. xc_eku x = Some usages \<and> (\<exists>(nm, num) \<in> set usages. nm = Some oid \<or> num = Some oid))))"

definition leaf_name_ok :: "verify_options \<Rightarrow> x509_cert \<Rightarrow> bool" where
  \<comment> \<open>\<open>--tls-remote\<close>: the whole subject or a prefix of the user name\<close>
  "leaf_name_ok vo x = (\<forall>name. vo_verify_x509name vo = Some name \<longrightarrow> name = subject_name vo x \<or> (\<exists>rest. leaf_name vo x = name @ rest))"

definition hash_set_ok :: "peer_cert \<Rightarrow> bool" where
  "hash_set_ok pc = (\<forall>ch. pc_cert_hash_set pc = Some ch \<longrightarrow> length ch = MAX_CERT_DEPTH)"

definition cert_hash :: "peer_cert \<Rightarrow> int \<Rightarrow> byte list option" where
  "cert_hash pc d = (case pc_cert_hash_set pc of None \<Rightarrow> None | Some ch \<Rightarrow> ch ! nat d)"

lemma eku_loop_iff: "eku_loop oid usages \<longleftrightarrow> (\<exists>(nm, num) \<in> set usages. nm = Some oid \<or> num = Some oid)"
  by (induction oid usages rule: eku_loop.induct) auto

lemma verify_leaf_usage:
  assumes "verify_leaf vo x subject common_name" "xc_depth x = 0"
  shows "leaf_usage_ok vo x"
  using assms by (auto simp: verify_leaf_def leaf_usage_ok_def verify_nsCertType_def verify_cert_eku_def eku_loop_iff split: option.splits)

lemma verify_leaf_name:
  assumes "verify_leaf vo x (subject_name vo x) (leaf_name vo x)" "xc_depth x = 0"
  shows "leaf_name_ok vo x"
proof (unfold leaf_name_ok_def, intro allI impI)
  fix name assume n: "vo_verify_x509name vo = Some name"
  show "name = subject_name vo x \<or> (\<exists>rest. leaf_name vo x = name @ rest)"
  proof (cases "name = [] \<or> name = subject_name vo x")
    case False
    then have "take (length name) (leaf_name vo x) = name" using assms n by (auto simp: verify_leaf_def)
    then show ?thesis by (metis append_take_drop_id)
  qed auto
qed

lemma verify_crl_accepts: "vo_crl vo = Some crl \<Longrightarrow> verify_crl x crl = Inr True \<Longrightarrow> not_revoked vo x"
  by (auto simp: verify_crl_def not_revoked_def list_ex_iff split: option.splits if_splits)

lemma cert_hash_remember_fields [simp]:
  "pc_common_name (cert_hash_remember pc d h) = pc_common_name pc" "pc_verified (cert_hash_remember pc d h) = pc_verified pc"
  by (simp_all add: cert_hash_remember_def Let_def)

lemma cert_hash_remember_hash:
  assumes "hash_set_ok pc" "0 \<le> d" "d < int MAX_CERT_DEPTH"
  shows "hash_set_ok (cert_hash_remember pc d h) \<and> cert_hash (cert_hash_remember pc d h) d = Some h
    \<and> (0 \<le> e \<and> e < int MAX_CERT_DEPTH \<and> e \<noteq> d \<longrightarrow> cert_hash (cert_hash_remember pc d h) e = cert_hash pc e)"
proof -
  have "nat d < MAX_CERT_DEPTH" "e \<noteq> d \<Longrightarrow> 0 \<le> e \<Longrightarrow> nat d \<noteq> nat e" using assms(2,3) by auto
  then show ?thesis using assms
    by (auto simp: cert_hash_remember_def cert_hash_def hash_set_ok_def Let_def split: option.splits)
qed

lemma set_common_name_fields [simp]:
  "pc_common_name (set_common_name pc (Some cn)) = Some cn" "pc_cert_hash_set (set_common_name pc n) = pc_cert_hash_set pc"
  "pc_verified (set_common_name pc n) = pc_verified pc"
  by (simp_all add: set_common_name_def Let_def split: option.split)

lemma verify_callback_accepts:
  assumes "verify_callback vo ok x pc = Inr (True, pc')"
  shows "ok \<and> xc_depth x < int MAX_CERT_DEPTH \<and> not_revoked vo x \<and> verify_external vo x (subject_name vo x)
    \<and> (xc_depth x = 0 \<longrightarrow> leaf_usage_ok vo x \<and> leaf_name_ok vo x \<and> fst (extract_x509_field_ssl (xc_field x) (int TLS_USERNAME_LEN)))
    \<and> pc_verified pc' \<and> pc_common_name pc' = (if xc_depth x = 0 then Some (leaf_name vo x) else pc_common_name pc)
    \<and> pc_cert_hash_set pc' = pc_cert_hash_set (cert_hash_remember pc (xc_depth x) (xc_sha1 x))"
proof -
  obtain subject where s: "xc_subject x = Some subject"
    using assms by (auto simp: verify_callback_def Let_def split: option.splits)
  obtain e cn where e: "extract_x509_field_ssl (xc_field x) (int TLS_USERNAME_LEN) = (e, cn)" by fastforce
  have cn: "string_mod_sslname cn COMMON_NAME_CHAR_CLASS (vo_ssl_flags vo) = leaf_name vo x" by (simp add: leaf_name_def e)
  have sub: "string_replace_leading (string_mod_sslname subject X509_NAME_CHAR_CLASS (vo_ssl_flags vo)) 45 95 = Inr (subject_name vo x)"
    by (simp add: string_replace_leading_def subject_name_def s)
  have hs: "pc_cert_hash_set (cert_hash_remember (pc\<lparr>pc_verified := False\<rparr>) d h) = pc_cert_hash_set (cert_hash_remember pc d h)" for d h
    by (simp add: cert_hash_remember_def Let_def)
  have c: "(e \<or> xc_depth x \<noteq> 0) \<and> ok \<and> xc_depth x < int MAX_CERT_DEPTH \<and> verify_leaf vo x (subject_name vo x) (leaf_name vo x)
      \<and> verify_external vo x (subject_name vo x)
      \<and> (case vo_crl vo of None \<Rightarrow> Inr True | Some crl \<Rightarrow> verify_crl x crl) = Inr True"
    using assms by (auto simp: verify_callback_def s e cn sub Let_def bind_result_Inr split: if_splits)
  then have "not_revoked vo x" using verify_crl_accepts [of vo] by (auto simp: not_revoked_def split: option.splits)
  moreover have "pc_verified pc' \<and> pc_common_name pc' = (if xc_depth x = 0 then Some (leaf_name vo x) else pc_common_name pc)
      \<and> pc_cert_hash_set pc' = pc_cert_hash_set (cert_hash_remember pc (xc_depth x) (xc_sha1 x))"
    using assms c by (auto simp: verify_callback_def s e cn sub hs Let_def bind_result_Inr split: if_splits)
  ultimately show ?thesis using c verify_leaf_usage verify_leaf_name by (auto simp: e)
qed

section \<open>The chain\<close>

lemma chain_verify_accepts:
  assumes "chain_verify vo calls pc = Inr (True, pc')" "hash_set_ok pc" "\<forall>(ok, x) \<in> set calls. 0 \<le> xc_depth x"
    "distinct (map (xc_depth \<circ> snd) calls)"
  shows "(\<forall>(ok, x) \<in> set calls. ok \<and> not_revoked vo x \<and> verify_external vo x (subject_name vo x)
      \<and> (xc_depth x = 0 \<longrightarrow> leaf_usage_ok vo x \<and> leaf_name_ok vo x) \<and> cert_hash pc' (xc_depth x) = Some (xc_sha1 x))
    \<and> (\<forall>d. 0 \<le> d \<and> d < int MAX_CERT_DEPTH \<and> d \<notin> (xc_depth \<circ> snd) ` set calls \<longrightarrow> cert_hash pc' d = cert_hash pc d)"
  using assms
proof (induction calls arbitrary: pc)
  case (Cons c calls)
  obtain ok x where c: "c = (ok, x)" by fastforce
  obtain pc1 where v: "verify_callback vo ok x pc = Inr (True, pc1)" and r: "chain_verify vo calls pc1 = Inr (True, pc')"
    using Cons.prems(1) c by (auto simp: bind_result_Inr split: if_splits)
  note a = verify_callback_accepts [OF v]
  have d: "0 \<le> xc_depth x" "xc_depth x < int MAX_CERT_DEPTH" using Cons.prems(3) a c by auto
  have h: "cert_hash pc1 e = cert_hash (cert_hash_remember pc (xc_depth x) (xc_sha1 x)) e" for e using a by (simp add: cert_hash_def)
  note hr = cert_hash_remember_hash [OF Cons.prems(2) d]
  have ok1: "hash_set_ok pc1" using hr a by (simp add: hash_set_ok_def)
  have fresh: "xc_depth x \<notin> (xc_depth \<circ> snd) ` set calls" and dist: "distinct (map (xc_depth \<circ> snd) calls)"
    using Cons.prems(4) c by (auto simp: image_image comp_def)
  have pos: "\<forall>(ok, x) \<in> set calls. 0 \<le> xc_depth x" using Cons.prems(3) by simp
  note ih = Cons.IH [OF r ok1 pos dist]
  have "cert_hash pc' (xc_depth x) = Some (xc_sha1 x)" using ih fresh d hr h by metis
  moreover have "cert_hash pc' e = cert_hash pc e" if "0 \<le> e" "e < int MAX_CERT_DEPTH" "e \<notin> (xc_depth \<circ> snd) ` set (c # calls)" for e
  proof -
    have "e \<notin> (xc_depth \<circ> snd) ` set calls" "e \<noteq> xc_depth x" using that(3) c by auto
    then show ?thesis using ih that(1,2) hr h by metis
  qed
  ultimately show ?case using ih a c by auto
qed simp

lemma chain_verify_append:
  "chain_verify vo (xs @ ys) pc = bind_result (chain_verify vo xs pc) (\<lambda>(accepted, pc).
     if accepted then chain_verify vo ys pc else Inr (False, pc))"
proof (induction xs arbitrary: pc)
  case (Cons c xs)
  obtain ok x where c: "c = (ok, x)" by fastforce
  show ?case
  proof (cases "verify_callback vo ok x pc")
    case (Inr r)
    obtain acc pc1 where "r = (acc, pc1)" by fastforce
    then show ?thesis using Cons.IH [of pc1] Inr c by auto
  qed (simp add: c)
qed simp

lemma extract_field_length:
  assumes "extract_x509_field_ssl field n = (True, out)"
  shows "int (length out) < n \<and> 0 \<notin> set out \<and> (\<exists>bytes. field = Some bytes \<and> out = cstr_of bytes)"
proof -
  have "0 \<notin> set (cstr_of bs)" for bs :: "byte list" using set_takeWhileD [of 0 "\<lambda>c. c \<noteq> 0" bs] by (auto simp: cstr_of_def)
  then show ?thesis using assms by (auto simp: extract_x509_field_ssl_def Let_def split: option.splits if_splits)
qed

lemma leaf_name_chars:
  assumes "fst (extract_x509_field_ssl (xc_field x) (int TLS_USERNAME_LEN))"
  shows "length (leaf_name vo x) < TLS_USERNAME_LEN \<and> (\<forall>c \<in> set (leaf_name vo x).
    c \<noteq> 0 \<and> (if vo_ssl_flags vo AND SSLF_NO_NAME_REMAPPING = 0 then c = 95 \<or> char_class c COMMON_NAME_CHAR_CLASS else isprint c))"
proof -
  obtain cn where cn: "extract_x509_field_ssl (xc_field x) (int TLS_USERNAME_LEN) = (True, cn)" using assms by (metis prod.collapse)
  note f = extract_field_length [OF cn]
  have n: "leaf_name vo x = snd (if vo_ssl_flags vo AND SSLF_NO_NAME_REMAPPING \<noteq> 0 then string_mod cn CC_PRINT CC_CRLF 95
      else string_mod cn COMMON_NAME_CHAR_CLASS 0 95)" by (simp add: leaf_name_def string_mod_sslname_def cn)
  show ?thesis
  proof (cases "vo_ssl_flags vo AND SSLF_NO_NAME_REMAPPING = 0")
    case True
    obtain r out where s: "string_mod cn COMMON_NAME_CHAR_CLASS 0 95 = (r, out)" by fastforce
    show ?thesis using string_mod_sanitizes [OF _ s] f n True s by (auto simp: char_inc_exc_def)
  next
    case False
    obtain r out where s: "string_mod cn CC_PRINT CC_CRLF 95 = (r, out)" by fastforce
    show ?thesis using string_mod_sanitizes [OF _ s] f n False s by (auto simp: isprint_def)
  qed
qed

text \<open>C7. When every certificate of a chain has been accepted, OpenSSL found each of them correct, none of them is on the
  revocation list of its issuer, plugin and script agreed to each, the leaf has the key usage and the name the configuration
  asks for, and the session keeps the SHA1 hash of every certificate and the user name of the leaf, cut and cleaned: at most
  63 characters, none of them a null, and only those of the class that is allowed.\<close>

theorem accepted_chain:
  assumes acc: "chain_verify vo (calls @ [(ok, leaf)]) pc = Inr (True, pc')" and leaf: "xc_depth leaf = 0" and h: "hash_set_ok pc"
    and d: "\<forall>(ok, x) \<in> set calls. 0 < xc_depth x" "distinct (map (xc_depth \<circ> snd) calls)"
  shows "(\<forall>(ok', x) \<in> set (calls @ [(ok, leaf)]). ok' \<and> not_revoked vo x \<and> verify_external vo x (subject_name vo x)
      \<and> cert_hash pc' (xc_depth x) = Some (xc_sha1 x))
    \<and> leaf_usage_ok vo leaf \<and> leaf_name_ok vo leaf
    \<and> pc_verified pc' \<and> pc_common_name pc' = Some (leaf_name vo leaf) \<and> length (leaf_name vo leaf) < TLS_USERNAME_LEN
    \<and> (\<forall>c \<in> set (leaf_name vo leaf). c \<noteq> 0 \<and>
         (if vo_ssl_flags vo AND SSLF_NO_NAME_REMAPPING = 0 then c = 95 \<or> char_class c COMMON_NAME_CHAR_CLASS else isprint c))"
proof -
  have d': "\<forall>(ok', x) \<in> set (calls @ [(ok, leaf)]). 0 \<le> xc_depth x" "distinct (map (xc_depth \<circ> snd) (calls @ [(ok, leaf)]))"
    using d leaf by fastforce+
  obtain pc1 where v: "verify_callback vo ok leaf pc1 = Inr (True, pc')"
    using acc by (auto simp: chain_verify_append bind_result_Inr split: if_splits)
  note a = verify_callback_accepts [OF v]
  have "length (leaf_name vo leaf) < TLS_USERNAME_LEN \<and> (\<forall>c \<in> set (leaf_name vo leaf). c \<noteq> 0 \<and>
      (if vo_ssl_flags vo AND SSLF_NO_NAME_REMAPPING = 0 then c = 95 \<or> char_class c COMMON_NAME_CHAR_CLASS else isprint c))"
    by (rule leaf_name_chars) (use a leaf in simp)
  moreover have "\<forall>(ok', x) \<in> set (calls @ [(ok, leaf)]). ok' \<and> not_revoked vo x \<and> verify_external vo x (subject_name vo x)
      \<and> cert_hash pc' (xc_depth x) = Some (xc_sha1 x)"
    using conjunct1 [OF chain_verify_accepts [OF acc h d']] by fastforce
  ultimately show ?thesis using a leaf by simp
qed

definition ex_verify_options :: verify_options where
  \<comment> \<open>\<open>--ns-cert-type server --tls-remote vpn\<close> with a revocation list\<close>
  "ex_verify_options = \<lparr>vo_ssl_flags = 0, vo_ns_cert_type = 64, vo_remote_cert_ku = [0], vo_remote_cert_eku = None,
     vo_verify_x509name = Some [118, 112, 110], vo_plugin = None, vo_script = None,
     vo_crl = Some (Some \<lparr>crl_issuer = [67], crl_revoked = [5]\<rparr>)\<rparr>"

definition ex_x509 :: "int \<Rightarrow> cstr \<Rightarrow> x509_cert" where
  "ex_x509 depth name = \<lparr>xc_depth = depth, xc_subject = Some (47 # 67 # 78 # 61 # name), xc_field = Some name,
     xc_sha1 = [word_of_int depth, 9], xc_ns_cert = Some 64, xc_ku = None, xc_eku = None, xc_issuer = [67], xc_serial = depth + 1\<rparr>"

lemma verify_callback_complete:
  assumes "xc_subject x = Some subject" "xc_depth x = 0 \<Longrightarrow> fst (extract_x509_field_ssl (xc_field x) (int TLS_USERNAME_LEN))"
    "xc_depth x < int MAX_CERT_DEPTH" "verify_leaf vo x (subject_name vo x) (leaf_name vo x)"
    "verify_external vo x (subject_name vo x)" "vo_crl vo = Some crl" "verify_crl x crl = Inr True"
  shows "\<exists>pc'. verify_callback vo True x pc = Inr (True, pc')"
proof -
  obtain e cn where e: "extract_x509_field_ssl (xc_field x) (int TLS_USERNAME_LEN) = (e, cn)" by fastforce
  have cn: "string_mod_sslname cn COMMON_NAME_CHAR_CLASS (vo_ssl_flags vo) = leaf_name vo x" by (simp add: leaf_name_def e)
  have sub: "string_replace_leading (string_mod_sslname subject X509_NAME_CHAR_CLASS (vo_ssl_flags vo)) 45 95 = Inr (subject_name vo x)"
    by (simp add: string_replace_leading_def subject_name_def assms(1))
  show ?thesis using assms e by (auto simp: verify_callback_def cn sub Let_def)
qed

theorem accepted_chain_witness:
  "\<exists>pc'. chain_verify ex_verify_options [(True, ex_x509 1 [67, 65]), (True, ex_x509 0 [118, 112, 110, 33])] peer_cert_clear = Inr (True, pc')
     \<and> pc_common_name pc' = Some [118, 112, 110, 95] \<and> cert_hash pc' 1 = Some [1, 9]"
proof -
  let ?r = "chain_verify ex_verify_options ([(True, ex_x509 1 [67, 65])] @ [(True, ex_x509 0 [118, 112, 110, 33])]) peer_cert_clear"
  have crl: "vo_crl ex_verify_options = Some (Some \<lparr>crl_issuer = [67], crl_revoked = [5]\<rparr>)" by (simp add: ex_verify_options_def)
  have fld: "extract_x509_field_ssl (xc_field (ex_x509 0 [118, 112, 110, 33])) (int TLS_USERNAME_LEN) = (True, [118, 112, 110, 33])"
    by (simp add: ex_x509_def extract_x509_field_ssl_def cstr_of_def TLS_USERNAME_LEN_def)
  have n: "leaf_name ex_verify_options (ex_x509 0 [118, 112, 110, 33]) = [118, 112, 110, 95]"
    unfolding leaf_name_def fld by (simp add: ex_verify_options_def) code_simp
  have "\<exists>pc1. verify_callback ex_verify_options True (ex_x509 1 [67, 65]) peer_cert_clear = Inr (True, pc1)"
    by (rule verify_callback_complete [OF _ _ _ _ _ crl])
      (simp_all add: ex_x509_def ex_verify_options_def MAX_CERT_DEPTH_def verify_leaf_def verify_external_def verify_crl_def)
  then obtain pc1 where 1: "verify_callback ex_verify_options True (ex_x509 1 [67, 65]) peer_cert_clear = Inr (True, pc1)" by blast
  have "\<exists>pc'. verify_callback ex_verify_options True (ex_x509 0 [118, 112, 110, 33]) pc1 = Inr (True, pc')"
    by (rule verify_callback_complete [OF _ _ _ _ _ crl], unfold n fld)
      (simp_all add: ex_x509_def ex_verify_options_def MAX_CERT_DEPTH_def verify_leaf_def verify_external_def verify_crl_def
        verify_nsCertType_def)
  then obtain pc' where 0: "verify_callback ex_verify_options True (ex_x509 0 [118, 112, 110, 33]) pc1 = Inr (True, pc')" by blast
  have r: "?r = Inr (True, pc')" by (simp add: 0 1)
  have h: "hash_set_ok peer_cert_clear" by (simp add: hash_set_ok_def peer_cert_clear_def)
  show ?thesis using accepted_chain [OF r _ h] r n by (simp add: ex_x509_def)
qed

end
