(* ===== verification/Tls_Decrypt.thy ===== *)
theory Tls_Decrypt
  imports Tls_Session
begin

text \<open>
  Incoming packets in TLS mode (\<open>tls_pre_decrypt\<close> of ssl.c) and the choice of the data channel
  key in both directions (\<open>tls_pre_encrypt\<close>, \<open>tls_post_encrypt\<close>), with the step of forward.c that decrypts.

  The key chosen for a packet is returned as its place, since \<open>openvpn_decrypt\<close> changes the replay state of that key
  through the pointer in \<open>crypto_options\<close>; \<open>data_channel_put\<close> writes it back.  Of the management
  interface only the name of the connection state depends on these steps.
\<close>

section \<open>Choice of the data channel key\<close>

definition tls_key_matches :: "'s tls_multi \<Rightarrow> link_socket_actual \<Rightarrow> int \<Rightarrow> 's key_state \<Rightarrow> bool" where
  "tls_key_matches m src key_id ks \<longleftrightarrow>
     DECRYPT_KEY_ENABLED m ks \<and> key_id = ks_key_id ks \<and> ks_authenticated ks \<and> \<not> ks_auth_deferred ks
     \<and> link_socket_actual_match src (ks_remote_addr ks)"

definition tls_key_options :: "'s tls_multi \<Rightarrow> 's key_state \<Rightarrow> crypto_options \<Rightarrow> crypto_options" where
  "tls_key_options m ks opt =
     opt\<lparr>co_key_ctx_bi := Some (ks_key ks), co_packet_id := (if to_replay (tm_opt m) then Some (ks_packet_id ks) else None),
         co_pid_persist := None,
         co_flags := co_flags opt AND to_crypto_flags_and (tm_opt m) OR to_crypto_flags_or (tm_opt m)\<rparr>"

definition tls_no_key :: "'s tls_multi \<Rightarrow> crypto_options \<Rightarrow> crypto_options" where
  "tls_no_key m opt =
     opt\<lparr>co_key_ctx_bi := None, co_packet_id := None, co_pid_persist := None,
         co_flags := co_flags opt AND to_crypto_flags_and (tm_opt m)\<rparr>"

definition tls_pre_decrypt_data ::
    "'s tls_multi \<Rightarrow> link_socket_actual \<Rightarrow> buffer \<Rightarrow> crypto_options \<Rightarrow> int \<Rightarrow>
       ((nat \<times> nat) option \<times> 's tls_multi \<times> buffer \<times> crypto_options) result" where
  \<comment> \<open>the branch for \<open>P_DATA_V1\<close>; \<open>None\<close>: no key fits the packet\<close>
  "tls_pre_decrypt_data m src b opt key_id =
     (case find (\<lambda>p. tls_key_matches m src key_id (multi_key m p)) key_scan of
        None \<Rightarrow> Inr (None, m, b\<lparr>b_len := 0\<rparr>, tls_no_key m opt)
      | Some p \<Rightarrow>
          (let ks = multi_key m p
           in case buf_advance b 1 of (ok, b) \<Rightarrow>
                assert_that ok
                  (Inr (Some p,
                        multi_key_set m p (ks\<lparr>ks_n_packets := ks_n_packets ks + 1, ks_n_bytes := ks_n_bytes ks + word_of_int (b_len b)\<rparr>),
                        b, tls_key_options m ks opt))))"

definition encrypt_key_ok :: "'s key_state \<Rightarrow> bool" where
  "encrypt_key_ok ks \<longleftrightarrow> ks_state ks \<ge> S_ACTIVE \<and> ks_authenticated ks \<and> \<not> ks_auth_deferred ks"

fun encrypt_key_loop :: "time_t \<Rightarrow> 's tls_multi \<Rightarrow> (nat \<times> nat) option \<Rightarrow> (nat \<times> nat) list \<Rightarrow> (nat \<times> nat) option" where
  \<comment> \<open>the loop of \<open>tls_pre_encrypt\<close>, with \<open>ks_select\<close>\<close>
  "encrypt_key_loop now m sel [] = sel"
| "encrypt_key_loop now m sel (p # ps) =
     (let ks = multi_key m p
      in if encrypt_key_ok ks
         then if now \<ge> ks_auth_deferred_expire ks then Some p
              else encrypt_key_loop now m (if sel = None then Some p else sel) ps
         else encrypt_key_loop now m sel ps)"

definition tls_pre_encrypt ::
    "time_t \<Rightarrow> 's tls_multi \<Rightarrow> buffer \<Rightarrow> crypto_options \<Rightarrow> 's tls_multi \<times> buffer \<times> crypto_options" where
  "tls_pre_encrypt now m b opt =
     (let m = m\<lparr>tm_save_ks := None\<rparr>
      in case (if b_len b > 0 then encrypt_key_loop now m None key_scan else None) of
           Some p \<Rightarrow> (m\<lparr>tm_save_ks := Some p\<rparr>, b, tls_key_options m (multi_key m p) opt)
         | None \<Rightarrow> (m, b\<lparr>b_len := 0\<rparr>, tls_no_key m opt))"

definition tls_post_encrypt :: "'s tls_multi \<Rightarrow> buffer \<Rightarrow> ('s tls_multi \<times> buffer) result" where
  "tls_post_encrypt m b =
     (let save = tm_save_ks m; m = m\<lparr>tm_save_ks := None\<rparr>
      in if b_len b > 0
         then (case save of
                 None \<Rightarrow> Inl AssertFailed
               | Some p \<Rightarrow>
                   (case buf_prepend b 1 of
                      (None, b) \<Rightarrow> Inl AssertFailed
                    | (Some i, b) \<Rightarrow>
                        (let ks = multi_key m p;
                             b = buf_put b i [push_bit P_OPCODE_SHIFT (word_of_int P_DATA_V1) OR word_of_int (ks_key_id ks)]
                         in Inr (multi_key_set m p (ks\<lparr>ks_n_packets := ks_n_packets ks + 1,
                                    ks_n_bytes := ks_n_bytes ks + word_of_int (b_len b)\<rparr>), b))))
         else Inr (m, b))"

definition data_channel_put :: "'s tls_multi \<Rightarrow> (nat \<times> nat) option \<Rightarrow> crypto_options \<Rightarrow> 's tls_multi" where
  \<comment> \<open>what \<open>openvpn_encrypt\<close> and \<open>openvpn_decrypt\<close> did to \<open>*opt->packet_id\<close>\<close>
  "data_channel_put m p opt =
     (case (p, co_packet_id opt) of
        (Some p, Some pid) \<Rightarrow> multi_key_set m p ((multi_key m p)\<lparr>ks_packet_id := pid\<rparr>)
      | _ \<Rightarrow> m)"

section \<open>Control packets\<close>

definition session_control_auth ::
    "tls_world \<Rightarrow> 's tls_session \<Rightarrow> buffer \<Rightarrow> (bool \<times> tls_world \<times> 's tls_session \<times> buffer) result" where
  \<comment> \<open>\<open>read_control_auth (buf, &session->tls_auth, from)\<close>\<close>
  "session_control_auth w session b =
     bind_result (read_control_auth (tls_now w) b ((se_tls_auth session)\<lparr>co_pid_persist := w_pid_persist w\<rparr>)) (\<lambda>(ok, b, co).
       Inr (ok, w\<lparr>w_pid_persist := co_pid_persist co\<rparr>, session\<lparr>se_tls_auth := co\<lparr>co_pid_persist := None\<rparr>\<rparr>, b))"

definition tls_match_session :: "'s tls_multi \<Rightarrow> session_id \<Rightarrow> nat option" where
  \<comment> \<open>the loop over the sessions; \<open>None\<close> is \<open>goto error\<close>\<close>
  "tls_match_session m sid =
     (case find_index (\<lambda>s. session_id_equal (ks_session_id_remote (primary s)) sid) (tm_session m) of
        None \<Rightarrow> Some TM_SIZE
      | Some i \<Rightarrow> if i = TM_LAME_DUCK then None else Some i)"

definition tls_initial_packet ::
    "'s tls_multi \<Rightarrow> link_socket_actual \<Rightarrow> int \<Rightarrow> nat \<Rightarrow> ('s tls_multi \<times> nat \<times> bool) option" where
  \<comment> \<open>``initial packet received''; the results are \<open>multi\<close>, \<open>i\<close>, and \<open>do_burst\<close>, which equals \<open>new_link\<close>;
     \<open>None\<close> is \<open>goto error\<close>\<close>
  "tls_initial_packet m src op i =
     (if i = TM_SIZE \<and> is_hard_reset op 0
      then if \<not> is_hard_reset op (to_key_method (tm_opt m)) then None
           else (let session = multi_session m TM_ACTIVE
                 in if \<not> session_id_defined (ks_session_id_remote (primary session))
                    then if to_single_session (tm_opt m) \<and> tm_n_sessions m \<noteq> 0 then None
                         else Some (multi_session_set m TM_ACTIVE (session\<lparr>se_untrusted_addr := src\<rparr>), TM_ACTIVE, True)
                    else Some (m, i, False))
      else Some (m, i, False))"

definition tls_control_route ::
    "'s tls_env \<Rightarrow> tls_world \<Rightarrow> 's tls_multi \<Rightarrow> link_socket_actual \<Rightarrow> buffer \<Rightarrow> int \<Rightarrow> nat \<Rightarrow> bool \<Rightarrow>
       ((nat \<times> bool \<times> bool) option \<times> tls_world \<times> 's tls_multi \<times> buffer) result" where
  \<comment> \<open>authentication of the packet for session \<open>i\<close> or for a new one; the results are \<open>i\<close>,
     \<open>new_link\<close> and \<open>do_burst\<close>, or \<open>None\<close> for \<open>goto error\<close>\<close>
  "tls_control_route env w m src b op i new_link =
     (if i = TM_SIZE \<and> is_hard_reset op 0
      then (let session = multi_session m TM_UNTRUSTED
            in if to_single_session (tm_opt m) then Inr (None, w, m, b)
               else if \<not> is_hard_reset op (to_key_method (tm_opt m)) then Inr (None, w, m, b)
               else bind_result (session_control_auth w session b) (\<lambda>(ok, w, session, b).
                 if \<not> ok then Inr (None, w, multi_session_set m TM_UNTRUSTED session, b)
                 else Inr (Some (TM_UNTRUSTED, True, new_link), w,
                           multi_session_set m TM_UNTRUSTED (session\<lparr>se_untrusted_addr := src\<rparr>), b)))
      else if i \<noteq> TM_ACTIVE \<and> i \<noteq> TM_UNTRUSTED then Inr (None, w, m, b)
      else (let session = multi_session m i; ks = primary session
            in if \<not> new_link \<and> \<not> link_socket_actual_match (ks_remote_addr ks) src then Inr (None, w, m, b)
               else bind_result (session_control_auth w session b) (\<lambda>(ok, w, session, b).
                 if \<not> ok then Inr (None, w, multi_session_set m i session, b)
                 else if op = P_CONTROL_SOFT_RESET_V1 \<and> DECRYPT_KEY_ENABLED m ks
                 then bind_result (key_state_soft_reset env (tm_opt m) w session) (\<lambda>(w, session).
                        Inr (Some (i, new_link, new_link), w, multi_session_set m i session, b))
                 else Inr (Some (i, new_link, new_link \<or> op = P_CONTROL_SOFT_RESET_V1), w, multi_session_set m i session, b))))"

definition tls_control_process ::
    "time_t \<Rightarrow> 's tls_multi \<Rightarrow> link_socket_actual \<Rightarrow> buffer \<Rightarrow> int \<Rightarrow> int \<Rightarrow> session_id \<Rightarrow> nat \<Rightarrow> bool \<Rightarrow> bool \<Rightarrow>
       (bool \<times> 's tls_multi \<times> buffer) result" where
  \<comment> \<open>``pass to our reliability level''; the first result is false for \<open>goto error\<close>\<close>
  "tls_control_process now m src b op key_id sid i new_link do_burst =
     (let session = multi_session m i; ks = primary session
      in assert_that (ks_state ks \<noteq> S_UNDEF) (assert_that (ks_state ks \<noteq> S_ERROR)
         (assert_that (session_id_defined (se_session_id session))
           (if \<not> new_link \<and> \<not> link_socket_actual_match (ks_remote_addr ks) src then Inr (False, m, b)
            else
              (let m = (if new_link then m\<lparr>tm_n_sessions := tm_n_sessions m + 1\<rparr> else m);
                   ks = (if new_link then ks\<lparr>ks_session_id_remote := sid, ks_remote_addr := src\<rparr> else ks);
                   burst = do_burst \<and> \<not> se_burst session;
                   ks = (if burst then ks\<lparr>ks_send_reliable := reliable_schedule_now now (ks_send_reliable ks)\<rparr> else ks);
                   session = (if burst then session\<lparr>se_burst := True\<rparr> else session);
                   put = (\<lambda>ks. multi_session_set m i (session_key_set session KS_PRIMARY ks))
               in if ks_key_id ks \<noteq> key_id then Inr (False, put ks, b)
                  else case reliable_ack_read \<lparr>a_len = 0, a_packet_id = replicate RELIABLE_ACK_SIZE 0\<rparr> b (se_session_id session) of
                         (False, send_ack, b) \<Rightarrow> Inr (False, put ks, b)
                       | (True, send_ack, b) \<Rightarrow>
                           (let ks = ks\<lparr>ks_send_reliable := reliable_send_purge (ks_send_reliable ks) send_ack\<rparr>
                            in if op \<noteq> P_ACK_V1
                               then bind_result (tls_receive_control (ks_rec_reliable ks) (ks_rec_ack ks) b op) (\<lambda>(rel, ack).
                                      Inr (True, put (ks\<lparr>ks_rec_reliable := rel, ks_rec_ack := ack\<rparr>), b))
                               else Inr (True, put ks, b)))))))"

definition tls_packet_session_id :: "buffer \<Rightarrow> session_id option" where
  \<comment> \<open>``get remote session-id'', read from a copy of the buffer\<close>
  "tls_packet_session_id b =
     (case session_id_read x_session_id_zero (snd (buf_advance b 1)) of
        (ok, sid, _) \<Rightarrow> if \<not> ok \<or> \<not> session_id_defined sid then None else Some sid)"

definition tls_pre_decrypt_control ::
    "'s tls_env \<Rightarrow> tls_world \<Rightarrow> 's tls_multi \<Rightarrow> link_socket_actual \<Rightarrow> buffer \<Rightarrow> int \<Rightarrow> int \<Rightarrow>
       (bool \<times> bool \<times> tls_world \<times> 's tls_multi) result" where
  \<comment> \<open>the branch for control packets; the results are \<open>ret\<close> and whether it ends with \<open>goto error\<close>\<close>
  "tls_pre_decrypt_control env w m src b op key_id =
     (if op < P_FIRST_OPCODE \<or> op > P_LAST_OPCODE then Inr (False, True, w, m)
      else if is_hard_reset op 0
              \<and> ((op = P_CONTROL_HARD_RESET_CLIENT_V1 \<or> op = P_CONTROL_HARD_RESET_CLIENT_V2) \<and> \<not> to_server (tm_opt m)
                 \<or> (op = P_CONTROL_HARD_RESET_SERVER_V1 \<or> op = P_CONTROL_HARD_RESET_SERVER_V2) \<and> to_server (tm_opt m))
      then Inr (False, True, w, m)
      else case tls_packet_session_id b of
        None \<Rightarrow> Inr (False, True, w, m)
      | Some sid \<Rightarrow>
          (case tls_match_session m sid of
             None \<Rightarrow> Inr (False, True, w, m)
           | Some i \<Rightarrow>
               (case tls_initial_packet m src op i of
                  None \<Rightarrow> Inr (False, True, w, m)
                | Some (m, i, new_link) \<Rightarrow>
                    bind_result (tls_control_route env w m src b op i new_link) (\<lambda>(r, w, m, b).
                      case r of
                        None \<Rightarrow> Inr (False, True, w, m)
                      | Some (i, new_link, do_burst) \<Rightarrow>
                          bind_result (tls_control_process (tls_now w) m src b op key_id sid i new_link do_burst) (\<lambda>(ok, m, b).
                            Inr (True, \<not> ok, w, m))))))"

section \<open>Incoming packets\<close>

definition tls_pre_decrypt ::
    "'s tls_env \<Rightarrow> tls_world \<Rightarrow> 's tls_multi \<Rightarrow> link_socket_actual \<Rightarrow> buffer \<Rightarrow> crypto_options \<Rightarrow>
       (bool \<times> (nat \<times> nat) option \<times> tls_world \<times> 's tls_multi \<times> buffer \<times> crypto_options) result" where
  \<comment> \<open>\<open>ret\<close>, the key that was chosen, and the objects afterwards\<close>
  "tls_pre_decrypt env w m src b opt =
     (if b_len b > 0
      then (let c = hd (buf_contents b); op = uint (drop_bit P_OPCODE_SHIFT c); key_id = uint c AND P_KEY_ID_MASK
            in if op = P_DATA_V1
               then bind_result (tls_pre_decrypt_data m src b opt key_id) (\<lambda>(p, m, b, opt). Inr (False, p, w, m, b, opt))
               else bind_result (tls_pre_decrypt_control env w m src b op key_id) (\<lambda>(ret, err, w, m).
                      Inr (ret, None, w, (if err then m\<lparr>tm_n_soft_errors := tm_n_soft_errors m + 1\<rparr> else m),
                           b\<lparr>b_len := 0\<rparr>, tls_no_key m opt)))
      else Inr (False, None, w, m, b\<lparr>b_len := 0\<rparr>, tls_no_key m opt))"

definition tls_decrypt_packet ::
    "'s tls_env \<Rightarrow> tls_world \<Rightarrow> 's tls_multi \<Rightarrow> bool \<Rightarrow> link_socket_actual \<Rightarrow> buffer \<Rightarrow> buffer \<Rightarrow> crypto_options \<Rightarrow> frame \<Rightarrow>
       (bool \<times> bool \<times> tls_world \<times> 's tls_multi \<times> buffer \<times> crypto_options) result" where
  \<comment> \<open>\<open>process_incoming_link\<close> in TLS mode: whether it was a control packet (which resets the ping timers), and the
     status of \<open>openvpn_decrypt\<close>; \<open>cas\<close> is \<open>c->c2.context_auth == CAS_SUCCEEDED\<close>\<close>
  "tls_decrypt_packet env w m cas src b work opt frame =
     bind_result (tls_pre_decrypt env w m src b opt) (\<lambda>(ret, p, w, m, b, opt).
       bind_result (openvpn_decrypt (tls_now w) (if cas then b else b\<lparr>b_len := 0\<rparr>) work opt frame) (\<lambda>(status, b, opt).
         Inr (ret, status, w, data_channel_put m p opt, b, opt)))"

end
