(* ===== verification/Key_Method.thy ===== *)
theory Key_Method
  imports Tls_Verify
begin

text \<open>
  Key methods 1 and 2 (ssl.c): what the two peers tell each other through the TLS channel, the verification of user
  name and password, and the installation of the data channel keys.

  The messages are written to and read from the plaintext buffers of the primary key of a session.  A session is
  given by its index where the operation also changes other parts of the \<open>tls_multi\<close> object.
\<close>

section \<open>Key method 1\<close>

definition key_method_1_write ::
    "'s tls_env \<Rightarrow> tls_options \<Rightarrow> tls_world \<Rightarrow> 's key_state \<Rightarrow> (bool \<times> tls_world \<times> 's key_state) result" where
  "key_method_1_write env opt w ks =
     assert_that (to_key_method opt = 1)
       (case buf_init (ks_plaintext_write_buf ks) 0 of (ok, b) \<Rightarrow>
          assert_that ok
            (let kt = to_key_type opt; put = (\<lambda>b. ks\<lparr>ks_plaintext_write_buf := b\<rparr>)
             in bind_result (returns (generate_key_random (te_des env) (te_rand env) (w_draws w) (Some kt))) (\<lambda>(key, i).
                  let w = w\<lparr>w_draws := i\<rparr>
                  in bind_result (check_key (te_des env) key kt) (\<lambda>ok.
                       if \<not> ok then Inr (False, w, put b)
                       else bind_result (write_key key kt b) (\<lambda>(ok, b).
                         if \<not> ok then Inr (False, w, put b)
                         else bind_result (init_key_ctx key kt) (\<lambda>ctx.
                           let ks = (put b)\<lparr>ks_key := (ks_key ks)\<lparr>kb_encrypt := ctx\<rparr>\<rparr>
                           in case buf_write b (to_local_options opt @ [0]) of
                                (ok, b) \<Rightarrow> Inr (ok, w, ks\<lparr>ks_plaintext_write_buf := b\<rparr>)))))))"

definition key_method_1_read :: "'s tls_env \<Rightarrow> tls_options \<Rightarrow> bool \<Rightarrow> 's key_state \<Rightarrow> (bool \<times> 's key_state) result" where
  \<comment> \<open>the third argument is \<open>session->verified\<close>; the comparison of the options only gives a warning\<close>
  "key_method_1_read env opt verified ks =
     assert_that (to_key_method opt = 1)
       (let b = ks_plaintext_read_buf ks; kt = to_key_type opt;
            err = (\<lambda>b. Inr (False, ks\<lparr>ks_plaintext_read_buf := buf_clear b\<rparr>))
        in if \<not> verified then err b
           else bind_result (read_key kt b) (\<lambda>(status, key, b).
             if status \<noteq> 1 then err b
             else bind_result (check_key (te_des env) key kt) (\<lambda>ok.
               if \<not> ok then err b
               else if b_len b < 1 then err b
               else bind_result (init_key_ctx key kt) (\<lambda>ctx.
                 Inr (True, ks\<lparr>ks_plaintext_read_buf := buf_clear b, ks_key := (ks_key ks)\<lparr>kb_decrypt := ctx\<rparr>,
                               ks_authenticated := True\<rparr>)))))"

section \<open>Key method 2: writing\<close>

definition PACKAGE_VERSION :: cstr where "PACKAGE_VERSION = map of_char ''2.2.1''"

fun push_env_loop :: "cstr list \<Rightarrow> buffer \<Rightarrow> buffer" where
  "push_env_loop [] out = out"
| "push_env_loop (e # es) out =
     push_env_loop es
       (if take 3 e = map of_char ''UV_'' \<and> buf_safe out (int (length e) + 1) then snd (buf_printf out (e @ [10])) else out)"

definition push_peer_info :: "(nat \<Rightarrow> byte) \<Rightarrow> (nat \<Rightarrow> byte) \<Rightarrow> auth_env \<Rightarrow> buffer \<Rightarrow> (bool \<times> buffer) result" where
  \<comment> \<open>\<open>junk\<close> and \<open>junk'\<close> are the initial contents of the two allocated blocks\<close>
  "push_peer_info junk junk' ae b =
     (case ae_push_peer_info ae of
        None \<Rightarrow> Inr (write_empty_string b)
      | Some (macaddr, es) \<Rightarrow>
          bind_result (alloc_buf junk (512 * 3)) (\<lambda>out.
            let out = snd (buf_printf out (map of_char ''IV_VER='' @ PACKAGE_VERSION @ [10]));
                out = snd (buf_printf out (map of_char ''IV_PLAT=linux'' @ [10]))
            in bind_result (format_hex_ex junk' macaddr 0 1 (Some [58])) (\<lambda>hw.
                 let out = snd (buf_printf out (map of_char ''IV_HWADDR='' @ hw @ [10]));
                     out = push_env_loop es out
                 in Inr (write_string b (cstr_of (drop (nat (b_offset out)) (buf_block out))) (- 1)))))"

definition write_user_pass :: "auth_env \<Rightarrow> buffer \<Rightarrow> bool \<times> buffer" where
  \<comment> \<open>``write username/password if specified''\<close>
  "write_user_pass ae b =
     (case (case ae_user_pass ae of Some (u, p) \<Rightarrow> write_string b u (- 1) | None \<Rightarrow> write_empty_string b) of
        (False, b) \<Rightarrow> (False, b)
      | (True, b) \<Rightarrow> (case ae_user_pass ae of Some (u, p) \<Rightarrow> write_string b p (- 1) | None \<Rightarrow> write_empty_string b))"

definition key_method_2_message ::
    "'s tls_env \<Rightarrow> auth_env \<Rightarrow> tls_options \<Rightarrow> tls_world \<Rightarrow> key_source2 \<Rightarrow> buffer \<Rightarrow>
       (bool \<times> tls_world \<times> key_source2 \<times> buffer) result" where
  \<comment> \<open>\<open>key_method_2_write\<close> up to the peer info\<close>
  "key_method_2_message env ae opt w k2 b =
     (case buf_write_u32 b 0 of
        (False, b) \<Rightarrow> Inr (False, w, k2, b)
      | (True, b) \<Rightarrow>
          (case buf_write_u8 b (to_key_method opt AND KEY_METHOD_MASK) of
             (False, b) \<Rightarrow> Inr (False, w, k2, b)
           | (True, b) \<Rightarrow>
               bind_result (key_source2_randomize_write (te_rand env) (w_draws w) k2 b (to_server opt)) (\<lambda>(ok, k2, i, b).
                 let w = w\<lparr>w_draws := i\<rparr>
                 in if \<not> ok then Inr (False, w, k2, b)
                    else case write_string b (to_local_options opt) (int TLS_OPTIONS_LEN) of
                           (False, b) \<Rightarrow> Inr (False, w, k2, b)
                         | (True, b) \<Rightarrow>
                             (case write_user_pass ae b of
                                (False, b) \<Rightarrow> Inr (False, w, k2, b)
                              | (True, b) \<Rightarrow>
                                  bind_result (push_peer_info (tls_junk env w 0) (tls_junk env w 1) ae b) (\<lambda>(ok, b). Inr (ok, w, k2, b))))))"

definition key_method_2_write ::
    "'s tls_env \<Rightarrow> auth_env \<Rightarrow> tls_options \<Rightarrow> tls_world \<Rightarrow> session_id \<Rightarrow> 's key_state \<Rightarrow>
       (bool \<times> tls_world \<times> 's key_state) result" where
  \<comment> \<open>the fifth argument is \<open>session->session_id\<close>\<close>
  "key_method_2_write env ae opt w sid ks =
     assert_that (to_key_method opt = 2)
       (case buf_init (ks_plaintext_write_buf ks) 0 of (ok, b) \<Rightarrow>
          assert_that ok
            (bind_result (key_method_2_message env ae opt w (ks_key_src ks) b) (\<lambda>(ok, w, k2, b).
               let ks = ks\<lparr>ks_plaintext_write_buf := b, ks_key_src := k2\<rparr>
               in if \<not> ok then Inr (False, w, ks\<lparr>ks_key_src := key_source2_clear\<rparr>)
                  else if \<not> to_server opt then Inr (True, w, ks)
                  else if \<not> ks_authenticated ks then Inr (True, w, ks\<lparr>ks_key_src := key_source2_clear\<rparr>)
                  else bind_result
                         (returns (generate_key_expansion (te_md5 env) (te_sha1 env) (te_des env) (tls_junk env w 2) (to_key_type opt)
                            (ks_key_src ks) (ks_session_id_remote ks) sid True))
                         (\<lambda>r. case r of
                            None \<Rightarrow> Inr (False, w, ks\<lparr>ks_key_src := key_source2_clear\<rparr>)
                          | Some key \<Rightarrow> Inr (True, w, ks\<lparr>ks_key := key, ks_key_src := key_source2_clear\<rparr>)))))"

section \<open>Verification of user name and password\<close>

definition KMDA_ERROR :: int where "KMDA_ERROR = 0"
definition KMDA_SUCCESS :: int where "KMDA_SUCCESS = 1"
definition KMDA_UNDEF :: int where "KMDA_UNDEF = 2"
definition KMDA_DEF :: int where "KMDA_DEF = 3"

definition OPENVPN_PLUGIN_FUNC_SUCCESS :: int where "OPENVPN_PLUGIN_FUNC_SUCCESS = 0"
definition OPENVPN_PLUGIN_FUNC_ERROR :: int where "OPENVPN_PLUGIN_FUNC_ERROR = 1"
definition OPENVPN_PLUGIN_FUNC_DEFERRED :: int where "OPENVPN_PLUGIN_FUNC_DEFERRED = 2"

definition username_ok :: "tls_options \<Rightarrow> cstr \<Rightarrow> bool" where
  \<comment> \<open>\<open>(ssl_flags & SSLF_AUTH_USER_PASS_OPTIONAL) || strlen (up->username)\<close>\<close>
  "username_ok opt username \<longleftrightarrow> to_ssl_flags opt AND SSLF_AUTH_USER_PASS_OPTIONAL \<noteq> 0 \<or> username \<noteq> []"

definition verify_user_pass_script :: "auth_env \<Rightarrow> tls_options \<Rightarrow> cstr option \<Rightarrow> cstr \<Rightarrow> cstr \<Rightarrow> bool" where
  "verify_user_pass_script ae opt cn username password = (if username_ok opt username then ae_script ae username password cn else False)"

definition verify_user_pass_plugin ::
    "auth_env \<Rightarrow> tls_options \<Rightarrow> cstr option \<Rightarrow> (cstr \<Rightarrow> cstr \<Rightarrow> cstr option \<Rightarrow> int) \<Rightarrow> cstr \<Rightarrow> cstr \<Rightarrow> cstr \<Rightarrow> 's key_state \<Rightarrow> int \<times> 's key_state" where
  "verify_user_pass_plugin ae opt cn plugin_call username password raw_username ks =
     (if username_ok opt username
      then (let ks = key_state_gen_auth_control_file ae ks;
                retval = plugin_call raw_username password cn
            in (retval, if retval \<noteq> OPENVPN_PLUGIN_FUNC_DEFERRED then key_state_rm_auth_control_file ks else ks))
      else (OPENVPN_PLUGIN_FUNC_ERROR, ks))"

definition verify_user_pass_management :: "tls_options \<Rightarrow> cstr \<Rightarrow> int" where
  "verify_user_pass_management opt username = (if username_ok opt username then KMDA_SUCCESS else KMDA_ERROR)"

section \<open>Key method 2: reading\<close>

definition options_cmp_equal :: "cstr \<Rightarrow> cstr \<Rightarrow> bool" where
  "options_cmp_equal actual expected = (if take 2 actual \<noteq> take 2 expected then True else actual = expected)"

definition CCD_DEFAULT :: cstr where "CCD_DEFAULT = map of_char ''DEFAULT''"

definition gen_path :: "cstr option \<Rightarrow> cstr option \<Rightarrow> cstr option" where
  \<comment> \<open>the buffer has room for the whole path\<close>
  "gen_path directory filename =
     (case string_mod_const filename (CC_ALNUM OR CC_UNDERBAR OR CC_DASH OR CC_DOT OR CC_AT) 0 95 of
        None \<Rightarrow> None
      | Some safe_filename \<Rightarrow>
          if safe_filename \<noteq> [46] \<and> safe_filename \<noteq> [46, 46]
          then Some ((case directory of Some d \<Rightarrow> d @ [47] | None \<Rightarrow> []) @ safe_filename)
          else None)"

definition test_file :: "auth_env \<Rightarrow> cstr option \<Rightarrow> bool" where
  "test_file ae filename = (case filename of None \<Rightarrow> False | Some f \<Rightarrow> ae_file ae f \<noteq> None)"

abbreviation multi_primary :: "'s tls_multi \<Rightarrow> nat \<Rightarrow> 's key_state" where
  "multi_primary m i \<equiv> multi_key m (i, KS_PRIMARY)"

abbreviation multi_primary_set :: "'s tls_multi \<Rightarrow> nat \<Rightarrow> 's key_state \<Rightarrow> 's tls_multi" where
  "multi_primary_set m i \<equiv> multi_key_set m (i, KS_PRIMARY)"

definition multi_peer :: "'s tls_multi \<Rightarrow> nat \<Rightarrow> peer_cert" where
  "multi_peer m i = se_peer (multi_session m i)"

definition multi_peer_set :: "'s tls_multi \<Rightarrow> nat \<Rightarrow> peer_cert \<Rightarrow> 's tls_multi" where
  "multi_peer_set m i pc = multi_session_set m i ((multi_session m i)\<lparr>se_peer := pc\<rparr>)"

definition set_authenticated :: "'s tls_multi \<Rightarrow> nat \<Rightarrow> bool \<Rightarrow> 's tls_multi" where
  "set_authenticated m i a = multi_primary_set m i ((multi_primary m i)\<lparr>ks_authenticated := a\<rparr>)"

definition read_user_pass :: "tls_options \<Rightarrow> buffer \<Rightarrow> (cstr \<times> cstr) option \<times> buffer" where
  \<comment> \<open>user name and password, \<open>None\<close> is \<open>goto error\<close>\<close>
  "read_user_pass opt b =
     (case read_string b USER_PASS_LEN of (u, b) \<Rightarrow>
        (case read_string b USER_PASS_LEN of (p, b) \<Rightarrow>
           (case (u, p) of
              (Some u, Some p) \<Rightarrow> (Some (u, p), b)
            | _ \<Rightarrow> (if to_ssl_flags opt AND SSLF_AUTH_USER_PASS_OPTIONAL = 0 then None else Some ([], []), b))))"

definition user_pass_verdict ::
    "auth_env \<Rightarrow> 's tls_multi \<Rightarrow> nat \<Rightarrow> cstr \<Rightarrow> cstr \<Rightarrow> 's tls_multi" where
  \<comment> \<open>from the user name and password as read to \<open>ks->authenticated\<close>\<close>
  "user_pass_verdict ae m i username password =
     (let opt = tm_opt m; ks = multi_primary m i; cn = pc_common_name (multi_peer m i);
          raw_username = snd (string_mod username CC_PRINT CC_CRLF 95);
          username = string_mod_sslname username COMMON_NAME_CHAR_CLASS (to_ssl_flags opt);
          password = snd (string_mod password CC_PRINT CC_CRLF 95);
          man_def_auth = (if ae_mgmt_def_auth ae then verify_user_pass_management opt username else KMDA_UNDEF);
          (s1, ks) = (case ae_plugin ae of
                        Some plugin_call \<Rightarrow> verify_user_pass_plugin ae opt cn plugin_call username password raw_username ks
                      | None \<Rightarrow> (OPENVPN_PLUGIN_FUNC_SUCCESS, ks));
          s2 = (if to_auth_user_pass_verify_script opt then verify_user_pass_script ae opt cn username password else True);
          s1 = (if to_ssl_flags opt AND SSLF_USERNAME_AS_COMMON_NAME \<noteq> 0 \<and> length username \<ge> TLS_USERNAME_LEN
                then OPENVPN_PLUGIN_FUNC_ERROR else s1);
          m = multi_primary_set m i ks
      in if (s1 = OPENVPN_PLUGIN_FUNC_SUCCESS \<or> s1 = OPENVPN_PLUGIN_FUNC_DEFERRED) \<and> s2 \<and> man_def_auth \<noteq> KMDA_ERROR
         then (case tls_lock_username m (Some username) of
                 (False, m) \<Rightarrow> m
               | (True, m) \<Rightarrow>
                   (let ks = multi_primary m i;
                        ks = ks\<lparr>ks_authenticated := True,
                                ks_auth_deferred := (ks_auth_deferred ks \<or> s1 = OPENVPN_PLUGIN_FUNC_DEFERRED \<or> man_def_auth \<noteq> KMDA_UNDEF)\<rparr>;
                        m = multi_primary_set m i ks
                    in if to_ssl_flags opt AND SSLF_USERNAME_AS_COMMON_NAME \<noteq> 0
                       then multi_peer_set m i (set_common_name (multi_peer m i) (Some username)) else m))
         else m)"

definition check_locked_cn :: "'s tls_multi \<Rightarrow> nat \<Rightarrow> 's tls_multi" where
  "check_locked_cn m i =
     (case tm_locked_cn m of
        None \<Rightarrow> m
      | Some locked \<Rightarrow>
          if ks_authenticated (multi_primary m i)
          then (case pc_common_name (multi_peer m i) of
                  None \<Rightarrow> m
                | Some cn \<Rightarrow>
                    if cn \<noteq> locked
                    then tls_deauthenticate (multi_peer_set m i (set_common_name (multi_peer m i) (Some locked)))
                    else m)
          else m)"

definition check_locked_cert_hash_set :: "'s tls_multi \<Rightarrow> nat \<Rightarrow> 's tls_multi" where
  "check_locked_cert_hash_set m i =
     (if ks_authenticated (multi_primary m i) \<and> tm_locked_cert_hash_set m \<noteq> None
         \<and> pc_cert_hash_set (multi_peer m i) \<noteq> None \<and> \<not> cert_hash_compare (pc_cert_hash_set (multi_peer m i)) (tm_locked_cert_hash_set m)
      then tls_deauthenticate m else m)"

definition check_client_config_dir :: "auth_env \<Rightarrow> 's tls_multi \<Rightarrow> nat \<Rightarrow> 's tls_multi" where
  "check_client_config_dir ae m i =
     (if ks_authenticated (multi_primary m i) \<and> to_client_config_dir_exclusive (tm_opt m) \<noteq> None
      then (let cn = pc_common_name (multi_peer m i); path = gen_path (to_client_config_dir_exclusive (tm_opt m)) cn
            in if cn = None \<or> cn = Some CCD_DEFAULT \<or> \<not> test_file ae path then set_authenticated m i False else m)
      else m)"

definition check_remote_options :: "'s tls_multi \<Rightarrow> nat \<Rightarrow> cstr \<Rightarrow> 's tls_multi" where
  "check_remote_options m i options =
     (if \<not> to_disable_occ (tm_opt m) \<and> \<not> options_cmp_equal options (to_remote_options (tm_opt m))
         \<and> to_ssl_flags (tm_opt m) AND SSLF_OPT_VERIFY \<noteq> 0
      then set_authenticated m i False else m)"

definition check_plugin_final :: "auth_env \<Rightarrow> 's tls_multi \<Rightarrow> nat \<Rightarrow> 's tls_multi" where
  "check_plugin_final ae m i =
     (case ae_plugin_final ae of
        Some plugin_call \<Rightarrow>
          if ks_authenticated (multi_primary m i) \<and> \<not> plugin_call (pc_common_name (multi_peer m i))
          then set_authenticated m i False else m
      | None \<Rightarrow> m)"

definition key_method_2_authenticate ::
    "auth_env \<Rightarrow> 's tls_multi \<Rightarrow> nat \<Rightarrow> buffer \<Rightarrow> (bool \<times> 's tls_multi \<times> buffer)" where
  \<comment> \<open>``should we check username/password?''; the first result is false for \<open>goto error\<close>\<close>
  "key_method_2_authenticate ae m i b =
     (let m = set_authenticated m i False
      in if to_auth_user_pass_verify_script (tm_opt m) \<or> ae_plugin ae \<noteq> None \<or> ae_mgmt_def_auth ae
         then (case read_user_pass (tm_opt m) b of
                 (None, b) \<Rightarrow> (False, m, b)
               | (Some (username, password), b) \<Rightarrow>
                   (case read_string_alloc b of
                      (info, b) \<Rightarrow> (True, user_pass_verdict ae (m\<lparr>tm_peer_info := info\<rparr>) i username password, b)))
         else if \<not> pc_verified (multi_peer m i) then (False, m, b)
         else (True, set_authenticated m i True, b))"

definition key_method_2_checks :: "auth_env \<Rightarrow> 's tls_multi \<Rightarrow> nat \<Rightarrow> cstr \<Rightarrow> 's tls_multi" where
  \<comment> \<open>from the common name to the final plugin\<close>
  "key_method_2_checks ae m i options =
     (let m = (if pc_common_name (multi_peer m i) = None
               then multi_peer_set m i (set_common_name (multi_peer m i) (Some [])) else m);
          m = check_locked_cn m i;
          m = check_locked_cert_hash_set m i;
          m = check_client_config_dir ae m i;
          m = check_remote_options m i options
      in check_plugin_final ae m i)"

definition key_method_2_read ::
    "'s tls_env \<Rightarrow> auth_env \<Rightarrow> tls_world \<Rightarrow> 's tls_multi \<Rightarrow> nat \<Rightarrow> (bool \<times> 's tls_multi) result" where
  "key_method_2_read env ae w m i =
     (let opt = tm_opt m; ks = multi_primary m i;
          err = (\<lambda>m b. Inr (False, multi_primary_set m i ((multi_primary m i)\<lparr>ks_key_src := key_source2_clear, ks_plaintext_read_buf := buf_clear b\<rparr>)))
      in assert_that (to_key_method opt = 2)
        (case buf_advance (ks_plaintext_read_buf ks) 4 of (ok, b) \<Rightarrow>
          assert_that ok
           (case buf_read_u8 b of (flags, b) \<Rightarrow>
             if flags AND KEY_METHOD_MASK \<noteq> 2 then err m b
             else case key_source2_read (ks_key_src ks) b (to_server opt) of
                (ok, k2, b) \<Rightarrow>
                  (let m = multi_primary_set m i (ks\<lparr>ks_key_src := k2\<rparr>)
                   in if \<not> ok then err m b
                      else case read_string b TLS_OPTIONS_LEN of
                        (None, b) \<Rightarrow> err m b
                      | (Some options, b) \<Rightarrow>
                          (case key_method_2_authenticate ae m i b of
                             (False, m, b) \<Rightarrow> err m b
                           | (True, m, b) \<Rightarrow>
                               (let m = key_method_2_checks ae m i options;
                                    ks = (multi_primary m i)\<lparr>ks_plaintext_read_buf := buf_clear b\<rparr>
                                in if to_server opt then Inr (True, multi_primary_set m i ks)
                                   else bind_result
                                          (returns (generate_key_expansion (te_md5 env) (te_sha1 env) (te_des env) (tls_junk env w 2)
                                             (to_key_type opt) (ks_key_src ks) (se_session_id (multi_session m i)) (ks_session_id_remote ks) False))
                                          (\<lambda>r. case r of
                                             None \<Rightarrow> err (multi_primary_set m i ks) (ks_plaintext_read_buf ks)
                                           | Some key \<Rightarrow> Inr (True, multi_primary_set m i (ks\<lparr>ks_key := key, ks_key_src := key_source2_clear\<rparr>)))))))))"

end
