(* ===== verification/Tls_Process.thy ===== *)
theory Tls_Process
  imports Tls_Decrypt Key_Method
begin

text \<open>
  The state machine of the keys (\<open>tls_process\<close>, \<open>tls_multi_process\<close> of ssl.c).

  One pass of the loop of \<open>tls_process\<close> is the composition of its steps, each a function on \<open>tls_step\<close>, the variables
  of the function and the objects it changes; a step may leave the loop with \<open>break\<close> or \<open>goto error\<close> (\<open>flow\<close>).
  A packet to send is a copy of the buffer of the reliable layer: the two share one block in the code, but
  \<open>write_control_auth\<close> only writes to the room in front of the payload, which nobody reads.
  Messages to the management interface about the state of the connection are left out.
\<close>

section \<open>Steps\<close>

datatype 'a flow = Next 'a | Break 'a | Error 'a

fun and_then :: "'a flow result \<Rightarrow> ('a \<Rightarrow> 'a flow result) \<Rightarrow> 'a flow result" where
  "and_then (Inl e) g = Inl e"
| "and_then (Inr (Next x)) g = g x"
| "and_then (Inr (Break x)) g = Inr (Break x)"
| "and_then (Inr (Error x)) g = Inr (Error x)"

record 's tls_step =
  ts_world :: tls_world
  ts_multi :: "'s tls_multi"
  ts_to_link :: buffer
  ts_link_addr :: "link_socket_actual option"   \<comment> \<open>\<open>*to_link_addr\<close>\<close>
  ts_info :: link_socket_info
  ts_wakeup :: int
  ts_active :: bool
  ts_change :: bool                             \<comment> \<open>\<open>state_change\<close>\<close>

definition step_now :: "'s tls_step \<Rightarrow> time_t" where
  "step_now s = tls_now (ts_world s)"

definition step_opt :: "'s tls_step \<Rightarrow> tls_options" where
  "step_opt s = tm_opt (ts_multi s)"

definition step_ks :: "'s tls_step \<Rightarrow> nat \<Rightarrow> 's key_state" where
  "step_ks s i = multi_primary (ts_multi s) i"

definition step_put :: "'s tls_step \<Rightarrow> nat \<Rightarrow> 's key_state \<Rightarrow> 's tls_step" where
  "step_put s i ks = s\<lparr>ts_multi := multi_primary_set (ts_multi s) i ks\<rparr>"

definition step_changed :: "'s tls_step \<Rightarrow> 's tls_step" where
  "step_changed s = s\<lparr>ts_change := True\<rparr>"

definition step_update_time :: "'s tls_env \<Rightarrow> 's tls_step \<Rightarrow> 's tls_step" where
  "step_update_time env s = s\<lparr>ts_world := tls_update_time env (ts_world s)\<rparr>"

definition full_sync :: "'s key_state \<Rightarrow> bool" where
  "full_sync ks \<longleftrightarrow> reliable_empty (ks_send_reliable ks) \<and> reliable_ack_empty (ks_rec_ack ks)"

definition auth_deferred_expire_window :: "tls_options \<Rightarrow> int" where
  "auth_deferred_expire_window opt =
     (let ret = to_handshake_window opt; r2 = c_div (to_renegotiate_seconds opt) 2
      in if to_renegotiate_seconds opt \<noteq> 0 \<and> r2 < ret then r2 else ret)"

definition tp_initial :: "nat \<Rightarrow> 's tls_step \<Rightarrow> 's tls_step flow result" where
  \<comment> \<open>``initial handshake''\<close>
  "tp_initial i s =
     (let ks = step_ks s i; opt = step_opt s; now = step_now s
      in if ks_state ks = S_INITIAL
         then bind_result (reliable_get_buf_output_sequenced (ks_send_reliable ks)) (\<lambda>(b, rel).
                let ks = ks\<lparr>ks_send_reliable := rel\<rparr>
                in case b of
                     None \<Rightarrow> Inr (Next (step_put s i ks))
                   | Some k \<Rightarrow>
                       bind_result (reliable_mark_active_outgoing rel k (ks_initial_opcode ks)) (\<lambda>rel.
                         Inr (Next (step_changed (step_put s i
                           (ks\<lparr>ks_must_negotiate := now + to_handshake_window opt,
                               ks_auth_deferred_expire := now + auth_deferred_expire_window opt,
                               ks_send_reliable := rel, ks_state := S_PRE_START\<rparr>))))))
         else Inr (Next s))"

definition tp_timeout :: "nat \<Rightarrow> 's tls_step \<Rightarrow> 's tls_step flow result" where
  \<comment> \<open>``are we timed out on receive?''\<close>
  "tp_timeout i s =
     (let ks = step_ks s i
      in if step_now s \<ge> ks_must_negotiate ks
         then if ks_state ks < S_ACTIVE then Inr (Error s)
              else Inr (Next (step_put s i (ks\<lparr>ks_state := S_NORMAL_OP, ks_must_negotiate := 0\<rparr>)))
         else Inr (Next s))"

definition tp_start :: "nat \<Rightarrow> 's tls_step \<Rightarrow> 's tls_step flow result" where
  \<comment> \<open>``wait for initial handshake ACK''\<close>
  "tp_start i s =
     (let ks = step_ks s i
      in if ks_state ks = S_PRE_START \<and> full_sync ks
         then Inr (Next (step_changed (step_put s i (ks\<lparr>ks_state := S_START\<rparr>))))
         else Inr (Next s))"

definition tp_active :: "'s tls_env \<Rightarrow> nat \<Rightarrow> 's tls_step \<Rightarrow> 's tls_step flow result" where
  \<comment> \<open>``wait for ACK''\<close>
  "tp_active env i s =
     (let ks = step_ks s i; server = to_server (step_opt s)
      in if (ks_state ks = S_GOT_KEY \<and> \<not> server \<or> ks_state ks = S_SENT_KEY \<and> server) \<and> full_sync ks
         then (let ks = ks\<lparr>ks_established := step_now s, ks_state := S_ACTIVE\<rparr>;
                   s = step_changed (s\<lparr>ts_info := link_socket_set_outgoing_addr None (ts_info s) (ks_remote_addr ks)\<rparr>)
               in bind_result (flush_payload_buffer env ks (multi_peer (ts_multi s) i)) (\<lambda>(ks, pc).
                    Inr (Next (step_put (s\<lparr>ts_multi := multi_peer_set (ts_multi s) i pc\<rparr>) i ks))))
         else Inr (Next s))"

definition step_control_packet :: "nat \<Rightarrow> 's tls_step \<Rightarrow> 's key_state \<Rightarrow> buffer \<Rightarrow> int \<Rightarrow> int \<Rightarrow> bool \<Rightarrow> ('s tls_step \<times> 's key_state \<times> buffer) result" where
  \<comment> \<open>\<open>write_control_auth (session, ks, b, to_link_addr, ...); *to_link = b; active = true; state_change = true\<close>\<close>
  "step_control_packet i s ks b opcode max_ack prepend_ack =
     (let m = ts_multi s
      in bind_result (write_control_auth (ts_world s) (multi_session m i) ks b opcode max_ack prepend_ack) (\<lambda>(w, session, ks, b).
           Inr (step_changed (s\<lparr>ts_world := w, ts_multi := multi_session_set m i session, ts_to_link := b,
                                ts_link_addr := Some (ks_remote_addr ks), ts_active := True\<rparr>), ks, b)))"

definition tp_send :: "nat \<Rightarrow> 's tls_step \<Rightarrow> 's tls_step flow result" where
  \<comment> \<open>``reliable buffer to outgoing TCP/UDP''\<close>
  "tp_send i s =
     (let ks = step_ks s i; now = step_now s
      in if b_len (ts_to_link s) = 0 \<and> reliable_can_send now (ks_send_reliable ks)
         then (case reliable_send now (ks_send_reliable ks) of
                 (None, rel) \<Rightarrow> Inl AssertFailed
               | (Some (k, opcode), rel) \<Rightarrow>
                   bind_result (step_control_packet i s (ks\<lparr>ks_send_reliable := rel\<rparr>) (e_buf (rel_array rel ! k)) opcode CONTROL_SEND_ACK_MAX True)
                     (\<lambda>(s, ks, b). Inr (Break (step_put s i ks))))
         else Inr (Next s))"

definition tp_write_ciphertext :: "'s tls_env \<Rightarrow> nat \<Rightarrow> 's tls_step \<Rightarrow> 's tls_step flow result" where
  \<comment> \<open>``write incoming ciphertext to TLS object''\<close>
  "tp_write_ciphertext env i s =
     (let ks = step_ks s i; rel = ks_rec_reliable ks
      in case reliable_get_buf_sequenced rel of
           None \<Rightarrow> Inr (Next s)
         | Some k \<Rightarrow>
             (let b = e_buf (rel_array rel ! k)
              in bind_result (if b_len b \<noteq> 0 then key_state_write_ciphertext env ks b else Inr (1, ks, b)) (\<lambda>(status, ks, b).
                   let rel = rel_set_entry rel k ((rel_array rel ! k)\<lparr>e_buf := b\<rparr>); ks = ks\<lparr>ks_rec_reliable := rel\<rparr>
                   in if status = - 1 then Inr (Error (step_put s i ks))
                      else if status = 1
                      then bind_result (reliable_mark_deleted rel k True) (\<lambda>rel.
                             Inr (Next (step_changed (step_put s i (ks\<lparr>ks_rec_reliable := rel\<rparr>)))))
                      else Inr (Next (step_put s i ks)))))"

definition tp_read_plaintext :: "'s tls_env \<Rightarrow> nat \<Rightarrow> 's tls_step \<Rightarrow> 's tls_step flow result" where
  \<comment> \<open>``read incoming plaintext from TLS object''\<close>
  "tp_read_plaintext env i s =
     (let ks = step_ks s i
      in if b_len (ks_plaintext_read_buf ks) = 0
         then (case buf_init (ks_plaintext_read_buf ks) 0 of (ok, b) \<Rightarrow>
                 assert_that ok
                   (bind_result (key_state_read_plaintext env ks (multi_peer (ts_multi s) i) b TLS_CHANNEL_BUF_SIZE) (\<lambda>(status, ks, pc, b).
                      let s = step_update_time env (s\<lparr>ts_multi := multi_peer_set (ts_multi s) i pc\<rparr>);
                          s = step_put s i (ks\<lparr>ks_plaintext_read_buf := b\<rparr>)
                      in if status = - 1 then Inr (Error s)
                         else Inr (Next (if status = 1 then step_changed s else s)))))
         else Inr (Next s))"

definition tp_send_key :: "'s tls_env \<Rightarrow> auth_env \<Rightarrow> nat \<Rightarrow> 's tls_step \<Rightarrow> 's tls_step flow result" where
  \<comment> \<open>``send key''\<close>
  "tp_send_key env ae i s =
     (let ks = step_ks s i; opt = step_opt s
      in if b_len (ks_plaintext_write_buf ks) = 0
            \<and> (ks_state ks = S_START \<and> \<not> to_server opt \<or> ks_state ks = S_GOT_KEY \<and> to_server opt)
         then bind_result
                (if to_key_method opt = 1 then key_method_1_write env opt (ts_world s) ks
                 else if to_key_method opt = 2
                 then key_method_2_write env ae opt (ts_world s) (se_session_id (multi_session (ts_multi s) i)) ks
                 else Inl AssertFailed)
                (\<lambda>(ok, w, ks).
                  let s = s\<lparr>ts_world := w\<rparr>
                  in if \<not> ok then Inr (Error (step_put s i ks))
                     else Inr (Next (step_changed (step_put s i (ks\<lparr>ks_state := S_SENT_KEY\<rparr>)))))
         else Inr (Next s))"

definition tp_receive_key :: "'s tls_env \<Rightarrow> auth_env \<Rightarrow> nat \<Rightarrow> 's tls_step \<Rightarrow> 's tls_step flow result" where
  \<comment> \<open>``receive key''\<close>
  "tp_receive_key env ae i s =
     (let ks = step_ks s i; opt = step_opt s; m = ts_multi s
      in if b_len (ks_plaintext_read_buf ks) \<noteq> 0
            \<and> (ks_state ks = S_SENT_KEY \<and> \<not> to_server opt \<or> ks_state ks = S_START \<and> to_server opt)
         then bind_result
                (if to_key_method opt = 1
                 then bind_result (key_method_1_read env opt (pc_verified (multi_peer m i)) ks) (\<lambda>(ok, ks). Inr (ok, multi_primary_set m i ks))
                 else if to_key_method opt = 2 then key_method_2_read env ae (ts_world s) m i
                 else Inl AssertFailed)
                (\<lambda>(ok, m).
                  let s = s\<lparr>ts_multi := m\<rparr>
                  in if \<not> ok then Inr (Error s)
                     else Inr (Next (step_changed (step_put s i ((step_ks s i)\<lparr>ks_state := S_GOT_KEY\<rparr>)))))
         else Inr (Next s))"

definition tp_write_plaintext :: "'s tls_env \<Rightarrow> nat \<Rightarrow> 's tls_step \<Rightarrow> 's tls_step flow result" where
  \<comment> \<open>``write outgoing plaintext to TLS object''\<close>
  "tp_write_plaintext env i s =
     (let ks = step_ks s i
      in if b_len (ks_plaintext_write_buf ks) \<noteq> 0
         then bind_result (key_state_write_plaintext env ks (multi_peer (ts_multi s) i) (ks_plaintext_write_buf ks)) (\<lambda>(status, ks, pc, b).
                let s = s\<lparr>ts_multi := multi_peer_set (ts_multi s) i pc\<rparr>; s = step_put s i (ks\<lparr>ks_plaintext_write_buf := b\<rparr>)
                in if status = - 1 then Inr (Error s)
                   else Inr (Next (if status = 1 then step_changed s else s)))
         else Inr (Next s))"

definition tp_read_ciphertext :: "'s tls_env \<Rightarrow> nat \<Rightarrow> 's tls_step \<Rightarrow> 's tls_step flow result" where
  \<comment> \<open>``outgoing ciphertext to reliable buffer''\<close>
  "tp_read_ciphertext env i s =
     (let ks = step_ks s i
      in if ks_state ks \<ge> S_START
         then bind_result (reliable_get_buf_output_sequenced (ks_send_reliable ks)) (\<lambda>(b, rel).
                let ks = ks\<lparr>ks_send_reliable := rel\<rparr>
                in case b of
                     None \<Rightarrow> Inr (Next (step_put s i ks))
                   | Some k \<Rightarrow>
                       bind_result (key_state_read_ciphertext env ks (e_buf (rel_array rel ! k)) (PAYLOAD_SIZE_DYNAMIC (to_frame (step_opt s))))
                         (\<lambda>(status, ks, b).
                           let rel = rel_set_entry rel k ((rel_array rel ! k)\<lparr>e_buf := b\<rparr>); ks = ks\<lparr>ks_send_reliable := rel\<rparr>
                           in if status = - 1 then Inr (Error (step_put s i ks))
                              else if status = 1
                              then bind_result (reliable_mark_active_outgoing rel k P_CONTROL_V1) (\<lambda>rel.
                                     Inr (Next (step_changed (step_put s i (ks\<lparr>ks_send_reliable := rel\<rparr>)))))
                              else Inr (Next (step_put s i ks))))
         else Inr (Next s))"

section \<open>The loop\<close>

definition tp_pass :: "'s tls_env \<Rightarrow> auth_env \<Rightarrow> nat \<Rightarrow> 's tls_step \<Rightarrow> 's tls_step flow result" where
  \<comment> \<open>one pass of the loop\<close>
  "tp_pass env ae i s =
     and_then (and_then (and_then (and_then (and_then (and_then (and_then (and_then (and_then (and_then
       (tp_initial i ((step_update_time env s)\<lparr>ts_change := False\<rparr>))
       (tp_timeout i)) (tp_start i)) (tp_active env i)) (tp_send i)) (tp_write_ciphertext env i)) (tp_read_plaintext env i))
       (tp_send_key env ae i)) (tp_receive_key env ae i)) (tp_write_plaintext env i)) (tp_read_ciphertext env i)"

partial_function (option) tp_loop :: "'s tls_env \<Rightarrow> auth_env \<Rightarrow> nat \<Rightarrow> 's tls_step \<Rightarrow> 's tls_step flow result option" where
  \<comment> \<open>\<open>do ... while (state_change)\<close>\<close>
  [code]: "tp_loop env ae i s =
     (case tp_pass env ae i s of
        Inl e \<Rightarrow> Some (Inl e)
      | Inr r \<Rightarrow>
          (case r of
             Next s \<Rightarrow> if ts_change s then tp_loop env ae i s else Some (Inr (Next s))
           | Break s \<Rightarrow> Some (Inr (Break s))
           | Error s \<Rightarrow> Some (Inr (Error s))))"

definition tp_soft_reset :: "'s tls_env \<Rightarrow> nat \<Rightarrow> 's tls_step \<Rightarrow> 's tls_step result" where
  \<comment> \<open>``should we trigger a soft reset?'' and the end of the lame duck key\<close>
  "tp_soft_reset env i s =
     (let ks = step_ks s i; opt = step_opt s; now = step_now s; m = ts_multi s
      in bind_result
           (if ks_state ks \<ge> S_ACTIVE
               \<and> (to_renegotiate_seconds opt \<noteq> 0 \<and> now \<ge> ks_established ks + to_renegotiate_seconds opt
                  \<or> to_renegotiate_bytes opt \<noteq> 0 \<and> ks_n_bytes ks \<ge> word_of_int (to_renegotiate_bytes opt)
                  \<or> to_renegotiate_packets opt \<noteq> 0 \<and> ks_n_packets ks \<ge> word_of_int (to_renegotiate_packets opt)
                  \<or> packet_id_close_to_wrapping (pid_send (ks_packet_id ks)))
            then bind_result (key_state_soft_reset env opt (ts_world s) (multi_session m i)) (\<lambda>(w, session).
                   Inr (s\<lparr>ts_world := w, ts_multi := multi_session_set m i session\<rparr>))
            else Inr s)
           (\<lambda>s. bind_result (lame_duck_must_die (step_now s) (multi_session (ts_multi s) i) (ts_wakeup s)) (\<lambda>(die, wakeup).
              let s = s\<lparr>ts_wakeup := wakeup\<rparr>; p = (i, KS_LAME_DUCK)
              in Inr (if die then s\<lparr>ts_multi := multi_key_set (ts_multi s) p (key_state_free (multi_key (ts_multi s) p) True)\<rparr> else s))))"

definition tp_wakeup :: "nat \<Rightarrow> 's tls_step \<Rightarrow> 's tls_step" where
  \<comment> \<open>``when should we wake up again?''\<close>
  "tp_wakeup i s =
     (let ks = step_ks s i; opt = step_opt s; now = step_now s; wakeup = ts_wakeup s;
          wakeup = (if ks_state ks \<ge> S_INITIAL
                    then (let wakeup = compute_earliest_wakeup wakeup (reliable_send_timeout now (ks_send_reliable ks))
                          in if ks_must_negotiate ks \<noteq> 0 then compute_earliest_wakeup wakeup (ks_must_negotiate ks - now) else wakeup)
                    else wakeup);
          wakeup = (if ks_established ks \<noteq> 0 \<and> to_renegotiate_seconds opt \<noteq> 0
                    then compute_earliest_wakeup wakeup (ks_established ks + to_renegotiate_seconds opt - now) else wakeup)
      in if wakeup \<le> 0 then s\<lparr>ts_wakeup := 1, ts_active := True\<rparr> else s\<lparr>ts_wakeup := wakeup\<rparr>)"

definition tp_finish :: "'s tls_env \<Rightarrow> nat \<Rightarrow> 's tls_step \<Rightarrow> 's tls_step result" where
  \<comment> \<open>after the loop: a dedicated acknowledgement and the time of the next call\<close>
  "tp_finish env i s =
     (let s = step_update_time env s; ks = step_ks s i
      in bind_result
           (if b_len (ts_to_link s) = 0 \<and> \<not> reliable_ack_empty (ks_rec_ack ks)
            then (case buf_init (ks_ack_write_buf ks) (FRAME_HEADROOM (to_frame (step_opt s))) of (ok, b) \<Rightarrow>
                    assert_that ok
                      (bind_result (step_control_packet i s ks b P_ACK_V1 (int RELIABLE_ACK_SIZE) False) (\<lambda>(s, ks, b).
                         Inr (step_put s i (ks\<lparr>ks_ack_write_buf := b\<rparr>)))))
            else Inr s)
           (\<lambda>s. Inr (tp_wakeup i s)))"

definition tls_process :: "'s tls_env \<Rightarrow> auth_env \<Rightarrow> nat \<Rightarrow> 's tls_step \<Rightarrow> (bool \<times> 's tls_step) result" where
  \<comment> \<open>the result and \<open>active\<close>; \<open>i\<close> is the index of the session\<close>
  "tls_process env ae i s =
     (let ks = step_ks s i
      in assert_that (ks_state ks \<noteq> S_UNDEF) (assert_that (ks_state ks \<noteq> S_ERROR)
         (assert_that (session_id_defined (se_session_id (multi_session (ts_multi s) i)))
           (bind_result (tp_soft_reset env i s) (\<lambda>s.
              bind_result (returns (tp_loop env ae i (s\<lparr>ts_active := False, ts_change := False\<rparr>))) (\<lambda>r.
                case r of
                  Error s \<Rightarrow> Inr (False, step_put s i ((step_ks s i)\<lparr>ks_state := S_ERROR\<rparr>))
                | Next s \<Rightarrow> bind_result (tp_finish env i s) (\<lambda>s. Inr (ts_active s, s))
                | Break s \<Rightarrow> bind_result (tp_finish env i s) (\<lambda>s. Inr (ts_active s, s))))))))"

section \<open>All sessions\<close>

definition TLSMP_INACTIVE :: int where "TLSMP_INACTIVE = 0"
definition TLSMP_ACTIVE :: int where "TLSMP_ACTIVE = 1"
definition TLSMP_KILL :: int where "TLSMP_KILL = 2"

definition tmp_recover :: "'s tls_env \<Rightarrow> nat \<Rightarrow> 's tls_step \<Rightarrow> bool \<Rightarrow> (bool \<times> 's tls_step) result" where
  \<comment> \<open>``if tls_process hits an error''; the result is \<open>error\<close>\<close>
  "tmp_recover env i s err =
     (if ks_state (step_ks s i) = S_ERROR
      then (let m = (ts_multi s)\<lparr>tm_n_soft_errors := tm_n_soft_errors (ts_multi s) + 1\<rparr>
            in bind_result
                 (if i = TM_ACTIVE \<and> ks_state (multi_key m (i, KS_LAME_DUCK)) \<ge> S_ACTIVE \<and> \<not> to_single_session (tm_opt m)
                  then move_session env (ts_world s) m TM_LAME_DUCK TM_ACTIVE True
                  else reset_session env (ts_world s) m i)
                 (\<lambda>(w, m). Inr (err \<or> i = TM_ACTIVE, s\<lparr>ts_world := w, ts_multi := m\<rparr>)))
      else Inr (err, s))"

definition tmp_session :: "'s tls_env \<Rightarrow> auth_env \<Rightarrow> nat \<Rightarrow> 's tls_step \<times> bool \<times> bool \<Rightarrow> ('s tls_step \<times> bool \<times> bool) result" where
  \<comment> \<open>the body of the loop over the sessions, on the objects, \<open>active\<close> and \<open>error\<close>\<close>
  "tmp_session env ae i = (\<lambda>(s, active, err).
     let ks = step_ks s i; actual = lsa_actual (lsi_lsa (ts_info s));
         s = (if i = TM_ACTIVE \<and> ks_state ks = S_INITIAL \<and> link_socket_actual_defined (Some actual)
              then step_put s i (ks\<lparr>ks_remote_addr := actual\<rparr>) else s);
         ks = step_ks s i; to_link_addr = ts_link_addr s
     in if ks_state ks \<ge> S_INITIAL \<and> link_socket_actual_defined (Some (ks_remote_addr ks))
        then bind_result (tls_process env ae i ((step_update_time env s)\<lparr>ts_link_addr := None\<rparr>)) (\<lambda>(act, s).
               let s = (case ts_link_addr s of
                          None \<Rightarrow> s\<lparr>ts_link_addr := to_link_addr\<rparr>
                        | Some a \<Rightarrow> s\<lparr>ts_multi := (ts_multi s)\<lparr>tm_to_link_addr := a\<rparr>\<rparr>)
               in bind_result (tmp_recover env i s err) (\<lambda>(err, s). Inr (s, active \<or> act, err)))
        else Inr (s, active, err))"

definition GREMLIN_CONNECTION_FLOOD_LEVEL :: "int \<Rightarrow> int" where
  "GREMLIN_CONNECTION_FLOOD_LEVEL x = drop_bit 0 x AND 7"

definition tmp_hard_errors :: "bool \<Rightarrow> 's tls_multi \<Rightarrow> 's tls_multi" where
  \<comment> \<open>``a hard error means ...'' and the debugging aid that follows\<close>
  "tmp_hard_errors err m =
     (let m = (if err \<and> \<not> list_ex (\<lambda>p. ks_state (multi_key m p) \<ge> S_ACTIVE) key_scan
               then m\<lparr>tm_n_hard_errors := tm_n_hard_errors m + 1\<rparr> else m);
          throw_level = GREMLIN_CONNECTION_FLOOD_LEVEL (to_gremlin (tm_opt m));
          n = int (length (filter (\<lambda>p. ks_state (multi_key m p) \<ge> throw_level) key_scan))
      in if throw_level \<noteq> 0
         then m\<lparr>tm_n_hard_errors := tm_n_hard_errors m + n, tm_n_soft_errors := tm_n_soft_errors m + n\<rparr> else m)"

definition tls_multi_process :: "'s tls_env \<Rightarrow> auth_env \<Rightarrow> 's tls_step \<Rightarrow> (int \<times> 's tls_step) result" where
  "tls_multi_process env ae s =
     bind_result (tmp_session env ae 0 (s, False, False)) (\<lambda>r.
     bind_result (tmp_session env ae 1 r) (\<lambda>r.
     bind_result (tmp_session env ae 2 r) (\<lambda>(s, active, err).
       let s = step_update_time env s
       in bind_result (tls_authentication_status ae (step_now s) (ts_multi s) TLS_MULTI_AUTH_STATUS_INTERVAL) (\<lambda>(tas, m).
          bind_result (lame_duck_must_die (step_now s) (multi_session m TM_LAME_DUCK) (ts_wakeup s)) (\<lambda>(die, wakeup).
            let m = (if die then multi_session_set m TM_LAME_DUCK (tls_session_free (multi_session m TM_LAME_DUCK) True) else m)
            in bind_result
                 (if DECRYPT_KEY_ENABLED m (multi_primary m TM_UNTRUSTED) then move_session env (ts_world s) m TM_ACTIVE TM_UNTRUSTED True
                  else Inr (ts_world s, m))
                 (\<lambda>(w, m).
                   Inr (if tas = TLS_AUTHENTICATION_FAILED then TLSMP_KILL else if active then TLSMP_ACTIVE else TLSMP_INACTIVE,
                        s\<lparr>ts_world := w, ts_multi := tmp_hard_errors err m, ts_wakeup := wakeup\<rparr>)))))))"

section \<open>Payload of the control channel\<close>

definition tls_send_payload :: "'s tls_env \<Rightarrow> tls_world \<Rightarrow> 's tls_multi \<Rightarrow> byte list \<Rightarrow> (bool \<times> 's tls_multi) result" where
  "tls_send_payload env w m data =
     (let ks = multi_primary m TM_ACTIVE
      in if ks_state ks \<ge> S_ACTIVE
         then bind_result (key_state_write_plaintext_const env ks (multi_peer m TM_ACTIVE) data) (\<lambda>(ret, ks, pc).
                Inr (ret = 1, multi_peer_set (multi_primary_set m TM_ACTIVE ks) TM_ACTIVE pc))
         else (let paybuf = (case ks_paybuf ks of None \<Rightarrow> buffer_list_new 0 | Some l \<Rightarrow> l)
               in bind_result (buffer_list_push_data (tls_junk env w 0) paybuf data) (\<lambda>(_, paybuf).
                    Inr (True, multi_primary_set m TM_ACTIVE (ks\<lparr>ks_paybuf := Some paybuf\<rparr>)))))"

definition tls_rec_payload :: "'s tls_multi \<Rightarrow> buffer \<Rightarrow> bool \<times> 's tls_multi \<times> buffer" where
  "tls_rec_payload m b =
     (let ks = multi_primary m TM_ACTIVE
      in if ks_state ks \<ge> S_ACTIVE \<and> buf_len (ks_plaintext_read_buf ks) \<noteq> 0
         then (case buf_copy b (ks_plaintext_read_buf ks) of (ok, b) \<Rightarrow>
                 (ok, multi_primary_set m TM_ACTIVE (ks\<lparr>ks_plaintext_read_buf := (ks_plaintext_read_buf ks)\<lparr>b_len := 0\<rparr>\<rparr>), b))
         else (False, m, b))"

definition tls_initial_packet_received :: "'s tls_multi \<Rightarrow> bool" where
  "tls_initial_packet_received m \<longleftrightarrow> tm_n_sessions m > 0"

definition tls_test_auth_deferred_interval :: "time_t \<Rightarrow> 's tls_multi \<Rightarrow> bool" where
  "tls_test_auth_deferred_interval now m \<longleftrightarrow> now < ks_auth_deferred_expire (multi_primary m TM_ACTIVE)"

definition tls_test_payload_len :: "'s tls_multi \<Rightarrow> int" where
  "tls_test_payload_len m =
     (let ks = multi_primary m TM_ACTIVE in if ks_state ks \<ge> S_ACTIVE then buf_len (ks_plaintext_read_buf ks) else 0)"

definition tls_set_single_session :: "'s tls_multi \<Rightarrow> 's tls_multi" where
  "tls_set_single_session m = m\<lparr>tm_opt := (tm_opt m)\<lparr>to_single_session := True\<rparr>\<rparr>"

definition tls_client_reason :: "'s tls_multi \<Rightarrow> cstr option" where
  "tls_client_reason m = tm_client_reason m"

definition tls_get_peer_info :: "'s tls_multi \<Rightarrow> cstr option" where
  "tls_get_peer_info m = tm_peer_info m"

end
