(* ===== verification/Tls_Invariant.thy ===== *)
theory Tls_Invariant
  imports Tls_Process
begin

text \<open>
  The invariant of a \<open>tls_multi\<close> object and its preservation by the operations of the event loop.

  \<open>multi_ok\<close> says that the active session, and unless \<open>--single-session\<close> is given the untrusted one, is alive: its
  primary key is in a regular state, its receive buffers are well formed, and its control packets can be checked.
  The session of the retiring keys has no primary key that is still negotiated.
  Replay protection may be persistent only within the process (\<open>w_pid_persist\<close> is \<open>None\<close>): a window restored from a file
  is not a well-formed one (theory \<open>Packet_Id\<close>).
\<close>

section \<open>The invariant\<close>

definition auth_keys_ok :: "crypto_options \<Rightarrow> bool" where
  \<comment> \<open>long packet ids, and an HMAC key for incoming packets or none\<close>
  "auth_keys_ok co \<longleftrightarrow> co_long_form co \<and> co_flags co AND CO_IGNORE_PACKET_ID = 0 \<and> co_pid_persist co = None
     \<and> (\<exists>kb. co_key_ctx_bi co = Some kb \<and> (k_hmac (kb_decrypt kb) = None \<or> (\<exists>h. tls_auth_keys co True h)))"

definition opt_ok :: "tls_options \<Rightarrow> bool" where
  "opt_ok opt \<longleftrightarrow> 0 \<le> FRAME_HEADROOM (to_frame opt) \<and> FRAME_HEADROOM (to_frame opt) \<le> BUF_SIZE (to_frame opt)
     \<and> BUF_SIZE (to_frame opt) < BUF_SIZE_MAX
     \<and> (\<exists>pid. packet_id_init (to_replay_window opt) (to_replay_time opt) = Inr pid)
     \<and> 1 \<le> to_key_method opt \<and> auth_keys_ok (to_tls_auth opt)"

definition session_auth_ok :: "crypto_options \<Rightarrow> bool" where
  "session_auth_ok co \<longleftrightarrow> auth_keys_ok co \<and> (\<exists>pid A. co_packet_id co = Some pid \<and> replay_ok (pid_rec pid) A)"

definition rx_ok :: "tls_options \<Rightarrow> 's key_state \<Rightarrow> bool" where
  "rx_ok opt ks \<longleftrightarrow> rel_wf (BUF_SIZE (to_frame opt)) (ks_rec_reliable ks) \<and> rel_offset (ks_rec_reliable ks) = FRAME_HEADROOM (to_frame opt)"

definition key_live :: "tls_options \<Rightarrow> 's key_state \<Rightarrow> bool" where
  "key_live opt ks \<longleftrightarrow> S_INITIAL \<le> ks_state ks \<and> ks_state ks \<le> S_NORMAL_OP \<and> rx_ok opt ks"

definition session_live :: "tls_options \<Rightarrow> 's tls_session \<Rightarrow> bool" where
  "session_live opt s \<longleftrightarrow> length (se_key s) = KS_SIZE \<and> session_id_defined (se_session_id s)
     \<and> session_auth_ok (se_tls_auth s) \<and> key_live opt (primary s)"

definition session_dead :: "'s tls_session \<Rightarrow> bool" where
  "session_dead s \<longleftrightarrow> length (se_key s) = KS_SIZE \<and> ks_state (primary s) = S_UNDEF
     \<and> \<not> session_id_defined (ks_session_id_remote (primary s))"

definition multi_ok :: "'s tls_multi \<Rightarrow> bool" where
  "multi_ok m \<longleftrightarrow> opt_ok (tm_opt m) \<and> length (tm_session m) = TM_SIZE
     \<and> session_live (tm_opt m) (multi_session m TM_ACTIVE)
     \<and> (session_live (tm_opt m) (multi_session m TM_UNTRUSTED)
        \<or> to_single_session (tm_opt m) \<and> session_dead (multi_session m TM_UNTRUSTED))
     \<and> length (se_key (multi_session m TM_LAME_DUCK)) = KS_SIZE \<and> ks_state (primary (multi_session m TM_LAME_DUCK)) < S_INITIAL"

definition world_ok :: "tls_world \<Rightarrow> bool" where
  "world_ok w \<longleftrightarrow> 1 < tls_now w \<and> w_pid_persist w = None"

definition env_ok :: "'s tls_env \<Rightarrow> bool" where
  \<comment> \<open>\<open>SSL_new\<close> does not fail, and the generator of session ids does not return zeros for ever\<close>
  "env_ok env \<longleftrightarrow> (\<forall>server. te_ssl_new env server \<noteq> None) \<and> (\<forall>i. \<exists>k. session_id_defined \<lparr>sid_id = te_prng env (i + k)\<rparr>)"

definition packet_fits :: "'s tls_multi \<Rightarrow> buffer \<Rightarrow> bool" where
  \<comment> \<open>an incoming packet is not longer than the room in a receive buffer\<close>
  "packet_fits m b \<longleftrightarrow> b_len b \<le> BUF_SIZE (to_frame (tm_opt m)) - FRAME_HEADROOM (to_frame (tm_opt m))"

section \<open>Access\<close>

lemma multi_session_set_simps [simp]:
  "tm_opt (multi_session_set m i s) = tm_opt m" "length (tm_session (multi_session_set m i s)) = length (tm_session m)"
  "i < length (tm_session m) \<Longrightarrow> multi_session (multi_session_set m i s) j = (if j = i then s else multi_session m j)"
  "tm_n_soft_errors (multi_session_set m i s) = tm_n_soft_errors m" "tm_save_ks (multi_session_set m i s) = tm_save_ks m"
  by (auto simp: multi_session_set_def multi_session_def)

lemma session_key_set_simps [simp]:
  "length (se_key (session_key_set s j k)) = length (se_key s)" "se_session_id (session_key_set s j k) = se_session_id s"
  "se_tls_auth (session_key_set s j k) = se_tls_auth s" "se_peer (session_key_set s j k) = se_peer s"
  "j < length (se_key s) \<Longrightarrow> se_key (session_key_set s j k) ! l = (if l = j then k else se_key s ! l)"
  by (auto simp: session_key_set_def)

lemma multi_okD:
  assumes "multi_ok m"
  shows "opt_ok (tm_opt m)" "length (tm_session m) = 3" "session_live (tm_opt m) (multi_session m 0)"
    "session_live (tm_opt m) (multi_session m 1) \<or> to_single_session (tm_opt m) \<and> session_dead (multi_session m 1)"
    "length (se_key (multi_session m i)) = 2 \<or> 3 \<le> i" "ks_state (primary (multi_session m 2)) < 1"
proof -
  show "opt_ok (tm_opt m)" "length (tm_session m) = 3" "session_live (tm_opt m) (multi_session m 0)"
    "session_live (tm_opt m) (multi_session m 1) \<or> to_single_session (tm_opt m) \<and> session_dead (multi_session m 1)"
    "ks_state (primary (multi_session m 2)) < 1"
    using assms by (simp_all add: multi_ok_def index_defs state_defs)
  have "i = 0 \<or> i = 1 \<or> i = 2 \<or> 3 \<le> i" by linarith
  then show "length (se_key (multi_session m i)) = 2 \<or> 3 \<le> i"
    using assms by (auto simp: multi_ok_def index_defs session_live_def session_dead_def)
qed

lemma multi_ok_set:
  assumes "multi_ok m" "i < 3" "length (se_key s) = 2" "i < 2 \<Longrightarrow> session_live (tm_opt m) s"
    "i = 2 \<Longrightarrow> ks_state (primary s) < 1"
  shows "multi_ok (multi_session_set m i s)"
proof -
  have "i = 0 \<or> i = 1 \<or> i = 2" using assms(2) by linarith
  then show ?thesis using assms multi_okD(2) [OF assms(1)] by (auto simp: multi_ok_def index_defs state_defs)
qed

lemma session_liveD:
  assumes "session_live opt s"
  shows "length (se_key s) = 2" "session_id_defined (se_session_id s)" "session_auth_ok (se_tls_auth s)"
    "1 \<le> ks_state (primary s)" "ks_state (primary s) \<le> 7" "rx_ok opt (primary s)"
  using assms by (auto simp: session_live_def key_live_def state_defs index_defs)

section \<open>Reading from buffers\<close>

lemma buf_read_shrinks:
  assumes "buf_ok b" "buf_read b (int n) = (r, b')"
  shows "buf_ok b'" "b_len b' \<le> b_len b"
proof -
  have "buf_ok b' \<and> length (buf_contents b') \<le> length (buf_contents b)"
  proof (cases "n \<le> length (buf_contents b)")
    case True
    then show ?thesis using buf_read_ok [OF assms(1) True] assms(2) by auto
  next
    case False
    then show ?thesis using buf_read_short [OF assms(1), of n] assms by simp
  qed
  then show "buf_ok b'" "b_len b' \<le> b_len b"
    using length_buf_contents [OF assms(1)] length_buf_contents [of b'] by auto
qed

lemma reliable_ack_read_loop_shrinks:
  "buf_ok b \<Longrightarrow> reliable_ack_read_loop n ack b = (ok, ack', b') \<Longrightarrow> buf_ok b' \<and> b_len b' \<le> b_len b"
proof (induction n arbitrary: ack b)
  case (Suc n)
  obtain r b1 where r: "buf_read b (int 4) = (r, b1)" by fastforce
  note b1 = buf_read_shrinks [OF Suc.prems(1) r]
  show ?case using Suc.prems(2) b1 r Suc.IH [OF b1(1)] by (fastforce split: option.splits if_splits)
qed simp

lemma reliable_ack_read_shrinks:
  assumes "buf_ok b" "reliable_ack_read ack b sid = (ok, ack', b')"
  shows "buf_ok b' \<and> b_len b' \<le> b_len b"
proof -
  obtain r b1 where r: "buf_read b (int 1) = (r, b1)" by fastforce
  note b1 = buf_read_shrinks [OF assms(1) r]
  show ?thesis
  proof (cases r)
    case None
    then show ?thesis using assms(2) r b1 by (simp add: reliable_ack_read_def)
  next
    case (Some bs)
    obtain ok1 ack1 b2 where l: "reliable_ack_read_loop (unat (bs ! 0)) ack b1 = (ok1, ack1, b2)" by (metis surj_pair)
    note b2 = reliable_ack_read_loop_shrinks [OF b1(1) l]
    obtain r2 b3 where r2: "buf_read b2 (int SID_SIZE) = (r2, b3)" by fastforce
    note b3 = buf_read_shrinks [OF conjunct1 [OF b2] r2]
    show ?thesis using assms(2) r Some l b1 b2 b3 r2
      by (auto simp: reliable_ack_read_def session_id_read_def Let_def split: bool.splits if_splits option.splits)
  qed
qed

lemma tls_receive_total:
  assumes wf: "rel_wf cap rel" and b: "buf_ok b" and fit: "b_len b \<le> cap - rel_offset rel"
  shows "\<exists>rel1 ack1. tls_receive_control rel ack b op = Inr (rel1, ack1) \<and> rel_wf cap rel1 \<and> rel_offset rel1 = rel_offset rel"
proof (cases "reliable_can_get rel")
  case False
  then show ?thesis using wf by (auto simp: tls_receive_control_def)
next
  case can: True
  note D = rel_wfD [OF wf]
  obtain r b1 where rd: "buf_read b (int 4) = (r, b1)" by fastforce
  note b1 = buf_read_shrinks [OF b rd]
  show ?thesis
  proof (cases r)
    case None
    then show ?thesis using rd wf can by (auto simp: tls_receive_control_def reliable_ack_read_packet_id_def)
  next
    case (Some bs)
    let ?k = "u32_of_bytes bs"
    have id: "reliable_ack_read_packet_id b = (Some ?k, b1)" using rd Some by (simp add: reliable_ack_read_packet_id_def)
    show ?thesis
    proof (cases "reliable_wont_break_sequentiality rel ?k \<and> reliable_not_replay rel ?k")
      case False
      then show ?thesis using id wf can by (auto simp: tls_receive_control_def)
    next
      case True
      obtain i b0 where i: "i < rel_size rel" "\<not> e_active (rel_array rel ! i)" "buf_ok b0" "buf_contents b0 = []"
          "b_capacity b0 = cap" "b_offset b0 = rel_offset rel" "b_len b0 = 0"
          "reliable_get_buf rel = Inr (Some i, rel_set_entry rel i ((rel_array rel ! i)\<lparr>e_buf := b0\<rparr>))"
        using reliable_get_buf_ok [OF wf can] by blast
      have "length (buf_contents b1) \<le> buf_room b0"
        using buf_room_eq [OF i(3)] i(5-7) fit b1(2) length_buf_contents [OF b1(1)] by linarith
      then obtain b2 where b2: "buf_copy b0 b1 = (True, b2)" "buf_ok b2" "b_capacity b2 = cap"
        using buf_write_full [OF i(3), of "buf_contents b1"] i(5) by (auto simp: buf_copy_def)
      let ?e = "(rel_array rel ! i)\<lparr>e_buf := b2, e_active := True, e_packet_id := ?k, e_opcode := op, e_next_try := 0, e_timeout := 0\<rparr>"
      have ie: "i < length (rel_entries rel)" "\<not> e_active (rel_entries rel ! i)"
        using i(1,2) D(4) by (simp_all add: rel_entries_nth)
      have new: "?k \<notin> set (active_ids (rel_entries rel))" "\<not> reliable_pid_min ?k (rel_packet_id rel)"
        using True by (auto simp: reliable_not_replay_def list_ex_iff in_active_ids)
      have "rel_wf cap (rel_set_entry rel i ?e)"
        using wf i(1) b2 active_ids_activate(2) [OF ie, of ?e] new(1) D(7) by (intro rel_wf_set) auto
      then show ?thesis
        using can id True i(1,8) b2(1) new(2) D(2,3)
        by (simp add: tls_receive_control_def reliable_mark_active_incoming_def rel_set_entry_def)
    qed
  qed
qed

section \<open>Control packets\<close>

lemma read_control_auth_total:
  assumes co: "session_auth_ok co" and b: "buf_ok b" and now: "1 < now"
  shows "\<exists>ok b' co'. read_control_auth now b co = Inr (ok, b', co') \<and> session_auth_ok co' \<and> co_pid_persist co' = None
    \<and> (ok \<longrightarrow> buf_ok b' \<and> b_len b' \<le> b_len b)"
proof -
  obtain kb pid A where kb: "co_key_ctx_bi co = Some kb" "k_hmac (kb_decrypt kb) = None \<or> (\<exists>h. tls_auth_keys co True h)"
      and pid: "co_packet_id co = Some pid" "replay_ok (pid_rec pid) A" and pp: "co_pid_persist co = None"
    using co by (auto simp: session_auth_ok_def auth_keys_ok_def)
  have c: "control_opt co pid" using co pid(1) by (simp add: session_auth_ok_def auth_keys_ok_def control_opt_def)
  show ?thesis
  proof (cases "k_hmac (kb_decrypt kb) = None")
    case True
    have sh: "buf_ok (snd (buf_advance b (int SID_SIZE + 1))) \<and> b_len (snd (buf_advance b (int SID_SIZE + 1))) \<le> b_len b"
    proof (cases "9 \<le> b_len b")
      case True
      then show ?thesis using buf_advance_ok [OF b, of 9] by (auto simp: SID_SIZE_def)
    next
      case False
      then show ?thesis using b by (simp add: buf_advance_def SID_SIZE_def)
    qed
    then show ?thesis using True kb(1) co pp
      by (intro exI [of _ True] exI [of _ "snd (buf_advance b (int SID_SIZE + 1))"] exI [of _ co]) (simp add: read_control_auth_def)
  next
    case False
    then obtain h where h: "tls_auth_keys co True h" using kb(2) by auto
    show ?thesis
    proof (cases "tls_auth_ok h (buf_contents b)")
      case False
      then show ?thesis using read_control_auth_rejects [OF h b False, of now] co pp by auto
    next
      case True
      obtain ok r A' where r: "packet_id_check now (pid_rec pid) (wire_pin (drop (9 + nat (h_size h)) (buf_contents b))) = Inr (ok, r)"
          "replay_ok r A'"
        using packet_id_check_ok [OF pid(2) now] by blast
      obtain b' co' where x: "read_control_auth now b co = Inr (ok, b', co')" "co_flags co' = co_flags co"
          "co_key_ctx_bi co' = co_key_ctx_bi co" "co_packet_id co' = Some (pid\<lparr>pid_rec := r\<rparr>)" "co_pid_persist co' = None"
          "ok \<longrightarrow> buf_ok b' \<and> buf_contents b' = drop (9 + hmac_len h) (buf_contents b)"
        using read_control_auth_accepts [OF h b True c r(1)] pp by blast
      have "session_auth_ok co'"
        using co x(2-5) r(2) by (auto simp: session_auth_ok_def auth_keys_ok_def tls_auth_keys_def co_long_form_def)
      moreover have "b_len b' \<le> b_len b" if ok
      proof -
        have "buf_ok b'" "length (buf_contents b') \<le> length (buf_contents b)" using x(6) that by simp_all
        then show ?thesis using length_buf_contents [OF b] length_buf_contents [of b'] by linarith
      qed
      ultimately show ?thesis using x by auto
    qed
  qed
qed

lemma session_control_auth_total:
  assumes s: "session_live opt s" and b: "buf_ok b" and w: "world_ok w"
  shows "\<exists>ok w' s' b'. session_control_auth w s b = Inr (ok, w', s', b') \<and> world_ok w' \<and> w_clock w' = w_clock w
    \<and> session_live opt s' \<and> se_key s' = se_key s \<and> (ok \<longrightarrow> buf_ok b' \<and> b_len b' \<le> b_len b)"
proof -
  have co: "session_auth_ok (se_tls_auth s)" by (rule session_liveD [OF s])
  have p: "(se_tls_auth s)\<lparr>co_pid_persist := w_pid_persist w\<rparr> = se_tls_auth s"
    using co w by (cases "se_tls_auth s") (auto simp: session_auth_ok_def auth_keys_ok_def world_ok_def)
  obtain ok b' co' where r: "read_control_auth (tls_now w) b (se_tls_auth s) = Inr (ok, b', co')" "session_auth_ok co'"
      "co_pid_persist co' = None" "ok \<longrightarrow> buf_ok b' \<and> b_len b' \<le> b_len b"
    using read_control_auth_total [OF co b, of "tls_now w"] w by (auto simp: world_ok_def)
  have co': "co'\<lparr>co_pid_persist := None\<rparr> = co'" using r(3) by (cases co') simp
  have "session_control_auth w s b = Inr (ok, w\<lparr>w_pid_persist := None\<rparr>, s\<lparr>se_tls_auth := co'\<rparr>, b')"
    using r by (simp add: session_control_auth_def p co')
  moreover have "world_ok (w\<lparr>w_pid_persist := None\<rparr>)" using w by (simp add: world_ok_def tls_now_def)
  moreover have "session_live opt (s\<lparr>se_tls_auth := co'\<rparr>)" using s r(2) by (simp add: session_live_def)
  ultimately show ?thesis using r(4) by auto
qed

section \<open>New keys\<close>

lemma tls_now_update: "tls_now w \<le> tls_now (tls_update_time env w)"
  by (simp add: tls_now_def tls_update_time_def update_time_def update_now_def Let_def)

lemma world_ok_update [simp]: "world_ok w \<Longrightarrow> world_ok (tls_update_time env w)"
  using tls_now_update [of w env] by (simp add: world_ok_def) (simp add: tls_update_time_def)

lemma key_state_init_total:
  assumes opt: "opt_ok opt" and env: "env_ok env" and s: "0 < length (se_key s)"
  shows "\<exists>w' s'. key_state_init env opt w s = Inr (w', s') \<and> (world_ok w \<longrightarrow> world_ok w') \<and> length (se_key s') = length (se_key s)
    \<and> se_session_id s' = se_session_id s \<and> se_tls_auth s' = se_tls_auth s \<and> key_live opt (primary s')
    \<and> ks_state (primary s') = S_INITIAL \<and> ks_key_id (primary s') = se_key_id s
    \<and> ks_key (primary s') = key_ctx_bi_zero \<and> \<not> ks_authenticated (primary s')
    \<and> (\<forall>j. j \<noteq> 0 \<longrightarrow> se_key s' ! j = se_key s ! j) \<and> se_key_id s' = key_id_next (se_key_id s)"
proof -
  let ?f = "to_frame opt" and ?w = "tls_update_time env w"
  have o: "0 \<le> FRAME_HEADROOM ?f" "FRAME_HEADROOM ?f \<le> BUF_SIZE ?f" "BUF_SIZE ?f < BUF_SIZE_MAX" using opt by (simp_all add: opt_ok_def)
  obtain pid where pid: "packet_id_init (to_replay_window opt) (to_replay_time opt) = Inr pid" using opt by (auto simp: opt_ok_def)
  obtain x where x: "te_ssl_new env (to_server opt) = Some x" using env by (auto simp: env_ok_def)
  have "TLS_CHANNEL_BUF_SIZE < BUF_SIZE_MAX" by (simp add: TLS_CHANNEL_BUF_SIZE_def BUF_SIZE_MAX_def)
  then obtain rb wb where bs: "alloc_buf (tls_junk env ?w 0) TLS_CHANNEL_BUF_SIZE = Inr rb" "alloc_buf (tls_junk env ?w 1) TLS_CHANNEL_BUF_SIZE = Inr wb"
    using alloc_buf_ok [of TLS_CHANNEL_BUF_SIZE] by (metis TLS_CHANNEL_BUF_SIZE_def zero_le_numeral)
  obtain ab where ab: "alloc_buf (tls_junk env ?w 2) (BUF_SIZE ?f) = Inr ab"
    using alloc_buf_ok [of "BUF_SIZE ?f" "tls_junk env ?w 2"] o by auto
  obtain sr where sr: "reliable_init (\<lambda>i. tls_junk env ?w (3 + i)) (BUF_SIZE ?f) (FRAME_HEADROOM ?f) TLS_RELIABLE_N_SEND_BUFFERS
      (if se_key_id s \<noteq> 0 then False else to_xmit_hold opt) = Inr sr"
    using reliable_init_ok [OF o, of TLS_RELIABLE_N_SEND_BUFFERS] unfolding TLS_RELIABLE_N_SEND_BUFFERS_def by fastforce
  obtain rr where rr: "reliable_init (\<lambda>i. tls_junk env ?w (11 + i)) (BUF_SIZE ?f) (FRAME_HEADROOM ?f) TLS_RELIABLE_N_REC_BUFFERS False = Inr rr"
      "rel_wf (BUF_SIZE ?f) rr" "rel_offset rr = FRAME_HEADROOM ?f"
    using reliable_init_ok [OF o, of TLS_RELIABLE_N_REC_BUFFERS] unfolding TLS_RELIABLE_N_REC_BUFFERS_def by fastforce
  let ?ks = "key_state_clear\<lparr>ks_ssl := Some x, ks_initial_opcode := se_initial_opcode s, ks_state := S_INITIAL, ks_key_id := se_key_id s,
      ks_plaintext_read_buf := rb, ks_plaintext_write_buf := wb, ks_ack_write_buf := ab,
      ks_send_reliable := reliable_set_timeout sr (to_packet_timeout opt), ks_rec_reliable := rr,
      ks_packet_id := pid, ks_mda_key_id := w_mda_key_id_counter ?w\<rparr>"
  let ?s = "session_key_set (s\<lparr>se_initial_opcode := P_CONTROL_SOFT_RESET_V1, se_key_id := key_id_next (se_key_id s)\<rparr>) KS_PRIMARY ?ks"
  have i: "key_state_init env opt w s = Inr (?w\<lparr>w_mda_key_id_counter := w_mda_key_id_counter ?w + 1\<rparr>, ?s)"
    using x bs ab sr rr(1) pid by (simp add: key_state_init_def Let_def)
  have p: "primary ?s = ?ks" using s by (simp add: KS_PRIMARY_def)
  have wo: "world_ok w \<longrightarrow> world_ok (?w\<lparr>w_mda_key_id_counter := w_mda_key_id_counter ?w + 1\<rparr>)"
    using world_ok_update [of w env] by (auto simp: world_ok_def tls_now_def)
  have l: "key_live opt ?ks" using rr(2,3) by (simp add: key_live_def rx_ok_def state_defs)
  show ?thesis
  proof (intro exI conjI)
    show "key_state_init env opt w s = Inr (?w\<lparr>w_mda_key_id_counter := w_mda_key_id_counter ?w + 1\<rparr>, ?s)" by (rule i)
    show "key_live opt (primary ?s)" unfolding p by (rule l)
    show "world_ok w \<longrightarrow> world_ok (?w\<lparr>w_mda_key_id_counter := w_mda_key_id_counter ?w + 1\<rparr>)" by (rule wo)
  qed (use s in \<open>simp_all add: p key_state_clear_def session_key_set_def KS_PRIMARY_def\<close>)
qed

lemma key_state_soft_reset_total:
  assumes opt: "opt_ok opt" and env: "env_ok env" and s: "session_live opt s" and w: "world_ok w"
  shows "\<exists>w' s'. key_state_soft_reset env opt w s = Inr (w', s') \<and> world_ok w' \<and> session_live opt s'"
proof -
  let ?s = "session_key_set (session_key_set (session_key_set s KS_PRIMARY ((primary s)\<lparr>ks_must_die := tls_now w + to_transition_window opt\<rparr>))
      KS_LAME_DUCK (key_state_free (lame_duck (session_key_set s KS_PRIMARY ((primary s)\<lparr>ks_must_die := tls_now w + to_transition_window opt\<rparr>))) False))
      KS_LAME_DUCK (primary (session_key_set (session_key_set s KS_PRIMARY ((primary s)\<lparr>ks_must_die := tls_now w + to_transition_window opt\<rparr>))
      KS_LAME_DUCK (key_state_free (lame_duck (session_key_set s KS_PRIMARY ((primary s)\<lparr>ks_must_die := tls_now w + to_transition_window opt\<rparr>))) False)))"
  have l: "length (se_key s) = 2" by (rule session_liveD [OF s])
  then have "0 < length (se_key ?s)" by simp
  from key_state_init_total [OF opt env this, of w] obtain w' s' where i: "key_state_init env opt w ?s = Inr (w', s')" "world_ok w \<longrightarrow> world_ok w'"
      "length (se_key s') = length (se_key ?s)" "se_session_id s' = se_session_id ?s" "se_tls_auth s' = se_tls_auth ?s" "key_live opt (primary s')"
    by blast
  let ?s' = "session_key_set s' KS_PRIMARY ((primary s')\<lparr>ks_session_id_remote := ks_session_id_remote (lame_duck s'), ks_remote_addr := ks_remote_addr (lame_duck s')\<rparr>)"
  have "key_state_soft_reset env opt w s = Inr (w', ?s')" using i(1) by (simp add: key_state_soft_reset_def Let_def)
  moreover have "session_live opt ?s'"
    using s i(3-6) l by (simp add: session_live_def key_live_def rx_ok_def index_defs)
  ultimately show ?thesis using i(2) w by blast
qed

section \<open>Routing of control packets\<close>

lemma session_live_set_key:
  assumes "session_live opt s" "key_live opt k"
  shows "session_live opt (session_key_set s KS_PRIMARY k)"
  using assms by (simp add: session_live_def index_defs)

lemma session_live_simps [simp]:
  "session_live opt (s\<lparr>se_untrusted_addr := a\<rparr>) = session_live opt s" "session_live opt (s\<lparr>se_burst := x\<rparr>) = session_live opt s"
  by (simp_all add: session_live_def)

lemma tls_match_session_ok:
  assumes m: "multi_ok m" and sid: "session_id_defined sid" and i: "tls_match_session m sid = Some i"
  shows "i = 3 \<or> i < 2 \<and> session_live (tm_opt m) (multi_session m i)"
proof (cases "find_index (\<lambda>s. session_id_equal (ks_session_id_remote (primary s)) sid) (tm_session m)")
  case None
  then show ?thesis using i unfolding tls_match_session_def None by (simp add: index_defs)
next
  case (Some k)
  have "i = k \<and> k \<noteq> 2" using i unfolding tls_match_session_def Some by (simp add: index_defs split: if_splits)
  moreover have "k < 3 \<and> session_id_equal (ks_session_id_remote (primary (multi_session m k))) sid"
    using Some multi_okD(2) [OF m] by (simp add: find_index_Some multi_session_def)
  ultimately have k: "i = k" "k \<noteq> 2" "k < 3" "session_id_equal (ks_session_id_remote (primary (multi_session m k))) sid" by auto
  have "\<not> session_dead (multi_session m k)" using k(4) sid by (simp add: session_dead_def session_id_defined_def session_id_equal_def)
  moreover have "k = 0 \<or> k = 1" using k(2,3) by linarith
  ultimately show ?thesis using multi_okD(3,4) [OF m] k(1) by auto
qed

lemma tls_initial_packet_ok:
  assumes m: "multi_ok m" and i: "i = 3 \<or> i < 2 \<and> session_live (tm_opt m) (multi_session m i)"
    and r: "tls_initial_packet m src op i = Some (m', i', new_link)"
  shows "multi_ok m' \<and> tm_opt m' = tm_opt m \<and> (i' = 3 \<or> i' < 2 \<and> session_live (tm_opt m') (multi_session m' i'))"
proof -
  have "multi_ok (multi_session_set m TM_ACTIVE ((multi_session m TM_ACTIVE)\<lparr>se_untrusted_addr := src\<rparr>))"
    using multi_okD [OF m] by (intro multi_ok_set [OF m]) (auto simp: index_defs session_live_def)
  then show ?thesis using m i r multi_okD(2,3) [OF m]
    by (auto simp: tls_initial_packet_def Let_def index_defs split: if_splits)
qed

lemma session_control_auth_multi:
  assumes m: "multi_ok m" and i: "i < 2" "session_live (tm_opt m) (multi_session m i)" and b: "buf_ok b" and w: "world_ok w"
  shows "\<exists>ok w' s' b'. session_control_auth w (multi_session m i) b = Inr (ok, w', s', b') \<and> world_ok w' \<and> session_live (tm_opt m) s'
     \<and> multi_ok (multi_session_set m i s') \<and> (ok \<longrightarrow> buf_ok b' \<and> b_len b' \<le> b_len b)"
proof -
  obtain ok w' s' b' where r: "session_control_auth w (multi_session m i) b = Inr (ok, w', s', b')" "world_ok w'"
      "session_live (tm_opt m) s'" "ok \<longrightarrow> buf_ok b' \<and> b_len b' \<le> b_len b"
    using session_control_auth_total [OF i(2) b w] by blast
  then show ?thesis using multi_ok_set [OF m, of i s'] i session_liveD(1) [OF r(3)] by auto
qed

lemma tls_control_route_new_total:
  assumes m: "multi_ok m" and w: "world_ok w" and b: "buf_ok b" and op: "is_hard_reset op 0"
  shows "\<exists>r w' m' b'. tls_control_route env w m src b op TM_SIZE nl = Inr (r, w', m', b') \<and> multi_ok m' \<and> world_ok w' \<and> tm_opt m' = tm_opt m
    \<and> (case r of None \<Rightarrow> True | Some (i', _, _) \<Rightarrow> i' < 2 \<and> session_live (tm_opt m') (multi_session m' i') \<and> buf_ok b' \<and> b_len b' \<le> b_len b)"
proof (cases "to_single_session (tm_opt m) \<or> \<not> is_hard_reset op (to_key_method (tm_opt m))")
  case True
  then show ?thesis using m w op by (auto simp: tls_control_route_def Let_def)
next
  case False
  then have l: "session_live (tm_opt m) (multi_session m 1)" using multi_okD(4) [OF m] by auto
  have one: "(1::nat) < 2" by simp
  obtain ok w' s' b' where r: "session_control_auth w (multi_session m 1) b = Inr (ok, w', s', b')" "world_ok w'" "session_live (tm_opt m) s'"
      "multi_ok (multi_session_set m 1 s')" "ok \<longrightarrow> buf_ok b' \<and> b_len b' \<le> b_len b"
    using session_control_auth_multi [OF m one l b w] by blast
  have "multi_ok (multi_session_set m 1 (s'\<lparr>se_untrusted_addr := src\<rparr>))"
    using r(3) session_liveD(1) [OF r(3)] by (intro multi_ok_set [OF m]) simp_all
  then show ?thesis using False op r multi_okD(2) [OF m] by (cases ok) (simp_all add: tls_control_route_def Let_def index_defs)
qed

lemma tls_control_route_old_total:
  assumes m: "multi_ok m" and w: "world_ok w" and env: "env_ok env" and b: "buf_ok b"
    and i: "i = 3 \<and> \<not> is_hard_reset op 0 \<or> i < 2 \<and> session_live (tm_opt m) (multi_session m i)"
  shows "\<exists>r w' m' b'. tls_control_route env w m src b op i nl = Inr (r, w', m', b') \<and> multi_ok m' \<and> world_ok w' \<and> tm_opt m' = tm_opt m
    \<and> (case r of None \<Rightarrow> True | Some (i', _, _) \<Rightarrow> i' < 2 \<and> session_live (tm_opt m') (multi_session m' i') \<and> buf_ok b' \<and> b_len b' \<le> b_len b)"
proof (cases "i < 2")
  case False
  then show ?thesis using m w i by (simp add: tls_control_route_def Let_def index_defs)
next
  case i2: True
  then have l: "session_live (tm_opt m) (multi_session m i)" and idx: "i = 0 \<or> i = 1" using i by auto
  obtain ok w' s' b' where r: "session_control_auth w (multi_session m i) b = Inr (ok, w', s', b')" "world_ok w'" "session_live (tm_opt m) s'"
      "multi_ok (multi_session_set m i s')" "ok \<longrightarrow> buf_ok b' \<and> b_len b' \<le> b_len b"
    using session_control_auth_multi [OF m i2 l b w] by blast
  obtain w2 s2 where k: "key_state_soft_reset env (tm_opt m) w' s' = Inr (w2, s2)" "world_ok w2" "session_live (tm_opt m) s2"
    using key_state_soft_reset_total [OF multi_okD(1) [OF m] env r(3,2)] by blast
  have "multi_ok (multi_session_set m i s2)" using multi_ok_set [OF m, of i s2] i2 k(3) session_liveD(1) [OF k(3)] by simp
  then show ?thesis using idx r k multi_okD(2) [OF m] m w
    by (cases ok) (auto simp: tls_control_route_def Let_def index_defs)
qed

section \<open>The reliability layer\<close>

lemma tls_control_process_total:
  assumes m: "multi_ok m" and i: "i < 2" and l: "session_live (tm_opt m) (multi_session m i)"
    and b: "buf_ok b" and fit: "packet_fits m b"
  shows "\<exists>ok m' b'. tls_control_process now m src b op key_id sid i nl burst = Inr (ok, m', b') \<and> multi_ok m' \<and> tm_opt m' = tm_opt m"
proof -
  let ?s = "multi_session m i" and ?k = "primary (multi_session m i)"
  let ?m = "if nl then m\<lparr>tm_n_sessions := tm_n_sessions m + 1\<rparr> else m"
  have m': "multi_ok ?m" "tm_opt ?m = tm_opt m" using m by (simp_all add: multi_ok_def multi_session_def)
  have put: "multi_ok (multi_session_set ?m i (session_key_set s KS_PRIMARY k))"
    if "session_live (tm_opt m) s" "key_live (tm_opt m) k" for s k
  proof -
    have "session_live (tm_opt m) (session_key_set s KS_PRIMARY k)" by (rule session_live_set_key [OF that])
    from session_liveD(1) [OF this] this show ?thesis using i m' by (intro multi_ok_set) auto
  qed
  obtain ok send_ack b' where ra: "reliable_ack_read \<lparr>a_len = 0, a_packet_id = replicate RELIABLE_ACK_SIZE 0\<rparr> b (se_session_id ?s) = (ok, send_ack, b')"
    by (metis surj_pair)
  note b' = reliable_ack_read_shrinks [OF b ra]
  have k: "key_live (tm_opt m) ?k" using l by (simp add: session_live_def)
  have rx: "rel_wf (BUF_SIZE (to_frame (tm_opt m))) (ks_rec_reliable ?k)" "rel_offset (ks_rec_reliable ?k) = FRAME_HEADROOM (to_frame (tm_opt m))"
    using k by (simp_all add: key_live_def rx_ok_def)
  obtain rel ack where rel: "tls_receive_control (ks_rec_reliable ?k) (ks_rec_ack ?k) b' op = Inr (rel, ack)"
      "rel_wf (BUF_SIZE (to_frame (tm_opt m))) rel" "rel_offset rel = FRAME_HEADROOM (to_frame (tm_opt m))"
    using tls_receive_total [OF rx(1), of b' "ks_rec_ack ?k" op] b' fit rx(2) by (auto simp: packet_fits_def)
  have st: "ks_state ?k \<noteq> S_UNDEF" "ks_state ?k \<noteq> S_ERROR" "session_id_defined (se_session_id ?s)"
    using session_liveD(2,4) [OF l] by (auto simp: state_defs index_defs)
  define s where "s = (if burst \<and> \<not> se_burst ?s then ?s\<lparr>se_burst := True\<rparr> else ?s)"
  define k1 where "k1 = (let ks = (if nl then ?k\<lparr>ks_session_id_remote := sid, ks_remote_addr := src\<rparr> else ?k)
     in if burst \<and> \<not> se_burst ?s then ks\<lparr>ks_send_reliable := reliable_schedule_now now (ks_send_reliable ks)\<rparr> else ks)"
  have s: "session_live (tm_opt m) s" using l by (simp add: s_def)
  have k1: "key_live (tm_opt m) k1" "ks_rec_reliable k1 = ks_rec_reliable ?k" "ks_rec_ack k1 = ks_rec_ack ?k"
    using k by (auto simp: k1_def Let_def key_live_def rx_ok_def)
  have eq: "tls_control_process now m src b op key_id sid i nl burst =
      (if \<not> nl \<and> \<not> link_socket_actual_match (ks_remote_addr ?k) src then Inr (False, m, b)
       else if ks_key_id k1 \<noteq> key_id then Inr (False, multi_session_set ?m i (session_key_set s KS_PRIMARY k1), b)
       else if \<not> ok then Inr (False, multi_session_set ?m i (session_key_set s KS_PRIMARY k1), b')
       else let k2 = k1\<lparr>ks_send_reliable := reliable_send_purge (ks_send_reliable k1) send_ack\<rparr>
            in Inr (True, multi_session_set ?m i (session_key_set s KS_PRIMARY
                 (if op \<noteq> P_ACK_V1 then k2\<lparr>ks_rec_reliable := rel, ks_rec_ack := ack\<rparr> else k2)), b'))"
    unfolding tls_control_process_def Let_def s_def [symmetric] k1_def [unfolded Let_def, symmetric]
    using st ra rel(1) k1(2,3) by (cases ok) (simp_all add: s_def)
  have k2: "key_live (tm_opt m) (k1\<lparr>ks_send_reliable := x\<rparr>)" "key_live (tm_opt m) (k1\<lparr>ks_send_reliable := x, ks_rec_reliable := rel, ks_rec_ack := ack\<rparr>)" for x
    using k1(1) rel(2,3) by (simp_all add: key_live_def rx_ok_def)
  have o: "tm_opt (multi_session_set ?m i q) = tm_opt m" for q by simp
  show ?thesis unfolding eq Let_def
    using m put [OF s k1(1)] put [OF s k2(1)] put [OF s k2(2)] o
    by (auto simp del: multi_session_set_simps)
qed

section \<open>Every packet\<close>

lemma tls_pre_decrypt_control_total:
  fixes m :: "'s tls_multi"
  assumes m: "multi_ok m" and w: "world_ok w" and env: "env_ok env" and b: "buf_ok b" and fit: "packet_fits m b"
  shows "\<exists>ret err w' m'. tls_pre_decrypt_control env w m src b op key_id = Inr (ret, err, w', m') \<and> multi_ok m' \<and> world_ok w' \<and> tm_opt m' = tm_opt m"
proof -
  define P where "P x \<longleftrightarrow> (\<exists>ret err w' m'. x = Inr (ret, err, w', m') \<and> multi_ok m' \<and> world_ok w' \<and> tm_opt m' = tm_opt m)"
    for x :: "(bool \<times> bool \<times> tls_world \<times> 's tls_multi) result"
  have PI: "P (Inr (ret, err, w', m'))" if "multi_ok m'" "world_ok w'" "tm_opt m' = tm_opt m" for ret err w' m'
    using that by (simp add: P_def)
  have "P (tls_pre_decrypt_control env w m src b op key_id)"
  proof (cases "tls_packet_session_id b")
    case None
    then show ?thesis using m w by (simp add: tls_pre_decrypt_control_def PI)
  next
    case (Some sid)
    have sid: "session_id_defined sid" using Some by (auto simp: tls_packet_session_id_def split: prod.splits if_splits)
    show ?thesis
    proof (cases "tls_match_session m sid")
      case None
      then show ?thesis using Some m w by (simp add: tls_pre_decrypt_control_def PI)
    next
      case i: (Some i)
      show ?thesis
      proof (cases "tls_initial_packet m src op i")
        case None
        then show ?thesis using Some i m w by (simp add: tls_pre_decrypt_control_def PI)
      next
        case p: (Some r)
        obtain m1 i1 nl where r: "r = (m1, i1, nl)" by (cases r)
        have m1: "multi_ok m1" "tm_opt m1 = tm_opt m" "i1 = 3 \<or> i1 < 2 \<and> session_live (tm_opt m1) (multi_session m1 i1)"
          using tls_initial_packet_ok [OF m tls_match_session_ok [OF m sid i], of src op m1 i1 nl] p r by auto
        obtain r2 w2 m2 b2 where c: "tls_control_route env w m1 src b op i1 nl = Inr (r2, w2, m2, b2)" "multi_ok m2" "world_ok w2" "tm_opt m2 = tm_opt m1"
            "case r2 of None \<Rightarrow> True | Some (i', _, _) \<Rightarrow> i' < 2 \<and> session_live (tm_opt m2) (multi_session m2 i') \<and> buf_ok b2 \<and> b_len b2 \<le> b_len b"
          using tls_control_route_new_total [OF m1(1) w b, of op env src nl] tls_control_route_old_total [OF m1(1) w env b, of i1 op src nl] m1(3)
          by (cases "i1 = 3 \<and> is_hard_reset op 0") (auto simp: index_defs)
        show ?thesis
        proof (cases r2)
          case None
          then show ?thesis using Some i p r c m1 m w by (simp add: tls_pre_decrypt_control_def PI)
        next
          case r2: (Some x)
          obtain i2 nl2 bu where x: "x = (i2, nl2, bu)" by (cases x)
          have y: "i2 < 2" "session_live (tm_opt m2) (multi_session m2 i2)" "buf_ok b2" "packet_fits m2 b2"
            using c(4,5) r2 x fit m1(2) by (auto simp: packet_fits_def)
          show ?thesis
            using tls_control_process_total [OF c(2) y, of "tls_now w2" src op key_id sid nl2 bu] Some i p r c m1 m w r2 x
            by (auto simp: tls_pre_decrypt_control_def intro: PI)
        qed
      qed
    qed
  qed
  then show ?thesis by (simp only: P_def)
qed

section \<open>Data packets\<close>

lemma multi_key_set_ok:
  assumes m: "multi_ok m" and p: "p \<in> set key_scan"
    and k: "ks_state k = ks_state (multi_key m p)" "ks_rec_reliable k = ks_rec_reliable (multi_key m p)"
  shows "multi_ok (multi_key_set m p k)"
proof -
  have l: "length (se_key (multi_session m 0)) = 2" "length (se_key (multi_session m 2)) = 2" using multi_okD(5) [OF m, of 0] multi_okD(5) [OF m, of 2] by auto
  have p': "p = (0, 0) \<or> p = (0, 1) \<or> p = (2, 1)" using p by (auto simp: key_scan_def index_defs)
  have "session_live (tm_opt m) (session_key_set (multi_session m 0) (snd p) k)" if "fst p = 0"
    using multi_okD(3) [OF m] p' k l that by (auto simp: session_live_def key_live_def rx_ok_def index_defs multi_key_def)
  then show ?thesis unfolding multi_key_set_def using p' l multi_okD(6) [OF m] by (intro multi_ok_set [OF m]) (auto simp: KS_PRIMARY_def)
qed

lemma multi_key_set_simps [simp]:
  "tm_opt (multi_key_set m p k) = tm_opt m" "tm_n_soft_errors (multi_key_set m p k) = tm_n_soft_errors m"
  by (simp_all add: multi_key_set_def)

lemma find_key_scan: "find P key_scan = Some p \<Longrightarrow> p \<in> set key_scan \<and> P p"
  by (auto simp: find_Some_iff)

lemma tls_pre_decrypt_data_total:
  assumes m: "multi_ok m" and b: "buf_ok b" "0 < b_len b"
  shows "\<exists>p m' b' opt'. tls_pre_decrypt_data m src b opt key_id = Inr (p, m', b', opt') \<and> multi_ok m' \<and> tm_opt m' = tm_opt m \<and> buf_ok b'"
proof (cases "find (\<lambda>p. tls_key_matches m src key_id (multi_key m p)) key_scan")
  case None
  then show ?thesis using m b by (simp add: tls_pre_decrypt_data_def buf_ok_def buf_valid_def)
next
  case (Some p)
  obtain b' where b': "buf_advance b 1 = (True, b')" "buf_ok b'" using buf_advance_ok [OF b(1), of 1] b(2) by auto
  have "multi_ok (multi_key_set m p ((multi_key m p)\<lparr>ks_n_packets := x, ks_n_bytes := y\<rparr>))" for x y
    using find_key_scan [OF Some] by (intro multi_key_set_ok [OF m]) auto
  then show ?thesis using Some b' by (simp add: tls_pre_decrypt_data_def Let_def)
qed

section \<open>New sessions\<close>

lemma session_id_loop_ends:
  assumes "session_id_defined \<lparr>sid_id = te_prng env (i + k)\<rparr>"
  shows "\<exists>j sid'. session_id_loop env i sid = Some (j, sid') \<and> session_id_defined sid'"
  using assms
proof (induction k arbitrary: i sid)
  case 0
  then show ?case by (subst session_id_loop.simps, subst session_id_loop.simps) auto
next
  case (Suc k)
  then show ?case using Suc.IH [of "i + 1" "\<lparr>sid_id = te_prng env i\<rparr>"] by (subst session_id_loop.simps) auto
qed

lemma packet_id_init_replay:
  assumes "packet_id_init seq_backtrack time_backtrack = Inr pid"
  shows "\<exists>A. replay_ok (pid_rec pid) A"
  using packet_id_init_ok [OF assms] by blast

lemma tls_session_init_total:
  fixes env :: "'s tls_env"
  assumes opt: "opt_ok opt" and env: "env_ok env" and w: "world_ok w"
  shows "\<exists>w' s. tls_session_init env opt w = Inr (w', s) \<and> world_ok w' \<and> session_live opt s"
proof -
  obtain k where "session_id_defined \<lparr>sid_id = te_prng env (w_draws w + k)\<rparr>" using env by (auto simp: env_ok_def)
  then obtain j sid where sid: "session_id_loop env (w_draws w) x_session_id_zero = Some (j, sid)" "session_id_defined sid"
    using session_id_loop_ends by blast
  obtain pid where pid: "packet_id_init (to_replay_window opt) (to_replay_time opt) = Inr pid" using opt by (auto simp: opt_ok_def)
  let ?op = "if to_key_method opt = 1
      then (if to_server opt then P_CONTROL_HARD_RESET_SERVER_V1 else P_CONTROL_HARD_RESET_CLIENT_V1)
      else (if to_server opt then P_CONTROL_HARD_RESET_SERVER_V2 else P_CONTROL_HARD_RESET_CLIENT_V2)"
  let ?s = "(tls_session_clear :: 's tls_session)\<lparr>se_session_id := sid, se_initial_opcode := ?op, se_tls_auth := (to_tls_auth opt)\<lparr>co_packet_id := Some pid\<rparr>\<rparr>"
  have z: "se_session_id (tls_session_clear :: 's tls_session) = x_session_id_zero" "length (se_key ?s) = KS_SIZE" by (simp_all add: tls_session_clear_def)
  have l: "0 < length (se_key ?s)" by (simp add: tls_session_clear_def index_defs)
  obtain w' s' where i: "key_state_init env opt (w\<lparr>w_draws := j\<rparr>) ?s = Inr (w', s')" "world_ok (w\<lparr>w_draws := j\<rparr>) \<longrightarrow> world_ok w'"
      "length (se_key s') = length (se_key ?s)" "se_session_id s' = se_session_id ?s" "se_tls_auth s' = se_tls_auth ?s" "key_live opt (primary s')"
    using key_state_init_total [OF opt env l, of "w\<lparr>w_draws := j\<rparr>"] by (elim exE conjE) (rule that; assumption)
  have w': "world_ok w'" using i(2) w by (simp add: world_ok_def tls_now_def)
  have "session_auth_ok ((to_tls_auth opt)\<lparr>co_packet_id := Some pid\<rparr>)"
    using opt packet_id_init_replay [OF pid] by (auto simp: opt_ok_def session_auth_ok_def auth_keys_ok_def co_long_form_def tls_auth_keys_def)
  then have "session_live opt s'" using i(3-6) sid(2) z(2) by (simp add: session_live_def)
  moreover have "tls_session_init env opt w = Inr (w', s')"
    using sid(1) pid opt w i(1) by (simp add: tls_session_init_def z(1) returns_def opt_ok_def world_ok_def Let_def)
  ultimately show ?thesis using w' by blast
qed

lemma tls_multi_init_finalize_ok:
  fixes env :: "'s tls_env"
  assumes f: "tls_init_control_channel_frame_parameters frame (to_frame o0) = Inr f"
    and opt: "opt_ok (o0\<lparr>to_frame := f, to_tls_auth := (to_tls_auth o0)\<lparr>co_key_ctx_bi := Some key\<rparr>\<rparr>)"
    and env: "env_ok env" and w: "world_ok w"
  shows "\<exists>w' m. tls_multi_init_finalize env w (tls_multi_init o0 key) frame = Inr (w', m) \<and> world_ok w' \<and> multi_ok m"
proof -
  let ?o = "o0\<lparr>to_frame := f, to_tls_auth := (to_tls_auth o0)\<lparr>co_key_ctx_bi := Some key\<rparr>\<rparr>"
  obtain w1 s1 where s1: "tls_session_init env ?o w = Inr (w1, s1)" "world_ok w1" "session_live ?o s1"
    using tls_session_init_total [OF opt env w] by blast
  obtain w2 s2 where s2: "tls_session_init env ?o w1 = Inr (w2, s2)" "world_ok w2" "session_live ?o s2"
    using tls_session_init_total [OF opt env s1(2)] by blast
  let ?init = "tls_multi_init o0 key :: 's tls_multi"
  let ?m = "?init\<lparr>tm_opt := (tm_opt ?init)\<lparr>to_frame := f\<rparr>\<rparr>"
  have o1: "tm_opt ?m = ?o" by (cases o0) (simp add: tls_multi_init_def)
  have o2: "to_frame (tm_opt ?init) = to_frame o0" "length (tm_session ?m) = 3" by (simp_all add: tls_multi_init_def index_defs)
  note o = o1 o2
  have c: "multi_session ?m i = tls_session_clear" if "i < 3" for i
    using that by (simp add: tls_multi_init_def multi_session_def index_defs)
  have l: "length (se_key (tls_session_clear :: 's tls_session)) = 2" by (simp add: tls_session_clear_def index_defs)
  have d: "session_dead (tls_session_clear :: 's tls_session)"
    unfolding session_dead_def by (simp add: l KS_SIZE_def) (simp add: tls_session_clear_def index_defs state_defs key_state_clear_def session_id_defined_def)
  have z: "ks_state (se_key (tls_session_clear :: 's tls_session) ! 0) < S_INITIAL"
    by (simp add: tls_session_clear_def index_defs state_defs key_state_clear_def)
  let ?n = "multi_session_set ?m TM_ACTIVE s1"
  let ?n' = "if to_single_session ?o then ?n else multi_session_set ?n TM_UNTRUSTED s2"
  have "tls_multi_init_finalize env w ?init frame = Inr (if to_single_session ?o then w1 else w2, ?n')"
    using f s1(1) s2(1) unfolding tls_multi_init_finalize_def o(2) f Let_def bind_result.simps o(1) s1(1) multi_session_set_simps(1) by simp
  moreover have "multi_ok ?n'"
    using opt s1(3) s2(3) d l z o(3) by (auto simp: multi_ok_def index_defs o(1) c)
  ultimately show ?thesis using s1(2) s2(2) by (auto split: if_splits)
qed

end
