(* ===== verification/Tls_Reach.thy ===== *)
theory Tls_Reach
  imports Tls_Invariant
begin

text \<open>
  The event loop preserves the invariant of \<open>Tls_Invariant\<close>, and with it no packet that arrives between two rounds of the
  loop stops the process.

  \<open>multi_sim\<close> relates objects that differ only in what the invariant does not see (authentication, names, keys, counters);
  the stages of \<open>tls_process\<close> are treated one by one, and \<open>reachable\<close> is the relation of all states an
  object passes through.
\<close>

section \<open>Changes the invariant does not see\<close>

definition key_sim :: "'s key_state \<Rightarrow> 's key_state \<Rightarrow> bool" where
  "key_sim k k' \<longleftrightarrow> ks_state k' = ks_state k \<and> ks_rec_reliable k' = ks_rec_reliable k \<and> ks_session_id_remote k' = ks_session_id_remote k"

definition session_sim :: "'s tls_session \<Rightarrow> 's tls_session \<Rightarrow> bool" where
  "session_sim s s' \<longleftrightarrow> se_session_id s' = se_session_id s \<and> se_tls_auth s' = se_tls_auth s \<and> list_all2 key_sim (se_key s) (se_key s')"

definition multi_sim :: "'s tls_multi \<Rightarrow> 's tls_multi \<Rightarrow> bool" where
  "multi_sim m m' \<longleftrightarrow> tm_opt m' = tm_opt m \<and> list_all2 session_sim (tm_session m) (tm_session m')"

lemma key_sim_refl [simp]: "key_sim k k"
  by (simp add: key_sim_def)

lemma key_sim_trans: "key_sim k k' \<Longrightarrow> key_sim k' k'' \<Longrightarrow> key_sim k k''"
  by (simp add: key_sim_def)

lemma session_sim_refl [simp]: "session_sim s s"
  by (simp add: session_sim_def list.rel_refl)

lemma session_sim_trans: "session_sim s s' \<Longrightarrow> session_sim s' s'' \<Longrightarrow> session_sim s s''"
  unfolding session_sim_def by (metis list_all2_trans [of key_sim key_sim key_sim] key_sim_trans)

lemma multi_sim_refl [simp]: "multi_sim m m"
  by (simp add: multi_sim_def list.rel_refl)

lemma multi_sim_trans [trans]: "multi_sim m m' \<Longrightarrow> multi_sim m' m'' \<Longrightarrow> multi_sim m m''"
  unfolding multi_sim_def by (metis list_all2_trans [of session_sim session_sim session_sim] session_sim_trans)

lemma list_all2_update_same: "(\<And>x. P x x) \<Longrightarrow> (i < length xs \<Longrightarrow> P (xs ! i) y) \<Longrightarrow> list_all2 P xs (xs[i := y])"
  by (cases "i < length xs") (auto simp: list_all2_conv_all_nth nth_list_update)

lemma multi_sim_session: "session_sim (multi_session m i) s \<Longrightarrow> multi_sim m (multi_session_set m i s)"
  by (auto simp: multi_sim_def multi_session_set_def multi_session_def intro!: list_all2_update_same)

lemma multi_sim_key: "key_sim (multi_key m p) k \<Longrightarrow> multi_sim m (multi_key_set m p k)"
  unfolding multi_key_set_def
  by (rule multi_sim_session) (auto simp: session_sim_def session_key_set_def multi_key_def intro!: list_all2_update_same)

lemma multi_sim_peer: "multi_sim m (multi_peer_set m i pc)"
  unfolding multi_peer_set_def by (rule multi_sim_session) (simp add: session_sim_def list.rel_refl)

lemma multi_sim_authenticated: "multi_sim m (set_authenticated m i a)"
  unfolding set_authenticated_def by (rule multi_sim_key) (simp add: key_sim_def)

lemma multi_sim_deauthenticate: "multi_sim m (tls_deauthenticate m)"
  by (simp add: multi_sim_def tls_deauthenticate_def list_all2_conv_all_nth session_sim_def key_sim_def)

lemma key_sim_live: "key_sim k k' \<Longrightarrow> key_live opt k' = key_live opt k"
  by (simp add: key_sim_def key_live_def rx_ok_def)

lemma session_sim_primary: "session_sim s s' \<Longrightarrow> length (se_key s) = 2 \<Longrightarrow> length (se_key s') = 2 \<and> key_sim (primary s) (primary s')"
  by (auto simp: session_sim_def list_all2_conv_all_nth index_defs)

lemma session_sim_live: "session_sim s s' \<Longrightarrow> session_live opt s \<Longrightarrow> session_live opt s'"
  using session_sim_primary [of s s'] key_sim_live [of "primary s" "primary s'" opt]
  by (auto simp: session_live_def session_sim_def KS_SIZE_def)

lemma session_sim_dead: "session_sim s s' \<Longrightarrow> session_dead s \<Longrightarrow> session_dead s'"
  using session_sim_primary [of s s'] by (auto simp: session_dead_def KS_SIZE_def key_sim_def)

lemma multi_sim_nth: "multi_sim m m' \<Longrightarrow> i < length (tm_session m) \<Longrightarrow> session_sim (multi_session m i) (multi_session m' i)"
  by (simp add: multi_sim_def list_all2_conv_all_nth multi_session_def)

lemma multi_sim_ok:
  assumes "multi_sim m m'" "multi_ok m"
  shows "multi_ok m'"
proof -
  note D = multi_okD [OF assms(2)]
  have s: "session_sim (multi_session m i) (multi_session m' i)" if "i < 3" for i using multi_sim_nth [OF assms(1), of i] that D(2) by simp
  have o: "tm_opt m' = tm_opt m" "length (tm_session m') = 3"
    using assms(1) D(2) list_all2_lengthD [of session_sim "tm_session m" "tm_session m'"] by (auto simp: multi_sim_def)
  have "length (se_key (multi_session m' 2)) = 2 \<and> ks_state (primary (multi_session m' 2)) < 1"
    using session_sim_primary [OF s [of 2]] D(5) [of 2] D(6) by (simp add: key_sim_def)
  then show ?thesis
    using D(1,3,4) o session_sim_live [OF s [of 0]] session_sim_live [OF s [of 1]] session_sim_dead [OF s [of 1]]
    by (auto simp: multi_ok_def index_defs state_defs)
qed

section \<open>Encrypted control packets\<close>

definition co_sim :: "crypto_options \<Rightarrow> crypto_options \<Rightarrow> bool" where
  \<comment> \<open>only the state of outgoing packet ids differs\<close>
  "co_sim co co' \<longleftrightarrow> co_key_ctx_bi co' = co_key_ctx_bi co \<and> co_flags co' = co_flags co \<and> co_pid_persist co' = co_pid_persist co
     \<and> map_option pid_rec (co_packet_id co') = map_option pid_rec (co_packet_id co)"

lemma encrypt_packet_id_rec: "encrypt_packet_id now pid lf b = Inr (pid', b') \<Longrightarrow> pid_rec pid' = pid_rec pid"
  by (auto simp: encrypt_packet_id_def bind_result_Inr case_prod_beta)

lemma encrypt_iv_sim: "encrypt_iv now prng ctx co b = Inr (iv, co', b') \<Longrightarrow> co_sim co co'"
  by (auto simp: encrypt_iv_def co_sim_def bind_result_Inr Let_def encrypt_packet_id_rec case_prod_beta
      split: cipher_mode.splits option.splits)

lemma openvpn_encrypt_sim:
  assumes "openvpn_encrypt now prng b work co frame = Inr (b', co')"
  shows "co_sim co co'"
proof (cases "co_key_ctx_bi co")
  case None
  then show ?thesis using assms by (simp add: openvpn_encrypt_def co_sim_def)
next
  case kb: (Some kb)
  show ?thesis
  proof (cases "b_len b > 0")
    case False
    then show ?thesis using assms kb by (simp add: openvpn_encrypt_def co_sim_def)
  next
    case True
    define r where "r = (case k_cipher (kb_encrypt kb) of
        Some cipher \<Rightarrow> bind_result (encrypt_iv now prng cipher co b) (\<lambda>(iv_buf, opt, b).
            bind_result (encrypt_cipher cipher (co_use_iv opt) iv_buf b work frame) (\<lambda>work. Inr (work, opt, b)))
      | None \<Rightarrow> (case co_packet_id co of
            Some pid \<Rightarrow> bind_result (encrypt_packet_id now pid (co_long_form co) b) (\<lambda>(pid, b). Inr (Some b, co\<lparr>co_packet_id := Some pid\<rparr>, b))
          | None \<Rightarrow> Inr (Some b, co, b)))"
    have r: "co_sim co co1" if "r = Inr (w1, co1, b1)" for w1 co1 b1
    proof (cases "k_cipher (kb_encrypt kb)")
      case None
      then show ?thesis using that by (auto simp: r_def co_sim_def bind_result_Inr encrypt_packet_id_rec split: option.splits)
    next
      case (Some c)
      then show ?thesis using that encrypt_iv_sim by (auto simp: r_def bind_result_Inr)
    qed
    have eq: "openvpn_encrypt now prng b work co frame = bind_result r (\<lambda>(work, opt, b).
        case work of None \<Rightarrow> Inr (b\<lparr>b_len := 0\<rparr>, opt) | Some work \<Rightarrow> bind_result (hmac_sign (k_hmac (kb_encrypt kb)) work) (\<lambda>work. Inr (work, opt)))"
      using kb True by (simp add: openvpn_encrypt_def r_def Let_def)
    obtain w1 co1 b1 where "r = Inr (w1, co1, b1)" "co' = co1"
      using assms unfolding eq bind_result_Inr by (auto simp: bind_result_Inr split: option.splits)
    then show ?thesis using r by simp
  qed
qed

lemma co_sim_auth:
  assumes "co_sim co co'" "session_auth_ok co"
  shows "session_auth_ok co'" "co_pid_persist co' = None"
proof -
  obtain pid A where "co_packet_id co = Some pid" "replay_ok (pid_rec pid) A" using assms(2) by (auto simp: session_auth_ok_def)
  moreover then obtain pid' where "co_packet_id co' = Some pid'" "pid_rec pid' = pid_rec pid" using assms(1) by (auto simp: co_sim_def)
  ultimately show "session_auth_ok co'"
    using assms by (auto simp: session_auth_ok_def auth_keys_ok_def co_sim_def co_long_form_def tls_auth_keys_def)
  then show "co_pid_persist co' = None" by (simp add: session_auth_ok_def auth_keys_ok_def)
qed

lemma write_control_auth_cases:
  assumes r: "write_control_auth w s ks b op mx pre = Inr (w', s', ks', b')"
  obtains ack where "ks' = ks\<lparr>ks_rec_ack := ack\<rparr>"
    "w' = w \<and> s' = s \<or> (\<exists>b1 b2 co. openvpn_encrypt (tls_now w) [] b1 clear_buf ((se_tls_auth s)\<lparr>co_pid_persist := w_pid_persist w\<rparr>) no_frame = Inr (b2, co)
        \<and> w' = w\<lparr>w_pid_persist := co_pid_persist co\<rparr> \<and> s' = s\<lparr>se_tls_auth := co\<lparr>co_pid_persist := None\<rparr>\<rparr>)"
proof -
  obtain ok ack b1 where a1: "reliable_ack_write (ks_rec_ack ks) b (ks_session_id_remote ks) mx pre = Inr (ok, ack, b1)"
    using r by (auto simp: write_control_auth_def bind_result_Inr)
  obtain ok2 b2 where a2: "session_id_write_prepend (se_session_id s) b1 = (ok2, b2)" by fastforce
  obtain q b3 where a3: "buf_prepend b2 1 = (q, b3)" by fastforce
  have ok: "link_socket_actual_defined (Some (ks_remote_addr ks))" ok ok2 "q \<noteq> None" "co_key_ctx_bi (se_tls_auth s) \<noteq> None"
    using r a1 a2 a3 by (auto simp: write_control_auth_def bind_result_Inr Let_def split: option.splits)
  then obtain pos kb where pos: "q = Some pos" "co_key_ctx_bi (se_tls_auth s) = Some kb" by auto
  show ?thesis
    by (rule that [of ack]) (use r a1 a2 a3 ok pos in \<open>auto simp: write_control_auth_def bind_result_Inr Let_def split: if_splits\<close>)
qed

lemma write_control_auth_keeps:
  assumes r: "write_control_auth w s ks b op mx pre = Inr (w', s', ks', b')" and w: "world_ok w" and s: "session_live opt s"
  shows "world_ok w'" "session_live opt s'" "se_key s' = se_key s" "key_sim ks ks'"
proof -
  have a: "session_auth_ok (se_tls_auth s)" by (rule session_liveD [OF s])
  have p: "(se_tls_auth s)\<lparr>co_pid_persist := w_pid_persist w\<rparr> = se_tls_auth s"
    using a w by (cases "se_tls_auth s") (auto simp: session_auth_ok_def auth_keys_ok_def world_ok_def)
  obtain ack where ks': "ks' = ks\<lparr>ks_rec_ack := ack\<rparr>"
      and c: "w' = w \<and> s' = s \<or> (\<exists>b1 b2 co. openvpn_encrypt (tls_now w) [] b1 clear_buf (se_tls_auth s) no_frame = Inr (b2, co)
        \<and> w' = w\<lparr>w_pid_persist := co_pid_persist co\<rparr> \<and> s' = s\<lparr>se_tls_auth := co\<lparr>co_pid_persist := None\<rparr>\<rparr>)"
    using write_control_auth_cases [OF r] unfolding p by metis
  show "key_sim ks ks'" by (simp add: ks' key_sim_def)
  from c have "world_ok w' \<and> session_live opt s' \<and> se_key s' = se_key s"
  proof (elim disjE exE conjE)
    fix b1 b2 co
    assume e: "openvpn_encrypt (tls_now w) [] b1 clear_buf (se_tls_auth s) no_frame = Inr (b2, co)"
      "w' = w\<lparr>w_pid_persist := co_pid_persist co\<rparr>" "s' = s\<lparr>se_tls_auth := co\<lparr>co_pid_persist := None\<rparr>\<rparr>"
    note co = co_sim_auth [OF openvpn_encrypt_sim [OF e(1)] a]
    have "s' = s\<lparr>se_tls_auth := co\<rparr>" using e(3) co(2) by (cases co) simp
    then show ?thesis using e(2) co w s by (simp add: session_live_def world_ok_def tls_now_def)
  qed (use w s in auto)
  then show "world_ok w'" "session_live opt s'" "se_key s' = se_key s" by auto
qed

section \<open>The stages of a round\<close>

definition step_ok :: "nat \<Rightarrow> 's tls_step \<Rightarrow> bool" where
  "step_ok i s \<longleftrightarrow> i < 2 \<and> multi_ok (ts_multi s) \<and> world_ok (ts_world s) \<and> session_live (step_opt s) (multi_session (ts_multi s) i)"

definition flow_ok :: "('a \<Rightarrow> bool) \<Rightarrow> 'a flow result \<Rightarrow> bool" where
  "flow_ok P r \<longleftrightarrow> (case r of Inl e \<Rightarrow> True | Inr (Next s) \<Rightarrow> P s | Inr (Break s) \<Rightarrow> P s | Inr (Error s) \<Rightarrow> P s)"

lemma flow_ok_simps [simp]:
  "flow_ok P (Inl e)" "flow_ok P (Inr (Next s)) = P s" "flow_ok P (Inr (Break s)) = P s" "flow_ok P (Inr (Error s)) = P s"
  by (simp_all add: flow_ok_def)

lemma flow_ok_bind: "(\<And>x. r = Inr x \<Longrightarrow> flow_ok P (f x)) \<Longrightarrow> flow_ok P (bind_result r f)"
  by (cases r) simp_all

lemma flow_ok_and_then: "flow_ok P r \<Longrightarrow> (\<And>s. P s \<Longrightarrow> flow_ok P (f s)) \<Longrightarrow> flow_ok P (and_then r f)"
  by (cases "(r, f)" rule: and_then.cases) simp_all

lemma step_okD:
  assumes "step_ok i s"
  shows "i < 2" "i < length (tm_session (ts_multi s))" "multi_ok (ts_multi s)" "world_ok (ts_world s)"
    "session_live (step_opt s) (multi_session (ts_multi s) i)" "key_live (step_opt s) (step_ks s i)"
    "length (se_key (multi_session (ts_multi s) i)) = 2"
  using assms multi_okD(2) [of "ts_multi s"] session_liveD(1) [of "step_opt s" "multi_session (ts_multi s) i"]
  by (auto simp: step_ok_def session_live_def step_ks_def multi_key_def)

lemma step_ok_multi:
  assumes s: "step_ok i s" and t: "world_ok (ts_world t)" "ts_multi t = multi_session_set (ts_multi s) i x" "session_live (step_opt s) x"
  shows "step_ok i t"
proof -
  note D = step_okD [OF s]
  have "multi_ok (multi_session_set (ts_multi s) i x)"
    using D(1) t(3) session_liveD(1) [OF t(3)] by (intro multi_ok_set [OF D(3)]) (auto simp: step_opt_def)
  then show ?thesis using D t by (simp add: step_ok_def step_opt_def)
qed

lemma step_ok_sim:
  assumes s: "step_ok i s" and t: "world_ok (ts_world t)" "multi_sim (ts_multi s) (ts_multi t)"
  shows "step_ok i t"
  using step_okD [OF s] multi_sim_ok [OF t(2)] session_sim_live [OF multi_sim_nth [OF t(2)]] t
  by (auto simp: step_ok_def step_opt_def multi_sim_def)

lemma step_put_ok:
  assumes "step_ok i s" "key_live (step_opt s) k"
  shows "step_ok i (step_put s i k)"
  using step_okD(4,5) [OF assms(1)] session_live_set_key [OF _ assms(2)]
  by (intro step_ok_multi [OF assms(1), where x = "session_key_set (multi_session (ts_multi s) i) KS_PRIMARY k"]) (auto simp: step_put_def multi_key_set_def)

lemma step_simps [simp]:
  "step_ok i (step_changed s) = step_ok i s" "step_opt (step_changed s) = step_opt s" "step_ks (step_changed s) i = step_ks s i"
  "step_ok i (s\<lparr>ts_change := a\<rparr>) = step_ok i s" "step_ok i (s\<lparr>ts_active := a\<rparr>) = step_ok i s"
  "step_ok i (s\<lparr>ts_wakeup := n\<rparr>) = step_ok i s" "step_ok i (s\<lparr>ts_to_link := b\<rparr>) = step_ok i s"
  "step_ok i (s\<lparr>ts_link_addr := l\<rparr>) = step_ok i s" "step_ok i (s\<lparr>ts_info := li\<rparr>) = step_ok i s"
  by (simp_all add: step_ok_def step_changed_def step_opt_def step_ks_def)

lemma step_update_time_ok: "step_ok i s \<Longrightarrow> step_ok i (step_update_time env s)"
  by (auto simp: step_ok_def step_update_time_def step_opt_def)

lemma step_peer_ok: "step_ok i s \<Longrightarrow> step_ok i (s\<lparr>ts_multi := multi_peer_set (ts_multi s) i pc\<rparr>)"
  by (rule step_ok_sim) (auto simp: step_ok_def multi_sim_peer)

lemma step_opt_peer [simp]: "step_opt (s\<lparr>ts_multi := multi_peer_set (ts_multi s) i pc\<rparr>) = step_opt s"
  "step_opt (step_update_time env s) = step_opt s" "step_opt (step_put s i k) = step_opt s"
  "step_opt (s\<lparr>ts_change := a\<rparr>) = step_opt s" "step_opt (s\<lparr>ts_info := li\<rparr>) = step_opt s"
  by (simp_all add: step_opt_def multi_peer_set_def step_update_time_def step_put_def)

lemma key_live_state: "key_live opt k \<Longrightarrow> 1 \<le> n \<Longrightarrow> n \<le> 7 \<Longrightarrow> key_live opt (k\<lparr>ks_state := n\<rparr>)"
  by (simp add: key_live_def rx_ok_def state_defs)

lemma key_live_update [simp]:
  "key_live opt (k\<lparr>ks_send_reliable := a\<rparr>) = key_live opt k" "key_live opt (k\<lparr>ks_must_negotiate := t\<rparr>) = key_live opt k"
  "key_live opt (k\<lparr>ks_auth_deferred_expire := t\<rparr>) = key_live opt k" "key_live opt (k\<lparr>ks_established := t\<rparr>) = key_live opt k"
  "key_live opt (k\<lparr>ks_plaintext_read_buf := b\<rparr>) = key_live opt k" "key_live opt (k\<lparr>ks_plaintext_write_buf := b\<rparr>) = key_live opt k"
  "key_live opt (k\<lparr>ks_ack_write_buf := b\<rparr>) = key_live opt k" "key_live opt (k\<lparr>ks_ssl := x\<rparr>) = key_live opt k"
  "key_live opt (k\<lparr>ks_paybuf := y\<rparr>) = key_live opt k" "key_live opt (k\<lparr>ks_rec_ack := z\<rparr>) = key_live opt k"
  "key_live opt (k\<lparr>ks_key := q\<rparr>) = key_live opt k" "key_live opt (k\<lparr>ks_key_src := ksrc\<rparr>) = key_live opt k"
  "key_live opt (k\<lparr>ks_authenticated := au\<rparr>) = key_live opt k" "key_live opt (k\<lparr>ks_must_die := t\<rparr>) = key_live opt k"
  by (simp_all add: key_live_def rx_ok_def)

lemma tp_initial_ok: "step_ok i s \<Longrightarrow> flow_ok (step_ok i) (tp_initial i s)"
  using step_okD(6) [of i s] by (auto simp: tp_initial_def Let_def state_defs intro!: flow_ok_bind step_put_ok key_live_state split: option.splits)

lemma tp_timeout_ok: "step_ok i s \<Longrightarrow> flow_ok (step_ok i) (tp_timeout i s)"
  using step_okD(6) [of i s] by (auto simp: tp_timeout_def Let_def state_defs intro!: step_put_ok key_live_state)

lemma tp_start_ok: "step_ok i s \<Longrightarrow> flow_ok (step_ok i) (tp_start i s)"
  using step_okD(6) [of i s] by (auto simp: tp_start_def Let_def state_defs intro!: step_put_ok key_live_state)

lemma key_sim_ssl [simp]: "key_sim k (k'\<lparr>ks_ssl := x\<rparr>) = key_sim k k'" "key_sim (k\<lparr>ks_paybuf := p\<rparr>) k' = key_sim k k'"
  by (simp_all add: key_sim_def)

lemma key_state_write_sim:
  "key_state_write_plaintext env k pc b = Inr (n, k', pc', b') \<Longrightarrow> key_sim k k'"
  "key_state_write_plaintext_const env k pc bs = Inr (n, k', pc') \<Longrightarrow> key_sim k k'"
  "key_state_write_ciphertext env k b = Inr (n, k', b') \<Longrightarrow> key_sim k k'"
proof -
  show "key_state_write_plaintext env k pc b = Inr (n, k', pc', b') \<Longrightarrow> key_sim k k'"
    by (cases "buf_contents b = []"; cases "ks_ssl k") (auto simp: key_state_write_plaintext_def split: prod.splits)
  show "key_state_write_plaintext_const env k pc bs = Inr (n, k', pc') \<Longrightarrow> key_sim k k'"
    by (cases "bs = []"; cases "ks_ssl k") (auto simp: key_state_write_plaintext_const_def split: prod.splits)
  show "key_state_write_ciphertext env k b = Inr (n, k', b') \<Longrightarrow> key_sim k k'"
    by (cases "buf_contents b = []"; cases "ks_ssl k") (auto simp: key_state_write_ciphertext_def split: prod.splits)
qed

lemma key_state_read_sim:
  "key_state_read_plaintext env k pc b mx = Inr (n, k', pc', b') \<Longrightarrow> key_sim k k'"
  "key_state_read_ciphertext env k b mx = Inr (n, k', b') \<Longrightarrow> key_sim k k'"
proof -
  show "key_state_read_plaintext env k pc b mx = Inr (n, k', pc', b') \<Longrightarrow> key_sim k k'"
    by (cases "ks_ssl k") (auto simp: key_state_read_plaintext_def bind_result_Inr)
  show "key_state_read_ciphertext env k b mx = Inr (n, k', b') \<Longrightarrow> key_sim k k'"
    by (cases "ks_ssl k") (auto simp: key_state_read_ciphertext_def bind_result_Inr)
qed

lemma flush_payload_loop_sim: "flush_payload_loop env k pc bs = Inr (k', pc') \<Longrightarrow> key_sim k k'"
proof (induction bs arbitrary: k pc)
  case (Cons b bs)
  from Cons.prems obtain n k1 pc1 where w: "key_state_write_plaintext_const env k pc (mem_read (buf_block b) 0 (nat (b_len b))) = Inr (n, k1, pc1)"
      "flush_payload_loop env (k1\<lparr>ks_paybuf := map_option buffer_list_pop (ks_paybuf k1)\<rparr>) pc1 bs = Inr (k', pc')"
    by (auto simp: bind_result_Inr)
  have "key_sim k1 k'" using Cons.IH [OF w(2)] by simp
  then show ?case by (rule key_sim_trans [OF key_state_write_sim(2) [OF w(1)]])
qed simp

lemma tp_active_ok:
  assumes "step_ok i s"
  shows "flow_ok (step_ok i) (tp_active env i s)"
proof -
  have k: "key_live (step_opt s) ((step_ks s i)\<lparr>ks_established := t, ks_state := 6\<rparr>)" for t
    using step_okD(6) [OF assms] by (intro key_live_state) simp_all
  have f: "key_live (step_opt s) k'" if "flush_payload_buffer env ((step_ks s i)\<lparr>ks_established := t, ks_state := 6\<rparr>) pc = Inr (k', pc')" for t pc k' pc'
    using key_sim_live [OF flush_payload_loop_sim [OF that [unfolded flush_payload_buffer_def]]] k by simp
  show ?thesis
  proof (cases "(ks_state (step_ks s i) = S_GOT_KEY \<and> \<not> to_server (step_opt s) \<or> ks_state (step_ks s i) = S_SENT_KEY \<and> to_server (step_opt s)) \<and> full_sync (step_ks s i)")
    case False
    show ?thesis unfolding tp_active_def Let_def by (simp only: False if_False flow_ok_simps assms)
  next
    case True
    let ?s = "step_changed (s\<lparr>ts_info := link_socket_set_outgoing_addr None (ts_info s) (ks_remote_addr (step_ks s i))\<rparr>)"
    have s: "step_ok i ?s" "step_opt ?s = step_opt s" using assms by simp_all
    show ?thesis unfolding tp_active_def Let_def using True f s
      by (auto simp: S_ACTIVE_def intro!: flow_ok_bind step_put_ok step_peer_ok)
  qed
qed

lemma step_control_packet_ok:
  assumes r: "step_control_packet i s ks b op mx pre = Inr (s', ks', b')" and s: "step_ok i s"
  shows "step_ok i s' \<and> step_opt s' = step_opt s \<and> key_sim ks ks'"
proof -
  note D = step_okD [OF s]
  obtain w x where w: "write_control_auth (ts_world s) (multi_session (ts_multi s) i) ks b op mx pre = Inr (w, x, ks', b')"
      "s' = step_changed (s\<lparr>ts_world := w, ts_multi := multi_session_set (ts_multi s) i x, ts_to_link := b',
         ts_link_addr := Some (ks_remote_addr ks'), ts_active := True\<rparr>)"
    using r unfolding step_control_packet_def Let_def by (auto simp: bind_result_Inr)
  note K = write_control_auth_keeps [OF w(1) D(4,5)]
  have t: "world_ok (ts_world s')" "ts_multi s' = multi_session_set (ts_multi s) i x" by (simp_all add: w(2) K(1) step_changed_def)
  show ?thesis using step_ok_multi [OF s t K(2)] K(4) t(2) by (simp add: step_opt_def)
qed

lemma tp_send_ok:
  assumes "step_ok i s"
  shows "flow_ok (step_ok i) (tp_send i s)"
proof -
  have "flow_ok (step_ok i) (Inr (Break (step_put s' i ks')))"
    if "step_control_packet i s ((step_ks s i)\<lparr>ks_send_reliable := rel\<rparr>) b op mx pre = Inr (s', ks', b')" for rel b op mx pre s' ks' b'
    using step_control_packet_ok [OF that assms] step_okD(6) [OF assms] by (auto simp: key_sim_live intro!: step_put_ok)
  then show ?thesis using assms
    by (auto simp: tp_send_def Let_def intro!: flow_ok_bind split: prod.splits option.splits)
qed

lemma rel_wf_mark_deleted:
  assumes "rel_wf cap rel" "i < rel_size rel" "e_active (rel_array rel ! i)" "reliable_mark_deleted rel i True = Inr rel'"
  shows "rel_wf cap rel' \<and> rel_offset rel' = rel_offset rel"
proof -
  have i: "i < length (rel_entries rel)" "rel_array rel ! i = rel_entries rel ! i" using assms(2) rel_wfD(4) [OF assms(1)] by (simp_all add: rel_entries_nth)
  let ?e = "(rel_array rel ! i)\<lparr>e_active := False\<rparr>"
  have "rel_wf cap (rel_set_entry rel i ?e)"
    using rel_wf_buf [OF assms(1) rel_entry_mem [OF assms(1,2)]] active_ids_deactivate(2) [OF i(1), of ?e] rel_wfD(7) [OF assms(1)] assms(3) i(2)
    by (intro rel_wf_set [OF assms(1,2)]) auto
  then show ?thesis using assms(2,4) by (auto simp: reliable_mark_deleted_def Let_def)
qed

lemma bio_write_post_ok: "buf_ok b \<Longrightarrow> buf_ok (bio_write_post n b) \<and> b_capacity (bio_write_post n b) = b_capacity b"
proof -
  assume b: "buf_ok b"
  have l: "nat (buf_len b) = length (buf_contents b)" using length_buf_contents [OF b] b by (simp add: buf_len_def buf_ok_def buf_valid_def)
  have "buf_ok (buf_put b (b_offset b + 0) (replicate (nat (buf_len b)) 0))"
    using b l by (intro buf_put_inside) simp_all
  moreover have "buf_ok p \<Longrightarrow> buf_ok (p\<lparr>b_len := 0\<rparr>)" for p by (auto simp: buf_ok_def)
  ultimately show ?thesis using b unfolding bio_write_post_def by simp
qed

lemma key_state_write_ciphertext_buf:
  assumes "key_state_write_ciphertext env k b = Inr (n, k', b')" "buf_ok b"
  shows "buf_ok b' \<and> b_capacity b' = b_capacity b"
  using assms bio_write_post_ok [OF assms(2)]
  by (cases "buf_contents b = []"; cases "ks_ssl k") (auto simp: key_state_write_ciphertext_def split: prod.splits)

lemma rx_entry_ok:
  assumes rel: "rel_wf cap rel" and k: "k < rel_size rel" and b: "buf_ok b" "b_capacity b = cap"
  shows "rel_wf cap (rel_set_entry rel k ((rel_array rel ! k)\<lparr>e_buf := b\<rparr>))"
proof -
  have "active_ids ((rel_entries rel)[k := (rel_array rel ! k)\<lparr>e_buf := b\<rparr>]) = active_ids (rel_entries rel)"
    using rel_wfD(4) [OF rel] k by (intro active_ids_keep) (auto simp: rel_entries_nth)
  then show ?thesis using rel_wfD(7) [OF rel] b by (intro rel_wf_set [OF rel k]) auto
qed

lemma tp_write_ciphertext_ok:
  assumes s: "step_ok i s"
  shows "flow_ok (step_ok i) (tp_write_ciphertext env i s)"
proof (cases "reliable_get_buf_sequenced (ks_rec_reliable (step_ks s i))")
  case None
  then show ?thesis using s by (simp add: tp_write_ciphertext_def)
next
  case (Some k)
  let ?ks = "step_ks s i"
  let ?rel = "ks_rec_reliable ?ks"
  let ?cap = "BUF_SIZE (to_frame (step_opt s))"
  let ?e = "rel_array ?rel ! k"
  have live: "key_live (step_opt s) ?ks" by (rule step_okD [OF s])
  then have rx: "rel_wf ?cap ?rel" "rel_offset ?rel = FRAME_HEADROOM (to_frame (step_opt s))" by (simp_all add: key_live_def rx_ok_def)
  have k: "k < rel_size ?rel" "e_active ?e"
    using Some rel_wfD(4) [OF rx(1)] by (auto simp: reliable_get_buf_sequenced_def find_index_Some rel_entries_nth)
  note eb = rel_wf_buf [OF rx(1) rel_entry_mem [OF rx(1) k(1)]]
  have *: "flow_ok (step_ok i) (let rel = rel_set_entry ?rel k (?e\<lparr>e_buf := b'\<rparr>); ks = k'\<lparr>ks_rec_reliable := rel\<rparr>
      in if n = - 1 then Inr (Error (step_put s i ks))
         else if n = 1 then bind_result (reliable_mark_deleted rel k True) (\<lambda>rel. Inr (Next (step_changed (step_put s i (ks\<lparr>ks_rec_reliable := rel\<rparr>)))))
         else Inr (Next (step_put s i ks)))"
    if b': "buf_ok b'" "b_capacity b' = ?cap" and k': "key_sim ?ks k'" for n k' b'
  proof -
    let ?r = "rel_set_entry ?rel k (?e\<lparr>e_buf := b'\<rparr>)"
    have r: "rel_wf ?cap ?r" "rel_offset ?r = rel_offset ?rel" "k < rel_size ?r" "e_active (rel_array ?r ! k)"
      using rx_entry_ok [OF rx(1) k(1) b'] k rel_wfD(2,3) [OF rx(1)] by (simp_all add: rel_set_entry_def)
    have put: "step_ok i (step_put s i (k'\<lparr>ks_rec_reliable := x\<rparr>))"
      if "rel_wf ?cap x" "rel_offset x = rel_offset ?rel" for x
      using that rx live k' by (intro step_put_ok [OF s]) (simp add: key_live_def rx_ok_def key_sim_def)
    show ?thesis
      using put [OF r(1,2)] put rel_wf_mark_deleted [OF r(1,3,4)] r(2)
      by (auto simp: Let_def intro!: flow_ok_bind)
  qed
  show ?thesis
    unfolding tp_write_ciphertext_def Let_def Some option.case
  proof (rule flow_ok_bind, unfold split_paired_all prod.case)
    fix n k' b'
    assume r: "(if b_len (e_buf ?e) \<noteq> 0 then key_state_write_ciphertext env ?ks (e_buf ?e) else Inr (1, ?ks, e_buf ?e)) = Inr (n, k', b')"
    have "buf_ok b' \<and> b_capacity b' = ?cap \<and> key_sim ?ks k'"
    proof (cases "b_len (e_buf ?e) \<noteq> 0")
      case True
      then have "key_state_write_ciphertext env ?ks (e_buf ?e) = Inr (n, k', b')" using r by simp
      then show ?thesis using key_state_write_ciphertext_buf key_state_write_sim(3) eb by metis
    next
      case False
      then show ?thesis using r eb by auto
    qed
    then show "flow_ok (step_ok i)
        (if n = - 1 then Inr (Error (step_put s i (k'\<lparr>ks_rec_reliable := rel_set_entry ?rel k (?e\<lparr>e_buf := b'\<rparr>)\<rparr>)))
         else if n = 1 then bind_result (reliable_mark_deleted (rel_set_entry ?rel k (?e\<lparr>e_buf := b'\<rparr>)) k True)
                (\<lambda>rel. Inr (Next (step_changed (step_put s i (k'\<lparr>ks_rec_reliable := rel_set_entry ?rel k (?e\<lparr>e_buf := b'\<rparr>), ks_rec_reliable := rel\<rparr>)))))
              else Inr (Next (step_put s i (k'\<lparr>ks_rec_reliable := rel_set_entry ?rel k (?e\<lparr>e_buf := b'\<rparr>)\<rparr>))))"
      using * [of b' k' n] unfolding Let_def by blast
  qed
qed

lemma tp_read_plaintext_ok:
  assumes s: "step_ok i s"
  shows "flow_ok (step_ok i) (tp_read_plaintext env i s)"
proof -
  have "step_ok i (step_put (step_update_time env (s\<lparr>ts_multi := multi_peer_set (ts_multi s) i pc\<rparr>)) i (k'\<lparr>ks_plaintext_read_buf := b'\<rparr>))"
    if "key_state_read_plaintext env (step_ks s i) pc0 b mx = Inr (n, k', pc, b')" for pc0 b mx n k' pc b'
    using key_sim_live [OF key_state_read_sim(1) [OF that]] step_okD(6) [OF s]
    by (intro step_put_ok step_update_time_ok step_peer_ok s) simp
  then show ?thesis using s
    by (auto simp: tp_read_plaintext_def Let_def assert_that_def intro!: flow_ok_bind split: prod.splits)
qed

lemma tp_write_plaintext_ok:
  assumes s: "step_ok i s"
  shows "flow_ok (step_ok i) (tp_write_plaintext env i s)"
proof -
  have "step_ok i (step_put (s\<lparr>ts_multi := multi_peer_set (ts_multi s) i pc\<rparr>) i (k'\<lparr>ks_plaintext_write_buf := b'\<rparr>))"
    if "key_state_write_plaintext env (step_ks s i) pc0 b = Inr (n, k', pc, b')" for pc0 b n k' pc b'
    using key_sim_live [OF key_state_write_sim(1) [OF that]] step_okD(6) [OF s]
    by (intro step_put_ok step_peer_ok s) simp
  then show ?thesis using s
    by (auto simp: tp_write_plaintext_def Let_def intro!: flow_ok_bind)
qed

lemma tp_read_ciphertext_ok:
  assumes s: "step_ok i s"
  shows "flow_ok (step_ok i) (tp_read_ciphertext env i s)"
proof -
  have "key_live (step_opt s) (k'\<lparr>ks_send_reliable := rel'\<rparr>)"
    if "key_state_read_ciphertext env ((step_ks s i)\<lparr>ks_send_reliable := rel\<rparr>) b mx = Inr (n, k', b')" for rel b mx n k' b' rel'
    using key_sim_live [OF key_state_read_sim(2) [OF that]] step_okD(6) [OF s] by simp
  then show ?thesis using s step_okD(6) [OF s]
    by (auto simp: tp_read_ciphertext_def Let_def intro!: flow_ok_bind step_put_ok split: option.splits)
qed

section \<open>The key exchange\<close>

lemma key_sim_update [simp]:
  "key_sim k (k'\<lparr>ks_plaintext_write_buf := b\<rparr>) = key_sim k k'" "key_sim k (k'\<lparr>ks_plaintext_read_buf := b\<rparr>) = key_sim k k'"
  "key_sim k (k'\<lparr>ks_key := q\<rparr>) = key_sim k k'" "key_sim k (k'\<lparr>ks_key_src := ksrc\<rparr>) = key_sim k k'"
  "key_sim k (k'\<lparr>ks_authenticated := au\<rparr>) = key_sim k k'" "key_sim k (k'\<lparr>ks_auth_deferred := d\<rparr>) = key_sim k k'"
  "key_sim k (k'\<lparr>ks_auth_control_file := f\<rparr>) = key_sim k k'" "key_sim k (k'\<lparr>ks_auth_control_status := st\<rparr>) = key_sim k k'"
  "key_sim k (k'\<lparr>ks_mda_status := st\<rparr>) = key_sim k k'" "key_sim k (k'\<lparr>ks_packet_id := pid\<rparr>) = key_sim k k'"
  by (simp_all add: key_sim_def)

lemma world_ok_draws [simp]: "world_ok (w\<lparr>w_draws := i\<rparr>) = world_ok w"
  by (simp add: world_ok_def tls_now_def)

lemma key_method_1_write_sim:
  assumes "key_method_1_write env opt w k = Inr (ok, w', k')"
  shows "key_sim k k' \<and> (world_ok w \<longrightarrow> world_ok w')"
proof -
  obtain o1 b where b: "buf_init (ks_plaintext_write_buf k) 0 = (o1, b)" by fastforce
  obtain key i where g: "returns (generate_key_random (te_des env) (te_rand env) (w_draws w) (Some (to_key_type opt))) = Inr (key, i)"
    using assms b by (auto simp: key_method_1_write_def bind_result_Inr Let_def)
  obtain o2 where c: "check_key (te_des env) key (to_key_type opt) = Inr o2"
    using assms b g by (auto simp: key_method_1_write_def bind_result_Inr Let_def)
  show ?thesis
  proof (cases o2)
    case False
    then show ?thesis using assms b g c by (auto simp: key_method_1_write_def Let_def)
  next
    case True
    obtain o3 b2 where w: "write_key key (to_key_type opt) b = Inr (o3, b2)"
      using assms b g c True by (auto simp: key_method_1_write_def bind_result_Inr Let_def)
    then show ?thesis using assms b g c True
      by (cases o3) (auto simp: key_method_1_write_def bind_result_Inr Let_def case_prod_beta)
  qed
qed

lemma key_method_2_message_world:
  assumes "key_method_2_message env ae opt w k2 b = Inr (ok, w', k2', b')"
  shows "world_ok w \<longrightarrow> world_ok w'"
proof -
  obtain o1 b1 where b1: "buf_write_u32 b 0 = (o1, b1)" by fastforce
  obtain o2 b2 where b2: "buf_write_u8 b1 (to_key_method opt AND KEY_METHOD_MASK) = (o2, b2)" by fastforce
  show ?thesis
  proof (cases "o1 \<and> o2")
    case False
    then show ?thesis using assms b1 b2 by (cases o1) (auto simp: key_method_2_message_def)
  next
    case True
    obtain o3 k3 i b3 where b3: "key_source2_randomize_write (te_rand env) (w_draws w) k2 b2 (to_server opt) = Inr (o3, k3, i, b3)"
      using assms b1 b2 True by (auto simp: key_method_2_message_def bind_result_Inr)
    obtain o4 b4 where b4: "write_string b3 (to_local_options opt) (int TLS_OPTIONS_LEN) = (o4, b4)" by fastforce
    obtain o5 b5 where b5: "write_user_pass ae b4 = (o5, b5)" by fastforce
    have "w' = w\<lparr>w_draws := i\<rparr>"
      using assms b1 b2 b3 b4 b5 True by (cases o3; cases o4; cases o5) (auto simp: key_method_2_message_def bind_result_Inr Let_def)
    then show ?thesis by simp
  qed
qed

lemma key_method_2_write_sim:
  assumes "key_method_2_write env ae opt w sid k = Inr (ok, w', k')"
  shows "key_sim k k' \<and> (world_ok w \<longrightarrow> world_ok w')"
proof -
  obtain o1 b where b: "buf_init (ks_plaintext_write_buf k) 0 = (o1, b)" by fastforce
  obtain o2 w2 k2 b2 where m: "key_method_2_message env ae opt w (ks_key_src k) b = Inr (o2, w2, k2, b2)"
    using assms b by (auto simp: key_method_2_write_def bind_result_Inr)
  have "world_ok w \<longrightarrow> world_ok w2" by (rule key_method_2_message_world [OF m])
  then show ?thesis using assms b m
    by (auto simp: key_method_2_write_def bind_result_Inr Let_def split: if_splits option.splits)
qed

lemma tp_send_key_ok:
  assumes s: "step_ok i s"
  shows "flow_ok (step_ok i) (tp_send_key env ae i s)"
proof -
  let ?ks = "step_ks s i" and ?opt = "step_opt s"
  let ?r = "if to_key_method ?opt = 1 then key_method_1_write env ?opt (ts_world s) ?ks
     else if to_key_method ?opt = 2 then key_method_2_write env ae ?opt (ts_world s) (se_session_id (multi_session (ts_multi s) i)) ?ks
     else Inl AssertFailed"
  have r: "step_ok i (step_put (s\<lparr>ts_world := w'\<rparr>) i k') \<and> step_ok i (step_put (s\<lparr>ts_world := w'\<rparr>) i (k'\<lparr>ks_state := S_SENT_KEY\<rparr>))"
    if "?r = Inr (ok, w', k')" for ok w' k'
  proof -
    have k: "key_sim ?ks k' \<and> (world_ok (ts_world s) \<longrightarrow> world_ok w')"
      using that key_method_1_write_sim [of env ?opt "ts_world s" ?ks ok w' k'] key_method_2_write_sim [of env ae ?opt "ts_world s" _ ?ks ok w' k']
      by (auto split: if_splits)
    then have l: "key_live ?opt k'" using key_sim_live step_okD(6) [OF s] by metis
    have s': "step_ok i (s\<lparr>ts_world := w'\<rparr>)" "step_opt (s\<lparr>ts_world := w'\<rparr>) = ?opt"
      using s k step_okD(4) [OF s] by (auto simp: step_ok_def step_opt_def)
    show ?thesis using l s'(2) by (intro conjI step_put_ok [OF s'(1)]) (simp_all add: key_live_state S_SENT_KEY_def)
  qed
  show ?thesis unfolding tp_send_key_def Let_def using r s by (auto intro!: flow_ok_bind simp del: split_paired_All)
qed

lemma multi_sim_fields [simp]:
  "multi_sim m (m'\<lparr>tm_locked_username := x\<rparr>) = multi_sim m m'" "multi_sim m (m'\<lparr>tm_peer_info := y\<rparr>) = multi_sim m m'"
  "multi_sim m (m'\<lparr>tm_to_link_addr := a\<rparr>) = multi_sim m m'" "multi_sim m (m'\<lparr>tm_tas_last := t\<rparr>) = multi_sim m m'"
  "multi_sim m (m'\<lparr>tm_n_soft_errors := n\<rparr>) = multi_sim m m'" "multi_sim m (m'\<lparr>tm_n_hard_errors := n\<rparr>) = multi_sim m m'"
  "multi_sim m (m'\<lparr>tm_save_ks := sk\<rparr>) = multi_sim m m'" "multi_sim m (m'\<lparr>tm_client_reason := y\<rparr>) = multi_sim m m'"
  by (simp_all add: multi_sim_def)

lemma user_pass_verdict_sim: "multi_sim m (user_pass_verdict ae m i u p)"
proof -
  let ?opt = "tm_opt m" and ?cn = "pc_common_name (multi_peer m i)"
  let ?u = "string_mod_sslname u COMMON_NAME_CHAR_CLASS (to_ssl_flags ?opt)"
  obtain s1 ks where p: "(case ae_plugin ae of
        Some plugin_call \<Rightarrow> verify_user_pass_plugin ae ?opt ?cn plugin_call ?u (snd (string_mod p CC_PRINT CC_CRLF 95)) (snd (string_mod u CC_PRINT CC_CRLF 95)) (multi_primary m i)
      | None \<Rightarrow> (OPENVPN_PLUGIN_FUNC_SUCCESS, multi_primary m i)) = (s1, ks)" by fastforce
  have "key_sim (multi_primary m i) ks"
    using p by (auto simp: verify_user_pass_plugin_def Let_def key_state_gen_auth_control_file_def key_state_rm_auth_control_file_def
        split: option.splits if_splits)
  then have m1: "multi_sim m (multi_primary_set m i ks)" by (rule multi_sim_key)
  obtain b m2 where l: "tls_lock_username (multi_primary_set m i ks) (Some ?u) = (b, m2)" by fastforce
  have "multi_sim (multi_primary_set m i ks) m2"
    using l by (auto simp: tls_lock_username_def multi_sim_deauthenticate split: option.splits if_splits)
  then have m2: "multi_sim m m2" by (rule multi_sim_trans [OF m1])
  have m3: "multi_sim m (multi_primary_set m2 i ((multi_primary m2 i)\<lparr>ks_authenticated := a, ks_auth_deferred := d\<rparr>))" for a d
    by (rule multi_sim_trans [OF m2 multi_sim_key]) simp
  show ?thesis
    unfolding user_pass_verdict_def Let_def p prod.case l
    using m1 m2 m3 multi_sim_trans [OF m3 multi_sim_peer] by (cases b) auto
qed

lemma key_method_2_authenticate_sim:
  assumes "key_method_2_authenticate ae m i b = (ok, m', b')"
  shows "multi_sim m m'"
proof -
  have a: "multi_sim m (set_authenticated m i x)" for x by (rule multi_sim_authenticated)
  have u: "multi_sim m (user_pass_verdict ae ((set_authenticated m i False)\<lparr>tm_peer_info := info\<rparr>) i u p)" for info u p
    by (rule multi_sim_trans [OF _ user_pass_verdict_sim]) (simp add: a)
  have t: "multi_sim m (set_authenticated (set_authenticated m i False) i True)"
    by (rule multi_sim_trans [OF a multi_sim_authenticated])
  obtain r b1 where r: "read_user_pass (tm_opt (set_authenticated m i False)) b = (r, b1)" by fastforce
  obtain info b2 where info: "read_string_alloc b1 = (info, b2)" by fastforce
  show ?thesis using assms a u t r info
    by (auto simp: key_method_2_authenticate_def Let_def split: if_splits option.splits)
qed

lemma key_method_2_checks_sim: "multi_sim m (key_method_2_checks ae m i options)"
proof -
  have cn: "multi_sim m (check_locked_cn m i)" for m :: "'a tls_multi"
    using multi_sim_trans [OF multi_sim_peer multi_sim_deauthenticate] by (auto simp: check_locked_cn_def split: option.splits)
  have ch: "multi_sim m (check_locked_cert_hash_set m i)" for m :: "'a tls_multi"
    by (auto simp: check_locked_cert_hash_set_def multi_sim_deauthenticate)
  have ccd: "multi_sim m (check_client_config_dir ae m i)" for m :: "'a tls_multi"
    by (auto simp: check_client_config_dir_def Let_def multi_sim_authenticated)
  have ro: "multi_sim m (check_remote_options m i options)" for m :: "'a tls_multi"
    by (auto simp: check_remote_options_def multi_sim_authenticated)
  have pf: "multi_sim m (check_plugin_final ae m i)" for m :: "'a tls_multi"
    by (auto simp: check_plugin_final_def multi_sim_authenticated split: option.splits)
  have z: "multi_sim m (if P then multi_peer_set m i pc else m)" for P pc by (simp add: multi_sim_peer)
  show ?thesis unfolding key_method_2_checks_def Let_def
    by (rule multi_sim_trans [OF multi_sim_trans [OF multi_sim_trans [OF multi_sim_trans [OF multi_sim_trans [OF z cn] ch] ccd] ro] pf])
qed

lemma key_method_2_read_sim:
  assumes r: "key_method_2_read env ae w m i = Inr (ok, m')"
  shows "multi_sim m m'"
proof -
  define err where "err = (\<lambda>(m :: 'a tls_multi) b. Inr (False, multi_primary_set m i ((multi_primary m i)\<lparr>ks_key_src := key_source2_clear, ks_plaintext_read_buf := buf_clear b\<rparr>)) :: (bool \<times> 'a tls_multi) result)"
  have err: "multi_sim m m'" if "multi_sim m m1" "err m1 b = Inr (ok, m')" for m1 b
    using that(2) by (auto simp: err_def intro!: multi_sim_trans [OF that(1) multi_sim_key])
  obtain o1 b1 where b1: "buf_advance (ks_plaintext_read_buf (multi_primary m i)) 4 = (o1, b1)" by fastforce
  obtain fl b2 where b2: "buf_read_u8 b1 = (fl, b2)" by fastforce
  obtain o2 k2 b3 where b3: "key_source2_read (ks_key_src (multi_primary m i)) b2 (to_server (tm_opt m)) = (o2, k2, b3)" by (metis surj_pair)
  obtain o3 b4 where b4: "read_string b3 TLS_OPTIONS_LEN = (o3, b4)" by fastforce
  let ?m = "multi_primary_set m i ((multi_primary m i)\<lparr>ks_key_src := k2\<rparr>)"
  obtain o4 m4 b5 where a: "key_method_2_authenticate ae ?m i b4 = (o4, m4, b5)" by (metis surj_pair)
  let ?c = "key_method_2_checks ae m4 i (the o3)"
  let ?k = "(multi_primary ?c i)\<lparr>ks_plaintext_read_buf := buf_clear b5\<rparr>"
  have m1: "multi_sim m ?m" by (rule multi_sim_key) simp
  have m4: "multi_sim m m4" by (rule multi_sim_trans [OF m1 key_method_2_authenticate_sim [OF a]])
  have c: "multi_sim m ?c" by (rule multi_sim_trans [OF m4 key_method_2_checks_sim])
  have k: "multi_sim m (multi_primary_set ?c i ?k)" "multi_sim m (multi_primary_set ?c i (?k\<lparr>ks_key := q, ks_key_src := ksrc\<rparr>))" for q ksrc
    by (rule multi_sim_trans [OF c multi_sim_key]; simp)+
  define G where "G = returns (generate_key_expansion (te_md5 env) (te_sha1 env) (te_des env) (tls_junk env w 2)
       (to_key_type (tm_opt m)) (ks_key_src ?k) (se_session_id (multi_session ?c i)) (ks_session_id_remote ?k) False)"
  have eq: "key_method_2_read env ae w m i = assert_that (to_key_method (tm_opt m) = 2) (assert_that o1
     (if fl AND KEY_METHOD_MASK \<noteq> 2 then err m b2 else if \<not> o2 then err ?m b3
      else if o3 = None then err ?m b4 else if \<not> o4 then err m4 b5
      else if to_server (tm_opt m) then Inr (True, multi_primary_set ?c i ?k)
      else bind_result G (\<lambda>r. case r of None \<Rightarrow> err (multi_primary_set ?c i ?k) (ks_plaintext_read_buf ?k)
            | Some key \<Rightarrow> Inr (True, multi_primary_set ?c i (?k\<lparr>ks_key := key, ks_key_src := key_source2_clear\<rparr>)))))"
    unfolding key_method_2_read_def Let_def b1 prod.case b2 b3 b4 a G_def err_def
    by (cases o3; cases o4) (simp_all add: a)
  show ?thesis
    using r m1 m4 k err err [OF multi_sim_refl] unfolding eq
    by (auto simp: bind_result_Inr split: if_splits option.splits)
qed

lemma key_method_1_read_sim:
  assumes "key_method_1_read env opt verified k = Inr (ok, k')"
  shows "key_sim k k'"
  using assms by (auto simp: key_method_1_read_def Let_def bind_result_Inr split: if_splits)

lemma tp_receive_key_ok:
  assumes s: "step_ok i s"
  shows "flow_ok (step_ok i) (tp_receive_key env ae i s)"
proof -
  let ?ks = "step_ks s i" and ?opt = "step_opt s" and ?m = "ts_multi s"
  let ?r = "if to_key_method ?opt = 1
     then bind_result (key_method_1_read env ?opt (pc_verified (multi_peer ?m i)) ?ks) (\<lambda>(ok, ks). Inr (ok, multi_primary_set ?m i ks))
     else if to_key_method ?opt = 2 then key_method_2_read env ae (ts_world s) ?m i else Inl AssertFailed"
  have r: "step_ok i (s\<lparr>ts_multi := m'\<rparr>)
      \<and> step_ok i (step_put (s\<lparr>ts_multi := m'\<rparr>) i ((step_ks (s\<lparr>ts_multi := m'\<rparr>) i)\<lparr>ks_state := S_GOT_KEY\<rparr>))"
    if "?r = Inr (ok, m')" for ok m'
  proof -
    have "multi_sim ?m m'"
      using that key_method_2_read_sim key_method_1_read_sim
      by (fastforce simp: bind_result_Inr step_ks_def intro: multi_sim_key split: if_splits)
    then have s': "step_ok i (s\<lparr>ts_multi := m'\<rparr>)" using step_okD(4) [OF s] by (intro step_ok_sim [OF s]) simp_all
    show ?thesis using step_okD(6) [OF s'] by (intro conjI s' step_put_ok [OF s'] key_live_state) (simp_all add: S_GOT_KEY_def)
  qed
  show ?thesis unfolding tp_receive_key_def Let_def using r s by (auto intro!: flow_ok_bind simp del: split_paired_All)
qed

section \<open>A round\<close>

lemma tp_pass_ok:
  assumes "step_ok i s"
  shows "flow_ok (step_ok i) (tp_pass env ae i s)"
  unfolding tp_pass_def
  by (intro flow_ok_and_then tp_initial_ok tp_timeout_ok tp_start_ok tp_active_ok tp_send_ok tp_write_ciphertext_ok
      tp_read_plaintext_ok tp_send_key_ok tp_receive_key_ok tp_write_plaintext_ok tp_read_ciphertext_ok)
    (simp_all add: step_update_time_ok assms)

lemma tp_loop_ok:
  assumes "tp_loop env ae i s = Some r"
  shows "step_ok i s \<longrightarrow> flow_ok (step_ok i) r"
  using assms
proof (induction rule: tp_loop.raw_induct)
  case (1 f env ae i s r)
  show ?case
  proof
    assume s: "step_ok i s"
    note p = tp_pass_ok [OF s, of env ae]
    show "flow_ok (step_ok i) r"
    proof (cases "tp_pass env ae i s")
      case (Inl e)
      then show ?thesis using 1(2) p by auto
    next
      case (Inr x)
      show ?thesis
      proof (cases "\<exists>t. x = Next t \<and> ts_change t")
        case True
        then obtain t where t: "x = Next t" "ts_change t" by blast
        have "f env ae i t = Some r" "step_ok i t" using 1(2) p Inr t by simp_all
        moreover have "tp_loop env ae i t = Some r" using 1(3) Inr t by (subst (asm) tp_loop.simps) simp
        ultimately show ?thesis using 1(1) [of env ae i t r] by blast
      next
        case False
        then have "r = tp_pass env ae i s" using 1(2) Inr by (cases x) (auto split: if_splits)
        then show ?thesis using p by simp
      qed
    qed
  qed
qed (rule assms)

lemma tp_soft_reset_ok:
  assumes s: "step_ok i s" and env: "env_ok env" and r: "tp_soft_reset env i s = Inr s'"
  shows "step_ok i s'"
proof -
  note D = step_okD [OF s]
  obtain w x where k: "key_state_soft_reset env (step_opt s) (ts_world s) (multi_session (ts_multi s) i) = Inr (w, x)" "world_ok w" "session_live (step_opt s) x"
    using key_state_soft_reset_total [OF multi_okD(1) [OF D(3)] env D(5) [unfolded step_opt_def] D(4)] by (auto simp: step_opt_def)
  have s1: "step_ok i (s\<lparr>ts_world := w, ts_multi := multi_session_set (ts_multi s) i x\<rparr>)"
    using k by (intro step_ok_multi [OF s]) auto
  have lame: "step_ok i (t\<lparr>ts_wakeup := n, ts_multi := multi_key_set (ts_multi t) (i, KS_LAME_DUCK) k'\<rparr>)" if "step_ok i t" for t n k'
  proof -
    note T = step_okD [OF that]
    have "session_live (step_opt t) (session_key_set (multi_session (ts_multi t) i) KS_LAME_DUCK k')"
      using T(5,7) by (simp add: session_live_def index_defs)
    then show ?thesis using T(4) by (intro step_ok_multi [OF that, where x = "session_key_set (multi_session (ts_multi t) i) KS_LAME_DUCK k'"])
        (simp_all add: multi_key_set_def)
  qed
  define c where "c = (if ks_state (step_ks s i) \<ge> S_ACTIVE
               \<and> (to_renegotiate_seconds (step_opt s) \<noteq> 0 \<and> step_now s \<ge> ks_established (step_ks s i) + to_renegotiate_seconds (step_opt s)
                  \<or> to_renegotiate_bytes (step_opt s) \<noteq> 0 \<and> ks_n_bytes (step_ks s i) \<ge> word_of_int (to_renegotiate_bytes (step_opt s))
                  \<or> to_renegotiate_packets (step_opt s) \<noteq> 0 \<and> ks_n_packets (step_ks s i) \<ge> word_of_int (to_renegotiate_packets (step_opt s))
                  \<or> packet_id_close_to_wrapping (pid_send (ks_packet_id (step_ks s i))))
            then bind_result (key_state_soft_reset env (step_opt s) (ts_world s) (multi_session (ts_multi s) i)) (\<lambda>(w, session).
                   Inr (s\<lparr>ts_world := w, ts_multi := multi_session_set (ts_multi s) i session\<rparr>))
            else Inr s)"
  have "c = Inr s \<or> c = Inr (s\<lparr>ts_world := w, ts_multi := multi_session_set (ts_multi s) i x\<rparr>)" using k(1) by (simp add: c_def)
  then obtain t where t: "c = Inr t" "step_ok i t" using s s1 by auto
  have eq: "tp_soft_reset env i s = bind_result (Inr t) (\<lambda>s. bind_result (lame_duck_must_die (step_now s) (multi_session (ts_multi s) i) (ts_wakeup s)) (\<lambda>(die, wakeup).
              let s = s\<lparr>ts_wakeup := wakeup\<rparr>; p = (i, KS_LAME_DUCK)
              in Inr (if die then s\<lparr>ts_multi := multi_key_set (ts_multi s) p (key_state_free (multi_key (ts_multi s) p) True)\<rparr> else s)))"
    unfolding tp_soft_reset_def Let_def t(1) [symmetric] c_def ..
  show ?thesis using r t(2) lame [OF t(2)] unfolding eq by (auto simp: bind_result_Inr Let_def)
qed

lemma tp_finish_ok:
  assumes s: "step_ok i s" and r: "tp_finish env i s = Inr s'"
  shows "step_ok i s'"
proof -
  let ?s = "step_update_time env s"
  have s1: "step_ok i ?s" by (rule step_update_time_ok [OF s])
  have w: "step_ok i (tp_wakeup i t)" if "step_ok i t" for t using that by (simp add: tp_wakeup_def Let_def)
  have c: "step_ok i (step_put t i (k\<lparr>ks_ack_write_buf := b'\<rparr>))"
    if "step_control_packet i ?s (step_ks ?s i) b op mx pre = Inr (t, k, b')" for b op mx pre t k b'
    using step_control_packet_ok [OF that s1] step_okD(6) [OF s1] by (intro step_put_ok) (auto simp: key_sim_live)
  show ?thesis using r s1 w c
    by (auto simp: tp_finish_def Let_def bind_result_Inr split: if_splits prod.splits)
qed

lemma tls_process_ok:
  assumes s: "step_ok i s" and env: "env_ok env" and r: "tls_process env ae i s = Inr (act, s')"
  shows "step_ok i s' \<or> (\<exists>t. step_ok i t \<and> s' = step_put t i ((step_ks t i)\<lparr>ks_state := S_ERROR\<rparr>))"
proof -
  obtain s1 where s1: "tp_soft_reset env i s = Inr s1"
    using r by (auto simp: tls_process_def Let_def bind_result_Inr)
  have ok1: "step_ok i (s1\<lparr>ts_active := False, ts_change := False\<rparr>)" using tp_soft_reset_ok [OF s env s1] by (simp add: step_ok_def step_opt_def)
  obtain x where x: "returns (tp_loop env ae i (s1\<lparr>ts_active := False, ts_change := False\<rparr>)) = Inr x"
    using r s1 by (auto simp: tls_process_def Let_def bind_result_Inr)
  then have "tp_loop env ae i (s1\<lparr>ts_active := False, ts_change := False\<rparr>) = Some (Inr x)" by (auto simp: returns_def split: option.splits)
  from tp_loop_ok [OF this] ok1 have f: "flow_ok (step_ok i) (Inr x)" by simp
  show ?thesis
  proof (cases x)
    case (Next y)
    then show ?thesis using r s1 x f tp_finish_ok by (auto simp: tls_process_def Let_def bind_result_Inr)
  next
    case (Break y)
    then show ?thesis using r s1 x f tp_finish_ok by (auto simp: tls_process_def Let_def bind_result_Inr)
  next
    case (Error y)
    then show ?thesis using r s1 x f by (auto simp: tls_process_def Let_def bind_result_Inr)
  qed
qed

section \<open>Failed sessions\<close>

definition multi_almost :: "nat \<Rightarrow> 's tls_multi \<Rightarrow> bool" where
  \<comment> \<open>only session \<open>i\<close> has failed\<close>
  "multi_almost i m \<longleftrightarrow> i < 2 \<and> opt_ok (tm_opt m) \<and> length (tm_session m) = 3 \<and> length (se_key (multi_session m i)) = 2
     \<and> (\<forall>s. session_live (tm_opt m) s \<longrightarrow> multi_ok (multi_session_set m i s))"

lemma multi_session_set_twice [simp]: "multi_session_set (multi_session_set m i s) i s' = multi_session_set m i s'"
  by (simp add: multi_session_set_def)

lemma multi_session_set_swap: "i \<noteq> j \<Longrightarrow> multi_session_set (multi_session_set m i s) j s' = multi_session_set (multi_session_set m j s') i s"
  by (simp add: multi_session_set_def list_update_swap)

lemma step_error_almost:
  assumes "step_ok i t"
  shows "multi_almost i (ts_multi (step_put t i k))"
proof -
  note D = step_okD [OF assms]
  have "multi_ok (multi_session_set (ts_multi t) i s)" if "session_live (tm_opt (ts_multi t)) s" for s
    using D(1) that session_liveD(1) [OF that] by (intro multi_ok_set [OF D(3)]) auto
  then show ?thesis
    using D multi_okD(1,2) [OF D(3)] by (simp add: multi_almost_def step_put_def multi_key_set_def)
qed

lemma tm_fields_simps [simp]:
  "multi_session (m\<lparr>tm_to_link_addr := a\<rparr>) i = multi_session m i" "multi_session (m\<lparr>tm_n_soft_errors := n\<rparr>) i = multi_session m i"
  by (simp_all add: multi_session_def)

lemma multi_ok_fields [simp]:
  "multi_ok (m\<lparr>tm_to_link_addr := a\<rparr>) = multi_ok m" "multi_ok (m\<lparr>tm_n_soft_errors := n\<rparr>) = multi_ok m"
  by (simp_all add: multi_ok_def)

lemma multi_almost_fields [simp]:
  "multi_almost i (m\<lparr>tm_to_link_addr := a\<rparr>) = multi_almost i m" "multi_almost i (m\<lparr>tm_n_soft_errors := n\<rparr>) = multi_almost i m"
proof -
  have "multi_session_set (m\<lparr>tm_to_link_addr := a\<rparr>) i s = (multi_session_set m i s)\<lparr>tm_to_link_addr := a\<rparr>"
    "multi_session_set (m\<lparr>tm_n_soft_errors := n\<rparr>) i s = (multi_session_set m i s)\<lparr>tm_n_soft_errors := n\<rparr>" for s
    by (simp_all add: multi_session_set_def)
  then show "multi_almost i (m\<lparr>tm_to_link_addr := a\<rparr>) = multi_almost i m" "multi_almost i (m\<lparr>tm_n_soft_errors := n\<rparr>) = multi_almost i m"
    by (simp_all add: multi_almost_def)
qed

lemma reset_session_ok:
  assumes m: "multi_almost i m" and w: "world_ok w" and env: "env_ok env"
  shows "\<exists>w' m'. reset_session env w m i = Inr (w', m') \<and> world_ok w' \<and> multi_ok m'"
proof -
  obtain w' s where s: "tls_session_init env (tm_opt m) w = Inr (w', s)" "world_ok w'" "session_live (tm_opt m) s"
    using tls_session_init_total [OF _ env w, of "tm_opt m"] m by (auto simp: multi_almost_def)
  then show ?thesis using m by (auto simp: reset_session_def Let_def multi_almost_def)
qed

lemma move_to_lame_ok:
  assumes m: "multi_almost 0 m" and w: "world_ok w" and env: "env_ok env" and e: "ks_state (primary (multi_session m 0)) < 1"
  shows "\<exists>w' m'. move_session env w m TM_LAME_DUCK TM_ACTIVE True = Inr (w', m') \<and> world_ok w' \<and> multi_ok m'"
proof -
  obtain w' s where s: "tls_session_init env (tm_opt m) w = Inr (w', s)" "world_ok w'" "session_live (tm_opt m) s"
    using tls_session_init_total [OF _ env w, of "tm_opt m"] m by (auto simp: multi_almost_def)
  have ok: "multi_ok (multi_session_set m 0 s)" using m s(3) by (simp add: multi_almost_def)
  have "multi_ok (multi_session_set (multi_session_set m 0 s) 2 (multi_session m 0))"
    using m e by (intro multi_ok_set [OF ok]) (auto simp: multi_almost_def)
  then show ?thesis
    using s m multi_session_set_swap [of 0 2 m s "multi_session m 0"]
    by (simp add: move_session_def Let_def index_defs multi_almost_def)
qed

lemma promote_ok:
  assumes m: "multi_ok m" and w: "world_ok w" and env: "env_ok env" and u: "session_live (tm_opt m) (multi_session m 1)"
  shows "\<exists>w' m'. move_session env w m TM_ACTIVE TM_UNTRUSTED True = Inr (w', m') \<and> world_ok w' \<and> multi_ok m'"
proof -
  obtain w' s where s: "tls_session_init env (tm_opt m) w = Inr (w', s)" "world_ok w'" "session_live (tm_opt m) s"
    using tls_session_init_total [OF multi_okD(1) [OF m] env w] by blast
  have m1: "multi_ok (multi_session_set m 0 (multi_session m 1))"
    using u session_liveD(1) [OF u] by (intro multi_ok_set [OF m]) auto
  have "multi_ok (multi_session_set (multi_session_set m 0 (multi_session m 1)) 1 s)"
    using s(3) session_liveD(1) [OF s(3)] by (intro multi_ok_set [OF m1]) auto
  then show ?thesis using s(1,2) multi_okD(2) [OF m] by (simp add: move_session_def Let_def index_defs)
qed

section \<open>All sessions\<close>

definition loop_ok :: "'s tls_step \<Rightarrow> bool" where
  "loop_ok s \<longleftrightarrow> multi_ok (ts_multi s) \<and> world_ok (ts_world s)"

lemma tmp_recover_ok:
  assumes s: "step_ok i s \<or> multi_almost i (ts_multi s) \<and> ks_state (step_ks s i) = S_ERROR \<and> world_ok (ts_world s)"
    and env: "env_ok env" and r: "tmp_recover env i s err = Inr (err', s')"
  shows "loop_ok s'"
proof (cases "ks_state (step_ks s i) = S_ERROR")
  case False
  then have "step_ok i s" "s' = s" using s r by (auto simp: tmp_recover_def)
  then show ?thesis using step_okD [of i s] by (simp add: loop_ok_def)
next
  case True
  then have a: "multi_almost i (ts_multi s)" "world_ok (ts_world s)"
    using s step_okD(6) [of i s] by (auto simp: key_live_def state_defs)
  let ?m = "(ts_multi s)\<lparr>tm_n_soft_errors := tm_n_soft_errors (ts_multi s) + 1\<rparr>"
  have m: "multi_almost i ?m" using a(1) by simp
  obtain w1 m1 where r1: "reset_session env (ts_world s) ?m i = Inr (w1, m1)" "world_ok w1" "multi_ok m1"
    using reset_session_ok [OF m a(2) env] by blast
  obtain w2 m2 where r2: "i = 0 \<Longrightarrow> move_session env (ts_world s) ?m TM_LAME_DUCK TM_ACTIVE True = Inr (w2, m2) \<and> world_ok w2 \<and> multi_ok m2"
    using move_to_lame_ok [OF _ a(2) env, of ?m] m True by (fastforce simp: step_ks_def multi_key_def state_defs)
  show ?thesis
    using r True r1 r2 by (auto simp: tmp_recover_def Let_def loop_ok_def TM_ACTIVE_def split: if_splits)
qed

lemma key_sim_remote [simp]: "key_sim k (k'\<lparr>ks_remote_addr := a\<rparr>) = key_sim k k'"
  by (simp add: key_sim_def)

lemma tmp_session_ok:
  assumes s: "loop_ok s" and i: "i < 3" and env: "env_ok env"
    and r: "tmp_session env ae i (s, active, err) = Inr (s', active', err')"
  shows "loop_ok s'"
proof -
  define t where "t = (if i = TM_ACTIVE \<and> ks_state (step_ks s i) = S_INITIAL \<and> link_socket_actual_defined (Some (lsa_actual (lsi_lsa (ts_info s))))
      then step_put s i ((step_ks s i)\<lparr>ks_remote_addr := lsa_actual (lsi_lsa (ts_info s))\<rparr>) else s)"
  have t: "multi_sim (ts_multi s) (ts_multi t)" "world_ok (ts_world t)"
    using s by (auto simp: t_def step_put_def step_ks_def loop_ok_def intro: multi_sim_key)
  have m: "multi_ok (ts_multi t)" using multi_sim_ok [OF t(1)] s by (simp add: loop_ok_def)
  show ?thesis
  proof (cases "ks_state (step_ks t i) \<ge> S_INITIAL \<and> link_socket_actual_defined (Some (ks_remote_addr (step_ks t i)))")
    case False
    then have "s' = t" using r unfolding tmp_session_def Let_def prod.case t_def [symmetric] by (auto split: if_splits)
    then show ?thesis using m t(2) by (simp add: loop_ok_def)
  next
    case True
    have st: "1 \<le> ks_state (primary (multi_session (ts_multi t) i))" using True by (simp add: step_ks_def multi_key_def state_defs)
    have i2: "i < 2"
    proof (rule ccontr)
      assume "\<not> i < 2"
      then have "i = 2" using i by simp
      then show False using st multi_okD(6) [OF m] by simp
    qed
    have l: "session_live (tm_opt (ts_multi t)) (multi_session (ts_multi t) i)"
      using i2 st multi_okD(3,4) [OF m] by (auto simp: less_2_cases_iff session_dead_def state_defs)
    let ?t = "(step_update_time env t)\<lparr>ts_link_addr := None\<rparr>"
    have ok: "step_ok i ?t" using i2 m t(2) l step_update_time_ok [of i t env] by (simp add: step_ok_def step_opt_def)
    obtain act u where u: "tls_process env ae i ?t = Inr (act, u)"
        "tmp_recover env i (case ts_link_addr u of None \<Rightarrow> u\<lparr>ts_link_addr := ts_link_addr t\<rparr>
            | Some a \<Rightarrow> u\<lparr>ts_multi := (ts_multi u)\<lparr>tm_to_link_addr := a\<rparr>\<rparr>) err = Inr (err', s')"
      using r True unfolding tmp_session_def Let_def prod.case t_def [symmetric] by (auto simp: bind_result_Inr)
    have "step_ok i u \<or> multi_almost i (ts_multi u) \<and> ks_state (step_ks u i) = S_ERROR \<and> world_ok (ts_world u)"
      using tls_process_ok [OF ok env u(1)]
    proof (elim disjE exE conjE)
      fix v assume v: "step_ok i v" "u = step_put v i ((step_ks v i)\<lparr>ks_state := S_ERROR\<rparr>)"
      have "ks_state (step_ks u i) = S_ERROR"
        using step_okD(2,7) [OF v(1)] by (simp add: v(2) step_put_def step_ks_def multi_key_def multi_key_set_def KS_PRIMARY_def)
      then show ?thesis using step_error_almost [OF v(1)] step_okD(4) [OF v(1)] by (simp add: v(2)) (simp add: step_put_def)
    qed simp
    moreover have "step_ok i (u\<lparr>ts_multi := (ts_multi u)\<lparr>tm_to_link_addr := a\<rparr>\<rparr>) = step_ok i u" for a
      by (simp add: step_ok_def step_opt_def)
    moreover have "step_ks (u\<lparr>ts_multi := (ts_multi u)\<lparr>tm_to_link_addr := a\<rparr>\<rparr>) i = step_ks u i" for a
      by (simp add: step_ks_def multi_key_def)
    moreover have "step_ks (u\<lparr>ts_link_addr := a\<rparr>) i = step_ks u i" for a
      by (simp add: step_ks_def)
    ultimately show ?thesis
      using tmp_recover_ok [OF _ env u(2)] by (auto split: option.splits)
  qed
qed

lemma tas_loop_sim: "tas_loop ae now ps m a b c = Inr (a', b', c', m') \<Longrightarrow> multi_sim m m'"
proof (induction ps arbitrary: m a b c)
  case (Cons p ps)
  show ?case
  proof (cases "DECRYPT_KEY_ENABLED m (multi_key m p) \<and> ks_authenticated (multi_key m p)")
    case False
    then show ?thesis using Cons by (auto simp: Let_def split: if_splits)
  next
    case True
    obtain s d k where t: "tas_key ae now (multi_key m p) = Inr (s, d, k)" "tas_loop ae now ps (multi_key_set m p k) True (b \<or> s) (c \<or> d) = Inr (a', b', c', m')"
      using Cons.prems True by (auto simp: Let_def bind_result_Inr)
    obtain s1 k1 where k1: "key_state_test_auth_control_file ae (multi_key m p) = (s1, k1)" by fastforce
    have "key_sim (multi_key m p) k1"
      using k1 by (auto simp: key_state_test_auth_control_file_def Let_def split: option.splits if_splits)
    then have "key_sim (multi_key m p) k" using t(1) k1 by (auto simp: tas_key_def Let_def split: if_splits)
    then show ?thesis using multi_sim_trans [OF multi_sim_key Cons.IH [OF t(2)]] by blast
  qed
qed simp

lemma tls_authentication_status_sim: "tls_authentication_status ae now m latency = Inr (r, m') \<Longrightarrow> multi_sim m m'"
  by (auto simp: tls_authentication_status_def bind_result_Inr dest!: tas_loop_sim split: if_splits)
     (auto simp: multi_sim_def)

lemma tmp_hard_errors_sim: "multi_sim m (tmp_hard_errors err m)"
  by (simp add: tmp_hard_errors_def Let_def)

lemma tls_multi_process_ok:
  assumes s: "loop_ok s" and env: "env_ok env" and r: "tls_multi_process env ae s = Inr (res, s')"
  shows "loop_ok s'"
proof -
  obtain s1 a1 e1 where s1: "tmp_session env ae 0 (s, False, False) = Inr (s1, a1, e1)"
    using r by (auto simp: tls_multi_process_def bind_result_Inr)
  obtain s2 a2 e2 where s2: "tmp_session env ae 1 (s1, a1, e1) = Inr (s2, a2, e2)"
    using r s1 by (auto simp: tls_multi_process_def bind_result_Inr)
  obtain s3 a3 e3 where s3: "tmp_session env ae 2 (s2, a2, e2) = Inr (s3, a3, e3)"
    using r s1 s2 by (auto simp: tls_multi_process_def bind_result_Inr)
  have ok3: "loop_ok s3"
    using tmp_session_ok [OF tmp_session_ok [OF tmp_session_ok [OF s _ env s1] _ env s2] _ env s3] by simp
  let ?s = "step_update_time env s3"
  have w: "world_ok (ts_world ?s)" and m3: "multi_ok (ts_multi ?s)" using ok3 by (simp_all add: loop_ok_def step_update_time_def)
  obtain tas m4 where m4: "tls_authentication_status ae (step_now ?s) (ts_multi ?s) TLS_MULTI_AUTH_STATUS_INTERVAL = Inr (tas, m4)"
    using r s1 s2 s3 by (auto simp: tls_multi_process_def bind_result_Inr Let_def)
  have ok4: "multi_ok m4" by (rule multi_sim_ok [OF tls_authentication_status_sim [OF m4] m3])
  obtain die wk where die: "lame_duck_must_die (step_now ?s) (multi_session m4 TM_LAME_DUCK) (ts_wakeup ?s) = Inr (die, wk)"
    using r s1 s2 s3 m4 by (auto simp: tls_multi_process_def bind_result_Inr Let_def)
  define m5 where "m5 = (if die then multi_session_set m4 TM_LAME_DUCK (tls_session_free (multi_session m4 TM_LAME_DUCK) True) else m4)"
  have ok5: "multi_ok m5"
    unfolding m5_def using ok4
    by (auto simp: TM_LAME_DUCK_def tls_session_free_def Let_def tls_session_clear_def index_defs key_state_clear_def intro!: multi_ok_set)
  define c where "c = (if DECRYPT_KEY_ENABLED m5 (multi_primary m5 TM_UNTRUSTED) then move_session env (ts_world ?s) m5 TM_ACTIVE TM_UNTRUSTED True
                  else Inr (ts_world ?s, m5))"
  have c: "\<exists>w6 m6. c = Inr (w6, m6) \<and> world_ok w6 \<and> multi_ok m6"
  proof (cases "DECRYPT_KEY_ENABLED m5 (multi_primary m5 TM_UNTRUSTED)")
    case False
    then show ?thesis using w ok5 by (simp add: c_def)
  next
    case True
    then have "\<not> session_dead (multi_session m5 1)"
      by (auto simp: DECRYPT_KEY_ENABLED_def session_dead_def multi_key_def index_defs state_defs split: if_splits)
    then show ?thesis using promote_ok [OF ok5 w env] multi_okD(4) [OF ok5] True by (simp add: c_def)
  qed
  then obtain w6 m6 where m6: "c = Inr (w6, m6)" "world_ok w6" "multi_ok m6" by blast
  have "s' = ?s\<lparr>ts_world := w6, ts_multi := tmp_hard_errors e3 m6, ts_wakeup := wk\<rparr>"
    using r s1 s2 s3 m4 die m6(1) unfolding c_def m5_def tls_multi_process_def by (auto simp: bind_result_Inr Let_def)
  then show ?thesis using m6 multi_sim_ok [OF tmp_hard_errors_sim m6(3)] by (simp add: loop_ok_def)
qed

section \<open>Reachable states\<close>

inductive reachable :: "'s tls_env \<Rightarrow> auth_env \<Rightarrow> tls_world \<Rightarrow> 's tls_multi \<Rightarrow> tls_world \<Rightarrow> 's tls_multi \<Rightarrow> bool"
  for env :: "'s tls_env" and ae :: auth_env and w0 :: tls_world and m0 :: "'s tls_multi" where
  start: "reachable env ae w0 m0 w0 m0"
| packet: "reachable env ae w0 m0 w m \<Longrightarrow> buf_ok b \<Longrightarrow> packet_fits m b \<Longrightarrow>
    tls_pre_decrypt env w m src b opt = Inr (ret, p, w', m', b', opt') \<Longrightarrow> reachable env ae w0 m0 w' m'"
| decrypted: "reachable env ae w0 m0 w m \<Longrightarrow> p \<in> Some ` set key_scan \<Longrightarrow> reachable env ae w0 m0 w (data_channel_put m p opt)"
| encrypt: "reachable env ae w0 m0 w m \<Longrightarrow> tls_pre_encrypt (tls_now w) m b opt = (m', b', opt') \<Longrightarrow> reachable env ae w0 m0 w m'"
| encrypted: "reachable env ae w0 m0 w m \<Longrightarrow> tls_post_encrypt m b = Inr (m', b') \<Longrightarrow> reachable env ae w0 m0 w m'"
| process: "reachable env ae w0 m0 (ts_world s) (ts_multi s) \<Longrightarrow> tls_multi_process env ae s = Inr (res, s') \<Longrightarrow>
    reachable env ae w0 m0 (ts_world s') (ts_multi s')"
| send_payload: "reachable env ae w0 m0 w m \<Longrightarrow> tls_send_payload env w m data = Inr (ok, m') \<Longrightarrow> reachable env ae w0 m0 w m'"
| rec_payload: "reachable env ae w0 m0 w m \<Longrightarrow> tls_rec_payload m b = (ok, m', b') \<Longrightarrow> reachable env ae w0 m0 w m'"
| deauthenticate: "reachable env ae w0 m0 w m \<Longrightarrow> reachable env ae w0 m0 w (tls_deauthenticate m)"
| authenticate: "reachable env ae w0 m0 w m \<Longrightarrow> tls_authenticate_key m mda_key_id auth reason = (ok, m') \<Longrightarrow> reachable env ae w0 m0 w m'"
| status: "reachable env ae w0 m0 w m \<Longrightarrow> tls_authentication_status ae (tls_now w) m latency = Inr (res, m') \<Longrightarrow> reachable env ae w0 m0 w m'"
| tick: "reachable env ae w0 m0 w m \<Longrightarrow> reachable env ae w0 m0 (tls_update_time env w) m"

lemma key_sim_counters [simp]:
  "key_sim k (k'\<lparr>ks_n_packets := n\<rparr>) = key_sim k k'" "key_sim k (k'\<lparr>ks_n_bytes := n\<rparr>) = key_sim k k'"
  by (simp_all add: key_sim_def)

lemma tak_loop_sim: "tak_loop mda_key_id auth ps m r = (r', m') \<Longrightarrow> multi_sim m m'"
proof (induction ps arbitrary: m r)
  case (Cons p ps)
  show ?case
  proof (cases "ks_mda_key_id (multi_key m p) = mda_key_id")
    case True
    then have "multi_sim (multi_key_set m p ((multi_key m p)\<lparr>ks_mda_status := (if auth then ACF_SUCCEEDED else ACF_FAILED)\<rparr>)) m'"
      using Cons.prems by (intro Cons.IH) (simp add: Let_def)
    then show ?thesis by (rule multi_sim_trans [OF multi_sim_key, rotated]) simp
  next
    case False
    then show ?thesis using Cons by (simp add: Let_def)
  qed
qed simp

lemma tls_post_encrypt_sim: "tls_post_encrypt m b = Inr (m', b') \<Longrightarrow> multi_sim m m'"
proof -
  assume r: "tls_post_encrypt m b = Inr (m', b')"
  have s: "multi_sim m (multi_key_set (m\<lparr>tm_save_ks := None\<rparr>) p ((multi_key (m\<lparr>tm_save_ks := None\<rparr>) p)\<lparr>ks_n_packets := x, ks_n_bytes := y\<rparr>))" for p x y
    by (rule multi_sim_trans [OF _ multi_sim_key]) simp_all
  obtain q b1 where q: "buf_prepend b 1 = (q, b1)" by fastforce
  show "multi_sim m m'" using r s q by (auto simp: tls_post_encrypt_def Let_def split: if_splits option.splits)
qed

lemma tls_send_payload_sim:
  assumes "tls_send_payload env w m data = Inr (ok, m')"
  shows "multi_sim m m'"
proof (cases "ks_state (multi_primary m TM_ACTIVE) \<ge> S_ACTIVE")
  case True
  then obtain n k pc where "key_state_write_plaintext_const env (multi_primary m TM_ACTIVE) (multi_peer m TM_ACTIVE) data = Inr (n, k, pc)"
      "m' = multi_peer_set (multi_primary_set m TM_ACTIVE k) TM_ACTIVE pc"
    using assms by (auto simp: tls_send_payload_def Let_def bind_result_Inr)
  then show ?thesis using multi_sim_trans [OF multi_sim_key [OF key_state_write_sim(2)] multi_sim_peer] by blast
next
  case False
  have "key_sim k (k\<lparr>ks_paybuf := x\<rparr>)" for k :: "'a key_state" and x by (simp add: key_sim_def)
  then show ?thesis using assms False by (auto simp: tls_send_payload_def Let_def bind_result_Inr intro!: multi_sim_key)
qed

lemma tls_pre_decrypt_ok:
  assumes m: "multi_ok m" and w: "world_ok w" and env: "env_ok env" and b: "buf_ok b" "packet_fits m b"
  shows "\<exists>ret p w' m' b' opt'. tls_pre_decrypt env w m src b opt = Inr (ret, p, w', m', b', opt') \<and> multi_ok m' \<and> world_ok w' \<and> tm_opt m' = tm_opt m"
proof (cases "b_len b > 0")
  case False
  then show ?thesis using m w by (auto simp: tls_pre_decrypt_def)
next
  case True
  let ?op = "uint (drop_bit P_OPCODE_SHIFT (hd (buf_contents b)))" and ?key = "uint (hd (buf_contents b)) AND P_KEY_ID_MASK"
  show ?thesis
  proof (cases "?op = P_DATA_V1")
    case d: True
    then show ?thesis using tls_pre_decrypt_data_total [OF m b(1) True, of src opt ?key] True w
      by (auto simp: tls_pre_decrypt_def Let_def)
  next
    case False
    obtain ret err w' m' where c: "tls_pre_decrypt_control env w m src b ?op ?key = Inr (ret, err, w', m')" "multi_ok m'" "world_ok w'" "tm_opt m' = tm_opt m"
      using tls_pre_decrypt_control_total [OF m w env b, of src ?op ?key] by blast
    then have "multi_ok (if err then m'\<lparr>tm_n_soft_errors := tm_n_soft_errors m' + 1\<rparr> else m')" by simp
    then show ?thesis using True False c by (cases err) (simp_all add: tls_pre_decrypt_def Let_def)
  qed
qed

lemma reachable_ok:
  assumes "reachable env ae w0 m0 w m" "env_ok env" "world_ok w0" "multi_ok m0"
  shows "world_ok w \<and> multi_ok m"
  using assms
proof (induction rule: reachable.induct)
  case (packet w m b src opt ret p w' m' b' opt')
  then show ?case using tls_pre_decrypt_ok [of m w env b src opt] by auto
next
  case (decrypted w m p opt)
  then have m: "multi_ok m" "world_ok w" by simp_all
  have "multi_sim m (data_channel_put m p opt)"
    by (auto simp: data_channel_put_def intro!: multi_sim_key split: option.splits)
  then show ?case using multi_sim_ok m by blast
next
  case (encrypt w m b opt m' b' opt')
  then have "multi_sim m m'" by (auto simp: tls_pre_encrypt_def Let_def split: option.splits if_splits)
  then show ?case using multi_sim_ok encrypt by blast
next
  case (encrypted w m b m' b')
  then show ?case using multi_sim_ok [OF tls_post_encrypt_sim] by blast
next
  case (process s res s')
  then show ?case using tls_multi_process_ok [of s env ae res s'] by (simp add: loop_ok_def)
next
  case (send_payload w m data ok m')
  then show ?case using multi_sim_ok [OF tls_send_payload_sim] by blast
next
  case (rec_payload w m b ok m' b')
  then have "multi_sim m m'" by (auto simp: tls_rec_payload_def Let_def case_prod_beta intro!: multi_sim_key split: if_splits)
  then show ?case using multi_sim_ok rec_payload by blast
next
  case (deauthenticate w m)
  then show ?case using multi_sim_ok [OF multi_sim_deauthenticate] by blast
next
  case (authenticate w m mda_key_id auth reason ok m')
  then have "multi_sim m m'"
    using tak_loop_sim [of mda_key_id auth key_scan "man_def_auth_set_client_reason m reason" False ok m']
    by (simp add: tls_authenticate_key_def man_def_auth_set_client_reason_def) (simp add: multi_sim_def)
  then show ?case using multi_sim_ok authenticate by blast
next
  case (status w m latency res m')
  then show ?case using multi_sim_ok [OF tls_authentication_status_sim] by blast
qed simp_all


section \<open>An example\<close>

definition ex_env :: "unit tls_env" where
  "ex_env = \<lparr>te_time = \<lambda>i. 100 + int i, te_rand = \<lambda>i n. Some (replicate n 0), te_prng = \<lambda>i. [1, 2, 3, 4, 5, 6, 7, 8], te_junk = \<lambda>i j. 0,
     te_ssl_new = \<lambda>server. Some (), te_write_ct = \<lambda>s bs. ((int (length bs), False), s), te_read_ct = \<lambda>s n. (Inr True, s),
     te_write_pt = \<lambda>s pc bs. ((int (length bs), False), s, pc), te_read_pt = \<lambda>s pc n. (Inr True, s, pc),
     te_md5 = \<lparr>md_size = 16, md_hmac = \<lambda>k m. replicate 16 0, md_digest = \<lambda>m. replicate 16 0\<rparr>,
     te_sha1 = \<lparr>md_size = 20, md_hmac = \<lambda>k m. replicate 20 0, md_digest = \<lambda>m. replicate 20 0\<rparr>,
     te_des = \<lparr>des_is_weak_key = \<lambda>k. False, des_check_key_parity = \<lambda>k. True, des_set_odd_parity = \<lambda>k. k\<rparr>\<rparr>"

definition ex_data_frame :: frame where
  "ex_data_frame = \<lparr>f_link_mtu = 1541, f_link_mtu_dynamic = 1541, f_extra_frame = 41, f_extra_buffer = 0, f_extra_tun = 0,
     f_extra_link = 0, f_align_flags = 0, f_align_adjust = 0\<rparr>"

definition ex_options :: tls_options where
  "ex_options = \<lparr>to_key_type = \<lparr>kt_cipher_length = 16, kt_hmac_length = 20, kt_cipher = None, kt_digest = None\<rparr>, to_server = True,
     to_xmit_hold = False, to_local_options = [], to_remote_options = [], to_key_method = 2, to_replay = True, to_single_session = False,
     to_disable_occ = False, to_transition_window = 3600, to_handshake_window = 60, to_packet_timeout = 2, to_renegotiate_bytes = 0,
     to_renegotiate_packets = 0, to_renegotiate_seconds = 3600, to_crypto_flags_and = NOT 0, to_crypto_flags_or = 0, to_replay_window = 64,
     to_replay_time = 15, to_tls_auth = ex_auth None, to_frame = ex_data_frame, to_auth_user_pass_verify_script = False,
     to_client_config_dir_exclusive = None, to_ssl_flags = 0, to_gremlin = 0\<rparr>"

abbreviation (input) ex_tls_key :: key_ctx_bi where
  "ex_tls_key \<equiv> \<lparr>kb_encrypt = \<lparr>k_cipher = None, k_hmac = Some ex_hmac\<rparr>, kb_decrypt = \<lparr>k_cipher = None, k_hmac = Some ex_hmac\<rparr>\<rparr>"

definition ex_control_frame :: frame where
  "ex_control_frame = \<lparr>f_link_mtu = 1541, f_link_mtu_dynamic = 179, f_extra_frame = 79, f_extra_buffer = 0, f_extra_tun = 0,
     f_extra_link = 0, f_align_flags = 0, f_align_adjust = 0\<rparr>"

lemma tls_multi_init_finalize_opt:
  "tls_multi_init_finalize env w m frame = Inr (w', m') \<Longrightarrow> tls_init_control_channel_frame_parameters frame (to_frame (tm_opt m)) = Inr f \<Longrightarrow>
   to_frame (tm_opt m') = f"
  by (auto simp: tls_multi_init_finalize_def bind_result_Inr Let_def split: if_splits)


end
