(* ===== verification/Tls_Access.thy ===== *)
theory Tls_Access
  imports Tls_Reach
begin

text \<open>
  Who may use the data channel: what the authentication of a key exchange accepts (\<open>key_method_2_read\<close>), what becomes of
  keys whose approval is deferred or refused (\<open>tls_authentication_status\<close>, \<open>tls_pre_encrypt\<close>, \<open>tls_pre_decrypt\<close>), and
  the places where the code lets a peer do more than it should.
\<close>



section \<open>Key messages\<close>

lemma buf_advance_short: "buf_ok b \<Longrightarrow> 0 \<le> n \<Longrightarrow> b_len b < n \<Longrightarrow> buf_advance b n = (False, b)"
  by (simp add: buf_advance_def)

text \<open>C6. A key message of fewer than four bytes stops the process: the plaintext of the first TLS record is
  read with an assertion on its length, so any peer that completes the TLS handshake can end a server (and a server its
  clients) by sending one byte.\<close>

theorem short_key_message_stops_the_process:
  assumes km: "to_key_method (step_opt s) = 2"
    and st: "ks_state (step_ks s i) = (if to_server (step_opt s) then S_START else S_SENT_KEY)"
    and b: "buf_ok (ks_plaintext_read_buf (step_ks s i))" "0 < b_len (ks_plaintext_read_buf (step_ks s i))"
      "b_len (ks_plaintext_read_buf (step_ks s i)) < 4"
  shows "tp_receive_key env ae i s = Inl AssertFailed"
proof -
  have "key_method_2_read env ae (ts_world s) (ts_multi s) i = Inl AssertFailed"
    using km buf_advance_short [OF b(1) _ b(3)] by (simp add: key_method_2_read_def step_opt_def step_ks_def Let_def)
  then show ?thesis using km st b(2) by (simp add: tp_receive_key_def Let_def step_opt_def state_defs split: if_splits)
qed

text \<open>\<open>--opt-verify\<close> has no effect on a peer whose options string begins with two other characters: the comparison
  of the options then answers that they are equal, and the key stays authenticated.\<close>

theorem opt_verify_skipped:
  assumes "take 2 options \<noteq> take 2 (to_remote_options (tm_opt m))"
  shows "options \<noteq> to_remote_options (tm_opt m) \<and> check_remote_options m i options = m"
  using assms by (auto simp: check_remote_options_def options_cmp_equal_def)

section \<open>Data packets before the keys exist\<close>

lemma packet_id_read_short:
  assumes "buf_ok b" "4 \<le> length (buf_contents b)"
  shows "\<exists>b'. packet_id_read b False = (True, \<lparr>n_id = u32_of_bytes (take 4 (buf_contents b)), n_time = 0\<rparr>, b') \<and> buf_contents b' = drop 4 (buf_contents b)"
proof -
  obtain b1 where "buf_read b 4 = (Some (take 4 (buf_contents b)), b1)" "buf_contents b1 = drop 4 (buf_contents b)"
    using buf_read_ok [OF assms(1), of 4] assms(2) by auto
  then show ?thesis by (simp add: packet_id_read_def)
qed

lemma data_opcode:
  assumes "0 \<le> k" "k < 8" "c = 48 + word_of_int k"
  shows "uint (drop_bit P_OPCODE_SHIFT (c :: byte)) = P_DATA_V1" "uint c AND P_KEY_ID_MASK = k"
proof -
  have c: "uint c = 48 + k" using assms by (simp add: uint_word_ariths word_of_int_inverse uint_word_of_int)
  show "uint (drop_bit P_OPCODE_SHIFT c) = P_DATA_V1"
    using c assms(1,2) by (simp add: drop_bit_eq_div uint_div P_OPCODE_SHIFT_def P_DATA_V1_def)
  have "uint c AND 7 = uint c mod 8"
    using take_bit_eq_mask [of 3 "uint c"] by (simp add: take_bit_eq_mod mask_eq_exp_minus_1)
  moreover have "(48 + k) mod 8 = k" using assms(1,2) by presburger
  ultimately show "uint c AND P_KEY_ID_MASK = k" using c by (simp add: P_KEY_ID_MASK_def)
qed


lemma server_leaves_the_loop_in_got_key:
  \<comment> \<open>a control packet that is due keeps the server in that state until the next round\<close>
  fixes s :: "'s tls_step" and env :: "'s tls_env"
  defines "t \<equiv> (step_update_time env s)\<lparr>ts_change := False\<rparr>"
  assumes st: "ks_state (step_ks s i) = S_GOT_KEY" "to_server (step_opt s)" "step_now t < ks_must_negotiate (step_ks s i)"
    and send: "b_len (ts_to_link s) = 0" "reliable_can_send (step_now t) (ks_send_reliable (step_ks s i))"
      "reliable_send (step_now t) (ks_send_reliable (step_ks s i)) = (Some (k, op), rel)"
      "step_control_packet i t ((step_ks s i)\<lparr>ks_send_reliable := rel\<rparr>) (e_buf (rel_array rel ! k)) op CONTROL_SEND_ACK_MAX True = Inr (t', ks', b')"
  shows "tp_pass env ae i s = Inr (Break (step_put t' i ks')) \<and> ks_state ks' = S_GOT_KEY"
proof -
  have t: "step_ks t i = step_ks s i" "step_opt t = step_opt s" "ts_to_link t = ts_to_link s"
    by (simp_all add: t_def step_ks_def step_opt_def step_update_time_def)
  have "tp_initial i t = Inr (Next t)" "tp_timeout i t = Inr (Next t)" "tp_start i t = Inr (Next t)" "tp_active env i t = Inr (Next t)"
    using st t by (simp_all add: tp_initial_def tp_timeout_def tp_start_def tp_active_def Let_def state_defs)
  moreover have "tp_send i t = Inr (Break (step_put t' i ks'))"
    using send t by (simp add: tp_send_def Let_def)
  moreover obtain w x where "write_control_auth (ts_world t) (multi_session (ts_multi t) i) ((step_ks s i)\<lparr>ks_send_reliable := rel\<rparr>)
      (e_buf (rel_array rel ! k)) op CONTROL_SEND_ACK_MAX True = Inr (w, x, ks', b')"
    using send(4) unfolding step_control_packet_def Let_def by (auto simp: bind_result_Inr)
  moreover from this have "ks_state ks' = S_GOT_KEY"
    by (rule write_control_auth_cases) (simp add: st(1))
  ultimately show ?thesis by (simp add: tp_pass_def t_def [symmetric])
qed

section \<open>What an authenticated key exchange has passed\<close>

definition key_valid :: "'s tls_multi \<Rightarrow> nat \<Rightarrow> bool" where
  "key_valid m i \<longleftrightarrow> i < length (tm_session m) \<and> 0 < length (se_key (multi_session m i))"

lemma key_valid_sim: "multi_sim m m' \<Longrightarrow> key_valid m i \<Longrightarrow> key_valid m' i"
  using multi_sim_nth [of m m' i]
  by (auto simp: key_valid_def multi_sim_def session_sim_def dest: list_all2_lengthD)

lemma key_access [simp]:
  assumes "key_valid m i"
  shows "multi_primary (multi_primary_set m i k) i = k" "multi_peer (multi_primary_set m i k) i = multi_peer m i"
    "multi_peer (multi_peer_set m i pc) i = pc" "multi_primary (multi_peer_set m i pc) i = multi_primary m i"
    "key_valid (multi_primary_set m i k) i" "key_valid (multi_peer_set m i pc) i"
  using assms by (simp_all add: key_valid_def multi_key_def multi_key_set_def multi_peer_def multi_peer_set_def KS_PRIMARY_def)

lemma locked_set [simp]:
  "tm_locked_cn (multi_key_set m p k) = tm_locked_cn m" "tm_locked_cn (multi_peer_set m i pc) = tm_locked_cn m"
  "tm_locked_cert_hash_set (multi_key_set m p k) = tm_locked_cert_hash_set m"
  "tm_locked_cert_hash_set (multi_peer_set m i pc) = tm_locked_cert_hash_set m"
  "tm_locked_username (multi_key_set m p k) = tm_locked_username m" "tm_opt (multi_peer_set m i pc) = tm_opt m"
  "tm_locked_cn (tls_deauthenticate m) = tm_locked_cn m" "tm_locked_cert_hash_set (tls_deauthenticate m) = tm_locked_cert_hash_set m"
  "tm_opt (tls_deauthenticate m) = tm_opt m"
  by (simp_all add: multi_key_set_def multi_peer_set_def multi_session_set_def tls_deauthenticate_def)

lemma deauthenticated: "key_valid m i \<Longrightarrow> \<not> ks_authenticated (multi_primary (tls_deauthenticate m) i)"
  by (simp add: key_valid_def tls_deauthenticate_def multi_key_def multi_session_def KS_PRIMARY_def)

lemma set_authenticated_key [simp]:
  "key_valid m i \<Longrightarrow> ks_authenticated (multi_primary (set_authenticated m i a) i) = a"
  "key_valid m i \<Longrightarrow> multi_peer (set_authenticated m i a) i = multi_peer m i"
  "key_valid m i \<Longrightarrow> key_valid (set_authenticated m i a) i"
  "tm_locked_cn (set_authenticated m i a) = tm_locked_cn m" "tm_locked_cert_hash_set (set_authenticated m i a) = tm_locked_cert_hash_set m"
  "tm_locked_username (set_authenticated m i a) = tm_locked_username m" "tm_opt (set_authenticated m i a) = tm_opt m"
  by (simp_all add: set_authenticated_def)

definition identity_ok :: "auth_env \<Rightarrow> 's tls_multi \<Rightarrow> peer_cert \<Rightarrow> cstr \<Rightarrow> bool" where
  \<comment> \<open>the certificate of the session meets what is locked and configured\<close>
  "identity_ok ae m pc options \<longleftrightarrow>
     (\<forall>locked. tm_locked_cn m = Some locked \<longrightarrow> pc_common_name pc = Some locked)
     \<and> (tm_locked_cert_hash_set m \<noteq> None \<and> pc_cert_hash_set pc \<noteq> None \<longrightarrow> cert_hash_compare (pc_cert_hash_set pc) (tm_locked_cert_hash_set m))
     \<and> (to_client_config_dir_exclusive (tm_opt m) \<noteq> None \<longrightarrow>
          pc_common_name pc \<noteq> Some CCD_DEFAULT \<and> test_file ae (gen_path (to_client_config_dir_exclusive (tm_opt m)) (pc_common_name pc)))
     \<and> (\<not> to_disable_occ (tm_opt m) \<and> to_ssl_flags (tm_opt m) AND SSLF_OPT_VERIFY \<noteq> 0 \<longrightarrow> options_cmp_equal options (to_remote_options (tm_opt m)))
     \<and> (\<forall>f. ae_plugin_final ae = Some f \<longrightarrow> f (pc_common_name pc))"

lemma checks_authenticated:
  assumes v: "key_valid m i" and a: "ks_authenticated (multi_primary (key_method_2_checks ae m i options) i)"
  shows "identity_ok ae m (multi_peer (key_method_2_checks ae m i options) i) options \<and> ks_authenticated (multi_primary m i)"
proof -
  define m0 where "m0 = (if pc_common_name (multi_peer m i) = None then multi_peer_set m i (set_common_name (multi_peer m i) (Some [])) else m)"
  have v0: "key_valid m0 i" "multi_primary m0 i = multi_primary m i" and f0: "tm_opt m0 = tm_opt m" "tm_locked_cn m0 = tm_locked_cn m" "tm_locked_cert_hash_set m0 = tm_locked_cert_hash_set m"
    using v by (auto simp: m0_def)
  have cn0: "pc_common_name (multi_peer m0 i) \<noteq> None" using v by (auto simp: m0_def set_common_name_def Let_def)
  have c1: "check_locked_cn m0 i = m0 \<and> (\<forall>l. tm_locked_cn m = Some l \<longrightarrow> pc_common_name (multi_peer m0 i) = Some l)"
    if "ks_authenticated (multi_primary (check_locked_cn m0 i) i)"
    using that v0 f0 cn0 deauthenticated [of "multi_peer_set m0 i x" i for x] by (auto simp: check_locked_cn_def split: option.splits if_splits)
  have c2: "check_locked_cert_hash_set q i = q \<and> (tm_locked_cert_hash_set q \<noteq> None \<and> pc_cert_hash_set (multi_peer q i) \<noteq> None
      \<longrightarrow> cert_hash_compare (pc_cert_hash_set (multi_peer q i)) (tm_locked_cert_hash_set q))"
    if "key_valid q i" "ks_authenticated (multi_primary (check_locked_cert_hash_set q i) i)" for q :: "'a tls_multi"
    using that deauthenticated [OF that(1)] by (auto simp: check_locked_cert_hash_set_def split: if_splits)
  have c3: "check_client_config_dir ae q i = q \<and> (to_client_config_dir_exclusive (tm_opt q) \<noteq> None \<longrightarrow>
        pc_common_name (multi_peer q i) \<noteq> Some CCD_DEFAULT \<and> test_file ae (gen_path (to_client_config_dir_exclusive (tm_opt q)) (pc_common_name (multi_peer q i))))"
    if "key_valid q i" "ks_authenticated (multi_primary (check_client_config_dir ae q i) i)" for q :: "'a tls_multi"
    using that by (auto simp: check_client_config_dir_def Let_def split: if_splits)
  have c4: "check_remote_options q i options = q \<and> (\<not> to_disable_occ (tm_opt q) \<and> to_ssl_flags (tm_opt q) AND SSLF_OPT_VERIFY \<noteq> 0
      \<longrightarrow> options_cmp_equal options (to_remote_options (tm_opt q)))"
    if "key_valid q i" "ks_authenticated (multi_primary (check_remote_options q i options) i)" for q :: "'a tls_multi"
    using that by (auto simp: check_remote_options_def split: if_splits)
  have c5: "check_plugin_final ae q i = q \<and> (\<forall>f. ae_plugin_final ae = Some f \<longrightarrow> f (pc_common_name (multi_peer q i)))"
    if "key_valid q i" "ks_authenticated (multi_primary (check_plugin_final ae q i) i)" for q :: "'a tls_multi"
    using that by (auto simp: check_plugin_final_def split: option.splits if_splits)
  let ?m1 = "check_locked_cn m0 i"
  let ?m2 = "check_locked_cert_hash_set ?m1 i"
  let ?m3 = "check_client_config_dir ae ?m2 i"
  let ?m4 = "check_remote_options ?m3 i options"
  have eq: "key_method_2_checks ae m i options = check_plugin_final ae ?m4 i" by (simp add: key_method_2_checks_def m0_def Let_def)
  have s: "multi_sim m0 ?m1" "multi_sim ?m1 ?m2" "multi_sim ?m2 ?m3" "multi_sim ?m3 ?m4"
    using multi_sim_trans [OF multi_sim_peer multi_sim_deauthenticate]
    by (auto simp: check_locked_cn_def check_locked_cert_hash_set_def check_client_config_dir_def check_remote_options_def Let_def
        multi_sim_deauthenticate multi_sim_authenticated split: option.splits)
  have v1: "key_valid ?m1 i" by (rule key_valid_sim [OF s(1) v0(1)])
  have v2: "key_valid ?m2 i" by (rule key_valid_sim [OF s(2) v1])
  have v3: "key_valid ?m3 i" by (rule key_valid_sim [OF s(3) v2])
  have v4: "key_valid ?m4 i" by (rule key_valid_sim [OF s(4) v3])
  have e5: "check_plugin_final ae ?m4 i = ?m4" and a5: "\<forall>f. ae_plugin_final ae = Some f \<longrightarrow> f (pc_common_name (multi_peer ?m4 i))"
    using c5 [OF v4] a eq by auto
  have e4: "?m4 = ?m3" using c4 [OF v3] a eq e5 by auto
  have e3: "?m3 = ?m2" using c3 [OF v2] a eq e5 e4 by auto
  have e2: "?m2 = ?m1" using c2 [OF v1] a eq e5 e4 e3 by auto
  have "ks_authenticated (multi_primary ?m1 i)" using a eq e5 e4 e3 e2 by simp
  then have e1: "?m1 = m0" and l: "\<forall>l. tm_locked_cn m = Some l \<longrightarrow> pc_common_name (multi_peer m0 i) = Some l" using c1 by auto
  have r: "key_method_2_checks ae m i options = m0" using eq e5 e4 e3 e2 e1 by simp
  have a0: "ks_authenticated (multi_primary m0 i)" using a r by simp
  have "identity_ok ae m (multi_peer m0 i) options"
    unfolding identity_ok_def
    using l c2 [OF v0(1)] c3 [OF v0(1)] c4 [OF v0(1)] a5 a0 f0 e1 e2 e3 e4 by simp
  then show ?thesis using r a0 v0(2) by simp
qed

lemma key_method_2_read_result:
  assumes r: "key_method_2_read env ae w m i = Inr (True, m')"
  shows "\<exists>k2 b1 m4 b2 options k. key_method_2_authenticate ae (multi_primary_set m i ((multi_primary m i)\<lparr>ks_key_src := k2\<rparr>)) i b1 = (True, m4, b2)
    \<and> m' = multi_primary_set (key_method_2_checks ae m4 i options) i k
    \<and> ks_authenticated k = ks_authenticated (multi_primary (key_method_2_checks ae m4 i options) i)"
proof -
  obtain o1 b1 where b1: "buf_advance (ks_plaintext_read_buf (multi_primary m i)) 4 = (o1, b1)" by fastforce
  obtain fl b2 where b2: "buf_read_u8 b1 = (fl, b2)" by fastforce
  obtain o2 k2 b3 where b3: "key_source2_read (ks_key_src (multi_primary m i)) b2 (to_server (tm_opt m)) = (o2, k2, b3)" by (metis surj_pair)
  obtain o3 b4 where b4: "read_string b3 TLS_OPTIONS_LEN = (o3, b4)" by fastforce
  let ?m = "multi_primary_set m i ((multi_primary m i)\<lparr>ks_key_src := k2\<rparr>)"
  obtain o4 m4 b5 where a: "key_method_2_authenticate ae ?m i b4 = (o4, m4, b5)" by (metis surj_pair)
  have ok: "o1 \<and> \<not> fl AND KEY_METHOD_MASK \<noteq> 2 \<and> o2 \<and> o3 \<noteq> None \<and> o4"
    using r unfolding key_method_2_read_def Let_def b1 prod.case b2 b3 b4 by (auto simp: a split: option.splits if_splits bool.splits)
  then obtain options where o: "o3 = Some options" by auto
  show ?thesis
    using r ok unfolding key_method_2_read_def Let_def b1 prod.case b2 b3 b4 o option.case a
    by (intro exI [of _ k2] exI [of _ b4] exI [of _ m4] exI [of _ b5] exI [of _ options])
       (auto simp: a bind_result_Inr split: if_splits option.splits)
qed

definition login_ok :: "auth_env \<Rightarrow> 's tls_multi \<Rightarrow> cstr option \<Rightarrow> cstr \<Rightarrow> cstr \<Rightarrow> bool" where
  \<comment> \<open>the answers to a user name and password as read; the third argument is the common name at that time\<close>
  "login_ok ae m cn u p \<longleftrightarrow>
     (let opt = tm_opt m; un = string_mod_sslname u COMMON_NAME_CHAR_CLASS (to_ssl_flags opt);
          pw = snd (string_mod p CC_PRINT CC_CRLF 95); raw = snd (string_mod u CC_PRINT CC_CRLF 95)
      in (tm_locked_username m = None \<or> tm_locked_username m = Some un)
         \<and> (to_auth_user_pass_verify_script opt \<longrightarrow> username_ok opt un \<and> ae_script ae un pw cn)
         \<and> (\<forall>f. ae_plugin ae = Some f \<longrightarrow> username_ok opt un
              \<and> (f raw pw cn = OPENVPN_PLUGIN_FUNC_SUCCESS \<or> f raw pw cn = OPENVPN_PLUGIN_FUNC_DEFERRED))
         \<and> (ae_mgmt_def_auth ae \<longrightarrow> username_ok opt un))"

lemma user_pass_verdict_authenticated:
  assumes v: "key_valid m i" and n: "\<not> ks_authenticated (multi_primary m i)"
    and a: "ks_authenticated (multi_primary (user_pass_verdict ae m i u p) i)"
  shows "login_ok ae m (pc_common_name (multi_peer m i)) u p"
proof -
  let ?opt = "tm_opt m" and ?cn = "pc_common_name (multi_peer m i)"
  let ?u = "string_mod_sslname u COMMON_NAME_CHAR_CLASS (to_ssl_flags ?opt)"
  let ?p = "snd (string_mod p CC_PRINT CC_CRLF 95)" and ?raw = "snd (string_mod u CC_PRINT CC_CRLF 95)"
  obtain s1 ks where p: "(case ae_plugin ae of
        Some plugin_call \<Rightarrow> verify_user_pass_plugin ae ?opt ?cn plugin_call ?u ?p ?raw (multi_primary m i)
      | None \<Rightarrow> (OPENVPN_PLUGIN_FUNC_SUCCESS, multi_primary m i)) = (s1, ks)" by fastforce
  have ks: "\<not> ks_authenticated ks"
    using p n by (auto simp: verify_user_pass_plugin_def Let_def key_state_gen_auth_control_file_def key_state_rm_auth_control_file_def
        split: option.splits if_splits)
  have plugin: "username_ok ?opt ?u \<and> f ?raw ?p ?cn = s1" if "ae_plugin ae = Some f" "s1 \<noteq> OPENVPN_PLUGIN_FUNC_ERROR" for f
    using p that by (auto simp: verify_user_pass_plugin_def Let_def split: if_splits)
  obtain b m2 where l: "tls_lock_username (multi_primary_set m i ks) (Some ?u) = (b, m2)" by fastforce
  define s2 where "s2 = (if to_auth_user_pass_verify_script ?opt then verify_user_pass_script ae ?opt ?cn ?u ?p else True)"
  define man where "man = (if ae_mgmt_def_auth ae then verify_user_pass_management ?opt ?u else KMDA_UNDEF)"
  define s1' where "s1' = (if to_ssl_flags ?opt AND SSLF_USERNAME_AS_COMMON_NAME \<noteq> 0 \<and> length ?u \<ge> TLS_USERNAME_LEN then OPENVPN_PLUGIN_FUNC_ERROR else s1)"
  have ok: "(s1' = OPENVPN_PLUGIN_FUNC_SUCCESS \<or> s1' = OPENVPN_PLUGIN_FUNC_DEFERRED) \<and> s2 \<and> man \<noteq> KMDA_ERROR"
  proof (rule ccontr)
    assume c: "\<not> ?thesis"
    have "user_pass_verdict ae m i u p = multi_primary_set m i ks"
      unfolding user_pass_verdict_def Let_def p prod.case l s2_def [symmetric] man_def [symmetric] s1'_def [symmetric]
      using c by (simp only: if_False)
    then show False using a v ks by simp
  qed
  have b: b
  proof (rule ccontr)
    assume c: "\<not> b"
    have "user_pass_verdict ae m i u p = m2"
      unfolding user_pass_verdict_def Let_def p prod.case l s2_def [symmetric] man_def [symmetric] s1'_def [symmetric]
      using c ok by (simp only: if_True bool.case simp_thms)
    moreover have "m2 = tls_deauthenticate (multi_primary_set m i ks)" using l c by (auto simp: tls_lock_username_def split: option.splits if_splits)
    ultimately show False using a v deauthenticated [of "multi_primary_set m i ks" i] by simp
  qed
  have s1: "s1 = OPENVPN_PLUGIN_FUNC_SUCCESS \<or> s1 = OPENVPN_PLUGIN_FUNC_DEFERRED" "s1 \<noteq> OPENVPN_PLUGIN_FUNC_ERROR"
    using ok by (auto simp: s1'_def OPENVPN_PLUGIN_FUNC_SUCCESS_def OPENVPN_PLUGIN_FUNC_DEFERRED_def OPENVPN_PLUGIN_FUNC_ERROR_def split: if_splits)
  have script: "username_ok ?opt ?u \<and> ae_script ae ?u ?p ?cn" if "to_auth_user_pass_verify_script ?opt"
    using ok that by (auto simp: s2_def verify_user_pass_script_def split: if_splits)
  have mgmt: "username_ok ?opt ?u" if "ae_mgmt_def_auth ae"
    using ok that by (auto simp: man_def verify_user_pass_management_def split: if_splits)
  have lock: "tm_locked_username m = None \<or> tm_locked_username m = Some ?u"
    using l b by (auto simp: tls_lock_username_def split: option.splits if_splits)
  show ?thesis unfolding login_ok_def Let_def using lock script mgmt plugin [OF _ s1(2)] s1(1) by auto
qed

lemma login_ok_cong: "tm_opt m' = tm_opt m \<Longrightarrow> tm_locked_username m' = tm_locked_username m \<Longrightarrow> login_ok ae m' = login_ok ae m"
  by (intro ext) (simp add: login_ok_def)

lemma user_pass_verdict_locked:
  "tm_opt (user_pass_verdict ae m i u p) = tm_opt m \<and> tm_locked_cn (user_pass_verdict ae m i u p) = tm_locked_cn m
   \<and> tm_locked_cert_hash_set (user_pass_verdict ae m i u p) = tm_locked_cert_hash_set m"
proof -
  let ?opt = "tm_opt m" and ?cn = "pc_common_name (multi_peer m i)"
  let ?u = "string_mod_sslname u COMMON_NAME_CHAR_CLASS (to_ssl_flags ?opt)"
  obtain s1 ks where p: "(case ae_plugin ae of
        Some plugin_call \<Rightarrow> verify_user_pass_plugin ae ?opt ?cn plugin_call ?u (snd (string_mod p CC_PRINT CC_CRLF 95)) (snd (string_mod u CC_PRINT CC_CRLF 95)) (multi_primary m i)
      | None \<Rightarrow> (OPENVPN_PLUGIN_FUNC_SUCCESS, multi_primary m i)) = (s1, ks)" by fastforce
  obtain b m2 where l: "tls_lock_username (multi_primary_set m i ks) (Some ?u) = (b, m2)" by fastforce
  have m2: "tm_opt m2 = tm_opt m \<and> tm_locked_cn m2 = tm_locked_cn m \<and> tm_locked_cert_hash_set m2 = tm_locked_cert_hash_set m"
    using l by (auto simp: tls_lock_username_def split: option.splits if_splits)
  show ?thesis unfolding user_pass_verdict_def Let_def p prod.case l using m2 by (cases b) auto
qed

lemma identity_ok_cong:
  "tm_opt m' = tm_opt m \<Longrightarrow> tm_locked_cn m' = tm_locked_cn m \<Longrightarrow> tm_locked_cert_hash_set m' = tm_locked_cert_hash_set m \<Longrightarrow>
   identity_ok ae m' = identity_ok ae m"
  by (intro ext) (simp add: identity_ok_def)

definition login_needed :: "auth_env \<Rightarrow> 's tls_multi \<Rightarrow> bool" where
  "login_needed ae m \<longleftrightarrow> to_auth_user_pass_verify_script (tm_opt m) \<or> ae_plugin ae \<noteq> None \<or> ae_mgmt_def_auth ae"

lemma authenticate_authenticated:
  assumes v: "key_valid m i" and r: "key_method_2_authenticate ae m i b = (True, m', b')"
    and a: "ks_authenticated (multi_primary m' i)"
  shows "tm_opt m' = tm_opt m \<and> tm_locked_cn m' = tm_locked_cn m \<and> tm_locked_cert_hash_set m' = tm_locked_cert_hash_set m
    \<and> (if login_needed ae m then (\<exists>u p. login_ok ae m (pc_common_name (multi_peer m i)) u p) else pc_verified (multi_peer m i))"
proof (cases "login_needed ae m")
  case False
  then have "\<not> (to_auth_user_pass_verify_script (tm_opt (set_authenticated m i False)) \<or> ae_plugin ae \<noteq> None \<or> ae_mgmt_def_auth ae)"
    by (simp add: login_needed_def)
  then show ?thesis using r v False unfolding key_method_2_authenticate_def Let_def by (simp split: if_splits) auto
next
  case True
  let ?m = "set_authenticated m i False"
  obtain x b1 where x: "read_user_pass (tm_opt ?m) b = (x, b1)" by fastforce
  obtain info b2 where info: "read_string_alloc b1 = (info, b2)" by fastforce
  have n: "to_auth_user_pass_verify_script (tm_opt ?m) \<or> ae_plugin ae \<noteq> None \<or> ae_mgmt_def_auth ae" using True by (simp add: login_needed_def)
  obtain u p where up: "x = Some (u, p)" and m': "m' = user_pass_verdict ae (?m\<lparr>tm_peer_info := info\<rparr>) i u p"
    using r n unfolding key_method_2_authenticate_def Let_def x prod.case by (auto simp: info split: option.splits)
  let ?m2 = "?m\<lparr>tm_peer_info := info\<rparr>"
  have f: "multi_primary ?m2 i = multi_primary ?m i" "multi_peer ?m2 i = multi_peer ?m i" "key_valid ?m2 i"
    using v set_authenticated_key(3) [OF v, of False] by (simp_all add: multi_key_def multi_peer_def multi_session_def key_valid_def)
  have "login_ok ae ?m2 (pc_common_name (multi_peer ?m2 i)) u p"
    using user_pass_verdict_authenticated [OF f(3)] a f v unfolding m' by simp
  then have "login_ok ae m (pc_common_name (multi_peer m i)) u p"
    using f(2) v login_ok_cong [of ?m2 m ae] by simp
  then show ?thesis using True by (auto simp: m' user_pass_verdict_locked)
qed


definition ex_ae :: auth_env where
  "ex_ae = \<lparr>ae_mgmt_def_auth = False, ae_file = \<lambda>f. None, ae_temp_file = None, ae_plugin = None, ae_script = \<lambda>u p f. False,
     ae_plugin_final = None, ae_user_pass = None, ae_push_peer_info = None\<rparr>"

definition ex_key_message :: buffer where
  \<comment> \<open>key method 2, zero key material, an empty options string\<close>
  "ex_key_message = \<lparr>b_capacity = 120, b_offset = 0, b_len = 120, b_data = Some ([0, 0, 0, 0, 2] @ replicate 112 0 @ [0, 1, 0])\<rparr>"

definition ex_login :: "unit tls_multi" where
  \<comment> \<open>a server whose client has shown the certificate of ``a'', the name that is locked\<close>
  "ex_login = (tls_multi_init ex_options ex_tls_key)\<lparr>tm_locked_cn := Some [97],
     tm_session := [tls_session_clear\<lparr>se_peer := peer_cert_clear\<lparr>pc_common_name := Some [97], pc_verified := True\<rparr>,
       se_key := [key_state_clear\<lparr>ks_state := S_START, ks_plaintext_read_buf := ex_key_message\<rparr>, key_state_clear]\<rparr>, tls_session_clear, tls_session_clear]\<rparr>"

lemma ex_login_read:
  "case key_method_2_read ex_env ex_ae ex_world ex_login 0 of Inr (ok, m') \<Rightarrow> ok \<and> ks_authenticated (multi_primary m' 0) | Inl e \<Rightarrow> False"
  by code_simp

section \<open>Deferred and refused keys\<close>

definition key_verdict :: "auth_env \<Rightarrow> 's key_state \<Rightarrow> u32" where
  \<comment> \<open>the answers of plugin and management interface together\<close>
  "key_verdict ae ks = acf_merge ! unat (push_bit 2 (fst (key_state_test_auth_control_file ae ks)) + man_def_auth_test ae ks)"

definition scan_ok :: "'s tls_multi \<Rightarrow> bool" where
  "scan_ok m \<longleftrightarrow> (\<forall>p \<in> set key_scan. fst p < length (tm_session m) \<and> snd p < length (se_key (multi_session m (fst p))))"

lemma multi_ok_scan: "multi_ok m \<Longrightarrow> scan_ok m"
  using multi_okD(2) [of m] multi_okD(5) [of m 0] multi_okD(5) [of m 2] by (auto simp: scan_ok_def key_scan_def index_defs)

lemma multi_key_set_other:
  assumes "scan_ok m" "p \<in> set key_scan" "q \<in> set key_scan"
  shows "multi_key (multi_key_set m q k) p = (if p = q then k else multi_key m p)" "scan_ok (multi_key_set m q k)"
  using assms by (auto simp: scan_ok_def multi_key_set_def multi_key_def prod_eq_iff)

lemma tas_loop_keys:
  assumes "tas_loop ae now ps m a s d = Inr (a', s', d', m')" "scan_ok m" "set ps \<subseteq> set key_scan" "distinct ps" "p \<in> set key_scan"
  shows "if p \<in> set ps \<and> DECRYPT_KEY_ENABLED m (multi_key m p) \<and> ks_authenticated (multi_key m p)
    then \<exists>x y. tas_key ae now (multi_key m p) = Inr (x, y, multi_key m' p) else multi_key m' p = multi_key m p"
  using assms(1-4)
proof (induction ps arbitrary: m a s d)
  case (Cons q ps)
  let ?on = "\<lambda>m p. DECRYPT_KEY_ENABLED m (multi_key m p) \<and> ks_authenticated (multi_key m p)"
  show ?case
  proof (cases "?on m q")
    case False
    then obtain a2 where "tas_loop ae now ps m a2 s d = Inr (a', s', d', m')"
      using Cons.prems(1) by (auto simp: Let_def split: if_splits)
    from Cons.IH [OF this Cons.prems(2)] Cons.prems(3,4) False show ?thesis by (auto split: if_splits)
  next
    case True
    then obtain x y k where k: "tas_key ae now (multi_key m q) = Inr (x, y, k)"
        "tas_loop ae now ps (multi_key_set m q k) True (s \<or> x) (d \<or> y) = Inr (a', s', d', m')"
      using Cons.prems(1) by (auto simp: Let_def bind_result_Inr)
    have q: "q \<in> set key_scan" "q \<notin> set ps" using Cons.prems(3,4) by auto
    note o = multi_key_set_other [OF Cons.prems(2) assms(5) q(1), of k]
    have e: "DECRYPT_KEY_ENABLED (multi_key_set m q k) = DECRYPT_KEY_ENABLED m" by (intro ext) (simp add: DECRYPT_KEY_ENABLED_def)
    from Cons.IH [OF k(2) o(2)] Cons.prems(3,4) show ?thesis
      using o(1) e k(1) q(2) True by (cases "p = q") auto
  qed
qed simp

lemma tas_key_result:
  assumes "tas_key ae now ks = Inr (x, y, ks')" "ks_authenticated ks'" "\<not> ks_auth_deferred ks'"
  shows "key_verdict ae ks \<noteq> ACF_FAILED \<and> (ks_auth_deferred ks \<longrightarrow> key_verdict ae ks \<in> {ACF_SUCCEEDED, ACF_DISABLED})"
proof -
  obtain s1 k1 where k1: "key_state_test_auth_control_file ae ks = (s1, k1)" by fastforce
  then have "man_def_auth_test ae k1 = man_def_auth_test ae ks" "ks_auth_deferred k1 = ks_auth_deferred ks"
    by (auto simp: key_state_test_auth_control_file_def man_def_auth_test_def Let_def split: option.splits if_splits)
  then show ?thesis using assms k1
    by (auto simp: tas_key_def key_verdict_def Let_def ACF_FAILED_def ACF_SUCCEEDED_def ACF_DISABLED_def ACF_UNDEFINED_def split: if_splits)
qed

lemma encrypt_key_loop_some:
  "encrypt_key_loop now m sel ps = Some p \<Longrightarrow> sel = Some p \<or> p \<in> set ps \<and> encrypt_key_ok (multi_key m p)"
  by (induction ps arbitrary: sel) (fastforce simp: Let_def split: if_splits)+

lemma tls_pre_encrypt_key:
  assumes "tls_pre_encrypt now m b opt = (m', b', opt')" "tm_save_ks m' = Some p"
  shows "p \<in> set key_scan \<and> encrypt_key_ok (multi_key m p)"
proof -
  let ?m = "m\<lparr>tm_save_ks := None\<rparr>"
  have "multi_key ?m p = multi_key m p" by (simp add: multi_key_def multi_session_def)
  then show ?thesis
    using assms encrypt_key_loop_some [of now ?m None key_scan p]
    by (auto simp: tls_pre_encrypt_def Let_def split: option.splits if_splits)
qed


section \<open>Examples\<close>

definition ex_info :: link_socket_info where
  "ex_info = \<lparr>lsi_lsa = \<lparr>lsa_local = sockaddr_zero, lsa_remote = sockaddr_zero, lsa_actual = link_socket_actual_zero\<rparr>, lsi_connection_established = False,
     lsi_remote_float = False, lsi_proto = 0, lsi_mtu_changed = 0\<rparr>"

definition ex_step :: "unit tls_multi \<Rightarrow> unit tls_step" where
  "ex_step m = \<lparr>ts_world = ex_world, ts_multi = m, ts_to_link = clear_buf, ts_link_addr = None, ts_info = ex_info,
     ts_wakeup = 60, ts_active = False, ts_change = False\<rparr>"

definition ex_with_key :: "unit key_state \<Rightarrow> unit tls_multi" where
  "ex_with_key ks = multi_primary_set ex_login 0 ks"

theorem short_key_message_stops_the_process_witness:
  "tp_receive_key ex_env ex_ae 0 (ex_step (ex_with_key (key_state_clear\<lparr>ks_state := S_START,
     ks_plaintext_read_buf := \<lparr>b_capacity = 4, b_offset = 0, b_len = 1, b_data = Some [7, 0, 0, 0]\<rparr>\<rparr>))) = Inl AssertFailed"
  by (rule short_key_message_stops_the_process) code_simp+

theorem opt_verify_skipped_witness:
  "let m = ex_login\<lparr>tm_opt := ex_options\<lparr>to_remote_options := [86, 52, 44], to_ssl_flags := SSLF_OPT_VERIFY\<rparr>\<rparr>
   in [88, 52, 44] \<noteq> to_remote_options (tm_opt m) \<and> check_remote_options m 0 [88, 52, 44] = m"
  using opt_verify_skipped [of "[88, 52, 44]" "ex_login\<lparr>tm_opt := ex_options\<lparr>to_remote_options := [86, 52, 44], to_ssl_flags := SSLF_OPT_VERIFY\<rparr>\<rparr>" 0]
  by (simp add: Let_def)


definition ex_got_key :: "unit key_state" where
  "ex_got_key = key_state_clear\<lparr>ks_state := S_GOT_KEY, ks_authenticated := True, ks_key_id := 2,
     ks_packet_id := projr (packet_id_init 64 15), ks_remote_addr := ks_remote_addr ex_ks\<rparr>"


definition ex_deferred :: "unit key_state" where
  "ex_deferred = key_state_clear\<lparr>ks_state := S_ACTIVE, ks_authenticated := True, ks_auth_deferred := True,
     ks_auth_control_file := Some [97]\<rparr>"

definition ex_plugin_ae :: auth_env where
  \<comment> \<open>the plugin has written 1 to its control file\<close>
  "ex_plugin_ae = ex_ae\<lparr>ae_file := \<lambda>f. Some [49]\<rparr>"


end
