(* ===== verification/Spec2Isabelle.thy ===== *)
theory Spec2Isabelle
  imports Control_Channel Crypto Hash_Table Hmac_Sha1 Firma Stream_Buf Fragment Schedule Mbuf Management Pool_Persist Status Cert_Chain Tls_Access
begin

text \<open>
  A verification library for the C programs of this repository: two command-line programs of the
  assignments (\<open>src/practica2/hmacsha1.c\<close>, \<open>src/practica3/sign.c\<close>) and the OpenVPN 2.2.1 sources in
  \<open>src/vpn/openvpn-2.2.1\<close>, which make up nearly all of its C code.

  \<^bold>\<open>The programs.\<close>  \<open>hmacsha1.c\<close> prints the HMAC-SHA1 of a file under a key file.  \<open>sign.c\<close> signs a file
  with RSA and SHA-512 and verifies such signatures.  An OpenVPN peer reads datagrams from a socket,
  splits a TCP stream into packets (socket.c), hands control packets to a reliability layer (reliable.c) under TLS
  (ssl.c) and data packets to authentication, decryption and replay protection (crypto.c, packet_id.c),
  reassembles fragments (fragment.c) and writes the result to the tunnel; the other direction runs the same stages
  backwards.  All stages work in place on \<open>struct buffer\<close> (buffer.h), whose head and tail room is fixed by the frame
  computation of mtu.c.  The server keeps its clients in hash tables (list.c), their timers in a treap (schedule.c) and
  their pending broadcasts in a ring (mbuf.c); manage.c lets an operator talk to the process.

  \<^bold>\<open>Theories.\<close>  Each theory opens with what it models; a definition has the name of the C function it translates,
  a record field that of the C member behind a prefix, and a loop of a function is a definition of its own.
  \<^item> \<open>Prelude\<close>: machine types, \<open>result\<close> (a fault or a value), memory blocks, network byte order.
  \<^item> \<open>Integers\<close>: integer.h and the circular lists of circ_list.h (locale \<open>recency_list\<close>).
  \<^item> \<open>Buffer\<close>: buffer.h and the allocation half of buffer.c; invariant \<open>buf_ok\<close>, abstract view \<open>buf_contents\<close>
    (locale \<open>byte_channel\<close>).  \<open>Buf_Strings\<close>: strings, character classes and buffer lists of buffer.c.
  \<^item> \<open>Packet_Id\<close>: packet_id.c and the replay check of crypto.c; the receiver refines a sliding window over a set of
    accepted numbers.  \<open>Session_Id\<close>: session_id.h.
  \<^item> \<open>Reliable\<close>: reliable.c.  \<open>Control_Channel\<close>: two peers over a network that drops, repeats and reorders packets, from
    the steps of ssl.c that call reliable.c; in-order delivery, no loss by early acknowledgement, no deadlock, progress.
  \<^item> \<open>Mtu\<close>: mtu.h, mtu.c.  \<open>Crypto\<close>: openvpn_encrypt and openvpn_decrypt of crypto.c.
  \<^item> \<open>Stream_Buf\<close>: packets over TCP (socket.c, ps.c).  \<open>Fragment\<close>: fragment.c.
  \<^item> \<open>Hash_Table\<close>: list.c (locale \<open>dictionary\<close>).  \<open>Timers\<close>: otime.c, interval.c, shaper.c.  \<open>Schedule\<close>: schedule.c on a
    heap of linked entries, refining a map.  \<open>Mbuf\<close>: mbuf.c with reference counts, refining a bounded queue.
  \<^item> \<open>Management\<close>: the client connection of manage.c.  \<open>Status\<close>: the files of status.c.  \<open>Pool\<close>, \<open>Pool_Persist\<close>: the
    address pool of the server (pool.c) and its persistence file.
  \<^item> \<open>Hex_Format\<close>, \<open>Keys\<close>: hexadecimal text, key files, key contexts and the pseudo-random generator of crypto.c.
    \<open>Key_Exchange\<close>: the TLS 1.0 PRF and the parts of the key messages (ssl.c), against RFC 2246.
  \<^item> \<open>Link_Addr\<close>: socket addresses, which packets are accepted and where answers go (socket.c).
  \<^item> \<open>Tls_Auth\<close>: authenticated control packets (\<open>--tls-auth\<close>) and the check of the first packet of a client.
  \<^item> \<open>Tls_State\<close>: \<open>key_state\<close>, \<open>tls_session\<close>, \<open>tls_multi\<close> and the TLS library as a parameter (\<open>tls_env\<close>).
    \<open>Tls_Session\<close>: creation, renegotiation and release of sessions.  \<open>Tls_Decrypt\<close>: \<open>tls_pre_decrypt\<close> and
    \<open>tls_pre_encrypt\<close>.  \<open>Tls_Verify\<close>: certificates, locked names, deferred authentication.  \<open>Key_Method\<close>: the messages of
    both key methods.  \<open>Tls_Process\<close>: the handshake (\<open>tls_process\<close>) and the rounds of all sessions (\<open>tls_multi_process\<close>).
  \<^item> \<open>Tls_Invariant\<close>: the well-formedness \<open>multi_ok\<close> of sessions and its preservation.  \<open>Tls_Reach\<close>: the states a process
    reaches (an inductive relation over packets, rounds, data and management decisions); no packet stops it.
    \<open>Tls_Access\<close>: what an authenticated key proves of the peer, and the gaps the code leaves.  \<open>Cert_Chain\<close>: what an
    accepted certificate chain proves.
  \<^item> \<open>Posix_IO\<close>, \<open>Hmac_Sha1\<close>, \<open>Firma\<close>: the two assignment programs and the stdio calls they use.

  \<^bold>\<open>Parameters.\<close>  The ciphers, HMAC and digests of OpenSSL, PEM and base 64 reading, the file system, the network, the
  clock, random numbers, uninitialized memory (\<open>junk\<close>) and the addresses given by \<open>malloc\<close> are arguments of the
  definitions; what a theorem needs of them (a cipher that decrypts what it encrypted, a clock) is a hypothesis with a
  witness.  For the sessions these hypotheses are \<open>env_ok\<close> (\<open>SSL_new\<close> returns an object, the random generator is not zero
  for ever) and \<open>world_ok\<close> (a clock that has started, no replay file).

  \<^bold>\<open>Faults, loops and bounds.\<close>  A failed \<open>ASSERT\<close>, a fatal message and a bad pointer are values of \<open>fault\<close>.
  Loops are recursions with a termination proof; where the code may loop on a corrupted structure they are
  \<open>partial_function (option)\<close>, and the theorems state that they return.  The loops that wait for random numbers, read a
  file to its end or repeat until nothing changes (\<open>generate_key_random\<close>, \<open>prng_bytes_loop\<close>, \<open>p_hash_loop\<close>,
  \<open>pool_read_loop\<close>, \<open>session_id_loop\<close>, \<open>tp_loop\<close>) are of that kind; a function that calls one has the outcome
  \<open>Diverges\<close> for a loop that does not end.  No fuel is used.  Unsigned integers are words;
  \<open>int\<close> and \<open>time_t\<close> are unbounded integers, exact wherever the C code is defined.

  \<^bold>\<open>Not modelled.\<close>  Code that only talks to the operating system or to a library (tun.c, route.c, win32.c, the socket set-up
  of socket.c, plugin.c, pkcs11.c, lzo.c, event.c, proxy.c, socks.c, the tap driver and the Windows service), the option
  table of options.c, the event loops and daemon start of init.c, forward.c, mudp.c and mtcp.c, the set-up of the
  TLS library in ssl.c, and the earlier drafts of the assignment programs.
\<close>

end
